(* ===== verification/Go_Prelude.thy ===== *)
theory Go_Prelude
  imports Main "HOL-Library.Word" "HOL-Library.AList" "HOL-Library.Multiset"
begin

text \<open>
  What every component of the model shares: how Go values are represented, and the lemmas on
  them that the component theories use.

  \<^item> Go's \<open>int\<close> and \<open>int64\<close> are \<open>int\<close>; where a width matters (the wire prelude, the
    nanosecond conversion) it is written out with words or with \<open>int64\<close> below. Go's \<open>/\<close> and
    \<open>%\<close> truncate towards zero: \<open>quo\<close> and \<open>rem\<close>.
  \<^item> A slice is an option of a list (\<open>None\<close> is the nil slice, which the program
    distinguishes from the empty one in places), \<open>elems\<close> reads it.
  \<^item> A Go map is an association list with distinct keys. The order in which \<open>range\<close> visits
    a map is chosen by the runtime: a function that ranges over a map takes that order as a
    parameter \<open>ord\<close>, of which only \<open>range_order ord\<close> is known (every entry is visited
    exactly once).
  \<^item> \<open>time.Time\<close> is the instant in nanoseconds since the Unix epoch.
  \<^item> An \<open>error\<close> value is an element of \<open>gerror\<close>, nil is \<open>None\<close>; a call that
    returns an error or a value is a sum.
\<close>

section \<open>Collections of rewrite rules\<close>

named_theorems layout_simps \<open>definitions of the erasure and bitrot size functions\<close>
named_theorems quorum_simps \<open>definitions of the quorum and metadata-selection functions\<close>
named_theorems frame_simps \<open>definitions of the frame codec\<close>
named_theorems lock_simps \<open>definitions of the lock operations\<close>

section \<open>Integers\<close>

text \<open>Go's division of signed integers truncates towards zero.\<close>

definition quo :: "int \<Rightarrow> int \<Rightarrow> int" where
  "quo a b = sgn a * sgn b * (\<bar>a\<bar> div \<bar>b\<bar>)"

definition rem :: "int \<Rightarrow> int \<Rightarrow> int" where
  "rem a b = a - b * quo a b"

lemma quo_nonneg [simp]: "0 \<le> a \<Longrightarrow> 0 < b \<Longrightarrow> quo a b = a div b"
  by (cases "a = 0") (auto simp: quo_def)

lemma rem_nonneg [simp]: "0 \<le> a \<Longrightarrow> 0 < b \<Longrightarrow> rem a b = a mod b"
  by (simp add: rem_def minus_mult_div_eq_mod)

text \<open>The value an \<open>int64\<close> holds after an operation whose exact result is \<open>x\<close>.\<close>

definition int64 :: "int \<Rightarrow> int" where
  "int64 x = (x + 2 ^ 63) mod 2 ^ 64 - 2 ^ 63"

definition is_int64 :: "int \<Rightarrow> bool" where
  "is_int64 x \<longleftrightarrow> - (2 ^ 63) \<le> x \<and> x < 2 ^ 63"

lemma int64_id [simp]: "is_int64 x \<Longrightarrow> int64 x = x"
  by (simp add: int64_def is_int64_def)

lemma is_int64_int64 [simp]: "is_int64 (int64 x)"
  using pos_mod_bound[of "2 ^ 64" "x + 2 ^ 63"] pos_mod_sign[of "2 ^ 64" "x + 2 ^ 63"]
  by (simp add: int64_def is_int64_def)

section \<open>Decimal notation\<close>

text \<open>\<open>strconv.Itoa\<close> and \<open>%d\<close>.\<close>

fun digits :: "nat \<Rightarrow> string" where
  "digits n = (if n < 10 then [char_of (48 + n)] else digits (n div 10) @ [char_of (48 + n mod 10)])"

declare digits.simps [simp del]

definition itoa :: "int \<Rightarrow> string" where
  "itoa i = (if i < 0 then CHR ''-'' # digits (nat (- i)) else digits (nat i))"

definition undigits :: "string \<Rightarrow> nat" where
  "undigits s = foldl (\<lambda>n c. n * 10 + (of_char c - 48)) 0 s"

lemma undigits_digits: "undigits (digits n) = n"
proof (induction n rule: digits.induct)
  case (1 n)
  show ?case
  proof (cases "n < 10")
    case True
    then show ?thesis by (simp add: digits.simps[of n] undigits_def)
  next
    case False
    then have "undigits (digits (n div 10)) = n div 10" using 1 by simp
    then show ?thesis using False by (simp add: digits.simps[of n] undigits_def)
  qed
qed

lemma digits_inject [simp]: "digits m = digits n \<longleftrightarrow> m = n"
  by (metis undigits_digits)

section \<open>Slices and maps\<close>

type_synonym byte = "8 word"

type_synonym 'a slice = "'a list option"

definition elems :: "'a slice \<Rightarrow> 'a list" where
  "elems s = (case s of None \<Rightarrow> [] | Some xs \<Rightarrow> xs)"

lemma elems_simps [simp]: "elems None = []" "elems (Some xs) = xs"
  by (simp_all add: elems_def)

text \<open>\<open>append([]T(nil), s...)\<close>: a copy of the elements; nil when there is none.\<close>

definition copy_slice :: "'a slice \<Rightarrow> 'a slice" where
  "copy_slice s = (if elems s = [] then None else Some (elems s))"

lemma elems_copy_slice [simp]: "elems (copy_slice s) = elems s"
  by (simp add: copy_slice_def)

lemma copy_slice_idem [simp]: "copy_slice (copy_slice s) = copy_slice s"
  by (simp add: copy_slice_def)

type_synonym strmap = "(string \<times> string) list option"

text \<open>\<open>v, ok := m[k]\<close> and \<open>m[k]\<close> on a \<open>map[string]string\<close>, nil included.\<close>

definition mget :: "strmap \<Rightarrow> string \<Rightarrow> string option" where
  "mget m k = map_of (elems m) k"

definition mgetd :: "strmap \<Rightarrow> string \<Rightarrow> string" where
  "mgetd m k = (case mget m k of None \<Rightarrow> [] | Some v \<Rightarrow> v)"

definition mhas :: "strmap \<Rightarrow> string \<Rightarrow> bool" where
  "mhas m k \<longleftrightarrow> mget m k \<noteq> None"

definition mput :: "strmap \<Rightarrow> string \<Rightarrow> string \<Rightarrow> strmap" where
  "mput m k v = Some (AList.update k v (elems m))"

definition wf_strmap :: "strmap \<Rightarrow> bool" where
  "wf_strmap m \<longleftrightarrow> distinct (map fst (elems m))"

lemma mget_mput: "mget (mput m k v) k' = (if k' = k then Some v else mget m k')"
  by (simp add: mget_def mput_def update_conv)

lemma wf_mput [simp]: "wf_strmap m \<Longrightarrow> wf_strmap (mput m k v)"
  by (simp add: wf_strmap_def mput_def distinct_update)

text \<open>Two maps hold the same entries.\<close>

definition same_map :: "strmap \<Rightarrow> strmap \<Rightarrow> bool" where
  "same_map m m' \<longleftrightarrow> mset (elems m) = mset (elems m')"

lemma same_map_mget:
  assumes "wf_strmap m" and "same_map m m'"
  shows "mget m' k = mget m k"
proof -
  have "mset (map fst (elems m')) = mset (map fst (elems m))"
    using assms(2) by (simp add: same_map_def)
  then have d: "distinct (map fst (elems m'))"
    using assms(1) mset_eq_imp_distinct_iff unfolding wf_strmap_def by blast
  have s: "set (elems m') = set (elems m)"
    using assms(2) by (metis same_map_def set_mset_mset)
  show ?thesis
    unfolding mget_def
    using map_of_inject_set[OF d] assms(1) s unfolding wf_strmap_def by metis
qed

section \<open>The order of a range loop\<close>

definition range_order :: "('a list \<Rightarrow> 'a list) \<Rightarrow> bool" where
  "range_order ord \<longleftrightarrow> (\<forall>xs. mset (ord xs) = mset xs)"

lemma range_order_id [simp]: "range_order (\<lambda>xs. xs)"
  by (simp add: range_order_def)

lemma range_order_rev [simp]: "range_order rev"
  by (simp add: range_order_def)

lemma range_order_set: "range_order ord \<Longrightarrow> set (ord xs) = set xs"
  by (metis range_order_def set_mset_mset)

lemma range_order_length: "range_order ord \<Longrightarrow> length (ord xs) = length xs"
  by (metis range_order_def size_mset)

lemma range_order_distinct: "range_order ord \<Longrightarrow> distinct (ord xs) = distinct xs"
  by (metis range_order_def mset_eq_imp_distinct_iff)

lemma range_order_distinct_keys:
  assumes "range_order ord"
  shows "distinct (map fst (ord xs)) = distinct (map fst xs)"
proof -
  have "mset (map fst (ord xs)) = mset (map fst xs)"
    using assms by (simp add: range_order_def)
  then show ?thesis by (rule mset_eq_imp_distinct_iff)
qed

section \<open>Counting occurrences\<close>

text \<open>\<open>m[k]++\<close> on a map of counters, and the map a loop of such increments builds.\<close>

definition bump :: "'k \<Rightarrow> ('k \<times> int) list \<Rightarrow> ('k \<times> int) list" where
  "bump k m = AList.update k (case map_of m k of None \<Rightarrow> 1 | Some c \<Rightarrow> c + 1) m"

definition tally :: "'k list \<Rightarrow> ('k \<times> int) list" where
  "tally ks = fold bump ks []"

abbreviation occ :: "'k \<Rightarrow> 'k list \<Rightarrow> int" where
  "occ k ks \<equiv> int (count_list ks k)"

lemma fold_bump_map_of:
  "map_of (fold bump ks m) k =
     (case map_of m k of Some c \<Rightarrow> Some (c + occ k ks)
      | None \<Rightarrow> if k \<in> set ks then Some (occ k ks) else None)"
proof (induction ks arbitrary: m)
  case Nil
  then show ?case by (simp split: option.split)
next
  case (Cons x ks)
  then show ?case
    by (auto simp: bump_def update_conv split: option.splits)
qed

lemma tally_map_of: "map_of (tally ks) k = (if k \<in> set ks then Some (occ k ks) else None)"
  by (simp add: tally_def fold_bump_map_of)

lemma tally_distinct [simp]: "distinct (map fst (tally ks))"
proof -
  have "distinct (map fst m) \<Longrightarrow> distinct (map fst (fold bump ks m))" for m
    by (induction ks arbitrary: m) (auto simp: bump_def distinct_update)
  then show ?thesis by (simp add: tally_def)
qed

lemma tally_iff: "(k, c) \<in> set (tally ks) \<longleftrightarrow> k \<in> set ks \<and> c = occ k ks"
  by (metis map_of_eq_Some_iff option.discI option.inject tally_distinct tally_map_of)

lemma occ_pos: "k \<in> set ks \<Longrightarrow> 0 < occ k ks"
  by (simp add: count_list_0_iff zero_less_iff_neq_zero)

lemma two_occ_le: "a \<noteq> b \<Longrightarrow> occ a ks + occ b ks \<le> int (length ks)"
  by (induction ks) auto

text \<open>
  The loop \<open>if count > max { max = count; arg = key }\<close>, with \<open>max\<close> starting at zero, and
  what it computes whatever the order of the entries.
\<close>

fun scan_max :: "('k \<times> int) list \<Rightarrow> int \<times> 'k \<Rightarrow> int \<times> 'k" where
  "scan_max [] (mx, arg) = (mx, arg)"
| "scan_max ((k, c) # es) (mx, arg) = scan_max es (if c > mx then (c, k) else (mx, arg))"

lemma scan_max_cases:
  assumes "scan_max es (mx, arg) = (mx', arg')"
  shows "(mx' = mx \<and> arg' = arg \<and> (\<forall>(k, c) \<in> set es. c \<le> mx))
    \<or> ((arg', mx') \<in> set es \<and> mx < mx' \<and> (\<forall>(k, c) \<in> set es. c \<le> mx'))"
  using assms
proof (induction es arbitrary: mx arg)
  case Nil
  then show ?case by simp
next
  case (Cons e es)
  obtain k c where e: "e = (k, c)" by (cases e)
  show ?case
  proof (cases "c > mx")
    case True
    then have "scan_max es (c, k) = (mx', arg')" using Cons.prems e by simp
    from Cons.IH[OF this] show ?thesis using True e by auto
  next
    case False
    then have "scan_max es (mx, arg) = (mx', arg')" using Cons.prems e by simp
    from Cons.IH[OF this] show ?thesis using False e by auto
  qed
qed

lemma scan_tally:
  assumes "range_order ord" and "scan_max (ord (tally ks)) (0, d) = (mx, arg)"
  shows "(\<forall>k. occ k ks \<le> mx) \<and> (mx = 0 \<and> arg = d \<and> ks = [] \<or> 0 < mx \<and> arg \<in> set ks \<and> mx = occ arg ks)"
proof -
  have *: "(k, c) \<in> set (ord (tally ks)) \<longleftrightarrow> k \<in> set ks \<and> c = occ k ks" for k c
    using range_order_set[OF assms(1)] tally_iff by metis
  have occ0: "k \<notin> set ks \<Longrightarrow> occ k ks = 0" for k by (simp add: count_list_0_iff)
  from scan_max_cases[OF assms(2)] show ?thesis
  proof
    assume a: "mx = 0 \<and> arg = d \<and> (\<forall>(k, c)\<in>set (ord (tally ks)). c \<le> 0)"
    then have "ks = []" using * occ_pos by (cases ks) fastforce+
    then show ?thesis using a by simp
  next
    assume a: "(arg, mx) \<in> set (ord (tally ks)) \<and> 0 < mx \<and> (\<forall>(k, c)\<in>set (ord (tally ks)). c \<le> mx)"
    then have "occ k ks \<le> mx" for k
      using * occ0 by (cases "k \<in> set ks") fastforce+
    then show ?thesis using a * by simp
  qed
qed

text \<open>A key that occurs more often than half of the list is found in every order.\<close>

lemma scan_tally_majority:
  assumes "range_order ord" and "scan_max (ord (tally ks)) (0, d) = (mx, arg)"
    and "int (length ks) < 2 * q" and "q \<le> occ k ks"
  shows "arg = k \<and> mx = occ k ks"
proof -
  from scan_tally[OF assms(1,2)] have le: "occ k ks \<le> mx"
    and c: "mx = 0 \<and> arg = d \<and> ks = [] \<or> 0 < mx \<and> arg \<in> set ks \<and> mx = occ arg ks" by auto
  have "q > 0" using assms(3) by simp
  then have "mx = occ arg ks" using c le assms(4) by auto
  moreover have "arg = k"
    using two_occ_le[of arg k ks] calculation le assms(3,4) by fastforce
  ultimately show ?thesis by simp
qed

end
