(* ===== verification/Go_Errors.thy ===== *)
theory Go_Errors
  imports Go_Prelude
begin

text \<open>
  The error values of the modelled code (\<open>cmd/storage-errors.go\<close>, \<open>cmd/erasure-errors.go\<close>,
  \<open>cmd/object-api-errors.go\<close>, \<open>cmd/fastopen-frame.go\<close>, the sentinels of \<open>io\<close> and
  \<open>context\<close>), \<open>errors.Is\<close> over their \<open>Unwrap\<close> chains, and instants of time.
  \<open>OtherErr\<close> stands for any error value without structure of its own, \<open>Wrapped\<close> for one
  that wraps another, \<open>GoPanic\<close> for a run-time panic of the function that returns it.
\<close>

section \<open>Error values\<close>

datatype RQErrType = RQInsufficientOnlineDrives | RQInconsistentMeta | RQUnset

datatype gerror =
    ErrDiskNotFound | ErrFaultyDisk | ErrFaultyRemoteDisk | ErrDiskAccessDenied
  | ErrUnformattedDisk | ErrDiskOngoingReq | ErrFileNotFound | ErrFileVersionNotFound
  | ErrFileCorrupt | ErrVolumeNotFound | ErrPathNotFound | ErrUnexpected
  | ErrMethodNotAllowed | ErrInvalidArgument | ErrPartSizeZero | ErrPartSizeIndex
  | ErrErasureReadQuorum | ErrErasureWriteQuorum | ErrInvShardNum | ErrMaxShardNum
  | ContextCanceled | ContextDeadlineExceeded | IoEOF | IoUnexpectedEOF
  | ErrFastOpenFrameBadMagic | ErrFastOpenFrameBadVersion | ErrFastOpenFrameBadCRC
  | ErrFastOpenFrameHeaderTooLarge | ErrFastOpenFrameBadPayload | ErrFastOpenFrameBadBodyMode
  | ErrFastOpenFrameBadStatus | ErrFastOpenFrameBadBitrot | ErrFastGetNoFallback
  | InvalidRange int int int
  | InsufficientReadQuorum string string RQErrType
  | InsufficientWriteQuorum string string
  | FastOpenNoFallbackError "gerror option"
  | Wrapped string gerror
  | OtherErr string
  | GoPanic string

text \<open>\<open>errors.Is(err, target)\<close> for a target without an \<open>Is\<close> method: equality along the
  \<open>Unwrap\<close> chain.\<close>

fun errors_Is :: "gerror \<Rightarrow> gerror \<Rightarrow> bool" where
  "errors_Is (Wrapped s e) t = (Wrapped s e = t \<or> errors_Is e t)"
| "errors_Is (InsufficientReadQuorum b ob ty) t =
     (InsufficientReadQuorum b ob ty = t \<or> t = ErrErasureReadQuorum)"
| "errors_Is (InsufficientWriteQuorum b ob) t =
     (InsufficientWriteQuorum b ob = t \<or> t = ErrErasureWriteQuorum)"
| "errors_Is (FastOpenNoFallbackError (Some c)) t =
     (FastOpenNoFallbackError (Some c) = t \<or> t = ErrFastGetNoFallback \<or> errors_Is c t)"
| "errors_Is (FastOpenNoFallbackError None) t =
     (FastOpenNoFallbackError None = t \<or> t = ErrFastGetNoFallback)"
| "errors_Is e t = (e = t)"

lemma errors_Is_refl [simp]: "errors_Is e e"
proof (cases e)
  case (FastOpenNoFallbackError c)
  then show ?thesis by (cases c) auto
qed auto

text \<open>\<open>IsErr\<close> and \<open>IsErrIgnored\<close> of \<open>cmd/utils.go\<close>; nil matches no error.\<close>

fun IsErr :: "gerror option \<Rightarrow> gerror list \<Rightarrow> bool" where
  "IsErr None errs = False"
| "IsErr (Some e) errs = list_ex (errors_Is e) errs"

definition IsErrIgnored :: "gerror option \<Rightarrow> gerror list \<Rightarrow> bool" where
  "IsErrIgnored err ignoredErrs = IsErr err ignoredErrs"

definition baseErrs :: "gerror list" where
  "baseErrs = [ErrDiskNotFound, ErrFaultyDisk, ErrFaultyRemoteDisk]"

definition objectOpIgnoredErrs :: "gerror list" where
  "objectOpIgnoredErrs = baseErrs @ [ErrDiskAccessDenied, ErrUnformattedDisk, ErrDiskOngoingReq]"

lemma IsErr_None [simp]: "IsErrIgnored None errs = False"
  by (simp add: IsErrIgnored_def)

text \<open>\<open>unwrapAll\<close>: the innermost error of a single-error \<open>Unwrap\<close> chain. A multi-error
  (\<open>fastOpenNoFallbackError\<close>) does not unwrap here.\<close>

fun unwrapAll :: "gerror \<Rightarrow> gerror" where
  "unwrapAll (Wrapped s e) = unwrapAll e"
| "unwrapAll (InsufficientReadQuorum b ob ty) = ErrErasureReadQuorum"
| "unwrapAll (InsufficientWriteQuorum b ob) = ErrErasureWriteQuorum"
| "unwrapAll e = e"

lemma unwrapAll_idem [simp]: "unwrapAll (unwrapAll e) = unwrapAll e"
  by (induction e rule: unwrapAll.induct) auto

lemma errors_Is_unwrapAll: "errors_Is e (unwrapAll e)"
  by (induction e rule: unwrapAll.induct) auto

section \<open>Instants\<close>

type_synonym gotime = int

text \<open>The zero \<open>time.Time\<close> is January 1, year 1, 00:00:00 UTC.\<close>

definition zero_time :: gotime where
  "zero_time = - 62135596800 * 10 ^ 9"

definition IsZero :: "gotime \<Rightarrow> bool" where
  "IsZero t \<longleftrightarrow> t = zero_time"

definition timeSentinel :: gotime where
  "timeSentinel = 0"

definition UnixNano :: "gotime \<Rightarrow> int" where
  "UnixNano t = int64 t"

definition Unix0 :: "int \<Rightarrow> gotime" where
  "Unix0 n = n"

lemma sentinel_not_zero [simp]: "\<not> IsZero timeSentinel" "zero_time \<noteq> 0"
  by (simp_all add: IsZero_def timeSentinel_def zero_time_def)

lemma UnixNano_id: "is_int64 t \<Longrightarrow> UnixNano t = t"
  by (simp add: UnixNano_def)

text \<open>
  What the code takes from its surroundings when it asks whether a restored object is still on
  disk: the parser of HTTP dates (\<open>amztime.ParseHeader\<close>, over \<open>time.Parse\<close>) and the clock.
\<close>

record clock =
  ParseHeader :: "string \<Rightarrow> gotime option"
  Now :: gotime

text \<open>A clock for the examples.\<close>

definition sample_clock :: clock where
  "sample_clock = \<lparr>ParseHeader = (\<lambda>s. None), Now = 0\<rparr>"

end
