(* ===== verification/Erasure_Layout.thy ===== *)
theory Erasure_Layout
  imports Go_Errors
begin

text \<open>
  The arithmetic of the on-disk layout: how an object is cut into erasure blocks and shards
  (\<open>cmd/erasure-coding.go\<close>, \<open>ceilFrac\<close> of \<open>cmd/utils.go\<close>,
  \<open>calculatePartSizeFromIdx\<close>). A division by a zero block size is a run-time panic of the
  Go code and a \<open>GoPanic\<close> here. The Reed-Solomon code itself is a third-party package: the
  functions that call it take it as a parameter.
\<close>

section \<open>Ceiling division\<close>

definition ceilFrac :: "int \<Rightarrow> int \<Rightarrow> int" where
  "ceilFrac numerator denominator =
     (if denominator = 0 then 0
      else let n = (if denominator < 0 then - numerator else numerator);
               d = (if denominator < 0 then - denominator else denominator);
               c = quo n d
           in if n > 0 \<and> rem n d \<noteq> 0 then c + 1 else c)"

lemma ceilFrac_nonneg:
  assumes "0 \<le> n" and "0 < d"
  shows "ceilFrac n d = (n + d - 1) div d"
proof (cases "n mod d = 0")
  case True
  then have n: "n = d * (n div d)" using mult_div_mod_eq[of d n] by linarith
  have "n + d - 1 = d * (n div d) + (d - 1)" using n by linarith
  then have "(n + d - 1) div d = n div d"
    using int_div_pos_eq[of "n + d - 1" d "n div d" "d - 1"] assms(2) by simp
  then show ?thesis using True assms by (simp add: ceilFrac_def Let_def)
next
  case False
  then have r: "0 < n mod d" "n mod d < d"
    using assms(2) pos_mod_sign[of d n] by (auto simp: le_less)
  then have pos: "0 < n" using assms(1) by (cases "n = 0") auto
  have "n + d - 1 = d * (n div d + 1) + (n mod d - 1)"
    using mult_div_mod_eq[of d n] by (simp add: algebra_simps)
  then have "(n + d - 1) div d = n div d + 1"
    using int_div_pos_eq[of "n + d - 1" d "n div d + 1" "n mod d - 1"] r by simp
  then show ?thesis using False assms pos by (simp add: ceilFrac_def Let_def)
qed

lemma ceilFrac_bounds:
  assumes "0 \<le> n" and "0 < d"
  shows "n \<le> d * ceilFrac n d" and "d * ceilFrac n d < n + d"
proof -
  have e: "d * ((n + d - 1) div d) + (n + d - 1) mod d = n + d - 1" by (rule mult_div_mod_eq)
  have "0 \<le> (n + d - 1) mod d" "(n + d - 1) mod d < d" using assms(2) by auto
  with e show "n \<le> d * ceilFrac n d" "d * ceilFrac n d < n + d"
    unfolding ceilFrac_nonneg[OF assms] by linarith+
qed

lemma ceilFrac_0 [simp]: "ceilFrac 0 d = 0"
  by (simp add: ceilFrac_def quo_def Let_def)

lemma ceilFrac_ge0: "0 \<le> n \<Longrightarrow> 0 < d \<Longrightarrow> 0 \<le> ceilFrac n d"
  by (simp add: ceilFrac_nonneg pos_imp_zdiv_nonneg_iff)

lemma ceilFrac_le:
  assumes "0 \<le> n" and "0 < d" and "n \<le> d * k"
  shows "ceilFrac n d \<le> k"
proof -
  have "d * ceilFrac n d < d * (k + 1)"
    using ceilFrac_bounds(2)[OF assms(1,2)] assms(3) by (simp add: algebra_simps)
  then show ?thesis using assms(2) by simp
qed

lemma ceilFrac_mono: "0 \<le> m \<Longrightarrow> m \<le> n \<Longrightarrow> 0 < d \<Longrightarrow> ceilFrac m d \<le> ceilFrac n d"
  by (simp add: ceilFrac_nonneg zdiv_mono1)

lemma ceilFrac_mult_add:
  assumes "0 \<le> k" and "0 \<le> n" and "0 < d"
  shows "ceilFrac (k * d + n) d = k + ceilFrac n d"
proof -
  have e: "k * d + n + d - 1 = (n + d - 1) + k * d" by simp
  have "(k * d + n + d - 1) div d = k + (n + d - 1) div d"
    unfolding e using assms(3) by (subst div_mult_self1) auto
  then show ?thesis using assms by (simp add: ceilFrac_nonneg)
qed

section \<open>Erasure blocks and shards\<close>

record Erasure =
  er_dataBlocks :: int
  er_parityBlocks :: int
  er_blockSize :: int

text \<open>The lazily built encoder of \<open>NewErasure\<close> is the third-party Reed-Solomon code; the checks
  that come before it and the values it keeps are here.\<close>

definition NewErasure :: "int \<Rightarrow> int \<Rightarrow> int \<Rightarrow> gerror + Erasure" where
  "NewErasure dataBlocks parityBlocks blockSize =
     (if dataBlocks \<le> 0 \<or> parityBlocks < 0 then Inl ErrInvShardNum
      else if dataBlocks + parityBlocks > 256 then Inl ErrMaxShardNum
      else Inr \<lparr>er_dataBlocks = dataBlocks, er_parityBlocks = parityBlocks,
                er_blockSize = blockSize\<rparr>)"

definition Erasure_ShardSize :: "Erasure \<Rightarrow> int" where
  "Erasure_ShardSize e = ceilFrac (er_blockSize e) (er_dataBlocks e)"

definition Erasure_ShardFileSize :: "Erasure \<Rightarrow> int \<Rightarrow> gerror + int" where
  "Erasure_ShardFileSize e totalLength =
     (if totalLength = 0 then Inr 0
      else if totalLength = -1 then Inr (-1)
      else if er_blockSize e = 0 then Inl (GoPanic ''integer divide by zero'')
      else let numShards = quo totalLength (er_blockSize e);
               lastBlockSize = rem totalLength (er_blockSize e);
               lastShardSize = ceilFrac lastBlockSize (er_dataBlocks e)
           in Inr (numShards * Erasure_ShardSize e + lastShardSize))"

definition Erasure_ShardFileOffset :: "Erasure \<Rightarrow> int \<Rightarrow> int \<Rightarrow> int \<Rightarrow> gerror + int" where
  "Erasure_ShardFileOffset e startOffset len totalLength =
     (case Erasure_ShardFileSize e totalLength of
        Inl err \<Rightarrow> Inl err
      | Inr shardFileSize \<Rightarrow>
          if er_blockSize e = 0 then Inl (GoPanic ''integer divide by zero'')
          else let shardSize = Erasure_ShardSize e;
                   endShard = quo (startOffset + len) (er_blockSize e)
               in Inr (min (endShard * shardSize + shardSize) shardFileSize))"

text \<open>
  \<open>EncodeData\<close> and \<open>DecodeDataBlocks\<close> around the third-party encoder's \<open>Split\<close>,
  \<open>Encode\<close> and \<open>ReconstructData\<close>. The counting loop of \<open>DecodeDataBlocks\<close> leaves at the
  first empty shard, so its counter is 0 or 1.
\<close>

definition EncodeData ::
  "(byte list \<Rightarrow> gerror + byte list list) \<Rightarrow> (byte list list \<Rightarrow> gerror + byte list list)
   \<Rightarrow> Erasure \<Rightarrow> byte list \<Rightarrow> gerror + byte list list" where
  "EncodeData Split Encode e data =
     (if data = [] then Inr (replicate (nat (er_dataBlocks e + er_parityBlocks e)) [])
      else case Split data of
             Inl err \<Rightarrow> Inl err
           | Inr encoded \<Rightarrow> Encode encoded)"

fun first_empty_count :: "byte list list \<Rightarrow> int" where
  "first_empty_count [] = 0"
| "first_empty_count (b # bs) = (if b = [] then 1 else first_empty_count bs)"

definition DecodeDataBlocks ::
  "(byte list list \<Rightarrow> gerror + byte list list) \<Rightarrow> byte list list \<Rightarrow> gerror + byte list list" where
  "DecodeDataBlocks ReconstructData data =
     (let isZero = first_empty_count data
      in if isZero = 0 \<or> isZero = int (length data) then Inr data else ReconstructData data)"

text \<open>\<open>calculatePartSizeFromIdx\<close> of \<open>cmd/erasure-metadata-utils.go\<close>.\<close>

definition calculatePartSizeFromIdx :: "int \<Rightarrow> int \<Rightarrow> int \<Rightarrow> gerror + int" where
  "calculatePartSizeFromIdx totalSize partSize partIndex =
     (if totalSize < -1 then Inl ErrInvalidArgument
      else if partSize = 0 then Inl ErrPartSizeZero
      else if partIndex < 1 then Inl ErrPartSizeIndex
      else if totalSize = -1 then Inr (-1)
      else if totalSize > 0 then
        (let partsCount = quo totalSize partSize + 1
         in if partIndex < partsCount then Inr partSize
            else if partIndex = partsCount then Inr (rem totalSize partSize)
            else Inr 0)
      else Inr 0)"

section \<open>What the sizes are\<close>

text \<open>The lengths of the erasure blocks an object of \<open>n\<close> bytes is cut into.\<close>

definition block_lengths :: "int \<Rightarrow> int \<Rightarrow> int list" where
  "block_lengths B n = replicate (nat (n div B)) B @ (if n mod B = 0 then [] else [n mod B])"

lemma Erasure_ShardFileSize_nonneg:
  assumes "0 < er_blockSize e" and "0 \<le> n"
  shows "Erasure_ShardFileSize e n =
    Inr (n div er_blockSize e * ceilFrac (er_blockSize e) (er_dataBlocks e)
       + ceilFrac (n mod er_blockSize e) (er_dataBlocks e))"
  using assms by (auto simp: Erasure_ShardFileSize_def Erasure_ShardSize_def Let_def)

lemma shard_sum_bounds:
  assumes "0 < B" and "0 < D" and "0 \<le> n"
  shows "n \<le> D * (n div B * ceilFrac B D + ceilFrac (n mod B) D)" (is "n \<le> D * ?s")
    and "D * (n div B * ceilFrac B D + ceilFrac (n mod B) D) \<le> n + (D - 1) * ceilFrac n B"
proof -
  let ?q = "n div B" and ?r = "n mod B"
  have n: "n = ?q * B + ?r" by simp
  have q: "0 \<le> ?q" and r: "0 \<le> ?r" "?r < B"
    using assms by (auto simp: pos_imp_zdiv_nonneg_iff)
  have Ds: "D * ?s = ?q * (D * ceilFrac B D) + D * ceilFrac ?r D" by (simp add: algebra_simps)
  have "?q * B \<le> ?q * (D * ceilFrac B D)"
    using ceilFrac_bounds(1)[of B D] assms q by (intro mult_left_mono) auto
  moreover have "?r \<le> D * ceilFrac ?r D" using ceilFrac_bounds(1)[of ?r D] assms r by simp
  ultimately show "n \<le> D * ?s" using n unfolding Ds by linarith
  have up: "?q * (D * ceilFrac B D) \<le> ?q * (B + (D - 1))"
    using ceilFrac_bounds(2)[of B D] assms q by (intro mult_left_mono) auto
  have e: "?q * (B + (D - 1)) = ?q * B + (D - 1) * ?q" by (simp add: algebra_simps)
  show "D * ?s \<le> n + (D - 1) * ceilFrac n B"
  proof (cases "?r = 0")
    case True
    then have c: "ceilFrac n B = ?q" using assms by (simp add: ceilFrac_def Let_def)
    have "D * ?s = ?q * (D * ceilFrac B D)" using Ds True by simp
    then show ?thesis using up e n True unfolding c by linarith
  next
    case False
    have c: "ceilFrac n B = ?q + 1"
      using ceilFrac_mult_add[of ?q ?r B] q r False assms n
      by (simp add: ceilFrac_nonneg int_div_pos_eq[of "?r + B - 1" B 1 "?r - 1"])
    have "D * ceilFrac ?r D \<le> ?r + (D - 1)" using ceilFrac_bounds(2)[of ?r D] assms r by simp
    then have "D * ?s \<le> ?q * B + (D - 1) * ?q + (?r + (D - 1))" using up e unfolding Ds by linarith
    also have "\<dots> = n + (D - 1) * (?q + 1)" using n by (simp add: algebra_simps)
    finally show ?thesis unfolding c .
  qed
qed

text \<open>\<open>ShardFileSize\<close> is the sum, over the erasure blocks of the object, of the shard length of
  the block; the \<open>dataBlocks\<close> shard files together hold every byte of the object, and the
  padding is less than \<open>dataBlocks\<close> bytes per block.\<close>

theorem shard_file_size_correct:
  assumes "0 < er_blockSize e" and "0 < er_dataBlocks e" and "0 \<le> n"
  shows "\<exists>s. Erasure_ShardFileSize e n = Inr s
    \<and> s = (\<Sum>b\<leftarrow>block_lengths (er_blockSize e) n. ceilFrac b (er_dataBlocks e))
    \<and> n \<le> er_dataBlocks e * s
    \<and> er_dataBlocks e * s \<le> n + (er_dataBlocks e - 1) * ceilFrac n (er_blockSize e)"
proof -
  have "int (nat (n div er_blockSize e)) = n div er_blockSize e"
    using assms by (simp add: pos_imp_zdiv_nonneg_iff)
  then show ?thesis
    using assms shard_sum_bounds[of "er_blockSize e" "er_dataBlocks e" n]
    by (simp add: Erasure_ShardFileSize_nonneg block_lengths_def sum_list_replicate)
qed

theorem shard_file_size_correct_witness:
  "\<exists>s. Erasure_ShardFileSize \<lparr>er_dataBlocks = 3, er_parityBlocks = 1, er_blockSize = 10\<rparr> 25 = Inr s
    \<and> s = 10 \<and> 25 \<le> 3 * s \<and> 3 * s \<le> 25 + 2 * ceilFrac 25 10"
  using shard_file_size_correct
    [of "\<lparr>er_dataBlocks = 3, er_parityBlocks = 1, er_blockSize = 10\<rparr>" 25]
  by (simp add: block_lengths_def ceilFrac_def Let_def sum_list_replicate)

lemma Erasure_ShardSize_ge0:
  "0 < er_blockSize e \<Longrightarrow> 0 < er_dataBlocks e \<Longrightarrow> 0 \<le> Erasure_ShardSize e"
  by (simp add: Erasure_ShardSize_def ceilFrac_ge0)

text \<open>The offset up to which a shard file is read for a range request never runs past the
  shard file, and it covers the shard of every erasure block that holds a requested byte.\<close>

theorem shard_file_offset_covers:
  assumes "0 < er_blockSize e" and "0 < er_dataBlocks e"
    and "0 \<le> startOffset" and "0 \<le> len" and "startOffset + len \<le> totalLen"
    and "Erasure_ShardFileOffset e startOffset len totalLen = Inr till"
    and "Erasure_ShardFileSize e totalLen = Inr fileSize"
  shows "0 \<le> till \<and> till \<le> fileSize \<and>
    (\<forall>p. startOffset \<le> p \<and> p < startOffset + len \<longrightarrow>
         min ((p div er_blockSize e + 1) * Erasure_ShardSize e) fileSize \<le> till)"
proof -
  let ?B = "er_blockSize e" and ?S = "Erasure_ShardSize e"
  have S: "0 \<le> ?S" using assms(1,2) by (rule Erasure_ShardSize_ge0)
  have till: "till = min ((startOffset + len) div ?B * ?S + ?S) fileSize"
    using assms by (simp add: Erasure_ShardFileOffset_def Let_def)
  have "0 \<le> totalLen" using assms by linarith
  then have "0 \<le> fileSize"
    using assms S by (auto simp: Erasure_ShardFileSize_nonneg Erasure_ShardSize_def
      pos_imp_zdiv_nonneg_iff ceilFrac_ge0)
  moreover have "0 \<le> (startOffset + len) div ?B * ?S"
    using assms S by (simp add: pos_imp_zdiv_nonneg_iff)
  moreover have "(p div ?B + 1) * ?S \<le> (startOffset + len) div ?B * ?S + ?S"
    if "p < startOffset + len" for p
  proof -
    have "p div ?B \<le> (startOffset + len) div ?B" using that assms(1) by (intro zdiv_mono1) auto
    then have "p div ?B * ?S \<le> (startOffset + len) div ?B * ?S" using S by (rule mult_right_mono)
    then show ?thesis by (simp add: algebra_simps)
  qed
  ultimately show ?thesis using S unfolding till by (auto simp: min_le_iff_disj)
qed

theorem shard_file_offset_covers_witness:
  "min ((11 div 10 + 1) * Erasure_ShardSize \<lparr>er_dataBlocks = 3, er_parityBlocks = 1, er_blockSize = 10\<rparr>) 10 \<le> 8"
  using shard_file_offset_covers
    [of "\<lparr>er_dataBlocks = 3, er_parityBlocks = 1, er_blockSize = 10\<rparr>" 5 7 25 8 10]
  by (simp add: Erasure_ShardFileOffset_def Erasure_ShardFileSize_def Erasure_ShardSize_def
      ceilFrac_def Let_def)

text \<open>The sizes \<open>calculatePartSizeFromIdx\<close> gives to the parts add up to the object: parts
  1 up to \<open>totalSize / partSize + 1\<close> cover it exactly and every later part is empty.\<close>

theorem part_sizes_partition:
  assumes "0 < partSize" and "0 < totalLen"
  shows "(\<Sum>i = 1..totalLen div partSize + 1. projr (calculatePartSizeFromIdx totalLen partSize i)) = totalLen
    \<and> (\<forall>i \<ge> 1. \<exists>s. calculatePartSizeFromIdx totalLen partSize i = Inr s \<and> 0 \<le> s \<and> s \<le> partSize
         \<and> (i > totalLen div partSize + 1 \<longrightarrow> s = 0))"
proof -
  let ?q = "totalLen div partSize" and ?f = "\<lambda>i. calculatePartSizeFromIdx totalLen partSize i"
  have q: "0 \<le> ?q" using assms by (simp add: pos_imp_zdiv_nonneg_iff)
  have f: "?f i = Inr (if i < ?q + 1 then partSize else if i = ?q + 1 then totalLen mod partSize else 0)"
    if "1 \<le> i" for i
    using that assms by (auto simp: calculatePartSizeFromIdx_def Let_def)
  have "{1..?q + 1} = insert (?q + 1) {1..?q}" using q by auto
  then have "(\<Sum>i = 1..?q + 1. projr (?f i)) = totalLen mod partSize + (\<Sum>i = 1..?q. projr (?f i))"
    using f[of "?q + 1"] q by (simp add: sum.insert)
  also have "(\<Sum>i = 1..?q. projr (?f i)) = (\<Sum>i = 1..?q. partSize)"
    by (rule sum.cong) (auto simp: f)
  also have "\<dots> = ?q * partSize" using q by simp
  finally have "(\<Sum>i = 1..?q + 1. projr (?f i)) = totalLen" by simp
  moreover have "0 \<le> totalLen mod partSize" "totalLen mod partSize \<le> partSize"
    using pos_mod_bound[OF assms(1), of totalLen] pos_mod_sign[OF assms(1), of totalLen]
    by linarith+
  ultimately show ?thesis using f assms(1) by simp
qed

theorem part_sizes_partition_witness:
  "(\<Sum>i = 1..3. projr (calculatePartSizeFromIdx 12 5 i)) = 12"
  using conjunct1[OF part_sizes_partition[of 5 12]] by simp

text \<open>The comment in \<open>DecodeDataBlocks\<close> says an all-empty input is a zero-byte payload that
  needs no work. The counter stops at one, so with two or more shards it still goes to the
  encoder.\<close>

lemma decode_all_empty_reconstructs:
  assumes "2 \<le> n"
  shows "DecodeDataBlocks rec (replicate n []) = rec (replicate n [])"
proof -
  obtain m where "n = Suc m" "0 < m" using assms by (cases n) auto
  then show ?thesis by (simp add: DecodeDataBlocks_def)
qed

lemma decode_intact_unchanged: "[] \<notin> set data \<Longrightarrow> DecodeDataBlocks rec data = Inr data"
proof -
  assume "[] \<notin> set data"
  then have "first_empty_count data = 0" by (induction data) auto
  then show ?thesis by (simp add: DecodeDataBlocks_def)
qed

end
