(* ===== verification/Bitrot.thy ===== *)
theory Bitrot
  imports Erasure_Layout
begin

text \<open>
  Bitrot protection (\<open>cmd/bitrot.go\<close>, \<open>cmd/bitrot-streaming.go\<close>): a shard file is a sequence of
  blocks, each preceded by its hash. The writer produces that layout block by block, the
  reader and \<open>bitrotVerify\<close> check it. The hash functions are a parameter \<open>H\<close> (the code takes
  them from \<open>crypto/sha256\<close> and third-party packages); only the length of a digest is used.
\<close>

section \<open>Algorithms\<close>

type_synonym BitrotAlgorithm = nat

definition SHA256 :: BitrotAlgorithm where [simp]: "SHA256 = 1"
definition HighwayHash256 :: BitrotAlgorithm where [simp]: "HighwayHash256 = 2"
definition HighwayHash256S :: BitrotAlgorithm where [simp]: "HighwayHash256S = 3"
definition BLAKE2b512 :: BitrotAlgorithm where [simp]: "BLAKE2b512 = 4"

definition DefaultBitrotAlgorithm :: BitrotAlgorithm where [simp]:
  "DefaultBitrotAlgorithm = HighwayHash256S"

definition bitrotAlgorithms :: "(BitrotAlgorithm \<times> string) list" where
  "bitrotAlgorithms = [(SHA256, ''sha256''), (BLAKE2b512, ''blake2b''),
     (HighwayHash256, ''highwayhash256''), (HighwayHash256S, ''highwayhash256S'')]"

definition bitrot_Available :: "BitrotAlgorithm \<Rightarrow> bool" where
  "bitrot_Available a = (map_of bitrotAlgorithms a \<noteq> None)"

definition bitrot_String :: "BitrotAlgorithm \<Rightarrow> gerror + string" where
  "bitrot_String a = (case map_of bitrotAlgorithms a of
     None \<Rightarrow> Inl (GoPanic ''Unsupported bitrot algorithm'') | Some name \<Rightarrow> Inr name)"

fun find_algorithm :: "(BitrotAlgorithm \<times> string) list \<Rightarrow> string \<Rightarrow> BitrotAlgorithm" where
  "find_algorithm [] s = 0"
| "find_algorithm ((alg, name) # es) s = (if name = s then alg else find_algorithm es s)"

definition BitrotAlgorithmFromString ::
  "((BitrotAlgorithm \<times> string) list \<Rightarrow> (BitrotAlgorithm \<times> string) list)
   \<Rightarrow> string \<Rightarrow> BitrotAlgorithm" where
  "BitrotAlgorithmFromString ord s = find_algorithm (ord bitrotAlgorithms) s"

text \<open>\<open>algo.New().Size()\<close>: the digest length; \<open>None\<close> where \<open>New\<close> reports an unsupported
  algorithm as a critical error (a panic).\<close>

definition bitrot_Size :: "BitrotAlgorithm \<Rightarrow> nat option" where
  "bitrot_Size a =
     (if a = SHA256 then Some 32
      else if a = BLAKE2b512 then Some 64
      else if a = HighwayHash256 then Some 32
      else if a = HighwayHash256S then Some 32
      else None)"

text \<open>The digests of \<open>H\<close> have the length of the algorithm.\<close>

definition hash_ok :: "(BitrotAlgorithm \<Rightarrow> byte list \<Rightarrow> byte list) \<Rightarrow> bool" where
  "hash_ok H \<longleftrightarrow> (\<forall>a d n. bitrot_Size a = Some n \<longrightarrow> length (H a d) = n)"

lemma hash_ok_S: "hash_ok H \<Longrightarrow> length (H HighwayHash256S d) = 32"
  by (simp add: hash_ok_def bitrot_Size_def)

definition bitrotShardFileSize :: "int \<Rightarrow> int \<Rightarrow> BitrotAlgorithm \<Rightarrow> gerror + int" where
  "bitrotShardFileSize sz shardSize algo =
     (if algo \<noteq> HighwayHash256S then Inr sz
      else case bitrot_Size algo of
             None \<Rightarrow> Inl (GoPanic ''Unsupported bitrot algorithm'')
           | Some n \<Rightarrow> Inr (ceilFrac sz shardSize * int n + sz))"

section \<open>The streaming writer\<close>

record bitrotWriter =
  bw_finished :: bool
  bw_out :: "byte list"

text \<open>
  \<open>streamingBitrotWriter.Write\<close> on an underlying writer that accepts everything: the state is
  the \<open>finished\<close> flag and what has been written through.
\<close>

definition bitrot_Write ::
  "(BitrotAlgorithm \<Rightarrow> byte list \<Rightarrow> byte list) \<Rightarrow> BitrotAlgorithm \<Rightarrow> int
   \<Rightarrow> bitrotWriter \<Rightarrow> byte list \<Rightarrow> bitrotWriter \<times> (gerror + int)" where
  "bitrot_Write H algo shardSize b p =
     (if p = [] then (b, Inr 0)
      else if bw_finished b then (b, Inl (OtherErr ''bitrot write not allowed''))
      else if int (length p) > shardSize
        then (b, Inl (OtherErr ''unexpected bitrot buffer size''))
      else let b1 = (if int (length p) < shardSize then b\<lparr>bw_finished := True\<rparr> else b)
           in (b1\<lparr>bw_out := bw_out b1 @ H algo p @ p\<rparr>, Inr (int (length p))))"

fun bitrot_WriteAll ::
  "(BitrotAlgorithm \<Rightarrow> byte list \<Rightarrow> byte list) \<Rightarrow> BitrotAlgorithm \<Rightarrow> int
   \<Rightarrow> bitrotWriter \<Rightarrow> byte list list \<Rightarrow> bitrotWriter \<times> gerror option" where
  "bitrot_WriteAll H algo shardSize b [] = (b, None)"
| "bitrot_WriteAll H algo shardSize b (p # ps) =
     (case bitrot_Write H algo shardSize b p of
        (b', Inl e) \<Rightarrow> (b', Some e)
      | (b', Inr n) \<Rightarrow> bitrot_WriteAll H algo shardSize b' ps)"

section \<open>Reading a stream\<close>

text \<open>\<open>io.ReadFull(r, buf)\<close> on a reader that holds \<open>r\<close>: all \<open>n\<close> bytes and what is left, or
  the error and what is left.\<close>

definition ReadFull :: "byte list \<Rightarrow> nat \<Rightarrow> gerror + byte list \<times> byte list" where
  "ReadFull r n =
     (if n \<le> length r then Inr (take n r, drop n r)
      else if r = [] then Inl IoEOF else Inl IoUnexpectedEOF)"

lemma ReadFull_append [simp]: "length xs = n \<Longrightarrow> ReadFull (xs @ ys) n = Inr (xs, ys)"
  by (simp add: ReadFull_def)

lemma ReadFull_Inr: "ReadFull r n = Inr (xs, ys) \<Longrightarrow> r = xs @ ys \<and> length xs = n"
  by (auto simp: ReadFull_def split: if_splits)

text \<open>
  Reading one block off an open stream: the stored digest, then \<open>n\<close> bytes, then the comparison.
  The result is what is left of the stream (a failed \<open>ReadFull\<close> has consumed it) and the block.
\<close>

definition bitrot_read_block ::
  "(BitrotAlgorithm \<Rightarrow> byte list \<Rightarrow> byte list) \<Rightarrow> BitrotAlgorithm \<Rightarrow> nat
   \<Rightarrow> byte list \<Rightarrow> nat \<Rightarrow> byte list \<times> (gerror + byte list)" where
  "bitrot_read_block H algo hashSize rc n =
     (case ReadFull rc hashSize of
        Inl e \<Rightarrow> ([], Inl e)
      | Inr (hashBytes, rc1) \<Rightarrow>
          (case ReadFull rc1 n of
             Inl e \<Rightarrow> ([], Inl e)
           | Inr (buf, rc2) \<Rightarrow>
               if H algo buf \<noteq> hashBytes then (rc2, Inl ErrFileCorrupt) else (rc2, Inr buf)))"

record streamingBitrotReader =
  sbr_data :: "byte list"
  sbr_rc :: "byte list option"
  sbr_tillOffset :: int
  sbr_currOffset :: int

definition newStreamingBitrotReader :: "byte list \<Rightarrow> int \<Rightarrow> nat \<Rightarrow> int \<Rightarrow> streamingBitrotReader" where
  "newStreamingBitrotReader dat tillOffset hashSize shardSize =
     \<lparr>sbr_data = dat, sbr_rc = None,
      sbr_tillOffset = ceilFrac tillOffset shardSize * int hashSize + tillOffset,
      sbr_currOffset = 0\<rparr>"

text \<open>\<open>streamingBitrotReader.ReadAt\<close> with a buffer of \<open>n\<close> bytes; \<open>ReadFileStream\<close> is the
  disk's, by offset and length. The first call opens the stream at the requested shard.\<close>

definition streamingBitrot_ReadAt ::
  "(BitrotAlgorithm \<Rightarrow> byte list \<Rightarrow> byte list) \<Rightarrow> BitrotAlgorithm \<Rightarrow> nat \<Rightarrow> int
   \<Rightarrow> (int \<Rightarrow> int \<Rightarrow> gerror + byte list)
   \<Rightarrow> streamingBitrotReader \<Rightarrow> nat \<Rightarrow> int \<Rightarrow> streamingBitrotReader \<times> (gerror + byte list)" where
  "streamingBitrot_ReadAt H algo hashSize shardSize ReadFileStream b n offset =
     (if shardSize = 0 then (b, Inl (GoPanic ''integer divide by zero''))
      else if rem offset shardSize \<noteq> 0 then (b, Inl ErrUnexpected)
      else
        let opened =
          (case sbr_rc b of
             Some rc \<Rightarrow> (b, Inr rc)
           | None \<Rightarrow>
               let b1 = b\<lparr>sbr_currOffset := offset\<rparr>;
                   streamOffset = quo offset shardSize * int hashSize + offset;
                   len = sbr_tillOffset b - streamOffset
               in if sbr_data b = [] \<and> sbr_tillOffset b \<noteq> streamOffset
                  then (case ReadFileStream streamOffset len of
                          Inl e \<Rightarrow> (b1, Inl e)
                        | Inr rc \<Rightarrow> (b1\<lparr>sbr_rc := Some rc\<rparr>, Inr rc))
                  else let rc = take (nat len) (drop (nat streamOffset) (sbr_data b))
                       in (b1\<lparr>sbr_rc := Some rc\<rparr>, Inr rc))
        in case opened of
             (b1, Inl e) \<Rightarrow> (b1, Inl e)
           | (b1, Inr rc) \<Rightarrow>
               if offset \<noteq> sbr_currOffset b1 then (b1, Inl ErrUnexpected)
               else (case bitrot_read_block H algo hashSize rc n of
                       (rc', Inl e) \<Rightarrow> (b1\<lparr>sbr_rc := Some rc'\<rparr>, Inl e)
                     | (rc', Inr buf) \<Rightarrow>
                         (b1\<lparr>sbr_rc := Some rc', sbr_currOffset := sbr_currOffset b1 + int n\<rparr>,
                          Inr buf)))"

text \<open>The decoder's use of a reader: consecutive blocks of the given lengths, from \<open>offset\<close> on.\<close>

fun streamingBitrot_ReadAll ::
  "(BitrotAlgorithm \<Rightarrow> byte list \<Rightarrow> byte list) \<Rightarrow> BitrotAlgorithm \<Rightarrow> nat \<Rightarrow> int
   \<Rightarrow> (int \<Rightarrow> int \<Rightarrow> gerror + byte list)
   \<Rightarrow> streamingBitrotReader \<Rightarrow> nat list \<Rightarrow> int \<Rightarrow> gerror + byte list list" where
  "streamingBitrot_ReadAll H algo hashSize shardSize RFS b [] offset = Inr []"
| "streamingBitrot_ReadAll H algo hashSize shardSize RFS b (n # ns) offset =
     (case streamingBitrot_ReadAt H algo hashSize shardSize RFS b n offset of
        (b', Inl e) \<Rightarrow> Inl e
      | (b', Inr buf) \<Rightarrow>
          (case streamingBitrot_ReadAll H algo hashSize shardSize RFS b' ns (offset + int n) of
             Inl e \<Rightarrow> Inl e | Inr bufs \<Rightarrow> Inr (buf # bufs)))"

text \<open>
  The loop of \<open>bitrotVerify\<close> for the streaming algorithm: read a hash, copy up to a shard
  through the hasher (\<open>io.LimitReader\<close> stops at the end of the stream), compare.
  Every round consumes the hash, so the stream gets shorter.
\<close>

function bitrotVerify_loop ::
  "(BitrotAlgorithm \<Rightarrow> byte list \<Rightarrow> byte list) \<Rightarrow> byte list \<Rightarrow> int \<Rightarrow> int \<Rightarrow> gerror option" where
  "bitrotVerify_loop H r left shardSize =
     (if left \<le> 0 then None
      else case ReadFull r 32 of
             Inl e \<Rightarrow> Some e
           | Inr (hashBuf, r1) \<Rightarrow>
               (let left1 = left - 32;
                    shardSize1 = (if left1 < shardSize then left1 else shardSize);
                    dat = take (nat shardSize1) r1;
                    left2 = left1 - int (length dat)
                in if H HighwayHash256S dat \<noteq> hashBuf then Some ErrFileCorrupt
                   else bitrotVerify_loop H (drop (nat shardSize1) r1) left2 shardSize1))"
  by pat_completeness auto
termination
  by (relation "measure (\<lambda>(H, r, left, s). length r)") (auto dest!: ReadFull_Inr)

declare bitrotVerify_loop.simps [simp del]

definition bitrotVerify ::
  "(BitrotAlgorithm \<Rightarrow> byte list \<Rightarrow> byte list) \<Rightarrow> byte list \<Rightarrow> int \<Rightarrow> int
   \<Rightarrow> BitrotAlgorithm \<Rightarrow> byte list \<Rightarrow> int \<Rightarrow> gerror option" where
  "bitrotVerify H r wantSize partSize algo want shardSize =
     (if algo \<noteq> HighwayHash256S then
        (if bitrot_Size algo = None then Some (GoPanic ''Unsupported bitrot algorithm'')
         else if int (length r) \<noteq> wantSize then Some ErrFileCorrupt
         else if H algo r \<noteq> want then Some ErrFileCorrupt
         else None)
      else case bitrotShardFileSize partSize shardSize algo of
             Inl e \<Rightarrow> Some e
           | Inr fileSize \<Rightarrow>
               if wantSize \<noteq> fileSize then Some ErrFileCorrupt
               else bitrotVerify_loop H r wantSize shardSize)"

section \<open>The layout and what reads it back\<close>

text \<open>Blocks as the erasure encoder hands them out: none empty, all but the last full.\<close>

fun well_cut :: "nat \<Rightarrow> byte list list \<Rightarrow> bool" where
  "well_cut s [] = True"
| "well_cut s (p # ps) =
     (p \<noteq> [] \<and> length p \<le> s \<and> (ps \<noteq> [] \<longrightarrow> length p = s) \<and> well_cut s ps)"

definition bitrot_encode :: "(byte list \<Rightarrow> byte list) \<Rightarrow> byte list list \<Rightarrow> byte list" where
  "bitrot_encode h ps = concat (map (\<lambda>p. h p @ p) ps)"

lemma bitrot_encode_simps [simp]:
  "bitrot_encode h [] = []"
  "bitrot_encode h (p # ps) = h p @ p @ bitrot_encode h ps"
  by (simp_all add: bitrot_encode_def)

lemma well_cut_count:
  assumes "well_cut s ps" and "0 < s"
  shows "ceilFrac (int (length (concat ps))) (int s) = int (length ps)"
  using assms(1)
proof (induction ps)
  case Nil
  then show ?case by simp
next
  case (Cons p ps)
  show ?case
  proof (cases "ps = []")
    case True
    have "0 < length p" "length p \<le> s" using Cons.prems by auto
    then have "(int (length p) + int s - 1) div int s = 1"
      using int_div_pos_eq[of "int (length p) + int s - 1" "int s" 1 "int (length p) - 1"] by simp
    then show ?thesis using True assms(2) by (simp add: ceilFrac_nonneg)
  next
    case False
    then have "int (length (concat (p # ps))) = 1 * int s + int (length (concat ps))"
      using Cons.prems by simp
    then show ?thesis
      using ceilFrac_mult_add[of 1 "int (length (concat ps))" "int s"] Cons assms(2) by simp
  qed
qed

lemma length_bitrot_encode:
  assumes "\<And>d. length (h d) = k"
  shows "length (bitrot_encode h ps) = length ps * k + length (concat ps)"
  using assms by (induction ps) auto

lemma bitrot_WriteAll_encode:
  assumes "well_cut s ps" and "\<not> bw_finished b"
  shows "\<exists>f. bitrot_WriteAll H algo (int s) b ps =
    (\<lparr>bw_finished = f, bw_out = bw_out b @ bitrot_encode (H algo) ps\<rparr>, None)"
  using assms
proof (induction ps arbitrary: b)
  case Nil
  then show ?case by (cases b) (auto intro: exI[of _ False])
next
  case (Cons p ps)
  show ?case
  proof (cases "ps = []")
    case True
    then show ?thesis using Cons.prems by (cases b) (auto simp: bitrot_Write_def Let_def)
  next
    case False
    then have w: "bitrot_Write H algo (int s) b p =
        (b\<lparr>bw_out := bw_out b @ H algo p @ p\<rparr>, Inr (int (length p)))"
      using Cons.prems by (auto simp: bitrot_Write_def Let_def)
    have "well_cut s ps" "\<not> bw_finished (b\<lparr>bw_out := bw_out b @ H algo p @ p\<rparr>)"
      using Cons.prems by auto
    from Cons.IH[OF this] show ?thesis by (simp add: w)
  qed
qed

lemma bitrot_read_block_encoded [simp]:
  assumes "length (H algo p) = k" and "length p = n"
  shows "bitrot_read_block H algo k (H algo p @ p @ rest) n = (rest, Inr p)"
  using assms by (simp add: bitrot_read_block_def)

text \<open>Whatever a successful read returns carries the digest that was stored before it.\<close>

lemma bitrot_read_block_sound:
  assumes "bitrot_read_block H algo k rc n = (rc', Inr buf)"
  shows "rc = H algo buf @ buf @ rc' \<and> length buf = n \<and> length (H algo buf) = k"
  using assms by (auto simp: bitrot_read_block_def dest!: ReadFull_Inr split: sum.splits if_splits)

lemma streaming_ReadAll_open:
  assumes "\<And>d. length (H algo d) = k" and "0 < s" and "well_cut s ps"
    and "sbr_rc b = Some (bitrot_encode (H algo) ps)"
    and "ps \<noteq> [] \<longrightarrow> sbr_currOffset b = offset \<and> int s dvd offset \<and> 0 \<le> offset"
  shows "streamingBitrot_ReadAll H algo k (int s) RFS b (map length ps) offset = Inr ps"
  using assms(3-)
proof (induction ps arbitrary: b offset)
  case Nil
  then show ?case by simp
next
  case (Cons p ps)
  have rem: "rem offset (int s) = 0" using Cons.prems assms(2) by simp
  have blk: "bitrot_read_block H algo k (bitrot_encode (H algo) (p # ps)) (length p)
      = (bitrot_encode (H algo) ps, Inr p)"
    using assms(1) by simp
  show ?case
    using Cons.prems rem blk assms(2) Cons.IH[of "b\<lparr>sbr_rc := Some (bitrot_encode (H algo) ps),
        sbr_currOffset := offset + int (length p)\<rparr>" "offset + int (length p)"]
    by (auto simp: streamingBitrot_ReadAt_def Let_def)
qed

text \<open>The file position of the \<open>k\<close>-th block.\<close>

lemma drop_bitrot_encode:
  assumes "\<And>d. length (h d) = hs" and "well_cut s ps" and "k < length ps"
  shows "drop (k * hs + k * s) (bitrot_encode h ps) = bitrot_encode h (drop k ps)"
  using assms(2,3)
proof (induction k arbitrary: ps)
  case 0
  then show ?case by simp
next
  case (Suc k)
  then obtain p qs where ps: "ps = p # qs" by (cases ps) auto
  then have "length p = s" "well_cut s qs" "k < length qs" using Suc.prems by auto
  then show ?case
    using Suc.IH[of qs] assms(1) by (simp add: ps add.assoc add.left_commute)
qed

lemma well_cut_drop: "well_cut s ps \<Longrightarrow> well_cut s (drop k ps)"
proof (induction ps arbitrary: k)
  case (Cons p ps)
  then show ?case by (cases k) auto
qed simp

section \<open>The scan accepts exactly what the writer lays out\<close>

lemma verify_loop_encoded:
  assumes "hash_ok H" and "0 < s" and "well_cut s ps"
  shows "bitrotVerify_loop H (bitrot_encode (H HighwayHash256S) ps)
           (int (length (bitrot_encode (H HighwayHash256S) ps))) (int s) = None"
  using assms(3)
proof (induction ps)
  case Nil
  then show ?case by (simp add: bitrotVerify_loop.simps)
next
  case (Cons p ps)
  have h: "length (H 3 d) = 32" for d
    using hash_ok_S[OF assms(1)] by simp
  show ?case
  proof (cases "ps = []")
    case True
    then show ?thesis
      using Cons.prems by (auto simp: h bitrotVerify_loop.simps[of H "H 3 p @ p"]
          bitrotVerify_loop.simps[of H "[]"] Let_def min_def)
  next
    case False
    then have "length p = s" "well_cut s ps" using Cons.prems by auto
    moreover have "ps \<noteq> []" by fact
    ultimately show ?thesis
      using Cons.IH False
      by (subst bitrotVerify_loop.simps) (auto simp: h Let_def neq_Nil_conv)
  qed
qed

lemma verify_loop_sound:
  assumes "hash_ok H" and "0 < s"
    and "int (length r) = ceilFrac (int m) (int s) * 32 + int m"
    and "bitrotVerify_loop H r (int (length r)) (int s) = None"
  shows "\<exists>ps. well_cut s ps \<and> r = bitrot_encode (H HighwayHash256S) ps \<and> length (concat ps) = m"
  using assms(3,4)
proof (induction m arbitrary: r rule: less_induct)
  case (less m)
  show ?case
  proof (cases "m = 0")
    case True
    then show ?thesis using less.prems assms(2) by (intro exI[of _ "[]"]) (simp add: ceilFrac_nonneg)
  next
    case False
    have cu: "ceilFrac (int m) (int s) = 1 + ceilFrac (int (m - s)) (int s)" if "s < m"
      using ceilFrac_mult_add[of 1 "int (m - s)" "int s"] that assms(2) by simp
    have c1: "ceilFrac (int m) (int s) = 1" if "m \<le> s"
      using ceilFrac_le[of "int m" "int s" 1] ceilFrac_bounds(1)[of "int m" "int s"] that False assms(2)
      by (smt (verit) mult_le_0_iff of_nat_0_le_iff of_nat_le_iff of_nat_0_less_iff mult.right_neutral neq0_conv)
    have c0: "0 \<le> ceilFrac (int (m - s)) (int s)" using assms(2) by (simp add: ceilFrac_ge0)
    have len: "32 + m \<le> length r"
      using less.prems(1) cu c1 c0 by (cases "m \<le> s") auto
    then have rf: "ReadFull r 32 = Inr (take 32 r, drop 32 r)" by (simp add: ReadFull_def)
    show ?thesis
    proof (cases "m \<le> s")
      case True
      then have "length r = 32 + m" using less.prems(1) c1 by simp
      then show ?thesis
        using less.prems(2) True False rf append_take_drop_id[of 32 r]
        by (subst (asm) bitrotVerify_loop.simps)
          (auto simp: Let_def min_def split: if_splits intro!: exI[of _ "[drop 32 r]"])
    next
      case ms: False
      let ?d = "take s (drop 32 r)" and ?r = "drop (32 + s) r"
      have len': "int (length r) - 32 \<ge> int s" using len ms by simp
      have st: "H HighwayHash256S ?d = take 32 r \<and> bitrotVerify_loop H ?r (int (length ?r)) (int s) = None"
        using less.prems(2) rf len' len ms
        by (subst (asm) bitrotVerify_loop.simps)
          (auto simp: Let_def min_def add.commute of_nat_diff algebra_simps split: if_splits)
      have "int (length ?r) = ceilFrac (int (m - s)) (int s) * 32 + int (m - s)"
        using less.prems(1) cu ms len by (simp add: algebra_simps of_nat_diff)
      then obtain ps where ps: "well_cut s ps" "?r = bitrot_encode (H HighwayHash256S) ps"
          "length (concat ps) = m - s"
        using less.IH[of "m - s" ?r] st ms assms(2) by auto
      have "r = take 32 r @ ?d @ ?r" by (metis add.commute append_take_drop_id drop_drop)
      moreover have "length ?d = s" using len ms by simp
      ultimately show ?thesis
        using ps st ms assms(2) by (intro exI[of _ "?d # ps"]) auto
    qed
  qed
qed

text \<open>A digest that only tells the length of the data: what the examples use for \<open>H\<close>.\<close>

definition length_hash :: "BitrotAlgorithm \<Rightarrow> byte list \<Rightarrow> byte list" where
  "length_hash a d = replicate (if a = BLAKE2b512 then 64 else 32) (of_nat (length d))"

lemma hash_ok_length_hash: "hash_ok length_hash"
  by (auto simp: hash_ok_def length_hash_def bitrot_Size_def)

text \<open>The disk the reader streams from holds \<open>file\<close> and has no error of its own.\<close>

definition disk_stream :: "byte list \<Rightarrow> int \<Rightarrow> int \<Rightarrow> gerror + byte list" where
  "disk_stream file off len = Inr (take (nat len) (drop (nat off) file))"

lemma take_rest: "take (nat (int (length f) - int n)) (drop (nat (int n)) f) = drop n f"
  by (simp add: nat_diff_distrib' flip: of_nat_diff)

text \<open>The first read of a new reader: the stream is opened at the block's file position.\<close>

lemma streaming_ReadAt_first:
  fixes fd :: "byte list" and k hs s :: nat
  assumes "0 < s" and "sbr_data b = []" and "sbr_rc b = None"
  defines "pos \<equiv> int (k * (hs + s))"
  defines "b' \<equiv> b\<lparr>sbr_rc := Some (take (nat (sbr_tillOffset b - pos)) (drop (nat pos) fd)),
    sbr_currOffset := int k * int s\<rparr>"
  shows "streamingBitrot_ReadAt H algo hs (int s) (disk_stream fd) b n (int k * int s)
    = streamingBitrot_ReadAt H algo hs (int s) (disk_stream fd) b' n (int k * int s)"
proof -
  have pos: "quo (int k * int s) (int s) * int hs + int k * int s = pos"
    using assms(1) by (simp add: pos_def algebra_simps)
  show ?thesis
    unfolding streamingBitrot_ReadAt_def Let_def pos
    using assms(1-3) by (cases "sbr_tillOffset b = pos") (simp_all add: disk_stream_def b'_def)
qed

lemma encode_file_size:
  assumes "hash_ok H" and "0 < s" and "well_cut s ps"
  shows "bitrotShardFileSize (int (length (concat ps))) (int s) HighwayHash256S
    = Inr (int (length (bitrot_encode (H HighwayHash256S) ps)))"
  using length_bitrot_encode[of "H HighwayHash256S" 32 ps] hash_ok_S[OF assms(1)]
    well_cut_count[OF assms(3,2)]
  by (simp add: bitrotShardFileSize_def bitrot_Size_def)

text \<open>A shard written block by block through the streaming bitrot writer is stored without an
  error, has exactly the size \<open>bitrotShardFileSize\<close> announces for its data, and passes
  \<open>bitrotVerify\<close>.\<close>

theorem bitrot_written_file_verifies:
  assumes "hash_ok H" and "0 < s" and "well_cut s ps"
  shows "let (b, err) = bitrot_WriteAll H HighwayHash256S (int s) \<lparr>bw_finished = False, bw_out = []\<rparr> ps;
             file = bw_out b; n = int (length (concat ps))
         in err = None
          \<and> bitrotShardFileSize n (int s) HighwayHash256S = Inr (int (length file))
          \<and> bitrotVerify H file (int (length file)) n HighwayHash256S want (int s) = None"
proof -
  obtain f where "bitrot_WriteAll H HighwayHash256S (int s) \<lparr>bw_finished = False, bw_out = []\<rparr> ps =
      (\<lparr>bw_finished = f, bw_out = bitrot_encode (H HighwayHash256S) ps\<rparr>, None)"
    using bitrot_WriteAll_encode[OF assms(3), of "\<lparr>bw_finished = False, bw_out = []\<rparr>"] by auto
  then show ?thesis
    using encode_file_size[OF assms] verify_loop_encoded[OF assms]
    by (simp add: bitrotVerify_def)
qed

theorem bitrot_written_file_verifies_witness:
  "let (b, err) = bitrot_WriteAll length_hash HighwayHash256S 2 \<lparr>bw_finished = False, bw_out = []\<rparr> [[1, 2], [3]];
       file = bw_out b
   in err = None
    \<and> bitrotShardFileSize 3 2 HighwayHash256S = Inr (int (length file))
    \<and> bitrotVerify length_hash file (int (length file)) 3 HighwayHash256S [] 2 = None"
  using bitrot_written_file_verifies[OF hash_ok_length_hash, of 2 "[[1, 2], [3]]" "[]"] by simp

text \<open>C25: The deep scan of a streaming shard file is exact: among the files whose size was
  announced for \<open>m\<close> bytes of data, \<open>bitrotVerify\<close> accepts those, and only those, that are the
  writer's layout of some blocks holding \<open>m\<close> bytes.\<close>

theorem bitrot_verify_exact:
  assumes "hash_ok H" and "0 < s"
  shows "bitrotVerify H file (int (length file)) (int m) HighwayHash256S want (int s) = None \<longleftrightarrow>
    (\<exists>ps. well_cut s ps \<and> length (concat ps) = m \<and> file = bitrot_encode (H HighwayHash256S) ps)"
proof
  assume l: "bitrotVerify H file (int (length file)) (int m) HighwayHash256S want (int s) = None"
  then have "int (length file) = ceilFrac (int m) (int s) * 32 + int m"
    by (simp add: bitrotVerify_def bitrotShardFileSize_def bitrot_Size_def split: if_splits)
  moreover from this have "bitrotVerify_loop H file (int (length file)) (int s) = None"
    using l by (simp add: bitrotVerify_def bitrotShardFileSize_def bitrot_Size_def)
  ultimately show "\<exists>ps. well_cut s ps \<and> length (concat ps) = m \<and> file = bitrot_encode (H HighwayHash256S) ps"
    using verify_loop_sound[OF assms] by blast
next
  assume "\<exists>ps. well_cut s ps \<and> length (concat ps) = m \<and> file = bitrot_encode (H HighwayHash256S) ps"
  then obtain ps where ps: "well_cut s ps" "length (concat ps) = m"
      "file = bitrot_encode (H HighwayHash256S) ps" by blast
  then show "bitrotVerify H file (int (length file)) (int m) HighwayHash256S want (int s) = None"
    using encode_file_size[OF assms ps(1)] verify_loop_encoded[OF assms ps(1)]
    by (simp add: bitrotVerify_def)
qed

theorem bitrot_verify_exact_witness:
  "bitrotVerify length_hash (replicate 32 2 @ [7, 8] @ replicate 32 1 @ [9]) 67 3 HighwayHash256S [] 2 = None"
proof -
  from bitrot_verify_exact[OF hash_ok_length_hash, of 2 "replicate 32 2 @ [7, 8] @ replicate 32 1 @ [9]" 3 "[]"]
  show ?thesis by (auto simp: length_hash_def intro!: exI[of _ "[[7, 8], [9::byte]]"])
qed

text \<open>C26: A shard file written by the bitrot writer is read back from any block on: opening the
  streaming reader at block \<open>k\<close> and reading the blocks the decoder asks for returns precisely the
  blocks written from \<open>k\<close> to the end.\<close>

theorem bitrot_reads_back:
  assumes "hash_ok H" and "0 < s" and "well_cut s ps" and "k < length ps"
  shows "streamingBitrot_ReadAll H HighwayHash256S 32 (int s)
    (disk_stream (bw_out (fst (bitrot_WriteAll H HighwayHash256S (int s)
        \<lparr>bw_finished = False, bw_out = []\<rparr> ps))))
    (newStreamingBitrotReader [] (int (length (concat ps))) 32 (int s))
    (map length (drop k ps)) (int k * int s) = Inr (drop k ps)"
proof -
  let ?h = "H HighwayHash256S" and ?file = "bitrot_encode (H HighwayHash256S) ps"
  let ?b = "newStreamingBitrotReader [] (int (length (concat ps))) 32 (int s)"
  obtain q qs where dk: "drop k ps = q # qs" using assms(4) by (metis Cons_nth_drop_Suc)
  have h: "length (?h d) = 32" for d by (rule hash_ok_S[OF assms(1)])
  have out: "bw_out (fst (bitrot_WriteAll H HighwayHash256S (int s)
      \<lparr>bw_finished = False, bw_out = []\<rparr> ps)) = ?file"
    using bitrot_WriteAll_encode[OF assms(3), of "\<lparr>bw_finished = False, bw_out = []\<rparr>" H HighwayHash256S]
    by auto
  have till: "sbr_tillOffset ?b = int (length ?file)"
    using length_bitrot_encode[of ?h 32 ps] h well_cut_count[OF assms(3,2)]
    by (simp add: newStreamingBitrotReader_def)
  have dr: "drop (k * 32 + k * s) ?file = bitrot_encode ?h (q # qs)"
    using drop_bitrot_encode[of ?h 32 s ps k] h assms(3,4) dk by simp
  then have "length ?file - (k * 32 + k * s) = length (bitrot_encode ?h (q # qs))"
    by (metis length_drop)
  moreover have "0 < length (bitrot_encode ?h (q # qs))"
    using h[of q] by (simp add: bitrot_encode_def)
  ultimately have pos: "k * 32 + k * s < length ?file" by linarith
  have rc: "take (nat (sbr_tillOffset ?b - int (k * (32 + s)))) (drop (nat (int (k * (32 + s)))) ?file)
      = bitrot_encode ?h (q # qs)"
    unfolding till take_rest using dr by (simp only: distrib_left)
  have "streamingBitrot_ReadAll H HighwayHash256S 32 (int s) (disk_stream ?file) ?b (map length (q # qs)) (int k * int s)
      = streamingBitrot_ReadAll H HighwayHash256S 32 (int s) (disk_stream ?file)
          (?b\<lparr>sbr_rc := Some (bitrot_encode ?h (q # qs)), sbr_currOffset := int k * int s\<rparr>)
          (map length (q # qs)) (int k * int s)"
    using streaming_ReadAt_first[OF assms(2), of ?b H HighwayHash256S 32 ?file "length q" k] rc
    by (simp add: newStreamingBitrotReader_def del: nat_int)
  moreover have "well_cut s (q # qs)" using well_cut_drop[OF assms(3), of k] dk by simp
  ultimately show ?thesis
    unfolding out dk
    using streaming_ReadAll_open[of H HighwayHash256S 32 s "q # qs" _ "int k * int s" "disk_stream ?file"]
      h assms(2) by simp
qed

theorem bitrot_reads_back_witness:
  "streamingBitrot_ReadAll length_hash HighwayHash256S 32 2
    (disk_stream (bw_out (fst (bitrot_WriteAll length_hash HighwayHash256S 2
        \<lparr>bw_finished = False, bw_out = []\<rparr> [[1, 2], [3, 4], [5]]))))
    (newStreamingBitrotReader [] 5 32 2) [2, 1] 2 = Inr [[3, 4], [5]]"
  using bitrot_reads_back[OF hash_ok_length_hash, of 2 "[[1, 2], [3, 4], [5]]" 1]
  by (simp add: numeral_2_eq_2 del: streamingBitrot_ReadAll.simps bitrot_WriteAll.simps)

text \<open>No corrupted block leaves the streaming reader: whatever a read at block \<open>k\<close> of a
  newly created reader returns is what the file holds there, and it matches the digest stored in
  front of it.\<close>

theorem bitrot_read_is_checked:
  assumes "0 < s" and "0 \<le> till"
    and "streamingBitrot_ReadAt H HighwayHash256S 32 (int s) (disk_stream file)
           (newStreamingBitrotReader [] till 32 (int s)) n (int k * int s) = (b', Inr buf)"
  shows "length buf = n \<and> buf = take n (drop (k * (32 + s) + 32) file)
    \<and> H HighwayHash256S buf = take 32 (drop (k * (32 + s)) file)"
proof -
  let ?pos = "k * (32 + s)"
  have e: "nat (int k * (32 + int s)) = ?pos" by (simp add: nat_mult_distrib nat_add_distrib)
  obtain m rc' where rc: "bitrot_read_block H HighwayHash256S 32 (take m (drop ?pos file)) n = (rc', Inr buf)"
    using assms(3) streaming_ReadAt_first[OF assms(1), of "newStreamingBitrotReader [] till 32 (int s)" H
        HighwayHash256S 32 "file" n k]
    by (auto simp: streamingBitrot_ReadAt_def newStreamingBitrotReader_def Let_def e
        split: if_splits sum.splits prod.splits intro: that)
  have m: "take m (drop ?pos file) = H HighwayHash256S buf @ buf @ rc'" and n: "length buf = n"
    and h: "length (H HighwayHash256S buf) = 32"
    using bitrot_read_block_sound[OF rc] by simp_all
  have f: "drop ?pos file = H HighwayHash256S buf @ buf @ rc' @ drop m (drop ?pos file)"
    using m append_take_drop_id[of m "drop ?pos file"] by simp
  have "take 32 (drop ?pos file) = H HighwayHash256S buf" using h by (subst f) simp
  moreover have "drop 32 (drop ?pos file) = buf @ rc' @ drop m (drop ?pos file)"
    using h by (subst f) simp
  ultimately show ?thesis using n by (simp add: add.commute)
qed

theorem bitrot_read_is_checked_witness:
  "[7, 8] = take 2 (drop 66 (replicate 32 2 @ [1, 2] @ replicate 32 2 @ [7, 8 :: byte]))
    \<and> length_hash HighwayHash256S [7, 8] = take 32 (drop 34 (replicate 32 2 @ [1, 2] @ replicate 32 2 @ [7, 8]))"
proof -
  let ?f = "replicate 32 2 @ [1, 2] @ replicate 32 2 @ [7, 8 :: byte]"
  obtain b' where "streamingBitrot_ReadAt length_hash HighwayHash256S 32 (int 2) (disk_stream ?f)
      (newStreamingBitrotReader [] 4 32 (int 2)) 2 (int 1 * int 2) = (b', Inr [7, 8])"
    by (simp add: streamingBitrot_ReadAt_def newStreamingBitrotReader_def Let_def disk_stream_def
        ceilFrac_nonneg bitrot_read_block_def ReadFull_def length_hash_def)
  from bitrot_read_is_checked[OF _ _ this] show ?thesis by simp
qed

end
