(* ===== verification/File_Info.thy ===== *)
theory File_Info
  imports Bitrot
begin

text \<open>
  The metadata of an object version as a drive returns it (\<open>FileInfo\<close> and \<open>ErasureInfo\<close> of
  \<open>cmd/storage-datatypes.go\<close> and \<open>cmd/xl-storage-format-v1.go\<close>) with its methods, those of
  \<open>cmd/erasure-metadata.go\<close>, the encryption and restore status they consult
  (\<open>internal/crypto\<close>, \<open>cmd/bucket-lifecycle.go\<close>). The part table and the metadata map are two
  instances of one interface, \<open>keyed_store\<close>.
\<close>

section \<open>Records\<close>

record ChecksumInfo =
  ck_PartNumber :: int
  ck_Algorithm :: BitrotAlgorithm
  ck_Hash :: "byte slice"

record ObjectPartInfo =
  pt_ETag :: string
  pt_Number :: int
  pt_Size :: int
  pt_ActualSize :: int
  pt_ModTime :: gotime
  pt_Index :: "byte slice"
  pt_Checksums :: strmap
  pt_Error :: string

record ErasureInfo =
  ei_Algorithm :: string
  ei_DataBlocks :: int
  ei_ParityBlocks :: int
  ei_BlockSize :: int
  ei_Index :: int
  ei_Distribution :: "int slice"
  ei_Checksums :: "ChecksumInfo slice"

record ReplicationState =
  rs_ReplicaTimeStamp :: gotime
  rs_ReplicaStatus :: string
  rs_DeleteMarker :: bool
  rs_ReplicationTimeStamp :: gotime
  rs_ReplicationStatusInternal :: string
  rs_VersionPurgeStatusInternal :: string
  rs_ReplicateDecisionStr :: string
  rs_Targets :: strmap
  rs_PurgeTargets :: strmap
  rs_ResetStatusesMap :: strmap

record FileInfo =
  fi_Volume :: string
  fi_Name :: string
  fi_VersionID :: string
  fi_IsLatest :: bool
  fi_Deleted :: bool
  fi_TransitionStatus :: string
  fi_TransitionedObjName :: string
  fi_TransitionTier :: string
  fi_TransitionVersionID :: string
  fi_ExpireRestored :: bool
  fi_DataDir :: string
  fi_XLV1 :: bool
  fi_ModTime :: gotime
  fi_Size :: int
  fi_Mode :: "32 word"
  fi_WrittenByVersion :: "64 word"
  fi_Metadata :: strmap
  fi_Parts :: "ObjectPartInfo slice"
  fi_Erasure :: ErasureInfo
  fi_MarkDeleted :: bool
  fi_ReplicationState :: ReplicationState
  fi_Data :: "byte slice"
  fi_NumVersions :: int
  fi_SuccessorModTime :: gotime
  fi_Fresh :: bool
  fi_Idx :: int
  fi_Checksum :: "byte slice"
  fi_Versioned :: bool

text \<open>The zero values.\<close>

definition ErasureInfo0 :: ErasureInfo where
  "ErasureInfo0 = \<lparr>ei_Algorithm = [], ei_DataBlocks = 0, ei_ParityBlocks = 0, ei_BlockSize = 0,
     ei_Index = 0, ei_Distribution = None, ei_Checksums = None\<rparr>"

definition ObjectPartInfo0 :: ObjectPartInfo where
  "ObjectPartInfo0 = \<lparr>pt_ETag = [], pt_Number = 0, pt_Size = 0, pt_ActualSize = 0,
     pt_ModTime = zero_time, pt_Index = None, pt_Checksums = None, pt_Error = []\<rparr>"

definition ReplicationState0 :: ReplicationState where
  "ReplicationState0 = \<lparr>rs_ReplicaTimeStamp = zero_time, rs_ReplicaStatus = [],
     rs_DeleteMarker = False, rs_ReplicationTimeStamp = zero_time,
     rs_ReplicationStatusInternal = [], rs_VersionPurgeStatusInternal = [],
     rs_ReplicateDecisionStr = [], rs_Targets = None, rs_PurgeTargets = None,
     rs_ResetStatusesMap = None\<rparr>"

definition FileInfo0 :: FileInfo where
  "FileInfo0 = \<lparr>fi_Volume = [], fi_Name = [], fi_VersionID = [], fi_IsLatest = False,
     fi_Deleted = False, fi_TransitionStatus = [], fi_TransitionedObjName = [],
     fi_TransitionTier = [], fi_TransitionVersionID = [], fi_ExpireRestored = False,
     fi_DataDir = [], fi_XLV1 = False, fi_ModTime = zero_time, fi_Size = 0, fi_Mode = 0,
     fi_WrittenByVersion = 0, fi_Metadata = None, fi_Parts = None, fi_Erasure = ErasureInfo0,
     fi_MarkDeleted = False, fi_ReplicationState = ReplicationState0, fi_Data = None,
     fi_NumVersions = 0, fi_SuccessorModTime = zero_time, fi_Fresh = False, fi_Idx = 0,
     fi_Checksum = None, fi_Versioned = False\<rparr>"

section \<open>Erasure information\<close>

fun find_checksum :: "ChecksumInfo list \<Rightarrow> int \<Rightarrow> ChecksumInfo" where
  "find_checksum [] partNumber =
     \<lparr>ck_PartNumber = 0, ck_Algorithm = DefaultBitrotAlgorithm, ck_Hash = None\<rparr>"
| "find_checksum (c # cs) partNumber =
     (if ck_PartNumber c = partNumber then c else find_checksum cs partNumber)"

definition GetChecksumInfo :: "ErasureInfo \<Rightarrow> int \<Rightarrow> ChecksumInfo" where
  "GetChecksumInfo e partNumber = find_checksum (elems (ei_Checksums e)) partNumber"

definition ErasureInfo_ShardSize :: "ErasureInfo \<Rightarrow> int" where
  "ErasureInfo_ShardSize e = ceilFrac (ei_BlockSize e) (ei_DataBlocks e)"

definition ErasureInfo_ShardFileSize :: "ErasureInfo \<Rightarrow> int \<Rightarrow> gerror + int" where
  "ErasureInfo_ShardFileSize e totalLength =
     (if totalLength = 0 then Inr 0
      else if totalLength = -1 then Inr (-1)
      else if ei_BlockSize e = 0 then Inl (GoPanic ''integer divide by zero'')
      else let numShards = quo totalLength (ei_BlockSize e);
               lastBlockSize = rem totalLength (ei_BlockSize e);
               lastShardSize = ceilFrac lastBlockSize (ei_DataBlocks e)
           in Inr (numShards * ErasureInfo_ShardSize e + lastShardSize))"

text \<open>The comparison loop over the distributions, whose lengths are known to be equal.\<close>

fun same_distribution :: "int list \<Rightarrow> int list \<Rightarrow> bool" where
  "same_distribution (x # xs) (y # ys) = (if x \<noteq> y then False else same_distribution xs ys)"
| "same_distribution _ _ = True"

definition ErasureInfo_Equal :: "ErasureInfo \<Rightarrow> ErasureInfo \<Rightarrow> bool" where
  "ErasureInfo_Equal ei nei =
     (if ei_Algorithm ei \<noteq> ei_Algorithm nei then False
      else if ei_DataBlocks ei \<noteq> ei_DataBlocks nei then False
      else if ei_ParityBlocks ei \<noteq> ei_ParityBlocks nei then False
      else if ei_BlockSize ei \<noteq> ei_BlockSize nei then False
      else if length (elems (ei_Distribution ei)) \<noteq> length (elems (ei_Distribution nei)) then False
      else same_distribution (elems (ei_Distribution ei)) (elems (ei_Distribution nei)))"

section \<open>Encryption and restore status\<close>

datatype sse_type = S3KMS | S3 | SSEC

definition MetaMultipart :: string where "MetaMultipart = ''X-Minio-Internal-Encrypted-Multipart''"
definition MetaIV :: string where "MetaIV = ''X-Minio-Internal-Server-Side-Encryption-Iv''"
definition MetaAlgorithm :: string where
  "MetaAlgorithm = ''X-Minio-Internal-Server-Side-Encryption-Seal-Algorithm''"
definition MetaSealedKeySSEC :: string where
  "MetaSealedKeySSEC = ''X-Minio-Internal-Server-Side-Encryption-Sealed-Key''"
definition MetaSealedKeyS3 :: string where
  "MetaSealedKeyS3 = ''X-Minio-Internal-Server-Side-Encryption-S3-Sealed-Key''"
definition MetaSealedKeyKMS :: string where
  "MetaSealedKeyKMS = ''X-Minio-Internal-Server-Side-Encryption-Kms-Sealed-Key''"
definition MetaKeyID :: string where
  "MetaKeyID = ''X-Minio-Internal-Server-Side-Encryption-S3-Kms-Key-Id''"
definition MetaDataEncryptionKey :: string where
  "MetaDataEncryptionKey = ''X-Minio-Internal-Server-Side-Encryption-S3-Kms-Sealed-Key''"
definition MetaContext :: string where
  "MetaContext = ''X-Minio-Internal-Server-Side-Encryption-Context''"

fun sse_IsEncrypted :: "sse_type \<Rightarrow> strmap \<Rightarrow> bool" where
  "sse_IsEncrypted S3KMS metadata = mhas metadata MetaSealedKeyKMS"
| "sse_IsEncrypted S3 metadata = mhas metadata MetaSealedKeyS3"
| "sse_IsEncrypted SSEC metadata = mhas metadata MetaSealedKeySSEC"

definition IsMultiPart :: "strmap \<Rightarrow> bool" where
  "IsMultiPart metadata = mhas metadata MetaMultipart"

definition IsEncrypted :: "strmap \<Rightarrow> sse_type option \<times> bool" where
  "IsEncrypted metadata =
     (if sse_IsEncrypted S3KMS metadata then (Some S3KMS, True)
      else if sse_IsEncrypted S3 metadata then (Some S3, True)
      else if sse_IsEncrypted SSEC metadata then (Some SSEC, True)
      else if IsMultiPart metadata then (None, True)
      else if mhas metadata MetaIV then (None, True)
      else if mhas metadata MetaAlgorithm then (None, True)
      else if mhas metadata MetaKeyID then (None, True)
      else if mhas metadata MetaDataEncryptionKey then (None, True)
      else if mhas metadata MetaContext then (None, True)
      else (None, False))"

text \<open>\<open>strings.SplitN(s, sep, 2)\<close> for a one-byte separator, \<open>strings.TrimSpace\<close> on the ASCII
  text of a header, \<open>strings.Trim\<close> of one byte.\<close>

fun SplitN2 :: "char \<Rightarrow> string \<Rightarrow> string \<times> string option" where
  "SplitN2 sep [] = ([], None)"
| "SplitN2 sep (c # cs) =
     (if c = sep then ([], Some cs)
      else case SplitN2 sep cs of (a, rest) \<Rightarrow> (c # a, rest))"

definition trim_both :: "(char \<Rightarrow> bool) \<Rightarrow> string \<Rightarrow> string" where
  "trim_both p s = rev (dropWhile p (rev (dropWhile p s)))"

definition is_space :: "char \<Rightarrow> bool" where
  "is_space c = (c \<in> {CHR 0x09, CHR 0x0A, CHR 0x0B, CHR 0x0C, CHR 0x0D, CHR '' ''})"

definition TrimSpace :: "string \<Rightarrow> string" where
  "TrimSpace s = trim_both is_space s"

definition Trim_quotes :: "string \<Rightarrow> string" where
  "Trim_quotes s = trim_both (\<lambda>c. c = CHR 0x22) s"

record restoreObjStatus =
  ro_ongoing :: bool
  ro_expiry :: gotime

definition ongoingRestoreObj :: restoreObjStatus where
  "ongoingRestoreObj = \<lparr>ro_ongoing = True, ro_expiry = zero_time\<rparr>"

definition completedRestoreObj :: "gotime \<Rightarrow> restoreObjStatus" where
  "completedRestoreObj expiry = \<lparr>ro_ongoing = False, ro_expiry = expiry\<rparr>"

definition restore_String :: "(gotime \<Rightarrow> string) \<Rightarrow> restoreObjStatus \<Rightarrow> string" where
  "restore_String Format r =
     (if ro_ongoing r then ''ongoing-request='' @ [CHR 0x22] @ ''true'' @ [CHR 0x22]
      else ''ongoing-request='' @ [CHR 0x22] @ ''false'' @ [CHR 0x22] @ '', expiry-date=''
           @ [CHR 0x22] @ Format (ro_expiry r) @ [CHR 0x22])"

definition restore_Expiry :: "restoreObjStatus \<Rightarrow> gotime \<times> bool" where
  "restore_Expiry r = (if ro_ongoing r then (zero_time, False) else (ro_expiry r, True))"

definition restore_OnDisk :: "clock \<Rightarrow> restoreObjStatus \<Rightarrow> bool" where
  "restore_OnDisk clk r =
     (case restore_Expiry r of (expiry, ok) \<Rightarrow> ok \<and> Now clk < expiry)"

definition quoted :: "string \<Rightarrow> string" where
  "quoted s = [CHR 0x22] @ s @ [CHR 0x22]"

definition parseRestoreObjStatus :: "clock \<Rightarrow> string \<Rightarrow> gerror + restoreObjStatus" where
  "parseRestoreObjStatus clk restoreHdr =
     (let errRestoreHDRMalformed = OtherErr ''x-amz-restore header malformed'' in
      case SplitN2 (CHR '','') restoreHdr of (token0, token1) \<Rightarrow>
      case SplitN2 (CHR ''='') token0 of
        (name, None) \<Rightarrow> Inl errRestoreHDRMalformed
      | (name, Some v) \<Rightarrow>
          if TrimSpace name \<noteq> ''ongoing-request'' then Inl errRestoreHDRMalformed
          else if v = ''true'' \<or> v = quoted ''true'' then
            (if token1 = None then Inr ongoingRestoreObj else Inl errRestoreHDRMalformed)
          else if v = ''false'' \<or> v = quoted ''false'' then
            (case token1 of
               None \<Rightarrow> Inl errRestoreHDRMalformed
             | Some t1 \<Rightarrow>
                 (case SplitN2 (CHR ''='') t1 of
                    (ename, None) \<Rightarrow> Inl errRestoreHDRMalformed
                  | (ename, Some ev) \<Rightarrow>
                      if TrimSpace ename \<noteq> ''expiry-date'' then Inl errRestoreHDRMalformed
                      else (case ParseHeader clk (Trim_quotes ev) of
                              None \<Rightarrow> Inl errRestoreHDRMalformed
                            | Some expiry \<Rightarrow> Inr (completedRestoreObj expiry))))
          else Inl errRestoreHDRMalformed)"

definition AmzRestore :: string where "AmzRestore = ''x-amz-restore''"

definition isRestoredObjectOnDisk :: "clock \<Rightarrow> strmap \<Rightarrow> bool" where
  "isRestoredObjectOnDisk clk meta =
     (case mget meta AmzRestore of
        None \<Rightarrow> False
      | Some restoreHdr \<Rightarrow>
          (case parseRestoreObjStatus clk restoreHdr of
             Inl e \<Rightarrow> False
           | Inr restoreStatus \<Rightarrow> restore_OnDisk clk restoreStatus))"

section \<open>Methods of FileInfo\<close>

definition ReservedMetadataPrefix :: string where "ReservedMetadataPrefix = ''X-Minio-Internal-''"
definition ReservedMetadataPrefixLower :: string where
  "ReservedMetadataPrefixLower = ''x-minio-internal-''"

definition TransitionComplete :: string where "TransitionComplete = ''complete''"

definition FileInfo_shardSize :: "FileInfo \<Rightarrow> int" where
  "FileInfo_shardSize fi = ceilFrac (ei_BlockSize (fi_Erasure fi)) (ei_DataBlocks (fi_Erasure fi))"

definition FileInfo_ShardFileSize :: "FileInfo \<Rightarrow> int \<Rightarrow> gerror + int" where
  "FileInfo_ShardFileSize fi totalLength =
     (if totalLength = 0 then Inr 0
      else if totalLength = -1 then Inr (-1)
      else if ei_BlockSize (fi_Erasure fi) = 0 then Inl (GoPanic ''integer divide by zero'')
      else let numShards = quo totalLength (ei_BlockSize (fi_Erasure fi));
               lastBlockSize = rem totalLength (ei_BlockSize (fi_Erasure fi));
               lastShardSize = ceilFrac lastBlockSize (ei_DataBlocks (fi_Erasure fi))
           in Inr (numShards * FileInfo_shardSize fi + lastShardSize))"

definition ShallowCopy :: "FileInfo \<Rightarrow> FileInfo" where
  "ShallowCopy fi = FileInfo0\<lparr>fi_Volume := fi_Volume fi, fi_Name := fi_Name fi,
     fi_VersionID := fi_VersionID fi, fi_Deleted := fi_Deleted fi, fi_Erasure := fi_Erasure fi\<rparr>"

definition WriteQuorum :: "FileInfo \<Rightarrow> int \<Rightarrow> int" where
  "WriteQuorum fi dquorum =
     (if fi_Deleted fi then dquorum
      else let quorum = ei_DataBlocks (fi_Erasure fi)
           in if ei_DataBlocks (fi_Erasure fi) = ei_ParityBlocks (fi_Erasure fi)
              then quorum + 1 else quorum)"

definition ReadQuorum :: "FileInfo \<Rightarrow> int \<Rightarrow> int" where
  "ReadQuorum fi dquorum = (if fi_Deleted fi then dquorum else ei_DataBlocks (fi_Erasure fi))"

definition IsCompressed :: "FileInfo \<Rightarrow> bool" where
  "IsCompressed fi = mhas (fi_Metadata fi) (ReservedMetadataPrefix @ ''compression'')"

definition FileInfo_IsRemote :: "clock \<Rightarrow> FileInfo \<Rightarrow> bool" where
  "FileInfo_IsRemote clk fi =
     (if fi_TransitionStatus fi \<noteq> TransitionComplete then False
      else \<not> isRestoredObjectOnDisk clk (fi_Metadata fi))"

definition InlineData :: "clock \<Rightarrow> FileInfo \<Rightarrow> bool" where
  "InlineData clk fi =
     (mhas (fi_Metadata fi) (ReservedMetadataPrefixLower @ ''inline-data'')
      \<and> \<not> FileInfo_IsRemote clk fi)"

definition SetInlineData :: "FileInfo \<Rightarrow> FileInfo" where
  "SetInlineData fi = fi\<lparr>fi_Metadata :=
     mput (fi_Metadata fi) (ReservedMetadataPrefixLower @ ''inline-data'') ''true''\<rparr>"

definition GetDataDir :: "FileInfo \<Rightarrow> string" where
  "GetDataDir fi =
     (if fi_Deleted fi then ''delete-marker''
      else if fi_XLV1 fi \<and> fi_DataDir fi = [] then ''legacy''
      else fi_DataDir fi)"

definition IsValid :: "FileInfo \<Rightarrow> bool" where
  "IsValid fi =
     (if fi_Deleted fi then True
      else let dataBlocks = ei_DataBlocks (fi_Erasure fi);
               parityBlocks = ei_ParityBlocks (fi_Erasure fi);
               correctIndexes = (ei_Index (fi_Erasure fi) > 0 \<and>
                 ei_Index (fi_Erasure fi) \<le> dataBlocks + parityBlocks \<and>
                 int (length (elems (ei_Distribution (fi_Erasure fi)))) = dataBlocks + parityBlocks)
           in dataBlocks \<ge> parityBlocks \<and> dataBlocks > 0 \<and> parityBlocks \<ge> 0 \<and> correctIndexes)"

definition TransitionInfoEquals :: "FileInfo \<Rightarrow> FileInfo \<Rightarrow> bool" where
  "TransitionInfoEquals fi ofi =
     (if fi_TransitionStatus fi \<noteq> fi_TransitionStatus ofi \<or>
         fi_TransitionTier fi \<noteq> fi_TransitionTier ofi \<or>
         fi_TransitionedObjName fi \<noteq> fi_TransitionedObjName ofi \<or>
         fi_TransitionVersionID fi \<noteq> fi_TransitionVersionID ofi
      then False else True)"

definition FileInfo_Equals :: "FileInfo \<Rightarrow> FileInfo \<Rightarrow> bool" where
  "FileInfo_Equals fi ofi =
     (case (IsEncrypted (fi_Metadata fi), IsEncrypted (fi_Metadata ofi)) of
        ((typ1, ok1), (typ2, ok2)) \<Rightarrow>
          if ok1 \<noteq> ok2 then False
          else if typ1 \<noteq> typ2 then False
          else if IsCompressed fi \<noteq> IsCompressed ofi then False
          else if \<not> TransitionInfoEquals fi ofi then False
          else if fi_ModTime fi \<noteq> fi_ModTime ofi then False
          else ErasureInfo_Equal (fi_Erasure fi) (fi_Erasure ofi))"

text \<open>The loop over a map that returns at the first key the other one lacks or maps elsewhere;
  \<open>ord\<close> is the order of the iteration.\<close>

fun all_entries_in :: "(string \<times> string) list \<Rightarrow> strmap \<Rightarrow> bool" where
  "all_entries_in [] om = True"
| "all_entries_in ((k, v) # es) om =
     (case mget om k of
        None \<Rightarrow> False
      | Some ov \<Rightarrow> if ov \<noteq> v then False else all_entries_in es om)"

definition MetadataEquals ::
  "((string \<times> string) list \<Rightarrow> (string \<times> string) list) \<Rightarrow> FileInfo \<Rightarrow> FileInfo \<Rightarrow> bool" where
  "MetadataEquals ord fi ofi =
     (if length (elems (fi_Metadata fi)) \<noteq> length (elems (fi_Metadata ofi)) then False
      else all_entries_in (ord (elems (fi_Metadata fi))) (fi_Metadata ofi))"

definition ReplicationState_Equal :: "ReplicationState \<Rightarrow> ReplicationState \<Rightarrow> bool" where
  "ReplicationState_Equal rs o1 =
     (rs_ReplicaStatus rs = rs_ReplicaStatus o1 \<and>
      rs_ReplicationStatusInternal rs = rs_ReplicationStatusInternal o1 \<and>
      rs_VersionPurgeStatusInternal rs = rs_VersionPurgeStatusInternal o1)"

definition ReplicationInfoEquals :: "FileInfo \<Rightarrow> FileInfo \<Rightarrow> bool" where
  "ReplicationInfoEquals fi ofi =
     (if fi_MarkDeleted fi \<noteq> fi_MarkDeleted ofi \<or>
         \<not> ReplicationState_Equal (fi_ReplicationState fi) (fi_ReplicationState ofi)
      then False else True)"

fun part_index_from :: "int \<Rightarrow> ObjectPartInfo list \<Rightarrow> int \<Rightarrow> int" where
  "part_index_from i [] partNumber = -1"
| "part_index_from i (part # parts) partNumber =
     (if partNumber = pt_Number part then i else part_index_from (i + 1) parts partNumber)"

definition objectPartIndex :: "ObjectPartInfo list \<Rightarrow> int \<Rightarrow> int" where
  "objectPartIndex parts partNumber = part_index_from 0 parts partNumber"

fun part_index_nums_from :: "int \<Rightarrow> int list \<Rightarrow> int \<Rightarrow> int" where
  "part_index_nums_from i [] partNumber = -1"
| "part_index_nums_from i (part # parts) partNumber =
     (if part \<noteq> 0 \<and> partNumber = part then i else part_index_nums_from (i + 1) parts partNumber)"

definition objectPartIndexNums :: "int list \<Rightarrow> int \<Rightarrow> int" where
  "objectPartIndexNums parts partNumber = part_index_nums_from 0 parts partNumber"

text \<open>\<open>AddObjectPart\<close>: the first part of that number is overwritten in place; a new one is
  appended and the parts sorted by number.\<close>

definition AddObjectPart ::
  "FileInfo \<Rightarrow> int \<Rightarrow> string \<Rightarrow> int \<Rightarrow> int \<Rightarrow> gotime \<Rightarrow> byte slice \<Rightarrow> strmap \<Rightarrow> FileInfo" where
  "AddObjectPart fi partNumber partETag partSize actualSize modTime idx checksums =
     (let partInfo = ObjectPartInfo0\<lparr>pt_Number := partNumber, pt_ETag := partETag,
            pt_Size := partSize, pt_ActualSize := actualSize, pt_ModTime := modTime,
            pt_Index := idx, pt_Checksums := checksums\<rparr>;
          parts = elems (fi_Parts fi);
          i = objectPartIndex parts partNumber
      in if i \<ge> 0 then fi\<lparr>fi_Parts := Some (parts[nat i := partInfo])\<rparr>
         else fi\<lparr>fi_Parts := Some (sort_key pt_Number (parts @ [partInfo]))\<rparr>)"

fun seek_part :: "ObjectPartInfo list \<Rightarrow> int \<Rightarrow> int \<Rightarrow> gerror + int \<times> int" where
  "seek_part [] i partOffset = Inl (InvalidRange 0 0 0)"
| "seek_part (part # parts) i partOffset =
     (if partOffset < pt_Size part then Inr (i, partOffset)
      else seek_part parts (i + 1) (partOffset - pt_Size part))"

definition ObjectToPartOffset :: "FileInfo \<Rightarrow> int \<Rightarrow> gerror + int \<times> int" where
  "ObjectToPartOffset fi offset =
     (if offset = 0 then Inr (0, 0) else seek_part (elems (fi_Parts fi)) 0 offset)"

text \<open>The tier markers kept in the metadata.\<close>

definition tierFVID :: string where "tierFVID = ''tier-free-versionID''"
definition tierFVMarker :: string where "tierFVMarker = ''tier-free-marker''"
definition tierSkipFVID :: string where "tierSkipFVID = ''tier-skip-fvid''"

definition SetTierFreeVersionID :: "FileInfo \<Rightarrow> string \<Rightarrow> FileInfo" where
  "SetTierFreeVersionID fi versionID = fi\<lparr>fi_Metadata :=
     mput (fi_Metadata fi) (ReservedMetadataPrefixLower @ tierFVID) versionID\<rparr>"

definition TierFreeVersionID :: "FileInfo \<Rightarrow> string" where
  "TierFreeVersionID fi = mgetd (fi_Metadata fi) (ReservedMetadataPrefixLower @ tierFVID)"

definition SetTierFreeVersion :: "FileInfo \<Rightarrow> FileInfo" where
  "SetTierFreeVersion fi = fi\<lparr>fi_Metadata :=
     mput (fi_Metadata fi) (ReservedMetadataPrefixLower @ tierFVMarker) []\<rparr>"

definition SetSkipTierFreeVersion :: "FileInfo \<Rightarrow> FileInfo" where
  "SetSkipTierFreeVersion fi = fi\<lparr>fi_Metadata :=
     mput (fi_Metadata fi) (ReservedMetadataPrefixLower @ tierSkipFVID) []\<rparr>"

definition SkipTierFreeVersion :: "FileInfo \<Rightarrow> bool" where
  "SkipTierFreeVersion fi = mhas (fi_Metadata fi) (ReservedMetadataPrefixLower @ tierSkipFVID)"

definition TierFreeVersion :: "FileInfo \<Rightarrow> bool" where
  "TierFreeVersion fi = mhas (fi_Metadata fi) (ReservedMetadataPrefixLower @ tierFVMarker)"

definition IsRestoreObjReq :: "clock \<Rightarrow> FileInfo \<Rightarrow> bool" where
  "IsRestoreObjReq clk fi =
     (case mget (fi_Metadata fi) AmzRestore of
        None \<Rightarrow> False
      | Some restoreHdr \<Rightarrow>
          (case parseRestoreObjStatus clk restoreHdr of
             Inl e \<Rightarrow> False
           | Inr restoreStatus \<Rightarrow> \<not> ro_ongoing restoreStatus))"

section \<open>Keyed stores: the metadata map and the part table\<close>

text \<open>What a client of either may rely on: a lookup sees the last store under its key and
  nothing else, and every store keeps the invariant.\<close>

locale keyed_store =
  fixes lookup_in :: "'s \<Rightarrow> 'k \<Rightarrow> 'v option"
    and store_in :: "'s \<Rightarrow> 'k \<Rightarrow> 'v \<Rightarrow> 's"
    and inv :: "'s \<Rightarrow> bool"
  assumes store_inv: "inv s \<Longrightarrow> inv (store_in s k v)"
    and lookup_store: "inv s \<Longrightarrow> lookup_in (store_in s k v) k' = (if k' = k then Some v else lookup_in s k')"
begin

lemma fold_inv: "inv s \<Longrightarrow> inv (fold (\<lambda>(k, v) s. store_in s k v) kvs s)"
  by (induction kvs arbitrary: s) (auto intro: store_inv)

lemma fold_lookup:
  assumes "inv s"
  shows "lookup_in (fold (\<lambda>(k, v) s. store_in s k v) kvs s) k =
    (case map_of (rev kvs) k of Some v \<Rightarrow> Some v | None \<Rightarrow> lookup_in s k)"
  using assms
  by (induction kvs arbitrary: s) (auto simp: lookup_store store_inv map_add_def split: option.splits)

end

text \<open>The metadata map.\<close>

interpretation meta: keyed_store mget mput wf_strmap
  by unfold_locales (auto simp: mget_mput)

text \<open>The part table: the entry of a part number, and adding one.\<close>

definition part_entry where
  "part_entry p = (pt_ETag p, pt_Size p, pt_ActualSize p, pt_ModTime p, pt_Index p, pt_Checksums p)"

definition part_table where
  "part_table ps = map (\<lambda>p. (pt_Number p, part_entry p)) ps"

definition part_of where
  "part_of fi n = map_of (part_table (elems (fi_Parts fi))) n"

definition add_part where
  "add_part fi n e = (case e of (etag, sz, actual, mt, idx, cks) \<Rightarrow> AddObjectPart fi n etag sz actual mt idx cks)"

definition parts_sorted :: "FileInfo \<Rightarrow> bool" where
  "parts_sorted fi = sorted_wrt (<) (map pt_Number (elems (fi_Parts fi)))"

lemma part_index_from_neg: "0 \<le> i \<Longrightarrow> part_index_from i ps n < 0 \<longleftrightarrow> n \<notin> set (map pt_Number ps)"
  by (induction i ps n rule: part_index_from.induct) auto

lemma part_index_from_nth:
  "n \<in> set (map pt_Number ps) \<Longrightarrow>
   \<exists>k<length ps. part_index_from i ps n = i + int k \<and> pt_Number (ps ! k) = n"
proof (induction i ps n rule: part_index_from.induct)
  case (2 i part parts partNumber)
  show ?case
  proof (cases "partNumber = pt_Number part")
    case True
    then show ?thesis by (intro exI[of _ 0]) simp
  next
    case False
    then obtain k where "k < length parts" "part_index_from (i + 1) parts partNumber = i + 1 + int k"
        "pt_Number (parts ! k) = partNumber"
      using 2 by auto
    then show ?thesis using False by (intro exI[of _ "Suc k"]) simp
  qed
qed simp

lemma part_table_keys [simp]: "map fst (part_table ps) = map pt_Number ps"
  by (simp add: part_table_def comp_def)

lemma map_of_update_nth:
  assumes "distinct (map fst xs)" and "k < length xs"
  shows "map_of (xs[k := (fst (xs ! k), v)]) = (map_of xs)(fst (xs ! k) \<mapsto> v)"
  using assms
proof (induction xs arbitrary: k)
  case (Cons x xs)
  show ?case
  proof (cases k)
    case 0
    then show ?thesis by (cases x) auto
  next
    case (Suc j)
    then have "fst (xs ! j) \<in> set (map fst xs)" using Cons.prems by simp
    then have "fst (xs ! j) \<noteq> fst x" using Cons.prems(1) by (metis distinct.simps(2) list.simps(9))
    then show ?thesis using Suc Cons by (cases x) (auto intro!: ext)
  qed
qed simp

lemma AddObjectPart_table:
  assumes "parts_sorted fi"
  shows "parts_sorted (add_part fi n e)" (is ?sorted)
    and "part_of (add_part fi n e) = (part_of fi)(n \<mapsto> e)" (is ?lookup)
proof -
  let ?ps = "elems (fi_Parts fi)"
  obtain etag sz actual mt idx cks where e: "e = (etag, sz, actual, mt, idx, cks)" by (cases e)
  let ?p = "ObjectPartInfo0\<lparr>pt_Number := n, pt_ETag := etag, pt_Size := sz, pt_ActualSize := actual,
      pt_ModTime := mt, pt_Index := idx, pt_Checksums := cks\<rparr>"
  have pe: "part_entry ?p = e" "pt_Number ?p = n" by (simp_all add: part_entry_def e)
  have d: "distinct (map pt_Number ?ps)" "sorted (map pt_Number ?ps)"
    using assms by (simp_all add: parts_sorted_def strict_sorted_iff)
  show ?sorted ?lookup
  proof (atomize(full), cases "n \<in> set (map pt_Number ?ps)")
    case True
    then obtain k where k: "k < length ?ps" "objectPartIndex ?ps n = int k" "pt_Number (?ps ! k) = n"
      using part_index_from_nth[of n ?ps 0] by (auto simp: objectPartIndex_def)
    then have f: "fi_Parts (add_part fi n e) = Some (?ps[k := ?p])"
      by (simp add: add_part_def e AddObjectPart_def Let_def)
    have "map pt_Number (?ps[k := ?p]) = map pt_Number ?ps"
      using k by (simp add: map_update list_update_same_conv)
    moreover have "part_table (?ps[k := ?p]) = (part_table ?ps)[k := (n, e)]"
      by (simp add: part_table_def map_update pe)
    moreover have "map_of ((part_table ?ps)[k := (n, e)]) = (map_of (part_table ?ps))(n \<mapsto> e)"
      using map_of_update_nth[of "part_table ?ps" k e] d k by (simp add: part_table_def comp_def)
    ultimately have "part_of (add_part fi n e) = (map_of (part_table ?ps))(n \<mapsto> e)"
      and "map pt_Number (elems (fi_Parts (add_part fi n e))) = map pt_Number ?ps"
      by (simp_all add: part_of_def f fun_eq_iff)
    then show "parts_sorted (add_part fi n e) \<and> part_of (add_part fi n e) = (part_of fi)(n \<mapsto> e)"
      using assms by (auto simp: parts_sorted_def part_of_def)
  next
    case False
    then have "\<not> 0 \<le> objectPartIndex ?ps n"
      using part_index_from_neg[of 0 ?ps n] by (simp add: objectPartIndex_def)
    then have f: "fi_Parts (add_part fi n e) = Some (sort_key pt_Number (?ps @ [?p]))"
      by (simp add: add_part_def e AddObjectPart_def Let_def)
    let ?qs = "sort_key pt_Number (?ps @ [?p])"
    have ms: "mset (map pt_Number ?qs) = mset (map pt_Number (?ps @ [?p]))" by simp
    have dq': "distinct (map pt_Number (?ps @ [?p]))" using d False by simp
    then have dq: "distinct (map pt_Number ?qs)" using mset_eq_imp_distinct_iff[OF ms] by simp
    have none: "map_of (part_table ?ps) n = None"
      using False by (metis map_of_eq_None_iff part_table_keys set_map)
    have part_table_snoc: "part_table (?ps @ [?p]) = part_table ?ps @ [(n, e)]"
      by (simp add: part_table_def pe)
    have "set (part_table ?qs) = set (part_table (?ps @ [?p]))" by (simp add: part_table_def)
    then have "map_of (part_table ?qs) = map_of (part_table (?ps @ [?p]))"
      using dq dq' by (subst map_of_inject_set) simp_all
    also have "\<dots> = (map_of (part_table ?ps))(n \<mapsto> e)"
      using none by (auto simp: part_table_snoc map_add_def fun_eq_iff split: option.split)
    finally show "parts_sorted (add_part fi n e) \<and> part_of (add_part fi n e) = (part_of fi)(n \<mapsto> e)"
      using dq by (simp add: parts_sorted_def part_of_def f strict_sorted_iff fun_eq_iff)
  qed
qed

interpretation parts: keyed_store part_of add_part parts_sorted
  by unfold_locales (simp_all add: AddObjectPart_table)

section \<open>Properties\<close>

text \<open>Adding parts to an object in any order leaves the part list strictly sorted by part
  number, and each number carries the part added last under it; the other parts are as before.\<close>

theorem add_parts_last_wins:
  assumes "parts_sorted fi"
  shows "let fi' = fold (\<lambda>(n, e) f. add_part f n e) uploads fi
         in parts_sorted fi' \<and>
            (\<forall>n. part_of fi' n = (case map_of (rev uploads) n of Some e \<Rightarrow> Some e | None \<Rightarrow> part_of fi n))"
  using parts.fold_inv[OF assms, of uploads] parts.fold_lookup[OF assms, of uploads]
  by (simp add: Let_def)

theorem add_parts_last_wins_witness:
  "let fi' = fold (\<lambda>(n, e) f. add_part f n e)
               [(2, ([], 5, 5, 0, None, None)), (1, ([], 7, 7, 0, None, None)), (2, ([], 6, 6, 0, None, None))]
               FileInfo0
   in parts_sorted fi' \<and> part_of fi' 2 = Some ([], 6, 6, 0, None, None)"
proof -
  have "parts_sorted FileInfo0" by (simp add: parts_sorted_def FileInfo0_def)
  from add_parts_last_wins[OF this, of "[(2, ([], 5, 5, 0, None, None)), (1, ([], 7, 7, 0, None, None)),
      (2, ([], 6, 6, 0, None, None))]"]
  show ?thesis by (simp add: Let_def del: fold.simps)
qed

lemma seek_part_correct:
  assumes "0 \<le> offset" and "\<forall>p \<in> set ps. 0 \<le> pt_Size p"
  shows "case seek_part ps i offset of
      Inl e \<Rightarrow> (\<Sum>p\<leftarrow>ps. pt_Size p) \<le> offset
    | Inr (j, o1) \<Rightarrow> i \<le> j \<and> nat (j - i) < length ps \<and> 0 \<le> o1 \<and> o1 < pt_Size (ps ! nat (j - i))
        \<and> offset = (\<Sum>p\<leftarrow>take (nat (j - i)) ps. pt_Size p) + o1"
  using assms
proof (induction ps i offset rule: seek_part.induct)
  case (1 i partOffset)
  then show ?case by simp
next
  case (2 part parts i off)
  show ?case
  proof (cases "off < pt_Size part")
    case True
    then show ?thesis using 2 by simp
  next
    case False
    have n: "nat (j - i) = Suc (nat (j - (i + 1)))" if "i + 1 \<le> j" for j using that by auto
    show ?thesis
      using 2(1)[OF False] 2(2,3) False
      by (auto simp: n split: sum.splits)
  qed
qed

text \<open>A positive offset into an object is translated to the part that holds it and the offset
  inside that part (the sizes of the parts before it add up); the request is refused
  exactly when the offset is at or beyond the end of the object.\<close>

theorem object_to_part_offset_correct:
  assumes "0 < offset" and "\<forall>p \<in> set (elems (fi_Parts fi)). 0 \<le> pt_Size p"
  shows "case ObjectToPartOffset fi offset of
      Inl e \<Rightarrow> e = InvalidRange 0 0 0 \<and> (\<Sum>p\<leftarrow>elems (fi_Parts fi). pt_Size p) \<le> offset
    | Inr (i, o1) \<Rightarrow> 0 \<le> i \<and> nat i < length (elems (fi_Parts fi))
        \<and> 0 \<le> o1 \<and> o1 < pt_Size (elems (fi_Parts fi) ! nat i)
        \<and> offset = (\<Sum>p\<leftarrow>take (nat i) (elems (fi_Parts fi)). pt_Size p) + o1"
proof -
  have "seek_part ps i off = Inl e \<Longrightarrow> e = InvalidRange 0 0 0" for ps i off e
    by (induction ps i off rule: seek_part.induct) (auto split: if_splits)
  then show ?thesis
    using seek_part_correct[of offset "elems (fi_Parts fi)" 0] assms
    by (auto simp: ObjectToPartOffset_def split: sum.splits)
qed

theorem object_to_part_offset_correct_witness:
  "ObjectToPartOffset (FileInfo0\<lparr>fi_Parts := Some [ObjectPartInfo0\<lparr>pt_Size := 5\<rparr>, ObjectPartInfo0\<lparr>pt_Size := 9\<rparr>]\<rparr>) 8
     = Inr (1, 3) \<and> (8 :: int) = 5 + 3"
  using object_to_part_offset_correct[of 8 "FileInfo0\<lparr>fi_Parts := Some [ObjectPartInfo0\<lparr>pt_Size := 5\<rparr>,
      ObjectPartInfo0\<lparr>pt_Size := 9\<rparr>]\<rparr>"]
  by (simp add: ObjectToPartOffset_def)

text \<open>The three copies of the shard-size computation (on the encoder, on the erasure
  information and on the file information) are the same function.\<close>

theorem shard_file_size_copies_agree:
  "ErasureInfo_ShardFileSize (fi_Erasure fi) n = FileInfo_ShardFileSize fi n \<and>
   FileInfo_ShardFileSize fi n =
     Erasure_ShardFileSize \<lparr>er_dataBlocks = ei_DataBlocks (fi_Erasure fi),
       er_parityBlocks = ei_ParityBlocks (fi_Erasure fi),
       er_blockSize = ei_BlockSize (fi_Erasure fi)\<rparr> n"
  by (simp add: ErasureInfo_ShardFileSize_def FileInfo_ShardFileSize_def Erasure_ShardFileSize_def
      ErasureInfo_ShardSize_def FileInfo_shardSize_def Erasure_ShardSize_def)

text \<open>For the metadata of a valid object version, every read quorum of drives meets every
  write quorum, two write quorums meet, and the write quorum is no more than the number of drives.\<close>

theorem quorums_of_valid_intersect:
  assumes "IsValid fi" and "\<not> fi_Deleted fi"
  shows "ReadQuorum fi dq + WriteQuorum fi dq
           > ei_DataBlocks (fi_Erasure fi) + ei_ParityBlocks (fi_Erasure fi)
    \<and> 2 * WriteQuorum fi dq > ei_DataBlocks (fi_Erasure fi) + ei_ParityBlocks (fi_Erasure fi)
    \<and> 0 < ReadQuorum fi dq \<and> ReadQuorum fi dq \<le> WriteQuorum fi dq
    \<and> WriteQuorum fi dq \<le> int (length (elems (ei_Distribution (fi_Erasure fi))))"
  using assms by (auto simp: IsValid_def ReadQuorum_def WriteQuorum_def Let_def)

theorem quorums_of_valid_intersect_witness:
  "ReadQuorum (FileInfo0\<lparr>fi_Erasure := ErasureInfo0\<lparr>ei_DataBlocks := 2, ei_ParityBlocks := 2,
      ei_Index := 1, ei_Distribution := Some [2, 3, 4, 1]\<rparr>\<rparr>) 0 = 2 \<and>
   WriteQuorum (FileInfo0\<lparr>fi_Erasure := ErasureInfo0\<lparr>ei_DataBlocks := 2, ei_ParityBlocks := 2,
      ei_Index := 1, ei_Distribution := Some [2, 3, 4, 1]\<rparr>\<rparr>) 0 = 3 \<and> (2 + 3 :: int) > 4"
  using quorums_of_valid_intersect[of "FileInfo0\<lparr>fi_Erasure := ErasureInfo0\<lparr>ei_DataBlocks := 2,
      ei_ParityBlocks := 2, ei_Index := 1, ei_Distribution := Some [2, 3, 4, 1]\<rparr>\<rparr>" 0]
  by (simp add: IsValid_def FileInfo0_def ErasureInfo0_def ReadQuorum_def WriteQuorum_def)

text \<open>Where the two loops over a map that compare it to another one agree with equality.\<close>

lemma all_entries_in_iff: "all_entries_in es om \<longleftrightarrow> (\<forall>(k, v) \<in> set es. mget om k = Some v)"
  by (induction es om rule: all_entries_in.induct) (auto split: option.splits)

text \<open>\<open>MetadataEquals\<close> does not depend on the order in which the map is visited: it holds
  exactly when the two maps have the same entries.\<close>

theorem metadata_equals_correct:
  assumes "range_order ord" and "wf_strmap (fi_Metadata fi)" and "wf_strmap (fi_Metadata ofi)"
  shows "MetadataEquals ord fi ofi \<longleftrightarrow> mget (fi_Metadata fi) = mget (fi_Metadata ofi)"
proof -
  let ?xs = "elems (fi_Metadata fi)" and ?ys = "elems (fi_Metadata ofi)"
  have d: "distinct (map fst ?xs)" "distinct (map fst ?ys)"
    using assms by (simp_all add: wf_strmap_def)
  have c: "card (set zs) = length zs" if "distinct (map fst zs)" for zs :: "(string \<times> string) list"
    using that by (simp add: distinct_card distinct_map)
  have mem: "(k, v) \<in> set zs \<longleftrightarrow> map_of zs k = Some v" if "distinct (map fst zs)"
    for zs :: "(string \<times> string) list" and k v
    using that by simp
  have "MetadataEquals ord fi ofi \<longleftrightarrow> length ?xs = length ?ys \<and> set ?xs \<subseteq> set ?ys"
    using mem[OF d(2)] range_order_set[OF assms(1), of ?xs]
    by (auto simp: MetadataEquals_def all_entries_in_iff mget_def)
  also have "\<dots> \<longleftrightarrow> set ?xs = set ?ys"
    using c[OF d(1)] c[OF d(2)] card_subset_eq[of "set ?ys" "set ?xs"] by auto
  also have "\<dots> \<longleftrightarrow> map_of ?xs = map_of ?ys"
    using map_of_inject_set[OF d] by blast
  finally show ?thesis by (simp add: mget_def fun_eq_iff)
qed

theorem metadata_equals_correct_witness:
  "MetadataEquals rev (FileInfo0\<lparr>fi_Metadata := Some [(''a'', ''1''), (''b'', ''2'')]\<rparr>)
     (FileInfo0\<lparr>fi_Metadata := Some [(''b'', ''2''), (''a'', ''1'')]\<rparr>)"
  using metadata_equals_correct[of rev "FileInfo0\<lparr>fi_Metadata := Some [(''a'', ''1''), (''b'', ''2'')]\<rparr>"
      "FileInfo0\<lparr>fi_Metadata := Some [(''b'', ''2''), (''a'', ''1'')]\<rparr>"]
  by (auto simp: wf_strmap_def mget_def fun_eq_iff)

lemma trim_quotes_quoted:
  assumes "s \<noteq> []" and "hd s \<noteq> CHR 0x22" and "last s \<noteq> CHR 0x22"
  shows "Trim_quotes (CHR 0x22 # s @ [CHR 0x22]) = s"
proof -
  obtain c cs where s: "s = c # cs" using assms(1) by (cases s) auto
  obtain d ds where r: "rev s = d # ds" using assms(1) by (cases "rev s") auto
  then have "last s = d" by (metis hd_rev list.sel(1) assms(1))
  moreover have "dropWhile (\<lambda>c. c = CHR 0x22) (CHR 0x22 # s @ [CHR 0x22]) = s @ [CHR 0x22]"
    using s assms(2) by simp
  ultimately show ?thesis
    using assms(3) r by (simp add: Trim_quotes_def trim_both_def)
qed

text \<open>The restore status written into \<open>x-amz-restore\<close> is parsed back to itself, and an object
  transitioned to a remote tier counts as local exactly until the expiry it carries.\<close>

theorem restore_status_roundtrip:
  assumes "ParseHeader clk (Format t) = Some t"
    and "Format t \<noteq> []" and "hd (Format t) \<noteq> CHR 0x22" and "last (Format t) \<noteq> CHR 0x22"
    and "mget (fi_Metadata fi) AmzRestore = Some (restore_String Format (completedRestoreObj t))"
    and "fi_TransitionStatus fi = TransitionComplete"
  shows "parseRestoreObjStatus clk (restore_String Format ongoingRestoreObj) = Inr ongoingRestoreObj
    \<and> parseRestoreObjStatus clk (restore_String Format (completedRestoreObj t)) = Inr (completedRestoreObj t)
    \<and> IsRestoreObjReq clk fi
    \<and> (FileInfo_IsRemote clk fi \<longleftrightarrow> t \<le> Now clk)"
proof -
  have 1: "parseRestoreObjStatus clk (restore_String Format ongoingRestoreObj) = Inr ongoingRestoreObj"
    by (simp add: parseRestoreObjStatus_def restore_String_def ongoingRestoreObj_def quoted_def
        TrimSpace_def trim_both_def is_space_def)
  have 2: "parseRestoreObjStatus clk (restore_String Format (completedRestoreObj t)) = Inr (completedRestoreObj t)"
    using trim_quotes_quoted[OF assms(2-4)] assms(1)
    by (simp add: parseRestoreObjStatus_def restore_String_def completedRestoreObj_def quoted_def
        TrimSpace_def trim_both_def is_space_def)
  show ?thesis
    using 1 2 assms(5,6)
    by (auto simp: IsRestoreObjReq_def FileInfo_IsRemote_def isRestoredObjectOnDisk_def restore_OnDisk_def
        restore_Expiry_def completedRestoreObj_def)
qed

theorem restore_status_roundtrip_witness:
  "FileInfo_IsRemote \<lparr>ParseHeader = (\<lambda>s. if s = ''Fri, 21 Dec 2012 00:00:00 GMT'' then Some 5 else None), Now = 7\<rparr>
     (FileInfo0\<lparr>fi_TransitionStatus := TransitionComplete, fi_Metadata := Some [(AmzRestore,
        restore_String (\<lambda>t. ''Fri, 21 Dec 2012 00:00:00 GMT'') (completedRestoreObj 5))]\<rparr>)"
  using restore_status_roundtrip[of "\<lparr>ParseHeader = (\<lambda>s. if s = ''Fri, 21 Dec 2012 00:00:00 GMT'' then Some 5 else None), Now = 7\<rparr>"
      "\<lambda>t. ''Fri, 21 Dec 2012 00:00:00 GMT''" 5 "FileInfo0\<lparr>fi_TransitionStatus := TransitionComplete,
        fi_Metadata := Some [(AmzRestore, restore_String (\<lambda>t. ''Fri, 21 Dec 2012 00:00:00 GMT'') (completedRestoreObj 5))]\<rparr>"]
  by (simp add: mget_def)

end
