(* ===== verification/Quorum_Meta.thy ===== *)
theory Quorum_Meta
  imports File_Info
begin

text \<open>
  Agreement among drives: the reduction of their errors, versions, times, etags and metadata to
  the value a quorum of them shares (\<open>cmd/erasure-metadata-utils.go\<close>,
  \<open>cmd/erasure-healing-common.go\<close>, \<open>cmd/erasure-metadata.go\<close>). The loops that look for the most
  frequent value run over a Go map, whose order is the parameter \<open>ord\<close>; what they promise
  whatever that order is stated once, in the locale \<open>vote_scan\<close>, which is interpreted on
  each of them. The slices that run in parallel (disks, metadata, errors) have one entry per
  drive, as their callers build them; a nil drive is \<open>None\<close>.
\<close>

section \<open>Counting votes\<close>

text \<open>A scan that returns a best entry of a tally and its number of votes.\<close>

locale vote_scan =
  fixes scan :: "('k \<times> int) list \<Rightarrow> int \<times> 'k"
  assumes scan_nil: "fst (scan []) = 0"
    and scan_best: "es \<noteq> [] \<Longrightarrow> \<forall>(k, c) \<in> set es. 0 < c \<Longrightarrow>
      (snd (scan es), fst (scan es)) \<in> set es \<and> (\<forall>(k, c) \<in> set es. c \<le> fst (scan es))"
begin

lemma winner:
  assumes "range_order ord"
  shows "(\<forall>k. occ k ks \<le> fst (scan (ord (tally ks))))
    \<and> (ks \<noteq> [] \<longrightarrow> snd (scan (ord (tally ks))) \<in> set ks
         \<and> fst (scan (ord (tally ks))) = occ (snd (scan (ord (tally ks)))) ks)
    \<and> (ks = [] \<longrightarrow> fst (scan (ord (tally ks))) = 0)"
proof (cases "ks = []")
  case True
  then have "ord (tally ks) = []"
    using range_order_length[OF assms, of "tally ks"] by (simp add: tally_def)
  then show ?thesis using True scan_nil by simp
next
  case False
  have mem: "(k, c) \<in> set (ord (tally ks)) \<longleftrightarrow> k \<in> set ks \<and> c = occ k ks" for k c
    using range_order_set[OF assms] tally_iff by metis
  have ne: "ord (tally ks) \<noteq> []" using False mem by (metis last_in_set list.set_cases list.distinct(1))
  have pos: "\<forall>(k, c) \<in> set (ord (tally ks)). 0 < c" using mem occ_pos by auto
  have "occ k ks \<le> fst (scan (ord (tally ks)))" for k
  proof (cases "k \<in> set ks")
    case True
    then have "(k, occ k ks) \<in> set (ord (tally ks))" using mem by simp
    then show ?thesis using scan_best[OF ne pos] by blast
  next
    case False
    then have "occ k ks = 0" by (simp add: count_list_0_iff)
    then show ?thesis using scan_best[OF ne pos] pos by fastforce
  qed
  then show ?thesis using scan_best[OF ne pos] mem False by auto
qed

text \<open>A quorum that is a majority of the votes has only one candidate.\<close>

lemma majority_wins:
  assumes "range_order ord" and "q \<le> occ k ks" and "int (length ks) < 2 * q"
  shows "scan (ord (tally ks)) = (occ k ks, k)"
proof -
  let ?m = "fst (scan (ord (tally ks)))" and ?a = "snd (scan (ord (tally ks)))"
  have "ks \<noteq> []" using assms(2,3) by auto
  then have w: "occ k ks \<le> ?m" "?m = occ ?a ks" using winner[OF assms(1), of ks] by blast+
  moreover have "?a = k" using two_occ_le[of ?a k ks] w assms(2,3) by fastforce
  ultimately show ?thesis by (metis prod.collapse)
qed

lemma order_irrelevant:
  assumes "range_order ord" and "range_order ord'"
    and "q \<le> fst (scan (ord (tally ks)))" and "int (length ks) < 2 * q"
  shows "scan (ord' (tally ks)) = scan (ord (tally ks))"
proof -
  have "ks \<noteq> []" using assms scan_nil winner[OF assms(1), of ks] by fastforce
  then have "q \<le> occ (snd (scan (ord (tally ks)))) ks" using winner[OF assms(1)] assms(3) by metis
  then show ?thesis using majority_wins assms by metis
qed

end

interpretation freq: vote_scan "\<lambda>es. scan_max es (0, d)" for d
proof unfold_locales
  fix es :: "('a \<times> int) list"
  assume "es \<noteq> []" and pos: "\<forall>(k, c) \<in> set es. 0 < c"
  then obtain k c where e: "(k, c) \<in> set es" "0 < c" by (cases es) auto
  show "(snd (scan_max es (0, d)), fst (scan_max es (0, d))) \<in> set es
      \<and> (\<forall>(k, c) \<in> set es. c \<le> fst (scan_max es (0, d)))"
    using scan_max_cases[of es 0 d "fst (scan_max es (0, d))" "snd (scan_max es (0, d))"] e by fastforce
qed simp

lemma count_list_replicate: "count_list (replicate n x) y = (if x = y then n else 0)"
  by (induction n) auto

section \<open>Errors\<close>

fun counted_errs :: "gerror option list \<Rightarrow> gerror list \<Rightarrow> gerror option list" where
  "counted_errs [] ignoredErrs = []"
| "counted_errs (err # errs) ignoredErrs =
     (if IsErrIgnored err ignoredErrs then counted_errs errs ignoredErrs
      else if IsErr err [ContextCanceled] then Some ContextCanceled # counted_errs errs ignoredErrs
      else err # counted_errs errs ignoredErrs)"

fun scan_errs :: "(gerror option \<times> int) list \<Rightarrow> int \<times> gerror option \<Rightarrow> int \<times> gerror option" where
  "scan_errs [] acc = acc"
| "scan_errs ((err, cnt) # es) (maxCnt, maxErr) =
     (if maxCnt < cnt then scan_errs es (cnt, err)
      else if maxCnt = cnt \<and> err = None then scan_errs es (maxCnt, err)
      else scan_errs es (maxCnt, maxErr))"

type_synonym errs_order = "(gerror option \<times> int) list \<Rightarrow> (gerror option \<times> int) list"

definition reduceErrs ::
  "errs_order \<Rightarrow> gerror option list \<Rightarrow> gerror list \<Rightarrow> int \<times> gerror option" where
  "reduceErrs ord errs ignoredErrs = scan_errs (ord (tally (counted_errs errs ignoredErrs))) (0, None)"

definition reduceQuorumErrs ::
  "errs_order \<Rightarrow> bool \<Rightarrow> gerror option list \<Rightarrow> gerror list \<Rightarrow> int \<Rightarrow> gerror option \<Rightarrow> gerror option" where
  "reduceQuorumErrs ord ctxCanceled errs ignoredErrs quorum quorumErr =
     (if ctxCanceled then Some ContextCanceled
      else case reduceErrs ord errs ignoredErrs of
             (maxCount, maxErr) \<Rightarrow> if maxCount \<ge> quorum then maxErr else quorumErr)"

definition reduceReadQuorumErrs where
  "reduceReadQuorumErrs ord ctxCanceled errs ignoredErrs readQuorum =
     reduceQuorumErrs ord ctxCanceled errs ignoredErrs readQuorum (Some ErrErasureReadQuorum)"

definition reduceWriteQuorumErrs where
  "reduceWriteQuorumErrs ord ctxCanceled errs ignoredErrs writeQuorum =
     reduceQuorumErrs ord ctxCanceled errs ignoredErrs writeQuorum (Some ErrErasureWriteQuorum)"

lemma scan_errs_best:
  "scan_errs es (mx, e) = (mx', e') \<Longrightarrow>
   (mx' = mx \<and> e' = e \<or> (e', mx') \<in> set es)
   \<and> (\<forall>(k, c) \<in> set es. c \<le> mx') \<and> mx \<le> mx'
   \<and> ((None, mx') \<in> set es \<or> mx' = mx \<and> e = None \<longrightarrow> e' = None)"
proof (induction es "(mx, e)" arbitrary: mx e rule: scan_errs.induct)
  case (2 err cnt es maxCnt maxErr)
  then show ?case by (auto split: if_splits)
qed simp

interpretation errs: vote_scan "\<lambda>es. scan_errs es (0, None)"
proof unfold_locales
  fix es :: "(gerror option \<times> int) list"
  assume "es \<noteq> []" and "\<forall>(k, c) \<in> set es. 0 < c"
  then show "(snd (scan_errs es (0, None)), fst (scan_errs es (0, None))) \<in> set es
      \<and> (\<forall>(k, c) \<in> set es. c \<le> fst (scan_errs es (0, None)))"
    using scan_errs_best[of es 0 None "fst (scan_errs es (0, None))" "snd (scan_errs es (0, None))"]
    by (cases es) fastforce+
qed simp

lemma reduceErrs_winner:
  assumes "range_order ord" and "reduceErrs ord errs ignored = (n, e)"
  shows "\<forall>x. occ x (counted_errs errs ignored) \<le> n"
    and "counted_errs errs ignored \<noteq> [] \<Longrightarrow> e \<in> set (counted_errs errs ignored) \<and> n = occ e (counted_errs errs ignored)"
    and "counted_errs errs ignored = [] \<Longrightarrow> n = 0 \<and> e = None"
proof -
  let ?ks = "counted_errs errs ignored"
  have sc: "scan_errs (ord (tally ?ks)) (0, None) = (n, e)" using assms(2) by (simp add: reduceErrs_def)
  then show "\<forall>x. occ x ?ks \<le> n" and "?ks \<noteq> [] \<Longrightarrow> e \<in> set ?ks \<and> n = occ e ?ks"
    using errs.winner[OF assms(1), of ?ks] by simp_all
  show "n = 0 \<and> e = None" if "?ks = []"
  proof -
    have "ord (tally []) = []" using range_order_length[OF assms(1), of "tally []"] by (simp add: tally_def)
    then show ?thesis using sc that by simp
  qed
qed

text \<open>Whatever order the runtime visits the map of errors in, the reduction returns how often
  the most frequent outcome occurs and such an outcome, success when success is one of the most frequent.\<close>

theorem reduce_errs_most_frequent:
  assumes "range_order ord" and "reduceErrs ord errs ignored = (n, e)"
  shows "(\<forall>x. occ x (counted_errs errs ignored) \<le> n)
    \<and> (counted_errs errs ignored \<noteq> [] \<longrightarrow> n = occ e (counted_errs errs ignored) \<and> 0 < n)
    \<and> (counted_errs errs ignored = [] \<longrightarrow> n = 0 \<and> e = None)
    \<and> (occ None (counted_errs errs ignored) = n \<longrightarrow> e = None)"
proof -
  let ?ks = "counted_errs errs ignored"
  have sc: "scan_errs (ord (tally ?ks)) (0, None) = (n, e)" using assms(2) by (simp add: reduceErrs_def)
  have mem: "(k, c) \<in> set (ord (tally ?ks)) \<longleftrightarrow> k \<in> set ?ks \<and> c = occ k ?ks" for k c
    using range_order_set[OF assms(1)] tally_iff by metis
  note w = reduceErrs_winner[OF assms]
  have "e = None" if "occ None ?ks = n"
  proof (cases "?ks = []")
    case False
    then have "0 < n" using w(2) occ_pos[of e ?ks] by simp
    then have "None \<in> set ?ks" using that by (intro ccontr[of "None \<in> set ?ks"]) (simp add: count_notin)
    then have "(None, n) \<in> set (ord (tally ?ks))" using mem that by simp
    then show ?thesis
      using conjunct2[OF conjunct2[OF conjunct2[OF scan_errs_best[OF sc]]]] by simp
  qed (simp add: w(3))
  moreover have "0 < n" if "?ks \<noteq> []" using w(2)[OF that] occ_pos[of e ?ks] by simp
  ultimately show ?thesis using w by blast
qed

theorem reduce_errs_most_frequent_witness:
  "reduceErrs rev [None, Some ErrFileNotFound, Some ErrDiskNotFound, None, Some ErrFileNotFound] objectOpIgnoredErrs
     = (2, None)"
proof -
  obtain n e where r: "reduceErrs rev [None, Some ErrFileNotFound, Some ErrDiskNotFound, None,
      Some ErrFileNotFound] objectOpIgnoredErrs = (n, e)" by fastforce
  have c: "counted_errs [None, Some ErrFileNotFound, Some ErrDiskNotFound, None, Some ErrFileNotFound]
      objectOpIgnoredErrs = [None, Some ErrFileNotFound, None, Some ErrFileNotFound]"
    by (simp add: objectOpIgnoredErrs_def baseErrs_def IsErrIgnored_def)
  have "\<forall>x. occ x [None, Some ErrFileNotFound, None, Some ErrFileNotFound] \<le> n"
    and "n = occ e [None, Some ErrFileNotFound, None, Some ErrFileNotFound]"
    and "occ None [None, Some ErrFileNotFound, None, Some ErrFileNotFound] = n \<longrightarrow> e = None"
    using reduce_errs_most_frequent[OF range_order_rev r] unfolding c by blast+
  from this(2,3) spec[OF this(1), of None] show ?thesis unfolding r by (auto split: if_splits)
qed

lemma occ_None_counted: "occ None (counted_errs errs ignored) = occ None errs"
  by (induction errs) auto

lemma length_counted_errs: "length (counted_errs errs ignored) \<le> length errs"
  by (induction errs) auto

text \<open>When the quorum is a majority of the drives, the verdict of \<open>reduceQuorumErrs\<close> does not
  depend on the order of the map, and it is success exactly when a quorum of the drives
  succeeded or the quorum error itself is nil.\<close>

theorem reduce_quorum_errs_deterministic:
  assumes "range_order ord" and "range_order ord'" and "int (length errs) < 2 * quorum"
    and "\<not> canceled" and "qerr \<noteq> None"
  shows "reduceQuorumErrs ord canceled errs ignored quorum qerr = reduceQuorumErrs ord' canceled errs ignored quorum qerr
    \<and> (reduceQuorumErrs ord canceled errs ignored quorum qerr = None \<longleftrightarrow> quorum \<le> occ None errs)"
proof -
  let ?ks = "counted_errs errs ignored"
  obtain n e where r: "reduceErrs ord errs ignored = (n, e)" by fastforce
  obtain n' e' where r': "reduceErrs ord' errs ignored = (n', e')" by fastforce
  have len: "int (length ?ks) < 2 * quorum" using length_counted_errs[of errs ignored] assms(3) by linarith
  have a: "(n', e') = (n, e)" if "n \<ge> quorum"
    using errs.order_irrelevant[OF assms(1,2) _ len] r r' that by (simp add: reduceErrs_def)
  have b: "(n', e') = (n, e)" if "n' \<ge> quorum"
    using errs.order_irrelevant[OF assms(2,1) _ len] r r' that by (simp add: reduceErrs_def)
  have "n \<ge> quorum \<and> e = None \<longleftrightarrow> quorum \<le> occ None errs"
  proof
    assume ne: "n \<ge> quorum \<and> e = None"
    then have "?ks \<noteq> []" using reduceErrs_winner[OF assms(1) r] len by fastforce
    then show "quorum \<le> occ None errs"
      using reduceErrs_winner[OF assms(1) r] ne by (simp add: occ_None_counted)
  next
    assume "quorum \<le> occ None errs"
    then show "n \<ge> quorum \<and> e = None"
      using errs.majority_wins[OF assms(1) _ len, of None] r by (simp add: reduceErrs_def occ_None_counted)
  qed
  moreover have "(n' \<ge> quorum) = (n \<ge> quorum)" and "n \<ge> quorum \<Longrightarrow> e' = e" using a b by fastforce+
  ultimately show ?thesis
    using assms(4,5) by (cases "n \<ge> quorum") (auto simp: reduceQuorumErrs_def r r')
qed

theorem reduce_quorum_errs_deterministic_witness:
  "reduceQuorumErrs rev False [None, Some ErrFileNotFound, None] [] 2 (Some ErrErasureReadQuorum) = None"
  using conjunct2[OF reduce_quorum_errs_deterministic[of rev "\<lambda>x. x" "[None, Some ErrFileNotFound, None]" 2
      False "Some ErrErasureReadQuorum" "[]"]] by simp

text \<open>With half of the drives as the quorum, as \<open>objectQuorumFromMeta\<close> asks for, the verdict
  depends on the order.\<close>

lemma reduce_quorum_errs_half_depends_on_order:
  "reduceQuorumErrs (\<lambda>x. x) False [Some ErrFileNotFound, Some ErrFileCorrupt] [] 1 None = Some ErrFileNotFound"
  "reduceQuorumErrs rev False [Some ErrFileNotFound, Some ErrFileCorrupt] [] 1 None = Some ErrFileCorrupt"
  by (simp_all add: reduceQuorumErrs_def reduceErrs_def tally_def bump_def IsErrIgnored_def)

section \<open>Versions and data directories\<close>

fun GetValueWithQuorum_in :: "('k \<times> int) list \<Rightarrow> int \<Rightarrow> 'k option" where
  "GetValueWithQuorum_in [] quorum = None"
| "GetValueWithQuorum_in ((x, cnt) # c) quorum =
     (if cnt \<ge> quorum then Some x else GetValueWithQuorum_in c quorum)"

text \<open>\<open>binary.BigEndian.Uint64\<close>, which panics on fewer than eight bytes.\<close>

definition Uint64 :: "byte list \<Rightarrow> gerror + nat" where
  "Uint64 b = (if length b < 8 then Inl (GoPanic ''index out of range [7]'')
     else Inr (foldl (\<lambda>n x. n * 256 + unat x) 0 (take 8 b)))"

fun version_keys :: "byte list list \<Rightarrow> gerror + nat list" where
  "version_keys [] = Inr []"
| "version_keys (versions # vs) =
     (if versions = [] then version_keys vs
      else case Uint64 versions of
             Inl e \<Rightarrow> Inl e
           | Inr k \<Rightarrow> (case version_keys vs of Inl e \<Rightarrow> Inl e | Inr ks \<Rightarrow> Inr (k # ks)))"

fun first_version :: "byte list list \<Rightarrow> nat \<Rightarrow> gerror + byte list" where
  "first_version [] commonVersions = Inr []"
| "first_version (versions # vs) commonVersions =
     (case Uint64 versions of
        Inl e \<Rightarrow> Inl e
      | Inr k \<Rightarrow> if k = commonVersions then Inr versions else first_version vs commonVersions)"

definition reduceCommonVersions ::
  "((nat \<times> int) list \<Rightarrow> (nat \<times> int) list) \<Rightarrow> byte list list \<Rightarrow> int \<Rightarrow> gerror + byte list" where
  "reduceCommonVersions ord diskVersions writeQuorum =
     (case version_keys diskVersions of
        Inl e \<Rightarrow> Inl e
      | Inr ks \<Rightarrow>
          (case scan_max (ord (tally ks)) (0, 0) of
             (maxCnt, commonVersions) \<Rightarrow>
               if maxCnt \<ge> writeQuorum then first_version diskVersions commonVersions else Inr []))"

definition reduceCommonDataDir ::
  "((string \<times> int) list \<Rightarrow> (string \<times> int) list) \<Rightarrow> string list \<Rightarrow> int \<Rightarrow> string" where
  "reduceCommonDataDir ord dataDirs writeQuorum =
     (case scan_max (ord (tally dataDirs)) (0, []) of
        (maxCnt, dataDir) \<Rightarrow> if maxCnt \<ge> writeQuorum then dataDir else [])"

fun diskCount :: "'d option list \<Rightarrow> int" where
  "diskCount [] = 0"
| "diskCount (disk # disks) = (if disk = None then diskCount disks else diskCount disks + 1)"

fun evalDisks_loop :: "'d option list \<Rightarrow> gerror option list \<Rightarrow> 'd option list" where
  "evalDisks_loop (d # ds) (e # es) = (if e = None then d else None) # evalDisks_loop ds es"
| "evalDisks_loop _ _ = []"

definition evalDisks :: "'d option list \<Rightarrow> gerror option list \<Rightarrow> 'd option slice" where
  "evalDisks disks errs =
     (if length errs \<noteq> length disks then None else Some (evalDisks_loop disks errs))"

text \<open>The signature \<open>RenameData\<close> returns (\<open>cmd/xl-storage.go\<close>): \<open>slices.Grow\<close> leaves the length
  of \<open>dst\<close> as it is, and \<open>copy\<close> fills \<open>dst[len(dst):]\<close>, which is empty.\<close>

definition go_copy_at :: "byte list \<Rightarrow> nat \<Rightarrow> byte list \<Rightarrow> byte list" where
  "go_copy_at dst i src = take i dst @ take (length dst - i) src @ drop (i + length src) dst"

definition renameSign :: "byte list list \<Rightarrow> byte list" where
  "renameSign versionIDs =
     (if length versionIDs \<le> 10 then fold (\<lambda>v dst. go_copy_at dst (length dst) v) versionIDs [] else [])"

lemma renameSign_empty: "renameSign versionIDs = []"
proof -
  have "fold (\<lambda>v dst. go_copy_at dst (length dst) v) vs [] = []" for vs :: "byte list list"
    by (induction vs) (simp_all add: go_copy_at_def)
  then show ?thesis by (simp add: renameSign_def)
qed

text \<open>A drive without a signature in front of the ones that agree makes the second loop panic.\<close>

lemma reduceCommonVersions_panics:
  assumes "range_order ord" and "length v = 8" and "0 < n" and "q \<le> int n"
  shows "reduceCommonVersions ord ([] # replicate n v) q = Inl (GoPanic ''index out of range [7]'')"
proof -
  obtain k where k: "Uint64 v = Inr k" using assms(2) by (simp add: Uint64_def)
  have "version_keys (replicate n v) = Inr (replicate n k)"
    using k assms(2) by (induction n) auto
  moreover have "v \<noteq> []" using assms(2) by auto
  moreover have "fst (scan_max (ord (tally (replicate n k))) (0, 0)) = int n"
    using freq.winner[OF assms(1), of "replicate n k" 0] assms(3) by (auto simp: count_list_replicate)
  ultimately show ?thesis
    using assms(4) by (auto simp: reduceCommonVersions_def Uint64_def split: prod.splits)
qed

section \<open>Modification times and etags\<close>

text \<open>The map of \<open>commonTimeAndOccurrence\<close>: one more time, with the earlier entries within the
  group counting it too.\<close>

definition time_near :: "int \<Rightarrow> int \<Rightarrow> int \<Rightarrow> bool" where
  "time_near groupNano nano k =
     (if k = nano then False
      else let diff = int64 (k - nano);
               d = (if diff < 0 then int64 (- diff) else diff)
           in d < groupNano)"

fun count_times :: "int \<Rightarrow> gotime list \<Rightarrow> (int \<times> int) list \<Rightarrow> (int \<times> int) list" where
  "count_times grp [] m = m"
| "count_times grp (t # ts) m =
     (if t = timeSentinel \<or> IsZero t then count_times grp ts m
      else let nano = UnixNano t;
               m1 = (if grp > 0 then map (\<lambda>(k, c). if time_near grp nano k then (k, c + 1) else (k, c)) m
                     else m)
           in count_times grp ts (bump nano m1))"

fun scan_times :: "(int \<times> int) list \<Rightarrow> int \<times> int \<Rightarrow> int \<times> int" where
  "scan_times [] (maxima, latest) = (maxima, latest)"
| "scan_times ((nano, cnt) # es) (maxima, latest) =
     (if cnt < maxima then scan_times es (maxima, latest)
      else if cnt > maxima \<or> nano > latest then scan_times es (cnt, nano)
      else scan_times es (maxima, latest))"

type_synonym times_order = "(int \<times> int) list \<Rightarrow> (int \<times> int) list"

definition commonTimeAndOccurrence :: "times_order \<Rightarrow> gotime list \<Rightarrow> int \<Rightarrow> gotime \<times> int" where
  "commonTimeAndOccurrence ord ts grp =
     (case scan_times (ord (count_times grp ts [])) (0, 0) of
        (maxima, latest) \<Rightarrow> (Unix0 latest, maxima))"

definition commonTime :: "times_order \<Rightarrow> gotime list \<Rightarrow> int \<Rightarrow> gotime" where
  "commonTime ord modTimes quorum =
     (case commonTimeAndOccurrence ord modTimes 0 of
        (modTime, cnt) \<Rightarrow> if cnt \<ge> quorum then modTime else timeSentinel)"

definition commonETags ::
  "((string \<times> int) list \<Rightarrow> (string \<times> int) list) \<Rightarrow> string list \<Rightarrow> string \<times> int" where
  "commonETags ord etags =
     (case scan_max (ord (tally (filter (\<lambda>e. e \<noteq> []) etags))) (0, []) of
        (maxima, latest) \<Rightarrow> (latest, maxima))"

definition commonETag ::
  "((string \<times> int) list \<Rightarrow> (string \<times> int) list) \<Rightarrow> string list \<Rightarrow> int \<Rightarrow> string" where
  "commonETag ord etags quorum =
     (case commonETags ord etags of (etag, cnt) \<Rightarrow> if cnt \<ge> quorum then etag else [])"

definition bootModtimes :: "nat \<Rightarrow> gotime list" where
  "bootModtimes n = replicate n timeSentinel"

definition nullVersionID :: string where "nullVersionID = ''null''"

fun vid_counts :: "(FileInfo \<times> gerror option) list \<Rightarrow> (string \<times> int) list \<Rightarrow> (string \<times> int) list" where
  "vid_counts [] m = m"
| "vid_counts ((metadata, err) # es) m =
     (if err \<noteq> None then vid_counts es m
      else vid_counts es (bump (if fi_VersionID metadata = [] then nullVersionID else fi_VersionID metadata) m))"

definition listObjectETags ::
  "((string \<times> int) list \<Rightarrow> (string \<times> int) list) \<Rightarrow> FileInfo list \<Rightarrow> gerror option list \<Rightarrow> int \<Rightarrow> string list" where
  "listObjectETags ord partsMetadata errs quorum =
     (let etags = map (\<lambda>(metadata, err). if err \<noteq> None then [] else mgetd (fi_Metadata metadata) ''etag'')
                      (zip partsMetadata errs);
          vidMap = vid_counts (zip partsMetadata errs) []
      in if GetValueWithQuorum_in (ord vidMap) quorum \<noteq> None then etags
         else replicate (length partsMetadata) [])"

definition listObjectModtimes :: "FileInfo list \<Rightarrow> gerror option list \<Rightarrow> gotime list" where
  "listObjectModtimes partsMetadata errs =
     map (\<lambda>((metadata, err), t0). if err \<noteq> None then t0 else fi_ModTime metadata)
         (zip (zip partsMetadata errs) (bootModtimes (length partsMetadata)))"

definition filterOnlineDisksInplace ::
  "FileInfo \<Rightarrow> FileInfo list \<Rightarrow> 'd option list \<Rightarrow> 'd option list" where
  "filterOnlineDisksInplace fi partsMetadata onlineDisks =
     map (\<lambda>(meta, disk). if fi_XLV1 fi = fi_XLV1 meta then disk else None) (zip partsMetadata onlineDisks)"

definition listOnlineDisks ::
  "times_order \<Rightarrow> ((string \<times> int) list \<Rightarrow> (string \<times> int) list) \<Rightarrow> 'd option list \<Rightarrow> FileInfo list
   \<Rightarrow> gerror option list \<Rightarrow> int \<Rightarrow> 'd option list \<times> gotime \<times> string" where
  "listOnlineDisks ord1 ord2 disks partsMetadata errs quorum =
     (let modTimes = listObjectModtimes partsMetadata errs;
          modTime = commonTime ord1 modTimes quorum;
          byTime = (map (\<lambda>((disk, meta), t). if IsValid meta \<and> t = modTime then disk else None)
                       (zip (zip disks partsMetadata) modTimes), modTime, [])
      in if IsZero modTime \<or> modTime = timeSentinel then
           (let etags = listObjectETags ord2 partsMetadata errs quorum;
                etag = commonETag ord2 etags quorum
            in if etag \<noteq> [] then
                 (map (\<lambda>((disk, meta), e). if IsValid meta \<and> e = etag then disk else None)
                      (zip (zip disks partsMetadata) etags), modTime, etag)
               else byTime)
         else byTime)"

text \<open>The scan of times takes the latest of the most frequent ones, in whatever order they come.\<close>

lemma scan_times_best:
  assumes "scan_times es (mx, la) = (mx', la')"
  shows "(mx' = mx \<and> la' = la \<or> (la', mx') \<in> set es) \<and> mx \<le> mx'
    \<and> (\<forall>(k, c) \<in> set es. c < mx' \<or> c = mx' \<and> k \<le> la')
    \<and> (mx' = mx \<longrightarrow> la \<le> la')"
  using assms
proof (induction es "(mx, la)" arbitrary: mx la rule: scan_times.induct)
  case (2 nano cnt es maxima latest)
  show ?case
  proof (cases "cnt < maxima")
    case True
    then show ?thesis using 2 by auto
  next
    case False
    then show ?thesis
    proof (cases "cnt > maxima \<or> nano > latest")
      case True
      then show ?thesis using 2(2)[OF False True] 2(4) False by auto
    next
      case f: False
      then show ?thesis using 2(3)[OF False f] 2(4) False by auto
    qed
  qed
qed simp

interpretation timev: vote_scan "\<lambda>es. scan_times es (0, 0)"
proof unfold_locales
  fix es :: "(int \<times> int) list"
  assume "es \<noteq> []" and pos: "\<forall>(k, c) \<in> set es. 0 < c"
  obtain m l where r: "scan_times es (0, 0) = (m, l)" by fastforce
  obtain k c where "(k, c) \<in> set es" "0 < c" using \<open>es \<noteq> []\<close> pos by (cases es) auto
  then show "(snd (scan_times es (0, 0)), fst (scan_times es (0, 0))) \<in> set es
      \<and> (\<forall>(k, c) \<in> set es. c \<le> fst (scan_times es (0, 0)))"
    using scan_times_best[OF r] unfolding r by fastforce
qed simp

definition counted_times :: "gotime list \<Rightarrow> int list" where
  "counted_times ts = map UnixNano (filter (\<lambda>t. t \<noteq> timeSentinel \<and> \<not> IsZero t) ts)"

lemma count_times_tally: "count_times 0 ts m = fold bump (counted_times ts) m"
  by (induction ts arbitrary: m) (auto simp: counted_times_def Let_def)

lemma commonTime_latest:
  assumes "range_order ord" and "range_order ord'" and "\<forall>t \<in> set modTimes. is_int64 t \<or> IsZero t"
  shows "commonTime ord modTimes quorum = commonTime ord' modTimes quorum
    \<and> (commonTime ord modTimes quorum \<noteq> timeSentinel \<longrightarrow>
         quorum \<le> occ (commonTime ord modTimes quorum) modTimes)"
proof -
  let ?ks = "counted_times modTimes"
  obtain m l where r: "scan_times (ord (tally ?ks)) (0, 0) = (m, l)" by fastforce
  obtain m' l' where r': "scan_times (ord' (tally ?ks)) (0, 0) = (m', l')" by fastforce
  have ord_ks: "set (ord (tally ?ks)) = set (ord' (tally ?ks))"
    using range_order_set assms(1,2) by metis
  have w: "m = m' \<and> l = l'"
  proof (cases "?ks = []")
    case True
    then have "ord (tally ?ks) = []" "ord' (tally ?ks) = []"
      using range_order_length[OF assms(1), of "tally ?ks"] range_order_length[OF assms(2), of "tally ?ks"]
      by (simp_all add: tally_def)
    then show ?thesis using r r' by simp
  next
    case False
    then have "(l, m) \<in> set (ord (tally ?ks))" "(l', m') \<in> set (ord (tally ?ks))"
      using timev.winner[OF assms(1), of ?ks] timev.winner[OF assms(2), of ?ks] r r'
        range_order_set[OF assms(1), of "tally ?ks"] tally_iff by (metis fst_conv snd_conv)+
    then show ?thesis
      using scan_times_best[OF r] scan_times_best[OF r'] unfolding ord_ks by fastforce
  qed
  have c: "commonTime o1 modTimes quorum = (case scan_times (o1 (tally ?ks)) (0, 0) of
      (mx, la) \<Rightarrow> if mx \<ge> quorum then la else timeSentinel)" for o1
    by (simp add: commonTime_def commonTimeAndOccurrence_def count_times_tally tally_def Unix0_def split: prod.split)
  have nano: "UnixNano t = t" if "t \<in> set modTimes" "\<not> IsZero t" for t
    using assms(3) that UnixNano_id by blast
  then have ks: "?ks = filter (\<lambda>t. t \<noteq> timeSentinel \<and> \<not> IsZero t) modTimes"
    unfolding counted_times_def by (intro map_idI) simp
  have "quorum \<le> occ l modTimes" if "m \<ge> quorum" "l \<noteq> timeSentinel"
  proof -
    have "?ks \<noteq> []"
    proof
      assume "?ks = []"
      then have "ord (tally ?ks) = []"
        using range_order_length[OF assms(1), of "tally ?ks"] by (simp add: tally_def)
      then show False using r that by (simp add: timeSentinel_def)
    qed
    then have "m = occ l ?ks" using timev.winner[OF assms(1), of ?ks] r by simp
    also have "\<dots> \<le> occ l modTimes"
      unfolding ks by (induction modTimes) auto
    finally show ?thesis using that by simp
  qed
  then show ?thesis unfolding c using w r r' by simp
qed

text \<open>The common modification time does not depend on the order of the map, even where
  several times are equally frequent (the latest one is taken), and a time other than the
  sentinel is the modification time of at least a quorum of the drives.\<close>

theorem common_time_correct:
  assumes "range_order ord" and "range_order ord'" and "\<forall>t \<in> set modTimes. is_int64 t \<or> IsZero t"
  shows "commonTime ord modTimes quorum = commonTime ord' modTimes quorum
    \<and> (commonTime ord modTimes quorum \<noteq> timeSentinel \<longrightarrow>
         quorum \<le> occ (commonTime ord modTimes quorum) modTimes)"
  using commonTime_latest[OF assms] .

theorem common_time_correct_witness:
  "commonTime rev [5, 9, 5, 9, 7] 2 = 9 \<and> commonTime (\<lambda>xs. xs) [5, 9, 5, 9, 7] 2 = 9
    \<and> 2 \<le> occ 9 [5, 9, 5, 9, 7 :: gotime]"
proof -
  have e: "commonTime rev [5, 9, 5, 9, 7] 2 = 9"
    by (simp add: commonTime_def commonTimeAndOccurrence_def UnixNano_def int64_def bump_def
        timeSentinel_def IsZero_def zero_time_def Unix0_def Let_def)
  have "\<forall>t \<in> set [5, 9, 5, 9, 7]. is_int64 t \<or> IsZero t" by (simp add: is_int64_def)
  from common_time_correct[OF range_order_rev range_order_id this, of 2]
  have "commonTime rev [5, 9, 5, 9, 7] 2 = commonTime (\<lambda>xs. xs) [5, 9, 5, 9, 7] 2"
    and "commonTime rev [5, 9, 5, 9, 7] 2 \<noteq> timeSentinel \<longrightarrow>
      2 \<le> occ (commonTime rev [5, 9, 5, 9, 7] 2) [5, 9, 5, 9, 7]" by blast+
  then show ?thesis unfolding e by (metis e timeSentinel_def zero_neq_numeral)
qed

section \<open>Parity and the object's quorums\<close>

fun commonParity_loop :: "int \<Rightarrow> int \<Rightarrow> (int \<times> int) list \<Rightarrow> int \<times> int \<Rightarrow> int \<times> int" where
  "commonParity_loop N dflt [] acc = acc"
| "commonParity_loop N dflt ((parity, oc) # es) (maxOcc, cparity) =
     (if parity = -1 then commonParity_loop N dflt es (maxOcc, cparity)
      else let readQuorum = (if dflt > 0 \<and> parity = 0 then quo N 2 + 1 else N - parity)
           in if oc < readQuorum then commonParity_loop N dflt es (maxOcc, cparity)
              else if oc > maxOcc then commonParity_loop N dflt es (oc, parity)
              else commonParity_loop N dflt es (maxOcc, cparity))"

definition commonParity ::
  "((int \<times> int) list \<Rightarrow> (int \<times> int) list) \<Rightarrow> int list \<Rightarrow> int \<Rightarrow> int" where
  "commonParity ord parities defaultParityCount =
     (case commonParity_loop (int (length parities)) defaultParityCount (ord (tally parities)) (0, 0) of
        (maxOcc, cparity) \<Rightarrow> if maxOcc = 0 then -1 else cparity)"

definition object_parity :: "int \<Rightarrow> FileInfo \<Rightarrow> gerror option \<Rightarrow> int" where
  "object_parity totalShards metadata err =
     (if err \<noteq> None then -1
      else if \<not> IsValid metadata then -1
      else if fi_Deleted metadata \<or> fi_Size metadata = 0 then quo totalShards 2
      else if fi_TransitionStatus metadata = TransitionComplete
        then max (totalShards - (quo totalShards 2 + 1)) (ei_ParityBlocks (fi_Erasure metadata))
      else ei_ParityBlocks (fi_Erasure metadata))"

definition listObjectParities :: "FileInfo list \<Rightarrow> gerror option list \<Rightarrow> int list" where
  "listObjectParities partsMetadata errs =
     map (\<lambda>(metadata, err). object_parity (int (length partsMetadata)) metadata err) (zip partsMetadata errs)"

definition objectQuorumFromMeta ::
  "errs_order \<Rightarrow> ((int \<times> int) list \<Rightarrow> (int \<times> int) list) \<Rightarrow> bool \<Rightarrow> FileInfo list \<Rightarrow> gerror option list
   \<Rightarrow> int \<Rightarrow> (int \<times> int) \<times> gerror option" where
  "objectQuorumFromMeta ord1 ord2 ctxCanceled partsMetaData errs defaultParityCount =
     (let n = int (length partsMetaData);
          expectedRQuorum = (if defaultParityCount = 0 then n else quo n 2);
          reducedErr = reduceReadQuorumErrs ord1 ctxCanceled errs objectOpIgnoredErrs expectedRQuorum
      in if reducedErr \<noteq> None then ((-1, -1), reducedErr)
         else if defaultParityCount = 0 then ((n, n), None)
         else let parities = listObjectParities partsMetaData errs;
                  parityBlocks = commonParity ord2 parities defaultParityCount
              in if parityBlocks < 0
                 then ((-1, -1), Some (InsufficientReadQuorum [] [] RQInsufficientOnlineDrives))
                 else let dataBlocks = n - parityBlocks;
                          writeQuorum = (if dataBlocks = parityBlocks then dataBlocks + 1 else dataBlocks)
                      in ((dataBlocks, writeQuorum), None))"

text \<open>The number of drives that have to agree on a parity before it is taken.\<close>

definition parity_quorum :: "int \<Rightarrow> int \<Rightarrow> int \<Rightarrow> int" where
  "parity_quorum N dflt p = (if dflt > 0 \<and> p = 0 then N div 2 + 1 else N - p)"

lemma commonParity_loop_scan:
  assumes "0 \<le> N"
  shows "commonParity_loop N dflt es (mx, cp)
    = scan_max (filter (\<lambda>(p, c). p \<noteq> -1 \<and> parity_quorum N dflt p \<le> c) es) (mx, cp)"
proof -
  have q: "quo N 2 = N div 2" using assms by simp
  show ?thesis
  proof (induction es arbitrary: mx cp)
    case (Cons e es)
    obtain p c where e: "e = (p, c)" by (cases e)
    show ?case by (simp add: e Let_def q parity_quorum_def Cons.IH)
  qed simp
qed

lemma commonParity_exact:
  assumes "range_order ord" and "\<forall>p \<in> set ps. p = -1 \<or> 0 \<le> p \<and> 2 * p \<le> int (length ps)"
  shows "(commonParity ord ps dflt = -1 \<longleftrightarrow>
      (\<forall>p \<in> set ps. p = -1 \<or> occ p ps < parity_quorum (int (length ps)) dflt p))
    \<and> (\<forall>p \<in> set ps. p \<noteq> -1 \<and> parity_quorum (int (length ps)) dflt p \<le> occ p ps \<longrightarrow> commonParity ord ps dflt = p)"
proof -
  let ?N = "int (length ps)" and ?good = "\<lambda>(p, c). p \<noteq> -1 \<and> parity_quorum (int (length ps)) dflt p \<le> c"
  let ?es = "filter ?good (ord (tally ps))"
  obtain m a where sc: "scan_max ?es (0, 0) = (m, a)" by fastforce
  have mem: "(k, c) \<in> set ?es \<longleftrightarrow> k \<in> set ps \<and> c = occ k ps \<and> k \<noteq> -1 \<and> parity_quorum ?N dflt k \<le> c" for k c
    using range_order_set[OF assms(1), of "tally ps"] tally_iff[of k c ps] by auto
  have uniq: "k = k'" if "(k, c) \<in> set ?es" "(k', c') \<in> set ?es" for k c k' c'
  proof (rule ccontr)
    assume "k \<noteq> k'"
    then have "occ k ps + occ k' ps \<le> ?N" by (rule two_occ_le)
    moreover have "parity_quorum ?N dflt k \<le> occ k ps" "parity_quorum ?N dflt k' \<le> occ k' ps"
      using that mem by auto
    moreover have "0 \<le> k \<and> 2 * k \<le> ?N" "0 \<le> k' \<and> 2 * k' \<le> ?N" using assms(2) that mem by auto
    ultimately show False
      using \<open>k \<noteq> k'\<close> by (auto simp: parity_quorum_def split: if_splits)
  qed
  have r: "commonParity ord ps dflt = (if m = 0 then -1 else a)"
    using sc by (simp add: commonParity_def commonParity_loop_scan)
  have pos: "0 < c" if "(k, c) \<in> set ?es" for k c using that mem occ_pos by auto
  from scan_max_cases[OF sc] show ?thesis
  proof
    assume "m = 0 \<and> a = 0 \<and> (\<forall>(k, c) \<in> set ?es. c \<le> 0)"
    then have "?es = []" using pos by (cases ?es) (auto, force+)
    then have "p = -1 \<or> occ p ps < parity_quorum ?N dflt p" if "p \<in> set ps" for p
      using mem[of p "occ p ps"] that by fastforce
    then show ?thesis using r \<open>m = 0 \<and> a = 0 \<and> _\<close> by fastforce
  next
    assume b: "(a, m) \<in> set ?es \<and> 0 < m \<and> (\<forall>(k, c) \<in> set ?es. c \<le> m)"
    then have "p = a" if "p \<in> set ps" "p \<noteq> -1" "parity_quorum ?N dflt p \<le> occ p ps" for p
      using uniq[of p "occ p ps" a m] mem[of p "occ p ps"] that by blast
    moreover have am: "a \<in> set ps \<and> m = occ a ps \<and> a \<noteq> -1 \<and> parity_quorum ?N dflt a \<le> m"
      by (rule iffD1[OF mem, OF conjunct1[OF b]])
    then have "\<not> (\<forall>p \<in> set ps. p = -1 \<or> occ p ps < parity_quorum ?N dflt p)"
      by (intro notI) (drule bspec[of _ _ a], simp, linarith)
    moreover have "commonParity ord ps dflt = a" using r conjunct1[OF conjunct2[OF b]] by simp
    ultimately show ?thesis using am by blast
  qed
qed

text \<open>When no parity exceeds half of the drives, at most one parity can have its quorum:
  \<open>commonParity\<close> finds it whatever the order of the map, and answers -1 exactly when there is none.\<close>

theorem common_parity_correct:
  assumes "range_order ord" and "\<forall>p \<in> set ps. p = -1 \<or> 0 \<le> p \<and> 2 * p \<le> int (length ps)"
  shows "(commonParity ord ps dflt = -1 \<longleftrightarrow>
      (\<forall>p \<in> set ps. p = -1 \<or> occ p ps < parity_quorum (int (length ps)) dflt p))
    \<and> (\<forall>p \<in> set ps. p \<noteq> -1 \<and> parity_quorum (int (length ps)) dflt p \<le> occ p ps \<longrightarrow> commonParity ord ps dflt = p)"
  by (rule commonParity_exact[OF assms])

theorem common_parity_correct_witness:
  "commonParity rev [2, 2, -1, 2, 1] 2 = 2"
  using common_parity_correct[of rev "[2, 2, -1, 2, 1]" 2] by (simp add: parity_quorum_def)

lemma object_parity_bound:
  assumes "IsValid m \<Longrightarrow> int (length (elems (ei_Distribution (fi_Erasure m)))) \<le> N" and "0 \<le> N"
  shows "object_parity N m e = -1 \<or> 0 \<le> object_parity N m e \<and> 2 * object_parity N m e \<le> N"
  using assms by (auto simp: object_parity_def IsValid_def Let_def max_def split: if_splits)

text \<open>C19: The quorums read off a set of metadata in which no version spans more than the drives
  asked are usable: any read quorum meets any write quorum, two write quorums meet, and the
  parity behind them is the one that its own quorum of the drives reports.\<close>

theorem object_quorum_sound:
  assumes "range_order ord2" and "length errs = length metas" and "metas \<noteq> []" and "0 < dflt"
    and "\<forall>m \<in> set metas. IsValid m \<longrightarrow> length (elems (ei_Distribution (fi_Erasure m))) \<le> length metas"
    and "objectQuorumFromMeta ord1 ord2 canceled metas errs dflt = ((r, w), None)"
  shows "r + w > int (length metas) \<and> 2 * w > int (length metas) \<and> 0 < r \<and> r \<le> w \<and> w \<le> int (length metas)
    \<and> parity_quorum (int (length metas)) dflt (int (length metas) - r)
        \<le> occ (int (length metas) - r) (listObjectParities metas errs)"
proof -
  let ?N = "int (length metas)" and ?ps = "listObjectParities metas errs"
  have len: "length ?ps = length metas" using assms(2) by (simp add: listObjectParities_def)
  have N0: "0 < ?N" using assms(3) by simp
  have bound: "\<forall>p \<in> set ?ps. p = -1 \<or> 0 \<le> p \<and> 2 * p \<le> ?N"
  proof
    fix p assume "p \<in> set ?ps"
    then obtain m e where "m \<in> set metas" "p = object_parity ?N m e"
      by (auto simp: listObjectParities_def dest: set_zip_leftD)
    then show "p = -1 \<or> 0 \<le> p \<and> 2 * p \<le> ?N"
      using object_parity_bound[of m ?N e] assms(5) by auto
  qed
  define p where "p = commonParity ord2 ?ps dflt"
  have p: "0 \<le> p" "r = ?N - p" "w = (if r = p then r + 1 else r)"
    using assms(4,6) by (auto simp: objectQuorumFromMeta_def p_def Let_def split: if_splits)
  then have "commonParity ord2 ?ps dflt \<noteq> -1" by (simp add: p_def)
  with commonParity_exact[OF assms(1), of ?ps dflt] bound len
  obtain q where q: "q \<in> set ?ps" "q \<noteq> -1" "parity_quorum ?N dflt q \<le> occ q ?ps" "p = q"
    unfolding p_def by (metis not_less)
  then have h: "2 * p \<le> ?N" using bound by auto
  have w: "w = r \<and> r \<noteq> p \<or> w = r + 1 \<and> r = p" using p(3) by (simp split: if_splits)
  have "r \<le> w" and "w \<le> ?N" and "r + w > ?N" and "0 < r"
    using w p(1,2) h N0 by (elim disjE conjE; linarith)+
  moreover have "?N - r = q" using p q by simp
  ultimately show ?thesis using q by auto
qed

text \<open>A valid version on two data and two parity drives, used in the examples.\<close>

definition sample_meta :: "int \<Rightarrow> FileInfo" where
  "sample_meta index = FileInfo0\<lparr>fi_Size := 10, fi_ModTime := 9, fi_Erasure := ErasureInfo0\<lparr>ei_DataBlocks := 2,
     ei_ParityBlocks := 2, ei_Index := index, ei_Distribution := Some [1, 2, 3, 4]\<rparr>\<rparr>"

lemma sample_meta_simps [simp]:
  "fi_Erasure (sample_meta i) = ErasureInfo0\<lparr>ei_DataBlocks := 2, ei_ParityBlocks := 2, ei_Index := i,
     ei_Distribution := Some [1, 2, 3, 4]\<rparr>"
  "fi_Deleted (sample_meta i) = False" "fi_Size (sample_meta i) = 10" "fi_ModTime (sample_meta i) = 9"
  "fi_TransitionStatus (sample_meta i) = []" "fi_Metadata (sample_meta i) = None"
  "IsValid (sample_meta i) \<longleftrightarrow> 0 < i \<and> i \<le> 4"
  by (auto simp: sample_meta_def FileInfo0_def ErasureInfo0_def IsValid_def)

theorem object_quorum_sound_witness:
  "(2 :: int) + 3 > 4 \<and> parity_quorum 4 2 2 \<le> occ 2 (listObjectParities (map sample_meta [1, 2, 3, 4]) [None, None, None, None])"
proof -
  have par: "listObjectParities (map sample_meta [1, 2, 3, 4]) [None, None, None, None] = [2, 2, 2, 2]"
    by (simp add: listObjectParities_def object_parity_def TransitionComplete_def)
  have errs: "reduceReadQuorumErrs (\<lambda>x. x) False [None, None, None, None] objectOpIgnoredErrs 2 = None"
    by (simp add: reduceReadQuorumErrs_def reduceQuorumErrs_def reduceErrs_def tally_def bump_def)
  have "commonParity (\<lambda>x. x) [2, 2, 2, 2] 2 = 2"
    by (simp add: commonParity_def tally_def bump_def Let_def)
  then have q: "objectQuorumFromMeta (\<lambda>x. x) (\<lambda>x. x) False (map sample_meta [1, 2, 3, 4])
      [None, None, None, None] 2 = ((2, 3), None)"
    using par errs by (simp add: objectQuorumFromMeta_def Let_def)
  from object_quorum_sound[OF _ _ _ _ _ q] show ?thesis by (simp add: ErasureInfo0_def)
qed

section \<open>The metadata a quorum agrees on\<close>

text \<open>\<open>fmt\<close> of booleans and slices of integers.\<close>

definition fmt_bool :: "bool \<Rightarrow> string" where
  "fmt_bool b = (if b then ''true'' else ''false'')"

fun fmt_ints :: "int list \<Rightarrow> string" where
  "fmt_ints [] = []"
| "fmt_ints [i] = itoa i"
| "fmt_ints (i # is) = itoa i @ '' '' @ fmt_ints is"

fun fmt_sse :: "sse_type option \<Rightarrow> string" where
  "fmt_sse None = ''<nil>''"
| "fmt_sse (Some S3KMS) = ''SSE-KMS''"
| "fmt_sse (Some S3) = ''SSE-S3''"
| "fmt_sse (Some SSEC) = ''SSE-C''"

text \<open>What is fed to the SHA-256 hash for one drive's metadata.\<close>

definition meta_text :: "clock \<Rightarrow> FileInfo \<Rightarrow> string" where
  "meta_text clk meta =
     fmt_bool (fi_XLV1 meta)
     @ concat (map (\<lambda>p. ''part.'' @ itoa (pt_Number p) @ ''part.'' @ itoa (pt_Size p)) (elems (fi_Parts meta)))
     @ (if \<not> fi_Deleted meta \<and> fi_Size meta \<noteq> 0
        then itoa (ei_DataBlocks (fi_Erasure meta)) @ ''+'' @ itoa (ei_ParityBlocks (fi_Erasure meta))
             @ ''['' @ fmt_ints (elems (ei_Distribution (fi_Erasure meta))) @ '']''
        else [])
     @ (if FileInfo_IsRemote clk meta
        then fi_TransitionStatus meta @ fi_TransitionTier meta @ fi_TransitionedObjName meta
             @ fi_TransitionVersionID meta
        else [])
     @ (case IsEncrypted (fi_Metadata meta) of (etyp, ok) \<Rightarrow> if ok then fmt_sse etyp else [])
     @ (if IsCompressed meta then mgetd (fi_Metadata meta) (ReservedMetadataPrefix @ ''compression'') else [])"

definition meta_selected :: "gotime \<Rightarrow> string \<Rightarrow> FileInfo \<Rightarrow> bool" where
  "meta_selected modTime etag meta =
     (IsValid meta \<and>
      (fi_ModTime meta = modTime
       \<or> modTime = timeSentinel \<and> etag \<noteq> [] \<and> etag = mgetd (fi_Metadata meta) ''etag''))"

text \<open>The digest of each drive's metadata, empty where it is left out; \<open>sha\<close> is
  SHA-256 in hexadecimal.\<close>

definition meta_hash :: "clock \<Rightarrow> (string \<Rightarrow> string) \<Rightarrow> gotime \<Rightarrow> string \<Rightarrow> FileInfo \<Rightarrow> string" where
  "meta_hash clk sha modTime etag meta =
     (if meta_selected modTime etag meta then sha (meta_text clk meta) else [])"

fun collect_props ::
  "string \<Rightarrow> (FileInfo \<times> string) list \<Rightarrow> FileInfo option \<Rightarrow> ((gotime \<times> int) \<times> int) list
   \<Rightarrow> FileInfo option \<times> ((gotime \<times> int) \<times> int) list" where
  "collect_props maxHash [] candidate propsMap = (candidate, propsMap)"
| "collect_props maxHash ((meta, h) # es) candidate propsMap =
     (if h = maxHash \<and> IsValid meta
      then collect_props maxHash es (if candidate = None then Some meta else candidate)
             (bump (fi_SuccessorModTime meta, fi_NumVersions meta) propsMap)
      else collect_props maxHash es candidate propsMap)"

definition findFileInfoInQuorum ::
  "clock \<Rightarrow> (string \<Rightarrow> string) \<Rightarrow> ((string \<times> int) list \<Rightarrow> (string \<times> int) list)
   \<Rightarrow> (((gotime \<times> int) \<times> int) list \<Rightarrow> ((gotime \<times> int) \<times> int) list)
   \<Rightarrow> FileInfo list \<Rightarrow> gotime \<Rightarrow> string \<Rightarrow> int \<Rightarrow> gerror + FileInfo" where
  "findFileInfoInQuorum clk sha ord1 ord2 metaArr modTime etag quorum =
     (if quorum < 1 then Inl (InsufficientReadQuorum [] [] RQInsufficientOnlineDrives)
      else let metaHashes = map (meta_hash clk sha modTime etag) metaArr in
        case scan_max (ord1 (tally (filter (\<lambda>h. h \<noteq> []) metaHashes))) (0, []) of
          (maxCount, maxHash) \<Rightarrow>
            if maxCount < quorum then Inl (InsufficientReadQuorum [] [] RQInconsistentMeta)
            else (case collect_props maxHash (zip metaArr metaHashes) None [] of
                    (None, propsMap) \<Rightarrow> Inl (InsufficientReadQuorum [] [] RQInconsistentMeta)
                  | (Some candidate, propsMap) \<Rightarrow>
                      (case GetValueWithQuorum_in (ord2 propsMap) quorum of
                         None \<Rightarrow> Inr candidate
                       | Some (succModTime, numVersions) \<Rightarrow>
                           Inr (candidate\<lparr>fi_SuccessorModTime := succModTime,
                                  fi_IsLatest := IsZero succModTime,
                                  fi_NumVersions := numVersions\<rparr>))))"

definition pickValidFileInfo where
  "pickValidFileInfo clk sha ord1 ord2 metaArr modTime etag quorum =
     findFileInfoInQuorum clk sha ord1 ord2 metaArr modTime etag quorum"

text \<open>The drives that agree with a digest.\<close>

definition agreeing :: "clock \<Rightarrow> (string \<Rightarrow> string) \<Rightarrow> gotime \<Rightarrow> string \<Rightarrow> string \<Rightarrow> FileInfo list \<Rightarrow> FileInfo list" where
  "agreeing clk sha modTime etag h metaArr =
     filter (\<lambda>m. meta_selected modTime etag m \<and> sha (meta_text clk m) = h) metaArr"

lemma collect_props_eq:
  assumes "h \<noteq> []" and "\<And>t. sha t \<noteq> []"
  shows "collect_props h (zip metaArr (map (meta_hash clk sha modTime etag) metaArr)) c pm =
    (let g = agreeing clk sha modTime etag h metaArr
     in (if c = None then (case g of [] \<Rightarrow> None | m # ms \<Rightarrow> Some m) else c,
         fold bump (map (\<lambda>m. (fi_SuccessorModTime m, fi_NumVersions m)) g) pm))"
proof (induction metaArr arbitrary: c pm)
  case (Cons m ms)
  have "meta_hash clk sha modTime etag m = h \<and> IsValid m \<longleftrightarrow>
      meta_selected modTime etag m \<and> sha (meta_text clk m) = h"
    using assms by (auto simp: meta_hash_def meta_selected_def)
  then show ?case by (auto simp: Cons.IH agreeing_def Let_def split: list.split)
qed (simp add: agreeing_def)

lemma occ_meta_hashes:
  assumes "h \<noteq> []" and "\<And>t. sha t \<noteq> []"
  shows "occ h (filter (\<lambda>h. h \<noteq> []) (map (meta_hash clk sha modTime etag) metaArr))
    = int (length (agreeing clk sha modTime etag h metaArr))"
  using assms by (induction metaArr) (auto simp: agreeing_def meta_hash_def)

lemma GetValueWithQuorum_in_Some:
  "GetValueWithQuorum_in es q = Some k \<Longrightarrow> \<exists>c. (k, c) \<in> set es \<and> q \<le> c"
  by (induction es q rule: GetValueWithQuorum_in.induct) (auto split: if_splits)

lemma GetValueWithQuorum_in_None:
  "GetValueWithQuorum_in es q = None \<longleftrightarrow> (\<forall>(k, c) \<in> set es. c < q)"
  by (induction es q rule: GetValueWithQuorum_in.induct) auto

lemma GetValueWithQuorum_in_order:
  assumes "range_order o1" and "range_order o2" and "int (length ks) < 2 * q"
  shows "GetValueWithQuorum_in (o1 (tally ks)) q = GetValueWithQuorum_in (o2 (tally ks)) q"
proof -
  have mem: "(k, c) \<in> set (o1 (tally ks)) \<longleftrightarrow> k \<in> set ks \<and> c = occ k ks"
    "(k, c) \<in> set (o2 (tally ks)) \<longleftrightarrow> k \<in> set ks \<and> c = occ k ks" for k c
    using range_order_set assms(1,2) tally_iff by metis+
  have s: "k \<in> set ks \<and> q \<le> occ k ks" if "GetValueWithQuorum_in (o1 (tally ks)) q = Some k
      \<or> GetValueWithQuorum_in (o2 (tally ks)) q = Some k" for k
    using that GetValueWithQuorum_in_Some mem by metis
  have n: "\<forall>k \<in> set ks. occ k ks < q" if "GetValueWithQuorum_in (o1 (tally ks)) q = None
      \<or> GetValueWithQuorum_in (o2 (tally ks)) q = None"
    using that unfolding GetValueWithQuorum_in_None using mem by blast
  have "k = k'" if "q \<le> occ k ks" "q \<le> occ k' ks" for k k'
    using two_occ_le[of k k' ks] that assms(3) by fastforce
  then have u: "k = k'" if "GetValueWithQuorum_in (o1 (tally ks)) q = Some k"
    "GetValueWithQuorum_in (o2 (tally ks)) q = Some k'" for k k' using s that by blast
  show ?thesis
  proof (cases "GetValueWithQuorum_in (o1 (tally ks)) q = None \<or> GetValueWithQuorum_in (o2 (tally ks)) q = None")
    case True
    from n[OF True] have "GetValueWithQuorum_in (o1 (tally ks)) q \<noteq> Some k"
      "GetValueWithQuorum_in (o2 (tally ks)) q \<noteq> Some k" for k
      using s[of k] by fastforce+
    then show ?thesis by (metis not_None_eq)
  next
    case False
    then show ?thesis using u by (metis not_None_eq)
  qed
qed

text \<open>The version a quorum holds, from its agreeing drives.\<close>

definition quorum_version :: "FileInfo list \<Rightarrow> (gotime \<times> int) option \<Rightarrow> FileInfo" where
  "quorum_version g props = (case props of None \<Rightarrow> hd g
     | Some (succModTime, numVersions) \<Rightarrow> (hd g)\<lparr>fi_SuccessorModTime := succModTime,
         fi_IsLatest := IsZero succModTime, fi_NumVersions := numVersions\<rparr>)"

abbreviation version_props :: "FileInfo list \<Rightarrow> (gotime \<times> int) list" where
  "version_props g \<equiv> map (\<lambda>m. (fi_SuccessorModTime m, fi_NumVersions m)) g"

lemma findFileInfoInQuorum_unfold:
  assumes "range_order ord1" and "\<And>t. sha t \<noteq> []" and "1 \<le> quorum"
    and "scan_max (ord1 (tally (filter (\<lambda>h. h \<noteq> []) (map (meta_hash clk sha modTime etag) metaArr)))) (0, []) = (n, h)"
  shows "findFileInfoInQuorum clk sha ord1 ord2 metaArr modTime etag quorum =
    (let g = agreeing clk sha modTime etag h metaArr in
     if n < quorum then Inl (InsufficientReadQuorum [] [] RQInconsistentMeta)
     else Inr (quorum_version g (GetValueWithQuorum_in (ord2 (tally (version_props g))) quorum)))"
    and "quorum \<le> n \<Longrightarrow> h \<noteq> [] \<and> n = int (length (agreeing clk sha modTime etag h metaArr))"
proof -
  let ?ks = "filter (\<lambda>h. h \<noteq> []) (map (meta_hash clk sha modTime etag) metaArr)"
  show h: "h \<noteq> [] \<and> n = int (length (agreeing clk sha modTime etag h metaArr))" if "quorum \<le> n"
  proof -
    have "?ks \<noteq> []"
    proof
      assume "?ks = []"
      then have "n = 0" using freq.winner[OF assms(1), of ?ks "[]"] assms(4) by (metis fst_conv)
      then show False using that assms(3) by simp
    qed
    then have w: "h \<in> set ?ks" "n = occ h ?ks" using freq.winner[OF assms(1), of ?ks "[]"] assms(4) by auto
    then have "h \<noteq> []" by simp
    then show ?thesis using w occ_meta_hashes[of h sha clk modTime etag metaArr] assms(2) by simp
  qed
  show "findFileInfoInQuorum clk sha ord1 ord2 metaArr modTime etag quorum =
    (let g = agreeing clk sha modTime etag h metaArr in
     if n < quorum then Inl (InsufficientReadQuorum [] [] RQInconsistentMeta)
     else Inr (quorum_version g (GetValueWithQuorum_in (ord2 (tally (version_props g))) quorum)))"
  proof (cases "n < quorum")
    case True
    then show ?thesis using assms(3,4) by (simp add: findFileInfoInQuorum_def Let_def)
  next
    case False
    then have "h \<noteq> []" and "agreeing clk sha modTime etag h metaArr \<noteq> []" using h assms(3) by auto
    then show ?thesis
      using False assms(2,3,4) collect_props_eq[of h sha metaArr clk modTime etag None "[]"]
      by (auto simp: findFileInfoInQuorum_def Let_def quorum_version_def tally_def neq_Nil_conv
          split: option.split)
  qed
qed

lemma findFileInfoInQuorum_sound:
  assumes "range_order ord1" and "range_order ord2" and "\<forall>t. sha t \<noteq> []"
    and "findFileInfoInQuorum clk sha ord1 ord2 metaArr modTime etag quorum = Inr fi"
  shows "\<exists>c \<in> set metaArr. meta_selected modTime etag c
    \<and> quorum \<le> int (length (agreeing clk sha modTime etag (sha (meta_text clk c)) metaArr))
    \<and> (fi = c \<or>
       fi = c\<lparr>fi_SuccessorModTime := fi_SuccessorModTime fi, fi_IsLatest := IsZero (fi_SuccessorModTime fi),
              fi_NumVersions := fi_NumVersions fi\<rparr>
       \<and> quorum \<le> occ (fi_SuccessorModTime fi, fi_NumVersions fi)
           (version_props (agreeing clk sha modTime etag (sha (meta_text clk c)) metaArr)))"
proof -
  have q: "1 \<le> quorum" using assms(4) by (auto simp: findFileInfoInQuorum_def split: if_splits)
  obtain n h where sc: "scan_max (ord1 (tally (filter (\<lambda>h. h \<noteq> [])
      (map (meta_hash clk sha modTime etag) metaArr)))) (0, []) = (n, h)" by fastforce
  let ?g = "agreeing clk sha modTime etag h metaArr"
  let ?p = "GetValueWithQuorum_in (ord2 (tally (version_props ?g))) quorum"
  have u: "quorum \<le> n" "fi = quorum_version ?g ?p"
    using findFileInfoInQuorum_unfold(1)[OF assms(1) _ q sc, of ord2] assms(3,4)
    by (auto simp: Let_def split: if_splits)
  then have n: "n = int (length ?g)"
    using findFileInfoInQuorum_unfold(2)[OF assms(1) _ q sc] assms(3) by blast
  then have "?g \<noteq> []" using u q by auto
  then have "hd ?g \<in> set ?g" by simp
  then have c: "hd ?g \<in> set metaArr" "meta_selected modTime etag (hd ?g)" "sha (meta_text clk (hd ?g)) = h"
    by (auto simp: agreeing_def)
  have "fi = hd ?g \<or> fi = (hd ?g)\<lparr>fi_SuccessorModTime := fi_SuccessorModTime fi,
      fi_IsLatest := IsZero (fi_SuccessorModTime fi), fi_NumVersions := fi_NumVersions fi\<rparr>
      \<and> quorum \<le> occ (fi_SuccessorModTime fi, fi_NumVersions fi) (version_props ?g)"
  proof (cases ?p)
    case None
    then show ?thesis using u by (simp add: quorum_version_def)
  next
    case (Some sn)
    obtain st nv where sn: "sn = (st, nv)" by fastforce
    obtain c where "((st, nv), c) \<in> set (ord2 (tally (version_props ?g)))" "quorum \<le> c"
      using GetValueWithQuorum_in_Some[OF Some] sn by blast
    then have "quorum \<le> occ (st, nv) (version_props ?g)"
      using range_order_set[OF assms(2)] tally_iff[of "(st, nv)" c] by metis
    then show ?thesis using u Some sn by (simp add: quorum_version_def)
  qed
  then show ?thesis using c u n by (intro bexI[of _ "hd ?g"]) simp_all
qed

text \<open>C17: The version \<open>findFileInfoInQuorum\<close> returns is the metadata of one of the drives, valid and
  of the requested modification time or etag, on whose digest at least a quorum of the
  drives agree; only its successor time, latest flag and version count may come from elsewhere, and then
  from a quorum of those drives.\<close>

theorem find_file_info_sound:
  assumes "range_order ord1" and "range_order ord2" and "\<forall>t. sha t \<noteq> []"
    and "findFileInfoInQuorum clk sha ord1 ord2 metaArr modTime etag quorum = Inr fi"
  shows "\<exists>c \<in> set metaArr. meta_selected modTime etag c
    \<and> quorum \<le> int (length (agreeing clk sha modTime etag (sha (meta_text clk c)) metaArr))
    \<and> (fi = c \<or>
       fi = c\<lparr>fi_SuccessorModTime := fi_SuccessorModTime fi, fi_IsLatest := IsZero (fi_SuccessorModTime fi),
              fi_NumVersions := fi_NumVersions fi\<rparr>
       \<and> quorum \<le> occ (fi_SuccessorModTime fi, fi_NumVersions fi)
           (version_props (agreeing clk sha modTime etag (sha (meta_text clk c)) metaArr)))"
  by (rule findFileInfoInQuorum_sound[OF assms])

text \<open>If more than half of the drives, and at least a quorum, agree on a digest, the version is found,
  it is one of theirs, and it is the same in whatever order the maps are visited.\<close>

theorem find_file_info_complete:
  assumes "range_order ord1" and "range_order ord2" and "range_order ord1'" and "range_order ord2'"
    and "\<forall>t. sha t \<noteq> []" and "h \<noteq> []"
    and "quorum \<le> int (length (agreeing clk sha modTime etag h metaArr))"
    and "int (length metaArr) < 2 * quorum"
  shows "\<exists>fi. findFileInfoInQuorum clk sha ord1 ord2 metaArr modTime etag quorum = Inr fi
    \<and> findFileInfoInQuorum clk sha ord1' ord2' metaArr modTime etag quorum = Inr fi
    \<and> (\<exists>props. fi = quorum_version (agreeing clk sha modTime etag h metaArr) props)"
proof -
  let ?ks = "filter (\<lambda>h. h \<noteq> []) (map (meta_hash clk sha modTime etag) metaArr)"
  let ?g = "agreeing clk sha modTime etag h metaArr"
  have q: "1 \<le> quorum" using assms(8) by simp
  have occ: "occ h ?ks = int (length ?g)"
    using occ_meta_hashes[of h sha clk modTime etag metaArr] assms(5,6) by simp
  have "length ?ks \<le> length metaArr" by (metis length_filter_le length_map)
  then have len: "int (length ?ks) < 2 * quorum" using assms(8) by linarith
  have sc: "scan_max (o1 (tally ?ks)) (0, []) = (int (length ?g), h)" if "range_order o1" for o1
    using freq.majority_wins[OF that _ len, of h "[]"] occ assms(7) by simp
  have u: "findFileInfoInQuorum clk sha o1 o2 metaArr modTime etag quorum =
      Inr (quorum_version ?g (GetValueWithQuorum_in (o2 (tally (version_props ?g))) quorum))"
    if "range_order o1" for o1 o2
    using findFileInfoInQuorum_unfold(1)[OF that _ q sc[OF that], of o2] assms(5,7) by (simp add: Let_def)
  have glen: "int (length (version_props ?g)) < 2 * quorum"
  proof -
    have "length ?g \<le> length metaArr" by (simp add: agreeing_def)
    then show ?thesis using assms(8) by simp
  qed
  have "GetValueWithQuorum_in (ord2 (tally (version_props ?g))) quorum
      = GetValueWithQuorum_in (ord2' (tally (version_props ?g))) quorum"
    by (rule GetValueWithQuorum_in_order[OF assms(2,4) glen])
  then show ?thesis using u[OF assms(1), of ord2] u[OF assms(3), of ord2'] by auto
qed

lemma sample_meta_selected [simp]: "meta_selected 9 etag (sample_meta i) \<longleftrightarrow> 0 < i \<and> i \<le> 4"
  by (simp add: meta_selected_def)

lemma sample_agreeing:
  "agreeing clk (\<lambda>t. ''d'') 9 [] ''d'' (map sample_meta [1, 2, 3, 7]) = map sample_meta [1, 2, 3]"
  by (simp add: agreeing_def)

theorem find_file_info_complete_witness:
  "\<exists>fi. findFileInfoInQuorum sample_clock (\<lambda>t. ''d'') (\<lambda>x. x) (\<lambda>x. x) (map sample_meta [1, 2, 3, 7]) 9 [] 3 = Inr fi
    \<and> findFileInfoInQuorum sample_clock (\<lambda>t. ''d'') rev rev (map sample_meta [1, 2, 3, 7]) 9 [] 3 = Inr fi
    \<and> (\<exists>props. fi = quorum_version (map sample_meta [1, 2, 3]) props)"
  using find_file_info_complete[OF range_order_id range_order_id range_order_rev range_order_rev,
      of "\<lambda>t. ''d''" "''d''" 3 sample_clock 9 "[]" "map sample_meta [1, 2, 3, 7]"]
  by (simp add: sample_agreeing[simplified])

theorem find_file_info_sound_witness:
  "\<exists>fi. \<exists>c \<in> set (map sample_meta [1, 2, 3, 7]). meta_selected 9 [] c \<and>
     findFileInfoInQuorum sample_clock (\<lambda>t. ''d'') (\<lambda>x. x) (\<lambda>x. x) (map sample_meta [1, 2, 3, 7]) 9 [] 3 = Inr fi"
proof -
  obtain fi where fi: "findFileInfoInQuorum sample_clock (\<lambda>t. ''d'') (\<lambda>x. x) (\<lambda>x. x)
      (map sample_meta [1, 2, 3, 7]) 9 [] 3 = Inr fi"
    using findFileInfoInQuorum_unfold(1)[of "\<lambda>x. x" "\<lambda>t. ''d''" 3 sample_clock 9 "[]" "map sample_meta [1, 2, 3, 7]" 3 "''d''" "\<lambda>x. x"]
    by (simp add: meta_hash_def tally_def bump_def Let_def)
  from find_file_info_sound[OF range_order_id range_order_id _ fi] show ?thesis using fi by auto
qed

end
