(* ===== verification/Heal_Check.thy ===== *)
theory Heal_Check
  imports Quorum_Meta
begin

text \<open>
  What follows from the metadata of the drives: writing it to all of them with a revert when
  there is no quorum (\<open>writeAllMetadataWithRevert\<close> of \<open>cmd/erasure-metadata.go\<close>), the state of
  every part on every drive (\<open>checkObjectWithAllParts\<close> of \<open>cmd/erasure-healing-common.go\<close>), and the
  decisions of healing (\<open>cmd/erasure-healing.go\<close>): whether a drive's copy has to be healed and
  whether what is left of an object is dangling and may be purged. The drives' own operations
  (\<open>WriteMetadata\<close>, \<open>Delete\<close>, \<open>VerifyFile\<close>, \<open>CheckParts\<close>) are parameters.
\<close>

section \<open>Writing metadata to all drives\<close>

definition write_one ::
  "('d \<Rightarrow> FileInfo \<Rightarrow> 'd \<times> gerror option) \<Rightarrow> int \<Rightarrow> 'd option \<Rightarrow> FileInfo \<Rightarrow> 'd option \<times> gerror option" where
  "write_one WriteMetadata index disk file0 =
     (case disk of
        None \<Rightarrow> (None, Some ErrDiskNotFound)
      | Some d \<Rightarrow>
          let fi = file0\<lparr>fi_Erasure := (fi_Erasure file0)\<lparr>ei_Index := index + 1\<rparr>\<rparr>
          in if IsValid fi then (case WriteMetadata d fi of (d', err) \<Rightarrow> (Some d', err))
             else (Some d, Some ErrFileCorrupt))"

fun write_each ::
  "('d \<Rightarrow> FileInfo \<Rightarrow> 'd \<times> gerror option) \<Rightarrow> int \<Rightarrow> 'd option list \<Rightarrow> FileInfo list
   \<Rightarrow> ('d option \<times> gerror option) list" where
  "write_each WriteMetadata index (d # ds) (f # fs) =
     write_one WriteMetadata index d f # write_each WriteMetadata (index + 1) ds fs"
| "write_each WriteMetadata index _ _ = []"

definition revert_one ::
  "('d \<Rightarrow> 'd \<times> gerror option) \<Rightarrow> 'd option \<Rightarrow> gerror option \<Rightarrow> 'd option" where
  "revert_one Delete disk mErr =
     (if mErr \<noteq> None then disk
      else case disk of None \<Rightarrow> None | Some d \<Rightarrow> Some (fst (Delete d)))"

text \<open>The result: the drives' contents afterwards, the drives that took part, the error.\<close>

definition writeAllMetadataWithRevert ::
  "errs_order \<Rightarrow> bool \<Rightarrow> ('d \<Rightarrow> FileInfo \<Rightarrow> 'd \<times> gerror option) \<Rightarrow> ('d \<Rightarrow> 'd \<times> gerror option)
   \<Rightarrow> 'd option list \<Rightarrow> FileInfo list \<Rightarrow> int \<Rightarrow> bool
   \<Rightarrow> 'd option list \<times> 'd option slice \<times> gerror option" where
  "writeAllMetadataWithRevert ord ctxCanceled WriteMetadata Delete disks files quorum revert =
     (let res = write_each WriteMetadata 0 disks files;
          written = map fst res;
          mErrs = map snd res;
          err = reduceWriteQuorumErrs ord ctxCanceled mErrs objectOpIgnoredErrs quorum;
          after = (if err \<noteq> None \<and> revert then map2 (revert_one Delete) written mErrs else written)
      in (after, evalDisks after mErrs, err))"

definition writeAllMetadata where
  "writeAllMetadata ord ctxCanceled WriteMetadata Delete disks files quorum =
     writeAllMetadataWithRevert ord ctxCanceled WriteMetadata Delete disks files quorum True"

definition writeUniqueFileInfo where
  "writeUniqueFileInfo ord ctxCanceled WriteMetadata Delete disks files quorum =
     writeAllMetadataWithRevert ord ctxCanceled WriteMetadata Delete disks files quorum False"

section \<open>The state of the parts\<close>

definition checkPartUnknown :: int where [simp]: "checkPartUnknown = 0"
definition checkPartSuccess :: int where [simp]: "checkPartSuccess = 1"
definition checkPartDiskNotFound :: int where [simp]: "checkPartDiskNotFound = 2"
definition checkPartVolumeNotFound :: int where [simp]: "checkPartVolumeNotFound = 3"
definition checkPartFileNotFound :: int where [simp]: "checkPartFileNotFound = 4"
definition checkPartFileCorrupt :: int where [simp]: "checkPartFileCorrupt = 5"

definition convPartErrToInt :: "gerror option \<Rightarrow> int" where
  "convPartErrToInt err =
     (case map_option unwrapAll err of
        None \<Rightarrow> checkPartSuccess
      | Some e \<Rightarrow>
          if e = ErrFileNotFound \<or> e = ErrFileVersionNotFound then checkPartFileNotFound
          else if e = ErrFileCorrupt then checkPartFileCorrupt
          else if e = ErrVolumeNotFound then checkPartVolumeNotFound
          else if e = ErrDiskNotFound then checkPartDiskNotFound
          else checkPartUnknown)"

definition partNeedsHealing :: "int list \<Rightarrow> bool" where
  "partNeedsHealing partErrs = list_ex (\<lambda>i. i \<noteq> checkPartSuccess \<and> i \<noteq> checkPartUnknown) partErrs"

fun countPartNotSuccess :: "int list \<Rightarrow> int" where
  "countPartNotSuccess [] = 0"
| "countPartNotSuccess (pe # partErrs) =
     (if pe \<noteq> checkPartSuccess then countPartNotSuccess partErrs + 1 else countPartNotSuccess partErrs)"

text \<open>How many drives hold metadata whose index does not fit the distribution.\<close>

fun count_inconsistent :: "nat \<Rightarrow> nat \<Rightarrow> FileInfo list \<Rightarrow> int" where
  "count_inconsistent n i [] = 0"
| "count_inconsistent n i (meta # metas) =
     (if \<not> IsValid meta then count_inconsistent n (i + 1) metas
      else if fi_Deleted meta then count_inconsistent n (i + 1) metas
      else if length (elems (ei_Distribution (fi_Erasure meta))) \<noteq> n
        then count_inconsistent n (i + 1) metas + 1
      else if elems (ei_Distribution (fi_Erasure meta)) ! i \<noteq> ei_Index (fi_Erasure meta)
        then count_inconsistent n (i + 1) metas + 1
      else count_inconsistent n (i + 1) metas)"

definition meta_corrupted :: "bool \<Rightarrow> FileInfo \<Rightarrow> FileInfo \<Rightarrow> bool" where
  "meta_corrupted filterByETag latestMeta meta =
     (if filterByETag then mgetd (fi_Metadata meta) ''etag'' \<noteq> mgetd (fi_Metadata latestMeta) ''etag''
      else fi_ModTime meta \<noteq> fi_ModTime latestMeta \<or> fi_DataDir meta \<noteq> fi_DataDir latestMeta)"

text \<open>The second loop, for one drive: its metadata error, and what becomes of its entry in
  \<open>onlineDisks\<close> and \<open>partsMetadata\<close>.\<close>

definition check_drive_meta ::
  "bool \<Rightarrow> nat \<Rightarrow> bool \<Rightarrow> FileInfo \<Rightarrow> gerror option \<Rightarrow> 'd option \<Rightarrow> FileInfo
   \<Rightarrow> gerror option \<times> 'd option \<times> FileInfo" where
  "check_drive_meta reliable n filterByETag latestMeta err disk meta =
     (if err \<noteq> None then (err, disk, meta)
      else if disk = None then (Some ErrDiskNotFound, disk, meta)
      else if meta_corrupted filterByETag latestMeta meta then (Some ErrFileCorrupt, None, FileInfo0)
      else if reliable \<and> \<not> IsValid meta then (Some ErrFileCorrupt, None, FileInfo0)
      else if reliable \<and> \<not> fi_Deleted meta \<and> length (elems (ei_Distribution (fi_Erasure meta))) \<noteq> n
        then (Some ErrFileCorrupt, None, FileInfo0)
      else (None, disk, meta))"

fun is_panic :: "gerror option \<Rightarrow> bool" where
  "is_panic (Some (GoPanic s)) = True"
| "is_panic _ = False"

text \<open>The loops over the parts, for one drive: its column of results.\<close>

definition drive_part_errs ::
  "clock \<Rightarrow> (BitrotAlgorithm \<Rightarrow> byte list \<Rightarrow> byte list) \<Rightarrow> ('d \<Rightarrow> FileInfo \<Rightarrow> gerror + int list)
   \<Rightarrow> FileInfo \<Rightarrow> gerror option \<Rightarrow> 'd option \<Rightarrow> FileInfo \<Rightarrow> gerror + int list" where
  "drive_part_errs clk H verify latestMeta metaErr disk meta =
     (let nParts = length (elems (fi_Parts latestMeta)) in
      case metaErr of
        Some e \<Rightarrow> Inr (replicate nParts (convPartErrToInt (Some e)))
      | None \<Rightarrow>
          if fi_Deleted meta \<or> FileInfo_IsRemote clk meta then Inr (replicate nParts checkPartUnknown)
          else if (elems (fi_Data meta) \<noteq> [] \<or> fi_Size meta = 0) \<and> elems (fi_Parts meta) \<noteq> [] then
            (let checksumInfo = GetChecksumInfo (fi_Erasure meta) (pt_Number (hd (elems (fi_Parts meta))))
             in case ErasureInfo_ShardFileSize (fi_Erasure meta) (fi_Size meta) of
                  Inl e \<Rightarrow> Inl e
                | Inr partSize \<Rightarrow>
                    (let verifyErr = bitrotVerify H (elems (fi_Data meta)) (int (length (elems (fi_Data meta))))
                           partSize (ck_Algorithm checksumInfo) (elems (ck_Hash checksumInfo))
                           (ErasureInfo_ShardSize (fi_Erasure meta))
                     in if is_panic verifyErr then Inl (the verifyErr)
                        else if nParts = 0 then Inl (GoPanic ''index out of range'')
                        else Inr ((replicate nParts checkPartUnknown)[0 := convPartErrToInt verifyErr])))
          else case disk of
                 None \<Rightarrow> Inl (GoPanic ''nil pointer dereference'')
               | Some d \<Rightarrow>
                   (case verify d meta of
                      Inl e \<Rightarrow> Inr (replicate nParts (convPartErrToInt (Some e)))
                    | Inr results \<Rightarrow>
                        if length results < nParts then Inl (GoPanic ''index out of range'')
                        else Inr (take nParts results)))"

fun all_Inr :: "('e + 'a) list \<Rightarrow> 'e + 'a list" where
  "all_Inr [] = Inr []"
| "all_Inr (Inl e # xs) = Inl e"
| "all_Inr (Inr x # xs) = (case all_Inr xs of Inl e \<Rightarrow> Inl e | Inr ys \<Rightarrow> Inr (x # ys))"

record 'd checked_object =
  co_ByDisk :: "int list list"
  co_ByPart :: "int list list"
  co_Disks :: "'d option list"
  co_Metas :: "FileInfo list"

definition checkObjectWithAllParts ::
  "clock \<Rightarrow> (BitrotAlgorithm \<Rightarrow> byte list \<Rightarrow> byte list)
   \<Rightarrow> ('d \<Rightarrow> FileInfo \<Rightarrow> gerror + int list) \<Rightarrow> ('d \<Rightarrow> FileInfo \<Rightarrow> gerror + int list)
   \<Rightarrow> 'd option list \<Rightarrow> FileInfo list \<Rightarrow> gerror option list \<Rightarrow> FileInfo \<Rightarrow> bool \<Rightarrow> bool
   \<Rightarrow> gerror + 'd checked_object" where
  "checkObjectWithAllParts clk H VerifyFile CheckParts onlineDisks partsMetadata errs latestMeta filterByETag deepScan =
     (let n = length onlineDisks;
          inconsistent = count_inconsistent n 0 partsMetadata;
          reliable = (inconsistent \<le> int (length partsMetadata) div 2);
          checked = map (\<lambda>(err, disk, meta). check_drive_meta reliable n filterByETag latestMeta err disk meta)
                        (zip errs (zip onlineDisks partsMetadata));
          verify = (if deepScan then VerifyFile else CheckParts)
      in case all_Inr (map (\<lambda>(metaErr, disk, meta). drive_part_errs clk H verify latestMeta metaErr disk meta) checked) of
           Inl e \<Rightarrow> Inl e
         | Inr columns \<Rightarrow>
             Inr \<lparr>co_ByDisk = columns,
                  co_ByPart = map (\<lambda>p. map (\<lambda>c. c ! p) columns) [0..<length (elems (fi_Parts latestMeta))],
                  co_Disks = map (\<lambda>(metaErr, disk, meta). disk) checked,
                  co_Metas = map (\<lambda>(metaErr, disk, meta). meta) checked\<rparr>)"

section \<open>Healing decisions\<close>

definition errLegacyXLMeta :: gerror where "errLegacyXLMeta = OtherErr ''legacy XL meta''"
definition errOutdatedXLMeta :: gerror where "errOutdatedXLMeta = OtherErr ''outdated XL meta''"
definition errPartCorrupt :: gerror where "errPartCorrupt = OtherErr ''part corrupt''"
definition errPartMissing :: gerror where "errPartMissing = OtherErr ''part missing''"

fun first_part_problem :: "int list \<Rightarrow> gerror option" where
  "first_part_problem [] = None"
| "first_part_problem (partErr # es) =
     (if partErr = checkPartFileNotFound then Some errPartMissing
      else if partErr = checkPartFileCorrupt then Some errPartCorrupt
      else first_part_problem es)"

text \<open>Whether the drive needs healing, whether its metadata does, and the reason.\<close>

definition shouldHealObjectOnDisk ::
  "clock \<Rightarrow> gerror option \<Rightarrow> int list \<Rightarrow> FileInfo \<Rightarrow> FileInfo \<Rightarrow> bool \<times> bool \<times> gerror option" where
  "shouldHealObjectOnDisk clk erErr partsErrs meta latestMeta =
     (if IsErr erErr [ErrFileNotFound] \<or> IsErr erErr [ErrFileVersionNotFound] \<or> IsErr erErr [ErrFileCorrupt]
      then (True, True, erErr)
      else if erErr = None then
        (if fi_XLV1 meta then (True, True, Some errLegacyXLMeta)
         else if \<not> FileInfo_Equals latestMeta meta then (True, True, Some errOutdatedXLMeta)
         else if \<not> fi_Deleted meta \<and> \<not> FileInfo_IsRemote clk meta then
           (case first_part_problem partsErrs of
              Some e \<Rightarrow> (True, False, Some e)
            | None \<Rightarrow> (False, False, None))
         else (False, False, None))
      else (False, False, erErr))"

definition xMinIOHealing :: string where "xMinIOHealing = ReservedMetadataPrefix @ ''healing''"
definition xMinIODataMov :: string where "xMinIODataMov = ReservedMetadataPrefix @ ''data-mov''"

definition SetHealing :: "FileInfo \<Rightarrow> FileInfo" where
  "SetHealing fi = fi\<lparr>fi_Metadata := mput (fi_Metadata fi) xMinIOHealing ''true''\<rparr>"

definition Healing :: "FileInfo \<Rightarrow> bool" where
  "Healing fi = mhas (fi_Metadata fi) xMinIOHealing"

definition SetDataMov :: "FileInfo \<Rightarrow> FileInfo" where
  "SetDataMov fi = fi\<lparr>fi_Metadata := mput (fi_Metadata fi) xMinIODataMov ''true''\<rparr>"

definition DataMov :: "FileInfo \<Rightarrow> bool" where
  "DataMov fi = mhas (fi_Metadata fi) xMinIODataMov"






section \<open>Properties\<close>

subsection \<open>Purging\<close>









subsection \<open>The state of the parts\<close>

lemma all_Inr_Inr: "all_Inr xs = Inr ys \<Longrightarrow> length ys = length xs \<and> (\<forall>i<length xs. xs ! i = Inr (ys ! i))"
proof (induction xs arbitrary: ys rule: all_Inr.induct)
  case (3 x xs)
  then obtain zs where zs: "all_Inr xs = Inr zs" "ys = x # zs" by (auto split: sum.splits)
  show ?case
  proof (intro conjI allI impI)
    show "length ys = length (Inr x # xs)" using 3 zs by simp
    fix i assume "i < length (Inr x # xs)"
    then show "(Inr x # xs) ! i = Inr (ys ! i)" using 3 zs by (cases i) auto
  qed
qed auto

lemma convPartErrToInt_success: "convPartErrToInt e = checkPartSuccess \<longleftrightarrow> e = None"
  by (auto simp: convPartErrToInt_def split: option.split)

lemma length_drive_part_errs:
  "drive_part_errs clk H verify latestMeta metaErr disk meta = Inr col \<Longrightarrow>
   length col = length (elems (fi_Parts latestMeta))"
  by (auto simp: drive_part_errs_def Let_def split: option.splits sum.splits if_splits)

text \<open>The verdicts a part can be reported good by: the inlined data of the first part passes its
  bitrot check, or the drive itself answers so.\<close>

definition part_verified where
  "part_verified H verify disk meta q \<longleftrightarrow>
     (q = 0 \<and> (\<exists>sz. ErasureInfo_ShardFileSize (fi_Erasure meta) (fi_Size meta) = Inr sz \<and>
        (let ck = GetChecksumInfo (fi_Erasure meta) (pt_Number (hd (elems (fi_Parts meta))))
         in bitrotVerify H (elems (fi_Data meta)) (int (length (elems (fi_Data meta)))) sz
           (ck_Algorithm ck) (elems (ck_Hash ck)) (ErasureInfo_ShardSize (fi_Erasure meta)) = None)))
     \<or> (\<exists>d rs. disk = Some d \<and> verify d meta = Inr rs \<and> q < length rs \<and> rs ! q = checkPartSuccess)"

lemma drive_part_success:
  assumes col: "drive_part_errs clk H verify latestMeta metaErr disk meta = Inr col"
    and q: "q < length (elems (fi_Parts latestMeta))" and s: "col ! q = checkPartSuccess"
  shows "metaErr = None \<and> \<not> fi_Deleted meta \<and> part_verified H verify disk meta q"
proof (cases metaErr)
  case (Some e)
  then have "col ! q = convPartErrToInt (Some e)" using col q by (auto simp: drive_part_errs_def Let_def)
  then show ?thesis using s convPartErrToInt_success by (metis option.discI)
next
  case None
  note d = col[unfolded drive_part_errs_def Let_def None]
  show ?thesis
  proof (cases "fi_Deleted meta \<or> FileInfo_IsRemote clk meta")
    case True
    then have "col ! q = checkPartUnknown" using d q by auto
    then show ?thesis using s by simp
  next
    case live: False
    show ?thesis
    proof (cases "(elems (fi_Data meta) \<noteq> [] \<or> fi_Size meta = 0) \<and> elems (fi_Parts meta) \<noteq> []")
      case True
      define v where "v sz = bitrotVerify H (elems (fi_Data meta)) (int (length (elems (fi_Data meta)))) sz
         (ck_Algorithm (GetChecksumInfo (fi_Erasure meta) (pt_Number (hd (elems (fi_Parts meta))))))
         (elems (ck_Hash (GetChecksumInfo (fi_Erasure meta) (pt_Number (hd (elems (fi_Parts meta)))))))
         (ErasureInfo_ShardSize (fi_Erasure meta))" for sz
      obtain sz where sz: "ErasureInfo_ShardFileSize (fi_Erasure meta) (fi_Size meta) = Inr sz"
          "col = (replicate (length (elems (fi_Parts latestMeta))) checkPartUnknown)[0 := convPartErrToInt (v sz)]"
        using d live True by (auto simp: v_def split: sum.splits if_splits)
      have "q = 0"
      proof (rule ccontr)
        assume "q \<noteq> 0"
        then show False using sz s q by simp
      qed
      then have "v sz = None" using sz s q convPartErrToInt_success by (metis length_replicate nth_list_update_eq)
      then show ?thesis
        using None live sz \<open>q = 0\<close> by (simp add: part_verified_def v_def Let_def)
    next
      case False
      then obtain dd where dd: "disk = Some dd" using d live by (auto split: option.splits)
      show ?thesis
      proof (cases "verify dd meta")
        case (Inl e)
        then have "col ! q = convPartErrToInt (Some e)" using d live False dd q by auto
        then show ?thesis using s convPartErrToInt_success by (metis option.discI)
      next
        case (Inr rs)
        then have "col = take (length (elems (fi_Parts latestMeta))) rs" "length (elems (fi_Parts latestMeta)) \<le> length rs"
          using d live False dd by (auto split: if_splits)
        then show ?thesis using None live Inr dd q s by (auto simp: part_verified_def)
      qed
    qed
  qed
qed

text \<open>C28: When \<open>checkObjectWithAllParts\<close> reports a part good on a drive, that drive answered without
  an error, its metadata is the current version (same modification time and data directory, or
  same etag), and the part passed verification; the per-part and the per-drive tables agree.\<close>

theorem good_part_is_verified:
  assumes "checkObjectWithAllParts clk H VerifyFile CheckParts disks metas errs latestMeta byETag deep = Inr co"
    and "length metas = length disks" and "length errs = length disks"
    and "i < length disks" and "q < length (elems (fi_Parts latestMeta))"
  shows "co_ByPart co ! q ! i = co_ByDisk co ! i ! q \<and>
    (co_ByDisk co ! i ! q = checkPartSuccess \<longrightarrow>
       errs ! i = None \<and> disks ! i \<noteq> None \<and> \<not> meta_corrupted byETag latestMeta (metas ! i)
       \<and> \<not> fi_Deleted (metas ! i) \<and> co_Disks co ! i = disks ! i \<and> co_Metas co ! i = metas ! i
       \<and> part_verified H (if deep then VerifyFile else CheckParts) (disks ! i) (metas ! i) q)"
proof -
  let ?n = "length disks" and ?v = "if deep then VerifyFile else CheckParts"
  define rel where "rel = (count_inconsistent ?n 0 metas \<le> int (length metas) div 2)"
  define ck where "ck = map (\<lambda>(err, disk, meta). check_drive_meta rel ?n byETag latestMeta err disk meta)
    (zip errs (zip disks metas))"
  obtain cols where cols: "all_Inr (map (\<lambda>(e, d, m). drive_part_errs clk H ?v latestMeta e d m) ck) = Inr cols"
    and co: "co = \<lparr>co_ByDisk = cols, co_ByPart = map (\<lambda>p. map (\<lambda>c. c ! p) cols) [0..<length (elems (fi_Parts latestMeta))],
      co_Disks = map (\<lambda>(e, d, m). d) ck, co_Metas = map (\<lambda>(e, d, m). m) ck\<rparr>"
    using assms(1) by (auto simp: checkObjectWithAllParts_def Let_def rel_def ck_def split: sum.splits)
  have lck: "length ck = ?n" using assms(2,3) by (simp add: ck_def)
  have len: "length cols = ?n" using all_Inr_Inr[OF cols] lck by simp
  have cki: "ck ! i = check_drive_meta rel ?n byETag latestMeta (errs ! i) (disks ! i) (metas ! i)"
    using assms(2-4) by (simp add: ck_def)
  obtain e d m where edm: "ck ! i = (e, d, m)" by (cases "ck ! i") auto
  have col: "drive_part_errs clk H ?v latestMeta e d m = Inr (cols ! i)"
    using all_Inr_Inr[OF cols] lck assms(4) edm by auto
  have "errs ! i = None \<and> disks ! i \<noteq> None \<and> \<not> meta_corrupted byETag latestMeta (metas ! i)
      \<and> d = disks ! i \<and> m = metas ! i" if "e = None"
    using cki edm that by (auto simp: check_drive_meta_def split: if_splits)
  then show ?thesis
    using drive_part_success[OF col assms(5)] assms(4,5) len lck edm by (auto simp: co)
qed

text \<open>Example drives: the first verifies its file, the second has lost it.\<close>

theorem good_part_is_verified_witness:
  "\<exists>co. checkObjectWithAllParts sample_clock length_hash (\<lambda>d m. Inr [1]) (\<lambda>d m. if d = ''a'' then Inr [1] else Inl ErrFileNotFound)
       [Some ''a'', Some ''b''] (replicate 2 ((sample_meta 1)\<lparr>fi_Parts := Some [ObjectPartInfo0], fi_Erasure :=
          ErasureInfo0\<lparr>ei_DataBlocks := 1, ei_ParityBlocks := 1, ei_Index := 1, ei_Distribution := Some [1, 2]\<rparr>\<rparr>))
       [None, None] ((sample_meta 1)\<lparr>fi_Parts := Some [ObjectPartInfo0]\<rparr>) False False = Inr co
     \<and> co_ByDisk co = [[1], [4]] \<and> co_ByPart co ! 0 ! 0 = co_ByDisk co ! 0 ! 0"
proof -
  let ?m = "(sample_meta 1)\<lparr>fi_Parts := Some [ObjectPartInfo0], fi_Erasure :=
      ErasureInfo0\<lparr>ei_DataBlocks := 1, ei_ParityBlocks := 1, ei_Index := 1, ei_Distribution := Some [1, 2]\<rparr>\<rparr>"
  let ?cp = "\<lambda>d (m :: FileInfo). if d = ''a'' then Inr [1 :: int] else Inl ErrFileNotFound"
  let ?lm = "(sample_meta 1)\<lparr>fi_Parts := Some [ObjectPartInfo0]\<rparr>"
  obtain co where co: "checkObjectWithAllParts sample_clock length_hash (\<lambda>d m. Inr [1]) ?cp [Some ''a'', Some ''b'']
      (replicate 2 ?m) [None, None] ?lm False False = Inr co" and byd: "co_ByDisk co = [[1], [4]]"
    by (simp add: checkObjectWithAllParts_def Let_def sample_meta_def FileInfo0_def ErasureInfo0_def IsValid_def
        meta_corrupted_def check_drive_meta_def drive_part_errs_def FileInfo_IsRemote_def TransitionComplete_def
        convPartErrToInt_def numeral_2_eq_2)
  from good_part_is_verified[OF co, of 0 0] co byd show ?thesis by auto
qed

subsection \<open>Writing with a revert\<close>

lemma length_write_each: "length ds = length fs \<Longrightarrow> length (write_each W i ds fs) = length ds"
  by (induction W i ds fs rule: write_each.induct) auto

lemma reduceWriteQuorumErrs_None:
  assumes "range_order ord" and "0 < quorum"
    and "reduceWriteQuorumErrs ord canceled errs ignored quorum = None"
  shows "quorum \<le> occ None errs"
proof -
  obtain n e where r: "reduceErrs ord errs ignored = (n, e)" by fastforce
  have ne: "quorum \<le> n" "e = None"
    using assms(3) r by (auto simp: reduceWriteQuorumErrs_def reduceQuorumErrs_def split: if_splits)
  then have "counted_errs errs ignored \<noteq> []" using reduceErrs_winner(3)[OF assms(1) r] assms(2) by auto
  then show ?thesis using reduceErrs_winner(2)[OF assms(1) r] ne by (simp add: occ_None_counted)
qed

lemma evalDisks_loop_nth:
  "length ds = length es \<Longrightarrow> i < length ds \<Longrightarrow>
   evalDisks_loop ds es ! i = (if es ! i = None then ds ! i else None)"
proof (induction ds es arbitrary: i rule: evalDisks_loop.induct)
  case (1 d ds e es)
  then show ?case by (cases i) auto
qed auto

lemma length_evalDisks_loop: "length ds = length es \<Longrightarrow> length (evalDisks_loop ds es) = length ds"
  by (induction ds es rule: evalDisks_loop.induct) auto

text \<open>C27: Writing the metadata of an object succeeds only when at least a write quorum of drives
  stored it; the drives handed on are exactly those; when it fails with \<open>revert\<close>, every
  drive that stored it is told to delete it and the others are left as they are.\<close>

theorem write_metadata_quorum:
  assumes "range_order ord" and "0 < quorum" and "length files = length disks"
    and "writeAllMetadataWithRevert ord canceled W D disks files quorum revert = (after, online, err)"
  shows "\<exists>res. res = write_each W 0 disks files \<and> length res = length disks
    \<and> (err = None \<longrightarrow> quorum \<le> int (length (filter (\<lambda>r. snd r = None) res)) \<and> after = map fst res)
    \<and> (err \<noteq> None \<and> revert \<longrightarrow> (\<forall>i < length disks. after ! i =
          (if snd (res ! i) = None then map_option (\<lambda>d. fst (D d)) (fst (res ! i)) else fst (res ! i))))
    \<and> (\<exists>os. online = Some os \<and> length os = length disks
        \<and> (\<forall>i < length disks. os ! i = (if snd (res ! i) = None then after ! i else None)))"
proof -
  define res where "res = write_each W 0 disks files"
  have len: "length res = length disks" using assms(3) by (simp add: res_def length_write_each)
  have err: "err = reduceWriteQuorumErrs ord canceled (map snd res) objectOpIgnoredErrs quorum"
    and after: "after = (if err \<noteq> None \<and> revert then map2 (revert_one D) (map fst res) (map snd res) else map fst res)"
    and online: "online = evalDisks after (map snd res)"
    using assms(4) by (auto simp: writeAllMetadataWithRevert_def Let_def res_def)
  have la: "length after = length disks" using len by (simp add: after)
  have "int (length (filter (\<lambda>r. snd r = None) res)) = occ None (map snd res)"
    by (induction res) auto
  then have ok: "err = None \<longrightarrow> quorum \<le> int (length (filter (\<lambda>r. snd r = None) res)) \<and> after = map fst res"
    using reduceWriteQuorumErrs_None[OF assms(1,2)] err after by metis
  have "online = Some (evalDisks_loop after (map snd res))"
    using la len by (simp add: online evalDisks_def)
  moreover have "after ! i = (if snd (res ! i) = None then map_option (\<lambda>d. fst (D d)) (fst (res ! i)) else fst (res ! i))"
    if "err \<noteq> None \<and> revert" "i < length disks" for i
    using that len by (cases "res ! i") (simp add: after revert_one_def split: option.split)
  ultimately show ?thesis
    using ok len la unfolding res_def[symmetric]
    by (simp add: length_evalDisks_loop evalDisks_loop_nth)
qed

theorem write_metadata_quorum_witness:
  "writeAllMetadataWithRevert rev False (\<lambda>d f. (d @ [fi_Size f], if d = [] then None else Some ErrFaultyDisk)) (\<lambda>d. ([], None))
       [Some [], Some [1], None] (replicate 3 (sample_meta 1)) 2 True
     = ([Some [], Some [1, 10], None], Some [Some [], None, None], Some ErrErasureWriteQuorum)
   \<and> length (write_each (\<lambda>d f. (d @ [fi_Size f], if d = [] then None else Some ErrFaultyDisk)) 0
        [Some [], Some [1], None] (replicate 3 (sample_meta 1))) = length [Some [], Some [1], None :: int list option]"
proof -
  let ?W = "\<lambda>d f. (d @ [fi_Size f], if d = [] then None else Some ErrFaultyDisk)"
  have w: "writeAllMetadataWithRevert rev False ?W (\<lambda>d. ([], None))
      [Some [], Some [1], None] (replicate 3 (sample_meta 1)) 2 True
    = ([Some [], Some [1, 10], None], Some [Some [], None, None], Some ErrErasureWriteQuorum)"
    by (simp add: writeAllMetadataWithRevert_def numeral_3_eq_3 write_one_def IsValid_def FileInfo0_def
        ErasureInfo0_def sample_meta_def Let_def reduceWriteQuorumErrs_def reduceQuorumErrs_def reduceErrs_def
        tally_def bump_def objectOpIgnoredErrs_def baseErrs_def IsErrIgnored_def evalDisks_def revert_one_def)
  have "(0 :: int) < 2" and "length (replicate 3 (sample_meta 1)) = length [Some [], Some [1], None :: int list option]"
    by simp_all
  from write_metadata_quorum[OF range_order_rev this w] w show ?thesis by blast
qed

subsection \<open>The drives that are up to date\<close>

text \<open>Every drive \<open>listOnlineDisks\<close> keeps answered without an error and holds valid metadata of
  the modification time it reports (or of the etag, when it falls back to one); a
  modification time other than the sentinel is held by at least a quorum of the drives.\<close>

theorem online_disks_sound:
  assumes "range_order ord1" and "range_order ord2"
    and "length metas = length disks" and "length errs = length disks"
    and "\<forall>m \<in> set metas. is_int64 (fi_ModTime m) \<or> IsZero (fi_ModTime m)"
    and "listOnlineDisks ord1 ord2 disks metas errs quorum = (online, modTime, etag)"
  shows "length online = length disks \<and>
    (\<forall>i < length disks. online ! i \<noteq> None \<longrightarrow> online ! i = disks ! i \<and> IsValid (metas ! i) \<and>
       (if etag \<noteq> [] then errs ! i = None \<and> mgetd (fi_Metadata (metas ! i)) ''etag'' = etag
        else (errs ! i = None \<and> fi_ModTime (metas ! i) = modTime) \<or> modTime = timeSentinel))
    \<and> (modTime \<noteq> timeSentinel \<longrightarrow> quorum \<le> occ modTime (listObjectModtimes metas errs))"
proof -
  let ?mts = "listObjectModtimes metas errs"
  have mt: "length ?mts = length disks"
    "\<And>i. i < length disks \<Longrightarrow> ?mts ! i = (if errs ! i = None then fi_ModTime (metas ! i) else timeSentinel)"
    using assms(3,4) by (simp_all add: listObjectModtimes_def bootModtimes_def)
  have "\<forall>t \<in> set ?mts. is_int64 t \<or> IsZero t"
  proof
    fix t assume "t \<in> set ?mts"
    then obtain i where i: "i < length disks" "t = ?mts ! i" using mt(1) by (metis in_set_conv_nth)
    then have "metas ! i \<in> set metas" using assms(3) by simp
    moreover have "is_int64 timeSentinel" by (simp add: timeSentinel_def is_int64_def)
    ultimately show "is_int64 t \<or> IsZero t" using mt(2)[OF i(1)] i(2) assms(5) by auto
  qed
  from commonTime_latest[OF assms(1,1) this]
  have q: "commonTime ord1 ?mts quorum \<noteq> timeSentinel \<longrightarrow> quorum \<le> occ (commonTime ord1 ?mts quorum) ?mts"
    by blast
  have m: "modTime = commonTime ord1 ?mts quorum"
    using assms(6) by (auto simp: listOnlineDisks_def Let_def split: if_splits)
  define etags where "etags = listObjectETags ord2 metas errs quorum"
  have et: "length etags = length disks"
    "\<And>i. i < length disks \<Longrightarrow> etags ! i \<noteq> [] \<Longrightarrow> errs ! i = None \<and> etags ! i = mgetd (fi_Metadata (metas ! i)) ''etag''"
    using assms(3,4) by (auto simp: etags_def listObjectETags_def Let_def split: if_splits)
  consider (etag) "etag \<noteq> []" "online = map (\<lambda>((disk, meta), e). if IsValid meta \<and> e = etag then disk else None)
      (zip (zip disks metas) etags)"
    | (time) "etag = []" "online = map (\<lambda>((disk, meta), t). if IsValid meta \<and> t = modTime then disk else None)
      (zip (zip disks metas) ?mts)"
    using assms(6) by (auto simp: listOnlineDisks_def Let_def etags_def split: if_splits)
  then show ?thesis
  proof cases
    case etag
    then show ?thesis using et assms(3) q m by auto
  next
    case time
    then show ?thesis using mt assms(3) q m by auto
  qed
qed

theorem online_disks_sound_witness:
  "listOnlineDisks (\<lambda>x. x) rev [Some ''a'', Some ''b'', None] [sample_meta 1, sample_meta 2, FileInfo0]
     [None, None, Some ErrDiskNotFound] 2 = ([Some ''a'', Some ''b'', None], 9, [])
   \<and> 2 \<le> occ 9 (listObjectModtimes [sample_meta 1, sample_meta 2, FileInfo0] [None, None, Some ErrDiskNotFound])"
proof -
  have l: "listOnlineDisks (\<lambda>x. x) rev [Some ''a'', Some ''b'', None] [sample_meta 1, sample_meta 2, FileInfo0]
     [None, None, Some ErrDiskNotFound] 2 = ([Some ''a'', Some ''b'', None], 9, [])"
    by (simp add: listOnlineDisks_def listObjectModtimes_def bootModtimes_def commonTime_def
        commonTimeAndOccurrence_def numeral_3_eq_3 timeSentinel_def IsZero_def zero_time_def UnixNano_def
        int64_def bump_def Unix0_def Let_def)
  have "\<forall>m \<in> set [sample_meta 1, sample_meta 2, FileInfo0]. is_int64 (fi_ModTime m) \<or> IsZero (fi_ModTime m)"
    by (simp add: is_int64_def FileInfo0_def IsZero_def)
  from online_disks_sound[OF range_order_id range_order_rev _ _ this l] l show ?thesis
    by (simp add: timeSentinel_def)
qed

end
