(* ===== verification/Net_Locker.thy ===== *)
theory Net_Locker
  imports Go_Errors
begin

text \<open>
  The interface between the distributed mutex and a lock server: \<open>NetLocker\<close> of
  \<open>internal/dsync/locker.go\<close> as a record of operations, and the locale \<open>net_locker\<close> with what the
  mutex relies on. A server's state is looked at through \<open>view\<close>: the locks on a resource as a
  multiset of (request id, owner, write lock). \<open>Local_Locker\<close> interprets the locale,
  \<open>Dsync_Mutex\<close> is its client.
\<close>

text \<open>\<open>dsync.LockArgs\<close>; the quorum is a pointer.\<close>

record LockArgs =
  la_UID :: string
  la_Resources :: "string list"
  la_Source :: string
  la_Owner :: string
  la_Quorum :: "int option"

text \<open>Every call gets its surroundings of type \<open>'e\<close> (the clock, the context) and returns the
  new state, the reply and the error.\<close>

record ('e, 's) NetLocker =
  nl_RLock :: "'e \<Rightarrow> 's \<Rightarrow> LockArgs \<Rightarrow> 's \<times> bool \<times> gerror option"
  nl_Lock :: "'e \<Rightarrow> 's \<Rightarrow> LockArgs \<Rightarrow> 's \<times> bool \<times> gerror option"
  nl_RUnlock :: "'e \<Rightarrow> 's \<Rightarrow> LockArgs \<Rightarrow> 's \<times> bool \<times> gerror option"
  nl_Unlock :: "'e \<Rightarrow> 's \<Rightarrow> LockArgs \<Rightarrow> 's \<times> bool \<times> gerror option"
  nl_Refresh :: "'e \<Rightarrow> 's \<Rightarrow> LockArgs \<Rightarrow> 's \<times> bool \<times> gerror option"
  nl_ForceUnlock :: "'e \<Rightarrow> 's \<Rightarrow> LockArgs \<Rightarrow> 's \<times> bool \<times> gerror option"

type_synonym holder = "string \<times> string \<times> bool"

text \<open>
  The laws: a write lock is alone; a granted lock was free (or, for a read lock, not write
  locked) and is then held by the caller, a refused one changes nothing; a release of a lock
  that is held either removes one entry of the caller or reports an error and changes nothing;
  no release, whatever is held, takes more than one entry or an entry of another request id;
  a refresh changes no lock.
\<close>

locale net_locker =
  fixes nl :: "('e, 's) NetLocker"
    and view :: "'s \<Rightarrow> string \<Rightarrow> holder multiset"
    and inv :: "'s \<Rightarrow> bool"
  assumes exclusive: "inv s \<Longrightarrow> (u, ow, True) \<in># view s n \<Longrightarrow> view s n = {#(u, ow, True)#}"
    and lock_granted: "inv s \<Longrightarrow> nl_Lock nl env s a = (s', True, e) \<Longrightarrow>
      inv s' \<and> (\<forall>n. view s' n = (if n \<in> set (la_Resources a) then {#(la_UID a, la_Owner a, True)#} else view s n))
      \<and> (\<forall>n \<in> set (la_Resources a). view s n = {#})"
    and lock_refused: "inv s \<Longrightarrow> nl_Lock nl env s a = (s', False, e) \<Longrightarrow> inv s' \<and> view s' = view s"
    and rlock_granted: "inv s \<Longrightarrow> nl_RLock nl env s a = (s', True, e) \<Longrightarrow>
      inv s' \<and> (\<exists>n. la_Resources a = [n]
        \<and> view s' = (view s)(n := add_mset (la_UID a, la_Owner a, False) (view s n)))"
    and rlock_refused: "inv s \<Longrightarrow> nl_RLock nl env s a = (s', False, e) \<Longrightarrow> inv s' \<and> view s' = view s"
    and unlock_held: "inv s \<Longrightarrow> la_Owner a \<noteq> [] \<Longrightarrow>
      \<forall>n \<in> set (la_Resources a). view s n = {#(la_UID a, la_Owner a, True)#} \<Longrightarrow>
      nl_Unlock nl env s a = (s', r, e) \<Longrightarrow>
      inv s' \<and> (e = None \<and> view s' = (\<lambda>n. if n \<in> set (la_Resources a) then {#} else view s n)
        \<or> e \<noteq> None \<and> view s' = view s)"
    and runlock_held: "inv s \<Longrightarrow> la_Owner a \<noteq> [] \<Longrightarrow> la_Resources a = [n] \<Longrightarrow>
      (la_UID a, la_Owner a, False) \<in># view s n \<Longrightarrow> nl_RUnlock nl env s a = (s', r, e) \<Longrightarrow>
      inv s' \<and> (e = None \<and> view s' = (view s)(n := view s n - {#(la_UID a, la_Owner a, False)#})
        \<or> e \<noteq> None \<and> view s' = view s)"
    and unlock_bound: "inv s \<Longrightarrow> nl_Unlock nl env s a = (s', r, e) \<Longrightarrow>
      inv s' \<and> (\<forall>n h. count (view s n) h \<le> count (view s' n) h + (if fst h = la_UID a then 1 else 0))"
    and runlock_bound: "inv s \<Longrightarrow> nl_RUnlock nl env s a = (s', r, e) \<Longrightarrow>
      inv s' \<and> (\<forall>n h. count (view s n) h \<le> count (view s' n) h + (if fst h = la_UID a then 1 else 0))"
    and refresh_view: "inv s \<Longrightarrow> nl_Refresh nl env s a = (s', r, e) \<Longrightarrow> inv s' \<and> view s' = view s"

end
