(* ===== verification/Local_Locker.thy ===== *)
theory Local_Locker
  imports Net_Locker
begin

text \<open>
  The lock server of one node (\<open>cmd/local-locker.go\<close>): two maps under a mutex, the entries per
  resource and the resource per (request id, index). Every operation is one function of the
  state; a call that waits for the mutex is one that runs later, so an execution is a sequence of operations
  (\<open>locker_step\<close>). The last section shows what clients rely on.
\<close>

section \<open>State\<close>

record lockRequesterInfo =
  lr_Name :: string
  lr_Writer :: bool
  lr_UID :: string
  lr_Timestamp :: int
  lr_TimeLastRefresh :: int
  lr_Source :: string
  lr_Group :: bool
  lr_Owner :: string
  lr_Quorum :: int
  lr_idx :: nat

record localLocker =
  ll_waitMutex :: int
  ll_lockMap :: "(string \<times> lockRequesterInfo list) list"
  ll_lockUID :: "(string \<times> string) list"
  ll_readers :: int
  ll_writers :: int
  ll_lastCleanup :: "gotime option"
  ll_locksOverloaded :: int

definition newLocker :: localLocker where
  "newLocker = \<lparr>ll_waitMutex = 0, ll_lockMap = [], ll_lockUID = [], ll_readers = 0,
     ll_writers = 0, ll_lastCleanup = None, ll_locksOverloaded = 0\<rparr>"

definition maxDeleteList :: nat where "maxDeleteList = 1000"
definition lockMutexWaitLimit :: int where "lockMutexWaitLimit = 1000"

section \<open>Operations\<close>

definition isWriteLock :: "lockRequesterInfo list \<Rightarrow> bool" where
  "isWriteLock lri \<longleftrightarrow> length lri = 1 \<and> lr_Writer (lri ! 0)"

definition canTakeLock :: "localLocker \<Rightarrow> string list \<Rightarrow> bool" where
  "canTakeLock l resources = (\<not> list_ex (\<lambda>r. map_of (ll_lockMap l) r \<noteq> None) resources)"

definition formatUUID :: "string \<Rightarrow> nat \<Rightarrow> string" where
  "formatUUID s idx = s @ digits idx"

definition lri_of :: "LockArgs \<Rightarrow> bool \<Rightarrow> int \<Rightarrow> int \<Rightarrow> bool \<Rightarrow> string \<Rightarrow> nat \<Rightarrow> lockRequesterInfo" where
  "lri_of args writer quorum now grp resource i =
     \<lparr>lr_Name = resource, lr_Writer = writer, lr_UID = la_UID args, lr_Timestamp = now,
      lr_TimeLastRefresh = now, lr_Source = la_Source args, lr_Group = grp,
      lr_Owner = la_Owner args, lr_Quorum = quorum, lr_idx = i\<rparr>"

fun lock_loop :: "LockArgs \<Rightarrow> int \<Rightarrow> int \<Rightarrow> nat \<Rightarrow> string list \<Rightarrow> localLocker \<Rightarrow> localLocker" where
  "lock_loop args quorum now i [] l = l"
| "lock_loop args quorum now i (resource # rs) l =
     lock_loop args quorum now (i + 1) rs
       (l\<lparr>ll_lockMap := AList.update resource
            [lri_of args True quorum now (length (la_Resources args) > 1) resource i] (ll_lockMap l),
          ll_lockUID := AList.update (formatUUID (la_UID args) i) resource (ll_lockUID l)\<rparr>)"

text \<open>\<open>ctxErr\<close> is the error of the request's context, \<open>now\<close> the clock.\<close>

definition Lock :: "gerror option \<Rightarrow> int \<Rightarrow> localLocker \<Rightarrow> LockArgs \<Rightarrow> localLocker \<times> bool \<times> gerror option" where
  "Lock ctxErr now l args =
     (if length (la_Resources args) > maxDeleteList
        then (l, False, Some (OtherErr ''internal error: localLocker.Lock called with too many resources''))
      else if ll_waitMutex l > lockMutexWaitLimit
        then (l\<lparr>ll_locksOverloaded := ll_locksOverloaded l + 1\<rparr>, False, None)
      else if ctxErr \<noteq> None then (l, False, ctxErr)
      else if \<not> canTakeLock l (la_Resources args) then (l, False, None)
      else case la_Quorum args of
             None \<Rightarrow> if la_Resources args = [] then (l, True, None)
                     else (l, False, Some (GoPanic ''nil pointer dereference''))
           | Some quorum \<Rightarrow> (lock_loop args quorum now 0 (la_Resources args) l, True, None))"

fun find_entry :: "string \<Rightarrow> string \<Rightarrow> nat \<Rightarrow> lockRequesterInfo list \<Rightarrow> nat option" where
  "find_entry uid owner index [] = None"
| "find_entry uid owner index (entry # es) =
     (if lr_UID entry = uid \<and> (owner = [] \<or> lr_Owner entry = owner) then Some index
      else find_entry uid owner (index + 1) es)"

definition removeEntry ::
  "string \<Rightarrow> string \<Rightarrow> string \<Rightarrow> lockRequesterInfo list \<Rightarrow> localLocker \<Rightarrow> localLocker \<times> bool" where
  "removeEntry name uid owner lri l =
     (case find_entry uid owner 0 lri of
        None \<Rightarrow> (l, False)
      | Some i \<Rightarrow>
          let l1 = (if length lri = 1 then l\<lparr>ll_lockMap := AList.delete name (ll_lockMap l)\<rparr>
                    else l\<lparr>ll_lockMap := AList.update name (take i lri @ drop (i + 1) lri) (ll_lockMap l)\<rparr>)
          in (l1\<lparr>ll_lockUID := AList.delete (formatUUID uid (lr_idx (lri ! i))) (ll_lockUID l1)\<rparr>, True))"

fun unlock_loop ::
  "LockArgs \<Rightarrow> string list \<Rightarrow> localLocker \<Rightarrow> bool \<Rightarrow> gerror option \<Rightarrow> localLocker \<times> bool \<times> gerror option" where
  "unlock_loop args [] l reply err = (l, reply, err)"
| "unlock_loop args (resource # rs) l reply err =
     (case map_of (ll_lockMap l) resource of
        None \<Rightarrow> unlock_loop args rs l reply err
      | Some lri \<Rightarrow>
          if \<not> isWriteLock lri
          then unlock_loop args rs l reply (Some (OtherErr (''unlock attempted on a read locked entity: '' @ resource)))
          else case removeEntry resource (la_UID args) (la_Owner args) lri l of
                 (l', removed) \<Rightarrow> unlock_loop args rs l' (removed \<or> reply) err)"

definition Unlock :: "localLocker \<Rightarrow> LockArgs \<Rightarrow> localLocker \<times> bool \<times> gerror option" where
  "Unlock l args =
     (if length (la_Resources args) > maxDeleteList
        then (l, False, Some (OtherErr ''internal error: localLocker.Unlock called with too many resources''))
      else unlock_loop args (la_Resources args) l False None)"

definition RLock :: "gerror option \<Rightarrow> int \<Rightarrow> localLocker \<Rightarrow> LockArgs \<Rightarrow> localLocker \<times> bool \<times> gerror option" where
  "RLock ctxErr now l args =
     (if length (la_Resources args) \<noteq> 1
        then (l, False, Some (OtherErr ''internal error: localLocker.RLock called with more than one resource''))
      else if ll_waitMutex l > lockMutexWaitLimit
        then (l\<lparr>ll_locksOverloaded := ll_locksOverloaded l + 1\<rparr>, False, None)
      else if ctxErr \<noteq> None then (l, False, ctxErr)
      else case la_Quorum args of
             None \<Rightarrow> (l, False, Some (GoPanic ''nil pointer dereference''))
           | Some quorum \<Rightarrow>
               let resource = la_Resources args ! 0;
                   lrInfo = lri_of args False quorum now False resource 0
               in case map_of (ll_lockMap l) resource of
                    Some lri \<Rightarrow>
                      if \<not> isWriteLock lri
                      then (l\<lparr>ll_lockMap := AList.update resource (lri @ [lrInfo]) (ll_lockMap l),
                               ll_lockUID := AList.update (formatUUID (la_UID args) 0) resource (ll_lockUID l)\<rparr>,
                            True, None)
                      else (l, False, None)
                  | None \<Rightarrow>
                      (l\<lparr>ll_lockMap := AList.update resource [lrInfo] (ll_lockMap l),
                          ll_lockUID := AList.update (formatUUID (la_UID args) 0) resource (ll_lockUID l)\<rparr>,
                       True, None))"

definition RUnlock :: "localLocker \<Rightarrow> LockArgs \<Rightarrow> localLocker \<times> bool \<times> gerror option" where
  "RUnlock l args =
     (if length (la_Resources args) > 1
        then (l, False, Some (OtherErr ''internal error: localLocker.RUnlock called with more than one resource''))
      else case la_Resources args of
             [] \<Rightarrow> (l, False, Some (GoPanic ''index out of range''))
           | resource # rs \<Rightarrow>
               (case map_of (ll_lockMap l) resource of
                  None \<Rightarrow> (l, True, None)
                | Some lri \<Rightarrow>
                    if isWriteLock lri
                    then (l, False, Some (OtherErr (''RUnlock attempted on a write locked entity: '' @ resource)))
                    else (fst (removeEntry resource (la_UID args) (la_Owner args) lri l), True, None)))"

text \<open>\<open>ForceUnlock\<close> without an id: every entry of the resources, by the ids collected beforehand.\<close>

fun drop_uids_from :: "string \<Rightarrow> nat list \<Rightarrow> localLocker \<Rightarrow> localLocker" where
  "drop_uids_from uid [] l = l"
| "drop_uids_from uid (idx # is) l =
     (if map_of (ll_lockUID l) (formatUUID uid idx) = None then l
      else drop_uids_from uid is (l\<lparr>ll_lockUID := AList.delete (formatUUID uid idx) (ll_lockUID l)\<rparr>))"

fun force_uids :: "string \<Rightarrow> string list \<Rightarrow> localLocker \<Rightarrow> localLocker" where
  "force_uids resource [] l = l"
| "force_uids resource (uid # uids) l =
     (case map_of (ll_lockMap l) resource of
        None \<Rightarrow> force_uids resource uids (drop_uids_from uid [0..<maxDeleteList] l)
      | Some lris \<Rightarrow> force_uids resource uids (fst (removeEntry resource uid [] lris l)))"

fun force_resources :: "string list \<Rightarrow> localLocker \<Rightarrow> localLocker" where
  "force_resources [] l = l"
| "force_resources (resource # rs) l =
     (case map_of (ll_lockMap l) resource of
        None \<Rightarrow> force_resources rs l
      | Some lris \<Rightarrow> force_resources rs (force_uids resource (map lr_UID lris) l))"

text \<open>How many entries of \<open>lockUID\<close> the loops over the indices of one id may still meet.\<close>

definition uid_keys_left :: "string \<Rightarrow> nat \<Rightarrow> localLocker \<Rightarrow> nat" where
  "uid_keys_left uid idx l = card {k \<in> set (map fst (ll_lockUID l)). \<exists>j \<ge> idx. k = formatUUID uid j}"

lemma formatUUID_inject [simp]: "formatUUID u i = formatUUID u j \<longleftrightarrow> i = j"
  by (simp add: formatUUID_def)

lemma uid_keys_left_less:
  assumes "map_of (ll_lockUID l) (formatUUID uid idx) = Some r"
    and "set (map fst (ll_lockUID l')) \<subseteq> set (map fst (ll_lockUID l))"
  shows "uid_keys_left uid (Suc idx) l' < uid_keys_left uid idx l"
  unfolding uid_keys_left_def
proof (rule psubset_card_mono)
  have "formatUUID uid idx \<in> set (map fst (ll_lockUID l))"
    using assms(1) by (metis map_of_eq_None_iff option.discI set_map)
  then have "formatUUID uid idx \<in> {k \<in> set (map fst (ll_lockUID l)). \<exists>j\<ge>idx. k = formatUUID uid j}"
    by auto
  moreover have "formatUUID uid idx \<notin> {k \<in> set (map fst (ll_lockUID l')). \<exists>j\<ge>Suc idx. k = formatUUID uid j}"
    by auto
  moreover have "{k \<in> set (map fst (ll_lockUID l')). \<exists>j\<ge>Suc idx. k = formatUUID uid j}
      \<subseteq> {k \<in> set (map fst (ll_lockUID l)). \<exists>j\<ge>idx. k = formatUUID uid j}"
    using assms(2) by (auto intro: Suc_leD)
  ultimately show "{k \<in> set (map fst (ll_lockUID l')). \<exists>j\<ge>Suc idx. k = formatUUID uid j}
      \<subset> {k \<in> set (map fst (ll_lockUID l)). \<exists>j\<ge>idx. k = formatUUID uid j}"
    by blast
qed simp

lemma removeEntry_uid_keys:
  "set (map fst (ll_lockUID (fst (removeEntry name uid owner lri l)))) \<subseteq> set (map fst (ll_lockUID l))"
  by (auto simp: removeEntry_def Let_def AList.delete_eq split: option.split)

text \<open>With an id: the resources recorded under its indices, until an index is not recorded.\<close>

function force_loop :: "string \<Rightarrow> nat \<Rightarrow> localLocker \<Rightarrow> localLocker \<times> bool" where
  "force_loop uid idx l =
     (case map_of (ll_lockUID l) (formatUUID uid idx) of
        None \<Rightarrow> (l, idx > 0)
      | Some resource \<Rightarrow>
          (case map_of (ll_lockMap l) resource of
             None \<Rightarrow> force_loop uid (Suc idx)
               (l\<lparr>ll_lockUID := AList.delete (formatUUID uid idx) (ll_lockUID l)\<rparr>)
           | Some lris \<Rightarrow> force_loop uid (Suc idx) (fst (removeEntry resource uid [] lris l))))"
  by pat_completeness auto
termination
proof (relation "measure (\<lambda>(uid, idx, l). uid_keys_left uid idx l)", goal_cases)
  case (2 uid idx l x)
  then show ?case by (auto intro!: uid_keys_left_less simp: AList.delete_eq)
next
  case (3 uid idx l x y)
  then show ?case by (auto intro!: uid_keys_left_less dest: subsetD[OF removeEntry_uid_keys])
qed simp

declare force_loop.simps [simp del]

definition ForceUnlock :: "gerror option \<Rightarrow> localLocker \<Rightarrow> LockArgs \<Rightarrow> localLocker \<times> bool \<times> gerror option" where
  "ForceUnlock ctxErr l args =
     (if ctxErr \<noteq> None then (l, False, ctxErr)
      else if la_UID args = [] then (force_resources (la_Resources args) l, True, None)
      else case force_loop (la_UID args) 0 l of (l', reply) \<Rightarrow> (l', reply, None))"

definition touch :: "string \<Rightarrow> int \<Rightarrow> lockRequesterInfo \<Rightarrow> lockRequesterInfo" where
  "touch uid now e = (if lr_UID e = uid then e\<lparr>lr_TimeLastRefresh := now\<rparr> else e)"

function refresh_loop :: "string \<Rightarrow> int \<Rightarrow> nat \<Rightarrow> localLocker \<Rightarrow> localLocker \<times> bool" where
  "refresh_loop uid now idx l =
     (case map_of (ll_lockUID l) (formatUUID uid idx) of
        None \<Rightarrow> (l, idx > 0)
      | Some resource \<Rightarrow>
          (case map_of (ll_lockMap l) resource of
             None \<Rightarrow> (l\<lparr>ll_lockUID := AList.delete (formatUUID uid idx) (ll_lockUID l)\<rparr>, idx > 0)
           | Some lris \<Rightarrow> refresh_loop uid now (Suc idx)
               (l\<lparr>ll_lockMap := AList.update resource (map (touch uid now) lris) (ll_lockMap l)\<rparr>)))"
  by pat_completeness auto
termination
  by (relation "measure (\<lambda>(uid, now, idx, l). uid_keys_left uid idx l)") (auto intro!: uid_keys_left_less)

declare refresh_loop.simps [simp del]

definition Refresh :: "gerror option \<Rightarrow> int \<Rightarrow> localLocker \<Rightarrow> LockArgs \<Rightarrow> localLocker \<times> bool \<times> gerror option" where
  "Refresh ctxErr now l args =
     (if ctxErr \<noteq> None then (l, False, ctxErr)
      else case refresh_loop (la_UID args) now 0 l of (l', refreshed) \<Rightarrow> (l', refreshed, None))"

text \<open>\<open>expireOldLocks\<close>, one resource: \<open>pre\<close> are the entries already kept. The result tells what is
  left, or that the resource was deleted by the name of its last entry.\<close>

fun expire_scan ::
  "int \<Rightarrow> int \<Rightarrow> lockRequesterInfo list \<Rightarrow> lockRequesterInfo list \<Rightarrow> bool \<Rightarrow> localLocker \<Rightarrow> int \<Rightarrow> int
   \<Rightarrow> lockRequesterInfo list \<times> bool \<times> localLocker \<times> int \<times> int" where
  "expire_scan interval now pre [] modified l readers writers = (pre, modified, l, readers, writers)"
| "expire_scan interval now pre (lri # rest) modified l readers writers =
     (if now - lr_TimeLastRefresh lri > interval then
        (let l1 = l\<lparr>ll_lockUID := AList.delete (formatUUID (lr_UID lri) (lr_idx lri)) (ll_lockUID l)\<rparr>
         in if length (pre @ lri # rest) = 1
            then (pre, False, l1\<lparr>ll_lockMap := AList.delete (lr_Name lri) (ll_lockMap l1)\<rparr>, readers, writers)
            else expire_scan interval now pre rest True l1 readers writers)
      else if lr_Writer lri then expire_scan interval now (pre @ [lri]) rest modified l readers (writers + 1)
      else expire_scan interval now (pre @ [lri]) rest modified l (readers + 1) writers)"

fun expire_keys :: "int \<Rightarrow> int \<Rightarrow> string list \<Rightarrow> localLocker \<Rightarrow> int \<Rightarrow> int \<Rightarrow> localLocker \<times> int \<times> int" where
  "expire_keys interval now [] l readers writers = (l, readers, writers)"
| "expire_keys interval now (k # ks) l readers writers =
     (case map_of (ll_lockMap l) k of
        None \<Rightarrow> expire_keys interval now ks l readers writers
      | Some lris \<Rightarrow>
          (case expire_scan interval now [] lris False l readers writers of
             (lris', modified, l', readers', writers') \<Rightarrow>
               expire_keys interval now ks
                 (if modified then l'\<lparr>ll_lockMap := AList.update k lris' (ll_lockMap l')\<rparr> else l')
                 readers' writers'))"

definition expireOldLocks :: "(string list \<Rightarrow> string list) \<Rightarrow> int \<Rightarrow> localLocker \<Rightarrow> int \<Rightarrow> localLocker" where
  "expireOldLocks ord now l interval =
     (case expire_keys interval now (ord (map fst (ll_lockMap l))) l 0 0 of
        (l', readers, writers) \<Rightarrow>
          l'\<lparr>ll_lastCleanup := Some now, ll_readers := readers, ll_writers := writers\<rparr>)"

definition DupLockMap :: "localLocker \<Rightarrow> localLocker \<times> (string \<times> lockRequesterInfo list) list" where
  "DupLockMap l =
     (let kept = filter (\<lambda>(k, v). v \<noteq> []) (ll_lockMap l) in (l\<lparr>ll_lockMap := kept\<rparr>, kept))"

record lockStats =
  st_Total :: int
  st_Reads :: int
  st_Writes :: int
  st_LockQueue :: int
  st_LastCleanup :: "gotime option"

definition locker_stats :: "localLocker \<Rightarrow> lockStats" where
  "locker_stats l = \<lparr>st_Total = int (length (ll_lockMap l)), st_Reads = ll_readers l,
     st_Writes = ll_writers l, st_LockQueue = ll_waitMutex l, st_LastCleanup = ll_lastCleanup l\<rparr>"

section \<open>The invariant\<close>

text \<open>The entries of a resource: never an empty list, each under its own name, a writer alone.\<close>

definition entries_ok :: "string \<Rightarrow> lockRequesterInfo list \<Rightarrow> bool" where
  "entries_ok r es \<longleftrightarrow> es \<noteq> [] \<and> (\<forall>e \<in> set es. lr_Name e = r) \<and> (\<forall>e \<in> set es. lr_Writer e \<longrightarrow> es = [e])"

definition map_inv :: "(string \<times> lockRequesterInfo list) list \<Rightarrow> bool" where
  "map_inv m \<longleftrightarrow> distinct (map fst m) \<and> (\<forall>r es. map_of m r = Some es \<longrightarrow> entries_ok r es)"

definition locker_inv :: "localLocker \<Rightarrow> bool" where
  "locker_inv l \<longleftrightarrow> map_inv (ll_lockMap l)"

definition held :: "localLocker \<Rightarrow> string \<Rightarrow> lockRequesterInfo list" where
  "held l r = (case map_of (ll_lockMap l) r of None \<Rightarrow> [] | Some es \<Rightarrow> es)"

lemma map_inv_update: "map_inv m \<Longrightarrow> entries_ok r es \<Longrightarrow> map_inv (AList.update r es m)"
  by (auto simp: map_inv_def distinct_update update_conv split: if_splits)

lemma map_inv_delete: "map_inv m \<Longrightarrow> map_inv (AList.delete r m)"
  by (auto simp: map_inv_def distinct_delete delete_conv split: if_splits)

lemma map_inv_entries: "map_inv m \<Longrightarrow> map_of m r = Some es \<Longrightarrow> entries_ok r es"
  by (simp add: map_inv_def)

lemma entries_ok_single: "lr_Name e = r \<Longrightarrow> entries_ok r [e]"
  by (simp add: entries_ok_def)

lemma entries_ok_remove:
  "entries_ok r es \<Longrightarrow> length es \<noteq> 1 \<Longrightarrow> i < length es \<Longrightarrow> entries_ok r (take i es @ drop (Suc i) es)"
proof -
  assume a: "entries_ok r es" "length es \<noteq> 1" "i < length es"
  then have nw: "\<forall>e \<in> set es. \<not> lr_Writer e" by (auto simp: entries_ok_def)
  have "2 \<le> length es" using a by (cases es) (auto simp: Suc_le_eq)
  then have "take i es @ drop (Suc i) es \<noteq> []" using a(3) by (cases i) auto
  moreover have "set (take i es @ drop (Suc i) es) \<subseteq> set es"
    by (auto dest: in_set_takeD in_set_dropD)
  ultimately show ?thesis using a(1) nw unfolding entries_ok_def by blast
qed

lemma find_entry_lt:
  "find_entry uid owner index es = Some i \<Longrightarrow> index \<le> i \<and> i < index + length es
     \<and> lr_UID (es ! (i - index)) = uid \<and> (owner = [] \<or> lr_Owner (es ! (i - index)) = owner)"
  by (induction uid owner index es rule: find_entry.induct) (auto simp: nth_Cons' split: if_splits)

lemma find_entry_None:
  "find_entry uid owner index es = None \<longleftrightarrow> \<not> (\<exists>e \<in> set es. lr_UID e = uid \<and> (owner = [] \<or> lr_Owner e = owner))"
  by (induction uid owner index es rule: find_entry.induct) auto

lemma removeEntry_inv:
  assumes "locker_inv l" and "map_of (ll_lockMap l) name = Some lri"
  shows "locker_inv (fst (removeEntry name uid owner lri l))"
proof (cases "find_entry uid owner 0 lri")
  case None
  then show ?thesis using assms by (simp add: removeEntry_def)
next
  case (Some i)
  then have "i < length lri" using find_entry_lt by fastforce
  then have "length lri \<noteq> 1 \<Longrightarrow> entries_ok name (take i lri @ drop (Suc i) lri)"
    using assms map_inv_entries entries_ok_remove by (auto simp: locker_inv_def)
  then show ?thesis
    using assms Some by (auto simp: removeEntry_def Let_def locker_inv_def map_inv_update map_inv_delete)
qed

lemma locker_inv_update [simp]:
  "locker_inv (l\<lparr>ll_lockUID := x\<rparr>) = locker_inv l"
  "locker_inv (l\<lparr>ll_locksOverloaded := c\<rparr>) = locker_inv l"
  "locker_inv (l\<lparr>ll_lastCleanup := t\<rparr>) = locker_inv l"
  "locker_inv (l\<lparr>ll_readers := c\<rparr>) = locker_inv l"
  "locker_inv (l\<lparr>ll_writers := c\<rparr>) = locker_inv l"
  "locker_inv (l\<lparr>ll_waitMutex := c\<rparr>) = locker_inv l"
  "locker_inv (l\<lparr>ll_lockMap := m\<rparr>) = map_inv m"
  by (simp_all add: locker_inv_def)

lemma lri_of_simps [simp]:
  "lr_Name (lri_of args w q now grp r i) = r" "lr_Writer (lri_of args w q now grp r i) = w"
  "lr_UID (lri_of args w q now grp r i) = la_UID args" "lr_Owner (lri_of args w q now grp r i) = la_Owner args"
  "lr_idx (lri_of args w q now grp r i) = i" "lr_TimeLastRefresh (lri_of args w q now grp r i) = now"
  by (simp_all add: lri_of_def)

lemma lock_loop_inv: "locker_inv l \<Longrightarrow> locker_inv (lock_loop args q now i rs l)"
proof (induction args q now i rs l rule: lock_loop.induct)
  case (2 args quorum now i resource rs l)
  have "map_inv (AList.update resource [lri_of args True quorum now (length (la_Resources args) > 1) resource i] (ll_lockMap l))"
    using 2(2) by (intro map_inv_update entries_ok_single) (simp_all add: locker_inv_def)
  then show ?case using 2(1) by simp
qed simp

lemma Lock_inv: "locker_inv l \<Longrightarrow> locker_inv (fst (Lock ctxErr now l args))"
  by (simp add: Lock_def lock_loop_inv split: option.split)

lemma unlock_loop_inv: "locker_inv l \<Longrightarrow> locker_inv (fst (unlock_loop args rs l reply err))"
proof (induction args rs l reply err rule: unlock_loop.induct)
  case (2 args resource rs l reply err)
  show ?case
  proof (cases "map_of (ll_lockMap l) resource")
    case None
    then show ?thesis using 2 by simp
  next
    case (Some lri)
    obtain l' removed where r: "removeEntry resource (la_UID args) (la_Owner args) lri l = (l', removed)" by fastforce
    then have "locker_inv l'" using removeEntry_inv[OF 2(4) Some, of "la_UID args" "la_Owner args"] by simp
    then show ?thesis using 2 Some r by simp
  qed
qed simp

lemma Unlock_inv: "locker_inv l \<Longrightarrow> locker_inv (fst (Unlock l args))"
  by (simp add: Unlock_def unlock_loop_inv)

lemma entries_ok_no_writer: "entries_ok r es \<Longrightarrow> \<not> isWriteLock es \<Longrightarrow> e \<in> set es \<Longrightarrow> \<not> lr_Writer e"
proof
  assume "entries_ok r es" "\<not> isWriteLock es" "e \<in> set es" "lr_Writer e"
  moreover from this have "es = [e]" unfolding entries_ok_def by blast
  ultimately show False by (simp add: isWriteLock_def)
qed

lemma RLock_inv:
  assumes "locker_inv l"
  shows "locker_inv (fst (RLock ctxErr now l args))"
proof -
  have m: "map_inv (ll_lockMap l)" using assms by (simp add: locker_inv_def)
  have a: "map_inv (AList.update r (es @ [e]) (ll_lockMap l))"
    if "map_of (ll_lockMap l) r = Some es" "\<not> isWriteLock es" "lr_Name e = r" "\<not> lr_Writer e" for r es e
  proof -
    have "entries_ok r es" using map_inv_entries[OF m that(1)] .
    then have nm: "\<forall>x \<in> set es. lr_Name x = r" and nw: "\<forall>x \<in> set es. \<not> lr_Writer x"
      using entries_ok_no_writer[OF _ that(2)] by (auto simp only: entries_ok_def)
    have "entries_ok r (es @ [e])" unfolding entries_ok_def using nm nw that(3,4) by simp
    then show ?thesis by (rule map_inv_update[OF m])
  qed
  have b: "map_inv (AList.update r [e] (ll_lockMap l))" if "lr_Name e = r" for r e
    using that m by (intro map_inv_update entries_ok_single)
  show ?thesis
    using assms by (simp add: RLock_def Let_def a b split: option.split)
qed

lemma RUnlock_inv: "locker_inv l \<Longrightarrow> locker_inv (fst (RUnlock l args))"
  by (auto simp: RUnlock_def removeEntry_inv split: list.splits option.splits)

lemma drop_uids_from_inv [simp]: "locker_inv (drop_uids_from uid is l) = locker_inv l"
  by (induction uid "is" l rule: drop_uids_from.induct) auto

lemma force_uids_inv: "locker_inv l \<Longrightarrow> locker_inv (force_uids r uids l)"
  by (induction r uids l rule: force_uids.induct) (auto split: option.splits intro: removeEntry_inv)

lemma force_resources_inv: "locker_inv l \<Longrightarrow> locker_inv (force_resources rs l)"
  by (induction rs l rule: force_resources.induct) (auto split: option.splits intro: force_uids_inv)

lemma force_loop_inv: "locker_inv l \<Longrightarrow> locker_inv (fst (force_loop uid idx l))"
proof (induction uid idx l rule: force_loop.induct)
  case (1 uid idx l)
  then show ?case
    by (subst force_loop.simps) (auto split: option.splits intro: removeEntry_inv)
qed

lemma ForceUnlock_inv: "locker_inv l \<Longrightarrow> locker_inv (fst (ForceUnlock ctxErr l args))"
  using force_loop_inv[of l "la_UID args" 0]
  by (auto simp: ForceUnlock_def force_resources_inv split: prod.splits)

lemma entries_ok_touch: "entries_ok r es \<Longrightarrow> entries_ok r (map (touch uid now) es)"
  by (auto simp: entries_ok_def touch_def)

lemma refresh_loop_inv: "locker_inv l \<Longrightarrow> locker_inv (fst (refresh_loop uid now idx l))"
proof (induction uid now idx l rule: refresh_loop.induct)
  case (1 uid now idx l)
  show ?case
  proof (cases "map_of (ll_lockUID l) (formatUUID uid idx)")
    case None
    then show ?thesis using 1 by (subst refresh_loop.simps) simp
  next
    case (Some resource)
    show ?thesis
    proof (cases "map_of (ll_lockMap l) resource")
      case None
      then show ?thesis using 1 Some by (subst refresh_loop.simps) simp
    next
      case (Some lris)
      then have "locker_inv (l\<lparr>ll_lockMap := AList.update resource (map (touch uid now) lris) (ll_lockMap l)\<rparr>)"
        using 1(2) by (auto simp: locker_inv_def intro!: map_inv_update entries_ok_touch dest: map_inv_entries)
      then show ?thesis
        using 1(1)[OF \<open>map_of (ll_lockUID l) _ = Some resource\<close> Some] \<open>map_of (ll_lockUID l) _ = Some resource\<close> Some
        by (subst refresh_loop.simps) simp
    qed
  qed
qed

lemma Refresh_inv: "locker_inv l \<Longrightarrow> locker_inv (fst (Refresh ctxErr now l args))"
  using refresh_loop_inv[of l "la_UID args" now 0] by (auto simp: Refresh_def split: prod.splits)

subsection \<open>Expiry\<close>

abbreviation still_valid :: "int \<Rightarrow> int \<Rightarrow> lockRequesterInfo \<Rightarrow> bool" where
  "still_valid interval now e \<equiv> now - lr_TimeLastRefresh e \<le> interval"

lemma expire_scan_result:
  assumes "expire_scan interval now pre rest modified l readers writers = (es', modified', l', readers', writers')"
    and "\<forall>e \<in> set rest. lr_Name e = r"
  defines "kept \<equiv> pre @ filter (still_valid interval now) rest"
  shows "if rest \<noteq> [] \<and> kept = []
    then \<not> modified' \<and> ll_lockMap l' = AList.delete r (ll_lockMap l)
    else es' = kept \<and> modified' = (modified \<or> kept \<noteq> pre @ rest) \<and> ll_lockMap l' = ll_lockMap l"
  using assms(1,2) unfolding kept_def
proof (induction interval now pre rest modified l readers writers rule: expire_scan.induct)
  case (1 interval now pre modified l readers writers)
  then show ?case by simp
next
  case (2 interval now pre lri rest modified l readers writers)
  let ?f = "filter (still_valid interval now) rest"
  have ne: "?f \<noteq> lri # rest" "lri # rest \<noteq> ?f"
    using length_filter_le[of "still_valid interval now" rest] by (metis impossible_Cons)+
  show ?case
  proof (cases "now - lr_TimeLastRefresh lri > interval")
    case True
    show ?thesis
    proof (cases "length (pre @ lri # rest) = 1")
      case t: True
      then show ?thesis using 2(4,5) True by auto
    next
      case f: False
      then have "pre \<noteq> [] \<or> rest \<noteq> []" by simp
      moreover have "\<not> still_valid interval now lri" using True by simp
      moreover note IH = 2(1)[OF True refl f]
      ultimately show ?thesis using 2(4,5) True f ne by (auto simp: Let_def split: if_splits)
    qed
  next
    case False
    then have "still_valid interval now lri" by simp
    then show ?thesis
      using 2(2)[OF False] 2(3)[OF False] 2(4,5) False by (cases "lr_Writer lri") (auto split: if_splits)
  qed
qed

lemma held_update: "map_of (ll_lockMap l') = map_of (AList.update k es (ll_lockMap l)) \<Longrightarrow>
   held l' r = (if r = k then es else held l r)"
  by (simp add: held_def update_conv)

lemma entries_ok_filter:
  assumes "entries_ok r es" and "filter P es \<noteq> []"
  shows "entries_ok r (filter P es)"
proof -
  have "filter P es = [e]" if "e \<in> set (filter P es)" "lr_Writer e" for e
  proof -
    have "es = [e]" using that assms(1) unfolding entries_ok_def by (metis filter_is_subset subsetD)
    then show ?thesis using assms(2) by (metis filter.simps)
  qed
  moreover have "\<forall>e \<in> set (filter P es). lr_Name e = r" using assms(1) by (simp add: entries_ok_def)
  ultimately show ?thesis unfolding entries_ok_def using assms(2) by blast
qed

lemma expire_keys_held:
  assumes "expire_keys interval now ks l readers writers = (l', readers', writers')"
    and "locker_inv l" and "distinct ks"
  shows "locker_inv l' \<and> (\<forall>r. held l' r =
    (if r \<in> set ks then filter (still_valid interval now) (held l r) else held l r))"
  using assms
proof (induction ks arbitrary: l readers writers)
  case Nil
  then show ?case by simp
next
  case (Cons k ks)
  show ?case
  proof (cases "map_of (ll_lockMap l) k")
    case None
    then show ?thesis using Cons by (auto simp: held_def)
  next
    case (Some es)
    obtain es1 m1 l1 r1 w1 where sc: "expire_scan interval now [] es False l readers writers = (es1, m1, l1, r1, w1)"
      using prod_cases5 by blast
    let ?l2 = "if m1 then l1\<lparr>ll_lockMap := AList.update k es1 (ll_lockMap l1)\<rparr> else l1"
    have ok: "entries_ok k es" and inv: "map_inv (ll_lockMap l)"
      using Some Cons.prems(2) map_inv_entries by (auto simp: locker_inv_def)
    then have names: "\<forall>e \<in> set es. lr_Name e = k" and "es \<noteq> []" by (auto simp: entries_ok_def)
    let ?kept = "filter (still_valid interval now) es"
    have res: "if ?kept = [] then \<not> m1 \<and> ll_lockMap l1 = AList.delete k (ll_lockMap l)
        else es1 = ?kept \<and> m1 = (?kept \<noteq> es) \<and> ll_lockMap l1 = ll_lockMap l"
      using expire_scan_result[OF sc names] \<open>es \<noteq> []\<close> by (simp split: if_splits)
    have "locker_inv ?l2 \<and> (\<forall>r. held ?l2 r = (if r = k then ?kept else held l r))"
    proof (cases "?kept = []")
      case True
      then have "\<not> m1" "ll_lockMap l1 = AList.delete k (ll_lockMap l)" using res by auto
      then show ?thesis
        using inv True by (auto simp: locker_inv_def held_def delete_conv intro: map_inv_delete)
    next
      case False
      then have "es1 = ?kept" "m1 = (?kept \<noteq> es)" "ll_lockMap l1 = ll_lockMap l" using res by auto
      then show ?thesis
        using inv False Some map_inv_update[OF inv entries_ok_filter[OF ok False]]
        by (auto simp: locker_inv_def held_def update_conv)
    qed
    then have i2: "locker_inv ?l2" and h2: "\<And>r. held ?l2 r = (if r = k then ?kept else held l r)" by auto
    have step: "expire_keys interval now ks ?l2 r1 w1 = (l', readers', writers')"
      using Cons.prems(1) Some sc by simp
    have "distinct ks" "k \<notin> set ks" using Cons.prems(3) by auto
    then show ?thesis using Cons.IH[OF step i2] h2 Some by (auto simp: held_def)
  qed
qed

lemma expireOldLocks_held:
  assumes "range_order ord" and "locker_inv l"
  shows "locker_inv (expireOldLocks ord now l interval)"
    and "held (expireOldLocks ord now l interval) r = filter (still_valid interval now) (held l r)"
proof -
  let ?ks = "ord (map fst (ll_lockMap l))"
  have d: "distinct ?ks"
    using range_order_distinct[OF assms(1)] assms(2) by (simp add: locker_inv_def map_inv_def)
  obtain l' rd wr where e: "expire_keys interval now ?ks l 0 0 = (l', rd, wr)" using prod_cases3 by blast
  have s: "set ?ks = set (map fst (ll_lockMap l))" by (rule range_order_set[OF assms(1)])
  have "held l r = []" if "r \<notin> set ?ks"
    using that map_of_eq_None_iff[of "ll_lockMap l" r] unfolding s by (simp add: held_def)
  then show "held (expireOldLocks ord now l interval) r = filter (still_valid interval now) (held l r)"
    and "locker_inv (expireOldLocks ord now l interval)"
    using expire_keys_held[OF e assms(2) d] e by (auto simp: expireOldLocks_def held_def)
qed

lemma DupLockMap_inv:
  assumes "locker_inv l"
  shows "fst (DupLockMap l) = l" and "snd (DupLockMap l) = ll_lockMap l"
proof -
  have "v \<noteq> []" if "(k, v) \<in> set (ll_lockMap l)" for k v
    using that assms unfolding locker_inv_def map_inv_def entries_ok_def by (metis map_of_is_SomeI)
  then have "filter (\<lambda>(k, v). v \<noteq> []) (ll_lockMap l) = ll_lockMap l" by (auto intro!: filter_True)
  then show "fst (DupLockMap l) = l" and "snd (DupLockMap l) = ll_lockMap l"
    by (simp_all add: DupLockMap_def Let_def)
qed

section \<open>The lock server as a state machine\<close>

inductive locker_step :: "localLocker \<Rightarrow> localLocker \<Rightarrow> bool" where
  step_Lock: "locker_step l (fst (Lock ctxErr now l args))"
| step_Unlock: "locker_step l (fst (Unlock l args))"
| step_RLock: "locker_step l (fst (RLock ctxErr now l args))"
| step_RUnlock: "locker_step l (fst (RUnlock l args))"
| step_ForceUnlock: "locker_step l (fst (ForceUnlock ctxErr l args))"
| step_Refresh: "locker_step l (fst (Refresh ctxErr now l args))"
| step_expire: "range_order ord \<Longrightarrow> locker_step l (expireOldLocks ord now l interval)"
| step_dup: "locker_step l (fst (DupLockMap l))"
| step_wait: "locker_step l (l\<lparr>ll_waitMutex := n\<rparr>)"

inductive locker_reachable :: "localLocker \<Rightarrow> bool" where
  init: "locker_reachable newLocker"
| step: "locker_reachable l \<Longrightarrow> locker_step l l' \<Longrightarrow> locker_reachable l'"

inductive_cases locker_stepE: "locker_step l l'"

lemma locker_step_inv: "locker_step l l' \<Longrightarrow> locker_inv l \<Longrightarrow> locker_inv l'"
  by (induction rule: locker_step.induct)
    (auto simp: DupLockMap_inv intro: Lock_inv Unlock_inv RLock_inv RUnlock_inv ForceUnlock_inv Refresh_inv
      expireOldLocks_held(1))

lemma locker_reachable_inv: "locker_reachable l \<Longrightarrow> locker_inv l"
proof (induction rule: locker_reachable.induct)
  case init
  then show ?case by (simp add: newLocker_def locker_inv_def map_inv_def)
next
  case (step l l')
  then show ?case using locker_step_inv by blast
qed

section \<open>What the operations do to the entries\<close>

lemma held_simps [simp]:
  "held (l\<lparr>ll_lockUID := x\<rparr>) r = held l r"
  "held (l\<lparr>ll_locksOverloaded := c\<rparr>) r = held l r"
  "held (l\<lparr>ll_lockMap := AList.update k es (ll_lockMap l)\<rparr>) r = (if r = k then es else held l r)"
  "held (l\<lparr>ll_lockMap := AList.delete k (ll_lockMap l)\<rparr>) r = (if r = k then [] else held l r)"
  "held (l\<lparr>ll_lockMap := AList.update k es (ll_lockMap l), ll_lockUID := x\<rparr>) r = (if r = k then es else held l r)"
  "held (l\<lparr>ll_lockMap := AList.delete k (ll_lockMap l), ll_lockUID := x\<rparr>) r = (if r = k then [] else held l r)"
  by (simp_all add: held_def update_conv delete_conv)

lemma held_Nil: "locker_inv l \<Longrightarrow> held l r = [] \<longleftrightarrow> map_of (ll_lockMap l) r = None"
  using map_inv_entries[of "ll_lockMap l" r]
  by (auto simp: held_def locker_inv_def entries_ok_def split: option.split)

lemma held_ok: "locker_inv l \<Longrightarrow> held l r \<noteq> [] \<Longrightarrow> entries_ok r (held l r)"
  by (auto simp: held_def locker_inv_def dest: map_inv_entries split: option.splits)

lemma held_name: "locker_inv l \<Longrightarrow> e \<in> set (held l r) \<Longrightarrow> lr_Name e = r"
  using held_ok[of l r] unfolding entries_ok_def by (metis empty_iff list.set(1))

lemma held_writer: "locker_inv l \<Longrightarrow> e \<in> set (held l r) \<Longrightarrow> lr_Writer e \<Longrightarrow> held l r = [e]"
  using held_ok[of l r] unfolding entries_ok_def by (metis empty_iff list.set(1))

lemma canTakeLock_held: "locker_inv l \<Longrightarrow> canTakeLock l rs \<longleftrightarrow> (\<forall>r \<in> set rs. held l r = [])"
  by (auto simp: canTakeLock_def list_ex_iff held_Nil)

lemma lock_loop_held:
  "held (lock_loop args q now i rs l) r = held l r \<and> r \<notin> set rs \<or>
   r \<in> set rs \<and> (\<exists>j grp. held (lock_loop args q now i rs l) r = [lri_of args True q now grp r j])"
proof (induction args q now i rs l rule: lock_loop.induct)
  case (2 args quorum now i resource rs l)
  then show ?case by (cases "r \<in> set rs") auto
qed simp

lemma removeEntry_single:
  assumes "held l r = [e]" and "lr_UID e = uid" and "owner = [] \<or> lr_Owner e = owner"
    and "map_of (ll_lockMap l) r = Some lri"
  shows "\<exists>x. removeEntry r uid owner lri l = (l\<lparr>ll_lockMap := AList.delete r (ll_lockMap l), ll_lockUID := x\<rparr>, True)"
proof -
  have "lri = [e]" using assms(1,4) by (simp add: held_def)
  then show ?thesis using assms(2,3) by (auto simp: removeEntry_def Let_def)
qed

lemma unlock_loop_held:
  assumes "locker_inv l"
    and "\<forall>r \<in> set rs. held l r = [] \<or> (\<exists>e. held l r = [e] \<and> lr_Writer e \<and> lr_UID e = la_UID args
            \<and> (la_Owner args = [] \<or> lr_Owner e = la_Owner args))"
    and "unlock_loop args rs l reply err = (l', reply', err')"
  shows "err' = err \<and> (\<forall>r. held l' r = (if r \<in> set rs then [] else held l r))
    \<and> (reply' \<longleftrightarrow> reply \<or> (\<exists>r \<in> set rs. held l r \<noteq> []))"
  using assms
proof (induction rs arbitrary: l reply)
  case (Cons r rs)
  show ?case
  proof (cases "map_of (ll_lockMap l) r")
    case None
    then have "held l r = []" by (simp add: held_def)
    then show ?thesis using Cons None by auto
  next
    case (Some lri)
    then have "held l r = lri" "lri \<noteq> []" using Cons.prems(1) held_Nil[of l r] by (auto simp: held_def)
    then obtain e where e: "held l r = [e]" "lri = [e]" "lr_Writer e" "lr_UID e = la_UID args"
        "la_Owner args = [] \<or> lr_Owner e = la_Owner args"
      using Cons.prems(2) by auto
    then obtain x where x: "removeEntry r (la_UID args) (la_Owner args) lri l =
        (l\<lparr>ll_lockMap := AList.delete r (ll_lockMap l), ll_lockUID := x\<rparr>, True)" (is "_ = (?l1, True)")
      using removeEntry_single[of l r e "la_UID args" "la_Owner args" lri] Some by blast
    have "locker_inv ?l1" using Cons.prems(1) by (simp add: locker_inv_def map_inv_delete)
    moreover have "\<forall>q \<in> set rs. held ?l1 q = [] \<or> (\<exists>e. held ?l1 q = [e] \<and> lr_Writer e \<and> lr_UID e = la_UID args
        \<and> (la_Owner args = [] \<or> lr_Owner e = la_Owner args))"
      using Cons.prems(2) by auto
    moreover have "unlock_loop args rs ?l1 True err = (l', reply', err')"
      using Cons.prems(3) Some e x by (simp add: isWriteLock_def)
    ultimately show ?thesis using Cons.IH[of ?l1 True] e by auto
  qed
qed simp

section \<open>Properties\<close>

text \<open>C33: In every state the lock server can get into, a write lock on a resource is the only
  lock on it, no resource has an empty list of locks, and every lock is filed under its own name.\<close>

theorem locker_mutual_exclusion:
  assumes "locker_reachable l"
  shows "(\<forall>e \<in> set (held l r). lr_Writer e \<longrightarrow> held l r = [e])
    \<and> map_of (ll_lockMap l) r \<noteq> Some [] \<and> (\<forall>e \<in> set (held l r). lr_Name e = r)"
proof -
  have inv: "locker_inv l" by (rule locker_reachable_inv[OF assms])
  then have "\<forall>e \<in> set (held l r). lr_Name e = r" using held_name by blast
  moreover have "map_of (ll_lockMap l) r \<noteq> Some []"
    using inv map_inv_entries[of "ll_lockMap l" r "[]"] by (auto simp: locker_inv_def entries_ok_def)
  ultimately show ?thesis using held_writer[OF inv] by blast
qed

definition sample_args :: "string \<Rightarrow> string list \<Rightarrow> LockArgs" where
  "sample_args uid rs = \<lparr>la_UID = uid, la_Resources = rs, la_Source = [], la_Owner = ''node'', la_Quorum = Some 3\<rparr>"

theorem locker_mutual_exclusion_witness:
  "length (held (fst (RLock None 7 (fst (Lock None 5 newLocker (sample_args ''u'' [''a'', ''b'']))) (sample_args ''v'' [''a'']))) ''a'') = 1"
proof -
  let ?l = "fst (RLock None 7 (fst (Lock None 5 newLocker (sample_args ''u'' [''a'', ''b'']))) (sample_args ''v'' [''a'']))"
  have r: "locker_reachable ?l"
    by (intro locker_reachable.step[OF _ step_RLock] locker_reachable.step[OF _ step_Lock] locker_reachable.init)
  have h: "held ?l ''a'' = [lri_of (sample_args ''u'' [''a'', ''b'']) True 3 5 True ''a'' 0]"
    by (simp add: RLock_def Lock_def sample_args_def newLocker_def maxDeleteList_def lockMutexWaitLimit_def
        canTakeLock_def held_def isWriteLock_def Let_def)
  from locker_mutual_exclusion[OF r, of "''a''"] show ?thesis unfolding h by simp
qed

text \<open>A write lock on several resources is all or nothing: it is granted only when none of
  them is held by anyone, and then each is held by the caller alone and every other resource
  is untouched; when it is not granted no lock changes.\<close>

theorem lock_all_or_nothing:
  assumes "locker_inv l" and "Lock ctxErr now l args = (l', granted, err)"
  shows "locker_inv l' \<and>
    (if granted then (\<forall>r \<in> set (la_Resources args). held l r = []) \<and> ctxErr = None \<and> err = None \<and>
         (\<forall>r. if r \<in> set (la_Resources args)
              then \<exists>e. held l' r = [e] \<and> lr_Writer e \<and> lr_UID e = la_UID args \<and> lr_Owner e = la_Owner args
                   \<and> lr_TimeLastRefresh e = now
              else held l' r = held l r)
     else held l' = held l)"
proof -
  have i: "locker_inv l'" using Lock_inv[OF assms(1)] assms(2) by (metis fst_conv)
  show ?thesis
  proof (cases granted)
    case False
    then have "held l' = held l"
      using assms(2) by (auto simp: Lock_def fun_eq_iff split: if_splits option.splits)
    then show ?thesis using i False by simp
  next
    case True
    then have g: "canTakeLock l (la_Resources args)" "ctxErr = None" "err = None"
      and l': "la_Resources args = [] \<and> l' = l \<or> (\<exists>q. l' = lock_loop args q now 0 (la_Resources args) l)"
      using assms(2) by (auto simp: Lock_def split: if_splits option.splits)
    have "if r \<in> set (la_Resources args)
          then \<exists>e. held l' r = [e] \<and> lr_Writer e \<and> lr_UID e = la_UID args \<and> lr_Owner e = la_Owner args
               \<and> lr_TimeLastRefresh e = now
          else held l' r = held l r" for r
      using l' lock_loop_held[of args _ now 0 "la_Resources args" l r] by fastforce
    then show ?thesis using i True g canTakeLock_held[OF assms(1)] by simp
  qed
qed

theorem lock_all_or_nothing_witness:
  "held (fst (Lock None 5 newLocker (sample_args ''u'' [''a'', ''b'']))) ''c'' = []"
proof -
  have i: "locker_inv newLocker" by (simp add: newLocker_def locker_inv_def map_inv_def)
  have "Lock None 5 newLocker (sample_args ''u'' [''a'', ''b'']) =
      (fst (Lock None 5 newLocker (sample_args ''u'' [''a'', ''b''])), True, None)"
    by (simp add: Lock_def sample_args_def newLocker_def maxDeleteList_def lockMutexWaitLimit_def canTakeLock_def)
  from lock_all_or_nothing[OF i this] have c: "\<forall>r. if r \<in> set (la_Resources (sample_args ''u'' [''a'', ''b'']))
      then \<exists>e. held (fst (Lock None 5 newLocker (sample_args ''u'' [''a'', ''b'']))) r = [e] \<and> lr_Writer e
           \<and> lr_UID e = la_UID (sample_args ''u'' [''a'', ''b'']) \<and> lr_Owner e = la_Owner (sample_args ''u'' [''a'', ''b''])
           \<and> lr_TimeLastRefresh e = 5
      else held (fst (Lock None 5 newLocker (sample_args ''u'' [''a'', ''b'']))) r = held newLocker r"
    by simp
  have "held newLocker ''c'' = []" by (simp add: newLocker_def held_def)
  then show ?thesis using spec[OF c, of "''c''"] by (simp add: sample_args_def)
qed

text \<open>Unlocking what was locked gives the server back as it was: after a granted write lock,
  \<open>Unlock\<close> by the same id and owner succeeds without an error, frees the locked resources and
  leaves the other ones as they are.\<close>

theorem lock_unlock_roundtrip:
  assumes "locker_inv l" and "Lock ctxErr now l args = (l1, True, err)" and "la_Resources args \<noteq> []"
    and "Unlock l1 args' = (l2, reply, err2)"
    and "la_UID args' = la_UID args" and "la_Owner args' = la_Owner args" and "la_Resources args' = la_Resources args"
  shows "reply \<and> err2 = None \<and> held l2 = held l"
proof -
  have max: "\<not> length (la_Resources args) > maxDeleteList"
    and g: "canTakeLock l (la_Resources args)"
    using assms(2) by (auto simp: Lock_def split: if_splits)
  obtain q where l1: "l1 = lock_loop args q now 0 (la_Resources args) l"
    using assms(2,3) by (auto simp: Lock_def split: if_splits option.splits)
  have i1: "locker_inv l1" using Lock_inv[OF assms(1)] assms(2) by (metis fst_conv)
  have free: "\<forall>r \<in> set (la_Resources args). held l r = []" using g canTakeLock_held[OF assms(1)] by simp
  have w: "\<exists>e. held l1 r = [e] \<and> lr_Writer e \<and> lr_UID e = la_UID args \<and> lr_Owner e = la_Owner args"
    if "r \<in> set (la_Resources args)" for r
    using lock_loop_held[of args q now 0 "la_Resources args" l r] that unfolding l1 by auto
  have o: "held l1 r = held l r" if "r \<notin> set (la_Resources args)" for r
    using lock_loop_held[of args q now 0 "la_Resources args" l r] that unfolding l1 by auto
  have "unlock_loop args' (la_Resources args') l1 False None = (l2, reply, err2)"
    using assms(4,7) max by (simp add: Unlock_def)
  from unlock_loop_held[OF i1 _ this] w assms(5-7)
  have "err2 = None" "\<forall>r. held l2 r = (if r \<in> set (la_Resources args) then [] else held l1 r)"
    "reply \<longleftrightarrow> (\<exists>r \<in> set (la_Resources args). held l1 r \<noteq> [])" by (fastforce+)
  moreover have "\<exists>r \<in> set (la_Resources args). held l1 r \<noteq> []"
    using w assms(3) by (metis last_in_set list.distinct(1))
  ultimately show ?thesis using free o by (auto simp: fun_eq_iff)
qed

theorem lock_unlock_roundtrip_witness:
  "held (fst (Unlock (fst (Lock None 5 newLocker (sample_args ''u'' [''a'', ''b'']))) (sample_args ''u'' [''a'', ''b'']))) = held newLocker"
proof -
  let ?a = "sample_args ''u'' [''a'', ''b'']"
  have i: "locker_inv newLocker" by (simp add: newLocker_def locker_inv_def map_inv_def)
  have l: "Lock None 5 newLocker ?a = (fst (Lock None 5 newLocker ?a), True, None)"
    by (simp add: Lock_def sample_args_def newLocker_def maxDeleteList_def lockMutexWaitLimit_def canTakeLock_def)
  obtain l2 r e where u: "Unlock (fst (Lock None 5 newLocker ?a)) ?a = (l2, r, e)" using prod_cases3 by blast
  have "la_Resources ?a \<noteq> []" by (simp add: sample_args_def)
  from lock_unlock_roundtrip[OF i l this u] show ?thesis by (simp only: u fst_conv simp_thms)
qed

text \<open>Expiry removes exactly the locks that were not refreshed within the interval, of every
  resource and in whatever order the resources are visited.\<close>

theorem expire_exact:
  assumes "range_order ord" and "locker_reachable l"
  shows "held (expireOldLocks ord now l interval) r
    = filter (\<lambda>e. now - lr_TimeLastRefresh e \<le> interval) (held l r)"
  by (rule expireOldLocks_held(2)[OF assms(1) locker_reachable_inv[OF assms(2)]])

theorem expire_exact_witness:
  "held (expireOldLocks rev 100 (fst (Lock None 5 newLocker (sample_args ''u'' [''a'', ''b'']))) 60) ''a'' = []"
proof -
  have r: "locker_reachable (fst (Lock None 5 newLocker (sample_args ''u'' [''a'', ''b''])))"
    by (intro locker_reachable.step[OF _ step_Lock] locker_reachable.init)
  show ?thesis
    unfolding expire_exact[OF range_order_rev r]
    by (simp add: Lock_def sample_args_def newLocker_def maxDeleteList_def lockMutexWaitLimit_def canTakeLock_def held_def)
qed

section \<open>The server as a \<open>NetLocker\<close>\<close>

text \<open>The operations behind the interface; a call's surroundings are the error of its context and
  the clock.\<close>

definition local_netlocker :: "(gerror option \<times> int, localLocker) NetLocker" where
  "local_netlocker = \<lparr>
     nl_RLock = (\<lambda>(ctxErr, now) l a. RLock ctxErr now l a),
     nl_Lock = (\<lambda>(ctxErr, now) l a. Lock ctxErr now l a),
     nl_RUnlock = (\<lambda>_ l a. RUnlock l a),
     nl_Unlock = (\<lambda>_ l a. Unlock l a),
     nl_Refresh = (\<lambda>(ctxErr, now) l a. Refresh ctxErr now l a),
     nl_ForceUnlock = (\<lambda>(ctxErr, now) l a. ForceUnlock ctxErr l a)\<rparr>"

definition holder_of :: "lockRequesterInfo \<Rightarrow> holder" where
  "holder_of e = (lr_UID e, lr_Owner e, lr_Writer e)"

definition locker_view :: "localLocker \<Rightarrow> string \<Rightarrow> holder multiset" where
  "locker_view l n = mset (map holder_of (held l n))"

lemma locker_view_cong: "held l' n = held l n \<Longrightarrow> locker_view l' n = locker_view l n"
  by (simp add: locker_view_def)

lemma locker_view_single:
  "locker_view l n = {#h#} \<longleftrightarrow> (\<exists>e. held l n = [e] \<and> holder_of e = h)"
  unfolding locker_view_def mset_single_iff by (auto simp: map_eq_Cons_conv)

lemma locker_exclusive:
  "locker_inv l \<Longrightarrow> (u, ow, True) \<in># locker_view l n \<Longrightarrow> locker_view l n = {#(u, ow, True)#}"
  using held_writer[of l _ n] unfolding locker_view_single
  by (auto simp: locker_view_def holder_of_def)

lemma locker_lock_view:
  assumes "locker_inv l" and "Lock ctxErr now l a = (l', granted, e)"
  shows "locker_inv l' \<and> (if granted
     then (\<forall>n. locker_view l' n = (if n \<in> set (la_Resources a) then {#(la_UID a, la_Owner a, True)#} else locker_view l n))
          \<and> (\<forall>n \<in> set (la_Resources a). locker_view l n = {#})
     else locker_view l' = locker_view l)"
proof -
  have i: "locker_inv l'" using Lock_inv[OF assms(1)] assms(2) by (metis fst_conv)
  show ?thesis
  proof (cases granted)
    case False
    then have "held l' n = held l n" for n
      using assms(2) by (auto simp: Lock_def split: if_splits option.splits)
    then show ?thesis using i False by (simp add: locker_view_def fun_eq_iff)
  next
    case True
    then have free: "\<forall>r \<in> set (la_Resources a). held l r = []"
      using assms canTakeLock_held by (auto simp: Lock_def split: if_splits)
    have l': "la_Resources a = [] \<and> l' = l \<or> (\<exists>q. l' = lock_loop a q now 0 (la_Resources a) l)"
      using assms(2) True by (auto simp: Lock_def split: if_splits option.splits)
    have "locker_view l' n = (if n \<in> set (la_Resources a) then {#(la_UID a, la_Owner a, True)#} else locker_view l n)" for n
    proof (cases "la_Resources a = [] \<and> l' = l")
      case True
      then show ?thesis by simp
    next
      case False
      then obtain q where "l' = lock_loop a q now 0 (la_Resources a) l" using l' by blast
      then show ?thesis
        using lock_loop_held[of a q now 0 "la_Resources a" l n] by (auto simp: locker_view_def holder_of_def)
    qed
    then show ?thesis using i True free by (simp add: locker_view_def)
  qed
qed

lemma locker_rlock_view:
  assumes "locker_inv l" and "RLock ctxErr now l a = (l', granted, e)"
  shows "locker_inv l' \<and> (if granted
     then \<exists>n. la_Resources a = [n]
          \<and> locker_view l' = (locker_view l)(n := add_mset (la_UID a, la_Owner a, False) (locker_view l n))
     else locker_view l' = locker_view l)"
proof -
  have i: "locker_inv l'" using RLock_inv[OF assms(1)] assms(2) by (metis fst_conv)
  show ?thesis
  proof (cases granted)
    case False
    then have "held l' n = held l n" for n
      using assms(2) by (auto simp: RLock_def Let_def split: if_splits option.splits)
    then show ?thesis using i False by (simp add: locker_view_def fun_eq_iff)
  next
    case True
    then have "length (la_Resources a) = 1" using assms(2) by (auto simp: RLock_def split: if_splits)
    then obtain n where n: "la_Resources a = [n]" by (cases "la_Resources a") auto
    obtain q where q: "la_Quorum a = Some q"
      using assms(2) True by (auto simp: RLock_def split: if_splits option.splits)
    have h: "held l' r = (if r = n then held l n @ [lri_of a False q now False n 0] else held l r)" for r
    proof (cases "map_of (ll_lockMap l) n")
      case None
      then have "held l n = []" by (simp add: held_def)
      then show ?thesis using assms(2) True n q None by (auto simp: RLock_def Let_def split: if_splits)
    next
      case (Some es)
      then have "held l n = es" by (simp add: held_def)
      then show ?thesis using assms(2) True n q Some by (auto simp: RLock_def Let_def split: if_splits)
    qed
    then have "locker_view l' = (locker_view l)(n := add_mset (la_UID a, la_Owner a, False) (locker_view l n))"
      by (simp add: locker_view_def fun_eq_iff holder_of_def)
    then show ?thesis using i True n by simp
  qed
qed

lemma locker_unlock_view:
  assumes "locker_inv l" and "\<forall>n \<in> set (la_Resources a). locker_view l n = {#(la_UID a, la_Owner a, True)#}"
    and "Unlock l a = (l', r, e)"
  shows "locker_inv l' \<and> (e = None \<and> locker_view l' = (\<lambda>n. if n \<in> set (la_Resources a) then {#} else locker_view l n)
      \<or> e \<noteq> None \<and> locker_view l' = locker_view l)"
proof -
  have i: "locker_inv l'" using Unlock_inv[OF assms(1)] assms(3) by (metis fst_conv)
  show ?thesis
  proof (cases "length (la_Resources a) > maxDeleteList")
    case True
    then show ?thesis using assms(1,3) by (auto simp: Unlock_def)
  next
    case False
    then have u: "unlock_loop a (la_Resources a) l False None = (l', r, e)" using assms(3) by (simp add: Unlock_def)
    have "\<forall>r \<in> set (la_Resources a). held l r = [] \<or> (\<exists>e. held l r = [e] \<and> lr_Writer e \<and> lr_UID e = la_UID a
        \<and> (la_Owner a = [] \<or> lr_Owner e = la_Owner a))"
      using assms(2) unfolding locker_view_single by (auto simp: holder_of_def)
    from unlock_loop_held[OF assms(1) this u] show ?thesis
      using i by (simp add: locker_view_def fun_eq_iff)
  qed
qed

lemma locker_runlock_view:
  assumes "locker_inv l" and "la_Owner a \<noteq> []" and "la_Resources a = [n]"
    and "(la_UID a, la_Owner a, False) \<in># locker_view l n" and "RUnlock l a = (l', r, e)"
  shows "locker_inv l' \<and> (e = None \<and> locker_view l' = (locker_view l)(n := locker_view l n - {#(la_UID a, la_Owner a, False)#})
      \<or> e \<noteq> None \<and> locker_view l' = locker_view l)"
proof -
  have i: "locker_inv l'" using RUnlock_inv[OF assms(1)] assms(5) by (metis fst_conv)
  obtain x where x: "x \<in> set (held l n)" "holder_of x = (la_UID a, la_Owner a, False)"
    using assms(4) by (auto simp: locker_view_def)
  then have m: "map_of (ll_lockMap l) n = Some (held l n)"
    by (cases "map_of (ll_lockMap l) n") (auto simp: held_def)
  have nw: "\<not> isWriteLock (held l n)"
    using x held_writer[OF assms(1), of _ n] by (auto simp: isWriteLock_def holder_of_def length_Suc_conv)
  then have noW: "\<not> lr_Writer y" if "y \<in> set (held l n)" for y
    using held_writer[OF assms(1) that] that by (auto simp: isWriteLock_def)
  obtain k where k: "find_entry (la_UID a) (la_Owner a) 0 (held l n) = Some k"
    using x find_entry_None[of "la_UID a" "la_Owner a" 0 "held l n"] by (fastforce simp: holder_of_def)
  have kl: "k < length (held l n)" and kh: "holder_of (held l n ! k) = (la_UID a, la_Owner a, False)"
    using find_entry_lt[OF k] assms(2) noW by (auto simp: holder_of_def)
  have r: "RUnlock l a = (fst (removeEntry n (la_UID a) (la_Owner a) (held l n) l), True, None)"
    using assms(3) m nw by (simp add: RUnlock_def)
  have "held l' q = (if q = n then take k (held l n) @ drop (Suc k) (held l n) else held l q)" for q
    using r assms(5) k kl by (auto simp: removeEntry_def Let_def length_Suc_conv)
  moreover have "mset (held l n) = add_mset (held l n ! k) (mset (take k (held l n) @ drop (Suc k) (held l n)))"
    using id_take_nth_drop[OF kl] by (metis mset_append mset.simps(2) union_mset_add_mset_right)
  ultimately show ?thesis
    using i kh r assms(5) by (simp add: locker_view_def fun_eq_iff)
qed

text \<open>A release takes at most one entry of its own request id, whatever is held.\<close>

lemma removeEntry_bound:
  assumes "map_of (ll_lockMap l) n = Some lri" and "removeEntry n uid owner lri l = (l', removed)"
  shows "count (locker_view l m) h \<le> count (locker_view l' m) h + (if fst h = uid \<and> m = n then 1 else 0)"
proof (cases "find_entry uid owner 0 lri")
  case None
  then show ?thesis using assms(2) by (simp add: removeEntry_def)
next
  case (Some k)
  then have k: "k < length lri" "lr_UID (lri ! k) = uid" using find_entry_lt by fastforce+
  have "held l' q = (if q = n then take k lri @ drop (Suc k) lri else held l q)" for q
    using assms(2) Some k by (auto simp: removeEntry_def Let_def length_Suc_conv)
  moreover have "held l n = lri" using assms(1) by (simp add: held_def)
  moreover have "mset lri = add_mset (lri ! k) (mset (take k lri @ drop (Suc k) lri))"
    using id_take_nth_drop[OF k(1)] by (metis mset_append mset.simps(2) union_mset_add_mset_right)
  ultimately show ?thesis using k(2) by (auto simp: locker_view_def holder_of_def)
qed

lemma unlock_loop_bound:
  "locker_inv l \<Longrightarrow> unlock_loop args rs l reply err = (l', r, e) \<Longrightarrow>
   count (locker_view l m) h \<le> count (locker_view l' m) h + (if fst h = la_UID args then 1 else 0)"
proof (induction args rs l reply err rule: unlock_loop.induct)
  case (2 args resource rs l reply err)
  show ?case
  proof (cases "map_of (ll_lockMap l) resource")
    case None
    then show ?thesis using 2 by simp
  next
    case (Some lri)
    obtain l1 removed where r: "removeEntry resource (la_UID args) (la_Owner args) lri l = (l1, removed)" by fastforce
    have i: "locker_inv l1" using removeEntry_inv[OF 2(4) Some, of "la_UID args" "la_Owner args"] r by simp
    show ?thesis
    proof (cases "isWriteLock lri")
      case False
      then show ?thesis using 2 Some by simp
    next
      case True
      have "unlock_loop args rs l1 (removed \<or> reply) err = (l', r, e)" using 2(5) True Some r by simp
      with 2(3)[OF Some _ r[symmetric] i] True
      have IH: "count (locker_view l1 m) h \<le> count (locker_view l' m) h + (if fst h = la_UID args then 1 else 0)"
        by blast
      note b = removeEntry_bound[OF Some r, of m h]
      have "count (locker_view l resource) h \<le> 1"
        using True Some by (auto simp: isWriteLock_def locker_view_def held_def length_Suc_conv)
      then show ?thesis using IH b by (cases "m = resource") (auto split: if_splits)
    qed
  qed
qed simp

lemma locker_unlock_bound:
  "locker_inv l \<Longrightarrow> Unlock l a = (l', r, e) \<Longrightarrow>
   locker_inv l' \<and> (\<forall>n h. count (locker_view l n) h \<le> count (locker_view l' n) h + (if fst h = la_UID a then 1 else 0))"
  using Unlock_inv[of l a] unlock_loop_bound[of l a "la_Resources a" False None l' r e]
  by (cases "length (la_Resources a) > maxDeleteList") (auto simp: Unlock_def)

lemma locker_runlock_bound:
  assumes "locker_inv l" and "RUnlock l a = (l', r, e)"
  shows "locker_inv l' \<and> (\<forall>n h. count (locker_view l n) h \<le> count (locker_view l' n) h + (if fst h = la_UID a then 1 else 0))"
proof -
  have "locker_inv l'" using RUnlock_inv[OF assms(1), of a] assms(2) by simp
  moreover have "count (locker_view l n) h \<le> count (locker_view l' n) h + (if fst h = la_UID a then 1 else 0)" for n h
  proof (cases "l' = l")
    case False
    then obtain q qs lri where "la_Resources a = q # qs" and m: "map_of (ll_lockMap l) q = Some lri"
        and "l' = fst (removeEntry q (la_UID a) (la_Owner a) lri l)"
      using assms(2) by (auto simp: RUnlock_def split: if_splits list.splits option.splits)
    then obtain b where "removeEntry q (la_UID a) (la_Owner a) lri l = (l', b)" by (metis prod.collapse)
    from removeEntry_bound[OF m this, of n h] show ?thesis by (auto split: if_splits)
  qed simp
  ultimately show ?thesis by blast
qed

lemma refresh_loop_view:
  "refresh_loop uid now idx l = (l', r) \<Longrightarrow> locker_view l' = locker_view l"
proof (induction uid now idx l rule: refresh_loop.induct)
  case (1 uid now idx l)
  have t: "image_mset holder_of (image_mset (touch uid now) X) = image_mset holder_of X" for X
    by (induction X) (simp_all add: touch_def holder_of_def)
  show ?case
  proof (cases "map_of (ll_lockUID l) (formatUUID uid idx)")
    case None
    then show ?thesis using 1(2) by (simp add: refresh_loop.simps[of _ _ _ l])
  next
    case (Some resource)
    show ?thesis
    proof (cases "map_of (ll_lockMap l) resource")
      case None
      then show ?thesis using 1(2) Some
        by (auto simp: refresh_loop.simps[of _ _ _ l] locker_view_def held_def fun_eq_iff)
    next
      case (Some lris)
      let ?l = "l\<lparr>ll_lockMap := AList.update resource (map (touch uid now) lris) (ll_lockMap l)\<rparr>"
      have "held l resource = lris" using Some by (simp add: held_def)
      then have "locker_view ?l = locker_view l" by (auto simp: locker_view_def fun_eq_iff t)
      then show ?thesis
        using 1 Some \<open>map_of (ll_lockUID l) (formatUUID uid idx) = Some resource\<close>
        by (simp add: refresh_loop.simps[of _ _ _ l])
    qed
  qed
qed

lemma locker_refresh_view:
  "locker_inv l \<Longrightarrow> Refresh ctxErr now l a = (l', r, e) \<Longrightarrow> locker_inv l' \<and> locker_view l' = locker_view l"
  using Refresh_inv[of l ctxErr now a] refresh_loop_view[of "la_UID a" now 0 l]
  by (auto simp: Refresh_def split: if_splits prod.splits)

interpretation local_locker: net_locker local_netlocker locker_view locker_inv
proof unfold_locales
  fix env :: "gerror option \<times> int" and s s' a e r n u ow
  obtain ctxErr now where env: "env = (ctxErr, now)" by fastforce
  show "locker_inv s \<Longrightarrow> (u, ow, True) \<in># locker_view s n \<Longrightarrow> locker_view s n = {#(u, ow, True)#}"
    by (rule locker_exclusive)
  show "locker_inv s \<Longrightarrow> nl_Lock local_netlocker env s a = (s', True, e) \<Longrightarrow>
      locker_inv s' \<and> (\<forall>n. locker_view s' n = (if n \<in> set (la_Resources a) then {#(la_UID a, la_Owner a, True)#} else locker_view s n))
      \<and> (\<forall>n \<in> set (la_Resources a). locker_view s n = {#})"
    using locker_lock_view[of s ctxErr now a s' True e] by (simp add: local_netlocker_def env)
  show "locker_inv s \<Longrightarrow> nl_Lock local_netlocker env s a = (s', False, e) \<Longrightarrow> locker_inv s' \<and> locker_view s' = locker_view s"
    using locker_lock_view[of s ctxErr now a s' False e] by (simp add: local_netlocker_def env)
  show "locker_inv s \<Longrightarrow> nl_RLock local_netlocker env s a = (s', True, e) \<Longrightarrow>
      locker_inv s' \<and> (\<exists>n. la_Resources a = [n]
        \<and> locker_view s' = (locker_view s)(n := add_mset (la_UID a, la_Owner a, False) (locker_view s n)))"
    using locker_rlock_view[of s ctxErr now a s' True e] by (simp add: local_netlocker_def env)
  show "locker_inv s \<Longrightarrow> nl_RLock local_netlocker env s a = (s', False, e) \<Longrightarrow> locker_inv s' \<and> locker_view s' = locker_view s"
    using locker_rlock_view[of s ctxErr now a s' False e] by (simp add: local_netlocker_def env)
  show "locker_inv s \<Longrightarrow> la_Owner a \<noteq> [] \<Longrightarrow> \<forall>n \<in> set (la_Resources a). locker_view s n = {#(la_UID a, la_Owner a, True)#} \<Longrightarrow>
      nl_Unlock local_netlocker env s a = (s', r, e) \<Longrightarrow>
      locker_inv s' \<and> (e = None \<and> locker_view s' = (\<lambda>n. if n \<in> set (la_Resources a) then {#} else locker_view s n)
        \<or> e \<noteq> None \<and> locker_view s' = locker_view s)"
    using locker_unlock_view[of s a s' r e] by (simp add: local_netlocker_def)
  show "locker_inv s \<Longrightarrow> la_Owner a \<noteq> [] \<Longrightarrow> la_Resources a = [n] \<Longrightarrow>
      (la_UID a, la_Owner a, False) \<in># locker_view s n \<Longrightarrow> nl_RUnlock local_netlocker env s a = (s', r, e) \<Longrightarrow>
      locker_inv s' \<and> (e = None \<and> locker_view s' = (locker_view s)(n := locker_view s n - {#(la_UID a, la_Owner a, False)#})
        \<or> e \<noteq> None \<and> locker_view s' = locker_view s)"
    using locker_runlock_view[of s a n s' r e] by (simp add: local_netlocker_def)
  show "locker_inv s \<Longrightarrow> nl_Unlock local_netlocker env s a = (s', r, e) \<Longrightarrow>
      locker_inv s' \<and> (\<forall>n h. count (locker_view s n) h \<le> count (locker_view s' n) h + (if fst h = la_UID a then 1 else 0))"
    using locker_unlock_bound[of s a s' r e] by (simp add: local_netlocker_def)
  show "locker_inv s \<Longrightarrow> nl_RUnlock local_netlocker env s a = (s', r, e) \<Longrightarrow>
      locker_inv s' \<and> (\<forall>n h. count (locker_view s n) h \<le> count (locker_view s' n) h + (if fst h = la_UID a then 1 else 0))"
    using locker_runlock_bound[of s a s' r e] by (simp add: local_netlocker_def)
  show "locker_inv s \<Longrightarrow> nl_Refresh local_netlocker env s a = (s', r, e) \<Longrightarrow>
      locker_inv s' \<and> locker_view s' = locker_view s"
    using locker_refresh_view[of s ctxErr now a s' r e] by (simp add: local_netlocker_def env)
qed

end
