(* ===== verification/Dsync_Mutex.thy ===== *)
theory Dsync_Mutex
  imports Local_Locker "HOL-Library.List_Lexorder" "HOL-Library.Char_ord"
begin

text \<open>
  The distributed read/write mutex (\<open>internal/dsync/drwmutex.go\<close>): a request is broadcast to all
  lock servers, a lock is taken when a quorum of them granted it. First the functions of the file
  over the record of operations \<open>nl\<close> of a server, then the protocol as a transition function on a
  world of servers, clients and messages in flight, and its safety inside the locale
  \<open>net_locker\<close>, which \<open>Local_Locker\<close> interprets.
\<close>

section \<open>Quorums\<close>

text \<open>The first lines of \<open>lockBlocking\<close>: the quorum for \<open>n\<close> lock servers and the tolerance the
  attempts run with.\<close>

definition lock_quorum :: "int \<Rightarrow> bool \<Rightarrow> int" where
  "lock_quorum n isReadLock =
     (let tolerance = quo n 2; quorum = n - tolerance
      in if \<not> isReadLock \<and> quorum = tolerance then quorum + 1 else quorum)"

definition lock_tolerance :: "int \<Rightarrow> bool \<Rightarrow> int" where
  "lock_tolerance n isReadLock = n - lock_quorum n isReadLock"

definition isLocked :: "string \<Rightarrow> bool" where
  "isLocked uid \<longleftrightarrow> length uid > 0"

definition checkFailedUnlocks :: "string list \<Rightarrow> int \<Rightarrow> bool" where
  "checkFailedUnlocks locks tolerance =
     (let unlocksFailed = int (length (filter isLocked locks))
      in if int (length locks) - tolerance = tolerance then unlocksFailed \<ge> tolerance
         else unlocksFailed > tolerance)"

definition checkQuorumLocked :: "string list \<Rightarrow> int \<Rightarrow> bool" where
  "checkQuorumLocked locks quorum \<longleftrightarrow> int (length (filter isLocked locks)) \<ge> quorum"

lemma quorums_overlap: "lock_quorum (int n) False + lock_quorum (int n) b > int n"
proof -
  have "int n = 2 * (int n div 2) \<or> int n = 2 * (int n div 2) + 1" by presburger
  then show ?thesis by (auto simp: lock_quorum_def Let_def)
qed

lemma quorum_tolerance: "lock_quorum n b + lock_tolerance n b = n"
  by (simp add: lock_tolerance_def)

section \<open>Calls to a lock server\<close>

text \<open>
  What becomes of a call to a remote server (\<open>lockRESTClient\<close>): it runs and is answered, it never
  gets there, or it runs and the answer is lost. A nil \<open>NetLocker\<close> is \<open>None\<close>.
\<close>

datatype 'e call = Delivered 'e | RequestLost gerror | ReplyLost 'e gerror

fun remote ::
  "('e \<Rightarrow> 's \<Rightarrow> LockArgs \<Rightarrow> 's \<times> bool \<times> gerror option) \<Rightarrow> 'e call \<Rightarrow> 's \<Rightarrow> LockArgs \<Rightarrow> 's \<times> bool \<times> gerror option" where
  "remote f (Delivered env) s args = f env s args"
| "remote f (RequestLost err) s args = (s, False, Some err)"
| "remote f (ReplyLost env err) s args = (fst (f env s args), False, Some err)"

definition sendRelease ::
  "('e, 's) NetLocker \<Rightarrow> 'e call \<Rightarrow> 's option \<Rightarrow> string \<Rightarrow> string \<Rightarrow> bool \<Rightarrow> string list \<Rightarrow> 's option \<times> bool" where
  "sendRelease nl cl c owner uid isReadLock names =
     (case c of
        None \<Rightarrow> (None, False)
      | Some s \<Rightarrow>
          if length uid = 0 then (Some s, False)
          else
            let args = \<lparr>la_UID = uid, la_Resources = names, la_Source = [], la_Owner = owner, la_Quorum = None\<rparr>
            in case remote (if isReadLock then nl_RUnlock nl else nl_Unlock nl) cl s args of
                 (s', reply, err) \<Rightarrow> (Some s', err = None))"

text \<open>\<open>releaseAll\<close>: one goroutine per server, each with its own slot of \<open>locks\<close>, so their order
  does not matter; \<open>calls j\<close> is the fate of the call to server \<open>j\<close>.\<close>

definition releaseAll ::
  "('e, 's) NetLocker \<Rightarrow> (nat \<Rightarrow> 'e call) \<Rightarrow> int \<Rightarrow> string \<Rightarrow> string list \<Rightarrow> bool \<Rightarrow> 's option list \<Rightarrow> string list
   \<Rightarrow> 's option list \<times> string list \<times> bool" where
  "releaseAll nl calls tolerance owner locks isReadLock restClnts names =
     (let sent = map (\<lambda>j. sendRelease nl (calls j) (restClnts ! j) owner (locks ! j) isReadLock names)
                   [0..<length restClnts];
          locks' = map (\<lambda>j. if snd (sent ! j) then [] else locks ! j) [0..<length restClnts]
      in (map fst sent, locks', \<not> checkFailedUnlocks locks' tolerance))"

text \<open>The releasing goroutine of \<open>Unlock\<close>: \<open>releaseAll\<close> until it succeeds or, after the rounds that
  fit into the timeout, gives up.\<close>

fun release_rounds ::
  "('e, 's) NetLocker \<Rightarrow> (nat \<Rightarrow> 'e call) list \<Rightarrow> int \<Rightarrow> string \<Rightarrow> string list \<Rightarrow> bool \<Rightarrow> 's option list \<Rightarrow> string list
   \<Rightarrow> 's option list \<times> string list \<times> bool" where
  "release_rounds nl [] tolerance owner locks isReadLock restClnts names = (restClnts, locks, False)"
| "release_rounds nl (calls # rounds) tolerance owner locks isReadLock restClnts names =
     (case releaseAll nl calls tolerance owner locks isReadLock restClnts names of
        (restClnts', locks', released) \<Rightarrow>
          if released then (restClnts', locks', True)
          else release_rounds nl rounds tolerance owner locks' isReadLock restClnts' names)"

section \<open>The mutex object\<close>

text \<open>\<open>cancelRefresh\<close> is a function value, nil until a lock is granted.\<close>

record DRWMutex =
  dm_Names :: "string list"
  dm_writeLocks :: "string list"
  dm_readLocks :: "string list"
  dm_cancelRefresh :: bool

definition NewDRWMutex :: "nat \<Rightarrow> string list \<Rightarrow> DRWMutex" where
  "NewDRWMutex n names =
     \<lparr>dm_Names = sort names, dm_writeLocks = replicate n [], dm_readLocks = replicate n [],
      dm_cancelRefresh = False\<rparr>"

text \<open>Go's \<open>copy(dst, src)\<close>.\<close>

definition copy_into :: "'a list \<Rightarrow> 'a list \<Rightarrow> 'a list" where
  "copy_into dst src = take (length dst) src @ drop (length src) dst"

text \<open>The end of \<open>lockBlocking\<close> and \<open>startContinuousLockRefresh\<close>.\<close>

definition granted_lock :: "bool \<Rightarrow> string list \<Rightarrow> DRWMutex \<Rightarrow> DRWMutex" where
  "granted_lock isReadLock locks dm =
     (if isReadLock then dm\<lparr>dm_readLocks := copy_into (dm_readLocks dm) locks, dm_cancelRefresh := True\<rparr>
      else dm\<lparr>dm_writeLocks := copy_into (dm_writeLocks dm) locks, dm_cancelRefresh := True\<rparr>)"

text \<open>\<open>Unlock\<close> and \<open>RUnlock\<close> on \<open>n\<close> servers: the mutex afterwards, the locks to release (by
  \<open>release_rounds\<close>, in the background) and the tolerance of the release.\<close>

definition drw_Unlock :: "nat \<Rightarrow> DRWMutex \<Rightarrow> gerror + DRWMutex \<times> string list \<times> int" where
  "drw_Unlock n dm =
     (if \<not> dm_cancelRefresh dm then Inl (GoPanic ''nil pointer dereference'')
      else if \<not> list_ex isLocked (dm_writeLocks dm)
        then Inl (GoPanic ''Trying to Unlock() while no Lock() is active'')
      else Inr (dm, copy_into (replicate n []) (dm_writeLocks dm), quo (int n) 2))"

definition drw_RUnlock :: "nat \<Rightarrow> DRWMutex \<Rightarrow> gerror + DRWMutex \<times> string list \<times> int" where
  "drw_RUnlock n dm =
     (if \<not> dm_cancelRefresh dm then Inl (GoPanic ''nil pointer dereference'')
      else if \<not> list_ex isLocked (dm_readLocks dm)
        then Inl (GoPanic ''Trying to RUnlock() while no RLock() is active'')
      else Inr (dm, copy_into (replicate n []) (dm_readLocks dm), quo (int n) 2))"

section \<open>Collecting the answers\<close>

record Granted =
  g_index :: nat
  g_lockUID :: string

datatype lock_event = Grant Granted | CtxDone

text \<open>What the loop of \<open>lock\<close> keeps, and one iteration of it.\<close>

record collector =
  co_locks :: "string list"
  co_i :: nat
  co_failed :: int
  co_done :: bool

definition new_collector :: "nat \<Rightarrow> collector" where
  "new_collector n = \<lparr>co_locks = replicate n [], co_i = 0, co_failed = 0, co_done = False\<rparr>"

definition lock_failed :: "int \<Rightarrow> collector \<Rightarrow> collector" where
  "lock_failed tolerance co =
     co\<lparr>co_i := co_i co + 1, co_failed := co_failed co + 1,
        co_done := co_done co \<or> co_failed co + 1 > tolerance\<rparr>"

fun lock_event_step :: "int \<Rightarrow> lock_event \<Rightarrow> collector \<Rightarrow> collector" where
  "lock_event_step tolerance (Grant grant) co =
     (if isLocked (g_lockUID grant)
      then co\<lparr>co_locks := (co_locks co)[g_index grant := g_lockUID grant], co_i := co_i co + 1\<rparr>
      else lock_failed tolerance co)"
| "lock_event_step tolerance CtxDone co = lock_failed tolerance co"

fun lock_collect :: "nat \<Rightarrow> int \<Rightarrow> lock_event list \<Rightarrow> collector \<Rightarrow> collector" where
  "lock_collect n tolerance [] co = co"
| "lock_collect n tolerance (ev # evs) co =
     (if co_i co < n \<and> \<not> co_done co then lock_collect n tolerance evs (lock_event_step tolerance ev co) else co)"

definition quorumLocked :: "int \<Rightarrow> int \<Rightarrow> collector \<Rightarrow> bool" where
  "quorumLocked quorum tolerance co \<longleftrightarrow> checkQuorumLocked (co_locks co) quorum \<and> co_failed co \<le> tolerance"

text \<open>\<open>refreshLock\<close>: the answers in the order of arrival; the context may end the wait.\<close>

record refreshResult =
  rr_offline :: bool
  rr_refreshed :: bool

datatype refresh_event = Refreshed refreshResult | RefreshCtxDone gerror

fun refresh_collect :: "nat \<Rightarrow> int \<Rightarrow> refresh_event list \<Rightarrow> nat \<Rightarrow> int \<Rightarrow> int \<Rightarrow> gerror + bool" where
  "refresh_collect n quorum [] k lockNotFound lockRefreshed = Inr (lockNotFound > int n - quorum)"
| "refresh_collect n quorum (RefreshCtxDone err # evs) k lockNotFound lockRefreshed =
     (if k < n then Inl err else Inr (lockNotFound > int n - quorum))"
| "refresh_collect n quorum (Refreshed r # evs) k lockNotFound lockRefreshed =
     (if \<not> k < n then Inr (lockNotFound > int n - quorum)
      else if rr_offline r then refresh_collect n quorum evs (k + 1) lockNotFound lockRefreshed
      else
        let refreshed = (if rr_refreshed r then lockRefreshed + 1 else lockRefreshed);
            notFound = (if rr_refreshed r then lockNotFound else lockNotFound + 1)
        in if refreshed \<ge> quorum \<or> notFound > int n - quorum then Inr (notFound > int n - quorum)
           else refresh_collect n quorum evs (k + 1) notFound refreshed)"

definition refresh_one :: "('e, 's) NetLocker \<Rightarrow> 'e call \<Rightarrow> 's option \<Rightarrow> string \<Rightarrow> 's option \<times> refreshResult" where
  "refresh_one nl cl c uid =
     (case c of
        None \<Rightarrow> (None, \<lparr>rr_offline = True, rr_refreshed = False\<rparr>)
      | Some s \<Rightarrow>
          let args = \<lparr>la_UID = uid, la_Resources = [], la_Source = [], la_Owner = [], la_Quorum = None\<rparr>
          in case remote (nl_Refresh nl) cl s args of
               (s', refreshed, err) \<Rightarrow>
                 (Some s', if err \<noteq> None then \<lparr>rr_offline = True, rr_refreshed = False\<rparr>
                           else \<lparr>rr_offline = False, rr_refreshed = refreshed\<rparr>))"

text \<open>\<open>forceUnlock\<close> on one server: there is no check for nil here.\<close>

definition force_one :: "('e, 's) NetLocker \<Rightarrow> 'e call \<Rightarrow> 's option \<Rightarrow> string \<Rightarrow> gerror + 's" where
  "force_one nl cl c uid =
     (case c of
        None \<Rightarrow> Inl (GoPanic ''nil pointer dereference'')
      | Some s \<Rightarrow>
          let args = \<lparr>la_UID = uid, la_Resources = [], la_Source = [], la_Owner = [], la_Quorum = None\<rparr>
          in Inr (fst (remote (nl_ForceUnlock nl) cl s args)))"

section \<open>The protocol\<close>

text \<open>
  A request to lock: one \<open>lockBlocking\<close> call with its id, and what it asks for.
\<close>

record request =
  rq_UID :: string
  rq_Owner :: string
  rq_Source :: string
  rq_Names :: "string list"
  rq_Read :: bool

definition lock_args :: "request \<Rightarrow> int \<Rightarrow> LockArgs" where
  "lock_args rq quorum = \<lparr>la_UID = rq_UID rq, la_Resources = rq_Names rq, la_Source = rq_Source rq,
     la_Owner = rq_Owner rq, la_Quorum = Some quorum\<rparr>"

text \<open>The goroutine \<open>lock\<close> starts for one server.\<close>

definition request_one ::
  "('e, 's) NetLocker \<Rightarrow> 'e call \<Rightarrow> 's option \<Rightarrow> LockArgs \<Rightarrow> bool \<Rightarrow> nat \<Rightarrow> 's option \<times> Granted" where
  "request_one nl cl c args isReadLock index =
     (case c of
        None \<Rightarrow> (None, \<lparr>g_index = index, g_lockUID = []\<rparr>)
      | Some s \<Rightarrow>
          case remote (if isReadLock then nl_RLock nl else nl_Lock nl) cl s args of
            (s', locked, err) \<Rightarrow> (Some s', \<lparr>g_index = index, g_lockUID = (if locked then la_UID args else [])\<rparr>))"

datatype phase = Idle | Asking | Holding | Released

record client =
  cl_phase :: phase
  cl_attempt :: nat
  cl_co :: collector

text \<open>
  The world: the servers, the clients, the requests and answers in flight (with the client and its
  attempt) and the release calls that are still to run.
\<close>

record 's world =
  w_lockers :: "'s option list"
  w_client :: "nat \<Rightarrow> client"
  w_requests :: "(nat \<times> nat \<times> nat) multiset"
  w_answers :: "(nat \<times> nat \<times> Granted) multiset"
  w_releases :: "(nat \<times> nat \<times> string) multiset"

abbreviation w_n :: "'s world \<Rightarrow> nat" where
  "w_n w \<equiv> length (w_lockers w)"

datatype 'e event =
    Ask nat
  | Serve nat nat nat "'e call"
  | Receive nat Granted
  | TimeOut nat
  | Finish nat
  | Abandon nat nat Granted
  | Unlocking nat
  | Release nat nat string "'e call"
  | DropRelease nat nat string
  | Refreshing nat nat "'e call"

definition releases_of :: "nat \<Rightarrow> string list \<Rightarrow> (nat \<times> nat \<times> string) multiset" where
  "releases_of c locks = mset (map (\<lambda>j. (c, j, locks ! j)) (filter (\<lambda>j. isLocked (locks ! j)) [0..<length locks]))"

definition set_client :: "nat \<Rightarrow> client \<Rightarrow> 's world \<Rightarrow> 's world" where
  "set_client c x w = w\<lparr>w_client := (w_client w)(c := x)\<rparr>"

text \<open>Is client \<open>c\<close> still in the loop that collects answers?\<close>

definition collecting :: "'s world \<Rightarrow> nat \<Rightarrow> bool" where
  "collecting w c \<longleftrightarrow> cl_phase (w_client w c) = Asking
     \<and> co_i (cl_co (w_client w c)) < w_n w \<and> \<not> co_done (cl_co (w_client w c))"

definition ask :: "nat \<Rightarrow> 's world \<Rightarrow> 's world" where
  "ask c w = (let x = w_client w c; k = cl_attempt x + 1 in
     set_client c \<lparr>cl_phase = Asking, cl_attempt = k, cl_co = new_collector (w_n w)\<rparr>
       (w\<lparr>w_requests := w_requests w + mset (map (\<lambda>j. (c, k, j)) [0..<w_n w])\<rparr>))"

definition serve :: "('e, 's) NetLocker \<Rightarrow> request \<Rightarrow> nat \<Rightarrow> nat \<Rightarrow> nat \<Rightarrow> 'e call \<Rightarrow> 's world \<Rightarrow> 's world" where
  "serve nl rq c k j cl w =
     (case request_one nl cl (w_lockers w ! j) (lock_args rq (lock_quorum (int (w_n w)) (rq_Read rq))) (rq_Read rq) j of
        (s', g) \<Rightarrow> w\<lparr>w_lockers := (w_lockers w)[j := s'], w_requests := w_requests w - {#(c, k, j)#},
                      w_answers := add_mset (c, k, g) (w_answers w)\<rparr>)"

definition collect :: "request \<Rightarrow> nat \<Rightarrow> lock_event \<Rightarrow> 's world \<Rightarrow> 's world" where
  "collect rq c ev w = (let x = w_client w c in
     set_client c (x\<lparr>cl_co := lock_event_step (lock_tolerance (int (w_n w)) (rq_Read rq)) ev (cl_co x)\<rparr>) w)"

text \<open>After the loop: the lock is taken, or what was granted is released.\<close>

definition finish :: "request \<Rightarrow> nat \<Rightarrow> 's world \<Rightarrow> 's world" where
  "finish rq c w = (let x = w_client w c; n = int (w_n w) in
     if quorumLocked (lock_quorum n (rq_Read rq)) (lock_tolerance n (rq_Read rq)) (cl_co x)
     then set_client c (x\<lparr>cl_phase := Holding\<rparr>) w
     else set_client c (x\<lparr>cl_phase := Idle\<rparr>)
            (w\<lparr>w_releases := w_releases w + releases_of c (co_locks (cl_co x))\<rparr>))"

definition release :: "('e, 's) NetLocker \<Rightarrow> request \<Rightarrow> nat \<Rightarrow> nat \<Rightarrow> string \<Rightarrow> 'e call \<Rightarrow> 's world \<Rightarrow> 's world" where
  "release nl rq c j uid cl w =
     (case sendRelease nl cl (w_lockers w ! j) (rq_Owner rq) uid (rq_Read rq) (rq_Names rq) of
        (s', ok) \<Rightarrow> w\<lparr>w_lockers := (w_lockers w)[j := s'],
          w_releases := (if ok \<or> cl_phase (w_client w c) \<noteq> Released
                         then w_releases w - {#(c, j, uid)#} else w_releases w)\<rparr>)"

text \<open>
  One event, \<open>None\<close> where it is not enabled. An answer that comes after its attempt has ended is
  released by \<open>Abandon\<close>; a client that unlocks repeats a failed release (\<open>release_rounds\<close>) until it
  gives up (\<open>DropRelease\<close>).
\<close>

fun world_step :: "('e, 's) NetLocker \<Rightarrow> (nat \<Rightarrow> request) \<Rightarrow> 'e event \<Rightarrow> 's world \<Rightarrow> 's world option" where
  "world_step nl rq (Ask c) w = (if cl_phase (w_client w c) = Idle then Some (ask c w) else None)"
| "world_step nl rq (Serve c k j cl) w =
     (if (c, k, j) \<in># w_requests w \<and> j < w_n w then Some (serve nl (rq c) c k j cl w) else None)"
| "world_step nl rq (Receive c g) w =
     (if collecting w c \<and> (c, cl_attempt (w_client w c), g) \<in># w_answers w
      then Some (collect (rq c) c (Grant g)
             (w\<lparr>w_answers := w_answers w - {#(c, cl_attempt (w_client w c), g)#}\<rparr>)) else None)"
| "world_step nl rq (TimeOut c) w = (if collecting w c then Some (collect (rq c) c CtxDone w) else None)"
| "world_step nl rq (Finish c) w =
     (if cl_phase (w_client w c) = Asking \<and> \<not> collecting w c then Some (finish (rq c) c w) else None)"
| "world_step nl rq (Abandon c k g) w =
     (if (c, k, g) \<in># w_answers w \<and> (k \<noteq> cl_attempt (w_client w c) \<or> cl_phase (w_client w c) \<noteq> Asking)
      then Some (w\<lparr>w_answers := w_answers w - {#(c, k, g)#},
             w_releases := (if isLocked (g_lockUID g) then add_mset (c, g_index g, g_lockUID g) (w_releases w)
                            else w_releases w)\<rparr>) else None)"
| "world_step nl rq (Unlocking c) w =
     (if cl_phase (w_client w c) = Holding
      then Some (set_client c ((w_client w c)\<lparr>cl_phase := Released\<rparr>)
             (w\<lparr>w_releases := w_releases w + releases_of c (co_locks (cl_co (w_client w c)))\<rparr>)) else None)"
| "world_step nl rq (Release c j uid cl) w =
     (if (c, j, uid) \<in># w_releases w \<and> j < w_n w then Some (release nl (rq c) c j uid cl w) else None)"
| "world_step nl rq (DropRelease c j uid) w =
     (if (c, j, uid) \<in># w_releases w then Some (w\<lparr>w_releases := w_releases w - {#(c, j, uid)#}\<rparr>) else None)"
| "world_step nl rq (Refreshing c j cl) w =
     (if cl_phase (w_client w c) = Holding \<and> j < w_n w
      then Some (w\<lparr>w_lockers := (w_lockers w)[j := fst (refresh_one nl cl (w_lockers w ! j) (rq_UID (rq c)))]\<rparr>)
      else None)"

definition init_world :: "'s option list \<Rightarrow> 's world" where
  "init_world lockers = \<lparr>w_lockers = lockers,
     w_client = (\<lambda>c. \<lparr>cl_phase = Idle, cl_attempt = 0, cl_co = new_collector (length lockers)\<rparr>),
     w_requests = {#}, w_answers = {#}, w_releases = {#}\<rparr>"

inductive world_reachable ::
  "('e, 's) NetLocker \<Rightarrow> (nat \<Rightarrow> request) \<Rightarrow> 's option list \<Rightarrow> 's world \<Rightarrow> bool"
  for nl rq lockers where
  world_init: "world_reachable nl rq lockers (init_world lockers)"
| world_next: "world_reachable nl rq lockers w \<Longrightarrow> world_step nl rq ev w = Some w'
    \<Longrightarrow> world_reachable nl rq lockers w'"

fun run_events :: "('e, 's) NetLocker \<Rightarrow> (nat \<Rightarrow> request) \<Rightarrow> 'e event list \<Rightarrow> 's world \<Rightarrow> 's world option" where
  "run_events nl rq [] w = Some w"
| "run_events nl rq (ev # evs) w =
     (case world_step nl rq ev w of None \<Rightarrow> None | Some w' \<Rightarrow> run_events nl rq evs w')"

lemma run_events_reachable:
  "world_reachable nl rq lockers w \<Longrightarrow> run_events nl rq evs w = Some w' \<Longrightarrow> world_reachable nl rq lockers w'"
  by (induction nl rq evs w rule: run_events.induct) (auto split: option.splits intro: world_next)

section \<open>Safety\<close>

text \<open>
  What client \<open>c\<close> may believe to hold on server \<open>j\<close>: a slot it recorded, granted answers on their
  way, releases that are still to run. The invariant: a client that has not unlocked holds at least
  as many entries as it has claims.
\<close>

definition slot_claim :: "client \<Rightarrow> nat \<Rightarrow> nat" where
  "slot_claim x j = (if cl_phase x \<in> {Asking, Holding} \<and> isLocked (co_locks (cl_co x) ! j) then 1 else 0)"

definition answer_claims :: "nat \<Rightarrow> nat \<Rightarrow> (nat \<times> nat \<times> Granted) multiset \<Rightarrow> nat" where
  "answer_claims c j A = size (filter_mset (\<lambda>(c', k, g). c' = c \<and> g_index g = j \<and> isLocked (g_lockUID g)) A)"

definition claims :: "(nat \<Rightarrow> request) \<Rightarrow> 's world \<Rightarrow> nat \<Rightarrow> nat \<Rightarrow> nat" where
  "claims rq w c j = slot_claim (w_client w c) j + answer_claims c j (w_answers w)
     + count (w_releases w) (c, j, rq_UID (rq c))"

definition lview :: "('s \<Rightarrow> string \<Rightarrow> holder multiset) \<Rightarrow> 's option \<Rightarrow> string \<Rightarrow> holder multiset" where
  "lview view c n = (case c of None \<Rightarrow> {#} | Some s \<Rightarrow> view s n)"

definition holder :: "request \<Rightarrow> holder" where
  "holder r = (rq_UID r, rq_Owner r, \<not> rq_Read r)"

definition claims_backed :: "('s \<Rightarrow> string \<Rightarrow> holder multiset) \<Rightarrow> (nat \<Rightarrow> request) \<Rightarrow> 's world \<Rightarrow> bool" where
  "claims_backed view rq w \<longleftrightarrow>
     (\<forall>c j n. cl_phase (w_client w c) \<noteq> Released \<and> j < w_n w \<and> n \<in> set (rq_Names (rq c))
        \<longrightarrow> claims rq w c j \<le> count (lview view (w_lockers w ! j) n) (holder (rq c)))"

definition uid_ok :: "request \<Rightarrow> string \<Rightarrow> bool" where
  "uid_ok r u \<longleftrightarrow> u = [] \<or> u = rq_UID r"

definition client_ok :: "nat \<Rightarrow> request \<Rightarrow> client \<Rightarrow> bool" where
  "client_ok n r x \<longleftrightarrow> length (co_locks (cl_co x)) = n
     \<and> (\<forall>j < n. uid_ok r (co_locks (cl_co x) ! j))
     \<and> (cl_phase x = Holding \<longrightarrow> checkQuorumLocked (co_locks (cl_co x)) (lock_quorum (int n) (rq_Read r)))"

definition world_ok :: "('s \<Rightarrow> bool) \<Rightarrow> (nat \<Rightarrow> request) \<Rightarrow> 's world \<Rightarrow> bool" where
  "world_ok ok rq w \<longleftrightarrow>
     (\<forall>j < w_n w. pred_option ok (w_lockers w ! j))
     \<and> (\<forall>c. client_ok (w_n w) (rq c) (w_client w c))
     \<and> (\<forall>(c, k, g) \<in># w_answers w. uid_ok (rq c) (g_lockUID g) \<and> g_index g < w_n w)
     \<and> (\<forall>(c, j, u) \<in># w_releases w. u = rq_UID (rq c) \<and> j < w_n w)"

lemma set_client_simps [simp]:
  "w_lockers (set_client c x w) = w_lockers w"
  "w_client (set_client c x w) = (w_client w)(c := x)"
  "w_requests (set_client c x w) = w_requests w"
  "w_answers (set_client c x w) = w_answers w"
  "w_releases (set_client c x w) = w_releases w"
  by (simp_all add: set_client_def)

lemma isLocked_Nil [simp]: "\<not> isLocked []"
  by (simp add: isLocked_def)

lemma releases_of_count:
  assumes "j < length locks"
  shows "count (releases_of c locks) (c', j, u) = (if c' = c \<and> locks ! j = u \<and> isLocked u then 1 else 0)"
proof -
  let ?L = "map (\<lambda>j. (c, j, locks ! j)) (filter (\<lambda>j. isLocked (locks ! j)) [0..<length locks])"
  have "distinct ?L" by (auto simp: distinct_map inj_on_def)
  then have "count (mset ?L) (c', j, u) = (if (c', j, u) \<in> set ?L then 1 else 0)"
    unfolding distinct_count_atmost_1 by blast
  then show ?thesis using assms by (auto simp: releases_of_def)
qed

lemma answer_claims_add [simp]:
  "answer_claims c j (add_mset (c', k, g) A)
   = answer_claims c j A + (if c' = c \<and> g_index g = j \<and> isLocked (g_lockUID g) then 1 else 0)"
  by (simp add: answer_claims_def)

lemma answer_claims_remove:
  "(c', k, g) \<in># A \<Longrightarrow> answer_claims c j A = answer_claims c j (A - {#(c', k, g)#})
     + (if c' = c \<and> g_index g = j \<and> isLocked (g_lockUID g) then 1 else 0)"
  by (metis answer_claims_add insert_DiffM)

lemma client_okD:
  "client_ok n r x \<Longrightarrow> length (co_locks (cl_co x)) = n"
  "client_ok n r x \<Longrightarrow> j < n \<Longrightarrow> isLocked (co_locks (cl_co x) ! j) \<Longrightarrow> co_locks (cl_co x) ! j = rq_UID r"
  by (auto simp: client_ok_def uid_ok_def)

lemma releases_of_mem:
  "x \<in># releases_of c locks \<Longrightarrow> \<exists>j < length locks. x = (c, j, locks ! j) \<and> isLocked (locks ! j)"
  by (auto simp: releases_of_def)

lemma lock_event_step_slots:
  "length (co_locks (lock_event_step t ev co)) = length (co_locks co)"
  "j < length (co_locks co) \<Longrightarrow> co_locks (lock_event_step t ev co) ! j =
     (case ev of Grant g \<Rightarrow> if isLocked (g_lockUID g) \<and> j = g_index g then g_lockUID g else co_locks co ! j
      | CtxDone \<Rightarrow> co_locks co ! j)"
  by (cases ev; simp add: lock_failed_def nth_list_update)+

lemma client_ok_collect:
  assumes "client_ok n r x" and "cl_phase x = Asking" and "\<And>g. ev = Grant g \<Longrightarrow> uid_ok r (g_lockUID g)"
  shows "client_ok n r (x\<lparr>cl_co := lock_event_step t ev (cl_co x)\<rparr>)"
  using assms unfolding client_ok_def
  by (auto simp: lock_event_step_slots simp del: lock_event_step.simps split: lock_event.split)

lemma world_okD:
  assumes "world_ok ok rq w"
  shows "j < w_n w \<Longrightarrow> pred_option ok (w_lockers w ! j)"
    and "client_ok (w_n w) (rq c) (w_client w c)"
    and "(c, k, g) \<in># w_answers w \<Longrightarrow> uid_ok (rq c) (g_lockUID g) \<and> g_index g < w_n w"
    and "(c, j, u) \<in># w_releases w \<Longrightarrow> u = rq_UID (rq c) \<and> j < w_n w"
  using assms by (auto simp: world_ok_def)

lemma releases_ok:
  assumes "client_ok n (rq c) (w_client w c)" and "(c', j, u) \<in># releases_of c (co_locks (cl_co (w_client w c)))"
  shows "u = rq_UID (rq c') \<and> j < n"
  using releases_of_mem[OF assms(2)] client_okD[OF assms(1)] by auto

lemma world_ok_set_client:
  "world_ok ok rq w \<Longrightarrow> client_ok (w_n w) (rq c) x \<Longrightarrow> world_ok ok rq (set_client c x w)"
  by (simp add: world_ok_def)

lemma world_ok_more_releases:
  "world_ok ok rq w \<Longrightarrow> world_ok ok rq (w\<lparr>w_releases := w_releases w + releases_of c (co_locks (cl_co (w_client w c)))\<rparr>)"
  using releases_ok[of "w_n w" rq c w] by (auto simp: world_ok_def)

lemma world_ok_less:
  "world_ok ok rq w \<Longrightarrow> world_ok ok rq (w\<lparr>w_answers := w_answers w - A\<rparr>)"
  "world_ok ok rq w \<Longrightarrow> world_ok ok rq (w\<lparr>w_releases := w_releases w - R\<rparr>)"
  by (auto simp: world_ok_def dest: in_diffD)

lemma world_ok_locker:
  "world_ok ok rq w \<Longrightarrow> pred_option ok l \<Longrightarrow> world_ok ok rq (w\<lparr>w_lockers := (w_lockers w)[j := l]\<rparr>)"
  by (cases "j < w_n w") (auto simp: world_ok_def nth_list_update)

subsection \<open>One call to a server\<close>

context net_locker
begin

lemma lock_call_bound:
  assumes "inv s" and "(if rd then nl_RLock nl else nl_Lock nl) env s a = (s', lk, e)"
  shows "inv s' \<and> (\<forall>n h. count (view s n) h \<le> count (view s' n) h)
    \<and> (lk \<longrightarrow> (\<forall>n \<in> set (la_Resources a). count (view s n) (la_UID a, la_Owner a, \<not> rd)
                                       < count (view s' n) (la_UID a, la_Owner a, \<not> rd)))"
proof (cases rd)
  case True
  then show ?thesis using assms rlock_granted[of s env a s' e] rlock_refused[of s env a s' e]
    by (cases lk) auto
next
  case False
  show ?thesis
  proof (cases lk)
    case True
    then have "inv s' \<and> (\<forall>n. view s' n = (if n \<in> set (la_Resources a) then {#(la_UID a, la_Owner a, True)#} else view s n))
      \<and> (\<forall>n \<in> set (la_Resources a). view s n = {#})"
      using assms False lock_granted[of s env a s' e] by simp
    then show ?thesis using False by simp
  qed (use assms False lock_refused[of s env a s' e] in auto)
qed

lemma remote_lock_bound:
  assumes "inv s" and "remote (if rd then nl_RLock nl else nl_Lock nl) cl s a = (s', lk, e)"
  shows "inv s' \<and> (\<forall>n h. count (view s n) h \<le> count (view s' n) h)
    \<and> (lk \<longrightarrow> (\<forall>n \<in> set (la_Resources a). count (view s n) (la_UID a, la_Owner a, \<not> rd)
                                       < count (view s' n) (la_UID a, la_Owner a, \<not> rd)))"
proof (cases cl)
  case (ReplyLost env err)
  obtain s1 lk1 e1 where "(if rd then nl_RLock nl else nl_Lock nl) env s a = (s1, lk1, e1)"
    by (metis prod_cases3)
  then show ?thesis using lock_call_bound[OF assms(1), of rd env a s1 lk1 e1] assms(2) ReplyLost by auto
qed (use assms lock_call_bound[OF assms(1), of rd] in auto)

lemma release_call_bound:
  assumes "inv s" and "remote (if rd then nl_RUnlock nl else nl_Unlock nl) cl s a = (s', r, e)"
  shows "inv s' \<and> (\<forall>n h. count (view s n) h \<le> count (view s' n) h + (if fst h = la_UID a then 1 else 0))"
proof -
  have call: "(if rd then nl_RUnlock nl else nl_Unlock nl) env s a = (s1, r1, e1) \<Longrightarrow>
      inv s1 \<and> (\<forall>n h. count (view s n) h \<le> count (view s1 n) h + (if fst h = la_UID a then 1 else 0))" for env s1 r1 e1
    using unlock_bound[OF assms(1), of env a s1 r1 e1] runlock_bound[OF assms(1), of env a s1 r1 e1]
    by (auto split: if_splits)
  show ?thesis
  proof (cases cl)
    case (ReplyLost env err)
    obtain s1 r1 e1 where "(if rd then nl_RUnlock nl else nl_Unlock nl) env s a = (s1, r1, e1)"
      by (metis prod_cases3)
    from call[OF this] show ?thesis using assms(2) ReplyLost \<open>_ = (s1, r1, e1)\<close> by simp
  qed (use assms call in auto)
qed

lemma refresh_call_view:
  assumes "inv s" and "remote (nl_Refresh nl) cl s a = (s', r, e)"
  shows "inv s' \<and> view s' = view s"
proof (cases cl)
  case (ReplyLost env err)
  obtain s1 r1 e1 where "nl_Refresh nl env s a = (s1, r1, e1)" by (metis prod_cases3)
  from refresh_view[OF assms(1) this] this show ?thesis using assms(2) ReplyLost by simp
qed (use assms refresh_view in auto)

lemma request_one_bound:
  assumes "pred_option inv l" and "request_one nl cl l (lock_args r q) (rq_Read r) j = (l', g)"
  shows "pred_option inv l' \<and> (\<forall>n h. count (lview view l n) h \<le> count (lview view l' n) h)
    \<and> (isLocked (g_lockUID g) \<longrightarrow> (\<forall>n \<in> set (rq_Names r).
          count (lview view l n) (holder r) < count (lview view l' n) (holder r)))
    \<and> g_index g = j \<and> uid_ok r (g_lockUID g)"
proof (cases l)
  case None
  then show ?thesis using assms by (auto simp: request_one_def uid_ok_def)
next
  case (Some s)
  obtain s' lk e where c: "remote (if rq_Read r then nl_RLock nl else nl_Lock nl) cl s (lock_args r q) = (s', lk, e)"
    by (metis prod_cases3)
  then show ?thesis
    using assms Some remote_lock_bound[of s "rq_Read r" cl "lock_args r q" s' lk e]
    by (auto simp: request_one_def lview_def holder_def lock_args_def uid_ok_def)
qed

lemma sendRelease_bound:
  assumes "pred_option inv l" and "sendRelease nl cl l ow uid rd names = (l', ok)"
  shows "pred_option inv l'
    \<and> (\<forall>n h. count (lview view l n) h \<le> count (lview view l' n) h + (if fst h = uid then 1 else 0))"
proof (cases l)
  case None
  then show ?thesis using assms by (auto simp: sendRelease_def)
next
  case (Some s)
  let ?a = "\<lparr>la_UID = uid, la_Resources = names, la_Source = [], la_Owner = ow, la_Quorum = None\<rparr>"
  obtain s' r e where c: "remote (if rd then nl_RUnlock nl else nl_Unlock nl) cl s ?a = (s', r, e)"
    by (metis prod_cases3)
  show ?thesis
  proof (cases "uid = []")
    case False
    then have "l' = Some s'" using assms(2) Some c by (simp add: sendRelease_def)
    then show ?thesis using assms(1) Some release_call_bound[of s rd cl ?a s' r e] c by (simp add: lview_def)
  qed (use assms Some in \<open>auto simp: sendRelease_def\<close>)
qed

lemma refresh_one_bound:
  assumes "pred_option inv l"
  shows "pred_option inv (fst (refresh_one nl cl l uid)) \<and> lview view (fst (refresh_one nl cl l uid)) n = lview view l n"
proof (cases l)
  case None
  then show ?thesis by (simp add: refresh_one_def)
next
  case (Some s)
  let ?a = "\<lparr>la_UID = uid, la_Resources = [], la_Source = [], la_Owner = [], la_Quorum = None\<rparr>"
  obtain s' r e where c: "remote (nl_Refresh nl) cl s ?a = (s', r, e)" by (metis prod_cases3)
  then show ?thesis
    using assms Some refresh_call_view[of s cl ?a s' r e] by (simp add: refresh_one_def lview_def)
qed

subsection \<open>The invariant\<close>

lemma step_world_ok:
  assumes ok: "world_ok inv rq w" and st: "world_step nl rq ev w = Some w'"
  shows "world_ok inv rq w'"
proof (cases ev)
  case (Ask c)
  have "client_ok (w_n w) (rq c) \<lparr>cl_phase = Asking, cl_attempt = cl_attempt (w_client w c) + 1, cl_co = new_collector (w_n w)\<rparr>"
    by (simp add: client_ok_def new_collector_def uid_ok_def)
  moreover have "world_ok inv rq (w\<lparr>w_requests := R\<rparr>)" for R using ok by (simp add: world_ok_def)
  ultimately show ?thesis using st Ask
    by (auto simp: ask_def Let_def intro!: world_ok_set_client split: if_splits)
next
  case (Serve c k j cl)
  let ?r = "request_one nl cl (w_lockers w ! j) (lock_args (rq c) (lock_quorum (int (w_n w)) (rq_Read (rq c)))) (rq_Read (rq c)) j"
  obtain l' g where r: "?r = (l', g)" by fastforce
  have "pred_option inv l' \<and> g_index g = j \<and> uid_ok (rq c) (g_lockUID g) \<and> j < w_n w"
    using request_one_bound[OF _ r] world_okD(1)[OF ok, of j] st Serve by (auto split: if_splits)
  then show ?thesis using st world_ok_locker[OF ok, of l' j] Serve r by (auto simp: serve_def world_ok_def split: if_splits)
next
  case (Receive c g)
  let ?k = "cl_attempt (w_client w c)"
  have "client_ok (w_n w) (rq c) ((w_client w c)\<lparr>cl_co := lock_event_step (lock_tolerance (int (w_n w)) (rq_Read (rq c))) (Grant g) (cl_co (w_client w c))\<rparr>)"
    using world_okD(2)[OF ok, of c] world_okD(3)[OF ok, of c ?k g] st Receive
    by (intro client_ok_collect) (auto simp: collecting_def split: if_splits)
  then show ?thesis using st Receive world_ok_less[OF ok]
    by (auto simp: collect_def Let_def intro!: world_ok_set_client split: if_splits)
next
  case (TimeOut c)
  have "client_ok (w_n w) (rq c) ((w_client w c)\<lparr>cl_co := lock_event_step (lock_tolerance (int (w_n w)) (rq_Read (rq c))) CtxDone (cl_co (w_client w c))\<rparr>)"
    using world_okD(2)[OF ok, of c] st TimeOut
    by (intro client_ok_collect) (auto simp: collecting_def split: if_splits)
  then show ?thesis using st TimeOut ok
    by (auto simp: collect_def Let_def intro!: world_ok_set_client split: if_splits)
next
  case (Finish c)
  then show ?thesis using st world_okD(2)[OF ok, of c]
    by (auto simp: finish_def Let_def quorumLocked_def client_ok_def split: if_splits
        intro!: world_ok_set_client world_ok_more_releases ok)
next
  case (Abandon c k g)
  then have "uid_ok (rq c) (g_lockUID g) \<and> g_index g < w_n w"
    using world_okD(3)[OF ok, of c k g] st by (simp split: if_splits)
  then show ?thesis using st Abandon world_ok_less(1)[OF ok, of "{#(c, k, g)#}"]
    by (cases "isLocked (g_lockUID g)") (auto simp: world_ok_def uid_ok_def split: if_splits)
next
  case (Unlocking c)
  then show ?thesis using st world_okD(2)[OF ok, of c]
    by (auto simp: client_ok_def split: if_splits intro!: world_ok_set_client world_ok_more_releases ok)
next
  case (Release c j uid cl)
  let ?r = "sendRelease nl cl (w_lockers w ! j) (rq_Owner (rq c)) uid (rq_Read (rq c)) (rq_Names (rq c))"
  obtain l' b where r: "?r = (l', b)" by fastforce
  have "pred_option inv l'"
    using sendRelease_bound[OF _ r] world_okD(1)[OF ok, of j] st Release by (auto split: if_splits)
  note l = world_ok_locker[OF ok this, of j]
  show ?thesis using st Release r l world_ok_less(2)[OF l, of "{#(c, j, uid)#}"]
    by (cases "b \<or> cl_phase (w_client w c) \<noteq> Released") (simp_all add: release_def split: if_splits)
next
  case (DropRelease c j uid)
  then show ?thesis using st world_ok_less[OF ok] by (auto split: if_splits)
next
  case (Refreshing c j cl)
  then show ?thesis using st refresh_one_bound[OF world_okD(1)[OF ok, of j]]
    by (auto split: if_splits intro!: world_ok_locker ok)
qed

text \<open>How the claims of a client change, and that the servers keep up with them.\<close>

lemma step_claims:
  assumes ok: "world_ok inv rq w" and st: "world_step nl rq ev w = Some w'" and l: "w_lockers w' = w_lockers w"
    and j: "j < w_n w" and r: "cl_phase (w_client w' c) \<noteq> Released"
    and ev: "\<And>c k j cl. ev \<noteq> Serve c k j cl" "\<And>c j u cl. ev \<noteq> Release c j u cl"
  shows "cl_phase (w_client w c) \<noteq> Released \<and> claims rq w' c j \<le> claims rq w c j"
proof (cases ev)
  case (Ask d)
  then show ?thesis using st r j by (auto simp: ask_def Let_def claims_def slot_claim_def new_collector_def split: if_splits)
next
  case (Receive d g)
  let ?k = "cl_attempt (w_client w d)" and ?x = "w_client w d"
  have a: "cl_phase ?x = Asking" "(d, ?k, g) \<in># w_answers w"
    and w': "w' = collect (rq d) d (Grant g) (w\<lparr>w_answers := w_answers w - {#(d, ?k, g)#}\<rparr>)"
    using st Receive by (auto simp: collecting_def split: if_splits)
  have "slot_claim (?x\<lparr>cl_co := lock_event_step t (Grant g) (cl_co ?x)\<rparr>) j
      \<le> slot_claim ?x j + (if g_index g = j \<and> isLocked (g_lockUID g) then 1 else 0)" for t
    using client_okD(1)[OF world_okD(2)[OF ok, of d]] j
    by (auto simp: slot_claim_def lock_event_step_slots simp del: lock_event_step.simps)
  then show ?thesis using r a answer_claims_remove[OF a(2), of c j] unfolding w'
    by (auto simp: collect_def Let_def claims_def simp del: lock_event_step.simps)
next
  case (TimeOut d)
  then show ?thesis using st r j client_okD(1)[OF world_okD(2)[OF ok, of d]]
    by (auto simp: collect_def Let_def claims_def collecting_def slot_claim_def lock_failed_def split: if_splits)
next
  case (Finish d)
  let ?q = "quorumLocked (lock_quorum (int (w_n w)) (rq_Read (rq d))) (lock_tolerance (int (w_n w)) (rq_Read (rq d))) (cl_co (w_client w d))"
  have p: "cl_phase (w_client w d) = Asking" and w': "w' = finish (rq d) d w"
    using st Finish by (auto split: if_splits)
  show ?thesis
  proof (cases ?q)
    case True
    then show ?thesis using r p unfolding w' by (auto simp: finish_def Let_def claims_def slot_claim_def)
  next
    case False
    have "slot_claim ((w_client w d)\<lparr>cl_phase := Idle\<rparr>) j = 0" by (simp add: slot_claim_def)
    moreover have "count (releases_of d (co_locks (cl_co (w_client w d)))) (c, j, rq_UID (rq c))
        \<le> (if c = d then slot_claim (w_client w d) j else 0)"
      using j p client_okD(1)[OF world_okD(2)[OF ok, of d]]
      by (auto simp: slot_claim_def releases_of_count)
    ultimately show ?thesis using r p False unfolding w' by (auto simp: finish_def Let_def claims_def)
  qed
next
  case (Abandon d k g)
  then have "(d, k, g) \<in># w_answers w" using st by (simp split: if_splits)
  from answer_claims_remove[OF this, of c j] world_okD(3)[OF ok this] show ?thesis
    using st r Abandon by (auto simp: claims_def uid_ok_def split: if_splits)
next
  case (Unlocking d)
  then show ?thesis using st r j client_okD[OF world_okD(2)[OF ok, of d]]
    by (auto simp: claims_def releases_of_count split: if_splits)
next
  case (DropRelease d i u)
  then show ?thesis using st r by (auto simp: claims_def split: if_splits)
next
  case (Refreshing d i cl)
  then show ?thesis using st r by (auto simp: claims_def split: if_splits)
qed (use ev in auto)

lemma step_claims_backed:
  assumes ok: "world_ok inv rq w" and cb: "claims_backed view rq w" and st: "world_step nl rq ev w = Some w'"
    and uids: "inj (\<lambda>c. rq_UID (rq c))"
  shows "claims_backed view rq w'"
proof -
  have quiet: "claims_backed view rq w'"
    if "w_lockers w' = w_lockers w" "\<And>c k j cl. ev \<noteq> Serve c k j cl" "\<And>c j u cl. ev \<noteq> Release c j u cl"
    unfolding claims_backed_def
  proof (intro allI impI)
    fix c j n assume a: "cl_phase (w_client w' c) \<noteq> Released \<and> j < w_n w' \<and> n \<in> set (rq_Names (rq c))"
    then have "cl_phase (w_client w c) \<noteq> Released \<and> claims rq w' c j \<le> claims rq w c j"
      using step_claims[OF ok st that(1) _ _ that(2,3), of j c] that(1) by auto
    moreover from this have "claims rq w c j \<le> count (lview view (w_lockers w ! j) n) (holder (rq c))"
      using cb a that(1) by (simp add: claims_backed_def)
    ultimately show "claims rq w' c j \<le> count (lview view (w_lockers w' ! j) n) (holder (rq c))"
      using that(1) by simp
  qed
  have backed: "claims rq w c j \<le> count (lview view (w_lockers w ! j) n) (holder (rq c))"
    if "cl_phase (w_client w c) \<noteq> Released" "j < w_n w" "n \<in> set (rq_Names (rq c))" for c j n
    using cb that by (simp add: claims_backed_def)
  show ?thesis
  proof (cases ev)
    case (Serve d k i cl)
    let ?r = "request_one nl cl (w_lockers w ! i) (lock_args (rq d) (lock_quorum (int (w_n w)) (rq_Read (rq d)))) (rq_Read (rq d)) i"
    obtain l' g where r: "?r = (l', g)" by fastforce
    have i: "i < w_n w" and w': "w' = w\<lparr>w_lockers := (w_lockers w)[i := l'], w_requests := w_requests w - {#(d, k, i)#},
        w_answers := add_mset (d, k, g) (w_answers w)\<rparr>"
      using st Serve r by (auto simp: serve_def split: if_splits)
    note b = request_one_bound[OF world_okD(1)[OF ok i] r]
    show ?thesis unfolding claims_backed_def
    proof (intro allI impI)
      fix c j n assume a: "cl_phase (w_client w' c) \<noteq> Released \<and> j < w_n w' \<and> n \<in> set (rq_Names (rq c))"
      then have c: "claims rq w c j \<le> count (lview view (w_lockers w ! j) n) (holder (rq c))"
        using backed w' by simp
      show "claims rq w' c j \<le> count (lview view (w_lockers w' ! j) n) (holder (rq c))"
      proof (cases "j = i")
        case True
        have m: "count (lview view (w_lockers w ! i) n) (holder (rq c)) \<le> count (lview view l' n) (holder (rq c))"
          and l: "isLocked (g_lockUID g) \<Longrightarrow> c = d \<Longrightarrow>
            count (lview view (w_lockers w ! i) n) (holder (rq c)) < count (lview view l' n) (holder (rq c))"
          using conjunct1[OF conjunct2[OF b]] conjunct1[OF conjunct2[OF conjunct2[OF b]]] a by blast+
        have "g_index g = i" using b by blast
        then have "claims rq w' c j = claims rq w c j + (if d = c \<and> isLocked (g_lockUID g) then 1 else 0)"
          using True by (simp add: claims_def w')
        then show ?thesis using c m l True i by (auto simp: w' split: if_splits)
      next
        case False
        then show ?thesis using c b by (auto simp: claims_def w')
      qed
    qed
  next
    case (Release d i u cl)
    let ?r = "sendRelease nl cl (w_lockers w ! i) (rq_Owner (rq d)) u (rq_Read (rq d)) (rq_Names (rq d))"
    obtain l' b where r: "?r = (l', b)" by fastforce
    have i: "(d, i, u) \<in># w_releases w" "i < w_n w"
      and w': "w' = w\<lparr>w_lockers := (w_lockers w)[i := l'], w_releases :=
        (if b \<or> cl_phase (w_client w d) \<noteq> Released then w_releases w - {#(d, i, u)#} else w_releases w)\<rparr>"
      using st Release r by (auto simp: release_def split: if_splits)
    have u: "u = rq_UID (rq d)" using world_okD(4)[OF ok i(1)] by simp
    note b = conjunct2[OF sendRelease_bound[OF world_okD(1)[OF ok i(2)] r], rule_format]
    show ?thesis unfolding claims_backed_def
    proof (intro allI impI)
      fix c j n assume a: "cl_phase (w_client w' c) \<noteq> Released \<and> j < w_n w' \<and> n \<in> set (rq_Names (rq c))"
      then have c: "claims rq w c j \<le> count (lview view (w_lockers w ! j) n) (holder (rq c))"
        and p: "cl_phase (w_client w c) \<noteq> Released"
        using backed w' by auto
      have "fst (holder (rq c)) = u \<longleftrightarrow> c = d" using uids u by (auto simp: holder_def dest: injD)
      with b[of n "holder (rq c)"] have bc: "count (lview view (w_lockers w ! i) n) (holder (rq c))
          \<le> count (lview view l' n) (holder (rq c)) + (if c = d then 1 else 0)" by simp
      have "claims rq w' c j + (if c = d \<and> j = i then 1 else 0) \<le> claims rq w c j"
        using p i(1) u by (auto simp: claims_def w')
      then show "claims rq w' c j \<le> count (lview view (w_lockers w' ! j) n) (holder (rq c))"
        using c bc i by (cases "j = i") (auto simp: w' split: if_splits)
    qed
  next
    case (Refreshing d i cl)
    then show ?thesis using st cb refresh_one_bound[OF world_okD(1)[OF ok, of i]]
      by (auto simp: claims_backed_def claims_def nth_list_update split: if_splits)
  qed (use st quiet in \<open>auto simp: ask_def collect_def finish_def Let_def split: if_splits\<close>)
qed

lemma reachable_ok:
  assumes "world_reachable nl rq lockers w" and "\<forall>l \<in> set lockers. pred_option inv l" and "inj (\<lambda>c. rq_UID (rq c))"
  shows "world_ok inv rq w \<and> claims_backed view rq w"
  using assms(1)
proof (induction rule: world_reachable.induct)
  case world_init
  then show ?case using assms(2)
    by (auto simp: world_ok_def claims_backed_def init_world_def client_ok_def new_collector_def uid_ok_def
        claims_def slot_claim_def answer_claims_def)
next
  case (world_next w ev w')
  then show ?case using step_world_ok step_claims_backed assms(3) by blast
qed

text \<open>A lock that is held stands on at least a quorum of the servers.\<close>

lemma holding_servers:
  assumes "world_ok inv rq w" and "claims_backed view rq w" and "cl_phase (w_client w c) = Holding"
    and "n \<in> set (rq_Names (rq c))"
  shows "lock_quorum (int (w_n w)) (rq_Read (rq c))
    \<le> int (card {j. j < w_n w \<and> holder (rq c) \<in># lview view (w_lockers w ! j) n})"
proof -
  let ?L = "co_locks (cl_co (w_client w c))"
  note co = world_okD(2)[OF assms(1), of c]
  have "int (length (filter isLocked ?L)) \<ge> lock_quorum (int (w_n w)) (rq_Read (rq c))"
    using co assms(3) by (simp add: client_ok_def checkQuorumLocked_def)
  moreover have "length (filter isLocked ?L) = card {j. j < w_n w \<and> isLocked (?L ! j)}"
    using client_okD(1)[OF co] by (simp add: length_filter_conv_card)
  moreover have "card {j. j < w_n w \<and> isLocked (?L ! j)} \<le> card {j. j < w_n w \<and> holder (rq c) \<in># lview view (w_lockers w ! j) n}"
  proof (rule card_mono)
    show "{j. j < w_n w \<and> isLocked (?L ! j)} \<subseteq> {j. j < w_n w \<and> holder (rq c) \<in># lview view (w_lockers w ! j) n}"
    proof (intro subsetI CollectI)
      fix j assume "j \<in> {j. j < w_n w \<and> isLocked (?L ! j)}"
      then have j: "j < w_n w" "isLocked (?L ! j)" by auto
      have "1 \<le> claims rq w c j" using assms(3) j by (simp add: claims_def slot_claim_def)
      also have "\<dots> \<le> count (lview view (w_lockers w ! j) n) (holder (rq c))"
        using assms(2-4) j by (simp add: claims_backed_def)
      finally show "j < w_n w \<and> holder (rq c) \<in># lview view (w_lockers w ! j) n"
        using j by (simp add: Suc_le_eq)
    qed
  qed simp
  ultimately show ?thesis by linarith
qed

lemma holders_exclude:
  assumes "world_reachable nl rq lockers w" and "\<forall>l \<in> set lockers. pred_option inv l" and "inj (\<lambda>c. rq_UID (rq c))"
    and "cl_phase (w_client w c) = Holding" and "cl_phase (w_client w d) = Holding"
    and "n \<in> set (rq_Names (rq c))" and "n \<in> set (rq_Names (rq d))" and "\<not> rq_Read (rq c)"
  shows "c = d"
proof -
  note ok = conjunct1[OF reachable_ok[OF assms(1-3)]] and cb = conjunct2[OF reachable_ok[OF assms(1-3)]]
  let ?S = "\<lambda>c. {j. j < w_n w \<and> holder (rq c) \<in># lview view (w_lockers w ! j) n}"
  have "lock_quorum (int (w_n w)) False + lock_quorum (int (w_n w)) b > int (w_n w)" for b
    by (rule quorums_overlap)
  then have "int (w_n w) < int (card (?S c)) + int (card (?S d))"
    using holding_servers[OF ok cb assms(4,6)] holding_servers[OF ok cb assms(5,7)] assms(8)
    by (smt (verit))
  moreover have "card (?S c \<union> ?S d) \<le> card {..<w_n w}" by (rule card_mono) auto
  ultimately have "?S c \<inter> ?S d \<noteq> {}"
    using card_Un_disjoint[of "?S c" "?S d"] by fastforce
  then obtain j s where j: "j < w_n w" and m: "holder (rq c) \<in># view s n" "holder (rq d) \<in># view s n"
    and s: "w_lockers w ! j = Some s"
    by (auto simp: lview_def split: option.splits)
  have "inv s" using world_okD(1)[OF ok j] s by simp
  then have "view s n = {#holder (rq c)#}"
    using exclusive m(1) assms(8) by (simp add: holder_def)
  then have "holder (rq d) = holder (rq c)" using m(2) by simp
  then show ?thesis using assms(3) by (auto simp: holder_def dest: injD)
qed

end

section \<open>Collecting answers, exactly\<close>

abbreviation granted :: "Granted list \<Rightarrow> nat" where
  "granted gs \<equiv> length (filter (\<lambda>g. isLocked (g_lockUID g)) gs)"

text \<open>While the failures stay within the tolerance, every answer is counted; once they exceed it
  they stay there.\<close>

lemma filter_update_locked:
  assumes "i < length xs" and "\<not> isLocked (xs ! i)" and "isLocked u"
  shows "length (filter isLocked (xs[i := u])) = length (filter isLocked xs) + 1"
  using assms by (induction xs arbitrary: i) (auto simp: nth_Cons split: nat.splits)

lemma lock_collect_all:
  assumes "distinct (map g_index gs)"
    and "\<forall>g \<in> set gs. g_index g < length (co_locks co) \<and> \<not> isLocked (co_locks co ! g_index g)"
    and "co_i co + length gs \<le> n" and "\<not> co_done co"
    and "co_failed co + int (length gs - granted gs) \<le> tol"
  shows "co_failed (lock_collect n tol (map Grant gs) co) = co_failed co + int (length gs - granted gs)
    \<and> length (filter isLocked (co_locks (lock_collect n tol (map Grant gs) co)))
      = length (filter isLocked (co_locks co)) + granted gs"
  using assms
proof (induction gs arbitrary: co)
  case (Cons g gs)
  let ?co = "lock_event_step tol (Grant g) co"
  have le: "granted gs \<le> length gs" by simp
  have slots: "\<forall>h \<in> set gs. g_index h < length (co_locks ?co) \<and> \<not> isLocked (co_locks ?co ! g_index h)"
    using Cons.prems(1,2) by (auto simp: lock_event_step_slots simp del: lock_event_step.simps) (metis image_eqI)
  show ?case
  proof (cases "isLocked (g_lockUID g)")
    case True
    then have f: "co_failed ?co = co_failed co" "\<not> co_done ?co" "co_i ?co = co_i co + 1"
      using Cons.prems(4) by auto
    have "length (filter isLocked (co_locks ?co)) = length (filter isLocked (co_locks co)) + 1"
      using True Cons.prems(2) by (simp add: filter_update_locked)
    then show ?thesis
      using Cons.IH[of ?co] Cons.prems(1,3-5) f slots True by (simp del: lock_event_step.simps)
  next
    case False
    then have f: "co_failed ?co = co_failed co + 1" "co_i ?co = co_i co + 1" "co_locks ?co = co_locks co"
      and d: "co_done ?co \<longleftrightarrow> co_failed co + 1 > tol"
      using Cons.prems(4) by (auto simp: lock_failed_def)
    have "int (length (g # gs) - granted (g # gs)) = 1 + int (length gs - granted gs)"
      using False le by (simp add: Suc_diff_le)
    then show ?thesis
      using Cons.IH[of ?co] Cons.prems(1,3-5) f d slots False by (simp del: lock_event_step.simps)
  qed
qed simp

lemma lock_collect_too_many:
  assumes "co_i co + length gs \<le> n" and "\<not> co_done co"
    and "tol < co_failed co + int (length gs - granted gs)"
  shows "tol < co_failed (lock_collect n tol (map Grant gs) co)"
  using assms
proof (induction gs arbitrary: co)
  case (Cons g gs)
  let ?co = "lock_event_step tol (Grant g) co"
  have le: "granted gs \<le> length gs" by simp
  have stop: "co_done x \<Longrightarrow> lock_collect n tol evs x = x" for x evs by (cases evs) auto
  show ?case
  proof (cases "isLocked (g_lockUID g)")
    case True
    then show ?thesis using Cons.IH[of ?co] Cons.prems by simp
  next
    case False
    then have f: "co_failed ?co = co_failed co + 1" "co_i ?co = co_i co + 1"
      and d: "co_done ?co \<longleftrightarrow> co_failed co + 1 > tol"
      using Cons.prems(2) by (auto simp: lock_failed_def)
    have "int (length (g # gs) - granted (g # gs)) = 1 + int (length gs - granted gs)"
      using False le by (simp add: Suc_diff_le)
    then show ?thesis
      using Cons.IH[of ?co] Cons.prems f d stop[of ?co "map Grant gs"]
      by (cases "co_failed co + 1 > tol") (simp_all del: lock_event_step.simps)
  qed
qed simp

text \<open>The answers of a refresh that says the lock is gone.\<close>

abbreviation not_found :: "refreshResult list \<Rightarrow> int" where
  "not_found rs \<equiv> int (length (filter (\<lambda>r. \<not> rr_offline r \<and> \<not> rr_refreshed r) rs))"

lemma refresh_collect_exact:
  "k + length rs = n \<Longrightarrow> ref + nf \<le> int k \<Longrightarrow> 0 \<le> nf \<Longrightarrow> nf \<le> int n - quorum \<Longrightarrow>
   refresh_collect n quorum (map Refreshed rs) k nf ref = Inr (nf + not_found rs > int n - quorum)"
proof (induction rs arbitrary: k nf ref)
  case (Cons r rs)
  have l: "int (length (filter (\<lambda>r. \<not> rr_offline r \<and> \<not> rr_refreshed r) rs)) \<le> int (length rs)" by simp
  have n: "int n = int k + int (length rs) + 1" using Cons.prems(1) by simp
  then have key: "quorum \<le> ref + 1 \<Longrightarrow> nf + not_found rs \<le> int n - quorum"
    using l Cons.prems(2) by linarith
  show ?case
  proof (cases "rr_offline r")
    case True
    then show ?thesis using Cons.IH[of "k + 1" ref nf] Cons.prems by simp
  next
    case False
    show ?thesis
    proof (cases "rr_refreshed r")
      case True
      then show ?thesis using False Cons.IH[of "k + 1" "ref + 1" nf] Cons.prems key
        by (cases "quorum \<le> ref + 1") (auto simp: Let_def)
    next
      case no: False
      have "quorum \<le> ref \<Longrightarrow> nf + 1 + not_found rs \<le> int n - quorum" using l n Cons.prems(2) by linarith
      then show ?thesis using no False Cons.IH[of "k + 1" ref "nf + 1"] Cons.prems
        by (cases "quorum \<le> ref") (auto simp: Let_def)
    qed
  qed
qed simp

section \<open>Releasing\<close>

context net_locker
begin

lemma sendRelease_frees:
  assumes "inv s" and "ow \<noteq> []" and "uid \<noteq> []" and "\<forall>n \<in> set names. view s n = {#(uid, ow, True)#}"
    and "sendRelease nl cl (Some s) ow uid False names = (c, True)"
  shows "\<exists>s'. c = Some s' \<and> inv s' \<and> (\<forall>n \<in> set names. view s' n = {#})"
proof -
  let ?a = "\<lparr>la_UID = uid, la_Resources = names, la_Source = [], la_Owner = ow, la_Quorum = None\<rparr>"
  obtain s' r where c: "remote (nl_Unlock nl) cl s ?a = (s', r, None)" "c = Some s'"
    using assms(3,5) by (cases "remote (nl_Unlock nl) cl s ?a") (auto simp: sendRelease_def)
  then obtain env where "nl_Unlock nl env s ?a = (s', r, None)" by (cases cl) auto
  from unlock_held[OF assms(1) _ _ this] assms(2,4) c(2) show ?thesis by simp
qed

lemma releaseAll_frees:
  assumes "length locks = length lockers" and "ow \<noteq> []"
    and "\<forall>j < length lockers. \<exists>s. lockers ! j = Some s \<and> inv s
           \<and> (\<forall>n \<in> set names. view s n = (if isLocked (locks ! j) then {#(locks ! j, ow, True)#} else {#}))"
    and "releaseAll nl calls (quo (int (length lockers)) 2) ow locks False lockers names = (lockers', locks', True)"
  shows "lock_quorum (int (length lockers)) False
    \<le> int (card {j. j < length lockers \<and> (\<exists>s. lockers' ! j = Some s \<and> inv s \<and> (\<forall>n \<in> set names. view s n = {#}))})"
proof -
  let ?N = "length lockers"
  let ?free = "\<lambda>j. \<exists>s. lockers' ! j = Some s \<and> inv s \<and> (\<forall>n \<in> set names. view s n = {#})"
  let ?sent = "\<lambda>j. sendRelease nl (calls j) (lockers ! j) ow (locks ! j) False names"
  have len: "length locks' = ?N" and nok: "\<not> checkFailedUnlocks locks' (quo (int ?N) 2)"
    and l': "\<And>j. j < ?N \<Longrightarrow> lockers' ! j = fst (?sent j)"
    and k': "\<And>j. j < ?N \<Longrightarrow> locks' ! j = (if snd (?sent j) then [] else locks ! j)"
    using assms(4) by (auto simp: releaseAll_def Let_def)
  have free: "?free j" if j: "j < ?N" "\<not> isLocked (locks' ! j)" for j
  proof -
    obtain s where s: "lockers ! j = Some s" "inv s"
      "\<forall>n \<in> set names. view s n = (if isLocked (locks ! j) then {#(locks ! j, ow, True)#} else {#})"
      using assms(3) j(1) by blast
    show ?thesis
    proof (cases "isLocked (locks ! j)")
      case False
      then have "fst (?sent j) = Some s" using s(1) by (simp add: sendRelease_def isLocked_def)
      then show ?thesis using l'[OF j(1)] s False by auto
    next
      case True
      then have "snd (?sent j)" using k'[OF j(1)] j(2) by (simp split: if_splits)
      then obtain c where "?sent j = (c, True)" by (metis prod.collapse)
      then show ?thesis
        using sendRelease_frees[of s ow "locks ! j" names "calls j" c] s assms(2) True l'[OF j(1)]
        by (auto simp: isLocked_def)
    qed
  qed
  have "{j. j < ?N \<and> \<not> isLocked (locks' ! j)} \<subseteq> {j. j < ?N \<and> ?free j}" using free by blast
  then have "card {j. j < ?N \<and> \<not> isLocked (locks' ! j)} \<le> card {j. j < ?N \<and> ?free j}" by (intro card_mono) auto
  moreover have "length (filter isLocked locks') + card {j. j < ?N \<and> \<not> isLocked (locks' ! j)} = ?N"
    using sum_length_filter_compl[of isLocked locks'] len by (simp add: length_filter_conv_card)
  moreover have "lock_quorum (int ?N) False \<le> int ?N - int (length (filter isLocked locks'))"
    using nok len by (auto simp: checkFailedUnlocks_def lock_quorum_def Let_def split: if_splits)
  ultimately show ?thesis by linarith
qed

end

section \<open>Properties\<close>

text \<open>C16: two clients that hold a lock with a name in common, one of them for writing, are the same
  client: whatever the order in which requests, answers and releases of all clients run, whichever
  are lost or time out, and however many servers are missing. The servers are local lockers; the
  requests have ids of their own. (A server neither restarts nor expires locks here.)\<close>

theorem dsync_mutual_exclusion:
  assumes "world_reachable local_netlocker rq lockers w"
    and "\<forall>l \<in> set lockers. pred_option locker_inv l" and "inj (\<lambda>c. rq_UID (rq c))"
    and "cl_phase (w_client w c) = Holding" and "cl_phase (w_client w d) = Holding"
    and "n \<in> set (rq_Names (rq c))" and "n \<in> set (rq_Names (rq d))" and "\<not> rq_Read (rq c)"
  shows "c = d"
  using assms by (rule local_locker.holders_exclude)


text \<open>Two writers of one name on three servers, of which one is missing.\<close>

definition sample_request :: "nat \<Rightarrow> request" where
  "sample_request c = \<lparr>rq_UID = ''u'' @ digits c, rq_Owner = ''node'', rq_Source = [], rq_Names = [''b/o''], rq_Read = False\<rparr>"

definition sample_events :: "(gerror option \<times> int) event list" where
  "sample_events = (let go = Delivered (None, 0) in
     [Ask 0, Ask 1, Serve 0 1 0 go, Serve 1 1 0 go, Serve 0 1 1 go, Serve 0 1 2 go,
      Receive 0 \<lparr>g_index = 0, g_lockUID = ''u0''\<rparr>, Receive 0 \<lparr>g_index = 1, g_lockUID = ''u0''\<rparr>,
      Receive 0 \<lparr>g_index = 2, g_lockUID = []\<rparr>, Finish 0])"

definition sample_lockers :: "localLocker option list" where
  "sample_lockers = [Some newLocker, Some newLocker, None]"

definition sample_world :: "localLocker world" where
  "sample_world = (case run_events local_netlocker sample_request sample_events (init_world sample_lockers) of
     Some w \<Rightarrow> w | None \<Rightarrow> init_world sample_lockers)"

lemma sample_world_reachable: "world_reachable local_netlocker sample_request sample_lockers sample_world"
  unfolding sample_world_def
  by (auto split: option.split intro: world_init run_events_reachable)

lemma sample_request_inj: "inj (\<lambda>c. rq_UID (sample_request c))"
  by (simp add: inj_def sample_request_def)

lemma sample_world_phase: "cl_phase (w_client sample_world 0) = Holding"
  by code_simp

theorem dsync_mutual_exclusion_witness:
  "cl_phase (w_client sample_world 0) = Holding \<and> cl_phase (w_client sample_world 1) \<noteq> Holding"
proof -
  have "\<forall>l \<in> set sample_lockers. pred_option locker_inv l"
    by (simp add: sample_lockers_def newLocker_def locker_inv_def map_inv_def)
  note * = dsync_mutual_exclusion[OF sample_world_reachable this sample_request_inj sample_world_phase, of 1 "''b/o''"]
  have "cl_phase (w_client sample_world 1) \<noteq> Holding"
    using * by (auto simp: sample_request_def)
  then show ?thesis using sample_world_phase by blast
qed

text \<open>the outcome of collecting the answers of all servers does not depend on the order in which
  they arrive: the lock is taken exactly when a quorum of them granted it. The early exit never
  gives away a lock that could still be had.\<close>

theorem grant_collection_exact:
  assumes "mset (map g_index gs) = mset [0..<n]"
  shows "quorumLocked (lock_quorum (int n) rd) (lock_tolerance (int n) rd)
      (lock_collect n (lock_tolerance (int n) rd) (map Grant gs) (new_collector n))
    \<longleftrightarrow> lock_quorum (int n) rd \<le> int (granted gs)"
proof -
  let ?t = "lock_tolerance (int n) rd" and ?q = "lock_quorum (int n) rd" and ?f = "int (length gs - granted gs)"
  have len: "length gs = n" using assms by (metis length_map length_upt minus_nat.diff_0 size_mset)
  have d: "distinct (map g_index gs)" using assms by (metis distinct_upt mset_eq_imp_distinct_iff)
  have "set (map g_index gs) = {0..<n}" using assms by (metis set_mset_mset set_upt)
  then have i: "\<forall>g \<in> set gs. g_index g < n" by auto
  have tq: "?q + ?t = int n" by (rule quorum_tolerance)
  have g: "int (granted gs) + ?f = int n" using len length_filter_le[of "\<lambda>g. isLocked (g_lockUID g)" gs] by simp
  show ?thesis
  proof (cases "?f \<le> ?t")
    case True
    then show ?thesis
      using lock_collect_all[of gs "new_collector n" n ?t] d i len tq g
      by (simp add: quorumLocked_def checkQuorumLocked_def new_collector_def)
  next
    case False
    then show ?thesis
      using lock_collect_too_many[of "new_collector n" gs n ?t] len tq g
      by (simp add: quorumLocked_def new_collector_def)
  qed
qed

theorem grant_collection_exact_witness:
  "quorumLocked (lock_quorum 2 False) (lock_tolerance 2 False)
     (lock_collect 2 (lock_tolerance 2 False)
        (map Grant [\<lparr>g_index = 1, g_lockUID = ''u''\<rparr>, \<lparr>g_index = 0, g_lockUID = ''u''\<rparr>]) (new_collector 2))"
proof -
  have "mset (map g_index [\<lparr>g_index = 1, g_lockUID = ''u''\<rparr>, \<lparr>g_index = 0, g_lockUID = ''u''\<rparr>]) = mset [0..<2]"
    by (simp add: upt_rec)
  from grant_collection_exact[OF this, of False] show ?thesis
    by (simp add: lock_quorum_def Let_def isLocked_def)
qed

text \<open>a refresh in which every server was heard or found offline reports the loss of the lock
  exactly when so many servers do not know it that the others are no quorum any more, whatever the order of the answers;
  servers that are offline do not count against the lock.\<close>

theorem refresh_loss_exact:
  assumes "length rs = n" and "0 \<le> quorum" and "quorum \<le> int n"
  shows "refresh_collect n quorum (map Refreshed rs) 0 0 0 = Inr (not_found rs > int n - quorum)"
  using refresh_collect_exact[of 0 rs n 0 0 quorum] assms by simp

theorem refresh_loss_exact_witness:
  "refresh_collect 3 2 (map Refreshed [\<lparr>rr_offline = True, rr_refreshed = False\<rparr>,
      \<lparr>rr_offline = False, rr_refreshed = False\<rparr>, \<lparr>rr_offline = False, rr_refreshed = False\<rparr>]) 0 0 0 = Inr True"
  using refresh_loss_exact[of "[\<lparr>rr_offline = True, rr_refreshed = False\<rparr>,
      \<lparr>rr_offline = False, rr_refreshed = False\<rparr>, \<lparr>rr_offline = False, rr_refreshed = False\<rparr>]" 3 2] by simp

text \<open>when the release of a write lock reports success (half of the servers may fail to
  answer), the names are free again on enough servers for the next writer's quorum.\<close>

theorem unlock_leaves_write_quorum:
  assumes "length locks = length lockers" and "ow \<noteq> []"
    and "\<forall>j < length lockers. \<exists>l. lockers ! j = Some l \<and> locker_inv l
           \<and> (\<forall>n \<in> set names. locker_view l n = (if isLocked (locks ! j) then {#(locks ! j, ow, True)#} else {#}))"
    and "releaseAll local_netlocker calls (quo (int (length lockers)) 2) ow locks False lockers names = (lockers', locks', True)"
  shows "lock_quorum (int (length lockers)) False
    \<le> int (card {j. j < length lockers \<and> (\<exists>l. lockers' ! j = Some l \<and> canTakeLock l names)})"
proof -
  have "{j. j < length lockers \<and> (\<exists>l. lockers' ! j = Some l \<and> locker_inv l \<and> (\<forall>n \<in> set names. locker_view l n = {#}))}
      \<subseteq> {j. j < length lockers \<and> (\<exists>l. lockers' ! j = Some l \<and> canTakeLock l names)}"
    by (auto simp: canTakeLock_held locker_view_def)
  then have "card {j. j < length lockers \<and> (\<exists>l. lockers' ! j = Some l \<and> locker_inv l \<and> (\<forall>n \<in> set names. locker_view l n = {#}))}
      \<le> card {j. j < length lockers \<and> (\<exists>l. lockers' ! j = Some l \<and> canTakeLock l names)}" by (intro card_mono) auto
  then show ?thesis using local_locker.releaseAll_frees[OF assms] by linarith
qed

text \<open>One server that granted the names to the write lock \<open>u\<close>.\<close>

definition sample_locked :: localLocker where
  "sample_locked = fst (Lock None 5 newLocker (sample_args ''u'' [''a'']))"

lemma sample_locked_state: "locker_inv sample_locked" "locker_view sample_locked ''a'' = {#(''u'', ''node'', True)#}"
proof -
  have "locker_inv newLocker" by (simp add: newLocker_def locker_inv_def map_inv_def)
  from Lock_inv[OF this] show "locker_inv sample_locked" by (simp add: sample_locked_def)
  show "locker_view sample_locked ''a'' = {#(''u'', ''node'', True)#}"
    by (simp add: sample_locked_def Lock_def sample_args_def newLocker_def maxDeleteList_def lockMutexWaitLimit_def
        canTakeLock_def locker_view_def held_def holder_of_def)
qed

theorem unlock_leaves_write_quorum_witness:
  "2 \<le> int (card {j. j < (3::nat) \<and> (\<exists>l. fst (releaseAll local_netlocker
       (\<lambda>j. if j = 2 then RequestLost ErrDiskNotFound else Delivered (None, 7)) 1 ''node'' [''u'', ''u'', ''u''] False
       [Some sample_locked, Some sample_locked, Some sample_locked] [''a'']) ! j = Some l \<and> canTakeLock l [''a''])})"
proof -
  let ?ls = "[Some sample_locked, Some sample_locked, Some sample_locked]"
  let ?c = "\<lambda>j::nat. if j = 2 then RequestLost ErrDiskNotFound else Delivered (None, 7 :: int)"
  obtain ls' locks' ok where r: "releaseAll local_netlocker ?c 1 ''node'' [''u'', ''u'', ''u''] False ?ls [''a''] = (ls', locks', ok)"
    using prod_cases3 by blast
  have ok using r
    by (simp add: releaseAll_def sendRelease_def local_netlocker_def checkFailedUnlocks_def isLocked_def Unlock_def
        maxDeleteList_def sample_locked_def Lock_def sample_args_def newLocker_def lockMutexWaitLimit_def canTakeLock_def
        isWriteLock_def Let_def upt_rec removeEntry_def)
  then show ?thesis
    using unlock_leaves_write_quorum[of "[''u'', ''u'', ''u'']" ?ls "''node''" "[''a'']" ?c ls' locks'] r sample_locked_state
    by (simp add: isLocked_def lock_quorum_def less_Suc_eq numeral_3_eq_3)
qed

text \<open>unlocking a mutex leaves it as it was. A second \<open>Unlock\<close> of a mutex that was locked
  once is not detected as an error: it starts another release of the same locks.\<close>

theorem unlock_twice_not_detected:
  assumes "length locks = n" and "length (dm_writeLocks dm) = n" and "1 \<le> quorum" and "checkQuorumLocked locks quorum"
  shows "drw_Unlock n (granted_lock False locks dm) = Inr (granted_lock False locks dm, locks, quo (int n) 2)"
proof -
  have "list_ex isLocked locks"
  proof (rule ccontr)
    assume "\<not> list_ex isLocked locks"
    then have "filter isLocked locks = []" by (simp add: list_ex_iff filter_empty_conv)
    then show False using assms(3,4) by (simp add: checkQuorumLocked_def)
  qed
  then show ?thesis using assms(1,2) by (simp add: drw_Unlock_def granted_lock_def copy_into_def)
qed

theorem unlock_twice_not_detected_witness:
  "(case drw_Unlock 1 (granted_lock False [''u''] (NewDRWMutex 1 [''o''])) of
      Inl e \<Rightarrow> False
    | Inr (dm, locks, t) \<Rightarrow> drw_Unlock 1 dm = Inr (dm, [''u''], 0))"
proof -
  have "drw_Unlock 1 (granted_lock False [''u''] (NewDRWMutex 1 [''o'']))
      = Inr (granted_lock False [''u''] (NewDRWMutex 1 [''o'']), [''u''], quo (int 1) 2)"
    by (rule unlock_twice_not_detected[where quorum = 1])
       (simp_all add: NewDRWMutex_def checkQuorumLocked_def isLocked_def)
  then show ?thesis by simp
qed

text \<open>A server that is nil is skipped by every call but \<open>forceUnlock\<close>.\<close>

lemma forceUnlock_panics_on_nil:
  "force_one nl cl None uid = Inl (GoPanic ''nil pointer dereference'')"
  "fst (refresh_one nl cl None uid) = None" "fst (sendRelease nl cl None ow uid rd names) = None"
  by (simp_all add: force_one_def refresh_one_def sendRelease_def)

end
