(* ===== verification/Crc32.thy ===== *)
theory Crc32
  imports Go_Prelude
begin

unbundle bit_operations_syntax

text \<open>
  The checksum of \<open>hash/crc32\<close> with the IEEE polynomial, which the placement of objects
  (\<open>hashOrder\<close>, \<open>crcHashMod\<close>) and the frames of \<open>cmd/fastopen-frame.go\<close> use, bit by bit, and
  what makes it an error-detecting code: no step loses information.
\<close>

text \<open>One bit of the reflected algorithm, one byte, a sequence of bytes.\<close>

definition crc_shift :: "32 word \<Rightarrow> 32 word" where
  "crc_shift c = (if bit c 0 then drop_bit 1 c XOR 0xEDB88320 else drop_bit 1 c)"

definition crc_byte :: "byte \<Rightarrow> 32 word \<Rightarrow> 32 word" where
  "crc_byte b c = (crc_shift ^^ 8) (c XOR ucast b)"

definition ChecksumIEEE :: "byte list \<Rightarrow> 32 word" where
  "ChecksumIEEE bs = NOT (fold crc_byte bs (NOT 0))"

text \<open>The bytes of a string.\<close>

definition bytes_of :: "string \<Rightarrow> byte list" where
  "bytes_of s = map of_char s"

lemma bytes_of_simps [simp]: "bytes_of [] = []" "length (bytes_of s) = length s"
  by (simp_all add: bytes_of_def)

lemma xor_cancel: "a XOR p = b XOR p \<longleftrightarrow> a = b" for a b p :: "'a::len word"
proof
  assume "a XOR p = b XOR p"
  then have "(a XOR p) XOR p = (b XOR p) XOR p" by simp
  then show "a = b" by (simp add: xor.assoc)
qed simp

lemma poly_top: "bit (0xEDB88320 :: 32 word) 31"
  by simp

lemma crc_shift_top: "bit (crc_shift c) 31 = bit c 0"
  by (auto simp: crc_shift_def bit_simps dest: bit_imp_le_length)

lemma crc_shift_inject: "crc_shift c = crc_shift d \<Longrightarrow> c = d"
proof -
  assume eq: "crc_shift c = crc_shift d"
  then have b0: "bit c 0 = bit d 0" by (metis crc_shift_top)
  have "drop_bit 1 c = drop_bit 1 d"
  proof (cases "bit c 0")
    case True
    then have "drop_bit 1 c XOR 0xEDB88320 = drop_bit 1 d XOR 0xEDB88320"
      using eq b0 by (simp add: crc_shift_def)
    then show ?thesis by (simp only: xor_cancel)
  qed (use eq b0 in \<open>simp add: crc_shift_def\<close>)
  then have "bit c (Suc n) = bit d (Suc n)" for n
    by (metis bit_drop_bit_eq comp_apply plus_1_eq_Suc)
  then show ?thesis
    using b0 by (metis bit_word_eqI not0_implies_Suc)
qed

lemma crc_shifts_inject: "(crc_shift ^^ n) c = (crc_shift ^^ n) d \<Longrightarrow> c = d"
  by (induction n) (auto dest: crc_shift_inject)

lemma crc_byte_inject: "crc_byte b c = crc_byte b d \<longleftrightarrow> c = d"
proof
  assume "crc_byte b c = crc_byte b d"
  then have "c XOR ucast b = d XOR ucast b" unfolding crc_byte_def by (rule crc_shifts_inject)
  then show "c = d" by (simp only: xor_cancel)
qed simp

lemma crc_byte_inject_byte: "crc_byte a c = crc_byte b c \<longleftrightarrow> a = b"
proof
  assume "crc_byte a c = crc_byte b c"
  then have "c XOR ucast a = c XOR ucast b" unfolding crc_byte_def by (rule crc_shifts_inject)
  then have "ucast a = (ucast b :: 32 word)" by (simp only: xor.commute[of c] xor_cancel)
  then have *: "bit (ucast a :: 32 word) n = bit (ucast b :: 32 word) n" for n by simp
  have "bit a n = bit b n" if "n < 8" for n
    using *[of n] that by (simp add: bit_ucast_iff)
  then show "a = b" by (intro bit_word_eqI) simp
qed simp

lemma fold_crc_inject: "fold crc_byte bs c = fold crc_byte bs d \<longleftrightarrow> c = d"
  by (induction bs arbitrary: c d) (auto simp: crc_byte_inject)

text \<open>Two messages that differ in one byte have different checksums.\<close>

lemma crc_single_byte:
  assumes "a \<noteq> b"
  shows "ChecksumIEEE (xs @ a # ys) \<noteq> ChecksumIEEE (xs @ b # ys)"
proof -
  have "crc_byte a c \<noteq> crc_byte b c" for c using assms by (simp add: crc_byte_inject_byte)
  then have "fold crc_byte (xs @ a # ys) (NOT 0) \<noteq> fold crc_byte (xs @ b # ys) (NOT 0)"
    by (simp add: fold_crc_inject)
  then show ?thesis by (simp add: ChecksumIEEE_def)
qed

text \<open>The check value of the algorithm's catalogue entry.\<close>

lemma crc_check_value: "ChecksumIEEE (bytes_of ''a'') = 0xE8B7BE43"
  by code_simp

end
