(* ===== verification/Disk_Shuffle.thy ===== *)
theory Disk_Shuffle
  imports File_Info Crc32
begin

text \<open>
  The placement of an object: which erasure set a name is hashed to (\<open>cmd/erasure-sets.go\<close>), which
  shard each drive of the set gets (\<open>hashOrder\<close>, \<open>newFileInfo\<close>) and the functions of
  \<open>cmd/erasure-metadata-utils.go\<close> that bring drives and metadata into the order of the shards.
  A drive is \<open>Some\<close> of something, nil is \<open>None\<close>. SipHash is a parameter.
\<close>

section \<open>Sets\<close>

definition formatErasureVersionV2DistributionAlgoV1 :: string where
  "formatErasureVersionV2DistributionAlgoV1 = ''CRCMOD''"
definition formatErasureVersionV3DistributionAlgoV2 :: string where
  "formatErasureVersionV3DistributionAlgoV2 = ''SIPMOD''"
definition formatErasureVersionV3DistributionAlgoV3 :: string where
  "formatErasureVersionV3DistributionAlgoV3 = ''SIPMOD+PARITY''"

text \<open>\<open>binary.LittleEndian.Uint64\<close> of eight bytes.\<close>

definition LittleEndian_Uint64 :: "byte list \<Rightarrow> 64 word" where
  "LittleEndian_Uint64 bs = word_rcat (rev (take 8 bs))"

definition sipHashMod ::
  "(64 word \<Rightarrow> 64 word \<Rightarrow> byte list \<Rightarrow> 64 word) \<Rightarrow> string \<Rightarrow> int \<Rightarrow> byte list \<Rightarrow> int" where
  "sipHashMod siphash key cardinality i =
     (if cardinality \<le> 0 then -1
      else let k0 = LittleEndian_Uint64 (take 8 i); k1 = LittleEndian_Uint64 (drop 8 i);
               sum64 = siphash k0 k1 (bytes_of key)
           in uint (sum64 mod word_of_int cardinality))"

definition crcHashMod :: "string \<Rightarrow> int \<Rightarrow> gerror + int" where
  "crcHashMod key cardinality =
     (if cardinality \<le> 0 then Inr (-1)
      else if (word_of_int cardinality :: 32 word) = 0 then Inl (GoPanic ''integer divide by zero'')
      else Inr (uint (ChecksumIEEE (bytes_of key) mod word_of_int cardinality)))"

definition hashKey ::
  "(64 word \<Rightarrow> 64 word \<Rightarrow> byte list \<Rightarrow> 64 word) \<Rightarrow> string \<Rightarrow> string \<Rightarrow> int \<Rightarrow> byte list \<Rightarrow> gerror + int" where
  "hashKey siphash algo key cardinality i =
     (if algo = formatErasureVersionV2DistributionAlgoV1 then crcHashMod key cardinality
      else if algo = formatErasureVersionV3DistributionAlgoV2 \<or> algo = formatErasureVersionV3DistributionAlgoV3
        then Inr (sipHashMod siphash key cardinality i)
      else Inr (-1))"

definition getHashedSet ::
  "(64 word \<Rightarrow> 64 word \<Rightarrow> byte list \<Rightarrow> 64 word) \<Rightarrow> string \<Rightarrow> byte list \<Rightarrow> 'a list \<Rightarrow> string \<Rightarrow> gerror + 'a" where
  "getHashedSet siphash algo deploymentID sets input =
     (case hashKey siphash algo input (int (length sets)) deploymentID of
        Inl e \<Rightarrow> Inl e
      | Inr k \<Rightarrow> if 0 \<le> k \<and> k < int (length sets) then Inr (sets ! nat k)
                 else Inl (GoPanic ''index out of range''))"

section \<open>The order of the shards\<close>

definition hashOrder :: "string \<Rightarrow> int \<Rightarrow> gerror + int slice" where
  "hashOrder key cardinality =
     (if cardinality \<le> 0 then Inr None
      else if (word_of_int cardinality :: 32 word) = 0 then Inl (GoPanic ''integer divide by zero'')
      else let start = uint (ChecksumIEEE (bytes_of key) mod word_of_int cardinality)
           in Inr (Some (map (\<lambda>i. 1 + (start + i) mod cardinality) [1..cardinality])))"

definition erasureAlgorithm :: string where
  "erasureAlgorithm = ''rs-vandermonde''"

definition blockSizeV2 :: int where
  "blockSizeV2 = 1 * 1024 * 1024"

definition newFileInfo :: "string \<Rightarrow> int \<Rightarrow> int \<Rightarrow> gerror + FileInfo" where
  "newFileInfo object dataBlocks parityBlocks =
     (case hashOrder object (dataBlocks + parityBlocks) of
        Inl e \<Rightarrow> Inl e
      | Inr d \<Rightarrow> Inr (FileInfo0\<lparr>fi_Erasure := ErasureInfo0\<lparr>ei_Algorithm := erasureAlgorithm,
          ei_DataBlocks := dataBlocks, ei_ParityBlocks := parityBlocks, ei_BlockSize := blockSizeV2,
          ei_Distribution := d\<rparr>\<rparr>))"

section \<open>Shuffling\<close>

text \<open>\<open>xs[i] = v\<close>, \<open>xs[i]\<close>.\<close>

definition store_at :: "int \<Rightarrow> 'a \<Rightarrow> 'a list \<Rightarrow> gerror + 'a list" where
  "store_at i v xs = (if 0 \<le> i \<and> i < int (length xs) then Inr (xs[nat i := v])
                      else Inl (GoPanic ''index out of range''))"

definition load_at :: "nat \<Rightarrow> 'a list \<Rightarrow> gerror + 'a" where
  "load_at i xs = (if i < length xs then Inr (xs ! i) else Inl (GoPanic ''index out of range''))"

fun shuffle_loop :: "nat \<Rightarrow> 'a list \<Rightarrow> int list \<Rightarrow> 'a list \<Rightarrow> gerror + 'a list" where
  "shuffle_loop index [] distribution shuffled = Inr shuffled"
| "shuffle_loop index (x # input) distribution shuffled =
     (case load_at index distribution of
        Inl e \<Rightarrow> Inl e
      | Inr blockIndex \<Rightarrow>
          (case store_at (blockIndex - 1) x shuffled of
             Inl e \<Rightarrow> Inl e
           | Inr shuffled' \<Rightarrow> shuffle_loop (index + 1) input distribution shuffled'))"

text \<open>\<open>z\<close> is the zero value of the element type.\<close>

definition shuffleWithDist :: "'a \<Rightarrow> 'a list \<Rightarrow> int slice \<Rightarrow> gerror + 'a list" where
  "shuffleWithDist z input distribution =
     (case distribution of
        None \<Rightarrow> Inr input
      | Some d \<Rightarrow> shuffle_loop 0 input d (replicate (length input) z))"

definition shufflePartsMetadata :: "FileInfo list \<Rightarrow> int slice \<Rightarrow> gerror + FileInfo list" where
  "shufflePartsMetadata = shuffleWithDist FileInfo0"

definition shuffleCheckParts :: "int list \<Rightarrow> int slice \<Rightarrow> gerror + int list" where
  "shuffleCheckParts = shuffleWithDist 0"

definition shuffleDisks :: "'d option list \<Rightarrow> int slice \<Rightarrow> gerror + 'd option list" where
  "shuffleDisks = shuffleWithDist None"

text \<open>\<open>shuffleDisksAndPartsMetadata\<close>: \<open>skip\<close> is the validation of the read phase.\<close>

definition read_phase_skip :: "FileInfo \<Rightarrow> FileInfo \<Rightarrow> bool" where
  "read_phase_skip fi meta \<longleftrightarrow>
     \<not> IsZero (fi_ModTime fi) \<and> (\<not> IsValid meta \<or> fi_XLV1 fi \<noteq> fi_XLV1 meta)"

fun shuffle_both ::
  "FileInfo \<Rightarrow> 'd option list \<Rightarrow> nat \<Rightarrow> FileInfo list \<Rightarrow> 'd option list \<Rightarrow> FileInfo list
   \<Rightarrow> gerror + 'd option list \<times> FileInfo list" where
  "shuffle_both fi disks index [] sd sm = Inr (sd, sm)"
| "shuffle_both fi disks index (meta # metas) sd sm =
     (case load_at index disks of
        Inl e \<Rightarrow> Inl e
      | Inr disk \<Rightarrow>
          if disk = None \<or> read_phase_skip fi meta then shuffle_both fi disks (index + 1) metas sd sm
          else (case load_at index (elems (ei_Distribution (fi_Erasure fi))) of
             Inl e \<Rightarrow> Inl e
           | Inr blockIndex \<Rightarrow>
               (case store_at (blockIndex - 1) meta sm of
                  Inl e \<Rightarrow> Inl e
                | Inr sm' \<Rightarrow>
                    (case store_at (blockIndex - 1) disk sd of
                       Inl e \<Rightarrow> Inl e
                     | Inr sd' \<Rightarrow> shuffle_both fi disks (index + 1) metas sd' sm'))))"

definition shuffleDisksAndPartsMetadata ::
  "'d option list \<Rightarrow> FileInfo list \<Rightarrow> FileInfo \<Rightarrow> gerror + 'd option list \<times> FileInfo list" where
  "shuffleDisksAndPartsMetadata disks partsMetadata fi =
     shuffle_both fi disks 0 partsMetadata (replicate (length disks) None)
       (replicate (length partsMetadata) FileInfo0)"

fun by_index_loop ::
  "FileInfo \<Rightarrow> 'd option list \<Rightarrow> nat \<Rightarrow> FileInfo list \<Rightarrow> 'd option list \<Rightarrow> FileInfo list \<Rightarrow> int
   \<Rightarrow> gerror + 'd option list \<times> FileInfo list \<times> int" where
  "by_index_loop fi disks i [] sd sm inconsistent = Inr (sd, sm, inconsistent)"
| "by_index_loop fi disks i (meta # metas) sd sm inconsistent =
     (case load_at i disks of
        Inl e \<Rightarrow> Inl e
      | Inr disk \<Rightarrow>
          if disk = None \<or> \<not> IsValid meta \<or> fi_XLV1 meta \<noteq> fi_XLV1 fi
          then by_index_loop fi disks (i + 1) metas sd sm (inconsistent + 1)
          else (case load_at i (elems (ei_Distribution (fi_Erasure fi))) of
             Inl e \<Rightarrow> Inl e
           | Inr d \<Rightarrow>
               if d \<noteq> ei_Index (fi_Erasure meta)
               then by_index_loop fi disks (i + 1) metas sd sm (inconsistent + 1)
               else (case store_at (ei_Index (fi_Erasure meta) - 1) disk sd of
                  Inl e \<Rightarrow> Inl e
                | Inr sd' \<Rightarrow>
                    (case store_at (ei_Index (fi_Erasure meta) - 1) meta sm of
                       Inl e \<Rightarrow> Inl e
                     | Inr sm' \<Rightarrow> by_index_loop fi disks (i + 1) metas sd' sm' inconsistent))))"

definition shuffleDisksAndPartsMetadataByIndex ::
  "'d option list \<Rightarrow> FileInfo list \<Rightarrow> FileInfo \<Rightarrow> gerror + 'd option list \<times> FileInfo list" where
  "shuffleDisksAndPartsMetadataByIndex disks metaArr fi =
     (case by_index_loop fi disks 0 metaArr (replicate (length disks) None) (replicate (length disks) FileInfo0) 0 of
        Inl e \<Rightarrow> Inl e
      | Inr (sd, sm, inconsistent) \<Rightarrow>
          if inconsistent < ei_ParityBlocks (fi_Erasure fi) then Inr (sd, sm)
          else shuffleDisksAndPartsMetadata disks metaArr fi)"

section \<open>Permutations\<close>

text \<open>A distribution: every shard number from 1 to \<open>n\<close>, once. \<open>slot\<close> is where drive \<open>i\<close> goes.\<close>

definition is_distribution :: "nat \<Rightarrow> int list \<Rightarrow> bool" where
  "is_distribution n d \<longleftrightarrow> length d = n \<and> distinct d \<and> set d = {1..int n}"

abbreviation slot :: "int list \<Rightarrow> nat \<Rightarrow> nat" where
  "slot d i \<equiv> nat (d ! i - 1)"

lemma slot_lt: "is_distribution n d \<Longrightarrow> i < n \<Longrightarrow> 1 \<le> d ! i \<and> d ! i \<le> int n \<and> slot d i < n"
  using nth_mem[of i d] by (fastforce simp: is_distribution_def)

lemma slot_inj: "is_distribution n d \<Longrightarrow> i < n \<Longrightarrow> j < n \<Longrightarrow> slot d i = slot d j \<longleftrightarrow> i = j"
proof -
  assume d: "is_distribution n d" and i: "i < n" and j: "j < n"
  have "slot d i = slot d j \<longleftrightarrow> d ! i = d ! j"
    using slot_lt[OF d i] slot_lt[OF d j] by (simp add: eq_nat_nat_iff)
  then show ?thesis using d i j by (simp add: is_distribution_def nth_eq_iff_index_eq)
qed

lemma slot_surj: "is_distribution n d \<Longrightarrow> k < n \<Longrightarrow> \<exists>i < n. slot d i = k"
proof -
  assume d: "is_distribution n d" and k: "k < n"
  then have "int k + 1 \<in> set d" by (simp add: is_distribution_def)
  then obtain i where "i < n" "d ! i = int k + 1" using d by (auto simp: in_set_conv_nth is_distribution_def)
  then show ?thesis by auto
qed

lemma store_load [simp]:
  "is_distribution n d \<Longrightarrow> i < n \<Longrightarrow> length xs = n \<Longrightarrow> store_at (d ! i - 1) v xs = Inr (xs[slot d i := v])"
  "i < length ys \<Longrightarrow> load_at i ys = Inr (ys ! i)"
  using slot_lt[of n d i] by (auto simp: store_at_def load_at_def)

lemma uint_mod_word32:
  assumes "0 < c" and "c < 2 ^ 32"
  shows "0 \<le> uint ((x :: 32 word) mod word_of_int c) \<and> uint (x mod word_of_int c) < c"
proof -
  have "uint (word_of_int c :: 32 word) = c" using assms by (simp add: uint_word_of_int)
  then show ?thesis using assms(1) by (simp add: uint_mod_distrib)
qed

lemma word_of_int_nz: "0 < c \<Longrightarrow> c < 2 ^ 32 \<Longrightarrow> (word_of_int c :: 32 word) \<noteq> 0"
proof
  assume c: "0 < c" "c < 2 ^ 32" and "(word_of_int c :: 32 word) = 0"
  then have "uint (word_of_int c :: 32 word) = 0" by simp
  then show False using c by (simp add: uint_word_of_int)
qed

lemma rotation_is_distribution:
  assumes "0 < n"
  shows "is_distribution n (map (\<lambda>i. 1 + (start + i) mod int n) [1..int n])"
proof -
  let ?d = "map (\<lambda>i. 1 + (start + i) mod int n) [1..int n]"
  have inj: "inj_on (\<lambda>i. 1 + (start + i) mod int n) {1..int n}"
  proof (rule inj_onI)
    fix i j assume ij: "i \<in> {1..int n}" "j \<in> {1..int n}" "1 + (start + i) mod int n = 1 + (start + j) mod int n"
    then have "(start + i) mod int n = (start + j) mod int n" by simp
    then have "int n dvd (start + i) - (start + j)" by (simp only: mod_eq_dvd_iff)
    then have "int n dvd i - j" by simp
    then show "i = j" using ij(1,2) dvd_imp_le_int[of "i - j" "int n"] by fastforce
  qed
  have dist: "distinct ?d" using inj by (simp add: distinct_map)
  have len: "length ?d = n" by simp
  have "(start + i) mod int n < int n" for i using assms by simp
  then have "1 + (start + i) mod int n \<le> int n" for i by (metis add.commute zless_imp_add1_zle)
  then have sub: "set ?d \<subseteq> {1..int n}" using assms by auto
  have "card (set ?d) = card {1..int n}" using dist len by (simp only: distinct_card) simp
  then have "set ?d = {1..int n}" using sub by (metis card_subset_eq finite_atLeastAtMost_int)
  then show ?thesis using dist len by (simp only: is_distribution_def)
qed

section \<open>The loops\<close>

text \<open>What every shuffle does: drive or entry \<open>k\<close> (of those still to come, from \<open>i\<close> on) is stored
  in its slot if \<open>P k\<close>, every other slot keeps what it had.\<close>

definition placed :: "int list \<Rightarrow> nat \<Rightarrow> nat \<Rightarrow> (nat \<Rightarrow> bool) \<Rightarrow> 'a list \<Rightarrow> 'a list \<Rightarrow> 'a list \<Rightarrow> bool" where
  "placed d n i P input xs ys \<longleftrightarrow> length ys = length xs
     \<and> (\<forall>k. i \<le> k \<and> k < n \<longrightarrow> ys ! slot d k = (if P k then input ! k else xs ! slot d k))
     \<and> (\<forall>k < i. k < n \<longrightarrow> ys ! slot d k = xs ! slot d k)"

lemma placed_Nil: "n \<le> i \<Longrightarrow> placed d n i P input xs xs"
  by (auto simp: placed_def)

lemma placed_skip:
  "placed d n (Suc i) P input xs ys \<Longrightarrow> \<not> P i \<Longrightarrow> placed d n i P input xs ys"
  by (auto simp: placed_def less_Suc_eq le_Suc_eq Suc_le_eq dest: le_imp_less_or_eq)

lemma placed_store:
  assumes "is_distribution n d" and "i < n" and "length xs = n"
    and "placed d n (Suc i) P input (xs[slot d i := input ! i]) ys" and "P i"
  shows "placed d n i P input xs ys"
proof -
  have si: "slot d i < n" using slot_lt[OF assms(1,2)] by simp
  have other: "(xs[slot d i := input ! i]) ! slot d k = xs ! slot d k" if "k \<noteq> i" "k < n" for k
    using slot_inj[OF assms(1,2) that(2)] that(1) by simp
  have "ys ! slot d k = (if P k then input ! k else xs ! slot d k)" if "i \<le> k" "k < n" for k
  proof (cases "k = i")
    case True
    then have "ys ! slot d k = (xs[slot d i := input ! i]) ! slot d i"
      using assms(2,4) by (simp add: placed_def)
    then show ?thesis using True assms(3,5) si by simp
  next
    case False
    then show ?thesis using assms(4) that other[OF False that(2)] by (simp add: placed_def)
  qed
  then show ?thesis using assms(4) other by (simp add: placed_def)
qed

lemma shuffle_loop_placed:
  assumes "is_distribution n d" and "length all = n"
  shows "input = drop i all \<Longrightarrow> i \<le> n \<Longrightarrow> length xs = n \<Longrightarrow>
    \<exists>ys. shuffle_loop i input d xs = Inr ys \<and> placed d n i (\<lambda>_. True) all xs ys"
proof (induction input arbitrary: i xs)
  case Nil
  then show ?case using assms(2) by (simp add: placed_Nil)
next
  case (Cons x input)
  then have i: "i < n" using assms(2) by (metis drop_all le_eq_less_or_eq list.distinct(1) order_refl)
  have x: "x = all ! i" and rest: "input = drop (Suc i) all"
    using Cons.prems(1) i assms(2) by (simp_all add: Cons_nth_drop_Suc[symmetric])
  have len: "length d = n" using assms(1) by (simp add: is_distribution_def)
  obtain ys where "shuffle_loop (Suc i) input d (xs[slot d i := all ! i]) = Inr ys"
      and "placed d n (Suc i) (\<lambda>_. True) all (xs[slot d i := all ! i]) ys"
    using Cons.IH[of "Suc i" "xs[slot d i := all ! i]"] i rest Cons.prems(3) by auto
  then show ?case
    using placed_store[OF assms(1) i Cons.prems(3)] assms(1) i x Cons.prems(3) len by auto
qed

text \<open>A drive takes part in a shuffle of the read phase; one whose metadata names the slot it is in
  takes part in the shuffle by index.\<close>

definition takes_part :: "FileInfo \<Rightarrow> 'd option list \<Rightarrow> FileInfo list \<Rightarrow> nat \<Rightarrow> bool" where
  "takes_part fi disks metas k \<longleftrightarrow> disks ! k \<noteq> None \<and> \<not> read_phase_skip fi (metas ! k)"

definition consistent :: "FileInfo \<Rightarrow> 'd option list \<Rightarrow> FileInfo list \<Rightarrow> nat \<Rightarrow> bool" where
  "consistent fi disks metas k \<longleftrightarrow> disks ! k \<noteq> None \<and> IsValid (metas ! k)
     \<and> fi_XLV1 (metas ! k) = fi_XLV1 fi
     \<and> elems (ei_Distribution (fi_Erasure fi)) ! k = ei_Index (fi_Erasure (metas ! k))"

lemma shuffle_both_placed:
  assumes d_def: "d = elems (ei_Distribution (fi_Erasure fi))" and dist: "is_distribution n d"
    and ld: "length disks = n" and lm: "length all = n"
  shows "metas = drop i all \<Longrightarrow> i \<le> n \<Longrightarrow> length sd = n \<Longrightarrow> length sm = n \<Longrightarrow>
    \<exists>sd' sm'. shuffle_both fi disks i metas sd sm = Inr (sd', sm')
      \<and> placed d n i (takes_part fi disks all) disks sd sd' \<and> placed d n i (takes_part fi disks all) all sm sm'"
proof (induction metas arbitrary: i sd sm)
  case Nil
  then show ?case using lm by (simp add: placed_Nil)
next
  case (Cons m metas)
  then have i: "i < n" using lm by (metis drop_all le_eq_less_or_eq list.distinct(1) order_refl)
  have m: "m = all ! i" and rest: "metas = drop (Suc i) all"
    using Cons.prems(1) i lm by (simp_all add: Cons_nth_drop_Suc[symmetric])
  have len: "length d = n" using dist by (simp add: is_distribution_def)
  show ?case
  proof (cases "takes_part fi disks all i")
    case False
    then have "shuffle_both fi disks i (m # metas) sd sm = shuffle_both fi disks (Suc i) metas sd sm"
      using i m ld by (auto simp: takes_part_def)
    then show ?thesis using Cons.IH[of "Suc i" sd sm] rest i Cons.prems(3,4) False
      by (auto intro: placed_skip)
  next
    case True
    then have "shuffle_both fi disks i (m # metas) sd sm
        = shuffle_both fi disks (Suc i) metas (sd[slot d i := disks ! i]) (sm[slot d i := all ! i])"
      using i m ld len dist Cons.prems(3,4) by (auto simp: takes_part_def d_def[symmetric])
    then show ?thesis
      using Cons.IH[of "Suc i" "sd[slot d i := disks ! i]" "sm[slot d i := all ! i]"] rest i Cons.prems(3,4) True
        placed_store[OF dist i Cons.prems(3), of "takes_part fi disks all" disks]
        placed_store[OF dist i Cons.prems(4), of "takes_part fi disks all" all]
      by auto
  qed
qed

lemma by_index_placed:
  assumes d_def: "d = elems (ei_Distribution (fi_Erasure fi))" and dist: "is_distribution n d"
    and ld: "length disks = n" and lm: "length all = n"
  shows "metas = drop i all \<Longrightarrow> i \<le> n \<Longrightarrow> length sd = n \<Longrightarrow> length sm = n \<Longrightarrow>
    \<exists>sd' sm'. by_index_loop fi disks i metas sd sm c
        = Inr (sd', sm', c + int (length (filter (\<lambda>k. \<not> consistent fi disks all k) [i..<n])))
      \<and> placed d n i (consistent fi disks all) disks sd sd' \<and> placed d n i (consistent fi disks all) all sm sm'"
proof (induction metas arbitrary: i sd sm c)
  case Nil
  then show ?case using lm by (simp add: placed_Nil)
next
  case (Cons m metas)
  then have i: "i < n" using lm by (metis drop_all le_eq_less_or_eq list.distinct(1) order_refl)
  have m: "m = all ! i" and rest: "metas = drop (Suc i) all"
    using Cons.prems(1) i lm by (simp_all add: Cons_nth_drop_Suc[symmetric])
  have len: "length d = n" using dist by (simp add: is_distribution_def)
  have up: "[i..<n] = i # [Suc i..<n]" using i by (simp add: upt_conv_Cons)
  show ?case
  proof (cases "consistent fi disks all i")
    case False
    then have "by_index_loop fi disks i (m # metas) sd sm c = by_index_loop fi disks (Suc i) metas sd sm (c + 1)"
      using i m ld len by (auto simp: consistent_def d_def[symmetric])
    then show ?thesis using Cons.IH[of "Suc i" sd sm "c + 1"] rest i Cons.prems(3,4) False
      by (auto simp: up add.assoc intro: placed_skip)
  next
    case True
    then have ix: "ei_Index (fi_Erasure (all ! i)) = d ! i" "disks ! i \<noteq> None" "IsValid (all ! i)"
        "fi_XLV1 (all ! i) = fi_XLV1 fi"
      by (simp_all add: consistent_def d_def)
    then have "by_index_loop fi disks i (m # metas) sd sm c
        = by_index_loop fi disks (Suc i) metas (sd[slot d i := disks ! i]) (sm[slot d i := all ! i]) c"
      using i m ld len dist Cons.prems(3,4) by (auto simp: d_def[symmetric])
    then show ?thesis
      using Cons.IH[of "Suc i" "sd[slot d i := disks ! i]" "sm[slot d i := all ! i]" c] rest i Cons.prems(3,4) True
        placed_store[OF dist i Cons.prems(3), of "consistent fi disks all" disks]
        placed_store[OF dist i Cons.prems(4), of "consistent fi disks all" all]
      by (auto simp: up)
  qed
qed

text \<open>Nothing that was in a slot is lost, so a full shuffle is a permutation.\<close>

lemma placed_all_mset:
  assumes "is_distribution n d" and "length input = n" and "length xs = n" and "placed d n 0 (\<lambda>_. True) input xs ys"
  shows "mset ys = mset input"
proof -
  have len: "length ys = n" and at: "\<And>k. k < n \<Longrightarrow> ys ! slot d k = input ! k"
    using assms(3,4) by (simp_all add: placed_def)
  have bij: "bij_betw (slot d) {..<n} {..<n}"
    using slot_lt[OF assms(1)] slot_inj[OF assms(1)] slot_surj[OF assms(1)]
    by (fastforce simp: bij_betw_def inj_on_def)
  have "mset ys = image_mset (\<lambda>k. ys ! k) (mset_set {..<n})"
    using len by (metis atLeast0LessThan map_nth mset_map mset_upt)
  also have "mset_set {..<n} = image_mset (slot d) (mset_set {..<n})"
    using bij by (metis bij_betw_def image_mset_mset_set)
  also have "image_mset (\<lambda>k. ys ! k) (image_mset (slot d) (mset_set {..<n})) = image_mset (\<lambda>k. input ! k) (mset_set {..<n})"
    using at by (auto intro: image_mset_cong simp: multiset.map_comp)
  also have "\<dots> = mset input"
    using assms(2) by (metis atLeast0LessThan map_nth mset_map mset_upt)
  finally show ?thesis .
qed

section \<open>Properties\<close>

text \<open>An object's name is hashed to one of the sets, for each of the three algorithms, whatever
  the hash function.\<close>

theorem hashed_set_exists:
  assumes "sets \<noteq> []" and "int (length sets) < 2 ^ 32"
    and "algo \<in> {formatErasureVersionV2DistributionAlgoV1, formatErasureVersionV3DistributionAlgoV2,
                  formatErasureVersionV3DistributionAlgoV3}"
  shows "\<exists>set \<in> set sets. getHashedSet siphash algo deploymentID sets input = Inr set"
proof -
  let ?n = "int (length sets)"
  have n: "0 < ?n" using assms(1) by simp
  have u: "uint (word_of_int ?n :: 64 word) = ?n"
    unfolding uint_word_of_int using assms(2) by (intro mod_pos_pos_trivial) simp_all
  have s: "0 \<le> uint ((x :: 64 word) mod word_of_int ?n) \<and> uint (x mod word_of_int ?n) < ?n" for x
    using n u by (simp add: uint_mod_distrib)
  obtain k where "hashKey siphash algo input ?n deploymentID = Inr k" "0 \<le> k" "k < ?n"
    using assms(3) n s uint_mod_word32[OF n assms(2)] word_of_int_nz[OF n assms(2)]
    by (auto simp: hashKey_def crcHashMod_def sipHashMod_def Let_def formatErasureVersionV2DistributionAlgoV1_def
        formatErasureVersionV3DistributionAlgoV2_def formatErasureVersionV3DistributionAlgoV3_def)
  then show ?thesis by (auto simp: getHashedSet_def intro!: bexI[of _ "sets ! nat k"])
qed

theorem hashed_set_exists_witness:
  "\<exists>set \<in> set [''set1'', ''set2'']. getHashedSet (\<lambda>k0 k1 d. 7) ''SIPMOD+PARITY'' [] [''set1'', ''set2''] ''b/o'' = Inr set"
  by (rule hashed_set_exists) (simp_all add: formatErasureVersionV3DistributionAlgoV3_def)

text \<open>the order an object's name hashes to assigns every shard number from 1 to the number of
  drives exactly once.\<close>

theorem hashOrder_is_distribution:
  assumes "0 < n" and "int n < 2 ^ 32"
  shows "\<exists>d. hashOrder key (int n) = Inr (Some d) \<and> is_distribution n d"
  using rotation_is_distribution[OF assms(1)] word_of_int_nz[of "int n"] assms
  by (auto simp: hashOrder_def Let_def)

theorem hashOrder_is_distribution_witness:
  "\<exists>d. hashOrder ''bucket/object'' 4 = Inr (Some d) \<and> is_distribution 4 d"
  using hashOrder_is_distribution[of 4 "''bucket/object''"] by simp

text \<open>a shuffle along a distribution succeeds, puts every element into the slot of its shard
  number and loses none.\<close>

theorem shuffle_is_permutation:
  assumes "is_distribution (length input) d"
  shows "\<exists>out. shuffleWithDist z input (Some d) = Inr out \<and> mset out = mset input
    \<and> (\<forall>k < length input. out ! slot d k = input ! k)"
proof -
  obtain ys where "shuffle_loop 0 input d (replicate (length input) z) = Inr ys"
      and p: "placed d (length input) 0 (\<lambda>_. True) input (replicate (length input) z) ys"
    using shuffle_loop_placed[OF assms refl, of input 0 "replicate (length input) z"] by auto
  then show ?thesis using placed_all_mset[OF assms refl _ p] by (auto simp: shuffleWithDist_def placed_def)
qed

theorem shuffle_is_permutation_witness:
  "\<exists>out. shuffleWithDist 0 [10, 20, 30 :: int] (Some [2, 3, 1]) = Inr out \<and> mset out = mset [10, 20, 30]
    \<and> out ! 1 = 10 \<and> out ! 0 = 30"
proof -
  have "is_distribution (length [10, 20, 30 :: int]) [2, 3, 1]" by (auto simp: is_distribution_def)
  from shuffle_is_permutation[OF this, of 0] show ?thesis by (auto simp: All_less_Suc)
qed

text \<open>C34: the shuffle by index never fails on a distribution and never puts a drive or its metadata
  into the slot of another drive's shard: every slot holds the drive it belongs to, with that drive's
  metadata, or nothing. When it does not fall back to the plain shuffle, fewer slots than there are
  parity shards are empty.\<close>

theorem shuffle_by_index_sound:
  assumes "is_distribution n d" and "ei_Distribution (fi_Erasure fi) = Some d"
    and "length disks = n" and "length metaArr = n"
  shows "\<exists>sd sm. shuffleDisksAndPartsMetadataByIndex disks metaArr fi = Inr (sd, sm)
    \<and> (\<forall>k < n. sd ! slot d k = disks ! k \<and> sm ! slot d k = metaArr ! k
                \<or> sd ! slot d k = None \<and> sm ! slot d k = FileInfo0)
    \<and> (shuffleDisksAndPartsMetadata disks metaArr fi = Inr (sd, sm)
       \<or> int (card {k. k < n \<and> sd ! slot d k = None}) < ei_ParityBlocks (fi_Erasure fi))"
proof -
  let ?e = "replicate n None" and ?m = "replicate n FileInfo0" and ?c = "consistent fi disks metaArr"
  have d: "d = elems (ei_Distribution (fi_Erasure fi))" using assms(2) by simp
  obtain sd sm where b: "by_index_loop fi disks 0 metaArr ?e ?m 0
        = Inr (sd, sm, int (length (filter (\<lambda>k. \<not> ?c k) [0..<n])))"
      and bp: "placed d n 0 ?c disks ?e sd" "placed d n 0 ?c metaArr ?m sm"
    using by_index_placed[OF d assms(1,3,4), of metaArr 0 ?e ?m 0] by auto
  obtain td tm where t: "shuffle_both fi disks 0 metaArr ?e ?m = Inr (td, tm)"
      and tp: "placed d n 0 (takes_part fi disks metaArr) disks ?e td" "placed d n 0 (takes_part fi disks metaArr) metaArr ?m tm"
    using shuffle_both_placed[OF d assms(1,3,4), of metaArr 0 ?e ?m] by auto
  have pos: "\<forall>k < n. xd ! slot d k = disks ! k \<and> xm ! slot d k = metaArr ! k \<or> xd ! slot d k = None \<and> xm ! slot d k = FileInfo0"
    if "placed d n 0 P disks ?e xd" "placed d n 0 P metaArr ?m xm" for P xd xm
    using that slot_lt[OF assms(1)] by (auto simp: placed_def)
  have "{k. k < n \<and> sd ! slot d k = None} \<subseteq> {k. k < n \<and> \<not> ?c k}"
  proof (intro subsetI CollectI conjI)
    fix k assume k: "k \<in> {k. k < n \<and> sd ! slot d k = None}"
    then show "k < n" by simp
    show "\<not> ?c k"
    proof
      assume c: "?c k"
      then have "sd ! slot d k = disks ! k" using bp(1) k unfolding placed_def by auto
      then show False using c k by (simp add: consistent_def)
    qed
  qed
  then have "card {k. k < n \<and> sd ! slot d k = None} \<le> card {k. k < n \<and> \<not> ?c k}" by (intro card_mono) auto
  also have "\<dots> = length (filter (\<lambda>k. \<not> ?c k) [0..<n])"
    by (simp add: length_filter_conv_card cong: conj_cong)
  finally have few: "int (card {k. k < n \<and> sd ! slot d k = None}) \<le> int (length (filter (\<lambda>k. \<not> ?c k) [0..<n]))" by simp
  show ?thesis
  proof (cases "int (length (filter (\<lambda>k. \<not> ?c k) [0..<n])) < ei_ParityBlocks (fi_Erasure fi)")
    case True
    then show ?thesis using b pos[OF bp] few assms(3,4)
      by (intro exI[of _ sd] exI[of _ sm]) (simp add: shuffleDisksAndPartsMetadataByIndex_def)
  next
    case False
    then show ?thesis using b t pos[OF tp] assms(3,4)
      by (intro exI[of _ td] exI[of _ tm])
         (simp add: shuffleDisksAndPartsMetadataByIndex_def shuffleDisksAndPartsMetadata_def)
  qed
qed

definition sample_shard :: "int \<Rightarrow> FileInfo" where
  "sample_shard i = FileInfo0\<lparr>fi_Erasure := ErasureInfo0\<lparr>ei_DataBlocks := 1, ei_ParityBlocks := 1,
     ei_Index := i, ei_Distribution := Some [2, 1]\<rparr>\<rparr>"

theorem shuffle_by_index_sound_witness:
  "\<exists>sd sm. shuffleDisksAndPartsMetadataByIndex [Some ''d1'', Some ''d2''] [sample_shard 2, sample_shard 1] (sample_shard 0)
      = Inr (sd, sm) \<and> (sd ! 1 = Some ''d1'' \<or> sd ! 1 = None)"
proof -
  have "is_distribution 2 [2, 1]" by (auto simp: is_distribution_def)
  from shuffle_by_index_sound[OF this, of "sample_shard 0" "[Some ''d1'', Some ''d2'']" "[sample_shard 2, sample_shard 1]"]
  show ?thesis by (force simp: sample_shard_def)
qed

end
