(* ===== verification/FastOpen_Frame.thy ===== *)
theory FastOpen_Frame
  imports File_Info Disk_Shuffle
begin

unbundle bit_operations_syntax

text \<open>
  The frame in front of every FastOpen stream (\<open>cmd/fastopen-frame.go\<close>): a prelude of 15 bytes
  (magic, version, length and CRC-32 of the header, body mode), then the metadata of the object as
  MessagePack. The third-party \<open>msgp\<close> package is the parameter \<open>M\<close>; \<open>msgp_ok\<close> is what the
  theorems use of it, and \<open>wide_msgp\<close> an instance (MessagePack in its widest formats). The iteration
  order of Go maps is the parameter \<open>ord\<close>.
\<close>

section \<open>Records\<close>

definition fastOpenFrameVersion :: "16 word" where "fastOpenFrameVersion = 1"
definition fastOpenFramePreludeLen :: nat where "fastOpenFramePreludeLen = 15"
definition fastOpenFrameMaxHeaderLen :: nat where "fastOpenFrameMaxHeaderLen = 4 * 2 ^ 20"
definition fastOpenFrameMagic :: "byte list" where "fastOpenFrameMagic = bytes_of ''BFG1''"

record FastOpenFramePrelude =
  pr_Magic :: "byte list"
  pr_Version :: "16 word"
  pr_HeaderLen :: "32 word"
  pr_HeaderCRC32 :: "32 word"
  pr_BodyMode :: byte

type_synonym FastOpenBodyMode = byte
definition FastOpenBodyShard :: FastOpenBodyMode where "FastOpenBodyShard = 1"
definition FastOpenBodyInline :: FastOpenBodyMode where "FastOpenBodyInline = 2"
definition FastOpenBodyMetadataOnly :: FastOpenBodyMode where "FastOpenBodyMetadataOnly = 3"
definition FastOpenBodyTransitioned :: FastOpenBodyMode where "FastOpenBodyTransitioned = 4"

type_synonym FastOpenFrameStatus = byte
definition FastOpenStatusOK :: FastOpenFrameStatus where "FastOpenStatusOK = 0"
definition FastOpenStatusDeleteMarker :: FastOpenFrameStatus where "FastOpenStatusDeleteMarker = 1"
definition FastOpenStatusNotFound :: FastOpenFrameStatus where "FastOpenStatusNotFound = 2"
definition FastOpenStatusVersionNotFound :: FastOpenFrameStatus where "FastOpenStatusVersionNotFound = 3"
definition FastOpenStatusUnsupported :: FastOpenFrameStatus where "FastOpenStatusUnsupported = 4"

record FastOpenTransitionMeta =
  ft_Status :: string
  ft_Object :: string
  ft_Tier :: string
  ft_VersionID :: string

record FastOpenPartMeta =
  fp_Number :: int
  fp_Size :: int
  fp_ActualSize :: int

record FastOpenBitrotMeta =
  fb_PartNumber :: int
  fb_Algorithm :: byte
  fb_Hash :: "byte slice"

record FastOpenErasureMeta =
  fe_DataBlocks :: int
  fe_ParityBlocks :: int
  fe_BlockSize :: int
  fe_Index :: int
  fe_Distribution :: "int slice"
  fe_Bitrot :: FastOpenBitrotMeta

record FastOpenGETMeta =
  fm_VersionID :: string
  fm_IsLatest :: bool
  fm_Legacy :: bool
  fm_ModTimeUnixNano :: int
  fm_Size :: int
  fm_Metadata :: strmap
  fm_Transition :: FastOpenTransitionMeta
  fm_Part :: FastOpenPartMeta
  fm_Erasure :: FastOpenErasureMeta
  fm_Checksum :: "byte slice"
  fm_NumVersions :: int
  fm_SuccessorModTimeNanos :: int

record CoalescedMetadataFrame =
  cf_Status :: FastOpenFrameStatus
  cf_Meta :: FastOpenGETMeta
  cf_BodyMode :: FastOpenBodyMode
  cf_BodyLen :: int

text \<open>The zero values.\<close>

definition FastOpenTransitionMeta0 :: FastOpenTransitionMeta where
  "FastOpenTransitionMeta0 = \<lparr>ft_Status = [], ft_Object = [], ft_Tier = [], ft_VersionID = []\<rparr>"
definition FastOpenPartMeta0 :: FastOpenPartMeta where
  "FastOpenPartMeta0 = \<lparr>fp_Number = 0, fp_Size = 0, fp_ActualSize = 0\<rparr>"
definition FastOpenBitrotMeta0 :: FastOpenBitrotMeta where
  "FastOpenBitrotMeta0 = \<lparr>fb_PartNumber = 0, fb_Algorithm = 0, fb_Hash = None\<rparr>"
definition FastOpenErasureMeta0 :: FastOpenErasureMeta where
  "FastOpenErasureMeta0 = \<lparr>fe_DataBlocks = 0, fe_ParityBlocks = 0, fe_BlockSize = 0, fe_Index = 0,
     fe_Distribution = None, fe_Bitrot = FastOpenBitrotMeta0\<rparr>"
definition FastOpenGETMeta0 :: FastOpenGETMeta where
  "FastOpenGETMeta0 = \<lparr>fm_VersionID = [], fm_IsLatest = False, fm_Legacy = False, fm_ModTimeUnixNano = 0,
     fm_Size = 0, fm_Metadata = None, fm_Transition = FastOpenTransitionMeta0, fm_Part = FastOpenPartMeta0,
     fm_Erasure = FastOpenErasureMeta0, fm_Checksum = None, fm_NumVersions = 0, fm_SuccessorModTimeNanos = 0\<rparr>"
definition CoalescedMetadataFrame0 :: CoalescedMetadataFrame where
  "CoalescedMetadataFrame0 = \<lparr>cf_Status = 0, cf_Meta = FastOpenGETMeta0, cf_BodyMode = 0, cf_BodyLen = 0\<rparr>"

definition mode_valid :: "FastOpenBodyMode \<Rightarrow> bool" where
  "mode_valid m \<longleftrightarrow> m \<in> {FastOpenBodyShard, FastOpenBodyInline, FastOpenBodyMetadataOnly, FastOpenBodyTransitioned}"

definition status_valid :: "FastOpenFrameStatus \<Rightarrow> bool" where
  "status_valid s \<longleftrightarrow> s \<in> {FastOpenStatusOK, FastOpenStatusDeleteMarker, FastOpenStatusNotFound,
     FastOpenStatusVersionNotFound, FastOpenStatusUnsupported}"

section \<open>The prelude\<close>

text \<open>\<open>binary.BigEndian\<close>.\<close>

definition PutUint16 :: "16 word \<Rightarrow> byte list" where
  "PutUint16 v = [ucast (drop_bit 8 v), ucast v]"

definition PutUint32 :: "32 word \<Rightarrow> byte list" where
  "PutUint32 v = [ucast (drop_bit 24 v), ucast (drop_bit 16 v), ucast (drop_bit 8 v), ucast v]"

definition Uint16 :: "byte list \<Rightarrow> 16 word" where
  "Uint16 b = ucast (b ! 1) OR push_bit 8 (ucast (b ! 0))"

definition Uint32 :: "byte list \<Rightarrow> 32 word" where
  "Uint32 b = ucast (b ! 3) OR push_bit 8 (ucast (b ! 2)) OR push_bit 16 (ucast (b ! 1)) OR push_bit 24 (ucast (b ! 0))"

text \<open>The bytes \<open>encodeFastOpenFramePrelude\<close> writes to its buffer of 15.\<close>

definition encodeFastOpenFramePrelude :: "FastOpenFramePrelude \<Rightarrow> byte list" where
  "encodeFastOpenFramePrelude p = pr_Magic p @ PutUint16 (pr_Version p) @ PutUint32 (pr_HeaderLen p)
     @ PutUint32 (pr_HeaderCRC32 p) @ [pr_BodyMode p]"

definition decodeFastOpenFramePrelude :: "byte list \<Rightarrow> gerror + FastOpenFramePrelude" where
  "decodeFastOpenFramePrelude src =
     (if length src < fastOpenFramePreludeLen then Inl IoUnexpectedEOF
      else if take 4 src \<noteq> fastOpenFrameMagic then Inl ErrFastOpenFrameBadMagic
      else
        let version = Uint16 (take 2 (drop 4 src))
        in if version \<noteq> fastOpenFrameVersion then Inl ErrFastOpenFrameBadVersion
           else
             let p = \<lparr>pr_Magic = take 4 src, pr_Version = version, pr_HeaderLen = Uint32 (take 4 (drop 6 src)),
                      pr_HeaderCRC32 = Uint32 (take 4 (drop 10 src)), pr_BodyMode = src ! 14\<rparr>
             in if \<not> mode_valid (pr_BodyMode p) then Inl ErrFastOpenFrameBadBodyMode else Inr p)"

lemma Uint16_Put [simp]: "Uint16 (PutUint16 v) = v"
  by (rule bit_word_eqI) (auto simp: Uint16_def PutUint16_def bit_simps)

lemma Uint32_Put [simp]: "Uint32 (PutUint32 v) = v"
proof (rule bit_word_eqI)
  fix n assume n: "n < LENGTH(32)"
  consider "n < 8" | "8 \<le> n" "n < 16" | "16 \<le> n" "n < 24" | "24 \<le> n" by linarith
  then show "bit (Uint32 (PutUint32 v)) n = bit v n"
    using n by cases (auto simp: Uint32_def PutUint32_def bit_simps)
qed

lemma Put_Uint16: 
  assumes "length b = 2"
  shows "PutUint16 (Uint16 b) = b"
proof -
  obtain x y where b: "b = [x, y]" using assms by (auto simp: length_Suc_conv eval_nat_numeral)
  have "ucast (drop_bit 8 (ucast y OR push_bit 8 (ucast x) :: 16 word)) = x"
    by (rule bit_word_eqI) (auto simp: bit_simps dest: bit_imp_le_length)
  moreover have "ucast (ucast y OR push_bit 8 (ucast x) :: 16 word) = y"
    by (rule bit_word_eqI) (auto simp: bit_simps)
  ultimately show ?thesis by (simp add: b Uint16_def PutUint16_def)
qed

lemma Put_Uint32:
  assumes "length b = 4"
  shows "PutUint32 (Uint32 b) = b"
proof -
  obtain w x y z where b: "b = [w, x, y, z]" using assms by (auto simp: length_Suc_conv eval_nat_numeral)
  let ?v = "ucast z OR push_bit 8 (ucast y) OR push_bit 16 (ucast x) OR push_bit 24 (ucast w) :: 32 word"
  have "ucast (drop_bit 24 ?v) = w" "ucast (drop_bit 16 ?v) = x" "ucast (drop_bit 8 ?v) = y" "ucast ?v = z"
    by (rule bit_word_eqI; auto simp: bit_simps dest: bit_imp_le_length)+
  then show ?thesis by (simp add: b Uint32_def PutUint32_def)
qed

lemma Put_lengths [simp]: "length (PutUint16 v) = 2" "length (PutUint32 w) = 4"
  by (simp_all add: PutUint16_def PutUint32_def)

lemma magic_length [simp]: "length fastOpenFrameMagic = 4"
  by (simp add: fastOpenFrameMagic_def)

lemma prelude_decode_encode:
  assumes "pr_Magic p = fastOpenFrameMagic" and "pr_Version p = fastOpenFrameVersion" and "mode_valid (pr_BodyMode p)"
  shows "decodeFastOpenFramePrelude (encodeFastOpenFramePrelude p @ rest) = Inr p"
  using assms by (simp add: decodeFastOpenFramePrelude_def encodeFastOpenFramePrelude_def Let_def
      fastOpenFramePreludeLen_def nth_append)

lemma prelude_encode_decode:
  assumes "decodeFastOpenFramePrelude src = Inr p"
  shows "take 15 src = encodeFastOpenFramePrelude p \<and> pr_Magic p = fastOpenFrameMagic
    \<and> pr_Version p = fastOpenFrameVersion \<and> mode_valid (pr_BodyMode p)"
proof -
  have l: "15 \<le> length src" and m: "take 4 src = fastOpenFrameMagic"
    and v: "Uint16 (take 2 (drop 4 src)) = fastOpenFrameVersion" and b: "mode_valid (src ! 14)"
    and p: "p = \<lparr>pr_Magic = take 4 src, pr_Version = Uint16 (take 2 (drop 4 src)), pr_HeaderLen = Uint32 (take 4 (drop 6 src)),
        pr_HeaderCRC32 = Uint32 (take 4 (drop 10 src)), pr_BodyMode = src ! 14\<rparr>"
    using assms by (auto simp: decodeFastOpenFramePrelude_def Let_def fastOpenFramePreludeLen_def split: if_splits)
  have "take 15 src = take 4 src @ take 2 (drop 4 src) @ take 4 (drop 6 src) @ take 4 (drop 10 src) @ take 1 (drop 14 src)"
    by (simp add: take_add[symmetric] flip: append_assoc)
  moreover have "take 1 (drop 14 src) = [src ! 14]" using l by (simp add: take_Suc_conv_app_nth)
  moreover have "PutUint16 fastOpenFrameVersion = take 2 (drop 4 src)"
    using l Put_Uint16[of "take 2 (drop 4 src)"] v by simp
  ultimately show ?thesis
    using l m v b by (simp add: p encodeFastOpenFramePrelude_def Put_Uint32)
qed

section \<open>MessagePack\<close>

text \<open>The functions of the package \<open>msgp\<close> that the frame uses: the \<open>Append\<close> functions extend a
  buffer, the \<open>Read\<close> functions take a value off the front of one.\<close>

record msgp =
  AppendMapHeader :: "byte list \<Rightarrow> 32 word \<Rightarrow> byte list"
  AppendArrayHeader :: "byte list \<Rightarrow> 32 word \<Rightarrow> byte list"
  AppendString :: "byte list \<Rightarrow> string \<Rightarrow> byte list"
  AppendBool :: "byte list \<Rightarrow> bool \<Rightarrow> byte list"
  AppendInt64 :: "byte list \<Rightarrow> int \<Rightarrow> byte list"
  AppendInt :: "byte list \<Rightarrow> int \<Rightarrow> byte list"
  AppendUint8 :: "byte list \<Rightarrow> byte \<Rightarrow> byte list"
  AppendBytes :: "byte list \<Rightarrow> byte list \<Rightarrow> byte list"
  AppendNil :: "byte list \<Rightarrow> byte list"
  ReadMapHeaderBytes :: "byte list \<Rightarrow> gerror + 32 word \<times> byte list"
  ReadArrayHeaderBytes :: "byte list \<Rightarrow> gerror + 32 word \<times> byte list"
  ReadMapKeyZC :: "byte list \<Rightarrow> gerror + string \<times> byte list"
  ReadStringBytes :: "byte list \<Rightarrow> gerror + string \<times> byte list"
  ReadBoolBytes :: "byte list \<Rightarrow> gerror + bool \<times> byte list"
  ReadInt64Bytes :: "byte list \<Rightarrow> gerror + int \<times> byte list"
  ReadIntBytes :: "byte list \<Rightarrow> gerror + int \<times> byte list"
  ReadUint8Bytes :: "byte list \<Rightarrow> gerror + byte \<times> byte list"
  ReadBytesZC :: "byte list \<Rightarrow> gerror + byte list \<times> byte list"
  IsNil :: "byte list \<Rightarrow> bool"
  ReadNilBytes :: "byte list \<Rightarrow> gerror + byte list"
  Skip :: "byte list \<Rightarrow> gerror + byte list"

text \<open>The value of a call is stored by \<open>f\<close>; the value is skipped.\<close>

definition into :: "('v \<Rightarrow> 'a) \<Rightarrow> gerror + 'v \<times> byte list \<Rightarrow> gerror + 'a \<times> byte list" where
  "into f r = (case r of Inl e \<Rightarrow> Inl e | Inr (v, b) \<Rightarrow> Inr (f v, b))"

definition skipped :: "'a \<Rightarrow> gerror + byte list \<Rightarrow> gerror + 'a \<times> byte list" where
  "skipped m r = (case r of Inl e \<Rightarrow> Inl e | Inr b \<Rightarrow> Inr (m, b))"

text \<open>The loop every reader of a struct has: a map header, then that many keys, each followed by the
  value the switch on the key reads. (On an error the Go functions also return what they have read
  so far; no caller uses it.)\<close>

fun read_fields ::
  "msgp \<Rightarrow> (string \<Rightarrow> 'a \<Rightarrow> byte list \<Rightarrow> gerror + 'a \<times> byte list) \<Rightarrow> nat \<Rightarrow> 'a \<Rightarrow> byte list \<Rightarrow> gerror + 'a \<times> byte list" where
  "read_fields M field 0 m b = Inr (m, b)"
| "read_fields M field (Suc n) m b =
     (case ReadMapKeyZC M b of
        Inl e \<Rightarrow> Inl e
      | Inr (key, b') \<Rightarrow>
          (case field key m b' of
             Inl e \<Rightarrow> Inl e
           | Inr (m', b'') \<Rightarrow> read_fields M field n m' b''))"

definition read_struct ::
  "msgp \<Rightarrow> (string \<Rightarrow> 'a \<Rightarrow> byte list \<Rightarrow> gerror + 'a \<times> byte list) \<Rightarrow> 'a \<Rightarrow> byte list \<Rightarrow> gerror + 'a \<times> byte list" where
  "read_struct M field zero b =
     (case ReadMapHeaderBytes M b of
        Inl e \<Rightarrow> Inl e
      | Inr (n, b') \<Rightarrow> read_fields M field (unat n) zero b')"

subsection \<open>Maps, integers and bytes\<close>

fun append_pairs :: "msgp \<Rightarrow> byte list \<Rightarrow> (string \<times> string) list \<Rightarrow> byte list" where
  "append_pairs M b [] = b"
| "append_pairs M b ((k, v) # kvs) = append_pairs M (AppendString M (AppendString M b k) v) kvs"

definition appendStringMap ::
  "msgp \<Rightarrow> ((string \<times> string) list \<Rightarrow> (string \<times> string) list) \<Rightarrow> byte list \<Rightarrow> strmap \<Rightarrow> byte list" where
  "appendStringMap M ord b m =
     (case m of
        None \<Rightarrow> AppendNil M b
      | Some es \<Rightarrow> append_pairs M (AppendMapHeader M b (word_of_nat (length es))) (ord es))"

fun read_pairs :: "msgp \<Rightarrow> nat \<Rightarrow> (string \<times> string) list \<Rightarrow> byte list \<Rightarrow> gerror + strmap \<times> byte list" where
  "read_pairs M 0 m b = Inr (Some m, b)"
| "read_pairs M (Suc n) m b =
     (case ReadStringBytes M b of
        Inl e \<Rightarrow> Inl e
      | Inr (k, b') \<Rightarrow>
          (case ReadStringBytes M b' of
             Inl e \<Rightarrow> Inl e
           | Inr (v, b'') \<Rightarrow> read_pairs M n (AList.update k v m) b''))"

definition readStringMap :: "msgp \<Rightarrow> byte list \<Rightarrow> gerror + strmap \<times> byte list" where
  "readStringMap M b =
     (if IsNil M b then skipped None (ReadNilBytes M b)
      else case ReadMapHeaderBytes M b of
             Inl e \<Rightarrow> Inl e
           | Inr (n, b') \<Rightarrow>
               if n > word_of_nat (length b' div 2) then Inl ErrFastOpenFrameBadPayload
               else read_pairs M (unat n) [] b')"

definition appendIntSlice :: "msgp \<Rightarrow> byte list \<Rightarrow> int slice \<Rightarrow> byte list" where
  "appendIntSlice M b ints =
     (case ints of
        None \<Rightarrow> AppendNil M b
      | Some vs \<Rightarrow> foldl (AppendInt M) (AppendArrayHeader M b (word_of_nat (length vs))) vs)"

fun read_ints :: "msgp \<Rightarrow> nat \<Rightarrow> int list \<Rightarrow> byte list \<Rightarrow> gerror + int slice \<times> byte list" where
  "read_ints M 0 ints b = Inr (Some ints, b)"
| "read_ints M (Suc n) ints b =
     (case ReadIntBytes M b of
        Inl e \<Rightarrow> Inl e
      | Inr (v, b') \<Rightarrow> read_ints M n (ints @ [v]) b')"

definition readIntSlice :: "msgp \<Rightarrow> byte list \<Rightarrow> gerror + int slice \<times> byte list" where
  "readIntSlice M b =
     (if IsNil M b then skipped None (ReadNilBytes M b)
      else case ReadArrayHeaderBytes M b of
             Inl e \<Rightarrow> Inl e
           | Inr (n, b') \<Rightarrow>
               if n > word_of_nat (length b') then Inl ErrFastOpenFrameBadPayload
               else read_ints M (unat n) [] b')"

definition appendBytesOrNil :: "msgp \<Rightarrow> byte list \<Rightarrow> byte slice \<Rightarrow> byte list" where
  "appendBytesOrNil M b v = (case v of None \<Rightarrow> AppendNil M b | Some bs \<Rightarrow> AppendBytes M b bs)"

definition readBytesOrNil :: "msgp \<Rightarrow> byte list \<Rightarrow> gerror + byte slice \<times> byte list" where
  "readBytesOrNil M b =
     (if IsNil M b then skipped None (ReadNilBytes M b)
      else into (\<lambda>v. copy_slice (Some v)) (ReadBytesZC M b))"

subsection \<open>The structs\<close>

definition appendFastOpenTransitionMeta :: "msgp \<Rightarrow> byte list \<Rightarrow> FastOpenTransitionMeta \<Rightarrow> byte list" where
  "appendFastOpenTransitionMeta M b m =
     (let b = AppendMapHeader M b 4;
          b = AppendString M (AppendString M b ''s'') (ft_Status m);
          b = AppendString M (AppendString M b ''o'') (ft_Object m);
          b = AppendString M (AppendString M b ''t'') (ft_Tier m);
          b = AppendString M (AppendString M b ''v'') (ft_VersionID m)
      in b)"

definition transition_field :: "msgp \<Rightarrow> string \<Rightarrow> FastOpenTransitionMeta \<Rightarrow> byte list \<Rightarrow> gerror + FastOpenTransitionMeta \<times> byte list" where
  "transition_field M key m b =
     (if key = ''s'' then into (\<lambda>v. m\<lparr>ft_Status := v\<rparr>) (ReadStringBytes M b)
      else if key = ''o'' then into (\<lambda>v. m\<lparr>ft_Object := v\<rparr>) (ReadStringBytes M b)
      else if key = ''t'' then into (\<lambda>v. m\<lparr>ft_Tier := v\<rparr>) (ReadStringBytes M b)
      else if key = ''v'' then into (\<lambda>v. m\<lparr>ft_VersionID := v\<rparr>) (ReadStringBytes M b)
      else skipped m (Skip M b))"

definition readFastOpenTransitionMeta :: "msgp \<Rightarrow> byte list \<Rightarrow> gerror + FastOpenTransitionMeta \<times> byte list" where
  "readFastOpenTransitionMeta M b = read_struct M (transition_field M) FastOpenTransitionMeta0 b"

definition appendFastOpenPartMeta :: "msgp \<Rightarrow> byte list \<Rightarrow> FastOpenPartMeta \<Rightarrow> byte list" where
  "appendFastOpenPartMeta M b m =
     (let b = AppendMapHeader M b 3;
          b = AppendInt M (AppendString M b ''n'') (fp_Number m);
          b = AppendInt64 M (AppendString M b ''s'') (fp_Size m);
          b = AppendInt64 M (AppendString M b ''as'') (fp_ActualSize m)
      in b)"

definition part_field :: "msgp \<Rightarrow> string \<Rightarrow> FastOpenPartMeta \<Rightarrow> byte list \<Rightarrow> gerror + FastOpenPartMeta \<times> byte list" where
  "part_field M key m b =
     (if key = ''n'' then into (\<lambda>v. m\<lparr>fp_Number := v\<rparr>) (ReadIntBytes M b)
      else if key = ''s'' then into (\<lambda>v. m\<lparr>fp_Size := v\<rparr>) (ReadInt64Bytes M b)
      else if key = ''as'' then into (\<lambda>v. m\<lparr>fp_ActualSize := v\<rparr>) (ReadInt64Bytes M b)
      else skipped m (Skip M b))"

definition readFastOpenPartMeta :: "msgp \<Rightarrow> byte list \<Rightarrow> gerror + FastOpenPartMeta \<times> byte list" where
  "readFastOpenPartMeta M b = read_struct M (part_field M) FastOpenPartMeta0 b"

definition appendFastOpenBitrotMeta :: "msgp \<Rightarrow> byte list \<Rightarrow> FastOpenBitrotMeta \<Rightarrow> byte list" where
  "appendFastOpenBitrotMeta M b m =
     (let b = AppendMapHeader M b 3;
          b = AppendInt M (AppendString M b ''pn'') (fb_PartNumber m);
          b = AppendUint8 M (AppendString M b ''a'') (fb_Algorithm m);
          b = appendBytesOrNil M (AppendString M b ''h'') (fb_Hash m)
      in b)"

definition bitrot_field :: "msgp \<Rightarrow> string \<Rightarrow> FastOpenBitrotMeta \<Rightarrow> byte list \<Rightarrow> gerror + FastOpenBitrotMeta \<times> byte list" where
  "bitrot_field M key m b =
     (if key = ''pn'' then into (\<lambda>v. m\<lparr>fb_PartNumber := v\<rparr>) (ReadIntBytes M b)
      else if key = ''a'' then into (\<lambda>v. m\<lparr>fb_Algorithm := v\<rparr>) (ReadUint8Bytes M b)
      else if key = ''h'' then into (\<lambda>v. m\<lparr>fb_Hash := v\<rparr>) (readBytesOrNil M b)
      else skipped m (Skip M b))"

definition readFastOpenBitrotMeta :: "msgp \<Rightarrow> byte list \<Rightarrow> gerror + FastOpenBitrotMeta \<times> byte list" where
  "readFastOpenBitrotMeta M b = read_struct M (bitrot_field M) FastOpenBitrotMeta0 b"

definition appendFastOpenErasureMeta :: "msgp \<Rightarrow> byte list \<Rightarrow> FastOpenErasureMeta \<Rightarrow> byte list" where
  "appendFastOpenErasureMeta M b m =
     (let b = AppendMapHeader M b 6;
          b = AppendInt M (AppendString M b ''d'') (fe_DataBlocks m);
          b = AppendInt M (AppendString M b ''p'') (fe_ParityBlocks m);
          b = AppendInt64 M (AppendString M b ''bs'') (fe_BlockSize m);
          b = AppendInt M (AppendString M b ''i'') (fe_Index m);
          b = appendIntSlice M (AppendString M b ''dist'') (fe_Distribution m);
          b = appendFastOpenBitrotMeta M (AppendString M b ''br'') (fe_Bitrot m)
      in b)"

definition erasure_field :: "msgp \<Rightarrow> string \<Rightarrow> FastOpenErasureMeta \<Rightarrow> byte list \<Rightarrow> gerror + FastOpenErasureMeta \<times> byte list" where
  "erasure_field M key m b =
     (if key = ''d'' then into (\<lambda>v. m\<lparr>fe_DataBlocks := v\<rparr>) (ReadIntBytes M b)
      else if key = ''p'' then into (\<lambda>v. m\<lparr>fe_ParityBlocks := v\<rparr>) (ReadIntBytes M b)
      else if key = ''bs'' then into (\<lambda>v. m\<lparr>fe_BlockSize := v\<rparr>) (ReadInt64Bytes M b)
      else if key = ''i'' then into (\<lambda>v. m\<lparr>fe_Index := v\<rparr>) (ReadIntBytes M b)
      else if key = ''dist'' then into (\<lambda>v. m\<lparr>fe_Distribution := v\<rparr>) (readIntSlice M b)
      else if key = ''br'' then into (\<lambda>v. m\<lparr>fe_Bitrot := v\<rparr>) (readFastOpenBitrotMeta M b)
      else skipped m (Skip M b))"

definition readFastOpenErasureMeta :: "msgp \<Rightarrow> byte list \<Rightarrow> gerror + FastOpenErasureMeta \<times> byte list" where
  "readFastOpenErasureMeta M b = read_struct M (erasure_field M) FastOpenErasureMeta0 b"

definition appendFastOpenGETMeta ::
  "msgp \<Rightarrow> ((string \<times> string) list \<Rightarrow> (string \<times> string) list) \<Rightarrow> byte list \<Rightarrow> FastOpenGETMeta \<Rightarrow> byte list" where
  "appendFastOpenGETMeta M ord b m =
     (let b = AppendMapHeader M b 12;
          b = AppendString M (AppendString M b ''vid'') (fm_VersionID m);
          b = AppendBool M (AppendString M b ''il'') (fm_IsLatest m);
          b = AppendBool M (AppendString M b ''v1'') (fm_Legacy m);
          b = AppendInt64 M (AppendString M b ''mt'') (fm_ModTimeUnixNano m);
          b = AppendInt64 M (AppendString M b ''sz'') (fm_Size m);
          b = appendStringMap M ord (AppendString M b ''meta'') (fm_Metadata m);
          b = appendFastOpenTransitionMeta M (AppendString M b ''tr'') (fm_Transition m);
          b = appendFastOpenPartMeta M (AppendString M b ''part'') (fm_Part m);
          b = appendFastOpenErasureMeta M (AppendString M b ''ei'') (fm_Erasure m);
          b = appendBytesOrNil M (AppendString M b ''cs'') (fm_Checksum m);
          b = AppendInt M (AppendString M b ''nv'') (fm_NumVersions m);
          b = AppendInt64 M (AppendString M b ''smt'') (fm_SuccessorModTimeNanos m)
      in b)"

definition getmeta_field :: "msgp \<Rightarrow> string \<Rightarrow> FastOpenGETMeta \<Rightarrow> byte list \<Rightarrow> gerror + FastOpenGETMeta \<times> byte list" where
  "getmeta_field M key m b =
     (if key = ''vid'' then into (\<lambda>v. m\<lparr>fm_VersionID := v\<rparr>) (ReadStringBytes M b)
      else if key = ''il'' then into (\<lambda>v. m\<lparr>fm_IsLatest := v\<rparr>) (ReadBoolBytes M b)
      else if key = ''v1'' then into (\<lambda>v. m\<lparr>fm_Legacy := v\<rparr>) (ReadBoolBytes M b)
      else if key = ''mt'' then into (\<lambda>v. m\<lparr>fm_ModTimeUnixNano := v\<rparr>) (ReadInt64Bytes M b)
      else if key = ''sz'' then into (\<lambda>v. m\<lparr>fm_Size := v\<rparr>) (ReadInt64Bytes M b)
      else if key = ''meta'' then into (\<lambda>v. m\<lparr>fm_Metadata := v\<rparr>) (readStringMap M b)
      else if key = ''tr'' then into (\<lambda>v. m\<lparr>fm_Transition := v\<rparr>) (readFastOpenTransitionMeta M b)
      else if key = ''part'' then into (\<lambda>v. m\<lparr>fm_Part := v\<rparr>) (readFastOpenPartMeta M b)
      else if key = ''ei'' then into (\<lambda>v. m\<lparr>fm_Erasure := v\<rparr>) (readFastOpenErasureMeta M b)
      else if key = ''cs'' then into (\<lambda>v. m\<lparr>fm_Checksum := v\<rparr>) (readBytesOrNil M b)
      else if key = ''nv'' then into (\<lambda>v. m\<lparr>fm_NumVersions := v\<rparr>) (ReadIntBytes M b)
      else if key = ''smt'' then into (\<lambda>v. m\<lparr>fm_SuccessorModTimeNanos := v\<rparr>) (ReadInt64Bytes M b)
      else skipped m (Skip M b))"

definition readFastOpenGETMeta :: "msgp \<Rightarrow> byte list \<Rightarrow> gerror + FastOpenGETMeta \<times> byte list" where
  "readFastOpenGETMeta M b = read_struct M (getmeta_field M) FastOpenGETMeta0 b"

definition marshalCoalescedMetadataFrame ::
  "msgp \<Rightarrow> ((string \<times> string) list \<Rightarrow> (string \<times> string) list) \<Rightarrow> CoalescedMetadataFrame \<Rightarrow> gerror + byte list" where
  "marshalCoalescedMetadataFrame M ord f =
     (if \<not> status_valid (cf_Status f) then Inl ErrFastOpenFrameBadStatus
      else if \<not> mode_valid (cf_BodyMode f) then Inl ErrFastOpenFrameBadBodyMode
      else Inr (let b = AppendMapHeader M [] 4;
          b = AppendUint8 M (AppendString M b ''s'') (cf_Status f);
          b = appendFastOpenGETMeta M ord (AppendString M b ''m'') (cf_Meta f);
          b = AppendUint8 M (AppendString M b ''bm'') (cf_BodyMode f);
          b = AppendInt64 M (AppendString M b ''bl'') (cf_BodyLen f)
      in b))"

definition frame_field :: "msgp \<Rightarrow> string \<Rightarrow> CoalescedMetadataFrame \<Rightarrow> byte list \<Rightarrow> gerror + CoalescedMetadataFrame \<times> byte list" where
  "frame_field M key f b =
     (if key = ''s'' then into (\<lambda>v. f\<lparr>cf_Status := v\<rparr>) (ReadUint8Bytes M b)
      else if key = ''m'' then into (\<lambda>v. f\<lparr>cf_Meta := v\<rparr>) (readFastOpenGETMeta M b)
      else if key = ''bm'' then into (\<lambda>v. f\<lparr>cf_BodyMode := v\<rparr>) (ReadUint8Bytes M b)
      else if key = ''bl'' then into (\<lambda>v. f\<lparr>cf_BodyLen := v\<rparr>) (ReadInt64Bytes M b)
      else skipped f (Skip M b))"

definition unmarshalCoalescedMetadataFrame :: "msgp \<Rightarrow> byte list \<Rightarrow> gerror + CoalescedMetadataFrame" where
  "unmarshalCoalescedMetadataFrame M b =
     (case read_struct M (frame_field M) CoalescedMetadataFrame0 b of
        Inl e \<Rightarrow> Inl e
      | Inr (f, b') \<Rightarrow>
          if length b' \<noteq> 0 then Inl ErrFastOpenFrameBadPayload
          else if \<not> status_valid (cf_Status f) then Inl ErrFastOpenFrameBadStatus
          else if \<not> mode_valid (cf_BodyMode f) then Inl ErrFastOpenFrameBadBodyMode
          else Inr f)"

section \<open>Frames on a stream\<close>

definition encodeFastOpenFrame ::
  "msgp \<Rightarrow> ((string \<times> string) list \<Rightarrow> (string \<times> string) list) \<Rightarrow> CoalescedMetadataFrame \<Rightarrow> gerror + byte list" where
  "encodeFastOpenFrame M ord frame =
     (case marshalCoalescedMetadataFrame M ord frame of
        Inl e \<Rightarrow> Inl e
      | Inr payload \<Rightarrow>
          if length payload > fastOpenFrameMaxHeaderLen then Inl ErrFastOpenFrameHeaderTooLarge
          else
            let prelude = \<lparr>pr_Magic = fastOpenFrameMagic, pr_Version = fastOpenFrameVersion,
                  pr_HeaderLen = word_of_nat (length payload), pr_HeaderCRC32 = ChecksumIEEE payload,
                  pr_BodyMode = cf_BodyMode frame\<rparr>
            in Inr (encodeFastOpenFramePrelude prelude @ payload))"

text \<open>An \<open>io.Reader\<close>: the bytes it will still deliver and the error it ends with (\<open>None\<close>: EOF).
  \<open>io.ReadFull\<close> fails with EOF only if it gets nothing at all.\<close>

type_synonym reader = "byte list \<times> gerror option"

definition ReadFull :: "nat \<Rightarrow> reader \<Rightarrow> (gerror + byte list) \<times> reader" where
  "ReadFull n r =
     (case r of (d, end_err) \<Rightarrow>
        if n \<le> length d then (Inr (take n d), drop n d, end_err)
        else (Inl (case end_err of Some e \<Rightarrow> e | None \<Rightarrow> if d = [] then IoEOF else IoUnexpectedEOF), [], end_err))"

definition readFastOpenFrame ::
  "msgp \<Rightarrow> reader \<Rightarrow> (gerror + FastOpenFramePrelude \<times> CoalescedMetadataFrame) \<times> reader" where
  "readFastOpenFrame M r =
     (case ReadFull fastOpenFramePreludeLen r of
        (Inl e, r1) \<Rightarrow> (Inl e, r1)
      | (Inr preludeBuf, r1) \<Rightarrow>
          (case decodeFastOpenFramePrelude preludeBuf of
             Inl e \<Rightarrow> (Inl e, r1)
           | Inr prelude \<Rightarrow>
               if unat (pr_HeaderLen prelude) > fastOpenFrameMaxHeaderLen then (Inl ErrFastOpenFrameHeaderTooLarge, r1)
               else (case ReadFull (unat (pr_HeaderLen prelude)) r1 of
                  (Inl e, r2) \<Rightarrow> (Inl e, r2)
                | (Inr payload, r2) \<Rightarrow>
                    if ChecksumIEEE payload \<noteq> pr_HeaderCRC32 prelude then (Inl ErrFastOpenFrameBadCRC, r2)
                    else (case unmarshalCoalescedMetadataFrame M payload of
                       Inl e \<Rightarrow> (Inl e, r2)
                     | Inr frame \<Rightarrow>
                         if cf_BodyMode frame \<noteq> pr_BodyMode prelude then (Inl ErrFastOpenFrameBadPayload, r2)
                         else (Inr (prelude, frame), r2)))))"

section \<open>What is used of the package\<close>

text \<open>An \<open>Append\<close> function only adds to its buffer; a \<open>Read\<close> function reads back what was appended
  and leaves the rest.\<close>

definition appends :: "(byte list \<Rightarrow> 'v \<Rightarrow> byte list) \<Rightarrow> bool" where
  "appends f \<longleftrightarrow> (\<forall>b v. f b v = b @ f [] v)"

definition reads_back ::
  "('v \<Rightarrow> bool) \<Rightarrow> (byte list \<Rightarrow> 'v \<Rightarrow> byte list) \<Rightarrow> (byte list \<Rightarrow> gerror + 'v \<times> byte list) \<Rightarrow> bool" where
  "reads_back ok f rd \<longleftrightarrow> (\<forall>v r. ok v \<longrightarrow> rd (f [] v @ r) = Inr (v, r))"

definition short :: "'a list \<Rightarrow> bool" where
  "short xs \<longleftrightarrow> length xs < 2 ^ 32"

definition msgp_ok :: "msgp \<Rightarrow> bool" where
  "msgp_ok M \<longleftrightarrow>
     appends (AppendMapHeader M) \<and> appends (AppendArrayHeader M) \<and> appends (AppendString M) \<and> appends (AppendBool M)
     \<and> appends (AppendInt64 M) \<and> appends (AppendInt M) \<and> appends (AppendUint8 M) \<and> appends (AppendBytes M)
     \<and> appends (\<lambda>b (_ :: unit). AppendNil M b)
     \<and> reads_back (\<lambda>_. True) (AppendMapHeader M) (ReadMapHeaderBytes M)
     \<and> reads_back (\<lambda>_. True) (AppendArrayHeader M) (ReadArrayHeaderBytes M)
     \<and> reads_back short (AppendString M) (ReadMapKeyZC M)
     \<and> reads_back short (AppendString M) (ReadStringBytes M)
     \<and> reads_back (\<lambda>_. True) (AppendBool M) (ReadBoolBytes M)
     \<and> reads_back is_int64 (AppendInt64 M) (ReadInt64Bytes M)
     \<and> reads_back is_int64 (AppendInt M) (ReadIntBytes M)
     \<and> reads_back (\<lambda>_. True) (AppendUint8 M) (ReadUint8Bytes M)
     \<and> reads_back short (AppendBytes M) (ReadBytesZC M)
     \<and> (\<forall>r. IsNil M (AppendNil M [] @ r) \<and> ReadNilBytes M (AppendNil M [] @ r) = Inr r)
     \<and> (\<forall>n r. \<not> IsNil M (AppendMapHeader M [] n @ r)) \<and> (\<forall>n r. \<not> IsNil M (AppendArrayHeader M [] n @ r))
     \<and> (\<forall>v r. \<not> IsNil M (AppendBytes M [] v @ r))
     \<and> (\<forall>s. length s < length (AppendString M [] s)) \<and> (\<forall>i. 0 < length (AppendInt M [] i))"

text \<open>The encodings of single values.\<close>

definition enc_hdr :: "msgp \<Rightarrow> 32 word \<Rightarrow> byte list" where "enc_hdr M v = AppendMapHeader M [] v"
definition enc_arr :: "msgp \<Rightarrow> 32 word \<Rightarrow> byte list" where "enc_arr M v = AppendArrayHeader M [] v"
definition enc_str :: "msgp \<Rightarrow> string \<Rightarrow> byte list" where "enc_str M v = AppendString M [] v"
definition enc_bool :: "msgp \<Rightarrow> bool \<Rightarrow> byte list" where "enc_bool M v = AppendBool M [] v"
definition enc_i64 :: "msgp \<Rightarrow> int \<Rightarrow> byte list" where "enc_i64 M v = AppendInt64 M [] v"
definition enc_int :: "msgp \<Rightarrow> int \<Rightarrow> byte list" where "enc_int M v = AppendInt M [] v"
definition enc_u8 :: "msgp \<Rightarrow> byte \<Rightarrow> byte list" where "enc_u8 M v = AppendUint8 M [] v"
definition enc_bytes :: "msgp \<Rightarrow> byte list \<Rightarrow> byte list" where "enc_bytes M v = AppendBytes M [] v"
definition enc_nil :: "msgp \<Rightarrow> byte list" where "enc_nil M = AppendNil M []"

lemma msgp_ok_appends:
  assumes "msgp_ok M"
  shows "appends (AppendMapHeader M)"
    and "appends (AppendArrayHeader M)"
    and "appends (AppendString M)"
    and "appends (AppendBool M)"
    and "appends (AppendInt64 M)"
    and "appends (AppendInt M)"
    and "appends (AppendUint8 M)"
    and "appends (AppendBytes M)"
    and "appends (\<lambda>b (_ :: unit). AppendNil M b)"
  using assms by (simp_all add: msgp_ok_def)

lemma appendsD: "appends f \<Longrightarrow> f b v = b @ f [] v"
  unfolding appends_def by blast

lemma append_enc:
  assumes "msgp_ok M"
  shows "AppendMapHeader M b v0 = b @ enc_hdr M v0"
    and "AppendArrayHeader M b v1 = b @ enc_arr M v1"
    and "AppendString M b v2 = b @ enc_str M v2"
    and "AppendBool M b v3 = b @ enc_bool M v3"
    and "AppendInt64 M b v4 = b @ enc_i64 M v4"
    and "AppendInt M b v5 = b @ enc_int M v5"
    and "AppendUint8 M b v6 = b @ enc_u8 M v6"
    and "AppendBytes M b v7 = b @ enc_bytes M v7"
    and "AppendNil M b = b @ enc_nil M"
  unfolding enc_hdr_def enc_arr_def enc_str_def enc_bool_def enc_i64_def enc_int_def enc_u8_def enc_bytes_def enc_nil_def
  by (rule appendsD[OF msgp_ok_appends(1)[OF assms]] appendsD[OF msgp_ok_appends(2)[OF assms]] appendsD[OF msgp_ok_appends(3)[OF assms]] appendsD[OF msgp_ok_appends(4)[OF assms]] appendsD[OF msgp_ok_appends(5)[OF assms]] appendsD[OF msgp_ok_appends(6)[OF assms]] appendsD[OF msgp_ok_appends(7)[OF assms]] appendsD[OF msgp_ok_appends(8)[OF assms]]
      appendsD[OF msgp_ok_appends(9)[OF assms]])+

lemma read_enc:
  assumes "msgp_ok M"
  shows "ReadMapHeaderBytes M (enc_hdr M n @ r) = Inr (n, r)"
    and "ReadArrayHeaderBytes M (enc_arr M n @ r) = Inr (n, r)"
    and "short s \<Longrightarrow> ReadMapKeyZC M (enc_str M s @ r) = Inr (s, r)"
    and "short s \<Longrightarrow> ReadStringBytes M (enc_str M s @ r) = Inr (s, r)"
    and "ReadBoolBytes M (enc_bool M t @ r) = Inr (t, r)"
    and "is_int64 i \<Longrightarrow> ReadInt64Bytes M (enc_i64 M i @ r) = Inr (i, r)"
    and "is_int64 i \<Longrightarrow> ReadIntBytes M (enc_int M i @ r) = Inr (i, r)"
    and "ReadUint8Bytes M (enc_u8 M u @ r) = Inr (u, r)"
    and "short b \<Longrightarrow> ReadBytesZC M (enc_bytes M b @ r) = Inr (b, r)"
    and "IsNil M (enc_nil M @ r)" and "ReadNilBytes M (enc_nil M @ r) = Inr r"
    and "\<not> IsNil M (enc_hdr M n @ r)" and "\<not> IsNil M (enc_arr M n @ r)" and "\<not> IsNil M (enc_bytes M b @ r)"
    and "length s < length (enc_str M s)" and "0 < length (enc_int M i)"
  using assms unfolding enc_hdr_def enc_arr_def enc_str_def enc_bool_def enc_i64_def enc_int_def enc_u8_def enc_bytes_def enc_nil_def
  by (simp_all add: msgp_ok_def reads_back_def del: length_greater_0_conv)

lemma into_Inr [simp]: "into f (Inr (v, b)) = Inr (f v, b)" "skipped m (Inr b) = Inr (m, b)"
  by (simp_all add: into_def skipped_def)

lemma read_fields_key:
  assumes "msgp_ok M" and "short k"
  shows "read_fields M field (Suc n) m (enc_str M k @ r)
    = (case field k m r of Inl e \<Rightarrow> Inl e | Inr (m', b) \<Rightarrow> read_fields M field n m' b)"
  using read_enc(3)[OF assms] by simp

lemma read_fields_num:
  "msgp_ok M \<Longrightarrow> short k \<Longrightarrow> read_fields M field (numeral v) m (enc_str M k @ r)
    = (case field k m r of Inl e \<Rightarrow> Inl e | Inr (m', b) \<Rightarrow> read_fields M field (pred_numeral v) m' b)"
  using read_fields_key[of M k field "pred_numeral v" m r] by (simp add: numeral_eq_Suc)

lemma read_struct_enc:
  "msgp_ok M \<Longrightarrow> read_struct M field zero (enc_hdr M n @ r) = read_fields M field (unat n) zero r"
  by (simp add: read_struct_def read_enc)

lemma short_key [simp]: "length k \<le> 10 \<Longrightarrow> short k"
  by (simp add: short_def)

section \<open>Round trips of the structs\<close>

lemma transition_append:
  "msgp_ok M \<Longrightarrow> appendFastOpenTransitionMeta M b m = b @ enc_hdr M 4 @ enc_str M ''s'' @ enc_str M (ft_Status m)
     @ enc_str M ''o'' @ enc_str M (ft_Object m) @ enc_str M ''t'' @ enc_str M (ft_Tier m)
     @ enc_str M ''v'' @ enc_str M (ft_VersionID m)"
  by (simp add: appendFastOpenTransitionMeta_def append_enc Let_def)

definition transition_ok :: "FastOpenTransitionMeta \<Rightarrow> bool" where
  "transition_ok m \<longleftrightarrow> short (ft_Status m) \<and> short (ft_Object m) \<and> short (ft_Tier m) \<and> short (ft_VersionID m)"

lemma transition_roundtrip:
  "msgp_ok M \<Longrightarrow> transition_ok m \<Longrightarrow>
   readFastOpenTransitionMeta M (appendFastOpenTransitionMeta M [] m @ r) = Inr (m, r)"
  by (simp add: transition_append readFastOpenTransitionMeta_def read_struct_enc read_fields_key read_fields_num
      transition_field_def read_enc transition_ok_def FastOpenTransitionMeta0_def)

lemma part_append:
  "msgp_ok M \<Longrightarrow> appendFastOpenPartMeta M b m = b @ enc_hdr M 3 @ enc_str M ''n'' @ enc_int M (fp_Number m)
     @ enc_str M ''s'' @ enc_i64 M (fp_Size m) @ enc_str M ''as'' @ enc_i64 M (fp_ActualSize m)"
  by (simp add: appendFastOpenPartMeta_def append_enc Let_def)

definition part_ok :: "FastOpenPartMeta \<Rightarrow> bool" where
  "part_ok m \<longleftrightarrow> is_int64 (fp_Number m) \<and> is_int64 (fp_Size m) \<and> is_int64 (fp_ActualSize m)"

lemma part_roundtrip:
  "msgp_ok M \<Longrightarrow> part_ok m \<Longrightarrow> readFastOpenPartMeta M (appendFastOpenPartMeta M [] m @ r) = Inr (m, r)"
  by (simp add: part_append readFastOpenPartMeta_def read_struct_enc read_fields_key read_fields_num
      part_field_def read_enc part_ok_def FastOpenPartMeta0_def)

text \<open>A byte slice that is empty but not nil comes back as nil.\<close>

lemma bytes_append: "msgp_ok M \<Longrightarrow> appendBytesOrNil M b v = b @ appendBytesOrNil M [] v"
  by (simp add: appendBytesOrNil_def append_enc split: option.split)

lemma bytes_roundtrip:
  "msgp_ok M \<Longrightarrow> short (elems v) \<Longrightarrow> readBytesOrNil M (appendBytesOrNil M [] v @ r) = Inr (copy_slice v, r)"
  by (cases v) (simp_all add: appendBytesOrNil_def readBytesOrNil_def append_enc read_enc copy_slice_def)

lemma bitrot_append:
  "msgp_ok M \<Longrightarrow> appendFastOpenBitrotMeta M b m = b @ enc_hdr M 3 @ enc_str M ''pn'' @ enc_int M (fb_PartNumber m)
     @ enc_str M ''a'' @ enc_u8 M (fb_Algorithm m) @ enc_str M ''h'' @ appendBytesOrNil M [] (fb_Hash m)"
  by (simp add: appendFastOpenBitrotMeta_def append_enc bytes_append[of M "_ @ _"] Let_def)

definition bitrot_ok :: "FastOpenBitrotMeta \<Rightarrow> bool" where
  "bitrot_ok m \<longleftrightarrow> is_int64 (fb_PartNumber m) \<and> short (elems (fb_Hash m))"

definition bitrot_read :: "FastOpenBitrotMeta \<Rightarrow> FastOpenBitrotMeta" where
  "bitrot_read m = m\<lparr>fb_Hash := copy_slice (fb_Hash m)\<rparr>"

lemma bitrot_roundtrip:
  "msgp_ok M \<Longrightarrow> bitrot_ok m \<Longrightarrow>
   readFastOpenBitrotMeta M (appendFastOpenBitrotMeta M [] m @ r) = Inr (bitrot_read m, r)"
  by (simp add: bitrot_append readFastOpenBitrotMeta_def read_struct_enc read_fields_key read_fields_num
      bitrot_field_def read_enc bytes_roundtrip bitrot_ok_def bitrot_read_def FastOpenBitrotMeta0_def)

text \<open>Slices of integers. The check of the announced length never rejects what was written.\<close>

lemma unat_word: "a < 2 ^ 32 \<Longrightarrow> unat (word_of_nat a :: 32 word) = a"
  by (simp add: unat_of_nat)

lemma word_not_less: "a \<le> b \<Longrightarrow> b < 2 ^ 32 \<Longrightarrow> \<not> (word_of_nat b :: 32 word) < word_of_nat a"
  by (simp add: word_less_nat_alt unat_word)

lemma foldl_ints: "msgp_ok M \<Longrightarrow> foldl (AppendInt M) b vs = b @ concat (map (enc_int M) vs)"
  by (induction vs arbitrary: b) (simp_all add: append_enc)

lemma intslice_append: "msgp_ok M \<Longrightarrow> appendIntSlice M b ints = b @ appendIntSlice M [] ints"
  by (simp add: appendIntSlice_def append_enc foldl_ints split: option.split)

lemma ints_length: "msgp_ok M \<Longrightarrow> length vs \<le> length (concat (map (enc_int M) vs))"
proof (induction vs)
  case (Cons v vs)
  then have "1 \<le> length (enc_int M v)" using read_enc(16)[of M v] by linarith
  then show ?case using Cons by simp
qed simp

lemma read_ints_back:
  "msgp_ok M \<Longrightarrow> \<forall>v \<in> set vs. is_int64 v \<Longrightarrow>
   read_ints M (length vs) acc (concat (map (enc_int M) vs) @ r) = Inr (Some (acc @ vs), r)"
  by (induction vs arbitrary: acc) (simp_all add: read_enc)

lemma intslice_roundtrip:
  assumes "msgp_ok M" and "\<forall>v \<in> set (elems ints). is_int64 v" and "short (appendIntSlice M [] ints @ r)"
  shows "readIntSlice M (appendIntSlice M [] ints @ r) = Inr (ints, r)"
proof (cases ints)
  case None
  then show ?thesis using assms(1) by (simp add: appendIntSlice_def readIntSlice_def append_enc read_enc)
next
  case (Some vs)
  let ?c = "concat (map (enc_int M) vs)"
  have l: "length vs \<le> length (?c @ r)" using ints_length[OF assms(1), of vs] by simp
  moreover have s: "length (?c @ r) < 2 ^ 32"
    using assms(3) Some by (simp add: appendIntSlice_def append_enc[OF assms(1)] foldl_ints[OF assms(1)] short_def)
  ultimately have "\<not> (word_of_nat (length (?c @ r)) :: 32 word) < word_of_nat (length vs)"
    by (rule word_not_less)
  then show ?thesis
    using assms(1,2) Some l s
    by (simp add: appendIntSlice_def readIntSlice_def append_enc foldl_ints read_enc read_ints_back unat_word)
qed

text \<open>Maps of strings: what comes back has the entries in the order they were written.\<close>

definition enc_pairs :: "msgp \<Rightarrow> (string \<times> string) list \<Rightarrow> byte list" where
  "enc_pairs M es = concat (map (\<lambda>(k, v). enc_str M k @ enc_str M v) es)"

lemma append_pairs_enc: "msgp_ok M \<Longrightarrow> append_pairs M b es = b @ enc_pairs M es"
proof (induction es arbitrary: b)
  case (Cons e es)
  then show ?case by (cases e) (simp add: enc_pairs_def append_enc)
qed (simp add: enc_pairs_def)

lemma strmap_append: "msgp_ok M \<Longrightarrow> appendStringMap M ord b m = b @ appendStringMap M ord [] m"
  by (simp add: appendStringMap_def append_enc append_pairs_enc split: option.split)

lemma pairs_length: "msgp_ok M \<Longrightarrow> 2 * length es \<le> length (enc_pairs M es)"
proof (induction es)
  case (Cons e es)
  obtain k v where e: "e = (k, v)" by (cases e)
  have "1 \<le> length (enc_str M k)" "1 \<le> length (enc_str M v)"
    using read_enc(15)[OF Cons.prems, of k] read_enc(15)[OF Cons.prems, of v] by linarith+
  then show ?case using Cons e by (simp add: enc_pairs_def)
qed simp

lemma update_fresh: "k \<notin> fst ` set m \<Longrightarrow> AList.update k v m = m @ [(k, v)]"
  by (induction m) auto

lemma read_pairs_back:
  "msgp_ok M \<Longrightarrow> \<forall>(k, v) \<in> set es. short k \<and> short v \<Longrightarrow> distinct (map fst (acc @ es)) \<Longrightarrow>
   read_pairs M (length es) acc (enc_pairs M es @ r) = Inr (Some (acc @ es), r)"
proof (induction es arbitrary: acc)
  case (Cons e es)
  obtain k v where e: "e = (k, v)" by (cases e)
  have "AList.update k v acc = acc @ [(k, v)]" using Cons.prems(3) e by (intro update_fresh) auto
  then show ?case
    using Cons.IH[of "acc @ [(k, v)]"] Cons.prems e by (simp add: enc_pairs_def read_enc)
qed (simp add: enc_pairs_def)

definition strmap_ok :: "strmap \<Rightarrow> bool" where
  "strmap_ok m \<longleftrightarrow> wf_strmap m \<and> (\<forall>(k, v) \<in> set (elems m). short k \<and> short v)"

lemma strmap_roundtrip:
  assumes "msgp_ok M" and "strmap_ok m" and "range_order ord" and "short (appendStringMap M ord [] m @ r)"
  shows "readStringMap M (appendStringMap M ord [] m @ r) = Inr (map_option ord m, r)"
proof (cases m)
  case None
  then show ?thesis using assms(1) by (simp add: appendStringMap_def readStringMap_def append_enc read_enc)
next
  case (Some es)
  let ?c = "enc_pairs M (ord es)"
  have lo: "length (ord es) = length es" by (rule range_order_length[OF assms(3)])
  have l: "length es \<le> length (?c @ r) div 2" using pairs_length[OF assms(1), of "ord es"] lo by simp
  have s: "length (?c @ r) < 2 ^ 32"
    using assms(4) Some by (simp add: appendStringMap_def append_enc[OF assms(1)] append_pairs_enc[OF assms(1)] short_def)
  then have s2: "length (?c @ r) div 2 < 2 ^ 32" by linarith
  note nl = word_not_less[OF l s2]
  have ok: "\<forall>(k, v) \<in> set (ord es). short k \<and> short v" and d: "distinct (map fst ([] @ ord es))"
    using assms(2) Some range_order_set[OF assms(3)] range_order_distinct_keys[OF assms(3)]
    by (auto simp: strmap_ok_def wf_strmap_def)
  show ?thesis
    using assms(1) Some nl l s2 lo read_pairs_back[OF assms(1) ok d, of r]
    by (simp add: appendStringMap_def readStringMap_def append_enc append_pairs_enc read_enc unat_word)
qed

text \<open>The erasure layout, the metadata, the frame.\<close>

lemma short_suffix: "short (xs @ ys) \<Longrightarrow> short ys"
  by (simp add: short_def)

lemma erasure_append:
  "msgp_ok M \<Longrightarrow> appendFastOpenErasureMeta M b m = b @ enc_hdr M 6 @ enc_str M ''d'' @ enc_int M (fe_DataBlocks m)
     @ enc_str M ''p'' @ enc_int M (fe_ParityBlocks m) @ enc_str M ''bs'' @ enc_i64 M (fe_BlockSize m)
     @ enc_str M ''i'' @ enc_int M (fe_Index m) @ enc_str M ''dist'' @ appendIntSlice M [] (fe_Distribution m)
     @ enc_str M ''br'' @ appendFastOpenBitrotMeta M [] (fe_Bitrot m)"
  by (simp add: appendFastOpenErasureMeta_def append_enc intslice_append[of M "_ @ _"]
      bitrot_append[of M "_ @ _"] bitrot_append[of M "[]"] Let_def)

definition erasure_ok :: "FastOpenErasureMeta \<Rightarrow> bool" where
  "erasure_ok m \<longleftrightarrow> is_int64 (fe_DataBlocks m) \<and> is_int64 (fe_ParityBlocks m) \<and> is_int64 (fe_BlockSize m)
     \<and> is_int64 (fe_Index m) \<and> (\<forall>v \<in> set (elems (fe_Distribution m)). is_int64 v) \<and> bitrot_ok (fe_Bitrot m)"

definition erasure_read :: "FastOpenErasureMeta \<Rightarrow> FastOpenErasureMeta" where
  "erasure_read m = m\<lparr>fe_Bitrot := bitrot_read (fe_Bitrot m)\<rparr>"

lemma erasure_roundtrip:
  assumes "msgp_ok M" and "erasure_ok m" and "short (appendFastOpenErasureMeta M [] m @ r)"
  shows "readFastOpenErasureMeta M (appendFastOpenErasureMeta M [] m @ r) = Inr (erasure_read m, r)"
proof -
  let ?rest = "enc_str M ''br'' @ appendFastOpenBitrotMeta M [] (fe_Bitrot m) @ r"
  have "short (appendIntSlice M [] (fe_Distribution m) @ ?rest)"
    using assms(3) by (simp add: erasure_append[OF assms(1)] short_def)
  note d = intslice_roundtrip[OF assms(1) _ this]
  show ?thesis
    using assms(1,2) d
    by (simp add: erasure_append readFastOpenErasureMeta_def read_struct_enc read_fields_key read_fields_num
        erasure_field_def read_enc bitrot_roundtrip erasure_ok_def erasure_read_def FastOpenErasureMeta0_def)
qed

lemma getmeta_append:
  "msgp_ok M \<Longrightarrow> appendFastOpenGETMeta M ord b m = b @ enc_hdr M 12 @ enc_str M ''vid'' @ enc_str M (fm_VersionID m)
     @ enc_str M ''il'' @ enc_bool M (fm_IsLatest m) @ enc_str M ''v1'' @ enc_bool M (fm_Legacy m)
     @ enc_str M ''mt'' @ enc_i64 M (fm_ModTimeUnixNano m) @ enc_str M ''sz'' @ enc_i64 M (fm_Size m)
     @ enc_str M ''meta'' @ appendStringMap M ord [] (fm_Metadata m)
     @ enc_str M ''tr'' @ appendFastOpenTransitionMeta M [] (fm_Transition m)
     @ enc_str M ''part'' @ appendFastOpenPartMeta M [] (fm_Part m)
     @ enc_str M ''ei'' @ appendFastOpenErasureMeta M [] (fm_Erasure m)
     @ enc_str M ''cs'' @ appendBytesOrNil M [] (fm_Checksum m)
     @ enc_str M ''nv'' @ enc_int M (fm_NumVersions m) @ enc_str M ''smt'' @ enc_i64 M (fm_SuccessorModTimeNanos m)"
  by (simp add: appendFastOpenGETMeta_def append_enc strmap_append[of M ord "_ @ _"] bytes_append[of M "_ @ _"]
      transition_append[of M "_ @ _"] transition_append[of M "[]"] part_append[of M "_ @ _"] part_append[of M "[]"]
      erasure_append[of M "_ @ _"] erasure_append[of M "[]"] Let_def)

definition getmeta_ok :: "FastOpenGETMeta \<Rightarrow> bool" where
  "getmeta_ok m \<longleftrightarrow> short (fm_VersionID m) \<and> is_int64 (fm_ModTimeUnixNano m) \<and> is_int64 (fm_Size m)
     \<and> strmap_ok (fm_Metadata m) \<and> transition_ok (fm_Transition m) \<and> part_ok (fm_Part m)
     \<and> erasure_ok (fm_Erasure m) \<and> short (elems (fm_Checksum m)) \<and> is_int64 (fm_NumVersions m)
     \<and> is_int64 (fm_SuccessorModTimeNanos m)"

text \<open>What a reader gets of the metadata.\<close>

definition getmeta_read :: "((string \<times> string) list \<Rightarrow> (string \<times> string) list) \<Rightarrow> FastOpenGETMeta \<Rightarrow> FastOpenGETMeta" where
  "getmeta_read ord m = m\<lparr>fm_Metadata := map_option ord (fm_Metadata m), fm_Erasure := erasure_read (fm_Erasure m),
     fm_Checksum := copy_slice (fm_Checksum m)\<rparr>"

lemma getmeta_roundtrip:
  assumes "msgp_ok M" and "getmeta_ok m" and "range_order ord" and "short (appendFastOpenGETMeta M ord [] m @ r)"
  shows "readFastOpenGETMeta M (appendFastOpenGETMeta M ord [] m @ r) = Inr (getmeta_read ord m, r)"
proof -
  let ?r2 = "enc_str M ''cs'' @ appendBytesOrNil M [] (fm_Checksum m)
     @ enc_str M ''nv'' @ enc_int M (fm_NumVersions m) @ enc_str M ''smt'' @ enc_i64 M (fm_SuccessorModTimeNanos m) @ r"
  let ?r1 = "enc_str M ''tr'' @ appendFastOpenTransitionMeta M [] (fm_Transition m)
     @ enc_str M ''part'' @ appendFastOpenPartMeta M [] (fm_Part m)
     @ enc_str M ''ei'' @ appendFastOpenErasureMeta M [] (fm_Erasure m) @ ?r2"
  have s: "short (appendStringMap M ord [] (fm_Metadata m) @ ?r1)" "short (appendFastOpenErasureMeta M [] (fm_Erasure m) @ ?r2)"
    using assms(4) by (simp_all add: getmeta_append[OF assms(1)] short_def)
  note m = strmap_roundtrip[OF assms(1) _ assms(3) s(1)] and e = erasure_roundtrip[OF assms(1) _ s(2)]
  show ?thesis
    using assms(1,2) m e
    by (simp add: getmeta_append readFastOpenGETMeta_def read_struct_enc read_fields_key read_fields_num
        getmeta_field_def read_enc transition_roundtrip part_roundtrip bytes_roundtrip
        getmeta_ok_def getmeta_read_def FastOpenGETMeta0_def)
qed

definition frame_ok :: "CoalescedMetadataFrame \<Rightarrow> bool" where
  "frame_ok f \<longleftrightarrow> getmeta_ok (cf_Meta f) \<and> is_int64 (cf_BodyLen f)"

definition frame_read :: "((string \<times> string) list \<Rightarrow> (string \<times> string) list) \<Rightarrow> CoalescedMetadataFrame \<Rightarrow> CoalescedMetadataFrame" where
  "frame_read ord f = f\<lparr>cf_Meta := getmeta_read ord (cf_Meta f)\<rparr>"

lemma unmarshal_marshal:
  assumes "msgp_ok M" and "frame_ok f" and "range_order ord"
    and "marshalCoalescedMetadataFrame M ord f = Inr b" and "short b"
  shows "unmarshalCoalescedMetadataFrame M b = Inr (frame_read ord f)"
proof -
  let ?m = "appendFastOpenGETMeta M ord [] (cf_Meta f)"
  let ?r = "enc_str M ''bm'' @ enc_u8 M (cf_BodyMode f) @ enc_str M ''bl'' @ enc_i64 M (cf_BodyLen f)"
  have v: "status_valid (cf_Status f)" "mode_valid (cf_BodyMode f)"
    and b: "b = enc_hdr M 4 @ enc_str M ''s'' @ enc_u8 M (cf_Status f) @ enc_str M ''m'' @ ?m @ ?r"
    using assms(1,4)
    by (auto simp: marshalCoalescedMetadataFrame_def append_enc Let_def getmeta_append[of M ord "_ @ _"]
        getmeta_append[of M ord "[]"] split: if_splits)
  have s: "short (?m @ ?r)" using assms(5) by (simp add: b short_def)
  have "getmeta_ok (cf_Meta f)" using assms(2) by (simp add: frame_ok_def)
  note g = getmeta_roundtrip[OF assms(1) this assms(3) s]
  have bl: "ReadInt64Bytes M (enc_i64 M (cf_BodyLen f)) = Inr (cf_BodyLen f, [])"
    using read_enc(6)[OF assms(1), of "cf_BodyLen f" "[]"] assms(2) by (simp add: frame_ok_def)
  have "read_struct M (frame_field M) CoalescedMetadataFrame0 b = Inr (frame_read ord f, [])"
    using assms(1,2) g bl
    by (simp add: b read_struct_enc read_fields_key read_fields_num frame_field_def read_enc
        frame_ok_def frame_read_def CoalescedMetadataFrame0_def)
  then show ?thesis using v by (simp add: unmarshalCoalescedMetadataFrame_def frame_read_def)
qed

text \<open>What \<open>encodeFastOpenFrame\<close> produces.\<close>

lemma encode_frame_parts:
  assumes "encodeFastOpenFrame M ord f = Inr out"
  shows "\<exists>payload. marshalCoalescedMetadataFrame M ord f = Inr payload \<and> length payload \<le> fastOpenFrameMaxHeaderLen
    \<and> mode_valid (cf_BodyMode f)
    \<and> out = encodeFastOpenFramePrelude \<lparr>pr_Magic = fastOpenFrameMagic, pr_Version = fastOpenFrameVersion,
          pr_HeaderLen = word_of_nat (length payload), pr_HeaderCRC32 = ChecksumIEEE payload,
          pr_BodyMode = cf_BodyMode f\<rparr> @ payload"
  using assms by (auto simp: encodeFastOpenFrame_def Let_def marshalCoalescedMetadataFrame_def split: sum.splits if_splits)

lemma encode_prelude_length [simp]:
  "pr_Magic p = fastOpenFrameMagic \<Longrightarrow> length (encodeFastOpenFramePrelude p) = 15"
  by (simp add: encodeFastOpenFramePrelude_def)

lemma ReadFull_app [simp]: "length a = n \<Longrightarrow> ReadFull n (a @ d, e) = (Inr a, d, e)"
  by (simp add: ReadFull_def)

text \<open>Reading what starts with a prelude, up to the checksum.\<close>

lemma read_frame_prelude:
  assumes "pr_Magic p = fastOpenFrameMagic" and "pr_Version p = fastOpenFrameVersion" and "mode_valid (pr_BodyMode p)"
    and "unat (pr_HeaderLen p) = length payload" and "length payload \<le> fastOpenFrameMaxHeaderLen"
  shows "readFastOpenFrame M (encodeFastOpenFramePrelude p @ payload @ body, e) =
    (if ChecksumIEEE payload \<noteq> pr_HeaderCRC32 p then (Inl ErrFastOpenFrameBadCRC, body, e)
     else case unmarshalCoalescedMetadataFrame M payload of
       Inl err \<Rightarrow> (Inl err, body, e)
     | Inr frame \<Rightarrow> if cf_BodyMode frame \<noteq> pr_BodyMode p then (Inl ErrFastOpenFrameBadPayload, body, e)
                     else (Inr (p, frame), body, e))"
proof -
  have "ReadFull fastOpenFramePreludeLen (encodeFastOpenFramePrelude p @ payload @ body, e)
      = (Inr (encodeFastOpenFramePrelude p), payload @ body, e)"
    using assms(1) by (simp add: fastOpenFramePreludeLen_def)
  moreover have "decodeFastOpenFramePrelude (encodeFastOpenFramePrelude p) = Inr p"
    using prelude_decode_encode[OF assms(1-3), of "[]"] by simp
  ultimately show ?thesis using assms(4,5) by (simp add: readFastOpenFrame_def split: sum.split)
qed

section \<open>MessagePack in its widest formats\<close>

text \<open>An instance of the parameter: every value in the format with the widest header (\<open>map 32\<close>,
  \<open>array 32\<close>, \<open>str 32\<close>, \<open>bin 32\<close>, \<open>int 64\<close>, \<open>uint 8\<close>), and readers of these.\<close>

fun be_bytes :: "nat \<Rightarrow> nat \<Rightarrow> byte list" where
  "be_bytes 0 n = []"
| "be_bytes (Suc k) n = be_bytes k (n div 256) @ [word_of_nat n]"

definition be_nat :: "byte list \<Rightarrow> nat" where
  "be_nat bs = foldl (\<lambda>a b. a * 256 + unat b) 0 bs"

lemma be_bytes_length [simp]: "length (be_bytes k n) = k"
  by (induction k n rule: be_bytes.induct) auto

lemma be_nat_bytes: "n < 256 ^ k \<Longrightarrow> be_nat (be_bytes k n) = n"
proof (induction k n rule: be_bytes.induct)
  case (2 k n)
  then have "n div 256 < 256 ^ k" by (simp add: less_mult_imp_div_less mult.commute)
  then show ?case using 2 by (simp add: be_nat_def unat_of_nat)
qed (simp add: be_nat_def)

definition wide :: "byte \<Rightarrow> nat \<Rightarrow> nat \<Rightarrow> byte list \<Rightarrow> byte list" where
  "wide tag k n body = tag # be_bytes k n @ body"

definition unwide :: "byte \<Rightarrow> nat \<Rightarrow> byte list \<Rightarrow> gerror + nat \<times> byte list" where
  "unwide tag k b = (case b of
     [] \<Rightarrow> Inl (OtherErr ''msgp: too few bytes left to read object'')
   | t # r \<Rightarrow> if t = tag \<and> k \<le> length r then Inr (be_nat (take k r), drop k r)
             else Inl (OtherErr ''msgp: type error''))"

definition unwide_body :: "byte \<Rightarrow> byte list \<Rightarrow> gerror + byte list \<times> byte list" where
  "unwide_body tag b = (case unwide tag 4 b of
     Inl e \<Rightarrow> Inl e
   | Inr (n, r) \<Rightarrow> if n \<le> length r then Inr (take n r, drop n r)
                  else Inl (OtherErr ''msgp: too few bytes left to read object''))"

definition wide_msgp :: msgp where
  "wide_msgp = \<lparr>
     AppendMapHeader = (\<lambda>b n. b @ wide 0xDF 4 (unat n) []),
     AppendArrayHeader = (\<lambda>b n. b @ wide 0xDD 4 (unat n) []),
     AppendString = (\<lambda>b s. b @ wide 0xDB 4 (length s) (bytes_of s)),
     AppendBool = (\<lambda>b t. b @ wide (if t then 0xC3 else 0xC2) 0 0 []),
     AppendInt64 = (\<lambda>b i. b @ wide 0xD3 8 (nat (i mod 2 ^ 64)) []),
     AppendInt = (\<lambda>b i. b @ wide 0xD3 8 (nat (i mod 2 ^ 64)) []),
     AppendUint8 = (\<lambda>b u. b @ wide 0xCC 0 0 [u]),
     AppendBytes = (\<lambda>b v. b @ wide 0xC6 4 (length v) v),
     AppendNil = (\<lambda>b. b @ wide 0xC0 0 0 []),
     ReadMapHeaderBytes = (\<lambda>b. into word_of_nat (unwide 0xDF 4 b)),
     ReadArrayHeaderBytes = (\<lambda>b. into word_of_nat (unwide 0xDD 4 b)),
     ReadMapKeyZC = (\<lambda>b. into (map (\<lambda>b. char_of (unat b))) (unwide_body 0xDB b)),
     ReadStringBytes = (\<lambda>b. into (map (\<lambda>b. char_of (unat b))) (unwide_body 0xDB b)),
     ReadBoolBytes = (\<lambda>b. case b of
         [] \<Rightarrow> Inl (OtherErr ''msgp: too few bytes left to read object'')
       | t # r \<Rightarrow> if t = 0xC3 then Inr (True, r) else if t = 0xC2 then Inr (False, r)
                 else Inl (OtherErr ''msgp: type error'')),
     ReadInt64Bytes = (\<lambda>b. into (\<lambda>n. int64 (int n)) (unwide 0xD3 8 b)),
     ReadIntBytes = (\<lambda>b. into (\<lambda>n. int64 (int n)) (unwide 0xD3 8 b)),
     ReadUint8Bytes = (\<lambda>b. case b of
         t # u # r \<Rightarrow> if t = 0xCC then Inr (u, r) else Inl (OtherErr ''msgp: type error'')
       | _ \<Rightarrow> Inl (OtherErr ''msgp: too few bytes left to read object'')),
     ReadBytesZC = (\<lambda>b. unwide_body 0xC6 b),
     IsNil = (\<lambda>b. b \<noteq> [] \<and> b ! 0 = 0xC0),
     ReadNilBytes = (\<lambda>b. if b \<noteq> [] \<and> b ! 0 = 0xC0 then Inr (drop 1 b) else Inl (OtherErr ''msgp: type error'')),
     Skip = (\<lambda>b. Inl (OtherErr ''msgp: type error''))\<rparr>"

lemma unwide_wide: "n < 256 ^ k \<Longrightarrow> unwide tag k (wide tag k n body @ r) = Inr (n, body @ r)"
  by (simp add: unwide_def wide_def be_nat_bytes)

lemma unwide_body_wide:
  "length v < 2 ^ 32 \<Longrightarrow> unwide_body tag (wide tag 4 (length v) v @ r) = Inr (v, r)"
  using unwide_wide[of "length v" 4 tag v r] by (simp add: unwide_body_def)

lemma unat_of_char: "unat (of_char c :: byte) = of_char c"
proof -
  have "(of_char c :: byte) = word_of_nat (of_char c)" by (simp add: of_nat_of_char)
  moreover have "(of_char c :: nat) < 256" by (rule nat_of_char_less_256)
  ultimately show ?thesis by (simp add: unat_of_nat)
qed

lemma chars_of_bytes [simp]: "map (\<lambda>b. char_of (unat b)) (bytes_of s) = s"
  by (simp add: bytes_of_def comp_def unat_of_char)

lemma int64_nat_mod: "is_int64 i \<Longrightarrow> int64 (int (nat (i mod 2 ^ 64))) = i"
proof -
  assume i: "is_int64 i"
  have "int (nat (i mod 2 ^ 64)) = i mod 2 ^ 64" by simp
  then have "int64 (int (nat (i mod 2 ^ 64))) = int64 i"
    unfolding int64_def by (metis mod_add_left_eq)
  then show ?thesis using i by simp
qed

lemma nat_mod_less: "nat (i mod 2 ^ 64) < 256 ^ 8"
  using pos_mod_bound[of "2 ^ 64" i] by (simp add: nat_less_iff)

lemma wide_msgp_ok: "msgp_ok wide_msgp"
proof -
  have w: "unwide tag 4 (wide tag 4 (unat (n :: 32 word)) [] @ r) = Inr (unat n, r)" for tag n r
    using unwide_wide[of "unat n" 4 tag "[]" r] unsigned_less[of n] by simp
  have i: "unwide 0xD3 8 (wide 0xD3 8 (nat (i mod 2 ^ 64)) [] @ r) = Inr (nat (i mod 2 ^ 64), r)" for i r
    using unwide_wide[of "nat (i mod 2 ^ 64)" 8 "0xD3" "[]" r] nat_mod_less[of i] by simp
  have i: "is_int64 v \<Longrightarrow> into (\<lambda>n. int64 (int n)) (unwide 0xD3 8 (wide 0xD3 8 (nat (v mod 18446744073709551616)) [] @ r))
      = Inr (v, r)" for v r
    using i[of v r] int64_nat_mod[of v] by simp
  have s: "short s \<Longrightarrow> unwide_body 0xDB (wide 0xDB 4 (length s) (bytes_of s) @ r) = Inr (bytes_of s, r)" for s r
    using unwide_body_wide[of "bytes_of s" "0xDB" r] by (simp add: short_def)
  have b: "short v \<Longrightarrow> unwide_body 0xC6 (wide 0xC6 4 (length v) v @ r) = Inr (v, r)" for v r
    using unwide_body_wide[of v "0xC6" r] by (simp add: short_def)
  show ?thesis
    unfolding msgp_ok_def
    by (intro conjI; simp add: wide_msgp_def appends_def reads_back_def w i s b;
        simp add: wide_def)
qed

section \<open>Between \<open>FileInfo\<close> and the frame\<close>

definition cloneStringMap :: "((string \<times> string) list \<Rightarrow> (string \<times> string) list) \<Rightarrow> strmap \<Rightarrow> strmap" where
  "cloneStringMap ord m =
     (case m of None \<Rightarrow> None | Some es \<Rightarrow> Some (foldl (\<lambda>out (k, v). AList.update k v out) [] (ord es)))"

definition fastOpenTimeUnixNano :: "gotime \<Rightarrow> int" where
  "fastOpenTimeUnixNano t = (if IsZero t then 0 else UnixNano t)"

definition fastOpenUnixNanoTime :: "int \<Rightarrow> gotime" where
  "fastOpenUnixNanoTime n = (if n = 0 then zero_time else Unix0 n)"

definition fastOpenBitrotCode :: "BitrotAlgorithm \<Rightarrow> gerror + byte" where
  "fastOpenBitrotCode algo =
     (if algo = SHA256 then Inr 1 else if algo = HighwayHash256 then Inr 2
      else if algo = HighwayHash256S then Inr 3 else if algo = BLAKE2b512 then Inr 4
      else Inl ErrFastOpenFrameBadBitrot)"

definition fastOpenBitrotAlgorithm :: "byte \<Rightarrow> gerror + BitrotAlgorithm" where
  "fastOpenBitrotAlgorithm code =
     (if code = 1 then Inr SHA256 else if code = 2 then Inr HighwayHash256
      else if code = 3 then Inr HighwayHash256S else if code = 4 then Inr BLAKE2b512
      else Inl ErrFastOpenFrameBadBitrot)"

definition fe_hasData :: "FastOpenErasureMeta \<Rightarrow> bool" where
  "fe_hasData m \<longleftrightarrow> fe_DataBlocks m \<noteq> 0 \<or> fe_ParityBlocks m \<noteq> 0 \<or> fe_BlockSize m \<noteq> 0 \<or> fe_Index m \<noteq> 0
     \<or> length (elems (fe_Distribution m)) \<noteq> 0"

definition fileInfoToFastOpenGETMeta ::
  "((string \<times> string) list \<Rightarrow> (string \<times> string) list) \<Rightarrow> FileInfo \<Rightarrow> gerror + FastOpenGETMeta" where
  "fileInfoToFastOpenGETMeta ord fi =
     (let e = fi_Erasure fi;
          part = (case elems (fi_Parts fi) of
                    [] \<Rightarrow> FastOpenPartMeta0
                  | p # _ \<Rightarrow> \<lparr>fp_Number = pt_Number p, fp_Size = pt_Size p, fp_ActualSize = pt_ActualSize p\<rparr>);
          meta = \<lparr>fm_VersionID = fi_VersionID fi, fm_IsLatest = fi_IsLatest fi, fm_Legacy = fi_XLV1 fi,
            fm_ModTimeUnixNano = fastOpenTimeUnixNano (fi_ModTime fi), fm_Size = fi_Size fi,
            fm_Metadata = cloneStringMap ord (fi_Metadata fi),
            fm_Transition = \<lparr>ft_Status = fi_TransitionStatus fi, ft_Object = fi_TransitionedObjName fi,
              ft_Tier = fi_TransitionTier fi, ft_VersionID = fi_TransitionVersionID fi\<rparr>,
            fm_Part = part,
            fm_Erasure = \<lparr>fe_DataBlocks = ei_DataBlocks e, fe_ParityBlocks = ei_ParityBlocks e,
              fe_BlockSize = ei_BlockSize e, fe_Index = ei_Index e, fe_Distribution = copy_slice (ei_Distribution e),
              fe_Bitrot = FastOpenBitrotMeta0\<rparr>,
            fm_Checksum = copy_slice (fi_Checksum fi), fm_NumVersions = fi_NumVersions fi,
            fm_SuccessorModTimeNanos = fastOpenTimeUnixNano (fi_SuccessorModTime fi)\<rparr>
      in if fp_Number part = 0 then Inr meta
         else
           let ckSum = GetChecksumInfo e (fp_Number part)
           in (case fastOpenBitrotCode (ck_Algorithm ckSum) of
                 Inl err \<Rightarrow> Inl err
               | Inr algo \<Rightarrow> Inr (meta\<lparr>fm_Erasure := (fm_Erasure meta)\<lparr>fe_Bitrot :=
                   \<lparr>fb_PartNumber = ck_PartNumber ckSum, fb_Algorithm = algo, fb_Hash = copy_slice (ck_Hash ckSum)\<rparr>\<rparr>\<rparr>)))"

text \<open>\<open>replState\<close> stands for \<open>getInternalReplicationState\<close>.\<close>

definition fastOpenGETMetaToFileInfo ::
  "((string \<times> string) list \<Rightarrow> (string \<times> string) list) \<Rightarrow> (strmap \<Rightarrow> ReplicationState) \<Rightarrow> string \<Rightarrow> string
   \<Rightarrow> FastOpenFrameStatus \<Rightarrow> FastOpenGETMeta \<Rightarrow> gerror + FileInfo" where
  "fastOpenGETMetaToFileInfo ord replState volume object status meta =
     (if \<not> status_valid status then Inl ErrFastOpenFrameBadStatus
      else if status \<noteq> FastOpenStatusOK \<and> status \<noteq> FastOpenStatusDeleteMarker then Inl ErrFastOpenFrameBadStatus
      else
        let t = fm_Transition meta; e = fm_Erasure meta; br = fe_Bitrot e;
            fi = FileInfo0\<lparr>fi_Volume := volume, fi_Name := object, fi_VersionID := fm_VersionID meta,
              fi_IsLatest := fm_IsLatest meta, fi_Deleted := (status = FastOpenStatusDeleteMarker),
              fi_TransitionStatus := ft_Status t, fi_TransitionedObjName := ft_Object t,
              fi_TransitionTier := ft_Tier t, fi_TransitionVersionID := ft_VersionID t,
              fi_XLV1 := fm_Legacy meta, fi_ModTime := fastOpenUnixNanoTime (fm_ModTimeUnixNano meta),
              fi_Size := fm_Size meta, fi_Metadata := cloneStringMap ord (fm_Metadata meta),
              fi_ReplicationState := replState (fm_Metadata meta), fi_NumVersions := fm_NumVersions meta,
              fi_SuccessorModTime := fastOpenUnixNanoTime (fm_SuccessorModTimeNanos meta),
              fi_Checksum := copy_slice (fm_Checksum meta)\<rparr>;
            fi = (if fp_Number (fm_Part meta) \<noteq> 0
                  then fi\<lparr>fi_Parts := Some [ObjectPartInfo0\<lparr>pt_Number := fp_Number (fm_Part meta),
                         pt_Size := fp_Size (fm_Part meta), pt_ActualSize := fp_ActualSize (fm_Part meta)\<rparr>]\<rparr>
                  else fi);
            fi = (if fe_hasData e
                  then fi\<lparr>fi_Erasure := ErasureInfo0\<lparr>ei_Algorithm := erasureAlgorithm, ei_DataBlocks := fe_DataBlocks e,
                         ei_ParityBlocks := fe_ParityBlocks e, ei_BlockSize := fe_BlockSize e, ei_Index := fe_Index e,
                         ei_Distribution := copy_slice (fe_Distribution e)\<rparr>\<rparr>
                  else fi);
            bad = (\<not> fi_Deleted fi \<and> fp_Number (fm_Part meta) \<noteq> 0 \<and> fb_Algorithm br = 0)
        in if fb_Algorithm br \<noteq> 0
           then (case fastOpenBitrotAlgorithm (fb_Algorithm br) of
                   Inl err \<Rightarrow> Inl err
                 | Inr algo \<Rightarrow> Inr (fi\<lparr>fi_Erasure := (fi_Erasure fi)\<lparr>ei_Checksums := Some
                     [\<lparr>ck_PartNumber = fb_PartNumber br, ck_Algorithm = algo, ck_Hash = copy_slice (fb_Hash br)\<rparr>]\<rparr>\<rparr>))
           else if bad then Inl ErrFastOpenFrameBadBitrot
           else Inr fi)"

lemma bitrot_code_roundtrip:
  "fastOpenBitrotCode a = Inr c \<Longrightarrow> c \<noteq> 0 \<and> fastOpenBitrotAlgorithm c = Inr a"
  by (auto simp: fastOpenBitrotCode_def fastOpenBitrotAlgorithm_def split: if_splits)

text \<open>An instant survives unless it is the Unix epoch itself, which stands for the zero time.\<close>

definition time_kept :: "gotime \<Rightarrow> bool" where
  "time_kept t \<longleftrightarrow> IsZero t \<or> is_int64 t \<and> t \<noteq> 0"

lemma time_roundtrip: "time_kept t \<Longrightarrow> fastOpenUnixNanoTime (fastOpenTimeUnixNano t) = t"
  by (auto simp: time_kept_def fastOpenUnixNanoTime_def fastOpenTimeUnixNano_def UnixNano_def Unix0_def IsZero_def)

lemma foldl_update_fresh:
  "distinct (map fst (acc @ es)) \<Longrightarrow> foldl (\<lambda>out (k, v). AList.update k v out) acc es = acc @ es"
proof (induction es arbitrary: acc)
  case (Cons e es)
  obtain k v where e: "e = (k, v)" by (cases e)
  have "AList.update k v acc = acc @ [(k, v)]" using Cons.prems e by (intro update_fresh) auto
  then show ?case using Cons.IH[of "acc @ [(k, v)]"] Cons.prems e by simp
qed simp

lemma clone_map_option: "wf_strmap m \<Longrightarrow> range_order ord \<Longrightarrow> cloneStringMap ord m = map_option ord m"
proof (cases m)
  case (Some es)
  assume "wf_strmap m" "range_order ord"
  then have "distinct (map fst ([] @ ord es))"
    using range_order_distinct_keys[of ord es] Some by (simp add: wf_strmap_def)
  from foldl_update_fresh[OF this] show ?thesis using Some by (simp add: cloneStringMap_def)
qed (simp add: cloneStringMap_def)

lemma order_same_map: "range_order ord \<Longrightarrow> same_map m (map_option ord m)"
  by (cases m) (auto simp: same_map_def range_order_def)

lemma order_wf: "range_order ord \<Longrightarrow> wf_strmap (map_option ord m) = wf_strmap m"
  using range_order_distinct_keys[of ord] by (cases m) (auto simp: wf_strmap_def)

lemma clone_mget: "wf_strmap m \<Longrightarrow> range_order ord \<Longrightarrow> mget (cloneStringMap ord m) k = mget m k"
  using same_map_mget[OF _ order_same_map] by (simp add: clone_map_option)

lemma find_checksum_again:
  assumes "n \<noteq> 0" and "ck = find_checksum cs n"
  shows "ck_Algorithm (find_checksum [\<lparr>ck_PartNumber = ck_PartNumber ck, ck_Algorithm = ck_Algorithm ck, ck_Hash = copy_slice (ck_Hash ck)\<rparr>] n)
      = ck_Algorithm ck
    \<and> elems (ck_Hash (find_checksum [\<lparr>ck_PartNumber = ck_PartNumber ck, ck_Algorithm = ck_Algorithm ck, ck_Hash = copy_slice (ck_Hash ck)\<rparr>] n))
      = elems (ck_Hash ck)"
proof -
  have "ck_PartNumber ck = n \<or> ck = \<lparr>ck_PartNumber = 0, ck_Algorithm = DefaultBitrotAlgorithm, ck_Hash = None\<rparr>"
    unfolding assms(2) by (induction cs) auto
  then show ?thesis using assms(1) by auto
qed

lemma update_differs: "i < length xs \<Longrightarrow> b \<noteq> xs ! i \<Longrightarrow> xs[i := b] \<noteq> xs"
  by (metis nth_list_update_eq)

section \<open>Properties\<close>

lemma read_encoded_frame:
  assumes "msgp_ok M" and "range_order ord" and "frame_ok f" and "encodeFastOpenFrame M ord f = Inr out"
  shows "\<exists>prelude. readFastOpenFrame M (out @ body, e) = (Inr (prelude, frame_read ord f), body, e)
    \<and> pr_BodyMode prelude = cf_BodyMode f"
proof -
  obtain payload where m: "marshalCoalescedMetadataFrame M ord f = Inr payload"
      and l: "length payload \<le> fastOpenFrameMaxHeaderLen" and v: "mode_valid (cf_BodyMode f)"
      and out: "out = encodeFastOpenFramePrelude \<lparr>pr_Magic = fastOpenFrameMagic, pr_Version = fastOpenFrameVersion,
          pr_HeaderLen = word_of_nat (length payload), pr_HeaderCRC32 = ChecksumIEEE payload,
          pr_BodyMode = cf_BodyMode f\<rparr> @ payload"
    using encode_frame_parts[OF assms(4)] by blast
  have s: "length payload < 2 ^ 32" using l by (simp add: fastOpenFrameMaxHeaderLen_def)
  then have "unmarshalCoalescedMetadataFrame M payload = Inr (frame_read ord f)"
    using unmarshal_marshal[OF assms(1,3,2) m] by (simp add: short_def)
  then show ?thesis
    using read_frame_prelude[of "\<lparr>pr_Magic = fastOpenFrameMagic, pr_Version = fastOpenFrameVersion,
          pr_HeaderLen = word_of_nat (length payload), pr_HeaderCRC32 = ChecksumIEEE payload,
          pr_BodyMode = cf_BodyMode f\<rparr>" payload M body e] v l s
    by (simp add: out unat_word frame_read_def)
qed

text \<open>C38: reading back an encoded frame from a stream gives the frame (the entries of its metadata
  map in the order the encoder visited them, an empty byte slice as nil) and leaves the body on the
  stream, whatever the MessagePack library does otherwise.\<close>

theorem frame_roundtrip:
  assumes "msgp_ok M" and "range_order ord" and "frame_ok f" and "encodeFastOpenFrame M ord f = Inr out"
  shows "\<exists>prelude. readFastOpenFrame M (out @ body, e) = (Inr (prelude, frame_read ord f), body, e)
    \<and> pr_BodyMode prelude = cf_BodyMode f"
  by (rule read_encoded_frame[OF assms])

definition sample_frame :: CoalescedMetadataFrame where
  "sample_frame = CoalescedMetadataFrame0\<lparr>cf_BodyMode := FastOpenBodyShard, cf_BodyLen := 5,
     cf_Meta := FastOpenGETMeta0\<lparr>fm_VersionID := ''v1'', fm_Metadata := Some [(''etag'', ''abc'')],
       fm_Size := 5\<rparr>\<rparr>"

lemmas frame_zero_defs = CoalescedMetadataFrame0_def FastOpenGETMeta0_def FastOpenTransitionMeta0_def
  FastOpenPartMeta0_def FastOpenErasureMeta0_def FastOpenBitrotMeta0_def

lemma sample_frame_ok: "frame_ok sample_frame"
  by (simp add: sample_frame_def frame_zero_defs frame_ok_def getmeta_ok_def transition_ok_def part_ok_def
      erasure_ok_def bitrot_ok_def strmap_ok_def wf_strmap_def short_def is_int64_def)

lemma sample_frame_encodes: "\<exists>out. encodeFastOpenFrame wide_msgp (\<lambda>xs. xs) sample_frame = Inr out"
  using wide_msgp_ok
  by (simp add: sample_frame_def frame_zero_defs encodeFastOpenFrame_def marshalCoalescedMetadataFrame_def
      status_valid_def mode_valid_def FastOpenStatusOK_def Let_def append_enc fastOpenFrameMaxHeaderLen_def
      getmeta_append[of _ _ "_ @ _"] transition_append part_append erasure_append bitrot_append
      appendStringMap_def append_pairs_enc enc_pairs_def appendBytesOrNil_def appendIntSlice_def
      enc_hdr_def enc_str_def enc_u8_def enc_i64_def enc_int_def enc_bool_def enc_nil_def wide_msgp_def wide_def)

theorem frame_roundtrip_witness:
  "\<exists>out prelude. encodeFastOpenFrame wide_msgp (\<lambda>xs. xs) sample_frame = Inr out
    \<and> readFastOpenFrame wide_msgp (out @ bytes_of ''hello'', None)
        = (Inr (prelude, frame_read (\<lambda>xs. xs) sample_frame), bytes_of ''hello'', None)"
proof -
  obtain out where "encodeFastOpenFrame wide_msgp (\<lambda>xs. xs) sample_frame = Inr out"
    using sample_frame_encodes by blast
  from frame_roundtrip[OF wide_msgp_ok range_order_id sample_frame_ok this] this show ?thesis by blast
qed

text \<open>C39: one corrupted byte of an encoded frame is detected, before the metadata is parsed: in the
  magic, in the version, in the checksum or in the metadata, whatever the MessagePack library does.\<close>

theorem frame_corruption_detected:
  assumes "encodeFastOpenFrame M ord f = Inr out" and "i < length out" and "b \<noteq> out ! i"
    and "i < 6 \<or> 10 \<le> i \<and> i \<noteq> 14"
  shows "fst (readFastOpenFrame M' (out[i := b] @ body, e)) = Inl
    (if i < 4 then ErrFastOpenFrameBadMagic else if i < 6 then ErrFastOpenFrameBadVersion else ErrFastOpenFrameBadCRC)"
proof -
  obtain payload where l: "length payload \<le> fastOpenFrameMaxHeaderLen" and v: "mode_valid (cf_BodyMode f)"
      and out0: "out = encodeFastOpenFramePrelude \<lparr>pr_Magic = fastOpenFrameMagic, pr_Version = fastOpenFrameVersion,
          pr_HeaderLen = word_of_nat (length payload), pr_HeaderCRC32 = ChecksumIEEE payload,
          pr_BodyMode = cf_BodyMode f\<rparr> @ payload"
    using encode_frame_parts[OF assms(1)] by blast
  let ?crc = "PutUint32 (ChecksumIEEE payload)" and ?len = "PutUint32 (word_of_nat (length payload))"
  have s: "length payload < 2 ^ 32" using l by (simp add: fastOpenFrameMaxHeaderLen_def)
  have out: "out = fastOpenFrameMagic @ PutUint16 fastOpenFrameVersion @ ?len @ ?crc @ [cf_BodyMode f] @ payload"
    by (simp add: out0 encodeFastOpenFramePrelude_def)
  have lo: "length out = 15 + length payload" by (simp add: out)
  consider "i < 4" | "4 \<le> i" "i < 6" | "10 \<le> i" "i < 14" | "15 \<le> i" using assms(4) by linarith
  then show ?thesis
  proof cases
    case 1
    then have "take 4 (out[i := b]) \<noteq> fastOpenFrameMagic"
      using assms(2,3) lo by (metis nth_take nth_list_update_eq take_update_swap out append_eq_conv_conj magic_length nth_append)
    then show ?thesis
      using 1 lo by (simp add: readFastOpenFrame_def ReadFull_def decodeFastOpenFramePrelude_def fastOpenFramePreludeLen_def)
  next
    case 2
    let ?w = "(PutUint16 fastOpenFrameVersion)[i - 4 := b]"
    have i2: "i - 4 < 2" using 2 by linarith
    then have u: "out[i := b] = fastOpenFrameMagic @ ?w @ ?len @ ?crc @ [cf_BodyMode f] @ payload"
      using 2 by (simp add: out list_update_append)
    have "?w \<noteq> PutUint16 fastOpenFrameVersion"
      using 2 i2 assms(3) by (intro update_differs) (auto simp: out nth_append)
    then have "Uint16 ?w \<noteq> fastOpenFrameVersion" by (metis Put_Uint16 Put_lengths(1) length_list_update)
    then show ?thesis
      using 2 by (simp add: u readFastOpenFrame_def ReadFull_def decodeFastOpenFramePrelude_def fastOpenFramePreludeLen_def Let_def)
  next
    case 3
    let ?c = "?crc[i - 10 := b]"
    let ?p = "\<lparr>pr_Magic = fastOpenFrameMagic, pr_Version = fastOpenFrameVersion,
          pr_HeaderLen = word_of_nat (length payload), pr_HeaderCRC32 = Uint32 ?c, pr_BodyMode = cf_BodyMode f\<rparr>"
    have i3: "\<not> i - 4 < 2" "\<not> i - 6 < 4" "i - 10 < 4" using 3 by linarith+
    then have u: "out[i := b] = encodeFastOpenFramePrelude ?p @ payload"
      using 3 by (simp add: out list_update_append encodeFastOpenFramePrelude_def Put_Uint32)
    have "?c \<noteq> ?crc" using 3 i3 assms(3) by (intro update_differs) (auto simp: out nth_append)
    then have "Uint32 ?c \<noteq> ChecksumIEEE payload" by (metis Put_Uint32 Put_lengths(2) length_list_update)
    then show ?thesis
      using 3 read_frame_prelude[of ?p payload M' body e] v l s by (simp add: u unat_word)
  next
    case 4
    let ?y = "payload[i - 15 := b]"
    let ?p = "\<lparr>pr_Magic = fastOpenFrameMagic, pr_Version = fastOpenFrameVersion,
          pr_HeaderLen = word_of_nat (length payload), pr_HeaderCRC32 = ChecksumIEEE payload, pr_BodyMode = cf_BodyMode f\<rparr>"
    have "\<not> i - 4 < 2" "\<not> i - 6 < 4" "\<not> i - 10 < 4" "i - 14 = Suc (i - 15)" using 4 by linarith+
    then have u: "out[i := b] = encodeFastOpenFramePrelude ?p @ ?y"
      using 4 by (simp add: out list_update_append encodeFastOpenFramePrelude_def)
    have k: "i - 15 < length payload" "b \<noteq> payload ! (i - 15)"
      using 4 assms(2,3) lo by (auto simp: out0 nth_append)
    have "payload = take (i - 15) payload @ payload ! (i - 15) # drop (Suc (i - 15)) payload"
      by (rule id_take_nth_drop[OF k(1)])
    moreover have "?y = take (i - 15) payload @ b # drop (Suc (i - 15)) payload"
      by (rule upd_conv_take_nth_drop[OF k(1)])
    ultimately have "ChecksumIEEE ?y \<noteq> ChecksumIEEE payload"
      using crc_single_byte[OF k(2), of "take (i - 15) payload" "drop (Suc (i - 15)) payload"] by simp
    then show ?thesis
      using 4 read_frame_prelude[of ?p ?y M' body e] v l s by (simp add: u unat_word)
  qed
qed

theorem frame_corruption_detected_witness:
  "\<exists>out. encodeFastOpenFrame wide_msgp (\<lambda>xs. xs) sample_frame = Inr out
    \<and> fst (readFastOpenFrame wide_msgp (out[1 := 0] @ [], None)) = Inl ErrFastOpenFrameBadMagic"
proof -
  obtain out where out: "encodeFastOpenFrame wide_msgp (\<lambda>xs. xs) sample_frame = Inr out"
    using sample_frame_encodes by blast
  obtain p where o: "out = fastOpenFrameMagic @ p"
    using encode_frame_parts[OF out] by (auto simp: encodeFastOpenFramePrelude_def)
  then have "1 < length out" "0 \<noteq> out ! 1" by (simp_all add: fastOpenFrameMagic_def bytes_of_def)
  from frame_corruption_detected[OF out this, of wide_msgp "[]" None] out show ?thesis by auto
qed

text \<open>C40: a \<open>FileInfo\<close> of an object with one part survives the way through the metadata of a frame
  in everything a GET uses: version, times, size, metadata, transition, erasure layout, part and
  the checksum its verifier takes.\<close>

theorem file_info_survives:
  assumes "fileInfoToFastOpenGETMeta ord fi = Inr meta" and "range_order ord" and "range_order ord'"
    and "wf_strmap (fi_Metadata fi)" and "time_kept (fi_ModTime fi)" and "time_kept (fi_SuccessorModTime fi)"
    and "elems (fi_Parts fi) = [p]" and "pt_Number p \<noteq> 0"
    and "ei_Algorithm (fi_Erasure fi) = erasureAlgorithm" and "ei_DataBlocks (fi_Erasure fi) \<noteq> 0"
  shows "\<exists>fi'. fastOpenGETMetaToFileInfo ord' replState volume object FastOpenStatusOK meta = Inr fi'
    \<and> fi_Volume fi' = volume \<and> fi_Name fi' = object \<and> \<not> fi_Deleted fi'
    \<and> fi_VersionID fi' = fi_VersionID fi \<and> fi_IsLatest fi' = fi_IsLatest fi \<and> fi_XLV1 fi' = fi_XLV1 fi
    \<and> fi_ModTime fi' = fi_ModTime fi \<and> fi_SuccessorModTime fi' = fi_SuccessorModTime fi
    \<and> fi_Size fi' = fi_Size fi \<and> fi_NumVersions fi' = fi_NumVersions fi
    \<and> (\<forall>k. mget (fi_Metadata fi') k = mget (fi_Metadata fi) k) \<and> elems (fi_Checksum fi') = elems (fi_Checksum fi)
    \<and> TransitionInfoEquals fi' fi \<and> ErasureInfo_Equal (fi_Erasure fi') (fi_Erasure fi)
    \<and> ei_Index (fi_Erasure fi') = ei_Index (fi_Erasure fi)
    \<and> map (\<lambda>q. (pt_Number q, pt_Size q, pt_ActualSize q)) (elems (fi_Parts fi')) = [(pt_Number p, pt_Size p, pt_ActualSize p)]
    \<and> ck_Algorithm (GetChecksumInfo (fi_Erasure fi') (pt_Number p)) = ck_Algorithm (GetChecksumInfo (fi_Erasure fi) (pt_Number p))
    \<and> elems (ck_Hash (GetChecksumInfo (fi_Erasure fi') (pt_Number p))) = elems (ck_Hash (GetChecksumInfo (fi_Erasure fi) (pt_Number p)))"
proof -
  let ?ck = "GetChecksumInfo (fi_Erasure fi) (pt_Number p)"
  obtain c where c: "fastOpenBitrotCode (ck_Algorithm ?ck) = Inr c"
    using assms(1,7,8) by (cases "fastOpenBitrotCode (ck_Algorithm ?ck)") (auto simp: fileInfoToFastOpenGETMeta_def Let_def)
  note b = bitrot_code_roundtrip[OF c]
  have same: "same_distribution xs xs" for xs by (induction xs) auto
  have wf: "wf_strmap (cloneStringMap ord (fi_Metadata fi))"
    using assms(2,4) by (simp add: clone_map_option order_wf)
  have k: "mget (cloneStringMap ord' (cloneStringMap ord (fi_Metadata fi))) k = mget (fi_Metadata fi) k" for k
    using clone_mget[OF wf assms(3)] clone_mget[OF assms(4,2)] by simp
  note f = find_checksum_again[OF assms(8), of ?ck "elems (ei_Checksums (fi_Erasure fi))"]
  have part: "elems (fi_Parts fi) = p # []" by (rule assms(7))
  let ?e = "fi_Erasure fi"
  let ?b = "\<lparr>fb_PartNumber = ck_PartNumber ?ck, fb_Algorithm = c, fb_Hash = copy_slice (ck_Hash ?ck)\<rparr>"
  have meta: "meta = \<lparr>fm_VersionID = fi_VersionID fi, fm_IsLatest = fi_IsLatest fi, fm_Legacy = fi_XLV1 fi,
      fm_ModTimeUnixNano = fastOpenTimeUnixNano (fi_ModTime fi), fm_Size = fi_Size fi,
      fm_Metadata = cloneStringMap ord (fi_Metadata fi),
      fm_Transition = \<lparr>ft_Status = fi_TransitionStatus fi, ft_Object = fi_TransitionedObjName fi,
        ft_Tier = fi_TransitionTier fi, ft_VersionID = fi_TransitionVersionID fi\<rparr>,
      fm_Part = \<lparr>fp_Number = pt_Number p, fp_Size = pt_Size p, fp_ActualSize = pt_ActualSize p\<rparr>,
      fm_Erasure = \<lparr>fe_DataBlocks = ei_DataBlocks ?e, fe_ParityBlocks = ei_ParityBlocks ?e,
        fe_BlockSize = ei_BlockSize ?e, fe_Index = ei_Index ?e, fe_Distribution = copy_slice (ei_Distribution ?e),
        fe_Bitrot = ?b\<rparr>,
      fm_Checksum = copy_slice (fi_Checksum fi), fm_NumVersions = fi_NumVersions fi,
      fm_SuccessorModTimeNanos = fastOpenTimeUnixNano (fi_SuccessorModTime fi)\<rparr>"
    using assms(1,8) c by (simp add: fileInfoToFastOpenGETMeta_def part Let_def)
  let ?fi = "FileInfo0\<lparr>fi_Volume := volume, fi_Name := object, fi_VersionID := fi_VersionID fi,
      fi_IsLatest := fi_IsLatest fi, fi_Deleted := False, fi_TransitionStatus := fi_TransitionStatus fi,
      fi_TransitionedObjName := fi_TransitionedObjName fi, fi_TransitionTier := fi_TransitionTier fi,
      fi_TransitionVersionID := fi_TransitionVersionID fi, fi_XLV1 := fi_XLV1 fi, fi_ModTime := fi_ModTime fi,
      fi_Size := fi_Size fi, fi_Metadata := cloneStringMap ord' (cloneStringMap ord (fi_Metadata fi)),
      fi_ReplicationState := replState (cloneStringMap ord (fi_Metadata fi)), fi_NumVersions := fi_NumVersions fi,
      fi_SuccessorModTime := fi_SuccessorModTime fi, fi_Checksum := copy_slice (fi_Checksum fi),
      fi_Parts := Some [ObjectPartInfo0\<lparr>pt_Number := pt_Number p, pt_Size := pt_Size p, pt_ActualSize := pt_ActualSize p\<rparr>],
      fi_Erasure := ErasureInfo0\<lparr>ei_Algorithm := erasureAlgorithm, ei_DataBlocks := ei_DataBlocks ?e,
        ei_ParityBlocks := ei_ParityBlocks ?e, ei_BlockSize := ei_BlockSize ?e, ei_Index := ei_Index ?e,
        ei_Distribution := copy_slice (ei_Distribution ?e),
        ei_Checksums := Some [\<lparr>ck_PartNumber = ck_PartNumber ?ck, ck_Algorithm = ck_Algorithm ?ck,
          ck_Hash = copy_slice (ck_Hash ?ck)\<rparr>]\<rparr>\<rparr>"
  have "fastOpenGETMetaToFileInfo ord' replState volume object FastOpenStatusOK meta = Inr ?fi"
    using assms(8,10) b time_roundtrip[OF assms(5)] time_roundtrip[OF assms(6)]
    by (simp add: fastOpenGETMetaToFileInfo_def meta fe_hasData_def status_valid_def FastOpenStatusOK_def
        FastOpenStatusDeleteMarker_def Let_def)
  then show ?thesis
    using k f assms(9)
    by (intro exI[of _ ?fi] conjI; simp add: TransitionInfoEquals_def ErasureInfo_Equal_def GetChecksumInfo_def same
        FileInfo0_def ObjectPartInfo0_def)
qed

definition sample_fi :: FileInfo where
  "sample_fi = FileInfo0\<lparr>fi_VersionID := ''v1'', fi_ModTime := 1, fi_Size := 5,
     fi_Metadata := Some [(''etag'', ''abc'')], fi_Parts := Some [ObjectPartInfo0\<lparr>pt_Number := 1, pt_Size := 5\<rparr>],
     fi_Erasure := ErasureInfo0\<lparr>ei_Algorithm := erasureAlgorithm, ei_DataBlocks := 2, ei_ParityBlocks := 2\<rparr>\<rparr>"

theorem file_info_survives_witness:
  "\<exists>meta fi'. fileInfoToFastOpenGETMeta (\<lambda>xs. xs) sample_fi = Inr meta
    \<and> fastOpenGETMetaToFileInfo rev (\<lambda>m. ReplicationState0) ''b'' ''o'' FastOpenStatusOK meta = Inr fi'
    \<and> mget (fi_Metadata fi') ''etag'' = Some ''abc''"
proof -
  obtain meta where m: "fileInfoToFastOpenGETMeta (\<lambda>xs. xs) sample_fi = Inr meta"
    by (simp add: sample_fi_def fileInfoToFastOpenGETMeta_def Let_def FileInfo0_def ErasureInfo0_def ObjectPartInfo0_def
        GetChecksumInfo_def fastOpenBitrotCode_def)
  show ?thesis
    using m file_info_survives[OF m range_order_id range_order_rev, of "ObjectPartInfo0\<lparr>pt_Number := 1, pt_Size := 5\<rparr>"
        "\<lambda>m. ReplicationState0" "''b''" "''o''"]
    by (force simp: sample_fi_def FileInfo0_def wf_strmap_def time_kept_def is_int64_def mget_def
        IsZero_def ErasureInfo0_def ObjectPartInfo0_def)
qed

end
