(* ===== verification/FastOpen_Node.thy ===== *)
theory FastOpen_Node
  imports FastOpen_Frame
begin

text \<open>
  The node's side of a single-trip GET (\<open>xlStorage.FastOpenPart\<close> of \<open>cmd/fastopen-part.go\<close>): the
  selected version of an object as one stream, a frame and behind it the bytes of the shard (or
  the inline data). The drive's own operations are the record \<open>node_disk\<close>; a path is the list of
  elements handed to \<open>pathJoin\<close>; a version's bytes in \<open>xl.meta\<close> are of any type.
\<close>

record FastOpenPartRequest =
  rq_Version :: "16 word"
  rq_VersionID :: string
  rq_PartNumber :: int
  rq_Offset :: int
  rq_Length :: int
  rq_Flags :: "32 word"

record 'raw node_disk =
  nd_ReadXL :: "string \<Rightarrow> string \<Rightarrow> gerror + 'raw"
  nd_getFileInfo :: "'raw \<Rightarrow> string \<Rightarrow> string \<Rightarrow> string \<Rightarrow> gerror + FileInfo"
  nd_StatInfoFile :: "string \<Rightarrow> string list \<Rightarrow> gerror + (int \<times> bool) list"
  nd_ReadFileStream :: "string \<Rightarrow> string list \<Rightarrow> int \<Rightarrow> int \<Rightarrow> gerror + reader"

section \<open>Streams\<close>

text \<open>\<open>fastOpenFrameWithBody\<close>: the encoded frame, then the body if there is one.\<close>

definition fastOpenFrameWithBody ::
  "msgp \<Rightarrow> ((string \<times> string) list \<Rightarrow> (string \<times> string) list) \<Rightarrow> CoalescedMetadataFrame \<Rightarrow> reader option \<Rightarrow> gerror + reader" where
  "fastOpenFrameWithBody M ord frame body =
     (case encodeFastOpenFrame M ord frame of
        Inl e \<Rightarrow> Inl e
      | Inr encoded \<Rightarrow>
          (case body of
             None \<Rightarrow> Inr (encoded, None)
           | Some (d, e) \<Rightarrow> Inr (encoded @ d, e)))"

definition fastOpenFrameOnly ::
  "msgp \<Rightarrow> ((string \<times> string) list \<Rightarrow> (string \<times> string) list) \<Rightarrow> FastOpenFrameStatus \<Rightarrow> gerror + reader" where
  "fastOpenFrameOnly M ord status =
     fastOpenFrameWithBody M ord
       (CoalescedMetadataFrame0\<lparr>cf_Status := status, cf_BodyMode := FastOpenBodyMetadataOnly\<rparr>) None"

section \<open>The handler\<close>

text \<open>The last branch of the switch: the part file, or the inline data of a version whose part file is gone.\<close>

definition open_part ::
  "msgp \<Rightarrow> ((string \<times> string) list \<Rightarrow> (string \<times> string) list) \<Rightarrow> 'raw node_disk \<Rightarrow> string \<Rightarrow> string \<Rightarrow> FastOpenPartRequest
   \<Rightarrow> FileInfo \<Rightarrow> byte list \<Rightarrow> CoalescedMetadataFrame \<Rightarrow> gerror + reader" where
  "open_part M ord s volume object req fi inlineData frame =
     (let partPath = [object, fi_DataDir fi, ''part.'' @ itoa (rq_PartNumber req)] in
      case nd_StatInfoFile s volume partPath of
        Inl err \<Rightarrow>
          if inlineData \<noteq> [] \<and> IsErr (Some err) [ErrPathNotFound, ErrFileNotFound]
          then fastOpenFrameWithBody M ord
                 (frame\<lparr>cf_BodyMode := FastOpenBodyInline, cf_BodyLen := int (length inlineData)\<rparr>) (Some (inlineData, None))
          else Inl err
      | Inr [(sz, dir)] \<Rightarrow>
          if dir then Inl ErrFileNotFound
          else if rq_Offset req > sz then Inl ErrFileNotFound
          else
            let bodyLen = sz - rq_Offset req;
                bodyLen = (if rq_Length req \<ge> 0 \<and> rq_Length req < bodyLen then rq_Length req else bodyLen)
            in (case nd_ReadFileStream s volume partPath (rq_Offset req) bodyLen of
                  Inl err \<Rightarrow> Inl err
                | Inr body \<Rightarrow>
                    fastOpenFrameWithBody M ord (frame\<lparr>cf_BodyMode := FastOpenBodyShard, cf_BodyLen := bodyLen\<rparr>) (Some body))
      | Inr _ \<Rightarrow> Inl ErrFileNotFound)"

definition answer_version ::
  "msgp \<Rightarrow> ((string \<times> string) list \<Rightarrow> (string \<times> string) list) \<Rightarrow> clock \<Rightarrow> 'raw node_disk \<Rightarrow> string \<Rightarrow> string
   \<Rightarrow> FastOpenPartRequest \<Rightarrow> FileInfo \<Rightarrow> byte list \<Rightarrow> CoalescedMetadataFrame \<Rightarrow> gerror + reader" where
  "answer_version M ord clk s volume object req fi inlineData frame =
     (if fi_Deleted fi then
        (if rq_Offset req \<noteq> 0 then fastOpenFrameOnly M ord FastOpenStatusUnsupported
         else fastOpenFrameWithBody M ord (frame\<lparr>cf_Status := FastOpenStatusDeleteMarker\<rparr>) None)
      else if fi_Size fi = 0 then
        (if rq_Offset req \<noteq> 0 then fastOpenFrameOnly M ord FastOpenStatusUnsupported
         else fastOpenFrameWithBody M ord frame None)
      else if FileInfo_IsRemote clk fi then
        (if rq_Offset req \<noteq> 0 then fastOpenFrameOnly M ord FastOpenStatusUnsupported
         else fastOpenFrameWithBody M ord (frame\<lparr>cf_BodyMode := FastOpenBodyTransitioned\<rparr>) None)
      else if length (elems (fi_Parts fi)) \<noteq> 1 \<or> pt_Number (hd (elems (fi_Parts fi))) \<noteq> rq_PartNumber req then
        fastOpenFrameOnly M ord FastOpenStatusUnsupported
      else if InlineData clk fi then
        (if rq_Offset req \<noteq> 0 then fastOpenFrameOnly M ord FastOpenStatusUnsupported
         else if inlineData = [] then Inl ErrFileCorrupt
         else fastOpenFrameWithBody M ord
                (frame\<lparr>cf_BodyMode := FastOpenBodyInline, cf_BodyLen := int (length inlineData)\<rparr>) (Some (inlineData, None)))
      else open_part M ord s volume object req fi inlineData frame)"

definition FastOpenPart ::
  "msgp \<Rightarrow> ((string \<times> string) list \<Rightarrow> (string \<times> string) list) \<Rightarrow> clock \<Rightarrow> 'raw node_disk \<Rightarrow> string \<Rightarrow> string
   \<Rightarrow> FastOpenPartRequest \<Rightarrow> gerror + reader" where
  "FastOpenPart M ord clk s volume object req =
     (if rq_Version req \<noteq> fastOpenFrameVersion then Inl ErrFastOpenFrameBadVersion
      else if rq_PartNumber req \<noteq> 1 \<or> rq_Offset req < 0 \<or> rq_Length req < -1 then
        fastOpenFrameOnly M ord FastOpenStatusUnsupported
      else case nd_ReadXL s volume object of
        Inl err \<Rightarrow>
          if err = ErrFileNotFound then
            (if rq_VersionID req \<noteq> [] then fastOpenFrameOnly M ord FastOpenStatusVersionNotFound
             else fastOpenFrameOnly M ord FastOpenStatusNotFound)
          else Inl err
      | Inr raw \<Rightarrow>
          (case nd_getFileInfo s raw volume object (rq_VersionID req) of
             Inl err \<Rightarrow>
               if err = ErrFileNotFound then fastOpenFrameOnly M ord FastOpenStatusNotFound
               else if err = ErrFileVersionNotFound then fastOpenFrameOnly M ord FastOpenStatusVersionNotFound
               else Inl err
           | Inr fi \<Rightarrow>
               let inlineData = elems (fi_Data fi); fi = fi\<lparr>fi_Data := None\<rparr>
               in (case fileInfoToFastOpenGETMeta ord fi of
                     Inl err \<Rightarrow> Inl err
                   | Inr meta \<Rightarrow>
                       answer_version M ord clk s volume object req fi inlineData
                         (CoalescedMetadataFrame0\<lparr>cf_Status := FastOpenStatusOK, cf_Meta := meta,
                            cf_BodyMode := FastOpenBodyMetadataOnly\<rparr>))))"

section \<open>What the receiver gets\<close>

lemma body_stream:
  assumes "msgp_ok M" and "range_order ord" and "frame_ok frame" and "fastOpenFrameWithBody M ord frame body = Inr stream"
  shows "\<exists>prelude. readFastOpenFrame M stream
    = (Inr (prelude, frame_read ord frame), case body of None \<Rightarrow> ([], None) | Some b \<Rightarrow> b)"
proof -
  obtain out where e: "encodeFastOpenFrame M ord frame = Inr out"
    using assms(4) by (auto simp: fastOpenFrameWithBody_def split: sum.splits)
  show ?thesis
  proof (cases body)
    case None
    then have "stream = (out @ [], None)" using assms(4) e by (simp add: fastOpenFrameWithBody_def)
    then show ?thesis using read_encoded_frame[OF assms(1-3) e, of "[]" None] None by auto
  next
    case (Some b)
    then have "stream = (out @ fst b, snd b)" using assms(4) e by (auto simp: fastOpenFrameWithBody_def split: prod.splits)
    then show ?thesis using read_encoded_frame[OF assms(1-3) e, of "fst b" "snd b"] Some by auto
  qed
qed

lemma meta0_ok: "getmeta_ok FastOpenGETMeta0"
  by (simp add: frame_zero_defs getmeta_ok_def transition_ok_def part_ok_def
      erasure_ok_def bitrot_ok_def strmap_ok_def wf_strmap_def short_def is_int64_def)

lemma frame_meta_ok [simp]:
  "frame_ok (CoalescedMetadataFrame0\<lparr>cf_Status := st, cf_BodyMode := m\<rparr>)"
  "frame_ok (CoalescedMetadataFrame0\<lparr>cf_Status := st, cf_Meta := meta, cf_BodyMode := m\<rparr>) = getmeta_ok meta"
  using meta0_ok by (simp_all add: frame_ok_def CoalescedMetadataFrame0_def is_int64_def)

text \<open>What the stream of a node says about the version on its drive: the status and the metadata are
  those of the version, and the body is what the body mode and length announce.\<close>

definition no_body :: "CoalescedMetadataFrame \<Rightarrow> reader \<Rightarrow> bool" where
  "no_body frame body \<longleftrightarrow> body = ([], None) \<and> cf_BodyLen frame = 0"

definition version_body ::
  "clock \<Rightarrow> 'raw node_disk \<Rightarrow> string \<Rightarrow> string \<Rightarrow> FastOpenPartRequest \<Rightarrow> FileInfo \<Rightarrow> CoalescedMetadataFrame \<Rightarrow> reader \<Rightarrow> bool" where
  "version_body clk s volume object req fi frame body \<longleftrightarrow>
     (if fi_Deleted fi \<or> fi_Size fi = 0 then cf_BodyMode frame = FastOpenBodyMetadataOnly \<and> rq_Offset req = 0 \<and> no_body frame body
      else if FileInfo_IsRemote clk fi then cf_BodyMode frame = FastOpenBodyTransitioned \<and> rq_Offset req = 0 \<and> no_body frame body
      else (cf_BodyMode frame = FastOpenBodyInline \<and> elems (fi_Data fi) \<noteq> []
              \<and> body = (elems (fi_Data fi), None) \<and> cf_BodyLen frame = int (length (elems (fi_Data fi))))
         \<or> (cf_BodyMode frame = FastOpenBodyShard
              \<and> (\<exists>path sz. nd_StatInfoFile s volume path = Inr [(sz, False)]
                   \<and> nd_ReadFileStream s volume path (rq_Offset req) (cf_BodyLen frame) = Inr body
                   \<and> cf_BodyLen frame = (if 0 \<le> rq_Length req then min (rq_Length req) (sz - rq_Offset req) else sz - rq_Offset req)
                   \<and> 0 \<le> cf_BodyLen frame)))"

definition describes ::
  "((string \<times> string) list \<Rightarrow> (string \<times> string) list) \<Rightarrow> clock \<Rightarrow> 'raw node_disk \<Rightarrow> string \<Rightarrow> string \<Rightarrow> FastOpenPartRequest
   \<Rightarrow> CoalescedMetadataFrame \<Rightarrow> reader \<Rightarrow> bool" where
  "describes ord clk s volume object req frame body \<longleftrightarrow>
     (if cf_Status frame = FastOpenStatusOK \<or> cf_Status frame = FastOpenStatusDeleteMarker then
        (\<exists>raw fi meta. nd_ReadXL s volume object = Inr raw \<and> nd_getFileInfo s raw volume object (rq_VersionID req) = Inr fi
           \<and> fileInfoToFastOpenGETMeta ord (fi\<lparr>fi_Data := None\<rparr>) = Inr meta \<and> cf_Meta frame = getmeta_read ord meta
           \<and> (cf_Status frame = FastOpenStatusDeleteMarker \<longleftrightarrow> fi_Deleted fi)
           \<and> version_body clk s volume object req fi frame body)
      else
        no_body frame body \<and> cf_BodyMode frame = FastOpenBodyMetadataOnly
        \<and> (cf_Status frame = FastOpenStatusNotFound \<or> cf_Status frame = FastOpenStatusVersionNotFound \<longrightarrow>
             nd_ReadXL s volume object = Inl ErrFileNotFound
             \<or> (\<exists>raw. nd_ReadXL s volume object = Inr raw \<and> nd_getFileInfo s raw volume object (rq_VersionID req)
                   \<in> {Inl ErrFileNotFound, Inl ErrFileVersionNotFound})))"

definition wf_node :: "((string \<times> string) list \<Rightarrow> (string \<times> string) list) \<Rightarrow> 'raw node_disk \<Rightarrow> string \<Rightarrow> string \<Rightarrow> string \<Rightarrow> bool" where
  "wf_node ord s volume object versionID \<longleftrightarrow>
     (\<forall>raw fi meta. nd_ReadXL s volume object = Inr raw \<longrightarrow> nd_getFileInfo s raw volume object versionID = Inr fi \<longrightarrow>
        fileInfoToFastOpenGETMeta ord (fi\<lparr>fi_Data := None\<rparr>) = Inr meta \<longrightarrow>
        getmeta_ok meta \<and> is_int64 (int (length (elems (fi_Data fi)))))
     \<and> (\<forall>path sz dir. nd_StatInfoFile s volume path = Inr [(sz, dir)] \<longrightarrow> is_int64 sz)"

lemma frame_read_simps [simp]:
  "cf_Status (frame_read ord f) = cf_Status f" "cf_BodyMode (frame_read ord f) = cf_BodyMode f"
  "cf_BodyLen (frame_read ord f) = cf_BodyLen f" "cf_Meta (frame_read ord f) = getmeta_read ord (cf_Meta f)"
  by (simp_all add: frame_read_def)

lemma frame_only_describes:
  assumes "msgp_ok M" and "range_order ord" and "fastOpenFrameOnly M ord st = Inr stream"
    and "st \<noteq> FastOpenStatusOK" "st \<noteq> FastOpenStatusDeleteMarker"
    and "st \<noteq> FastOpenStatusUnsupported \<Longrightarrow> nd_ReadXL s volume object = Inl ErrFileNotFound
      \<or> (\<exists>raw. nd_ReadXL s volume object = Inr raw \<and> nd_getFileInfo s raw volume object (rq_VersionID req)
            \<in> {Inl ErrFileNotFound, Inl ErrFileVersionNotFound})"
  shows "\<exists>prelude frame body. readFastOpenFrame M stream = (Inr (prelude, frame), body)
    \<and> describes ord clk s volume object req frame body"
proof -
  let ?f = "CoalescedMetadataFrame0\<lparr>cf_Status := st, cf_BodyMode := FastOpenBodyMetadataOnly\<rparr>"
  have "fastOpenFrameWithBody M ord ?f None = Inr stream" using assms(3) by (simp add: fastOpenFrameOnly_def)
  from body_stream[OF assms(1,2) _ this]
  obtain prelude where r: "readFastOpenFrame M stream = (Inr (prelude, frame_read ord ?f), ([], None))" by auto
  have "describes ord clk s volume object req (frame_read ord ?f) ([], None)"
    using assms(4-6) by (auto simp: describes_def no_body_def CoalescedMetadataFrame0_def FastOpenStatusUnsupported_def
        FastOpenStatusNotFound_def FastOpenStatusVersionNotFound_def)
  then show ?thesis using r by blast
qed

lemma with_body_describes:
  assumes "msgp_ok M" and "range_order ord" and "frame_ok f" and "fastOpenFrameWithBody M ord f body = Inr stream"
    and "describes ord clk s volume object req (frame_read ord f) (case body of None \<Rightarrow> ([], None) | Some b \<Rightarrow> b)"
  shows "\<exists>prelude frame body. readFastOpenFrame M stream = (Inr (prelude, frame), body)
    \<and> describes ord clk s volume object req frame body"
  using body_stream[OF assms(1-4)] assms(5) by blast

lemma modes_differ [simp]:
  "FastOpenBodyShard \<noteq> FastOpenBodyInline" "FastOpenBodyInline \<noteq> FastOpenBodyShard"
  "FastOpenStatusOK \<noteq> FastOpenStatusDeleteMarker" "FastOpenStatusDeleteMarker \<noteq> FastOpenStatusOK"
  by (simp_all add: FastOpenBodyShard_def FastOpenBodyInline_def FastOpenStatusOK_def FastOpenStatusDeleteMarker_def)

lemma statuses_differ [simp]:
  "FastOpenStatusUnsupported \<noteq> FastOpenStatusOK" "FastOpenStatusUnsupported \<noteq> FastOpenStatusDeleteMarker"
  "FastOpenStatusNotFound \<noteq> FastOpenStatusOK" "FastOpenStatusNotFound \<noteq> FastOpenStatusDeleteMarker"
  "FastOpenStatusVersionNotFound \<noteq> FastOpenStatusOK" "FastOpenStatusVersionNotFound \<noteq> FastOpenStatusDeleteMarker"
  by (simp_all add: FastOpenStatusUnsupported_def FastOpenStatusNotFound_def FastOpenStatusVersionNotFound_def
      FastOpenStatusOK_def FastOpenStatusDeleteMarker_def)

text \<open>The frame of a version with the given status, mode and length.\<close>

abbreviation version_frame :: "FastOpenFrameStatus \<Rightarrow> FastOpenGETMeta \<Rightarrow> FastOpenBodyMode \<Rightarrow> int \<Rightarrow> CoalescedMetadataFrame" where
  "version_frame st meta mode len \<equiv> CoalescedMetadataFrame0\<lparr>cf_Status := st, cf_Meta := meta, cf_BodyMode := mode, cf_BodyLen := len\<rparr>"

lemma version_frame_describes:
  assumes "msgp_ok M" and "range_order ord" and "getmeta_ok meta" and "is_int64 len"
    and "fastOpenFrameWithBody M ord (version_frame st meta mode len) body = Inr stream"
    and "nd_ReadXL s volume object = Inr raw" and "nd_getFileInfo s raw volume object (rq_VersionID req) = Inr fi"
    and "fileInfoToFastOpenGETMeta ord (fi\<lparr>fi_Data := None\<rparr>) = Inr meta"
    and "st = (if fi_Deleted fi then FastOpenStatusDeleteMarker else FastOpenStatusOK)"
    and "version_body clk s volume object req fi (frame_read ord (version_frame st meta mode len))
      (case body of None \<Rightarrow> ([], None) | Some b \<Rightarrow> b)"
  shows "\<exists>prelude frame body. readFastOpenFrame M stream = (Inr (prelude, frame), body)
    \<and> describes ord clk s volume object req frame body"
proof (rule with_body_describes[OF assms(1,2) _ assms(5)])
  show "frame_ok (version_frame st meta mode len)" using assms(3,4) by (simp add: frame_ok_def)
  show "describes ord clk s volume object req (frame_read ord (version_frame st meta mode len))
      (case body of None \<Rightarrow> ([], None) | Some b \<Rightarrow> b)"
    using assms(6-10) unfolding describes_def by auto
qed

lemma version_frame_of:
  "CoalescedMetadataFrame0\<lparr>cf_Status := st, cf_Meta := meta, cf_BodyMode := mode\<rparr> = version_frame st meta mode 0"
  by (simp add: CoalescedMetadataFrame0_def)

lemma version_frame_updates [simp]:
  "version_frame st meta mode len\<lparr>cf_Status := st'\<rparr> = version_frame st' meta mode len"
  "version_frame st meta mode len\<lparr>cf_BodyMode := mode'\<rparr> = version_frame st meta mode' len"
  "version_frame st meta mode len\<lparr>cf_BodyLen := len'\<rparr> = version_frame st meta mode len'"
  by simp_all

lemma open_part_describes:
  assumes "msgp_ok M" and "range_order ord" and "getmeta_ok meta" and "is_int64 (int (length (elems (fi_Data fi))))"
    and "\<And>path sz dir. nd_StatInfoFile s volume path = Inr [(sz, dir)] \<Longrightarrow> is_int64 sz" and "0 \<le> rq_Offset req"
    and "open_part M ord s volume object req (fi\<lparr>fi_Data := None\<rparr>) (elems (fi_Data fi))
          (version_frame FastOpenStatusOK meta FastOpenBodyMetadataOnly 0) = Inr stream"
    and "nd_ReadXL s volume object = Inr raw" and "nd_getFileInfo s raw volume object (rq_VersionID req) = Inr fi"
    and "fileInfoToFastOpenGETMeta ord (fi\<lparr>fi_Data := None\<rparr>) = Inr meta"
    and "\<not> fi_Deleted fi" "fi_Size fi \<noteq> 0" "\<not> FileInfo_IsRemote clk fi"
  shows "\<exists>prelude frame body. readFastOpenFrame M stream = (Inr (prelude, frame), body)
    \<and> describes ord clk s volume object req frame body"
proof -
  let ?path = "[object, fi_DataDir fi, ''part.'' @ itoa (rq_PartNumber req)]"
  have st: "FastOpenStatusOK = (if fi_Deleted fi then FastOpenStatusDeleteMarker else FastOpenStatusOK)"
    using assms(11) by simp
  show ?thesis
  proof (cases "nd_StatInfoFile s volume ?path")
    case (Inl err)
    then have d: "elems (fi_Data fi) \<noteq> []" and f: "fastOpenFrameWithBody M ord
        (version_frame FastOpenStatusOK meta FastOpenBodyInline (int (length (elems (fi_Data fi)))))
        (Some (elems (fi_Data fi), None)) = Inr stream"
      using assms(7) by (auto simp: open_part_def Let_def split: if_splits)
    show ?thesis
      by (rule version_frame_describes[OF assms(1-4) f assms(8-10) st])
        (use d assms(11-13) in \<open>simp add: version_body_def\<close>)
  next
    case (Inr stat)
    then obtain sz where stat: "stat = [(sz, False)]" and le: "rq_Offset req \<le> sz"
      using assms(7) by (auto simp: open_part_def Let_def split: list.splits if_splits)
    define len where "len = (if 0 \<le> rq_Length req then min (rq_Length req) (sz - rq_Offset req) else sz - rq_Offset req)"
    have len': "(if rq_Length req \<ge> 0 \<and> rq_Length req < sz - rq_Offset req then rq_Length req else sz - rq_Offset req) = len"
      by (auto simp: len_def)
    obtain body where b: "nd_ReadFileStream s volume ?path (rq_Offset req) len = Inr body"
        and f: "fastOpenFrameWithBody M ord (version_frame FastOpenStatusOK meta FastOpenBodyShard len) (Some body) = Inr stream"
      using assms(7) Inr le by (auto simp: open_part_def Let_def stat len' split: sum.splits)
    have shard: "\<exists>path sz. nd_StatInfoFile s volume path = Inr [(sz, False)]
        \<and> nd_ReadFileStream s volume path (rq_Offset req) len = Inr body
        \<and> len = (if 0 \<le> rq_Length req then min (rq_Length req) (sz - rq_Offset req) else sz - rq_Offset req)"
      using b Inr stat len_def by blast
    have len: "0 \<le> len" "is_int64 len" using le assms(5)[of ?path sz False] assms(6) Inr stat by (auto simp: len_def is_int64_def)
    show ?thesis
      by (rule version_frame_describes[OF assms(1-3) len(2) f assms(8-10) st])
        (use shard len(1) assms(11-13) in \<open>simp add: version_body_def\<close>)
  qed
qed

text \<open>whatever stream a node returns for a FastOpen request, its receiver reads a frame that tells the truth about
  the version on that drive (status, metadata, delete marker) and is left with exactly the body that the
  frame's mode and length announce; not-found statuses are sent only when the drive has no such version.\<close>

theorem fast_open_part_describes:
  assumes "msgp_ok M" and "range_order ord" and "wf_node ord s volume object (rq_VersionID req)"
    and "FastOpenPart M ord clk s volume object req = Inr stream"
  shows "\<exists>prelude frame body. readFastOpenFrame M stream = (Inr (prelude, frame), body)
    \<and> describes ord clk s volume object req frame body"
proof (cases "rq_PartNumber req \<noteq> 1 \<or> rq_Offset req < 0 \<or> rq_Length req < -1")
  case True
  then have "fastOpenFrameOnly M ord FastOpenStatusUnsupported = Inr stream"
    using assms(4) by (simp add: FastOpenPart_def split: if_splits)
  then show ?thesis by (rule frame_only_describes[OF assms(1,2)]) simp_all
next
  case valid: False
  note only = frame_only_describes[OF assms(1,2), where s = s and volume = volume and object = object and req = req and clk = clk]
  have v: "rq_Version req = fastOpenFrameVersion" using assms(4) by (auto simp: FastOpenPart_def split: if_splits)
  show ?thesis
  proof (cases "nd_ReadXL s volume object")
    case (Inl err)
    then have "err = ErrFileNotFound" "fastOpenFrameOnly M ord FastOpenStatusVersionNotFound = Inr stream
        \<or> fastOpenFrameOnly M ord FastOpenStatusNotFound = Inr stream"
      using assms(4) v valid by (auto simp: FastOpenPart_def split: if_splits)
    then show ?thesis using only[of FastOpenStatusVersionNotFound stream] only[of FastOpenStatusNotFound stream] Inl by auto
  next
    case raw: (Inr raw)
    show ?thesis
    proof (cases "nd_getFileInfo s raw volume object (rq_VersionID req)")
      case (Inl err)
      then have "err = ErrFileNotFound \<or> err = ErrFileVersionNotFound" "fastOpenFrameOnly M ord FastOpenStatusVersionNotFound = Inr stream
          \<or> fastOpenFrameOnly M ord FastOpenStatusNotFound = Inr stream"
        using assms(4) v valid raw by (auto simp: FastOpenPart_def split: if_splits)
      then show ?thesis using only[of FastOpenStatusVersionNotFound stream] only[of FastOpenStatusNotFound stream] raw Inl by auto
    next
      case fi: (Inr fi)
      let ?fi = "fi\<lparr>fi_Data := None\<rparr>" and ?data = "elems (fi_Data fi)"
      obtain meta where m: "fileInfoToFastOpenGETMeta ord ?fi = Inr meta"
          and a0: "answer_version M ord clk s volume object req ?fi ?data
            (CoalescedMetadataFrame0\<lparr>cf_Status := FastOpenStatusOK, cf_Meta := meta, cf_BodyMode := FastOpenBodyMetadataOnly\<rparr>) = Inr stream"
        using assms(4) v valid raw fi by (auto simp: FastOpenPart_def Let_def split: sum.splits)
      have a: "answer_version M ord clk s volume object req ?fi ?data
            (version_frame FastOpenStatusOK meta FastOpenBodyMetadataOnly 0) = Inr stream"
        unfolding version_frame_of[symmetric] by (rule a0)
      have ok: "getmeta_ok meta" "is_int64 (int (length ?data))" using assms(3) raw fi m by (auto simp: wf_node_def)
      have sizes: "nd_StatInfoFile s volume path = Inr [(sz, dir)] \<Longrightarrow> is_int64 sz" for path sz dir
        using assms(3) unfolding wf_node_def by blast
      have z: "is_int64 0" by (simp add: is_int64_def)
      have r: "FileInfo_IsRemote clk ?fi = FileInfo_IsRemote clk fi" by (simp add: FileInfo_IsRemote_def)
      note vf = version_frame_describes[OF assms(1,2) ok(1) _ _ raw fi m refl, where clk = clk]
      have unsup: ?thesis if "fastOpenFrameOnly M ord FastOpenStatusUnsupported = Inr stream"
        using only[OF that] by simp
      show ?thesis
      proof (cases "fi_Deleted fi \<or> fi_Size fi = 0 \<or> FileInfo_IsRemote clk fi")
        case True
        show ?thesis
        proof (cases "rq_Offset req \<noteq> 0")
          case True
          then show ?thesis
            using a unsup \<open>fi_Deleted fi \<or> fi_Size fi = 0 \<or> FileInfo_IsRemote clk fi\<close>
            by (simp add: answer_version_def r split: if_splits)
        next
          case False
          let ?st = "if fi_Deleted fi then FastOpenStatusDeleteMarker else FastOpenStatusOK"
          let ?mode = "if fi_Deleted fi \<or> fi_Size fi = 0 then FastOpenBodyMetadataOnly else FastOpenBodyTransitioned"
          have f: "fastOpenFrameWithBody M ord (version_frame ?st meta ?mode 0) None = Inr stream"
            using a True False by (auto simp: answer_version_def r)
          show ?thesis
            by (rule vf[OF z f]) (use True False in \<open>auto simp: version_body_def no_body_def\<close>)
        qed
      next
        case here: False
        then have here': "\<not> fi_Deleted fi" "fi_Size fi \<noteq> 0" "\<not> FileInfo_IsRemote clk fi" by simp_all
        consider "fastOpenFrameOnly M ord FastOpenStatusUnsupported = Inr stream"
          | (inline) "?data \<noteq> []" "fastOpenFrameWithBody M ord (version_frame FastOpenStatusOK meta FastOpenBodyInline
                (int (length ?data))) (Some (?data, None)) = Inr stream"
          | (part) "open_part M ord s volume object req ?fi ?data
              (version_frame FastOpenStatusOK meta FastOpenBodyMetadataOnly 0) = Inr stream"
          using a here' by (auto simp: answer_version_def r split: if_splits)
        then show ?thesis
        proof cases
          case 1
          then show ?thesis by (rule unsup)
        next
          case inline
          have st: "(if fi_Deleted fi then FastOpenStatusDeleteMarker else FastOpenStatusOK) = FastOpenStatusOK"
            using here' by simp
          show ?thesis
            by (rule vf[unfolded st, OF ok(2) inline(2)]) (use inline(1) here' in \<open>simp add: version_body_def\<close>)
        next
          case part
          show ?thesis
            by (rule open_part_describes[OF assms(1,2) ok sizes _ part raw fi m here']) (use valid in auto)
        qed
      qed
    qed
  qed
qed

text \<open>A node with one version: five bytes on two data and two parity drives, of which this one has a shard of three.\<close>

definition sample_version :: FileInfo where
  "sample_version = FileInfo0\<lparr>fi_VersionID := ''v1'', fi_DataDir := ''d'', fi_ModTime := 1, fi_Size := 5,
     fi_Parts := Some [ObjectPartInfo0\<lparr>pt_Number := 1, pt_Size := 5\<rparr>],
     fi_Erasure := ErasureInfo0\<lparr>ei_Algorithm := erasureAlgorithm, ei_DataBlocks := 2, ei_ParityBlocks := 2,
       ei_BlockSize := 8, ei_Index := 1, ei_Distribution := Some [1, 2, 3, 4]\<rparr>\<rparr>"

definition sample_part_file :: "byte list" where
  "sample_part_file = bitrot_encode (length_hash HighwayHash256S) [[7, 8, 9]]"

definition sample_node :: "unit node_disk" where
  "sample_node = \<lparr>nd_ReadXL = (\<lambda>volume object. if object = ''o'' then Inr () else Inl ErrFileNotFound),
     nd_getFileInfo = (\<lambda>raw volume object versionID.
       if versionID \<in> {[], ''v1''} then Inr sample_version else Inl ErrFileVersionNotFound),
     nd_StatInfoFile = (\<lambda>volume path. if path = [''o'', ''d'', ''part.1''] then Inr [(int (length sample_part_file), False)] else Inl ErrFileNotFound),
     nd_ReadFileStream = (\<lambda>volume path offset len. Inr (take (nat len) (drop (nat offset) sample_part_file), None))\<rparr>"

definition sample_request :: "string \<Rightarrow> int \<Rightarrow> FastOpenPartRequest" where
  "sample_request versionID offset = \<lparr>rq_Version = fastOpenFrameVersion, rq_VersionID = versionID, rq_PartNumber = 1, rq_Offset = offset,
     rq_Length = -1, rq_Flags = 0\<rparr>"

lemma sample_part_file_length: "length sample_part_file = 35"
  by (simp add: sample_part_file_def length_hash_def)

lemma sample_meta_ok:
  "fileInfoToFastOpenGETMeta (\<lambda>xs. xs) (sample_version\<lparr>fi_Data := None\<rparr>) = Inr meta \<Longrightarrow> getmeta_ok meta"
  by (auto simp: sample_version_def fileInfoToFastOpenGETMeta_def Let_def FileInfo0_def ErasureInfo0_def ObjectPartInfo0_def
        GetChecksumInfo_def fastOpenBitrotCode_def cloneStringMap_def fastOpenTimeUnixNano_def IsZero_def zero_time_def
        UnixNano_def getmeta_ok_def transition_ok_def part_ok_def erasure_ok_def bitrot_ok_def strmap_ok_def wf_strmap_def
        short_def is_int64_def copy_slice_def)

lemma sample_node_ok: "wf_node (\<lambda>xs. xs) sample_node ''b'' ''o'' vid"
  using sample_meta_ok
  by (auto simp: wf_node_def sample_node_def sample_version_def FileInfo0_def is_int64_def sample_part_file_length split: if_splits)

theorem fast_open_part_describes_witness:
  "\<exists>stream prelude frame. FastOpenPart wide_msgp (\<lambda>xs. xs) sample_clock sample_node ''b'' ''o'' (sample_request ''v2'' 0) = Inr stream
    \<and> readFastOpenFrame wide_msgp stream = (Inr (prelude, frame), [], None)"
proof -
  let ?f = "CoalescedMetadataFrame0\<lparr>cf_Status := FastOpenStatusVersionNotFound, cf_BodyMode := FastOpenBodyMetadataOnly\<rparr>"
  have "\<exists>out. encodeFastOpenFrame wide_msgp (\<lambda>xs. xs) ?f = Inr out"
    using wide_msgp_ok
    by (simp add: frame_zero_defs encodeFastOpenFrame_def marshalCoalescedMetadataFrame_def FastOpenStatusVersionNotFound_def
        status_valid_def mode_valid_def FastOpenBodyMetadataOnly_def Let_def append_enc fastOpenFrameMaxHeaderLen_def
        getmeta_append[of _ _ "_ @ _"] transition_append part_append erasure_append bitrot_append
        appendStringMap_def append_pairs_enc enc_pairs_def appendBytesOrNil_def appendIntSlice_def
        enc_hdr_def enc_str_def enc_u8_def enc_i64_def enc_int_def enc_bool_def enc_nil_def wide_msgp_def wide_def)
  then obtain stream where p: "FastOpenPart wide_msgp (\<lambda>xs. xs) sample_clock sample_node ''b'' ''o'' (sample_request ''v2'' 0) = Inr stream"
    by (auto simp: FastOpenPart_def sample_request_def sample_node_def fastOpenFrameOnly_def fastOpenFrameWithBody_def)
  have w: "wf_node (\<lambda>xs. xs) sample_node ''b'' ''o'' (rq_VersionID (sample_request ''v2'' 0))" by (rule sample_node_ok)
  obtain prelude frame body where r: "readFastOpenFrame wide_msgp stream = (Inr (prelude, frame), body)"
      "describes (\<lambda>xs. xs) sample_clock sample_node ''b'' ''o'' (sample_request ''v2'' 0) frame body"
    using fast_open_part_describes[OF wide_msgp_ok range_order_id w p] by blast
  have "nd_getFileInfo sample_node () ''b'' ''o'' ''v2'' = Inl ErrFileVersionNotFound" by (simp add: sample_node_def)
  then have "body = ([], None)"
    using r(2) by (auto simp: describes_def no_body_def sample_request_def split: if_splits)
  then show ?thesis using p r(1) by blast
qed

end
