(* ===== verification/FastOpen_Get.thy ===== *)
theory FastOpen_Get
  imports FastOpen_Node Quorum_Meta "HOL-Library.Product_Lexorder"
begin

text \<open>
  The coordinator's side of a single-trip GET (\<open>cmd/fastopen-get.go\<close>): a first wave of drives is
  asked for frame and body in one call, the frames go through the quorum rules of a canonical GET,
  the streams of the winning version become the erasure decoder's readers, missing slots are
  opened lazily on the drive the distribution names, and whatever goes wrong before that falls back
  to the canonical GET. A drive is the record \<open>get_disk\<close>, a stream is what it will still deliver, and
  the streams a function closes are part of its result. The metrics counters are left out.
\<close>

record get_disk =
  gd_IsOnline :: bool
  gd_IsLocal :: bool
  gd_FastOpenPart :: "string \<Rightarrow> string \<Rightarrow> FastOpenPartRequest \<Rightarrow> gerror + reader"

record fastOpenGETRead =
  fr_diskIndex :: nat
  fr_rc :: "reader option"
  fr_frame :: CoalescedMetadataFrame
  fr_err :: "gerror option"
  fr_closed :: bool

datatype fastOpenGETOutcome = fastOpenGETFallback | fastOpenGETSuccess | fastOpenGETTerminalError

section \<open>Which drives are asked\<close>

definition online :: "get_disk option list \<Rightarrow> nat \<Rightarrow> bool" where
  "online disks i \<longleftrightarrow> (case disks ! i of None \<Rightarrow> False | Some d \<Rightarrow> gd_IsOnline d)"

definition candidates_of :: "get_disk option list \<Rightarrow> (nat \<times> bool) list" where
  "candidates_of disks = map (\<lambda>i. (i, gd_IsLocal (the (disks ! i)))) (filter (online disks) [0..<length disks])"

text \<open>\<open>hash\<close> is xxHash of the name (third party), \<open>spread\<close> the configuration flag.\<close>

definition selectFastOpenGETDisks ::
  "(string \<Rightarrow> nat) \<Rightarrow> bool \<Rightarrow> get_disk option list \<Rightarrow> nat \<Rightarrow> string \<Rightarrow> string \<Rightarrow> nat list" where
  "selectFastOpenGETDisks hash spread disks openCount bucket object =
     (let cands = candidates_of disks;
          cands = (if spread then
                     (if cands \<noteq> [] then
                        let start = hash (bucket @ ''/'' @ object) mod length cands
                        in drop start cands @ take start cands
                      else cands)
                   else sort_key (\<lambda>(i, l). (\<not> l, i)) cands)
      in map fst (take openCount cands))"

definition selectRemainingFastOpenGETDisks :: "get_disk option list \<Rightarrow> nat list \<Rightarrow> nat list" where
  "selectRemainingFastOpenGETDisks disks selected =
     filter (\<lambda>i. i \<notin> set selected \<and> online disks i) [0..<length disks]"

definition fastOpenInitialOpenCount :: "nat \<Rightarrow> nat \<Rightarrow> nat" where
  "fastOpenInitialOpenCount setDriveCount defaultParityCount =
     (let dataCount = setDriveCount - defaultParityCount
      in if dataCount = defaultParityCount then dataCount + 1 else dataCount)"

section \<open>Opening a stream\<close>

text \<open>\<open>fr_closed\<close> records that the stream, of which no frame could be read, has been closed right here.\<close>

definition openFastOpenGETReadAt ::
  "msgp \<Rightarrow> get_disk \<Rightarrow> nat \<Rightarrow> string \<Rightarrow> string \<Rightarrow> string \<Rightarrow> int \<Rightarrow> int \<Rightarrow> fastOpenGETRead" where
  "openFastOpenGETReadAt M disk diskIndex bucket object versionID offset len =
     (let r = \<lparr>fr_diskIndex = diskIndex, fr_rc = None, fr_frame = CoalescedMetadataFrame0, fr_err = Some ErrDiskNotFound,
              fr_closed = False\<rparr>
      in case gd_FastOpenPart disk bucket object
                \<lparr>rq_Version = fastOpenFrameVersion, rq_VersionID = versionID, rq_PartNumber = 1,
                 rq_Offset = offset, rq_Length = len, rq_Flags = 0\<rparr> of
           Inl err \<Rightarrow> r\<lparr>fr_err := Some err\<rparr>
         | Inr rc \<Rightarrow>
             (case readFastOpenFrame M rc of
                (Inl err, rc') \<Rightarrow> r\<lparr>fr_err := Some err, fr_closed := True\<rparr>
              | (Inr (prelude, frame), rc') \<Rightarrow> r\<lparr>fr_rc := Some rc', fr_frame := frame, fr_err := None\<rparr>))"

definition openFastOpenGETRead ::
  "msgp \<Rightarrow> get_disk \<Rightarrow> nat \<Rightarrow> string \<Rightarrow> string \<Rightarrow> string \<Rightarrow> fastOpenGETRead" where
  "openFastOpenGETRead M disk diskIndex bucket object versionID =
     openFastOpenGETReadAt M disk diskIndex bucket object versionID 0 (-1)"

definition openFastOpenGETReads ::
  "msgp \<Rightarrow> get_disk option list \<Rightarrow> nat list \<Rightarrow> string \<Rightarrow> string \<Rightarrow> string \<Rightarrow> fastOpenGETRead list" where
  "openFastOpenGETReads M disks selected bucket object versionID =
     map (\<lambda>di. openFastOpenGETRead M (the (disks ! di)) di bucket object versionID) selected"

text \<open>The streams (by their number among the reads) that get closed.\<close>

definition closeFastOpenGETReadsExcept :: "fastOpenGETRead list \<Rightarrow> nat list \<Rightarrow> nat list" where
  "closeFastOpenGETReadsExcept reads used =
     filter (\<lambda>i. fr_rc (reads ! i) \<noteq> None \<and> i \<notin> set used) [0..<length reads]"

section \<open>Reading a body stream\<close>

record fastOpenStreamingBitrotReader =
  fsr_rc :: reader
  fsr_algo :: BitrotAlgorithm
  fsr_shardSize :: int
  fsr_shardFile :: int
  fsr_currOffset :: int
  fsr_hashSize :: nat

definition newFastOpenStreamingBitrotReaderAt ::
  "reader \<Rightarrow> BitrotAlgorithm \<Rightarrow> int \<Rightarrow> int \<Rightarrow> int \<Rightarrow> gerror + fastOpenStreamingBitrotReader" where
  "newFastOpenStreamingBitrotReaderAt rc algo shardSize shardFile currOffset =
     (case bitrot_Size algo of
        None \<Rightarrow> Inl (GoPanic ''Unsupported bitrot algorithm'')
      | Some n \<Rightarrow> Inr \<lparr>fsr_rc = rc, fsr_algo = algo, fsr_shardSize = shardSize, fsr_shardFile = shardFile,
                       fsr_currOffset = currOffset, fsr_hashSize = n\<rparr>)"

definition newFastOpenStreamingBitrotReader ::
  "reader \<Rightarrow> BitrotAlgorithm \<Rightarrow> int \<Rightarrow> int \<Rightarrow> gerror + fastOpenStreamingBitrotReader" where
  "newFastOpenStreamingBitrotReader rc algo shardSize shardFile = newFastOpenStreamingBitrotReaderAt rc algo shardSize shardFile 0"

definition fsr_ReadAt ::
  "(BitrotAlgorithm \<Rightarrow> byte list \<Rightarrow> byte list) \<Rightarrow> fastOpenStreamingBitrotReader \<Rightarrow> nat \<Rightarrow> int
   \<Rightarrow> fastOpenStreamingBitrotReader \<times> (gerror + byte list)" where
  "fsr_ReadAt H r n offset =
     (if n = 0 then (r, Inr [])
      else if fsr_shardSize r = 0 then (r, Inl (GoPanic ''integer divide by zero''))
      else if rem offset (fsr_shardSize r) \<noteq> 0 \<or> offset \<noteq> fsr_currOffset r then (r, Inl ErrUnexpected)
      else case ReadFull (fsr_hashSize r) (fsr_rc r) of
        (Inl e, rc1) \<Rightarrow> (r\<lparr>fsr_rc := rc1\<rparr>, Inl e)
      | (Inr hashBytes, rc1) \<Rightarrow>
          (case ReadFull n rc1 of
             (Inl e, rc2) \<Rightarrow> (r\<lparr>fsr_rc := rc2\<rparr>, Inl e)
           | (Inr buf, rc2) \<Rightarrow>
               if H (fsr_algo r) buf \<noteq> hashBytes then (r\<lparr>fsr_rc := rc2\<rparr>, Inl ErrFileCorrupt)
               else (r\<lparr>fsr_rc := rc2, fsr_currOffset := fsr_currOffset r + int n\<rparr>, Inr buf)))"

section \<open>Replacements\<close>

record fastOpenReplacementPool =
  po_slotDisk :: "int list"
  po_bucket :: string
  po_object :: string
  po_versionID :: string
  po_fi :: FileInfo
  po_algo :: BitrotAlgorithm
  po_shardSize :: int
  po_hashSize :: int
  po_bodyLen :: int
  po_engaged :: "nat list"

definition fastOpenInlineReplacementSafe :: "FileInfo \<Rightarrow> gerror + bool" where
  "fastOpenInlineReplacementSafe fi =
     (case elems (fi_Parts fi) of
        [p] \<Rightarrow> (case ErasureInfo_ShardFileSize (fi_Erasure fi) (pt_Size p) of
                  Inl e \<Rightarrow> Inl e
                | Inr n \<Rightarrow> Inr (n \<le> ErasureInfo_ShardSize (fi_Erasure fi)))
      | _ \<Rightarrow> Inr False)"

definition fastOpenReplacementCandidates :: "get_disk option list \<Rightarrow> nat list \<Rightarrow> nat list" where
  "fastOpenReplacementCandidates disks usedDisks =
     filter (\<lambda>i. i \<notin> set usedDisks \<and> online disks i) [0..<length disks]"

fun slot_loop :: "nat \<Rightarrow> int list \<Rightarrow> int list \<Rightarrow> int list" where
  "slot_loop diskIndex [] slotDisk = slotDisk"
| "slot_loop diskIndex (erasureIndex # es) slotDisk =
     (let sl = erasureIndex - 1
      in slot_loop (Suc diskIndex) es
           (if sl \<ge> 0 \<and> sl < int (length slotDisk) \<and> slotDisk ! nat sl = -1
            then slotDisk[nat sl := int diskIndex] else slotDisk))"

definition newFastOpenReplacementPool ::
  "nat list \<Rightarrow> string \<Rightarrow> string \<Rightarrow> string \<Rightarrow> FileInfo \<Rightarrow> BitrotAlgorithm \<Rightarrow> gerror + fastOpenReplacementPool" where
  "newFastOpenReplacementPool engaged bucket object versionID fi algo =
     (let dist = elems (ei_Distribution (fi_Erasure fi));
          slotDisk = slot_loop 0 dist (replicate (length dist) (-1));
          shardSize = ErasureInfo_ShardSize (fi_Erasure fi)
      in case bitrot_Size algo of
           None \<Rightarrow> Inl (GoPanic ''Unsupported bitrot algorithm'')
         | Some hashSize \<Rightarrow>
             (case elems (fi_Parts fi) of
                [] \<Rightarrow> Inl (GoPanic ''index out of range'')
              | p # _ \<Rightarrow>
                  (case ErasureInfo_ShardFileSize (fi_Erasure fi) (pt_Size p) of
                     Inl e \<Rightarrow> Inl e
                   | Inr shardFile \<Rightarrow>
                       (case bitrotShardFileSize shardFile shardSize algo of
                          Inl e \<Rightarrow> Inl e
                        | Inr bodyLen \<Rightarrow>
                            Inr \<lparr>po_slotDisk = slotDisk, po_bucket = bucket, po_object = object, po_versionID = versionID,
                                 po_fi = fi, po_algo = algo, po_shardSize = shardSize, po_hashSize = int hashSize,
                                 po_bodyLen = bodyLen, po_engaged = engaged\<rparr>))))"

definition claimSlotDisk ::
  "get_disk option list \<Rightarrow> int \<Rightarrow> fastOpenReplacementPool \<Rightarrow> fastOpenReplacementPool \<times> (nat \<times> get_disk) option" where
  "claimSlotDisk disks sl p =
     (if sl < 0 \<or> sl \<ge> int (length (po_slotDisk p)) then (p, None)
      else let diskIndex = po_slotDisk p ! nat sl
           in if diskIndex < 0 \<or> diskIndex \<ge> int (length disks) \<or> nat diskIndex \<in> set (po_engaged p) then (p, None)
              else case disks ! nat diskIndex of
                     None \<Rightarrow> (p, None)
                   | Some disk \<Rightarrow>
                       if \<not> gd_IsOnline disk then (p, None)
                       else (p\<lparr>po_engaged := List.insert (nat diskIndex) (po_engaged p)\<rparr>, Some (nat diskIndex, disk)))"

definition releaseSlotDisk :: "nat \<Rightarrow> fastOpenReplacementPool \<Rightarrow> fastOpenReplacementPool" where
  "releaseSlotDisk diskIndex p = p\<lparr>po_engaged := filter (\<lambda>i. i \<noteq> diskIndex) (po_engaged p)\<rparr>"

text \<open>\<open>validateFrame\<close>; \<open>ord\<close> and \<open>replState\<close> as in \<open>fastOpenGETMetaToFileInfo\<close>.\<close>

definition validate_body :: "fastOpenReplacementPool \<Rightarrow> int \<Rightarrow> CoalescedMetadataFrame \<Rightarrow> gerror option" where
  "validate_body p bodyOffset frame =
     (if cf_BodyMode frame = FastOpenBodyShard then
        (if cf_BodyLen frame \<noteq> po_bodyLen p - bodyOffset then Some ErrFileCorrupt else None)
      else if cf_BodyMode frame = FastOpenBodyInline then
        (if bodyOffset \<noteq> 0 then Some ErrFileCorrupt
         else case fastOpenInlineReplacementSafe (po_fi p) of
                Inl e \<Rightarrow> Some e
              | Inr safe \<Rightarrow> if \<not> safe \<or> cf_BodyLen frame \<noteq> po_bodyLen p then Some ErrFileCorrupt else None)
      else Some ErrFileCorrupt)"

definition validate_version :: "fastOpenReplacementPool \<Rightarrow> int \<Rightarrow> FileInfo \<Rightarrow> gerror option" where
  "validate_version p sl fi =
     (let pfi = po_fi p in
      if \<not> IsValid fi \<or> fi_Size fi \<noteq> fi_Size pfi \<or> fi_VersionID fi \<noteq> fi_VersionID pfi then Some ErrFileCorrupt
      else if length (elems (fi_Parts fi)) \<noteq> 1 \<or> length (elems (fi_Parts pfi)) \<noteq> 1 then Some ErrFileCorrupt
      else let a = hd (elems (fi_Parts fi)); b = hd (elems (fi_Parts pfi)) in
      if pt_Number a \<noteq> pt_Number b \<or> pt_Size a \<noteq> pt_Size b \<or> pt_ActualSize a \<noteq> pt_ActualSize b then Some ErrFileCorrupt
      else if \<not> ErasureInfo_Equal (fi_Erasure fi) (fi_Erasure pfi) \<or> ei_Index (fi_Erasure fi) \<noteq> sl + 1 then Some ErrFileCorrupt
      else if ck_Algorithm (GetChecksumInfo (fi_Erasure fi) 1) \<noteq> po_algo p then Some ErrFileCorrupt
      else if IsZero (fi_ModTime pfi) \<or> fi_ModTime pfi = timeSentinel then
        (if mgetd (fi_Metadata pfi) ''etag'' = [] \<or> mgetd (fi_Metadata fi) ''etag'' \<noteq> mgetd (fi_Metadata pfi) ''etag''
         then Some ErrFileCorrupt else None)
      else if fi_ModTime fi \<noteq> fi_ModTime pfi then Some ErrFileCorrupt
      else None)"

definition validateFrame ::
  "((string \<times> string) list \<Rightarrow> (string \<times> string) list) \<Rightarrow> (strmap \<Rightarrow> ReplicationState)
   \<Rightarrow> fastOpenReplacementPool \<Rightarrow> int \<Rightarrow> int \<Rightarrow> CoalescedMetadataFrame \<Rightarrow> gerror option" where
  "validateFrame ord replState p sl bodyOffset frame =
     (if cf_Status frame \<noteq> FastOpenStatusOK then
        (if cf_Status frame = FastOpenStatusNotFound \<or> cf_Status frame = FastOpenStatusVersionNotFound
         then Some ErrFileNotFound else Some ErrFileCorrupt)
      else case validate_body p bodyOffset frame of
        Some e \<Rightarrow> Some e
      | None \<Rightarrow>
          (case fastOpenGETMetaToFileInfo ord replState (po_bucket p) (po_object p) (cf_Status frame) (cf_Meta frame) of
             Inl e \<Rightarrow> Some e
           | Inr fi \<Rightarrow> validate_version p sl fi))"

definition pool_open ::
  "msgp \<Rightarrow> ((string \<times> string) list \<Rightarrow> (string \<times> string) list) \<Rightarrow> (strmap \<Rightarrow> ReplicationState) \<Rightarrow> get_disk option list
   \<Rightarrow> int \<Rightarrow> int \<Rightarrow> fastOpenReplacementPool \<Rightarrow> fastOpenReplacementPool \<times> (gerror + reader)" where
  "pool_open M ord replState disks sl shardOffset p =
     (if po_shardSize p = 0 then (p, Inl (GoPanic ''integer divide by zero''))
      else
        let bodyOffset = quo shardOffset (po_shardSize p) * po_hashSize p + shardOffset
        in if bodyOffset < 0 \<or> bodyOffset \<ge> po_bodyLen p then (p, Inl ErrFileCorrupt)
           else case claimSlotDisk disks sl p of
             (p1, None) \<Rightarrow> (p1, Inl ErrFileNotFound)
           | (p1, Some (diskIndex, disk)) \<Rightarrow>
               let read = openFastOpenGETReadAt M disk diskIndex (po_bucket p) (po_object p) (po_versionID p) bodyOffset (-1)
               in (case (fr_err read, fr_rc read) of
                     (Some e, _) \<Rightarrow> (releaseSlotDisk diskIndex p1, Inl e)
                   | (None, None) \<Rightarrow> (p1, Inl (GoPanic ''nil reader''))
                   | (None, Some rc) \<Rightarrow>
                       (case validateFrame ord replState p1 sl bodyOffset (fr_frame read) of
                          Some e \<Rightarrow> (releaseSlotDisk diskIndex p1, Inl e)
                        | None \<Rightarrow> (p1, Inr rc))))"

text \<open>A lazy reader opens its stream with the first \<open>ReadAt\<close>.\<close>

definition lazy_ReadAt ::
  "(BitrotAlgorithm \<Rightarrow> byte list \<Rightarrow> byte list) \<Rightarrow> msgp \<Rightarrow> ((string \<times> string) list \<Rightarrow> (string \<times> string) list)
   \<Rightarrow> (strmap \<Rightarrow> ReplicationState) \<Rightarrow> get_disk option list \<Rightarrow> int \<Rightarrow> fastOpenReplacementPool
   \<Rightarrow> fastOpenStreamingBitrotReader option \<Rightarrow> nat \<Rightarrow> int
   \<Rightarrow> (fastOpenReplacementPool \<times> fastOpenStreamingBitrotReader option) \<times> (gerror + byte list)" where
  "lazy_ReadAt H M ord replState disks sl p reader n offset =
     (if n = 0 then ((p, reader), Inr [])
      else if po_shardSize p = 0 then ((p, reader), Inl (GoPanic ''integer divide by zero''))
      else if rem offset (po_shardSize p) \<noteq> 0 then ((p, reader), Inl ErrUnexpected)
      else case reader of
        Some r \<Rightarrow> (case fsr_ReadAt H r n offset of (r', res) \<Rightarrow> ((p, Some r'), res))
      | None \<Rightarrow>
          (case pool_open M ord replState disks sl offset p of
             (p1, Inl e) \<Rightarrow> ((p1, None), Inl e)
           | (p1, Inr rc) \<Rightarrow>
               (case elems (fi_Parts (po_fi p1)) of
                  [] \<Rightarrow> ((p1, None), Inl (GoPanic ''index out of range''))
                | q # _ \<Rightarrow>
                    (case ErasureInfo_ShardFileSize (fi_Erasure (po_fi p1)) (pt_Size q) of
                       Inl e \<Rightarrow> ((p1, None), Inl e)
                     | Inr shardFile \<Rightarrow>
                         (case newFastOpenStreamingBitrotReaderAt rc (po_algo p1) (po_shardSize p1) shardFile offset of
                            Inl e \<Rightarrow> ((p1, None), Inl e)
                          | Inr r \<Rightarrow> (case fsr_ReadAt H r n offset of (r', res) \<Rightarrow> ((p1, Some r'), res)))))))"

section \<open>From the streams to the decoder's readers\<close>

datatype fastOpenReaderAt = Direct nat fastOpenStreamingBitrotReader | Lazy nat

record fastOpenReaders =
  rd_readers :: "fastOpenReaderAt option list"
  rd_prefer :: "bool list"
  rd_used :: "nat list"
  rd_unavailable :: "nat list"
  rd_hasInline :: bool
  rd_pool :: "fastOpenReplacementPool option"

definition readByDisk :: "fastOpenGETRead list \<Rightarrow> nat \<Rightarrow> nat option" where
  "readByDisk reads = map_of (rev (zip (map fr_diskIndex reads) [0..<length reads]))"

text \<open>One round of the loop over the drives. A run-time panic is the \<open>Inl\<close> of the result.\<close>

definition bind_read ::
  "FileInfo \<Rightarrow> BitrotAlgorithm \<Rightarrow> fastOpenGETRead list \<Rightarrow> FileInfo list \<Rightarrow> get_disk option list \<Rightarrow> nat
   \<Rightarrow> fastOpenReaders \<Rightarrow> gerror + fastOpenReaders" where
  "bind_read fi algo reads metaArr onlineDisks diskIndex st =
     (if onlineDisks ! diskIndex = None \<or> \<not> IsValid (metaArr ! diskIndex) then Inr st
      else case readByDisk reads diskIndex of
        None \<Rightarrow> Inr st
      | Some readIndex \<Rightarrow>
          (case fr_rc (reads ! readIndex) of
             None \<Rightarrow> Inr st
           | Some rc \<Rightarrow>
               let mode = cf_BodyMode (fr_frame (reads ! readIndex));
                   dist = elems (ei_Distribution (fi_Erasure fi));
                   skip = st\<lparr>rd_unavailable := List.insert diskIndex (rd_unavailable st)\<rparr>
               in if mode \<noteq> FastOpenBodyShard \<and> mode \<noteq> FastOpenBodyInline then Inr st
                  else if diskIndex \<ge> length dist then Inr skip
                  else let expectedIndex = dist ! diskIndex; pos = expectedIndex - 1
                    in if ei_Index (fi_Erasure (metaArr ! diskIndex)) \<noteq> expectedIndex \<or> pos < 0
                          \<or> pos \<ge> int (length (rd_readers st)) \<or> rd_readers st ! nat pos \<noteq> None
                       then Inr skip
                       else (case elems (fi_Parts fi) of
                               [] \<Rightarrow> Inl (GoPanic ''index out of range'')
                             | p # _ \<Rightarrow>
                                 (case ErasureInfo_ShardFileSize (fi_Erasure fi) (pt_Size p) of
                                    Inl e \<Rightarrow> Inl e
                                  | Inr shardFile \<Rightarrow>
                                      (case newFastOpenStreamingBitrotReader rc algo (ErasureInfo_ShardSize (fi_Erasure fi)) shardFile of
                                         Inl e \<Rightarrow> Inl e
                                       | Inr r \<Rightarrow>
                                           Inr (st\<lparr>rd_readers := (rd_readers st)[nat pos := Some (Direct readIndex r)],
                                                   rd_prefer := (rd_prefer st)[nat pos := True],
                                                   rd_used := List.insert readIndex (rd_used st),
                                                   rd_unavailable := List.insert diskIndex (rd_unavailable st),
                                                   rd_hasInline := rd_hasInline st \<or> mode = FastOpenBodyInline\<rparr>))))))"

fun bind_reads ::
  "FileInfo \<Rightarrow> BitrotAlgorithm \<Rightarrow> fastOpenGETRead list \<Rightarrow> FileInfo list \<Rightarrow> get_disk option list \<Rightarrow> nat list
   \<Rightarrow> fastOpenReaders \<Rightarrow> gerror + fastOpenReaders" where
  "bind_reads fi algo reads metaArr onlineDisks [] st = Inr st"
| "bind_reads fi algo reads metaArr onlineDisks (d # ds) st =
     (case bind_read fi algo reads metaArr onlineDisks d st of
        Inl e \<Rightarrow> Inl e
      | Inr st' \<Rightarrow> bind_reads fi algo reads metaArr onlineDisks ds st')"

definition fill_lazy :: "fastOpenReaderAt option list \<Rightarrow> fastOpenReaderAt option list" where
  "fill_lazy readers = map (\<lambda>(pos, r). if r = None then Some (Lazy pos) else r) (enumerate 0 readers)"

definition fastOpenReaderCount :: "fastOpenReaderAt option list \<Rightarrow> nat" where
  "fastOpenReaderCount readers = length (filter (\<lambda>r. r \<noteq> None) readers)"

text \<open>The Go function returns \<open>(ok, err)\<close> with the readers; \<open>Inl\<close> is \<open>ok = false\<close> with that \<open>err\<close>,
  inside the sum whose \<open>Inl\<close> is a panic.\<close>

definition buildFastOpenGETReaders ::
  "string \<Rightarrow> string \<Rightarrow> string \<Rightarrow> FileInfo \<Rightarrow> fastOpenGETRead list \<Rightarrow> FileInfo list \<Rightarrow> get_disk option list
   \<Rightarrow> get_disk option list \<Rightarrow> gerror + (gerror option + fastOpenReaders)" where
  "buildFastOpenGETReaders bucket object versionID fi reads metaArr onlineDisks disks =
     (let algo = ck_Algorithm (GetChecksumInfo (fi_Erasure fi) 1);
          n = length (elems (ei_Distribution (fi_Erasure fi)));
          st0 = \<lparr>rd_readers = replicate n None, rd_prefer = replicate n False, rd_used = [], rd_unavailable = [],
                 rd_hasInline = False, rd_pool = None\<rparr>
      in if algo \<noteq> HighwayHash256S then Inr (Inl None)
         else case bind_reads fi algo reads metaArr onlineDisks [0..<length metaArr] st0 of
           Inl e \<Rightarrow> Inl e
         | Inr st \<Rightarrow>
             (case (if rd_hasInline st then fastOpenInlineReplacementSafe fi else Inr True) of
                Inl e \<Rightarrow> Inl e
              | Inr inlineReplacement \<Rightarrow>
                  let candidates = fastOpenReplacementCandidates disks (rd_unavailable st);
                      pooled =
                        (if inlineReplacement
                            \<and> int (length (rd_used st)) + int (length candidates) \<ge> ei_DataBlocks (fi_Erasure fi)
                         then (case newFastOpenReplacementPool (rd_unavailable st) bucket object versionID fi algo of
                                 Inl e \<Rightarrow> Inl e
                               | Inr p \<Rightarrow> Inr (st\<lparr>rd_readers := fill_lazy (rd_readers st), rd_pool := Some p\<rparr>))
                         else Inr st)
                  in (case pooled of
                        Inl e \<Rightarrow> Inl e
                      | Inr st' \<Rightarrow>
                          if int (fastOpenReaderCount (rd_readers st')) < ei_DataBlocks (fi_Erasure fi)
                          then Inr (Inl (Some ErrErasureReadQuorum))
                          else Inr (Inr st'))))"

section \<open>From the frames to the version\<close>

record fastOpenGETInfo =
  gi_fi :: FileInfo
  gi_readers :: "fastOpenReaderAt option list"
  gi_prefer :: "bool list"
  gi_pool :: "fastOpenReplacementPool option"

definition fastOpenGETInfo0 :: fastOpenGETInfo where
  "fastOpenGETInfo0 = \<lparr>gi_fi = FileInfo0, gi_readers = [], gi_prefer = [], gi_pool = None\<rparr>"

text \<open>What the code takes from elsewhere: \<open>getInternalReplicationState\<close>, SHA-256, xxHash, the clock and the orders
  in which the runtime iterates over the maps of the functions that are called.\<close>

record get_env =
  ge_msgp :: msgp
  ge_clock :: clock
  ge_sha :: "string \<Rightarrow> string"
  ge_xxhash :: "string \<Rightarrow> nat"
  ge_replState :: "strmap \<Rightarrow> ReplicationState"
  ge_meta_order :: "(string \<times> string) list \<Rightarrow> (string \<times> string) list"
  ge_errs_order1 :: errs_order
  ge_errs_order2 :: errs_order
  ge_parity_order :: "(int \<times> int) list \<Rightarrow> (int \<times> int) list"
  ge_times_order :: times_order
  ge_names_order :: "(string \<times> int) list \<Rightarrow> (string \<times> int) list"
  ge_hash_order :: "(string \<times> int) list \<Rightarrow> (string \<times> int) list"
  ge_props_order :: "((gotime \<times> int) \<times> int) list \<Rightarrow> ((gotime \<times> int) \<times> int) list"

text \<open>The two arrays with one entry per drive; \<open>None\<close> is the return on an unsupported answer.\<close>

fun fill_arrays ::
  "get_env \<Rightarrow> string \<Rightarrow> string \<Rightarrow> fastOpenGETRead list \<Rightarrow> FileInfo list \<times> gerror option list
   \<Rightarrow> (FileInfo list \<times> gerror option list) option" where
  "fill_arrays E bucket object [] arrs = Some arrs"
| "fill_arrays E bucket object (r # reads) (metaArr, errs) =
     (let d = fr_diskIndex r; status = cf_Status (fr_frame r);
          fail = (\<lambda>e. fill_arrays E bucket object reads (metaArr, errs[d := Some e]))
      in if d \<ge> length errs then fill_arrays E bucket object reads (metaArr, errs)
         else case fr_err r of
           Some e \<Rightarrow> fail e
         | None \<Rightarrow>
             if status = FastOpenStatusOK \<or> status = FastOpenStatusDeleteMarker then
               (case fastOpenGETMetaToFileInfo (ge_meta_order E) (ge_replState E) bucket object status (cf_Meta (fr_frame r)) of
                  Inl e \<Rightarrow> fail e
                | Inr fi \<Rightarrow> fill_arrays E bucket object reads (metaArr[d := fi], errs[d := None]))
             else if status = FastOpenStatusNotFound then fail ErrFileNotFound
             else if status = FastOpenStatusVersionNotFound then fail ErrFileVersionNotFound
             else if status = FastOpenStatusUnsupported then None
             else fail ErrFastOpenFrameBadStatus)"

definition not_found :: "gerror \<Rightarrow> bool" where
  "not_found e \<longleftrightarrow> errors_Is e ErrFileNotFound \<or> errors_Is e ErrFileVersionNotFound"

text \<open>The loop that reapplies the filters of the canonical GET: does a drive keep its place?\<close>

definition keeps :: "FileInfo \<Rightarrow> gotime \<Rightarrow> string \<Rightarrow> FileInfo \<Rightarrow> bool" where
  "keeps fi modTime etag m \<longleftrightarrow>
     IsValid m \<and> ErasureInfo_Equal (fi_Erasure m) (fi_Erasure fi)
     \<and> (if IsZero modTime \<or> modTime = timeSentinel then etag \<noteq> [] \<and> etag = mgetd (fi_Metadata fi) ''etag''
        else fi_ModTime m = modTime)"

definition online_metas :: "get_disk option list \<Rightarrow> FileInfo list \<Rightarrow> FileInfo list" where
  "online_metas onlineDisks metaArr = map (\<lambda>(d, m). if d \<noteq> None then m else FileInfo0) (zip onlineDisks metaArr)"

definition kept_metas :: "FileInfo \<Rightarrow> gotime \<Rightarrow> string \<Rightarrow> FileInfo list \<Rightarrow> FileInfo list" where
  "kept_metas fi modTime etag onlineMeta = map (\<lambda>m. if keeps fi modTime etag m then m else FileInfo0) onlineMeta"

definition kept_disks ::
  "FileInfo \<Rightarrow> gotime \<Rightarrow> string \<Rightarrow> FileInfo list \<Rightarrow> get_disk option list \<Rightarrow> get_disk option list" where
  "kept_disks fi modTime etag onlineMeta onlineDisks =
     map (\<lambda>(m, d). if keeps fi modTime etag m then d else None) (zip onlineMeta onlineDisks)"

text \<open>The version itself, or why there is none: \<open>Inl (ok, err)\<close>.\<close>

definition pick_version ::
  "get_env \<Rightarrow> bool \<Rightarrow> nat \<Rightarrow> int \<Rightarrow> string \<Rightarrow> string \<Rightarrow> get_disk option list \<Rightarrow> fastOpenGETRead list
   \<Rightarrow> (bool \<times> gerror option) + (FileInfo \<times> FileInfo list \<times> get_disk option list)" where
  "pick_version E canceled setDriveCount defaultParityCount bucket object disks reads =
     (case fill_arrays E bucket object reads
             (replicate setDriveCount FileInfo0, replicate setDriveCount (Some ErrDiskOngoingReq)) of
        None \<Rightarrow> Inl (False, None)
      | Some (metaArr, errs) \<Rightarrow>
          (case objectQuorumFromMeta (ge_errs_order1 E) (ge_parity_order E) canceled metaArr errs defaultParityCount of
             (_, Some e) \<Rightarrow> Inl (not_found e, Some e)
           | ((readQuorum, _), None) \<Rightarrow>
               (case reduceReadQuorumErrs (ge_errs_order2 E) canceled errs objectOpIgnoredErrs readQuorum of
                  Some e \<Rightarrow> Inl (not_found e, Some e)
                | None \<Rightarrow>
                    (case listOnlineDisks (ge_times_order E) (ge_names_order E) disks metaArr errs readQuorum of
                       (onlineDisks, modTime, etag) \<Rightarrow>
                         (case pickValidFileInfo (ge_clock E) (ge_sha E) (ge_hash_order E) (ge_props_order E)
                                 metaArr modTime etag readQuorum of
                            Inl e \<Rightarrow> Inl (False, Some e)
                          | Inr fi \<Rightarrow>
                              let onlineMeta = online_metas onlineDisks metaArr;
                                  onlineDisks = filterOnlineDisksInplace fi onlineMeta onlineDisks
                              in Inr (fi, kept_metas fi modTime etag onlineMeta, kept_disks fi modTime etag onlineMeta onlineDisks))))))"

text \<open>The result is \<open>(info, ok, err)\<close> and the streams that got closed.\<close>

definition pickFastOpenGETInfo ::
  "get_env \<Rightarrow> bool \<Rightarrow> nat \<Rightarrow> int \<Rightarrow> string \<Rightarrow> string \<Rightarrow> string \<Rightarrow> get_disk option list \<Rightarrow> fastOpenGETRead list
   \<Rightarrow> gerror + (fastOpenGETInfo \<times> bool \<times> gerror option \<times> nat list)" where
  "pickFastOpenGETInfo E canceled setDriveCount defaultParityCount bucket object versionID disks reads =
     (case pick_version E canceled setDriveCount defaultParityCount bucket object disks reads of
        Inl (ok, err) \<Rightarrow> Inr (fastOpenGETInfo0, ok, err, [])
      | Inr (fi, onlineMeta, onlineDisks) \<Rightarrow>
          let info = fastOpenGETInfo0\<lparr>gi_fi := fi\<rparr>
          in if fi_Deleted fi \<or> fi_Size fi = 0 \<or> FileInfo_IsRemote (ge_clock E) fi
             then Inr (info, True, None, closeFastOpenGETReadsExcept reads [])
             else (case buildFastOpenGETReaders bucket object versionID fi reads onlineMeta onlineDisks disks of
                     Inl e \<Rightarrow> Inl e
                   | Inr (Inl err) \<Rightarrow> Inr (fastOpenGETInfo0, False, err, [])
                   | Inr (Inr rd) \<Rightarrow>
                       Inr (info\<lparr>gi_readers := rd_readers rd, gi_prefer := rd_prefer rd, gi_pool := rd_pool rd\<rparr>, True, None,
                            closeFastOpenGETReadsExcept reads (rd_used rd))))"

record fastOpenGETInfoResult =
  ir_info :: fastOpenGETInfo
  ir_outcome :: fastOpenGETOutcome
  ir_err :: "gerror option"
  ir_reads :: "fastOpenGETRead list"
  ir_closed :: "nat list"

text \<open>The result carries the streams that were opened and the numbers of those that got closed.\<close>

definition settle ::
  "fastOpenGETRead list \<Rightarrow> fastOpenGETInfo \<times> bool \<times> gerror option \<times> nat list \<Rightarrow> fastOpenGETInfoResult" where
  "settle reads = (\<lambda>(info, ok, err, closed).
     if ok then
       (if err \<noteq> None
        then \<lparr>ir_info = info, ir_outcome = fastOpenGETTerminalError, ir_err = err, ir_reads = reads,
              ir_closed = closed @ closeFastOpenGETReadsExcept reads []\<rparr>
        else \<lparr>ir_info = info, ir_outcome = fastOpenGETSuccess, ir_err = None, ir_reads = reads, ir_closed = closed\<rparr>)
     else \<lparr>ir_info = fastOpenGETInfo0, ir_outcome = fastOpenGETFallback, ir_err = err, ir_reads = reads,
           ir_closed = closed @ closeFastOpenGETReadsExcept reads []\<rparr>)"

definition openFastOpenGETInfo ::
  "get_env \<Rightarrow> bool \<Rightarrow> bool \<Rightarrow> nat \<Rightarrow> nat \<Rightarrow> string \<Rightarrow> string \<Rightarrow> string \<Rightarrow> get_disk option list
   \<Rightarrow> gerror + fastOpenGETInfoResult" where
  "openFastOpenGETInfo E canceled spread setDriveCount defaultParityCount bucket object versionID disks =
     (let openCount = fastOpenInitialOpenCount setDriveCount defaultParityCount;
          selected = selectFastOpenGETDisks (ge_xxhash E) spread disks openCount bucket object;
          pick = pickFastOpenGETInfo E canceled setDriveCount (int defaultParityCount) bucket object versionID disks
      in if selected = [] then Inr (settle [] (fastOpenGETInfo0, False, None, []))
         else let reads = openFastOpenGETReads (ge_msgp E) disks selected bucket object versionID
           in case pick reads of
                Inl e \<Rightarrow> Inl e
              | Inr (info, ok, err, closed) \<Rightarrow>
                  let remaining = selectRemainingFastOpenGETDisks disks selected
                  in if \<not> ok \<and> err \<noteq> None \<and> remaining \<noteq> [] then
                       (let reads2 = reads @ openFastOpenGETReads (ge_msgp E) disks remaining bucket object versionID
                        in case pick reads2 of
                             Inl e \<Rightarrow> Inl e
                           | Inr res \<Rightarrow> Inr (settle reads2 res))
                     else Inr (settle reads (info, ok, err, closed)))"

section \<open>The two waves\<close>

definition ranked :: "get_disk option list \<Rightarrow> nat \<Rightarrow> bool \<times> nat" where
  "ranked disks i = (\<not> gd_IsLocal (the (disks ! i)), i)"

definition online_drives :: "get_disk option list \<Rightarrow> nat list" where
  "online_drives disks = filter (online disks) [0..<length disks]"

lemma candidates_fst: "map fst (candidates_of disks) = online_drives disks"
  by (simp add: candidates_of_def online_drives_def comp_def)

lemma candidates_ranked:
  assumes "cs' = sort_key (\<lambda>(i, l). (\<not> l, i)) (candidates_of disks)"
  shows "sorted (map (ranked disks) (map fst cs'))"
proof -
  have "\<forall>c \<in> set cs'. ranked disks (fst c) = (case c of (i, l) \<Rightarrow> (\<not> l, i))"
    using assms by (auto simp: candidates_of_def ranked_def)
  then have "map (ranked disks) (map fst cs') = map (\<lambda>(i, l). (\<not> l, i)) cs'" by simp
  then show ?thesis using assms by (metis sorted_sort_key)
qed

lemma selected_prefix:
  "\<exists>xs. mset xs = mset (online_drives disks)
    \<and> selectFastOpenGETDisks hash spread disks openCount bucket object = take openCount xs
    \<and> (\<not> spread \<longrightarrow> sorted (map (ranked disks) xs))"
proof -
  define cs where "cs = (if spread then
      (if candidates_of disks \<noteq> [] then
         (let start = hash (bucket @ ''/'' @ object) mod length (candidates_of disks)
          in drop start (candidates_of disks) @ take start (candidates_of disks))
       else candidates_of disks)
    else sort_key (\<lambda>(i, l). (\<not> l, i)) (candidates_of disks))"
  have "mset (drop n xs @ take n xs) = mset xs" for n and xs :: "(nat \<times> bool) list"
    by (metis append_take_drop_id mset_append union_commute)
  then have "mset cs = mset (candidates_of disks)" by (simp add: cs_def Let_def del: mset_append)
  then have "mset (map fst cs) = mset (online_drives disks)" by (simp flip: candidates_fst)
  moreover have "selectFastOpenGETDisks hash spread disks openCount bucket object = take openCount (map fst cs)"
    unfolding cs_def selectFastOpenGETDisks_def Let_def by (simp add: take_map)
  moreover have "\<not> spread \<longrightarrow> sorted (map (ranked disks) (map fst cs))"
    using candidates_ranked[OF refl, of disks] by (simp add: cs_def)
  ultimately show ?thesis by blast
qed

lemma remaining_eq:
  "selectRemainingFastOpenGETDisks disks selected = filter (\<lambda>i. i \<notin> set selected) (online_drives disks)"
  by (auto simp: selectRemainingFastOpenGETDisks_def online_drives_def intro: filter_cong)

lemma set_online_drives: "set (online_drives disks) = {i. i < length disks \<and> online disks i}"
  by (auto simp: online_drives_def)

text \<open>the first wave and the remaining drives together ask every drive that is online exactly once, the
  first wave is as large as it can be, and without spreading it prefers local drives, then lower numbers.\<close>

theorem fast_open_waves:
  assumes "selected = selectFastOpenGETDisks hash spread disks openCount bucket object"
    and "remaining = selectRemainingFastOpenGETDisks disks selected"
  shows "distinct (selected @ remaining) \<and> set (selected @ remaining) = {i. i < length disks \<and> online disks i}
    \<and> length selected = min openCount (card {i. i < length disks \<and> online disks i})
    \<and> (\<not> spread \<longrightarrow> (\<forall>i \<in> set selected. \<forall>j \<in> set remaining.
          (gd_IsLocal (the (disks ! j)) \<longrightarrow> gd_IsLocal (the (disks ! i)))
          \<and> (gd_IsLocal (the (disks ! j)) = gd_IsLocal (the (disks ! i)) \<longrightarrow> i < j)))"
proof -
  obtain xs where xs: "mset xs = mset (online_drives disks)" "selected = take openCount xs"
      "\<not> spread \<longrightarrow> sorted (map (ranked disks) xs)"
    using selected_prefix assms(1) by blast
  have d: "distinct xs" "set xs = set (online_drives disks)"
    using xs(1) by (metis mset_eq_imp_distinct_iff online_drives_def distinct_filter distinct_upt, metis mset_eq_setD)
  have rem: "remaining = filter (\<lambda>i. i \<notin> set selected) (online_drives disks)" using assms(2) remaining_eq by simp
  have rd: "set remaining = set (drop openCount xs)"
  proof -
    have "set xs = set (take openCount xs) \<union> set (drop openCount xs)" by (metis append_take_drop_id set_append)
    moreover have "set (take openCount xs) \<inter> set (drop openCount xs) = {}" using d(1) by (rule set_take_disj_set_drop_if_distinct) simp
    ultimately show ?thesis using rem xs(2) d(2) by auto
  qed
  have "distinct (selected @ remaining)" using rem xs(2) d(1) by (auto simp: online_drives_def)
  moreover have "set (selected @ remaining) = {i. i < length disks \<and> online disks i}"
    using rem xs(2) d(2) set_online_drives[of disks] set_take_subset[of openCount xs] by auto
  moreover have "length selected = min openCount (card {i. i < length disks \<and> online disks i})"
    using xs(2) distinct_card[OF d(1)] d(2) set_online_drives[of disks] by simp
  moreover have "(gd_IsLocal (the (disks ! j)) \<longrightarrow> gd_IsLocal (the (disks ! i)))
      \<and> (gd_IsLocal (the (disks ! j)) = gd_IsLocal (the (disks ! i)) \<longrightarrow> i < j)"
    if "\<not> spread" "i \<in> set selected" "j \<in> set remaining" for i j
  proof -
    have "sorted (map (ranked disks) (take openCount xs) @ map (ranked disks) (drop openCount xs))"
      using xs(3) that(1) by (metis append_take_drop_id map_append)
    then have "ranked disks i \<le> ranked disks j" using that(2,3) xs(2) rd by (auto simp: sorted_append)
    moreover have "i \<noteq> j" using that(2,3) rem by auto
    ultimately show ?thesis by (auto simp: ranked_def)
  qed
  ultimately show ?thesis by blast
qed

text \<open>Four drives, of which the second is offline and the third local.\<close>

definition sample_get_disk :: "bool \<Rightarrow> bool \<Rightarrow> get_disk" where
  "sample_get_disk up local = \<lparr>gd_IsOnline = up, gd_IsLocal = local, gd_FastOpenPart = (\<lambda>b ob r. Inl ErrFileNotFound)\<rparr>"

definition sample_get_disks :: "get_disk option list" where
  "sample_get_disks = [Some (sample_get_disk True False), Some (sample_get_disk False False), Some (sample_get_disk True True),
     Some (sample_get_disk True False)]"

theorem fast_open_waves_witness:
  "selectFastOpenGETDisks length False sample_get_disks 2 ''b'' ''o'' = [2, 0]
   \<and> selectRemainingFastOpenGETDisks sample_get_disks [2, 0] = [3] \<and> distinct [2, 0, 3::nat]"
proof -
  have s: "[2, 0] = selectFastOpenGETDisks length False sample_get_disks 2 ''b'' ''o''"
    by (simp add: selectFastOpenGETDisks_def candidates_of_def online_def sample_get_disks_def sample_get_disk_def Let_def
        upt_rec numeral_2_eq_2)
  have r: "[3] = selectRemainingFastOpenGETDisks sample_get_disks [2, 0]"
    by (simp add: selectRemainingFastOpenGETDisks_def online_def sample_get_disks_def sample_get_disk_def upt_rec)
  have "distinct ([2, 0] @ [3::nat])" using fast_open_waves[OF s r] by blast
  then show ?thesis using s[symmetric] r[symmetric] by simp
qed

section \<open>The readers\<close>

lemma readByDisk_Some:
  "readByDisk reads d = Some ri \<Longrightarrow> ri < length reads \<and> fr_diskIndex (reads ! ri) = d"
  by (auto simp: readByDisk_def dest!: map_of_SomeD simp: in_set_zip)

text \<open>A reader on an open stream stands at the place that the distribution gives to the drive of the
  stream, the drive itself claims that place, and it is one of the drives that agree with the version.\<close>

definition bound_reader ::
  "FileInfo \<Rightarrow> BitrotAlgorithm \<Rightarrow> fastOpenGETRead list \<Rightarrow> FileInfo list \<Rightarrow> get_disk option list \<Rightarrow> nat \<Rightarrow> nat
   \<Rightarrow> fastOpenStreamingBitrotReader \<Rightarrow> bool" where
  "bound_reader fi algo reads metaArr onlineDisks pos ri r \<longleftrightarrow>
     (let d = fr_diskIndex (reads ! ri); dist = elems (ei_Distribution (fi_Erasure fi)) in
      ri < length reads \<and> readByDisk reads d = Some ri \<and> d < length metaArr \<and> d < length dist \<and> dist ! d = int pos + 1
      \<and> ei_Index (fi_Erasure (metaArr ! d)) = int pos + 1 \<and> IsValid (metaArr ! d) \<and> onlineDisks ! d \<noteq> None
      \<and> cf_BodyMode (fr_frame (reads ! ri)) \<in> {FastOpenBodyShard, FastOpenBodyInline}
      \<and> fr_rc (reads ! ri) = Some (fsr_rc r) \<and> fsr_algo r = algo \<and> fsr_currOffset r = 0
      \<and> fsr_shardSize r = ErasureInfo_ShardSize (fi_Erasure fi) \<and> bitrot_Size algo = Some (fsr_hashSize r))"

definition readers_inv ::
  "FileInfo \<Rightarrow> BitrotAlgorithm \<Rightarrow> fastOpenGETRead list \<Rightarrow> FileInfo list \<Rightarrow> get_disk option list \<Rightarrow> fastOpenReaders \<Rightarrow> bool" where
  "readers_inv fi algo reads metaArr onlineDisks st \<longleftrightarrow>
     (let n = length (elems (ei_Distribution (fi_Erasure fi))) in
      length (rd_readers st) = n \<and> length (rd_prefer st) = n \<and> distinct (rd_used st) \<and> rd_pool st = None
      \<and> (\<forall>k < n. rd_prefer st ! k = (rd_readers st ! k \<noteq> None))
      \<and> (\<forall>k < n. \<forall>x. rd_readers st ! k = Some x \<longrightarrow>
            (\<exists>ri r. x = Direct ri r \<and> bound_reader fi algo reads metaArr onlineDisks k ri r
                  \<and> ri \<in> set (rd_used st) \<and> fr_diskIndex (reads ! ri) \<in> set (rd_unavailable st)))
      \<and> (\<forall>ri \<in> set (rd_used st). \<exists>k < n. \<exists>r. rd_readers st ! k = Some (Direct ri r)))"

lemma bind_read_cases:
  assumes "bind_read fi algo reads metaArr onlineDisks d st = Inr st'" and "d < length metaArr"
    and "length (rd_readers st) = length (elems (ei_Distribution (fi_Erasure fi)))"
  obtains (same) "st' = st"
    | (skip) "st' = st\<lparr>rd_unavailable := List.insert d (rd_unavailable st)\<rparr>"
    | (bound) pos ri r where "pos < length (rd_readers st)" "rd_readers st ! pos = None"
        "fr_diskIndex (reads ! ri) = d" "bound_reader fi algo reads metaArr onlineDisks pos ri r"
        "st' = st\<lparr>rd_readers := (rd_readers st)[pos := Some (Direct ri r)], rd_prefer := (rd_prefer st)[pos := True],
           rd_used := List.insert ri (rd_used st), rd_unavailable := List.insert d (rd_unavailable st),
           rd_hasInline := rd_hasInline st \<or> cf_BodyMode (fr_frame (reads ! ri)) = FastOpenBodyInline\<rparr>"
proof -
  let ?dist = "elems (ei_Distribution (fi_Erasure fi))" and ?pos = "nat (elems (ei_Distribution (fi_Erasure fi)) ! d - 1)"
  show thesis
  proof (cases "st' = st \<or> st' = st\<lparr>rd_unavailable := List.insert d (rd_unavailable st)\<rparr>")
    case True
    then show ?thesis using same skip by blast
  next
    case False
    then obtain ri rc p ps shardFile r where on: "onlineDisks ! d \<noteq> None" "IsValid (metaArr ! d)"
        and ri: "readByDisk reads d = Some ri" and rc: "fr_rc (reads ! ri) = Some rc"
        and mode: "cf_BodyMode (fr_frame (reads ! ri)) \<in> {FastOpenBodyShard, FastOpenBodyInline}"
        and d: "d < length ?dist" and ix: "ei_Index (fi_Erasure (metaArr ! d)) = ?dist ! d"
        and pos: "0 \<le> ?dist ! d - 1" "?dist ! d - 1 < int (length (rd_readers st))" "rd_readers st ! ?pos = None"
        and r: "newFastOpenStreamingBitrotReader rc algo (ErasureInfo_ShardSize (fi_Erasure fi)) shardFile = Inr r"
        and st': "st' = st\<lparr>rd_readers := (rd_readers st)[?pos := Some (Direct ri r)], rd_prefer := (rd_prefer st)[?pos := True],
           rd_used := List.insert ri (rd_used st), rd_unavailable := List.insert d (rd_unavailable st),
           rd_hasInline := rd_hasInline st \<or> cf_BodyMode (fr_frame (reads ! ri)) = FastOpenBodyInline\<rparr>"
      using assms(1) unfolding bind_read_def Let_def
      by (auto split: if_splits option.splits list.splits sum.splits simp: not_le)
    have di: "ri < length reads" "fr_diskIndex (reads ! ri) = d" using readByDisk_Some[OF ri] by simp_all
    have fsr: "fsr_rc r = rc" "fsr_algo r = algo" "fsr_currOffset r = 0"
        "fsr_shardSize r = ErasureInfo_ShardSize (fi_Erasure fi)" "bitrot_Size algo = Some (fsr_hashSize r)"
      using r by (auto simp: newFastOpenStreamingBitrotReader_def newFastOpenStreamingBitrotReaderAt_def split: option.splits)
    show ?thesis
    proof (rule bound[of ?pos ri r, OF _ pos(3) di(2) _ st'])
      show "?pos < length (rd_readers st)" using pos(1,2) by simp
      show "bound_reader fi algo reads metaArr onlineDisks ?pos ri r"
        unfolding bound_reader_def Let_def di(2) using on ri rc mode d ix pos(1) di(1) fsr assms(2) by simp
    qed
  qed
qed

lemma bind_read_inv:
  assumes "bind_read fi algo reads metaArr onlineDisks d st = Inr st'" and "d < length metaArr"
    and "readers_inv fi algo reads metaArr onlineDisks st"
  shows "readers_inv fi algo reads metaArr onlineDisks st'"
proof -
  let ?n = "length (elems (ei_Distribution (fi_Erasure fi)))"
  have len: "length (rd_readers st) = ?n" using assms(3) by (simp add: readers_inv_def Let_def)
  have known: "\<forall>rj \<in> set (rd_used st). \<exists>k < ?n. \<exists>r. rd_readers st ! k = Some (Direct rj r)"
    using assms(3) by (simp add: readers_inv_def Let_def)
  show ?thesis
    using assms(1,2) len
  proof (cases rule: bind_read_cases)
    case same
    then show ?thesis using assms(3) by simp
  next
    case skip
    then show ?thesis using assms(3) by (fastforce simp: readers_inv_def Let_def)
  next
    case (bound pos ri r)
    have st: "length (rd_prefer st) = ?n" "distinct (rd_used st)" "rd_pool st = None"
        "\<forall>k < ?n. rd_prefer st ! k = (rd_readers st ! k \<noteq> None)"
      and at: "\<And>k x. k < ?n \<Longrightarrow> rd_readers st ! k = Some x \<Longrightarrow>
          \<exists>ri r. x = Direct ri r \<and> bound_reader fi algo reads metaArr onlineDisks k ri r
                \<and> ri \<in> set (rd_used st) \<and> fr_diskIndex (reads ! ri) \<in> set (rd_unavailable st)"
      using assms(3) unfolding readers_inv_def Let_def by blast+
    have new: "ri \<notin> set (rd_used st)"
    proof
      assume "ri \<in> set (rd_used st)"
      then obtain k r' where k: "k < ?n" "rd_readers st ! k = Some (Direct ri r')"
        using known by blast
      then have "bound_reader fi algo reads metaArr onlineDisks k ri r'" using at[OF k] by auto
      then have "int k + 1 = int pos + 1" using bound(4) unfolding bound_reader_def Let_def by metis
      then have "k = pos" by simp
      then show False using bound(2) k(2) by simp
    qed
    have used: "\<exists>k < ?n. \<exists>r'. ((rd_readers st)[pos := Some (Direct ri r)]) ! k = Some (Direct rj r')"
      if rj: "rj \<in> set (rd_used st) \<or> rj = ri" for rj
    proof (cases "rj = ri")
      case True
      then show ?thesis using bound(1) len nth_list_update_eq[OF bound(1)] by metis
    next
      case False
      obtain k r' where k: "k < ?n" "rd_readers st ! k = Some (Direct rj r')"
        using rj False known by blast
      then have "pos \<noteq> k" using bound(2) by auto
      then have "((rd_readers st)[pos := Some (Direct ri r)]) ! k = Some (Direct rj r')"
        using nth_list_update_neq[of pos k "rd_readers st"] k(2) by metis
      then show ?thesis using k(1) by blast
    qed
    have at': "\<exists>rj r'. x = Direct rj r' \<and> bound_reader fi algo reads metaArr onlineDisks k rj r'
                \<and> rj \<in> set (rd_used st') \<and> fr_diskIndex (reads ! rj) \<in> set (rd_unavailable st')"
      if kn: "k < ?n" and x: "rd_readers st' ! k = Some x" for k x
    proof (cases "k = pos")
      case True
      then have "x = Direct ri r" using x bound(1) by (simp add: bound(5))
      then show ?thesis using bound(3,4) True by (auto simp: bound(5))
    next
      case False
      then have "rd_readers st ! k = Some x" using x by (simp add: bound(5))
      from at[OF kn this] show ?thesis by (auto simp: bound(5))
    qed
    have "\<forall>rj \<in> set (rd_used st'). \<exists>k < ?n. \<exists>r. rd_readers st' ! k = Some (Direct rj r)"
      using used by (simp add: bound(5))
    moreover have "\<forall>k < ?n. rd_prefer st' ! k = (rd_readers st' ! k \<noteq> None)"
      using st(1,4) len bound(1) by (simp add: bound(5) nth_list_update)
    moreover have "length (rd_readers st') = ?n \<and> length (rd_prefer st') = ?n \<and> distinct (rd_used st') \<and> rd_pool st' = None"
      using st(1-3) len new by (simp add: bound(5))
    ultimately show ?thesis using at' unfolding readers_inv_def Let_def by simp
  qed
qed

lemma bind_reads_inv:
  assumes "bind_reads fi algo reads metaArr onlineDisks ds st = Inr st'" and "\<forall>d \<in> set ds. d < length metaArr"
    and "readers_inv fi algo reads metaArr onlineDisks st"
  shows "readers_inv fi algo reads metaArr onlineDisks st'"
  using assms by (induction ds arbitrary: st) (auto split: sum.splits dest: bind_read_inv)

lemma pool_fields:
  assumes "newFastOpenReplacementPool engaged bucket object versionID fi algo = Inr p"
  shows "po_engaged p = engaged \<and> po_fi p = fi \<and> po_algo p = algo \<and> po_versionID p = versionID \<and> po_bucket p = bucket
    \<and> po_object p = object \<and> po_shardSize p = ErasureInfo_ShardSize (fi_Erasure fi)
    \<and> bitrot_Size algo = Some (nat (po_hashSize p)) \<and> 0 \<le> po_hashSize p
    \<and> po_slotDisk p = slot_loop 0 (elems (ei_Distribution (fi_Erasure fi)))
        (replicate (length (elems (ei_Distribution (fi_Erasure fi)))) (-1))
    \<and> (\<exists>q qs shardFile. elems (fi_Parts fi) = q # qs \<and> ErasureInfo_ShardFileSize (fi_Erasure fi) (pt_Size q) = Inr shardFile
         \<and> bitrotShardFileSize shardFile (po_shardSize p) algo = Inr (po_bodyLen p))"
  using assms by (auto simp: newFastOpenReplacementPool_def Let_def split: option.splits list.splits sum.splits)

lemma fill_lazy_simps [simp]:
  "length (fill_lazy rs) = length rs"
  "k < length rs \<Longrightarrow> fill_lazy rs ! k = (if rs ! k = None then Some (Lazy k) else rs ! k)"
  by (simp_all add: fill_lazy_def nth_enumerate_eq)

lemma build_inv:
  assumes "buildFastOpenGETReaders bucket object versionID fi reads metaArr onlineDisks disks = Inr (Inr rd)"
  obtains st where "readers_inv fi HighwayHash256S reads metaArr onlineDisks st"
    and "ck_Algorithm (GetChecksumInfo (fi_Erasure fi) 1) = HighwayHash256S"
    and "rd = st \<or> (\<exists>p. newFastOpenReplacementPool (rd_unavailable st) bucket object versionID fi HighwayHash256S = Inr p
           \<and> rd = st\<lparr>rd_readers := fill_lazy (rd_readers st), rd_pool := Some p\<rparr>)"
    and "ei_DataBlocks (fi_Erasure fi) \<le> int (fastOpenReaderCount (rd_readers rd))"
proof -
  let ?n = "length (elems (ei_Distribution (fi_Erasure fi)))"
  let ?st0 = "\<lparr>rd_readers = replicate ?n None, rd_prefer = replicate ?n False, rd_used = [], rd_unavailable = [],
      rd_hasInline = False, rd_pool = None\<rparr>"
  have a: "ck_Algorithm (GetChecksumInfo (fi_Erasure fi) 1) = HighwayHash256S"
    using assms unfolding buildFastOpenGETReaders_def Let_def by (auto split: if_splits)
  then obtain st where st: "bind_reads fi HighwayHash256S reads metaArr onlineDisks [0..<length metaArr] ?st0 = Inr st"
      and rd: "rd = st \<or> (\<exists>p. newFastOpenReplacementPool (rd_unavailable st) bucket object versionID fi HighwayHash256S = Inr p
           \<and> rd = st\<lparr>rd_readers := fill_lazy (rd_readers st), rd_pool := Some p\<rparr>)"
      and n: "ei_DataBlocks (fi_Erasure fi) \<le> int (fastOpenReaderCount (rd_readers rd))"
    using assms unfolding buildFastOpenGETReaders_def Let_def
    by (auto split: if_splits sum.splits simp: not_less)
  have i0: "readers_inv fi HighwayHash256S reads metaArr onlineDisks ?st0" by (simp add: readers_inv_def)
  have "\<forall>d \<in> set [0..<length metaArr]. d < length metaArr" by simp
  from that[OF bind_reads_inv[OF st this i0] a rd n] show thesis .
qed

text \<open>What the decoder is handed: at least as many readers as data blocks, each either an open stream of the drive whose
  place it is or one that will be opened, and no stream or drive at two places.\<close>

definition readers_ok ::
  "FileInfo \<Rightarrow> fastOpenGETRead list \<Rightarrow> FileInfo list \<Rightarrow> get_disk option list \<Rightarrow> fastOpenReaders \<Rightarrow> bool" where
  "readers_ok fi reads metaArr onlineDisks rd \<longleftrightarrow>
     (let n = length (elems (ei_Distribution (fi_Erasure fi))) in
      length (rd_readers rd) = n \<and> length (rd_prefer rd) = n
      \<and> ei_DataBlocks (fi_Erasure fi) \<le> int (fastOpenReaderCount (rd_readers rd))
      \<and> distinct (rd_used rd)
      \<and> (\<forall>ri. ri \<in> set (rd_used rd) \<longleftrightarrow> (\<exists>k < n. \<exists>r. rd_readers rd ! k = Some (Direct ri r)))
      \<and> (\<forall>k < n. case rd_readers rd ! k of
           None \<Rightarrow> \<not> rd_prefer rd ! k \<and> rd_pool rd = None
         | Some (Direct ri r) \<Rightarrow> rd_prefer rd ! k \<and> bound_reader fi HighwayHash256S reads metaArr onlineDisks k ri r
             \<and> (\<forall>p. rd_pool rd = Some p \<longrightarrow> fr_diskIndex (reads ! ri) \<in> set (po_engaged p))
         | Some (Lazy j) \<Rightarrow> j = k \<and> \<not> rd_prefer rd ! k \<and> rd_pool rd \<noteq> None))"

lemma readers_okD:
  assumes "readers_ok fi reads metaArr onlineDisks rd" and "n = length (elems (ei_Distribution (fi_Erasure fi)))"
  shows "length (rd_readers rd) = n" "ei_DataBlocks (fi_Erasure fi) \<le> int (fastOpenReaderCount (rd_readers rd))"
    "distinct (rd_used rd)" "ri \<in> set (rd_used rd) \<longleftrightarrow> (\<exists>k < n. \<exists>r. rd_readers rd ! k = Some (Direct ri r))"
    "k < n \<Longrightarrow> rd_readers rd ! k = Some (Direct ri r) \<Longrightarrow> bound_reader fi HighwayHash256S reads metaArr onlineDisks k ri r"
    "k < n \<Longrightarrow> rd_readers rd ! k = Some (Lazy j) \<Longrightarrow> j = k \<and> rd_pool rd \<noteq> None"
    "k < n \<Longrightarrow> rd_readers rd ! k = None \<Longrightarrow> rd_pool rd = None"
  using assms by (auto simp: readers_ok_def Let_def)

lemma build_readers_ok:
  assumes "buildFastOpenGETReaders bucket object versionID fi reads metaArr onlineDisks disks = Inr (Inr rd)"
  shows "readers_ok fi reads metaArr onlineDisks rd"
proof -
  let ?n = "length (elems (ei_Distribution (fi_Erasure fi)))"
  obtain st where inv: "readers_inv fi HighwayHash256S reads metaArr onlineDisks st"
    and rd: "rd = st \<or> (\<exists>p. newFastOpenReplacementPool (rd_unavailable st) bucket object versionID fi HighwayHash256S = Inr p
           \<and> rd = st\<lparr>rd_readers := fill_lazy (rd_readers st), rd_pool := Some p\<rparr>)"
    and n: "ei_DataBlocks (fi_Erasure fi) \<le> int (fastOpenReaderCount (rd_readers rd))"
    using build_inv[OF assms] by metis
  have st: "length (rd_readers st) = ?n" "length (rd_prefer st) = ?n" "distinct (rd_used st)" "rd_pool st = None"
      "\<forall>k < ?n. rd_prefer st ! k = (rd_readers st ! k \<noteq> None)"
      "\<forall>ri \<in> set (rd_used st). \<exists>k < ?n. \<exists>r. rd_readers st ! k = Some (Direct ri r)"
    and at: "\<And>k x. k < ?n \<Longrightarrow> rd_readers st ! k = Some x \<Longrightarrow>
            \<exists>ri r. x = Direct ri r \<and> bound_reader fi HighwayHash256S reads metaArr onlineDisks k ri r
                  \<and> ri \<in> set (rd_used st) \<and> fr_diskIndex (reads ! ri) \<in> set (rd_unavailable st)"
    using inv unfolding readers_inv_def Let_def by blast+
  have same: "length (rd_readers rd) = ?n" "rd_prefer rd = rd_prefer st" "rd_used rd = rd_used st"
      "\<And>k ri r. k < ?n \<Longrightarrow> rd_readers rd ! k = Some (Direct ri r) \<longleftrightarrow> rd_readers st ! k = Some (Direct ri r)"
    using rd st(1) by (auto split: if_splits)
  have slots: "case rd_readers rd ! k of
           None \<Rightarrow> \<not> rd_prefer rd ! k \<and> rd_pool rd = None
         | Some (Direct ri r) \<Rightarrow> rd_prefer rd ! k \<and> bound_reader fi HighwayHash256S reads metaArr onlineDisks k ri r
             \<and> (\<forall>p. rd_pool rd = Some p \<longrightarrow> fr_diskIndex (reads ! ri) \<in> set (po_engaged p))
         | Some (Lazy j) \<Rightarrow> j = k \<and> \<not> rd_prefer rd ! k \<and> rd_pool rd \<noteq> None" if kn: "k < ?n" for k
  proof (cases "rd_readers st ! k")
    case None
    then show ?thesis using rd st(1,4,5) kn by auto
  next
    case (Some x)
    obtain ri r where x: "x = Direct ri r" and b: "bound_reader fi HighwayHash256S reads metaArr onlineDisks k ri r"
        and u: "fr_diskIndex (reads ! ri) \<in> set (rd_unavailable st)"
      using at[OF kn Some] by blast
    have "rd_readers rd ! k = Some (Direct ri r)" using same(4)[OF kn] Some x by simp
    then show ?thesis using st(4,5) kn Some b u rd by (auto dest!: pool_fields)
  qed
  have "ri \<in> set (rd_used rd) \<longleftrightarrow> (\<exists>k < ?n. \<exists>r. rd_readers rd ! k = Some (Direct ri r))" for ri
    using st(6) at same(3,4) by fastforce
  then show ?thesis using slots same st n unfolding readers_ok_def Let_def by simp
qed

section \<open>Replacement streams\<close>

lemma length_slot_loop [simp]: "length (slot_loop d es sd) = length sd"
  by (induction d es sd rule: slot_loop.induct) (simp_all add: Let_def)

lemma slot_loop_nth:
  "sl < length sd \<Longrightarrow> slot_loop d es sd ! sl = x
   \<Longrightarrow> x = sd ! sl \<or> (\<exists>j < length es. es ! j = int sl + 1 \<and> x = int (d + j))"
proof (induction d es sd rule: slot_loop.induct)
  case (2 d e es sd)
  let ?sd = "if e - 1 \<ge> 0 \<and> e - 1 < int (length sd) \<and> sd ! nat (e - 1) = -1 then sd[nat (e - 1) := int d] else sd"
  have "x = ?sd ! sl \<or> (\<exists>j < length es. es ! j = int sl + 1 \<and> x = int (Suc d + j))"
    using 2 by (simp add: Let_def split: if_splits)
  then show ?case
  proof
    assume x: "x = ?sd ! sl"
    show ?thesis
    proof (cases "x = sd ! sl")
      case False
      then have "e - 1 = int sl" "x = int d" using x 2(2) by (auto simp: nth_list_update split: if_splits)
      then show ?thesis by (intro disjI2 exI[of _ 0]) simp
    qed simp
  next
    assume "\<exists>j < length es. es ! j = int sl + 1 \<and> x = int (Suc d + j)"
    then obtain j where "j < length es" "es ! j = int sl + 1" "x = int (Suc d + j)" by blast
    then show ?thesis by (intro disjI2 exI[of _ "Suc j"]) simp
  qed
qed simp

text \<open>The table of a pool names, for a slot, a drive to which the distribution gives that slot.\<close>

definition pool_inv :: "fastOpenReplacementPool \<Rightarrow> bool" where
  "pool_inv p \<longleftrightarrow> (\<forall>sl < length (po_slotDisk p). 0 \<le> po_slotDisk p ! sl \<longrightarrow>
     nat (po_slotDisk p ! sl) < length (elems (ei_Distribution (fi_Erasure (po_fi p))))
     \<and> elems (ei_Distribution (fi_Erasure (po_fi p))) ! nat (po_slotDisk p ! sl) = int sl + 1)"

lemma new_pool_inv:
  assumes "newFastOpenReplacementPool engaged bucket object versionID fi algo = Inr p"
  shows "pool_inv p"
proof -
  note f = pool_fields[OF assms]
  show ?thesis unfolding pool_inv_def
  proof (intro allI impI)
    fix sl assume sl: "sl < length (po_slotDisk p)" "0 \<le> po_slotDisk p ! sl"
    let ?dist = "elems (ei_Distribution (fi_Erasure fi))"
    have "sl < length (replicate (length ?dist) (-1::int))" using sl(1) f by simp
    from slot_loop_nth[OF this, of 0 ?dist "po_slotDisk p ! sl"] f sl(2)
    obtain j where "j < length ?dist" "?dist ! j = int sl + 1" "po_slotDisk p ! sl = int j"
      using \<open>sl < length (replicate (length ?dist) (-1))\<close> by auto
    then show "nat (po_slotDisk p ! sl) < length (elems (ei_Distribution (fi_Erasure (po_fi p))))
        \<and> elems (ei_Distribution (fi_Erasure (po_fi p))) ! nat (po_slotDisk p ! sl) = int sl + 1"
      using f by simp
  qed
qed

text \<open>What a frame must say before a stream replaces a missing one.\<close>

definition same_version :: "int \<Rightarrow> BitrotAlgorithm \<Rightarrow> FileInfo \<Rightarrow> FileInfo \<Rightarrow> bool" where
  "same_version sl algo fi pfi \<longleftrightarrow>
     IsValid fi \<and> fi_Size fi = fi_Size pfi \<and> fi_VersionID fi = fi_VersionID pfi
     \<and> (\<exists>a b. elems (fi_Parts fi) = [a] \<and> elems (fi_Parts pfi) = [b] \<and> pt_Number a = pt_Number b
           \<and> pt_Size a = pt_Size b \<and> pt_ActualSize a = pt_ActualSize b)
     \<and> ErasureInfo_Equal (fi_Erasure fi) (fi_Erasure pfi) \<and> ei_Index (fi_Erasure fi) = sl + 1
     \<and> ck_Algorithm (GetChecksumInfo (fi_Erasure fi) 1) = algo
     \<and> (if IsZero (fi_ModTime pfi) \<or> fi_ModTime pfi = timeSentinel
         then mgetd (fi_Metadata pfi) ''etag'' \<noteq> [] \<and> mgetd (fi_Metadata fi) ''etag'' = mgetd (fi_Metadata pfi) ''etag''
         else fi_ModTime fi = fi_ModTime pfi)"

lemma validate_version_None:
  "validate_version p sl fi = None \<longleftrightarrow> same_version sl (po_algo p) fi (po_fi p)"
proof -
  have one: "length xs = Suc 0 \<longleftrightarrow> (\<exists>a. xs = [a])" for xs :: "ObjectPartInfo list" by (cases xs) auto
  have "same_version sl (po_algo p) fi (po_fi p) \<longleftrightarrow>
     IsValid fi \<and> fi_Size fi = fi_Size (po_fi p) \<and> fi_VersionID fi = fi_VersionID (po_fi p)
     \<and> length (elems (fi_Parts fi)) = 1 \<and> length (elems (fi_Parts (po_fi p))) = 1
     \<and> (let a = hd (elems (fi_Parts fi)); b = hd (elems (fi_Parts (po_fi p))) in
          pt_Number a = pt_Number b \<and> pt_Size a = pt_Size b \<and> pt_ActualSize a = pt_ActualSize b)
     \<and> ErasureInfo_Equal (fi_Erasure fi) (fi_Erasure (po_fi p)) \<and> ei_Index (fi_Erasure fi) = sl + 1
     \<and> ck_Algorithm (GetChecksumInfo (fi_Erasure fi) 1) = po_algo p
     \<and> (if IsZero (fi_ModTime (po_fi p)) \<or> fi_ModTime (po_fi p) = timeSentinel
         then mgetd (fi_Metadata (po_fi p)) ''etag'' \<noteq> []
            \<and> mgetd (fi_Metadata fi) ''etag'' = mgetd (fi_Metadata (po_fi p)) ''etag''
         else fi_ModTime fi = fi_ModTime (po_fi p))"
    unfolding same_version_def by (auto simp: one Let_def)
  then show ?thesis unfolding validate_version_def Let_def by (cases "IsZero (fi_ModTime (po_fi p)) \<or> fi_ModTime (po_fi p) = timeSentinel") auto
qed

text \<open>The frame that the drive of a slot sent is of the same version, its body has the length that is left.\<close>

definition served ::
  "msgp \<Rightarrow> ((string \<times> string) list \<Rightarrow> (string \<times> string) list) \<Rightarrow> (strmap \<Rightarrow> ReplicationState) \<Rightarrow> get_disk option list
   \<Rightarrow> fastOpenReplacementPool \<Rightarrow> int \<Rightarrow> int \<Rightarrow> nat \<Rightarrow> reader \<Rightarrow> bool" where
  "served M ord replState disks p sl bodyOffset d rc \<longleftrightarrow>
     (\<exists>disk frame fi. d < length disks \<and> disks ! d = Some disk \<and> gd_IsOnline disk
        \<and> openFastOpenGETReadAt M disk d (po_bucket p) (po_object p) (po_versionID p) bodyOffset (-1)
            = \<lparr>fr_diskIndex = d, fr_rc = Some rc, fr_frame = frame, fr_err = None, fr_closed = False\<rparr>
        \<and> cf_Status frame = FastOpenStatusOK
        \<and> (cf_BodyMode frame = FastOpenBodyShard \<or> cf_BodyMode frame = FastOpenBodyInline \<and> bodyOffset = 0)
        \<and> cf_BodyLen frame = po_bodyLen p - bodyOffset
        \<and> fastOpenGETMetaToFileInfo ord replState (po_bucket p) (po_object p) FastOpenStatusOK (cf_Meta frame) = Inr fi
        \<and> same_version sl (po_algo p) fi (po_fi p))"

lemma validateFrame_None:
  assumes "validateFrame ord replState p sl bodyOffset frame = None"
  shows "cf_Status frame = FastOpenStatusOK
    \<and> (cf_BodyMode frame = FastOpenBodyShard \<or> cf_BodyMode frame = FastOpenBodyInline \<and> bodyOffset = 0)
    \<and> cf_BodyLen frame = po_bodyLen p - bodyOffset
    \<and> (\<exists>fi. fastOpenGETMetaToFileInfo ord replState (po_bucket p) (po_object p) FastOpenStatusOK (cf_Meta frame) = Inr fi
        \<and> same_version sl (po_algo p) fi (po_fi p))"
proof -
  have ok: "cf_Status frame = FastOpenStatusOK" and b: "validate_body p bodyOffset frame = None"
    and v: "\<exists>fi. fastOpenGETMetaToFileInfo ord replState (po_bucket p) (po_object p) FastOpenStatusOK (cf_Meta frame) = Inr fi
        \<and> validate_version p sl fi = None"
    using assms unfolding validateFrame_def by (auto split: if_splits option.splits sum.splits)
  show ?thesis
    using ok b v unfolding validate_version_None
    by (auto simp: validate_body_def split: if_splits sum.splits)
qed

lemma open_read_rc:
  "fr_err (openFastOpenGETReadAt M disk d b ob v off len) = None \<Longrightarrow>
   \<exists>rc. openFastOpenGETReadAt M disk d b ob v off len = \<lparr>fr_diskIndex = d, fr_rc = Some rc,
      fr_frame = fr_frame (openFastOpenGETReadAt M disk d b ob v off len), fr_err = None, fr_closed = False\<rparr>"
  by (auto simp: openFastOpenGETReadAt_def Let_def split: sum.splits prod.splits)

lemma pool_open_cases:
  assumes "pool_open M ord replState disks sl off p = (p', res)" and "pool_inv p"
  obtains (failed) e where "res = Inl e" "p' = p"
    | (opened) d rc where "res = Inr rc" "p' = p\<lparr>po_engaged := d # po_engaged p\<rparr>" "d \<notin> set (po_engaged p)"
        "d < length (elems (ei_Distribution (fi_Erasure (po_fi p))))"
        "elems (ei_Distribution (fi_Erasure (po_fi p))) ! d = sl + 1"
        "served M ord replState disks p sl (quo off (po_shardSize p) * po_hashSize p + off) d rc"
proof -
  let ?off = "quo off (po_shardSize p) * po_hashSize p + off"
  show thesis
  proof (cases "claimSlotDisk disks sl p")
    case (Pair p1 c)
    show ?thesis
    proof (cases c)
      case None
      then have "p1 = p" using Pair by (auto simp: claimSlotDisk_def Let_def split: if_splits option.splits)
      then show ?thesis using assms(1) Pair None failed by (auto simp: pool_open_def Let_def split: if_splits)
    next
      case (Some dd)
      then obtain d disk where c: "c = Some (d, disk)" by (cases dd) auto
      have cl: "p1 = p\<lparr>po_engaged := d # po_engaged p\<rparr>" "d \<notin> set (po_engaged p)" "d < length disks" "disks ! d = Some disk"
          "gd_IsOnline disk" "0 \<le> sl" "nat sl < length (po_slotDisk p)" "po_slotDisk p ! nat sl = int d"
        using Pair c by (auto simp: claimSlotDisk_def Let_def split: if_splits option.splits)
      then have d: "d < length (elems (ei_Distribution (fi_Erasure (po_fi p))))"
          "elems (ei_Distribution (fi_Erasure (po_fi p))) ! d = sl + 1"
        using assms(2) by (auto simp: pool_inv_def dest!: spec[of _ "nat sl"])
      have "filter (\<lambda>i. i \<noteq> d) (po_engaged p) = po_engaged p" using cl(2) by (intro filter_True) auto
      then have rel: "releaseSlotDisk d p1 = p" using cl(1) by (simp add: releaseSlotDisk_def)
      let ?read = "openFastOpenGETReadAt M disk d (po_bucket p) (po_object p) (po_versionID p) ?off (-1)"
      have same: "po_bucket p1 = po_bucket p" "po_object p1 = po_object p" "po_versionID p1 = po_versionID p"
          "po_bodyLen p1 = po_bodyLen p" "po_fi p1 = po_fi p" "po_algo p1 = po_algo p"
        using cl(1) by simp_all
      show ?thesis
      proof (cases "p' = p")
        case True
        have "res \<noteq> Inr rc" for rc
        proof
          assume "res = Inr rc"
          then have "p' = p1" using assms(1) Pair c by (auto simp: pool_open_def Let_def split: if_splits option.splits)
          then show False using True cl(1) by (cases p) simp
        qed
        then show ?thesis using failed True by (cases res) auto
      next
        case False
        then have err: "fr_err ?read = None"
          using assms(1) Pair c rel by (auto simp: pool_open_def Let_def split: if_splits option.splits)
        then obtain rc where rc: "fr_rc ?read = Some rc" and read: "?read = \<lparr>fr_diskIndex = d, fr_rc = Some rc,
            fr_frame = fr_frame ?read, fr_err = None, fr_closed = False\<rparr>"
          using open_read_rc by (metis fastOpenGETRead.select_convs(2))
        have v: "validateFrame ord replState p1 sl ?off (fr_frame ?read) = None" and res: "p' = p1" "res = Inr rc"
          using assms(1) Pair c rel False err rc by (auto simp: pool_open_def Let_def split: if_splits option.splits)
        have "served M ord replState disks p sl ?off d rc"
          unfolding served_def using validateFrame_None[OF v] read cl(3-5) unfolding same by blast
        then show ?thesis using opened[OF res(2) _ cl(2) d] res(1) cl(1) by simp
      qed
    qed
  qed
qed

end
