(* ===== verification/FastOpen_Serve.thy ===== *)
theory FastOpen_Serve
  imports FastOpen_Get
begin

text \<open>
  What the coordinator of a single-trip GET guarantees: the version it serves has the read quorum of the
  canonical GET behind it, every stream it opened is either closed or owned by exactly one reader, a
  replacement stream comes from the drive of its slot and from the same version, and a body stream
  is read exactly as the canonical bitrot reader reads the part file.
\<close>

section \<open>Replacements, whatever the order in which slots are opened\<close>

fun pool_opens ::
  "msgp \<Rightarrow> ((string \<times> string) list \<Rightarrow> (string \<times> string) list) \<Rightarrow> (strmap \<Rightarrow> ReplicationState) \<Rightarrow> get_disk option list
   \<Rightarrow> (int \<times> int) list \<Rightarrow> fastOpenReplacementPool \<Rightarrow> fastOpenReplacementPool \<times> (int \<times> int \<times> reader) list" where
  "pool_opens M ord replState disks [] p = (p, [])"
| "pool_opens M ord replState disks ((sl, off) # reqs) p =
     (case pool_open M ord replState disks sl off p of
        (p1, Inl e) \<Rightarrow> pool_opens M ord replState disks reqs p1
      | (p1, Inr rc) \<Rightarrow>
          (case pool_opens M ord replState disks reqs p1 of (p2, streams) \<Rightarrow> (p2, (sl, off, rc) # streams)))"

lemma pool_inv_engaged [simp]: "pool_inv (p\<lparr>po_engaged := x\<rparr>) = pool_inv p"
  by (simp add: pool_inv_def)

lemma served_engaged [simp]:
  "served M ord replState disks (p\<lparr>po_engaged := x\<rparr>) = served M ord replState disks p"
  by (simp add: served_def fun_eq_iff)

lemma pool_opens_served:
  assumes "pool_opens M ord replState disks reqs p = (p', streams)" and "pool_inv p"
  shows "\<exists>ds. length ds = length streams \<and> p' = p\<lparr>po_engaged := rev ds @ po_engaged p\<rparr>
    \<and> distinct ds \<and> set ds \<inter> set (po_engaged p) = {}
    \<and> (\<forall>(d, sl, off, rc) \<in> set (zip ds streams).
        d < length (elems (ei_Distribution (fi_Erasure (po_fi p))))
        \<and> elems (ei_Distribution (fi_Erasure (po_fi p))) ! d = sl + 1
        \<and> served M ord replState disks p sl (quo off (po_shardSize p) * po_hashSize p + off) d rc)"
  using assms
proof (induction reqs arbitrary: p streams)
  case Nil
  then show ?case by simp
next
  case (Cons req reqs)
  obtain sl off where req: "req = (sl, off)" by (cases req)
  obtain p1 res where o: "pool_open M ord replState disks sl off p = (p1, res)" by fastforce
  from o Cons.prems(2) show ?case
  proof (cases rule: pool_open_cases)
    case (failed e)
    then show ?thesis using Cons o req by simp
  next
    case (opened d rc)
    obtain p2 ss where r: "pool_opens M ord replState disks reqs p1 = (p2, ss)" by fastforce
    then have eqs: "p' = p2" "streams = (sl, off, rc) # ss" using Cons.prems(1) o opened(1) req by simp_all
    have "pool_inv p1" using opened(2) Cons.prems(2) by simp
    from Cons.IH[OF r[folded eqs(1)] this] obtain ds where ds: "length ds = length ss"
        "p' = p1\<lparr>po_engaged := rev ds @ po_engaged p1\<rparr>" "distinct ds" "set ds \<inter> set (po_engaged p1) = {}"
        "\<forall>(d, sl, off, rc) \<in> set (zip ds ss).
          d < length (elems (ei_Distribution (fi_Erasure (po_fi p1))))
          \<and> elems (ei_Distribution (fi_Erasure (po_fi p1))) ! d = sl + 1
          \<and> served M ord replState disks p1 sl (quo off (po_shardSize p1) * po_hashSize p1 + off) d rc"
      by blast
    show ?thesis
      by (rule exI[of _ "d # ds"]) (use ds opened eqs in auto)
  qed
qed

text \<open>C24: whatever slots are opened at whatever offsets, in whatever order, each stream comes from the drive to
  which the distribution gives its slot, its frame says that the drive has the same version at that
  slot and how many bytes are left; no drive is asked for two streams, none that already serves
  one, and a failed attempt leaves its drive free.\<close>

theorem replacements_sound:
  assumes "newFastOpenReplacementPool engaged bucket object versionID fi algo = Inr p"
    and "pool_opens M ord replState disks reqs p = (p', streams)"
  shows "\<exists>ds. length ds = length streams \<and> distinct ds \<and> set ds \<inter> set engaged = {}
    \<and> set (po_engaged p') = set engaged \<union> set ds
    \<and> (\<forall>(d, sl, off, rc) \<in> set (zip ds streams).
        d < length (elems (ei_Distribution (fi_Erasure fi))) \<and> elems (ei_Distribution (fi_Erasure fi)) ! d = sl + 1
        \<and> served M ord replState disks p sl (quo off (ErasureInfo_ShardSize (fi_Erasure fi)) * po_hashSize p + off) d rc)"
proof -
  note f = pool_fields[OF assms(1)]
  from pool_opens_served[OF assms(2) new_pool_inv[OF assms(1)]] obtain ds where
    "length ds = length streams" "p' = p\<lparr>po_engaged := rev ds @ po_engaged p\<rparr>" "distinct ds"
    "set ds \<inter> set (po_engaged p) = {}"
    "\<forall>(d, sl, off, rc) \<in> set (zip ds streams).
        d < length (elems (ei_Distribution (fi_Erasure (po_fi p))))
        \<and> elems (ei_Distribution (fi_Erasure (po_fi p))) ! d = sl + 1
        \<and> served M ord replState disks p sl (quo off (po_shardSize p) * po_hashSize p + off) d rc" by blast
  then show ?thesis using f by (intro exI[of _ ds]) auto
qed

section \<open>The quorum behind the version\<close>

text \<open>What a stream's frame says, as far as the selection of the version looks at it.\<close>

definition answered :: "get_env \<Rightarrow> string \<Rightarrow> string \<Rightarrow> fastOpenGETRead \<Rightarrow> FileInfo \<Rightarrow> bool" where
  "answered E bucket object r m \<longleftrightarrow>
     fr_err r = None \<and> cf_Status (fr_frame r) \<in> {FastOpenStatusOK, FastOpenStatusDeleteMarker}
     \<and> fastOpenGETMetaToFileInfo (ge_meta_order E) (ge_replState E) bucket object (cf_Status (fr_frame r))
          (cf_Meta (fr_frame r)) = Inr m"

definition arrays_inv :: "get_env \<Rightarrow> string \<Rightarrow> string \<Rightarrow> fastOpenGETRead set \<Rightarrow> FileInfo list \<times> gerror option list \<Rightarrow> bool" where
  "arrays_inv E bucket object R arrs \<longleftrightarrow> length (fst arrs) = length (snd arrs)
     \<and> (\<forall>i < length (fst arrs). fst arrs ! i = FileInfo0
          \<or> (\<exists>r \<in> R. fr_diskIndex r = i \<and> answered E bucket object r (fst arrs ! i)))"

lemma fill_arrays_step:
  assumes "arrays_inv E bucket object R arrs" and "r \<in> R"
  shows "fill_arrays E bucket object (r # reads) arrs = None
    \<or> (\<exists>arrs1. fill_arrays E bucket object (r # reads) arrs = fill_arrays E bucket object reads arrs1
          \<and> arrays_inv E bucket object R arrs1 \<and> length (fst arrs1) = length (fst arrs))"
proof -
  obtain metaArr errs where a: "arrs = (metaArr, errs)" by (cases arrs)
  let ?d = "fr_diskIndex r" and ?status = "cf_Status (fr_frame r)"
  have err: "arrays_inv E bucket object R (metaArr, errs[?d := e])" for e
    using assms(1) by (simp add: arrays_inv_def a)
  have met: "arrays_inv E bucket object R (metaArr[?d := fi], errs[?d := e])"
    if ans: "answered E bucket object r fi" for fi e
  proof -
    have "metaArr[?d := fi] ! i = FileInfo0
        \<or> (\<exists>r \<in> R. fr_diskIndex r = i \<and> answered E bucket object r (metaArr[?d := fi] ! i))"
      if "i < length metaArr" for i
      using assms ans that by (cases "i = ?d") (auto simp: arrays_inv_def a)
    then show ?thesis using assms(1) by (simp add: arrays_inv_def a)
  qed
  have res: ?thesis if "fill_arrays E bucket object (r # reads) arrs = fill_arrays E bucket object reads (m', e')"
      "arrays_inv E bucket object R (m', e')" "length m' = length metaArr" for m' e'
    by (rule disjI2, rule exI[of _ "(m', e')"]) (use that in \<open>simp add: a del: fill_arrays.simps\<close>)
  consider (out) "?d \<ge> length errs" | (failed) e where "?d < length errs" "fr_err r = Some e"
    | (answer) "?d < length errs" "fr_err r = None" "?status = FastOpenStatusOK \<or> ?status = FastOpenStatusDeleteMarker"
    | (other) "?d < length errs" "fr_err r = None" "\<not> (?status = FastOpenStatusOK \<or> ?status = FastOpenStatusDeleteMarker)"
    by (cases "length errs \<le> ?d"; cases "fr_err r") auto
  then show ?thesis
  proof cases
    case out
    then have "fill_arrays E bucket object (r # reads) arrs = fill_arrays E bucket object reads (metaArr, errs)"
      by (simp add: a Let_def)
    from res[OF this _ refl] show ?thesis using assms(1) a by simp
  next
    case (failed e)
    then have "fill_arrays E bucket object (r # reads) arrs = fill_arrays E bucket object reads (metaArr, errs[?d := Some e])"
      by (simp add: a Let_def)
    then show ?thesis using err by (rule res[OF _ _ refl])
  next
    case answer
    show ?thesis
    proof (cases "fastOpenGETMetaToFileInfo (ge_meta_order E) (ge_replState E) bucket object ?status (cf_Meta (fr_frame r))")
      case (Inl e)
      then have "fill_arrays E bucket object (r # reads) arrs = fill_arrays E bucket object reads (metaArr, errs[?d := Some e])"
        using answer by (simp add: a Let_def)
      then show ?thesis using err by (rule res[OF _ _ refl])
    next
      case (Inr fi)
      then have f: "fill_arrays E bucket object (r # reads) arrs = fill_arrays E bucket object reads (metaArr[?d := fi], errs[?d := None])"
        using answer by (simp add: a Let_def)
      have "answered E bucket object r fi" using answer Inr by (auto simp: answered_def)
      then show ?thesis using res[OF f met] by simp
    qed
  next
    case other
    then have "fill_arrays E bucket object (r # reads) arrs = None
      \<or> (\<exists>e. fill_arrays E bucket object (r # reads) arrs = fill_arrays E bucket object reads (metaArr, errs[?d := Some e]))"
      by (auto simp: a Let_def)
    then show ?thesis using err res[OF _ _ refl] by blast
  qed
qed

lemma fill_arrays_inv:
  "fill_arrays E bucket object reads arrs = Some arrs' \<Longrightarrow> arrays_inv E bucket object R arrs \<Longrightarrow> set reads \<subseteq> R
   \<Longrightarrow> arrays_inv E bucket object R arrs' \<and> length (fst arrs') = length (fst arrs)"
proof (induction reads arbitrary: arrs)
  case Nil
  then show ?case by simp
next
  case (Cons r reads)
  then have "r \<in> R" "set reads \<subseteq> R" by auto
  with fill_arrays_step[OF Cons.prems(2), of r reads] Cons.prems(1)
  obtain arrs1 where "fill_arrays E bucket object reads arrs1 = Some arrs'" "arrays_inv E bucket object R arrs1"
      "length (fst arrs1) = length (fst arrs)"
    by auto
  then show ?case using Cons.IH[of arrs1] \<open>set reads \<subseteq> R\<close> by simp
qed

text \<open>The answers that agree with a version, as the quorum counts them: the drives are counted, once each.\<close>

definition supporters ::
  "get_env \<Rightarrow> string \<Rightarrow> string \<Rightarrow> fastOpenGETRead list \<Rightarrow> gotime \<Rightarrow> string \<Rightarrow> FileInfo \<Rightarrow> nat set" where
  "supporters E bucket object reads modTime etag c =
     {d. \<exists>r \<in> set reads. \<exists>m. fr_diskIndex r = d \<and> answered E bucket object r m \<and> meta_selected modTime etag m
          \<and> ge_sha E (meta_text (ge_clock E) m) = ge_sha E (meta_text (ge_clock E) c)}"

definition env_ok :: "get_env \<Rightarrow> bool" where
  "env_ok E \<longleftrightarrow> range_order (ge_hash_order E) \<and> range_order (ge_props_order E) \<and> (\<forall>t. ge_sha E t \<noteq> [])"

definition up_to_successor :: "FileInfo \<Rightarrow> FileInfo \<Rightarrow> bool" where
  "up_to_successor fi c \<longleftrightarrow> fi = c\<lparr>fi_SuccessorModTime := fi_SuccessorModTime fi, fi_IsLatest := fi_IsLatest fi,
     fi_NumVersions := fi_NumVersions fi\<rparr>"

lemma up_to_successor_intros:
  "up_to_successor c c"
  "fi = c\<lparr>fi_SuccessorModTime := s, fi_IsLatest := l, fi_NumVersions := n\<rparr> \<Longrightarrow> up_to_successor fi c"
  by (cases c; simp add: up_to_successor_def)+

lemma FileInfo0_invalid: "\<not> IsValid FileInfo0"
  by (simp add: IsValid_def FileInfo0_def ErasureInfo0_def Let_def)

lemma pick_version_quorum:
  assumes "env_ok E"
    and "pick_version E canceled n dflt bucket object disks reads = Inr (fi, onlineMeta, onlineDisks)"
  obtains q modTime etag c r where "1 \<le> q" "r \<in> set reads" "answered E bucket object r c" "meta_selected modTime etag c"
    "up_to_successor fi c" "q \<le> int (card (supporters E bucket object reads modTime etag c))"
    "\<exists>metaArr errs w. fill_arrays E bucket object reads (replicate n FileInfo0, replicate n (Some ErrDiskOngoingReq)) = Some (metaArr, errs)
      \<and> objectQuorumFromMeta (ge_errs_order1 E) (ge_parity_order E) canceled metaArr errs dflt = ((q, w), None)"
proof -
  obtain metaArr errs q w disks' modTime etag where
      f: "fill_arrays E bucket object reads (replicate n FileInfo0, replicate n (Some ErrDiskOngoingReq)) = Some (metaArr, errs)"
    and q: "objectQuorumFromMeta (ge_errs_order1 E) (ge_parity_order E) canceled metaArr errs dflt = ((q, w), None)"
    and fi: "findFileInfoInQuorum (ge_clock E) (ge_sha E) (ge_hash_order E) (ge_props_order E) metaArr modTime etag q = Inr fi"
    using assms(2) unfolding pick_version_def pickValidFileInfo_def Let_def
    by (auto split: option.splits prod.splits sum.splits)
  have "arrays_inv E bucket object (set reads) (replicate n FileInfo0, replicate n (Some ErrDiskOngoingReq))"
    by (simp add: arrays_inv_def)
  from fill_arrays_inv[OF f this] have arr: "\<And>i. i < length metaArr \<Longrightarrow> metaArr ! i = FileInfo0
      \<or> (\<exists>r \<in> set reads. fr_diskIndex r = i \<and> answered E bucket object r (metaArr ! i))"
    by (auto simp: arrays_inv_def)
  have env: "range_order (ge_hash_order E)" "range_order (ge_props_order E)" "\<forall>t. ge_sha E t \<noteq> []"
    using assms(1) by (simp_all add: env_ok_def)
  obtain c where c: "c \<in> set metaArr" "meta_selected modTime etag c"
      "q \<le> int (length (agreeing (ge_clock E) (ge_sha E) modTime etag (ge_sha E (meta_text (ge_clock E) c)) metaArr))"
      "fi = c \<or> fi = c\<lparr>fi_SuccessorModTime := fi_SuccessorModTime fi, fi_IsLatest := IsZero (fi_SuccessorModTime fi),
         fi_NumVersions := fi_NumVersions fi\<rparr>"
    using findFileInfoInQuorum_sound[OF env fi] by blast
  then have same: "up_to_successor fi c" using up_to_successor_intros by blast
  let ?P = "\<lambda>m. meta_selected modTime etag m \<and> ge_sha E (meta_text (ge_clock E) m) = ge_sha E (meta_text (ge_clock E) c)"
  let ?S = "supporters E bucket object reads modTime etag c"
  have "i \<in> ?S" if "i < length metaArr" "?P (metaArr ! i)" for i
    using arr[OF that(1)] that(2) FileInfo0_invalid by (auto simp: supporters_def meta_selected_def)
  then have "{i. i < length metaArr \<and> ?P (metaArr ! i)} \<subseteq> ?S" by blast
  moreover have "?S \<subseteq> fr_diskIndex ` set reads" by (auto simp: supporters_def)
  then have "finite ?S" by (rule finite_subset) simp
  ultimately have "length (filter ?P metaArr) \<le> card ?S"
    unfolding length_filter_conv_card by (meson card_mono)
  then have q1: "q \<le> int (card ?S)" using c(3) by (simp add: agreeing_def)
  obtain i where "i < length metaArr" "metaArr ! i = c" using c(1) by (auto simp: in_set_conv_nth)
  then obtain r where r: "r \<in> set reads" "answered E bucket object r c"
    using arr[of i] c(2) FileInfo0_invalid by (auto simp: meta_selected_def)
  have "1 \<le> q" using fi by (auto simp: findFileInfoInQuorum_def split: if_splits)
  from that[OF this r c(2) same q1] f q show thesis by blast
qed

lemma supporters_mono: "set reads \<subseteq> set reads' \<Longrightarrow> supporters E b ob reads t e c \<subseteq> supporters E b ob reads' t e c"
  by (auto simp: supporters_def)

section \<open>Where every stream ends up\<close>

text \<open>The streams that readers own.\<close>

definition held :: "fastOpenReaderAt option list \<Rightarrow> nat list" where
  "held readers = concat (map (\<lambda>x. case x of Some (Direct ri r) \<Rightarrow> [ri] | _ \<Rightarrow> []) readers)"

definition open_streams :: "fastOpenGETRead list \<Rightarrow> nat list" where
  "open_streams reads = filter (\<lambda>i. fr_rc (reads ! i) \<noteq> None) [0..<length reads]"

lemma set_held: "set (held rs) = {ri. \<exists>k < length rs. \<exists>r. rs ! k = Some (Direct ri r)}"
  by (force simp: held_def in_set_conv_nth split: option.splits fastOpenReaderAt.splits)

lemma distinct_held:
  assumes "\<And>j k ri r r'. j < length rs \<Longrightarrow> k < length rs \<Longrightarrow> rs ! j = Some (Direct ri r) \<Longrightarrow> rs ! k = Some (Direct ri r') \<Longrightarrow> j = k"
  shows "distinct (held rs)"
  using assms
proof (induction rs)
  case Nil
  then show ?case by (simp add: held_def)
next
  case (Cons x xs)
  have tail: "distinct (held xs)"
  proof (rule Cons.IH)
    fix j k ri r r'
    assume "j < length xs" "k < length xs" "xs ! j = Some (Direct ri r)" "xs ! k = Some (Direct ri r')"
    then show "j = k" using Cons.prems[of "Suc j" "Suc k" ri r r'] by simp
  qed
  show ?case
  proof (cases "\<exists>ri r. x = Some (Direct ri r)")
    case True
    then obtain ri r where x: "x = Some (Direct ri r)" by blast
    have "ri \<notin> set (held xs)"
    proof
      assume "ri \<in> set (held xs)"
      then obtain k r' where "k < length xs" "xs ! k = Some (Direct ri r')" by (auto simp: set_held)
      then show False using Cons.prems[of 0 "Suc k" ri r r'] x by simp
    qed
    then show ?thesis using tail x by (simp add: held_def)
  next
    case False
    then have "held (x # xs) = held xs" by (auto simp: held_def split: option.splits fastOpenReaderAt.splits)
    then show ?thesis using tail by simp
  qed
qed

lemma closed_except_nil: "closeFastOpenGETReadsExcept reads [] = open_streams reads"
  by (simp add: closeFastOpenGETReadsExcept_def open_streams_def)

lemma accounted_used:
  assumes "distinct used" and "set used \<subseteq> set (open_streams reads)"
  shows "mset (used @ closeFastOpenGETReadsExcept reads used) = mset (open_streams reads)"
proof -
  have c: "closeFastOpenGETReadsExcept reads used = filter (\<lambda>i. i \<notin> set used) (open_streams reads)"
    by (simp add: closeFastOpenGETReadsExcept_def open_streams_def conj_commute)
  have "distinct (used @ closeFastOpenGETReadsExcept reads used)"
    using assms(1) unfolding c by (auto simp: open_streams_def)
  moreover have "set (used @ closeFastOpenGETReadsExcept reads used) = set (open_streams reads)"
    using assms(2) unfolding c by auto
  moreover have "distinct (open_streams reads)" by (simp add: open_streams_def)
  ultimately show ?thesis by (metis mset_set_set)
qed

lemma readers_held:
  assumes "readers_ok fi reads metaArr onlineDisks rd"
  shows "distinct (held (rd_readers rd)) \<and> set (held (rd_readers rd)) = set (rd_used rd)
    \<and> set (rd_used rd) \<subseteq> set (open_streams reads)"
proof -
  let ?n = "length (elems (ei_Distribution (fi_Erasure fi)))"
  note ok = readers_okD[OF assms refl]
  note n = ok(1) and used = ok(4) and at = ok(5)
  have "distinct (held (rd_readers rd))"
  proof (rule distinct_held)
    fix j k ri r r'
    assume "j < length (rd_readers rd)" "k < length (rd_readers rd)"
      "rd_readers rd ! j = Some (Direct ri r)" "rd_readers rd ! k = Some (Direct ri r')"
    then have "bound_reader fi HighwayHash256S reads metaArr onlineDisks j ri r"
        "bound_reader fi HighwayHash256S reads metaArr onlineDisks k ri r'" using at n by auto
    then have "int j + 1 = int k + 1" unfolding bound_reader_def Let_def by metis
    then show "j = k" by simp
  qed
  moreover have "set (held (rd_readers rd)) = set (rd_used rd)" using used n by (auto simp: set_held)
  moreover have "ri \<in> set (open_streams reads)" if "ri \<in> set (rd_used rd)" for ri
    using that used at by (fastforce simp: bound_reader_def Let_def open_streams_def)
  ultimately show ?thesis by blast
qed

lemma pick_version_Inl:
  "pick_version E canceled n dflt bucket object disks reads = Inl (ok, err) \<Longrightarrow> ok \<Longrightarrow> err \<noteq> None"
  unfolding pick_version_def Let_def by (auto split: option.splits prod.splits sum.splits dest: sym)

lemma pick_cases:
  assumes "pickFastOpenGETInfo E canceled n dflt bucket object versionID disks reads = Inr (info, ok, err, closed)"
  obtains (none) "\<not> (ok \<and> err = None)" "closed = []" "info = fastOpenGETInfo0"
    | (meta) fi ms ds where "ok" "err = None" "pick_version E canceled n dflt bucket object disks reads = Inr (fi, ms, ds)"
        "info = fastOpenGETInfo0\<lparr>gi_fi := fi\<rparr>" "closed = open_streams reads"
        "fi_Deleted fi \<or> fi_Size fi = 0 \<or> FileInfo_IsRemote (ge_clock E) fi"
    | (body) fi ms ds rd where "ok" "err = None" "pick_version E canceled n dflt bucket object disks reads = Inr (fi, ms, ds)"
        "readers_ok fi reads ms ds rd"
        "info = fastOpenGETInfo0\<lparr>gi_fi := fi, gi_readers := rd_readers rd, gi_prefer := rd_prefer rd, gi_pool := rd_pool rd\<rparr>"
        "closed = closeFastOpenGETReadsExcept reads (rd_used rd)"
        "\<not> (fi_Deleted fi \<or> fi_Size fi = 0 \<or> FileInfo_IsRemote (ge_clock E) fi)"
proof (cases "pick_version E canceled n dflt bucket object disks reads")
  case (Inl a)
  then show ?thesis
    using assms none pick_version_Inl[of E canceled n dflt bucket object disks reads] by (cases a) (auto simp: pickFastOpenGETInfo_def)
next
  case (Inr b)
  obtain fi ms ds where b: "b = (fi, ms, ds)" by (cases b)
  show ?thesis
  proof (cases "fi_Deleted fi \<or> fi_Size fi = 0 \<or> FileInfo_IsRemote (ge_clock E) fi")
    case True
    then show ?thesis using assms Inr b meta by (auto simp: pickFastOpenGETInfo_def closed_except_nil)
  next
    case False
    then show ?thesis
    proof (cases "buildFastOpenGETReaders bucket object versionID fi reads ms ds disks")
      case (Inl e)
      then show ?thesis using assms Inr b False by (simp add: pickFastOpenGETInfo_def)
    next
      case r: (Inr r)
      show ?thesis
      proof (cases r)
        case (Inl e)
        then show ?thesis using assms Inr b False r none by (auto simp: pickFastOpenGETInfo_def)
      next
        case rd: (Inr rd)
        then have "readers_ok fi reads ms ds rd" using r build_readers_ok by blast
        then show ?thesis
          using assms Inr b False r rd body[of fi ms ds rd] by (auto simp: pickFastOpenGETInfo_def)
      qed
    qed
  qed
qed

lemma pick_accounts:
  assumes "pickFastOpenGETInfo E canceled n dflt bucket object versionID disks reads = Inr (info, ok, err, closed)"
  shows "if ok \<and> err = None then mset (held (gi_readers info) @ closed) = mset (open_streams reads)
    else closed = [] \<and> gi_readers info = []"
  using assms
proof (cases rule: pick_cases)
  case none
  then show ?thesis by (auto simp: fastOpenGETInfo0_def)
next
  case (meta fi ms ds)
  then show ?thesis by (simp add: fastOpenGETInfo0_def held_def)
next
  case (body fi ms ds rd)
  note h = readers_held[OF body(4)]
  have d: "distinct (rd_used rd)" using body(4) by (simp add: readers_ok_def Let_def)
  then have "mset (held (rd_readers rd)) = mset (rd_used rd)"
    using h by (metis set_eq_iff_mset_eq_distinct)
  then show ?thesis using accounted_used[OF d, of reads] h body by simp
qed

text \<open>An \<open>openFastOpenGETInfo\<close> that returns has settled the answer of a pick from one or both waves.\<close>

definition read_of :: "get_env \<Rightarrow> get_disk option list \<Rightarrow> string \<Rightarrow> string \<Rightarrow> string \<Rightarrow> nat \<Rightarrow> fastOpenGETRead" where
  "read_of E disks bucket object versionID d = openFastOpenGETRead (ge_msgp E) (the (disks ! d)) d bucket object versionID"

lemma openInfo_cases:
  assumes "openFastOpenGETInfo E canceled spread n dflt bucket object versionID disks = Inr res"
  obtains (nothing) "res = settle [] (fastOpenGETInfo0, False, None, [])"
    | (picked) ds a where "distinct ds" "set ds \<subseteq> {d. d < length disks \<and> online disks d}"
        "pickFastOpenGETInfo E canceled n (int dflt) bucket object versionID disks
          (map (read_of E disks bucket object versionID) ds) = Inr a"
        "res = settle (map (read_of E disks bucket object versionID) ds) a"
proof -
  let ?sel = "selectFastOpenGETDisks (ge_xxhash E) spread disks (fastOpenInitialOpenCount n dflt) bucket object"
  let ?rem = "selectRemainingFastOpenGETDisks disks ?sel"
  let ?pick = "\<lambda>ds. pickFastOpenGETInfo E canceled n (int dflt) bucket object versionID disks
      (map (read_of E disks bucket object versionID) ds)"
  have reads: "openFastOpenGETReads (ge_msgp E) disks ds bucket object versionID = map (read_of E disks bucket object versionID) ds" for ds
    by (simp add: openFastOpenGETReads_def read_of_def)
  obtain xs where xs: "mset xs = mset (online_drives disks)" "?sel = take (fastOpenInitialOpenCount n dflt) xs"
    using selected_prefix by blast
  have "distinct xs" "set xs = set (online_drives disks)"
    using xs(1) by (metis mset_eq_imp_distinct_iff online_drives_def distinct_filter distinct_upt, metis mset_eq_setD)
  then have sel: "distinct ?sel" "set ?sel \<subseteq> {d. d < length disks \<and> online disks d}"
    using xs(2) set_online_drives[of disks] set_take_subset[of _ xs] by (simp, fastforce)
  have both: "distinct (?sel @ ?rem)" "set (?sel @ ?rem) \<subseteq> {d. d < length disks \<and> online disks d}"
    using sel by (auto simp: remaining_eq set_online_drives) (auto simp: online_drives_def)
  consider "?sel = []" | a where "?pick ?sel = Inr a" "res = settle (map (read_of E disks bucket object versionID) ?sel) a"
    | a where "?pick (?sel @ ?rem) = Inr a" "res = settle (map (read_of E disks bucket object versionID) (?sel @ ?rem)) a"
    using assms by (auto simp: openFastOpenGETInfo_def Let_def reads split: if_splits sum.splits)
  then show thesis
  proof cases
    case 1
    then have "res = settle [] (fastOpenGETInfo0, False, None, [])" using assms by (simp add: openFastOpenGETInfo_def Let_def)
    then show ?thesis by (rule nothing)
  next
    case (2 a)
    then show ?thesis using picked[OF sel] by blast
  next
    case (3 a)
    then show ?thesis using picked[OF both] by blast
  qed
qed

text \<open>The streams that the drives have opened, and those of them that are closed at once, no frame having been read.\<close>

definition opened_streams :: "get_disk option list \<Rightarrow> string \<Rightarrow> string \<Rightarrow> string \<Rightarrow> fastOpenGETRead list \<Rightarrow> nat list" where
  "opened_streams disks bucket object versionID reads = filter (\<lambda>i.
     case gd_FastOpenPart (the (disks ! fr_diskIndex (reads ! i))) bucket object
        \<lparr>rq_Version = fastOpenFrameVersion, rq_VersionID = versionID, rq_PartNumber = 1, rq_Offset = 0, rq_Length = -1, rq_Flags = 0\<rparr> of
       Inl err \<Rightarrow> False
     | Inr rc \<Rightarrow> True) [0..<length reads]"

definition closed_at_open :: "fastOpenGETRead list \<Rightarrow> nat list" where
  "closed_at_open reads = filter (\<lambda>i. fr_closed (reads ! i)) [0..<length reads]"

lemma mset_filter_either:
  assumes "\<And>x. x \<in> set xs \<Longrightarrow> R x = (P x \<or> Q x)" and "\<And>x. x \<in> set xs \<Longrightarrow> \<not> (P x \<and> Q x)"
  shows "mset (filter P xs) + mset (filter Q xs) = mset (filter R xs)"
  using assms by (induction xs) auto

lemma opened_or_closed:
  "mset (open_streams (map (read_of E disks b ob v) ds)) + mset (closed_at_open (map (read_of E disks b ob v) ds))
    = mset (opened_streams disks b ob v (map (read_of E disks b ob v) ds))"
  unfolding open_streams_def closed_at_open_def opened_streams_def
  by (rule mset_filter_either)
    (auto simp: read_of_def openFastOpenGETRead_def openFastOpenGETReadAt_def Let_def split: sum.splits prod.splits)

text \<open>C23: whatever the outcome, each stream that a drive has opened (in either wave, on whatever drive) is closed exactly once - at
  once, if no frame can be read from it, or later - or owned by exactly one of the readers that are returned, and never both; without
  success no reader is returned.\<close>

theorem fast_get_streams_accounted:
  assumes "openFastOpenGETInfo E canceled spread n dflt bucket object versionID disks = Inr res"
  shows "mset (held (gi_readers (ir_info res)) @ ir_closed res @ closed_at_open (ir_reads res))
      = mset (opened_streams disks bucket object versionID (ir_reads res))
    \<and> (ir_outcome res \<noteq> fastOpenGETSuccess \<longrightarrow> gi_readers (ir_info res) = [])"
proof -
  have "mset (held (gi_readers (ir_info res)) @ ir_closed res) = mset (open_streams (ir_reads res))
      \<and> (ir_outcome res \<noteq> fastOpenGETSuccess \<longrightarrow> gi_readers (ir_info res) = [])
      \<and> (\<exists>ds. ir_reads res = map (read_of E disks bucket object versionID) ds)"
    using assms
  proof (cases rule: openInfo_cases)
    case nothing
    then show ?thesis by (simp add: settle_def fastOpenGETInfo0_def held_def open_streams_def closed_except_nil)
  next
    case (picked ds a)
    obtain info ok err closed where a: "a = (info, ok, err, closed)" by (cases a) auto
    from pick_accounts[OF picked(3)[unfolded a]] show ?thesis
      unfolding picked(4) a settle_def closed_except_nil
      by (auto simp: fastOpenGETInfo0_def held_def split: if_splits)
  qed
  then show ?thesis using opened_or_closed by (metis (no_types, lifting) append_assoc mset_append)
qed

section \<open>What is served\<close>

text \<open>What is left of the drives' metadata agrees with the version and was answered by the drive.\<close>

lemma pick_version_metas:
  assumes "pick_version E canceled n dflt bucket object disks reads = Inr (fi, ms, ds)" and "d < length ms" and "IsValid (ms ! d)"
  shows "ErasureInfo_Equal (fi_Erasure (ms ! d)) (fi_Erasure fi)
    \<and> (\<exists>r \<in> set reads. fr_diskIndex r = d \<and> answered E bucket object r (ms ! d))"
proof -
  obtain metaArr errs disks' modTime etag where
      f: "fill_arrays E bucket object reads (replicate n FileInfo0, replicate n (Some ErrDiskOngoingReq)) = Some (metaArr, errs)"
    and ms: "ms = kept_metas fi modTime etag (online_metas disks' metaArr)"
    using assms(1) unfolding pick_version_def Let_def
    by (auto split: option.splits prod.splits sum.splits)
  have "arrays_inv E bucket object (set reads) (replicate n FileInfo0, replicate n (Some ErrDiskOngoingReq))"
    by (simp add: arrays_inv_def)
  from fill_arrays_inv[OF f this] have arr: "\<And>i. i < length metaArr \<Longrightarrow> metaArr ! i = FileInfo0
      \<or> (\<exists>r \<in> set reads. fr_diskIndex r = i \<and> answered E bucket object r (metaArr ! i))"
    by (auto simp: arrays_inv_def)
  have d: "d < length metaArr" "d < length disks'" using assms(2) ms by (simp_all add: kept_metas_def online_metas_def)
  then have at: "ms ! d = metaArr ! d" "keeps fi modTime etag (metaArr ! d)"
    using assms(3) FileInfo0_invalid unfolding ms by (auto simp: kept_metas_def online_metas_def split: if_splits)
  then show ?thesis using arr[OF d(1)] assms(3) FileInfo0_invalid by (auto simp: keeps_def)
qed

lemma settle_success:
  assumes "res = settle reads (info, ok, err, closed)" and "ir_outcome res = fastOpenGETSuccess"
  shows "ok" "err = None" "ir_info res = info" "ir_reads res = reads"
  using assms by (auto simp: settle_def split: if_splits)

text \<open>The answer that a drive gave when it was asked.\<close>

definition answer_of ::
  "get_env \<Rightarrow> get_disk option list \<Rightarrow> string \<Rightarrow> string \<Rightarrow> string \<Rightarrow> nat \<Rightarrow> FileInfo \<Rightarrow> bool" where
  "answer_of E disks bucket object versionID d m \<longleftrightarrow>
     d < length disks \<and> online disks d \<and> answered E bucket object (read_of E disks bucket object versionID d) m"

lemma read_of_index [simp]: "fr_diskIndex (read_of E disks b ob v d) = d"
  by (auto simp: read_of_def openFastOpenGETRead_def openFastOpenGETReadAt_def Let_def split: sum.splits prod.splits)

lemma answered_unique: "answered E b ob r m \<Longrightarrow> answered E b ob r m' \<Longrightarrow> m = m'"
  by (simp add: answered_def)

lemma supporters_answers:
  assumes "set ds \<subseteq> {d. d < length disks \<and> online disks d}"
  shows "supporters E b ob (map (read_of E disks b ob v) ds) t e c
    \<subseteq> {d. \<exists>m. answer_of E disks b ob v d m \<and> meta_selected t e m
          \<and> ge_sha E (meta_text (ge_clock E) m) = ge_sha E (meta_text (ge_clock E) c)}"
  using assms by (auto simp: supporters_def answer_of_def)

text \<open>C20: a version is served only if as many online drives as the read quorum, asked for this very object, answered with
  metadata of the same digest, of which one is the version that is returned (its successor time and
  version count may be those that a quorum agrees on); the quorum is the one that
  \<open>objectQuorumFromMeta\<close> derives from these answers.\<close>

theorem fast_get_version_has_quorum:
  assumes "env_ok E" and "openFastOpenGETInfo E canceled spread n dflt bucket object versionID disks = Inr res"
    and "ir_outcome res = fastOpenGETSuccess"
  shows "\<exists>q modTime etag c d. 1 \<le> q \<and> answer_of E disks bucket object versionID d c \<and> meta_selected modTime etag c
    \<and> up_to_successor (gi_fi (ir_info res)) c
    \<and> q \<le> int (card {d. \<exists>m. answer_of E disks bucket object versionID d m \<and> meta_selected modTime etag m
          \<and> ge_sha E (meta_text (ge_clock E) m) = ge_sha E (meta_text (ge_clock E) c)})
    \<and> (\<exists>metaArr errs w. fill_arrays E bucket object (ir_reads res) (replicate n FileInfo0, replicate n (Some ErrDiskOngoingReq))
            = Some (metaArr, errs)
          \<and> objectQuorumFromMeta (ge_errs_order1 E) (ge_parity_order E) canceled metaArr errs (int dflt) = ((q, w), None))"
  using assms(2)
proof (cases rule: openInfo_cases)
  case nothing
  then show ?thesis using assms(3) by (simp add: settle_def)
next
  case (picked ds a)
  let ?reads = "map (read_of E disks bucket object versionID) ds"
  obtain info ok err closed where a: "a = (info, ok, err, closed)" by (cases a) auto
  note s = settle_success[OF picked(4)[unfolded a] assms(3)]
  obtain fi ms ds' where v: "pick_version E canceled n (int dflt) bucket object disks ?reads = Inr (fi, ms, ds')"
      and fi: "gi_fi info = fi"
    using picked(3)[unfolded a] s(1,2) by (cases rule: pick_cases) (auto simp: fastOpenGETInfo0_def)
  from pick_version_quorum[OF assms(1) v] obtain q modTime etag c r where q: "1 \<le> q" "r \<in> set ?reads"
      "answered E bucket object r c" "meta_selected modTime etag c" "up_to_successor fi c"
      "q \<le> int (card (supporters E bucket object ?reads modTime etag c))"
      "\<exists>metaArr errs w. fill_arrays E bucket object ?reads (replicate n FileInfo0, replicate n (Some ErrDiskOngoingReq)) = Some (metaArr, errs)
      \<and> objectQuorumFromMeta (ge_errs_order1 E) (ge_parity_order E) canceled metaArr errs (int dflt) = ((q, w), None)" .
  let ?A = "{d. \<exists>m. answer_of E disks bucket object versionID d m \<and> meta_selected modTime etag m
          \<and> ge_sha E (meta_text (ge_clock E) m) = ge_sha E (meta_text (ge_clock E) c)}"
  have "finite ?A" by (rule finite_subset[of _ "{..<length disks}"]) (auto simp: answer_of_def)
  then have "card (supporters E bucket object ?reads modTime etag c) \<le> card ?A"
    using supporters_answers[OF picked(2)] by (rule card_mono)
  then have "q \<le> int (card ?A)" using q(6) by simp
  moreover obtain d where "answer_of E disks bucket object versionID d c"
    using q(2,3) picked(2) by (auto simp: answer_of_def)
  ultimately show ?thesis unfolding s(3,4) fi
    by (intro exI[of _ q] exI[of _ modTime] exI[of _ etag] exI[of _ c] exI[of _ d] conjI q(1,4,5,7))
qed

text \<open>C21: the readers of a version with a body are at least as many as its data blocks, and a reader on an open stream
  stands at the place that the version's distribution gives to its drive; that drive answered a
  version with the same erasure layout and claims the place itself, so the decoder never takes a
  shard for another one. The other places are filled by lazy readers of the same pool, or left empty.\<close>

theorem fast_get_readers_bound:
  assumes "openFastOpenGETInfo E canceled spread n dflt bucket object versionID disks = Inr res"
    and "ir_outcome res = fastOpenGETSuccess" and "fi = gi_fi (ir_info res)"
    and "\<not> fi_Deleted fi" and "fi_Size fi \<noteq> 0" and "\<not> FileInfo_IsRemote (ge_clock E) fi"
  shows "length (gi_readers (ir_info res)) = length (elems (ei_Distribution (fi_Erasure fi)))
    \<and> ei_DataBlocks (fi_Erasure fi) \<le> int (fastOpenReaderCount (gi_readers (ir_info res)))
    \<and> (\<forall>k < length (gi_readers (ir_info res)). case gi_readers (ir_info res) ! k of
         None \<Rightarrow> gi_pool (ir_info res) = None
       | Some (Lazy j) \<Rightarrow> j = k \<and> gi_pool (ir_info res) \<noteq> None
       | Some (Direct ri r) \<Rightarrow>
           (\<exists>d m. elems (ei_Distribution (fi_Erasure fi)) ! d = int k + 1 \<and> d < length (elems (ei_Distribution (fi_Erasure fi)))
              \<and> answer_of E disks bucket object versionID d m \<and> ei_Index (fi_Erasure m) = int k + 1
              \<and> ErasureInfo_Equal (fi_Erasure m) (fi_Erasure fi)
              \<and> fr_rc (read_of E disks bucket object versionID d) = Some (fsr_rc r) \<and> fsr_currOffset r = 0
              \<and> fsr_shardSize r = ErasureInfo_ShardSize (fi_Erasure fi) \<and> fsr_algo r = HighwayHash256S
              \<and> ri < length (ir_reads res) \<and> ir_reads res ! ri = read_of E disks bucket object versionID d))"
  using assms(1)
proof (cases rule: openInfo_cases)
  case nothing
  then show ?thesis using assms(2) by (simp add: settle_def)
next
  case (picked ds a)
  let ?reads = "map (read_of E disks bucket object versionID) ds"
  obtain info ok err closed where a: "a = (info, ok, err, closed)" by (cases a) auto
  note s = settle_success[OF picked(4)[unfolded a] assms(2)]
  from picked(3)[unfolded a] show ?thesis
  proof (cases rule: pick_cases)
    case none
    then show ?thesis using s by simp
  next
    case (meta fi' ms ds')
    then show ?thesis using s assms(3-6) by (simp add: fastOpenGETInfo0_def)
  next
    case (body fi' ms ds' rd)
    have fi: "fi' = fi" and rs: "gi_readers (ir_info res) = rd_readers rd" "gi_pool (ir_info res) = rd_pool rd"
      using assms(3) s(3) body(5) by (simp_all add: fastOpenGETInfo0_def)
    let ?n = "length (elems (ei_Distribution (fi_Erasure fi)))"
    note ok = readers_okD[OF body(4) refl, unfolded fi]
    have direct: "\<exists>d m. elems (ei_Distribution (fi_Erasure fi)) ! d = int k + 1 \<and> d < ?n
              \<and> answer_of E disks bucket object versionID d m \<and> ei_Index (fi_Erasure m) = int k + 1
              \<and> ErasureInfo_Equal (fi_Erasure m) (fi_Erasure fi)
              \<and> fr_rc (read_of E disks bucket object versionID d) = Some (fsr_rc r) \<and> fsr_currOffset r = 0
              \<and> fsr_shardSize r = ErasureInfo_ShardSize (fi_Erasure fi) \<and> fsr_algo r = HighwayHash256S
              \<and> ri < length ?reads \<and> ?reads ! ri = read_of E disks bucket object versionID d"
      if "bound_reader fi HighwayHash256S ?reads ms ds' k ri r" for k ri r
    proof -
      let ?d = "fr_diskIndex (?reads ! ri)"
      have b: "ri < length ?reads" "?d < length ms" "?d < ?n" "elems (ei_Distribution (fi_Erasure fi)) ! ?d = int k + 1"
          "ei_Index (fi_Erasure (ms ! ?d)) = int k + 1" "IsValid (ms ! ?d)" "fr_rc (?reads ! ri) = Some (fsr_rc r)"
          "fsr_algo r = HighwayHash256S" "fsr_currOffset r = 0" "fsr_shardSize r = ErasureInfo_ShardSize (fi_Erasure fi)"
        using that unfolding bound_reader_def Let_def by blast+
      have rd: "?reads ! ri = read_of E disks bucket object versionID ?d" and ds: "?d \<in> set ds" using b(1) by simp_all
      from pick_version_metas[OF body(3) b(2,6)] have m: "ErasureInfo_Equal (fi_Erasure (ms ! ?d)) (fi_Erasure fi)"
          "\<exists>r \<in> set ?reads. fr_diskIndex r = ?d \<and> answered E bucket object r (ms ! ?d)"
        unfolding fi by blast+
      have "answer_of E disks bucket object versionID ?d (ms ! ?d)"
        using m(2) ds picked(2) by (auto simp: answer_of_def)
      then show ?thesis using b m(1) rd by metis
    qed
    show ?thesis unfolding rs s(4)
    proof (intro conjI allI impI)
      fix k assume "k < length (rd_readers rd)"
      then have k: "k < ?n" using ok(1) by simp
      show "case rd_readers rd ! k of
         None \<Rightarrow> rd_pool rd = None
       | Some (Lazy j) \<Rightarrow> j = k \<and> rd_pool rd \<noteq> None
       | Some (Direct ri r) \<Rightarrow>
           (\<exists>d m. elems (ei_Distribution (fi_Erasure fi)) ! d = int k + 1 \<and> d < ?n
              \<and> answer_of E disks bucket object versionID d m \<and> ei_Index (fi_Erasure m) = int k + 1
              \<and> ErasureInfo_Equal (fi_Erasure m) (fi_Erasure fi)
              \<and> fr_rc (read_of E disks bucket object versionID d) = Some (fsr_rc r) \<and> fsr_currOffset r = 0
              \<and> fsr_shardSize r = ErasureInfo_ShardSize (fi_Erasure fi) \<and> fsr_algo r = HighwayHash256S
              \<and> ri < length ?reads \<and> ?reads ! ri = read_of E disks bucket object versionID d)"
      proof (cases "rd_readers rd ! k")
        case None
        then show ?thesis using ok(7)[OF k None] by simp
      next
        case (Some x)
        show ?thesis
        proof (cases x)
          case (Direct ri r)
          from direct[OF ok(5)[OF k Some[unfolded Direct]]] show ?thesis unfolding Some Direct by simp
        next
          case (Lazy j)
          from ok(6)[OF k Some[unfolded Lazy]] show ?thesis unfolding Some Lazy by simp
        qed
      qed
    qed (use ok(1,2) in simp_all)
  qed
qed

section \<open>Reading a body stream\<close>

text \<open>The decoder's use of a reader, as for the canonical one.\<close>

fun fsr_ReadAll ::
  "(BitrotAlgorithm \<Rightarrow> byte list \<Rightarrow> byte list) \<Rightarrow> fastOpenStreamingBitrotReader \<Rightarrow> nat list \<Rightarrow> int \<Rightarrow> gerror + byte list list" where
  "fsr_ReadAll H r [] offset = Inr []"
| "fsr_ReadAll H r (n # ns) offset =
     (case fsr_ReadAt H r n offset of
        (r', Inl e) \<Rightarrow> Inl e
      | (r', Inr buf) \<Rightarrow>
          (case fsr_ReadAll H r' ns (offset + int n) of
             Inl e \<Rightarrow> Inl e | Inr bufs \<Rightarrow> Inr (buf # bufs)))"

text \<open>A FastOpen reader and an opened canonical reader in the same place.\<close>

definition same_place :: "nat \<Rightarrow> int \<Rightarrow> fastOpenStreamingBitrotReader \<Rightarrow> streamingBitrotReader \<Rightarrow> bool" where
  "same_place hs s r b \<longleftrightarrow> fsr_shardSize r = s \<and> fsr_hashSize r = hs \<and> fsr_currOffset r = sbr_currOffset b
     \<and> (\<exists>rc. sbr_rc b = Some rc \<and> fsr_rc r = (rc, None))"

lemma ReadFull_bytes:
  "FastOpen_Frame.ReadFull n (rc, None) =
     (case Bitrot.ReadFull rc n of Inl e \<Rightarrow> (Inl e, ([], None)) | Inr (xs, ys) \<Rightarrow> (Inr xs, (ys, None)))"
  by (simp add: FastOpen_Frame.ReadFull_def Bitrot.ReadFull_def)

lemma same_place_ReadAt:
  assumes "same_place hs s r b" and "s \<noteq> 0" and "0 < n"
    and "fsr_ReadAt H r n offset = (r', res)" and "streamingBitrot_ReadAt H (fsr_algo r) hs s RFS b n offset = (b', res')"
  shows "res = res' \<and> (\<forall>buf. res = Inr buf \<longrightarrow> same_place hs s r' b' \<and> fsr_algo r' = fsr_algo r)"
proof -
  obtain rc where rc: "sbr_rc b = Some rc" "fsr_rc r = (rc, None)" using assms(1) by (auto simp: same_place_def)
  have sz: "fsr_shardSize r = s" "fsr_hashSize r = hs" "fsr_currOffset r = sbr_currOffset b"
    using assms(1) by (auto simp: same_place_def)
  show ?thesis
  proof (cases "Bitrot.ReadFull rc hs")
    case (Inl e)
    then show ?thesis using assms(2-5) rc sz
      by (auto simp: fsr_ReadAt_def streamingBitrot_ReadAt_def Let_def ReadFull_bytes bitrot_read_block_def split: if_splits)
  next
    case (Inr hb)
    obtain hashBytes rc1 where hb: "hb = (hashBytes, rc1)" by (cases hb)
    show ?thesis
    proof (cases "Bitrot.ReadFull rc1 n")
      case (Inl e)
      then show ?thesis using assms(2-5) rc sz Inr hb
        by (auto simp: fsr_ReadAt_def streamingBitrot_ReadAt_def Let_def ReadFull_bytes bitrot_read_block_def split: if_splits)
    next
      case blk: (Inr bl)
      obtain buf rc2 where bl: "bl = (buf, rc2)" by (cases bl)
      show ?thesis using assms(2-5) rc sz Inr hb blk bl
        by (auto simp: fsr_ReadAt_def streamingBitrot_ReadAt_def Let_def ReadFull_bytes bitrot_read_block_def
            same_place_def split: if_splits)
    qed
  qed
qed

lemma same_place_ReadAll:
  assumes "same_place hs s r b" and "s \<noteq> 0" and "\<forall>n \<in> set ns. 0 < n"
  shows "fsr_ReadAll H r ns offset = streamingBitrot_ReadAll H (fsr_algo r) hs s RFS b ns offset"
  using assms(1,3)
proof (induction ns arbitrary: r b offset)
  case Nil
  then show ?case by simp
next
  case (Cons n ns)
  obtain r' res b' res' where rd: "fsr_ReadAt H r n offset = (r', res)"
      "streamingBitrot_ReadAt H (fsr_algo r) hs s RFS b n offset = (b', res')" by fastforce
  have n: "0 < n" using Cons.prems(2) by simp
  note st = same_place_ReadAt[OF Cons.prems(1) assms(2) n rd]
  show ?case
  proof (cases res)
    case (Inl e)
    then show ?thesis using rd st by simp
  next
    case (Inr buf)
    then have "same_place hs s r' b'" "fsr_algo r' = fsr_algo r" using st by auto
    then show ?thesis using Cons.IH[of r' b'] Cons.prems(2) rd st Inr by simp
  qed
qed

lemma opened_same_place:
  assumes "0 < s" and "ns \<noteq> []" and "\<forall>n \<in> set ns. 0 < n" and "k * (hs + s) \<le> length file"
    and "sbr_data b = []" "sbr_rc b = None" "sbr_tillOffset b = int (length file)"
    and "fsr_rc r = (drop (k * (hs + s)) file, None)" "fsr_shardSize r = int s" "fsr_currOffset r = int k * int s" "fsr_hashSize r = hs"
  shows "fsr_ReadAll H r ns (int k * int s)
    = streamingBitrot_ReadAll H (fsr_algo r) hs (int s) (disk_stream file) b ns (int k * int s)"
proof -
  obtain n ns' where ns: "ns = n # ns'" using assms(2) by (cases ns) auto
  let ?pos = "int (k * (hs + s))"
  let ?b = "b\<lparr>sbr_rc := Some (take (nat (sbr_tillOffset b - ?pos)) (drop (nat ?pos) file)), sbr_currOffset := int k * int s\<rparr>"
  have rc: "take (nat (sbr_tillOffset b - ?pos)) (drop (nat ?pos) file) = drop (k * (hs + s)) file"
    unfolding assms(7) take_rest ..
  have "same_place hs (int s) r ?b" using assms(8-11) rc by (simp add: same_place_def)
  from same_place_ReadAll[OF this _ assms(3), of H "int k * int s" "disk_stream file"] assms(1)
  have "fsr_ReadAll H r ns (int k * int s)
    = streamingBitrot_ReadAll H (fsr_algo r) hs (int s) (disk_stream file) ?b ns (int k * int s)" by simp
  then show ?thesis
    unfolding ns using streaming_ReadAt_first[OF assms(1,5,6), where fd = "file" and n = n and k = k and hs = hs and H = H and algo = "fsr_algo r"]
    by simp
qed

section \<open>From the part file of a drive to the decoder\<close>

text \<open>A drive that has the version with its only part in the file \<open>file\<close>, and has no errors of its own.\<close>

definition stores_part ::
  "((string \<times> string) list \<Rightarrow> (string \<times> string) list) \<Rightarrow> clock \<Rightarrow> 'raw node_disk \<Rightarrow> string \<Rightarrow> string \<Rightarrow> string \<Rightarrow> byte list \<Rightarrow> bool" where
  "stores_part ord clk s volume object versionID file \<longleftrightarrow>
     (\<exists>raw fi p meta. nd_ReadXL s volume object = Inr raw \<and> nd_getFileInfo s raw volume object versionID = Inr fi
        \<and> \<not> fi_Deleted fi \<and> fi_Size fi \<noteq> 0 \<and> \<not> FileInfo_IsRemote clk fi \<and> \<not> InlineData clk fi
        \<and> elems (fi_Parts fi) = [p] \<and> pt_Number p = 1
        \<and> fileInfoToFastOpenGETMeta ord (fi\<lparr>fi_Data := None\<rparr>) = Inr meta \<and> getmeta_ok meta
        \<and> nd_StatInfoFile s volume [object, fi_DataDir fi, ''part.1''] = Inr [(int (length file), False)]
        \<and> (\<forall>off len. nd_ReadFileStream s volume [object, fi_DataDir fi, ''part.1''] off len
              = Inr (take (nat len) (drop (nat off) file), None)))"

lemma node_part_stream:
  assumes "msgp_ok M" and "range_order ord" and "stores_part ord clk s volume object versionID file"
    and "is_int64 (int (length file))" and "off \<le> length file"
    and "FastOpenPart M ord clk s volume object
        \<lparr>rq_Version = fastOpenFrameVersion, rq_VersionID = versionID, rq_PartNumber = 1, rq_Offset = int off, rq_Length = -1, rq_Flags = 0\<rparr>
      = Inr stream"
  shows "\<exists>prelude raw fi meta. nd_ReadXL s volume object = Inr raw \<and> nd_getFileInfo s raw volume object versionID = Inr fi
    \<and> fileInfoToFastOpenGETMeta ord (fi\<lparr>fi_Data := None\<rparr>) = Inr meta
    \<and> readFastOpenFrame M stream
      = (Inr (prelude, frame_read ord (version_frame FastOpenStatusOK meta FastOpenBodyShard (int (length file) - int off))),
         (drop off file, None))"
proof -
  let ?req = "\<lparr>rq_Version = fastOpenFrameVersion, rq_VersionID = versionID, rq_PartNumber = 1, rq_Offset = int off, rq_Length = -1, rq_Flags = 0\<rparr>"
  obtain raw fi p meta where v: "nd_ReadXL s volume object = Inr raw" "nd_getFileInfo s raw volume object versionID = Inr fi"
      "\<not> fi_Deleted fi" "fi_Size fi \<noteq> 0" "\<not> FileInfo_IsRemote clk fi" "\<not> InlineData clk fi"
      "elems (fi_Parts fi) = [p]" "pt_Number p = 1"
      and m: "fileInfoToFastOpenGETMeta ord (fi\<lparr>fi_Data := None\<rparr>) = Inr meta" "getmeta_ok meta"
      and f: "nd_StatInfoFile s volume [object, fi_DataDir fi, ''part.1''] = Inr [(int (length file), False)]"
        "\<And>off len. nd_ReadFileStream s volume [object, fi_DataDir fi, ''part.1''] off len
              = Inr (take (nat len) (drop (nat off) file), None)"
    using assms(3) unfolding stores_part_def by blast
  let ?len = "int (length file) - int off"
  let ?frame = "version_frame FastOpenStatusOK meta FastOpenBodyShard ?len"
  have same: "FileInfo_IsRemote clk (fi\<lparr>fi_Data := None\<rparr>) = FileInfo_IsRemote clk fi" "InlineData clk (fi\<lparr>fi_Data := None\<rparr>) = InlineData clk fi"
    by (simp_all add: FileInfo_IsRemote_def InlineData_def)
  have i1: "itoa 1 = ''1''" by (simp add: itoa_def digits.simps[of "Suc 0"] char_of_def bit_0)
  have "take (nat ?len) (drop off file) = drop off file" using assms(5) by (simp flip: of_nat_diff)
  then have d: "nd_ReadFileStream s volume [object, fi_DataDir fi, ''part.1''] (int off) ?len = Inr (drop off file, None)"
    using f(2) by simp
  have a0: "answer_version M ord clk s volume object ?req (fi\<lparr>fi_Data := None\<rparr>) (elems (fi_Data fi))
      (CoalescedMetadataFrame0\<lparr>cf_Status := FastOpenStatusOK, cf_Meta := meta, cf_BodyMode := FastOpenBodyMetadataOnly\<rparr>) = Inr stream"
    using assms(6) v(1,2) m(1) by (simp add: FastOpenPart_def Let_def)
  have a: "answer_version M ord clk s volume object ?req (fi\<lparr>fi_Data := None\<rparr>) (elems (fi_Data fi))
      (version_frame FastOpenStatusOK meta FastOpenBodyMetadataOnly 0) = Inr stream"
    unfolding version_frame_of[symmetric] by (rule a0)
  have "open_part M ord s volume object ?req (fi\<lparr>fi_Data := None\<rparr>) (elems (fi_Data fi))
      (version_frame FastOpenStatusOK meta FastOpenBodyMetadataOnly 0) = Inr stream"
    using a v(3-8) same by (simp add: answer_version_def)
  then have e: "fastOpenFrameWithBody M ord ?frame (Some (drop off file, None)) = Inr stream"
    using assms(5) f(1) d i1 by (simp add: open_part_def Let_def)
  have "is_int64 ?len" using assms(4,5) by (simp add: is_int64_def)
  then have "frame_ok ?frame" using m(2) by (simp add: frame_ok_def)
  from body_stream[OF assms(1,2) this e] show ?thesis using v(1,2) m(1) by auto
qed

text \<open>C22: reading a part of a single-trip GET is reading it the canonical way. The stream that a drive with the part
  file returns for a shard offset holds the file from that block on, and the FastOpen reader on it
  gives the decoder, for every sequence of block lengths, exactly the blocks or the error that the
  canonical streaming bitrot reader gives on that file, whatever the bytes in it.\<close>

theorem fast_open_reads_like_canonical:
  assumes "msgp_ok M" and "range_order ord" and "0 < s" and "0 \<le> till"
    and "stores_part ord clk node volume object versionID file" and "is_int64 (int (length file))"
    and "ceilFrac till (int s) * 32 + till = int (length file)" and "k * (32 + s) \<le> length file"
    and "gd_FastOpenPart disk = FastOpenPart M ord clk node"
    and "read = openFastOpenGETReadAt M disk d volume object versionID (int (k * (32 + s))) (-1)" and "fr_err read = None"
    and "ns \<noteq> []" and "\<forall>n \<in> set ns. 0 < n"
  shows "\<exists>rc r. fr_rc read = Some rc
    \<and> newFastOpenStreamingBitrotReaderAt rc HighwayHash256S (int s) shardFile (int k * int s) = Inr r
    \<and> fsr_ReadAll H r ns (int k * int s)
        = streamingBitrot_ReadAll H HighwayHash256S 32 (int s) (disk_stream file)
            (newStreamingBitrotReader [] till 32 (int s)) ns (int k * int s)"
proof -
  obtain stream where st: "FastOpenPart M ord clk node volume object
        \<lparr>rq_Version = fastOpenFrameVersion, rq_VersionID = versionID, rq_PartNumber = 1, rq_Offset = int (k * (32 + s)),
         rq_Length = -1, rq_Flags = 0\<rparr> = Inr stream"
    using assms(9-11) by (auto simp: openFastOpenGETReadAt_def Let_def split: sum.splits)
  from node_part_stream[OF assms(1,2,5,6,8) st] obtain prelude frame where
    "readFastOpenFrame M stream = (Inr (prelude, frame), (drop (k * (32 + s)) file, None))" by blast
  then have rc: "fr_rc read = Some (drop (k * (32 + s)) file, None)"
    using assms(9,10) st by (simp add: openFastOpenGETReadAt_def Let_def)
  let ?r = "\<lparr>fsr_rc = (drop (k * (32 + s)) file, None), fsr_algo = HighwayHash256S, fsr_shardSize = int s, fsr_shardFile = shardFile,
      fsr_currOffset = int k * int s, fsr_hashSize = 32\<rparr>"
  let ?b = "newStreamingBitrotReader [] till 32 (int s)"
  have b: "sbr_data ?b = []" "sbr_rc ?b = None" "sbr_tillOffset ?b = int (length file)"
    using assms(7) by (simp_all add: newStreamingBitrotReader_def)
  have "fsr_ReadAll H ?r ns (int k * int s)
      = streamingBitrot_ReadAll H (fsr_algo ?r) 32 (int s) (disk_stream file) ?b ns (int k * int s)"
    by (rule opened_same_place[OF assms(3,12,13,8) b]) simp_all
  then show ?thesis using rc by (simp add: newFastOpenStreamingBitrotReaderAt_def bitrot_Size_def)
qed

section \<open>A sample run\<close>

text \<open>Four drives with the version of \<open>FastOpen_Node\<close>, each with a shard at its own place; the first wave asks three.\<close>

definition sample_node_at :: "int \<Rightarrow> unit node_disk" where
  "sample_node_at i = sample_node\<lparr>nd_getFileInfo := (\<lambda>raw volume object versionID.
     if versionID \<in> {[], ''v1''} then Inr (sample_version\<lparr>fi_Erasure := (fi_Erasure sample_version)\<lparr>ei_Index := i\<rparr>\<rparr>)
     else Inl ErrFileVersionNotFound)\<rparr>"

definition sample_getmeta :: "int \<Rightarrow> FastOpenGETMeta" where
  "sample_getmeta i = FastOpenGETMeta0\<lparr>fm_VersionID := ''v1'', fm_ModTimeUnixNano := 1, fm_Size := 5,
     fm_Part := \<lparr>fp_Number = 1, fp_Size = 5, fp_ActualSize = 0\<rparr>,
     fm_Erasure := \<lparr>fe_DataBlocks = 2, fe_ParityBlocks = 2, fe_BlockSize = 8, fe_Index = i, fe_Distribution = Some [1, 2, 3, 4],
       fe_Bitrot = \<lparr>fb_PartNumber = 0, fb_Algorithm = 3, fb_Hash = None\<rparr>\<rparr>\<rparr>"

lemma sample_getmeta_eq:
  "fileInfoToFastOpenGETMeta (\<lambda>xs. xs) ((sample_version\<lparr>fi_Erasure := (fi_Erasure sample_version)\<lparr>ei_Index := i\<rparr>\<rparr>)\<lparr>fi_Data := None\<rparr>)
    = Inr (sample_getmeta i)"
  by (simp add: sample_getmeta_def sample_version_def fileInfoToFastOpenGETMeta_def Let_def FileInfo0_def ErasureInfo0_def ObjectPartInfo0_def
        GetChecksumInfo_def fastOpenBitrotCode_def cloneStringMap_def fastOpenTimeUnixNano_def IsZero_def zero_time_def
        UnixNano_def copy_slice_def frame_zero_defs is_int64_def)

lemma sample_getmeta_ok: "is_int64 i \<Longrightarrow> getmeta_ok (sample_getmeta i)"
  by (simp add: sample_getmeta_def frame_zero_defs getmeta_ok_def transition_ok_def part_ok_def erasure_ok_def bitrot_ok_def strmap_ok_def wf_strmap_def
        short_def is_int64_def)

lemma sample_version_encodes:
  "\<exists>out. encodeFastOpenFrame wide_msgp (\<lambda>xs. xs) (version_frame FastOpenStatusOK (sample_getmeta i) FastOpenBodyShard n) = Inr out"
  using wide_msgp_ok
  by (simp add: sample_getmeta_def frame_zero_defs encodeFastOpenFrame_def marshalCoalescedMetadataFrame_def
      status_valid_def mode_valid_def FastOpenStatusOK_def FastOpenBodyShard_def Let_def append_enc fastOpenFrameMaxHeaderLen_def
      getmeta_append[of _ _ "_ @ _"] transition_append part_append erasure_append bitrot_append
      appendStringMap_def append_pairs_enc enc_pairs_def appendBytesOrNil_def appendIntSlice_def
      enc_hdr_def enc_str_def enc_u8_def enc_i64_def enc_int_def enc_bool_def enc_nil_def wide_msgp_def wide_def)

lemma sample_node_stores:
  assumes "is_int64 i" and "vid \<in> {[], ''v1''}"
  shows "stores_part (\<lambda>xs. xs) sample_clock (sample_node_at i) ''b'' ''o'' vid sample_part_file"
  unfolding stores_part_def
proof (intro exI conjI)
  let ?fi = "sample_version\<lparr>fi_Erasure := (fi_Erasure sample_version)\<lparr>ei_Index := i\<rparr>\<rparr>"
  show "nd_ReadXL (sample_node_at i) ''b'' ''o'' = Inr ()" by (simp add: sample_node_at_def sample_node_def)
  show "nd_getFileInfo (sample_node_at i) () ''b'' ''o'' vid = Inr ?fi" using assms(2) by (auto simp: sample_node_at_def)
  show "fileInfoToFastOpenGETMeta (\<lambda>xs. xs) (?fi\<lparr>fi_Data := None\<rparr>) = Inr (sample_getmeta i)" by (rule sample_getmeta_eq)
  show "getmeta_ok (sample_getmeta i)" using assms(1) by (rule sample_getmeta_ok)
  show "elems (fi_Parts ?fi) = [ObjectPartInfo0\<lparr>pt_Number := 1, pt_Size := 5\<rparr>]" by (simp add: sample_version_def)
  show "\<forall>off len. nd_ReadFileStream (sample_node_at i) ''b'' [''o'', fi_DataDir ?fi, ''part.1''] off len
              = Inr (take (nat len) (drop (nat off) sample_part_file), None)"
    by (simp add: sample_node_at_def sample_node_def)
qed (simp_all add: sample_version_def sample_node_at_def sample_node_def FileInfo_IsRemote_def InlineData_def FileInfo0_def
   TransitionComplete_def ObjectPartInfo0_def mhas_def mget_def)

definition sample_drive :: "int \<Rightarrow> get_disk" where
  "sample_drive i = \<lparr>gd_IsOnline = True, gd_IsLocal = True,
     gd_FastOpenPart = FastOpenPart wide_msgp (\<lambda>xs. xs) sample_clock (sample_node_at i)\<rparr>"

definition sample_drives :: "get_disk option list" where
  "sample_drives = [Some (sample_drive 1), Some (sample_drive 2), Some (sample_drive 3), Some (sample_drive 4)]"

definition sample_env :: get_env where
  "sample_env = \<lparr>ge_msgp = wide_msgp, ge_clock = sample_clock, ge_sha = Cons CHR ''h'', ge_xxhash = length,
     ge_replState = (\<lambda>m. ReplicationState0), ge_meta_order = (\<lambda>xs. xs), ge_errs_order1 = (\<lambda>xs. xs), ge_errs_order2 = (\<lambda>xs. xs),
     ge_parity_order = (\<lambda>xs. xs), ge_times_order = (\<lambda>xs. xs), ge_names_order = (\<lambda>xs. xs), ge_hash_order = (\<lambda>xs. xs),
     ge_props_order = (\<lambda>xs. xs)\<rparr>"

lemma sample_env_ok: "env_ok sample_env"
  by (simp add: env_ok_def sample_env_def)

definition sample_read :: "nat \<Rightarrow> fastOpenGETRead" where
  "sample_read d = \<lparr>fr_diskIndex = d, fr_rc = Some (sample_part_file, None),
     fr_frame = frame_read (\<lambda>xs. xs) (version_frame FastOpenStatusOK (sample_getmeta (int d + 1)) FastOpenBodyShard 35), fr_err = None, fr_closed = False\<rparr>"

lemma sample_drive_stream:
  "\<exists>stream. FastOpenPart wide_msgp (\<lambda>xs. xs) sample_clock (sample_node_at i) ''b'' ''o'' (sample_request [] 0) = Inr stream"
proof -
  let ?fi = "sample_version\<lparr>fi_Erasure := (fi_Erasure sample_version)\<lparr>ei_Index := i\<rparr>\<rparr>"
  obtain out where out: "encodeFastOpenFrame wide_msgp (\<lambda>xs. xs) (version_frame FastOpenStatusOK (sample_getmeta i) FastOpenBodyShard 35) = Inr out"
    using sample_version_encodes by blast
  have i1: "itoa 1 = ''1''" by (simp add: itoa_def digits.simps[of "Suc 0"] char_of_def bit_0)
  have v: "sample_version\<lparr>fi_Erasure := (fi_Erasure sample_version)\<lparr>ei_Index := i\<rparr>, fi_Data := None\<rparr> = ?fi\<lparr>fi_Data := None\<rparr>" by simp
  have a: "answer_version wide_msgp (\<lambda>xs. xs) sample_clock (sample_node_at i) ''b'' ''o'' (sample_request [] 0) (?fi\<lparr>fi_Data := None\<rparr>) []
      (version_frame FastOpenStatusOK (sample_getmeta i) FastOpenBodyMetadataOnly 0) = Inr (out @ sample_part_file, None)"
    using out i1
    by (simp add: answer_version_def sample_request_def sample_version_def sample_node_at_def sample_node_def FileInfo_IsRemote_def InlineData_def
        FileInfo0_def TransitionComplete_def ObjectPartInfo0_def mhas_def mget_def open_part_def Let_def sample_part_file_length
        fastOpenFrameWithBody_def)
  have "answer_version wide_msgp (\<lambda>xs. xs) sample_clock (sample_node_at i) ''b'' ''o'' (sample_request [] 0) (?fi\<lparr>fi_Data := None\<rparr>) []
      (CoalescedMetadataFrame0\<lparr>cf_Status := FastOpenStatusOK, cf_Meta := sample_getmeta i, cf_BodyMode := FastOpenBodyMetadataOnly\<rparr>)
      = Inr (out @ sample_part_file, None)"
    using a unfolding version_frame_of[symmetric] .
  moreover have "nd_ReadXL (sample_node_at i) ''b'' ''o'' = Inr ()" "nd_getFileInfo (sample_node_at i) () ''b'' ''o'' [] = Inr ?fi"
    by (simp_all add: sample_node_at_def sample_node_def)
  moreover have "elems (fi_Data ?fi) = []" by (simp add: sample_version_def FileInfo0_def)
  moreover note sample_getmeta_eq[of i]
  ultimately have "FastOpenPart wide_msgp (\<lambda>xs. xs) sample_clock (sample_node_at i) ''b'' ''o'' (sample_request [] 0) = Inr (out @ sample_part_file, None)"
    by (simp add: FastOpenPart_def sample_request_def Let_def)
  then show ?thesis by blast
qed

lemma sample_read_of:
  assumes "d < 4"
  shows "read_of sample_env sample_drives ''b'' ''o'' [] d = sample_read d"
proof -
  let ?i = "int d + 1"
  have i: "is_int64 ?i" using assms by (simp add: is_int64_def)
  have drive: "the (sample_drives ! d) = sample_drive ?i"
  proof -
    have "d = 0 \<or> d = 1 \<or> d = 2 \<or> d = 3" using assms by auto
    then show ?thesis by (auto simp: sample_drives_def)
  qed
  obtain stream where st: "FastOpenPart wide_msgp (\<lambda>xs. xs) sample_clock (sample_node_at ?i) ''b'' ''o'' (sample_request [] 0) = Inr stream"
    using sample_drive_stream by blast
  have sz: "is_int64 (int (length sample_part_file))" by (simp add: sample_part_file_length is_int64_def)
  have stores: "stores_part (\<lambda>xs. xs) sample_clock (sample_node_at ?i) ''b'' ''o'' [] sample_part_file"
    using sample_node_stores[OF i] by simp
  have st0: "FastOpenPart wide_msgp (\<lambda>xs. xs) sample_clock (sample_node_at ?i) ''b'' ''o'' \<lparr>rq_Version = fastOpenFrameVersion,
      rq_VersionID = [], rq_PartNumber = 1, rq_Offset = int 0, rq_Length = -1, rq_Flags = 0\<rparr> = Inr stream"
    using st by (simp add: sample_request_def)
  obtain prelude raw fi meta where r: "nd_getFileInfo (sample_node_at ?i) raw ''b'' ''o'' [] = Inr fi"
      "fileInfoToFastOpenGETMeta (\<lambda>xs. xs) (fi\<lparr>fi_Data := None\<rparr>) = Inr meta"
      "readFastOpenFrame wide_msgp stream = (Inr (prelude, frame_read (\<lambda>xs. xs) (version_frame FastOpenStatusOK meta FastOpenBodyShard 35)),
         (sample_part_file, None))"
    using node_part_stream[OF wide_msgp_ok range_order_id stores sz _ st0] sample_part_file_length by auto
  have "meta = sample_getmeta ?i" using r(1,2) sample_getmeta_eq[of ?i] by (simp add: sample_node_at_def)
  then show ?thesis
    using r(3) st by (simp add: read_of_def drive openFastOpenGETRead_def openFastOpenGETReadAt_def Let_def sample_env_def sample_drive_def
      sample_read_def sample_request_def)
qed

definition sample_served :: "int \<Rightarrow> FileInfo" where
  "sample_served i = FileInfo0\<lparr>fi_Volume := ''b'', fi_Name := ''o'', fi_VersionID := ''v1'', fi_ModTime := 1, fi_Size := 5,
     fi_Parts := Some [ObjectPartInfo0\<lparr>pt_Number := 1, pt_Size := 5\<rparr>], fi_SuccessorModTime := zero_time,
     fi_Erasure := ErasureInfo0\<lparr>ei_Algorithm := erasureAlgorithm, ei_DataBlocks := 2, ei_ParityBlocks := 2,
       ei_BlockSize := 8, ei_Index := i, ei_Distribution := Some [1, 2, 3, 4],
       ei_Checksums := Some [\<lparr>ck_PartNumber = 0, ck_Algorithm = HighwayHash256S, ck_Hash = None\<rparr>]\<rparr>\<rparr>"

lemma sample_served_eq:
  "fastOpenGETMetaToFileInfo (\<lambda>xs. xs) (\<lambda>m. ReplicationState0) ''b'' ''o'' FastOpenStatusOK (getmeta_read (\<lambda>xs. xs) (sample_getmeta i))
    = Inr (sample_served i)"
  by (simp add: fastOpenGETMetaToFileInfo_def sample_getmeta_def sample_served_def getmeta_read_def erasure_read_def frame_zero_defs
      status_valid_def FastOpenStatusOK_def FastOpenStatusDeleteMarker_def Let_def fe_hasData_def fastOpenBitrotAlgorithm_def cloneStringMap_def copy_slice_def fastOpenUnixNanoTime_def
      FileInfo0_def ObjectPartInfo0_def ErasureInfo0_def bitrot_read_def Unix0_def)

lemma sample_selected: "selectFastOpenGETDisks hash False sample_drives (fastOpenInitialOpenCount 4 2) b ob = [0, 1, 2]"
  by (simp add: selectFastOpenGETDisks_def candidates_of_def online_def sample_drives_def sample_drive_def Let_def
        fastOpenInitialOpenCount_def upt_rec numeral_3_eq_3)

lemma sample_first_wave:
  "openFastOpenGETReads (ge_msgp sample_env) sample_drives [0, 1, 2] ''b'' ''o'' [] = [sample_read 0, sample_read 1, sample_read 2]"
  using sample_read_of[of 0] sample_read_of[of 1] sample_read_of[of 2] by (simp add: openFastOpenGETReads_def read_of_def)

lemma sample_servedll:
  "fill_arrays sample_env ''b'' ''o'' [sample_read 0, sample_read 1, sample_read 2]
      (replicate 4 FileInfo0, replicate 4 (Some ErrDiskOngoingReq))
    = Some ([sample_served 1, sample_served 2, sample_served 3, FileInfo0], [None, None, None, Some ErrDiskOngoingReq])"
  using sample_served_eq by (simp add: sample_read_def Let_def sample_env_def numeral_eq_Suc)

lemma sample_served_valid: "i \<in> {1, 2, 3} \<Longrightarrow> IsValid (sample_served i)"
  by (auto simp: sample_served_def IsValid_def Let_def FileInfo0_def ErasureInfo0_def)

lemma sample_served_fields [simp]:
  "fi_Deleted (sample_served i) = False" "fi_Size (sample_served i) = 5" "fi_ModTime (sample_served i) = 1"
  "ei_ParityBlocks (fi_Erasure (sample_served i)) = 2" "fi_TransitionStatus (sample_served i) = []"
  "fi_SuccessorModTime (sample_served i) = zero_time" "fi_NumVersions (sample_served i) = 0" "fi_XLV1 (sample_served i) = False"
  "ei_Index (fi_Erasure (sample_served i)) = i"
  by (simp_all add: sample_served_def FileInfo0_def)

lemma sample_quorum:
  "objectQuorumFromMeta (\<lambda>xs. xs) (\<lambda>xs. xs) False [sample_served 1, sample_served 2, sample_served 3, FileInfo0]
     [None, None, None, Some ErrDiskOngoingReq] 2 = ((2, 3), None)"
  using sample_served_valid
  by (simp add: objectQuorumFromMeta_def reduceReadQuorumErrs_def reduceQuorumErrs_def reduceErrs_def tally_def bump_def
      IsErrIgnored_def objectOpIgnoredErrs_def baseErrs_def Let_def listObjectParities_def object_parity_def commonParity_def
      TransitionComplete_def)

lemma sample_no_error:
  "reduceReadQuorumErrs (\<lambda>xs. xs) False [None, None, None, Some ErrDiskOngoingReq] objectOpIgnoredErrs 2 = None"
  by (simp add: reduceReadQuorumErrs_def reduceQuorumErrs_def reduceErrs_def tally_def bump_def
      IsErrIgnored_def objectOpIgnoredErrs_def baseErrs_def)

lemma sample_online:
  "listOnlineDisks (\<lambda>xs. xs) (\<lambda>xs. xs) sample_drives [sample_served 1, sample_served 2, sample_served 3, FileInfo0]
     [None, None, None, Some ErrDiskOngoingReq] 2
   = ([Some (sample_drive 1), Some (sample_drive 2), Some (sample_drive 3), None], 1, [])"
  using sample_served_valid FileInfo0_invalid
  by (simp add: listOnlineDisks_def listObjectModtimes_def bootModtimes_def commonTime_def commonTimeAndOccurrence_def
      timeSentinel_def IsZero_def zero_time_def Let_def UnixNano_def Unix0_def bump_def sample_drives_def numeral_eq_Suc is_int64_def)

lemma sample_text: "meta_text sample_clock (sample_served i) = meta_text sample_clock (sample_served 1)"
  by (simp add: meta_text_def sample_served_def FileInfo0_def ErasureInfo0_def IsCompressed_def mgetd_def mhas_def mget_def)

lemma sample_pick:
  "findFileInfoInQuorum sample_clock (Cons CHR ''h'') (\<lambda>xs. xs) (\<lambda>xs. xs) [sample_served 1, sample_served 2, sample_served 3, FileInfo0] 1 [] 2
    = Inr (sample_served 1\<lparr>fi_SuccessorModTime := zero_time, fi_IsLatest := True, fi_NumVersions := 0\<rparr>)"
proof -
  have h: "meta_hash sample_clock (Cons CHR ''h'') 1 [] (sample_served i) = CHR ''h'' # meta_text sample_clock (sample_served 1)" if "i \<in> {1, 2, 3}" for i
    using sample_served_valid[OF that] sample_text[of i] by (simp add: meta_hash_def meta_selected_def)
  have "meta_hash sample_clock (Cons CHR ''h'') 1 [] FileInfo0 = []"
    using FileInfo0_invalid by (simp add: meta_hash_def meta_selected_def)
  then show ?thesis using h[of 1] h[of 2] h[of 3] sample_served_valid FileInfo0_invalid
    by (simp add: findFileInfoInQuorum_def tally_def bump_def Let_def IsZero_def)
qed

definition sample_winner :: FileInfo where
  "sample_winner = sample_served 1\<lparr>fi_SuccessorModTime := zero_time, fi_IsLatest := True, fi_NumVersions := 0\<rparr>"

lemma sample_keeps: "i \<in> {1, 2, 3} \<Longrightarrow> keeps sample_winner 1 [] (sample_served i)"
proof -
  assume i: "i \<in> {1, 2, 3}"
  have "ErasureInfo_Equal (fi_Erasure (sample_served i)) (fi_Erasure sample_winner)"
    by (simp add: sample_winner_def sample_served_def ErasureInfo_Equal_def)
  then show ?thesis using sample_served_valid[OF i] by (simp add: keeps_def IsZero_def zero_time_def timeSentinel_def)
qed

lemma sample_pick_version:
  "pick_version sample_env False 4 2 ''b'' ''o'' sample_drives [sample_read 0, sample_read 1, sample_read 2]
    = Inr (sample_winner, [sample_served 1, sample_served 2, sample_served 3, FileInfo0],
        [Some (sample_drive 1), Some (sample_drive 2), Some (sample_drive 3), None])"
proof -
  have "kept_metas sample_winner 1 [] (online_metas [Some (sample_drive 1), Some (sample_drive 2), Some (sample_drive 3), None]
      [sample_served 1, sample_served 2, sample_served 3, FileInfo0]) = [sample_served 1, sample_served 2, sample_served 3, FileInfo0]"
    using sample_keeps[of 1] sample_keeps[of 2] sample_keeps[of 3] by (simp add: kept_metas_def online_metas_def)
  moreover have "kept_disks sample_winner 1 [] [sample_served 1, sample_served 2, sample_served 3, FileInfo0]
      [Some (sample_drive 1), Some (sample_drive 2), Some (sample_drive 3), None]
    = [Some (sample_drive 1), Some (sample_drive 2), Some (sample_drive 3), None]"
    using sample_keeps[of 1] sample_keeps[of 2] sample_keeps[of 3] by (simp add: kept_disks_def)
  moreover have "online_metas [Some (sample_drive 1), Some (sample_drive 2), Some (sample_drive 3), None]
      [sample_served 1, sample_served 2, sample_served 3, FileInfo0] = [sample_served 1, sample_served 2, sample_served 3, FileInfo0]"
    by (simp add: online_metas_def)
  moreover have "filterOnlineDisksInplace sample_winner [sample_served 1, sample_served 2, sample_served 3, FileInfo0]
      [Some (sample_drive 1), Some (sample_drive 2), Some (sample_drive 3), None]
    = [Some (sample_drive 1), Some (sample_drive 2), Some (sample_drive 3), None]"
    by (simp add: filterOnlineDisksInplace_def sample_winner_def)
  ultimately show ?thesis
    using sample_servedll sample_quorum sample_no_error sample_online sample_pick
    by (simp add: pick_version_def pickValidFileInfo_def sample_env_def sample_winner_def Let_def)
qed

definition sample_reader :: "fastOpenStreamingBitrotReader" where
  "sample_reader = \<lparr>fsr_rc = (sample_part_file, None), fsr_algo = HighwayHash256S, fsr_shardSize = 4, fsr_shardFile = 3,
     fsr_currOffset = 0, fsr_hashSize = 32\<rparr>"

lemma sample_winner_fields [simp]:
  "elems (ei_Distribution (fi_Erasure sample_winner)) = [1, 2, 3, 4]" "ei_DataBlocks (fi_Erasure sample_winner) = 2"
  "elems (fi_Parts sample_winner) = [ObjectPartInfo0\<lparr>pt_Number := 1, pt_Size := 5\<rparr>]"
  "ErasureInfo_ShardSize (fi_Erasure sample_winner) = 4" "ErasureInfo_ShardFileSize (fi_Erasure sample_winner) 5 = Inr 3"
  "ck_Algorithm (GetChecksumInfo (fi_Erasure sample_winner) 1) = HighwayHash256S"
  "fi_Deleted sample_winner = False" "fi_Size sample_winner = 5" "\<not> FileInfo_IsRemote clk sample_winner"
  by (simp_all add: sample_winner_def sample_served_def ErasureInfo_ShardSize_def ErasureInfo_ShardFileSize_def ErasureInfo0_def
      ceilFrac_nonneg GetChecksumInfo_def FileInfo_IsRemote_def FileInfo0_def TransitionComplete_def)

definition sample_bound :: "nat \<Rightarrow> fastOpenReaders" where
  "sample_bound k = \<lparr>rd_readers = map (\<lambda>i. if i < k then Some (Direct i sample_reader) else None) [0, 1, 2, 3],
     rd_prefer = map (\<lambda>i. i < k) [0, 1, 2, 3], rd_used = rev [0..<k], rd_unavailable = rev [0..<k], rd_hasInline = False, rd_pool = None\<rparr>"

lemma sample_read_fields [simp]:
  "fr_rc (sample_read k) = Some (sample_part_file, None)" "cf_BodyMode (fr_frame (sample_read k)) = FastOpenBodyShard"
  "fr_diskIndex (sample_read k) = k" "fr_err (sample_read k) = None"
  by (simp_all add: sample_read_def)

lemma sample_reader_new:
  "newFastOpenStreamingBitrotReader (sample_part_file, None) 3 4 3 = Inr sample_reader"
  by (simp add: newFastOpenStreamingBitrotReader_def newFastOpenStreamingBitrotReaderAt_def bitrot_Size_def sample_reader_def)

definition sample_reads :: "fastOpenGETRead list" where
  "sample_reads = [sample_read 0, sample_read 1, sample_read 2]"

lemma sample_reads_nth [simp]:
  "length sample_reads = 3" "sample_reads ! 0 = sample_read 0" "sample_reads ! Suc 0 = sample_read 1" "sample_reads ! 2 = sample_read 2"
  "readByDisk sample_reads 0 = Some 0" "readByDisk sample_reads (Suc 0) = Some (Suc 0)" "readByDisk sample_reads 2 = Some 2"
  by (simp_all add: sample_reads_def readByDisk_def upt_rec)

lemma sample_bind:
  assumes "k = 0 \<or> k = 1 \<or> k = 2"
  shows "bind_read sample_winner HighwayHash256S sample_reads
      [sample_served 1, sample_served 2, sample_served 3, FileInfo0] [Some (sample_drive 1), Some (sample_drive 2), Some (sample_drive 3), None] k
      (sample_bound k) = Inr (sample_bound (Suc k))"
  using assms
proof (elim disjE)
  show ?thesis if "k = 0"
    unfolding that bind_read_def Let_def
    using sample_served_valid[of 1] by (simp add: sample_reader_new sample_bound_def)
  show ?thesis if "k = 1"
    unfolding that bind_read_def Let_def
    using sample_served_valid[of 2] by (simp add: sample_reader_new sample_bound_def)
  show ?thesis if "k = 2"
    unfolding that bind_read_def Let_def
    using sample_served_valid[of 3] by (simp add: sample_reader_new sample_bound_def upt_rec)
qed

lemma sample_build:
  "\<exists>rd. buildFastOpenGETReaders ''b'' ''o'' [] sample_winner sample_reads [sample_served 1, sample_served 2, sample_served 3, FileInfo0]
     [Some (sample_drive 1), Some (sample_drive 2), Some (sample_drive 3), None] sample_drives = Inr (Inr rd)"
proof -
  have b: "bind_reads sample_winner HighwayHash256S sample_reads [sample_served 1, sample_served 2, sample_served 3, FileInfo0]
      [Some (sample_drive 1), Some (sample_drive 2), Some (sample_drive 3), None] [0, 1, 2, 3] (sample_bound 0) = Inr (sample_bound 3)"
    using sample_bind[of 0] sample_bind[of 1] sample_bind[of 2] by (simp add: numeral_3_eq_3 numeral_2_eq_2 bind_read_def[of _ _ _ _ _ "Suc (Suc (Suc 0))"])
  have st0: "sample_bound 0 = \<lparr>rd_readers = replicate 4 None, rd_prefer = replicate 4 False, rd_used = [], rd_unavailable = [],
      rd_hasInline = False, rd_pool = None\<rparr>"
    by (simp add: sample_bound_def numeral_eq_Suc)
  have ix: "[0..<length [sample_served 1, sample_served 2, sample_served 3, FileInfo0]] = [0, 1, 2, 3]" by (simp add: upt_rec)
  obtain p where p: "newFastOpenReplacementPool [2, 1, 0] ''b'' ''o'' [] sample_winner HighwayHash256S = Inr p"
    by (simp add: newFastOpenReplacementPool_def Let_def bitrot_Size_def bitrotShardFileSize_def)
  have f: "rd_hasInline (sample_bound 3) = False" "rd_used (sample_bound 3) = [2, 1, 0]" "rd_unavailable (sample_bound 3) = [2, 1, 0]"
      "rd_readers (sample_bound 3) = [Some (Direct 0 sample_reader), Some (Direct 1 sample_reader), Some (Direct 2 sample_reader), None]"
    by (simp_all add: sample_bound_def upt_rec)
  have cand: "fastOpenReplacementCandidates sample_drives [2, 1, 0] = [3]"
    by (simp add: fastOpenReplacementCandidates_def sample_drives_def online_def sample_drive_def upt_rec)
  have cnt: "fastOpenReaderCount (fill_lazy [Some (Direct 0 sample_reader), Some (Direct 1 sample_reader), Some (Direct 2 sample_reader), None]) = 4"
    by (simp add: fastOpenReaderCount_def fill_lazy_def)
  have len: "length (elems (ei_Distribution (fi_Erasure sample_winner))) = 4" by simp
  have algo: "ck_Algorithm (GetChecksumInfo (fi_Erasure sample_winner) 1) = HighwayHash256S" by simp
  show ?thesis
    unfolding buildFastOpenGETReaders_def Let_def ix len algo st0[symmetric] b
    using f cand cnt p by simp
qed

lemma sample_open:
  "\<exists>res. openFastOpenGETInfo sample_env False False 4 2 ''b'' ''o'' [] sample_drives = Inr res
    \<and> ir_outcome res = fastOpenGETSuccess \<and> gi_fi (ir_info res) = sample_winner \<and> ir_reads res = sample_reads"
proof -
  obtain rd where rd: "buildFastOpenGETReaders ''b'' ''o'' [] sample_winner sample_reads
      [sample_served 1, sample_served 2, sample_served 3, FileInfo0]
      [Some (sample_drive 1), Some (sample_drive 2), Some (sample_drive 3), None] sample_drives = Inr (Inr rd)"
    using sample_build by blast
  have sel: "selectFastOpenGETDisks (ge_xxhash sample_env) False sample_drives (fastOpenInitialOpenCount 4 2) ''b'' ''o'' = [0, 1, 2]"
    by (rule sample_selected)
  have reads: "openFastOpenGETReads (ge_msgp sample_env) sample_drives [0, 1, 2] ''b'' ''o'' [] = sample_reads"
    unfolding sample_reads_def by (rule sample_first_wave)
  have remote: "\<not> (fi_Deleted sample_winner \<or> fi_Size sample_winner = 0 \<or> FileInfo_IsRemote (ge_clock sample_env) sample_winner)" by simp
  have v: "pick_version sample_env False 4 2 ''b'' ''o'' sample_drives sample_reads
    = Inr (sample_winner, [sample_served 1, sample_served 2, sample_served 3, FileInfo0],
        [Some (sample_drive 1), Some (sample_drive 2), Some (sample_drive 3), None])"
    unfolding sample_reads_def by (rule sample_pick_version)
  obtain info closed where "pickFastOpenGETInfo sample_env False 4 2 ''b'' ''o'' [] sample_drives sample_reads = Inr (info, True, None, closed)"
      "gi_fi info = sample_winner"
    using rd v remote by (simp add: pickFastOpenGETInfo_def Let_def fastOpenGETInfo0_def)
  then show ?thesis
    unfolding openFastOpenGETInfo_def Let_def sel reads by (simp add: settle_def)
qed

section \<open>Witnesses\<close>

theorem fast_get_streams_accounted_witness:
  "\<exists>res. openFastOpenGETInfo sample_env False False 4 2 ''b'' ''o'' [] sample_drives = Inr res
    \<and> mset (held (gi_readers (ir_info res)) @ ir_closed res @ closed_at_open (ir_reads res)) = {#0, 1, 2#}"
proof -
  obtain res where res: "openFastOpenGETInfo sample_env False False 4 2 ''b'' ''o'' [] sample_drives = Inr res" "ir_reads res = sample_reads"
    using sample_open by blast
  have eq: "map (read_of sample_env sample_drives ''b'' ''o'' []) [0, 1, 2] = sample_reads"
    using sample_read_of[of 0] sample_read_of[of 1] sample_read_of[of 2] by (simp add: sample_reads_def)
  have "mset (opened_streams sample_drives ''b'' ''o'' [] sample_reads) = {#0, 1, 2#}"
    unfolding opened_or_closed[of sample_env sample_drives "''b''" "''o''" "[]" "[0, 1, 2]", unfolded eq, symmetric]
    by (simp add: open_streams_def closed_at_open_def upt_rec sample_reads_def sample_read_def)
  then show ?thesis using fast_get_streams_accounted[OF res(1)] res by auto
qed

theorem fast_get_version_has_quorum_witness:
  "\<exists>res d c. openFastOpenGETInfo sample_env False False 4 2 ''b'' ''o'' [] sample_drives = Inr res
    \<and> answer_of sample_env sample_drives ''b'' ''o'' [] d c \<and> up_to_successor (gi_fi (ir_info res)) c"
proof -
  obtain res where res: "openFastOpenGETInfo sample_env False False 4 2 ''b'' ''o'' [] sample_drives = Inr res"
      "ir_outcome res = fastOpenGETSuccess"
    using sample_open by blast
  show ?thesis using fast_get_version_has_quorum[OF sample_env_ok res] res(1) by blast
qed

theorem fast_get_readers_bound_witness:
  "\<exists>res. openFastOpenGETInfo sample_env False False 4 2 ''b'' ''o'' [] sample_drives = Inr res
    \<and> length (gi_readers (ir_info res)) = 4 \<and> 2 \<le> int (fastOpenReaderCount (gi_readers (ir_info res)))"
proof -
  obtain res where res: "openFastOpenGETInfo sample_env False False 4 2 ''b'' ''o'' [] sample_drives = Inr res"
      "ir_outcome res = fastOpenGETSuccess" and fi: "sample_winner = gi_fi (ir_info res)"
    using sample_open by metis
  have "\<not> fi_Deleted sample_winner" "fi_Size sample_winner \<noteq> 0" "\<not> FileInfo_IsRemote (ge_clock sample_env) sample_winner" by simp_all
  from fast_get_readers_bound[OF res fi this] res(1) show ?thesis by auto
qed

theorem fast_open_reads_like_canonical_witness:
  "\<exists>rc r. fr_rc (openFastOpenGETReadAt wide_msgp (sample_drive 1) 0 ''b'' ''o'' [] 0 (-1)) = Some rc
    \<and> newFastOpenStreamingBitrotReaderAt rc HighwayHash256S 4 3 0 = Inr r
    \<and> fsr_ReadAll length_hash r [3] 0
        = streamingBitrot_ReadAll length_hash HighwayHash256S 32 4 (disk_stream sample_part_file) (newStreamingBitrotReader [] 3 32 4) [3] 0"
proof -
  have sz: "is_int64 (int (length sample_part_file))" by (simp add: sample_part_file_length is_int64_def)
  have st: "stores_part (\<lambda>xs. xs) sample_clock (sample_node_at 1) ''b'' ''o'' [] sample_part_file"
    using sample_node_stores[of 1 "[]"] by (simp add: is_int64_def)
  have till: "ceilFrac 3 (int 4) * 32 + 3 = int (length sample_part_file)" by (simp add: ceilFrac_nonneg sample_part_file_length)
  have disk: "gd_FastOpenPart (sample_drive 1) = FastOpenPart wide_msgp (\<lambda>xs. xs) sample_clock (sample_node_at 1)"
    by (simp add: sample_drive_def)
  have "the (sample_drives ! 0) = sample_drive 1" by (simp add: sample_drives_def)
  then have err: "fr_err (openFastOpenGETReadAt wide_msgp (sample_drive 1) 0 ''b'' ''o'' [] (int (0 * (32 + 4))) (-1)) = None"
    using sample_read_of[of 0] by (simp add: read_of_def openFastOpenGETRead_def sample_env_def)
  show ?thesis
    using fast_open_reads_like_canonical[OF wide_msgp_ok range_order_id _ _ st sz till _ disk refl err, of "[3]" 3 length_hash] by simp
qed

lemma sample_pool:
  "\<exists>p. newFastOpenReplacementPool [2, 1, 0] ''b'' ''o'' [] sample_winner HighwayHash256S = Inr p
    \<and> p = \<lparr>po_slotDisk = [0, 1, 2, 3], po_bucket = ''b'', po_object = ''o'', po_versionID = [], po_fi = sample_winner,
        po_algo = HighwayHash256S, po_shardSize = 4, po_hashSize = 32, po_bodyLen = 35, po_engaged = [2, 1, 0]\<rparr>"
  by (simp add: newFastOpenReplacementPool_def Let_def bitrot_Size_def bitrotShardFileSize_def numeral_eq_Suc ceilFrac_nonneg)

lemma sample_same: "same_version 3 HighwayHash256S (sample_served 4) sample_winner"
proof -
  have "IsValid (sample_served 4)" by (simp add: sample_served_def IsValid_def Let_def FileInfo0_def ErasureInfo0_def)
  moreover have "ErasureInfo_Equal (fi_Erasure (sample_served 4)) (fi_Erasure sample_winner)"
    by (simp add: sample_winner_def sample_served_def ErasureInfo_Equal_def)
  moreover have "elems (fi_Parts (sample_served 4)) = [ObjectPartInfo0\<lparr>pt_Number := 1, pt_Size := 5\<rparr>]" by (simp add: sample_served_def)
  moreover have "ck_Algorithm (GetChecksumInfo (fi_Erasure (sample_served 4)) 1) = HighwayHash256S"
    by (simp add: sample_served_def GetChecksumInfo_def)
  moreover have "fi_VersionID (sample_served 4) = fi_VersionID sample_winner" "fi_ModTime sample_winner = 1"
    by (simp_all add: sample_winner_def sample_served_def)
  ultimately show ?thesis by (simp add: same_version_def IsZero_def zero_time_def timeSentinel_def)
qed

lemma sample_validates:
  assumes "po_bodyLen p = 35" "po_bucket p = ''b''" "po_object p = ''o''" "po_fi p = sample_winner" "po_algo p = HighwayHash256S"
  shows "validateFrame (\<lambda>xs. xs) (\<lambda>m. ReplicationState0) p 3 0 (fr_frame (sample_read 3)) = None"
proof -
  have "validate_version p 3 (sample_served 4) = None" using sample_same assms(4,5) by (simp add: validate_version_None)
  moreover have "cf_Status (fr_frame (sample_read 3)) = FastOpenStatusOK" "cf_BodyLen (fr_frame (sample_read 3)) = 35"
      "cf_Meta (fr_frame (sample_read 3)) = getmeta_read (\<lambda>xs. xs) (sample_getmeta 4)"
    by (simp_all add: sample_read_def)
  ultimately show ?thesis
    using sample_served_eq[of 4] assms(1-3) by (simp add: validateFrame_def validate_body_def)
qed

theorem replacements_sound_witness:
  "\<exists>p p' rc ds. newFastOpenReplacementPool [2, 1, 0] ''b'' ''o'' [] sample_winner HighwayHash256S = Inr p
    \<and> pool_opens wide_msgp (\<lambda>xs. xs) (\<lambda>m. ReplicationState0) sample_drives [(3, 0), (2, 0)] p = (p', [(3, 0, rc)])
    \<and> length ds = 1 \<and> set ds \<inter> {0, 1, 2} = {} \<and> set (po_engaged p') = {0, 1, 2} \<union> set ds"
proof -
  obtain p where p: "newFastOpenReplacementPool [2, 1, 0] ''b'' ''o'' [] sample_winner HighwayHash256S = Inr p"
      "p = \<lparr>po_slotDisk = [0, 1, 2, 3], po_bucket = ''b'', po_object = ''o'', po_versionID = [], po_fi = sample_winner,
        po_algo = HighwayHash256S, po_shardSize = 4, po_hashSize = 32, po_bodyLen = 35, po_engaged = [2, 1, 0]\<rparr>"
    using sample_pool by blast
  have c: "claimSlotDisk sample_drives 3 p = (p\<lparr>po_engaged := [3, 2, 1, 0]\<rparr>, Some (3, sample_drive 4))"
    by (simp add: claimSlotDisk_def p(2) sample_drives_def sample_drive_def)
  have r: "openFastOpenGETReadAt wide_msgp (sample_drive 4) 3 ''b'' ''o'' [] 0 (-1) = sample_read 3"
    using sample_read_of[of 3] by (simp add: read_of_def openFastOpenGETRead_def sample_env_def sample_drives_def)
  have v: "validateFrame (\<lambda>xs. xs) (\<lambda>m. ReplicationState0) (p\<lparr>po_engaged := [3, 2, 1, 0]\<rparr>) 3 0 (fr_frame (sample_read 3)) = None"
    by (rule sample_validates) (simp_all add: p(2))
  have o: "pool_open wide_msgp (\<lambda>xs. xs) (\<lambda>m. ReplicationState0) sample_drives 3 0 p
      = (p\<lparr>po_engaged := [3, 2, 1, 0]\<rparr>, Inr (sample_part_file, None))"
    unfolding pool_open_def c using r v by (simp add: p(2) Let_def)
  have "pool_open wide_msgp (\<lambda>xs. xs) (\<lambda>m. ReplicationState0) sample_drives 2 0 (p\<lparr>po_engaged := [3, 2, 1, 0]\<rparr>)
      = (p\<lparr>po_engaged := [3, 2, 1, 0]\<rparr>, Inl ErrFileNotFound)"
    by (simp add: pool_open_def claimSlotDisk_def p(2) sample_drives_def Let_def)
  with o have run: "pool_opens wide_msgp (\<lambda>xs. xs) (\<lambda>m. ReplicationState0) sample_drives [(3, 0), (2, 0)] p
      = (p\<lparr>po_engaged := [3, 2, 1, 0]\<rparr>, [(3, 0, (sample_part_file, None))])" by simp
  from replacements_sound[OF p(1) run] obtain ds where "length ds = 1" "set ds \<inter> {0, 1, 2} = {}"
      "set (po_engaged (p\<lparr>po_engaged := [3, 2, 1, 0]\<rparr>)) = {0, 1, 2} \<union> set ds"
    by (auto simp: insert_commute)
  then show ?thesis using p(1) run by blast
qed

end
