(* ===== verification/Ring_Buffer.thy ===== *)
theory Ring_Buffer
  imports Go_Errors
begin

text \<open>
  The ring buffer (\<open>internal/ringbuffer/ring_buffer.go\<close>) through which a bitrot writer hands its
  bytes to the drive. A method that holds the mutex is one function of the state; \<open>sync.Cond\<close> is the set of
  goroutines that wait on it, \<open>Broadcast\<close> empties the set, and a goroutine runs on when it is not in it any
  more. A call that waits returns \<open>Wait\<close> with what it still has to do, and the function named
  \<open>_wake\<close> runs it from there to its end or to the next wait.
\<close>

section \<open>State\<close>

datatype rb_error =
    ErrTooMuchDataToWrite | ErrIsFull | ErrIsEmpty | ErrIsNotEmpty | ErrAcquireLock | ErrWriteOnClosed
  | ErrResetCalled | ExtErr gerror

abbreviation EOF :: rb_error where "EOF \<equiv> ExtErr IoEOF"

record RingBuffer =
  rb_buf :: "byte list"
  rb_size :: nat
  rb_r :: nat
  rb_w :: nat
  rb_isFull :: bool
  rb_err :: "rb_error option"
  rb_block :: bool
  rb_wg :: nat
  rb_readCond :: "nat set"
  rb_writeCond :: "nat set"

definition NewBuffer :: "byte list \<Rightarrow> RingBuffer" where
  "NewBuffer b = \<lparr>rb_buf = b, rb_size = length b, rb_r = 0, rb_w = 0, rb_isFull = False, rb_err = None,
     rb_block = False, rb_wg = 0, rb_readCond = {}, rb_writeCond = {}\<rparr>"

definition NewRing :: "nat \<Rightarrow> RingBuffer" where
  "NewRing sz = NewBuffer (replicate sz 0)"

definition SetBlocking :: "bool \<Rightarrow> RingBuffer \<Rightarrow> RingBuffer" where
  "SetBlocking block r = (let r = r\<lparr>rb_block := block\<rparr> in if block then r\<lparr>rb_readCond := {}, rb_writeCond := {}\<rparr> else r)"

definition broadcast_read :: "RingBuffer \<Rightarrow> RingBuffer" where
  [simp]: "broadcast_read r = r\<lparr>rb_readCond := {}\<rparr>"

definition broadcast_write :: "RingBuffer \<Rightarrow> RingBuffer" where
  [simp]: "broadcast_write r = r\<lparr>rb_writeCond := {}\<rparr>"

section \<open>Errors\<close>

definition setErr :: "rb_error option \<Rightarrow> RingBuffer \<Rightarrow> RingBuffer \<times> rb_error option" where
  "setErr err r =
     (if rb_err r \<noteq> None \<and> rb_err r \<noteq> Some EOF then (r, rb_err r)
      else if err \<in> {None, Some ErrIsEmpty, Some ErrIsFull, Some ErrAcquireLock, Some ErrTooMuchDataToWrite,
                     Some ErrIsNotEmpty} then (r, err)
      else let r = r\<lparr>rb_err := err\<rparr>
           in (if rb_block r then broadcast_write (broadcast_read r) else r, err))"

definition readErr :: "RingBuffer \<Rightarrow> rb_error option" where
  "readErr r =
     (case rb_err r of
        None \<Rightarrow> None
      | Some e \<Rightarrow> if e = EOF then (if rb_w r = rb_r r \<and> \<not> rb_isFull r then Some EOF else None) else Some e)"

definition CloseWithError :: "rb_error option \<Rightarrow> RingBuffer \<Rightarrow> RingBuffer" where
  "CloseWithError err r = fst (setErr (case err of None \<Rightarrow> Some EOF | Some e \<Rightarrow> Some e) r)"

definition CloseWriter :: "RingBuffer \<Rightarrow> RingBuffer" where
  "CloseWriter r = fst (setErr (Some EOF) r)"

section \<open>Reading\<close>

text \<open>\<open>read\<close> for a buffer of \<open>np\<close> bytes; the result is what it copied to the front of it.\<close>

definition ring_read :: "nat \<Rightarrow> RingBuffer \<Rightarrow> RingBuffer \<times> byte list \<times> rb_error option" where
  "ring_read np r =
     (if rb_w r = rb_r r \<and> \<not> rb_isFull r then (r, [], Some ErrIsEmpty)
      else if rb_w r > rb_r r then
        let n = min (rb_w r - rb_r r) np
        in (r\<lparr>rb_r := (rb_r r + n) mod rb_size r\<rparr>, take n (drop (rb_r r) (rb_buf r)), None)
      else
        let n = min (rb_size r - rb_r r + rb_w r) np;
            p = (if rb_r r + n \<le> rb_size r then take n (drop (rb_r r) (rb_buf r))
                 else let c1 = rb_size r - rb_r r; c2 = n - c1
                      in take c1 (drop (rb_r r) (rb_buf r)) @ take c2 (rb_buf r));
            r' = r\<lparr>rb_r := (rb_r r + n) mod rb_size r, rb_isFull := False\<rparr>
        in (r', p, readErr r'))"

datatype ('w, 'a) outcome = Done 'a "rb_error option" | Wait 'w

text \<open>\<open>Read\<close>: from the call to \<open>read\<close> to the return or the next wait; \<open>rb_wg\<close> counts the calls under way.\<close>

definition read_turn :: "nat \<Rightarrow> nat \<Rightarrow> RingBuffer \<Rightarrow> RingBuffer \<times> (nat, byte list) outcome" where
  "read_turn g np r =
     (case ring_read np r of
        (r', p, err) \<Rightarrow>
          if err = Some ErrIsEmpty \<and> rb_block r' then (r'\<lparr>rb_writeCond := insert g (rb_writeCond r')\<rparr>, Wait np)
          else ((if rb_block r' \<and> length p > 0 then broadcast_read r' else r')\<lparr>rb_wg := rb_wg r' - 1\<rparr>, Done p err))"

definition ring_Read :: "nat \<Rightarrow> nat \<Rightarrow> RingBuffer \<Rightarrow> RingBuffer \<times> (nat, byte list) outcome" where
  "ring_Read g np r =
     (if np = 0 then (r, Done [] (readErr r))
      else case readErr r of
             Some e \<Rightarrow> (r, Done [] (Some e))
           | None \<Rightarrow> read_turn g np (r\<lparr>rb_wg := Suc (rb_wg r)\<rparr>))"

definition read_wake :: "nat \<Rightarrow> nat \<Rightarrow> RingBuffer \<Rightarrow> RingBuffer \<times> (nat, byte list) outcome" where
  "read_wake g np r =
     (case readErr r of
        Some e \<Rightarrow> (r\<lparr>rb_wg := rb_wg r - 1\<rparr>, Done [] (Some e))
      | None \<Rightarrow> read_turn g np r)"

definition TryRead :: "bool \<Rightarrow> nat \<Rightarrow> RingBuffer \<Rightarrow> RingBuffer \<times> byte list \<times> rb_error option" where
  "TryRead acquired np r =
     (if \<not> acquired then (r, [], Some ErrAcquireLock)
      else case readErr r of
             Some e \<Rightarrow> (r, [], Some e)
           | None \<Rightarrow>
               if np = 0 then (r, [], readErr r)
               else case ring_read np r of
                      (r', p, err) \<Rightarrow> (if rb_block r' \<and> length p > 0 then broadcast_read r' else r', p, err))"

text \<open>\<open>ReadByte\<close> checks the error when it is called and after each wait, before it looks at the buffer
  again, so the call and the wake-up are the same function.\<close>

definition ring_ReadByte :: "nat \<Rightarrow> RingBuffer \<Rightarrow> RingBuffer \<times> (unit, byte) outcome" where
  "ring_ReadByte g r =
     (case readErr r of
        Some e \<Rightarrow> (r, Done 0 (Some e))
      | None \<Rightarrow>
          if rb_w r = rb_r r \<and> \<not> rb_isFull r then
            (if rb_block r then (r\<lparr>rb_writeCond := insert g (rb_writeCond r)\<rparr>, Wait ())
             else (r, Done 0 (Some ErrIsEmpty)))
          else
            let b = rb_buf r ! rb_r r;
                r' = r\<lparr>rb_r := (if Suc (rb_r r) = rb_size r then 0 else Suc (rb_r r)), rb_isFull := False\<rparr>
            in (r', Done b (readErr r')))"

section \<open>Writing\<close>

text \<open>\<open>copy(buf[i:], p)\<close>.\<close>

definition copy_to :: "byte list \<Rightarrow> nat \<Rightarrow> byte list \<Rightarrow> byte list" where
  "copy_to buf i p = take i buf @ take (length buf - i) p @ drop (i + length p) buf"

definition ring_write :: "byte list \<Rightarrow> RingBuffer \<Rightarrow> RingBuffer \<times> nat \<times> rb_error option" where
  "ring_write p r =
     (if rb_isFull r then (r, 0, Some ErrIsFull)
      else
        let avail = (if rb_w r \<ge> rb_r r then rb_size r - rb_w r + rb_r r else rb_r r - rb_w r);
            err = (if length p > avail then Some ErrTooMuchDataToWrite else None);
            p = (if length p > avail then take avail p else p);
            n = length p;
            r = (if rb_w r \<ge> rb_r r then
                   let c1 = rb_size r - rb_w r
                   in if c1 \<ge> n then r\<lparr>rb_buf := copy_to (rb_buf r) (rb_w r) p, rb_w := rb_w r + n\<rparr>
                      else r\<lparr>rb_buf := copy_to (copy_to (rb_buf r) (rb_w r) (take c1 p)) 0 (drop c1 p), rb_w := n - c1\<rparr>
                 else r\<lparr>rb_buf := copy_to (rb_buf r) (rb_w r) p, rb_w := rb_w r + n\<rparr>);
            r = (if rb_w r = rb_size r then r\<lparr>rb_w := 0\<rparr> else r);
            r = (if rb_w r = rb_r r then r\<lparr>rb_isFull := True\<rparr> else r)
        in (r, n, err))"

text \<open>The end of \<open>Write\<close>, one turn of its loop, the call and the wake-up.\<close>

definition write_return :: "nat \<Rightarrow> rb_error option \<Rightarrow> RingBuffer \<Rightarrow> RingBuffer \<times> (byte list \<times> nat, nat) outcome" where
  "write_return wrote err r =
     (case setErr err (if rb_block r \<and> wrote > 0 then broadcast_write r else r) of
        (r', err') \<Rightarrow> (r', Done wrote err'))"

definition write_turn :: "nat \<Rightarrow> byte list \<Rightarrow> nat \<Rightarrow> RingBuffer \<Rightarrow> RingBuffer \<times> (byte list \<times> nat, nat) outcome" where
  "write_turn g p wrote r =
     (case ring_write p r of
        (r1, n, err) \<Rightarrow>
          if \<not> rb_block r1 \<or> err = None then write_return (wrote + n) err r1
          else case setErr err r1 of
                 (r2, err2) \<Rightarrow>
                   if err2 = Some ErrIsFull \<or> err2 = Some ErrTooMuchDataToWrite then
                     (broadcast_write r2\<lparr>rb_readCond := insert g (rb_readCond r2)\<rparr>, Wait (drop n p, wrote + n))
                   else write_return (wrote + n) err2 r2)"

definition closed_err :: "rb_error \<Rightarrow> rb_error" where
  "closed_err e = (if e = EOF then ErrWriteOnClosed else e)"

definition ring_Write :: "nat \<Rightarrow> byte list \<Rightarrow> RingBuffer \<Rightarrow> RingBuffer \<times> (byte list \<times> nat, nat) outcome" where
  "ring_Write g p r =
     (if p = [] then (case setErr None r of (r', e) \<Rightarrow> (r', Done 0 e))
      else case rb_err r of
             Some e \<Rightarrow> (r, Done 0 (Some (closed_err e)))
           | None \<Rightarrow> write_turn g p 0 r)"

definition write_wake :: "nat \<Rightarrow> byte list \<Rightarrow> nat \<Rightarrow> RingBuffer \<Rightarrow> RingBuffer \<times> (byte list \<times> nat, nat) outcome" where
  "write_wake g p wrote r = (if p = [] then write_return wrote None r else write_turn g p wrote r)"

definition TryWrite :: "bool \<Rightarrow> byte list \<Rightarrow> RingBuffer \<Rightarrow> RingBuffer \<times> nat \<times> rb_error option" where
  "TryWrite acquired p r =
     (if p = [] then (case setErr None r of (r', e) \<Rightarrow> (r', 0, e))
      else if \<not> acquired then (r, 0, Some ErrAcquireLock)
      else case rb_err r of
             Some e \<Rightarrow> (r, 0, Some (closed_err e))
           | None \<Rightarrow>
               (case ring_write p r of
                  (r1, n, err) \<Rightarrow>
                    (case setErr err (if rb_block r1 \<and> n > 0 then broadcast_write r1 else r1) of
                       (r2, e) \<Rightarrow> (r2, n, e))))"

definition ring_writeByte :: "byte \<Rightarrow> RingBuffer \<Rightarrow> RingBuffer \<times> rb_error option" where
  "ring_writeByte c r =
     (if rb_w r = rb_r r \<and> rb_isFull r then (r, Some ErrIsFull)
      else
        let r = r\<lparr>rb_buf := (rb_buf r)[rb_w r := c], rb_w := Suc (rb_w r)\<rparr>;
            r = (if rb_w r = rb_size r then r\<lparr>rb_w := 0\<rparr> else r)
        in (if rb_w r = rb_r r then r\<lparr>rb_isFull := True\<rparr> else r, None))"

text \<open>\<open>WriteByte\<close>: after the error of \<open>writeByte\<close>, on the call (\<open>setErr\<close> is not applied to it) or after a wait.\<close>

definition writebyte_return :: "nat \<Rightarrow> byte \<Rightarrow> RingBuffer \<Rightarrow> rb_error option \<Rightarrow> RingBuffer \<times> (byte, unit) outcome" where
  "writebyte_return g c r err =
     (if err = Some ErrIsFull \<and> rb_block r then (r\<lparr>rb_readCond := insert g (rb_readCond r)\<rparr>, Wait c)
      else (if rb_block r \<and> err = None then broadcast_write r else r, Done () err))"

definition ring_WriteByte :: "nat \<Rightarrow> byte \<Rightarrow> RingBuffer \<Rightarrow> RingBuffer \<times> (byte, unit) outcome" where
  "ring_WriteByte g c r =
     (case rb_err r of
        Some e \<Rightarrow> (r, Done () (Some (closed_err e)))
      | None \<Rightarrow> (case ring_writeByte c r of (r', err) \<Rightarrow> writebyte_return g c r' err))"

definition writebyte_wake :: "nat \<Rightarrow> byte \<Rightarrow> RingBuffer \<Rightarrow> RingBuffer \<times> (byte, unit) outcome" where
  "writebyte_wake g c r =
     (case ring_writeByte c r of
        (r1, e) \<Rightarrow> (case setErr e r1 of (r2, err) \<Rightarrow> writebyte_return g c r2 err))"

definition TryWriteByte :: "bool \<Rightarrow> byte \<Rightarrow> RingBuffer \<Rightarrow> RingBuffer \<times> rb_error option" where
  "TryWriteByte acquired c r =
     (if \<not> acquired then (r, Some ErrAcquireLock)
      else case rb_err r of
             Some e \<Rightarrow> (r, Some (closed_err e))
           | None \<Rightarrow>
               (case ring_writeByte c r of
                  (r', err) \<Rightarrow> (if err = None \<and> rb_block r' then broadcast_write r' else r', err)))"

section \<open>Looking at the buffer\<close>

definition ring_Length :: "RingBuffer \<Rightarrow> nat" where
  "ring_Length r =
     (if rb_w r = rb_r r then (if rb_isFull r then rb_size r else 0)
      else if rb_w r > rb_r r then rb_w r - rb_r r
      else rb_size r - rb_r r + rb_w r)"

definition ring_Capacity :: "RingBuffer \<Rightarrow> nat" where
  "ring_Capacity r = rb_size r"

definition ring_Free :: "RingBuffer \<Rightarrow> nat" where
  "ring_Free r =
     (if rb_w r = rb_r r then (if rb_isFull r then 0 else rb_size r)
      else if rb_w r < rb_r r then rb_r r - rb_w r
      else rb_size r - rb_w r + rb_r r)"

definition ring_Bytes :: "RingBuffer \<Rightarrow> byte list" where
  "ring_Bytes r =
     (if rb_w r = rb_r r then
        (if rb_isFull r then drop (rb_r r) (rb_buf r) @ take (rb_w r) (rb_buf r) else [])
      else if rb_w r > rb_r r then take (rb_w r - rb_r r) (drop (rb_r r) (rb_buf r))
      else
        let n = rb_size r - rb_r r + rb_w r
        in if rb_r r + n < rb_size r then take n (drop (rb_r r) (rb_buf r))
           else let c1 = rb_size r - rb_r r; c2 = n - c1
                in take c1 (drop (rb_r r) (rb_buf r)) @ take c2 (rb_buf r))"

definition ring_IsFull :: "RingBuffer \<Rightarrow> bool" where
  "ring_IsFull r = rb_isFull r"

definition ring_IsEmpty :: "RingBuffer \<Rightarrow> bool" where
  "ring_IsEmpty r \<longleftrightarrow> \<not> rb_isFull r \<and> rb_w r = rb_r r"

text \<open>\<open>Flush\<close> looks at the buffer again after each wait. \<open>Reset\<close> wakes everybody with an error, waits until
  no \<open>Read\<close> is under way (\<open>rb_wg\<close>) and clears the buffer.\<close>

definition ring_Flush :: "nat \<Rightarrow> RingBuffer \<Rightarrow> RingBuffer \<times> (unit, unit) outcome" where
  "ring_Flush g r =
     (if rb_w r \<noteq> rb_r r \<or> rb_isFull r then
        (case readErr r of
           Some e \<Rightarrow> (r, Done () (if e = EOF then None else Some e))
         | None \<Rightarrow>
             if \<not> rb_block r then (r, Done () (Some ErrIsNotEmpty))
             else (r\<lparr>rb_readCond := insert g (rb_readCond r)\<rparr>, Wait ()))
      else (r, Done () (if readErr r = Some EOF then None else readErr r)))"

definition reset_begin :: "RingBuffer \<Rightarrow> RingBuffer" where
  "reset_begin r =
     (let r = fst (setErr (Some ErrResetCalled) r)
      in if rb_block r then broadcast_write (broadcast_read r) else r)"

definition reset_end :: "RingBuffer \<Rightarrow> RingBuffer option" where
  "reset_end r =
     (if rb_wg r > 0 then None
      else Some (r\<lparr>rb_r := 0, rb_w := 0, rb_err := None, rb_isFull := False\<rparr>))"

section \<open>The queue in the buffer\<close>

text \<open>The bytes that were written and not read yet, oldest first, and the invariant of the indices.\<close>

definition content :: "RingBuffer \<Rightarrow> byte list" where
  "content r =
     (if rb_w r = rb_r r \<and> \<not> rb_isFull r then []
      else if rb_w r > rb_r r then take (rb_w r - rb_r r) (drop (rb_r r) (rb_buf r))
      else drop (rb_r r) (rb_buf r) @ take (rb_w r) (rb_buf r))"

definition ring_inv :: "RingBuffer \<Rightarrow> bool" where
  "ring_inv r \<longleftrightarrow> 0 < rb_size r \<and> length (rb_buf r) = rb_size r \<and> rb_r r < rb_size r \<and> rb_w r < rb_size r
     \<and> (rb_isFull r \<longrightarrow> rb_w r = rb_r r)"

lemma content_length: "ring_inv r \<Longrightarrow> length (content r) = ring_Length r"
  by (auto simp: content_def ring_inv_def ring_Length_def)

lemma content_bound: "ring_inv r \<Longrightarrow> length (content r) \<le> rb_size r"
  by (auto simp: content_def ring_inv_def)

lemma content_free: "ring_inv r \<Longrightarrow> ring_Free r = rb_size r - length (content r)"
  by (auto simp: content_length ring_Free_def ring_Length_def ring_inv_def)

lemma content_bytes: "ring_inv r \<Longrightarrow> ring_Bytes r = content r"
  by (auto simp: content_def ring_Bytes_def ring_inv_def Let_def)

lemma content_empty: "ring_inv r \<Longrightarrow> content r = [] \<longleftrightarrow> ring_IsEmpty r"
  by (auto simp: content_def ring_IsEmpty_def ring_inv_def)

lemma content_full: "ring_inv r \<Longrightarrow> length (content r) = rb_size r \<longleftrightarrow> ring_IsFull r"
  by (auto simp: content_def ring_IsFull_def ring_inv_def)

text \<open>Changes of the other fields do not matter.\<close>

lemma content_cong [simp]:
  "content (r\<lparr>rb_err := a\<rparr>) = content r" "content (r\<lparr>rb_wg := b\<rparr>) = content r"
  "content (r\<lparr>rb_readCond := c\<rparr>) = content r" "content (r\<lparr>rb_writeCond := c\<rparr>) = content r"
  by (simp_all add: content_def)

lemma ring_inv_cong [simp]:
  "ring_inv (r\<lparr>rb_err := a\<rparr>) = ring_inv r" "ring_inv (r\<lparr>rb_wg := b\<rparr>) = ring_inv r"
  "ring_inv (r\<lparr>rb_readCond := c\<rparr>) = ring_inv r" "ring_inv (r\<lparr>rb_writeCond := c\<rparr>) = ring_inv r"
  by (simp_all add: ring_inv_def)

lemma readErr_cong [simp]:
  "readErr (r\<lparr>rb_wg := b\<rparr>) = readErr r" "readErr (r\<lparr>rb_readCond := c\<rparr>) = readErr r"
  "readErr (r\<lparr>rb_writeCond := c\<rparr>) = readErr r"
  by (auto simp: readErr_def split: option.splits)

lemma new_ring: "0 < length b \<Longrightarrow> ring_inv (SetBlocking blk (NewBuffer b)) \<and> content (SetBlocking blk (NewBuffer b)) = []"
  by (simp add: ring_inv_def content_def SetBlocking_def NewBuffer_def Let_def)

subsection \<open>Reading takes from the front\<close>

text \<open>The fields neither operation touches.\<close>

definition same_rest :: "RingBuffer \<Rightarrow> RingBuffer \<Rightarrow> bool" where
  "same_rest r r' \<longleftrightarrow> rb_size r' = rb_size r \<and> rb_err r' = rb_err r \<and> rb_block r' = rb_block r
     \<and> rb_readCond r' = rb_readCond r \<and> rb_writeCond r' = rb_writeCond r \<and> rb_wg r' = rb_wg r"

lemma index_wraps: "r < s \<Longrightarrow> n \<le> s \<Longrightarrow> (r + n) mod s = (if r + n < s then r + n else r + n - s)" for r n s :: nat
  by (simp add: mod_if)

lemma ring_read_spec:
  assumes "ring_inv r" and "0 < np" and "ring_read np r = (r', p, err)"
  shows "ring_inv r' \<and> same_rest r r' \<and> p = take np (content r) \<and> content r' = drop np (content r)
    \<and> err = (if content r = [] then Some ErrIsEmpty else if rb_w r > rb_r r then None else readErr r')"
proof (cases "rb_w r = rb_r r \<and> \<not> rb_isFull r")
  case True
  then show ?thesis using assms by (auto simp: ring_read_def content_def same_rest_def)
next
  case False
  note i = assms(1)[unfolded ring_inv_def]
  show ?thesis
  proof (cases "rb_w r > rb_r r")
    case True
    let ?n = "min (rb_w r - rb_r r) np"
    have "(rb_r r + ?n) mod rb_size r = rb_r r + ?n" using i True by auto
    then have r': "r' = r\<lparr>rb_r := rb_r r + ?n\<rparr>" and p: "p = take ?n (drop (rb_r r) (rb_buf r))" and e: "err = None"
      using assms(3) True by (simp_all add: ring_read_def Let_def)
    have c: "content r = take (rb_w r - rb_r r) (drop (rb_r r) (rb_buf r))" using True by (simp add: content_def)
    have "content r' = drop np (content r)"
      using i True unfolding c by (auto simp: r' content_def min_def drop_take add.commute)
    moreover have "p = take np (content r)" by (simp add: p c min.commute)
    ultimately show ?thesis using i True e c by (auto simp: r' same_rest_def ring_inv_def)
  next
    case nw: False
    let ?k = "rb_size r - rb_r r"
    let ?n = "min (?k + rb_w r) np"
    have c: "content r = drop (rb_r r) (rb_buf r) @ take (rb_w r) (rb_buf r)"
      using False nw by (auto simp: content_def)
    have n: "?n \<le> rb_size r" "0 < ?n" using i nw assms(2) by auto
    have r': "r' = r\<lparr>rb_r := (rb_r r + ?n) mod rb_size r, rb_isFull := False\<rparr>" and e: "err = readErr r'"
      and p: "p = (if rb_r r + ?n \<le> rb_size r then take ?n (drop (rb_r r) (rb_buf r))
                 else take ?k (drop (rb_r r) (rb_buf r)) @ take (?n - ?k) (rb_buf r))"
      using assms(3) False nw by (auto simp: ring_read_def Let_def)
    have ne: "content r \<noteq> []" using i by (simp add: c)
    show ?thesis
    proof (cases "rb_r r + ?n < rb_size r")
      case True
      then have n': "?n = np" using i by auto
      have t: "rb_r r + np < rb_size r" using True n' by simp
      have "\<not> rb_w r > rb_r r + np" "rb_w r \<noteq> rb_r r + np" using nw assms(2) by linarith+
      then have "content r' = drop (rb_r r + np) (rb_buf r) @ take (rb_w r) (rb_buf r)"
        using t n' by (simp add: r' content_def)
      then have "content r' = drop np (content r)" using t i by (simp add: c add.commute)
      moreover have "p = take np (content r)" using t i n' by (simp add: p c)
      moreover have "ring_inv r' \<and> same_rest r r'" using t i n' nw by (auto simp: r' ring_inv_def same_rest_def)
      ultimately show ?thesis using e ne nw by simp
    next
      case wrap: False
      then have m2: "?k \<le> ?n" by linarith
      have "rb_r r < rb_size r" using i by simp
      then have m1: "(rb_r r + ?n) mod rb_size r = ?n - ?k"
        unfolding index_wraps[OF \<open>rb_r r < rb_size r\<close> n(1)] using wrap by simp
      note m = m1 m2
      define k where "k = ?k"
      define j where "j = ?n - ?k"
      have j: "j \<le> rb_w r" "np = k + j \<or> k + rb_w r \<le> np \<and> j = rb_w r" "rb_w r < rb_size r"
        using m2 i unfolding j_def k_def by linarith+
      have A: "length (drop (rb_r r) (rb_buf r)) = k" using i by (simp add: k_def)
      have p': "p = drop (rb_r r) (rb_buf r) @ take j (rb_buf r)"
        using wrap i m2 by (auto simp: p j_def)
      have "p = take np (content r)" using j A unfolding p' c by auto
      moreover have rj: "r' = r\<lparr>rb_r := j, rb_isFull := False\<rparr>" unfolding r' m1 j_def ..
      have "content r' = take (rb_w r - j) (drop j (rb_buf r))"
        using j(1) by (auto simp: rj content_def)
      then have "content r' = drop j (take (rb_w r) (rb_buf r))" by (simp add: drop_take)
      then have "content r' = drop np (content r)" using j A unfolding c by auto
      moreover have "ring_inv r' \<and> same_rest r r'"
        using j i nw by (auto simp: rj same_rest_def ring_inv_def)
      ultimately show ?thesis using e ne nw by simp
    qed
  qed
qed

subsection \<open>Writing adds at the end\<close>

text \<open>The four ways a write ends, on the lists: it stops before the end of the buffer, at its end,
  wraps around, or fills the hole in the middle.\<close>

lemma copy_to_length: "i + length q \<le> length buf \<Longrightarrow> length (copy_to buf i q) = length buf"
  by (simp add: copy_to_def)

lemma copy_to_within: "i + length q \<le> length buf \<Longrightarrow> copy_to buf i q = take i buf @ q @ drop (i + length q) buf"
  by (simp add: copy_to_def)

lemma write_end:
  assumes "r \<le> w" "w + length q \<le> length buf"
  shows "take (w + length q - r) (drop r (copy_to buf w q)) = take (w - r) (drop r buf) @ q"
proof -
  have "drop r (copy_to buf w q) = (take (w - r) (drop r buf) @ q) @ drop (w + length q) buf"
    using assms by (simp add: copy_to_within drop_take)
  moreover have "w + length q - r = length (take (w - r) (drop r buf) @ q)" using assms by simp
  ultimately show ?thesis by (metis append_eq_conv_conj)
qed

lemma write_wrap:
  assumes "r \<le> w" "w < length buf" "length buf - w < length q" "length q \<le> length buf - w + r"
  defines "c1 \<equiv> length buf - w"
  defines "buf' \<equiv> copy_to (copy_to buf w (take c1 q)) 0 (drop c1 q)"
  shows "length buf' = length buf" and "drop r buf' @ take (length q - c1) buf' = take (w - r) (drop r buf) @ q"
proof -
  have b: "buf' = drop c1 q @ drop (length q - c1) (take w buf @ take c1 q)"
    using assms(1-4) by (simp add: buf'_def copy_to_def c1_def)
  show "length buf' = length buf" using assms(1-4) by (simp add: b c1_def)
  have "length q - c1 \<le> r" using assms(4) by (simp add: c1_def)
  then have "drop r buf' = drop r (take w buf @ take c1 q)" using assms(1-4) by (simp add: b c1_def)
  then have "drop r buf' = take (w - r) (drop r buf) @ take c1 q" using assms(1,2) by (simp add: drop_take)
  moreover have "take (length q - c1) buf' = drop c1 q" by (simp add: b)
  ultimately show "drop r buf' @ take (length q - c1) buf' = take (w - r) (drop r buf) @ q" by simp
qed

lemma write_hole:
  assumes "w + length q \<le> r" "r < length buf"
  shows "drop r (copy_to buf w q) @ take (w + length q) (copy_to buf w q) = (drop r buf @ take w buf) @ q"
  using assms by (simp add: copy_to_within)

text \<open>The last two lines of \<open>write\<close>: the index wraps, a full buffer is marked.\<close>

lemma write_index:
  assumes "0 < s" "w \<le> s"
  shows "(let r = r\<lparr>rb_buf := buf, rb_w := w\<rparr>; r = (if rb_w r = s then r\<lparr>rb_w := 0\<rparr> else r)
          in if rb_w r = rb_r r then r\<lparr>rb_isFull := True\<rparr> else r)
    = r\<lparr>rb_buf := buf, rb_w := (if w = s then 0 else w),
        rb_isFull := (rb_isFull r \<or> (if w = s then 0 else w) = rb_r r)\<rparr>"
  using assms by (cases r) (auto simp: Let_def)

lemma ring_write_spec:
  assumes "ring_inv r" and "p \<noteq> []" and "ring_write p r = (r', n, err)"
  shows "ring_inv r' \<and> same_rest r r' \<and> n = min (length p) (rb_size r - length (content r))
    \<and> content r' = content r @ take n p
    \<and> err = (if length (content r) = rb_size r then Some ErrIsFull
             else if length p > rb_size r - length (content r) then Some ErrTooMuchDataToWrite else None)"
proof (cases "rb_isFull r")
  case True
  then have "length (content r) = rb_size r" using content_full[OF assms(1)] by (simp add: ring_IsFull_def)
  then show ?thesis using assms True by (auto simp: ring_write_def same_rest_def)
next
  case False
  note i = assms(1)[unfolded ring_inv_def]
  define avail where "avail = rb_size r - length (content r)"
  define q where "q = take avail p"
  let ?c1 = "rb_size r - rb_w r"
  have av: "(if rb_w r \<ge> rb_r r then rb_size r - rb_w r + rb_r r else rb_r r - rb_w r) = avail"
    using i False by (auto simp: content_length[OF assms(1)] ring_Length_def avail_def)
  have l: "length (content r) < rb_size r" using i False by (auto simp: content_length[OF assms(1)] ring_Length_def)
  have q: "(if length p > avail then take avail p else p) = q" by (simp add: q_def)
  have q0: "0 < length q" "length q \<le> avail" using l assms(2) by (auto simp: q_def avail_def)
  define buf' where "buf' = (if rb_w r \<ge> rb_r r \<and> \<not> ?c1 \<ge> length q
      then copy_to (copy_to (rb_buf r) (rb_w r) (take ?c1 q)) 0 (drop ?c1 q) else copy_to (rb_buf r) (rb_w r) q)"
  define w' where "w' = (if rb_w r \<ge> rb_r r \<and> \<not> ?c1 \<ge> length q then length q - ?c1 else rb_w r + length q)"
  define r1 where "r1 = r\<lparr>rb_buf := buf', rb_w := w'\<rparr>"
  have r1: "(if rb_w r \<ge> rb_r r then
               (if ?c1 \<ge> length q then r\<lparr>rb_buf := copy_to (rb_buf r) (rb_w r) q, rb_w := rb_w r + length q\<rparr>
                else r\<lparr>rb_buf := copy_to (copy_to (rb_buf r) (rb_w r) (take ?c1 q)) 0 (drop ?c1 q), rb_w := length q - ?c1\<rparr>)
             else r\<lparr>rb_buf := copy_to (rb_buf r) (rb_w r) q, rb_w := rb_w r + length q\<rparr>) = r1"
    by (simp add: r1_def buf'_def w'_def)
  have w: "r' = (let r = r1; r = (if rb_w r = rb_size r then r\<lparr>rb_w := 0\<rparr> else r)
                 in if rb_w r = rb_r r then r\<lparr>rb_isFull := True\<rparr> else r)"
    and n: "n = length q" and err: "err = (if length p > avail then Some ErrTooMuchDataToWrite else None)"
    using assms(3) False unfolding ring_write_def av Let_def q r1 by auto
  have w's: "w' \<le> rb_size r" using i q0 av by (auto simp: w'_def)
  have r': "r' = r\<lparr>rb_buf := buf', rb_w := (if w' = rb_size r then 0 else w'),
        rb_isFull := ((if w' = rb_size r then 0 else w') = rb_r r)\<rparr>"
    using write_index[where s = "rb_size r" and w = w' and r = r and buf = buf'] i w's False by (simp add: w r1_def Let_def)
  have "length buf' = rb_size r \<and> content r' = content r @ q"
  proof (cases "rb_w r \<ge> rb_r r")
    case ge: True
    have c: "content r = take (rb_w r - rb_r r) (drop (rb_r r) (rb_buf r))"
      using ge False by (auto simp: content_def)
    have a: "length q \<le> ?c1 + rb_r r" using q0(2) av ge by (simp only: if_True)
    show ?thesis
    proof (cases "?c1 \<ge> length q")
      case fits: True
      then have b: "buf' = copy_to (rb_buf r) (rb_w r) q" "w' = rb_w r + length q" by (simp_all add: buf'_def w'_def)
      have "rb_w r + length q \<le> length (rb_buf r)" using fits i by auto
      then have lb: "length buf' = rb_size r" using i by (simp add: b copy_to_length)
      have "take (w' - rb_r r) (drop (rb_r r) buf') = content r @ q"
        unfolding b c by (rule write_end) (use fits i ge in auto)
      moreover have "content r' = take (w' - rb_r r) (drop (rb_r r) buf')"
      proof (cases "w' = rb_size r")
        case True
        then show ?thesis using lb i by (auto simp: r' content_def)
      next
        case False
        moreover have "w' > rb_r r" using ge q0(1) b(2) by linarith
        ultimately show ?thesis by (simp add: r' content_def)
      qed
      ultimately show ?thesis using lb by simp
    next
      case wraps: False
      then have b: "buf' = copy_to (copy_to (rb_buf r) (rb_w r) (take ?c1 q)) 0 (drop ?c1 q)" "w' = length q - ?c1"
        using ge by (simp_all add: buf'_def w'_def)
      have "length buf' = rb_size r" "drop (rb_r r) buf' @ take w' buf' = content r @ q"
        using write_wrap[OF ge, of "rb_buf r" q] i wraps a unfolding b c by auto
      moreover have "w' \<le> rb_r r" "w' \<noteq> rb_size r" using a i b(2) by auto
      ultimately show ?thesis by (simp add: r' content_def)
    qed
  next
    case lt: False
    have c: "content r = drop (rb_r r) (rb_buf r) @ take (rb_w r) (rb_buf r)"
      using lt False by (auto simp: content_def)
    have a: "rb_w r + length q \<le> rb_r r" using q0(2) av lt by (simp split: if_splits)
    have b: "buf' = copy_to (rb_buf r) (rb_w r) q" "w' = rb_w r + length q" using lt by (simp_all add: buf'_def w'_def)
    have "drop (rb_r r) buf' @ take w' buf' = content r @ q"
      unfolding b c by (rule write_hole[OF a]) (use i in auto)
    moreover have "length buf' = rb_size r" using a i by (simp add: b copy_to_length)
    moreover have "w' \<le> rb_r r" "w' \<noteq> rb_size r" using a i b(2) by auto
    ultimately show ?thesis by (simp add: r' content_def)
  qed
  moreover have "q = take n p" by (auto simp: n q_def min_def)
  moreover have "n = min (length p) (rb_size r - length (content r))" by (simp add: n q_def avail_def)
  ultimately show ?thesis
    using err l i w's avail_def by (auto simp: r' ring_inv_def same_rest_def)
qed

section \<open>Whole calls\<close>

text \<open>The transient errors are never stored.\<close>

definition err_ok :: "RingBuffer \<Rightarrow> bool" where
  "err_ok r \<longleftrightarrow> rb_err r \<notin> {Some ErrIsEmpty, Some ErrIsFull, Some ErrAcquireLock, Some ErrTooMuchDataToWrite, Some ErrIsNotEmpty}"

lemma setErr_ok: "err_ok r \<Longrightarrow> err_ok (fst (setErr e r))"
  by (auto simp: setErr_def err_ok_def Let_def)

lemma read_turn_spec:
  assumes "ring_inv r" and "err_ok r" and "rb_block r" and "0 < np" and "read_turn g np r = (r', out)"
  shows "ring_inv r' \<and> err_ok r' \<and> rb_block r' \<and> rb_size r' = rb_size r \<and> rb_err r' = rb_err r \<and> content r' = drop np (content r)
    \<and> (if content r = [] then out = Wait np \<and> rb_readCond r' = rb_readCond r \<and> rb_writeCond r' = insert g (rb_writeCond r)
       else (\<exists>e. out = Done (take np (content r)) e \<and> (e = None \<or> e = readErr r'))
         \<and> rb_readCond r' = {} \<and> rb_writeCond r' = rb_writeCond r)"
proof -
  obtain r1 p err where e: "ring_read np r = (r1, p, err)" using prod_cases3 by blast
  note s = ring_read_spec[OF assms(1,4) e]
  have b: "rb_block r1" using s assms(3) by (simp add: same_rest_def)
  show ?thesis
  proof (cases "content r = []")
    case True
    then show ?thesis
      using assms(2,5) s b by (auto simp: read_turn_def e same_rest_def err_ok_def)
  next
    case False
    then have "err \<noteq> Some ErrIsEmpty" and ee: "err = None \<or> err = readErr r1" and p: "length p > 0"
      using s assms(2,4) by (auto simp: readErr_def same_rest_def err_ok_def split: option.splits if_splits)
    then have "r' = r1\<lparr>rb_readCond := {}, rb_wg := rb_wg r1 - 1\<rparr>" "out = Done p err"
      using assms(5) b by (simp_all add: read_turn_def e)
    then show ?thesis using s False ee assms(2) b by (auto simp: same_rest_def err_ok_def)
  qed
qed

lemma write_turn_spec:
  assumes "ring_inv r" and "err_ok r" and "rb_block r" and "p \<noteq> []" and "write_turn g p wrote r = (r', out)"
  defines "n \<equiv> min (length p) (rb_size r - length (content r))"
  shows "ring_inv r' \<and> err_ok r' \<and> rb_block r' \<and> rb_size r' = rb_size r \<and> rb_err r' = rb_err r \<and> content r' = content r @ take n p
    \<and> (if rb_err r \<noteq> None \<and> rb_err r \<noteq> Some EOF
       then out = Done (wrote + n) (rb_err r) \<and> rb_readCond r' = rb_readCond r
         \<and> (rb_writeCond r' = {} \<or> rb_writeCond r' = rb_writeCond r)
       else if n = length p then out = Done (wrote + n) None \<and> rb_readCond r' = rb_readCond r \<and> rb_writeCond r' = {}
       else out = Wait (drop n p, wrote + n) \<and> rb_readCond r' = insert g (rb_readCond r) \<and> rb_writeCond r' = {}
         \<and> length (content r') = rb_size r)"
proof -
  obtain r1 m err where e: "ring_write p r = (r1, m, err)" using prod_cases3 by blast
  note s = ring_write_spec[OF assms(1,4) e, folded n_def]
  have b: "rb_block r1" "rb_err r1 = rb_err r" "m = n" using s assms(3) by (auto simp: same_rest_def)
  have bound: "length (content r) \<le> rb_size r" by (rule content_bound[OF assms(1)])
  have err: "err = None \<longleftrightarrow> n = length p" "err \<in> {None, Some ErrIsFull, Some ErrTooMuchDataToWrite}"
    using s assms(4) bound by (auto simp: n_def)
  show ?thesis
  proof (cases "rb_err r \<noteq> None \<and> rb_err r \<noteq> Some EOF")
    case True
    then have "setErr x r1 = (r1, rb_err r)" for x using b by (simp add: setErr_def)
    moreover have "setErr x (r1\<lparr>rb_writeCond := {}\<rparr>) = (r1\<lparr>rb_writeCond := {}\<rparr>, rb_err r)" for x
      using b True by (simp add: setErr_def)
    ultimately have "out = Done (wrote + n) (rb_err r)" "r' = r1 \<or> r' = r1\<lparr>rb_writeCond := {}\<rparr>"
      using assms(2,5) True b by (auto simp: write_turn_def e write_return_def err_ok_def split: if_splits)
    then show ?thesis using s True assms(2) b by (auto simp: same_rest_def err_ok_def)
  next
    case ok: False
    show ?thesis
    proof (cases "n = length p")
      case True
      then have "r' = r1\<lparr>rb_writeCond := {}\<rparr>" "out = Done (wrote + n) None"
        using assms(4,5) ok b err(1) by (auto simp: write_turn_def e write_return_def setErr_def)
      then show ?thesis using s True ok assms(2) b by (auto simp: same_rest_def err_ok_def)
    next
      case False
      then have "setErr err r1 = (r1, err)" "err \<noteq> None" "err = Some ErrIsFull \<or> err = Some ErrTooMuchDataToWrite"
        using ok b err by (auto simp: setErr_def)
      then have "r' = r1\<lparr>rb_readCond := insert g (rb_readCond r1), rb_writeCond := {}\<rparr>" "out = Wait (drop n p, wrote + n)"
        using assms(5) b by (auto simp: write_turn_def e)
      moreover have "length (content r1) = rb_size r" using s False bound by (auto simp: n_def)
      ultimately show ?thesis using s False ok assms(2) b by (auto simp: same_rest_def err_ok_def)
    qed
  qed
qed

subsection \<open>Single bytes\<close>

lemma ring_writeByte_write:
  assumes "ring_inv r"
  shows "ring_writeByte c r = (case ring_write [c] r of (r', n, err) \<Rightarrow> (r', err))"
proof -
  note i = assms[unfolded ring_inv_def]
  have one: "1 \<le> rb_size r - rb_w r" using i by linarith
  have "copy_to (rb_buf r) (rb_w r) [c] = (rb_buf r)[rb_w r := c]"
    using i one by (simp add: copy_to_def upd_conv_take_nth_drop)
  moreover have "\<not> rb_isFull r \<Longrightarrow> rb_w r < rb_r r \<Longrightarrow> Suc 0 \<le> rb_r r - rb_w r" by linarith
  ultimately show ?thesis
    using i one by (cases "rb_isFull r"; cases "rb_r r \<le> rb_w r") (simp_all add: ring_writeByte_def ring_write_def Let_def)
qed

lemma ring_ReadByte_read:
  assumes "ring_inv r" and "content r \<noteq> []" and "readErr r = None"
  shows "ring_ReadByte g r = (case ring_read 1 r of (r', p, err) \<Rightarrow> (r', Done (hd p) (readErr r')))"
proof -
  note i = assms(1)[unfolded ring_inv_def]
  have m: "Suc (rb_r r) mod rb_size r = (if Suc (rb_r r) = rb_size r then 0 else Suc (rb_r r))"
    using i by (auto simp: mod_Suc)
  have ne: "\<not> (rb_w r = rb_r r \<and> \<not> rb_isFull r)" using assms(2) by (auto simp: content_def split: if_splits)
  have h: "take 1 (drop (rb_r r) (rb_buf r)) = [rb_buf r ! rb_r r]"
    using i by (simp add: take_Suc_conv_app_nth Cons_nth_drop_Suc[symmetric])
  show ?thesis
  proof (cases "rb_w r > rb_r r")
    case True
    then have "\<not> rb_isFull r" "Suc (rb_r r) \<noteq> rb_size r" "min (rb_w r - rb_r r) (Suc 0) = 1" using i by auto
    then show ?thesis using True ne h m assms(3)
      by (cases r) (simp add: ring_ReadByte_def ring_read_def Let_def)
  next
    case False
    then have "min (rb_size r - rb_r r + rb_w r) (Suc 0) = 1" using i by auto
    then show ?thesis using False ne h m i assms(3)
      by (simp add: ring_ReadByte_def ring_read_def Let_def)
  qed
qed

section \<open>The buffer is a bounded queue\<close>

text \<open>The abstract buffer: the bytes in it, its capacity and the error it was closed with. A read that
  empties a closed buffer may report EOF at once or with the next read (the code does the former when
  the bytes wrap around the end of the array).\<close>

record queue =
  q_items :: "byte list"
  q_cap :: nat
  q_err :: "rb_error option"

datatype ring_op = OpWrite "byte list" | OpRead nat | OpWriteByte byte | OpReadByte | OpClose "rb_error option" | OpLength

datatype ring_reply = Wrote nat "rb_error option" | Got "byte list" "rb_error option" | Closed | Len nat | Blocks

definition write_err :: "queue \<Rightarrow> nat \<Rightarrow> rb_error option" where
  "write_err q n =
     (if length (q_items q) = q_cap q then Some ErrIsFull
      else if n > q_cap q - length (q_items q) then Some ErrTooMuchDataToWrite else None)"

definition fatal :: "rb_error option \<Rightarrow> rb_error option" where
  "fatal e = (if e = Some EOF then None else e)"

inductive queue_step :: "ring_op \<Rightarrow> queue \<Rightarrow> queue \<Rightarrow> ring_reply \<Rightarrow> bool" where
  write_nil: "queue_step (OpWrite []) q q (Wrote 0 (fatal (q_err q)))"
| write_closed: "p \<noteq> [] \<Longrightarrow> q_err q = Some e \<Longrightarrow> queue_step (OpWrite p) q q (Wrote 0 (Some (closed_err e)))"
| write_some: "p \<noteq> [] \<Longrightarrow> q_err q = None \<Longrightarrow> n = min (length p) (q_cap q - length (q_items q)) \<Longrightarrow>
    queue_step (OpWrite p) q (q\<lparr>q_items := q_items q @ take n p\<rparr>) (Wrote n (write_err q (length p)))"
| byte_closed: "q_err q = Some e \<Longrightarrow> queue_step (OpWriteByte c) q q (Wrote 0 (Some (closed_err e)))"
| byte_full: "q_err q = None \<Longrightarrow> length (q_items q) = q_cap q \<Longrightarrow> queue_step (OpWriteByte c) q q (Wrote 0 (Some ErrIsFull))"
| byte_some: "q_err q = None \<Longrightarrow> length (q_items q) < q_cap q \<Longrightarrow>
    queue_step (OpWriteByte c) q (q\<lparr>q_items := q_items q @ [c]\<rparr>) (Wrote 1 None)"
| read_failed: "fatal (q_err q) = Some e \<Longrightarrow> queue_step (OpRead n) q q (Got [] (Some e))"
| read_eof: "q_err q = Some EOF \<Longrightarrow> q_items q = [] \<Longrightarrow> queue_step (OpRead n) q q (Got [] (Some EOF))"
| read_empty: "q_err q = None \<Longrightarrow> q_items q = [] \<Longrightarrow> 0 < n \<Longrightarrow> queue_step (OpRead n) q q (Got [] (Some ErrIsEmpty))"
| read_nothing: "fatal (q_err q) = None \<Longrightarrow> queue_step (OpRead 0) q q (Got [] None)"
| read_some: "fatal (q_err q) = None \<Longrightarrow> q_items q \<noteq> [] \<Longrightarrow> 0 < n \<Longrightarrow>
    x = None \<or> x = Some EOF \<and> q_err q = Some EOF \<and> drop n (q_items q) = [] \<Longrightarrow>
    queue_step (OpRead n) q (q\<lparr>q_items := drop n (q_items q)\<rparr>) (Got (take n (q_items q)) x)"
| byte_failed: "fatal (q_err q) = Some e \<Longrightarrow> queue_step OpReadByte q q (Got [] (Some e))"
| byte_eof: "q_err q = Some EOF \<Longrightarrow> q_items q = [] \<Longrightarrow> queue_step OpReadByte q q (Got [] (Some EOF))"
| byte_empty: "q_err q = None \<Longrightarrow> q_items q = [] \<Longrightarrow> queue_step OpReadByte q q (Got [] (Some ErrIsEmpty))"
| byte_read: "fatal (q_err q) = None \<Longrightarrow> q_items q = b # bs \<Longrightarrow>
    queue_step OpReadByte q (q\<lparr>q_items := bs\<rparr>) (Got [b] (if q_err q = Some EOF \<and> bs = [] then Some EOF else None))"
| close_first: "fatal (q_err q) = None \<Longrightarrow> e' = (case e of None \<Rightarrow> EOF | Some e \<Rightarrow> e) \<Longrightarrow>
    e' \<notin> {ErrIsEmpty, ErrIsFull, ErrAcquireLock, ErrTooMuchDataToWrite, ErrIsNotEmpty} \<Longrightarrow>
    queue_step (OpClose e) q (q\<lparr>q_err := Some e'\<rparr>) Closed"
| close_transient: "e \<in> {ErrIsEmpty, ErrIsFull, ErrAcquireLock, ErrTooMuchDataToWrite, ErrIsNotEmpty} \<Longrightarrow>
    queue_step (OpClose (Some e)) q q Closed"
| close_again: "fatal (q_err q) \<noteq> None \<Longrightarrow> queue_step (OpClose e) q q Closed"
| len: "queue_step OpLength q q (Len (length (q_items q)))"

inductive queue_run :: "ring_op list \<Rightarrow> queue \<Rightarrow> queue \<Rightarrow> ring_reply list \<Rightarrow> bool" where
  "queue_run [] q q []"
| "queue_step op q q' reply \<Longrightarrow> queue_run ops q' q'' replies \<Longrightarrow> queue_run (op # ops) q q'' (reply # replies)"

text \<open>The same operations on the ring buffer.\<close>

fun ring_apply :: "ring_op \<Rightarrow> RingBuffer \<Rightarrow> RingBuffer \<times> ring_reply" where
  "ring_apply (OpWrite p) r = (case ring_Write 0 p r of (r', Done n e) \<Rightarrow> (r', Wrote n e) | (r', Wait _) \<Rightarrow> (r', Blocks))"
| "ring_apply (OpRead n) r = (case ring_Read 0 n r of (r', Done p e) \<Rightarrow> (r', Got p e) | (r', Wait _) \<Rightarrow> (r', Blocks))"
| "ring_apply (OpWriteByte c) r = (case ring_WriteByte 0 c r of
     (r', Done _ e) \<Rightarrow> (r', Wrote (if e = None then 1 else 0) e) | (r', Wait _) \<Rightarrow> (r', Blocks))"
| "ring_apply OpReadByte r = (case ring_ReadByte 0 r of
     (r', Done b e) \<Rightarrow> (r', Got (if ring_Length r' < ring_Length r then [b] else []) e) | (r', Wait _) \<Rightarrow> (r', Blocks))"
| "ring_apply (OpClose e) r = (CloseWithError e r, Closed)"
| "ring_apply OpLength r = (r, Len (ring_Length r))"

fun ring_run :: "ring_op list \<Rightarrow> RingBuffer \<Rightarrow> RingBuffer \<times> ring_reply list" where
  "ring_run [] r = (r, [])"
| "ring_run (op # ops) r =
     (case ring_apply op r of (r', reply) \<Rightarrow> (case ring_run ops r' of (r'', replies) \<Rightarrow> (r'', reply # replies)))"

definition queue_of :: "RingBuffer \<Rightarrow> queue" where
  "queue_of r = \<lparr>q_items = content r, q_cap = rb_size r, q_err = rb_err r\<rparr>"

text \<open>Each operation on a ring that does not block is a step of the queue.\<close>

definition ring_ok :: "RingBuffer \<Rightarrow> bool" where
  "ring_ok r \<longleftrightarrow> ring_inv r \<and> err_ok r \<and> \<not> rb_block r"

lemma fatal_readErr: "readErr r = None \<Longrightarrow> fatal (rb_err r) = None"
  by (auto simp: readErr_def fatal_def split: option.splits if_splits)

lemma readErr_queue:
  "ring_inv r \<Longrightarrow> readErr r = (if rb_err r = Some EOF then (if content r = [] then Some EOF else None) else rb_err r)"
  by (auto simp: readErr_def content_empty ring_IsEmpty_def split: option.splits)

lemma apply_write:
  assumes "ring_ok r" and "ring_apply (OpWrite p) r = (r', reply)"
  shows "ring_ok r' \<and> queue_step (OpWrite p) (queue_of r) (queue_of r') reply"
proof (cases "p = [] \<or> rb_err r \<noteq> None")
  case True
  then show ?thesis
    using assms queue_step.write_nil[of "queue_of r"] queue_step.write_closed[of p "queue_of r"]
    by (auto simp: ring_Write_def setErr_def fatal_def queue_of_def split: if_splits)
next
  case False
  obtain r1 n err where e: "ring_write p r = (r1, n, err)" using prod_cases3 by blast
  note s = ring_write_spec[OF _ _ e]
  have inv: "ring_inv r" "err_ok r" "\<not> rb_block r" using assms(1) by (simp_all add: ring_ok_def)
  have w: "err = write_err (queue_of r) (length p)" using s inv False by (auto simp: write_err_def queue_of_def)
  have b: "\<not> rb_block r1" "rb_err r1 = None" using s inv False by (auto simp: same_rest_def)
  have "setErr err r1 = (r1, err)" using b w by (auto simp: setErr_def write_err_def)
  then have "r' = r1" "reply = Wrote n err"
    using assms(2) False b by (simp_all add: ring_Write_def write_turn_def write_return_def e)
  moreover have "queue_of r1 = queue_of r\<lparr>q_items := q_items (queue_of r) @ take n p\<rparr>"
    using s inv False by (simp add: queue_of_def same_rest_def)
  moreover have "n = min (length p) (q_cap (queue_of r) - length (q_items (queue_of r)))"
    using s inv False by (simp add: queue_of_def)
  moreover have "ring_ok r1" using s inv False b by (simp add: ring_ok_def err_ok_def)
  ultimately show ?thesis
    using False w queue_step.write_some[of p "queue_of r" n] by (simp add: queue_of_def)
qed

lemma apply_read:
  assumes "ring_ok r" and "ring_apply (OpRead np) r = (r', reply)"
  shows "ring_ok r' \<and> queue_step (OpRead np) (queue_of r) (queue_of r') reply"
proof (cases "np = 0 \<or> readErr r \<noteq> None")
  case True
  have inv: "ring_inv r" using assms(1) by (simp add: ring_ok_def)
  have r: "r' = r" "reply = Got [] (readErr r)"
    using True assms(2) by (auto simp: ring_Read_def split: option.splits if_splits)
  show ?thesis
  proof (cases "readErr r")
    case None
    then show ?thesis using True r assms(1) fatal_readErr[OF None] queue_step.read_nothing[of "queue_of r"]
      by (simp add: queue_of_def)
  next
    case (Some e)
    then show ?thesis
      using r assms(1) queue_step.read_failed[of "queue_of r"] queue_step.read_eof[of "queue_of r"]
      by (auto simp: readErr_queue[OF inv] queue_of_def fatal_def split: if_splits)
  qed
next
  case False
  let ?r = "r\<lparr>rb_wg := Suc (rb_wg r)\<rparr>"
  obtain r1 p err where e: "ring_read np ?r = (r1, p, err)" using prod_cases3 by blast
  have inv: "ring_inv r" "err_ok r" "\<not> rb_block r" using assms(1) by (simp_all add: ring_ok_def)
  note s = ring_read_spec[OF _ _ e]
  have b: "\<not> rb_block r1" "rb_err r1 = rb_err r" "rb_size r1 = rb_size r" using s inv False by (auto simp: same_rest_def)
  have r: "r' = r1\<lparr>rb_wg := rb_wg r1 - 1\<rparr>" "reply = Got p err"
    using assms(2) False b by (auto simp: ring_Read_def read_turn_def e)
  have "ring_ok r'" using s inv False b by (simp add: r ring_ok_def err_ok_def)
  moreover have "queue_step (OpRead np) (queue_of r) (queue_of r') reply"
  proof (cases "content r = []")
    case True
    then have "q_err (queue_of r) = None"
      using False readErr_queue[OF inv(1)] by (auto simp: queue_of_def split: if_splits)
    then show ?thesis
      using True False s inv b queue_step.read_empty[of "queue_of r" np] by (auto simp: r queue_of_def)
  next
    case ne: False
    have "readErr r1 = None \<or> readErr r1 = Some EOF \<and> rb_err r = Some EOF \<and> drop np (content r) = []"
      using s inv False b readErr_queue[of r1] readErr_queue[OF inv(1)] by (auto split: if_splits)
    then have "err = None \<or> err = Some EOF \<and> rb_err r = Some EOF \<and> drop np (content r) = []"
      using s inv False ne by (auto split: if_splits)
    then show ?thesis
      using ne False s inv b queue_step.read_some[of "queue_of r" np err] fatal_readErr[of r]
      by (auto simp: r queue_of_def)
  qed
  ultimately show ?thesis by blast
qed

lemma apply_write_byte:
  assumes "ring_ok r" and "ring_apply (OpWriteByte c) r = (r', reply)"
  shows "ring_ok r' \<and> queue_step (OpWriteByte c) (queue_of r) (queue_of r') reply"
proof (cases "rb_err r")
  case (Some e)
  then show ?thesis
    using assms queue_step.byte_closed[of "queue_of r" e c] by (auto simp: ring_WriteByte_def queue_of_def)
next
  case None
  have inv: "ring_inv r" "err_ok r" "\<not> rb_block r" using assms(1) by (simp_all add: ring_ok_def)
  obtain r1 n err where e: "ring_write [c] r = (r1, n, err)" using prod_cases3 by blast
  note s = ring_write_spec[OF inv(1) _ e]
  have b: "\<not> rb_block r1" "rb_err r1 = None" "rb_size r1 = rb_size r" using s inv None by (auto simp: same_rest_def)
  then have r: "r' = r1" "reply = Wrote (if err = None then 1 else 0) err"
    using assms(2) None by (simp_all add: ring_WriteByte_def ring_writeByte_write[OF inv(1)] e writebyte_return_def)
  have ok: "ring_ok r1" using s inv b by (simp add: ring_ok_def err_ok_def)
  show ?thesis
  proof (cases "length (content r) = rb_size r")
    case True
    then show ?thesis
      using s None ok b queue_step.byte_full[of "queue_of r" c] by (simp add: r queue_of_def)
  next
    case False
    then have "length (content r) < rb_size r" using content_bound[OF inv(1)] by simp
    then show ?thesis
      using s None ok b False queue_step.byte_some[of "queue_of r" c] by (auto simp: r queue_of_def Suc_le_eq)
  qed
qed

lemma apply_read_byte:
  assumes "ring_ok r" and "ring_apply OpReadByte r = (r', reply)"
  shows "ring_ok r' \<and> queue_step OpReadByte (queue_of r) (queue_of r') reply"
proof (cases "readErr r")
  case (Some e)
  have inv: "ring_inv r" using assms(1) by (simp add: ring_ok_def)
  have r: "r' = r" "reply = Got [] (Some e)" using Some assms(2) by (auto simp: ring_ReadByte_def)
  then show ?thesis
    using Some assms(1) queue_step.byte_failed[of "queue_of r" e] queue_step.byte_eof[of "queue_of r"]
    by (auto simp: readErr_queue[OF inv] queue_of_def fatal_def split: if_splits)
next
  case None
  have inv: "ring_inv r" "err_ok r" "\<not> rb_block r" using assms(1) by (simp_all add: ring_ok_def)
  show ?thesis
  proof (cases "content r")
    case Nil
    then have "ring_IsEmpty r" using content_empty[OF inv(1)] by simp
    then have "r' = r" "reply = Got [] (Some ErrIsEmpty)"
      using None assms(2) inv by (auto simp: ring_ReadByte_def ring_IsEmpty_def)
    moreover have "rb_err r = None" using None Nil readErr_queue[OF inv(1)] by (auto split: if_splits)
    ultimately show ?thesis using Nil assms(1) queue_step.byte_empty[of "queue_of r"] by (simp add: queue_of_def)
  next
    case (Cons x xs)
    obtain r1 p err where e: "ring_read 1 r = (r1, p, err)" using prod_cases3 by blast
    have s: "ring_inv r1" "same_rest r r1" "p = [x]" "content r1 = xs"
      using ring_read_spec[OF inv(1) _ e] Cons by simp_all
    have "ring_ReadByte 0 r = (r1, Done x (readErr r1))"
      using ring_ReadByte_read[OF inv(1) _ None] Cons s(3) e by simp
    then have r: "r' = r1" "reply = Got [x] (readErr r1)"
      using assms(2) content_length[OF s(1)] content_length[OF inv(1)] s(4) Cons by auto
    have f: "fatal (rb_err r) = None" by (rule fatal_readErr[OF None])
    have "readErr r1 = (if rb_err r = Some EOF \<and> xs = [] then Some EOF else None)"
      using readErr_queue[OF s(1)] s f by (auto simp: same_rest_def fatal_def split: if_splits)
    then show ?thesis
      using r s inv f Cons queue_step.byte_read[of "queue_of r" x xs]
      by (simp add: ring_ok_def err_ok_def same_rest_def queue_of_def)
  qed
qed

lemma apply_close:
  assumes "ring_ok r"
  shows "ring_ok (CloseWithError e r) \<and> queue_step (OpClose e) (queue_of r) (queue_of (CloseWithError e r)) Closed"
proof -
  let ?e = "case e of None \<Rightarrow> EOF | Some e \<Rightarrow> e"
  let ?T = "{ErrIsEmpty, ErrIsFull, ErrAcquireLock, ErrTooMuchDataToWrite, ErrIsNotEmpty}"
  have nb: "\<not> rb_block r" using assms by (simp add: ring_ok_def)
  consider "fatal (rb_err r) \<noteq> None" | "fatal (rb_err r) = None" "?e \<in> ?T" | "fatal (rb_err r) = None" "?e \<notin> ?T"
    by blast
  then show ?thesis
  proof cases
    case 1
    then have "CloseWithError e r = r" by (auto simp: CloseWithError_def setErr_def fatal_def split: if_splits)
    then show ?thesis using 1 assms queue_step.close_again[of "queue_of r" e] by (auto simp: queue_of_def)
  next
    case 2
    then have "CloseWithError e r = r" by (auto simp: CloseWithError_def setErr_def fatal_def split: option.splits)
    moreover obtain e0 where "e = Some e0" "e0 \<in> ?T" using 2(2) by (cases e) auto
    ultimately show ?thesis using assms queue_step.close_transient[of e0 "queue_of r"] by simp
  next
    case 3
    then have c: "CloseWithError e r = r\<lparr>rb_err := Some ?e\<rparr>"
      using nb by (auto simp: CloseWithError_def setErr_def fatal_def Let_def split: option.splits if_splits)
    have "err_ok (r\<lparr>rb_err := Some ?e\<rparr>)" using 3(2) by (auto simp: err_ok_def)
    then have "ring_ok (r\<lparr>rb_err := Some ?e\<rparr>)" using assms by (simp add: ring_ok_def)
    moreover have "queue_step (OpClose e) (queue_of r) (queue_of r\<lparr>q_err := Some ?e\<rparr>) Closed"
      using 3 by (intro queue_step.close_first) (simp_all add: queue_of_def)
    ultimately show ?thesis by (simp add: c queue_of_def)
  qed
qed

lemma ring_apply_step:
  assumes "ring_ok r" and "ring_apply op r = (r', reply)"
  shows "ring_ok r' \<and> queue_step op (queue_of r) (queue_of r') reply"
proof (cases op)
  case (OpWrite p)
  show ?thesis using apply_write[OF assms(1)] assms(2) unfolding OpWrite by blast
next
  case (OpRead n)
  show ?thesis using apply_read[OF assms(1)] assms(2) unfolding OpRead by blast
next
  case (OpWriteByte c)
  show ?thesis using apply_write_byte[OF assms(1)] assms(2) unfolding OpWriteByte by blast
next
  case OpReadByte
  show ?thesis using apply_read_byte[OF assms(1)] assms(2) unfolding OpReadByte by blast
next
  case (OpClose e)
  show ?thesis using apply_close[OF assms(1), of e] assms(2) unfolding OpClose by simp
next
  case OpLength
  then have "r' = r" "reply = Len (length (content r))"
    using assms content_length[of r] by (auto simp: ring_ok_def)
  then show ?thesis
    using assms(1) queue_step.len[of "queue_of r"] OpLength by (simp add: queue_of_def)
qed

text \<open>C32: the ring buffer refines the bounded queue: whatever sequence of calls is made on a fresh
  non-blocking buffer, its replies are those of a queue of that capacity, and it never blocks. The queue keeps the first error it is
  closed with, but that an error replaces the end of file of a queue that was closed without one: so does \<open>setErr\<close>, though the comment
  on \<open>CloseWithError\<close> says that the previous error is never overwritten.\<close>

theorem ring_refines_queue:
  assumes "b \<noteq> []" and "ring_run ops (NewBuffer b) = (r', replies)"
  shows "queue_run ops \<lparr>q_items = [], q_cap = length b, q_err = None\<rparr> (queue_of r') replies"
proof -
  have "ring_ok (NewBuffer b)" using assms(1) by (simp add: ring_ok_def NewBuffer_def ring_inv_def err_ok_def)
  moreover have "queue_of (NewBuffer b) = \<lparr>q_items = [], q_cap = length b, q_err = None\<rparr>"
    by (simp add: queue_of_def NewBuffer_def content_def)
  moreover have "queue_run ops (queue_of r) (queue_of r') replies" if "ring_ok r" "ring_run ops r = (r', replies)" for r
    using that
  proof (induction ops arbitrary: r replies)
    case (Cons op ops)
    obtain r1 reply where a: "ring_apply op r = (r1, reply)" by fastforce
    obtain rs where rs: "ring_run ops r1 = (r', rs)" "replies = reply # rs"
      using Cons.prems(2) a by (auto split: prod.splits)
    then show ?case using ring_apply_step[OF Cons.prems(1) a] Cons.IH[of r1 rs] by (auto intro: queue_run.intros)
  qed (auto intro: queue_run.intros)
  ultimately show ?thesis using assms(2) by metis
qed

theorem ring_refines_queue_witness:
  "\<exists>q. queue_run [OpWrite [1, 2, 3], OpRead 2, OpWrite [4, 5, 6], OpClose None, OpRead 9, OpRead 1]
     \<lparr>q_items = [], q_cap = 4, q_err = None\<rparr> q
     [Wrote 3 None, Got [1, 2] None, Wrote 3 None, Closed, Got [3, 4, 5, 6] (Some EOF), Got [] (Some EOF)]"
proof -
  let ?ops = "[OpWrite [1, 2, 3], OpRead 2, OpWrite [4, 5, 6], OpClose None, OpRead 9, OpRead 1]"
  have "snd (ring_run ?ops (NewBuffer [0, 0, 0, 0]))
      = [Wrote 3 None, Got [1, 2] None, Wrote 3 None, Closed, Got [3, 4, 5, 6] (Some EOF), Got [] (Some EOF)]"
    by (simp add: NewBuffer_def ring_Write_def write_turn_def ring_write_def write_return_def setErr_def copy_to_def
        ring_Read_def readErr_def read_turn_def ring_read_def CloseWithError_def Let_def)
  then obtain r' where "ring_run ?ops (NewBuffer [0, 0, 0, 0])
      = (r', [Wrote 3 None, Got [1, 2] None, Wrote 3 None, Closed, Got [3, 4, 5, 6] (Some EOF), Got [] (Some EOF)])"
    by (metis prod.collapse)
  from ring_refines_queue[OF _ this] have "queue_run ?ops \<lparr>q_items = [], q_cap = length [0 :: byte, 0, 0, 0], q_err = None\<rparr>
      (queue_of r') [Wrote 3 None, Got [1, 2] None, Wrote 3 None, Closed, Got [3, 4, 5, 6] (Some EOF), Got [] (Some EOF)]"
    by blast
  moreover have "length [0 :: byte, 0, 0, 0] = 4" by simp
  ultimately show ?thesis by metis
qed

end
