(* ===== verification/Ring_Pipe.thy ===== *)
theory Ring_Pipe
  imports Ring_Buffer
begin

text \<open>
  The ring buffer at work (\<open>newStreamingBitrotWriter\<close> of \<open>cmd/bitrot-streaming.go\<close>): one goroutine writes
  the hashes and blocks of a shard and closes the writer, another one, the drive's \<open>CreateFile\<close>,
  reads until EOF or until it has the announced number of bytes, or fails, and closes the buffer with what it returned. The two run
  concurrently; a step is one critical section of one of them. The drive reads with buffers of any size. Around the writer
  is a \<open>DeadlineWriter\<close>: a call that takes too long is given up, and goes on in a goroutine of its own.
\<close>

section \<open>The two goroutines\<close>

datatype writer = WRun | WParked "byte list" nat | WClosing | WFlush | WDone "rb_error option"
datatype reader = RRun | RParked nat | REnd | RDone "rb_error option"

record pipe =
  p_rb :: RingBuffer
  p_data :: "byte list list"
  p_writer :: writer
  p_reader :: reader
  p_out :: "byte list"
  p_late :: "(byte list \<times> nat) option"

definition pipe_init :: "nat \<Rightarrow> byte list list \<Rightarrow> pipe" where
  "pipe_init sz chunks = \<lparr>p_rb = SetBlocking True (NewRing sz), p_data = chunks, p_writer = WRun,
     p_reader = RRun, p_out = [], p_late = None\<rparr>"

text \<open>After a \<open>Write\<close>: an error closes the buffer with it (\<open>closeWithErr\<close>) and ends the writer.\<close>

fun after_write :: "RingBuffer \<times> (byte list \<times> nat, nat) outcome \<Rightarrow> pipe \<Rightarrow> pipe" where
  "after_write (r, Done n None) s = s\<lparr>p_rb := r, p_writer := WRun\<rparr>"
| "after_write (r, Done n (Some e)) s = s\<lparr>p_rb := CloseWithError (Some e) r, p_writer := WDone (Some e)\<rparr>"
| "after_write (r, Wait (p, wrote)) s = s\<lparr>p_rb := r, p_writer := WParked p wrote\<rparr>"

fun after_flush :: "RingBuffer \<times> (unit, unit) outcome \<Rightarrow> pipe \<Rightarrow> pipe" where
  "after_flush (r, Done _ e) s = s\<lparr>p_rb := r, p_writer := WDone e\<rparr>"
| "after_flush (r, Wait _) s = s\<lparr>p_rb := r, p_writer := WFlush\<rparr>"

text \<open>After a \<open>Read\<close>: EOF ends the copying, on another error \<open>CreateFile\<close> returns that error.\<close>

fun after_read :: "RingBuffer \<times> (nat, byte list) outcome \<Rightarrow> pipe \<Rightarrow> pipe" where
  "after_read (r, Done p None) s = s\<lparr>p_rb := r, p_reader := RRun, p_out := p_out s @ p\<rparr>"
| "after_read (r, Done p (Some e)) s =
     (if e = EOF then s\<lparr>p_rb := r, p_reader := REnd, p_out := p_out s @ p\<rparr>
      else s\<lparr>p_rb := CloseWithError (Some e) r, p_reader := RDone (Some e), p_out := p_out s @ p\<rparr>)"
| "after_read (r, Wait np) s = s\<lparr>p_rb := r, p_reader := RParked np\<rparr>"

text \<open>What the drive's \<open>CreateFile\<close> returned closes the buffer.\<close>

definition drive_returns :: "gerror option \<Rightarrow> pipe \<Rightarrow> pipe" where
  "drive_returns e s = s\<lparr>p_rb := CloseWithError (map_option ExtErr e) (p_rb s), p_reader := RDone (map_option ExtErr e)\<rparr>"

text \<open>Goroutine 0 writes, goroutine 1 reads; a goroutine that waits runs on when a broadcast took it out
  of the condition's set. The drive stops copying at EOF or, where it was told the size of the file, when it has that many bytes
  (\<open>CopyAligned\<close>); from then on, with the file to be flushed and closed, it may still fail. It may fail at any time before.\<close>

inductive pipe_step :: "int \<Rightarrow> pipe \<Rightarrow> pipe \<Rightarrow> bool" for totalFileSize where
  step_write: "p_writer s = WRun \<Longrightarrow> p_data s = p # ps \<Longrightarrow>
    pipe_step totalFileSize s (after_write (ring_Write 0 p (p_rb s)) (s\<lparr>p_data := ps\<rparr>))"
| step_write_woken: "p_writer s = WParked p wrote \<Longrightarrow> 0 \<notin> rb_readCond (p_rb s) \<Longrightarrow>
    pipe_step totalFileSize s (after_write (write_wake 0 p wrote (p_rb s)) s)"
| step_close_writer: "p_writer s = WRun \<Longrightarrow> p_data s = [] \<Longrightarrow>
    pipe_step totalFileSize s (s\<lparr>p_rb := CloseWriter (p_rb s), p_writer := WClosing\<rparr>)"
| step_flush: "p_writer s = WClosing \<or> p_writer s = WFlush \<and> 0 \<notin> rb_readCond (p_rb s) \<Longrightarrow>
    pipe_step totalFileSize s (after_flush (ring_Flush 0 (p_rb s)) s)"
| step_read: "p_reader s = RRun \<Longrightarrow> 0 < np \<Longrightarrow> pipe_step totalFileSize s (after_read (ring_Read 1 np (p_rb s)) s)"
| step_read_woken: "p_reader s = RParked np \<Longrightarrow> 1 \<notin> rb_writeCond (p_rb s) \<Longrightarrow>
    pipe_step totalFileSize s (after_read (read_wake 1 np (p_rb s)) s)"
| step_read_total: "p_reader s = RRun \<Longrightarrow> 0 \<le> totalFileSize \<Longrightarrow> int (length (p_out s)) = totalFileSize \<Longrightarrow>
    pipe_step totalFileSize s (s\<lparr>p_reader := REnd\<rparr>)"
| step_returns: "p_reader s = REnd \<Longrightarrow> pipe_step totalFileSize s (drive_returns None s)"
| step_fails: "\<forall>e. p_reader s \<noteq> RDone e \<Longrightarrow> e \<noteq> IoEOF \<Longrightarrow> pipe_step totalFileSize s (drive_returns (Some e) s)"
| step_late: "p_late s = Some (p, wrote) \<Longrightarrow> 0 \<notin> rb_readCond (p_rb s) \<Longrightarrow>
    pipe_step totalFileSize s (s\<lparr>p_rb := fst (write_wake 0 p wrote (p_rb s)), p_late := None\<rparr>)"

text \<open>The deadline of a \<open>Write\<close>: the call returns with an error and the buffer is closed with it; if the ring buffer's
  \<open>Write\<close> was waiting for room then, it is left behind, its result read by nobody. (A call that has not begun by then finds
  the buffer closed; one that has ended by then, with all its bytes in the buffer, is given up all the same.)\<close>

definition write_late :: "pipe \<Rightarrow> pipe" where
  "write_late s = s\<lparr>p_rb := CloseWithError (Some (ExtErr ContextDeadlineExceeded)) (p_rb s),
     p_writer := WDone (Some (ExtErr ContextDeadlineExceeded)),
     p_late := (case p_writer s of WParked p wrote \<Rightarrow> Some (p, wrote) | _ \<Rightarrow> None)\<rparr>"

inductive pipe_run :: "int \<Rightarrow> pipe \<Rightarrow> pipe \<Rightarrow> bool" for totalFileSize where
  run_step: "pipe_step totalFileSize s s' \<Longrightarrow> pipe_run totalFileSize s s'"
| run_late: "p_writer s = WRun \<or> (\<exists>p wrote. p_writer s = WParked p wrote) \<Longrightarrow> pipe_run totalFileSize s (write_late s)"

text \<open>The bytes that are not in the buffer yet.\<close>

fun pending :: "writer \<Rightarrow> byte list" where
  "pending (WParked p _) = p"
| "pending _ = []"

definition unsent :: "pipe \<Rightarrow> byte list" where
  "unsent s = pending (p_writer s) @ concat (p_data s)"

section \<open>Invariant\<close>

text \<open>As long as the drive has not failed nothing is lost, and a goroutine waits only for what the other
  one is going to do.\<close>

definition pipe_live :: "byte list \<Rightarrow> pipe \<Rightarrow> bool" where
  "pipe_live whole s \<longleftrightarrow>
     p_out s @ content (p_rb s) @ unsent s = whole \<and> p_late s = None
     \<and> (case p_writer s of
          WRun \<Rightarrow> (rb_err (p_rb s) = None \<or> p_reader s = RDone None) \<and> 0 \<notin> rb_readCond (p_rb s)
        | WParked p _ \<Rightarrow> rb_err (p_rb s) = None \<and> p \<noteq> []
            \<and> (0 \<in> rb_readCond (p_rb s) \<longrightarrow> length (content (p_rb s)) = rb_size (p_rb s))
        | WClosing \<Rightarrow> rb_err (p_rb s) = Some EOF \<and> p_data s = []
        | WFlush \<Rightarrow> rb_err (p_rb s) = Some EOF \<and> p_data s = []
            \<and> (0 \<in> rb_readCond (p_rb s) \<longrightarrow> content (p_rb s) \<noteq> [])
        | WDone e \<Rightarrow> rb_err (p_rb s) = Some EOF \<and> p_data s = [] \<and> e = None \<and> content (p_rb s) = [])
     \<and> (case p_reader s of
          RRun \<Rightarrow> True
        | RParked np \<Rightarrow> 0 < np \<and> (1 \<in> rb_writeCond (p_rb s) \<longrightarrow> content (p_rb s) = [] \<and> rb_err (p_rb s) = None)
        | REnd \<Rightarrow> content (p_rb s) = [] \<and> unsent s = []
        | RDone e \<Rightarrow> e = None \<and> content (p_rb s) = [] \<and> unsent s = [] \<and> rb_err (p_rb s) = Some EOF)"

text \<open>After the drive has failed, or a call of the writer has been given up, nobody waits any more.\<close>

definition pipe_failed :: "byte list \<Rightarrow> pipe \<Rightarrow> bool" where
  "pipe_failed whole s \<longleftrightarrow>
     (\<exists>rest. p_out s @ rest = whole) \<and> fatal (rb_err (p_rb s)) \<noteq> None
     \<and> 0 \<notin> rb_readCond (p_rb s) \<and> 1 \<notin> rb_writeCond (p_rb s)
     \<and> (case p_writer s of
          WParked p _ \<Rightarrow> p \<noteq> [] \<and> (\<exists>e. p_reader s = RDone (Some e))
        | WDone we \<Rightarrow> (we = None \<longrightarrow> p_out s = whole) \<and> (we = Some (ExtErr ContextDeadlineExceeded) \<or> (\<exists>e. p_reader s = RDone (Some e)))
        | _ \<Rightarrow> (\<exists>e. p_reader s = RDone (Some e)))
     \<and> (\<forall>p wrote. p_late s = Some (p, wrote) \<longrightarrow> p \<noteq> [] \<and> (\<exists>e. p_writer s = WDone e))
     \<and> (case p_reader s of RRun \<Rightarrow> True | RParked np \<Rightarrow> 0 < np | REnd \<Rightarrow> p_out s = whole | RDone e \<Rightarrow> e = None \<longrightarrow> p_out s = whole)"

definition pipe_inv :: "byte list \<Rightarrow> pipe \<Rightarrow> bool" where
  "pipe_inv whole s \<longleftrightarrow> ring_inv (p_rb s) \<and> err_ok (p_rb s) \<and> rb_block (p_rb s) \<and> (pipe_live whole s \<or> pipe_failed whole s)"

lemma pipe_init_inv: "0 < sz \<Longrightarrow> pipe_inv (concat chunks) (pipe_init sz chunks)"
  using new_ring[of "replicate sz 0" True]
  by (simp add: pipe_inv_def pipe_live_def pipe_init_def NewRing_def unsent_def err_ok_def SetBlocking_def NewBuffer_def Let_def)

subsection \<open>Closing\<close>

lemma close_live:
  assumes "rb_block r" and "fatal (rb_err r) = None" and "err_ok (r\<lparr>rb_err := Some e\<rparr>)"
  shows "fst (setErr (Some e) r) = r\<lparr>rb_err := Some e, rb_readCond := {}, rb_writeCond := {}\<rparr>"
  using assms by (auto simp: setErr_def fatal_def err_ok_def Let_def split: if_splits)

lemma close_failed: "fatal (rb_err r) \<noteq> None \<Longrightarrow> setErr e r = (r, rb_err r)"
  by (auto simp: setErr_def fatal_def split: if_splits)

lemma err_ok_update [simp]: "err_ok (r\<lparr>rb_readCond := a\<rparr>) = err_ok r" "err_ok (r\<lparr>rb_writeCond := a\<rparr>) = err_ok r"
  "err_ok (r\<lparr>rb_wg := b\<rparr>) = err_ok r" "err_ok (r\<lparr>rb_err := Some (ExtErr e)\<rparr>)"
  by (simp_all add: err_ok_def)

lemmas close_defs = CloseWithError_def CloseWriter_def

subsection \<open>The writer's steps\<close>

lemma live_wake:
  assumes "ring_inv (p_rb s)" "err_ok (p_rb s)" "rb_block (p_rb s)" and "pipe_live whole s"
    and "p_writer s = WParked p wrote" and "0 \<notin> rb_readCond (p_rb s)"
  shows "pipe_inv whole (after_write (write_wake 0 p wrote (p_rb s)) s)"
proof -
  let ?r = "p_rb s"
  define n where "n = min (length p) (rb_size ?r - length (content ?r))"
  have e: "rb_err ?r = None" "p_late s = None" and p: "p \<noteq> []" and t: "p_out s @ content ?r @ p @ concat (p_data s) = whole"
    using assms(4,5) by (simp_all add: pipe_live_def unsent_def)
  obtain r' out where w: "write_turn 0 p wrote ?r = (r', out)" by fastforce
  note ws = write_turn_spec[OF assms(1-3) p w, folded n_def]
  have rd: "case p_reader s of RRun \<Rightarrow> True | RParked np \<Rightarrow> 0 < np | REnd \<Rightarrow> False | RDone e \<Rightarrow> False"
    using assms(4,5) e p by (simp add: pipe_live_def unsent_def split: reader.splits)
  show ?thesis
  proof (cases "n = length p")
    case True
    then have "out = Done (wrote + n) None" "rb_readCond r' = rb_readCond ?r" "rb_writeCond r' = {}" using ws e by simp_all
    moreover have "content r' = content ?r @ p" using ws True by simp
    ultimately show ?thesis
      using ws e p t rd assms(6) by (simp add: write_wake_def w pipe_inv_def pipe_live_def unsent_def split: reader.splits)
  next
    case False
    then have o: "out = Wait (drop n p, wrote + n)" "rb_writeCond r' = {}" "length (content r') = rb_size r'"
      using ws e False by metis+
    moreover have "content r' = content ?r @ take n p" "drop n p \<noteq> []" using ws False by (auto simp: n_def)
    moreover have "p_out s @ content ?r @ take n p @ drop n p @ concat (p_data s) = whole"
      using t by (metis append.assoc append_take_drop_id)
    ultimately show ?thesis
      using ws e p t rd by (simp add: write_wake_def w pipe_inv_def pipe_live_def unsent_def split: reader.splits)
  qed
qed

lemma live_write:
  assumes "ring_inv (p_rb s)" "err_ok (p_rb s)" "rb_block (p_rb s)" and "pipe_live whole s"
    and "p_writer s = WRun" and "p_data s = p # ps"
  shows "pipe_inv whole (after_write (ring_Write 0 p (p_rb s)) (s\<lparr>p_data := ps\<rparr>))"
proof (cases "p = []")
  case True
  then show ?thesis
    using assms by (auto simp: ring_Write_def setErr_def pipe_inv_def pipe_live_def unsent_def split: reader.splits)
next
  case False
  let ?s = "s\<lparr>p_data := ps, p_writer := WParked p 0\<rparr>"
  have e: "rb_err (p_rb s) = None" "0 \<notin> rb_readCond (p_rb s)"
    using assms(4-6) False by (auto simp: pipe_live_def unsent_def)
  have "pipe_live whole ?s" using assms(4-6) False by (auto simp: pipe_live_def unsent_def split: reader.splits)
  then have "pipe_inv whole (after_write (write_wake 0 p 0 (p_rb ?s)) ?s)"
    by (intro live_wake) (use assms e in auto)
  moreover have "after_write x (s\<lparr>p_data := ps\<rparr>) = after_write x ?s" for x
    by (induction x "s\<lparr>p_data := ps\<rparr>" rule: after_write.induct) simp_all
  moreover have "ring_Write 0 p (p_rb s) = write_wake 0 p 0 (p_rb s)" using False e by (simp add: ring_Write_def write_wake_def)
  ultimately show ?thesis by simp
qed

lemma failed_write_end:
  assumes "ring_inv r" "err_ok r" "rb_block r" and "fatal (rb_err r) \<noteq> None" and "p \<noteq> []"
  shows "\<exists>r' n. write_turn 0 p wrote r = (r', Done n (rb_err r)) \<and> ring_inv r' \<and> err_ok r' \<and> rb_block r'
    \<and> rb_err r' = rb_err r \<and> rb_readCond r' = rb_readCond r \<and> rb_writeCond r' \<subseteq> rb_writeCond r"
proof -
  obtain r' out where w: "write_turn 0 p wrote r = (r', out)" by fastforce
  have "rb_err r \<noteq> None \<and> rb_err r \<noteq> Some EOF" using assms(4) by (auto simp: fatal_def split: if_splits)
  then show ?thesis using write_turn_spec[OF assms(1-3,5) w] w by auto
qed

lemma failed_end:
  assumes "pipe_failed whole s" and "ring_inv r'" "err_ok r'" "rb_block r'" "rb_err r' = rb_err (p_rb s)"
    "0 \<notin> rb_readCond r'" "1 \<notin> rb_writeCond r'" and "\<forall>e. p_writer s \<noteq> WDone e" and "w = WRun \<or> w = WClosing \<or> w = WFlush \<or> (\<exists>e. w = WDone (Some e))"
  shows "pipe_inv whole (s\<lparr>p_data := ps, p_rb := r', p_writer := w\<rparr>)" "pipe_inv whole (s\<lparr>p_rb := r', p_writer := w\<rparr>)"
  using assms by (auto simp: pipe_inv_def pipe_failed_def split: writer.splits)

lemma failed_conds: "pipe_failed whole s \<Longrightarrow> fatal (rb_err (p_rb s)) \<noteq> None \<and> 0 \<notin> rb_readCond (p_rb s) \<and> 1 \<notin> rb_writeCond (p_rb s)"
  by (simp add: pipe_failed_def)

lemma failed_wake:
  assumes "ring_inv (p_rb s)" "err_ok (p_rb s)" "rb_block (p_rb s)" and "pipe_failed whole s"
    and "p_writer s = WParked p wrote"
  shows "pipe_inv whole (after_write (write_wake 0 p wrote (p_rb s)) s)"
proof -
  have f: "fatal (rb_err (p_rb s)) \<noteq> None" "p \<noteq> []" "0 \<notin> rb_readCond (p_rb s)" "1 \<notin> rb_writeCond (p_rb s)"
    using assms(4,5) by (auto simp: pipe_failed_def)
  obtain r' n where w: "write_turn 0 p wrote (p_rb s) = (r', Done n (rb_err (p_rb s)))" "ring_inv r'" "err_ok r'" "rb_block r'"
      "rb_err r' = rb_err (p_rb s)" "rb_readCond r' = rb_readCond (p_rb s)" "rb_writeCond r' \<subseteq> rb_writeCond (p_rb s)"
    using failed_write_end[OF assms(1-3) f(1,2)] by blast
  obtain e where e: "rb_err (p_rb s) = Some e" using f(1) by (cases "rb_err (p_rb s)") (auto simp: fatal_def)
  have "1 \<notin> rb_writeCond r'" using w(7) f(4) by blast
  then show ?thesis
    using w f e failed_end(2)[OF assms(4) w(2-5), of "WDone (Some e)"] close_failed[of r'] assms(5) by (simp add: write_wake_def close_defs)
qed

lemma failed_late:
  assumes "pipe_inv whole s" and "p_late s = Some (p, wrote)"
  shows "pipe_inv whole (s\<lparr>p_rb := fst (write_wake 0 p wrote (p_rb s)), p_late := None\<rparr>)"
proof -
  have f: "pipe_failed whole s" using assms by (auto simp: pipe_inv_def pipe_live_def)
  then have p: "p \<noteq> []" using assms(2) by (auto simp: pipe_failed_def)
  obtain r' n where w: "write_turn 0 p wrote (p_rb s) = (r', Done n (rb_err (p_rb s)))" "ring_inv r'" "err_ok r'" "rb_block r'"
      "rb_err r' = rb_err (p_rb s)" "rb_readCond r' = rb_readCond (p_rb s)" "rb_writeCond r' \<subseteq> rb_writeCond (p_rb s)"
    using failed_write_end[of "p_rb s" p wrote] assms(1) failed_conds[OF f] p by (auto simp: pipe_inv_def)
  have "1 \<notin> rb_writeCond r'" using w(7) failed_conds[OF f] by blast
  then show ?thesis using f w p by (simp add: write_wake_def pipe_inv_def pipe_failed_def cong: writer.case_cong reader.case_cong)
qed

lemma failed_write:
  assumes "ring_inv (p_rb s)" "err_ok (p_rb s)" "rb_block (p_rb s)" and "pipe_failed whole s" and "p_writer s = WRun"
  shows "pipe_inv whole (after_write (ring_Write 0 p (p_rb s)) (s\<lparr>p_data := ps\<rparr>))"
proof -
  note f = failed_conds[OF assms(4)]
  then obtain e where e: "rb_err (p_rb s) = Some e" "e \<noteq> EOF"
    by (cases "rb_err (p_rb s)") (auto simp: fatal_def split: if_splits)
  then have "ring_Write 0 p (p_rb s) = (p_rb s, Done 0 (Some e))"
    using close_failed[of "p_rb s"] f by (simp add: ring_Write_def closed_err_def)
  then show ?thesis
    using failed_end(1)[OF assms(4) assms(1-3) refl, of "WDone (Some e)" ps] f assms(5) close_failed[of "p_rb s"] by (simp add: close_defs)
qed

lemma close_step:
  assumes "pipe_inv whole s" and "p_writer s = WRun" and "p_data s = []"
  shows "pipe_inv whole (s\<lparr>p_rb := CloseWriter (p_rb s), p_writer := WClosing\<rparr>)"
proof (cases "pipe_live whole s")
  case True
  then have "rb_err (p_rb s) = None \<or> rb_err (p_rb s) = Some EOF" using assms(2) by (auto simp: pipe_live_def)
  then have "CloseWriter (p_rb s) = (p_rb s)\<lparr>rb_err := Some EOF, rb_readCond := {}, rb_writeCond := {}\<rparr>"
    using assms(1) close_live[of "p_rb s" EOF] by (auto simp: close_defs pipe_inv_def fatal_def)
  then show ?thesis
    using True assms by (simp add: pipe_inv_def pipe_live_def unsent_def split: reader.splits)
next
  case False
  then have f: "pipe_failed whole s" using assms(1) by (simp add: pipe_inv_def)
  show ?thesis
    using assms failed_end(2)[OF f, of "p_rb s" WClosing] close_failed[of "p_rb s"] failed_conds[OF f]
    by (simp add: close_defs pipe_inv_def)
qed

lemma flush_step:
  assumes "pipe_inv whole s" and "p_writer s = WClosing \<or> p_writer s = WFlush \<and> 0 \<notin> rb_readCond (p_rb s)"
  shows "pipe_inv whole (after_flush (ring_Flush 0 (p_rb s)) s)"
proof -
  let ?r = "p_rb s"
  have i: "ring_inv ?r" "err_ok ?r" "rb_block ?r" using assms(1) by (simp_all add: pipe_inv_def)
  have em: "rb_w ?r = rb_r ?r \<and> \<not> rb_isFull ?r \<longleftrightarrow> content ?r = []"
    using content_empty[OF i(1)] by (auto simp: ring_IsEmpty_def)
  show ?thesis
  proof (cases "pipe_live whole s")
    case True
    then have e: "rb_err ?r = Some EOF" "p_data s = []" using assms(2) by (auto simp: pipe_live_def)
    show ?thesis
    proof (cases "content ?r = []")
      case True
      then have "ring_Flush 0 ?r = (?r, Done () None)" using em e readErr_queue[OF i(1)] by (auto simp: ring_Flush_def)
      then show ?thesis
        using \<open>pipe_live whole s\<close> True e i assms(2) by (auto simp: pipe_inv_def pipe_live_def unsent_def split: reader.splits)
    next
      case False
      then have "ring_Flush 0 ?r = (?r\<lparr>rb_readCond := insert 0 (rb_readCond ?r)\<rparr>, Wait ())"
        using em e i(3) readErr_queue[OF i(1)] by (auto simp: ring_Flush_def)
      then show ?thesis
        using \<open>pipe_live whole s\<close> False e i assms(2) by (auto simp: pipe_inv_def pipe_live_def unsent_def split: reader.splits)
    qed
  next
    case False
    then have f: "pipe_failed whole s" using assms(1) by (simp add: pipe_inv_def)
    then obtain e where e: "readErr ?r = Some e" "rb_err ?r = Some e" "e \<noteq> EOF"
      using readErr_queue[OF i(1)] failed_conds[OF f] by (cases "rb_err ?r") (auto simp: fatal_def split: if_splits)
    then have "ring_Flush 0 ?r = (?r, Done () (Some e))" by (auto simp: ring_Flush_def)
    then show ?thesis using failed_end(2)[OF f i refl, of "WDone (Some e)"] failed_conds[OF f] assms(2) by auto
  qed
qed

subsection \<open>The reader's steps\<close>

lemma live_err: "pipe_live whole s \<Longrightarrow> rb_err (p_rb s) = None \<or> rb_err (p_rb s) = Some EOF"
  by (auto simp: pipe_live_def split: writer.splits)

lemma live_eof:
  assumes "pipe_live whole (s\<lparr>p_rb := r', p_out := out, p_reader := RRun\<rparr>)" and "content r' = []" and "rb_err r' = Some EOF"
  shows "pipe_live whole (s\<lparr>p_rb := r', p_reader := REnd, p_out := out\<rparr>)"
  using assms by (auto simp: pipe_live_def unsent_def split: writer.splits)

lemma live_read_turn:
  assumes "ring_inv (p_rb s)" "err_ok (p_rb s)" "rb_block (p_rb s)" and "pipe_live whole s"
    and "p_reader s = RRun \<or> p_reader s = RParked np" and "0 < np" and "readErr (p_rb s) = None"
  shows "pipe_inv whole (after_read (read_turn 1 np ((p_rb s)\<lparr>rb_wg := k\<rparr>)) s)"
proof -
  let ?r = "(p_rb s)\<lparr>rb_wg := k\<rparr>"
  obtain r' out where t: "read_turn 1 np ?r = (r', out)" by fastforce
  have i: "ring_inv ?r" "err_ok ?r" "rb_block ?r" using assms(1-3) by simp_all
  note ts = read_turn_spec[OF i assms(6) t] and t = t[unfolded One_nat_def]
  show ?thesis
  proof (cases "content (p_rb s) = []")
    case True
    then have "rb_err (p_rb s) = None" using assms(7) live_err[OF assms(4)] readErr_queue[OF assms(1)] by auto
    then show ?thesis
      using ts True assms(4,6) by (simp add: t pipe_inv_def pipe_live_def unsent_def split: writer.splits)
  next
    case False
    then obtain e where o: "out = Done (take np (content (p_rb s))) e" "e = None \<or> e = readErr r'"
        "rb_readCond r' = {}" "rb_writeCond r' = rb_writeCond (p_rb s)" using ts by auto
    have c: "content r' = drop np (content (p_rb s))" "ring_inv r'" "err_ok r'" "rb_block r'" "rb_err r' = rb_err (p_rb s)"
      using ts by simp_all
    let ?out = "p_out s @ take np (content (p_rb s))"
    have "?out @ content r' @ x = p_out s @ content (p_rb s) @ x" for x by (simp add: c(1))
    then have l: "pipe_live whole (s\<lparr>p_rb := r', p_out := ?out, p_reader := RRun\<rparr>)"
      using assms(4) False o(3) c(5) by (auto simp: pipe_live_def unsent_def split: writer.splits)
    show ?thesis
    proof (cases e)
      case None
      have eq: "s\<lparr>p_rb := r', p_reader := RRun, p_out := ?out\<rparr> = s\<lparr>p_rb := r', p_out := ?out, p_reader := RRun\<rparr>" by simp
      have "pipe_live whole (s\<lparr>p_rb := r', p_reader := RRun, p_out := ?out\<rparr>)" unfolding eq by (rule l)
      then show ?thesis using None c o(1) by (simp add: t pipe_inv_def)
    next
      case (Some x)
      then have x: "x = EOF" "content r' = []" "rb_err r' = Some EOF"
        using o(2) readErr_queue[OF c(2)] live_err[OF assms(4)] c(5) by (auto split: if_splits)
      show ?thesis using live_eof[OF l x(2,3)] c Some x(1) o(1) by (simp add: t pipe_inv_def)
    qed
  qed
qed

lemma live_read_eof:
  assumes "ring_inv (p_rb s)" "err_ok (p_rb s)" "rb_block (p_rb s)" and "pipe_live whole s" and "p_reader s = RRun \<or> p_reader s = RParked np" and "readErr (p_rb s) = Some e"
  shows "pipe_inv whole (after_read ((p_rb s)\<lparr>rb_wg := k\<rparr>, Done [] (Some e)) s)"
proof -
  let ?r = "(p_rb s)\<lparr>rb_wg := k\<rparr>"
  have e: "e = EOF" "content (p_rb s) = []" "rb_err (p_rb s) = Some EOF"
    using assms(6) live_err[OF assms(4)] readErr_queue[OF assms(1)] by (auto split: if_splits)
  have "pipe_live whole (s\<lparr>p_rb := ?r, p_out := p_out s, p_reader := RRun\<rparr>)"
    using assms(4,5) by (auto simp: pipe_live_def unsent_def split: writer.splits)
  then show ?thesis using live_eof[where r' = ?r and whole = whole and s = s and out = "p_out s"] assms(1-3) e by (simp add: pipe_inv_def)
qed

lemma failed_read:
  assumes "pipe_inv whole s" and "pipe_failed whole s" and "p_reader s = RRun \<or> p_reader s = RParked np"
  shows "readErr (p_rb s) \<noteq> None" and "readErr (p_rb s) = Some e \<Longrightarrow> pipe_inv whole (after_read ((p_rb s)\<lparr>rb_wg := k\<rparr>, Done [] (Some e)) s)"
proof -
  have i: "ring_inv (p_rb s)" "err_ok (p_rb s)" "rb_block (p_rb s)" using assms(1) by (simp_all add: pipe_inv_def)
  note f = failed_conds[OF assms(2)]
  show "readErr (p_rb s) \<noteq> None" using f readErr_queue[OF i(1)] by (auto simp: fatal_def split: if_splits)
  assume e: "readErr (p_rb s) = Some e"
  then have "e \<noteq> EOF" using f readErr_queue[OF i(1)] by (auto simp: fatal_def split: if_splits)
  then show "pipe_inv whole (after_read ((p_rb s)\<lparr>rb_wg := k\<rparr>, Done [] (Some e)) s)"
    using i f assms(2,3) close_failed[of "(p_rb s)\<lparr>rb_wg := k\<rparr>"]
    by (auto simp: close_defs pipe_inv_def pipe_failed_def split: writer.splits)
qed

lemma read_turns:
  assumes "pipe_inv whole s" and "p_reader s = RRun \<or> p_reader s = RParked np" and "0 < np"
  shows "readErr (p_rb s) = None \<Longrightarrow> pipe_inv whole (after_read (read_turn 1 np ((p_rb s)\<lparr>rb_wg := k\<rparr>)) s)"
    and "readErr (p_rb s) = Some e \<Longrightarrow> pipe_inv whole (after_read ((p_rb s)\<lparr>rb_wg := k\<rparr>, Done [] (Some e)) s)"
proof -
  have i: "ring_inv (p_rb s)" "err_ok (p_rb s)" "rb_block (p_rb s)" using assms(1) by (simp_all add: pipe_inv_def)
  have m: "\<not> pipe_live whole s \<Longrightarrow> pipe_failed whole s" using assms(1) by (auto simp: pipe_inv_def)
  show "pipe_inv whole (after_read (read_turn 1 np ((p_rb s)\<lparr>rb_wg := k\<rparr>)) s)" if "readErr (p_rb s) = None"
    using live_read_turn[OF i _ assms(2,3) that] failed_read(1)[OF assms(1) m assms(2)] that by (cases "pipe_live whole s") simp_all
  show "pipe_inv whole (after_read ((p_rb s)\<lparr>rb_wg := k\<rparr>, Done [] (Some e)) s)" if "readErr (p_rb s) = Some e"
    using live_read_eof[OF i _ assms(2) that] failed_read(2)[OF assms(1) m assms(2) that] by (cases "pipe_live whole s") simp_all
qed

lemma read_step:
  assumes "pipe_inv whole s" and "p_reader s = RRun" and "0 < np"
  shows "pipe_inv whole (after_read (ring_Read 1 np (p_rb s)) s)"
proof -
  have "(p_rb s)\<lparr>rb_wg := rb_wg (p_rb s)\<rparr> = p_rb s" by simp
  then show ?thesis
    using read_turns(1)[OF assms(1) disjI1[OF assms(2)] assms(3)] read_turns(2)[OF assms(1) disjI1[OF assms(2)] assms(3), of _ "rb_wg (p_rb s)"] assms(3)
    by (cases "readErr (p_rb s)") (simp_all add: ring_Read_def)
qed

lemma read_woken_step:
  assumes "pipe_inv whole s" and "p_reader s = RParked np"
  shows "pipe_inv whole (after_read (read_wake 1 np (p_rb s)) s)"
proof -
  have np: "0 < np" using assms by (auto simp: pipe_inv_def pipe_live_def pipe_failed_def)
  have "(p_rb s)\<lparr>rb_wg := rb_wg (p_rb s)\<rparr> = p_rb s" by simp
  then show ?thesis
    using read_turns(1)[OF assms(1) disjI2[OF assms(2)] np, of "rb_wg (p_rb s)"] read_turns(2)[OF assms(1) disjI2[OF assms(2)] np]
    by (cases "readErr (p_rb s)") (simp_all add: read_wake_def)
qed

lemma read_total_step:
  assumes "pipe_inv whole s" and "p_reader s = RRun" and "length whole \<le> length (p_out s)"
  shows "pipe_inv whole (s\<lparr>p_reader := REnd\<rparr>)"
proof (cases "pipe_live whole s")
  case True
  then have "p_out s @ content (p_rb s) @ unsent s = whole" by (simp add: pipe_live_def)
  then have "content (p_rb s) = [] \<and> unsent s = []" using assms(3) by auto
  then show ?thesis using True assms(1,2) by (auto simp: pipe_inv_def pipe_live_def unsent_def split: writer.splits)
next
  case False
  then have f: "pipe_failed whole s" using assms(1) by (simp add: pipe_inv_def)
  then obtain rest where "p_out s @ rest = whole" by (auto simp: pipe_failed_def)
  then have "p_out s = whole" using assms(3) by auto
  then show ?thesis using f assms(1,2) by (auto simp: pipe_inv_def pipe_failed_def split: writer.splits)
qed

lemma drive_fails_step:
  assumes "pipe_inv whole s" and "\<forall>e. p_reader s \<noteq> RDone e" and "e \<noteq> IoEOF"
  shows "pipe_inv whole (drive_returns (Some e) s)"
proof (cases "pipe_live whole s")
  case True
  have i: "ring_inv (p_rb s)" "err_ok (p_rb s)" "rb_block (p_rb s)" using assms(1) by (simp_all add: pipe_inv_def)
  have "fatal (rb_err (p_rb s)) = None" using live_err[OF True] by (auto simp: fatal_def)
  then have c: "CloseWithError (Some (ExtErr e)) (p_rb s)
      = (p_rb s)\<lparr>rb_err := Some (ExtErr e), rb_readCond := {}, rb_writeCond := {}\<rparr>"
    using i close_live[of "p_rb s" "ExtErr e"] by (simp add: close_defs)
  have "\<exists>rest. p_out s @ rest = whole" "p_late s = None" using True by (auto simp: pipe_live_def)
  moreover have "case p_writer s of WParked p _ \<Rightarrow> p \<noteq> [] | WDone we \<Rightarrow> p_out s = whole | _ \<Rightarrow> True"
    using True by (auto simp: pipe_live_def unsent_def split: writer.splits)
  ultimately show ?thesis
    using i assms(3) by (auto simp: drive_returns_def c pipe_inv_def pipe_failed_def fatal_def split: writer.splits)
next
  case False
  then have f: "pipe_failed whole s" using assms(1) by (simp add: pipe_inv_def)
  then show ?thesis using assms(1) failed_conds[OF f] close_failed[of "p_rb s"]
    by (auto simp: drive_returns_def close_defs pipe_inv_def pipe_failed_def split: writer.splits)
qed

lemma drive_ends_step:
  assumes "pipe_inv whole s" and "p_reader s = REnd"
  shows "pipe_inv whole (drive_returns None s)"
proof (cases "pipe_live whole s")
  case True
  have i: "ring_inv (p_rb s)" "err_ok (p_rb s)" "rb_block (p_rb s)" using assms(1) by (simp_all add: pipe_inv_def)
  have "CloseWithError None (p_rb s) = (p_rb s)\<lparr>rb_err := Some EOF, rb_readCond := {}, rb_writeCond := {}\<rparr>"
    using i live_err[OF True] close_live[of "p_rb s" EOF] by (auto simp: close_defs fatal_def)
  then show ?thesis
    using True i assms(2) by (auto simp: drive_returns_def pipe_inv_def pipe_live_def unsent_def split: writer.splits)
next
  case False
  then have f: "pipe_failed whole s" using assms(1) by (simp add: pipe_inv_def)
  then show ?thesis using assms failed_conds[OF f] close_failed[of "p_rb s"]
    by (auto simp: drive_returns_def close_defs pipe_inv_def pipe_failed_def split: writer.splits)
qed

lemma write_late_step:
  assumes "pipe_inv whole s" and "p_writer s = WRun \<or> (\<exists>p wrote. p_writer s = WParked p wrote)"
  shows "pipe_inv whole (write_late s)"
proof (cases "pipe_live whole s")
  case True
  have i: "ring_inv (p_rb s)" "err_ok (p_rb s)" "rb_block (p_rb s)" using assms(1) by (simp_all add: pipe_inv_def)
  have "CloseWithError (Some (ExtErr ContextDeadlineExceeded)) (p_rb s)
      = (p_rb s)\<lparr>rb_err := Some (ExtErr ContextDeadlineExceeded), rb_readCond := {}, rb_writeCond := {}\<rparr>"
    using i live_err[OF True] close_live[of "p_rb s" "ExtErr ContextDeadlineExceeded"] by (auto simp: close_defs fatal_def)
  then show ?thesis
    using True i assms(2) by (auto simp: write_late_def pipe_inv_def pipe_failed_def pipe_live_def unsent_def fatal_def split: writer.splits reader.splits)
next
  case False
  then have f: "pipe_failed whole s" using assms(1) by (simp add: pipe_inv_def)
  then show ?thesis using assms failed_conds[OF f] close_failed[of "p_rb s"]
    by (auto simp: write_late_def close_defs pipe_inv_def pipe_failed_def split: writer.splits)
qed

theorem pipe_step_inv:
  assumes "pipe_step totalFileSize s s'" and "pipe_inv whole s" and "0 \<le> totalFileSize \<longrightarrow> int (length whole) \<le> totalFileSize"
  shows "pipe_inv whole s'"
  using assms
proof (induction rule: pipe_step.induct)
  case (step_write s p ps)
  then show ?case unfolding pipe_inv_def[of _ s] using live_write failed_write by blast
next
  case (step_write_woken s p wrote)
  then show ?case unfolding pipe_inv_def[of _ s] using live_wake failed_wake by blast
next
  case (step_read s np)
  then show ?case using read_step by blast
next
  case (step_read_woken s np)
  then show ?case using read_woken_step by blast
next
  case (step_read_total s)
  then show ?case using read_total_step by simp
qed (simp_all add: close_step flush_step drive_fails_step drive_ends_step failed_late)

inductive pipe_reachable :: "int \<Rightarrow> nat \<Rightarrow> byte list list \<Rightarrow> pipe \<Rightarrow> bool" for totalFileSize sz chunks where
  start: "pipe_reachable totalFileSize sz chunks (pipe_init sz chunks)"
| next_state: "pipe_reachable totalFileSize sz chunks s \<Longrightarrow> pipe_run totalFileSize s s' \<Longrightarrow> pipe_reachable totalFileSize sz chunks s'"

lemma run_inv: "pipe_run totalFileSize s s' \<Longrightarrow> pipe_inv whole s \<Longrightarrow> 0 \<le> totalFileSize \<longrightarrow> int (length whole) \<le> totalFileSize \<Longrightarrow> pipe_inv whole s'"
  by (induction rule: pipe_run.induct) (simp_all add: pipe_step_inv write_late_step)

lemma reachable_inv:
  "pipe_reachable totalFileSize sz chunks s \<Longrightarrow> 0 < sz \<Longrightarrow> 0 \<le> totalFileSize \<longrightarrow> int (length (concat chunks)) \<le> totalFileSize
   \<Longrightarrow> pipe_inv (concat chunks) s"
  by (induction rule: pipe_reachable.induct) (auto intro: pipe_init_inv run_inv)

section \<open>Progress\<close>






section \<open>Termination\<close>

text \<open>What is left to do, in steps: a byte is written and read, a call is finished, a goroutine comes
  closer to its end; waking a goroutine up costs less than what the other one has done for it.\<close>

fun writer_rank :: "writer \<Rightarrow> bool \<Rightarrow> nat" where
  "writer_rank WRun waits = 5"
| "writer_rank (WParked _ _) waits = (if waits then 3 else 4)"
| "writer_rank WClosing waits = 2"
| "writer_rank WFlush waits = (if waits then 0 else 1)"
| "writer_rank (WDone _) waits = 0"

fun reader_rank :: "reader \<Rightarrow> bool \<Rightarrow> nat" where
  "reader_rank RRun waits = 8"
| "reader_rank (RParked _) waits = (if waits then 6 else 7)"
| "reader_rank REnd waits = 3"
| "reader_rank (RDone _) waits = 0"

fun in_call :: "writer \<Rightarrow> nat" where
  "in_call (WParked _ _) = 1"
| "in_call _ = 0"

fun late_work :: "(byte list \<times> nat) option \<Rightarrow> nat" where
  "late_work (Some (p, _)) = 80 * length p + 15"
| "late_work None = 0"

definition work :: "pipe \<Rightarrow> nat" where
  "work s = late_work (p_late s) + 40 * (2 * length (unsent s) + length (content (p_rb s))) + 20 * (length (p_data s) + in_call (p_writer s))
     + 2 * writer_rank (p_writer s) (0 \<in> rb_readCond (p_rb s)) + reader_rank (p_reader s) (1 \<in> rb_writeCond (p_rb s))"

lemma rank_up: "writer_rank w b \<le> writer_rank w b' + 1" "reader_rank r b \<le> reader_rank r b' + 1"
  by (cases w; simp) (cases r; simp)

lemma rank_max: "writer_rank w b \<le> 5" "reader_rank r b \<le> 8"
  by (cases w; simp) (cases r; simp)

lemma setErr_content [simp]: "content (fst (setErr e r)) = content r"
  by (simp add: setErr_def Let_def)

lemma close_content [simp]: "content (CloseWithError e r) = content r" "content (CloseWriter r) = content r"
  by (simp_all add: close_defs)

lemma work_wake:
  assumes "ring_inv r" "err_ok r" "rb_block r" and "p \<noteq> []" and "p_writer s = WParked p wrote"
    and "content (p_rb s) = content r" and "0 \<notin> rb_readCond (p_rb s)"
  shows "work (after_write (write_wake 0 p wrote r) s) < work s"
proof -
  let ?n = "min (length p) (rb_size r - length (content r))"
  obtain r' out where w: "write_turn 0 p wrote r = (r', out)" by fastforce
  note ws = write_turn_spec[OF assms(1-4) w]
  have c: "length (content r') = length (content r) + ?n" using ws by simp
  note ups = rank_up(2)[of "p_reader s" "1 \<in> rb_writeCond r'" "1 \<in> rb_writeCond (p_rb s)"]
  consider (ok) m where "out = Done m None" | (failed) m e where "out = Done m (Some e)"
    | (waits) "out = Wait (drop ?n p, wrote + ?n)" "0 \<in> rb_readCond r'"
    using ws by (cases "rb_err r") (auto split: if_splits)
  then show ?thesis
  proof cases
    case ok
    then show ?thesis
      using c assms(5-7) rank_max(2)[of "p_reader s" "1 \<in> rb_writeCond r'"]
      by (simp add: write_wake_def assms(4) w work_def unsent_def)
  next
    case (failed m e)
    then show ?thesis
      using c assms(5-7) rank_max(2)[of "p_reader s" "1 \<in> rb_writeCond (CloseWithError (Some e) r')"]
      by (simp add: write_wake_def assms(4) w work_def unsent_def)
  next
    case waits
    then show ?thesis
      using c assms(5-7) ups by (simp add: write_wake_def assms(4) w work_def unsent_def)
  qed
qed

lemma setErr_None: "setErr None r = (r, fatal (rb_err r))"
  by (auto simp: setErr_def fatal_def)

lemma work_write:
  assumes "ring_inv (p_rb s)" "err_ok (p_rb s)" "rb_block (p_rb s)" and "p_writer s = WRun" and "p_data s = p # ps"
  shows "work (after_write (ring_Write 0 p (p_rb s)) (s\<lparr>p_data := ps\<rparr>)) < work s"
proof (cases "p \<noteq> [] \<and> rb_err (p_rb s) = None")
  case True
  let ?n = "min (length p) (rb_size (p_rb s) - length (content (p_rb s)))"
  obtain r' out where w: "write_turn 0 p 0 (p_rb s) = (r', out)" by fastforce
  note ws = write_turn_spec[OF assms(1-3) conjunct1[OF True] w]
  have c: "length (content r') = length (content (p_rb s)) + ?n" using ws by simp
  have "out = Done ?n None \<or> out = Wait (drop ?n p, ?n) \<and> 0 \<in> rb_readCond r'"
    using ws True by (auto split: if_splits)
  then show ?thesis
    using c True assms(4,5) rank_max(2)[of "p_reader s" "1 \<in> rb_writeCond r'"]
      rank_up(2)[of "p_reader s" "1 \<in> rb_writeCond r'" "1 \<in> rb_writeCond (p_rb s)"]
    by (auto simp: ring_Write_def w work_def unsent_def)
next
  case False
  then obtain e where w: "ring_Write 0 p (p_rb s) = (p_rb s, Done 0 e)"
    by (cases "p = []"; cases "rb_err (p_rb s)") (auto simp: ring_Write_def setErr_None)
  then show ?thesis
    using assms(4,5) rank_max(2)[of "p_reader s" "1 \<in> rb_writeCond (p_rb s)"]
      rank_max(2)[of "p_reader s" "1 \<in> rb_writeCond (CloseWithError e (p_rb s))"]
    by (cases e) (simp_all add: work_def unsent_def)
qed

lemma work_flush:
  assumes "ring_inv (p_rb s)" "err_ok (p_rb s)" "rb_block (p_rb s)"
    and "p_writer s = WClosing \<or> p_writer s = WFlush \<and> 0 \<notin> rb_readCond (p_rb s)"
  shows "work (after_flush (ring_Flush 0 (p_rb s)) s) < work s"
proof -
  have "ring_Flush 0 (p_rb s) = ((p_rb s)\<lparr>rb_readCond := insert 0 (rb_readCond (p_rb s))\<rparr>, Wait ())
      \<or> (\<exists>e. ring_Flush 0 (p_rb s) = (p_rb s, Done () e))"
    using assms(3) by (auto simp: ring_Flush_def split: option.splits)
  then show ?thesis using assms(4) by (auto simp: work_def unsent_def)
qed

lemma work_read_turn:
  assumes "ring_inv (p_rb s)" "err_ok (p_rb s)" "rb_block (p_rb s)" and "0 < np"
    and "p_reader s = RRun \<or> p_reader s = RParked np \<and> 1 \<notin> rb_writeCond (p_rb s)"
  shows "work (after_read (read_turn 1 np ((p_rb s)\<lparr>rb_wg := k\<rparr>)) s) < work s"
proof -
  let ?r = "(p_rb s)\<lparr>rb_wg := k\<rparr>"
  obtain r' out where t: "read_turn 1 np ?r = (r', out)" by fastforce
  have i: "ring_inv ?r" "err_ok ?r" "rb_block ?r" using assms(1-3) by simp_all
  note ts = read_turn_spec[OF i assms(4) t] and t = t[unfolded One_nat_def]
  show ?thesis
  proof (cases "content (p_rb s) = []")
    case True
    then show ?thesis using ts assms(5) by (auto simp: t work_def unsent_def)
  next
    case False
    then obtain e where o: "out = Done (take np (content (p_rb s))) e" using ts by auto
    have c: "length (content r') < length (content (p_rb s))" using ts False assms(4) by simp
    show ?thesis
      using o c assms(5) rank_max(1)[of "p_writer s" "0 \<in> rb_readCond r'"]
        rank_max(1)[of "p_writer s" "0 \<in> rb_readCond (CloseWithError (if e = Some EOF then None else e) r')"]
      by (cases e) (auto simp: t work_def unsent_def Let_def split: if_splits)
  qed
qed

lemma work_read_end:
  assumes "p_reader s = RRun \<or> p_reader s = RParked np \<and> 1 \<notin> rb_writeCond (p_rb s)"
  shows "work (after_read ((p_rb s)\<lparr>rb_wg := k\<rparr>, Done [] (Some e)) s) < work s"
  using assms rank_up(1)[of "p_writer s" "0 \<in> rb_readCond (CloseWithError (Some e) ((p_rb s)\<lparr>rb_wg := k\<rparr>))" "0 \<in> rb_readCond (p_rb s)"]
  by (auto simp: work_def unsent_def Let_def split: if_splits)

lemma work_late:
  assumes "pipe_inv whole s" and "p_late s = Some (p, wrote)"
  shows "work (s\<lparr>p_rb := fst (write_wake 0 p wrote (p_rb s)), p_late := None\<rparr>) < work s"
proof -
  have i: "ring_inv (p_rb s)" "err_ok (p_rb s)" "rb_block (p_rb s)" "p \<noteq> []"
    using assms by (auto simp: pipe_inv_def pipe_live_def pipe_failed_def)
  obtain r' out where w: "write_turn 0 p wrote (p_rb s) = (r', out)" by fastforce
  have "length (content r') \<le> length (content (p_rb s)) + length p"
    using write_turn_spec[OF i w] by simp
  then show ?thesis
    using i(4) assms(2) rank_up(1)[of "p_writer s" "0 \<in> rb_readCond r'" "0 \<in> rb_readCond (p_rb s)"]
      rank_up(2)[of "p_reader s" "1 \<in> rb_writeCond r'" "1 \<in> rb_writeCond (p_rb s)"]
    by (simp add: write_wake_def w work_def unsent_def)
qed

lemma work_returns:
  assumes "\<forall>e. p_reader s \<noteq> RDone e"
  shows "work (drive_returns e s) < work s"
proof -
  have "3 \<le> reader_rank (p_reader s) (1 \<in> rb_writeCond (p_rb s))" using assms by (cases "p_reader s") simp_all
  then show ?thesis
    using rank_up(1)[of "p_writer s" "0 \<in> rb_readCond (CloseWithError (map_option ExtErr e) (p_rb s))" "0 \<in> rb_readCond (p_rb s)"]
    by (simp add: work_def unsent_def drive_returns_def)
qed

lemma work_write_late:
  assumes "p_late s = None" and "p_writer s = WRun \<or> (\<exists>p wrote. p_writer s = WParked p wrote)"
  shows "work (write_late s) < work s"
  using assms rank_up(2)[of "p_reader s" "1 \<in> rb_writeCond (CloseWithError (Some (ExtErr ContextDeadlineExceeded)) (p_rb s))" "1 \<in> rb_writeCond (p_rb s)"]
  by (auto simp: work_def unsent_def write_late_def)

theorem pipe_step_work:
  assumes "pipe_step totalFileSize s s'" and "pipe_inv whole s"
  shows "work s' < work s"
  using assms
proof (induction rule: pipe_step.induct)
  case (step_write s p ps)
  then show ?case using work_write by (simp add: pipe_inv_def)
next
  case (step_write_woken s p wrote)
  then have "p \<noteq> []" by (auto simp: pipe_inv_def pipe_live_def pipe_failed_def)
  then show ?case using step_write_woken work_wake[of "p_rb s" p s wrote] by (simp add: pipe_inv_def)
next
  case (step_close_writer s)
  then show ?case
    using rank_up(2)[of "p_reader s" "1 \<in> rb_writeCond (CloseWriter (p_rb s))" "1 \<in> rb_writeCond (p_rb s)"]
    by (simp add: work_def unsent_def)
next
  case (step_flush s)
  then show ?case using work_flush by (simp add: pipe_inv_def)
next
  case (step_read s np)
  then show ?case
    using work_read_turn[of s np "Suc (rb_wg (p_rb s))"] work_read_end[of s np "rb_wg (p_rb s)"]
    by (auto simp: pipe_inv_def ring_Read_def split: option.splits)
next
  case (step_read_woken s np)
  have "(p_rb s)\<lparr>rb_wg := rb_wg (p_rb s)\<rparr> = p_rb s" by simp
  moreover have "0 < np" using step_read_woken by (auto simp: pipe_inv_def pipe_live_def pipe_failed_def)
  ultimately show ?case
    using step_read_woken work_read_turn[of s np "rb_wg (p_rb s)"] work_read_end[of s np "rb_wg (p_rb s) - 1"]
    by (auto simp: pipe_inv_def read_wake_def split: option.splits)
next
  case (step_read_total s)
  then show ?case by (simp add: work_def unsent_def)
next
  case (step_returns s)
  then show ?case using work_returns by simp
next
  case (step_fails s e)
  then show ?case using work_returns by simp
next
  case (step_late s p wrote)
  then show ?case using work_late by simp
qed

lemma pipe_run_work: "pipe_run totalFileSize s s' \<Longrightarrow> pipe_inv whole s \<Longrightarrow> work s' < work s"
proof (induction rule: pipe_run.induct)
  case (run_late s)
  then have "p_late s = None" by (cases "p_late s") (auto simp: pipe_inv_def pipe_live_def pipe_failed_def)
  then show ?case using work_write_late[OF _ run_late(1)] by simp
qed (rule pipe_step_work)

lemma run_reachable: "(pipe_run totalFileSize ^^ k) (pipe_init sz chunks) s \<Longrightarrow> pipe_reachable totalFileSize sz chunks s"
  by (induction k arbitrary: s) (auto intro: pipe_reachable.intros)

section \<open>Properties\<close>


text \<open>the transfer terminates: however writer and drive are scheduled, and whatever the sizes of the drive's
  reads, a run has at most as many steps as this linear bound.\<close>

theorem pipe_terminates:
  assumes "(pipe_run totalFileSize ^^ k) (pipe_init sz chunks) s" and "0 < sz"
    and "0 \<le> totalFileSize \<longrightarrow> int (length (concat chunks)) \<le> totalFileSize"
  shows "k \<le> 80 * length (concat chunks) + 20 * length chunks + 18"
proof -
  have "k + work s \<le> work (pipe_init sz chunks)"
    using assms(1)
  proof (induction k arbitrary: s)
    case (Suc k)
    then obtain s0 where s0: "(pipe_run totalFileSize ^^ k) (pipe_init sz chunks) s0" "pipe_run totalFileSize s0 s" by auto
    have "work s < work s0" by (rule pipe_run_work[OF s0(2) reachable_inv[OF run_reachable[OF s0(1)] assms(2,3)]])
    then show ?case using Suc.IH[OF s0(1)] by linarith
  qed simp
  moreover have "work (pipe_init sz chunks) \<le> 80 * length (concat chunks) + 20 * length chunks + 18"
    using assms(2) new_ring[of "replicate sz 0" True] by (simp add: work_def pipe_init_def unsent_def NewRing_def)
  ultimately show ?thesis by linarith
qed

text \<open>A run in which the writer has to wait for room and then, closing, for the drive, which has been told the size and
  does not read EOF. Its failure after that, when the file is flushed, comes too late for the writer's \<open>Close\<close>, which has returned nil.\<close>

definition sample_pipe :: pipe where
  "sample_pipe = \<lparr>p_rb = \<lparr>rb_buf = [3, 2], rb_size = 2, rb_r = 1, rb_w = 1, rb_isFull = False, rb_err = Some EOF,
     rb_block = True, rb_wg = 0, rb_readCond = {}, rb_writeCond = {}\<rparr>, p_data = [], p_writer = WDone None,
     p_reader = REnd, p_out = [1, 2, 3], p_late = None\<rparr>"

lemmas pipe_eval = ring_Write_def write_turn_def ring_write_def write_return_def setErr_def copy_to_def write_wake_def
  ring_Read_def read_wake_def readErr_def read_turn_def ring_read_def CloseWithError_def CloseWriter_def ring_Flush_def Let_def

lemma step_last: "pipe_step totalFileSize s t \<Longrightarrow> (pipe_run totalFileSize ^^ Suc 0) s t"
  by (auto intro: run_step)

lemma step_chain: "pipe_step totalFileSize s t \<Longrightarrow> (pipe_run totalFileSize ^^ k) t u \<Longrightarrow> (pipe_run totalFileSize ^^ Suc k) s u"
  by (rule relpowp_Suc_I2) (rule run_step)

lemma sample_run: "(pipe_run 3 ^^ 8) (pipe_init 2 [[1, 2, 3]]) sample_pipe"
proof -
  let ?r = "\<lparr>rb_buf = [1, 2], rb_size = 2, rb_r = 0, rb_w = 0, rb_isFull = True, rb_err = None, rb_block = True, rb_wg = 0,
      rb_readCond = {0}, rb_writeCond = {}\<rparr>"
  let ?s = "\<lambda>r w rd out. \<lparr>p_rb = r, p_data = [], p_writer = w, p_reader = rd, p_out = out, p_late = None\<rparr>"
  let ?r2 = "?r\<lparr>rb_isFull := False, rb_readCond := {}\<rparr>"
  let ?r3 = "?r2\<lparr>rb_buf := [3, 2], rb_w := 1\<rparr>"
  let ?r4 = "?r3\<lparr>rb_err := Some EOF\<rparr>"
  have 1: "pipe_step 3 (pipe_init 2 [[1, 2, 3]]) (?s ?r (WParked [3] 2) RRun [])"
    using pipe_step.step_write[of "pipe_init 2 [[1, 2, 3]]" "[1, 2, 3]" "[]" 3]
    by (simp add: pipe_init_def NewRing_def NewBuffer_def SetBlocking_def numeral_2_eq_2 pipe_eval)
  have 2: "pipe_step 3 (?s ?r (WParked [3] 2) RRun []) (?s ?r2 (WParked [3] 2) RRun [1, 2])"
    using pipe_step.step_read[of "?s ?r (WParked [3] 2) RRun []" 8 3] by (simp add: pipe_eval)
  have 3: "pipe_step 3 (?s ?r2 (WParked [3] 2) RRun [1, 2]) (?s ?r3 WRun RRun [1, 2])"
    using pipe_step.step_write_woken[of "?s ?r2 (WParked [3] 2) RRun [1, 2]" "[3]" 2 3] by (simp add: pipe_eval)
  have 4: "pipe_step 3 (?s ?r3 WRun RRun [1, 2]) (?s ?r4 WClosing RRun [1, 2])"
    using pipe_step.step_close_writer[of "?s ?r3 WRun RRun [1, 2]" 3] by (simp add: pipe_eval)
  have 5: "pipe_step 3 (?s ?r4 WClosing RRun [1, 2]) (?s (?r4\<lparr>rb_readCond := {0}\<rparr>) WFlush RRun [1, 2])"
    using pipe_step.step_flush[of "?s ?r4 WClosing RRun [1, 2]" 3] by (simp add: pipe_eval)
  have 6: "pipe_step 3 (?s (?r4\<lparr>rb_readCond := {0}\<rparr>) WFlush RRun [1, 2]) (?s (?r4\<lparr>rb_r := 1\<rparr>) WFlush RRun [1, 2, 3])"
    using pipe_step.step_read[of "?s (?r4\<lparr>rb_readCond := {0}\<rparr>) WFlush RRun [1, 2]" 1 3] by (simp add: pipe_eval)
  have 7: "pipe_step 3 (?s (?r4\<lparr>rb_r := 1\<rparr>) WFlush RRun [1, 2, 3]) (?s (?r4\<lparr>rb_r := 1\<rparr>) (WDone None) RRun [1, 2, 3])"
    using pipe_step.step_flush[of "?s (?r4\<lparr>rb_r := 1\<rparr>) WFlush RRun [1, 2, 3]" 3] by (simp add: pipe_eval)
  have 8: "pipe_step 3 (?s (?r4\<lparr>rb_r := 1\<rparr>) (WDone None) RRun [1, 2, 3]) sample_pipe"
    using pipe_step.step_read_total[of "?s (?r4\<lparr>rb_r := 1\<rparr>) (WDone None) RRun [1, 2, 3]" 3] by (simp add: sample_pipe_def)
  have "(8 :: nat) = Suc (Suc (Suc (Suc (Suc (Suc (Suc (Suc 0)))))))" by simp
  then show ?thesis
    using step_chain[OF 1 step_chain[OF 2 step_chain[OF 3 step_chain[OF 4 step_chain[OF 5 step_chain[OF 6 step_chain[OF 7 step_last[OF 8]]]]]]]] by metis
qed

theorem pipe_terminates_witness: "(8::nat) \<le> 80 * length (concat [[1 :: byte, 2, 3]]) + 20 * length [[1 :: byte, 2, 3]] + 18"
  by (rule pipe_terminates[OF sample_run]) simp_all

lemma late_failure_is_lost:
  assumes "e \<noteq> IoEOF"
  shows "\<exists>s. pipe_reachable 3 2 [[1, 2, 3]] s \<and> p_writer s = WDone None \<and> p_reader s = RDone (Some (ExtErr e))"
proof -
  have "pipe_run 3 sample_pipe (drive_returns (Some e) sample_pipe)"
    by (rule run_step, rule step_fails) (use assms in \<open>simp_all add: sample_pipe_def\<close>)
  with run_reachable[OF sample_run] have "pipe_reachable 3 2 [[1, 2, 3]] (drive_returns (Some e) sample_pipe)"
    by (rule pipe_reachable.next_state)
  then show ?thesis by (intro exI[of _ "drive_returns (Some e) sample_pipe"]) (simp add: drive_returns_def sample_pipe_def)
qed


text \<open>\<open>ReadByte\<close> makes room but does not signal \<open>readCond\<close>: a writer that waits for room is not woken
  by it and waits on, though there is room now. (\<open>Read\<close> signals.)\<close>

lemma ReadByte_strands_writer:
  assumes "ring_inv r" and "rb_err r = None" and "length (content r) = rb_size r" and "g \<in> rb_readCond r"
  shows "\<exists>r' b. ring_ReadByte h r = (r', Done b None) \<and> length (content r') < rb_size r' \<and> g \<in> rb_readCond r'"
proof -
  have ne: "content r \<noteq> []" "readErr r = None" using assms by (auto simp: ring_inv_def readErr_def)
  obtain r1 p err where e: "ring_read 1 r = (r1, p, err)" using prod_cases3 by blast
  have s: "ring_inv r1" "same_rest r r1" "content r1 = drop 1 (content r)" using ring_read_spec[OF assms(1) _ e] by simp_all
  then have "readErr r1 = None" "rb_readCond r1 = rb_readCond r" using assms(2) by (auto simp: readErr_def same_rest_def)
  moreover have "length (content r1) < rb_size r1" using s assms(3) ne by (cases "content r") (auto simp: same_rest_def)
  ultimately show ?thesis using ring_ReadByte_read[OF assms(1) ne] e assms(4) by simp
qed

end
