(* ===== verification/Path_Join.thy ===== *)
theory Path_Join
  imports Go_Prelude
begin

text \<open>
  Object paths (\<open>pathJoin\<close> of \<open>cmd/object-api-utils.go\<close>). \<open>pathJoin\<close> concatenates and calls the
  standard library's \<open>path.Clean\<close> only when a scan, \<open>pathNeedsClean\<close>, says that it could change something.
  \<open>path.Clean\<close> and \<open>path.Join\<close> are modelled by their documentation: a path is cut at its slashes, empty and
  \<open>.\<close> elements go, \<open>..\<close> takes the element before it.
\<close>

section \<open>The standard library\<close>

fun split_slash :: "string \<Rightarrow> string list" where
  "split_slash [] = [[]]"
| "split_slash (c # cs) = (if c = CHR ''/'' then [] # split_slash cs
     else case split_slash cs of [] \<Rightarrow> [[c]] | e # es \<Rightarrow> (c # e) # es)"

fun join_slash :: "string list \<Rightarrow> string" where
  "join_slash [] = []"
| "join_slash [e] = e"
| "join_slash (e # es) = e @ CHR ''/'' # join_slash es"

text \<open>One element of a path; the elements kept so far are on a stack.\<close>

definition clean_step :: "bool \<Rightarrow> string list \<Rightarrow> string \<Rightarrow> string list" where
  "clean_step rooted stack e =
     (if e = [] \<or> e = ''.'' then stack
      else if e = ''..'' then
        (if stack \<noteq> [] \<and> hd stack \<noteq> ''..'' then tl stack else if rooted then stack else e # stack)
      else e # stack)"

definition is_rooted :: "string \<Rightarrow> bool" where
  "is_rooted p \<longleftrightarrow> p \<noteq> [] \<and> hd p = CHR ''/''"

definition path_Clean :: "string \<Rightarrow> string" where
  "path_Clean p =
     (let out = join_slash (rev (foldl (clean_step (is_rooted p)) [] (split_slash p)))
      in if is_rooted p then CHR ''/'' # out else if out = [] then ''.'' else out)"

definition path_Join :: "string list \<Rightarrow> string" where
  "path_Join elem =
     (let ne = filter (\<lambda>e. e \<noteq> []) elem in if ne = [] then [] else path_Clean (join_slash ne))"

section \<open>The code\<close>

text \<open>The scan from position \<open>r\<close> on; \<open>w\<close> counts what \<open>path.Clean\<close> would have written.\<close>

function needs_clean_from :: "bool \<Rightarrow> string \<Rightarrow> nat \<Rightarrow> bool" where
  "needs_clean_from rooted rest w =
     (case rest of
        [] \<Rightarrow> w = 0
      | c # cs \<Rightarrow>
          if of_char c > (127 :: nat) then True
          else if c = CHR ''/'' then True
          else if c = CHR ''.'' \<and> (cs = [] \<or> hd cs = CHR ''/'') then True
          else if c = CHR ''.'' \<and> hd cs = CHR ''.'' \<and> (tl cs = [] \<or> hd (tl cs) = CHR ''/'') then True
          else
            let w1 = (if rooted \<and> w \<noteq> 1 \<or> \<not> rooted \<and> w \<noteq> 0 then w + 1 else w);
                el = takeWhile (\<lambda>x. x \<noteq> CHR ''/'') rest;
                after = dropWhile (\<lambda>x. x \<noteq> CHR ''/'') rest
            in needs_clean_from rooted (if 1 < length after then tl after else after) (w1 + length el))"
  by pat_completeness auto
termination
proof (relation "measure (\<lambda>(rooted, rest, w). length rest)", goal_cases)
  case 1
  then show ?case by simp
next
  case (2 rooted rest w c cs w1 el after)
  have "length after \<le> length cs"
    using 2 length_dropWhile_le[of "\<lambda>x. x \<noteq> CHR ''/''" cs] by simp
  then show ?case using 2 by auto
qed

declare needs_clean_from.simps [simp del]

definition pathNeedsClean :: "string \<Rightarrow> bool" where
  "pathNeedsClean path =
     (if path = [] then True
      else if hd path = CHR ''/'' then needs_clean_from True (tl path) 1
      else needs_clean_from False path 0)"

definition hasSuffixByte :: "string \<Rightarrow> char \<Rightarrow> bool" where
  "hasSuffixByte s suffix \<longleftrightarrow> s \<noteq> [] \<and> last s = suffix"

fun join_loop :: "string list \<Rightarrow> string \<Rightarrow> nat \<Rightarrow> string" where
  "join_loop [] dst added = dst"
| "join_loop (e # es) dst added =
     (if added > 0 \<or> e \<noteq> []
      then join_loop es (dst @ (if added > 0 then [CHR ''/''] else []) @ e) (added + length e)
      else join_loop es dst added)"

definition pathJoin :: "string list \<Rightarrow> string" where
  "pathJoin elem =
     (let trailingSlash = (elem \<noteq> [] \<and> hasSuffixByte (last elem) CHR ''/'');
          dst = join_loop elem [] 0
      in if pathNeedsClean dst then
           (let s = path_Clean dst in if trailingSlash then s @ [CHR ''/''] else s)
         else if trailingSlash then dst @ [CHR ''/''] else dst)"

definition retainSlash :: "string \<Rightarrow> string" where
  "retainSlash s = (if s = [] then s else (if last s = CHR ''/'' then butlast s else s) @ [CHR ''/''])"

definition pathsJoinPrefix :: "string \<Rightarrow> string list \<Rightarrow> string list" where
  "pathsJoinPrefix prefix elem = map (\<lambda>e. pathJoin [prefix, e]) elem"

section \<open>A path that needs no cleaning\<close>

definition plain :: "string \<Rightarrow> bool" where
  "plain e \<longleftrightarrow> e \<noteq> [] \<and> e \<noteq> ''.'' \<and> e \<noteq> ''..'' \<and> CHR ''/'' \<notin> set e"

lemma split_nonempty [simp]: "split_slash p \<noteq> []"
  by (induction p) (auto split: list.splits)

lemma split_append: "split_slash (xs @ CHR ''/'' # ys) = split_slash xs @ split_slash ys"
  by (induction xs) (auto split: list.splits)

lemma split_no_slash: "CHR ''/'' \<notin> set e \<Longrightarrow> split_slash e = [e]"
  by (induction e) auto

lemma split_join: "es \<noteq> [] \<Longrightarrow> \<forall>e \<in> set es. CHR ''/'' \<notin> set e \<Longrightarrow> split_slash (join_slash es) = es"
  by (induction es rule: join_slash.induct) (simp_all add: split_no_slash split_append)

lemma clean_plain: "\<forall>e \<in> set es. plain e \<Longrightarrow> foldl (clean_step rooted) st es = rev es @ st"
  by (induction es arbitrary: st) (auto simp: plain_def clean_step_def)

lemma scan_plain:
  "\<not> needs_clean_from rooted rest w \<Longrightarrow> rest \<noteq> []
   \<Longrightarrow> \<exists>es. es \<noteq> [] \<and> rest = join_slash es \<and> (\<forall>e \<in> set es. plain e)"
proof (induction rest arbitrary: w rule: length_induct)
  case (1 rest)
  obtain c cs where rest: "rest = c # cs" using 1(3) by (cases rest) auto
  define el where "el = takeWhile (\<lambda>x. x \<noteq> CHR ''/'') rest"
  define after where "after = dropWhile (\<lambda>x. x \<noteq> CHR ''/'') rest"
  define w1 where "w1 = (if rooted \<and> w \<noteq> 1 \<or> \<not> rooted \<and> w \<noteq> 0 then w + 1 else w)"
  have step: "needs_clean_from rooted rest w = (if of_char c > (127 :: nat) then True
          else if c = CHR ''/'' then True
          else if c = CHR ''.'' \<and> (cs = [] \<or> hd cs = CHR ''/'') then True
          else if c = CHR ''.'' \<and> hd cs = CHR ''.'' \<and> (tl cs = [] \<or> hd (tl cs) = CHR ''/'') then True
          else needs_clean_from rooted (if 1 < length after then tl after else after) (w1 + length el))"
    by (subst needs_clean_from.simps) (simp only: rest list.case Let_def el_def after_def w1_def)
  have n: "c \<noteq> CHR ''/''" "\<not> (c = CHR ''.'' \<and> (cs = [] \<or> hd cs = CHR ''/''))"
      "\<not> (c = CHR ''.'' \<and> hd cs = CHR ''.'' \<and> (tl cs = [] \<or> hd (tl cs) = CHR ''/''))"
      and go: "\<not> needs_clean_from rooted (if 1 < length after then tl after else after) (w1 + length el)"
    using 1(2) unfolding step by (simp_all split: if_splits)
  have cut: "c # cs = el @ after" by (simp add: el_def after_def flip: rest)
  have ns: "CHR ''/'' \<notin> set el" by (auto simp: el_def dest: set_takeWhileD)
  have after: "after = [] \<or> hd after = CHR ''/''" using hd_dropWhile[of "\<lambda>x. x \<noteq> CHR ''/''" rest] by (auto simp: after_def)
  have "el \<noteq> []" using n(1) by (simp add: el_def rest)
  moreover have "el \<noteq> ''.''" using cut n(2) after by auto
  moreover have "el \<noteq> ''..''" using cut n(3) after by auto
  ultimately have pl: "plain el" using ns by (simp add: plain_def)
  show ?case
  proof (cases "after = []")
    case True
    then have "rest = join_slash [el]" using cut rest by simp
    then show ?thesis using pl by (intro exI[of _ "[el]"]) simp
  next
    case False
    then obtain as where as: "after = CHR ''/'' # as" using after by (cases after) auto
    have "as \<noteq> []"
    proof
      assume "as = []"
      then show False using go as by (simp add: needs_clean_from.simps[of rooted "''/''"])
    qed
    then have "\<not> needs_clean_from rooted as (w1 + length el)" using go as by simp
    moreover have "length as < length rest" using arg_cong[OF cut, of length] as rest by simp
    ultimately obtain es where es: "es \<noteq> []" "as = join_slash es" "\<forall>e \<in> set es. plain e"
      using 1(1) \<open>as \<noteq> []\<close> by blast
    have "rest = el @ CHR ''/'' # join_slash es" using cut as es(2) rest by simp
    then have "rest = join_slash (el # es)" using es(1) by (cases es) simp_all
    then show ?thesis using pl es(3) by (intro exI[of _ "el # es"]) simp
  qed
qed

text \<open>The scan is sound: what it lets through is left alone by \<open>path.Clean\<close>.\<close>

lemma needs_clean_sound:
  assumes "\<not> pathNeedsClean p"
  shows "path_Clean p = p"
proof (cases "is_rooted p")
  case True
  then obtain q where p: "p = CHR ''/'' # q" by (cases p) (auto simp: is_rooted_def)
  then have n: "\<not> needs_clean_from True q 1" using assms by (simp add: pathNeedsClean_def)
  show ?thesis
  proof (cases "q = []")
    case True
    then show ?thesis using p by (simp add: path_Clean_def is_rooted_def clean_step_def)
  next
    case False
    then obtain es where es: "es \<noteq> []" "q = join_slash es" "\<forall>e \<in> set es. plain e" using scan_plain[OF n] by blast
    have "split_slash p = [] # es" using es split_join[of es] p by (simp add: plain_def)
    then show ?thesis using es clean_plain[OF es(3), of True "[]"] True p
      by (simp add: path_Clean_def clean_step_def)
  qed
next
  case False
  then have n: "\<not> needs_clean_from False p 0" "p \<noteq> []" using assms
    by (auto simp: pathNeedsClean_def is_rooted_def split: if_splits)
  then obtain es where es: "es \<noteq> []" "p = join_slash es" "\<forall>e \<in> set es. plain e" using scan_plain by blast
  have "split_slash p = es" using es split_join[of es] by (simp add: plain_def)
  then show ?thesis using es clean_plain[OF es(3), of False "[]"] False n(2) by (simp add: path_Clean_def)
qed

section \<open>The two joins\<close>

lemma join_loop_added: "0 < n \<Longrightarrow> join_loop es dst n = dst @ concat (map (\<lambda>e. CHR ''/'' # e) es)"
  by (induction es arbitrary: dst n) simp_all

lemma join_loop_skip: "join_loop es [] 0 = (case dropWhile (\<lambda>e. e = []) es of
    [] \<Rightarrow> [] | e # es' \<Rightarrow> e @ concat (map (\<lambda>e. CHR ''/'' # e) es'))"
  by (induction es) (simp_all add: join_loop_added)

lemma join_slash_concat: "join_slash (e # es) = e @ concat (map (\<lambda>e. CHR ''/'' # e) es)"
  by (induction es arbitrary: e) simp_all

definition elements :: "string \<Rightarrow> string list" where
  "elements p = filter (\<lambda>e. e \<noteq> []) (split_slash p)"

lemma clean_elements: "foldl (clean_step r) st (split_slash p) = foldl (clean_step r) st (elements p)"
proof -
  have "foldl (clean_step r) st xs = foldl (clean_step r) st (filter (\<lambda>e. e \<noteq> []) xs)" for xs
    by (induction xs arbitrary: st) (simp_all add: clean_step_def)
  then show ?thesis by (simp add: elements_def)
qed

lemma elements_concat: "elements (e @ concat (map (\<lambda>e. CHR ''/'' # e) es)) = concat (map elements (e # es))"
proof (induction es arbitrary: e)
  case Nil
  then show ?case by simp
next
  case (Cons x es)
  have "elements (e @ CHR ''/'' # y) = elements e @ elements y" for y by (simp add: elements_def split_append)
  then show ?case using Cons[of x] by simp
qed

lemma elements_filter: "concat (map elements (filter (\<lambda>e. e \<noteq> []) es)) = concat (map elements es)"
  by (induction es) (simp_all add: elements_def)

lemma path_Clean_same:
  "elements p = elements q \<Longrightarrow> is_rooted p = is_rooted q \<Longrightarrow> path_Clean p = path_Clean q"
  by (simp add: path_Clean_def clean_elements)

lemma clean_join:
  assumes "\<exists>e \<in> set es. e \<noteq> []"
  shows "path_Clean (join_loop es [] 0) = path_Join es"
proof -
  obtain e es' where d: "dropWhile (\<lambda>e. e = []) es = e # es'" using assms by (cases "dropWhile (\<lambda>e. e = []) es") auto
  have e: "e \<noteq> []" using hd_dropWhile[of "\<lambda>e. e = []" es] d by auto
  have f: "filter (\<lambda>e. e \<noteq> []) es = e # filter (\<lambda>e. e \<noteq> []) es'"
  proof -
    have "filter (\<lambda>e. e \<noteq> []) es = filter (\<lambda>e. e \<noteq> []) (takeWhile (\<lambda>e. e = []) es @ dropWhile (\<lambda>e. e = []) es)" by simp
    moreover have "filter (\<lambda>e. e \<noteq> []) (takeWhile (\<lambda>e. e = []) es) = []" by (auto simp: filter_empty_conv dest: set_takeWhileD)
    ultimately show ?thesis using d e by simp
  qed
  have l: "join_loop es [] 0 = e @ concat (map (\<lambda>e. CHR ''/'' # e) es')" by (simp add: join_loop_skip d)
  have j: "join_slash (filter (\<lambda>e. e \<noteq> []) es) = e @ concat (map (\<lambda>e. CHR ''/'' # e) (filter (\<lambda>e. e \<noteq> []) es'))"
    by (simp add: f join_slash_concat)
  have el: "elements (join_loop es [] 0) = elements (join_slash (filter (\<lambda>e. e \<noteq> []) es))"
    unfolding l j elements_concat using elements_filter[of es'] by simp
  have "is_rooted (join_loop es [] 0) = is_rooted (join_slash (filter (\<lambda>e. e \<noteq> []) es))"
    unfolding l j using e by (simp add: is_rooted_def)
  then have "path_Clean (join_loop es [] 0) = path_Clean (join_slash (filter (\<lambda>e. e \<noteq> []) es))"
    by (rule path_Clean_same[OF el])
  then show ?thesis unfolding path_Join_def Let_def f by simp
qed

text \<open>\<open>pathJoin\<close> gives what \<open>path.Join\<close> gives, with a slash behind it when its last element ends in one,
  although it calls \<open>path.Clean\<close> only on the paths that its scan picks out; elements that are all
  empty, for which \<open>path.Join\<close> gives the empty path, are the exception and give the path of the current directory.\<close>

theorem pathJoin_is_Join:
  "pathJoin elem = (if concat elem = [] then ''.'' else path_Join elem)
     @ (if elem \<noteq> [] \<and> hasSuffixByte (last elem) CHR ''/'' then ''/'' else [])"
proof (cases "concat elem = []")
  case True
  then have "join_loop elem [] 0 = []" by (induction elem) simp_all
  moreover have "\<not> (elem \<noteq> [] \<and> hasSuffixByte (last elem) CHR ''/'')" using True last_in_set by (auto simp: hasSuffixByte_def)
  ultimately show ?thesis using True
    by (simp add: pathJoin_def pathNeedsClean_def path_Clean_def is_rooted_def clean_step_def Let_def)
next
  case False
  then have c: "path_Clean (join_loop elem [] 0) = path_Join elem" by (intro clean_join) auto
  have ne: "(concat elem = []) = False" using False by blast
  show ?thesis
  proof (cases "pathNeedsClean (join_loop elem [] 0)")
    case True
    then show ?thesis unfolding ne by (simp add: c pathJoin_def Let_def)
  next
    case n: False
    then show ?thesis using needs_clean_sound[OF n] unfolding ne by (simp add: c pathJoin_def Let_def)
  qed
qed

lemma pathJoin_clean:
  assumes "v \<noteq> []" and "\<not> pathNeedsClean (v @ ''/'' @ p)" and "\<not> hasSuffixByte p CHR ''/''"
  shows "pathJoin [v, p] = v @ ''/'' @ p"
  using assms by (simp add: pathJoin_def Let_def)

end
