(* ===== verification/Ns_Lock.thy ===== *)
theory Ns_Lock
  imports Path_Join Go_Errors "HOL-Library.List_Lexorder" "HOL-Library.Char_ord"
begin

text \<open>
  The locks of a single node: the read/write mutex of \<open>internal/lsync/lrwmutex.go\<close>, the map from names to
  mutexes with reference counts of \<open>cmd/namespace-lock.go\<close>, and the lock instance over several names.
  A mutex is reached through a pointer (an index into \<open>nm_heap\<close>) that a goroutine takes under the
  map's own mutex and uses after it has released it, while others add and remove entries; the protocol
  is a transition function on a world of such goroutines, which interleave at their critical sections.
  The reference counts, \<open>int32\<close> in the code, are unbounded here: what is shown holds for fewer than \<open>2 ^ 31\<close> goroutines at a name.
\<close>

section \<open>The mutex\<close>

record LRWMutex =
  lm_id :: string
  lm_source :: string
  lm_isWriteLock :: bool
  lm_ref :: int

definition NewLRWMutex :: LRWMutex where
  "NewLRWMutex = \<lparr>lm_id = [], lm_source = [], lm_isWriteLock = False, lm_ref = 0\<rparr>"

definition lm_lock :: "string \<Rightarrow> string \<Rightarrow> bool \<Rightarrow> LRWMutex \<Rightarrow> LRWMutex \<times> bool" where
  "lm_lock ident source isWriteLock lm =
     (let lm = lm\<lparr>lm_id := ident, lm_source := source\<rparr>
      in if isWriteLock then
           (if lm_ref lm = 0 \<and> \<not> lm_isWriteLock lm then (lm\<lparr>lm_ref := 1, lm_isWriteLock := True\<rparr>, True) else (lm, False))
         else (if \<not> lm_isWriteLock lm then (lm\<lparr>lm_ref := lm_ref lm + 1\<rparr>, True) else (lm, False)))"

text \<open>\<open>lockLoop\<close>: the tries until one succeeds or the context is over, given what the mutex was at each try.\<close>

fun lockLoop :: "string \<Rightarrow> string \<Rightarrow> bool \<Rightarrow> LRWMutex list \<Rightarrow> LRWMutex option" where
  "lockLoop ident source isWriteLock [] = None"
| "lockLoop ident source isWriteLock (lm # later) =
     (case lm_lock ident source isWriteLock lm of
        (lm', True) \<Rightarrow> Some lm'
      | (lm', False) \<Rightarrow> lockLoop ident source isWriteLock later)"

definition lm_unlock :: "bool \<Rightarrow> LRWMutex \<Rightarrow> LRWMutex \<times> bool" where
  "lm_unlock isWriteLock lm =
     (if isWriteLock then
        (if lm_isWriteLock lm \<and> lm_ref lm = 1 then (lm\<lparr>lm_ref := 0, lm_isWriteLock := False\<rparr>, True) else (lm, False))
      else if \<not> lm_isWriteLock lm then
        (if lm_ref lm > 0 then (lm\<lparr>lm_ref := lm_ref lm - 1\<rparr>, True) else (lm, False))
      else (lm, False))"

definition lm_Unlock :: "LRWMutex \<Rightarrow> gerror + LRWMutex" where
  "lm_Unlock lm = (case lm_unlock True lm of (lm', True) \<Rightarrow> Inr lm'
     | _ \<Rightarrow> Inl (GoPanic ''Trying to Unlock() while no Lock() is active''))"

definition lm_RUnlock :: "LRWMutex \<Rightarrow> gerror + LRWMutex" where
  "lm_RUnlock lm = (case lm_unlock False lm of (lm', True) \<Rightarrow> Inr lm'
     | _ \<Rightarrow> Inl (GoPanic ''Trying to RUnlock() while no RLock() is active''))"

definition lm_ForceUnlock :: "LRWMutex \<Rightarrow> LRWMutex" where
  "lm_ForceUnlock lm = lm\<lparr>lm_ref := 0, lm_isWriteLock := False\<rparr>"

section \<open>The map of names\<close>

record nsLock =
  nl_ref :: int
  nl_LRWMutex :: LRWMutex

record nsLockMap =
  nm_heap :: "nsLock list"
  nm_lockMap :: "string \<Rightarrow> nat option"

definition newNSLock :: nsLockMap where
  "newNSLock = \<lparr>nm_heap = [], nm_lockMap = Map.empty\<rparr>"

text \<open>\<open>lock\<close> up to the point where it blocks: the pointer it goes on with.\<close>

definition ns_enter :: "string \<Rightarrow> nsLockMap \<Rightarrow> nsLockMap \<times> nat" where
  "ns_enter resource n =
     (case nm_lockMap n resource of
        None \<Rightarrow>
          (n\<lparr>nm_heap := nm_heap n @ [\<lparr>nl_ref = 1, nl_LRWMutex = NewLRWMutex\<rparr>],
             nm_lockMap := (nm_lockMap n)(resource \<mapsto> length (nm_heap n))\<rparr>, length (nm_heap n))
      | Some a \<Rightarrow>
          (n\<lparr>nm_heap := (nm_heap n)[a := (nm_heap n ! a)\<lparr>nl_ref := nl_ref (nm_heap n ! a) + 1\<rparr>],
             nm_lockMap := (nm_lockMap n)(resource \<mapsto> a)\<rparr>, a))"

text \<open>One round of the loop inside \<open>GetRLock\<close> or \<open>GetLock\<close>.\<close>

definition ns_try :: "nat \<Rightarrow> string \<Rightarrow> string \<Rightarrow> bool \<Rightarrow> nsLockMap \<Rightarrow> nsLockMap \<times> bool" where
  "ns_try a opsID lockSource readLock n =
     (case lm_lock opsID lockSource (\<not> readLock) (nl_LRWMutex (nm_heap n ! a)) of
        (lm, locked) \<Rightarrow> (n\<lparr>nm_heap := (nm_heap n)[a := (nm_heap n ! a)\<lparr>nl_LRWMutex := lm\<rparr>]\<rparr>, locked))"

text \<open>The count goes down and the entry goes with the last reference; \<open>logger.CriticalIf\<close> panics.\<close>

definition ns_deref :: "string \<Rightarrow> nat \<Rightarrow> nsLockMap \<Rightarrow> gerror + nsLockMap" where
  "ns_deref resource a n =
     (let r = nl_ref (nm_heap n ! a) - 1;
          n = n\<lparr>nm_heap := (nm_heap n)[a := (nm_heap n ! a)\<lparr>nl_ref := r\<rparr>]\<rparr>
      in if r < 0 then Inl (GoPanic ''resource reference count was lower than 0'')
         else if r = 0 then Inr (n\<lparr>nm_lockMap := (nm_lockMap n)(resource := None)\<rparr>)
         else Inr n)"

text \<open>The end of \<open>lock\<close> when the lock was not granted: the entry is looked up by name again.\<close>

definition ns_drop :: "string \<Rightarrow> nsLockMap \<Rightarrow> gerror + nsLockMap" where
  "ns_drop resource n =
     (case nm_lockMap n resource of
        None \<Rightarrow> Inl (GoPanic ''nil pointer dereference'')
      | Some a \<Rightarrow> ns_deref resource a n)"

definition ns_unlock :: "string \<Rightarrow> bool \<Rightarrow> nsLockMap \<Rightarrow> gerror + nsLockMap" where
  "ns_unlock resource readLock n =
     (case nm_lockMap n resource of
        None \<Rightarrow> Inr n
      | Some a \<Rightarrow>
          (case (if readLock then lm_RUnlock else lm_Unlock) (nl_LRWMutex (nm_heap n ! a)) of
             Inl e \<Rightarrow> Inl e
           | Inr lm \<Rightarrow> ns_deref resource a (n\<lparr>nm_heap := (nm_heap n)[a := (nm_heap n ! a)\<lparr>nl_LRWMutex := lm\<rparr>]\<rparr>)))"

section \<open>Goroutines that take and release locks\<close>

text \<open>Where a goroutine is: in \<open>GetLock\<close> or \<open>GetRLock\<close> about to enter its \<open>i\<close>-th name, waiting for it at a
  pointer, giving it up, releasing what it has got so far; holding all names; in \<open>Unlock\<close> or \<open>RUnlock\<close>; done.\<close>

datatype ns_pc = Enter nat | Try nat nat | GiveUp nat | Undo nat nat | Held | Releasing nat | TimedOut | Released

record localLockInstance =
  li_volume :: string
  li_paths :: "string list"
  li_opsID :: string
  li_read :: bool
  li_pc :: ns_pc

definition NewNSLock :: "string \<Rightarrow> string list \<Rightarrow> string \<Rightarrow> bool \<Rightarrow> localLockInstance" where
  "NewNSLock volume paths opsID readLock =
     \<lparr>li_volume = volume, li_paths = sort paths, li_opsID = opsID, li_read = readLock, li_pc = Enter 0\<rparr>"

definition resources :: "localLockInstance \<Rightarrow> string list" where
  "resources li = map (\<lambda>path. pathJoin [li_volume li, path]) (li_paths li)"

record ns_world =
  nw_map :: nsLockMap
  nw_instances :: "localLockInstance list"

datatype ns_label = Run nat | Expire nat

text \<open>The next step of one instance: the new map and program counter, or a panic.\<close>

definition run_instance :: "localLockInstance \<Rightarrow> nsLockMap \<Rightarrow> gerror + nsLockMap \<times> ns_pc" where
  "run_instance li n =
     (case li_pc li of
        Enter i \<Rightarrow>
          (if i < length (resources li)
           then (case ns_enter (resources li ! i) n of (n', a) \<Rightarrow> Inr (n', Try i a))
           else Inr (n, Held))
      | Try i a \<Rightarrow>
          (case ns_try a (li_opsID li) [] (li_read li) n of
             (n', locked) \<Rightarrow> Inr (n', if locked then Enter (Suc i) else Try i a))
      | GiveUp i \<Rightarrow>
          (case ns_drop (resources li ! i) n of Inl e \<Rightarrow> Inl e | Inr n' \<Rightarrow> Inr (n', Undo 0 i))
      | Undo k i \<Rightarrow>
          (if k < i then (case ns_unlock (resources li ! k) (li_read li) n of
                            Inl e \<Rightarrow> Inl e | Inr n' \<Rightarrow> Inr (n', Undo (Suc k) i))
           else Inr (n, TimedOut))
      | Held \<Rightarrow> Inr (n, Releasing 0)
      | Releasing k \<Rightarrow>
          (if k < length (resources li)
           then (case ns_unlock (resources li ! k) (li_read li) n of
                   Inl e \<Rightarrow> Inl e | Inr n' \<Rightarrow> Inr (n', Releasing (Suc k)))
           else Inr (n, Released))
      | TimedOut \<Rightarrow> Inr (n, TimedOut)
      | Released \<Rightarrow> Inr (n, Released))"

definition ns_step :: "ns_world \<Rightarrow> ns_label \<Rightarrow> (gerror + ns_world) option" where
  "ns_step w l =
     (case l of
        Run j \<Rightarrow>
          (if j < length (nw_instances w) then
             Some (case run_instance (nw_instances w ! j) (nw_map w) of
                     Inl e \<Rightarrow> Inl e
                   | Inr (n, pc) \<Rightarrow> Inr \<lparr>nw_map = n, nw_instances = (nw_instances w)[j := (nw_instances w ! j)\<lparr>li_pc := pc\<rparr>]\<rparr>)
           else None)
      | Expire j \<Rightarrow>
          (if j < length (nw_instances w) then
             (case li_pc (nw_instances w ! j) of
                Try i a \<Rightarrow> Some (Inr (w\<lparr>nw_instances := (nw_instances w)[j := (nw_instances w ! j)\<lparr>li_pc := GiveUp i\<rparr>]\<rparr>))
              | _ \<Rightarrow> None)
           else None))"

definition ns_init :: "localLockInstance list \<Rightarrow> ns_world" where
  "ns_init lis = \<lparr>nw_map = newNSLock, nw_instances = map (\<lambda>li. li\<lparr>li_pc := Enter 0\<rparr>) lis\<rparr>"

inductive ns_reachable :: "localLockInstance list \<Rightarrow> ns_world \<Rightarrow> bool" for lis where
  ns_start: "ns_reachable lis (ns_init lis)"
| ns_more: "ns_reachable lis w \<Longrightarrow> ns_step w l = Some (Inr w') \<Longrightarrow> ns_reachable lis w'"

section \<open>The invariant\<close>

text \<open>The names an instance holds, and the one it waits for.\<close>

definition held_names :: "localLockInstance \<Rightarrow> string list" where
  "held_names li = (case li_pc li of
     Enter i \<Rightarrow> take i (resources li) | Try i a \<Rightarrow> take i (resources li) | GiveUp i \<Rightarrow> take i (resources li)
   | Undo k i \<Rightarrow> drop k (take i (resources li)) | Held \<Rightarrow> resources li | Releasing k \<Rightarrow> drop k (resources li)
   | TimedOut \<Rightarrow> [] | Released \<Rightarrow> [])"

definition awaited_names :: "localLockInstance \<Rightarrow> string list" where
  "awaited_names li = (case li_pc li of Try i a \<Rightarrow> [resources li ! i] | GiveUp i \<Rightarrow> [resources li ! i] | _ \<Rightarrow> [])"

definition rd1 :: "localLockInstance \<Rightarrow> string \<Rightarrow> int" where
  "rd1 li r = (if li_read li then int (count_list (held_names li) r) else 0)"

definition wr1 :: "localLockInstance \<Rightarrow> string \<Rightarrow> int" where
  "wr1 li r = (if li_read li then 0 else int (count_list (held_names li) r))"

definition wt1 :: "localLockInstance \<Rightarrow> string \<Rightarrow> int" where
  "wt1 li r = int (count_list (awaited_names li) r)"

definition all_of :: "(localLockInstance \<Rightarrow> string \<Rightarrow> int) \<Rightarrow> localLockInstance list \<Rightarrow> string \<Rightarrow> int" where
  "all_of f lis r = sum_list (map (\<lambda>li. f li r) lis)"

text \<open>An entry under \<open>rd\<close> readers, \<open>wr\<close> writers and \<open>wt\<close> waiting goroutines.\<close>

definition entry_ok :: "nsLock \<Rightarrow> int \<Rightarrow> int \<Rightarrow> int \<Rightarrow> bool" where
  "entry_ok e rd wr wt \<longleftrightarrow>
     nl_ref e = rd + wr + wt \<and> 0 < nl_ref e \<and> 0 \<le> rd \<and> 0 \<le> wr \<and> 0 \<le> wt
     \<and> lm_ref (nl_LRWMutex e) = rd + wr \<and> lm_isWriteLock (nl_LRWMutex e) = (wr > 0) \<and> (wr > 0 \<longrightarrow> wr = 1 \<and> rd = 0)"

definition map_ok :: "nsLockMap \<Rightarrow> (string \<Rightarrow> int) \<Rightarrow> (string \<Rightarrow> int) \<Rightarrow> (string \<Rightarrow> int) \<Rightarrow> bool" where
  "map_ok n rd wr wt \<longleftrightarrow>
     (\<forall>r. case nm_lockMap n r of
        None \<Rightarrow> rd r = 0 \<and> wr r = 0 \<and> wt r = 0
      | Some a \<Rightarrow> a < length (nm_heap n) \<and> entry_ok (nm_heap n ! a) (rd r) (wr r) (wt r))
     \<and> inj_on (nm_lockMap n) (dom (nm_lockMap n))"

lemma map_okD:
  assumes "map_ok n rd wr wt"
  shows "nm_lockMap n r = None \<Longrightarrow> rd r = 0 \<and> wr r = 0 \<and> wt r = 0"
    and "nm_lockMap n r = Some a \<Longrightarrow> a < length (nm_heap n) \<and> entry_ok (nm_heap n ! a) (rd r) (wr r) (wt r)"
    and "nm_lockMap n r = Some a \<Longrightarrow> nm_lockMap n r' = Some a \<Longrightarrow> r' = r"
proof -
  have all: "case nm_lockMap n r of None \<Rightarrow> rd r = 0 \<and> wr r = 0 \<and> wt r = 0
      | Some a \<Rightarrow> a < length (nm_heap n) \<and> entry_ok (nm_heap n ! a) (rd r) (wr r) (wt r)" for r
    using assms by (simp add: map_ok_def)
  show "nm_lockMap n r = None \<Longrightarrow> rd r = 0 \<and> wr r = 0 \<and> wt r = 0" using all[of r] by simp
  show "nm_lockMap n r = Some a \<Longrightarrow> a < length (nm_heap n) \<and> entry_ok (nm_heap n ! a) (rd r) (wr r) (wt r)" using all[of r] by simp
  show "nm_lockMap n r = Some a \<Longrightarrow> nm_lockMap n r' = Some a \<Longrightarrow> r' = r"
    using assms unfolding map_ok_def inj_on_def by (metis domI)
qed

text \<open>Changing the entry of one name, and the counts of that name with it.\<close>

lemma map_ok_entry:
  assumes "map_ok n rd wr wt" and "nm_lockMap n r = Some a" and "entry_ok e x y z"
    and "n' = n\<lparr>nm_heap := (nm_heap n)[a := e]\<rparr>"
  shows "map_ok n' (rd(r := x)) (wr(r := y)) (wt(r := z))"
proof -
  note ok = map_okD[OF assms(1)]
  have "case nm_lockMap n' q of None \<Rightarrow> (rd(r := x)) q = 0 \<and> (wr(r := y)) q = 0 \<and> (wt(r := z)) q = 0
      | Some b \<Rightarrow> b < length (nm_heap n') \<and> entry_ok (nm_heap n' ! b) ((rd(r := x)) q) ((wr(r := y)) q) ((wt(r := z)) q)" for q
  proof (cases "nm_lockMap n q")
    case None
    then show ?thesis using ok(1)[of q] assms(2,4) by auto
  next
    case (Some b)
    show ?thesis
    proof (cases "q = r")
      case True
      then show ?thesis using Some assms(2-4) ok(2)[OF assms(2)] by simp
    next
      case False
      then have "b \<noteq> a" using ok(3)[OF assms(2), of q] Some by auto
      then show ?thesis using False Some assms(4) ok(2)[OF Some] by simp
    qed
  qed
  moreover have "inj_on (nm_lockMap n') (dom (nm_lockMap n'))" using assms(1,4) by (simp add: map_ok_def)
  ultimately show ?thesis unfolding map_ok_def by blast
qed

lemma map_ok_enter:
  assumes "map_ok n rd wr wt" and "ns_enter r n = (n', a)"
  shows "map_ok n' rd wr (wt(r := wt r + 1)) \<and> nm_lockMap n' r = Some a
    \<and> (\<forall>q b. nm_lockMap n q = Some b \<longrightarrow> nm_lockMap n' q = Some b)"
proof (cases "nm_lockMap n r")
  case None
  note ok = map_okD[OF assms(1)]
  let ?e = "\<lparr>nl_ref = 1, nl_LRWMutex = NewLRWMutex\<rparr>"
  have n': "n' = n\<lparr>nm_heap := nm_heap n @ [?e], nm_lockMap := (nm_lockMap n)(r \<mapsto> length (nm_heap n))\<rparr>" "a = length (nm_heap n)"
    using assms(2) None by (auto simp: ns_enter_def)
  have "case nm_lockMap n' q of None \<Rightarrow> rd q = 0 \<and> wr q = 0 \<and> (wt(r := wt r + 1)) q = 0
      | Some b \<Rightarrow> b < length (nm_heap n') \<and> entry_ok (nm_heap n' ! b) (rd q) (wr q) ((wt(r := wt r + 1)) q)" for q
  proof (cases "q = r")
    case True
    then show ?thesis using n' ok(1)[OF None] by (simp add: entry_ok_def NewLRWMutex_def)
  next
    case False
    then show ?thesis
    proof (cases "nm_lockMap n q")
      case (Some b)
      then show ?thesis using False n' ok(2)[OF Some] by (simp add: nth_append)
    qed (use False n' ok(1) in auto)
  qed
  moreover have "inj_on (nm_lockMap n') (dom (nm_lockMap n'))"
  proof (rule inj_onI)
    fix p q assume pq: "p \<in> dom (nm_lockMap n')" "q \<in> dom (nm_lockMap n')" "nm_lockMap n' p = nm_lockMap n' q"
    have "nm_lockMap n x \<noteq> Some (length (nm_heap n))" for x using ok(2)[of x "length (nm_heap n)"] by auto
    then show "p = q" using pq ok(3) None unfolding n' by (auto split: if_splits)
  qed
  ultimately have "map_ok n' rd wr (wt(r := wt r + 1))" unfolding map_ok_def by blast
  then show ?thesis using n' None by auto
next
  case (Some b)
  note ok = map_okD(2)[OF assms(1) Some]
  have n': "n' = n\<lparr>nm_heap := (nm_heap n)[b := (nm_heap n ! b)\<lparr>nl_ref := nl_ref (nm_heap n ! b) + 1\<rparr>]\<rparr>" "a = b"
    using assms(2) Some by (cases n; simp add: ns_enter_def fun_upd_idem)+
  have "entry_ok ((nm_heap n ! b)\<lparr>nl_ref := nl_ref (nm_heap n ! b) + 1\<rparr>) (rd r) (wr r) (wt r + 1)"
    using ok by (simp add: entry_ok_def)
  from map_ok_entry[OF assms(1) Some this n'(1)] show ?thesis using n' Some by simp
qed

lemma map_ok_try:
  assumes "map_ok n rd wr wt" and "nm_lockMap n r = Some a" and "0 < wt r"
    and "ns_try a ops src readLock n = (n', locked)"
  shows "nm_lockMap n' = nm_lockMap n
    \<and> (if locked then map_ok n' (if readLock then rd(r := rd r + 1) else rd) (if readLock then wr else wr(r := wr r + 1)) (wt(r := wt r - 1))
       else map_ok n' rd wr wt)"
proof -
  note ok = map_okD(2)[OF assms(1,2)]
  obtain lm where l: "lm_lock ops src (\<not> readLock) (nl_LRWMutex (nm_heap n ! a)) = (lm, locked)"
      and n': "n' = n\<lparr>nm_heap := (nm_heap n)[a := (nm_heap n ! a)\<lparr>nl_LRWMutex := lm\<rparr>]\<rparr>"
    using assms(4) by (auto simp: ns_try_def split: prod.splits)
  let ?e = "(nm_heap n ! a)\<lparr>nl_LRWMutex := lm\<rparr>"
  show ?thesis
  proof (cases locked)
    case True
    show ?thesis
    proof (cases readLock)
      case r: True
      have "entry_ok ?e (rd r + 1) (wr r) (wt r - 1)"
        using l ok True r assms(3) by (auto simp: entry_ok_def lm_lock_def Let_def split: if_splits)
      from map_ok_entry[OF assms(1,2) this n'] show ?thesis using True r n' by simp
    next
      case r: False
      have "entry_ok ?e (rd r) (wr r + 1) (wt r - 1)"
        using l ok True r assms(3) by (auto simp: entry_ok_def lm_lock_def Let_def split: if_splits)
      from map_ok_entry[OF assms(1,2) this n'] show ?thesis using True r n' by simp
    qed
  next
    case False
    have "entry_ok ?e (rd r) (wr r) (wt r)"
      using l ok False by (auto simp: entry_ok_def lm_lock_def Let_def split: if_splits)
    from map_ok_entry[OF assms(1,2) this n'] show ?thesis using False n' by simp
  qed
qed

text \<open>Taking one reference off an entry that has it.\<close>

lemma map_ok_deref:
  assumes "map_ok n rd wr wt" and "nm_lockMap n r = Some a"
    and "nl_ref e = x + y + z + 1" and "0 \<le> x" "0 \<le> y" "0 \<le> z"
    and "lm_ref (nl_LRWMutex e) = x + y" "lm_isWriteLock (nl_LRWMutex e) = (y > 0)" "y > 0 \<longrightarrow> y = 1 \<and> x = 0"
    and "n0 = n\<lparr>nm_heap := (nm_heap n)[a := e]\<rparr>"
  shows "\<exists>n'. ns_deref r a n0 = Inr n' \<and> map_ok n' (rd(r := x)) (wr(r := y)) (wt(r := z))
    \<and> (\<forall>q. nm_lockMap n' q = None \<or> nm_lockMap n' q = nm_lockMap n q)"
proof -
  note ok = map_okD[OF assms(1)]
  have a: "a < length (nm_heap n)" using ok(2)[OF assms(2)] by simp
  let ?e = "e\<lparr>nl_ref := x + y + z\<rparr>"
  let ?n = "n\<lparr>nm_heap := (nm_heap n)[a := ?e]\<rparr>"
  have n0: "n0\<lparr>nm_heap := (nm_heap n0)[a := (nm_heap n0 ! a)\<lparr>nl_ref := nl_ref (nm_heap n0 ! a) - 1\<rparr>]\<rparr> = ?n"
    using a assms(3,10) by simp
  have ref: "nl_ref (nm_heap n0 ! a) - 1 = x + y + z" using a assms(3,10) by simp
  show ?thesis
  proof (cases "x + y + z = 0")
    case True
    then have xyz: "x = 0" "y = 0" "z = 0" using assms(4-6) by linarith+
    let ?n' = "?n\<lparr>nm_lockMap := (nm_lockMap n)(r := None)\<rparr>"
    have d: "ns_deref r a n0 = Inr ?n'"
      using n0 ref True assms(10) a by (simp add: ns_deref_def Let_def)
    have "case nm_lockMap ?n' q of None \<Rightarrow> (rd(r := x)) q = 0 \<and> (wr(r := y)) q = 0 \<and> (wt(r := z)) q = 0
      | Some b \<Rightarrow> b < length (nm_heap ?n') \<and> entry_ok (nm_heap ?n' ! b) ((rd(r := x)) q) ((wr(r := y)) q) ((wt(r := z)) q)" for q
    proof (cases "q = r")
      case True
      then show ?thesis using xyz by simp
    next
      case False
      then show ?thesis
      proof (cases "nm_lockMap n q")
        case (Some b)
        then have "b \<noteq> a" using ok(3)[OF assms(2), of q] False by auto
        then show ?thesis using False Some ok(2)[OF Some] by simp
      qed (use False ok(1) in auto)
    qed
    moreover have "inj_on (nm_lockMap ?n') (dom (nm_lockMap ?n'))"
      using ok(3) by (auto intro!: inj_onI split: if_splits)
    ultimately have "map_ok ?n' (rd(r := x)) (wr(r := y)) (wt(r := z))" unfolding map_ok_def by blast
    then show ?thesis using d by auto
  next
    case False
    then have pos: "0 < x + y + z" using assms(4-6) by linarith
    have "entry_ok ?e x y z" using assms(4-9) pos by (simp add: entry_ok_def)
    from map_ok_entry[OF assms(1,2) this refl] have "map_ok ?n (rd(r := x)) (wr(r := y)) (wt(r := z))" .
    moreover have "ns_deref r a n0 = Inr ?n" using n0 ref pos by (simp add: ns_deref_def Let_def)
    ultimately show ?thesis by auto
  qed
qed

lemma fun_upd_same_value: "f r = x \<Longrightarrow> f(r := x) = f"
  by auto

lemma map_ok_unlock:
  assumes "map_ok n rd wr wt" and "0 < (if readLock then rd r else wr r)"
  shows "\<exists>n'. ns_unlock r readLock n = Inr n'
    \<and> map_ok n' (if readLock then rd(r := rd r - 1) else rd) (if readLock then wr else wr(r := wr r - 1)) wt
    \<and> (\<forall>q. nm_lockMap n' q = None \<or> nm_lockMap n' q = nm_lockMap n q)"
proof -
  note ok = map_okD[OF assms(1)]
  obtain a where a: "nm_lockMap n r = Some a" using ok(1)[of r] assms(2) by (cases "nm_lockMap n r") (auto split: if_splits)
  note e = ok(2)[OF a]
  let ?e = "nm_heap n ! a"
  show ?thesis
  proof (cases readLock)
    case True
    let ?lm = "(nl_LRWMutex ?e)\<lparr>lm_ref := lm_ref (nl_LRWMutex ?e) - 1\<rparr>"
    have "lm_RUnlock (nl_LRWMutex ?e) = Inr ?lm"
      using e assms(2) True by (auto simp: lm_RUnlock_def lm_unlock_def entry_ok_def)
    moreover have "\<exists>n'. ns_deref r a (n\<lparr>nm_heap := (nm_heap n)[a := ?e\<lparr>nl_LRWMutex := ?lm\<rparr>]\<rparr>) = Inr n'
      \<and> map_ok n' (rd(r := rd r - 1)) (wr(r := wr r)) (wt(r := wt r)) \<and> (\<forall>q. nm_lockMap n' q = None \<or> nm_lockMap n' q = nm_lockMap n q)"
      by (rule map_ok_deref[OF assms(1) a]) (use e assms(2) True in \<open>auto simp: entry_ok_def\<close>)
    ultimately show ?thesis using a True by (simp add: ns_unlock_def)
  next
    case False
    let ?lm = "(nl_LRWMutex ?e)\<lparr>lm_ref := 0, lm_isWriteLock := False\<rparr>"
    have "lm_Unlock (nl_LRWMutex ?e) = Inr ?lm"
      using e assms(2) False by (auto simp: lm_Unlock_def lm_unlock_def entry_ok_def)
    moreover have "\<exists>n'. ns_deref r a (n\<lparr>nm_heap := (nm_heap n)[a := ?e\<lparr>nl_LRWMutex := ?lm\<rparr>]\<rparr>) = Inr n'
      \<and> map_ok n' (rd(r := rd r)) (wr(r := wr r - 1)) (wt(r := wt r)) \<and> (\<forall>q. nm_lockMap n' q = None \<or> nm_lockMap n' q = nm_lockMap n q)"
      by (rule map_ok_deref[OF assms(1) a]) (use e assms(2) False in \<open>auto simp: entry_ok_def\<close>)
    ultimately show ?thesis using a False by (simp add: ns_unlock_def)
  qed
qed

lemma map_ok_drop:
  assumes "map_ok n rd wr wt" and "0 < wt r"
  shows "\<exists>n'. ns_drop r n = Inr n' \<and> map_ok n' rd wr (wt(r := wt r - 1))
    \<and> (\<forall>q. nm_lockMap n' q = None \<or> nm_lockMap n' q = nm_lockMap n q)"
proof -
  note ok = map_okD[OF assms(1)]
  obtain a where a: "nm_lockMap n r = Some a" using ok(1)[of r] assms(2) by (cases "nm_lockMap n r") auto
  have "\<exists>n'. ns_deref r a n = Inr n' \<and> map_ok n' (rd(r := rd r)) (wr(r := wr r)) (wt(r := wt r - 1))
    \<and> (\<forall>q. nm_lockMap n' q = None \<or> nm_lockMap n' q = nm_lockMap n q)"
    by (rule map_ok_deref[OF assms(1) a, where e = "nm_heap n ! a"]) (use ok(2)[OF a] assms(2) in \<open>auto simp: entry_ok_def\<close>)
  then show ?thesis using a by (simp add: ns_drop_def)
qed

text \<open>A pointer that a goroutine waits at is still the map's, and a program counter is within the names.\<close>

definition pc_ok :: "nsLockMap \<Rightarrow> localLockInstance \<Rightarrow> bool" where
  "pc_ok n li \<longleftrightarrow> (case li_pc li of
     Enter i \<Rightarrow> i \<le> length (resources li)
   | Try i a \<Rightarrow> i < length (resources li) \<and> nm_lockMap n (resources li ! i) = Some a
   | GiveUp i \<Rightarrow> i < length (resources li)
   | Undo k i \<Rightarrow> k \<le> i \<and> i \<le> length (resources li)
   | Releasing k \<Rightarrow> k \<le> length (resources li)
   | _ \<Rightarrow> True)"

definition world_ok :: "ns_world \<Rightarrow> bool" where
  "world_ok w \<longleftrightarrow>
     map_ok (nw_map w) (all_of rd1 (nw_instances w)) (all_of wr1 (nw_instances w)) (all_of wt1 (nw_instances w))
     \<and> (\<forall>li \<in> set (nw_instances w). pc_ok (nw_map w) li)"

lemma resources_pc [simp]: "resources (li\<lparr>li_pc := pc\<rparr>) = resources li"
  by (simp add: resources_def)

lemma count_take_Suc:
  "i < length xs \<Longrightarrow> count_list (take (Suc i) xs) r = count_list (take i xs) r + (if xs ! i = r then 1 else 0)"
  by (simp add: take_Suc_conv_app_nth)

lemma count_drop_Suc:
  "k < length xs \<Longrightarrow> count_list (drop k xs) r = count_list (drop (Suc k) xs) r + (if xs ! k = r then 1 else 0)"
  by (simp flip: Cons_nth_drop_Suc)

lemma counts_nonneg [simp]: "0 \<le> rd1 li r" "0 \<le> wr1 li r" "0 \<le> wt1 li r"
  by (simp_all add: rd1_def wr1_def wt1_def)

lemma all_of_nonneg: "(\<And>li. 0 \<le> f li r) \<Longrightarrow> 0 \<le> all_of f lis r"
  unfolding all_of_def by (induction lis) (simp_all add: add_nonneg_nonneg)

lemma all_of_member_le: "(\<And>li. 0 \<le> f li r) \<Longrightarrow> li \<in> set lis \<Longrightarrow> f li r \<le> all_of f lis r"
proof (induction lis)
  case (Cons a lis)
  have "0 \<le> f a r" "0 \<le> all_of f lis r" using Cons.prems(1) by (auto intro: all_of_nonneg)
  moreover have "li \<in> set lis \<Longrightarrow> f li r \<le> all_of f lis r" using Cons by blast
  ultimately show ?case using Cons.prems(2) by (auto simp: all_of_def)
qed simp

lemma all_of_update:
  "j < length lis \<Longrightarrow> all_of f (lis[j := li']) r = all_of f lis r - f (lis ! j) r + f li' r"
  unfolding all_of_def by (induction lis arbitrary: j) (auto simp: less_Suc_eq_0_disj)

lemma all_of_two_le:
  assumes "\<And>li. 0 \<le> f li r"
  shows "i < length lis \<Longrightarrow> j < length lis \<Longrightarrow> i \<noteq> j \<Longrightarrow> f (lis ! i) r + f (lis ! j) r \<le> all_of f lis r"
proof (induction lis arbitrary: i j)
  case (Cons a lis)
  have mem: "f (lis ! k) r \<le> all_of f lis r" if "k < length lis" for k
    using all_of_member_le[of f r, OF assms] that by simp
  have cons: "all_of f (a # lis) r = f a r + all_of f lis r" by (simp add: all_of_def)
  show ?case
  proof (cases i)
    case 0
    then show ?thesis using Cons.prems mem cons by (cases j) auto
  next
    case (Suc i')
    then show ?thesis using Cons.prems Cons.IH[of i'] mem cons assms[of a] by (cases j) fastforce+
  qed
qed simp

text \<open>One instance among others that hold and await names with the counts \<open>R\<close>, \<open>W\<close> and \<open>T\<close>.\<close>

definition among :: "nsLockMap \<Rightarrow> (string \<Rightarrow> int) \<Rightarrow> (string \<Rightarrow> int) \<Rightarrow> (string \<Rightarrow> int) \<Rightarrow> localLockInstance \<Rightarrow> bool" where
  "among n R W T li \<longleftrightarrow>
     map_ok n (\<lambda>r. R r + rd1 li r) (\<lambda>r. W r + wr1 li r) (\<lambda>r. T r + wt1 li r) \<and> pc_ok n li
     \<and> (\<forall>r. 0 \<le> R r \<and> 0 \<le> W r \<and> 0 \<le> T r)"

definition keeps_awaited :: "(string \<Rightarrow> int) \<Rightarrow> nsLockMap \<Rightarrow> nsLockMap \<Rightarrow> bool" where
  "keeps_awaited T n n' \<longleftrightarrow> (\<forall>q a. nm_lockMap n q = Some a \<longrightarrow> 0 < T q \<longrightarrow> nm_lockMap n' q = Some a)"

lemma keeps_awaitedI:
  assumes "map_ok n' rd wr (\<lambda>r. T r + t r)" and "\<And>r. 0 \<le> t r"
    and "\<forall>q. nm_lockMap n' q = None \<or> nm_lockMap n' q = nm_lockMap n q"
  shows "keeps_awaited T n n'"
  unfolding keeps_awaited_def
proof (intro allI impI)
  fix q a assume "nm_lockMap n q = Some a" "0 < T q"
  moreover have "nm_lockMap n' q \<noteq> None"
  proof
    assume "nm_lockMap n' q = None"
    then have "T q + t q = 0" using map_okD(1)[OF assms(1)] by simp
    then show False using \<open>0 < T q\<close> assms(2)[of q] by simp
  qed
  ultimately show "nm_lockMap n' q = Some a" using assms(3) by metis
qed

lemmas counts_defs = rd1_def wr1_def wt1_def held_names_def awaited_names_def

lemma run_enter:
  assumes "among n R W T li" and pc: "li_pc li = Enter i" and i: "i < length (resources li)"
  shows "\<exists>n' pc. run_instance li n = Inr (n', pc) \<and> among n' R W T (li\<lparr>li_pc := pc\<rparr>) \<and> keeps_awaited T n n'"
proof -
  let ?r = "resources li ! i"
  obtain n' a where e: "ns_enter ?r n = (n', a)" by (cases "ns_enter ?r n")
  let ?li = "li\<lparr>li_pc := Try i a\<rparr>"
  have m: "map_ok n (\<lambda>r. R r + rd1 li r) (\<lambda>r. W r + wr1 li r) (\<lambda>r. T r + wt1 li r)"
    using assms(1) by (simp add: among_def)
  have "(\<lambda>r. R r + rd1 li r) = (\<lambda>r. R r + rd1 ?li r)" "(\<lambda>r. W r + wr1 li r) = (\<lambda>r. W r + wr1 ?li r)"
    "(\<lambda>r. T r + wt1 li r)(?r := T ?r + wt1 li ?r + 1) = (\<lambda>r. T r + wt1 ?li r)"
    using pc by (auto simp: counts_defs)
  then have "among n' R W T ?li"
    using map_ok_enter[OF m e] assms(1) i by (simp add: among_def pc_ok_def)
  moreover have "keeps_awaited T n n'" using map_ok_enter[OF m e] by (simp add: keeps_awaited_def)
  ultimately show ?thesis using pc i e by (simp add: run_instance_def)
qed

lemma run_try:
  assumes "among n R W T li" and pc: "li_pc li = Try i a"
  shows "\<exists>n' pc. run_instance li n = Inr (n', pc) \<and> among n' R W T (li\<lparr>li_pc := pc\<rparr>) \<and> keeps_awaited T n n'"
proof -
  let ?r = "resources li ! i"
  have i: "i < length (resources li)" and a: "nm_lockMap n ?r = Some a" and nonneg: "\<forall>r. 0 \<le> R r \<and> 0 \<le> W r \<and> 0 \<le> T r"
    using assms by (auto simp: among_def pc_ok_def)
  have m: "map_ok n (\<lambda>r. R r + rd1 li r) (\<lambda>r. W r + wr1 li r) (\<lambda>r. T r + wt1 li r)"
    using assms(1) by (simp add: among_def)
  obtain n' locked where t: "ns_try a (li_opsID li) [] (li_read li) n = (n', locked)"
    by (cases "ns_try a (li_opsID li) [] (li_read li) n")
  have "0 < T ?r + wt1 li ?r" using nonneg pc by (simp add: counts_defs add_nonneg_pos)
  note tried = map_ok_try[OF m a this t]
  show ?thesis
  proof (cases locked)
    case False
    then have "among n' R W T li" using tried assms(1) pc by (simp add: among_def pc_ok_def)
    moreover have "li = li\<lparr>li_pc := Try i a\<rparr>" using pc by simp
    ultimately have "among n' R W T (li\<lparr>li_pc := Try i a\<rparr>)" by metis
    then show ?thesis using pc t False tried by (simp add: run_instance_def keeps_awaited_def)
  next
    case True
    let ?li = "li\<lparr>li_pc := Enter (Suc i)\<rparr>"
    have "(if li_read li then (\<lambda>r. R r + rd1 li r)(?r := R ?r + rd1 li ?r + 1) else (\<lambda>r. R r + rd1 li r)) = (\<lambda>r. R r + rd1 ?li r)"
      "(if li_read li then (\<lambda>r. W r + wr1 li r) else (\<lambda>r. W r + wr1 li r)(?r := W ?r + wr1 li ?r + 1)) = (\<lambda>r. W r + wr1 ?li r)"
      "(\<lambda>r. T r + wt1 li r)(?r := T ?r + wt1 li ?r - 1) = (\<lambda>r. T r + wt1 ?li r)"
      using pc i by (auto simp: counts_defs count_take_Suc)
    then have "among n' R W T ?li" using tried True nonneg i by (simp add: among_def pc_ok_def)
    then show ?thesis using pc t True tried by (simp add: run_instance_def keeps_awaited_def)
  qed
qed

lemma run_give_up:
  assumes "among n R W T li" and pc: "li_pc li = GiveUp i"
  shows "\<exists>n' pc. run_instance li n = Inr (n', pc) \<and> among n' R W T (li\<lparr>li_pc := pc\<rparr>) \<and> keeps_awaited T n n'"
proof -
  let ?r = "resources li ! i" and ?li = "li\<lparr>li_pc := Undo 0 i\<rparr>"
  have i: "i < length (resources li)" and nonneg: "\<forall>r. 0 \<le> R r \<and> 0 \<le> W r \<and> 0 \<le> T r"
    using assms by (auto simp: among_def pc_ok_def)
  have m: "map_ok n (\<lambda>r. R r + rd1 li r) (\<lambda>r. W r + wr1 li r) (\<lambda>r. T r + wt1 li r)"
    using assms(1) by (simp add: among_def)
  have "0 < T ?r + wt1 li ?r" using nonneg pc by (simp add: counts_defs add_nonneg_pos)
  from map_ok_drop[OF m this] obtain n' where d: "ns_drop ?r n = Inr n'"
    and m': "map_ok n' (\<lambda>r. R r + rd1 li r) (\<lambda>r. W r + wr1 li r) ((\<lambda>r. T r + wt1 li r)(?r := T ?r + wt1 li ?r - 1))"
    and k: "\<forall>q. nm_lockMap n' q = None \<or> nm_lockMap n' q = nm_lockMap n q" by blast
  have eqs: "(\<lambda>r. R r + rd1 li r) = (\<lambda>r. R r + rd1 ?li r)" "(\<lambda>r. W r + wr1 li r) = (\<lambda>r. W r + wr1 ?li r)"
    "(\<lambda>r. T r + wt1 li r)(?r := T ?r + wt1 li ?r - 1) = (\<lambda>r. T r + wt1 ?li r)"
    using pc by (auto simp: counts_defs)
  have "among n' R W T ?li" using m'[unfolded eqs] nonneg i by (simp add: among_def pc_ok_def)
  moreover have "keeps_awaited T n n'" by (rule keeps_awaitedI[OF m'[unfolded eqs] _ k]) simp
  ultimately show ?thesis using pc d by (simp add: run_instance_def)
qed

text \<open>Releasing the \<open>k\<close>-th name, on the way out of \<open>GetLock\<close> or in \<open>Unlock\<close>.\<close>

lemma run_unlock:
  assumes "among n R W T li" and "held_names li = resources li ! k # rest" and "awaited_names li = []"
    and "held_names (li\<lparr>li_pc := pc\<rparr>) = rest" and "awaited_names (li\<lparr>li_pc := pc\<rparr>) = []"
    and "\<And>n'. pc_ok n' (li\<lparr>li_pc := pc\<rparr>)"
  shows "\<exists>n'. ns_unlock (resources li ! k) (li_read li) n = Inr n' \<and> among n' R W T (li\<lparr>li_pc := pc\<rparr>) \<and> keeps_awaited T n n'"
proof -
  let ?r = "resources li ! k" and ?li = "li\<lparr>li_pc := pc\<rparr>"
  let ?rd = "\<lambda>r. R r + rd1 li r" and ?wr = "\<lambda>r. W r + wr1 li r" and ?wt = "\<lambda>r. T r + wt1 li r"
  have nonneg: "\<forall>r. 0 \<le> R r \<and> 0 \<le> W r \<and> 0 \<le> T r" and m: "map_ok n ?rd ?wr ?wt"
    using assms(1) by (auto simp: among_def)
  have "0 < (if li_read li then ?rd ?r else ?wr ?r)"
    using nonneg assms(2) by (auto simp: rd1_def wr1_def add_nonneg_pos)
  from map_ok_unlock[OF m this] obtain n' where u: "ns_unlock ?r (li_read li) n = Inr n'"
    and m': "map_ok n' (if li_read li then ?rd(?r := ?rd ?r - 1) else ?rd) (if li_read li then ?wr else ?wr(?r := ?wr ?r - 1)) ?wt"
    and k: "\<forall>q. nm_lockMap n' q = None \<or> nm_lockMap n' q = nm_lockMap n q" by blast
  have eqs: "(if li_read li then ?rd(?r := ?rd ?r - 1) else ?rd) = (\<lambda>r. R r + rd1 ?li r)"
    "(if li_read li then ?wr else ?wr(?r := ?wr ?r - 1)) = (\<lambda>r. W r + wr1 ?li r)" "?wt = (\<lambda>r. T r + wt1 ?li r)"
    using assms(2-5) by (auto simp: rd1_def wr1_def wt1_def)
  have "among n' R W T ?li" using m'[unfolded eqs] nonneg assms(6) by (simp add: among_def)
  moreover have "keeps_awaited T n n'" by (rule keeps_awaitedI[OF m'[unfolded eqs] _ k]) simp
  ultimately show ?thesis using u by blast
qed

text \<open>A step that leaves the map alone and holds and awaits what it did.\<close>

lemma run_stay:
  assumes "among n R W T li" and "run_instance li n = Inr (n, pc)"
    and "held_names (li\<lparr>li_pc := pc\<rparr>) = held_names li" and "awaited_names (li\<lparr>li_pc := pc\<rparr>) = awaited_names li"
    and "pc_ok n (li\<lparr>li_pc := pc\<rparr>)"
  shows "\<exists>n' pc. run_instance li n = Inr (n', pc) \<and> among n' R W T (li\<lparr>li_pc := pc\<rparr>) \<and> keeps_awaited T n n'"
proof -
  have "rd1 (li\<lparr>li_pc := pc\<rparr>) = rd1 li" "wr1 (li\<lparr>li_pc := pc\<rparr>) = wr1 li" "wt1 (li\<lparr>li_pc := pc\<rparr>) = wt1 li"
    using assms(3,4) by (auto simp: rd1_def wr1_def wt1_def)
  then have "among n R W T (li\<lparr>li_pc := pc\<rparr>)" using assms(1,5) by (simp add: among_def)
  then show ?thesis using assms(2) by (auto simp: keeps_awaited_def)
qed

lemma run_instance_ok:
  assumes "among n R W T li"
  shows "\<exists>n' pc. run_instance li n = Inr (n', pc) \<and> among n' R W T (li\<lparr>li_pc := pc\<rparr>) \<and> keeps_awaited T n n'"
proof (cases "li_pc li")
  case (Enter i)
  show ?thesis
  proof (cases "i < length (resources li)")
    case True
    then show ?thesis using run_enter[OF assms Enter] by blast
  next
    case False
    then show ?thesis
      by (intro run_stay[OF assms, of Held]) (use Enter in \<open>auto simp: run_instance_def counts_defs pc_ok_def\<close>)
  qed
next
  case (Undo k i)
  have ki: "k \<le> i" "i \<le> length (resources li)" using assms Undo by (auto simp: among_def pc_ok_def)
  show ?thesis
  proof (cases "k < i")
    case True
    have "drop k (take i (resources li)) = resources li ! k # drop (Suc k) (take i (resources li))"
      using True ki by (metis Cons_nth_drop_Suc length_take min.absorb2 nth_take)
    then have "\<exists>n'. ns_unlock (resources li ! k) (li_read li) n = Inr n' \<and> among n' R W T (li\<lparr>li_pc := Undo (Suc k) i\<rparr>) \<and> keeps_awaited T n n'"
      by (intro run_unlock[OF assms]) (use Undo True ki in \<open>auto simp: counts_defs pc_ok_def\<close>)
    then show ?thesis using Undo True by (auto simp: run_instance_def)
  next
    case False
    then show ?thesis
      by (intro run_stay[OF assms, of TimedOut]) (use Undo in \<open>auto simp: run_instance_def counts_defs pc_ok_def\<close>)
  qed
next
  case (Releasing k)
  have k: "k \<le> length (resources li)" using assms Releasing by (auto simp: among_def pc_ok_def)
  show ?thesis
  proof (cases "k < length (resources li)")
    case True
    have "drop k (resources li) = resources li ! k # drop (Suc k) (resources li)"
      using True by (metis Cons_nth_drop_Suc)
    then have "\<exists>n'. ns_unlock (resources li ! k) (li_read li) n = Inr n' \<and> among n' R W T (li\<lparr>li_pc := Releasing (Suc k)\<rparr>) \<and> keeps_awaited T n n'"
      by (intro run_unlock[OF assms]) (use Releasing True in \<open>auto simp: counts_defs pc_ok_def\<close>)
    then show ?thesis using Releasing True by (auto simp: run_instance_def)
  next
    case False
    then show ?thesis
      by (intro run_stay[OF assms, of Released]) (use Releasing in \<open>auto simp: run_instance_def counts_defs pc_ok_def\<close>)
  qed
next
  case Held
  then show ?thesis
    by (intro run_stay[OF assms, of "Releasing 0"]) (use Held in \<open>auto simp: run_instance_def counts_defs pc_ok_def\<close>)
next
  case TimedOut
  then show ?thesis
    by (intro run_stay[OF assms, of TimedOut]) (use TimedOut in \<open>auto simp: run_instance_def counts_defs pc_ok_def\<close>)
next
  case Released
  then show ?thesis
    by (intro run_stay[OF assms, of Released]) (use Released in \<open>auto simp: run_instance_def counts_defs pc_ok_def\<close>)
qed (use run_try[OF assms] run_give_up[OF assms] in blast)+

lemma pc_ok_kept:
  assumes "pc_ok n li" and "keeps_awaited T n n'" and "wt1 li \<le> T"
  shows "pc_ok n' li"
proof (cases "li_pc li")
  case (Try i a)
  have "1 \<le> T (resources li ! i)"
    using assms(3) Try by (auto simp: le_fun_def wt1_def awaited_names_def dest!: spec[of _ "resources li ! i"])
  then show ?thesis using assms(1,2) Try by (auto simp: pc_ok_def keeps_awaited_def)
qed (use assms(1) in \<open>auto simp: pc_ok_def\<close>)

text \<open>An instance of a well-formed world stands among the others.\<close>

lemma world_among:
  assumes "world_ok w" and "j < length (nw_instances w)"
  shows "among (nw_map w)
    (\<lambda>r. all_of rd1 (nw_instances w) r - rd1 (nw_instances w ! j) r)
    (\<lambda>r. all_of wr1 (nw_instances w) r - wr1 (nw_instances w ! j) r)
    (\<lambda>r. all_of wt1 (nw_instances w) r - wt1 (nw_instances w ! j) r) (nw_instances w ! j)"
  using assms by (auto simp: among_def world_ok_def all_of_member_le)

lemma among_world:
  assumes "world_ok w" and "j < length (nw_instances w)"
    and "among n' (\<lambda>r. all_of rd1 (nw_instances w) r - rd1 (nw_instances w ! j) r)
      (\<lambda>r. all_of wr1 (nw_instances w) r - wr1 (nw_instances w ! j) r)
      (\<lambda>r. all_of wt1 (nw_instances w) r - wt1 (nw_instances w ! j) r) li'"
    and "keeps_awaited (\<lambda>r. all_of wt1 (nw_instances w) r - wt1 (nw_instances w ! j) r) (nw_map w) n'"
  shows "world_ok \<lparr>nw_map = n', nw_instances = (nw_instances w)[j := li']\<rparr>"
proof -
  have sums: "all_of f ((nw_instances w)[j := li']) = (\<lambda>r. all_of f (nw_instances w) r - f (nw_instances w ! j) r + f li' r)" for f
    using assms(2) by (simp add: all_of_update fun_eq_iff)
  have "pc_ok n' li" if li: "li \<in> set ((nw_instances w)[j := li'])" for li
  proof -
    obtain i where i: "i < length (nw_instances w)" "li = (nw_instances w)[j := li'] ! i"
      using li by (auto simp: in_set_conv_nth)
    show ?thesis
    proof (cases "i = j")
      case True
      then show ?thesis using i assms(3) by (simp add: among_def)
    next
      case False
      have "wt1 (nw_instances w ! i) r + wt1 (nw_instances w ! j) r \<le> all_of wt1 (nw_instances w) r" for r
        using all_of_two_le[of wt1] i assms(2) False by simp
      then have "wt1 (nw_instances w ! i) \<le> (\<lambda>r. all_of wt1 (nw_instances w) r - wt1 (nw_instances w ! j) r)"
        by (simp add: le_fun_def algebra_simps)
      moreover have "pc_ok (nw_map w) (nw_instances w ! i)" using assms(1) i by (auto simp: world_ok_def)
      ultimately show ?thesis using pc_ok_kept assms(4) i False by simp
    qed
  qed
  moreover have "map_ok n' (all_of rd1 ((nw_instances w)[j := li'])) (all_of wr1 ((nw_instances w)[j := li']))
      (all_of wt1 ((nw_instances w)[j := li']))"
    using assms(3) unfolding sums among_def by blast
  ultimately show ?thesis by (simp add: world_ok_def)
qed

lemma world_ok_step:
  assumes "world_ok w" and "ns_step w l = Some res"
  shows "\<exists>w'. res = Inr w' \<and> world_ok w'"
proof (cases l)
  case (Run j)
  then have j: "j < length (nw_instances w)" using assms(2) by (auto simp: ns_step_def split: if_splits)
  obtain n' pc where r: "run_instance (nw_instances w ! j) (nw_map w) = Inr (n', pc)"
    and a: "among n' (\<lambda>r. all_of rd1 (nw_instances w) r - rd1 (nw_instances w ! j) r)
      (\<lambda>r. all_of wr1 (nw_instances w) r - wr1 (nw_instances w ! j) r)
      (\<lambda>r. all_of wt1 (nw_instances w) r - wt1 (nw_instances w ! j) r) ((nw_instances w ! j)\<lparr>li_pc := pc\<rparr>)"
    and k: "keeps_awaited (\<lambda>r. all_of wt1 (nw_instances w) r - wt1 (nw_instances w ! j) r) (nw_map w) n'"
    using run_instance_ok[OF world_among[OF assms(1) j]] by blast
  show ?thesis using among_world[OF assms(1) j a k] assms(2) Run j r by (auto simp: ns_step_def)
next
  case (Expire j)
  then obtain i a where j: "j < length (nw_instances w)" and pc: "li_pc (nw_instances w ! j) = Try i a"
    and res: "res = Inr (w\<lparr>nw_instances := (nw_instances w)[j := (nw_instances w ! j)\<lparr>li_pc := GiveUp i\<rparr>]\<rparr>)"
    using assms(2) by (auto simp: ns_step_def split: if_splits ns_pc.splits)
  let ?li = "(nw_instances w ! j)\<lparr>li_pc := GiveUp i\<rparr>"
  have "rd1 ?li = rd1 (nw_instances w ! j)" "wr1 ?li = wr1 (nw_instances w ! j)" "wt1 ?li = wt1 (nw_instances w ! j)"
    using pc by (auto simp: counts_defs)
  then have "among (nw_map w) (\<lambda>r. all_of rd1 (nw_instances w) r - rd1 (nw_instances w ! j) r)
      (\<lambda>r. all_of wr1 (nw_instances w) r - wr1 (nw_instances w ! j) r)
      (\<lambda>r. all_of wt1 (nw_instances w) r - wt1 (nw_instances w ! j) r) ?li"
    using world_among[OF assms(1) j] pc by (simp add: among_def pc_ok_def)
  from among_world[OF assms(1) j this] show ?thesis using res by (cases w) (simp add: keeps_awaited_def)
qed

lemma world_ok_init: "world_ok (ns_init lis)"
proof -
  have zero: "all_of f (map (\<lambda>li. li\<lparr>li_pc := Enter 0\<rparr>) lis) r = 0" if "\<And>li. f (li\<lparr>li_pc := Enter 0\<rparr>) r = 0" for f r
    using that unfolding all_of_def by (induction lis) auto
  have "all_of rd1 (map (\<lambda>li. li\<lparr>li_pc := Enter 0\<rparr>) lis) r = 0" "all_of wr1 (map (\<lambda>li. li\<lparr>li_pc := Enter 0\<rparr>) lis) r = 0"
    "all_of wt1 (map (\<lambda>li. li\<lparr>li_pc := Enter 0\<rparr>) lis) r = 0" for r
    by (rule zero, simp add: counts_defs)+
  then show ?thesis by (simp add: world_ok_def ns_init_def map_ok_def newNSLock_def pc_ok_def)
qed

lemma world_ok_reachable: "ns_reachable lis w \<Longrightarrow> world_ok w"
  by (induction rule: ns_reachable.induct) (use world_ok_init world_ok_step in fastforce)+

section \<open>Mutual exclusion\<close>

lemma all_of_pos:
  "0 < all_of f lis r \<Longrightarrow> \<exists>k<length lis. 0 < f (lis ! k) r"
proof (induction lis)
  case (Cons a lis)
  show ?case
  proof (cases "0 < f a r")
    case False
    then obtain k where "k < length lis" "0 < f (lis ! k) r" using Cons by (auto simp: all_of_def)
    then show ?thesis by (intro exI[of _ "Suc k"]) simp
  qed auto
qed (simp add: all_of_def)

lemma count_pos: "0 < count_list xs x \<longleftrightarrow> x \<in> set xs"
  using count_list_0_iff[of xs x] by auto

lemma held_counted: "0 < rd1 li r + wr1 li r \<longleftrightarrow> r \<in> set (held_names li)"
  by (simp add: rd1_def wr1_def count_pos)

lemma awaited_counted: "0 < wt1 li r \<longleftrightarrow> r \<in> set (awaited_names li)"
  by (simp add: wt1_def count_pos)

lemma pc_ok_at: "world_ok w \<Longrightarrow> j < length (nw_instances w) \<Longrightarrow> pc_ok (nw_map w) (nw_instances w ! j)"
  by (simp add: world_ok_def)

lemma mutex_entry:
  assumes "world_ok w" and "nm_lockMap (nw_map w) r = Some a"
  shows "entry_ok (nm_heap (nw_map w) ! a) (all_of rd1 (nw_instances w) r) (all_of wr1 (nw_instances w) r) (all_of wt1 (nw_instances w) r)"
  using assms map_okD(2) unfolding world_ok_def by blast

lemma writer_excludes:
  assumes "world_ok w" and "i < length (nw_instances w)" "j < length (nw_instances w)" "i \<noteq> j"
    and "\<not> li_read (nw_instances w ! i)" and "r \<in> set (held_names (nw_instances w ! i))"
  shows "r \<notin> set (held_names (nw_instances w ! j))"
proof
  assume other: "r \<in> set (held_names (nw_instances w ! j))"
  let ?all = "nw_instances w"
  have wi: "1 \<le> wr1 (?all ! i) r" using assms(5,6) held_counted[of "?all ! i" r] by (simp add: rd1_def)
  have all: "wr1 (?all ! i) r + wr1 (?all ! j) r \<le> all_of wr1 ?all r" "rd1 (?all ! i) r + rd1 (?all ! j) r \<le> all_of rd1 ?all r"
    using all_of_two_le assms(2-4) counts_nonneg by blast+
  have wr: "1 \<le> all_of wr1 ?all r" using all(1) wi counts_nonneg(2)[of "?all ! j" r] by linarith
  have "nm_lockMap (nw_map w) r \<noteq> None"
    using map_okD(1)[of "nw_map w" _ _ _ r] assms(1) wr unfolding world_ok_def by fastforce
  then obtain a where "nm_lockMap (nw_map w) r = Some a" by blast
  from mutex_entry[OF assms(1) this] wr have "all_of wr1 ?all r = 1" "all_of rd1 ?all r = 0" by (auto simp: entry_ok_def)
  moreover have "0 < rd1 (?all ! j) r + wr1 (?all ! j) r" using other held_counted by blast
  moreover have "0 \<le> rd1 (?all ! i) r" by simp
  ultimately show False using all wi by linarith
qed

lemma entry_iff_used:
  assumes "world_ok w"
  shows "nm_lockMap (nw_map w) r \<noteq> None
    \<longleftrightarrow> (\<exists>k<length (nw_instances w). r \<in> set (held_names (nw_instances w ! k)) \<or> r \<in> set (awaited_names (nw_instances w ! k)))"
proof
  let ?all = "nw_instances w"
  assume "nm_lockMap (nw_map w) r \<noteq> None"
  then obtain a where "nm_lockMap (nw_map w) r = Some a" by blast
  from mutex_entry[OF assms this] have "0 < all_of rd1 ?all r \<or> 0 < all_of wr1 ?all r \<or> 0 < all_of wt1 ?all r"
    by (auto simp: entry_ok_def)
  then obtain k where k: "k < length ?all" "0 < rd1 (?all ! k) r \<or> 0 < wr1 (?all ! k) r \<or> 0 < wt1 (?all ! k) r"
    using all_of_pos by meson
  have "0 < rd1 (?all ! k) r + wr1 (?all ! k) r \<or> 0 < wt1 (?all ! k) r"
    using k(2) by (auto simp: add_pos_nonneg add_nonneg_pos)
  then show "\<exists>k<length ?all. r \<in> set (held_names (?all ! k)) \<or> r \<in> set (awaited_names (?all ! k))"
    using k(1) by (auto simp: held_counted awaited_counted)
next
  let ?all = "nw_instances w"
  assume "\<exists>k<length ?all. r \<in> set (held_names (?all ! k)) \<or> r \<in> set (awaited_names (?all ! k))"
  then obtain k where k: "k < length ?all" "0 < rd1 (?all ! k) r + wr1 (?all ! k) r \<or> 0 < wt1 (?all ! k) r"
    by (auto simp: held_counted awaited_counted)
  have "rd1 (?all ! k) r \<le> all_of rd1 ?all r" "wr1 (?all ! k) r \<le> all_of wr1 ?all r" "wt1 (?all ! k) r \<le> all_of wt1 ?all r"
    using k(1) by (auto intro: all_of_member_le)
  then show "nm_lockMap (nw_map w) r \<noteq> None"
    using k(2) map_okD(1)[of "nw_map w" _ _ _ r] assms counts_nonneg[of "?all ! k" r] unfolding world_ok_def by fastforce
qed

section \<open>No deadlock\<close>

definition finished :: "localLockInstance \<Rightarrow> bool" where
  "finished li \<longleftrightarrow> li_pc li = TimedOut \<or> li_pc li = Released"

lemma progress_unless_waiting:
  assumes "among n R W T li" and "\<not> finished li" and "\<And>i a. li_pc li \<noteq> Try i a"
  shows "\<exists>n' pc. run_instance li n = Inr (n', pc) \<and> pc \<noteq> li_pc li"
  using run_instance_ok[OF assms(1)] assms(2,3)
  by (auto simp: run_instance_def finished_def split: ns_pc.splits if_splits sum.splits prod.splits)

lemma waiting_blocked:
  assumes "world_ok w" and "j < length (nw_instances w)" and "li_pc (nw_instances w ! j) = Try i a"
    and "ns_try a ops src (li_read (nw_instances w ! j)) (nw_map w) = (n', False)"
  shows "\<exists>k<length (nw_instances w). resources (nw_instances w ! j) ! i \<in> set (held_names (nw_instances w ! k))"
proof -
  let ?all = "nw_instances w" and ?r = "resources (nw_instances w ! j) ! i"
  have "nm_lockMap (nw_map w) ?r = Some a" using pc_ok_at[OF assms(1,2)] assms(3) by (simp add: pc_ok_def)
  from mutex_entry[OF assms(1) this] assms(4) have "0 < all_of rd1 ?all ?r \<or> 0 < all_of wr1 ?all ?r"
    by (auto simp: ns_try_def lm_lock_def Let_def entry_ok_def split: prod.splits if_splits)
  then obtain k where k: "k < length ?all" "0 < rd1 (?all ! k) ?r \<or> 0 < wr1 (?all ! k) ?r"
    using all_of_pos by meson
  then have "0 < rd1 (?all ! k) ?r + wr1 (?all ! k) ?r" by (auto simp: add_pos_nonneg add_nonneg_pos)
  then show ?thesis using k(1) held_counted by blast
qed

lemma sorted_names_kept:
  "ns_reachable lis w \<Longrightarrow> length (nw_instances w) = length lis
    \<and> (\<forall>j<length lis. resources (nw_instances w ! j) = resources (lis ! j) \<and> li_read (nw_instances w ! j) = li_read (lis ! j))"
proof (induction rule: ns_reachable.induct)
  case ns_start
  then show ?case by (simp add: ns_init_def)
next
  case (ns_more w l w')
  then show ?case
    by (auto simp: ns_step_def nth_list_update split: ns_label.splits ns_pc.splits if_splits sum.splits prod.splits)
qed

text \<open>Everything an instance holds while it waits lies below what it waits for, if its names are in strict order.\<close>

lemma held_below_awaited:
  assumes "sorted_wrt (<) (resources li)" and "li_pc li = Try i a" and "i < length (resources li)"
    and "r \<in> set (held_names li)"
  shows "r < resources li ! i"
proof -
  obtain k where "k < i" "r = resources li ! k"
    using assms(2-4) by (auto simp: held_names_def in_set_conv_nth)
  then show ?thesis using assms(1,3) sorted_wrt_nth_less by blast
qed

lemma finished_holds_nothing: "finished li \<Longrightarrow> held_names li = [] \<and> awaited_names li = []"
  by (auto simp: finished_def held_names_def awaited_names_def)

lemma some_waiting_granted:
  assumes ok: "world_ok w" and sorted: "\<And>li. li \<in> set (nw_instances w) \<Longrightarrow> sorted_wrt (<) (resources li)"
    and some: "j < length (nw_instances w)" "\<not> finished (nw_instances w ! j)"
    and all: "\<And>li. li \<in> set (nw_instances w) \<Longrightarrow> \<not> finished li \<Longrightarrow> \<exists>i a. li_pc li = Try i a"
  shows "\<exists>k<length (nw_instances w). \<exists>i a n'. li_pc (nw_instances w ! k) = Try i a
    \<and> ns_try a (li_opsID (nw_instances w ! k)) [] (li_read (nw_instances w ! k)) (nw_map w) = (n', True)"
proof (rule ccontr)
  let ?all = "nw_instances w"
  let ?wait = "{k. k < length ?all \<and> \<not> finished (?all ! k)}"
  let ?name = "\<lambda>k. hd (awaited_names (?all ! k))"
  assume none: "\<not> ?thesis"
  have "finite (?name ` ?wait)" "?name ` ?wait \<noteq> {}" using some by auto
  then obtain k where k: "k < length ?all" "\<not> finished (?all ! k)" and max: "\<And>k'. k' \<in> ?wait \<Longrightarrow> ?name k' \<le> ?name k"
    using Max_in[of "?name ` ?wait"] Max_ge[of "?name ` ?wait"] by fastforce
  obtain i a where pc: "li_pc (?all ! k) = Try i a" using all k by (meson nth_mem)
  obtain n' b where t: "ns_try a (li_opsID (?all ! k)) [] (li_read (?all ! k)) (nw_map w) = (n', b)" by fastforce
  then have "\<not> b" using none k(1) pc by (cases b) auto
  then obtain m where m: "m < length ?all" "resources (?all ! k) ! i \<in> set (held_names (?all ! m))"
    using waiting_blocked[OF ok k(1) pc] t by fastforce
  then have mf: "\<not> finished (?all ! m)" using finished_holds_nothing by fastforce
  then obtain i' a' where pc': "li_pc (?all ! m) = Try i' a'" using all m(1) by (meson nth_mem)
  have "i' < length (resources (?all ! m))" using pc_ok_at[OF ok m(1)] pc' by (simp add: pc_ok_def)
  then have "resources (?all ! k) ! i < resources (?all ! m) ! i'"
    using held_below_awaited sorted m pc' nth_mem by blast
  then have "?name k < ?name m" using pc pc' by (simp add: awaited_names_def)
  then show False using max[of m] m(1) mf by (simp add: leD)
qed

text \<open>The names of an instance are in strict order when it has a single path, and when its paths are distinct and stay as they are
  behind the volume.\<close>

lemma prefix_less: "(xs @ ys < xs @ zs) = (ys < (zs :: string))"
  by (induction xs) simp_all

lemma NewNSLock_single: "sorted_wrt (<) (resources (NewNSLock v [p] ops rd))"
  by (simp add: resources_def NewNSLock_def)

lemma NewNSLock_sorted:
  assumes "distinct ps" and "\<And>p. p \<in> set ps \<Longrightarrow> pathJoin [v, p] = v @ ''/'' @ p"
  shows "sorted_wrt (<) (resources (NewNSLock v ps ops rd))"
proof -
  have "resources (NewNSLock v ps ops rd) = map (\<lambda>p. v @ ''/'' @ p) (sort ps)"
    using assms(2) by (simp add: resources_def NewNSLock_def)
  moreover have "sorted_wrt (<) (sort ps)" using assms(1) by (simp add: strict_sorted_iff)
  ultimately show ?thesis by (simp add: sorted_wrt_map prefix_less)
qed

lemma sorted_names_reachable:
  assumes "ns_reachable lis w" and "\<forall>li \<in> set lis. sorted_wrt (<) (resources li)" and "li \<in> set (nw_instances w)"
  shows "sorted_wrt (<) (resources li)"
proof -
  obtain j where j: "j < length lis" "li = nw_instances w ! j"
    using assms(3) sorted_names_kept[OF assms(1)] by (auto simp: in_set_conv_nth)
  then have "resources li = resources (lis ! j)" using sorted_names_kept[OF assms(1)] by simp
  then show ?thesis using assms(2) j(1) by simp
qed

section \<open>The properties\<close>

text \<open>C35: in every interleaving, a name that one instance holds for writing is held by no other, for
  reading or for writing.\<close>

theorem ns_mutual_exclusion:
  assumes "ns_reachable lis w" and "i < length lis" "j < length lis" "i \<noteq> j"
    and "\<not> li_read (lis ! i)" and "r \<in> set (held_names (nw_instances w ! i))"
  shows "r \<notin> set (held_names (nw_instances w ! j))"
  using writer_excludes[OF world_ok_reachable[OF assms(1)], of i j r] sorted_names_kept[OF assms(1)] assms(2-6) by simp

text \<open>no step of any interleaving panics -- no mutex is released that is not held, no reference count
  falls below zero, no missing entry is dereferenced -- and the map has an entry for a name exactly while
  somebody holds or awaits it, so that it is empty again once all are through.\<close>

theorem ns_map_exact:
  assumes "ns_reachable lis w"
  shows "ns_step w l \<noteq> Some (Inl e)
    \<and> (nm_lockMap (nw_map w) r = None \<longleftrightarrow> r \<notin> set (concat (map held_names (nw_instances w)) @ concat (map awaited_names (nw_instances w))))"
proof
  show "ns_step w l \<noteq> Some (Inl e)" using world_ok_step[OF world_ok_reachable[OF assms]] by blast
  have "(\<exists>k<length (nw_instances w). r \<in> set (held_names (nw_instances w ! k)) \<or> r \<in> set (awaited_names (nw_instances w ! k)))
    \<longleftrightarrow> (\<exists>li \<in> set (nw_instances w). r \<in> set (held_names li) \<or> r \<in> set (awaited_names li))"
    by (metis in_set_conv_nth)
  then show "nm_lockMap (nw_map w) r = None \<longleftrightarrow> r \<notin> set (concat (map held_names (nw_instances w)) @ concat (map awaited_names (nw_instances w)))"
    using entry_iff_used[OF world_ok_reachable[OF assms], of r] by auto
qed

text \<open>C36: if each instance takes its names in strictly increasing order, instances never wait for each other in a circle:
  in every reachable state some instance that is not through can take a step that gets it further,
  with no timeout running out. The names are \<open>pathJoin(volume, path)\<close> in the order of the sorted paths; they increase when there is one path,
  and when the paths are distinct and clean. They do not when two paths give the same name, for which a writer then waits for itself.\<close>

theorem ns_no_deadlock:
  assumes "ns_reachable lis w" and "\<forall>li \<in> set lis. sorted_wrt (<) (resources li)"
    and "j < length lis" and "\<not> finished (nw_instances w ! j)"
  shows "\<exists>k w'. ns_step w (Run k) = Some (Inr w') \<and> k < length lis
    \<and> li_pc (nw_instances w' ! k) \<noteq> li_pc (nw_instances w ! k)"
proof -
  note ok = world_ok_reachable[OF assms(1)]
  have len: "length (nw_instances w) = length lis" using sorted_names_kept[OF assms(1)] by simp
  have step: "\<exists>w'. ns_step w (Run k) = Some (Inr w') \<and> li_pc (nw_instances w' ! k) \<noteq> li_pc (nw_instances w ! k)"
    if "k < length lis" "run_instance (nw_instances w ! k) (nw_map w) = Inr (n', pc)" "pc \<noteq> li_pc (nw_instances w ! k)" for k n' pc
    using that len by (simp add: ns_step_def)
  show ?thesis
  proof (cases "\<exists>k<length lis. \<not> finished (nw_instances w ! k) \<and> (\<forall>i a. li_pc (nw_instances w ! k) \<noteq> Try i a)")
    case True
    then obtain k where k: "k < length lis" "\<not> finished (nw_instances w ! k)" "\<And>i a. li_pc (nw_instances w ! k) \<noteq> Try i a" by blast
    have "k < length (nw_instances w)" using k(1) len by simp
    from progress_unless_waiting[OF world_among[OF ok this] k(2,3)] step[OF k(1)] show ?thesis using k(1) by blast
  next
    case False
    then have "\<exists>i a. li_pc li = Try i a" if "li \<in> set (nw_instances w)" "\<not> finished li" for li
      using that len by (metis in_set_conv_nth)
    from some_waiting_granted[OF ok sorted_names_reachable[OF assms(1,2)] _ assms(4) this] assms(3) len
    obtain k i a n' where k: "k < length lis" "li_pc (nw_instances w ! k) = Try i a"
      "ns_try a (li_opsID (nw_instances w ! k)) [] (li_read (nw_instances w ! k)) (nw_map w) = (n', True)" by auto
    then have "run_instance (nw_instances w ! k) (nw_map w) = Inr (n', Enter (Suc i))" by (simp add: run_instance_def)
    moreover have "Enter (Suc i) \<noteq> li_pc (nw_instances w ! k)" using k(2) by simp
    ultimately show ?thesis using step[OF k(1)] k(1) by blast
  qed
qed

section \<open>A run\<close>

fun ns_run :: "ns_label list \<Rightarrow> ns_world \<Rightarrow> ns_world option" where
  "ns_run [] w = Some w"
| "ns_run (l # ls) w = (case ns_step w l of Some (Inr w') \<Rightarrow> ns_run ls w' | _ \<Rightarrow> None)"

lemma ns_run_reachable: "ns_reachable lis w \<Longrightarrow> ns_run ls w = Some w' \<Longrightarrow> ns_reachable lis w'"
  by (induction ls w rule: ns_run.induct) (auto split: option.splits sum.splits intro: ns_more)

text \<open>A writer of two objects and a reader of one of them, which waits.\<close>

definition ns_sample_locks :: "localLockInstance list" where
  "ns_sample_locks = [NewNSLock ''b'' [''y'', ''x''] ''w'' False, NewNSLock ''b'' [''y''] ''r'' True]"

definition ns_sample_world :: ns_world where
  "ns_sample_world = the (ns_run [Run 0, Run 0, Run 0, Run 1, Run 0, Run 1] (ns_init ns_sample_locks))"

lemma ns_sample_world_run: "ns_run [Run 0, Run 0, Run 0, Run 1, Run 0, Run 1] (ns_init ns_sample_locks) = Some ns_sample_world"
proof -
  have "(case ns_run [Run 0, Run 0, Run 0, Run 1, Run 0, Run 1] (ns_init ns_sample_locks) of None \<Rightarrow> False | Some _ \<Rightarrow> True)"
    by code_simp
  then show ?thesis by (auto simp: ns_sample_world_def split: option.splits)
qed

lemma ns_sample_world_reachable: "ns_reachable ns_sample_locks ns_sample_world"
  by (rule ns_run_reachable[OF ns_start ns_sample_world_run])

lemma ns_sample_made: "\<forall>li \<in> set ns_sample_locks. sorted_wrt (<) (resources li)"
proof -
  have "list_all (\<lambda>p. pathJoin [''b'', p] = ''b'' @ ''/'' @ p) [''y'', ''x'']" by code_simp
  then have j: "p \<in> set [''y'', ''x''] \<Longrightarrow> pathJoin [''b'', p] = ''b'' @ ''/'' @ p" for p unfolding list_all_iff by blast
  have "sorted_wrt (<) (resources (NewNSLock ''b'' [''y'', ''x''] ''w'' False))" by (rule NewNSLock_sorted[OF _ j]) simp_all
  then show ?thesis using NewNSLock_single[of "''b''" "''y''" "''r''" True] by (simp add: ns_sample_locks_def)
qed

theorem ns_mutual_exclusion_witness: "''b/y'' \<notin> set (held_names (nw_instances ns_sample_world ! 1))"
proof (rule ns_mutual_exclusion[OF ns_sample_world_reachable, of 0])
  show "''b/y'' \<in> set (held_names (nw_instances ns_sample_world ! 0))" by code_simp
qed (simp_all add: ns_sample_locks_def NewNSLock_def)

theorem ns_map_exact_witness:
  "ns_step ns_sample_world (Run 1) \<noteq> Some (Inl (GoPanic ''Trying to RUnlock() while no RLock() is active''))
    \<and> nm_lockMap (nw_map ns_sample_world) ''b/z'' = None"
proof -
  have "''b/z'' \<notin> set (concat (map held_names (nw_instances ns_sample_world)) @ concat (map awaited_names (nw_instances ns_sample_world)))"
    by code_simp
  then show ?thesis using ns_map_exact[OF ns_sample_world_reachable] by blast
qed

theorem ns_no_deadlock_witness:
  "\<exists>k w'. ns_step ns_sample_world (Run k) = Some (Inr w') \<and> k < length ns_sample_locks
    \<and> li_pc (nw_instances w' ! k) \<noteq> li_pc (nw_instances ns_sample_world ! k)"
proof (rule ns_no_deadlock[OF ns_sample_world_reachable ns_sample_made, of 1])
  show "\<not> finished (nw_instances ns_sample_world ! 1)" by code_simp
qed (simp add: ns_sample_locks_def)

section \<open>A second release\<close>

text \<open>Two readers hold a name; one of them releases it twice, and a writer comes: whether the writer gets it.\<close>

definition release_twice :: "string \<Rightarrow> nsLockMap option" where
  "release_twice r =
     (case ns_enter r newNSLock of (n1, a1) \<Rightarrow>
      case ns_try a1 ''A'' [] True n1 of (n2, got1) \<Rightarrow>
      case ns_enter r n2 of (n3, a2) \<Rightarrow>
      case ns_try a2 ''B'' [] True n3 of (n4, got2) \<Rightarrow>
      case ns_unlock r True n4 of Inl _ \<Rightarrow> None | Inr n5 \<Rightarrow>
      (case ns_unlock r True n5 of Inl _ \<Rightarrow> None | Inr n6 \<Rightarrow> if got1 \<and> got2 then Some n6 else None))"

text \<open>the lock of a name does not know its holders: a reader that releases a name twice takes away the
  lock of another reader, no panic tells, and a writer is let in beside that reader.\<close>

theorem ns_release_twice_admits_writer:
  "\<exists>n a n'. release_twice r = Some n \<and> nm_lockMap n r = None
    \<and> ns_enter r n = (n', a) \<and> snd (ns_try a ''C'' [] False n')"
  by (simp add: release_twice_def ns_enter_def newNSLock_def ns_try_def lm_lock_def NewLRWMutex_def ns_unlock_def
      lm_RUnlock_def lm_unlock_def ns_deref_def Let_def)

end
