(* ===== verification/Erasure_Read.thy ===== *)
theory Erasure_Read
  imports Erasure_Layout "HOL-Library.Multiset"
begin

text \<open>
  The parallel reader of \<open>cmd/erasure-decode.go\<close>: it reads one shard block from as many readers as there
  are data blocks, one goroutine each, and starts another reader for each that fails. The
  goroutines run in any order: a read is a run of a transition system, whose schedule is a list of labels.
  A reader is a state of any type with its \<open>ReadAt\<close>; it returns its new state and the bytes, or an error.
\<close>

section \<open>The reader\<close>

text \<open>\<open>ReadAt\<close> by offset and length of the buffer.\<close>

type_synonym 'r ReadAt = "'r \<Rightarrow> int \<Rightarrow> int \<Rightarrow> 'r \<times> (gerror + byte list)"

text \<open>\<open>pr_org\<close> tells which entries of the caller's own slice are still there. The buffers are memory only.\<close>

record 'r parallelReader =
  pr_readers :: "'r option list"
  pr_org :: "bool list"
  pr_dataBlocks :: int
  pr_offset :: int
  pr_shardSize :: int
  pr_shardFileSize :: int
  pr_readerToBuf :: "nat list"

definition newParallelReader :: "'r option list \<Rightarrow> Erasure \<Rightarrow> int \<Rightarrow> int \<Rightarrow> gerror + 'r parallelReader" where
  "newParallelReader readers e offset totalLength =
     (if er_blockSize e = 0 then Inl (GoPanic ''integer divide by zero'')
      else case Erasure_ShardFileSize e totalLength of
             Inl err \<Rightarrow> Inl err
           | Inr fileSize \<Rightarrow> Inr
               \<lparr>pr_readers = readers, pr_org = map (\<lambda>r. r \<noteq> None) readers, pr_dataBlocks = er_dataBlocks e,
                pr_offset = quo offset (er_blockSize e) * Erasure_ShardSize e, pr_shardSize = Erasure_ShardSize e,
                pr_shardFileSize = fileSize, pr_readerToBuf = [0..<length readers]\<rparr>)"

definition swapped :: "nat \<Rightarrow> nat \<Rightarrow> 'a list \<Rightarrow> 'a list" where
  "swapped i j xs = xs[i := xs ! j, j := xs ! i]"

fun prefer_loop :: "bool list \<Rightarrow> nat \<Rightarrow> nat \<Rightarrow> 'r option list \<Rightarrow> nat list \<Rightarrow> 'r option list \<times> nat list" where
  "prefer_loop [] i nxt readers r2b = (readers, r2b)"
| "prefer_loop (ok # prefer) i nxt readers r2b =
     (if \<not> ok \<or> readers ! i = None then prefer_loop prefer (Suc i) nxt readers r2b
      else if i = nxt then prefer_loop prefer (Suc i) (Suc nxt) readers r2b
      else prefer_loop prefer (Suc i) (Suc nxt) (swapped nxt i readers) (swapped nxt i r2b))"

definition preferReaders :: "bool list \<Rightarrow> 'r parallelReader \<Rightarrow> 'r parallelReader" where
  "preferReaders prefer p =
     (if length prefer \<noteq> length (pr_readers p) then p
      else case prefer_loop prefer 0 0 (pr_readers p) (pr_readerToBuf p) of
             (readers, r2b) \<Rightarrow> p\<lparr>pr_readers := readers, pr_readerToBuf := r2b\<rparr>)"

definition canDecode :: "int \<Rightarrow> byte list list \<Rightarrow> bool" where
  "canDecode dataBlocks buf \<longleftrightarrow> int (length (filter (\<lambda>b. b \<noteq> []) buf)) \<ge> dataBlocks"

section \<open>One read\<close>

text \<open>What the goroutines of a read share.\<close>

record 'r pr_shared =
  sh_readers :: "'r option list"
  sh_org :: "bool list"
  sh_newBuf :: "byte list list"
  sh_disksNotFound :: int
  sh_bitrotHeal :: bool
  sh_missingPartsHeal :: bool

definition note_error :: "gerror \<Rightarrow> 'r pr_shared \<Rightarrow> 'r pr_shared" where
  "note_error err s =
     (if errors_Is err ErrFileNotFound then s\<lparr>sh_missingPartsHeal := True\<rparr>
      else if errors_Is err ErrFileCorrupt then s\<lparr>sh_bitrotHeal := True\<rparr>
      else if errors_Is err ErrDiskNotFound then s\<lparr>sh_disksNotFound := sh_disksNotFound s + 1\<rparr>
      else s)"

text \<open>The body of the goroutine of the \<open>i\<close>-th reader up to its send, and what it sends: whether another read is to be tried.\<close>

definition read_one :: "'r ReadAt \<Rightarrow> 'r parallelReader \<Rightarrow> nat \<Rightarrow> 'r pr_shared \<Rightarrow> 'r pr_shared \<times> bool" where
  "read_one R p i s =
     (case sh_readers s ! i of
        None \<Rightarrow> (s, True)
      | Some rr \<Rightarrow>
          (case R rr (pr_offset p) (pr_shardSize p) of
             (rr', Inl err) \<Rightarrow>
               ((note_error err s)\<lparr>sh_org := (sh_org s)[pr_readerToBuf p ! i := False], sh_readers := (sh_readers s)[i := None]\<rparr>, True)
           | (rr', Inr b) \<Rightarrow>
               (s\<lparr>sh_readers := (sh_readers s)[i := Some rr'], sh_newBuf := (sh_newBuf s)[pr_readerToBuf p ! i := b]\<rparr>, False)))"

text \<open>The state of a read: the channel of triggers, the goroutines before their \<open>ReadAt\<close> and before their send,
  the reader to start next, and whether the loop has been left.\<close>

record 'r read_state =
  rs_shared :: "'r pr_shared"
  rs_trigger :: "bool list"
  rs_running :: "nat list"
  rs_sending :: "(nat \<times> bool) list"
  rs_readerIndex :: nat
  rs_left :: bool

datatype pr_label = MainLoop | ReadDone nat | SendTrigger nat

definition read_step :: "'r ReadAt \<Rightarrow> 'r parallelReader \<Rightarrow> 'r read_state \<Rightarrow> pr_label \<Rightarrow> 'r read_state option" where
  "read_step R p s l =
     (case l of
        MainLoop \<Rightarrow>
          (if rs_left s then None
           else case rs_trigger s of
             [] \<Rightarrow> None
           | readTrigger # rest \<Rightarrow>
               Some (if canDecode (pr_dataBlocks p) (sh_newBuf (rs_shared s)) \<or> rs_readerIndex s = length (pr_readers p)
                     then s\<lparr>rs_trigger := rest, rs_left := True\<rparr>
                     else if \<not> readTrigger then s\<lparr>rs_trigger := rest\<rparr>
                     else s\<lparr>rs_trigger := rest, rs_running := rs_running s @ [rs_readerIndex s],
                            rs_readerIndex := Suc (rs_readerIndex s)\<rparr>))
      | ReadDone i \<Rightarrow>
          (if i \<in> set (rs_running s)
           then (case read_one R p i (rs_shared s) of
                   (sh, again) \<Rightarrow> Some (s\<lparr>rs_shared := sh, rs_running := remove1 i (rs_running s),
                                          rs_sending := rs_sending s @ [(i, again)]\<rparr>))
           else None)
      | SendTrigger i \<Rightarrow>
          (case map_of (rs_sending s) i of
             None \<Rightarrow> None
           | Some again \<Rightarrow>
               if length (rs_trigger s) < length (pr_readers p)
               then Some (s\<lparr>rs_trigger := rs_trigger s @ [again], rs_sending := filter (\<lambda>x. fst x \<noteq> i) (rs_sending s)\<rparr>)
               else None))"

fun read_run :: "'r ReadAt \<Rightarrow> 'r parallelReader \<Rightarrow> pr_label list \<Rightarrow> 'r read_state \<Rightarrow> 'r read_state option" where
  "read_run R p [] s = Some s"
| "read_run R p (l # ls) s = (case read_step R p s l of None \<Rightarrow> None | Some s' \<Rightarrow> read_run R p ls s')"

definition read_init :: "'r parallelReader \<Rightarrow> 'r read_state" where
  "read_init p =
     \<lparr>rs_shared = \<lparr>sh_readers = pr_readers p, sh_org = pr_org p, sh_newBuf = replicate (length (pr_readers p)) [],
                   sh_disksNotFound = 0, sh_bitrotHeal = False, sh_missingPartsHeal = False\<rparr>,
      rs_trigger = replicate (nat (pr_dataBlocks p)) True, rs_running = [], rs_sending = [],
      rs_readerIndex = 0, rs_left = False\<rparr>"

definition read_final :: "'r read_state \<Rightarrow> bool" where
  "read_final s \<longleftrightarrow> rs_left s \<and> rs_running s = [] \<and> rs_sending s = []"

text \<open>The shard size of the last block.\<close>

definition last_shard :: "'r parallelReader \<Rightarrow> 'r parallelReader" where
  "last_shard p =
     (if pr_offset p + pr_shardSize p > pr_shardFileSize p
      then p\<lparr>pr_shardSize := pr_shardFileSize p - pr_offset p\<rparr> else p)"

text \<open>After \<open>wg.Wait\<close>: the reader for the next block, the buffers and the error.\<close>

definition read_result :: "'r parallelReader \<Rightarrow> 'r pr_shared \<Rightarrow> 'r parallelReader \<times> byte list list \<times> gerror option" where
  "read_result p s =
     (let p1 = p\<lparr>pr_readers := sh_readers s, pr_org := sh_org s\<rparr>
      in if canDecode (pr_dataBlocks p) (sh_newBuf s)
         then (p1\<lparr>pr_offset := pr_offset p + pr_shardSize p\<rparr>, sh_newBuf s,
               if sh_missingPartsHeal s then Some ErrFileNotFound
               else if sh_bitrotHeal s then Some ErrFileCorrupt else None)
         else (p1, [], Some (Wrapped ''offline-disks'' ErrErasureReadQuorum)))"

text \<open>\<open>Read\<close> under a schedule: \<open>None\<close> where the schedule does not bring it to its end. (\<open>dst\<close> only lends
  its memory.)\<close>

definition pr_Read ::
  "'r ReadAt \<Rightarrow> pr_label list \<Rightarrow> 'r parallelReader \<Rightarrow> ('r parallelReader \<times> byte list list \<times> gerror option) option" where
  "pr_Read R sched p0 =
     (let p = last_shard p0
      in if pr_shardSize p = 0 then Some (p, replicate (length (pr_readers p)) [], None)
         else if pr_shardSize p < 0 \<and> list_ex (\<lambda>r. r \<noteq> None) (pr_readers p)
           then Some (p, [], Some (GoPanic ''slice bounds out of range''))
         else if int (length (pr_readers p)) < pr_dataBlocks p then None
         else case read_run R p sched (read_init p) of
                None \<Rightarrow> None
              | Some s \<Rightarrow> if read_final s then Some (read_result p (rs_shared s)) else None)"

section \<open>Reading in order\<close>

text \<open>The reference: one reader after the other, until there are as many blocks as needed.\<close>

fun read_in_order :: "'r ReadAt \<Rightarrow> 'r parallelReader \<Rightarrow> nat \<Rightarrow> nat list \<Rightarrow> 'r pr_shared \<Rightarrow> 'r pr_shared" where
  "read_in_order R p need [] s = s"
| "read_in_order R p 0 (i # rest) s = s"
| "read_in_order R p (Suc need) (i # rest) s =
     (case read_one R p i s of (s', again) \<Rightarrow> read_in_order R p (if again then Suc need else need) rest s')"

section \<open>The goroutines do not disturb each other\<close>

definition fetch :: "'r ReadAt \<Rightarrow> 'r parallelReader \<Rightarrow> nat \<Rightarrow> 'r pr_shared \<Rightarrow> 'r pr_shared" where
  "fetch R p i s = fst (read_one R p i s)"

definition again :: "'r ReadAt \<Rightarrow> 'r parallelReader \<Rightarrow> 'r pr_shared \<Rightarrow> nat \<Rightarrow> bool" where
  "again R p s i = snd (read_one R p i s)"

lemma read_one_split: "read_one R p i s = (fetch R p i s, again R p s i)"
  by (simp add: fetch_def again_def)

lemma again_readers: "again R p s i = again R p s' i" if "sh_readers s ! i = sh_readers s' ! i"
  using that by (auto simp: again_def read_one_def split: option.splits prod.splits sum.splits)

lemma note_error_simps [simp]:
  "sh_readers (note_error err s) = sh_readers s" "sh_org (note_error err s) = sh_org s" "sh_newBuf (note_error err s) = sh_newBuf s"
  by (simp_all add: note_error_def)

lemma note_error_update:
  "note_error err (s\<lparr>sh_readers := x\<rparr>) = (note_error err s)\<lparr>sh_readers := x\<rparr>"
  "note_error err (s\<lparr>sh_org := y\<rparr>) = (note_error err s)\<lparr>sh_org := y\<rparr>"
  "note_error err (s\<lparr>sh_newBuf := z\<rparr>) = (note_error err s)\<lparr>sh_newBuf := z\<rparr>"
  by (simp_all add: note_error_def)

lemma note_error_commute: "note_error e (note_error e' s) = note_error e' (note_error e s)"
  by (simp add: note_error_def)

lemma fetch_other [simp]: "i \<noteq> j \<Longrightarrow> sh_readers (fetch R p j s) ! i = sh_readers s ! i"
  by (simp add: fetch_def read_one_def split: option.splits prod.splits sum.splits)

lemma length_fetch [simp]: "length (sh_readers (fetch R p i s)) = length (sh_readers s)"
    "length (sh_newBuf (fetch R p i s)) = length (sh_newBuf s)" "length (sh_org (fetch R p i s)) = length (sh_org s)"
  by (simp_all add: fetch_def read_one_def split: option.splits prod.splits sum.splits)

lemma again_fetch [simp]: "i \<noteq> j \<Longrightarrow> again R p (fetch R p j s) i = again R p s i"
  by (rule again_readers) simp

lemma fetch_commute:
  assumes "i \<noteq> j" and "pr_readerToBuf p ! i \<noteq> pr_readerToBuf p ! j"
  shows "fetch R p i (fetch R p j s) = fetch R p j (fetch R p i s)"
  using assms
  by (auto simp: fetch_def read_one_def note_error_update list_update_swap note_error_commute
      split: option.splits prod.splits sum.splits)

abbreviation fetch_all :: "'r ReadAt \<Rightarrow> 'r parallelReader \<Rightarrow> nat list \<Rightarrow> 'r pr_shared \<Rightarrow> 'r pr_shared" where
  "fetch_all R p ds s \<equiv> fold (fetch R p) ds s"

lemma fetch_all_readers: "i \<notin> set ds \<Longrightarrow> sh_readers (fetch_all R p ds s) ! i = sh_readers s ! i"
  by (induction ds arbitrary: s) auto

lemma again_fetch_all: "i \<notin> set ds \<Longrightarrow> again R p (fetch_all R p ds s) i = again R p s i"
  by (rule again_readers) (rule fetch_all_readers)

lemma length_fetch_all [simp]: "length (sh_readers (fetch_all R p ds s)) = length (sh_readers s)"
    "length (sh_newBuf (fetch_all R p ds s)) = length (sh_newBuf s)" "length (sh_org (fetch_all R p ds s)) = length (sh_org s)"
  by (induction ds arbitrary: s) auto

text \<open>A reader that fills the buffer it is given.\<close>

definition fills :: "'r ReadAt \<Rightarrow> bool" where
  "fills R \<longleftrightarrow> (\<forall>r off n r' b. 0 < n \<longrightarrow> R r off n = (r', Inr b) \<longrightarrow> int (length b) = n)"

definition pr_ok :: "'r parallelReader \<Rightarrow> bool" where
  "pr_ok p \<longleftrightarrow> distinct (pr_readerToBuf p) \<and> set (pr_readerToBuf p) = {0..<length (pr_readers p)}
     \<and> length (pr_readerToBuf p) = length (pr_readers p) \<and> length (pr_org p) = length (pr_readers p)
     \<and> 0 < pr_dataBlocks p \<and> pr_dataBlocks p \<le> int (length (pr_readers p))"

lemma buf_index_lt: "pr_ok p \<Longrightarrow> i < length (pr_readers p) \<Longrightarrow> pr_readerToBuf p ! i < length (pr_readers p)"
  unfolding pr_ok_def by (metis atLeastLessThan_iff nth_mem)

lemma buf_index_inj:
  "pr_ok p \<Longrightarrow> i < length (pr_readers p) \<Longrightarrow> j < length (pr_readers p) \<Longrightarrow> i \<noteq> j \<Longrightarrow> pr_readerToBuf p ! i \<noteq> pr_readerToBuf p ! j"
  unfolding pr_ok_def by (metis nth_eq_iff_index_eq)

lemma newBuf_fetch:
  "sh_newBuf (fetch R p i s) = (if again R p s i then sh_newBuf s
     else (sh_newBuf s)[pr_readerToBuf p ! i := projr (snd (R (the (sh_readers s ! i)) (pr_offset p) (pr_shardSize p)))])"
  by (auto simp: fetch_def again_def read_one_def split: option.splits prod.splits sum.splits)

lemma newBuf_filled:
  assumes "fills R" and "0 < pr_shardSize p" and "\<not> again R p s i"
  shows "int (length (projr (snd (R (the (sh_readers s ! i)) (pr_offset p) (pr_shardSize p))))) = pr_shardSize p"
  using assms unfolding fills_def by (fastforce simp: again_def read_one_def split: option.splits prod.splits sum.splits)

lemma newBuf_fetch_all_other:
  "(\<And>i. i \<in> set ds \<Longrightarrow> pr_readerToBuf p ! i \<noteq> k) \<Longrightarrow> sh_newBuf (fetch_all R p ds s) ! k = sh_newBuf s ! k"
  by (induction ds arbitrary: s) (auto simp: newBuf_fetch)

lemma filter_update_nonempty:
  "k < length xs \<Longrightarrow> xs ! k = [] \<Longrightarrow> b \<noteq> [] \<Longrightarrow> length (filter (\<lambda>b. b \<noteq> []) (xs[k := b])) = Suc (length (filter (\<lambda>b. b \<noteq> []) xs))"
proof (induction xs arbitrary: k)
  case (Cons x xs)
  then show ?case by (cases k) auto
qed simp

lemma canDecode_fetch_all:
  assumes "fills R" and "pr_ok p" and "0 < pr_shardSize p"
    and s: "length (sh_newBuf s) = length (pr_readers p)" "\<And>k. k < length (pr_readers p) \<Longrightarrow> sh_newBuf s ! k = []"
  shows "distinct ds \<Longrightarrow> set ds \<subseteq> {0..<length (pr_readers p)} \<Longrightarrow>
    length (filter (\<lambda>b. b \<noteq> []) (sh_newBuf (fetch_all R p ds s))) = length (filter (\<lambda>i. \<not> again R p s i) ds)"
proof (induction ds rule: rev_induct)
  case Nil
  have "sh_newBuf s = replicate (length (pr_readers p)) []" using s by (auto intro: nth_equalityI)
  then show ?case by simp
next
  case (snoc i ds)
  let ?s = "fetch_all R p ds s" and ?k = "pr_readerToBuf p ! i"
  have i: "i < length (pr_readers p)" "i \<notin> set ds" and ds: "distinct ds" "set ds \<subseteq> {0..<length (pr_readers p)}"
    using snoc.prems by auto
  have k: "?k < length (pr_readers p)" by (rule buf_index_lt[OF assms(2) i(1)])
  have a: "again R p ?s i = again R p s i" by (rule again_fetch_all[OF i(2)])
  show ?case
  proof (cases "again R p s i")
    case True
    then show ?thesis using snoc.IH[OF ds] a by (simp add: newBuf_fetch)
  next
    case False
    have "pr_readerToBuf p ! j \<noteq> ?k" if "j \<in> set ds" for j
      using buf_index_inj[OF assms(2)] that ds(2) i by fastforce
    then have "sh_newBuf ?s ! ?k = []" using newBuf_fetch_all_other[of ds p ?k] s(2)[OF k] by simp
    moreover have "projr (snd (R (the (sh_readers ?s ! i)) (pr_offset p) (pr_shardSize p))) \<noteq> []"
      using newBuf_filled[OF assms(1,3), of ?s i] False a assms(3) by fastforce
    ultimately show ?thesis
      using snoc.IH[OF ds] a False k s(1) filter_update_nonempty[of ?k "sh_newBuf ?s"]
      by (simp add: newBuf_fetch)
  qed
qed

text \<open>The order of the reads does not matter.\<close>

lemma fetch_all_order:
  assumes "pr_ok p" and "distinct ds" "distinct es" "set ds = set es" "set ds \<subseteq> {0..<length (pr_readers p)}"
  shows "fetch_all R p ds s = fetch_all R p es s"
proof -
  have swap: "fetch R p i \<circ> fetch R p j = fetch R p j \<circ> fetch R p i" if "i \<in> set ds" "j \<in> set ds" for i j
  proof (cases "i = j")
    case False
    have "i < length (pr_readers p)" "j < length (pr_readers p)" using that assms(5) by auto
    then have "pr_readerToBuf p ! i \<noteq> pr_readerToBuf p ! j" using buf_index_inj[OF assms(1)] False by blast
    from fetch_commute[OF False this] show ?thesis by (simp add: fun_eq_iff)
  qed simp
  have "mset ds = mset es" using assms by (simp add: set_eq_iff_mset_eq_distinct)
  from fold_multiset_equiv[OF swap this] show ?thesis by (simp add: fun_eq_iff)
qed

section \<open>The invariant of a read\<close>

text \<open>Of the first \<open>m\<close> readers, how many deliver; triggers of a kind on their way.\<close>

definition delivering :: "'r ReadAt \<Rightarrow> 'r parallelReader \<Rightarrow> 'r pr_shared \<Rightarrow> nat list \<Rightarrow> nat" where
  "delivering R p s is = length (filter (\<lambda>i. \<not> again R p s i) is)"

definition triggers :: "bool \<Rightarrow> 'r read_state \<Rightarrow> nat" where
  "triggers b s = count_list (rs_trigger s) b + count_list (map snd (rs_sending s)) b"

definition read_inv :: "'r ReadAt \<Rightarrow> 'r parallelReader \<Rightarrow> 'r pr_shared \<Rightarrow> nat list \<Rightarrow> 'r read_state \<Rightarrow> bool" where
  "read_inv R p s0 ds s \<longleftrightarrow>
     rs_shared s = fetch_all R p ds s0
     \<and> distinct (ds @ rs_running s) \<and> set (ds @ rs_running s) = {0..<rs_readerIndex s} \<and> rs_readerIndex s \<le> length (pr_readers p)
     \<and> distinct (map fst (rs_sending s)) \<and> set (map fst (rs_sending s)) \<subseteq> set ds
     \<and> int (delivering R p s0 ds + length (rs_running s) + triggers True s) \<le> pr_dataBlocks p
     \<and> triggers False s \<le> delivering R p s0 ds
     \<and> (\<forall>j < rs_readerIndex s. int (delivering R p s0 [0..<j]) < pr_dataBlocks p)
     \<and> (if rs_left s then rs_readerIndex s = length (pr_readers p) \<or> pr_dataBlocks p \<le> int (delivering R p s0 ds)
        else int (delivering R p s0 ds + length (rs_running s) + triggers True s) = pr_dataBlocks p
          \<and> (pr_dataBlocks p \<le> int (delivering R p s0 ds) \<longrightarrow> 0 < triggers False s))"

lemma delivering_simps [simp]: "delivering R p s [] = 0" "delivering R p s (is @ js) = delivering R p s is + delivering R p s js"
  "delivering R p s (i # is) = (if again R p s i then 0 else 1) + delivering R p s is"
  by (simp_all add: delivering_def)

lemma delivering_subset:
  assumes "distinct is" "distinct js" "set is \<subseteq> set js"
  shows "delivering R p s is \<le> delivering R p s js"
proof -
  have "delivering R p s ks = card {i \<in> set ks. \<not> again R p s i}" if "distinct ks" for ks
    unfolding delivering_def using that by (metis distinct_card distinct_filter set_filter)
  then show ?thesis using assms by (auto intro!: card_mono)
qed

definition read_start :: "'r parallelReader \<Rightarrow> 'r pr_shared" where
  "read_start p = rs_shared (read_init p)"

lemma read_start_simps [simp]: "sh_readers (read_start p) = pr_readers p" "sh_org (read_start p) = pr_org p"
    "sh_newBuf (read_start p) = replicate (length (pr_readers p)) []"
  by (simp_all add: read_start_def read_init_def)

lemma read_inv_init:
  assumes "pr_ok p"
  shows "read_inv R p (read_start p) [] (read_init p)"
proof -
  have "count_list (replicate n True) True = n" "count_list (replicate n True) False = 0" for n
    by (induction n) simp_all
  then show ?thesis using assms by (auto simp: read_inv_def read_start_def read_init_def triggers_def pr_ok_def)
qed

lemma canDecode_inv:
  assumes "fills R" and "pr_ok p" and "0 < pr_shardSize p" and "read_inv R p (read_start p) ds s"
  shows "canDecode (pr_dataBlocks p) (sh_newBuf (rs_shared s)) \<longleftrightarrow> pr_dataBlocks p \<le> int (delivering R p (read_start p) ds)"
proof -
  have "set ds \<union> set (rs_running s) = {0..<rs_readerIndex s}" "rs_readerIndex s \<le> length (pr_readers p)" "distinct ds"
    using assms(4) by (simp_all add: read_inv_def)
  moreover from this have "set ds \<subseteq> {0..<rs_readerIndex s}" by blast
  ultimately have "set ds \<subseteq> {0..<length (pr_readers p)}" "distinct ds" by (auto dest!: subsetD[of "set ds"])
  from canDecode_fetch_all[OF assms(1-3) _ _ this(2,1), of "read_start p"] show ?thesis
    using assms(4) by (simp add: canDecode_def delivering_def read_inv_def)
qed

lemma triggers_next:
  "rs_trigger s = t # rest \<Longrightarrow> triggers b s = (if t = b then 1 else 0) + triggers b (s\<lparr>rs_trigger := rest\<rparr>)"
  by (simp add: triggers_def)

lemma triggers_irrelevant [simp]:
  "triggers b (s\<lparr>rs_left := x\<rparr>) = triggers b s" "triggers b (s\<lparr>rs_running := y\<rparr>) = triggers b s"
  "triggers b (s\<lparr>rs_readerIndex := z\<rparr>) = triggers b s" "triggers b (s\<lparr>rs_shared := sh\<rparr>) = triggers b s"
  by (simp_all add: triggers_def)

lemma triggers_sent:
  assumes "distinct (map fst (rs_sending s))" and "map_of (rs_sending s) i = Some a"
  shows "triggers b (s\<lparr>rs_trigger := rs_trigger s @ [a], rs_sending := filter (\<lambda>x. fst x \<noteq> i) (rs_sending s)\<rparr>) = triggers b s"
proof -
  have "count_list (map snd xs) b = (if a = b then 1 else 0) + count_list (map snd (filter (\<lambda>x. fst x \<noteq> i) xs)) b"
    if "distinct (map fst xs)" "map_of xs i = Some a" for xs :: "(nat \<times> bool) list"
    using that
  proof (induction xs)
    case (Cons x xs)
    then show ?case
    proof (cases "fst x = i")
      case True
      then have "filter (\<lambda>x. fst x \<noteq> i) xs = xs"
        using Cons.prems(1) by (intro filter_True) (auto simp: image_iff)
      then show ?thesis using True Cons.prems by simp
    qed auto
  qed simp
  from this[OF assms] show ?thesis by (simp add: triggers_def)
qed

lemma read_step_main:
  assumes "fills R" and "pr_ok p" and "0 < pr_shardSize p" and inv: "read_inv R p (read_start p) ds s"
    and "read_step R p s MainLoop = Some s'"
  shows "read_inv R p (read_start p) ds s'"
proof -
  obtain t rest where l: "\<not> rs_left s" and t: "rs_trigger s = t # rest"
    using assms(5) by (auto simp: read_step_def split: if_splits list.splits)
  let ?D = "pr_dataBlocks p" and ?del = "delivering R p (read_start p)"
  note cd = canDecode_inv[OF assms(1-4)]
  note tn = triggers_next[OF t]
  have eq: "int (?del ds + length (rs_running s) + triggers True s) = ?D"
    and pos: "?D \<le> int (?del ds) \<Longrightarrow> 0 < triggers False s" using inv l by (simp_all add: read_inv_def)
  show ?thesis
  proof (cases "?D \<le> int (?del ds) \<or> rs_readerIndex s = length (pr_readers p)")
    case True
    then have "s' = s\<lparr>rs_trigger := rest, rs_left := True\<rparr>"
      using assms(5) l t cd by (auto simp: read_step_def)
    then show ?thesis using inv True l tn[of True] tn[of False] eq by (auto simp: read_inv_def)
  next
    case go: False
    show ?thesis
    proof (cases t)
      case False
      then have "s' = s\<lparr>rs_trigger := rest\<rparr>" using assms(5) l t cd go by (auto simp: read_step_def)
      then show ?thesis using inv go l tn[of True] tn[of False] eq False by (auto simp: read_inv_def)
    next
      case True
      let ?s = "s\<lparr>rs_trigger := rest, rs_running := rs_running s @ [rs_readerIndex s], rs_readerIndex := Suc (rs_readerIndex s)\<rparr>"
      have s': "s' = ?s" using assms(5) l t cd go True by (auto simp: read_step_def)
      have set: "set (ds @ rs_running s) = {0..<rs_readerIndex s}" and dist: "distinct (ds @ rs_running s)"
        and le: "rs_readerIndex s < length (pr_readers p)" using inv go by (auto simp: read_inv_def)
      have "?del [0..<rs_readerIndex s] \<le> ?del (ds @ rs_running s)"
        by (rule delivering_subset) (use set dist in auto)
      also have "\<dots> \<le> ?del ds + length (rs_running s)" by (simp add: delivering_def)
      finally have "int (?del [0..<rs_readerIndex s]) < ?D" using eq tn[of True] True by simp
      then have less: "\<forall>j < Suc (rs_readerIndex s). int (?del [0..<j]) < ?D"
        using inv by (auto simp: read_inv_def less_Suc_eq)
      have "rs_readerIndex s \<notin> set (ds @ rs_running s)" using set by simp
      then have "distinct (ds @ rs_running ?s)" "set (ds @ rs_running ?s) = {0..<rs_readerIndex ?s}"
        using dist set by auto
      then show ?thesis unfolding s'
        using inv l go tn[of True] tn[of False] eq True less le by (auto simp: read_inv_def)
    qed
  qed
qed

lemma read_step_done:
  assumes inv: "read_inv R p s0 ds s" and "read_step R p s (ReadDone i) = Some s'"
  shows "read_inv R p s0 (ds @ [i]) s'"
proof -
  let ?a = "again R p s0 i"
  have i: "i \<in> set (rs_running s)" using assms(2) by (auto simp: read_step_def split: if_splits)
  then have ids: "i \<notin> set ds" using inv by (auto simp: read_inv_def)
  have sh: "rs_shared s = fetch_all R p ds s0" using inv by (simp add: read_inv_def)
  have a: "again R p (rs_shared s) i = ?a" unfolding sh by (rule again_fetch_all[OF ids])
  have s': "s' = s\<lparr>rs_shared := fetch_all R p (ds @ [i]) s0, rs_running := remove1 i (rs_running s), rs_sending := rs_sending s @ [(i, ?a)]\<rparr>"
    using assms(2) i a sh by (simp add: read_step_def read_one_split)
  have dist: "distinct (rs_running s)" using inv by (simp add: read_inv_def)
  have len: "length (rs_running s) = Suc (length (remove1 i (rs_running s)))"
    using i by (simp add: length_remove1) (metis One_nat_def Suc_pred length_pos_if_in_set)
  have tr: "triggers b s' = triggers b s + (if ?a = b then 1 else 0)" for b by (simp add: s' triggers_def)
  have run: "distinct ((ds @ [i]) @ rs_running s')" "set ((ds @ [i]) @ rs_running s') = {0..<rs_readerIndex s'}"
    using inv i ids dist by (auto simp: s' read_inv_def)
  have send: "distinct (map fst (rs_sending s'))" "set (map fst (rs_sending s')) \<subseteq> set (ds @ [i])"
    using inv ids by (auto simp: s' read_inv_def)
  have rest: "rs_left s' = rs_left s" "rs_readerIndex s' = rs_readerIndex s" "rs_shared s' = fetch_all R p (ds @ [i]) s0"
    "length (rs_running s') = length (rs_running s) - 1"
    using len by (simp_all add: s')
  let ?del = "delivering R p s0"
  have del: "?del (ds @ [i]) + length (rs_running s') + triggers True s' = ?del ds + length (rs_running s) + triggers True s"
    using tr[of True] rest(4) len by simp
  have del2: "?del (ds @ [i]) = ?del ds + (if ?a then 0 else 1)" by simp
  have left: "rs_left s \<longrightarrow> rs_readerIndex s = length (pr_readers p) \<or> pr_dataBlocks p \<le> int (?del (ds @ [i]))"
    using inv by (auto simp: read_inv_def)
  have open1: "\<not> rs_left s \<longrightarrow> pr_dataBlocks p \<le> int (?del (ds @ [i])) \<longrightarrow> 0 < triggers False s'"
    using inv tr[of False] del2 by (auto simp: read_inv_def)
  have f: "triggers False s' \<le> ?del (ds @ [i])" using inv tr[of False] del2 by (auto simp: read_inv_def)
  have "int (?del (ds @ [i]) + length (rs_running s') + triggers True s') \<le> pr_dataBlocks p"
    "\<not> rs_left s \<longrightarrow> int (?del (ds @ [i]) + length (rs_running s') + triggers True s') = pr_dataBlocks p"
    using inv unfolding del by (auto simp: read_inv_def)
  moreover have "rs_readerIndex s \<le> length (pr_readers p)" "\<forall>j < rs_readerIndex s. int (?del [0..<j]) < pr_dataBlocks p"
    using inv by (simp_all add: read_inv_def)
  ultimately show ?thesis
    unfolding read_inv_def rest(1-3) using run send left open1 f rest by simp
qed

lemma read_step_send:
  assumes inv: "read_inv R p s0 ds s" and "read_step R p s (SendTrigger i) = Some s'"
  shows "read_inv R p s0 ds s'"
proof -
  obtain a where a: "map_of (rs_sending s) i = Some a"
    and s': "s' = s\<lparr>rs_trigger := rs_trigger s @ [a], rs_sending := filter (\<lambda>x. fst x \<noteq> i) (rs_sending s)\<rparr>"
    using assms(2) by (auto simp: read_step_def split: option.splits if_splits)
  have d: "distinct (map fst (rs_sending s))" using inv by (simp add: read_inv_def)
  have tr: "triggers b s' = triggers b s" for b unfolding s' by (rule triggers_sent[OF d a])
  have "distinct (map fst (rs_sending s'))" "set (map fst (rs_sending s')) \<subseteq> set ds"
    using inv d by (auto simp: s' read_inv_def distinct_map_filter)
  moreover have "rs_left s' = rs_left s" "rs_readerIndex s' = rs_readerIndex s" "rs_shared s' = rs_shared s" "rs_running s' = rs_running s"
    by (simp_all add: s')
  ultimately show ?thesis using inv tr[of True] tr[of False] by (auto simp: read_inv_def)
qed

lemma read_run_inv:
  assumes "fills R" and "pr_ok p" and "0 < pr_shardSize p"
  shows "read_inv R p (read_start p) ds s \<Longrightarrow> read_run R p ls s = Some s' \<Longrightarrow> \<exists>es. read_inv R p (read_start p) es s'"
proof (induction ls arbitrary: ds s)
  case (Cons l ls)
  then obtain s1 where s1: "read_step R p s l = Some s1" "read_run R p ls s1 = Some s'" by (auto split: option.splits)
  then show ?case
    using Cons.IH read_step_main[OF assms Cons.prems(1)] read_step_done[OF Cons.prems(1)] read_step_send[OF Cons.prems(1)]
    by (cases l) blast+
qed auto

section \<open>Where a read ends\<close>

text \<open>The readers that are started: the shortest beginning with enough that deliver, or all.\<close>

definition started :: "'r ReadAt \<Rightarrow> 'r parallelReader \<Rightarrow> 'r pr_shared \<Rightarrow> nat \<Rightarrow> bool" where
  "started R p s m \<longleftrightarrow> m \<le> length (pr_readers p) \<and> (\<forall>j < m. int (delivering R p s [0..<j]) < pr_dataBlocks p)
     \<and> (m = length (pr_readers p) \<or> pr_dataBlocks p \<le> int (delivering R p s [0..<m]))"

lemma started_not_less:
  assumes "started R p s a" and "started R p s b"
  shows "\<not> a < b"
proof
  assume "a < b"
  then have "int (delivering R p s [0..<a]) < pr_dataBlocks p" "a \<noteq> length (pr_readers p)"
    using assms(2) unfolding started_def by auto
  moreover from this(2) have "pr_dataBlocks p \<le> int (delivering R p s [0..<a])"
    using assms(1) unfolding started_def by blast
  ultimately show False by linarith
qed

lemma started_unique: "started R p s m \<Longrightarrow> started R p s m' \<Longrightarrow> m = m'"
  using started_not_less[of R p s m m'] started_not_less[of R p s m' m] by simp

lemma final_shared:
  assumes "pr_ok p" and inv: "read_inv R p s0 ds s" and "read_final s"
  shows "started R p s0 (rs_readerIndex s) \<and> rs_shared s = fetch_all R p [0..<rs_readerIndex s] s0"
proof -
  have d: "distinct ds" "set ds = {0..<rs_readerIndex s}" "rs_readerIndex s \<le> length (pr_readers p)" "rs_shared s = fetch_all R p ds s0"
    using assms by (auto simp: read_inv_def read_final_def)
  have "fetch_all R p ds s0 = fetch_all R p [0..<rs_readerIndex s] s0"
    by (rule fetch_all_order[OF assms(1)]) (use d in auto)
  moreover have "delivering R p s0 ds = delivering R p s0 [0..<rs_readerIndex s]"
    by (rule le_antisym; rule delivering_subset) (use d in auto)
  ultimately show ?thesis
    using assms d by (auto simp: started_def read_inv_def read_final_def)
qed

lemma read_in_order_fetch:
  assumes "m \<le> n" and "\<forall>j < m. i \<le> j \<longrightarrow> delivering R p s [i..<j] < need"
    and "m = n \<or> delivering R p s [i..<m] = need" and "i \<le> m"
  shows "read_in_order R p need [i..<n] s = fetch_all R p [i..<m] s"
  using assms
proof (induction "n - i" arbitrary: i need s)
  case (Suc k)
  show ?case
  proof (cases "i = m")
    case True
    then have "need = 0" using Suc by auto
    then show ?thesis using True by (cases "[i..<n]") auto
  next
    case False
    then have i: "i < m" "i < n" using Suc.prems by auto
    obtain k' where need: "need = Suc k'" using Suc.prems(2) i(1) by (cases need) auto
    let ?s = "fetch R p i s" and ?need = "if again R p s i then Suc k' else k'"
    have cons: "[i..<x] = i # [Suc i..<x]" if "i < x" for x using that upt_conv_Cons by blast
    have del: "delivering R p ?s [Suc i..<x] = delivering R p s [Suc i..<x]" for x
      unfolding delivering_def by (rule arg_cong[of _ _ length], rule filter_cong) auto
    have all: "delivering R p s [i..<x] = (if again R p s i then 0 else 1) + delivering R p ?s [Suc i..<x]" if "i < x" for x
      using cons[OF that] del[of x] by simp
    have step: "read_in_order R p need [i..<n] s = read_in_order R p ?need [Suc i..<n] ?s"
      using cons[OF i(2)] by (simp add: need read_one_split)
    have less: "\<forall>j < m. Suc i \<le> j \<longrightarrow> delivering R p ?s [Suc i..<j] < ?need"
    proof (intro allI impI)
      fix j assume j: "j < m" "Suc i \<le> j"
      then have "delivering R p s [i..<j] < Suc k'" using Suc.prems(2) need by simp
      then show "delivering R p ?s [Suc i..<j] < ?need" using all[of j] j by (auto split: if_splits)
    qed
    have stop: "m = n \<or> delivering R p ?s [Suc i..<m] = ?need"
      using Suc.prems(3) all[OF i(1)] need by (auto split: if_splits)
    have "read_in_order R p ?need [Suc i..<n] ?s = fetch_all R p [Suc i..<m] ?s"
      by (rule Suc.hyps(1)) (use Suc.hyps(2) Suc.prems(1) i less stop in auto)
    then show ?thesis using step cons[OF i(1)] by simp
  qed
qed simp

text \<open>A reader that has been used enough.\<close>

definition in_order :: "'r ReadAt \<Rightarrow> 'r parallelReader \<Rightarrow> 'r pr_shared" where
  "in_order R p = read_in_order R p (nat (pr_dataBlocks p)) [0..<length (pr_readers p)] (read_start p)"

lemma delivering_step: "delivering R p s [0..<Suc j] \<le> Suc (delivering R p s [0..<j])"
  by simp

lemma started_in_order:
  assumes "started R p (read_start p) m" and "pr_ok p"
  shows "in_order R p = fetch_all R p [0..<m] (read_start p)"
proof -
  let ?del = "delivering R p (read_start p)"
  have D: "0 < pr_dataBlocks p" using assms(2) by (simp add: pr_ok_def)
  have exact: "?del [0..<m] = nat (pr_dataBlocks p)" if "pr_dataBlocks p \<le> int (?del [0..<m])"
  proof (cases m)
    case 0
    then show ?thesis using that D by simp
  next
    case (Suc j)
    then have "int (?del [0..<j]) < pr_dataBlocks p" using assms(1) by (simp add: started_def)
    then show ?thesis using that delivering_step[of R p "read_start p" j] unfolding Suc by linarith
  qed
  show ?thesis unfolding in_order_def
    by (rule read_in_order_fetch) (use assms(1) exact in \<open>auto simp: started_def zless_nat_eq_int_zless\<close>)
qed

lemma read_run_final:
  assumes "fills R" and "pr_ok p" and "0 < pr_shardSize p"
    and "read_run R p sched (read_init p) = Some s" and "read_final s"
  shows "rs_shared s = in_order R p \<and> started R p (read_start p) (rs_readerIndex s)"
proof -
  obtain ds where "read_inv R p (read_start p) ds s"
    using read_run_inv[OF assms(1-3) read_inv_init[OF assms(2)] assms(4)] by blast
  from final_shared[OF assms(2) this assms(5)] show ?thesis using started_in_order[OF _ assms(2), of R "rs_readerIndex s"] by simp
qed

section \<open>A read gets to its end\<close>

definition read_measure :: "'r parallelReader \<Rightarrow> 'r read_state \<Rightarrow> nat" where
  "read_measure p s = 4 * (length (pr_readers p) - rs_readerIndex s) + 3 * length (rs_running s)
     + 2 * length (rs_sending s) + length (rs_trigger s)"

lemma length_filter_one:
  "distinct (map fst xs) \<Longrightarrow> map_of xs i = Some a \<Longrightarrow> Suc (length (filter (\<lambda>x. fst x \<noteq> i) xs)) = length xs"
proof (induction xs)
  case (Cons x xs)
  then show ?case
  proof (cases "fst x = i")
    case True
    then have "filter (\<lambda>x. fst x \<noteq> i) xs = xs" using Cons.prems(1) by (intro filter_True) (auto simp: image_iff)
    then show ?thesis using True by simp
  qed auto
qed simp

lemma read_step_measure:
  assumes "read_inv R p s0 ds s" and "read_step R p s l = Some s'"
  shows "read_measure p s' < read_measure p s"
proof (cases l)
  case MainLoop
  then show ?thesis using assms by (auto simp: read_step_def read_measure_def read_inv_def split: if_splits list.splits)
next
  case (ReadDone i)
  then have i: "i \<in> set (rs_running s)" using assms(2) by (auto simp: read_step_def split: if_splits)
  then have "0 < length (rs_running s)" by (rule length_pos_if_in_set)
  then obtain k where "length (rs_running s) = Suc k" "length (remove1 i (rs_running s)) = k"
    using i by (cases "length (rs_running s)") (simp_all add: length_remove1)
  then show ?thesis using ReadDone assms(2) i by (auto simp: read_step_def read_measure_def read_one_split)
next
  case (SendTrigger i)
  then obtain a where a: "map_of (rs_sending s) i = Some a" using assms(2) by (auto simp: read_step_def split: option.splits)
  from length_filter_one[OF _ a] have "Suc (length (filter (\<lambda>x. fst x \<noteq> i) (rs_sending s))) = length (rs_sending s)"
    using assms(1) by (simp add: read_inv_def)
  then show ?thesis using SendTrigger assms(2) a by (auto simp: read_step_def read_measure_def split: if_splits)
qed

lemma read_run_length:
  assumes "fills R" and "pr_ok p" and "0 < pr_shardSize p"
  shows "read_inv R p (read_start p) ds s \<Longrightarrow> read_run R p ls s = Some s' \<Longrightarrow> length ls + read_measure p s' \<le> read_measure p s"
proof (induction ls arbitrary: ds s)
  case (Cons l ls)
  then obtain s1 where s1: "read_step R p s l = Some s1" "read_run R p ls s1 = Some s'" by (auto split: option.splits)
  have "\<exists>es. read_inv R p (read_start p) es s1"
    using read_step_main[OF assms Cons.prems(1)] read_step_done[OF Cons.prems(1)] read_step_send[OF Cons.prems(1)] s1(1)
    by (cases l) blast+
  then have "length ls + read_measure p s' \<le> read_measure p s1" using Cons.IH s1(2) by blast
  then show ?case using read_step_measure[OF Cons.prems(1) s1(1)] by simp
qed simp

text \<open>There is room in the channel for every trigger.\<close>

lemma triggers_bound:
  assumes "pr_ok p" and "read_inv R p s0 ds s"
  shows "length (rs_trigger s) + length (rs_sending s) \<le> length (pr_readers p)"
proof -
  have c: "count_list xs True + count_list xs False = length xs" for xs by (induction xs) auto
  have "length (rs_trigger s) + length (rs_sending s) = triggers True s + triggers False s"
    using c[of "rs_trigger s"] c[of "map snd (rs_sending s)"] by (simp add: triggers_def)
  then show ?thesis using assms by (auto simp: read_inv_def pr_ok_def)
qed

lemma read_progress:
  assumes "pr_ok p" and inv: "read_inv R p s0 ds s" and "\<not> read_final s"
  shows "\<exists>l s'. read_step R p s l = Some s'"
proof -
  consider (run) i where "i \<in> set (rs_running s)" | (send) "rs_running s = []" "rs_sending s \<noteq> []"
    | (main) "rs_running s = []" "rs_sending s = []" by (cases "rs_running s") auto
  then show ?thesis
  proof cases
    case (run i)
    then have "read_step R p s (ReadDone i) \<noteq> None" by (simp add: read_step_def read_one_split)
    then show ?thesis by blast
  next
    case send
    then obtain i a rest where x: "rs_sending s = (i, a) # rest" by (metis list.exhaust surj_pair)
    then have "length (rs_trigger s) < length (pr_readers p)" using triggers_bound[OF assms(1,2)] by simp
    then have "read_step R p s (SendTrigger i) \<noteq> None" using x by (simp add: read_step_def)
    then show ?thesis by blast
  next
    case main
    then have l: "\<not> rs_left s" using assms(3) by (simp add: read_final_def)
    have "rs_trigger s \<noteq> []"
    proof
      assume "rs_trigger s = []"
      then have "triggers b s = 0" for b using main by (simp add: triggers_def)
      then have "triggers True s = 0" "triggers False s = 0" by simp_all
      then show False using inv l main by (auto simp: read_inv_def)
    qed
    then have "read_step R p s MainLoop \<noteq> None" using l by (auto simp: read_step_def split: list.splits)
    then show ?thesis by blast
  qed
qed

section \<open>The properties\<close>

text \<open>C29: however the goroutines of a read interleave, a read that has ended leaves the same buffers, the same
  readers and the same error as reading one reader after the other until there are as many shards as data blocks.\<close>

theorem parallel_read_deterministic:
  assumes "fills R" and "pr_ok (last_shard p)" and "0 < pr_shardSize (last_shard p)"
    and "pr_Read R sched p = Some res"
  shows "res = read_result (last_shard p) (in_order R (last_shard p))"
  using assms(4) read_run_final[OF assms(1-3), of sched] assms(3)
  by (auto simp: pr_Read_def Let_def split: option.splits if_splits)

text \<open>C30: a read ends under every schedule: a run has at most five steps per reader, while it has not ended
  some goroutine or the loop can go on, and no goroutine ever waits for room in the channel of triggers.\<close>

theorem parallel_read_ends:
  assumes "fills R" and "pr_ok p" and "0 < pr_shardSize p" and "read_run R p sched (read_init p) = Some s"
  shows "length sched \<le> 5 * length (pr_readers p)
    \<and> (read_final s \<or> (\<exists>l s'. read_step R p s l = Some s'))
    \<and> (rs_sending s = [] \<or> length (rs_trigger s) < length (pr_readers p))"
proof -
  obtain ds where inv: "read_inv R p (read_start p) ds s"
    using read_run_inv[OF assms(1-3) read_inv_init[OF assms(2)] assms(4)] by blast
  have "read_measure p (read_init p) = 4 * length (pr_readers p) + nat (pr_dataBlocks p)"
    by (simp add: read_measure_def read_init_def)
  also have "\<dots> \<le> 5 * length (pr_readers p)" using assms(2) by (auto simp: pr_ok_def nat_le_iff)
  finally have "length sched \<le> 5 * length (pr_readers p)"
    using read_run_length[OF assms(1-3) read_inv_init[OF assms(2)] assms(4)] by simp
  moreover have "rs_sending s = [] \<or> length (rs_trigger s) < length (pr_readers p)"
    using triggers_bound[OF assms(2) inv] by (cases "rs_sending s") auto
  ultimately show ?thesis using read_progress[OF assms(2) inv] by blast
qed

section \<open>An example\<close>

text \<open>Three drives, of which the second has lost its file; its failure starts the third.\<close>

definition list_ReadAt :: "byte list ReadAt" where
  "list_ReadAt r off n = (r, if 0 \<le> off \<and> off + n \<le> int (length r) then Inr (take (nat n) (drop (nat off) r)) else Inl ErrFileNotFound)"

definition sample_reader :: "byte list parallelReader" where
  "sample_reader = \<lparr>pr_readers = [Some [1, 2], Some [], Some [3, 4]], pr_org = [True, True, True], pr_dataBlocks = 2,
     pr_offset = 0, pr_shardSize = 2, pr_shardFileSize = 2, pr_readerToBuf = [0, 1, 2]\<rparr>"

definition sample_schedule :: "pr_label list" where
  "sample_schedule = [MainLoop, MainLoop, ReadDone 1, SendTrigger 1, MainLoop, ReadDone 0, ReadDone 2, SendTrigger 0, SendTrigger 2, MainLoop]"

lemma fills_list: "fills list_ReadAt"
  by (auto simp: fills_def list_ReadAt_def)

lemma sample_reader_ok: "pr_ok sample_reader \<and> last_shard sample_reader = sample_reader \<and> 0 < pr_shardSize sample_reader"
proof -
  have "distinct (pr_readerToBuf sample_reader)" "set (pr_readerToBuf sample_reader) = {0..<length (pr_readers sample_reader)}"
    by (auto simp: sample_reader_def)
  then show ?thesis by (simp add: pr_ok_def last_shard_def) (simp add: sample_reader_def)
qed

theorem parallel_read_deterministic_witness:
  "read_result sample_reader (in_order list_ReadAt sample_reader)
    = (sample_reader\<lparr>pr_readers := [Some [1, 2], None, Some [3, 4]], pr_org := [True, False, True], pr_offset := 2\<rparr>,
       [[1, 2], [], [3, 4]], Some ErrFileNotFound)"
proof -
  have "pr_Read list_ReadAt sample_schedule sample_reader
    = Some (sample_reader\<lparr>pr_readers := [Some [1, 2], None, Some [3, 4]], pr_org := [True, False, True], pr_offset := 2\<rparr>,
       [[1, 2], [], [3, 4]], Some ErrFileNotFound)" by code_simp
  from parallel_read_deterministic[OF fills_list _ _ this] show ?thesis using sample_reader_ok by simp
qed

theorem parallel_read_ends_witness:
  "length sample_schedule \<le> 15 \<and> (\<exists>s. read_run list_ReadAt sample_reader sample_schedule (read_init sample_reader) = Some s)"
proof -
  have "read_run list_ReadAt sample_reader sample_schedule (read_init sample_reader) \<noteq> None" by code_simp
  then obtain s where "read_run list_ReadAt sample_reader sample_schedule (read_init sample_reader) = Some s" by blast
  with parallel_read_ends[OF fills_list _ _ this] show ?thesis using sample_reader_ok by (simp add: sample_reader_def)
qed

section \<open>Preferred readers\<close>

text \<open>However the readers are reordered, the table still leads from a reader to the place of its shard.\<close>

definition paired :: "'r option list \<Rightarrow> 'r option list \<Rightarrow> nat list \<Rightarrow> bool" where
  "paired org rs r2b \<longleftrightarrow> length rs = length org \<and> length r2b = length org \<and> distinct r2b \<and> set r2b = {0..<length org}
     \<and> (\<forall>i < length org. rs ! i = org ! (r2b ! i))"

lemma swapped_simps [simp]: "length (swapped i j xs) = length xs"
  "i < length xs \<Longrightarrow> j < length xs \<Longrightarrow> distinct (swapped i j xs) = distinct xs"
  "i < length xs \<Longrightarrow> j < length xs \<Longrightarrow> set (swapped i j xs) = set xs"
  by (simp_all add: swapped_def)

lemma swapped_nth: "i < length xs \<Longrightarrow> j < length xs \<Longrightarrow> k < length xs \<Longrightarrow>
    swapped i j xs ! k = (if k = j then xs ! i else if k = i then xs ! j else xs ! k)"
  by (simp add: swapped_def nth_list_update)

lemma paired_swapped:
  assumes "paired org rs r2b" and "i < length org" and "j < length org"
  shows "paired org (swapped i j rs) (swapped i j r2b)"
  using assms by (simp add: paired_def swapped_nth)

lemma loop_keeps_pairs:
  "paired org rs r2b \<Longrightarrow> nxt \<le> i \<Longrightarrow> i + length pref \<le> length org
   \<Longrightarrow> case prefer_loop pref i nxt rs r2b of (rs', r2b') \<Rightarrow> paired org rs' r2b'"
proof (induction pref i nxt rs r2b rule: prefer_loop.induct)
  case (2 ok pref i nxt rs r2b)
  then show ?case using paired_swapped[of org rs r2b nxt i] by auto
qed simp

lemma pairs_preferred:
  assumes "newParallelReader readers e offset totalLength = Inr p"
  shows "paired readers (pr_readers (preferReaders pf p)) (pr_readerToBuf (preferReaders pf p))"
proof -
  have p: "pr_readers p = readers" "pr_readerToBuf p = [0..<length readers]"
    using assms by (auto simp: newParallelReader_def split: if_splits sum.splits)
  then have "paired readers (pr_readers p) (pr_readerToBuf p)" by (simp add: paired_def)
  then show ?thesis
    using loop_keeps_pairs[of readers "pr_readers p" "pr_readerToBuf p" 0 0 pf] p
    by (auto simp: preferReaders_def split: prod.splits)
qed

end
