(* ===== verification/Erasure_Write.thy ===== *)
theory Erasure_Write
  imports Quorum_Meta
begin

unbundle bit_operations_syntax

text \<open>
  Writing an object to its drives (\<open>cmd/erasure-encode.go\<close>): the writer that sends the shards of a
  block to the shard writers and goes on while a quorum of them works, and the loop that
  reads the source block by block. A shard writer is a state of any type with its \<open>Write\<close>. The Reed-Solomon
  code (third party) is a parameter.
\<close>

section \<open>Many writers\<close>

type_synonym 'w Writer = "'w \<Rightarrow> byte list \<Rightarrow> 'w \<times> int \<times> gerror option"

definition io_ErrShortWrite :: gerror where
  "io_ErrShortWrite = OtherErr ''short write''"

definition countErrs :: "gerror option list \<Rightarrow> gerror option \<Rightarrow> int" where
  "countErrs errs err = int (length (filter (\<lambda>err1. err1 = err \<or>
     (case (err1, err) of (Some e1, Some e) \<Rightarrow> errors_Is e1 e | _ \<Rightarrow> False)) errs))"

record 'w multiWriter =
  mw_writers :: "'w option list"
  mw_writeQuorum :: int
  mw_errs :: "gerror option list"

text \<open>What the loop does with one writer and its error.\<close>

definition mw_one :: "'w Writer \<Rightarrow> byte list option \<Rightarrow> 'w option \<Rightarrow> gerror option \<Rightarrow> gerror + 'w option \<times> gerror option" where
  "mw_one W block w err =
     (case (err, w, block) of
        (Some e, _, _) \<Rightarrow> Inr (w, err)
      | (None, None, _) \<Rightarrow> Inr (None, Some ErrDiskNotFound)
      | (None, Some x, None) \<Rightarrow> Inl (GoPanic ''index out of range'')
      | (None, Some x, Some b) \<Rightarrow>
          (case W x b of
             (x', n, None) \<Rightarrow> if n \<noteq> int (length b) then Inr (None, Some io_ErrShortWrite) else Inr (Some x', None)
           | (x', n, Some e) \<Rightarrow> Inr (None, Some e)))"

fun mw_loop ::
  "'w Writer \<Rightarrow> 'w option list \<Rightarrow> gerror option list \<Rightarrow> byte list list
   \<Rightarrow> gerror + 'w option list \<times> gerror option list" where
  "mw_loop W [] errs blocks = Inr ([], errs)"
| "mw_loop W (w # ws) [] blocks = Inl (GoPanic ''index out of range'')"
| "mw_loop W (w # ws) (err # errs) blocks =
     (case mw_one W (case blocks of [] \<Rightarrow> None | b # _ \<Rightarrow> Some b) w err of
        Inl e \<Rightarrow> Inl e
      | Inr (w', err') \<Rightarrow>
          (case mw_loop W ws errs (tl blocks) of
             Inl e \<Rightarrow> Inl e | Inr (ws', errs') \<Rightarrow> Inr (w' # ws', err' # errs')))"

text \<open>The iteration order of a map and whether the context is cancelled come in through \<open>reduceWriteQuorumErrs\<close>.\<close>

definition mw_Write ::
  "errs_order \<Rightarrow> bool \<Rightarrow> 'w Writer \<Rightarrow> byte list list \<Rightarrow> 'w multiWriter \<Rightarrow> 'w multiWriter \<times> gerror option" where
  "mw_Write ord ctxCanceled W blocks p =
     (case mw_loop W (mw_writers p) (mw_errs p) blocks of
        Inl e \<Rightarrow> (p, Some e)
      | Inr (ws, errs) \<Rightarrow>
          (let p' = p\<lparr>mw_writers := ws, mw_errs := errs\<rparr>
           in if countErrs errs None \<ge> mw_writeQuorum p then (p', None)
              else (p', Some (Wrapped ''offline-disks''
                     (case reduceWriteQuorumErrs ord ctxCanceled errs objectOpIgnoredErrs (mw_writeQuorum p) of
                        Some e \<Rightarrow> e | None \<Rightarrow> OtherErr ''nil'')))))"

section \<open>The encoder\<close>

text \<open>A source: what it still has, and the error it ends in (\<open>None\<close> for the end of the stream).\<close>

definition src_ReadFull :: "nat \<Rightarrow> byte list \<Rightarrow> gerror option \<Rightarrow> byte list \<times> byte list \<times> gerror option" where
  "src_ReadFull n src failure =
     (if n \<le> length src then (take n src, drop n src, None)
      else (src, [], Some (case failure of Some e \<Rightarrow> e | None \<Rightarrow> if src = [] then IoEOF else IoUnexpectedEOF)))"

text \<open>The loop of \<open>Encode\<close>; \<open>None\<close> if it never ends (an empty buffer). The result is the caller's slice of
  writers, the bytes read and the error.\<close>

partial_function (option) encode_loop ::
  "errs_order \<Rightarrow> bool \<Rightarrow> 'w Writer \<Rightarrow> (byte list \<Rightarrow> gerror + byte list list) \<Rightarrow> (byte list list \<Rightarrow> gerror + byte list list)
   \<Rightarrow> Erasure \<Rightarrow> nat \<Rightarrow> gerror option \<Rightarrow> byte list \<Rightarrow> 'w multiWriter \<Rightarrow> int \<Rightarrow> ('w option list \<times> int \<times> gerror option) option" where
  "encode_loop ord canceled W Split Enc e bufLen failure src writer written =
     (case src_ReadFull bufLen src failure of
        (buf, src', err) \<Rightarrow>
          if err \<noteq> None \<and> \<not> IsErrIgnored err [IoEOF, IoUnexpectedEOF] then Some (mw_writers writer, 0, err)
          else let eof = (err = Some IoEOF \<or> err = Some IoUnexpectedEOF)
               in if buf = [] \<and> written \<noteq> 0 then Some (mw_writers writer, written, None)
                  else (case EncodeData Split Enc e buf of
                          Inl e1 \<Rightarrow> Some (mw_writers writer, 0, Some e1)
                        | Inr blocks \<Rightarrow>
                            (case mw_Write ord canceled W blocks writer of
                               (writer', Some e1) \<Rightarrow> Some (mw_writers writer', 0, Some e1)
                             | (writer', None) \<Rightarrow>
                                 if eof then Some (mw_writers writer', written + int (length buf), None)
                                 else encode_loop ord canceled W Split Enc e bufLen failure src' writer' (written + int (length buf)))))"

declare encode_loop.simps [code]

definition Encode ::
  "errs_order \<Rightarrow> bool \<Rightarrow> 'w Writer \<Rightarrow> (byte list \<Rightarrow> gerror + byte list list) \<Rightarrow> (byte list list \<Rightarrow> gerror + byte list list)
   \<Rightarrow> Erasure \<Rightarrow> byte list \<Rightarrow> gerror option \<Rightarrow> 'w option list \<Rightarrow> nat \<Rightarrow> int \<Rightarrow> ('w option list \<times> int \<times> gerror option) option" where
  "Encode ord canceled W Split Enc e src failure writers bufLen quorum =
     encode_loop ord canceled W Split Enc e bufLen failure src
       \<lparr>mw_writers = writers, mw_writeQuorum = quorum, mw_errs = replicate (length writers) None\<rparr> 0"

section \<open>The Reed-Solomon code\<close>

text \<open>What the documentation of the third-party encoder promises: \<open>Split\<close> and \<open>Encode\<close> cut data into
  shards of equal length whose first \<open>dataBlocks\<close> hold the data, and any \<open>dataBlocks\<close> of the shards,
  the others empty, give the data shards (\<open>ReconstructData\<close>) or all shards (\<open>Reconstruct\<close>) back.\<close>

definition damaged :: "Erasure \<Rightarrow> byte list list \<Rightarrow> byte list list \<Rightarrow> bool" where
  "damaged e enc part \<longleftrightarrow> length part = length enc \<and> (\<forall>i < length enc. part ! i = enc ! i \<or> part ! i = [])
     \<and> er_dataBlocks e \<le> int (length (filter (\<lambda>b. b \<noteq> []) part))"

definition rs_code ::
  "(byte list \<Rightarrow> gerror + byte list list) \<Rightarrow> (byte list list \<Rightarrow> gerror + byte list list)
   \<Rightarrow> (byte list list \<Rightarrow> gerror + byte list list) \<Rightarrow> (byte list list \<Rightarrow> gerror + byte list list) \<Rightarrow> Erasure \<Rightarrow> bool" where
  "rs_code Split Enc ReconstructData Reconstruct e \<longleftrightarrow>
     (\<forall>data. data \<noteq> [] \<longrightarrow> (\<exists>sh enc. Split data = Inr sh \<and> Enc sh = Inr enc
        \<and> int (length enc) = er_dataBlocks e + er_parityBlocks e
        \<and> (\<forall>s \<in> set enc. int (length s) = ceilFrac (int (length data)) (er_dataBlocks e))
        \<and> take (length data) (concat (take (nat (er_dataBlocks e)) enc)) = data
        \<and> (\<forall>part. damaged e enc part \<longrightarrow>
             (\<exists>full. ReconstructData part = Inr full \<and> length full = length enc
                \<and> take (nat (er_dataBlocks e)) full = take (nat (er_dataBlocks e)) enc)
             \<and> Reconstruct part = Inr enc)))"

text \<open>The shards of one block, and the blocks of an object.\<close>

definition encoded :: "(byte list \<Rightarrow> gerror + byte list list) \<Rightarrow> (byte list list \<Rightarrow> gerror + byte list list)
    \<Rightarrow> Erasure \<Rightarrow> byte list \<Rightarrow> byte list list" where
  "encoded Split Enc e data = projr (EncodeData Split Enc e data)"

function chunks :: "nat \<Rightarrow> 'a list \<Rightarrow> 'a list list" where
  "chunks n xs = (if n = 0 \<or> xs = [] then [] else take n xs # chunks n (drop n xs))"
  by pat_completeness auto
termination by (relation "measure (\<lambda>(n, xs). length xs)") auto

declare chunks.simps [simp del]

section \<open>What the writers hold\<close>

lemma mw_loop_nth:
  assumes "mw_loop W ws errs blocks = Inr (ws', errs')" and "length errs = length ws"
  shows "length ws' = length ws \<and> length errs' = length ws \<and>
    (\<forall>i < length ws. mw_one W (if i < length blocks then Some (blocks ! i) else None) (ws ! i) (errs ! i) = Inr (ws' ! i, errs' ! i))"
  using assms
proof (induction W ws errs blocks arbitrary: ws' errs' rule: mw_loop.induct)
  case (3 W w ws err errs blocks)
  obtain w1 e1 ws1 errs1 where one: "mw_one W (case blocks of [] \<Rightarrow> None | b # _ \<Rightarrow> Some b) w err = Inr (w1, e1)"
    and rest: "mw_loop W ws errs (tl blocks) = Inr (ws1, errs1)" and res: "ws' = w1 # ws1" "errs' = e1 # errs1"
    using 3(2) by (auto split: sum.splits prod.splits)
  have IH: "length ws1 = length ws \<and> length errs1 = length ws \<and>
    (\<forall>i < length ws. mw_one W (if i < length (tl blocks) then Some (tl blocks ! i) else None) (ws ! i) (errs ! i) = Inr (ws1 ! i, errs1 ! i))"
    using 3(1)[OF one refl rest] 3(3) by simp
  have "mw_one W (if i < length blocks then Some (blocks ! i) else None) ((w # ws) ! i) ((err # errs) ! i) = Inr (ws' ! i, errs' ! i)"
    if "i < length (w # ws)" for i
  proof (cases i)
    case 0
    then show ?thesis using one by (cases blocks) (simp_all add: res)
  next
    case (Suc k)
    then show ?thesis using IH that by (cases blocks) (auto simp: res)
  qed
  then show ?case using IH by (auto simp: res)
qed simp_all

lemma mw_one_None:
  "mw_one W block w err = Inr (w', None) \<Longrightarrow>
   err = None \<and> (\<exists>x x' b. w = Some x \<and> block = Some b \<and> w' = Some x' \<and> W x b = (x', int (length b), None))"
  by (auto simp: mw_one_def split: option.splits prod.splits if_splits)

lemma mw_one_Some: "mw_one W block w err = Inr (Some x', err') \<Longrightarrow> err = None \<or> w = None \<Longrightarrow> err = None \<and> err' = None"
  by (auto simp: mw_one_def split: option.splits prod.splits if_splits)

text \<open>A shard writer that holds the blocks it has accepted; an empty block adds nothing.\<close>

locale shard_writer =
  fixes W :: "'w Writer" and holds :: "'w \<Rightarrow> byte list list \<Rightarrow> bool"
  assumes write_block: "holds w bs \<Longrightarrow> W w b = (w', n, None) \<Longrightarrow> b \<noteq> [] \<Longrightarrow> holds w' (bs @ [b])"
    and write_empty: "holds w bs \<Longrightarrow> W w [] = (w', n, None) \<Longrightarrow> holds w' bs"
begin

text \<open>The writers that are still there have no error and hold their shard of every round.\<close>

definition kept :: "byte list list list \<Rightarrow> 'w multiWriter \<Rightarrow> bool" where
  "kept rounds p \<longleftrightarrow> length (mw_errs p) = length (mw_writers p) \<and>
     (\<forall>i < length (mw_writers p). \<forall>w. mw_writers p ! i = Some w \<longrightarrow>
        mw_errs p ! i = None \<and> holds w (filter (\<lambda>b. b \<noteq> []) (map (\<lambda>blocks. blocks ! i) rounds)))"

lemma kept_Write:
  assumes "kept rounds p" and "mw_Write ord canceled W blocks p = (p', None)"
  shows "kept (rounds @ [blocks]) p' \<and> length (mw_writers p') = length (mw_writers p) \<and> mw_writeQuorum p' = mw_writeQuorum p
    \<and> mw_writeQuorum p \<le> countErrs (mw_errs p') None
    \<and> (\<forall>i < length (mw_writers p). mw_errs p' ! i = None \<longrightarrow> mw_writers p' ! i \<noteq> None)"
proof -
  obtain ws errs where l: "mw_loop W (mw_writers p) (mw_errs p) blocks = Inr (ws, errs)"
    and p': "p' = p\<lparr>mw_writers := ws, mw_errs := errs\<rparr>" and q: "countErrs errs None \<ge> mw_writeQuorum p"
    using assms(2) by (auto simp: mw_Write_def Let_def split: sum.splits prod.splits if_splits)
  have len: "length (mw_errs p) = length (mw_writers p)" using assms(1) by (simp add: kept_def)
  note nth = mw_loop_nth[OF l len]
  have one: "\<exists>x x'. mw_errs p ! i = None \<and> mw_writers p ! i = Some x \<and> ws ! i = Some x' \<and> W x (blocks ! i) = (x', int (length (blocks ! i)), None)"
    if "i < length (mw_writers p)" "errs ! i = None" for i
    using nth that mw_one_None[of W _ "mw_writers p ! i" "mw_errs p ! i" "ws ! i"] by (fastforce split: if_splits)
  have "errs ! i = None \<and> holds w (filter (\<lambda>b. b \<noteq> []) (map (\<lambda>bl. bl ! i) (rounds @ [blocks])))"
    if i: "i < length ws" "ws ! i = Some w" for i w
  proof -
    have "mw_errs p ! i = None \<or> mw_writers p ! i = None"
      using assms(1) i(1) nth by (cases "mw_writers p ! i") (auto simp: kept_def)
    then have none: "errs ! i = None" using nth i mw_one_Some[of W _ "mw_writers p ! i" "mw_errs p ! i" w "errs ! i"] by auto
    obtain x where x: "mw_errs p ! i = None" "mw_writers p ! i = Some x" "W x (blocks ! i) = (w, int (length (blocks ! i)), None)"
      using one[of i] none i nth by auto
    then have h: "holds x (filter (\<lambda>b. b \<noteq> []) (map (\<lambda>bl. bl ! i) rounds))"
      using assms(1) i nth by (auto simp: kept_def)
    show ?thesis using write_block[OF h x(3)] write_empty[of x _ w] h x(3) none by (cases "blocks ! i = []") auto
  qed
  then have "kept (rounds @ [blocks]) p'" using nth by (simp add: kept_def p')
  moreover have "mw_writers p' ! i \<noteq> None" if "i < length (mw_writers p)" "mw_errs p' ! i = None" for i
    using one[OF that(1)] that(2) by (auto simp: p')
  ultimately show ?thesis using nth q by (simp add: p')
qed

lemma encode_loop_kept:
  assumes "0 < bufLen"
  shows "encode_loop ord canceled W Split Enc e bufLen None src p written = Some (ws, n, None) \<Longrightarrow> kept rounds p \<Longrightarrow>
    (written = 0 \<or> mw_writeQuorum p \<le> countErrs (mw_errs p) None \<and> (\<forall>i < length (mw_writers p). mw_errs p ! i = None \<longrightarrow> mw_writers p ! i \<noteq> None))
    \<Longrightarrow> 0 \<le> written \<Longrightarrow>
    \<exists>p'. ws = mw_writers p' \<and> n = written + int (length src) \<and> length ws = length (mw_writers p)
      \<and> kept (rounds @ map (encoded Split Enc e) (if src = [] \<and> written = 0 then [[]] else chunks bufLen src)) p'
      \<and> mw_writeQuorum p \<le> countErrs (mw_errs p') None
      \<and> (\<forall>i < length ws. mw_errs p' ! i = None \<longrightarrow> ws ! i \<noteq> None)"
proof (induction "length src" arbitrary: src p written rounds rule: less_induct)
  case less
  note step = less.prems(1)[unfolded encode_loop.simps[of _ _ _ _ _ _ _ _ src]]
  show ?case
  proof (cases "src = [] \<and> written \<noteq> 0")
    case True
    then have "ws = mw_writers p" "n = written" using step assms by (simp_all add: src_ReadFull_def IsErrIgnored_def)
    then show ?thesis using True less.prems by (auto simp: chunks.simps)
  next
    case False
    let ?buf = "take bufLen src"
    have go: "\<not> (?buf = [] \<and> written \<noteq> 0)" using False assms by auto
    have rf: "\<exists>err. src_ReadFull bufLen src None = (?buf, drop bufLen src, err)
      \<and> (err = None \<longleftrightarrow> bufLen \<le> length src) \<and> (err \<noteq> None \<longrightarrow> err = Some IoEOF \<or> err = Some IoUnexpectedEOF)"
      by (simp add: src_ReadFull_def)
    obtain blocks p1 where enc: "EncodeData Split Enc e ?buf = Inr blocks" and w: "mw_Write ord canceled W blocks p = (p1, None)"
      and rest: "if bufLen \<le> length src then encode_loop ord canceled W Split Enc e bufLen None (drop bufLen src) p1 (written + int (length ?buf)) = Some (ws, n, None)
        else ws = mw_writers p1 \<and> n = written + int (length ?buf)"
      using step go rf by (auto simp: IsErrIgnored_def split: sum.splits prod.splits option.splits if_splits)
    note k = kept_Write[OF less.prems(2) w]
    have e1: "encoded Split Enc e ?buf = blocks" using enc by (simp add: encoded_def)
    show ?thesis
    proof (cases "bufLen \<le> length src")
      case True
      then have ne: "src \<noteq> []" using assms by auto
      let ?w = "written + int (length ?buf)"
      have pos: "0 < ?w" using less.prems(4) True assms by simp
      have "length (drop bufLen src) < length src" using True assms by simp
      from less.hyps[OF this _ conjunct1[OF k], of ?w] rest True k pos
      obtain p' where p': "ws = mw_writers p'" "n = ?w + int (length (drop bufLen src))" "length ws = length (mw_writers p1)"
        "kept ((rounds @ [blocks]) @ map (encoded Split Enc e) (if drop bufLen src = [] \<and> ?w = 0 then [[]] else chunks bufLen (drop bufLen src))) p'"
        "mw_writeQuorum p1 \<le> countErrs (mw_errs p') None" "\<forall>i < length ws. mw_errs p' ! i = None \<longrightarrow> ws ! i \<noteq> None"
        by auto
      have "map (encoded Split Enc e) (chunks bufLen src) = blocks # map (encoded Split Enc e) (chunks bufLen (drop bufLen src))"
        using ne assms e1 by (subst chunks.simps) simp
      then show ?thesis using p' k ne pos True by (intro exI[of _ p']) auto
    next
      case short: False
      have ch: "(if src = [] \<and> written = 0 then [[]] else chunks bufLen src) = [?buf]"
      proof (cases "src = []")
        case False
        then show ?thesis using short assms by (subst chunks.simps, subst chunks.simps) auto
      qed (use \<open>\<not> (src = [] \<and> written \<noteq> 0)\<close> in auto)
      show ?thesis unfolding ch using rest short k e1 by (intro exI[of _ p1]) auto
    qed
  qed
qed

end

lemma encode_loop_returns:
  assumes "0 < bufLen"
  shows "\<exists>res. encode_loop ord canceled W Split Enc e bufLen None src p written = Some res"
proof (induction "length src" arbitrary: src p written rule: less_induct)
  case less
  have rf: "\<exists>err. src_ReadFull bufLen src None = (take bufLen src, drop bufLen src, err)
    \<and> (err = None \<longleftrightarrow> bufLen \<le> length src) \<and> (err \<noteq> None \<longrightarrow> err = Some IoEOF \<or> err = Some IoUnexpectedEOF)"
    by (simp add: src_ReadFull_def)
  show ?case
  proof (cases "bufLen \<le> length src")
    case True
    then have "length (drop bufLen src) < length src" using assms by simp
    from less.hyps[OF this] show ?thesis
      using rf by (subst encode_loop.simps) (auto simp: Let_def split: sum.splits prod.splits option.splits)
  next
    case False
    then show ?thesis
      using rf by (subst encode_loop.simps) (auto simp: Let_def IsErrIgnored_def split: sum.splits prod.splits option.splits)
  qed
qed

section \<open>Writers that work\<close>

fun accepts :: "'w Writer \<Rightarrow> 'w \<Rightarrow> byte list list \<Rightarrow> bool" where
  "accepts W w [] = True"
| "accepts W w (b # bs) = (case W w b of (w', n, err) \<Rightarrow> err = None \<and> n = int (length b) \<and> accepts W w' bs)"

definition working :: "'w Writer \<Rightarrow> byte list list list \<Rightarrow> 'w multiWriter \<Rightarrow> nat \<Rightarrow> bool" where
  "working W rounds p i \<longleftrightarrow> i < length (mw_writers p) \<and> mw_errs p ! i = None
     \<and> (\<exists>w. mw_writers p ! i = Some w \<and> accepts W w (map (\<lambda>blocks. blocks ! i) rounds))"

lemma mw_loop_returns:
  "length errs = length ws \<Longrightarrow> length ws \<le> length blocks \<Longrightarrow> \<exists>ws' errs'. mw_loop W ws errs blocks = Inr (ws', errs')"
proof (induction W ws errs blocks rule: mw_loop.induct)
  case (3 W w ws err errs blocks)
  then obtain b bs where bl: "blocks = b # bs" by (cases blocks) auto
  have "isl (mw_one W (Some b) w err) = False" by (auto simp: mw_one_def split: option.splits prod.splits)
  then obtain w1 e1 where one: "mw_one W (Some b) w err = Inr (w1, e1)" by (cases "mw_one W (Some b) w err") auto
  then show ?case using 3(1)[of "(w1, e1)" w1 e1] 3(2,3) by (auto simp: bl)
qed auto

lemma countErrs_None: "countErrs errs None = int (card {i. i < length errs \<and> errs ! i = None})"
proof -
  have "(\<lambda>err1. err1 = None \<or> (case (err1, None :: gerror option) of (Some e1, Some e) \<Rightarrow> errors_Is e1 e | _ \<Rightarrow> False)) = (\<lambda>err1. err1 = None)"
    by (auto split: option.splits)
  then show ?thesis by (simp add: countErrs_def length_filter_conv_card)
qed

lemma working_Write:
  assumes "length (mw_errs p) = length (mw_writers p)" and "length (mw_writers p) \<le> length blocks"
    and "mw_writeQuorum p \<le> int (card {i. working W (blocks # rounds) p i})"
  shows "\<exists>p'. mw_Write ord canceled W blocks p = (p', None) \<and> length (mw_errs p') = length (mw_writers p')
    \<and> length (mw_writers p') = length (mw_writers p) \<and> mw_writeQuorum p' = mw_writeQuorum p
    \<and> (\<forall>i. working W (blocks # rounds) p i \<longrightarrow> working W rounds p' i)"
proof -
  obtain ws errs where l: "mw_loop W (mw_writers p) (mw_errs p) blocks = Inr (ws, errs)"
    using mw_loop_returns[OF assms(1,2)] by blast
  note nth = mw_loop_nth[OF l assms(1)]
  let ?p = "p\<lparr>mw_writers := ws, mw_errs := errs\<rparr>"
  have works: "working W rounds ?p i" if wk: "working W (blocks # rounds) p i" for i
  proof -
    have i: "i < length (mw_writers p)" "mw_errs p ! i = None" using wk by (auto simp: working_def)
    obtain w where w: "mw_writers p ! i = Some w" "accepts W w (map (\<lambda>blocks. blocks ! i) (blocks # rounds))"
      using wk unfolding working_def by blast
    then obtain w' where w': "W w (blocks ! i) = (w', int (length (blocks ! i)), None)" "accepts W w' (map (\<lambda>blocks. blocks ! i) rounds)"
      by (auto split: prod.splits)
    have "mw_one W (Some (blocks ! i)) (Some w) None = Inr (Some w', None)" using w' by (simp add: mw_one_def)
    moreover have "mw_one W (Some (blocks ! i)) (mw_writers p ! i) (mw_errs p ! i) = Inr (ws ! i, errs ! i)"
      using nth i(1) assms(2) by auto
    ultimately have "ws ! i = Some w'" "errs ! i = None" using i(2) w(1) by simp_all
    then show ?thesis using i(1) nth w'(2) by (simp add: working_def)
  qed
  have "card {i. working W (blocks # rounds) p i} \<le> card {i. i < length errs \<and> errs ! i = None}"
    by (rule card_mono) (use works nth in \<open>auto simp: working_def\<close>)
  then have "mw_writeQuorum p \<le> countErrs errs None" using assms(3) by (simp add: countErrs_None)
  then show ?thesis using l works nth by (simp add: mw_Write_def)
qed

text \<open>The rounds that \<open>Encode\<close> makes of a source.\<close>

definition write_rounds :: "(byte list \<Rightarrow> gerror + byte list list) \<Rightarrow> (byte list list \<Rightarrow> gerror + byte list list)
    \<Rightarrow> Erasure \<Rightarrow> nat \<Rightarrow> byte list \<Rightarrow> byte list list list" where
  "write_rounds Split Enc e bufLen src = map (encoded Split Enc e) (if src = [] then [[]] else chunks bufLen src)"

lemma encoded_ok:
  assumes "rs_code Split Enc RD R e" and "0 \<le> er_dataBlocks e + er_parityBlocks e"
  shows "EncodeData Split Enc e data = Inr (encoded Split Enc e data)
    \<and> int (length (encoded Split Enc e data)) = er_dataBlocks e + er_parityBlocks e"
proof (cases "data = []")
  case False
  then obtain sh enc where "Split data = Inr sh" "Enc sh = Inr enc" "int (length enc) = er_dataBlocks e + er_parityBlocks e"
    using assms(1) unfolding rs_code_def by meson
  then show ?thesis using False by (simp add: encoded_def EncodeData_def)
qed (use assms(2) in \<open>simp add: encoded_def EncodeData_def\<close>)

lemma encode_loop_succeeds:
  assumes "0 < bufLen" and code: "rs_code Split Enc RD R e" and "0 \<le> er_dataBlocks e + er_parityBlocks e"
  shows "length (mw_errs p) = length (mw_writers p) \<Longrightarrow> int (length (mw_writers p)) = er_dataBlocks e + er_parityBlocks e \<Longrightarrow> 0 \<le> written \<Longrightarrow>
    mw_writeQuorum p \<le> int (card {i. working W (map (encoded Split Enc e) (if src = [] \<and> written = 0 then [[]] else chunks bufLen src)) p i})
    \<Longrightarrow> \<exists>ws. encode_loop ord canceled W Split Enc e bufLen None src p written = Some (ws, written + int (length src), None)"
proof (induction "length src" arbitrary: src p written rule: less_induct)
  case less
  show ?case
  proof (cases "src = [] \<and> written \<noteq> 0")
    case True
    then show ?thesis using assms(1) by (subst encode_loop.simps) (simp add: src_ReadFull_def IsErrIgnored_def)
  next
    case False
    let ?buf = "take bufLen src" and ?rest = "if bufLen \<le> length src then chunks bufLen (drop bufLen src) else []"
    have go: "\<not> (?buf = [] \<and> written \<noteq> 0)" using False assms(1) by auto
    have ch: "(if src = [] \<and> written = 0 then [[]] else chunks bufLen src) = ?buf # ?rest"
    proof (cases "src = []")
      case ne: False
      show ?thesis
      proof (cases "bufLen \<le> length src")
        case False
        then have "chunks bufLen (drop bufLen src) = []" by (subst chunks.simps) simp
        then show ?thesis using ne assms(1) by (subst chunks.simps) simp
      qed (use ne assms(1) in \<open>subst chunks.simps, simp\<close>)
    qed (use False assms(1) in auto)
    note enc = encoded_ok[OF code assms(3), of ?buf]
    let ?b = "encoded Split Enc e ?buf"
    have "length (mw_writers p) \<le> length ?b" using enc less.prems(2) by simp
    from working_Write[OF less.prems(1) this, of W "map (encoded Split Enc e) ?rest" ord canceled] less.prems(4)[unfolded ch]
    obtain p1 where w: "mw_Write ord canceled W ?b p = (p1, None)" and p1: "length (mw_errs p1) = length (mw_writers p1)"
      "length (mw_writers p1) = length (mw_writers p)" "mw_writeQuorum p1 = mw_writeQuorum p"
      and works: "\<forall>i. working W (?b # map (encoded Split Enc e) ?rest) p i \<longrightarrow> working W (map (encoded Split Enc e) ?rest) p1 i"
      by auto
    have "card {i. working W (?b # map (encoded Split Enc e) ?rest) p i} \<le> card {i. working W (map (encoded Split Enc e) ?rest) p1 i}"
      by (rule card_mono) (use works in \<open>auto simp: working_def\<close>)
    then have q: "mw_writeQuorum p1 \<le> int (card {i. working W (map (encoded Split Enc e) ?rest) p1 i})"
      using less.prems(4)[unfolded ch] p1(3) by simp
    show ?thesis
    proof (cases "bufLen \<le> length src")
      case True
      let ?w = "written + int (length ?buf)"
      have pos: "0 < ?w" using less.prems(3) True assms(1) by simp
      have "length (drop bufLen src) < length src" using True assms(1) by simp
      from less.hyps[OF this p1(1), of ?w] p1(2) less.prems(2) q pos True
      obtain ws where "encode_loop ord canceled W Split Enc e bufLen None (drop bufLen src) p1 ?w
          = Some (ws, ?w + int (length (drop bufLen src)), None)" by auto
      moreover have "src \<noteq> []" using True assms(1) by auto
      ultimately show ?thesis using True go enc w
        by (subst encode_loop.simps) (simp add: src_ReadFull_def)
    next
      case False
      then have buf: "?buf = src" by simp
      have "src_ReadFull bufLen src None = (src, drop bufLen src, Some (if src = [] then IoEOF else IoUnexpectedEOF))"
        using False by (simp add: src_ReadFull_def)
      then show ?thesis using go enc w False unfolding buf
        by (subst encode_loop.simps) (cases "src = []"; simp add: IsErrIgnored_def)
    qed
  qed
qed

section \<open>Shards with their hashes\<close>

text \<open>The streaming bitrot writer as a shard writer.\<close>

definition bitrot_shard_writer ::
  "(BitrotAlgorithm \<Rightarrow> byte list \<Rightarrow> byte list) \<Rightarrow> BitrotAlgorithm \<Rightarrow> int \<Rightarrow> bitrotWriter Writer" where
  "bitrot_shard_writer H algo shardSize w b =
     (case bitrot_Write H algo shardSize w b of (w', Inl e) \<Rightarrow> (w', 0, Some e) | (w', Inr n) \<Rightarrow> (w', n, None))"

interpretation bw: shard_writer "bitrot_shard_writer H algo shardSize" "\<lambda>w bs. bw_out w = bitrot_encode (H algo) bs"
  for H algo shardSize
proof unfold_locales
  fix w w' :: bitrotWriter and bs and b :: "byte list" and n
  show "bw_out w = bitrot_encode (H algo) bs \<Longrightarrow> bitrot_shard_writer H algo shardSize w b = (w', n, None) \<Longrightarrow> b \<noteq> []
      \<Longrightarrow> bw_out w' = bitrot_encode (H algo) (bs @ [b])"
    by (auto simp: bitrot_shard_writer_def bitrot_Write_def Let_def bitrot_encode_def split: prod.splits sum.splits if_splits)
  show "bw_out w = bitrot_encode (H algo) bs \<Longrightarrow> bitrot_shard_writer H algo shardSize w [] = (w', n, None)
      \<Longrightarrow> bw_out w' = bitrot_encode (H algo) bs"
    by (simp add: bitrot_shard_writer_def bitrot_Write_def)
qed

definition new_bitrot_writer :: bitrotWriter where
  "new_bitrot_writer = \<lparr>bw_finished = False, bw_out = []\<rparr>"

text \<open>The shards of an object on the \<open>i\<close>-th drive, none of them empty.\<close>

definition drive_shards :: "(byte list \<Rightarrow> gerror + byte list list) \<Rightarrow> (byte list list \<Rightarrow> gerror + byte list list)
    \<Rightarrow> Erasure \<Rightarrow> nat \<Rightarrow> byte list \<Rightarrow> nat \<Rightarrow> byte list list" where
  "drive_shards Split Enc e bufLen src i = filter (\<lambda>b. b \<noteq> []) (map (\<lambda>blocks. blocks ! i) (write_rounds Split Enc e bufLen src))"

text \<open>If \<open>Encode\<close> returns without an error it has read the whole source, at least the quorum of the
  writers is still there, and each of these has written, behind its hash, its shard of every
  block.\<close>

lemma encode_written:
  assumes "0 < bufLen"
    and "Encode ord canceled (bitrot_shard_writer H algo s) Split Enc e src None writers bufLen quorum = Some (ws, n, None)"
    and "\<forall>w \<in> set writers. w = None \<or> w = Some new_bitrot_writer"
  shows "n = int (length src) \<and> length ws = length writers \<and> quorum \<le> int (length (filter (\<lambda>w. w \<noteq> None) ws))
    \<and> (\<forall>i < length ws. ws ! i = None \<or> bw_out (the (ws ! i)) = bitrot_encode (H algo) (drive_shards Split Enc e bufLen src i))"
proof -
  let ?p = "\<lparr>mw_writers = writers, mw_writeQuorum = quorum, mw_errs = replicate (length writers) None\<rparr>"
  have "writers ! i = Some w \<Longrightarrow> bw_out w = []" if "i < length writers" for i w
    using assms(3) that nth_mem[OF that] by (auto simp: new_bitrot_writer_def)
  then have k: "bw.kept H algo [] ?p" by (auto simp: bw.kept_def)
  from bw.encode_loop_kept[OF assms(1) assms(2)[unfolded Encode_def] this] obtain p' where
    p': "ws = mw_writers p'" "n = int (length src)" "length ws = length writers"
      "bw.kept H algo (write_rounds Split Enc e bufLen src) p'"
      "quorum \<le> countErrs (mw_errs p') None" "\<forall>i < length ws. mw_errs p' ! i = None \<longrightarrow> ws ! i \<noteq> None"
    by (auto simp: write_rounds_def)
  have "card {i. i < length (mw_errs p') \<and> mw_errs p' ! i = None} \<le> card {i. i < length ws \<and> ws ! i \<noteq> None}"
    by (rule card_mono) (use p' in \<open>auto simp: bw.kept_def\<close>)
  then have "quorum \<le> int (length (filter (\<lambda>w. w \<noteq> None) ws))"
    using p'(5) by (simp add: countErrs_None length_filter_conv_card)
  moreover have "ws ! i = None \<or> bw_out (the (ws ! i)) = bitrot_encode (H algo) (drive_shards Split Enc e bufLen src i)"
    if "i < length ws" for i
    using p'(4) that unfolding bw.kept_def p'(1) drive_shards_def by (cases "mw_writers p' ! i") auto
  ultimately show ?thesis using p' by blast
qed

section \<open>A code for the examples\<close>

text \<open>Two data shards and their exclusive or.\<close>

definition xor_list :: "byte list \<Rightarrow> byte list \<Rightarrow> byte list" where
  "xor_list xs ys = map2 (XOR) xs ys"

definition xor_split :: "byte list \<Rightarrow> gerror + byte list list" where
  "xor_split xs = (let h = (length xs + 1) div 2 in
     Inr [take h xs, drop h xs @ replicate (2 * h - length xs) 0, replicate h 0])"

fun xor_encode :: "byte list list \<Rightarrow> gerror + byte list list" where
  "xor_encode [a, b, c] = Inr [a, b, xor_list a b]"
| "xor_encode bs = Inl ErrInvShardNum"

fun xor_reconstruct :: "byte list list \<Rightarrow> gerror + byte list list" where
  "xor_reconstruct [a, b, c] =
     (if a = [] then Inr [xor_list b c, b, c] else if b = [] then Inr [a, xor_list a c, c]
      else if c = [] then Inr [a, b, xor_list a b] else Inr [a, b, c])"
| "xor_reconstruct bs = Inl ErrInvShardNum"

definition xor_erasure :: "int \<Rightarrow> Erasure" where
  "xor_erasure blockSize = \<lparr>er_dataBlocks = 2, er_parityBlocks = 1, er_blockSize = blockSize\<rparr>"

lemma xor_list_back: "length a = length b \<Longrightarrow> xor_list a (xor_list a b) = b" "length a = length b \<Longrightarrow> xor_list b (xor_list a b) = a"
proof -
  show "length a = length b \<Longrightarrow> xor_list a (xor_list a b) = b"
    unfolding xor_list_def by (induction a b rule: list_induct2) (simp_all flip: xor.assoc)
  show "length a = length b \<Longrightarrow> xor_list b (xor_list a b) = a"
    unfolding xor_list_def by (induction a b rule: list_induct2) (simp_all add: xor.left_commute)
qed

lemma xor_reconstruct_damaged:
  assumes "length a = length b" and "a \<noteq> []" and "damaged (xor_erasure B) [a, b, xor_list a b] part"
  shows "xor_reconstruct part = Inr [a, b, xor_list a b]"
proof -
  have "length part = 3" using assms(3) by (simp add: damaged_def)
  then obtain x y z where part: "part = [x, y, z]" by (auto simp: numeral_3_eq_3 length_Suc_conv)
  have "\<forall>i < length [a, b, xor_list a b]. [x, y, z] ! i = [a, b, xor_list a b] ! i \<or> [x, y, z] ! i = []"
    using assms(3) unfolding damaged_def part by blast
  from this[rule_format, of 0] this[rule_format, of 1] this[rule_format, of 2]
  have xyz: "x = a \<or> x = []" "y = b \<or> y = []" "z = xor_list a b \<or> z = []" by simp_all
  have two: "2 \<le> length (filter (\<lambda>b. b \<noteq> []) [x, y, z])" using assms(3) by (simp add: damaged_def part xor_erasure_def)
  have "b \<noteq> []" "xor_list a b \<noteq> []" using assms(1,2) by (auto simp: xor_list_def)
  then show ?thesis unfolding part using xyz two xor_list_back[OF assms(1)] assms(2) by (auto split: if_splits)
qed

lemma xor_code: "rs_code xor_split xor_encode xor_reconstruct xor_reconstruct (xor_erasure B)"
  unfolding rs_code_def
proof (intro allI impI)
  fix data :: "byte list" assume ne: "data \<noteq> []"
  define h where "h = (length data + 1) div 2"
  define a where "a = take h data"
  define b where "b = drop h data @ replicate (2 * h - length data) 0"
  have h: "length a = h" "length b = h" "0 < h" using ne by (auto simp: a_def b_def h_def Suc_le_eq)
  have c: "int h = ceilFrac (int (length data)) 2" by (simp add: h_def ceilFrac_nonneg zdiv_int)
  have "a @ b = data @ replicate (2 * h - length data) 0" by (simp add: a_def b_def)
  then have data: "take (length data) (a @ b) = data" by simp
  have len: "length (xor_list a b) = h" using h by (simp add: xor_list_def)
  have split: "xor_split data = Inr [a, b, replicate h 0]" by (simp add: xor_split_def Let_def a_def b_def h_def)
  have rec: "xor_reconstruct part = Inr [a, b, xor_list a b]" if "damaged (xor_erasure B) [a, b, xor_list a b] part" for part
    by (rule xor_reconstruct_damaged[OF _ _ that]) (use h in auto)
  show "\<exists>sh enc. xor_split data = Inr sh \<and> xor_encode sh = Inr enc
      \<and> int (length enc) = er_dataBlocks (xor_erasure B) + er_parityBlocks (xor_erasure B)
      \<and> (\<forall>s \<in> set enc. int (length s) = ceilFrac (int (length data)) (er_dataBlocks (xor_erasure B)))
      \<and> take (length data) (concat (take (nat (er_dataBlocks (xor_erasure B))) enc)) = data
      \<and> (\<forall>part. damaged (xor_erasure B) enc part \<longrightarrow>
             (\<exists>full. xor_reconstruct part = Inr full \<and> length full = length enc
                \<and> take (nat (er_dataBlocks (xor_erasure B))) full = take (nat (er_dataBlocks (xor_erasure B))) enc)
             \<and> xor_reconstruct part = Inr enc)"
    using rec h len c data split
    by (intro exI[of _ "[a, b, replicate h 0]"] exI[of _ "[a, b, xor_list a b]"]) (simp add: xor_erasure_def)
qed

definition sample_src :: "byte list" where
  "sample_src = [1, 2, 3, 4, 5]"

text \<open>Three drives, of which the second is not there.\<close>

definition sample_encoding :: "(bitrotWriter option list \<times> int \<times> gerror option) option" where
  "sample_encoding = Encode (\<lambda>es. es) False (bitrot_shard_writer length_hash HighwayHash256S 2) xor_split xor_encode (xor_erasure 4)
     sample_src None [Some new_bitrot_writer, None, Some new_bitrot_writer] 4 2"

definition sample_writers :: "bitrotWriter option list" where
  "sample_writers = fst (the sample_encoding)"

lemma sample_encoding_ok: "sample_encoding = Some (sample_writers, 5, None)"
proof -
  have "case sample_encoding of Some (ws, n, None) \<Rightarrow> n = 5 | _ \<Rightarrow> False" by code_simp
  then obtain ws where "sample_encoding = Some (ws, 5, None)" by (auto split: option.splits)
  then have "sample_writers = ws" unfolding sample_writers_def by (metis fst_conv option.sel)
  then show ?thesis using \<open>sample_encoding = Some (ws, 5, None)\<close> by metis
qed

end
