(* ===== verification/Erasure_Decode.thy ===== *)
theory Erasure_Decode
  imports Erasure_Read Erasure_Write
begin

text \<open>
  Reading an object back (\<open>Decode\<close> of \<open>cmd/erasure-decode.go\<close>, \<open>writeDataBlocks\<close> of
  \<open>cmd/erasure-utils.go\<close>) and rewriting lost shards (\<open>Heal\<close>): block by block over the parallel reader. Each block
  has its own schedule of goroutines (\<open>scheds\<close>).
\<close>

section \<open>Writing the data shards of a block\<close>

definition rs_ErrTooFewShards :: gerror where
  "rs_ErrTooFewShards = OtherErr ''too few shards given''"

definition rs_ErrShortData :: gerror where
  "rs_ErrShortData = OtherErr ''not enough data to fill the number of requested shards''"

definition errLessData :: gerror where
  "errLessData = OtherErr ''less data available than what was requested''"

definition getDataBlockLen :: "byte list list \<Rightarrow> int \<Rightarrow> int" where
  "getDataBlockLen enBlocks dataBlocks = sum_list (map (\<lambda>b. int (length b)) (take (nat dataBlocks) enBlocks))"

fun write_data_loop :: "'w Writer \<Rightarrow> 'w \<Rightarrow> byte list list \<Rightarrow> int \<Rightarrow> int \<Rightarrow> int \<Rightarrow> 'w \<times> int \<times> gerror option" where
  "write_data_loop W dst [] offset left totalWritten = (dst, totalWritten, None)"
| "write_data_loop W dst (block # blocks) offset left totalWritten =
     (if offset \<ge> int (length block) then write_data_loop W dst blocks (offset - int (length block)) left totalWritten
      else let b = drop (nat offset) block
           in if left < int (length b)
              then (case W dst (take (nat left) b) of
                      (dst', n, Some err) \<Rightarrow> (dst', 0, Some err)
                    | (dst', n, None) \<Rightarrow> (dst', totalWritten + n, None))
              else (case W dst b of
                      (dst', n, Some err) \<Rightarrow> (dst', 0, Some err)
                    | (dst', n, None) \<Rightarrow> write_data_loop W dst' blocks 0 (left - n) (totalWritten + n)))"

definition writeDataBlocks :: "'w Writer \<Rightarrow> 'w \<Rightarrow> byte list list \<Rightarrow> int \<Rightarrow> int \<Rightarrow> int \<Rightarrow> 'w \<times> int \<times> gerror option" where
  "writeDataBlocks W dst enBlocks dataBlocks offset len =
     (if offset < 0 \<or> len < 0 then (dst, 0, Some ErrUnexpected)
      else if int (length enBlocks) < dataBlocks then (dst, 0, Some rs_ErrTooFewShards)
      else if getDataBlockLen enBlocks dataBlocks < len then (dst, 0, Some rs_ErrShortData)
      else write_data_loop W dst (take (nat dataBlocks) enBlocks) offset len 0)"

lemma getDataBlockLen_eq: "getDataBlockLen bs dataBlocks = int (length (concat (take (nat dataBlocks) bs)))"
proof -
  have "(\<Sum>b\<leftarrow>bs. int (length b)) = int (length (concat bs))" for bs :: "byte list list" by (induction bs) simp_all
  then show ?thesis by (simp add: getDataBlockLen_def)
qed

section \<open>Decode\<close>

text \<open>Where the requested bytes lie in a block.\<close>

definition block_range :: "Erasure \<Rightarrow> int \<Rightarrow> int \<Rightarrow> int \<Rightarrow> int \<times> int" where
  "block_range e offset len block =
     (let startBlock = quo offset (er_blockSize e); endBlock = quo (offset + len) (er_blockSize e)
      in if startBlock = endBlock then (rem offset (er_blockSize e), len)
         else if block = startBlock then (rem offset (er_blockSize e), er_blockSize e - rem offset (er_blockSize e))
         else if block = endBlock then (0, rem (offset + len) (er_blockSize e))
         else (0, er_blockSize e))"

definition keep_error :: "gerror option \<Rightarrow> gerror option \<Rightarrow> gerror option" where
  "keep_error derr err =
     (if IsErr err [ErrFileNotFound] \<or> IsErr err [ErrFileCorrupt] then (if derr = None then err else derr) else derr)"

definition decode_end :: "'r parallelReader \<Rightarrow> 'w \<Rightarrow> int \<Rightarrow> int \<Rightarrow> gerror option \<Rightarrow> 'w \<times> bool list \<times> int \<times> gerror option" where
  "decode_end reader dst len bytesWritten derr =
     (dst, pr_org reader, bytesWritten, if bytesWritten \<noteq> len then Some errLessData else derr)"

text \<open>The result: the destination, which entries of the caller's slice are left, the bytes written, the error.\<close>

fun decode_loop ::
  "'r ReadAt \<Rightarrow> 'w Writer \<Rightarrow> (byte list list \<Rightarrow> gerror + byte list list) \<Rightarrow> (int \<Rightarrow> pr_label list) \<Rightarrow> Erasure \<Rightarrow> int \<Rightarrow> int
   \<Rightarrow> nat \<Rightarrow> int \<Rightarrow> 'r parallelReader \<Rightarrow> 'w \<Rightarrow> int \<Rightarrow> gerror option \<Rightarrow> ('w \<times> bool list \<times> int \<times> gerror option) option" where
  "decode_loop R W RD scheds e offset len 0 block reader dst bytesWritten derr = Some (decode_end reader dst len bytesWritten derr)"
| "decode_loop R W RD scheds e offset len (Suc togo) block reader dst bytesWritten derr =
     (case block_range e offset len block of
        (blockOffset, blockLength) \<Rightarrow>
          if blockLength = 0 then Some (decode_end reader dst len bytesWritten derr)
          else case pr_Read R (scheds block) reader of
            None \<Rightarrow> None
          | Some (reader', bufs, err) \<Rightarrow>
              if bufs = [] \<and> err \<noteq> None then Some (dst, pr_org reader', -1, err)
              else let derr' = (if bufs \<noteq> [] then keep_error derr err else derr)
                   in case DecodeDataBlocks RD bufs of
                        Inl err \<Rightarrow> Some (dst, pr_org reader', -1, Some err)
                      | Inr bufs' \<Rightarrow>
                          (case writeDataBlocks W dst bufs' (er_dataBlocks e) blockOffset blockLength of
                             (dst', n, Some err) \<Rightarrow> Some (dst', pr_org reader', -1, Some err)
                           | (dst', n, None) \<Rightarrow>
                               decode_loop R W RD scheds e offset len togo (block + 1) reader' dst' (bytesWritten + n) derr'))"

definition Decode ::
  "'r ReadAt \<Rightarrow> 'w Writer \<Rightarrow> (byte list list \<Rightarrow> gerror + byte list list) \<Rightarrow> (int \<Rightarrow> pr_label list) \<Rightarrow> Erasure
   \<Rightarrow> 'w \<Rightarrow> 'r option list \<Rightarrow> int \<Rightarrow> int \<Rightarrow> int \<Rightarrow> bool list \<Rightarrow> ('w \<times> bool list \<times> int \<times> gerror option) option" where
  "Decode R W RD scheds e dst readers offset len totalLength prefer =
     (let org = map (\<lambda>r. r \<noteq> None) readers
      in if offset < 0 \<or> len < 0 then Some (dst, org, -1, Some ErrInvalidArgument)
         else if offset + len > totalLength then Some (dst, org, -1, Some ErrInvalidArgument)
         else if len = 0 then Some (dst, org, 0, None)
         else case newParallelReader readers e offset totalLength of
                Inl err \<Rightarrow> Some (dst, org, -1, Some err)
              | Inr p \<Rightarrow>
                  (let reader = (if length prefer = length readers then preferReaders prefer p else p);
                       startBlock = quo offset (er_blockSize e);
                       endBlock = quo (offset + len) (er_blockSize e)
                   in decode_loop R W RD scheds e offset len (nat (endBlock - startBlock + 1)) startBlock reader dst 0 None))"

section \<open>Heal\<close>

fun heal_loop ::
  "'r ReadAt \<Rightarrow> errs_order \<Rightarrow> bool \<Rightarrow> 'w Writer \<Rightarrow> (byte list list \<Rightarrow> gerror + byte list list) \<Rightarrow> (int \<Rightarrow> pr_label list)
   \<Rightarrow> nat \<Rightarrow> int \<Rightarrow> 'r parallelReader \<Rightarrow> 'w option list \<Rightarrow> gerror option \<Rightarrow> ('w option list \<times> bool list \<times> gerror option) option" where
  "heal_loop R ord canceled W Reconstruct scheds 0 block reader writers derr = Some (writers, pr_org reader, derr)"
| "heal_loop R ord canceled W Reconstruct scheds (Suc togo) block reader writers derr =
     (case pr_Read R (scheds block) reader of
        None \<Rightarrow> None
      | Some (reader', bufs, err) \<Rightarrow>
          if bufs = [] \<and> err \<noteq> None then Some (writers, pr_org reader', err)
          else let derr' = (if bufs \<noteq> [] then keep_error derr err else derr)
               in case Reconstruct bufs of
                    Inl err \<Rightarrow> Some (writers, pr_org reader', Some err)
                  | Inr bufs' \<Rightarrow>
                      (case mw_Write ord canceled W bufs' \<lparr>mw_writers = writers, mw_writeQuorum = 1, mw_errs = replicate (length writers) None\<rparr> of
                         (w', Some err) \<Rightarrow> Some (mw_writers w', pr_org reader', Some err)
                       | (w', None) \<Rightarrow> heal_loop R ord canceled W Reconstruct scheds togo (block + 1) reader' (mw_writers w') derr'))"

definition Heal ::
  "'r ReadAt \<Rightarrow> errs_order \<Rightarrow> bool \<Rightarrow> 'w Writer \<Rightarrow> (byte list list \<Rightarrow> gerror + byte list list) \<Rightarrow> (int \<Rightarrow> pr_label list) \<Rightarrow> Erasure
   \<Rightarrow> 'w option list \<Rightarrow> 'r option list \<Rightarrow> int \<Rightarrow> bool list \<Rightarrow> ('w option list \<times> bool list \<times> gerror option) option" where
  "Heal R ord canceled W Reconstruct scheds e writers readers totalLength prefer =
     (let org = map (\<lambda>r. r \<noteq> None) readers
      in if int (length writers) \<noteq> er_parityBlocks e + er_dataBlocks e then Some (writers, org, Some ErrInvalidArgument)
         else case newParallelReader readers e 0 totalLength of
                Inl err \<Rightarrow> Some (writers, org, Some err)
              | Inr p \<Rightarrow>
                  (let reader = (if length readers = length prefer then preferReaders prefer p else p);
                       endBlock = quo totalLength (er_blockSize e) + (if rem totalLength (er_blockSize e) \<noteq> 0 then 1 else 0)
                   in heal_loop R ord canceled W Reconstruct scheds (nat endBlock) 0 reader writers None))"

section \<open>One block\<close>

text \<open>A shard reader of blocks of \<open>s\<close> bytes: what it returns for a block of its shard is that block.\<close>

locale shard_reader =
  fixes R :: "'r ReadAt" and s :: int and serves :: "'r \<Rightarrow> byte list list \<Rightarrow> bool"
  assumes fills: "fills R"
    and serves_block: "serves r bs \<Longrightarrow> k < length bs \<Longrightarrow> R r (int k * s) (int (length (bs ! k))) = (r', Inr b)
      \<Longrightarrow> b = bs ! k \<and> serves r' bs"

text \<open>\<open>n\<close> shards of \<open>N\<close> blocks each, all of the same lengths; together the blocks of a shard have the length of its file.\<close>

definition shard_layout :: "nat \<Rightarrow> int \<Rightarrow> int \<Rightarrow> nat \<Rightarrow> (nat \<Rightarrow> byte list list) \<Rightarrow> bool" where
  "shard_layout n s fileSize N shards \<longleftrightarrow> 0 < N \<and> fileSize - int (N - 1) * s \<le> s \<and> 0 < s
     \<and> (\<forall>k < n. length (shards k) = N
          \<and> (\<forall>j < N. shards k ! j \<noteq> [] \<and> int (length (shards k ! j)) = (if Suc j < N then s else fileSize - int j * s)))"

definition block_size :: "int \<Rightarrow> int \<Rightarrow> nat \<Rightarrow> nat \<Rightarrow> int" where
  "block_size s fileSize N j = (if Suc j < N then s else fileSize - int j * s)"

lemma shard_layoutD:
  assumes "shard_layout n s fileSize N shards" and "j < N"
  shows "k < n \<Longrightarrow> length (shards k) = N" "k < n \<Longrightarrow> shards k ! j \<noteq> []"
    and "k < n \<Longrightarrow> int (length (shards k ! j)) = block_size s fileSize N j"
    and "0 < n \<Longrightarrow> 0 < block_size s fileSize N j"
proof -
  show l: "k < n \<Longrightarrow> length (shards k) = N" "k < n \<Longrightarrow> shards k ! j \<noteq> []"
    "k < n \<Longrightarrow> int (length (shards k ! j)) = block_size s fileSize N j" for k
    using assms by (auto simp: shard_layout_def block_size_def)
  show "0 < n \<Longrightarrow> 0 < block_size s fileSize N j" using l(2)[of 0] l(3)[of 0] by (metis length_greater_0_conv of_nat_0_less_iff)
qed

lemma last_shard_size:
  assumes "shard_layout n s fileSize N shards" and "j < N" and "0 < n"
    and "pr_offset p = int j * s" "pr_shardSize p = s" "pr_shardFileSize p = fileSize"
  shows "last_shard p = p\<lparr>pr_shardSize := block_size s fileSize N j\<rparr>"
proof (cases "Suc j < N")
  case True
  have "int (Suc j) * s \<le> int (N - 1) * s"
    using True assms(1) by (intro mult_right_mono) (auto simp: shard_layout_def)
  moreover have "0 < block_size s fileSize N (N - 1)" using shard_layoutD(4)[OF assms(1) _ assms(3), of "N - 1"] assms(2) by simp
  moreover have "block_size s fileSize N (N - 1) = fileSize - int (N - 1) * s" using assms(2) by (simp add: block_size_def)
  ultimately have "int j * s + s \<le> fileSize" by (simp add: distrib_right)
  then show ?thesis using True assms(4-6) by (simp add: last_shard_def block_size_def)
next
  case False
  then have j: "j = N - 1" using assms(2) by simp
  show ?thesis
  proof (cases "fileSize < int j * s + s")
    case False
    moreover have "fileSize - int j * s \<le> s" using assms(1) unfolding j by (simp only: shard_layout_def)
    ultimately have "fileSize - int j * s = s" by linarith
    then show ?thesis using assms(4-6) \<open>\<not> Suc j < N\<close> by (cases p) (simp add: last_shard_def block_size_def)
  qed (use assms(4-6) \<open>\<not> Suc j < N\<close> in \<open>simp add: last_shard_def block_size_def\<close>)
qed

context shard_reader begin

definition sound_shared :: "'r parallelReader \<Rightarrow> (nat \<Rightarrow> byte list list) \<Rightarrow> nat \<Rightarrow> 'r pr_shared \<Rightarrow> bool" where
  "sound_shared p shards j sh \<longleftrightarrow>
     length (sh_readers sh) = length (pr_readers p) \<and> length (sh_newBuf sh) = length (pr_readers p)
     \<and> (\<forall>k < length (pr_readers p). sh_newBuf sh ! k = [] \<or> sh_newBuf sh ! k = shards k ! j)
     \<and> (\<forall>i < length (pr_readers p). \<forall>r. sh_readers sh ! i = Some r \<longrightarrow> serves r (shards (pr_readerToBuf p ! i)))"

lemma fetch_sound:
  assumes "sound_shared p shards j sh" and "pr_ok p" and "i < length (pr_readers p)" and "pr_offset p = int j * s"
    and "\<And>k. k < length (pr_readers p) \<Longrightarrow> j < length (shards k) \<and> int (length (shards k ! j)) = pr_shardSize p"
  shows "sound_shared p shards j (fetch R p i sh)"
proof (cases "sh_readers sh ! i")
  case None
  then show ?thesis using assms(1) by (simp add: fetch_def read_one_def)
next
  case (Some r)
  let ?k = "pr_readerToBuf p ! i"
  have k: "?k < length (pr_readers p)" by (rule buf_index_lt[OF assms(2,3)])
  have srv: "serves r (shards ?k)" using assms(1,3) Some by (simp add: sound_shared_def)
  obtain r' res where res: "R r (pr_offset p) (pr_shardSize p) = (r', res)" by fastforce
  show ?thesis
  proof (cases res)
    case (Inl err)
    then show ?thesis using assms(1) Some res assms(3)
      by (auto simp: fetch_def read_one_def sound_shared_def nth_list_update split: if_splits)
  next
    case (Inr b)
    have "R r (int j * s) (int (length (shards ?k ! j))) = (r', Inr b)" using res Inr assms(4) assms(5)[OF k] by simp
    from serves_block[OF srv _ this] have b: "b = shards ?k ! j" "serves r' (shards ?k)" using assms(5)[OF k] by auto
    have "pr_readerToBuf p ! i' \<noteq> ?k" if "i' < length (pr_readers p)" "i' \<noteq> i" for i'
      using buf_index_inj[OF assms(2)] that assms(3) by blast
    then show ?thesis using assms(1) Some res Inr b k assms(3)
      by (auto simp: fetch_def read_one_def sound_shared_def nth_list_update)
  qed
qed

lemma fetch_all_sound:
  assumes "pr_ok p" and "pr_offset p = int j * s"
    and "\<And>k. k < length (pr_readers p) \<Longrightarrow> j < length (shards k) \<and> int (length (shards k ! j)) = pr_shardSize p"
  shows "sound_shared p shards j sh \<Longrightarrow> set ds \<subseteq> {0..<length (pr_readers p)} \<Longrightarrow> sound_shared p shards j (fetch_all R p ds sh)"
proof (induction ds arbitrary: sh)
  case (Cons d ds)
  then show ?case using fetch_sound[OF Cons.prems(1) assms(1) _ assms(2,3), of d] by simp
qed simp

text \<open>A parallel reader that has come to block \<open>j\<close>.\<close>

definition at_block :: "int \<Rightarrow> nat \<Rightarrow> (nat \<Rightarrow> byte list list) \<Rightarrow> 'r parallelReader \<Rightarrow> nat \<Rightarrow> bool" where
  "at_block fileSize N shards p j \<longleftrightarrow> pr_ok p \<and> pr_offset p = int j * s \<and> pr_shardSize p = s \<and> pr_shardFileSize p = fileSize
     \<and> shard_layout (length (pr_readers p)) s fileSize N shards
     \<and> (\<forall>i < length (pr_readers p). \<forall>r. pr_readers p ! i = Some r \<longrightarrow> serves r (shards (pr_readerToBuf p ! i)))"

lemma read_start_sound:
  assumes "at_block fileSize N shards p j"
  shows "sound_shared (p\<lparr>pr_shardSize := z\<rparr>) shards j (read_start (p\<lparr>pr_shardSize := z\<rparr>))"
  using assms by (simp add: at_block_def sound_shared_def)

text \<open>What a read of block \<open>j\<close> gives: \<open>p0\<close> is the reader with the shard size of the block.\<close>

lemma read_block:
  assumes "at_block fileSize N shards p j" and "j < N" and "pr_Read R sched p = Some res"
  defines "p0 \<equiv> p\<lparr>pr_shardSize := block_size s fileSize N j\<rparr>"
  shows "\<exists>m sh. started R p0 (read_start p0) m \<and> sh = fetch_all R p0 [0..<m] (read_start p0) \<and> sound_shared p0 shards j sh
    \<and> res = read_result p0 sh \<and> m \<le> length (pr_readers p)"
proof -
  have ok: "pr_ok p" and l: "shard_layout (length (pr_readers p)) s fileSize N shards"
    using assms(1) by (simp_all add: at_block_def)
  have n: "0 < length (pr_readers p)" using ok by (auto simp: pr_ok_def)
  have p0: "last_shard p = p0" unfolding p0_def
    by (rule last_shard_size[OF l assms(2) n]) (use assms(1) in \<open>simp_all add: at_block_def\<close>)
  have ok0: "pr_ok p0" using ok by (simp add: p0_def pr_ok_def)
  have pos: "0 < pr_shardSize p0" using shard_layoutD(4)[OF l assms(2) n] by (simp add: p0_def)
  have nd: "\<not> int (length (pr_readers p0)) < pr_dataBlocks p0" using ok0 by (simp add: pr_ok_def)
  obtain st where st: "read_run R p0 sched (read_init p0) = Some st" "read_final st" "res = read_result p0 (rs_shared st)"
    using assms(3) pos nd by (auto simp: pr_Read_def Let_def p0 split: option.splits if_splits)
  from read_run_final[OF fills ok0 pos st(1,2)]
  have sh: "rs_shared st = in_order R p0" "started R p0 (read_start p0) (rs_readerIndex st)" by auto
  have io: "in_order R p0 = fetch_all R p0 [0..<rs_readerIndex st] (read_start p0)" by (rule started_in_order[OF sh(2) ok0])
  have m: "rs_readerIndex st \<le> length (pr_readers p0)" using sh(2) by (simp add: started_def)
  have "sound_shared p0 shards j (fetch_all R p0 [0..<rs_readerIndex st] (read_start p0))"
  proof (rule fetch_all_sound[OF ok0])
    show "pr_offset p0 = int j * s" using assms(1) by (simp add: p0_def at_block_def)
    show "j < length (shards k) \<and> int (length (shards k ! j)) = pr_shardSize p0" if "k < length (pr_readers p0)" for k
      using shard_layoutD(1,3)[OF l assms(2)] that assms(2) by (simp add: p0_def)
    show "sound_shared p0 shards j (read_start p0)" unfolding p0_def by (rule read_start_sound[OF assms(1)])
  qed (use m in auto)
  then show ?thesis using sh io st(3) m
    by (intro exI[of _ "rs_readerIndex st"] exI[of _ "fetch_all R p0 [0..<rs_readerIndex st] (read_start p0)"]) (simp add: p0_def)
qed

text \<open>The next reader and the buffers.\<close>

lemma read_block_sound:
  assumes "at_block fileSize N shards p j" and "j < N" and "pr_Read R sched p = Some (p', bufs, err)"
  shows "(bufs = [] \<and> err = Some (Wrapped ''offline-disks'' ErrErasureReadQuorum)) \<or>
    (length bufs = length (pr_readers p) \<and> (\<forall>k < length bufs. bufs ! k = [] \<or> bufs ! k = shards k ! j) \<and> canDecode (pr_dataBlocks p) bufs
     \<and> (err = None \<or> err = Some ErrFileNotFound \<or> err = Some ErrFileCorrupt)
     \<and> (Suc j < N \<longrightarrow> at_block fileSize N shards p' (Suc j)))"
    and "pr_dataBlocks p' = pr_dataBlocks p \<and> length (pr_readers p') = length (pr_readers p)"
proof -
  let ?p0 = "p\<lparr>pr_shardSize := block_size s fileSize N j\<rparr>"
  obtain m sh where sh: "sound_shared ?p0 shards j sh" "(p', bufs, err) = read_result ?p0 sh"
    "sh = fetch_all R ?p0 [0..<m] (read_start ?p0)"
    using read_block[OF assms(1,2,3)] by blast
  have org: "length (sh_org sh) = length (pr_org p)" by (simp add: sh(3))
  show "pr_dataBlocks p' = pr_dataBlocks p \<and> length (pr_readers p') = length (pr_readers p)"
    using sh(1,2) by (auto simp: read_result_def Let_def sound_shared_def split: if_splits)
  show "(bufs = [] \<and> err = Some (Wrapped ''offline-disks'' ErrErasureReadQuorum)) \<or>
    (length bufs = length (pr_readers p) \<and> (\<forall>k < length bufs. bufs ! k = [] \<or> bufs ! k = shards k ! j) \<and> canDecode (pr_dataBlocks p) bufs
     \<and> (err = None \<or> err = Some ErrFileNotFound \<or> err = Some ErrFileCorrupt)
     \<and> (Suc j < N \<longrightarrow> at_block fileSize N shards p' (Suc j)))"
  proof (cases "canDecode (pr_dataBlocks p) (sh_newBuf sh)")
    case True
    then have r: "p' = p\<lparr>pr_shardSize := block_size s fileSize N j, pr_readers := sh_readers sh, pr_org := sh_org sh,
        pr_offset := pr_offset p + block_size s fileSize N j\<rparr>" "bufs = sh_newBuf sh"
      "err = None \<or> err = Some ErrFileNotFound \<or> err = Some ErrFileCorrupt"
      using sh(2) by (auto simp: read_result_def Let_def split: if_splits)
    have "at_block fileSize N shards p' (Suc j)" if "Suc j < N"
      using assms(1) sh(1) that org unfolding r(1)
      by (auto simp: at_block_def sound_shared_def pr_ok_def block_size_def algebra_simps)
    then show ?thesis using r sh(1) True by (auto simp: sound_shared_def)
  next
    case False
    then show ?thesis using sh(2) by (simp add: read_result_def Let_def)
  qed
qed

end

section \<open>What is handed out\<close>

text \<open>A destination keeps what it is given in order; if it fails it has kept a beginning of it (\<open>io.Writer\<close>).\<close>

definition sink :: "'w Writer \<Rightarrow> ('w \<Rightarrow> byte list) \<Rightarrow> bool" where
  "sink W got \<longleftrightarrow> (\<forall>w b w' n err. W w b = (w', n, err) \<longrightarrow>
     (if err = None then n = int (length b) \<and> got w' = got w @ b else (\<exists>m. got w' = got w @ take m b)))"

lemma write_data_loop_spec:
  assumes "sink W got"
  shows "write_data_loop W dst blocks offset left written = (dst', n, err) \<Longrightarrow> 0 \<le> offset \<Longrightarrow> 0 \<le> left
    \<Longrightarrow> offset + left \<le> int (length (concat blocks)) \<Longrightarrow>
    if err = None then n = written + left \<and> got dst' = got dst @ take (nat left) (drop (nat offset) (concat blocks))
    else (\<exists>m. got dst' = got dst @ take m (take (nat left) (drop (nat offset) (concat blocks))))"
proof (induction blocks arbitrary: dst offset left written)
  case (Cons block blocks)
  show ?case
  proof (cases "offset \<ge> int (length block)")
    case True
    have "nat (offset - int (length block)) = nat offset - length block" using Cons.prems(2) by simp
    moreover have "length block \<le> nat offset" using True by simp
    ultimately have d: "drop (nat offset) (concat (block # blocks)) = drop (nat (offset - int (length block))) (concat blocks)" by simp
    show ?thesis unfolding d[rule_format]
      by (rule Cons.IH) (use Cons.prems True in auto)
  next
    case False
    let ?b = "drop (nat offset) block"
    have d: "drop (nat offset) (concat (block # blocks)) = ?b @ concat blocks" using False by simp
    show ?thesis
    proof (cases "left < int (length ?b)")
      case True
      then have t: "take (nat left) (?b @ concat blocks) = take (nat left) ?b" by simp
      obtain dst1 n1 err1 where w: "W dst (take (nat left) ?b) = (dst1, n1, err1)" by (metis prod_cases3)
      have len: "int (length (take (nat left) ?b)) = left" using True Cons.prems(3) by simp
      show ?thesis
      proof (cases err1)
        case None
        then have "n1 = left" "got dst1 = got dst @ take (nat left) ?b" using assms w len unfolding sink_def by metis+
        then show ?thesis using Cons.prems(1) False True w None unfolding d t by (auto simp: Let_def)
      next
        case (Some e)
        then obtain m where "got dst1 = got dst @ take m (take (nat left) ?b)" using assms w unfolding sink_def by (metis option.distinct(1))
        then show ?thesis using Cons.prems(1) False True w Some unfolding d t by (auto simp: Let_def)
      qed
    next
      case full: False
      obtain dst1 n1 err1 where w: "W dst ?b = (dst1, n1, err1)" by (metis prod_cases3)
      have t: "take (nat left) (?b @ concat blocks) = ?b @ take (nat (left - int (length ?b))) (concat blocks)"
        using full Cons.prems(3) by (simp add: nat_diff_distrib')
      show ?thesis
      proof (cases err1)
        case None
        then have n1: "n1 = int (length ?b)" "got dst1 = got dst @ ?b" using assms w unfolding sink_def by metis+
        have a1: "write_data_loop W dst1 blocks 0 (left - n1) (written + n1) = (dst', n, err)"
          using Cons.prems(1) False full w None by (simp add: Let_def)
        have a2: "0 + (left - n1) \<le> int (length (concat blocks))" using Cons.prems(4) False Cons.prems(2) by (simp add: n1)
        have a3: "0 \<le> left - n1" using full n1(1) by simp
        have IH: "if err = None then n = written + n1 + (left - n1) \<and> got dst' = got dst1 @ take (nat (left - n1)) (concat blocks)
          else (\<exists>m. got dst' = got dst1 @ take m (take (nat (left - n1)) (concat blocks)))"
          using Cons.IH[OF a1 order_refl a3 a2] unfolding nat_0 drop_0 .
        have app: "got dst1 @ take m X = got dst @ take (length ?b + m) (?b @ X)" for m X by (simp add: n1)
        show ?thesis
        proof (cases "err = None")
          case True
          then show ?thesis using IH unfolding d t n1 by simp
        next
          case False
          then obtain m where "got dst' = got dst1 @ take m (take (nat (left - n1)) (concat blocks))" using IH by auto
          then have "got dst' = got dst @ take (length ?b + m) (?b @ take (nat (left - n1)) (concat blocks))" unfolding app .
          then show ?thesis using False unfolding d t n1(1) by metis
        qed
      next
        case (Some e)
        then obtain m where m: "got dst1 = got dst @ take m ?b" using assms w unfolding sink_def by (metis option.distinct(1))
        have "take m ?b = take (min m (length ?b)) (?b @ take (nat (left - int (length ?b))) (concat blocks))" by (simp add: min_def)
        then have "got dst1 = got dst @ take (min m (length ?b)) (?b @ take (nat (left - int (length ?b))) (concat blocks))"
          using m by simp
        moreover have "dst' = dst1" "err = Some e" using Cons.prems(1) False full w Some by (auto simp: Let_def)
        ultimately show ?thesis unfolding d t by (metis option.distinct(1))
      qed
    qed
  qed
qed simp

section \<open>The blocks of an object\<close>

lemma chunks_less: "0 < n \<Longrightarrow> j < length (chunks n xs) \<longleftrightarrow> j * n < length xs"
proof (induction n xs arbitrary: j rule: chunks.induct)
  case (1 n xs)
  show ?case
  proof (cases "xs = []")
    case False
    then have c: "chunks n xs = take n xs # chunks n (drop n xs)" using 1(2) by (subst chunks.simps) simp
    show ?thesis
    proof (cases j)
      case (Suc j')
      have "j' < length (chunks n (drop n xs)) \<longleftrightarrow> j' * n < length (drop n xs)" using 1 False by simp
      then show ?thesis using Suc c by (auto simp: less_diff_conv)
    qed (use False c in simp)
  qed (simp add: chunks.simps)
qed

lemma chunks_nth: "0 < n \<Longrightarrow> j < length (chunks n xs) \<Longrightarrow> chunks n xs ! j = take n (drop (j * n) xs)"
proof (induction n xs arbitrary: j rule: chunks.induct)
  case (1 n xs)
  then have "xs \<noteq> []" by (auto simp: chunks.simps)
  then have c: "chunks n xs = take n xs # chunks n (drop n xs)" using 1(2) by (subst chunks.simps) simp
  show ?case
  proof (cases j)
    case (Suc j')
    then show ?thesis using 1 \<open>xs \<noteq> []\<close> c by (simp add: add.commute)
  qed (use c in simp)
qed

definition object_shards :: "(byte list \<Rightarrow> gerror + byte list list) \<Rightarrow> (byte list list \<Rightarrow> gerror + byte list list)
    \<Rightarrow> Erasure \<Rightarrow> byte list \<Rightarrow> nat \<Rightarrow> byte list list" where
  "object_shards Split Enc e src k = map (\<lambda>c. encoded Split Enc e c ! k) (chunks (nat (er_blockSize e)) src)"

definition erasure_ok :: "Erasure \<Rightarrow> bool" where
  "erasure_ok e \<longleftrightarrow> 0 < er_blockSize e \<and> 0 < er_dataBlocks e \<and> 0 \<le> er_parityBlocks e"

definition drives :: "Erasure \<Rightarrow> nat" where
  "drives e = nat (er_dataBlocks e + er_parityBlocks e)"

lemma encoded_shards:
  assumes "rs_code Split Enc RD RC e" and "c \<noteq> []"
  shows "EncodeData Split Enc e c = Inr (encoded Split Enc e c)"
    and "int (length (encoded Split Enc e c)) = er_dataBlocks e + er_parityBlocks e"
    and "b \<in> set (encoded Split Enc e c) \<Longrightarrow> int (length b) = ceilFrac (int (length c)) (er_dataBlocks e)"
    and "take (length c) (concat (take (nat (er_dataBlocks e)) (encoded Split Enc e c))) = c"
    and "damaged e (encoded Split Enc e c) part \<Longrightarrow> \<exists>full. RD part = Inr full \<and> length full = length (encoded Split Enc e c)
      \<and> take (nat (er_dataBlocks e)) full = take (nat (er_dataBlocks e)) (encoded Split Enc e c)"
    and "damaged e (encoded Split Enc e c) part \<Longrightarrow> RC part = Inr (encoded Split Enc e c)"
proof -
  obtain sh enc where *: "Split c = Inr sh" "Enc sh = Inr enc" "int (length enc) = er_dataBlocks e + er_parityBlocks e"
    "\<forall>b \<in> set enc. int (length b) = ceilFrac (int (length c)) (er_dataBlocks e)"
    "take (length c) (concat (take (nat (er_dataBlocks e)) enc)) = c"
    "\<forall>part. damaged e enc part \<longrightarrow> (\<exists>full. RD part = Inr full \<and> length full = length enc
        \<and> take (nat (er_dataBlocks e)) full = take (nat (er_dataBlocks e)) enc) \<and> RC part = Inr enc"
    using assms(1)[unfolded rs_code_def, rule_format, OF assms(2)] by blast
  have enc: "EncodeData Split Enc e c = Inr enc" "encoded Split Enc e c = enc" using assms(2) * by (simp_all add: encoded_def EncodeData_def)
  show "EncodeData Split Enc e c = Inr (encoded Split Enc e c)"
    "int (length (encoded Split Enc e c)) = er_dataBlocks e + er_parityBlocks e"
    "b \<in> set (encoded Split Enc e c) \<Longrightarrow> int (length b) = ceilFrac (int (length c)) (er_dataBlocks e)"
    "take (length c) (concat (take (nat (er_dataBlocks e)) (encoded Split Enc e c))) = c"
    "damaged e (encoded Split Enc e c) part \<Longrightarrow> \<exists>full. RD part = Inr full \<and> length full = length (encoded Split Enc e c)
      \<and> take (nat (er_dataBlocks e)) full = take (nat (er_dataBlocks e)) (encoded Split Enc e c)"
    "damaged e (encoded Split Enc e c) part \<Longrightarrow> RC part = Inr (encoded Split Enc e c)"
    using * enc by simp_all
qed

lemma chunk_length:
  assumes "0 < B" and "j < length (chunks B src)"
  shows "length (chunks B src ! j) = min B (length src - j * B)" and "chunks B src ! j \<noteq> []"
    and "Suc j < length (chunks B src) \<Longrightarrow> length (chunks B src ! j) = B"
proof -
  have j: "j * B < length src" using chunks_less[OF assms(1)] assms(2) by blast
  show l: "length (chunks B src ! j) = min B (length src - j * B)" using chunks_nth[OF assms] by (simp add: min.commute)
  show "chunks B src ! j \<noteq> []" using l j assms(1) by auto
  assume "Suc j < length (chunks B src)"
  then have "Suc j * B < length src" using chunks_less[OF assms(1)] by blast
  then show "length (chunks B src ! j) = B" using l by simp
qed

lemma ShardFileSize_nat:
  assumes "erasure_ok e"
  shows "Erasure_ShardFileSize e (int l)
    = Inr (int (l div nat (er_blockSize e)) * Erasure_ShardSize e + ceilFrac (int (l mod nat (er_blockSize e))) (er_dataBlocks e))"
proof -
  obtain b where b: "er_blockSize e = int b" using assms by (metis erasure_ok_def nonneg_int_cases order_less_imp_le)
  then show ?thesis using assms Erasure_ShardFileSize_nonneg[of e "int l"]
    by (simp add: erasure_ok_def Erasure_ShardSize_def zdiv_int zmod_int)
qed

lemma object_layout:
  assumes "rs_code Split Enc RD RC e" and "erasure_ok e" and "src \<noteq> []"
    and "Erasure_ShardFileSize e (int (length src)) = Inr fileSize"
  shows "shard_layout (drives e) (Erasure_ShardSize e) fileSize (length (chunks (nat (er_blockSize e)) src)) (object_shards Split Enc e src)"
proof -
  let ?B = "nat (er_blockSize e)" and ?D = "er_dataBlocks e" and ?s = "Erasure_ShardSize e"
  let ?N = "length (chunks ?B src)" and ?l = "length src"
  have B: "0 < ?B" "int ?B = er_blockSize e" and D: "0 < ?D" using assms(2) by (auto simp: erasure_ok_def)
  have N: "j < ?N \<longleftrightarrow> j * ?B < ?l" for j by (rule chunks_less[OF B(1)])
  have pos: "0 < ?N" using N[of 0] assms(3) by simp
  let ?r = "?l - (?N - 1) * ?B"
  have last: "(?N - 1) * ?B < ?l" "?l \<le> ?N * ?B" using N[of "?N - 1"] N[of ?N] pos by auto
  have r: "0 < ?r" "?r \<le> ?B" using last pos by (cases ?N; auto simp: algebra_simps)+
  have fs: "fileSize = int (?N - 1) * ?s + ceilFrac (int ?r) ?D"
  proof -
    have l: "?l = (?N - 1) * ?B + ?r" using last by simp
    have f: "fileSize = int (?l div ?B) * ?s + ceilFrac (int (?l mod ?B)) ?D"
      using assms(4) ShardFileSize_nat[OF assms(2)] by simp
    show ?thesis
    proof (cases "?r = ?B")
      case True
      then have "?l = ?N * ?B" using l pos by (cases ?N) auto
      then have q: "?l div ?B = Suc (?N - 1)" "?l mod ?B = 0" using B(1) pos by simp_all
      have "int ?r = er_blockSize e" using True B(2) by simp
      then have c: "ceilFrac (int ?r) ?D = ?s" by (simp only: Erasure_ShardSize_def)
      have "fileSize = int (Suc (?N - 1)) * ?s + ceilFrac 0 ?D" unfolding f q by simp
      also have "\<dots> = int (?N - 1) * ?s + ?s" by (simp add: distrib_right)
      finally show ?thesis by (simp only: c)
    next
      case False
      then have "?r < ?B" using r by simp
      then have q: "?l div ?B = ?N - 1" "?l mod ?B = ?r"
      proof -
        show q: "?l div ?B = ?N - 1" by (rule div_nat_eqI) (use l \<open>?r < ?B\<close> in \<open>auto simp: algebra_simps\<close>)
        show "?l mod ?B = ?r" unfolding q[symmetric] by (simp add: minus_div_mult_eq_mod)
      qed
      show ?thesis unfolding f q ..
    qed
  qed
  have ceil_pos: "0 < ceilFrac (int c) ?D" if "0 < c" for c
    using ceilFrac_bounds(1)[of "int c" ?D] that D by (smt (verit) mult_le_0_iff of_nat_0_less_iff)
  have s: "?s = ceilFrac (int ?B) ?D" by (simp only: Erasure_ShardSize_def B(2))
  have block: "object_shards Split Enc e src k ! j \<noteq> [] \<and> int (length (object_shards Split Enc e src k ! j)) = (if Suc j < ?N then ?s else fileSize - int j * ?s)"
    if k: "k < drives e" and j: "j < ?N" for k j
  proof -
    let ?c = "chunks ?B src ! j"
    note cl = chunk_length[OF B(1) j]
    note enc = encoded_shards[OF assms(1) cl(2)]
    have k': "k < length (encoded Split Enc e ?c)" using k enc(2) assms(2) by (simp add: drives_def erasure_ok_def)
    have o: "object_shards Split Enc e src k ! j = encoded Split Enc e ?c ! k" using j by (simp add: object_shards_def)
    have len: "int (length (encoded Split Enc e ?c ! k)) = ceilFrac (int (length ?c)) ?D" using enc(3) k' by simp
    have "0 < int (length (encoded Split Enc e ?c ! k))" unfolding len by (rule ceil_pos) (use cl(2) in simp)
    moreover have "ceilFrac (int (length ?c)) ?D = (if Suc j < ?N then ?s else fileSize - int j * ?s)"
    proof (cases "Suc j < ?N")
      case True
      then show ?thesis using cl(3) s by simp
    next
      case False
      then have "j = ?N - 1" using j by simp
      then have "length ?c = ?r" using cl(1) r by simp
      then show ?thesis using False fs \<open>j = ?N - 1\<close> by simp
    qed
    ultimately show ?thesis unfolding o using len by auto
  qed
  have "ceilFrac (int ?r) ?D \<le> ceilFrac (int ?B) ?D" by (rule ceilFrac_mono[OF _ _ D]) (use r(2) in \<open>simp_all only: of_nat_0_le_iff of_nat_le_iff\<close>)
  then have "fileSize - int (?N - 1) * ?s \<le> ?s" unfolding fs s[symmetric] by linarith
  moreover have "0 < ?s" unfolding s by (rule ceil_pos[OF B(1)])
  ultimately show ?thesis unfolding shard_layout_def using pos block by (simp add: object_shards_def del: One_nat_def of_nat_diff)
qed

text \<open>A block of the object from what a read gives of its shards.\<close>

lemma decode_block:
  assumes "rs_code Split Enc RD RC e" and "erasure_ok e" and "j < length (chunks (nat (er_blockSize e)) src)"
    and "length bufs = drives e" and "\<forall>k < length bufs. bufs ! k = [] \<or> bufs ! k = object_shards Split Enc e src k ! j"
    and "canDecode (er_dataBlocks e) bufs"
  defines "c \<equiv> chunks (nat (er_blockSize e)) src ! j"
  shows "\<exists>full. DecodeDataBlocks RD bufs = Inr full \<and> length full = drives e
      \<and> take (length c) (concat (take (nat (er_dataBlocks e)) full)) = c"
    and "RC bufs = Inr (encoded Split Enc e c)"
proof -
  have B: "0 < nat (er_blockSize e)" using assms(2) by (simp add: erasure_ok_def)
  have c: "c \<noteq> []" unfolding c_def by (rule chunk_length(2)[OF B assms(3)])
  note enc = encoded_shards[OF assms(1) c]
  have len: "length (encoded Split Enc e c) = drives e" using enc(2) assms(2) by (simp add: drives_def erasure_ok_def)
  have o: "object_shards Split Enc e src k ! j = encoded Split Enc e c ! k" for k using assms(3) by (simp add: object_shards_def c_def)
  have dm: "damaged e (encoded Split Enc e c) bufs"
    using assms(4-6) len o by (auto simp: damaged_def canDecode_def)
  show "RC bufs = Inr (encoded Split Enc e c)" by (rule enc(6)[OF dm])
  show "\<exists>full. DecodeDataBlocks RD bufs = Inr full \<and> length full = drives e
      \<and> take (length c) (concat (take (nat (er_dataBlocks e)) full)) = c"
  proof (cases "[] \<in> set bufs")
    case False
    then have "bufs = encoded Split Enc e c" using assms(4,5) len o by (intro nth_equalityI) (auto simp: in_set_conv_nth)
    then show ?thesis using decode_intact_unchanged[OF False] enc(4) len by simp
  next
    case True
    have cnt: "first_empty_count bufs = (if [] \<in> set bufs then 1 else 0)" for bufs by (induction bufs) auto
    obtain full where full: "RD bufs = Inr full" "length full = drives e"
      "take (nat (er_dataBlocks e)) full = take (nat (er_dataBlocks e)) (encoded Split Enc e c)"
      using enc(5)[OF dm] len by auto
    have "1 \<le> length (filter (\<lambda>b. b \<noteq> []) bufs)" using assms(2,6) by (simp add: canDecode_def erasure_ok_def)
    moreover have "length bufs \<noteq> 1 \<or> filter (\<lambda>b. b \<noteq> []) bufs = []" using True by (cases bufs) auto
    ultimately have "length bufs \<noteq> 1" by auto
    then have "DecodeDataBlocks RD bufs = RD bufs" using True by (simp add: DecodeDataBlocks_def cnt)
    then show ?thesis using full enc(4) by simp
  qed
qed

section \<open>What Decode hands out\<close>

lemma div_bounds: "0 < (B :: int) \<Longrightarrow> x div B * B \<le> x \<and> x < (x div B + 1) * B"
proof -
  assume "0 < B"
  then have "x div B * B + x mod B = x" "0 \<le> x mod B" "x mod B < B" by simp_all
  then show ?thesis unfolding distrib_right by linarith
qed

text \<open>The part of block \<open>j\<close> that lies between \<open>offset\<close> and \<open>offset + len\<close>.\<close>

lemma block_range_eq:
  assumes "0 < er_blockSize e" and "0 \<le> offset" and "0 < len"
    and "offset div er_blockSize e \<le> j" and "j \<le> (offset + len) div er_blockSize e"
  shows "block_range e offset len j = (max offset (j * er_blockSize e) - j * er_blockSize e,
    min (offset + len) ((j + 1) * er_blockSize e) - max offset (j * er_blockSize e))"
proof -
  let ?B = "er_blockSize e"
  let ?a = "offset div ?B" and ?z = "(offset + len) div ?B"
  note a = div_bounds[OF assms(1), of offset] and z = div_bounds[OF assms(1), of "offset + len"]
  have rem: "offset mod ?B = offset - ?a * ?B" "(offset + len) mod ?B = offset + len - ?z * ?B"
    by (simp_all add: minus_div_mult_eq_mod)
  have quo: "quo offset ?B = ?a" "quo (offset + len) ?B = ?z" "rem offset ?B = offset mod ?B" "rem (offset + len) ?B = (offset + len) mod ?B"
    using assms(1-3) by simp_all
  have mono: "j1 * ?B \<le> j2 * ?B" if "j1 \<le> j2" for j1 j2 using that assms(1) by (simp add: mult_right_mono)
  have max: "max offset (j * ?B) = (if j = ?a then offset else j * ?B)"
  proof (cases "j = ?a")
    case False
    then have "(?a + 1) * ?B \<le> j * ?B" using assms(4) by (intro mono) simp
    then show ?thesis using a False by (simp add: max_def)
  qed (use a in \<open>simp add: max_def\<close>)
  have min: "min (offset + len) ((j + 1) * ?B) = (if j = ?z then offset + len else (j + 1) * ?B)"
  proof (cases "j = ?z")
    case False
    then have "(j + 1) * ?B \<le> ?z * ?B" using assms(5) by (intro mono) simp
    then show ?thesis using z False by (simp add: min_def)
  qed (use z in \<open>simp add: min_def\<close>)
  show ?thesis
    unfolding block_range_def Let_def quo max min rem
    using assms(4,5) by (auto simp: distrib_right)
qed

text \<open>The same bytes in the block and in the range that was asked for.\<close>

lemma piece_of_block:
  assumes "0 \<le> offset" and "0 < B" and "int j * B \<le> lo" and "offset \<le> lo" and "lo \<le> hi" and "hi \<le> int j * B + B" and "hi \<le> offset + len"
  shows "take (nat (hi - lo)) (drop (nat (lo - int j * B)) (take (nat B) (drop (j * nat B) src)))
    = take (nat (hi - lo)) (drop (nat (lo - offset)) (take (nat len) (drop (nat offset) src)))"
proof -
  have jB: "int (nat (lo - int j * B) + j * nat B) = lo" using assms by simp
  have "nat (lo - int j * B) + j * nat B = nat lo" by (subst jB[symmetric]) (rule nat_int[symmetric])
  moreover have "nat (lo - offset) + nat offset = nat lo" using assms by simp
  moreover have "nat (hi - lo) \<le> nat B - nat (lo - int j * B)" "nat (hi - lo) \<le> nat len - nat (lo - offset)"
    using assms by linarith+
  ultimately show ?thesis by (simp add: drop_take min_absorb1)
qed

text \<open>What is written of a block whose data shards begin with \<open>c\<close>.\<close>

lemma block_written:
  assumes W: "sink W got" and wr: "writeDataBlocks W dst full (er_dataBlocks e) off left = (dst', n, err)"
    and c: "take (length c) (concat (take (nat (er_dataBlocks e)) full)) = c"
    and "0 \<le> off" and "0 \<le> left" and "er_dataBlocks e \<le> int (length full)" and "erasure_ok e" and "off + left \<le> int (length c)"
  shows "if err = None then n = left \<and> got dst' = got dst @ take (nat left) (drop (nat off) c)
    else (\<exists>m. got dst' = got dst @ take m (take (nat left) (drop (nat off) c)))"
proof -
  let ?X = "concat (take (nat (er_dataBlocks e)) full)"
  have X: "length c \<le> length ?X" using arg_cong[OF c, of length] by simp
  have "write_data_loop W dst (take (nat (er_dataBlocks e)) full) off left 0 = (dst', n, err)"
    using wr assms(4-8) X by (simp add: writeDataBlocks_def getDataBlockLen_eq)
  from write_data_loop_spec[OF W this assms(4,5)] have
    spec: "if err = None then n = 0 + left \<and> got dst' = got dst @ take (nat left) (drop (nat off) ?X)
      else (\<exists>m. got dst' = got dst @ take m (take (nat left) (drop (nat off) ?X)))"
    using assms(8) X by linarith
  have "take (nat left) (drop (nat off) (take (length c) ?X)) = take (nat left) (drop (nat off) ?X)"
    using assms(4,5,8) by (simp add: drop_take min_absorb1)
  then have "take (nat left) (drop (nat off) ?X) = take (nat left) (drop (nat off) c)" using c by simp
  then show ?thesis using spec unfolding add_0 by metis
qed

lemma decode_loop_step:
  assumes "block_range e offset len block = (off, left)" and "left \<noteq> 0" and "pr_Read R (scheds block) p = Some (p', bufs, rerr)"
    and "\<not> (bufs = [] \<and> rerr \<noteq> None)" and "DecodeDataBlocks RD bufs = Inr full"
    and "writeDataBlocks W dst full (er_dataBlocks e) off left = (dst1, n1, werr)"
  shows "decode_loop R W RD scheds e offset len (Suc togo) block p dst written derr =
    (case werr of Some err \<Rightarrow> Some (dst1, pr_org p', -1, Some err)
     | None \<Rightarrow> decode_loop R W RD scheds e offset len togo (block + 1) p' dst1 (written + n1) (if bufs \<noteq> [] then keep_error derr rerr else derr))"
  using assms by (cases werr) (auto simp: Let_def)

context shard_reader begin

lemma decode_loop_sound:
  assumes code: "rs_code Split Enc RD RC e" and e: "erasure_ok e" and s: "s = Erasure_ShardSize e"
    and W: "sink W got" and range: "0 \<le> offset" "0 < len" "offset + len \<le> int (length src)"
    and fs: "Erasure_ShardFileSize e (int (length src)) = Inr fileSize"
  defines "B \<equiv> er_blockSize e" and "N \<equiv> length (chunks (nat (er_blockSize e)) src)"
    and "want \<equiv> take (nat len) (drop (nat offset) src)"
  shows "offset div B \<le> int j \<Longrightarrow> int j + int togo = (offset + len) div B + 1
    \<Longrightarrow> (j < N \<longrightarrow> at_block fileSize N (object_shards Split Enc e src) p j) \<Longrightarrow> length (pr_readers p) = drives e \<Longrightarrow> pr_dataBlocks p = er_dataBlocks e
    \<Longrightarrow> written = min (offset + len) (max offset (int j * B)) - offset
    \<Longrightarrow> got dst = got0 @ take (nat written) want \<Longrightarrow> derr = None \<or> derr = Some ErrFileNotFound \<or> derr = Some ErrFileCorrupt
    \<Longrightarrow> decode_loop R W RD scheds e offset len togo (int j) p dst written derr = Some (dst', org, n, err)
    \<Longrightarrow> (n = len \<and> (err = None \<or> err = Some ErrFileNotFound \<or> err = Some ErrFileCorrupt) \<and> got dst' = got0 @ want)
      \<or> (n = -1 \<and> err \<noteq> None \<and> (\<exists>m. got dst' = got0 @ take m want))"
proof (induction togo arbitrary: j p dst written derr)
  case 0
  have B: "0 < B" using e by (simp add: B_def erasure_ok_def)
  have "int j = (offset + len) div B + 1" using 0 by simp
  then have "offset + len \<le> int j * B" using div_bounds[OF B, of "offset + len"] by simp
  then have w: "written = len" using 0 range by simp
  have "length want = nat len" using range by (simp add: want_def)
  then show ?case using 0 w by (auto simp: decode_end_def)
next
  case (Suc togo)
  have B: "0 < B" using e by (simp add: B_def erasure_ok_def)
  have jz: "int j \<le> (offset + len) div B" using Suc.prems(2) by simp
  let ?lo = "max offset (int j * B)" and ?hi = "min (offset + len) ((int j + 1) * B)"
  have br: "block_range e offset len (int j) = (?lo - int j * B, ?hi - ?lo)"
    using block_range_eq[of e offset len "int j"] B range Suc.prems(1) jz by (simp add: B_def)
  have jB: "int j * B \<le> offset + len"
    using jz div_bounds[OF B, of "offset + len"] B mult_right_mono[OF jz, of B] by linarith
  have lo: "?lo \<le> offset + len" using jB range by simp
  have wlo: "written = ?lo - offset" using Suc.prems(6) lo by simp
  have wl: "length want = nat len" using range by (simp add: want_def)
  have aB: "offset < (int j + 1) * B"
    using div_bounds[OF B, of offset] mult_right_mono[of "offset div B + 1" "int j + 1" B] Suc.prems(1) B by linarith
  show ?case
  proof (cases "?hi - ?lo = 0")
    case True
    then have "?lo = offset + len" using lo aB B by (auto simp: distrib_right max_def min_def split: if_splits)
    then have "written = len" using wlo by simp
    moreover have "Some (decode_end p dst len written derr) = Some (dst', org, n, err)" using Suc.prems(9) br True by simp
    ultimately show ?thesis using Suc.prems(7,8) wl by (auto simp: decode_end_def)
  next
    case False
    have hi: "?lo < ?hi" using False lo aB B by (auto simp: distrib_right max_def min_def split: if_splits)
    then have "int j * B < int (length src)" using range by linarith
    moreover have "B = int (nat B)" using B by simp
    ultimately have "int (j * nat B) < int (length src)" by (metis of_nat_mult)
    then have jsrc: "j * nat B < length src" by (simp only: of_nat_less_iff)
    have nB: "0 < nat (er_blockSize e)" using B by (simp add: B_def)
    have jN: "j < N" using chunks_less[OF nB, of j src] jsrc by (simp only: N_def B_def)
    have at: "at_block fileSize N (object_shards Split Enc e src) p j" using Suc.prems(3) jN by blast
    let ?c = "chunks (nat (er_blockSize e)) src ! j"
    obtain p' bufs rerr where rd: "pr_Read R (scheds (int j)) p = Some (p', bufs, rerr)"
      using Suc.prems(9) br False by (auto split: option.splits)
    note rb = read_block_sound[OF at jN rd]
    show ?thesis
    proof (cases "bufs = [] \<and> rerr \<noteq> None")
      case True
      then have "Some (dst, pr_org p', -1 :: int, rerr) = Some (dst', org, n, err)"
        using Suc.prems(9) unfolding decode_loop.simps br rd using False by simp
      then show ?thesis using Suc.prems(7) True by auto
    next
      case go: False
      then have bufs: "length bufs = drives e" "\<forall>k < length bufs. bufs ! k = [] \<or> bufs ! k = object_shards Split Enc e src k ! j"
        "canDecode (er_dataBlocks e) bufs" "rerr = None \<or> rerr = Some ErrFileNotFound \<or> rerr = Some ErrFileCorrupt"
        "Suc j < N \<longrightarrow> at_block fileSize N (object_shards Split Enc e src) p' (Suc j)"
        using rb(1) Suc.prems(4,5) by auto
      obtain full where full: "DecodeDataBlocks RD bufs = Inr full" "length full = drives e"
        "take (length ?c) (concat (take (nat (er_dataBlocks e)) full)) = ?c"
        using decode_block(1)[OF code e _ bufs(1-3)] jN unfolding N_def by blast
      obtain dst1 n1 werr where wr: "writeDataBlocks W dst full (er_dataBlocks e) (?lo - int j * B) (?hi - ?lo) = (dst1, n1, werr)"
        by (metis prod_cases3)
      have c: "?c = take (nat B) (drop (j * nat B) src)" using chunks_nth[OF nB] jN by (simp add: N_def B_def)
      have piece: "take (nat (?hi - ?lo)) (drop (nat (?lo - int j * B)) ?c) = take (nat (?hi - ?lo)) (drop (nat written) want)"
        unfolding c want_def wlo by (rule piece_of_block) (use hi range B in \<open>auto simp: distrib_right\<close>)
      have "int (length src - j * nat B) = int (length src) - int j * B" using jsrc B by (simp add: of_nat_diff)
      then have cl: "int (length ?c) = min B (int (length src) - int j * B)" using c B by (simp add: of_nat_min min.commute)
      have fits: "?hi - int j * B \<le> int (length ?c)"
        using range B unfolding cl by (auto simp: distrib_right min_def)
      note wb = block_written[OF W wr full(3) _ _ _ e, unfolded piece]
      have written1: "if werr = None then n1 = ?hi - ?lo \<and> got dst1 = got dst @ take (nat (?hi - ?lo)) (drop (nat written) want)
          else (\<exists>m. got dst1 = got dst @ take m (take (nat (?hi - ?lo)) (drop (nat written) want)))"
        by (rule wb) (use full(2) hi fits e in \<open>auto simp: drives_def erasure_ok_def\<close>)
      note step = decode_loop_step[OF br False, of R scheds p p' bufs rerr, OF rd go full(1) wr]
      have w0: "0 \<le> written" unfolding wlo by simp
      show ?thesis
      proof (cases werr)
        case None
        have n1: "n1 = ?hi - ?lo" and g1: "got dst1 = got dst @ take (nat (?hi - ?lo)) (drop (nat written) want)"
          using written1 None by simp_all
        have loop: "decode_loop R W RD scheds e offset len togo (int (Suc j)) p' dst1 (written + n1) (if bufs \<noteq> [] then keep_error derr rerr else derr)
            = Some (dst', org, n, err)"
          using Suc.prems(9) unfolding step None by (simp add: add.commute)
        have g: "got dst1 = got0 @ take (nat (written + n1)) want"
          using Suc.prems(7) g1 w0 hi by (simp add: n1 nat_add_distrib take_add)
        have w1: "written + n1 = min (offset + len) (max offset (int (Suc j) * B)) - offset"
          using aB unfolding n1 wlo by (simp add: max_def add.commute distrib_right)
        have derr: "(if bufs \<noteq> [] then keep_error derr rerr else derr) = None \<or> (if bufs \<noteq> [] then keep_error derr rerr else derr) = Some ErrFileNotFound
            \<or> (if bufs \<noteq> [] then keep_error derr rerr else derr) = Some ErrFileCorrupt"
          using Suc.prems(8) bufs(4) by (auto simp: keep_error_def)
        have len': "length (pr_readers p') = drives e" "pr_dataBlocks p' = er_dataBlocks e" using rb(2) Suc.prems(4,5) by simp_all
        show ?thesis
          by (rule Suc.IH[OF _ _ _ len' w1 g derr loop]) (use Suc.prems(1,2) bufs(5) in auto)
      next
        case (Some we)
        then obtain m where m: "got dst1 = got dst @ take m (take (nat (?hi - ?lo)) (drop (nat written) want))" using written1 by auto
        have "got dst1 = got0 @ take (nat written + min m (nat (?hi - ?lo))) want"
          using Suc.prems(7) m by (simp add: take_add)
        moreover have "Some (dst1, pr_org p', -1 :: int, Some we) = Some (dst', org, n, err)"
          using Suc.prems(9) unfolding step Some by simp
        ultimately show ?thesis by blast
      qed
    qed
  qed
qed

text \<open>The reader that \<open>Decode\<close> and \<open>Heal\<close> start with.\<close>

lemma start_at_block:
  assumes "rs_code Split Enc RD RC e" and e: "erasure_ok e" and "s = Erasure_ShardSize e" and "src \<noteq> []" and "0 \<le> offset"
    and "length readers = drives e" and "\<And>i r. i < drives e \<Longrightarrow> readers ! i = Some r \<Longrightarrow> serves r (object_shards Split Enc e src i)"
    and fs: "Erasure_ShardFileSize e (int (length src)) = Inr fileSize"
    and p: "newParallelReader readers e offset (int (length src)) = Inr p0" and "p = (if c then preferReaders pf p0 else p0)"
  shows "at_block fileSize (length (chunks (nat (er_blockSize e)) src)) (object_shards Split Enc e src) p (nat (offset div er_blockSize e))"
    and "length (pr_readers p) = drives e" and "pr_dataBlocks p = er_dataBlocks e"
    and "paired readers (pr_readers p) (pr_readerToBuf p)"
proof -
  have p0: "p0 = \<lparr>pr_readers = readers, pr_org = map (\<lambda>r. r \<noteq> None) readers, pr_dataBlocks = er_dataBlocks e,
      pr_offset = quo offset (er_blockSize e) * Erasure_ShardSize e, pr_shardSize = Erasure_ShardSize e,
      pr_shardFileSize = fileSize, pr_readerToBuf = [0..<length readers]\<rparr>"
    using p fs e by (auto simp: newParallelReader_def erasure_ok_def split: if_splits)
  have pf: "pr_org p = pr_org p0" "pr_dataBlocks p = pr_dataBlocks p0" "pr_offset p = pr_offset p0" "pr_shardSize p = pr_shardSize p0"
    "pr_shardFileSize p = pr_shardFileSize p0"
    by (auto simp: assms(10) preferReaders_def split: prod.splits)
  have "paired readers (pr_readers p0) (pr_readerToBuf p0)" by (simp add: p0 paired_def)
  then show pr: "paired readers (pr_readers p) (pr_readerToBuf p)"
    using pairs_preferred[OF p, of pf] by (simp add: assms(10))
  then show len: "length (pr_readers p) = drives e" using assms(6) by (simp add: paired_def)
  show db: "pr_dataBlocks p = er_dataBlocks e" using pf(2) by (simp add: p0)
  have D: "er_dataBlocks e \<le> int (drives e)" "0 < er_dataBlocks e" using e by (auto simp: drives_def erasure_ok_def)
  have ok: "pr_ok p"
    using pr len db D pf(1) assms(6) by (auto simp: pr_ok_def paired_def p0)
  have "quo offset (er_blockSize e) = int (nat (offset div er_blockSize e))"
    using assms(5) e by (simp add: erasure_ok_def pos_imp_zdiv_nonneg_iff)
  then have "pr_offset p = int (nat (offset div er_blockSize e)) * s" using pf(3) assms(3) by (simp add: p0)
  moreover have "pr_shardSize p = s" "pr_shardFileSize p = fileSize" using pf(4,5) assms(3) by (simp_all add: p0)
  moreover have "serves r (object_shards Split Enc e src (pr_readerToBuf p ! i))" if "i < drives e" "pr_readers p ! i = Some r" for i r
  proof -
    have "pr_readerToBuf p ! i < drives e" using buf_index_lt[OF ok, of i] that(1) len by simp
    moreover have "readers ! (pr_readerToBuf p ! i) = Some r" using pr that assms(6) by (simp add: paired_def)
    ultimately show ?thesis using assms(7) by blast
  qed
  ultimately show "at_block fileSize (length (chunks (nat (er_blockSize e)) src)) (object_shards Split Enc e src) p (nat (offset div er_blockSize e))"
    using ok object_layout[OF assms(1) e assms(4) fs] unfolding assms(3)[symmetric] at_block_def len by blast
qed

lemma decode_starts:
  assumes code: "rs_code Split Enc RD RC e" and e: "erasure_ok e" and s: "s = Erasure_ShardSize e"
    and range: "0 \<le> offset" "0 < len" "offset + len \<le> int (length src)"
    and readers: "length readers = drives e" "\<And>i r. i < drives e \<Longrightarrow> readers ! i = Some r \<Longrightarrow> serves r (object_shards Split Enc e src i)"
  obtains fileSize p j togo where
    "at_block fileSize (length (chunks (nat (er_blockSize e)) src)) (object_shards Split Enc e src) p j"
    "int j = offset div er_blockSize e" "int j + int togo = (offset + len) div er_blockSize e + 1"
    "length (pr_readers p) = drives e" "pr_dataBlocks p = er_dataBlocks e" "paired readers (pr_readers p) (pr_readerToBuf p)"
    "Erasure_ShardFileSize e (int (length src)) = Inr fileSize"
    "\<forall>scheds. Decode R W RD scheds e dst readers offset len (int (length src)) pf
      = decode_loop R W RD scheds e offset len togo (int j) p dst 0 None"
proof -
  have src: "src \<noteq> []" using range by auto
  have B: "0 < er_blockSize e" using e by (simp add: erasure_ok_def)
  obtain fileSize where fs: "Erasure_ShardFileSize e (int (length src)) = Inr fileSize" using ShardFileSize_nat[OF e] by blast
  then obtain p0 where p0: "newParallelReader readers e offset (int (length src)) = Inr p0" using B by (simp add: newParallelReader_def)
  define p where "p = (if length pf = length readers then preferReaders pf p0 else p0)"
  note st = start_at_block[OF code e s src range(1) readers fs p0 p_def]
  let ?j = "nat (offset div er_blockSize e)" and ?togo = "nat ((offset + len) div er_blockSize e - offset div er_blockSize e + 1)"
  have j: "int ?j = offset div er_blockSize e" using range(1) B by (simp add: pos_imp_zdiv_nonneg_iff)
  have le: "offset div er_blockSize e \<le> (offset + len) div er_blockSize e" using B range(2) by (simp add: zdiv_mono1)
  have "int ?j + int ?togo = (offset + len) div er_blockSize e + 1" using le unfolding j by simp
  moreover have "Decode R W RD scheds e dst readers offset len (int (length src)) pf
      = decode_loop R W RD scheds e offset len ?togo (int ?j) p dst 0 None" for scheds
    using range p0 B unfolding j by (simp add: Decode_def Let_def p_def)
  ultimately show thesis using that[OF st(1) j _ st(2,3,4) fs] by blast
qed

lemma decode_sound:
  assumes code: "rs_code Split Enc RD RC e" and e: "erasure_ok e" and s: "s = Erasure_ShardSize e"
    and W: "sink W got" and range: "0 \<le> offset" "0 \<le> len" "offset + len \<le> int (length src)"
    and readers: "length readers = drives e" "\<And>i r. i < drives e \<Longrightarrow> readers ! i = Some r \<Longrightarrow> serves r (object_shards Split Enc e src i)"
    and d: "Decode R W RD scheds e dst readers offset len (int (length src)) pf = Some (dst', org, n, err)"
  defines "want \<equiv> take (nat len) (drop (nat offset) src)"
  shows "(n = len \<and> (err = None \<or> err = Some ErrFileNotFound \<or> err = Some ErrFileCorrupt) \<and> got dst' = got dst @ want)
      \<or> (n = -1 \<and> err \<noteq> None \<and> (\<exists>m. got dst' = got dst @ take m want))"
proof (cases "len = 0")
  case True
  then show ?thesis using d range by (auto simp: Decode_def Let_def want_def)
next
  case False
  then have len: "0 < len" using range by simp
  have B: "0 < er_blockSize e" using e by (simp add: erasure_ok_def)
  obtain fileSize p j togo where st: "at_block fileSize (length (chunks (nat (er_blockSize e)) src)) (object_shards Split Enc e src) p j"
    "int j = offset div er_blockSize e" "int j + int togo = (offset + len) div er_blockSize e + 1"
    "length (pr_readers p) = drives e" "pr_dataBlocks p = er_dataBlocks e"
    "Erasure_ShardFileSize e (int (length src)) = Inr fileSize"
    and dl: "\<forall>scheds. Decode R W RD scheds e dst readers offset len (int (length src)) pf
      = decode_loop R W RD scheds e offset len togo (int j) p dst 0 None"
    by (rule decode_starts[OF code e s range(1) len range(3) readers])
  have w: "0 = min (offset + len) (max offset (int j * er_blockSize e)) - offset"
    using div_bounds[OF B, of offset] len unfolding st(2) by (simp add: max_def min_def)
  show ?thesis unfolding want_def
    by (rule decode_loop_sound[OF code e s W range(1) len range(3) st(6) _ st(3) _ st(4,5) w _ _ d[unfolded dl[rule_format]]]) (use st(1,2) in auto)
qed

end

end
