(* ===== verification/Erasure_Live.thy ===== *)
theory Erasure_Live
  imports Erasure_Decode
begin

text \<open>
  As long as enough readers can be read, \<open>Decode\<close> does not fail: the readers that a read starts are a beginning of the
  list, and the beginning never gets shorter from block to block, so that every reader is asked for the blocks in
  their order.
\<close>

section \<open>What a read does to its readers\<close>

lemma fetch_reader:
  assumes "i < length (sh_readers sh)"
  shows "sh_readers (fetch R p i sh) ! i = (case sh_readers sh ! i of None \<Rightarrow> None
    | Some r \<Rightarrow> (case R r (pr_offset p) (pr_shardSize p) of (r', Inl e) \<Rightarrow> None | (r', Inr b) \<Rightarrow> Some r'))"
  using assms by (simp add: fetch_def read_one_def split: option.splits prod.splits sum.splits)

lemma fetch_all_reader:
  "distinct ds \<Longrightarrow> i \<in> set ds \<Longrightarrow> i < length (sh_readers sh) \<Longrightarrow> sh_readers (fetch_all R p ds sh) ! i = sh_readers (fetch R p i sh) ! i"
proof (induction ds arbitrary: sh)
  case (Cons d ds)
  show ?case
  proof (cases "i = d")
    case True
    then show ?thesis using Cons.prems by (simp add: fetch_all_readers)
  next
    case False
    then show ?thesis using Cons by (simp add: fetch_reader)
  qed
qed simp

lemma again_iff_gone:
  assumes "i < length (sh_readers sh)"
  shows "again R p sh i \<longleftrightarrow> sh_readers (fetch R p i sh) ! i = None"
  using assms by (auto simp: fetch_reader again_def read_one_def split: option.splits prod.splits sum.splits)

lemma delivering_card: "delivering R p sh [0..<x] = card {i. i < x \<and> \<not> again R p sh i}"
proof -
  have "delivering R p sh [0..<x] = card (set (filter (\<lambda>i. \<not> again R p sh i) [0..<x]))"
    unfolding delivering_def by (metis distinct_card distinct_filter distinct_upt)
  also have "set (filter (\<lambda>i. \<not> again R p sh i) [0..<x]) = {i. i < x \<and> \<not> again R p sh i}" by auto
  finally show ?thesis .
qed

section \<open>Ranges and destinations\<close>

lemma block_range_fits:
  assumes "erasure_ok e" and range: "0 \<le> offset" "0 < len" "offset + len \<le> int (length src)"
    and "offset div er_blockSize e \<le> int j" and "int j \<le> (offset + len) div er_blockSize e"
    and "block_range e offset len (int j) = (off, left)" and "left \<noteq> 0"
  shows "j < length (chunks (nat (er_blockSize e)) src)" and "0 \<le> off" and "0 \<le> left"
    and "off + left \<le> int (length (chunks (nat (er_blockSize e)) src ! j))"
proof -
  let ?B = "er_blockSize e"
  let ?lo = "max offset (int j * ?B)" and ?hi = "min (offset + len) ((int j + 1) * ?B)"
  have B: "0 < ?B" using assms(1) by (simp add: erasure_ok_def)
  have br: "off = ?lo - int j * ?B" "left = ?hi - ?lo"
    using block_range_eq[OF B range(1,2) assms(5,6)] assms(7) by simp_all
  have "int j * ?B \<le> offset + len"
    using assms(6) div_bounds[OF B, of "offset + len"] mult_right_mono[OF assms(6), of ?B] B by linarith
  moreover have "offset < (int j + 1) * ?B"
    using div_bounds[OF B, of offset] mult_right_mono[of "offset div ?B + 1" "int j + 1" ?B] assms(5) B by linarith
  ultimately have le: "?lo \<le> ?hi" using range B by (auto simp: distrib_right max_def min_def)
  then have less: "?lo < ?hi" using assms(8) unfolding br(2) by linarith
  then have "int j * ?B < int (length src)" using range by linarith
  moreover have nB: "0 < nat ?B" "?B = int (nat ?B)" using B by simp_all
  ultimately have "int (j * nat ?B) < int (length src)" by (metis of_nat_mult)
  then have jsrc: "j * nat ?B < length src" by (simp only: of_nat_less_iff)
  then show j: "j < length (chunks (nat ?B) src)" using chunks_less[OF nB(1)] by blast
  show "0 \<le> off" "0 \<le> left" using br le by simp_all
  have "int (length src - j * nat ?B) = int (length src) - int j * ?B" using jsrc B by (simp add: of_nat_diff)
  then have "int (length (chunks (nat ?B) src ! j)) = min ?B (int (length src) - int j * ?B)"
    using chunk_length(1)[OF nB(1) j] B by (simp add: of_nat_min)
  then show "off + left \<le> int (length (chunks (nat ?B) src ! j))"
    using range br by (auto simp: distrib_right min_def)
qed

definition never_fails :: "'w Writer \<Rightarrow> bool" where
  "never_fails W \<longleftrightarrow> (\<forall>w b. \<exists>w'. W w b = (w', int (length b), None))"

lemma write_data_loop_total:
  assumes "never_fails W"
  shows "\<exists>dst' n. write_data_loop W dst blocks offset left written = (dst', n, None)"
proof (induction blocks arbitrary: dst offset left written)
  case (Cons block blocks)
  obtain w1 where "W dst (drop (nat offset) block) = (w1, int (length (drop (nat offset) block)), None)" using assms unfolding never_fails_def by blast
  moreover obtain w2 where "W dst (take (nat left) (drop (nat offset) block)) = (w2, int (length (take (nat left) (drop (nat offset) block))), None)"
    using assms unfolding never_fails_def by blast
  ultimately show ?case using Cons by (auto simp: Let_def)
qed simp

lemma block_written_total:
  assumes total: "never_fails W" and W: "sink W got"
    and c: "take (length c) (concat (take (nat (er_dataBlocks e)) full)) = c"
    and pos: "0 \<le> off" "0 \<le> left" and full: "length full = drives e" and e: "erasure_ok e" and fits: "off + left \<le> int (length c)"
  shows "\<exists>dst'. writeDataBlocks W dst full (er_dataBlocks e) off left = (dst', left, None)"
proof -
  have D: "er_dataBlocks e \<le> int (length full)" using full e by (auto simp: drives_def erasure_ok_def)
  obtain dst' n err where wr: "writeDataBlocks W dst full (er_dataBlocks e) off left = (dst', n, err)" by (metis prod_cases3)
  have X: "length c \<le> length (concat (take (nat (er_dataBlocks e)) full))" using arg_cong[OF c, of length] by simp
  then have "left \<le> getDataBlockLen full (er_dataBlocks e)" using fits pos by (simp add: getDataBlockLen_eq)
  moreover obtain d k where "write_data_loop W dst (take (nat (er_dataBlocks e)) full) off left 0 = (d, k, None)"
    using write_data_loop_total[OF total] by blast
  ultimately have "err = None" using wr pos D by (simp add: writeDataBlocks_def)
  then show ?thesis using block_written[OF W wr c pos D e fits] wr by auto
qed

section \<open>Schedules that bring a read to its end\<close>

lemma read_run_can_end:
  assumes "fills R" and "pr_ok p" and "0 < pr_shardSize p"
  shows "read_inv R p (read_start p) ds s \<Longrightarrow> \<exists>sched s'. read_run R p sched s = Some s' \<and> read_final s'"
proof (induction "read_measure p s" arbitrary: ds s rule: less_induct)
  case less
  show ?case
  proof (cases "read_final s")
    case True
    then show ?thesis by (intro exI[of _ "[]"]) simp
  next
    case False
    then obtain l s1 where s1: "read_step R p s l = Some s1" using read_progress[OF assms(2) less.prems] by blast
    have "\<exists>es. read_inv R p (read_start p) es s1"
      using read_step_main[OF assms less.prems] read_step_done[OF less.prems] read_step_send[OF less.prems] s1 by (cases l) blast+
    then obtain sched s' where "read_run R p sched s1 = Some s'" "read_final s'"
      using less.hyps[OF read_step_measure[OF less.prems s1]] by blast
    then show ?thesis using s1 by (intro exI[of _ "l # sched"]) simp
  qed
qed

lemma decode_loop_schedules:
  "(\<And>b. block \<le> b \<Longrightarrow> scheds b = scheds' b) \<Longrightarrow>
   decode_loop R W RD scheds e offset len togo block p dst written derr = decode_loop R W RD scheds' e offset len togo block p dst written derr"
proof (induction togo arbitrary: block p dst written derr)
  case (Suc togo)
  have s: "scheds block = scheds' block" by (rule Suc.prems) simp
  have IH: "decode_loop R W RD scheds e offset len togo (block + 1) p dst written derr
      = decode_loop R W RD scheds' e offset len togo (block + 1) p dst written derr" for p dst written derr
    by (rule Suc.IH) (use Suc.prems in simp)
  show ?case unfolding decode_loop.simps s IH ..
qed simp

context shard_reader begin

lemma read_block_returns:
  assumes "at_block fileSize N shards p j" and "j < N"
  shows "\<exists>sched res. pr_Read R sched p = Some res"
proof -
  let ?p0 = "p\<lparr>pr_shardSize := block_size s fileSize N j\<rparr>"
  have ok: "pr_ok p" and l: "shard_layout (length (pr_readers p)) s fileSize N shards"
    using assms(1) by (simp_all add: at_block_def)
  have n: "0 < length (pr_readers p)" using ok by (auto simp: pr_ok_def)
  have p0: "last_shard p = ?p0" by (rule last_shard_size[OF l assms(2) n]) (use assms(1) in \<open>simp_all add: at_block_def\<close>)
  have ok0: "pr_ok ?p0" using ok by (simp add: pr_ok_def)
  have pos: "0 < pr_shardSize ?p0" using shard_layoutD(4)[OF l assms(2) n] by simp
  have nd: "\<not> int (length (pr_readers ?p0)) < pr_dataBlocks ?p0" using ok0 by (simp add: pr_ok_def)
  obtain sched s' where "read_run R ?p0 sched (read_init ?p0) = Some s'" "read_final s'"
    using read_run_can_end[OF fills ok0 pos read_inv_init[OF ok0]] by blast
  then have "pr_Read R sched p = Some (read_result ?p0 (rs_shared s'))" using pos nd by (simp add: pr_Read_def Let_def p0)
  then show ?thesis by blast
qed

lemma decode_loop_returns:
  assumes e: "erasure_ok e" and range: "0 \<le> offset" "0 < len" "offset + len \<le> int (length src)"
  defines "B \<equiv> er_blockSize e" and "N \<equiv> length (chunks (nat (er_blockSize e)) src)"
  shows "offset div B \<le> int j \<Longrightarrow> int j + int togo = (offset + len) div B + 1 \<Longrightarrow> (j < N \<longrightarrow> at_block fileSize N shards p j)
    \<Longrightarrow> \<exists>scheds res. decode_loop R W RD scheds e offset len togo (int j) p dst written derr = Some res"
proof (induction togo arbitrary: j p dst written derr)
  case (Suc togo)
  obtain off left where br: "block_range e offset len (int j) = (off, left)" by fastforce
  show ?case
  proof (cases "left = 0")
    case True
    then show ?thesis using br by (simp add: decode_end_def)
  next
    case False
    have j: "j < N" using block_range_fits(1)[OF e range _ _ br False] Suc.prems(1,2) unfolding N_def B_def by simp
    then have at: "at_block fileSize N shards p j" using Suc.prems(3) by blast
    obtain sched p' bufs rerr where rd: "pr_Read R sched p = Some (p', bufs, rerr)"
      using read_block_returns[OF at j] by (metis prod_cases3)
    show ?thesis
    proof (cases "bufs = [] \<and> rerr \<noteq> None")
      case True
      then show ?thesis using br False rd by (intro exI[of _ "\<lambda>_. sched"]) auto
    next
      case go: False
      then have at': "Suc j < N \<longrightarrow> at_block fileSize N shards p' (Suc j)" using read_block_sound(1)[OF at j rd] by auto
      show ?thesis
      proof (cases "DecodeDataBlocks RD bufs")
        case (Inl err)
        then show ?thesis using br False rd go by (intro exI[of _ "\<lambda>_. sched"]) (auto simp: Let_def)
      next
        case (Inr full)
        obtain dst1 n1 werr where wr: "writeDataBlocks W dst full (er_dataBlocks e) off left = (dst1, n1, werr)" by (metis prod_cases3)
        let ?derr = "if bufs \<noteq> [] then keep_error derr rerr else derr"
        from Suc.IH[OF _ _ at', of dst1 "written + n1" ?derr] Suc.prems(1,2) obtain scheds res where
          rest: "decode_loop R W RD scheds e offset len togo (int j + 1) p' dst1 (written + n1) ?derr = Some res" by (auto simp: add.commute)
        let ?scheds = "scheds(int j := sched)"
        have rd': "pr_Read R (?scheds (int j)) p = Some (p', bufs, rerr)" using rd by simp
        have "decode_loop R W RD ?scheds e offset len togo (int j + 1) p' dst1 (written + n1) ?derr = Some res"
          unfolding rest[symmetric] by (rule decode_loop_schedules) simp
        then have "\<exists>res. decode_loop R W RD ?scheds e offset len (Suc togo) (int j) p dst written derr = Some res"
          unfolding decode_loop_step[OF br False, of R ?scheds p p' bufs rerr, OF rd' go Inr wr] by (cases werr) (simp_all del: split_paired_Ex)
        then show ?thesis by blast
      qed
    qed
  qed
qed (simp add: decode_end_def)

lemma decode_returns:
  assumes code: "rs_code Split Enc RD RC e" and e: "erasure_ok e" and s: "s = Erasure_ShardSize e"
    and readers: "length readers = drives e" "\<And>i r. i < drives e \<Longrightarrow> readers ! i = Some r \<Longrightarrow> serves r (object_shards Split Enc e src i)"
  shows "\<exists>scheds res. Decode R W RD scheds e dst readers offset len (int (length src)) pf = Some res"
proof (cases "0 \<le> offset \<and> 0 < len \<and> offset + len \<le> int (length src)")
  case True
  then have range: "0 \<le> offset" "0 < len" "offset + len \<le> int (length src)" by auto
  obtain fileSize p j togo where st: "at_block fileSize (length (chunks (nat (er_blockSize e)) src)) (object_shards Split Enc e src) p j"
    "int j = offset div er_blockSize e" "int j + int togo = (offset + len) div er_blockSize e + 1"
    and d: "\<forall>scheds. Decode R W RD scheds e dst readers offset len (int (length src)) pf
      = decode_loop R W RD scheds e offset len togo (int j) p dst 0 None"
    by (rule decode_starts[OF code e s range readers])
  show ?thesis unfolding d[rule_format]
    by (rule decode_loop_returns[OF e range _ st(3) impI[OF st(1)]]) (simp add: st(2))
qed (auto simp: Decode_def Let_def)

end

section \<open>Readers that can be read\<close>

text \<open>A reader is \<open>ready\<close> for a block if it will deliver this one and the following ones up to a bound, one after
  the other; a \<open>fresh\<close> one is ready for any block.\<close>

locale live_reader = shard_reader R s serves for R :: "'r ReadAt" and s serves +
  fixes ready :: "'r \<Rightarrow> byte list list \<Rightarrow> nat \<Rightarrow> bool" and fresh :: "'r \<Rightarrow> byte list list \<Rightarrow> bool" and bound :: nat
  assumes ready_block: "ready r bs k \<Longrightarrow> k < length bs \<Longrightarrow> k < bound \<Longrightarrow> \<exists>r'. R r (int k * s) (int (length (bs ! k))) = (r', Inr (bs ! k)) \<and> ready r' bs (Suc k)"
    and fresh_ready: "fresh r bs \<Longrightarrow> k < length bs \<Longrightarrow> k < bound \<Longrightarrow> ready r bs k"
begin

text \<open>The readers \<open>L\<close> are alive; of the first \<open>m\<close> readers all have been asked, but no shorter beginning was enough.\<close>

definition live_at :: "nat set \<Rightarrow> (nat \<Rightarrow> byte list list) \<Rightarrow> 'r parallelReader \<Rightarrow> nat \<Rightarrow> nat \<Rightarrow> bool" where
  "live_at L shards p j m \<longleftrightarrow> L \<subseteq> {i. i < length (pr_readers p)} \<and> pr_dataBlocks p \<le> int (card L)
     \<and> (\<forall>i \<in> L. \<exists>r. pr_readers p ! i = Some r
          \<and> (if i < m then ready r (shards (pr_readerToBuf p ! i)) j else fresh r (shards (pr_readerToBuf p ! i))))
     \<and> (\<forall>x < m. int (card {i. i < x \<and> pr_readers p ! i \<noteq> None}) < pr_dataBlocks p)"

lemma read_block_live:
  assumes "at_block fileSize N shards p j" and "j < N" and "live_at L shards p j m" and jb: "j < bound" and "pr_Read R sched p = Some (p', bufs, err)"
  shows "canDecode (pr_dataBlocks p) bufs \<and> bufs \<noteq> [] \<and> (\<exists>m'. live_at L shards p' (Suc j) m')"
proof -
  let ?p0 = "p\<lparr>pr_shardSize := block_size s fileSize N j\<rparr>"
  let ?n = "length (pr_readers p)"
  obtain m' sh where st: "started R ?p0 (read_start ?p0) m'" and sh: "sh = fetch_all R ?p0 [0..<m'] (read_start ?p0)"
    and res: "(p', bufs, err) = read_result ?p0 sh" and m': "m' \<le> ?n"
    using read_block[OF assms(1,2,5)] by blast
  have ok: "pr_ok p" and l: "shard_layout ?n s fileSize N shards" and off: "pr_offset p = int j * s"
    using assms(1) by (simp_all add: at_block_def)
  have n: "0 < ?n" using ok by (auto simp: pr_ok_def)
  have pos: "0 < block_size s fileSize N j" by (rule shard_layoutD(4)[OF l assms(2) n])
  have L: "L \<subseteq> {i. i < ?n}" "pr_dataBlocks p \<le> int (card L)" using assms(3) by (simp_all add: live_at_def)
  let ?sh0 = "read_start ?p0"
  have reads: "\<exists>r'. sh_readers (fetch R ?p0 i ?sh0) ! i = Some r' \<and> ready r' (shards (pr_readerToBuf p ! i)) (Suc j)" if iL: "i \<in> L" for i
  proof -
    let ?bs = "shards (pr_readerToBuf p ! i)"
    have i: "i < ?n" using iL L by auto
    note k = buf_index_lt[OF ok i]
    have bs: "j < length ?bs" "int (length (?bs ! j)) = block_size s fileSize N j"
      using shard_layoutD(1,3)[OF l assms(2) k] assms(2) by simp_all
    obtain r where r: "pr_readers p ! i = Some r" "ready r ?bs j"
      using assms(3) iL fresh_ready[OF _ bs(1) jb] by (auto simp: live_at_def split: if_splits)
    from ready_block[OF r(2) bs(1) jb] show ?thesis using r(1) i off bs(2) by (auto simp: fetch_reader)
  qed
  have live: "\<not> again R ?p0 ?sh0 i" if "i \<in> L" for i
    using reads[OF that] that L again_iff_gone[of i ?sh0 R ?p0] by auto
  have del: "delivering R ?p0 ?sh0 [0..<x] \<le> card {i. i < x \<and> pr_readers p ! i \<noteq> None}" for x
    unfolding delivering_card by (rule card_mono) (auto simp: again_def read_one_def split: option.splits)
  have mono: "m \<le> m'"
  proof (rule ccontr)
    assume "\<not> m \<le> m'"
    then have less: "int (card {i. i < m' \<and> pr_readers p ! i \<noteq> None}) < pr_dataBlocks p" using assms(3) by (auto simp: live_at_def)
    then have "int (delivering R ?p0 ?sh0 [0..<m']) < pr_dataBlocks p" using del[of m'] by linarith
    then have m'n: "m' = ?n" using st by (auto simp: started_def)
    have "card L \<le> card {i. i < ?n \<and> pr_readers p ! i \<noteq> None}"
      by (rule card_mono) (use assms(3) L in \<open>auto simp: live_at_def\<close>)
    then show False using less L(2) m'n by simp
  qed
  have enough: "pr_dataBlocks p \<le> int (delivering R ?p0 ?sh0 [0..<m'])"
  proof (cases "m' = ?n")
    case True
    have "card L \<le> delivering R ?p0 ?sh0 [0..<m']" unfolding delivering_card True
      by (rule card_mono) (use L live in auto)
    then show ?thesis using L(2) by linarith
  qed (use st in \<open>auto simp: started_def\<close>)
  have "length (filter (\<lambda>b. b \<noteq> []) (sh_newBuf sh)) = length (filter (\<lambda>i. \<not> again R ?p0 ?sh0 i) [0..<m'])"
    unfolding sh by (rule canDecode_fetch_all[OF fills]) (use ok pos m' in \<open>auto simp: pr_ok_def\<close>)
  then have can: "canDecode (pr_dataBlocks p) (sh_newBuf sh)" using enough by (simp add: canDecode_def delivering_def)
  have "length (sh_newBuf sh) = ?n" by (simp add: sh)
  then have ne: "sh_newBuf sh \<noteq> []" using n by auto
  have r: "bufs = sh_newBuf sh" "pr_readers p' = sh_readers sh" "pr_dataBlocks p' = pr_dataBlocks p" "pr_readerToBuf p' = pr_readerToBuf p"
    using res can by (auto simp: read_result_def Let_def)
  have after: "pr_readers p' ! i = (if i < m' then sh_readers (fetch R ?p0 i ?sh0) ! i else pr_readers p ! i)" if "i < ?n" for i
    using that fetch_all_reader[of "[0..<m']" i ?sh0 R ?p0] fetch_all_readers[of i "[0..<m']" R ?p0 ?sh0] by (auto simp: r(2) sh)
  have "live_at L shards p' (Suc j) m'"
    unfolding live_at_def r(3,4)
  proof (intro conjI ballI allI impI)
    show "L \<subseteq> {i. i < length (pr_readers p')}" using L by (simp add: r(2) sh)
    show "\<exists>r. pr_readers p' ! i = Some r \<and> (if i < m' then ready r (shards (pr_readerToBuf p ! i)) (Suc j) else fresh r (shards (pr_readerToBuf p ! i)))"
      if "i \<in> L" for i
    proof (cases "i < m'")
      case True
      then show ?thesis using reads[OF that] after[of i] that L(1) by auto
    next
      case False
      then have im: "\<not> i < m" using mono by simp
      from assms(3) that have "\<exists>r. pr_readers p ! i = Some r
        \<and> (if i < m then ready r (shards (pr_readerToBuf p ! i)) j else fresh r (shards (pr_readerToBuf p ! i)))"
        unfolding live_at_def by simp
      moreover have "i < ?n" using that L(1) by blast
      note i = after[OF this, unfolded if_not_P[OF False]]
      ultimately show ?thesis using i unfolding if_not_P[OF False] if_not_P[OF im] by metis
    qed
    show "int (card {i. i < x \<and> pr_readers p' ! i \<noteq> None}) < pr_dataBlocks p" if "x < m'" for x
    proof -
      have "{i. i < x \<and> pr_readers p' ! i \<noteq> None} = {i. i < x \<and> \<not> again R ?p0 ?sh0 i}"
        using that m' after again_iff_gone[of _ ?sh0 R ?p0] by auto
      moreover have "int (delivering R ?p0 ?sh0 [0..<x]) < pr_dataBlocks p" using st that by (simp add: started_def)
      ultimately show ?thesis by (simp add: delivering_card)
    qed
  qed (rule L(2))
  then show ?thesis using can ne unfolding r(1) by (intro conjI exI)
qed

lemma decode_loop_live:
  assumes code: "rs_code Split Enc RD RC e" and e: "erasure_ok e" and s: "s = Erasure_ShardSize e"
    and total: "never_fails W" and W: "sink W got" and range: "0 \<le> offset" "0 < len" "offset + len \<le> int (length src)"
    and bound: "(offset + len) div er_blockSize e < int bound"
    and fs: "Erasure_ShardFileSize e (int (length src)) = Inr fileSize"
  defines "B \<equiv> er_blockSize e" and "N \<equiv> length (chunks (nat (er_blockSize e)) src)" and "shards \<equiv> object_shards Split Enc e src"
  shows "offset div B \<le> int j \<Longrightarrow> int j + int togo = (offset + len) div B + 1
    \<Longrightarrow> (j < N \<longrightarrow> at_block fileSize N shards p j \<and> (\<exists>m. live_at L shards p j m)) \<Longrightarrow> length (pr_readers p) = drives e
    \<Longrightarrow> pr_dataBlocks p = er_dataBlocks e \<Longrightarrow> 0 \<le> written
    \<Longrightarrow> decode_loop R W RD scheds e offset len togo (int j) p dst written derr = Some (dst', org, n, err) \<Longrightarrow> 0 \<le> n"
proof (induction togo arbitrary: j p dst written derr)
  case 0
  then show ?case by (simp add: decode_end_def)
next
  case (Suc togo)
  obtain off left where br: "block_range e offset len (int j) = (off, left)" by fastforce
  show ?case
  proof (cases "left = 0")
    case True
    then show ?thesis using Suc.prems(6,7) br by (simp add: decode_end_def)
  next
    case False
    have j: "j < N" and fits: "0 \<le> off" "0 \<le> left" "off + left \<le> int (length (chunks (nat B) src ! j))"
      using block_range_fits[OF e range _ _ br False] Suc.prems(1,2) unfolding N_def B_def by simp_all
    have at: "at_block fileSize N shards p j" "\<exists>m. live_at L shards p j m" using Suc.prems(3) j by auto
    obtain p' bufs rerr where rd: "pr_Read R (scheds (int j)) p = Some (p', bufs, rerr)"
      using Suc.prems(7) br False by (auto split: option.splits)
    have jb: "j < bound" using Suc.prems(2) bound unfolding B_def by linarith
    obtain m' where live: "canDecode (er_dataBlocks e) bufs" "bufs \<noteq> []" "live_at L shards p' (Suc j) m'"
      using read_block_live[OF at(1) j _ jb rd] at(2) Suc.prems(5) by auto
    have sound: "length bufs = drives e" "\<forall>k < length bufs. bufs ! k = [] \<or> bufs ! k = shards k ! j"
      "Suc j < N \<longrightarrow> at_block fileSize N shards p' (Suc j)" "length (pr_readers p') = drives e" "pr_dataBlocks p' = er_dataBlocks e"
      using read_block_sound[OF at(1) j rd] live(2) Suc.prems(4,5) by auto
    obtain full where full: "DecodeDataBlocks RD bufs = Inr full" "length full = drives e"
      "take (length (chunks (nat B) src ! j)) (concat (take (nat (er_dataBlocks e)) full)) = chunks (nat B) src ! j"
      using decode_block(1)[OF code e _ sound(1) _ live(1)] j sound(2) unfolding N_def B_def shards_def by blast
    obtain dst1 where wr: "writeDataBlocks W dst full (er_dataBlocks e) off left = (dst1, left, None)"
      using block_written_total[OF total W full(3) fits(1,2) full(2) e fits(3)] by blast
    have go: "\<not> (bufs = [] \<and> rerr \<noteq> None)" using live(2) by simp
    note step = decode_loop_step[OF br False, of R scheds p p' bufs rerr, OF rd go full(1) wr]
    have loop: "decode_loop R W RD scheds e offset len togo (int (Suc j)) p' dst1 (written + left) (if bufs \<noteq> [] then keep_error derr rerr else derr)
        = Some (dst', org, n, err)"
      using Suc.prems(7) unfolding step by (simp add: add.commute)
    show ?thesis
      by (rule Suc.IH[OF _ _ _ sound(4,5) _ loop]) (use Suc.prems(1,2,6) sound(3) live(3) fits(2) in auto)
  qed
qed

lemma live_start:
  assumes "paired readers (pr_readers p) (pr_readerToBuf p)" and "length readers = drives e" and "length (pr_readers p) = drives e"
    and "pr_dataBlocks p = er_dataBlocks e"
    and L: "L \<subseteq> {i. i < drives e}" "er_dataBlocks e \<le> int (card L)" "\<And>i. i \<in> L \<Longrightarrow> \<exists>r. readers ! i = Some r \<and> fresh r (shards i)"
  shows "\<exists>L'. live_at L' shards p j 0"
proof -
  let ?L = "{i. i < drives e \<and> pr_readerToBuf p ! i \<in> L}"
  have pr: "length (pr_readerToBuf p) = drives e" "distinct (pr_readerToBuf p)" "set (pr_readerToBuf p) = {0..<drives e}"
    "\<And>i. i < drives e \<Longrightarrow> pr_readers p ! i = readers ! (pr_readerToBuf p ! i)"
    using assms(1,2) by (simp_all add: paired_def)
  have "(\<lambda>i. pr_readerToBuf p ! i) ` ?L = L"
  proof
    show "L \<subseteq> (\<lambda>i. pr_readerToBuf p ! i) ` ?L"
    proof
      fix k assume k: "k \<in> L"
      then have "k \<in> set (pr_readerToBuf p)" using L(1) pr(3) by auto
      then show "k \<in> (\<lambda>i. pr_readerToBuf p ! i) ` ?L" using pr(1) k by (auto simp: in_set_conv_nth)
    qed
  qed auto
  moreover have "card ((\<lambda>i. pr_readerToBuf p ! i) ` ?L) \<le> card ?L" by (rule card_image_le) simp
  ultimately have "pr_dataBlocks p \<le> int (card ?L)" using L(2) assms(4) by simp
  moreover have "\<exists>r. pr_readers p ! i = Some r \<and> fresh r (shards (pr_readerToBuf p ! i))" if "i \<in> ?L" for i
    using L(3)[of "pr_readerToBuf p ! i"] that pr(4)[of i] by simp
  ultimately have "live_at ?L shards p j 0" using assms(3) by (auto simp: live_at_def)
  then show ?thesis by blast
qed

lemma decode_live:
  assumes code: "rs_code Split Enc RD RC e" and e: "erasure_ok e" and s: "s = Erasure_ShardSize e"
    and W: "never_fails W" "sink W got" and range: "0 \<le> offset" "0 \<le> len" "offset + len \<le> int (length src)"
    and readers: "length readers = drives e" "\<And>i r. i < drives e \<Longrightarrow> readers ! i = Some r \<Longrightarrow> serves r (object_shards Split Enc e src i)"
    and L: "L \<subseteq> {i. i < drives e}" "er_dataBlocks e \<le> int (card L)"
      "\<And>i. i \<in> L \<Longrightarrow> \<exists>r. readers ! i = Some r \<and> fresh r (object_shards Split Enc e src i)"
    and bound: "(offset + len) div er_blockSize e < int bound"
    and d: "Decode R W RD scheds e dst readers offset len (int (length src)) pf = Some (dst', org, n, err)"
  shows "n = len \<and> (err = None \<or> err = Some ErrFileNotFound \<or> err = Some ErrFileCorrupt) \<and> got dst' = got dst @ take (nat len) (drop (nat offset) src)"
proof -
  note sound = decode_sound[OF code e s W(2) range readers d]
  show ?thesis
  proof (cases "len = 0")
    case True
    then show ?thesis using d range by (auto simp: Decode_def Let_def)
  next
    case False
    then have len: "0 < len" using range by simp
    obtain fileSize p j togo where st: "at_block fileSize (length (chunks (nat (er_blockSize e)) src)) (object_shards Split Enc e src) p j"
      "int j = offset div er_blockSize e" "int j + int togo = (offset + len) div er_blockSize e + 1"
      "length (pr_readers p) = drives e" "pr_dataBlocks p = er_dataBlocks e" "paired readers (pr_readers p) (pr_readerToBuf p)"
      "Erasure_ShardFileSize e (int (length src)) = Inr fileSize"
      and dl: "\<forall>scheds. Decode R W RD scheds e dst readers offset len (int (length src)) pf
      = decode_loop R W RD scheds e offset len togo (int j) p dst 0 None"
      by (rule decode_starts[OF code e s range(1) len range(3) readers])
    obtain L' where live: "live_at L' (object_shards Split Enc e src) p j 0"
      using live_start[OF st(6) readers(1) st(4,5) L] by blast
    have "0 \<le> n"
      by (rule decode_loop_live[OF code e s W range(1) len range(3) bound st(7) _ st(3) _ st(4,5) order_refl d[unfolded dl[rule_format]]])
        (use st(1,2) live in auto)
    then show ?thesis using sound by auto
  qed
qed

end

end
