(* ===== verification/Erasure_Heal.thy ===== *)
theory Erasure_Heal
  imports Erasure_Live
begin

text \<open>
  Rewriting lost shards: what the writers hold that \<open>Heal\<close> has not dropped, and that it gets to its end.
\<close>

section \<open>Errors of the writers\<close>

text \<open>The two errors that a read notes for the healing and that do not stop it.\<close>

definition noted :: "gerror option \<Rightarrow> bool" where
  "noted err \<longleftrightarrow> err = None \<or> err = Some ErrFileNotFound \<or> err = Some ErrFileCorrupt"

lemma mw_loop_panic: "mw_loop W ws errs blocks = Inl e \<Longrightarrow> e = GoPanic ''index out of range''"
proof (induction W ws errs blocks rule: mw_loop.induct)
  case (3 W w ws err errs blocks)
  have "e' = GoPanic ''index out of range''" if "mw_one W b w err = Inl e'" for b e'
    using that by (auto simp: mw_one_def split: option.splits prod.splits if_splits)
  then show ?case using 3 by (auto split: sum.splits prod.splits)
qed auto

lemma mw_Write_not_noted: "mw_Write ord canceled W blocks p = (p', Some e) \<Longrightarrow> \<not> noted (Some e)"
  using mw_loop_panic[of W "mw_writers p" "mw_errs p" blocks]
  by (auto simp: mw_Write_def noted_def Let_def split: sum.splits prod.splits if_splits)

section \<open>The number of blocks\<close>

lemma chunks_count:
  assumes "0 < n"
  shows "length (chunks n xs) = length xs div n + (if length xs mod n \<noteq> 0 then 1 else 0)"
proof -
  let ?k = "length xs div n + (if length xs mod n \<noteq> 0 then 1 else 0)" and ?l = "length xs"
  have l: "?l = (?l div n) * n + ?l mod n" by simp
  have "j < length (chunks n xs) \<longleftrightarrow> j < ?k" for j
  proof -
    have "j * n < ?l \<longleftrightarrow> j < ?k"
    proof (cases "?l mod n = 0")
      case True
      then have "j * n < ?l \<longleftrightarrow> j * n < (?l div n) * n" using l by simp
      then show ?thesis using True assms by simp
    next
      case False
      have "j * n < ?l \<longleftrightarrow> j \<le> ?l div n"
      proof
        assume "j * n < ?l"
        then have "j * n div n \<le> ?l div n" by (intro div_le_mono) simp
        then show "j \<le> ?l div n" using assms by simp
      next
        assume "j \<le> ?l div n"
        then have "j * n \<le> (?l div n) * n" by simp
        then show "j * n < ?l" using False l by linarith
      qed
      then show ?thesis using False by (simp add: less_Suc_eq_le)
    qed
    then show ?thesis using chunks_less[OF assms] by blast
  qed
  then show ?thesis by (metis linorder_neqE_nat less_irrefl_nat)
qed

section \<open>Healing\<close>

text \<open>Shard readers and shard writers together.\<close>

locale shard_healer = shard_reader R s serves + wr: shard_writer W holds
  for R :: "'r ReadAt" and s serves and W :: "'w Writer" and holds
begin

definition heal_kept :: "byte list list list \<Rightarrow> 'w option list \<Rightarrow> bool" where
  "heal_kept rounds ws \<longleftrightarrow> wr.kept rounds \<lparr>mw_writers = ws, mw_writeQuorum = 1, mw_errs = replicate (length ws) None\<rparr>"

lemma heal_round:
  assumes "heal_kept rounds ws"
    and "mw_Write ord canceled W blocks \<lparr>mw_writers = ws, mw_writeQuorum = 1, mw_errs = replicate (length ws) None\<rparr> = (p', None)"
  shows "heal_kept (rounds @ [blocks]) (mw_writers p') \<and> length (mw_writers p') = length ws \<and> (\<exists>i < length ws. mw_writers p' ! i \<noteq> None)"
proof -
  note k = wr.kept_Write[OF assms(1)[unfolded heal_kept_def] assms(2)]
  then have "1 \<le> countErrs (mw_errs p') None" by simp
  then have "card {i. i < length (mw_errs p') \<and> mw_errs p' ! i = None} \<noteq> 0" unfolding countErrs_None by linarith
  then have "{i. i < length (mw_errs p') \<and> mw_errs p' ! i = None} \<noteq> {}" by (metis card.empty)
  then obtain i where "i < length (mw_errs p')" "mw_errs p' ! i = None" by blast
  then have "\<exists>i < length ws. mw_writers p' ! i \<noteq> None" using k by (auto simp: wr.kept_def)
  then show ?thesis using k by (simp add: heal_kept_def wr.kept_def)
qed

lemma heal_loop_sound:
  fixes src :: "byte list"
  assumes code: "rs_code Split Enc RD RC e" and e: "erasure_ok e"
  defines "bl \<equiv> chunks (nat (er_blockSize e)) src"
  shows "j + togo = length bl \<Longrightarrow> (j < length bl \<longrightarrow> at_block fileSize (length bl) (object_shards Split Enc e src) p j)
    \<Longrightarrow> length (pr_readers p) = drives e \<Longrightarrow> pr_dataBlocks p = er_dataBlocks e
    \<Longrightarrow> heal_kept (map (encoded Split Enc e) (take j bl)) ws
    \<Longrightarrow> heal_loop R ord canceled W RC scheds togo (int j) p ws derr = Some (ws', org, err) \<Longrightarrow> noted err
    \<Longrightarrow> heal_kept (map (encoded Split Enc e) bl) ws' \<and> length ws' = length ws \<and> (0 < togo \<longrightarrow> (\<exists>i < length ws. ws' ! i \<noteq> None))"
proof (induction togo arbitrary: j p ws derr)
  case (Suc togo)
  then have j: "j < length bl" by simp
  have at: "at_block fileSize (length bl) (object_shards Split Enc e src) p j" using Suc.prems(2) j by blast
  obtain p' bufs rerr where rd: "pr_Read R (scheds (int j)) p = Some (p', bufs, rerr)"
    using Suc.prems(6) by (auto split: option.splits)
  have drives: "0 < drives e" using e by (auto simp: drives_def erasure_ok_def)
  note rb = read_block_sound[OF at j rd]
  have go: "\<not> (bufs = [] \<and> rerr \<noteq> None)"
    using Suc.prems(3,6,7) rd rb(1) drives by (auto simp: noted_def)
  have bufs: "length bufs = drives e" "\<forall>k < length bufs. bufs ! k = [] \<or> bufs ! k = object_shards Split Enc e src k ! j"
    "canDecode (er_dataBlocks e) bufs" and at': "Suc j < length bl \<longrightarrow> at_block fileSize (length bl) (object_shards Split Enc e src) p' (Suc j)"
    and noted: "noted rerr" and p': "length (pr_readers p') = drives e" "pr_dataBlocks p' = er_dataBlocks e"
    using rb go Suc.prems(3,4) by (auto simp: noted_def)
  have rc: "RC bufs = Inr (encoded Split Enc e (bl ! j))"
    using decode_block(2)[OF code e _ bufs(1-3)] j unfolding bl_def by blast
  let ?mw = "\<lparr>mw_writers = ws, mw_writeQuorum = 1, mw_errs = replicate (length ws) None\<rparr>"
  obtain w1 werr where wr: "mw_Write ord canceled W (encoded Split Enc e (bl ! j)) ?mw = (w1, werr)" by fastforce
  have none: "werr = None"
    using Suc.prems(6,7) rd go rc wr mw_Write_not_noted[of ord canceled W "encoded Split Enc e (bl ! j)" ?mw w1]
    by (cases werr) (auto simp: Let_def split: if_splits)
  have round: "heal_kept (map (encoded Split Enc e) (take (Suc j) bl)) (mw_writers w1) \<and> length (mw_writers w1) = length ws
    \<and> (\<exists>i < length ws. mw_writers w1 ! i \<noteq> None)"
    using heal_round[OF Suc.prems(5) wr[unfolded none]] j by (simp add: take_Suc_conv_app_nth)
  have loop: "heal_loop R ord canceled W RC scheds togo (int (Suc j)) p' (mw_writers w1) (if bufs \<noteq> [] then keep_error derr rerr else derr) = Some (ws', org, err)"
    using Suc.prems(6) rd go rc wr none by (auto simp: Let_def add.commute split: if_splits)
  show ?case
  proof (cases togo)
    case 0
    then show ?thesis using loop round Suc.prems(1) by auto
  next
    case (Suc t)
    then show ?thesis using Suc.IH[OF _ at' p' conjunct1[OF round] loop] Suc.prems(1,7) round by auto
  qed
qed (simp add: heal_kept_def)

lemma heal_starts:
  assumes code: "rs_code Split Enc RD RC e" and e: "erasure_ok e" and s: "s = Erasure_ShardSize e"
    and readers: "length readers = drives e" "\<And>i r. i < drives e \<Longrightarrow> readers ! i = Some r \<Longrightarrow> serves r (object_shards Split Enc e src i)"
    and writers: "length writers = drives e"
  defines "bl \<equiv> chunks (nat (er_blockSize e)) src"
  obtains fileSize p where "0 < length bl \<longrightarrow> at_block fileSize (length bl) (object_shards Split Enc e src) p 0"
    "length (pr_readers p) = drives e" "pr_dataBlocks p = er_dataBlocks e" "paired readers (pr_readers p) (pr_readerToBuf p)"
    "\<forall>scheds. Heal R ord canceled W RC scheds e writers readers (int (length src)) pf
      = heal_loop R ord canceled W RC scheds (length bl) (int 0) p writers None"
proof -
  have B: "0 < er_blockSize e" "0 < nat (er_blockSize e)" "int (nat (er_blockSize e)) = er_blockSize e" using e by (auto simp: erasure_ok_def)
  obtain fileSize where fs: "Erasure_ShardFileSize e (int (length src)) = Inr fileSize" using ShardFileSize_nat[OF e] by blast
  then obtain p0 where p0: "newParallelReader readers e 0 (int (length src)) = Inr p0" using B by (simp add: newParallelReader_def)
  define p where "p = (if length readers = length pf then preferReaders pf p0 else p0)"
  have st: "paired readers (pr_readers p) (pr_readerToBuf p)" "pr_dataBlocks p = er_dataBlocks e"
  proof -
    have "paired readers (pr_readers p0) (pr_readerToBuf p0)" "pr_dataBlocks p0 = er_dataBlocks e"
      using p0 fs B by (auto simp: newParallelReader_def paired_def split: if_splits)
    then show "paired readers (pr_readers p) (pr_readerToBuf p)" "pr_dataBlocks p = er_dataBlocks e"
      using pairs_preferred[OF p0, of pf] by (auto simp: p_def preferReaders_def split: prod.splits)
  qed
  have "at_block fileSize (length bl) (object_shards Split Enc e src) p 0" if "0 < length bl"
  proof -
    have "src \<noteq> []" using that by (auto simp: bl_def chunks.simps)
    from start_at_block(1)[OF code e s this order_refl readers fs p0 p_def] show ?thesis by (simp add: bl_def)
  qed
  moreover have "nat (quo (int (length src)) (er_blockSize e) + (if rem (int (length src)) (er_blockSize e) \<noteq> 0 then 1 else 0)) = length bl"
  proof -
    have "quo (int (length src)) (er_blockSize e) = int (length src div nat (er_blockSize e))"
      "rem (int (length src)) (er_blockSize e) = int (length src mod nat (er_blockSize e))"
      using B by (simp_all add: zdiv_int zmod_int)
    then show ?thesis unfolding bl_def chunks_count[OF B(2)] by (simp add: nat_add_distrib)
  qed
  then have "Heal R ord canceled W RC scheds e writers readers (int (length src)) pf
      = heal_loop R ord canceled W RC scheds (length bl) (int 0) p writers None" for scheds
    using p0 e writers by (simp add: Heal_def Let_def p_def drives_def erasure_ok_def)
  moreover have "length (pr_readers p) = drives e" using st(1) readers(1) by (simp add: paired_def)
  ultimately show thesis using that st by blast
qed

lemma heal_sound:
  assumes code: "rs_code Split Enc RD RC e" and e: "erasure_ok e" and s: "s = Erasure_ShardSize e"
    and readers: "length readers = drives e" "\<And>i r. i < drives e \<Longrightarrow> readers ! i = Some r \<Longrightarrow> serves r (object_shards Split Enc e src i)"
    and writers: "length writers = drives e" "\<And>i w. i < drives e \<Longrightarrow> writers ! i = Some w \<Longrightarrow> holds w []"
    and h: "Heal R ord canceled W RC scheds e writers readers (int (length src)) pf = Some (ws', org, err)" and "noted err"
  shows "length ws' = drives e \<and> (src \<noteq> [] \<longrightarrow> (\<exists>i < drives e. ws' ! i \<noteq> None))
    \<and> (\<forall>i < drives e. \<forall>w. ws' ! i = Some w \<longrightarrow> holds w (object_shards Split Enc e src i))"
proof -
  let ?bl = "chunks (nat (er_blockSize e)) src"
  have B: "0 < nat (er_blockSize e)" using e by (simp add: erasure_ok_def)
  obtain fileSize p where st: "0 < length ?bl \<longrightarrow> at_block fileSize (length ?bl) (object_shards Split Enc e src) p 0"
    "length (pr_readers p) = drives e" "pr_dataBlocks p = er_dataBlocks e"
    "\<forall>scheds. Heal R ord canceled W RC scheds e writers readers (int (length src)) pf
      = heal_loop R ord canceled W RC scheds (length ?bl) (int 0) p writers None"
    by (rule heal_starts[OF code e s readers writers(1)])
  have "heal_kept (map (encoded Split Enc e) (take 0 ?bl)) writers" using writers by (auto simp: heal_kept_def wr.kept_def)
  from heal_loop_sound[OF code e _ st(1-3) this h[unfolded st(4)[rule_format]] \<open>noted err\<close>]
  have k: "heal_kept (map (encoded Split Enc e) ?bl) ws'" "length ws' = length writers"
    "0 < length ?bl \<longrightarrow> (\<exists>i < length writers. ws' ! i \<noteq> None)" by auto
  have "filter (\<lambda>b. b \<noteq> []) (map (\<lambda>blocks. blocks ! i) (map (encoded Split Enc e) ?bl)) = object_shards Split Enc e src i"
    if i: "i < drives e" for i
  proof -
    have "encoded Split Enc e c ! i \<noteq> []" if c: "c \<in> set ?bl" for c
    proof -
      have ne: "c \<noteq> []" using c chunk_length(2)[OF B] by (auto simp: in_set_conv_nth)
      note enc = encoded_shards[OF code ne]
      have "i < length (encoded Split Enc e c)" using i enc(2) by (simp add: drives_def)
      then have "int (length (encoded Split Enc e c ! i)) = ceilFrac (int (length c)) (er_dataBlocks e)" using enc(3) by simp
      moreover have "0 < ceilFrac (int (length c)) (er_dataBlocks e)"
        using ceilFrac_bounds(1)[of "int (length c)" "er_dataBlocks e"] ne e
        by (smt (verit) erasure_ok_def length_greater_0_conv mult_le_0_iff of_nat_0_less_iff)
      ultimately show ?thesis by auto
    qed
    then show ?thesis by (simp add: object_shards_def comp_def filter_id_conv)
  qed
  then have "holds w (object_shards Split Enc e src i)" if "i < drives e" "ws' ! i = Some w" for i w
    using k(1,2) that writers(1) by (auto simp: heal_kept_def wr.kept_def)
  moreover have "src \<noteq> [] \<Longrightarrow> 0 < length ?bl" using chunks_less[OF B, of 0 src] by simp
  ultimately show ?thesis using k(2,3) writers(1) by auto
qed

end

section \<open>Healing ends\<close>

lemma heal_loop_schedules:
  "(\<And>b. block \<le> b \<Longrightarrow> scheds b = scheds' b) \<Longrightarrow>
   heal_loop R ord canceled W RC scheds togo block p ws derr = heal_loop R ord canceled W RC scheds' togo block p ws derr"
proof (induction togo arbitrary: block p ws derr)
  case (Suc togo)
  have s: "scheds block = scheds' block" by (rule Suc.prems) simp
  have IH: "heal_loop R ord canceled W RC scheds togo (block + 1) p ws derr = heal_loop R ord canceled W RC scheds' togo (block + 1) p ws derr"
    for p ws derr by (rule Suc.IH) (use Suc.prems in simp)
  show ?case unfolding heal_loop.simps s IH ..
qed simp

lemma heal_loop_step:
  assumes "pr_Read R (scheds block) p = Some (p', bufs, rerr)" and "\<not> (bufs = [] \<and> rerr \<noteq> None)" and "RC bufs = Inr full"
    and "mw_Write ord canceled W full \<lparr>mw_writers = ws, mw_writeQuorum = 1, mw_errs = replicate (length ws) None\<rparr> = (w1, werr)"
  shows "heal_loop R ord canceled W RC scheds (Suc togo) block p ws derr =
    (case werr of Some err \<Rightarrow> Some (mw_writers w1, pr_org p', Some err)
     | None \<Rightarrow> heal_loop R ord canceled W RC scheds togo (block + 1) p' (mw_writers w1) (if bufs \<noteq> [] then keep_error derr rerr else derr))"
  using assms by (cases werr) (auto simp: Let_def)

context shard_healer begin

lemma heal_loop_returns:
  "j + togo = N \<Longrightarrow> (j < N \<longrightarrow> at_block fileSize N shards p j)
   \<Longrightarrow> \<exists>scheds res. heal_loop R ord canceled W RC scheds togo (int j) p ws derr = Some res"
proof (induction togo arbitrary: j p ws derr)
  case (Suc togo)
  then have j: "j < N" by simp
  have at: "at_block fileSize N shards p j" using Suc.prems(2) j by blast
  obtain sched p' bufs rerr where rd: "pr_Read R sched p = Some (p', bufs, rerr)" using read_block_returns[OF at j] by (metis prod_cases3)
  show ?case
  proof (cases "bufs = [] \<and> rerr \<noteq> None")
    case True
    then show ?thesis using rd by (intro exI[of _ "\<lambda>_. sched"]) auto
  next
    case go: False
    then have at': "Suc j < N \<longrightarrow> at_block fileSize N shards p' (Suc j)" using read_block_sound(1)[OF at j rd] by auto
    show ?thesis
    proof (cases "RC bufs")
      case (Inl err)
      then show ?thesis using rd go by (intro exI[of _ "\<lambda>_. sched"]) (auto simp: Let_def)
    next
      case (Inr full)
      obtain w1 werr where wr: "mw_Write ord canceled W full \<lparr>mw_writers = ws, mw_writeQuorum = 1, mw_errs = replicate (length ws) None\<rparr> = (w1, werr)"
        by fastforce
      let ?derr = "if bufs \<noteq> [] then keep_error derr rerr else derr"
      from Suc.IH[OF _ at', of "mw_writers w1" ?derr] Suc.prems(1) obtain scheds res where
        rest: "heal_loop R ord canceled W RC scheds togo (int j + 1) p' (mw_writers w1) ?derr = Some res" by (auto simp: add.commute)
      let ?scheds = "scheds(int j := sched)"
      have rd': "pr_Read R (?scheds (int j)) p = Some (p', bufs, rerr)" using rd by simp
      have "heal_loop R ord canceled W RC ?scheds togo (int j + 1) p' (mw_writers w1) ?derr = Some res"
        unfolding rest[symmetric] by (rule heal_loop_schedules) simp
      then have "\<exists>res. heal_loop R ord canceled W RC ?scheds (Suc togo) (int j) p ws derr = Some res"
        unfolding heal_loop_step[where scheds = ?scheds and block = "int j" and RC = RC and bufs = bufs and p = p, OF rd' go Inr wr] by (cases werr) (simp_all del: split_paired_Ex)
      then show ?thesis by blast
    qed
  qed
qed simp

lemma heal_returns:
  assumes "rs_code Split Enc RD RC e" and "erasure_ok e" and "s = Erasure_ShardSize e"
    and readers: "length readers = drives e" "\<And>i r. i < drives e \<Longrightarrow> readers ! i = Some r \<Longrightarrow> serves r (object_shards Split Enc e src i)"
    and "length writers = drives e"
  shows "\<exists>scheds res. Heal R ord canceled W RC scheds e writers readers (int (length src)) pf = Some res"
proof -
  let ?N = "length (chunks (nat (er_blockSize e)) src)"
  obtain fileSize p where st: "0 < ?N \<longrightarrow> at_block fileSize ?N (object_shards Split Enc e src) p 0"
    "\<forall>scheds. Heal R ord canceled W RC scheds e writers readers (int (length src)) pf = heal_loop R ord canceled W RC scheds ?N (int 0) p writers None"
    by (rule heal_starts[OF assms(1-3) readers assms(6)])
  show ?thesis unfolding st(2)[rule_format] by (rule heal_loop_returns[OF _ st(1)]) simp
qed

end

text \<open>With enough readers alive and one writer that works, healing succeeds.\<close>

locale live_healer = live_reader R s serves ready fresh bound + shard_healer R s serves W holds
  for R :: "'r ReadAt" and s serves ready fresh bound and W :: "'w Writer" and holds
begin

definition heal_works :: "byte list list list \<Rightarrow> 'w option list \<Rightarrow> nat \<Rightarrow> bool" where
  "heal_works rounds ws i \<longleftrightarrow> i < length ws \<and> (\<exists>w. ws ! i = Some w \<and> accepts W w (map (\<lambda>blocks. blocks ! i) rounds))"

lemma heal_round_live:
  assumes "heal_works (blocks # rounds) ws i" and "length ws \<le> length blocks"
  shows "\<exists>p'. mw_Write ord canceled W blocks \<lparr>mw_writers = ws, mw_writeQuorum = 1, mw_errs = replicate (length ws) None\<rparr> = (p', None)
    \<and> length (mw_writers p') = length ws \<and> heal_works rounds (mw_writers p') i"
proof -
  let ?p = "\<lparr>mw_writers = ws, mw_writeQuorum = 1, mw_errs = replicate (length ws) None\<rparr>"
  have w: "working W (blocks # rounds) ?p i" using assms(1) by (simp add: heal_works_def working_def)
  have "finite {i. working W (blocks # rounds) ?p i}" by (rule finite_subset[of _ "{..<length ws}"]) (auto simp: working_def)
  then have "1 \<le> card {i. working W (blocks # rounds) ?p i}" using w by (metis (mono_tags) One_nat_def Suc_leI card_gt_0_iff empty_iff mem_Collect_eq)
  then obtain p' where "mw_Write ord canceled W blocks ?p = (p', None)" "length (mw_writers p') = length ws" "working W rounds p' i"
    using working_Write[of ?p blocks W rounds ord canceled] w assms(2) by auto
  then show ?thesis by (auto simp: heal_works_def working_def)
qed

lemma heal_loop_live:
  fixes src :: "byte list"
  assumes code: "rs_code Split Enc RD RC e" and e: "erasure_ok e" and bound: "length (chunks (nat (er_blockSize e)) src) \<le> bound"
  defines "bl \<equiv> chunks (nat (er_blockSize e)) src" and "shards \<equiv> object_shards Split Enc e src"
  shows "j + togo = length bl \<Longrightarrow> (j < length bl \<longrightarrow> at_block fileSize (length bl) shards p j \<and> (\<exists>m. live_at L shards p j m))
    \<Longrightarrow> length (pr_readers p) = drives e \<Longrightarrow> pr_dataBlocks p = er_dataBlocks e
    \<Longrightarrow> length ws = drives e \<Longrightarrow> heal_works (map (encoded Split Enc e) (drop j bl)) ws i
    \<Longrightarrow> heal_loop R ord canceled W RC scheds togo (int j) p ws derr = Some (ws', org, err) \<Longrightarrow> noted derr
    \<Longrightarrow> noted err \<and> ws' ! i \<noteq> None"
proof (induction togo arbitrary: j p ws derr)
  case 0
  then show ?case by (auto simp: heal_works_def)
next
  case (Suc togo)
  then have j: "j < length bl" by simp
  have at: "at_block fileSize (length bl) shards p j" "\<exists>m. live_at L shards p j m" using Suc.prems(2) j by auto
  obtain p' bufs rerr where rd: "pr_Read R (scheds (int j)) p = Some (p', bufs, rerr)"
    using Suc.prems(7) by (auto split: option.splits)
  obtain m' where live: "canDecode (er_dataBlocks e) bufs" "bufs \<noteq> []" "live_at L shards p' (Suc j) m'"
    using read_block_live[OF at(1) j _ order_less_le_trans[OF j bound[folded bl_def]] rd] at(2) Suc.prems(4) by auto
  have bufs: "length bufs = drives e" "\<forall>k < length bufs. bufs ! k = [] \<or> bufs ! k = shards k ! j"
    and at': "Suc j < length bl \<longrightarrow> at_block fileSize (length bl) shards p' (Suc j)"
    and noted: "noted rerr" and p': "length (pr_readers p') = drives e" "pr_dataBlocks p' = er_dataBlocks e"
    using read_block_sound[OF at(1) j rd] live(2) Suc.prems(3,4) by (auto simp: noted_def)
  have rc: "RC bufs = Inr (encoded Split Enc e (bl ! j))"
    using decode_block(2)[OF code e _ bufs(1) _ live(1)] j bufs(2) unfolding bl_def shards_def by blast
  have B: "0 < nat (er_blockSize e)" using e by (simp add: erasure_ok_def)
  have "bl ! j \<noteq> []" using chunk_length(2)[OF B] j unfolding bl_def by blast
  from encoded_shards(2)[OF code this] have enc: "length (encoded Split Enc e (bl ! j)) = drives e" by (simp add: drives_def)
  have "heal_works (encoded Split Enc e (bl ! j) # map (encoded Split Enc e) (drop (Suc j) bl)) ws i"
    using Suc.prems(6) j by (simp flip: Cons_nth_drop_Suc)
  then obtain w1 where wr: "mw_Write ord canceled W (encoded Split Enc e (bl ! j))
      \<lparr>mw_writers = ws, mw_writeQuorum = 1, mw_errs = replicate (length ws) None\<rparr> = (w1, None)"
    and ws1: "length (mw_writers w1) = drives e" "heal_works (map (encoded Split Enc e) (drop (Suc j) bl)) (mw_writers w1) i"
    using heal_round_live[of _ _ ws i ord canceled] enc Suc.prems(5) by fastforce
  let ?derr = "if bufs \<noteq> [] then keep_error derr rerr else derr"
  have loop: "heal_loop R ord canceled W RC scheds togo (int (Suc j)) p' (mw_writers w1) ?derr = Some (ws', org, err)"
    using Suc.prems(7) rd live(2) rc wr by (auto simp: Let_def add.commute)
  have nd: "noted ?derr" using Suc.prems(8) noted by (auto simp: keep_error_def)
  show ?case
    by (rule Suc.IH[OF _ _ p' ws1 loop nd]) (use Suc.prems(1) at' live(3) in auto)
qed

lemma heal_live:
  assumes code: "rs_code Split Enc RD RC e" and e: "erasure_ok e" and s: "s = Erasure_ShardSize e"
    and readers: "length readers = drives e" "\<And>i r. i < drives e \<Longrightarrow> readers ! i = Some r \<Longrightarrow> serves r (object_shards Split Enc e src i)"
    and bound: "length (chunks (nat (er_blockSize e)) src) \<le> bound" and L: "L \<subseteq> {i. i < drives e}" "er_dataBlocks e \<le> int (card L)"
      "\<And>i. i \<in> L \<Longrightarrow> \<exists>r. readers ! i = Some r \<and> fresh r (object_shards Split Enc e src i)"
    and writers: "length writers = drives e" and i: "i < drives e" "writers ! i = Some w" "accepts W w (object_shards Split Enc e src i)"
    and h: "Heal R ord canceled W RC scheds e writers readers (int (length src)) pf = Some (ws', org, err)"
  shows "noted err \<and> ws' ! i \<noteq> None"
proof -
  let ?bl = "chunks (nat (er_blockSize e)) src"
  obtain fileSize p where st: "0 < length ?bl \<longrightarrow> at_block fileSize (length ?bl) (object_shards Split Enc e src) p 0"
    "length (pr_readers p) = drives e" "pr_dataBlocks p = er_dataBlocks e" "paired readers (pr_readers p) (pr_readerToBuf p)"
    "\<forall>scheds. Heal R ord canceled W RC scheds e writers readers (int (length src)) pf
      = heal_loop R ord canceled W RC scheds (length ?bl) (int 0) p writers None"
    by (rule heal_starts[OF code e s readers writers])
  obtain L' where live: "live_at L' (object_shards Split Enc e src) p 0 0"
    using live_start[OF st(4) readers(1) st(2,3) L] by blast
  have works: "heal_works (map (encoded Split Enc e) (drop 0 ?bl)) writers i"
    using i writers by (simp add: heal_works_def object_shards_def comp_def)
  show ?thesis
    by (rule heal_loop_live[OF code e bound _ _ st(2,3) writers works h[unfolded st(5)[rule_format]]]) (use st(1) live in \<open>auto simp: noted_def\<close>)
qed

end

end
