(* ===== verification/Erasure_Stack.thy ===== *)
theory Erasure_Stack
  imports Erasure_Heal
begin

text \<open>
  The parts put together: the streaming bitrot reader and writer under the erasure decoder, encoder and healer. A drive
  is its bitrot reader and its own \<open>ReadFileStream\<close>, which may fail, or return what is not the file that was
  written, as long as no damaged block carries the hash stored before it.
\<close>

section \<open>The bitrot reader as a shard reader\<close>

type_synonym drive_reader = "streamingBitrotReader \<times> (int \<Rightarrow> int \<Rightarrow> gerror + byte list)"

definition bitrot_ReadAt :: "(BitrotAlgorithm \<Rightarrow> byte list \<Rightarrow> byte list) \<Rightarrow> int \<Rightarrow> drive_reader ReadAt" where
  "bitrot_ReadAt H s r off n =
     (case streamingBitrot_ReadAt H HighwayHash256S 32 s (snd r) (fst r) (nat n) off of (b, res) \<Rightarrow> ((b, snd r), res))"

text \<open>No damage to a shard goes with the hash that is stored before it.\<close>

definition damage_shows :: "(BitrotAlgorithm \<Rightarrow> byte list \<Rightarrow> byte list) \<Rightarrow> nat \<Rightarrow> byte list list \<Rightarrow> byte list \<Rightarrow> bool" where
  "damage_shows H s ps f \<longleftrightarrow>
     (\<forall>k < length ps. let pos = k * (32 + s); b = take (length (ps ! k)) (drop (pos + 32) f)
        in length b = length (ps ! k) \<longrightarrow> take 32 (drop pos f) = H HighwayHash256S b \<longrightarrow> b = ps ! k)"

definition reads_file :: "(int \<Rightarrow> int \<Rightarrow> gerror + byte list) \<Rightarrow> byte list \<Rightarrow> bool" where
  "reads_file RFS f \<longleftrightarrow> (\<forall>off n rc. RFS off n = Inr rc \<longrightarrow> rc = take (nat n) (drop (nat off) f))"

definition reader_of :: "byte list \<Rightarrow> drive_reader \<Rightarrow> bool" where
  "reader_of f r \<longleftrightarrow> (if sbr_data (fst r) = [] then reads_file (snd r) f else sbr_data (fst r) = f)"

definition drive_serves :: "(BitrotAlgorithm \<Rightarrow> byte list \<Rightarrow> byte list) \<Rightarrow> nat \<Rightarrow> drive_reader \<Rightarrow> byte list list \<Rightarrow> bool" where
  "drive_serves H s r ps \<longleftrightarrow> 0 < s \<and> (\<forall>p \<in> set ps. p \<noteq> [] \<and> length p \<le> s) \<and>
     (\<exists>f. damage_shows H s ps f \<and> reader_of f r \<and>
        (\<forall>rc k. sbr_rc (fst r) = Some rc \<longrightarrow> k < length ps \<longrightarrow> sbr_currOffset (fst r) = int (k * s)
           \<longrightarrow> (\<exists>n. rc = take n (drop (k * (32 + s)) f))))"

text \<open>A read that succeeds.\<close>

lemma ReadAt_Inr:
  assumes "0 < s" and "streamingBitrot_ReadAt H algo hs (int s) RFS b n (int k * int s) = (b', Inr buf)"
  defines "pos \<equiv> int (k * hs + k * s)"
  shows "\<exists>rc rc'. (case sbr_rc b of Some rc0 \<Rightarrow> rc = rc0 \<and> sbr_currOffset b = int (k * s)
      | None \<Rightarrow> if sbr_data b = [] \<and> sbr_tillOffset b \<noteq> pos then RFS pos (sbr_tillOffset b - pos) = Inr rc
               else rc = take (nat (sbr_tillOffset b - pos)) (drop (nat pos) (sbr_data b)))
    \<and> bitrot_read_block H algo hs rc n = (rc', Inr buf) \<and> b' = b\<lparr>sbr_rc := Some rc', sbr_currOffset := int (k * s) + int n\<rparr>"
proof -
  have pos: "quo (int k * int s) (int s) * int hs + int k * int s = pos"
    using assms(1) by (simp add: pos_def)
  have rem: "rem (int k * int s) (int s) = 0" using assms(1) by simp
  show ?thesis
    using assms(2) unfolding streamingBitrot_ReadAt_def Let_def pos rem
    using assms(1) by (cases b) (auto split: option.splits sum.splits if_splits prod.splits)
qed

lemma prefix_split:
  assumes "a @ b @ c = take n xs" and "length a = i" and "length b = j"
  shows "take i xs = a" and "take j (drop i xs) = b" and "\<exists>m. c = take m (drop (i + j) xs)"
proof -
  have n: "i + j \<le> n" "i + j \<le> length xs" using arg_cong[OF assms(1), of length] assms(2,3) by auto
  have "take i (take n xs) = a" "take j (drop i (take n xs)) = b" unfolding assms(1)[symmetric] using assms(2,3) by simp_all
  then show "take i xs = a" "take j (drop i xs) = b" using n by (simp_all add: drop_take min_absorb1)
  have "drop (i + j) (take n xs) = c" unfolding assms(1)[symmetric] using assms(2,3) by simp
  then show "\<exists>m. c = take m (drop (i + j) xs)" by (metis drop_take)
qed

lemma drive_serves_block:
  assumes "drive_serves H s r ps" and "k < length ps"
    and "bitrot_ReadAt H (int s) r (int k * int s) (int (length (ps ! k))) = (r', Inr b)"
  shows "b = ps ! k \<and> drive_serves H s r' ps"
proof -
  let ?h = "H HighwayHash256S" and ?pos = "k * (32 + s)" and ?n = "length (ps ! k)"
  have s: "0 < s" and ps: "\<forall>p \<in> set ps. p \<noteq> [] \<and> length p \<le> s" using assms(1) by (auto simp: drive_serves_def)
  obtain f where f: "damage_shows H s ps f" "reader_of f r"
    "\<And>rc k. sbr_rc (fst r) = Some rc \<Longrightarrow> k < length ps \<Longrightarrow> sbr_currOffset (fst r) = int (k * s)
       \<Longrightarrow> \<exists>n. rc = take n (drop (k * (32 + s)) f)"
    using assms(1) unfolding drive_serves_def by blast
  obtain b' where rd: "streamingBitrot_ReadAt H HighwayHash256S 32 (int s) (snd r) (fst r) ?n (int k * int s) = (b', Inr b)"
    and r': "r' = (b', snd r)" using assms(3) by (auto simp: bitrot_ReadAt_def split: prod.splits)
  have pos: "k * 32 + k * s = ?pos" by (simp add: algebra_simps)
  obtain rc rc' where rc: "case sbr_rc (fst r) of Some rc0 \<Rightarrow> rc = rc0 \<and> sbr_currOffset (fst r) = int (k * s)
      | None \<Rightarrow> if sbr_data (fst r) = [] \<and> sbr_tillOffset (fst r) \<noteq> int ?pos then snd r (int ?pos) (sbr_tillOffset (fst r) - int ?pos) = Inr rc
               else rc = take (nat (sbr_tillOffset (fst r) - int ?pos)) (drop (nat (int ?pos)) (sbr_data (fst r)))"
    and blk: "bitrot_read_block H HighwayHash256S 32 rc ?n = (rc', Inr b)"
    and b': "b' = (fst r)\<lparr>sbr_rc := Some rc', sbr_currOffset := int (k * s) + int ?n\<rparr>"
    using ReadAt_Inr[OF s rd, unfolded pos] by blast
  have "\<exists>n. rc = take n (drop ?pos f)"
  proof (cases "sbr_rc (fst r)")
    case None
    note rc = rc[unfolded None option.case nat_int]
    show ?thesis
    proof (cases "sbr_data (fst r) = []")
      case True
      then have rf: "reads_file (snd r) f" using f(2) by (simp add: reader_of_def)
      show ?thesis
      proof (cases "sbr_tillOffset (fst r) = int ?pos")
        case True
        then have "rc = take 0 (drop ?pos f)" using rc \<open>sbr_data (fst r) = []\<close> by simp
        then show ?thesis by blast
      next
        case False
        then have "snd r (int ?pos) (sbr_tillOffset (fst r) - int ?pos) = Inr rc" using rc True by simp
        then have "rc = take (nat (sbr_tillOffset (fst r) - int ?pos)) (drop (nat (int ?pos)) f)"
          using rf unfolding reads_file_def by blast
        then show ?thesis unfolding nat_int by blast
      qed
    next
      case False
      then have "sbr_data (fst r) = f" using f(2) by (simp add: reader_of_def)
      then have "rc = take (nat (sbr_tillOffset (fst r) - int ?pos)) (drop ?pos f)" using rc False by simp
      then show ?thesis by blast
    qed
  next
    case (Some rc0)
    then show ?thesis using rc f(3)[OF _ assms(2)] by auto
  qed
  then obtain n where n: "rc = take n (drop ?pos f)" by blast
  note sound = bitrot_read_block_sound[OF blk]
  have cut: "?h b @ b @ rc' = take n (drop ?pos f)" "length (?h b) = 32" "length b = ?n" using sound n by simp_all
  note split = prefix_split[OF cut]
  have "take ?n (drop (?pos + 32) f) = b" using split(2) by (simp add: add.commute)
  moreover have "take 32 (drop ?pos f) = ?h b" using split(1) .
  ultimately have b: "b = ps ! k" using f(1) assms(2) cut(3) by (auto simp: damage_shows_def Let_def)
  have "\<exists>m. rc' = take m (drop (k' * (32 + s)) f)" if k': "k' < length ps" "int (k * s) + int ?n = int (k' * s)" for k'
  proof -
    have le: "0 < ?n" "?n \<le> s" using ps assms(2) by (auto simp: nth_mem)
    have eq: "k * s + ?n = k' * s" using k'(2) by linarith
    have "k * s < k' * s" using eq le by linarith
    moreover have "k' * s \<le> Suc k * s" unfolding eq[symmetric] using le by simp
    ultimately have "k' = Suc k" using s by (metis Suc_leI le_antisym mult_le_cancel2 mult_less_cancel2)
    then have "k' * (32 + s) = ?pos + (32 + ?n)" using eq by simp
    then show ?thesis using split(3) by (simp add: add.commute)
  qed
  then have "drive_serves H s r' ps"
    unfolding drive_serves_def r' b' using s ps f(1,2) by (auto simp: reader_of_def intro!: exI[of _ f])
  then show ?thesis using b by simp
qed

interpretation dr: shard_reader "bitrot_ReadAt H (int s)" "int s" "drive_serves H s" for H s
proof unfold_locales
  show "fills (bitrot_ReadAt H (int s))"
    unfolding fills_def
  proof (intro allI impI)
    fix r off n r' b assume n: "0 < n" and rd: "bitrot_ReadAt H (int s) r off n = (r', Inr b)"
    then obtain rc rc' where "bitrot_read_block H HighwayHash256S 32 rc (nat n) = (rc', Inr b)"
      by (auto simp: bitrot_ReadAt_def streamingBitrot_ReadAt_def Let_def split: prod.splits sum.splits if_splits)
    from bitrot_read_block_sound[OF this] n show "int (length b) = n" by simp
  qed
  show "drive_serves H s r bs \<Longrightarrow> k < length bs \<Longrightarrow> bitrot_ReadAt H (int s) r (int k * int s) (int (length (bs ! k))) = (r', Inr b)
      \<Longrightarrow> b = bs ! k \<and> drive_serves H s r' bs" for r bs k r' b
    by (rule drive_serves_block)
qed

section \<open>Drives that can be read\<close>

text \<open>A new reader of an undamaged shard file, up to the end of the blocks before \<open>bound\<close>.\<close>

definition drive_fresh :: "(BitrotAlgorithm \<Rightarrow> byte list \<Rightarrow> byte list) \<Rightarrow> nat \<Rightarrow> nat \<Rightarrow> drive_reader \<Rightarrow> byte list list \<Rightarrow> bool" where
  "drive_fresh H s bound r ps \<longleftrightarrow> 0 < s \<and> hash_ok H \<and> well_cut s ps \<and>
     (\<exists>dat. fst r = newStreamingBitrotReader dat (int (length (concat (take bound ps)))) 32 (int s)
        \<and> (if dat = [] then snd r = disk_stream (bitrot_encode (H HighwayHash256S) ps) else dat = bitrot_encode (H HighwayHash256S) ps))"

definition drive_ready :: "(BitrotAlgorithm \<Rightarrow> byte list \<Rightarrow> byte list) \<Rightarrow> nat \<Rightarrow> nat \<Rightarrow> drive_reader \<Rightarrow> byte list list \<Rightarrow> nat \<Rightarrow> bool" where
  "drive_ready H s bound r ps k \<longleftrightarrow> drive_fresh H s bound r ps \<or>
     (0 < s \<and> hash_ok H \<and> well_cut s ps \<and> sbr_rc (fst r) = Some (bitrot_encode (H HighwayHash256S) (drop k (take bound ps)))
        \<and> (k < length ps \<longrightarrow> sbr_currOffset (fst r) = int (k * s)))"

lemma well_cut_nth: "well_cut s ps \<Longrightarrow> k < length ps \<Longrightarrow> ps ! k \<noteq> [] \<and> length (ps ! k) \<le> s \<and> (Suc k < length ps \<longrightarrow> length (ps ! k) = s)"
proof (induction ps arbitrary: k)
  case (Cons p ps)
  then show ?case by (cases k) auto
qed simp

lemma well_cut_take: "well_cut s ps \<Longrightarrow> well_cut s (take n ps)"
proof (induction ps arbitrary: n)
  case (Cons p ps)
  then show ?case by (cases n) auto
qed simp

lemma bitrot_encode_append: "bitrot_encode h (as @ bs) = bitrot_encode h as @ bitrot_encode h bs"
  by (simp add: bitrot_encode_def)

lemma rest_of_front: "p \<le> length xs \<Longrightarrow> take (nat (int (length xs) - int p)) (drop p (xs @ ys)) = drop p xs"
  by (simp flip: of_nat_diff)

lemma ReadAt_open:
  assumes "0 < s" and "sbr_rc b = Some rc" and "sbr_currOffset b = int (k * s)"
  shows "streamingBitrot_ReadAt H algo hs (int s) RFS b n (int k * int s) =
    (case bitrot_read_block H algo hs rc n of
       (rc', Inl e) \<Rightarrow> (b\<lparr>sbr_rc := Some rc'\<rparr>, Inl e)
     | (rc', Inr buf) \<Rightarrow> (b\<lparr>sbr_rc := Some rc', sbr_currOffset := int (k * s) + int n\<rparr>, Inr buf))"
  using assms by (simp add: streamingBitrot_ReadAt_def split: prod.splits sum.splits)

lemma ReadAt_new:
  fixes s k hs :: nat
  assumes "0 < s" and "sbr_rc b = None"
  defines "pos \<equiv> int (k * hs + k * s)"
  assumes "if sbr_data b = [] then RFS pos (sbr_tillOffset b - pos) = Inr rc \<and> sbr_tillOffset b \<noteq> pos
      else rc = take (nat (sbr_tillOffset b - pos)) (drop (nat pos) (sbr_data b))"
  shows "streamingBitrot_ReadAt H algo hs (int s) RFS b n (int k * int s)
    = streamingBitrot_ReadAt H algo hs (int s) RFS (b\<lparr>sbr_rc := Some rc, sbr_currOffset := int (k * s)\<rparr>) n (int k * int s)"
proof -
  have pos: "quo (int k * int s) (int s) * int hs + int k * int s = pos" using assms(1) by (simp add: pos_def)
  show ?thesis unfolding streamingBitrot_ReadAt_def Let_def pos using assms(1,2,4) by (auto split: if_splits)
qed

lemma drive_ready_block:
  assumes "drive_ready H s bound r ps k" and k: "k < length ps" and kb: "k < bound"
  shows "\<exists>r'. bitrot_ReadAt H (int s) r (int k * int s) (int (length (ps ! k))) = (r', Inr (ps ! k)) \<and> drive_ready H s bound r' ps (Suc k)"
proof -
  let ?h = "H HighwayHash256S" and ?n = "length (ps ! k)" and ?qs = "take bound ps"
  let ?f = "bitrot_encode ?h ps" and ?pos = "k * 32 + k * s"
  have s: "0 < s" and H: "hash_ok H" and wc: "well_cut s ps" using assms(1) by (auto simp: drive_ready_def drive_fresh_def)
  have h: "length (?h d) = 32" for d by (rule hash_ok_S[OF H])
  have qs: "k < length ?qs" "?qs ! k = ps ! k" using k kb by simp_all
  then have enc: "bitrot_encode ?h (drop k ?qs) = ?h (ps ! k) @ ps ! k @ bitrot_encode ?h (drop (Suc k) ?qs)"
    by (metis Cons_nth_drop_Suc bitrot_encode_simps(2))
  have full: "length (ps ! k) = s" if "Suc k < length ps" using well_cut_nth[OF wc k] that by simp
  let ?b = "\<lambda>b. b\<lparr>sbr_rc := Some (bitrot_encode ?h (drop (Suc k) ?qs)), sbr_currOffset := int (k * s) + int ?n\<rparr>"
  have open1: "\<exists>b'. streamingBitrot_ReadAt H HighwayHash256S 32 (int s) RFS b ?n (int k * int s) = (b', Inr (ps ! k))
      \<and> sbr_rc b' = Some (bitrot_encode ?h (drop (Suc k) ?qs)) \<and> sbr_currOffset b' = int (k * s) + int ?n"
    if "sbr_rc b = Some (bitrot_encode ?h (drop k ?qs))" "sbr_currOffset b = int (k * s)" for b RFS
    unfolding ReadAt_open[OF s that] enc using h by simp
  have "\<exists>b'. streamingBitrot_ReadAt H HighwayHash256S 32 (int s) (snd r) (fst r) ?n (int k * int s) = (b', Inr (ps ! k))
      \<and> sbr_rc b' = Some (bitrot_encode ?h (drop (Suc k) ?qs)) \<and> sbr_currOffset b' = int (k * s) + int ?n"
  proof (cases "drive_fresh H s bound r ps")
    case True
    then obtain dat where dat: "fst r = newStreamingBitrotReader dat (int (length (concat ?qs))) 32 (int s)"
      "if dat = [] then snd r = disk_stream ?f else dat = ?f" unfolding drive_fresh_def by blast
    have wq: "well_cut s ?qs" by (rule well_cut_take[OF wc])
    have till: "sbr_tillOffset (fst r) = int (length (bitrot_encode ?h ?qs))"
      using length_bitrot_encode[of ?h 32 ?qs] h well_cut_count[OF wq s] by (simp add: dat(1) newStreamingBitrotReader_def)
    have app: "?f = bitrot_encode ?h ?qs @ bitrot_encode ?h (drop bound ps)"
      using bitrot_encode_append[of ?h ?qs "drop bound ps"] by simp
    have dr: "drop ?pos (bitrot_encode ?h ?qs) = bitrot_encode ?h (drop k ?qs)"
      by (rule drop_bitrot_encode[OF h wq qs(1)])
    have less: "?pos < length (bitrot_encode ?h ?qs)"
    proof -
      have "0 < length (bitrot_encode ?h (drop k ?qs))" unfolding enc using h[of "ps ! k"] by simp
      then show ?thesis unfolding dr[symmetric] by simp
    qed
    have rc: "take (nat (sbr_tillOffset (fst r) - int ?pos)) (drop (nat (int ?pos)) ?f) = bitrot_encode ?h (drop k ?qs)"
      unfolding till nat_int app dr[symmetric] by (rule rest_of_front) (use less in simp)
    have ne: "sbr_tillOffset (fst r) \<noteq> int ?pos" unfolding till of_nat_eq_iff using less by simp
    have "if sbr_data (fst r) = [] then snd r (int ?pos) (sbr_tillOffset (fst r) - int ?pos) = Inr (bitrot_encode ?h (drop k ?qs))
          \<and> sbr_tillOffset (fst r) \<noteq> int ?pos
        else bitrot_encode ?h (drop k ?qs) = take (nat (sbr_tillOffset (fst r) - int ?pos)) (drop (nat (int ?pos)) (sbr_data (fst r)))"
    proof (cases "dat = []")
      case True
      then have "sbr_data (fst r) = []" "snd r = disk_stream ?f" using dat by (simp_all add: newStreamingBitrotReader_def)
      then show ?thesis using ne rc by (simp only: disk_stream_def if_True simp_thms)
    next
      case False
      then have "sbr_data (fst r) = ?f" "?f \<noteq> []" using dat by (simp_all add: newStreamingBitrotReader_def)
      then show ?thesis using rc by (simp only: if_False)
    qed
    from ReadAt_new[where b = "fst r" and k = k and hs = 32 and RFS = "snd r" and rc = "bitrot_encode ?h (drop k ?qs)", OF s _ this] show ?thesis
      using open1[of "(fst r)\<lparr>sbr_rc := Some (bitrot_encode ?h (drop k ?qs)), sbr_currOffset := int (k * s)\<rparr>" "snd r"]
      by (simp add: dat(1) newStreamingBitrotReader_def)
  next
    case False
    then show ?thesis using assms(1) k open1 by (auto simp: drive_ready_def)
  qed
  then obtain b' where b': "streamingBitrot_ReadAt H HighwayHash256S 32 (int s) (snd r) (fst r) ?n (int k * int s) = (b', Inr (ps ! k))"
    "sbr_rc b' = Some (bitrot_encode ?h (drop (Suc k) ?qs))" "sbr_currOffset b' = int (k * s) + int ?n" by blast
  then have "drive_ready H s bound (b', snd r) ps (Suc k)"
    using s H wc full by (auto simp: drive_ready_def)
  then show ?thesis using b'(1) by (intro exI[of _ "(b', snd r)"]) (simp add: bitrot_ReadAt_def)
qed

interpretation dl: live_reader "bitrot_ReadAt H (int s)" "int s" "drive_serves H s" "drive_ready H s bound" "drive_fresh H s bound" bound
  for H s bound
  by unfold_locales (use drive_ready_block in \<open>auto simp: drive_ready_def\<close>)

interpretation dh: live_healer "bitrot_ReadAt H (int s)" "int s" "drive_serves H s" "drive_ready H s bound" "drive_fresh H s bound" bound
    "bitrot_shard_writer H HighwayHash256S shardSize" "\<lambda>w bs. bw_out w = bitrot_encode (H HighwayHash256S) bs"
  for H s bound shardSize
  by unfold_locales

section \<open>Shard files\<close>

lemma well_cutI:
  "(\<And>k. k < length ps \<Longrightarrow> ps ! k \<noteq> [] \<and> length (ps ! k) \<le> s \<and> (Suc k < length ps \<longrightarrow> length (ps ! k) = s)) \<Longrightarrow> well_cut s ps"
proof (induction ps)
  case (Cons p ps)
  have "well_cut s ps" by (rule Cons.IH) (use Cons.prems[of "Suc _"] in auto)
  then show ?case using Cons.prems[of 0] by auto
qed simp

text \<open>The files of an object: what the bitrot writer stores of the shards of a drive, and where the read of a range ends.\<close>

lemma object_shards_cut:
  assumes "rs_code Split Enc RD RC e" and e: "erasure_ok e" and "src \<noteq> []" and fs: "Erasure_ShardFileSize e (int (length src)) = Inr fileSize"
    and k: "k < drives e"
  defines "s \<equiv> nat (Erasure_ShardSize e)" and "ps \<equiv> object_shards Split Enc e src k" and "N \<equiv> length (chunks (nat (er_blockSize e)) src)"
  shows "0 < s" and "int s = Erasure_ShardSize e" and "well_cut s ps" and "length ps = N"
    and "int (length (concat (take m ps))) = (if m < N then int m * int s else fileSize)" and "int (N - 1) * int s \<le> fileSize" and "fileSize \<le> int N * int s"
proof -
  note l = object_layout[OF assms(1) e assms(3) fs]
  have s: "0 < Erasure_ShardSize e" and last: "fileSize - int (N - 1) * Erasure_ShardSize e \<le> Erasure_ShardSize e" and N: "0 < N"
    using l by (simp_all only: shard_layout_def N_def)
  show s': "0 < s" "int s = Erasure_ShardSize e" using s by (simp_all add: s_def)
  show len: "length ps = N" by (simp add: ps_def object_shards_def N_def)
  have nth: "ps ! j \<noteq> []" "int (length (ps ! j)) = (if Suc j < N then int s else fileSize - int j * int s)" if "j < N" for j
    using shard_layoutD(2,3)[OF l that[unfolded N_def] k] unfolding ps_def N_def s'(2) block_size_def by simp_all
  have "0 < length (ps ! (N - 1))" "int (length (ps ! (N - 1))) = fileSize - int (N - 1) * int s" using nth[of "N - 1"] N by simp_all
  then show lo: "int (N - 1) * int s \<le> fileSize" by linarith
  have "int N * int s = int (N - 1) * int s + int s" using N by (cases N) (simp_all add: distrib_right)
  then show "fileSize \<le> int N * int s" using last s'(2) by simp
  show "well_cut s ps"
  proof (rule well_cutI, unfold len)
    fix j assume j: "j < N"
    show "ps ! j \<noteq> [] \<and> length (ps ! j) \<le> s \<and> (Suc j < N \<longrightarrow> length (ps ! j) = s)"
    proof (cases "Suc j < N")
      case False
      then have "j = N - 1" using j by simp
      then show ?thesis using nth[OF j] last s'(2) False by simp
    qed (use nth[OF j] in auto)
  qed
  have front: "int (length (concat (take m ps))) = int m * int s" if "m < N" for m
    using that
  proof (induction m)
    case (Suc m)
    have "take (Suc m) ps = take m ps @ [ps ! m]" using Suc.prems len by (simp add: take_Suc_conv_app_nth)
    then show ?case using Suc nth(2)[of m] by (simp add: distrib_right)
  qed simp
  show "int (length (concat (take m ps))) = (if m < N then int m * int s else fileSize)"
  proof (cases "m < N")
    case False
    have "take m ps = take (N - 1) ps @ [ps ! (N - 1)]"
      using False N len by (metis Suc_diff_1 diff_less order.refl not_less take_Suc_conv_app_nth take_all zero_less_one)
    then show ?thesis using front[of "N - 1"] nth(2)[of "N - 1"] N False by simp
  qed (use front in simp)
qed

lemma ShardFileOffset_bound:
  assumes "rs_code Split Enc RD RC e" and e: "erasure_ok e" and "src \<noteq> []" and k: "k < drives e" and "0 \<le> offset" and "0 \<le> len"
  shows "Erasure_ShardFileOffset e offset len (int (length src))
    = Inr (int (length (concat (take (Suc (nat ((offset + len) div er_blockSize e))) (object_shards Split Enc e src k)))))"
proof -
  obtain fileSize where fs: "Erasure_ShardFileSize e (int (length src)) = Inr fileSize" using ShardFileSize_nat[OF e] by blast
  let ?z = "(offset + len) div er_blockSize e" and ?N = "length (chunks (nat (er_blockSize e)) src)"
  let ?s = "int (nat (Erasure_ShardSize e))"
  note c = object_shards_cut[OF assms(1-3) fs k]
  have B: "0 < er_blockSize e" using e by (simp add: erasure_ok_def)
  have z: "int (nat ?z) = ?z" using assms(5,6) B by (simp add: pos_imp_zdiv_nonneg_iff)
  have off: "Erasure_ShardFileOffset e offset len (int (length src)) = Inr (min (int (Suc (nat ?z)) * ?s) fileSize)"
    using fs B assms(5,6) z c(2) by (simp add: Erasure_ShardFileOffset_def Let_def distrib_right)
  show ?thesis
  proof (cases "Suc (nat ?z) < ?N")
    case True
    then have "int (Suc (nat ?z)) * ?s \<le> int (?N - 1) * ?s" by (intro mult_right_mono) auto
    then show ?thesis unfolding off c(5) using c(6) True by simp
  next
    case False
    then have "int ?N * ?s \<le> int (Suc (nat ?z)) * ?s" by (intro mult_right_mono) auto
    then show ?thesis unfolding off c(5) using c(7) False by simp
  qed
qed

section \<open>New readers and writers\<close>

text \<open>A new reader of a drive whose file, if it can be read at all, shows its damage; and one whose
  file is what the writer wrote.\<close>

definition shard_drive :: "(BitrotAlgorithm \<Rightarrow> byte list \<Rightarrow> byte list) \<Rightarrow> Erasure \<Rightarrow> byte list list \<Rightarrow> drive_reader \<Rightarrow> bool" where
  "shard_drive H e ps r \<longleftrightarrow> (\<exists>dat till f. fst r = newStreamingBitrotReader dat till 32 (Erasure_ShardSize e)
     \<and> reader_of f r \<and> damage_shows H (nat (Erasure_ShardSize e)) ps f)"

definition intact_drive :: "Erasure \<Rightarrow> byte list \<Rightarrow> int \<Rightarrow> int \<Rightarrow> int \<Rightarrow> drive_reader \<Rightarrow> bool" where
  "intact_drive e f offset len totalLength r \<longleftrightarrow> (\<exists>dat till. Erasure_ShardFileOffset e offset len totalLength = Inr till
     \<and> fst r = newStreamingBitrotReader dat till 32 (Erasure_ShardSize e) \<and> (if dat = [] then snd r = disk_stream f else dat = f))"

lemma shard_size_pos: "erasure_ok e \<Longrightarrow> 0 < Erasure_ShardSize e"
  using ceilFrac_bounds(1)[of "er_blockSize e" "er_dataBlocks e"]
  by (smt (verit) Erasure_ShardSize_def erasure_ok_def mult_le_0_iff)

text \<open>Nothing is stored of an empty object.\<close>

lemma cut_shards:
  assumes "rs_code Split Enc RD RC e" and e: "erasure_ok e" and k: "k < drives e"
  shows "well_cut (nat (Erasure_ShardSize e)) (object_shards Split Enc e src k)"
proof (cases "src = []")
  case True
  then show ?thesis by (simp add: object_shards_def chunks.simps)
next
  case False
  obtain fileSize where "Erasure_ShardFileSize e (int (length src)) = Inr fileSize" using ShardFileSize_nat[OF e] by blast
  from object_shards_cut(3)[OF assms(1) e False this k] show ?thesis .
qed

lemma damage_shows_intact:
  assumes "hash_ok H" and "well_cut s ps"
  shows "damage_shows H s ps (bitrot_encode (H HighwayHash256S) ps)"
proof -
  let ?h = "H HighwayHash256S"
  have h: "length (?h d) = 32" for d by (rule hash_ok_S[OF assms(1)])
  have "take (length (ps ! k)) (drop (k * (32 + s) + 32) (bitrot_encode ?h ps)) = ps ! k" if k: "k < length ps" for k
  proof -
    have "drop (k * (32 + s)) (bitrot_encode ?h ps) = bitrot_encode ?h (drop k ps)"
      using drop_bitrot_encode[OF h assms(2) k] by (simp add: distrib_left)
    also have "\<dots> = ?h (ps ! k) @ ps ! k @ bitrot_encode ?h (drop (Suc k) ps)"
      using k by (metis Cons_nth_drop_Suc bitrot_encode_simps(2))
    finally have "drop (k * (32 + s)) (bitrot_encode ?h ps) = \<dots>" .
    then have "drop 32 (drop (k * (32 + s)) (bitrot_encode ?h ps)) = ps ! k @ bitrot_encode ?h (drop (Suc k) ps)" using h by simp
    then show ?thesis by (simp add: add.commute)
  qed
  then show ?thesis by (simp add: damage_shows_def Let_def)
qed

lemma new_reader_serves:
  assumes "rs_code Split Enc RD RC e" and e: "erasure_ok e" and k: "k < drives e" and "shard_drive H e (object_shards Split Enc e src k) r"
  shows "drive_serves H (nat (Erasure_ShardSize e)) r (object_shards Split Enc e src k)"
proof -
  have "0 < nat (Erasure_ShardSize e)" using shard_size_pos[OF e] by simp
  moreover have "\<forall>p \<in> set (object_shards Split Enc e src k). p \<noteq> [] \<and> length p \<le> nat (Erasure_ShardSize e)"
    using well_cut_nth[OF cut_shards[OF assms(1) e k]] by (metis in_set_conv_nth)
  ultimately show ?thesis
    using assms(4) by (fastforce simp: drive_serves_def shard_drive_def newStreamingBitrotReader_def)
qed

lemma intact_shard_drive:
  assumes "intact_drive e (bitrot_encode (H HighwayHash256S) ps) offset len totalLength r" and "hash_ok H" and "well_cut (nat (Erasure_ShardSize e)) ps"
  shows "shard_drive H e ps r"
proof -
  let ?f = "bitrot_encode (H HighwayHash256S) ps"
  obtain dat till where d: "fst r = newStreamingBitrotReader dat till 32 (Erasure_ShardSize e)"
    "if dat = [] then snd r = disk_stream ?f else dat = ?f" using assms(1) by (auto simp: intact_drive_def)
  then have "reader_of ?f r" by (auto simp: reader_of_def reads_file_def disk_stream_def newStreamingBitrotReader_def split: if_splits)
  then show ?thesis using d(1) damage_shows_intact[OF assms(2,3)] by (auto simp: shard_drive_def)
qed

lemma new_reader_fresh:
  assumes "rs_code Split Enc RD RC e" and e: "erasure_ok e" and k: "k < drives e" and H: "hash_ok H" and "0 \<le> offset" and "0 \<le> len"
    and "offset + len \<le> int (length src)"
    and r: "intact_drive e (bitrot_encode (H HighwayHash256S) (object_shards Split Enc e src k)) offset len (int (length src)) r"
  shows "drive_fresh H (nat (Erasure_ShardSize e)) (Suc (nat ((offset + len) div er_blockSize e))) r (object_shards Split Enc e src k)"
proof -
  let ?ps = "object_shards Split Enc e src k" and ?m = "Suc (nat ((offset + len) div er_blockSize e))"
  have "Erasure_ShardFileOffset e offset len (int (length src)) = Inr (int (length (concat (take ?m ?ps))))"
  proof (cases "src = []")
    case True
    then have z: "offset = 0" "len = 0" using assms(5-7) by simp_all
    have "Erasure_ShardFileSize e 0 = Inr 0" by (simp add: Erasure_ShardFileSize_def)
    then show ?thesis using True e shard_size_pos[OF e]
      by (simp add: z Erasure_ShardFileOffset_def object_shards_def chunks.simps erasure_ok_def)
  next
    case False
    show ?thesis by (rule ShardFileOffset_bound[OF assms(1) e False k assms(5,6)])
  qed
  moreover obtain dat till where "Erasure_ShardFileOffset e offset len (int (length src)) = Inr till"
    "fst r = newStreamingBitrotReader dat till 32 (Erasure_ShardSize e)"
    "if dat = [] then snd r = disk_stream (bitrot_encode (H HighwayHash256S) ?ps) else dat = bitrot_encode (H HighwayHash256S) ?ps"
    using r unfolding intact_drive_def by blast
  moreover have "0 < nat (Erasure_ShardSize e)" "int (nat (Erasure_ShardSize e)) = Erasure_ShardSize e" using shard_size_pos[OF e] by simp_all
  ultimately show ?thesis unfolding drive_fresh_def using H cut_shards[OF assms(1) e k, of src] by (intro conjI exI[of _ dat]) simp_all
qed

lemma drives_serve:
  assumes "rs_code Split Enc RD RC e" and "erasure_ok e" and "hash_ok H"
    and "\<forall>i < drives e. \<forall>r. readers ! i = Some r \<longrightarrow> i \<in> L \<or> shard_drive H e (object_shards Split Enc e src i) r"
    and "\<forall>i \<in> L. \<exists>r. readers ! i = Some r
       \<and> intact_drive e (bitrot_encode (H HighwayHash256S) (object_shards Split Enc e src i)) offset len (int (length src)) r"
    and i: "i < drives e" "readers ! i = Some r"
  shows "drive_serves H (nat (Erasure_ShardSize e)) r (object_shards Split Enc e src i)"
proof (rule new_reader_serves[OF assms(1,2) i(1)])
  show "shard_drive H e (object_shards Split Enc e src i) r"
  proof (cases "i \<in> L")
    case True
    then obtain r' where r': "readers ! i = Some r'"
      "intact_drive e (bitrot_encode (H HighwayHash256S) (object_shards Split Enc e src i)) offset len (int (length src)) r'"
      using assms(5) by blast
    then show ?thesis using i(2) intact_shard_drive[OF r'(2) assms(3) cut_shards[OF assms(1,2) i(1)]] by simp
  qed (use assms(4) i in blast)
qed

text \<open>The buffer of \<open>putObject\<close>, by the width of the pool, the announced size and the block size.\<close>

definition put_buffer :: "int \<Rightarrow> int \<Rightarrow> int \<Rightarrow> gerror + nat" where
  "put_buffer poolWidth sz blockSize =
     (if sz = 0 then Inr (nat (min 1 blockSize))
      else if sz \<ge> blockSize \<or> sz = -1 then Inr (nat (min poolWidth blockSize))
      else if sz < 0 then Inl (GoPanic ''makeslice: len out of range'')
      else Inr (nat sz))"

lemma put_buffer_chunks:
  assumes "put_buffer poolWidth sz blockSize = Inr n" and "sz = int (length src) \<or> sz = -1" and "blockSize \<le> poolWidth" and "0 < blockSize"
  shows "0 < n" and "chunks n src = chunks (nat blockSize) src"
proof -
  have short: "chunks m src = [src]" if "length src \<le> m" "src \<noteq> []" "0 < m" for m
    using that by (subst chunks.simps) (simp add: chunks.simps)
  have "n = nat blockSize \<or> (length src \<le> n \<and> length src \<le> nat blockSize \<and> 0 < n)"
    using assms by (auto simp: put_buffer_def split: if_splits)
  moreover have "src = [] \<Longrightarrow> chunks m src = []" for m by (simp add: chunks.simps)
  ultimately have "0 < n \<and> chunks n src = chunks (nat blockSize) src"
    using assms(4) short[of n] short[of "nat blockSize"] by (cases "src = []") auto
  then show "0 < n" "chunks n src = chunks (nat blockSize) src" by simp_all
qed

lemma drive_shards_object:
  assumes "rs_code Split Enc RD RC e" and e: "erasure_ok e" and i: "i < drives e" and n: "0 < n" "chunks n src = chunks (nat (er_blockSize e)) src"
  shows "drive_shards Split Enc e n src i = object_shards Split Enc e src i"
proof (cases "src = []")
  case True
  then show ?thesis using i by (simp add: drive_shards_def write_rounds_def object_shards_def chunks.simps encoded_def EncodeData_def drives_def)
next
  case False
  have "ps ! k \<noteq> []" if "ps = object_shards Split Enc e src i" "k < length ps" for ps k
    using well_cut_nth[OF cut_shards[OF assms(1) e i]] that by blast
  then have "filter (\<lambda>b. b \<noteq> []) (object_shards Split Enc e src i) = object_shards Split Enc e src i"
    by (metis (mono_tags, lifting) filter_True in_set_conv_nth)
  then show ?thesis using False n by (simp add: drive_shards_def write_rounds_def object_shards_def comp_def)
qed

section \<open>The properties\<close>

text \<open>C3: whatever the drives do - fail, be missing, return damaged data -, as long as damage never goes with
  the hash stored before it, and however the goroutines interleave, \<open>Decode\<close> hands out only bytes of the object: the
  whole range that was asked for, or, with an error, a beginning of it.\<close>

theorem decode_never_wrong:
  assumes "rs_code Split Enc RD RC e" and "erasure_ok e" and "sink W got"
    and "0 \<le> offset" and "0 \<le> len" and "offset + len \<le> int (length src)"
    and "length readers = drives e"
    and "\<forall>i < drives e. \<forall>r. readers ! i = Some r \<longrightarrow> shard_drive H e (object_shards Split Enc e src i) r"
    and "Decode (bitrot_ReadAt H (Erasure_ShardSize e)) W RD scheds e dst readers offset len (int (length src)) pf = Some (dst', org, n, err)"
  defines "want \<equiv> take (nat len) (drop (nat offset) src)"
  shows "(n = len \<and> noted err \<and> got dst' = got dst @ want) \<or> (n = -1 \<and> err \<noteq> None \<and> (\<exists>m. got dst' = got dst @ take m want))"
proof -
  have s: "int (nat (Erasure_ShardSize e)) = Erasure_ShardSize e" using shard_size_pos[OF assms(2)] by simp
  note sound = dr.decode_sound[where s = "nat (Erasure_ShardSize e)" and H = H, unfolded s]
  show ?thesis unfolding want_def noted_def
    by (rule sound[OF assms(1,2) refl assms(3-7) _ assms(9)]) (use new_reader_serves[OF assms(1,2)] assms(8) in blast)
qed

text \<open>What \<open>Decode\<close> does when as many drives as there are data blocks have their shard.\<close>

lemma decode_available:
  assumes "rs_code Split Enc RD RC e" and "erasure_ok e" and "hash_ok H" and "never_fails W" "sink W got"
    and range: "0 \<le> offset" "0 \<le> len" "offset + len \<le> int (length src)"
    and readers: "length readers = drives e"
      "\<forall>i < drives e. \<forall>r. readers ! i = Some r \<longrightarrow> i \<in> L \<or> shard_drive H e (object_shards Split Enc e src i) r"
    and L: "L \<subseteq> {i. i < drives e}" "er_dataBlocks e \<le> int (card L)"
      "\<forall>i \<in> L. \<exists>r. readers ! i = Some r
         \<and> intact_drive e (bitrot_encode (H HighwayHash256S) (object_shards Split Enc e src i)) offset len (int (length src)) r"
  shows "(\<exists>scheds res. Decode (bitrot_ReadAt H (Erasure_ShardSize e)) W RD scheds e dst readers offset len (int (length src)) pf = Some res)
    \<and> (\<forall>scheds dst' org n err.
         Decode (bitrot_ReadAt H (Erasure_ShardSize e)) W RD scheds e dst readers offset len (int (length src)) pf = Some (dst', org, n, err)
         \<longrightarrow> n = len \<and> noted err \<and> got dst' = got dst @ take (nat len) (drop (nat offset) src))"
proof -
  let ?s = "nat (Erasure_ShardSize e)" and ?z = "(offset + len) div er_blockSize e"
  have s: "int ?s = Erasure_ShardSize e" using shard_size_pos[OF assms(2)] by simp
  note serves = drives_serve[OF assms(1-3) readers(2) L(3)]
  have fresh: "\<exists>r. readers ! i = Some r \<and> drive_fresh H ?s (Suc (nat ?z)) r (object_shards Split Enc e src i)" if "i \<in> L" for i
    using L(1,3) that new_reader_fresh[OF assms(1,2) _ assms(3) range] by blast
  note returns = dr.decode_returns[where s = ?s and H = H, unfolded s]
    and live = dl.decode_live[where s = ?s and H = H and bound = "Suc (nat ?z)", unfolded s]
  have z: "?z < int (Suc (nat ?z))" by simp
  show ?thesis
  proof (intro conjI[OF returns[OF assms(1,2) refl readers(1) serves]] allI impI)
    fix scheds dst' org n err
    assume d: "Decode (bitrot_ReadAt H (Erasure_ShardSize e)) W RD scheds e dst readers offset len (int (length src)) pf = Some (dst', org, n, err)"
    show "n = len \<and> noted err \<and> got dst' = got dst @ take (nat len) (drop (nat offset) src)"
      unfolding noted_def by (rule live[OF assms(1,2) refl assms(4,5) range readers(1) serves L(1,2) fresh z d])
  qed
qed

text \<open>C2: an object that \<open>Encode\<close> has stored without an error is read back: at least \<open>quorum\<close> writers are left, every
  writer that is left has its shards and their hashes, and from any \<open>dataBlocks\<close> of them \<open>Decode\<close> returns every range of
  the object byte for byte. The other drives may be missing, fail, or return what is not the shard, as long as no block that is not the block of the shard comes with the hash that fits it (\<open>damage_shows\<close>).\<close>

theorem put_get:
  assumes "rs_code Split Enc RD RC e" and "erasure_ok e" and "hash_ok H"
    and "put_buffer poolWidth sz (er_blockSize e) = Inr bufLen" and "sz = int (length src) \<or> sz = -1" and "er_blockSize e \<le> poolWidth"
    and "length writers = drives e" and "\<forall>w \<in> set writers. w = None \<or> w = Some new_bitrot_writer"
    and "Encode ord canceled (bitrot_shard_writer H HighwayHash256S (Erasure_ShardSize e)) Split Enc e src None writers bufLen quorum = Some (ws, n, None)"
    and "never_fails W" and "sink W got" and "0 \<le> offset" and "0 \<le> len" and "offset + len \<le> int (length src)"
    and "length readers = drives e"
    and "\<forall>i < drives e. \<forall>r. readers ! i = Some r \<longrightarrow> i \<in> L \<or> shard_drive H e (object_shards Split Enc e src i) r"
    and "L \<subseteq> {i. i < drives e}" and "er_dataBlocks e \<le> int (card L)"
    and "\<forall>i \<in> L. ws ! i \<noteq> None \<and> (\<exists>r. readers ! i = Some r \<and> intact_drive e (bw_out (the (ws ! i))) offset len (int (length src)) r)"
  shows "n = int (length src) \<and> quorum \<le> int (length (filter (\<lambda>w. w \<noteq> None) ws))
    \<and> (\<forall>i < drives e. ws ! i \<noteq> None \<longrightarrow> bw_out (the (ws ! i)) = bitrot_encode (H HighwayHash256S) (object_shards Split Enc e src i))
    \<and> (\<exists>scheds res. Decode (bitrot_ReadAt H (Erasure_ShardSize e)) W RD scheds e dst readers offset len (int (length src)) pf = Some res)
    \<and> (\<forall>scheds dst' org k err.
         Decode (bitrot_ReadAt H (Erasure_ShardSize e)) W RD scheds e dst readers offset len (int (length src)) pf = Some (dst', org, k, err)
         \<longrightarrow> k = len \<and> noted err \<and> got dst' = got dst @ take (nat len) (drop (nat offset) src))"
proof -
  have B: "0 < er_blockSize e" using assms(2) by (simp add: erasure_ok_def)
  note buf = put_buffer_chunks[OF assms(4,5,6) B]
  note enc = encode_written[OF buf(1) assms(9,8)]
  have stored: "bw_out (the (ws ! i)) = bitrot_encode (H HighwayHash256S) (object_shards Split Enc e src i)" if "i < drives e" "ws ! i \<noteq> None" for i
    using enc that assms(7) drive_shards_object[OF assms(1,2) that(1) buf] by auto
  have "\<forall>i \<in> L. \<exists>r. readers ! i = Some r
      \<and> intact_drive e (bitrot_encode (H HighwayHash256S) (object_shards Split Enc e src i)) offset len (int (length src)) r"
    using assms(17,19) stored by (metis (no_types, lifting) mem_Collect_eq subsetD)
  from decode_available[OF assms(1-3,10-18) this] show ?thesis using enc stored by blast
qed

section \<open>An example\<close>

text \<open>Three drives: the first and the third have been written, the file of the second is empty.\<close>

definition list_sink :: "byte list Writer" where
  "list_sink w b = (w @ b, int (length b), None)"

lemma list_sink: "never_fails list_sink" "sink list_sink (\<lambda>w. w)"
  by (simp_all add: never_fails_def sink_def list_sink_def)

definition new_drive :: "byte list \<Rightarrow> drive_reader" where
  "new_drive f = (newStreamingBitrotReader [] 3 32 2, disk_stream f)"

definition stored_drives :: "drive_reader option list" where
  "stored_drives = [Some (new_drive (bw_out (the (sample_writers ! 0)))), Some (new_drive []), Some (new_drive (bw_out (the (sample_writers ! 2))))]"

lemma xor_sample: "erasure_ok (xor_erasure 4)" "drives (xor_erasure 4) = 3" "Erasure_ShardSize (xor_erasure 4) = 2" "er_dataBlocks (xor_erasure 4) = 2"
    "er_blockSize (xor_erasure 4) = 4" "length sample_src = 5"
  by (simp_all add: erasure_ok_def drives_def xor_erasure_def Erasure_ShardSize_def ceilFrac_nonneg sample_src_def)

lemma xor_shards: "object_shards xor_split xor_encode (xor_erasure 4) sample_src 1 = [[3, 4], [0]]"
  by code_simp

lemma new_drive_ok:
  "shard_drive length_hash (xor_erasure 4) (object_shards xor_split xor_encode (xor_erasure 4) sample_src 1) (new_drive [])"
  "intact_drive (xor_erasure 4) f 1 3 5 (new_drive f)" "intact_drive (xor_erasure 4) f 0 5 5 (new_drive f)"
proof -
  have "Erasure_ShardFileOffset (xor_erasure 4) 1 3 5 = Inr 3" "Erasure_ShardFileOffset (xor_erasure 4) 0 5 5 = Inr 3" by code_simp+
  then show "intact_drive (xor_erasure 4) f 1 3 5 (new_drive f)" "intact_drive (xor_erasure 4) f 0 5 5 (new_drive f)"
    by (auto simp: intact_drive_def new_drive_def xor_sample)
  have "damage_shows length_hash 2 [[3, 4], [0]] []" by (simp add: damage_shows_def Let_def less_Suc_eq)
  moreover have "reader_of [] (new_drive [])" by (simp add: reader_of_def new_drive_def newStreamingBitrotReader_def reads_file_def disk_stream_def)
  ultimately show "shard_drive length_hash (xor_erasure 4) (object_shards xor_split xor_encode (xor_erasure 4) sample_src 1) (new_drive [])"
    unfolding shard_drive_def xor_shards xor_sample by (intro exI[of _ "[]"] exI[of _ 3]) (auto simp: new_drive_def)
qed

text \<open>The range from 1 of length 3 of the bytes 1 to 5.\<close>

theorem put_get_witness:
  "\<exists>scheds org err. Decode (bitrot_ReadAt length_hash 2) list_sink xor_reconstruct scheds (xor_erasure 4) [] stored_drives 1 3 5 [] = Some ([2, 3, 4], org, 3, err)"
proof -
  have "put_buffer 4 5 4 = Inr 4" by code_simp
  moreover have "sample_writers ! 0 \<noteq> None" "sample_writers ! 2 \<noteq> None" by code_simp+
  moreover have "\<forall>i < 3. \<forall>r. stored_drives ! i = Some r \<longrightarrow> i \<in> {0, 2}
      \<or> shard_drive length_hash (xor_erasure 4) (object_shards xor_split xor_encode (xor_erasure 4) sample_src i) r"
    using new_drive_ok(1) by (auto simp: stored_drives_def less_Suc_eq numeral_3_eq_3)
  ultimately have *: "(\<exists>scheds res. Decode (bitrot_ReadAt length_hash 2) list_sink xor_reconstruct scheds (xor_erasure 4) [] stored_drives 1 3 5 [] = Some res)
    \<and> (\<forall>scheds dst' org k err. Decode (bitrot_ReadAt length_hash 2) list_sink xor_reconstruct scheds (xor_erasure 4) [] stored_drives 1 3 5 [] = Some (dst', org, k, err)
         \<longrightarrow> k = 3 \<and> noted err \<and> dst' = [] @ take (nat 3) (drop (nat 1) sample_src))"
    using put_get[where dst = "[]" and pf = "[]", OF xor_code xor_sample(1) hash_ok_length_hash, of 4 5 4 sample_src "[Some new_bitrot_writer, None, Some new_bitrot_writer]" "\<lambda>es. es" False 2
        sample_writers 5 list_sink "\<lambda>w. w" 1 3 stored_drives "{0, 2}", THEN conjunct2, THEN conjunct2, THEN conjunct2] sample_encoding_ok list_sink new_drive_ok(2)
    by (simp add: xor_sample sample_encoding_def stored_drives_def del: split_paired_Ex split_paired_All)
  then obtain scheds dst' org k err where
    d: "Decode (bitrot_ReadAt length_hash 2) list_sink xor_reconstruct scheds (xor_erasure 4) [] stored_drives 1 3 5 [] = Some (dst', org, k, err)"
    by (metis prod_cases4)
  moreover have "take (nat 3) (drop (nat 1) sample_src) = [2, 3, 4]" by code_simp
  ultimately have "k = 3" "dst' = [2, 3, 4]" using * by auto
  then show ?thesis using d by blast
qed

text \<open>With the second drive damaged and the third one gone there are not enough drives; what is handed out is still right.\<close>

theorem decode_never_wrong_witness:
  "\<exists>scheds dst org n err. Decode (bitrot_ReadAt length_hash 2) list_sink xor_reconstruct scheds (xor_erasure 4) [] [stored_drives ! 0, stored_drives ! 1, None] 1 3 5 []
      = Some (dst, org, n, err) \<and> ((n = 3 \<and> dst = [2, 3, 4]) \<or> (n = -1 \<and> err \<noteq> None \<and> (\<exists>m. dst = take m [2, 3, 4])))"
proof -
  let ?readers = "[stored_drives ! 0, stored_drives ! 1, None]"
  let ?ps = "object_shards xor_split xor_encode (xor_erasure 4) sample_src"
  have f: "bw_out (the (sample_writers ! 0)) = bitrot_encode (length_hash HighwayHash256S) (?ps 0)" by code_simp
  have cut: "well_cut (nat (Erasure_ShardSize (xor_erasure 4))) (?ps 0)"
    by (rule cut_shards[OF xor_code xor_sample(1)]) (simp add: xor_sample)
  have "shard_drive length_hash (xor_erasure 4) (?ps 0) (new_drive (bw_out (the (sample_writers ! 0))))"
    unfolding f by (rule intact_shard_drive[OF new_drive_ok(2) hash_ok_length_hash cut])
  then have drives: "\<forall>i < 3. \<forall>r. ?readers ! i = Some r \<longrightarrow> shard_drive length_hash (xor_erasure 4) (?ps i) r"
    using new_drive_ok(1) by (auto simp: stored_drives_def less_Suc_eq numeral_3_eq_3)
  have serves: "drive_serves length_hash 2 r (?ps i)" if "i < 3" "?readers ! i = Some r" for i r
    using new_reader_serves[OF xor_code xor_sample(1), of i length_hash sample_src r] drives that
    unfolding xor_sample by (simp del: split_paired_All)
  note returns = dr.decode_returns[where s = 2 and H = length_hash, OF xor_code xor_sample(1), of ?readers sample_src list_sink "[]" 1 3 "[]",
      unfolded xor_sample of_nat_numeral]
  have "\<exists>scheds res. Decode (bitrot_ReadAt length_hash 2) list_sink xor_reconstruct scheds (xor_erasure 4) [] ?readers 1 3 5 [] = Some res"
    by (rule returns) (use serves in simp_all)
  then obtain scheds dst org n err where
    d: "Decode (bitrot_ReadAt length_hash 2) list_sink xor_reconstruct scheds (xor_erasure 4) [] ?readers 1 3 5 [] = Some (dst, org, n, err)"
    by (metis prod_cases4)
  have "take (nat 3) (drop (nat 1) sample_src) = [2, 3, 4]" by code_simp
  then have "(n = 3 \<and> dst = [2, 3, 4]) \<or> (n = -1 \<and> err \<noteq> None \<and> (\<exists>m. dst = take m [2, 3, 4]))"
    using decode_never_wrong[OF xor_code xor_sample(1) list_sink(2), of 1 3 sample_src ?readers length_hash scheds "[]" "[]" dst org n err] d drives
    by (auto simp: xor_sample simp del: split_paired_Ex split_paired_All)
  then show ?thesis using d by blast
qed

text \<open>The bitrot writer takes the shards of an object.\<close>

lemma bitrot_accepts: "well_cut s ps \<Longrightarrow> \<not> bw_finished w \<Longrightarrow> accepts (bitrot_shard_writer H algo (int s)) w ps"
proof (induction ps arbitrary: w)
  case (Cons p ps)
  then show ?case by (cases ps) (auto simp: bitrot_shard_writer_def bitrot_Write_def Let_def)
qed simp

text \<open>C4: from any \<open>dataBlocks\<close> intact drives \<open>Heal\<close> rebuilds, for every drive it has a new writer for, precisely the
  shard file that was once written, and it ends without an error but those it notes. The other drives may be missing, fail, or
  return what is not the shard, as long as no block that is not the block of the shard comes with the hash that fits it
  (\<open>damage_shows\<close>): a stale shard, stored with hashes of its own, is not covered, for the bitrot reader takes it as it is.\<close>

theorem heal_restores:
  fixes ord :: errs_order and canceled :: bool and pf :: "bool list"
  assumes "rs_code Split Enc RD RC e" and "erasure_ok e" and "hash_ok H"
    and "length readers = drives e"
    and "\<forall>i < drives e. \<forall>r. readers ! i = Some r \<longrightarrow> i \<in> L \<or> shard_drive H e (object_shards Split Enc e src i) r"
    and "L \<subseteq> {i. i < drives e}" and "er_dataBlocks e \<le> int (card L)"
    and "\<forall>i \<in> L. \<exists>r. readers ! i = Some r
       \<and> intact_drive e (bitrot_encode (H HighwayHash256S) (object_shards Split Enc e src i)) 0 (int (length src)) (int (length src)) r"
    and "length writers = drives e" and "\<forall>w \<in> set writers. w = None \<or> w = Some new_bitrot_writer" and "k < drives e" and "writers ! k \<noteq> None"
  defines "heal \<equiv> \<lambda>scheds. Heal (bitrot_ReadAt H (Erasure_ShardSize e)) ord canceled (bitrot_shard_writer H HighwayHash256S (Erasure_ShardSize e))
      RC scheds e writers readers (int (length src)) pf"
  shows "(\<exists>scheds res. heal scheds = Some res) \<and> (\<forall>scheds ws org err. heal scheds = Some (ws, org, err) \<longrightarrow> noted err \<and> ws ! k \<noteq> None
    \<and> bw_out (the (ws ! k)) = bitrot_encode (H HighwayHash256S) (object_shards Split Enc e src k))"
proof -
  let ?s = "nat (Erasure_ShardSize e)" and ?z = "(0 + int (length src)) div er_blockSize e"
  have s: "int ?s = Erasure_ShardSize e" using shard_size_pos[OF assms(2)] by simp
  have B: "0 < nat (er_blockSize e)" "int (nat (er_blockSize e)) = er_blockSize e" using assms(2) by (auto simp: erasure_ok_def)
  note serves = drives_serve[OF assms(1-3,5,8)]
  have fresh: "\<exists>r. readers ! i = Some r \<and> drive_fresh H ?s (Suc (nat ?z)) r (object_shards Split Enc e src i)" if "i \<in> L" for i
    using assms(6,8) that new_reader_fresh[OF assms(1,2) _ assms(3) order_refl] by fastforce
  have "?z = int (length src div nat (er_blockSize e))" using B(2) by (metis add_0 zdiv_int)
  then have bound: "length (chunks (nat (er_blockSize e)) src) \<le> Suc (nat ?z)" unfolding chunks_count[OF B(1)] by simp
  note returns = dh.heal_returns[where s = ?s and H = H and shardSize = "Erasure_ShardSize e", unfolded s]
    and sound = dh.heal_sound[where s = ?s and H = H and shardSize = "Erasure_ShardSize e", unfolded s]
    and live = dh.heal_live[where s = ?s and H = H and bound = "Suc (nat ?z)" and shardSize = "Erasure_ShardSize e", unfolded s]
  have new: "w = new_bitrot_writer" if "i < drives e" "writers ! i = Some w" for i w
    using assms(9,10) that nth_mem[of i writers] by auto
  have empty: "bw_out w = bitrot_encode (H HighwayHash256S) []" if "i < drives e" "writers ! i = Some w" for i w
    using new[OF that] by (simp add: new_bitrot_writer_def)
  obtain w where w: "writers ! k = Some w" using assms(12) by blast
  have "\<not> bw_finished w" using new[OF assms(11) w] by (simp add: new_bitrot_writer_def)
  from bitrot_accepts[OF cut_shards[OF assms(1,2,11)] this, unfolded s]
  have acc: "accepts (bitrot_shard_writer H HighwayHash256S (Erasure_ShardSize e)) w (object_shards Split Enc e src k)" .
  show ?thesis unfolding heal_def
  proof (intro conjI[OF returns[OF assms(1,2) refl assms(4) serves assms(9)]] allI impI)
    fix scheds ws org err
    assume h: "Heal (bitrot_ReadAt H (Erasure_ShardSize e)) ord canceled (bitrot_shard_writer H HighwayHash256S (Erasure_ShardSize e))
      RC scheds e writers readers (int (length src)) pf = Some (ws, org, err)"
    from live[OF assms(1,2) refl assms(4) serves bound assms(6,7) fresh assms(9,11) w acc h]
    have l: "noted err" "ws ! k \<noteq> None" by simp_all
    have "length ws = drives e \<and> (src \<noteq> [] \<longrightarrow> (\<exists>i < drives e. ws ! i \<noteq> None))
        \<and> (\<forall>i < drives e. \<forall>w. ws ! i = Some w \<longrightarrow> bw_out w = bitrot_encode (H HighwayHash256S) (object_shards Split Enc e src i))"
      by (rule sound[OF assms(1,2) refl assms(4) serves assms(9) _ h l(1)]) (use empty in simp_all)
    then show "noted err \<and> ws ! k \<noteq> None \<and> bw_out (the (ws ! k)) = bitrot_encode (H HighwayHash256S) (object_shards Split Enc e src k)"
      using l assms(11) by auto
  qed
qed

text \<open>The drive in the middle is rebuilt from the other two.\<close>

theorem heal_restores_witness:
  "\<exists>scheds ws org err. Heal (bitrot_ReadAt length_hash 2) (\<lambda>es. es) False (bitrot_shard_writer length_hash HighwayHash256S 2) xor_reconstruct scheds
      (xor_erasure 4) [None, Some new_bitrot_writer, None] stored_drives 5 [] = Some (ws, org, err)
    \<and> bw_out (the (ws ! 1)) = bitrot_encode (length_hash HighwayHash256S) [[3, 4], [0]]"
proof -
  let ?f = "\<lambda>i. bitrot_encode (length_hash HighwayHash256S) (object_shards xor_split xor_encode (xor_erasure 4) sample_src i)"
  have f: "bw_out (the (sample_writers ! 0)) = ?f 0" "bw_out (the (sample_writers ! 2)) = ?f 2" by code_simp+
  have readers: "\<forall>i < 3. \<forall>r. stored_drives ! i = Some r \<longrightarrow> i \<in> {0, 2}
      \<or> shard_drive length_hash (xor_erasure 4) (object_shards xor_split xor_encode (xor_erasure 4) sample_src i) r"
    using new_drive_ok(1) by (auto simp: stored_drives_def less_Suc_eq numeral_3_eq_3)
  have live: "\<forall>i \<in> {0, 2}. \<exists>r. stored_drives ! i = Some r \<and> intact_drive (xor_erasure 4) (?f i) 0 5 5 r"
    using new_drive_ok(3) f by (simp add: stored_drives_def del: split_paired_Ex)
  have "(\<exists>scheds res. Heal (bitrot_ReadAt length_hash 2) (\<lambda>es. es) False (bitrot_shard_writer length_hash HighwayHash256S 2) xor_reconstruct scheds
      (xor_erasure 4) [None, Some new_bitrot_writer, None] stored_drives 5 [] = Some res)
    \<and> (\<forall>scheds ws org err. Heal (bitrot_ReadAt length_hash 2) (\<lambda>es. es) False (bitrot_shard_writer length_hash HighwayHash256S 2) xor_reconstruct scheds
      (xor_erasure 4) [None, Some new_bitrot_writer, None] stored_drives 5 [] = Some (ws, org, err)
      \<longrightarrow> noted err \<and> ws ! 1 \<noteq> None \<and> bw_out (the (ws ! 1)) = ?f 1)"
    using heal_restores[OF xor_code xor_sample(1) hash_ok_length_hash, of stored_drives "{0, 2}" sample_src
        "[None, Some new_bitrot_writer, None]" 1 "\<lambda>es. es" False "[]"] readers live
    unfolding xor_sample by (simp add: stored_drives_def del: split_paired_Ex split_paired_All)
  then show ?thesis unfolding xor_shards by (metis prod_cases3)
qed

end
