(* ===== verification/Object_Errors.thy ===== *)
theory Object_Errors
  imports Go_Errors "HOL-Library.Sublist"
begin

text \<open>
  From the errors of the drives to those of the object layer: \<open>toObjectErr\<close> of
  \<open>cmd/object-api-errors.go\<close>, which compares messages, and \<open>decodeDirObject\<close> of \<open>cmd/utils.go\<close>. Sentinels that
  no modelled code compares are \<open>OtherErr\<close> with their message.
\<close>

section \<open>Messages\<close>

fun errorMessage :: "gerror \<Rightarrow> string" where
  "errorMessage ErrDiskNotFound = ''drive not found''"
| "errorMessage ErrFaultyDisk = ''drive is faulty''"
| "errorMessage ErrFaultyRemoteDisk = ''remote drive is faulty''"
| "errorMessage ErrDiskAccessDenied = ''drive access denied''"
| "errorMessage ErrUnformattedDisk = ''unformatted drive found''"
| "errorMessage ErrDiskOngoingReq = ''drive still did not complete the request''"
| "errorMessage ErrFileNotFound = ''file not found''"
| "errorMessage ErrFileVersionNotFound = ''file version not found''"
| "errorMessage ErrFileCorrupt = ''file is corrupted''"
| "errorMessage ErrVolumeNotFound = ''volume not found''"
| "errorMessage ErrPathNotFound = ''path not found''"
| "errorMessage ErrUnexpected = ''unexpected error, please report this issue at https://github.com/buckit-io/buckit/issues''"
| "errorMessage ErrMethodNotAllowed = ''Method not allowed''"
| "errorMessage ErrInvalidArgument = ''Invalid arguments specified''"
| "errorMessage ErrPartSizeZero = ''Part size cannot be zero''"
| "errorMessage ErrPartSizeIndex = ''Part index cannot be smaller than 1''"
| "errorMessage ErrErasureReadQuorum = ''Read failed. Insufficient number of drives online''"
| "errorMessage ErrErasureWriteQuorum = ''Write failed. Insufficient number of drives online''"
| "errorMessage ErrInvShardNum = ''cannot create Encoder with less than one data shard or less than zero parity shards''"
| "errorMessage ErrMaxShardNum = ''cannot create Encoder with more than 256 data+parity shards''"
| "errorMessage ContextCanceled = ''context canceled''"
| "errorMessage ContextDeadlineExceeded = ''context deadline exceeded''"
| "errorMessage IoEOF = ''EOF''"
| "errorMessage IoUnexpectedEOF = ''unexpected EOF''"
| "errorMessage ErrFastOpenFrameBadMagic = ''fastopen frame: bad magic''"
| "errorMessage ErrFastOpenFrameBadVersion = ''fastopen frame: bad version''"
| "errorMessage ErrFastOpenFrameBadCRC = ''fastopen frame: bad crc''"
| "errorMessage ErrFastOpenFrameHeaderTooLarge = ''fastopen frame: header too large''"
| "errorMessage ErrFastOpenFrameBadPayload = ''fastopen frame: bad payload''"
| "errorMessage ErrFastOpenFrameBadBodyMode = ''fastopen frame: bad body mode''"
| "errorMessage ErrFastOpenFrameBadStatus = ''fastopen frame: bad status''"
| "errorMessage ErrFastOpenFrameBadBitrot = ''fastopen frame: bad bitrot algorithm''"
| "errorMessage ErrFastGetNoFallback = ''FastOpen unavailable and fallback disabled''"
| "errorMessage (InvalidRange ob oe sz) = ''The requested range '' @ [CHR 0x27] @ ''bytes='' @ itoa ob @ ''-'' @ itoa oe @ [CHR 0x27] @ '' is not satisfiable''"
| "errorMessage (InsufficientReadQuorum b ob ty) = ''Storage resources are insufficient for the read operation '' @ b @ ''/'' @ ob"
| "errorMessage (InsufficientWriteQuorum b ob) = ''Storage resources are insufficient for the write operation '' @ b @ ''/'' @ ob"
| "errorMessage (FastOpenNoFallbackError None) = ''FastOpen unavailable and fallback disabled''"
| "errorMessage (FastOpenNoFallbackError (Some c)) = ''FastOpen unavailable and fallback disabled: '' @ errorMessage c"
| "errorMessage (Wrapped s e) = errorMessage e @ '' ('' @ s @ '')''"
| "errorMessage (OtherErr s) = s"
| "errorMessage (GoPanic s) = s"

section \<open>Errors of the object layer\<close>

datatype api_error =
    BucketNotFound string | BucketNotEmpty string | BucketExists string | StorageFull | SlowDown
  | PrefixAccessDenied string string | ObjectExistsAsDirectory string string | VersionNotFound string string string
  | MethodNotAllowed string string | ObjectNotFound string string | InvalidUploadID string string string
  | ObjectNameInvalid string string | ObjectTooLarge string string | ObjectTooSmall string string
  | ApiReadQuorum string string RQErrType | ApiWriteQuorum string string | IncompleteBody string string
  | PlainErr gerror

definition globalDirSuffix :: string where "globalDirSuffix = ''__XLDIR__''"

definition decodeDirObject :: "string \<Rightarrow> string" where
  "decodeDirObject object =
     (if suffix globalDirSuffix object then take (length object - length globalDirSuffix) object @ ''/'' else object)"

definition param :: "string list \<Rightarrow> nat \<Rightarrow> string" where
  "param params i = (if i < length params then params ! i else [])"

definition toObjectErr :: "gerror \<Rightarrow> string list \<Rightarrow> api_error" where
  "toObjectErr oerr params =
     (let err = unwrapAll oerr; msg = errorMessage err;
          bucket = param params 0; object = (if 2 \<le> length params then decodeDirObject (params ! 1) else []); version = param params 2
      in if err = ContextCanceled then PlainErr ContextCanceled
         else if msg = errorMessage ErrVolumeNotFound then BucketNotFound bucket
         else if msg = ''volume is not empty'' then BucketNotEmpty bucket
         else if msg = ''volume already exists'' then BucketExists bucket
         else if msg = ''drive path full'' then StorageFull
         else if msg = ''too many open files, please increase '' @ [CHR 0x27] @ ''ulimit -n'' @ [CHR 0x27] then SlowDown
         else if msg = ''file access denied'' then PrefixAccessDenied bucket object
         else if msg = ''not of regular file type'' then ObjectExistsAsDirectory bucket object
         else if msg = errorMessage ErrFileVersionNotFound then VersionNotFound bucket object version
         else if msg = errorMessage ErrMethodNotAllowed then MethodNotAllowed bucket object
         else if msg = errorMessage ErrFileNotFound then ObjectNotFound bucket object
         else if msg = ''Specified Upload ID is not found'' then InvalidUploadID bucket object version
         else if msg = ''file name too long'' then ObjectNameInvalid bucket object
         else if msg = ''Object size larger than allowed limit'' then ObjectTooLarge bucket object
         else if msg = ''Object size smaller than expected'' then ObjectTooSmall bucket object
         else if msg = errorMessage ErrErasureReadQuorum
           then ApiReadQuorum bucket object (case oerr of InsufficientReadQuorum b ob ty \<Rightarrow> ty | _ \<Rightarrow> RQUnset)
         else if msg = errorMessage ErrErasureWriteQuorum then ApiWriteQuorum bucket object
         else if msg = errorMessage IoUnexpectedEOF \<or> msg = ''short write'' \<or> msg = errorMessage ContextCanceled \<or> msg = errorMessage ContextDeadlineExceeded
           then IncompleteBody bucket object
         else PlainErr err)"

text \<open>However a quorum error was wrapped on its way, the caller gets the quorum error; a lost file or version is not found.\<close>

lemma toObjectErr_sentinels:
  "unwrapAll e = ErrErasureReadQuorum \<Longrightarrow> \<exists>ty. toObjectErr e [b, ob] = ApiReadQuorum b (decodeDirObject ob) ty"
  "unwrapAll e = ErrErasureWriteQuorum \<Longrightarrow> toObjectErr e [b, ob] = ApiWriteQuorum b (decodeDirObject ob)"
  "unwrapAll e = ErrFileNotFound \<Longrightarrow> toObjectErr e [b, ob] = ObjectNotFound b (decodeDirObject ob)"
  "unwrapAll e = ErrFileVersionNotFound \<Longrightarrow> toObjectErr e [b, ob] = VersionNotFound b (decodeDirObject ob) []"
  by (simp_all add: toObjectErr_def param_def Let_def)

end
