(* ===== verification/Erasure_Get.thy ===== *)
theory Erasure_Get
  imports Erasure_Stack Disk_Shuffle Path_Join Object_Errors
begin

text \<open>
  Serving an object (\<open>getObjectWithFileInfo\<close> of \<open>cmd/erasure-object.go\<close>): the drives in the order of the shards, then
  part by part a reader per drive (\<open>cmd/bitrot.go\<close>, \<open>cmd/bitrot-whole.go\<close>) and one \<open>Decode\<close>, with a heal requested when
  shards were missing or damaged.
\<close>

section \<open>Readers\<close>

text \<open>What is used of a drive: whether it is local, \<open>ReadFileStream\<close>, and \<open>ReadFile\<close>, which verifies the whole file.\<close>

record get_disk =
  gd_local :: bool
  gd_ReadFileStream :: "string \<Rightarrow> int \<Rightarrow> int \<Rightarrow> gerror + byte list"
  gd_ReadFile :: "string \<Rightarrow> int \<Rightarrow> int \<Rightarrow> BitrotAlgorithm \<times> byte list \<Rightarrow> gerror + byte list"

record wholeBitrotReader =
  wb_ReadFile :: "int \<Rightarrow> int \<Rightarrow> gerror + byte list"
  wb_tillOffset :: int
  wb_buf :: "byte list option"

definition wholeBitrot_ReadAt :: "wholeBitrotReader \<Rightarrow> int \<Rightarrow> int \<Rightarrow> wholeBitrotReader \<times> (gerror + byte list)" where
  "wholeBitrot_ReadAt b offset n =
     (case (case wb_buf b of
              Some buf \<Rightarrow> (b, Inr buf)
            | None \<Rightarrow>
                if wb_tillOffset b - offset < 0 then (b, Inl (GoPanic ''makeslice: len out of range''))
                else (case wb_ReadFile b offset (wb_tillOffset b - offset) of
                        Inl err \<Rightarrow> (b\<lparr>wb_buf := Some (replicate (nat (wb_tillOffset b - offset)) 0)\<rparr>, Inl err)
                      | Inr buf \<Rightarrow> (b, Inr buf))) of
        (b1, Inl err) \<Rightarrow> (b1, Inl err)
      | (b1, Inr buf) \<Rightarrow>
          if int (length buf) < n then (b1\<lparr>wb_buf := Some buf\<rparr>, Inl errLessData)
          else (b1\<lparr>wb_buf := Some (drop (nat n) buf)\<rparr>, Inr (take (nat n) buf)))"

datatype bitrotReader = StreamingReader drive_reader | WholeReader wholeBitrotReader

definition newBitrotReader ::
  "get_disk \<Rightarrow> byte list \<Rightarrow> string \<Rightarrow> int \<Rightarrow> BitrotAlgorithm \<Rightarrow> byte list \<Rightarrow> int \<Rightarrow> bitrotReader" where
  "newBitrotReader disk dat filePath tillOffset algo hsum shardSize =
     (if algo = HighwayHash256S
      then StreamingReader (newStreamingBitrotReader dat tillOffset 32 shardSize, gd_ReadFileStream disk filePath)
      else WholeReader \<lparr>wb_ReadFile = (\<lambda>off n. gd_ReadFile disk filePath off n (algo, hsum)), wb_tillOffset = tillOffset, wb_buf = None\<rparr>)"

definition bitrotReader_ReadAt :: "(BitrotAlgorithm \<Rightarrow> byte list \<Rightarrow> byte list) \<Rightarrow> int \<Rightarrow> bitrotReader ReadAt" where
  "bitrotReader_ReadAt H shardSize r offset n =
     (case r of
        StreamingReader d \<Rightarrow> (case bitrot_ReadAt H shardSize d offset n of (d', res) \<Rightarrow> (StreamingReader d', res))
      | WholeReader w \<Rightarrow> (case wholeBitrot_ReadAt w offset n of (w', res) \<Rightarrow> (WholeReader w', res)))"

section \<open>The parts\<close>

definition part_path :: "string \<Rightarrow> FileInfo \<Rightarrow> int \<Rightarrow> string" where
  "part_path object meta partNumber = pathJoin [object, fi_DataDir meta, ''part.'' @ itoa partNumber]"

text \<open>The reader of a drive, nil if it is offline or its metadata do not fit.\<close>

definition part_reader ::
  "string \<Rightarrow> FileInfo \<Rightarrow> Erasure \<Rightarrow> int \<Rightarrow> int \<Rightarrow> get_disk option \<Rightarrow> FileInfo \<Rightarrow> bitrotReader option" where
  "part_reader object fi erasure partNumber tillOffset disk meta =
     (case disk of
        None \<Rightarrow> None
      | Some d \<Rightarrow>
          if \<not> IsValid meta then None
          else if \<not> ErasureInfo_Equal (fi_Erasure meta) (fi_Erasure fi) then None
          else let checksumInfo = GetChecksumInfo (fi_Erasure meta) partNumber
               in Some (newBitrotReader d (elems (fi_Data meta)) (part_path object meta partNumber) tillOffset
                    (ck_Algorithm checksumInfo) (elems (ck_Hash checksumInfo)) (Erasure_ShardSize erasure)))"

text \<open>The readers, and which of them are preferred: the local ones.\<close>

fun part_readers ::
  "string \<Rightarrow> FileInfo \<Rightarrow> Erasure \<Rightarrow> int \<Rightarrow> int \<Rightarrow> get_disk option list \<Rightarrow> FileInfo list \<Rightarrow> gerror + (bitrotReader option \<times> bool) list" where
  "part_readers object fi erasure partNumber tillOffset [] metas = Inr []"
| "part_readers object fi erasure partNumber tillOffset (Some d # disks) [] = Inl (GoPanic ''index out of range'')"
| "part_readers object fi erasure partNumber tillOffset (None # disks) metas =
     (case part_readers object fi erasure partNumber tillOffset disks (tl metas) of
        Inl e \<Rightarrow> Inl e | Inr rs \<Rightarrow> Inr ((None, False) # rs))"
| "part_readers object fi erasure partNumber tillOffset (Some d # disks) (meta # metas) =
     (case part_readers object fi erasure partNumber tillOffset disks metas of
        Inl e \<Rightarrow> Inl e
      | Inr rs \<Rightarrow> let r = part_reader object fi erasure partNumber tillOffset (Some d) meta
                  in Inr ((r, r \<noteq> None \<and> gd_local d) # rs))"

text \<open>The result: the destination, the heal that was requested, if any, with its \<open>BitrotScan\<close>, and the error.\<close>

fun get_parts ::
  "(BitrotAlgorithm \<Rightarrow> byte list \<Rightarrow> byte list) \<Rightarrow> 'w Writer \<Rightarrow> (byte list list \<Rightarrow> gerror + byte list list) \<Rightarrow> (nat \<Rightarrow> int \<Rightarrow> pr_label list)
   \<Rightarrow> string \<Rightarrow> string \<Rightarrow> FileInfo \<Rightarrow> FileInfo list \<Rightarrow> get_disk option list \<Rightarrow> Erasure \<Rightarrow> int
   \<Rightarrow> nat \<Rightarrow> nat \<Rightarrow> int \<Rightarrow> int \<Rightarrow> 'w \<Rightarrow> bool option \<Rightarrow> ('w \<times> bool option \<times> api_error option) option" where
  "get_parts H W RD scheds bucket object fi metaArr onlineDisks erasure len 0 partIndex partOffset totalBytesRead dst healed = Some (dst, healed, None)"
| "get_parts H W RD scheds bucket object fi metaArr onlineDisks erasure len (Suc togo) partIndex partOffset totalBytesRead dst healed =
     (if len = totalBytesRead then Some (dst, healed, None)
      else case load_at partIndex (elems (fi_Parts fi)) of
        Inl e \<Rightarrow> Some (dst, healed, Some (PlainErr e))
      | Inr part \<Rightarrow>
          let partNumber = pt_Number part; partSize = pt_Size part;
              partLength = (if partSize - partOffset > len - totalBytesRead then len - totalBytesRead else partSize - partOffset)
          in case Erasure_ShardFileOffset erasure partOffset partLength partSize of
               Inl e \<Rightarrow> Some (dst, healed, Some (PlainErr e))
             | Inr tillOffset \<Rightarrow>
                 case part_readers object fi erasure partNumber tillOffset onlineDisks metaArr of
                   Inl e \<Rightarrow> Some (dst, healed, Some (PlainErr e))
                 | Inr readers \<Rightarrow>
                    case Decode (bitrotReader_ReadAt H (Erasure_ShardSize erasure)) W RD (scheds partIndex) erasure dst
                           (map fst readers) partOffset partLength partSize (map snd readers) of
                      None \<Rightarrow> None
                    | Some (dst', org, written, err) \<Rightarrow>
                        let noted = (written = partLength \<and> (IsErr err [ErrFileNotFound] \<or> IsErr err [ErrFileCorrupt]));
                            healed' = (if noted \<and> healed = None then Some (IsErr err [ErrFileCorrupt]) else healed)
                        in case (if noted then None else err) of
                             Some e \<Rightarrow> Some (dst', healed', Some (toObjectErr e [bucket, object]))
                           | None \<Rightarrow> get_parts H W RD scheds bucket object fi metaArr onlineDisks erasure len togo (Suc partIndex) 0
                                       (totalBytesRead + partLength) dst' healed')"

definition getObjectWithFileInfo ::
  "(BitrotAlgorithm \<Rightarrow> byte list \<Rightarrow> byte list) \<Rightarrow> 'w Writer \<Rightarrow> (byte list list \<Rightarrow> gerror + byte list list) \<Rightarrow> (nat \<Rightarrow> int \<Rightarrow> pr_label list)
   \<Rightarrow> string \<Rightarrow> string \<Rightarrow> int \<Rightarrow> int \<Rightarrow> 'w \<Rightarrow> FileInfo \<Rightarrow> FileInfo list \<Rightarrow> get_disk option list
   \<Rightarrow> ('w \<times> bool option \<times> api_error option) option" where
  "getObjectWithFileInfo H W RD scheds bucket object startOffset len0 dst fi metaArr0 onlineDisks0 =
     (case shuffleDisksAndPartsMetadataByIndex onlineDisks0 metaArr0 fi of
        Inl e \<Rightarrow> Some (dst, None, Some (PlainErr e))
      | Inr (onlineDisks, metaArr) \<Rightarrow>
          let len = (if len0 < 0 then fi_Size fi - startOffset else len0);
              bad = Some (dst, None, Some (PlainErr (InvalidRange startOffset len (fi_Size fi))))
          in if startOffset > fi_Size fi \<or> startOffset + len > fi_Size fi then bad
             else case ObjectToPartOffset fi startOffset of
               Inl e \<Rightarrow> bad
             | Inr (partIndex, partOffset) \<Rightarrow>
                 let endOffset = (if len > 0 then startOffset + len - 1 else startOffset)
                 in case ObjectToPartOffset fi endOffset of
                      Inl e \<Rightarrow> bad
                    | Inr (lastPartIndex, _) \<Rightarrow>
                        (case NewErasure (ei_DataBlocks (fi_Erasure fi)) (ei_ParityBlocks (fi_Erasure fi)) (ei_BlockSize (fi_Erasure fi)) of
                           Inl e \<Rightarrow> Some (dst, None, Some (toObjectErr e [bucket, object]))
                         | Inr erasure \<Rightarrow>
                             get_parts H W RD scheds bucket object fi metaArr onlineDisks erasure len
                               (nat (lastPartIndex - partIndex + 1)) (nat partIndex) partOffset 0 dst None))"

section \<open>The readers under the decoder\<close>

text \<open>Of a reader that streams what holds of its drive; the whole-file readers, of objects of older versions, are left aside.\<close>

definition streaming :: "(drive_reader \<Rightarrow> bool) \<Rightarrow> bitrotReader \<Rightarrow> bool" where
  "streaming P r = (case r of StreamingReader d \<Rightarrow> P d | WholeReader w \<Rightarrow> False)"

lemma wholeBitrot_fills: "0 < n \<Longrightarrow> wholeBitrot_ReadAt w off n = (w', Inr b) \<Longrightarrow> int (length b) = n"
  by (auto simp: wholeBitrot_ReadAt_def split: prod.splits sum.splits option.splits if_splits)

interpretation gr: live_reader "bitrotReader_ReadAt H (int s)" "int s" "\<lambda>r ps. streaming (\<lambda>d. drive_serves H s d ps) r"
  "\<lambda>r ps k. streaming (\<lambda>d. drive_ready H s bound d ps k) r" "\<lambda>r ps. streaming (\<lambda>d. drive_fresh H s bound d ps) r" bound
  for H s bound
proof unfold_locales
  show "fills (bitrotReader_ReadAt H (int s))"
    unfolding fills_def
  proof (intro allI impI)
    fix r off n r' b assume n: "0 < n" and rd: "bitrotReader_ReadAt H (int s) r off n = (r', Inr b)"
    show "int (length b) = n"
    proof (cases r)
      case (StreamingReader d)
      then obtain d' where "bitrot_ReadAt H (int s) d off n = (d', Inr b)" using rd by (auto simp: bitrotReader_ReadAt_def split: prod.splits)
      then show ?thesis using dr.fills n unfolding fills_def by blast
    next
      case (WholeReader w)
      then show ?thesis using rd wholeBitrot_fills[OF n] by (auto simp: bitrotReader_ReadAt_def split: prod.splits)
    qed
  qed
  show "b = bs ! k \<and> streaming (\<lambda>d. drive_serves H s d bs) r'"
    if "streaming (\<lambda>d. drive_serves H s d bs) r" "k < length bs" "bitrotReader_ReadAt H (int s) r (int k * int s) (int (length (bs ! k))) = (r', Inr b)"
    for r bs k r' b
    using that drive_serves_block[OF _ that(2)] by (cases r) (auto simp: streaming_def bitrotReader_ReadAt_def split: prod.splits)
  show "\<exists>r'. bitrotReader_ReadAt H (int s) r (int k * int s) (int (length (bs ! k))) = (r', Inr (bs ! k))
      \<and> streaming (\<lambda>d. drive_ready H s bound d bs (Suc k)) r'"
    if ready: "streaming (\<lambda>d. drive_ready H s bound d bs k) r" "k < length bs" "k < bound" for r bs k
  proof (cases r)
    case (StreamingReader d)
    then have "drive_ready H s bound d bs k" using ready(1) by (simp add: streaming_def)
    from drive_ready_block[OF this ready(2,3)] obtain d'
      where "bitrot_ReadAt H (int s) d (int k * int s) (int (length (bs ! k))) = (d', Inr (bs ! k))" "drive_ready H s bound d' bs (Suc k)" by blast
    then show ?thesis using StreamingReader by (intro exI[of _ "StreamingReader d'"]) (simp add: streaming_def bitrotReader_ReadAt_def)
  qed (use ready in \<open>simp add: streaming_def\<close>)
  show "streaming (\<lambda>d. drive_fresh H s bound d bs) r \<Longrightarrow> streaming (\<lambda>d. drive_ready H s bound d bs k) r" for r bs k
    by (cases r) (simp_all add: streaming_def drive_ready_def)
qed

text \<open>What a drive has of a part: at the place its metadata name, a file that shows its damage; or the file that was written.\<close>

definition part_file :: "string \<Rightarrow> get_disk \<Rightarrow> FileInfo \<Rightarrow> int \<Rightarrow> byte list \<Rightarrow> bool" where
  "part_file object d meta n f \<longleftrightarrow>
     (if elems (fi_Data meta) = [] then reads_file (gd_ReadFileStream d (part_path object meta n)) f else elems (fi_Data meta) = f)"

definition part_intact :: "string \<Rightarrow> get_disk \<Rightarrow> FileInfo \<Rightarrow> int \<Rightarrow> byte list \<Rightarrow> bool" where
  "part_intact object d meta n f \<longleftrightarrow>
     (if elems (fi_Data meta) = [] then gd_ReadFileStream d (part_path object meta n) = disk_stream f else elems (fi_Data meta) = f)"

definition fits_version :: "FileInfo \<Rightarrow> FileInfo \<Rightarrow> bool" where
  "fits_version fi meta \<longleftrightarrow> IsValid meta \<and> ErasureInfo_Equal (fi_Erasure meta) (fi_Erasure fi)"

definition streams_part :: "int \<Rightarrow> FileInfo \<Rightarrow> bool" where
  "streams_part n meta \<longleftrightarrow> ck_Algorithm (GetChecksumInfo (fi_Erasure meta) n) = HighwayHash256S"

lemma part_reader_streaming:
  assumes "streams_part n meta"
  shows "part_reader object fi e n till disk meta =
    (case disk of
       None \<Rightarrow> None
     | Some d \<Rightarrow> if fits_version fi meta
         then Some (StreamingReader (newStreamingBitrotReader (elems (fi_Data meta)) till 32 (Erasure_ShardSize e), gd_ReadFileStream d (part_path object meta n)))
         else None)"
  using assms by (simp add: part_reader_def fits_version_def streams_part_def newBitrotReader_def Let_def split: option.splits)

lemma part_reader_shard:
  assumes "part_reader object fi e n till disk meta = Some r" and "streams_part n meta"
    and "\<And>d. disk = Some d \<Longrightarrow> part_file object d meta n f" and "damage_shows H (nat (Erasure_ShardSize e)) ps f"
  shows "streaming (shard_drive H e ps) r"
proof -
  obtain d where d: "disk = Some d" "r = StreamingReader (newStreamingBitrotReader (elems (fi_Data meta)) till 32 (Erasure_ShardSize e),
      gd_ReadFileStream d (part_path object meta n))"
    using assms(1) unfolding part_reader_streaming[OF assms(2)] by (auto split: option.splits if_splits)
  have "reader_of f (newStreamingBitrotReader (elems (fi_Data meta)) till 32 (Erasure_ShardSize e), gd_ReadFileStream d (part_path object meta n))"
    using assms(3)[OF d(1)] by (simp add: reader_of_def part_file_def newStreamingBitrotReader_def)
  then show ?thesis using assms(4) unfolding d(2) streaming_def shard_drive_def bitrotReader.case fst_conv by blast
qed

lemma part_reader_intact:
  assumes "disk = Some d" and "fits_version fi meta" and "streams_part n meta"
    and "part_intact object d meta n f" and "Erasure_ShardFileOffset e offset len sz = Inr till"
  shows "\<exists>r. part_reader object fi e n till disk meta = Some r \<and> streaming (intact_drive e f offset len sz) r"
  unfolding part_reader_streaming[OF assms(3)] using assms
  by (simp add: streaming_def intact_drive_def part_intact_def exI[of _ "elems (fi_Data meta)"])

lemma part_readers_nth:
  assumes "length disks = length metas"
  shows "\<exists>rs. part_readers object fi e n till disks metas = Inr rs \<and> length rs = length disks
    \<and> (\<forall>i < length disks. fst (rs ! i) = part_reader object fi e n till (disks ! i) (metas ! i))"
  using assms
proof (induction disks metas rule: list_induct2)
  case (Cons disk disks meta metas)
  then obtain rs where rs: "part_readers object fi e n till disks metas = Inr rs" "length rs = length disks"
    "\<forall>i < length disks. fst (rs ! i) = part_reader object fi e n till (disks ! i) (metas ! i)" by blast
  show ?case
  proof (cases disk)
    case None
    then show ?thesis using rs by (auto simp: part_reader_def nth_Cons split: nat.splits)
  next
    case (Some d)
    then show ?thesis using rs by (auto simp: Let_def nth_Cons split: nat.splits)
  qed
qed simp

text \<open>A part is served by drives if none of them can pass off damage as the part, and the drives \<open>L\<close> have it.\<close>

definition part_served ::
  "(BitrotAlgorithm \<Rightarrow> byte list \<Rightarrow> byte list) \<Rightarrow> Erasure \<Rightarrow> string \<Rightarrow> FileInfo \<Rightarrow> get_disk option list \<Rightarrow> FileInfo list \<Rightarrow> nat set
   \<Rightarrow> int \<Rightarrow> (nat \<Rightarrow> byte list list) \<Rightarrow> bool" where
  "part_served H e object fi disks metas L n shards \<longleftrightarrow>
     (\<forall>i < drives e. \<forall>d. disks ! i = Some d \<longrightarrow> fits_version fi (metas ! i) \<longrightarrow> streams_part n (metas ! i)
        \<and> (\<exists>f. part_file object d (metas ! i) n f \<and> damage_shows H (nat (Erasure_ShardSize e)) (shards i) f))
     \<and> (\<forall>i \<in> L. \<exists>d. disks ! i = Some d \<and> fits_version fi (metas ! i) \<and> streams_part n (metas ! i)
        \<and> part_intact object d (metas ! i) n (bitrot_encode (H HighwayHash256S) (shards i)))"

lemma part_reader_fits: "part_reader object fi e n till disk meta = Some r \<Longrightarrow> (\<exists>d. disk = Some d) \<and> fits_version fi meta"
  by (auto simp: part_reader_def fits_version_def split: option.splits if_splits)

lemma part_decoded:
  assumes "rs_code Split Enc RD RC e" and "erasure_ok e" and "hash_ok H" and "never_fails W" "sink W got"
    and range: "0 \<le> offset" "0 \<le> len" "offset + len \<le> int (length src)"
    and ld: "length disks = drives e" "length metas = drives e"
    and served: "part_served H e object fi disks metas L n (object_shards Split Enc e src)"
    and L: "L \<subseteq> {i. i < drives e}" "er_dataBlocks e \<le> int (card L)"
    and till: "Erasure_ShardFileOffset e offset len (int (length src)) = Inr till"
  shows "\<exists>readers. part_readers object fi e n till disks metas = Inr readers
    \<and> (\<exists>scheds res. Decode (bitrotReader_ReadAt H (Erasure_ShardSize e)) W RD scheds e dst (map fst readers) offset len (int (length src)) (map snd readers) = Some res)
    \<and> (\<forall>scheds dst' org k err.
         Decode (bitrotReader_ReadAt H (Erasure_ShardSize e)) W RD scheds e dst (map fst readers) offset len (int (length src)) (map snd readers) = Some (dst', org, k, err)
         \<longrightarrow> k = len \<and> noted err \<and> got dst' = got dst @ take (nat len) (drop (nat offset) src))"
proof -
  let ?s = "nat (Erasure_ShardSize e)" and ?z = "(offset + len) div er_blockSize e" and ?ps = "object_shards Split Enc e src"
  have s: "int ?s = Erasure_ShardSize e" using shard_size_pos[OF assms(2)] by simp
  obtain rs where rs: "part_readers object fi e n till disks metas = Inr rs" "length rs = drives e"
    "\<And>i. i < drives e \<Longrightarrow> map fst rs ! i = part_reader object fi e n till (disks ! i) (metas ! i)"
    using part_readers_nth[of disks metas object fi e n till] ld by auto
  have serves: "streaming (\<lambda>d. drive_serves H ?s d (?ps i)) r" if i: "i < drives e" "map fst rs ! i = Some r" for i r
  proof -
    have r: "part_reader object fi e n till (disks ! i) (metas ! i) = Some r" using i rs(3) by simp
    from part_reader_fits[OF r] obtain d where d: "disks ! i = Some d" "fits_version fi (metas ! i)" by blast
    then obtain f where f: "streams_part n (metas ! i)" "part_file object d (metas ! i) n f" "damage_shows H ?s (?ps i) f"
      using served i(1) unfolding part_served_def by blast
    have "streaming (shard_drive H e (?ps i)) r"
      by (rule part_reader_shard[OF r f(1) _ f(3)]) (use f(2) d in simp)
    then show ?thesis using new_reader_serves[OF assms(1,2) i(1)] by (cases r) (simp_all add: streaming_def)
  qed
  have fresh: "\<exists>r. map fst rs ! i = Some r \<and> streaming (\<lambda>d. drive_fresh H ?s (Suc (nat ?z)) d (?ps i)) r" if i: "i \<in> L" for i
  proof -
    have lt: "i < drives e" using i L(1) by blast
    obtain d where d: "disks ! i = Some d" "fits_version fi (metas ! i)" "streams_part n (metas ! i)"
      "part_intact object d (metas ! i) n (bitrot_encode (H HighwayHash256S) (?ps i))"
      using served i unfolding part_served_def by blast
    obtain r where r: "part_reader object fi e n till (disks ! i) (metas ! i) = Some r"
      "streaming (intact_drive e (bitrot_encode (H HighwayHash256S) (?ps i)) offset len (int (length src))) r"
      using part_reader_intact[OF d till] by blast
    then show ?thesis using rs(3)[OF lt] new_reader_fresh[OF assms(1,2) lt assms(3) range] by (cases r) (simp_all add: streaming_def)
  qed
  have lr: "length (map fst rs) = drives e" using rs(2) by simp
  have z: "?z < int (Suc (nat ?z))" by simp
  note returns = gr.decode_returns[where s = ?s and H = H, unfolded s, OF assms(1,2) refl lr serves]
    and live = gr.decode_live[where s = ?s and H = H and bound = "Suc (nat ?z)", unfolded s]
  show ?thesis
  proof (intro exI[of _ rs] conjI[OF rs(1)] conjI[OF returns] allI impI)
    fix scheds dst' org k err
    assume d: "Decode (bitrotReader_ReadAt H (Erasure_ShardSize e)) W RD scheds e dst (map fst rs) offset len (int (length src)) (map snd rs) = Some (dst', org, k, err)"
    show "k = len \<and> noted err \<and> got dst' = got dst @ take (nat len) (drop (nat offset) src)"
      unfolding noted_def by (rule live[OF assms(1,2) refl assms(4,5) range lr serves L fresh z d])
  qed
qed

section \<open>All parts\<close>

lemma get_parts_schedules:
  assumes "\<And>i. partIndex \<le> i \<Longrightarrow> scheds i = scheds' i"
  shows "get_parts H W RD scheds bucket object fi metas disks e len togo partIndex off sent dst healed
    = get_parts H W RD scheds' bucket object fi metas disks e len togo partIndex off sent dst healed"
  using assms
proof (induction togo arbitrary: partIndex off sent dst healed)
  case (Suc togo)
  have "get_parts H W RD scheds bucket object fi metas disks e len togo (Suc partIndex) 0 sent' dst' healed'
    = get_parts H W RD scheds' bucket object fi metas disks e len togo (Suc partIndex) 0 sent' dst' healed'" for sent' dst' healed'
    by (rule Suc.IH) (simp add: Suc.prems)
  moreover have "scheds partIndex = scheds' partIndex" by (simp add: Suc.prems)
  ultimately show ?case by (simp add: Let_def cong: sum.case_cong option.case_cong prod.case_cong if_cong)
qed simp

text \<open>What is left of the object from an offset in a part on.\<close>

lemma drop_concat:
  assumes "j < length xs" and "o1 \<le> length (xs ! j)"
  shows "drop (length (concat (take j xs)) + o1) (concat xs) = drop o1 (xs ! j) @ concat (drop (Suc j) xs)"
proof -
  have "concat xs = concat (take j xs) @ xs ! j @ concat (drop (Suc j) xs)"
    by (metis append_take_drop_id assms(1) concat.simps(2) concat_append Cons_nth_drop_Suc)
  then show ?thesis using assms(2) by simp
qed

lemma ShardFileOffset_total: "erasure_ok e \<Longrightarrow> \<exists>till. Erasure_ShardFileOffset e off n (int sz) = Inr till"
  using ShardFileSize_nat[of e sz] by (auto simp: Erasure_ShardFileOffset_def erasure_ok_def Let_def)

lemma noted_IsErr: "noted (Some err) \<Longrightarrow> IsErr (Some err) [ErrFileNotFound] \<or> IsErr (Some err) [ErrFileCorrupt]"
  by (auto simp: noted_def)

lemma get_parts_exact:
  assumes code: "rs_code Split Enc RD RC e" "erasure_ok e" "hash_ok H" and W: "never_fails W" "sink W got"
    and ld: "length disks = drives e" "length metas = drives e"
    and L: "\<forall>j < length ps. L j \<subseteq> {i. i < drives e} \<and> er_dataBlocks e \<le> int (card (L j))"
    and ps: "elems (fi_Parts fi) = ps" "length srcs = length ps" "\<forall>j < length ps. pt_Size (ps ! j) = int (length (srcs ! j))"
    and served: "\<forall>j < length ps. part_served H e object fi disks metas (L j) (pt_Number (ps ! j)) (object_shards Split Enc e (srcs ! j))"
  defines "front \<equiv> \<lambda>j. length (concat (take j srcs))"
  shows "partIndex + togo \<le> length ps \<Longrightarrow> sent \<le> len \<Longrightarrow> 0 \<le> off
    \<Longrightarrow> len \<noteq> sent \<longrightarrow> (0 < togo \<longrightarrow> off \<le> pt_Size (ps ! partIndex)) \<and> int (front partIndex) + off + (len - sent) \<le> int (front (partIndex + togo))
    \<Longrightarrow> (\<exists>scheds res. get_parts H W RD scheds bucket object fi metas disks e len togo partIndex off sent dst healed = Some res)
      \<and> (\<forall>scheds dst' healed' err. get_parts H W RD scheds bucket object fi metas disks e len togo partIndex off sent dst healed = Some (dst', healed', err)
          \<longrightarrow> err = None \<and> got dst' = got dst @ take (nat (len - sent)) (drop (front partIndex + nat off) (concat srcs)))"
proof (induction togo arbitrary: partIndex off sent dst healed)
  case 0
  then have "len = sent" by auto
  then show ?case by simp
next
  case (Suc togo)
  let ?G = "\<lambda>scheds. get_parts H W RD scheds bucket object fi metas disks e len (Suc togo) partIndex off sent dst healed"
  show ?case
  proof (cases "len = sent")
    case True
    then show ?thesis by simp
  next
    case False
    let ?part = "ps ! partIndex" and ?src = "srcs ! partIndex"
    define pl where "pl = (if int (length ?src) - off > len - sent then len - sent else int (length ?src) - off)"
    have j: "partIndex < length ps" "partIndex < length srcs" using Suc.prems(1) ps(2) by simp_all
    have sz: "pt_Size ?part = int (length ?src)" using ps(3) j by simp
    have off: "0 \<le> off" "off \<le> int (length ?src)" using Suc.prems(3,4) False sz by auto
    have pl: "0 \<le> pl" "off + pl \<le> int (length ?src)" "sent + pl \<le> len" using off Suc.prems(2) sz by (auto simp: pl_def)
    obtain till where till: "Erasure_ShardFileOffset e off pl (int (length ?src)) = Inr till"
      using ShardFileOffset_total[OF code(2)] by blast
    obtain rs where rs: "part_readers object fi e (pt_Number ?part) till disks metas = Inr rs"
      and dec: "\<exists>scheds res. Decode (bitrotReader_ReadAt H (Erasure_ShardSize e)) W RD scheds e dst (map fst rs) off pl (int (length ?src)) (map snd rs) = Some res"
        "\<And>scheds dst' org k err. Decode (bitrotReader_ReadAt H (Erasure_ShardSize e)) W RD scheds e dst (map fst rs) off pl (int (length ?src)) (map snd rs) = Some (dst', org, k, err)
          \<Longrightarrow> k = pl \<and> noted err \<and> got dst' = got dst @ take (nat pl) (drop (nat off) ?src)"
      using part_decoded[OF code W off(1) pl(1,2) ld served[rule_format, OF j(1)] L(1)[rule_format, OF j(1), THEN conjunct1]
          L(1)[rule_format, OF j(1), THEN conjunct2] till] by blast
    let ?D = "\<lambda>scheds. Decode (bitrotReader_ReadAt H (Erasure_ShardSize e)) W RD (scheds partIndex) e dst (map fst rs) off pl (int (length ?src)) (map snd rs)"
    have load: "load_at partIndex (elems (fi_Parts fi)) = Inr ?part" using j ps(1) by (simp add: load_at_def)
    define heal where "heal = (\<lambda>err. if (IsErr err [ErrFileNotFound] \<or> IsErr err [ErrFileCorrupt]) \<and> healed = None then Some (IsErr err [ErrFileCorrupt]) else healed)"
    have G: "?G scheds = (case ?D scheds of None \<Rightarrow> None
        | Some (dst', org, written, err) \<Rightarrow> get_parts H W RD scheds bucket object fi metas disks e len togo (Suc partIndex) 0 (sent + pl) dst' (heal err))" for scheds
    proof (cases "?D scheds")
      case None
      then show ?thesis using False load rs till sz by (simp add: Let_def pl_def[symmetric])
    next
      case (Some res)
      obtain dst' org k err where res: "res = (dst', org, k, err)" by (cases res) auto
      have "k = pl" "noted err" using dec(2)[OF Some[unfolded res]] by auto
      then show ?thesis using False load rs till sz Some noted_IsErr unfolding res
        by (cases err) (simp_all add: Let_def pl_def[symmetric] heal_def)
    qed
    have fs: "front (Suc partIndex) = front partIndex + length ?src" using j by (simp add: front_def take_Suc_conv_app_nth)
    have more: "pl = int (length ?src) - off \<or> len = sent + pl" by (auto simp: pl_def sz)
    have IH: "(\<exists>scheds res. get_parts H W RD scheds bucket object fi metas disks e len togo (Suc partIndex) 0 (sent + pl) dst' healed' = Some res)
      \<and> (\<forall>scheds dst'' healed'' err. get_parts H W RD scheds bucket object fi metas disks e len togo (Suc partIndex) 0 (sent + pl) dst' healed' = Some (dst'', healed'', err)
          \<longrightarrow> err = None \<and> got dst'' = got dst' @ take (nat (len - (sent + pl))) (drop (front (Suc partIndex)) (concat srcs)))" for dst' healed'
    proof -
      have "len \<noteq> sent + pl \<longrightarrow> (0 < togo \<longrightarrow> 0 \<le> pt_Size (ps ! Suc partIndex))
          \<and> int (front (Suc partIndex)) + 0 + (len - (sent + pl)) \<le> int (front (Suc partIndex + togo))"
        using Suc.prems(1,4) False more fs ps(3) by auto
      from Suc.IH[OF _ pl(3) order_refl this] show ?thesis using Suc.prems(1) by simp
    qed
    have piece: "take (nat pl) (drop (nat off) ?src) @ take (nat (len - (sent + pl))) (drop (front (Suc partIndex)) (concat srcs))
        = take (nat (len - sent)) (drop (front partIndex + nat off) (concat srcs))"
    proof -
      have dr: "drop (front partIndex + nat off) (concat srcs) = drop (nat off) ?src @ concat (drop (Suc partIndex) srcs)"
        unfolding front_def by (rule drop_concat[OF j(2)]) (use off in simp)
      have rest: "drop (front (Suc partIndex)) (concat srcs) = concat (drop (Suc partIndex) srcs)"
        unfolding front_def by (metis append_take_drop_id append_eq_conv_conj concat_append)
      have n: "nat (len - sent) = nat pl + nat (len - (sent + pl))" using pl by simp
      show ?thesis
      proof (cases "len = sent + pl")
        case True
        then show ?thesis using pl off n unfolding dr rest by (simp add: le_diff_conv nat_le_iff)
      next
        case False
        then have "nat pl = length (drop (nat off) ?src)" using more off by auto
        then show ?thesis unfolding dr rest n by simp
      qed
    qed
    show ?thesis
    proof (intro conjI allI impI)
      obtain s1 res where s1: "Decode (bitrotReader_ReadAt H (Erasure_ShardSize e)) W RD s1 e dst (map fst rs) off pl (int (length ?src)) (map snd rs) = Some res"
        using dec(1) by blast
      obtain dst' org k err where res: "res = (dst', org, k, err)" by (cases res) auto
      obtain s2 res2 where s2: "get_parts H W RD s2 bucket object fi metas disks e len togo (Suc partIndex) 0 (sent + pl) dst' (heal err) = Some res2"
        using IH by blast
      have "?G (s2(partIndex := s1)) = Some res2"
        unfolding G using s1 s2 by (simp add: res get_parts_schedules[of "Suc partIndex" "s2(partIndex := s1)" s2])
      then show "\<exists>scheds res. ?G scheds = Some res" by blast
    next
      fix scheds dst'' healed'' err assume g: "?G scheds = Some (dst'', healed'', err)"
      then obtain dst' org k err' where d: "?D scheds = Some (dst', org, k, err')"
        "get_parts H W RD scheds bucket object fi metas disks e len togo (Suc partIndex) 0 (sent + pl) dst' (heal err') = Some (dst'', healed'', err)"
        unfolding G by (auto split: option.splits)
      show "err = None" "got dst'' = got dst @ take (nat (len - sent)) (drop (front partIndex + nat off) (concat srcs))"
        using IH d(2) dec(2)[OF d(1)] piece[symmetric] by auto
    qed
  qed
qed

section \<open>The object\<close>

lemma sum_lengths: "(\<Sum>x\<leftarrow>xs. int (length x)) = int (length (concat xs))"
  by (induction xs) simp_all

lemma sum_part_sizes:
  assumes "length srcs = length ps" and "\<forall>j < length ps. pt_Size (ps ! j) = int (length (srcs ! j))"
  shows "(\<Sum>p\<leftarrow>take j ps. pt_Size p) = int (length (concat (take j srcs)))"
proof -
  have "map pt_Size ps = map (\<lambda>x. int (length x)) srcs" using assms by (auto simp: list_eq_iff_nth_eq)
  then have "map pt_Size (take j ps) = map (\<lambda>x. int (length x)) (take j srcs)" by (metis take_map)
  then show ?thesis by (simp add: sum_lengths)
qed

lemma to_part:
  assumes ps: "elems (fi_Parts fi) = ps" "length srcs = length ps" "\<forall>j < length ps. pt_Size (ps ! j) = int (length (srcs ! j))"
    and "0 < offset" and "offset < int (length (concat srcs))"
  shows "\<exists>i o1. ObjectToPartOffset fi offset = Inr (int i, o1) \<and> i < length ps \<and> 0 \<le> o1 \<and> o1 < pt_Size (ps ! i)
    \<and> offset = int (length (concat (take i srcs))) + o1"
proof -
  have pos: "\<forall>p \<in> set ps. 0 \<le> pt_Size p" using ps(3) by (auto simp: in_set_conv_nth)
  have "(\<Sum>p\<leftarrow>ps. pt_Size p) = int (length (concat srcs))" using sum_part_sizes[OF ps(2,3), of "length ps"] ps(2) by simp
  then show ?thesis
    using object_to_part_offset_correct[OF assms(4), of fi] pos assms(5) sum_part_sizes[OF ps(2,3)] unfolding ps(1)
    by (auto split: sum.splits intro!: exI[of _ "nat _"])
qed

text \<open>C1: as long as every part has \<open>dataBlocks\<close> drives of its own that have their shard of it as it was written, the requested
  range of the object, over all its parts, is handed out byte for byte by \<open>getObjectWithFileInfo\<close>, which returns, and without an error.
  The parts are stored in the streaming bitrot format. The other drives may be missing, hold another version, fail, or return what is
  not the shard, different drives for different parts, with one condition: no block that is not the block of the shard comes with the hash
  that fits it (\<open>damage_shows\<close>). A stale shard, stored with hashes of its own, is not covered: the bitrot reader takes it as it is.\<close>

theorem get_object_exact:
  assumes "rs_code Split Enc RD RC e" and "erasure_ok e" and "hash_ok H" and "never_fails W" and "sink W got"
    and "NewErasure (ei_DataBlocks (fi_Erasure fi)) (ei_ParityBlocks (fi_Erasure fi)) (ei_BlockSize (fi_Erasure fi)) = Inr e"
    and "shuffleDisksAndPartsMetadataByIndex onlineDisks metaArr fi = Inr (disks, metas)"
    and "length disks = drives e" and "length metas = drives e"
    and "\<forall>j < length ps. L j \<subseteq> {i. i < drives e} \<and> er_dataBlocks e \<le> int (card (L j))"
    and "elems (fi_Parts fi) = ps" and "length srcs = length ps" and "\<forall>j < length ps. pt_Size (ps ! j) = int (length (srcs ! j))"
    and "fi_Size fi = int (length (concat srcs))" and "concat srcs = [] \<or> srcs ! 0 \<noteq> []"
    and "\<forall>j < length ps. part_served H e object fi disks metas (L j) (pt_Number (ps ! j)) (object_shards Split Enc e (srcs ! j))"
    and "0 \<le> startOffset" and "startOffset < fi_Size fi \<or> startOffset = 0"
    and "n = (if len < 0 then fi_Size fi - startOffset else len)" and "startOffset + n \<le> fi_Size fi"
  shows "(\<exists>scheds res. getObjectWithFileInfo H W RD scheds bucket object startOffset len dst fi metaArr onlineDisks = Some res)
    \<and> (\<forall>scheds dst' healed err. getObjectWithFileInfo H W RD scheds bucket object startOffset len dst fi metaArr onlineDisks = Some (dst', healed, err)
        \<longrightarrow> err = None \<and> got dst' = got dst @ take (nat n) (drop (nat startOffset) (concat srcs)))"
proof -
  note ps = assms(11-13)
  have n0: "0 \<le> n" using assms(14,17-20) by auto
  let ?front = "\<lambda>j. int (length (concat (take j srcs)))"
  define endo where "endo = (if n > 0 then startOffset + n - 1 else startOffset)"
  have at: "\<exists>i o1. ObjectToPartOffset fi offset = Inr (int i, o1) \<and> 0 \<le> o1 \<and> offset = ?front i + o1
      \<and> (concat srcs \<noteq> [] \<longrightarrow> i < length ps \<and> o1 < pt_Size (ps ! i))"
    if range: "0 \<le> offset" "offset < fi_Size fi \<or> offset = 0" for offset
  proof (cases "offset = 0")
    case True
    have "concat srcs \<noteq> [] \<longrightarrow> 0 < length ps \<and> 0 < pt_Size (ps ! 0)"
    proof
      assume ne: "concat srcs \<noteq> []"
      then have "0 < length ps" unfolding ps(2)[symmetric] by auto
      then show "0 < length ps \<and> 0 < pt_Size (ps ! 0)" using disjE[OF assms(15)] ne ps(3) by (metis length_greater_0_conv of_nat_0_less_iff)
    qed
    then show ?thesis using True by (intro exI[of _ 0]) (simp add: ObjectToPartOffset_def)
  next
    case False
    then show ?thesis using to_part[OF ps, of offset] range assms(14) by auto
  qed
  obtain i o1 where i: "ObjectToPartOffset fi startOffset = Inr (int i, o1)" "0 \<le> o1" "startOffset = ?front i + o1"
      "concat srcs \<noteq> [] \<longrightarrow> i < length ps \<and> o1 < pt_Size (ps ! i)"
    using at[OF assms(17,18)] by blast
  have "0 \<le> endo" "endo < fi_Size fi \<or> endo = 0" using assms(17,18,20) by (auto simp: endo_def)
  from at[OF this] obtain l o2 where l: "ObjectToPartOffset fi endo = Inr (int l, o2)" "0 \<le> o2" "endo = ?front l + o2"
      "concat srcs \<noteq> [] \<longrightarrow> l < length ps \<and> o2 < pt_Size (ps ! l)" by blast
  have G: "getObjectWithFileInfo H W RD scheds bucket object startOffset len dst fi metaArr onlineDisks
      = get_parts H W RD scheds bucket object fi metas disks e n (nat (int l - int i + 1)) i o1 0 dst None" for scheds
  proof -
    have "\<not> (startOffset > fi_Size fi \<or> startOffset + n > fi_Size fi)" using n0 assms(20) by simp
    then show ?thesis using assms(6,7) i(1) l(1)
      by (simp add: getObjectWithFileInfo_def assms(19)[symmetric] endo_def[symmetric] Let_def)
  qed
  show ?thesis
  proof (cases "n = 0")
    case True
    have "get_parts H W RD scheds bucket object fi metas disks e 0 k i o1 0 dst None = Some (dst, None, None)" for scheds k by (cases k) simp_all
    then show ?thesis unfolding G True by simp
  next
    case False
    have "0 < length (concat srcs)" using False n0 assms(14,17,20) by linarith
    then have "concat srcs \<noteq> []" by (rule iffD1[OF length_greater_0_conv])
    then have il: "i < length ps" "l < length ps" "o1 < pt_Size (ps ! i)" "o2 < pt_Size (ps ! l)" using i(4) l(4) by simp_all
    have fs: "?front (Suc j) = ?front j + pt_Size (ps ! j)" if "j < length ps" for j
      using that ps(2,3) by (simp add: take_Suc_conv_app_nth)
    have mono: "?front a \<le> ?front b" if "a \<le> b" for a b
    proof -
      have "take b srcs = take a srcs @ take (b - a) (drop a srcs)" using that by (metis le_add_diff_inverse take_add)
      then show ?thesis by simp
    qed
    have end_l: "startOffset + n \<le> ?front (Suc l)" using l(3) False n0 fs[OF il(2)] il(4) by (simp add: endo_def)
    have "i \<le> l"
    proof (rule ccontr)
      assume "\<not> i \<le> l"
      then have "?front (Suc l) \<le> ?front i" by (intro mono) simp
      then show False using end_l i(2,3) False n0 by simp
    qed
    then have togo: "i + nat (int l - int i + 1) = Suc l" by simp
    have "n \<noteq> 0 \<longrightarrow> (0 < nat (int l - int i + 1) \<longrightarrow> o1 \<le> pt_Size (ps ! i)) \<and> ?front i + o1 + (n - 0) \<le> ?front (i + nat (int l - int i + 1))"
      using il(3) end_l i(3) unfolding togo by simp
    note all = get_parts_exact[OF assms(1-5) assms(8-13) assms(16) _ n0 i(2) this, unfolded togo]
    have "nat startOffset = length (concat (take i srcs)) + nat o1" using i(2,3) by simp
    then show ?thesis unfolding G using all[of bucket dst None] il(2) by simp
  qed
qed

section \<open>An example\<close>

text \<open>An object of two parts with the bytes 1 to 5 each, on three drives: the first and the third hold their shards, the files of
  the second are empty.\<close>

definition object_drive :: "nat \<Rightarrow> get_disk" where
  "object_drive i = \<lparr>gd_local = (i = 2),
     gd_ReadFileStream = (\<lambda>path. disk_stream
       (if i = 1 then [] else bitrot_encode (length_hash HighwayHash256S) (object_shards xor_split xor_encode (xor_erasure 4) sample_src i))),
     gd_ReadFile = (\<lambda>path off n v. Inl ErrFileNotFound)\<rparr>"

definition object_meta :: "int \<Rightarrow> FileInfo" where
  "object_meta i = FileInfo0\<lparr>fi_Erasure := ErasureInfo0\<lparr>ei_DataBlocks := 2, ei_ParityBlocks := 1, ei_BlockSize := 4, ei_Index := i,
     ei_Distribution := Some [2, 3, 1]\<rparr>, fi_Size := 10,
     fi_Parts := Some [ObjectPartInfo0\<lparr>pt_Number := 1, pt_Size := 5\<rparr>, ObjectPartInfo0\<lparr>pt_Number := 2, pt_Size := 5\<rparr>]\<rparr>"

lemma object_meta_simps:
  "fi_Size (object_meta i) = 10"
  "elems (fi_Parts (object_meta i)) = [ObjectPartInfo0\<lparr>pt_Number := 1, pt_Size := 5\<rparr>, ObjectPartInfo0\<lparr>pt_Number := 2, pt_Size := 5\<rparr>]"
  by (simp_all add: object_meta_def)

lemma object_drives_serve:
  "part_served length_hash (xor_erasure 4) object (object_meta 1) (map (\<lambda>i. Some (object_drive i)) [0, 1, 2]) (map object_meta [1, 2, 3]) {0, 2}
     n (object_shards xor_split xor_encode (xor_erasure 4) sample_src)"
proof -
  let ?ps = "object_shards xor_split xor_encode (xor_erasure 4) sample_src"
  let ?f = "\<lambda>i. bitrot_encode (length_hash HighwayHash256S) (?ps i)" and ?disks = "map (\<lambda>i. Some (object_drive i)) [0, 1, 2]"
    and ?metas = "map object_meta [1, 2, 3]"
  have fits: "fits_version (object_meta 1) (object_meta i) \<and> streams_part n (object_meta i) \<and> elems (fi_Data (object_meta i)) = []"
    if "i = 1 \<or> i = 2 \<or> i = 3" for i
    using that by (auto simp: fits_version_def streams_part_def object_meta_def IsValid_def ErasureInfo_Equal_def GetChecksumInfo_def
        FileInfo0_def ErasureInfo0_def DefaultBitrotAlgorithm_def Let_def)
  have reads: "reads_file (disk_stream f) f" for f by (auto simp: reads_file_def disk_stream_def split: if_splits)
  have good: "\<exists>f. part_file object (object_drive i) (object_meta m) n f \<and> damage_shows length_hash 2 (?ps i) f"
    and intact: "part_intact object (object_drive i) (object_meta m) n (?f i)"
    if "i < 3" "i \<noteq> 1" "m = 1 \<or> m = 2 \<or> m = 3" for i m
  proof -
    have "damage_shows length_hash 2 (?ps i) (?f i)"
      using damage_shows_intact[OF hash_ok_length_hash cut_shards[OF xor_code xor_sample(1), of i sample_src]] that by (simp add: xor_sample)
    then show "\<exists>f. part_file object (object_drive i) (object_meta m) n f \<and> damage_shows length_hash 2 (?ps i) f"
      using fits[OF that(3)] that(2) reads by (intro exI[of _ "?f i"]) (simp add: part_file_def object_drive_def)
    show "part_intact object (object_drive i) (object_meta m) n (?f i)"
      using fits[OF that(3)] that(2) by (simp add: part_intact_def object_drive_def)
  qed
  have bad: "\<exists>f. part_file object (object_drive 1) (object_meta 2) n f \<and> damage_shows length_hash 2 (?ps 1) f"
    using fits[of 2] reads[of "[]"] unfolding xor_shards
    by (intro exI[of _ "[]"]) (simp add: part_file_def object_drive_def damage_shows_def Let_def less_Suc_eq)
  have at: "i = 0 \<or> i = 1 \<or> i = 2" if "i < 3" for i :: nat using that by auto
  show ?thesis
    unfolding part_served_def xor_sample
  proof (intro conjI allI impI ballI)
    fix i d assume i: "i < 3" "?disks ! i = Some d"
    from i(1) at show "streams_part n (?metas ! i)" using fits by fastforce
    from i(1) at consider "i = 0" | "i = 1" | "i = 2" by fastforce
    then show "\<exists>f. part_file object d (?metas ! i) n f \<and> damage_shows length_hash (nat 2) (?ps i) f"
      by cases (use i(2) good[of 0 1] good[of 2 3] bad in auto)
  next
    fix i :: nat assume "i \<in> {0, 2}"
    then consider "i = 0" | "i = 2" by blast
    then show "\<exists>d. ?disks ! i = Some d \<and> fits_version (object_meta 1) (?metas ! i) \<and> streams_part n (?metas ! i)
        \<and> part_intact object d (?metas ! i) n (?f i)"
      by cases (use intact[of 0 1] intact[of 2 3] fits in auto)
  qed
qed

theorem get_object_exact_witness:
  "\<exists>scheds healed. getObjectWithFileInfo length_hash list_sink xor_reconstruct scheds ''bucket'' ''object'' 3 4 [] (object_meta 1)
      (map object_meta [2, 3, 1]) (map (\<lambda>i. Some (object_drive i)) [1, 2, 0]) = Some ([4, 5, 1, 2], healed, None)"
proof -
  have sh: "shuffleDisksAndPartsMetadataByIndex (map (\<lambda>i. Some (object_drive i)) [1, 2, 0]) (map object_meta [2, 3, 1]) (object_meta 1)
      = Inr (map (\<lambda>i. Some (object_drive i)) [0, 1, 2], map object_meta [1, 2, 3])"
    by (simp add: shuffleDisksAndPartsMetadataByIndex_def object_meta_def FileInfo0_def ErasureInfo0_def IsValid_def load_at_def store_at_def Let_def
        numeral_eq_Suc)
  have er: "NewErasure (ei_DataBlocks (fi_Erasure (object_meta 1))) (ei_ParityBlocks (fi_Erasure (object_meta 1))) (ei_BlockSize (fi_Erasure (object_meta 1)))
      = Inr (xor_erasure 4)"
    by (simp add: NewErasure_def object_meta_def xor_erasure_def)
  let ?G = "\<lambda>scheds. getObjectWithFileInfo length_hash list_sink xor_reconstruct scheds ''bucket'' ''object'' 3 4 [] (object_meta 1)
      (map object_meta [2, 3, 1]) (map (\<lambda>i. Some (object_drive i)) [1, 2, 0])"
  have *: "(\<exists>scheds res. ?G scheds = Some res) \<and> (\<forall>scheds dst' healed err. ?G scheds = Some (dst', healed, err)
      \<longrightarrow> err = None \<and> dst' = [] @ take (nat 4) (drop (nat 3) (concat [sample_src, sample_src])))"
  proof (rule get_object_exact[where L = "\<lambda>j. {0, 2}", OF xor_code xor_sample(1) hash_ok_length_hash list_sink er sh])
    show "\<forall>j < length (elems (fi_Parts (object_meta 1))). part_served length_hash (xor_erasure 4) ''object'' (object_meta 1)
        (map (\<lambda>i. Some (object_drive i)) [0, 1, 2]) (map object_meta [1, 2, 3]) {0, 2} (pt_Number (elems (fi_Parts (object_meta 1)) ! j))
        (object_shards xor_split xor_encode (xor_erasure 4) ([sample_src, sample_src] ! j))"
      using object_drives_serve[of "''object''"] by (simp add: object_meta_simps less_Suc_eq)
    show "\<forall>j < length (elems (fi_Parts (object_meta 1))). pt_Size (elems (fi_Parts (object_meta 1)) ! j) = int (length ([sample_src, sample_src] ! j))"
      by (simp add: object_meta_simps less_Suc_eq sample_src_def)
  qed (simp_all add: xor_sample object_meta_simps sample_src_def)
  then obtain scheds dst' healed err where g: "?G scheds = Some (dst', healed, err)" by (metis prod_cases3)
  moreover have "take (nat 4) (drop (nat 3) (concat [sample_src, sample_src])) = [4, 5, 1, 2]" by code_simp
  ultimately have "err = None" "dst' = [4, 5, 1, 2]" using * by auto
  then show ?thesis using g by blast
qed

end
