(* ===== verification/XL_Header.thy ===== *)
theory XL_Header
  imports Go_Errors "HOL-Library.Multiset"
begin

unbundle bit_operations_syntax

text \<open>
  The header of a version in the journal of an object (\<open>cmd/xl-storage-format-v2.go\<close>): what is compared between
  drives without decoding the version itself, and the order of the journal.
\<close>

section \<open>Headers\<close>

type_synonym VersionType = "8 word"

definition invalidVersionType :: VersionType where [simp]: "invalidVersionType = 0"
definition ObjectType :: VersionType where [simp]: "ObjectType = 1"
definition DeleteType :: VersionType where [simp]: "DeleteType = 2"
definition LegacyType :: VersionType where [simp]: "LegacyType = 3"
definition lastVersionType :: VersionType where [simp]: "lastVersionType = 4"

definition VersionType_valid :: "VersionType \<Rightarrow> bool" where
  "VersionType_valid e \<longleftrightarrow> e > invalidVersionType \<and> e < lastVersionType"

type_synonym xlFlags = "8 word"

definition xlFlagFreeVersion :: xlFlags where "xlFlagFreeVersion = push_bit 0 1"
definition xlFlagUsesDataDir :: xlFlags where "xlFlagUsesDataDir = push_bit 1 1"
definition xlFlagInlineData :: xlFlags where "xlFlagInlineData = push_bit 2 1"

definition xlFlags_String :: "xlFlags \<Rightarrow> string" where
  "xlFlags_String x =
     (let s1 = (if x AND xlFlagFreeVersion \<noteq> 0 then ''FreeVersion'' else []);
          s2 = (if x AND xlFlagUsesDataDir \<noteq> 0 then (if s1 \<noteq> [] then s1 @ '','' else s1) @ ''UsesDD'' else s1)
      in if x AND xlFlagInlineData \<noteq> 0 then (if s2 \<noteq> [] then s2 @ '','' else s2) @ ''Inline'' else s2)"

text \<open>Arrays of bytes: version ids of 16, signatures of 4.\<close>

type_synonym uuid = "byte list"

definition uuid0 :: uuid where "uuid0 = replicate 16 0"

definition signature0 :: "byte list" where "signature0 = replicate 4 0"

record xlMetaV2VersionHeader =
  vh_VersionID :: uuid
  vh_ModTime :: int
  vh_Signature :: "byte list"
  vh_Type :: VersionType
  vh_Flags :: xlFlags
  vh_EcN :: byte
  vh_EcM :: byte

definition header0 :: xlMetaV2VersionHeader where
  "header0 = \<lparr>vh_VersionID = uuid0, vh_ModTime = 0, vh_Signature = signature0, vh_Type = 0, vh_Flags = 0, vh_EcN = 0, vh_EcM = 0\<rparr>"

definition hasEC :: "xlMetaV2VersionHeader \<Rightarrow> bool" where
  "hasEC x \<longleftrightarrow> vh_EcM x > 0 \<and> vh_EcN x > 0"

definition matchesEC :: "xlMetaV2VersionHeader \<Rightarrow> xlMetaV2VersionHeader \<Rightarrow> bool" where
  "matchesEC x o1 = (if hasEC x \<and> hasEC o1 then vh_EcN x = vh_EcN o1 \<and> vh_EcM x = vh_EcM o1 else True)"

definition matchesNotStrict :: "xlMetaV2VersionHeader \<Rightarrow> xlMetaV2VersionHeader \<Rightarrow> bool" where
  "matchesNotStrict x o1 =
     (let ok = (vh_VersionID x = vh_VersionID o1 \<and> vh_Type x = vh_Type o1 \<and> matchesEC x o1)
      in if vh_VersionID x = uuid0 then ok \<and> vh_ModTime o1 = vh_ModTime x else ok)"

definition header_FreeVersion :: "xlMetaV2VersionHeader \<Rightarrow> bool" where
  "header_FreeVersion x \<longleftrightarrow> vh_Flags x AND xlFlagFreeVersion \<noteq> 0"

definition header_UsesDataDir :: "xlMetaV2VersionHeader \<Rightarrow> bool" where
  "header_UsesDataDir x \<longleftrightarrow> vh_Flags x AND xlFlagUsesDataDir \<noteq> 0"

definition header_InlineData :: "xlMetaV2VersionHeader \<Rightarrow> bool" where
  "header_InlineData x \<longleftrightarrow> vh_Flags x AND xlFlagInlineData \<noteq> 0"

section \<open>The order of the journal\<close>

text \<open>\<open>bytes.Compare\<close>.\<close>

fun bytes_Compare :: "byte list \<Rightarrow> byte list \<Rightarrow> int" where
  "bytes_Compare [] [] = 0"
| "bytes_Compare [] (b # bs) = -1"
| "bytes_Compare (a # as) [] = 1"
| "bytes_Compare (a # as) (b # bs) = (if a < b then -1 else if b < a then 1 else bytes_Compare as bs)"

definition sortsBefore :: "xlMetaV2VersionHeader \<Rightarrow> xlMetaV2VersionHeader \<Rightarrow> bool" where
  "sortsBefore x o1 =
     (if x = o1 then False
      else if vh_ModTime x \<noteq> vh_ModTime o1 then vh_ModTime x > vh_ModTime o1
      else if vh_Type x \<noteq> vh_Type o1 then vh_Type x < vh_Type o1
      else let v = bytes_Compare (vh_Signature x) (vh_Signature o1)
        in if v \<noteq> 0 then v > 0
           else let v = bytes_Compare (vh_VersionID x) (vh_VersionID o1)
             in if v \<noteq> 0 then v > 0
                else if vh_Flags x \<noteq> vh_Flags o1 then vh_Flags x > vh_Flags o1
                else False)"

lemma bytes_Compare_eq [simp]: "bytes_Compare as bs = 0 \<longleftrightarrow> as = bs"
  by (induction as bs rule: bytes_Compare.induct) auto

lemma bytes_Compare_refl [simp]: "bytes_Compare as as = 0"
  by simp

lemma bytes_Compare_swap: "bytes_Compare bs as = - bytes_Compare as bs"
  by (induction as bs rule: bytes_Compare.induct) auto

lemma bytes_Compare_trans: "bytes_Compare as bs > 0 \<Longrightarrow> bytes_Compare bs cs > 0 \<Longrightarrow> bytes_Compare as cs > 0"
proof (induction as bs arbitrary: cs rule: bytes_Compare.induct)
  case (4 a as b bs)
  then show ?case by (cases cs) (auto split: if_splits)
next
  case (3 a as)
  then show ?case by (cases cs) auto
qed auto

text \<open>What the order looks at: everything but the erasure coding.\<close>

definition same_rank :: "xlMetaV2VersionHeader \<Rightarrow> xlMetaV2VersionHeader \<Rightarrow> bool" where
  "same_rank x y \<longleftrightarrow> vh_ModTime x = vh_ModTime y \<and> vh_Type x = vh_Type y \<and> vh_Signature x = vh_Signature y
     \<and> vh_VersionID x = vh_VersionID y \<and> vh_Flags x = vh_Flags y"

text \<open>\<open>sortsBefore\<close> is the lexicographic order of a few comparisons.\<close>

lemma sortsBefore_iff:
  "sortsBefore x y \<longleftrightarrow> vh_ModTime x > vh_ModTime y \<or> vh_ModTime x = vh_ModTime y \<and> (vh_Type x < vh_Type y \<or> vh_Type x = vh_Type y \<and>
     (bytes_Compare (vh_Signature x) (vh_Signature y) > 0 \<or> vh_Signature x = vh_Signature y \<and>
       (bytes_Compare (vh_VersionID x) (vh_VersionID y) > 0 \<or> vh_VersionID x = vh_VersionID y \<and> vh_Flags x > vh_Flags y)))"
  by (auto simp: sortsBefore_def Let_def)

lemma sortsBefore_irrefl [simp]: "\<not> sortsBefore x x"
  by (simp add: sortsBefore_def)

lemma sortsBefore_trans: "sortsBefore x y \<Longrightarrow> sortsBefore y z \<Longrightarrow> sortsBefore x z"
  using bytes_Compare_trans[of "vh_Signature x" "vh_Signature y" "vh_Signature z"]
    bytes_Compare_trans[of "vh_VersionID x" "vh_VersionID y" "vh_VersionID z"]
  unfolding sortsBefore_iff by (auto intro: less_trans)

lemma sortsBefore_total: "sortsBefore x y \<or> sortsBefore y x \<or> same_rank x y"
proof -
  have "as = bs \<or> bytes_Compare as bs > 0 \<or> bytes_Compare bs as > 0" for as bs
    using bytes_Compare_eq[of as bs] bytes_Compare_swap[of as bs] by linarith
  then show ?thesis unfolding sortsBefore_iff same_rank_def by (metis linorder_less_linear)
qed

lemma sortsBefore_rank: "same_rank x y \<Longrightarrow> sortsBefore x z = sortsBefore y z" "same_rank x y \<Longrightarrow> sortsBefore z x = sortsBefore z y"
  unfolding sortsBefore_iff same_rank_def by auto

lemma sortsBefore_modtime: "sortsBefore x y \<Longrightarrow> vh_ModTime y \<le> vh_ModTime x"
  unfolding sortsBefore_iff by auto

end
