(* ===== verification/XL_Merge.thy ===== *)
theory XL_Merge
  imports XL_Header "HOL-Library.Sublist"
begin

text \<open>
  \<open>mergeXLV2Versions\<close> of \<open>cmd/xl-storage-format-v2.go\<close>: the journals that several drives have of an object, each sorted
  with the newest version first, are merged into one that holds the versions a quorum of drives agrees on. The order in
  which a map is visited is a parameter.
\<close>

section \<open>One round\<close>

record xlMetaV2ShallowVersion =
  sv_header :: xlMetaV2VersionHeader
  sv_meta :: "byte list"

definition shallow0 :: xlMetaV2ShallowVersion where
  "shallow0 = \<lparr>sv_header = header0, sv_meta = []\<rparr>"

text \<open>The top versions of all journals, and whether they are all the same.\<close>

fun gather_tops :: "xlMetaV2ShallowVersion list list \<Rightarrow> xlMetaV2ShallowVersion list \<Rightarrow> xlMetaV2VersionHeader \<Rightarrow> bool
    \<Rightarrow> xlMetaV2ShallowVersion list \<times> bool" where
  "gather_tops [] tops topSig consistent = (tops, consistent)"
| "gather_tops ([] # versions) tops topSig consistent = gather_tops versions tops topSig False"
| "gather_tops ((ver # vers) # versions) tops topSig consistent =
     (if tops = [] then gather_tops versions (tops @ [ver]) (sv_header ver) True
      else gather_tops versions (tops @ [ver]) topSig (consistent \<and> sv_header ver = topSig))"

text \<open>The counting algorithm: how often each header occurs among the tops with the same version id, and the most
  frequent one; the signature does not count unless strict.\<close>

definition count_key :: "bool \<Rightarrow> xlMetaV2VersionHeader \<Rightarrow> xlMetaV2VersionHeader" where
  "count_key strict h = (if strict then h else h\<lparr>vh_Signature := signature0\<rparr>)"

fun count_headers :: "bool \<Rightarrow> xlMetaV2VersionHeader \<Rightarrow> xlMetaV2ShallowVersion list \<Rightarrow> (xlMetaV2VersionHeader \<times> int) list \<Rightarrow> (xlMetaV2VersionHeader \<times> int) list" where
  "count_headers strict ver [] x = x"
| "count_headers strict ver (a # tops) x =
     (if vh_VersionID (sv_header a) \<noteq> vh_VersionID ver then count_headers strict ver tops x
      else if \<not> strict \<and> \<not> matchesEC (sv_header a) ver then count_headers strict ver tops x
      else let k = count_key strict (sv_header a)
           in count_headers strict ver tops (AList.update k ((case map_of x k of None \<Rightarrow> 0 | Some n \<Rightarrow> n) + 1) x))"

fun pick_with_header :: "bool \<Rightarrow> xlMetaV2VersionHeader \<Rightarrow> xlMetaV2ShallowVersion list \<Rightarrow> xlMetaV2ShallowVersion \<Rightarrow> xlMetaV2ShallowVersion" where
  "pick_with_header strict k [] latest = latest"
| "pick_with_header strict k (a # tops) latest =
     pick_with_header strict k tops (if count_key strict (sv_header a) = k then a else latest)"

fun scan_counts :: "bool \<Rightarrow> xlMetaV2ShallowVersion list \<Rightarrow> (xlMetaV2VersionHeader \<times> int) list \<Rightarrow> xlMetaV2ShallowVersion \<Rightarrow> int
    \<Rightarrow> xlMetaV2ShallowVersion \<times> int" where
  "scan_counts strict tops [] latest latestCount = (latest, latestCount)"
| "scan_counts strict tops ((k, v) # x) latest latestCount =
     (if v < latestCount then scan_counts strict tops x latest latestCount
      else if v = latestCount \<and> sortsBefore (sv_header latest) k then scan_counts strict tops x latest latestCount
      else scan_counts strict tops x (pick_with_header strict k tops latest) v)"

text \<open>The latest of the tops and how many agree with it; \<open>first\<close> is \<open>i == 0\<close>, \<open>tops\<close> all of them.\<close>

type_synonym count_order = "(xlMetaV2VersionHeader \<times> int) list \<Rightarrow> (xlMetaV2VersionHeader \<times> int) list"

fun find_latest :: "count_order \<Rightarrow> bool \<Rightarrow> xlMetaV2ShallowVersion list \<Rightarrow> bool \<Rightarrow> xlMetaV2ShallowVersion list \<Rightarrow> xlMetaV2ShallowVersion \<Rightarrow> int
    \<Rightarrow> xlMetaV2ShallowVersion \<times> int" where
  "find_latest ord strict tops first [] latest latestCount = (latest, latestCount)"
| "find_latest ord strict tops first (ver # vers) latest latestCount =
     (if sv_header ver = sv_header latest then find_latest ord strict tops False vers latest (latestCount + 1)
      else if first \<or> sortsBefore (sv_header ver) (sv_header latest)
        then find_latest ord strict tops False vers ver
               (if first \<or> latestCount = 0 then 1
                else if \<not> strict \<and> matchesNotStrict (sv_header ver) (sv_header latest) then latestCount + 1
                else 1)
      else if latestCount > 0 \<and> \<not> strict \<and> matchesNotStrict (sv_header ver) (sv_header latest)
        then find_latest ord strict tops False vers latest (latestCount + 1)
      else if latestCount > 0 \<and> vh_VersionID (sv_header ver) = vh_VersionID (sv_header latest)
        then scan_counts strict tops (ord (count_headers strict (sv_header ver) tops [])) latest 0
      else find_latest ord strict tops False vers latest latestCount)"

text \<open>What a journal keeps of its top; the inner \<open>continue\<close> is that of the loop over \<open>merged\<close>.\<close>

fun drop_merged :: "uuid \<Rightarrow> xlMetaV2ShallowVersion list \<Rightarrow> 'a list \<Rightarrow> gerror + 'a list" where
  "drop_merged versionID [] vers = Inr vers"
| "drop_merged versionID (m # merged) vers =
     (if versionID = vh_VersionID (sv_header m)
      then (case vers of [] \<Rightarrow> Inl (GoPanic ''slice bounds out of range'') | v # vs \<Rightarrow> drop_merged versionID merged vs)
      else drop_merged versionID merged vers)"

fun truncate :: "xlMetaV2VersionHeader \<Rightarrow> xlMetaV2ShallowVersion list \<Rightarrow> xlMetaV2ShallowVersion list \<Rightarrow> gerror + xlMetaV2ShallowVersion list" where
  "truncate latest merged [] = Inr []"
| "truncate latest merged (ver # vers) =
     (if vh_ModTime (sv_header ver) > vh_ModTime latest \<or> sv_header ver = latest \<or> vh_VersionID latest = vh_VersionID (sv_header ver)
      then truncate latest merged vers
      else drop_merged (vh_VersionID (sv_header ver)) merged (ver # vers))"

fun truncate_all :: "xlMetaV2VersionHeader \<Rightarrow> xlMetaV2ShallowVersion list \<Rightarrow> xlMetaV2ShallowVersion list list \<Rightarrow> gerror + xlMetaV2ShallowVersion list list" where
  "truncate_all latest merged [] = Inr []"
| "truncate_all latest merged (vers # versions) =
     (case truncate latest merged vers of
        Inl e \<Rightarrow> Inl e
      | Inr v \<Rightarrow> (case truncate_all latest merged versions of Inl e \<Rightarrow> Inl e | Inr vs \<Rightarrow> Inr (v # vs)))"

text \<open>The choice of a round: the latest version, and whether it is merged.\<close>

definition choose_version :: "count_order \<Rightarrow> int \<Rightarrow> bool \<Rightarrow> xlMetaV2ShallowVersion list \<Rightarrow> bool \<Rightarrow> xlMetaV2ShallowVersion \<times> bool" where
  "choose_version ord quorum strict tops consistent =
     (if consistent then (hd tops, True)
      else (case find_latest ord strict tops True tops shallow0 0 of (latest, latestCount) \<Rightarrow> (latest, latestCount \<ge> quorum)))"

section \<open>Every round takes something off\<close>

lemma length_drop_merged: "drop_merged i merged vers = Inr vers' \<Longrightarrow> length vers' \<le> length vers"
  by (induction i merged vers rule: drop_merged.induct) (force split: if_splits list.splits)+

lemma length_truncate: "truncate latest merged vers = Inr vers' \<Longrightarrow> length vers' \<le> length vers"
  by (induction latest merged vers rule: truncate.induct) (auto split: if_splits dest: length_drop_merged)

lemma gather_tops_eq:
  "fst (gather_tops versions tops topSig c) = tops @ map hd (filter (\<lambda>v. v \<noteq> []) versions)"
  by (induction versions tops topSig c rule: gather_tops.induct) auto

lemma pick_in: "pick_with_header strict k tops latest \<in> insert latest (set tops)"
  by (induction strict k tops latest rule: pick_with_header.induct) (auto split: if_splits)

lemma scan_in: "fst (scan_counts strict tops x latest c) \<in> insert latest (set tops)"
proof (induction strict tops x latest c rule: scan_counts.induct)
  case (2 strict tops k v x latest c)
  then show ?case using pick_in[of strict k tops latest] by auto
qed auto

lemma latest_in:
  "set vers \<subseteq> set tops \<Longrightarrow> \<not> first \<Longrightarrow> sv_header latest \<in> sv_header ` set tops
    \<Longrightarrow> sv_header (fst (find_latest ord strict tops first vers latest c)) \<in> sv_header ` set tops"
proof (induction ord strict tops first vers latest c rule: find_latest.induct)
  case (2 ord strict tops first ver vers latest c)
  have "sv_header (fst (scan_counts strict tops (ord (count_headers strict (sv_header ver) tops [])) latest 0)) \<in> sv_header ` set tops"
    using scan_in[of strict tops "ord (count_headers strict (sv_header ver) tops [])" latest 0] 2(7) by auto
  then show ?case using 2 by auto
qed auto

lemma choose_in:
  assumes "tops \<noteq> []"
  shows "sv_header (fst (choose_version ord quorum strict tops c)) \<in> sv_header ` set tops"
proof -
  obtain t ts where t: "tops = t # ts" using assms by (cases tops) auto
  have "sv_header (fst (find_latest ord strict tops True tops shallow0 0)) \<in> sv_header ` set tops"
  proof (cases "sv_header t = sv_header shallow0")
    case True
    have "sv_header shallow0 \<in> sv_header ` set tops" using True t by auto
    from latest_in[of ts tops False shallow0, OF _ _ this] show ?thesis using t True by auto
  next
    case False
    have "sv_header t \<in> sv_header ` set tops" using t by auto
    from latest_in[of ts tops False t, OF _ _ this] show ?thesis using t False by auto
  qed
  then show ?thesis using t by (auto simp: choose_version_def split: prod.splits)
qed

section \<open>The loop\<close>

lemma truncate_all_lengths:
  "truncate_all latest merged versions = Inr versions' \<Longrightarrow> list_all2 (\<lambda>v v'. truncate latest merged v = Inr v') versions versions'"
  by (induction latest merged versions arbitrary: versions' rule: truncate_all.induct) (auto split: sum.splits)

lemma truncate_all_decreases:
  assumes "truncate_all latest merged versions = Inr versions'" and "v \<in> set versions" and "v \<noteq> []" and "sv_header (hd v) = latest"
  shows "sum_list (map length versions') < sum_list (map length versions)"
proof -
  have all: "list_all2 (\<lambda>v v'. truncate latest merged v = Inr v') versions versions'" by (rule truncate_all_lengths[OF assms(1)])
  have less: "length v' < length v" if "truncate latest merged v = Inr v'" for v'
    using that assms(3,4) length_truncate[of latest merged "tl v" v'] by (cases v) auto
  show ?thesis using all assms(2)
  proof (induction rule: list_all2_induct)
    case (Cons x xs y ys)
    have le: "length y \<le> length x" by (rule length_truncate[OF Cons(1)])
    have les: "sum_list (map length ys) \<le> sum_list (map length xs)"
      using Cons(2) by (induction rule: list_all2_induct) (auto dest: length_truncate intro: add_mono)
    show ?case
    proof (cases "v = x")
      case True
      then show ?thesis using less Cons(1) les by fastforce
    next
      case False
      then show ?thesis using Cons le by auto
    qed
  qed simp
qed

function merge_loop ::
  "count_order \<Rightarrow> int \<Rightarrow> bool \<Rightarrow> int \<Rightarrow> xlMetaV2ShallowVersion list list \<Rightarrow> xlMetaV2ShallowVersion list \<Rightarrow> int \<Rightarrow> gerror + xlMetaV2ShallowVersion list" where
  "merge_loop ord quorum strict requestedVersions versions merged nVersions =
     (case gather_tops versions [] header0 True of (tops, consistent) \<Rightarrow>
        if int (length tops) < quorum \<or> tops = [] then Inr merged
        else (case choose_version ord quorum strict tops consistent of (latest, take_it) \<Rightarrow>
          let merged = (if take_it then merged @ [latest] else merged);
              nVersions = (if take_it \<and> \<not> header_FreeVersion (sv_header latest) then nVersions + 1 else nVersions)
          in case truncate_all (sv_header latest) merged versions of
               Inl e \<Rightarrow> Inl e
             | Inr versions \<Rightarrow>
                 if requestedVersions > 0 \<and> requestedVersions = nVersions then Inr (merged @ hd versions)
                 else merge_loop ord quorum strict requestedVersions versions merged nVersions))"
  by pat_completeness auto

termination
proof (relation "measure (\<lambda>(ord, quorum, strict, requestedVersions, versions, merged, nVersions). sum_list (map length versions))", goal_cases)
  case (2 ord quorum strict requestedVersions versions merged nVersions tops consistent latest take_it merged' nVersions' versions')
  have tops: "tops = map hd (filter (\<lambda>v. v \<noteq> []) versions)"
    using 2(1) gather_tops_eq[of versions "[]" header0 True] by (metis append_Nil fst_conv)
  have "sv_header latest \<in> sv_header ` set tops" using choose_in[of tops ord quorum strict consistent] 2(2,3) by (metis fst_conv)
  then obtain v where "v \<in> set versions" "v \<noteq> []" "sv_header (hd v) = sv_header latest" unfolding tops by auto
  from truncate_all_decreases[OF 2(6) this] show ?case by simp
qed simp

declare merge_loop.simps [simp del]

definition mergeXLV2Versions ::
  "count_order \<Rightarrow> int \<Rightarrow> bool \<Rightarrow> int \<Rightarrow> xlMetaV2ShallowVersion list list \<Rightarrow> gerror + xlMetaV2ShallowVersion list" where
  "mergeXLV2Versions ord quorum0 strict requestedVersions versions =
     (let quorum = (if quorum0 \<le> 0 then 1 else quorum0)
      in if int (length versions) < quorum \<or> versions = [] then Inr []
         else if length versions = 1 then Inr (hd versions)
         else merge_loop ord quorum (if quorum = 1 then True else strict) requestedVersions versions [] 0)"

section \<open>How many agree\<close>

text \<open>What counts as the same version: the same header, or the same id and type.\<close>

definition agree :: "bool \<Rightarrow> xlMetaV2VersionHeader \<Rightarrow> xlMetaV2VersionHeader \<Rightarrow> bool" where
  "agree strict x y \<longleftrightarrow> (if strict then x = y else vh_VersionID x = vh_VersionID y \<and> vh_Type x = vh_Type y)"

lemma agree_refl [simp]: "agree strict x x"
  by (simp add: agree_def)

lemma agree_id: "agree strict x y \<Longrightarrow> vh_VersionID x = vh_VersionID y"
  by (auto simp: agree_def split: if_splits)

definition agreeing :: "bool \<Rightarrow> xlMetaV2VersionHeader \<Rightarrow> xlMetaV2ShallowVersion list \<Rightarrow> int" where
  "agreeing strict h vs = int (length (filter (\<lambda>v. agree strict (sv_header v) h) vs))"

lemma agreeing_simps [simp]:
  "agreeing strict h [] = 0"
  "agreeing strict h (v # vs) = (if agree strict (sv_header v) h then 1 else 0) + agreeing strict h vs"
  "agreeing strict h (vs @ ws) = agreeing strict h vs + agreeing strict h ws"
  by (simp_all add: agreeing_def)

lemma agreeing_nonneg: "0 \<le> agreeing strict h vs"
  by (simp add: agreeing_def)

lemma agreeing_cong: "agree False x y \<Longrightarrow> agreeing False x vs = agreeing False y vs"
  by (simp add: agreeing_def agree_def)

lemma count_headers_bound:
  "map_of (count_headers strict ver tops x) k = Some n \<Longrightarrow> \<exists>m. (case map_of x k of None \<Rightarrow> 0 | Some j \<Rightarrow> j) = n - m
     \<and> m \<le> int (length (filter (\<lambda>a. count_key strict (sv_header a) = k) tops)) \<and> (0 < m \<or> map_of x k = Some n)"
proof (induction strict ver tops x arbitrary: n rule: count_headers.induct)
  case (2 strict ver a tops x)
  let ?k = "count_key strict (sv_header a)"
  show ?case
  proof (cases "vh_VersionID (sv_header a) \<noteq> vh_VersionID ver \<or> (\<not> strict \<and> \<not> matchesEC (sv_header a) ver)")
    case True
    then obtain m where "(case map_of x k of None \<Rightarrow> 0 | Some j \<Rightarrow> j) = n - m"
      "m \<le> int (length (filter (\<lambda>a. count_key strict (sv_header a) = k) tops))" "0 < m \<or> map_of x k = Some n"
      using 2 by (auto split: if_splits)
    then show ?thesis by (intro exI[of _ m]) auto
  next
    case False
    then obtain m where "(case map_of (AList.update ?k ((case map_of x ?k of None \<Rightarrow> 0 | Some n \<Rightarrow> n) + 1) x) k of None \<Rightarrow> 0 | Some j \<Rightarrow> j) = n - m"
      "m \<le> int (length (filter (\<lambda>a. count_key strict (sv_header a) = k) tops))"
      "0 < m \<or> map_of (AList.update ?k ((case map_of x ?k of None \<Rightarrow> 0 | Some n \<Rightarrow> n) + 1) x) k = Some n"
      using 2(3)[OF _ _ refl] 2(4) by (auto simp: Let_def)
    then show ?thesis by (cases "k = ?k") (force simp: update_conv intro: exI[of _ "m + 1"] exI[of _ m])+
  qed
qed auto

lemma pick_key:
  "\<exists>a \<in> set tops. count_key strict (sv_header a) = k \<Longrightarrow> count_key strict (sv_header (pick_with_header strict k tops latest)) = k"
proof (induction strict k tops latest rule: pick_with_header.induct)
  case (2 strict k a tops latest)
  have "\<not> (\<exists>a \<in> set tops. count_key strict (sv_header a) = k) \<Longrightarrow> pick_with_header strict k tops l = l" for l
    by (induction tops arbitrary: l) auto
  then show ?case using 2 by (cases "\<exists>a \<in> set tops. count_key strict (sv_header a) = k") auto
qed simp

lemma count_key_agree: "count_key strict x = count_key strict y \<Longrightarrow> agree strict x y"
proof (cases strict)
  case False
  assume "count_key strict x = count_key strict y"
  then have "vh_VersionID (count_key strict x) = vh_VersionID (count_key strict y)" "vh_Type (count_key strict x) = vh_Type (count_key strict y)" by simp_all
  then show ?thesis using False by (simp add: agree_def count_key_def)
qed (simp add: agree_def count_key_def)

text \<open>The entries of a count never exceed the tops that agree, and none is zero.\<close>

definition counted :: "bool \<Rightarrow> xlMetaV2ShallowVersion list \<Rightarrow> (xlMetaV2VersionHeader \<times> int) list \<Rightarrow> bool" where
  "counted strict tops x \<longleftrightarrow> (\<forall>(k, n) \<in> set x. 0 < n \<and> n \<le> int (length (filter (\<lambda>a. count_key strict (sv_header a) = k) tops)))"

lemma length_filter_mono: "(\<And>a. P a \<Longrightarrow> Q a) \<Longrightarrow> length (filter P xs) \<le> length (filter Q xs)"
  by (induction xs) (auto intro: le_SucI)

lemma scan_counted:
  "counted strict tops x \<Longrightarrow> c \<le> agreeing strict (sv_header latest) tops \<Longrightarrow> scan_counts strict tops x latest c = (latest', c')
    \<Longrightarrow> c' \<le> agreeing strict (sv_header latest') tops"
proof (induction strict tops x latest c rule: scan_counts.induct)
  case (2 strict tops k v x latest c)
  let ?l = "pick_with_header strict k tops latest"
  have cnt: "0 < v" "v \<le> int (length (filter (\<lambda>a. count_key strict (sv_header a) = k) tops))" "counted strict tops x"
    using 2(4) by (auto simp: counted_def)
  then have "filter (\<lambda>a. count_key strict (sv_header a) = k) tops \<noteq> []" by auto
  then have key: "count_key strict (sv_header ?l) = k" by (intro pick_key) (auto simp: filter_empty_conv)
  have "length (filter (\<lambda>a. count_key strict (sv_header a) = k) tops) \<le> length (filter (\<lambda>a. agree strict (sv_header a) (sv_header ?l)) tops)"
    by (rule length_filter_mono) (use key count_key_agree in metis)
  then have "v \<le> agreeing strict (sv_header ?l) tops" using cnt(2) by (simp add: agreeing_def)
  then show ?case using 2 cnt(3) by (auto split: if_splits)
qed auto

lemma count_headers_counted:
  assumes "range_order ord"
  shows "counted strict tops (ord (count_headers strict ver tops []))"
  unfolding counted_def
proof (intro ballI, clarify)
  fix k n assume "(k, n) \<in> set (ord (count_headers strict ver tops []))"
  moreover have d: "distinct (map fst (count_headers strict ver tops x))" if "distinct (map fst x)" for x
    using that by (induction strict ver tops x rule: count_headers.induct) (auto simp: Let_def distinct_update)
  ultimately have "map_of (count_headers strict ver tops []) k = Some n"
    using range_order_set[OF assms] by (metis d distinct.simps(1) list.map(1) map_of_is_SomeI)
  from count_headers_bound[OF this] show "0 < n \<and> n \<le> int (length (filter (\<lambda>a. count_key strict (sv_header a) = k) tops))" by auto
qed

lemma find_latest_agree:
  assumes "range_order ord"
  shows "tops = seen @ vers \<Longrightarrow> (first \<longleftrightarrow> seen = []) \<Longrightarrow> (first \<longrightarrow> c = 0) \<Longrightarrow> 0 \<le> c \<Longrightarrow> c \<le> agreeing strict (sv_header latest) seen
    \<Longrightarrow> find_latest ord strict tops first vers latest c = (latest', c') \<Longrightarrow> c' \<le> agreeing strict (sv_header latest') tops"
proof (induction vers arbitrary: seen first latest c)
  case Nil
  then show ?case by simp
next
  case (Cons ver vers)
  let ?v = "sv_header ver" and ?l = "sv_header latest"
  note IH = Cons.IH[of "seen @ [ver]" False]
  have tops: "tops = (seen @ [ver]) @ vers" using Cons.prems(1) by simp
  have pos: "0 \<le> agreeing strict h vs" for h vs by (rule agreeing_nonneg)
  have sim: "agree strict ?v ?l \<and> (\<forall>vs. agreeing strict ?v vs = agreeing strict ?l vs)" if "\<not> strict \<and> matchesNotStrict ?v ?l"
  proof -
    have "agree False ?v ?l" using that by (auto simp: agree_def matchesNotStrict_def Let_def split: if_splits)
    then show ?thesis using that agreeing_cong by auto
  qed
  consider (same) "?v = ?l" | (newer) "?v \<noteq> ?l" "first \<or> sortsBefore ?v ?l"
    | (match) "?v \<noteq> ?l" "\<not> (first \<or> sortsBefore ?v ?l)" "c > 0 \<and> \<not> strict \<and> matchesNotStrict ?v ?l"
    | (vote) "?v \<noteq> ?l" "\<not> (first \<or> sortsBefore ?v ?l)" "\<not> (c > 0 \<and> \<not> strict \<and> matchesNotStrict ?v ?l)" "c > 0 \<and> vh_VersionID ?v = vh_VersionID ?l"
    | (skip) "?v \<noteq> ?l" "\<not> (first \<or> sortsBefore ?v ?l)" "\<not> (c > 0 \<and> \<not> strict \<and> matchesNotStrict ?v ?l)" "\<not> (c > 0 \<and> vh_VersionID ?v = vh_VersionID ?l)"
    by blast
  then show ?case
  proof cases
    case same
    then have "find_latest ord strict tops False vers latest (c + 1) = (latest', c')" using Cons.prems(6) by simp
    from IH[OF tops _ _ _ _ this] show ?thesis using Cons.prems(4,5) same by simp
  next
    case newer
    let ?c = "if first \<or> c = 0 then 1 else if \<not> strict \<and> matchesNotStrict ?v ?l then c + 1 else 1"
    have "find_latest ord strict tops False vers ver ?c = (latest', c')" using Cons.prems(6) newer by simp
    moreover have "?c \<le> agreeing strict ?v (seen @ [ver])"
      using Cons.prems(5) sim pos[of ?v seen] by auto
    ultimately show ?thesis using IH[OF tops, where latest = ver and c = ?c] Cons.prems(4) by simp
  next
    case match
    then have "find_latest ord strict tops False vers latest (c + 1) = (latest', c')" using Cons.prems(6) by simp
    from IH[OF tops _ _ _ _ this] show ?thesis using Cons.prems(4,5) match sim by simp
  next
    case vote
    then have "scan_counts strict tops (ord (count_headers strict ?v tops [])) latest 0 = (latest', c')"
      using Cons.prems(6) by (auto split: if_splits)
    from scan_counted[OF count_headers_counted[OF assms] pos this] show ?thesis .
  next
    case skip
    then have "find_latest ord strict tops False vers latest c = (latest', c')" using Cons.prems(6) by (auto split: if_splits)
    from IH[OF tops _ _ _ _ this] show ?thesis using Cons.prems(4,5) by simp
  qed
qed

lemma gather_consistent:
  "gather_tops versions tops topSig c = (tops', c') \<Longrightarrow> c' \<Longrightarrow> (tops \<noteq> [] \<longrightarrow> c \<longrightarrow> (\<forall>t \<in> set tops. sv_header t = topSig))
    \<Longrightarrow> tops' \<noteq> [] \<Longrightarrow> \<exists>h. \<forall>t \<in> set tops'. sv_header t = h"
proof (induction versions tops topSig c arbitrary: tops' c' rule: gather_tops.induct)
  case (3 ver vers versions tops topSig consistent)
  show ?case
  proof (cases "tops = []")
    case True
    show ?thesis by (rule 3(1)[OF True _ 3(4) _ 3(6)]) (use 3(3) True in simp_all)
  next
    case False
    show ?thesis by (rule 3(2)[OF False _ 3(4) _ 3(6)]) (use 3(3,5) False in simp_all)
  qed
next
  case (2 versions tops topSig consistent)
  then show ?case by simp
next
  case (1 tops topSig consistent)
  then show ?case by auto
qed

lemma choose_agree:
  assumes "range_order ord" and "gather_tops versions [] header0 True = (tops, consistent)" and "tops \<noteq> []" and "quorum \<le> int (length tops)"
    and "choose_version ord quorum strict tops consistent = (latest, True)"
  shows "quorum \<le> agreeing strict (sv_header latest) tops"
proof (cases consistent)
  case True
  obtain h where h: "\<forall>t \<in> set tops. sv_header t = h" using gather_consistent[OF assms(2) True] assms(3) by auto
  have "agree strict (sv_header t) (sv_header latest)" if "t \<in> set tops" for t
    using h that assms(3,5) True hd_in_set[OF assms(3)] by (auto simp: choose_version_def)
  then have "filter (\<lambda>v. agree strict (sv_header v) (sv_header latest)) tops = tops" by (simp add: filter_id_conv)
  then show ?thesis using assms(4) by (simp add: agreeing_def)
next
  case False
  then obtain c where "find_latest ord strict tops True tops shallow0 0 = (latest, c)" "quorum \<le> c"
    using assms(5) by (auto simp: choose_version_def split: prod.splits)
  then show ?thesis using find_latest_agree[OF assms(1), of tops "[]" tops True 0 strict shallow0 latest c] by auto
qed

section \<open>What is merged has a quorum\<close>

definition supporting :: "bool \<Rightarrow> xlMetaV2VersionHeader \<Rightarrow> xlMetaV2ShallowVersion list list \<Rightarrow> nat set" where
  "supporting strict h versions = {i. i < length versions \<and> (\<exists>w \<in> set (versions ! i). agree strict (sv_header w) h)}"

lemma agreeing_tops:
  "agreeing strict h (map hd (filter (\<lambda>v. v \<noteq> []) versions))
    = int (card {i. i < length versions \<and> versions ! i \<noteq> [] \<and> agree strict (sv_header (hd (versions ! i))) h})"
  by (simp add: agreeing_def filter_map comp_def length_filter_conv_card conj_commute)

lemma drop_merged_suffix: "drop_merged i merged vers = Inr vers' \<Longrightarrow> suffix vers' vers"
  by (induction i merged vers rule: drop_merged.induct) (auto split: if_splits list.splits intro: suffix_ConsI)

lemma truncate_suffix: "truncate latest merged vers = Inr vers' \<Longrightarrow> suffix vers' vers"
  by (induction latest merged vers rule: truncate.induct) (auto split: if_splits intro: suffix_ConsI dest: drop_merged_suffix)

lemma truncate_all_suffix: "truncate_all latest merged versions = Inr versions' \<Longrightarrow> list_all2 suffix versions' versions"
  using truncate_all_lengths[of latest merged versions versions'] by (auto simp: list_all2_conv_all_nth intro: truncate_suffix)

text \<open>A round: the tops, the latest, and how many agree with it if it is merged.\<close>

lemma round:
  assumes "range_order ord" and "gather_tops versions [] header0 True = (tops, consistent)" and "\<not> (int (length tops) < quorum \<or> tops = [])"
    and "choose_version ord quorum strict tops consistent = (latest, take_it)"
  shows "tops = map hd (filter (\<lambda>v. v \<noteq> []) versions)" and "\<exists>v \<in> set versions. v \<noteq> [] \<and> sv_header (hd v) = sv_header latest"
    and "take_it \<Longrightarrow> quorum \<le> int (card {i. i < length versions \<and> versions ! i \<noteq> [] \<and> agree strict (sv_header (hd (versions ! i))) (sv_header latest)})"
proof -
  show tops: "tops = map hd (filter (\<lambda>v. v \<noteq> []) versions)"
    using assms(2) gather_tops_eq[of versions "[]" header0 True] by simp
  have "sv_header latest \<in> sv_header ` set tops" using choose_in[of tops ord quorum strict consistent] assms(3,4) by auto
  then show "\<exists>v \<in> set versions. v \<noteq> [] \<and> sv_header (hd v) = sv_header latest" unfolding tops by auto
  show "take_it \<Longrightarrow> quorum \<le> int (card {i. i < length versions \<and> versions ! i \<noteq> [] \<and> agree strict (sv_header (hd (versions ! i))) (sv_header latest)})"
    using choose_agree[OF assms(1,2), of quorum strict latest] assms(3,4) unfolding tops agreeing_tops by auto
qed

lemma suffix_all_trans: "list_all2 suffix xs ys \<Longrightarrow> list_all2 suffix ys zs \<Longrightarrow> list_all2 suffix xs zs"
  by (rule list_all2_trans[OF suffix_order.trans])

lemma merge_loop_sound:
  "range_order ord \<Longrightarrow> merge_loop ord quorum strict requested versions merged n = Inr res \<Longrightarrow> list_all2 suffix versions orig
    \<Longrightarrow> \<forall>v \<in> set merged. quorum \<le> int (card (supporting strict (sv_header v) orig))
    \<Longrightarrow> \<exists>m rest. res = m @ rest \<and> (rest = [] \<or> 0 < requested \<and> suffix rest (hd orig))
        \<and> (\<forall>v \<in> set m. quorum \<le> int (card (supporting strict (sv_header v) orig)))"
proof (induction ord quorum strict requested versions merged n rule: merge_loop.induct)
  case (1 ord quorum strict requested versions merged n)
  obtain tops consistent where g: "gather_tops versions [] header0 True = (tops, consistent)" by fastforce
  show ?case
  proof (cases "int (length tops) < quorum \<or> tops = []")
    case True
    then have "res = merged" using 1(3) g by (simp add: merge_loop.simps[of ord quorum])
    then show ?thesis using 1(5) by (intro exI[of _ merged] exI[of _ "[]"]) simp
  next
    case False
    obtain latest take_it where c: "choose_version ord quorum strict tops consistent = (latest, take_it)" by fastforce
    define merged' where "merged' = (if take_it then merged @ [latest] else merged)"
    define n' where "n' = (if take_it \<and> \<not> header_FreeVersion (sv_header latest) then n + 1 else n)"
    obtain versions' where t: "truncate_all (sv_header latest) merged' versions = Inr versions'"
      using 1(3) g False c by (auto simp: merge_loop.simps[of ord quorum] Let_def merged'_def split: sum.splits)
    have suf: "list_all2 suffix versions' orig" by (rule suffix_all_trans[OF truncate_all_suffix[OF t] 1(4)])
    have "{i. i < length versions \<and> versions ! i \<noteq> [] \<and> agree strict (sv_header (hd (versions ! i))) h} \<subseteq> supporting strict h orig" for h
      using 1(4) set_mono_suffix by (fastforce simp: supporting_def list_all2_conv_all_nth)
    then have "card {i. i < length versions \<and> versions ! i \<noteq> [] \<and> agree strict (sv_header (hd (versions ! i))) (sv_header latest)}
        \<le> card (supporting strict (sv_header latest) orig)"
      by (intro card_mono) (auto simp: supporting_def)
    then have m': "\<forall>v \<in> set merged'. quorum \<le> int (card (supporting strict (sv_header v) orig))"
      using round(3)[OF 1(2) g False c] 1(5) by (auto simp: merged'_def)
    show ?thesis
    proof (cases "requested > 0 \<and> requested = n'")
      case True
      then have res: "res = merged' @ hd versions'" using 1(3) g False c t
        by (simp add: merge_loop.simps[of ord quorum] Let_def merged'_def[symmetric] n'_def[symmetric])
      have "versions \<noteq> []" using round(2)[OF 1(2) g False c] by auto
      then have "suffix (hd versions') (hd orig)" using suf list_all2_lengthD[OF 1(4)] list_all2_lengthD[OF suf]
        by (cases versions'; cases orig) auto
      then show ?thesis using res m' True by (intro exI[of _ merged'] exI[of _ "hd versions'"]) simp
    next
      case no: False
      then have "merge_loop ord quorum strict requested versions' merged' n' = Inr res" using 1(3) g False c t
        by (simp add: merge_loop.simps[of ord quorum strict requested versions] Let_def merged'_def[symmetric] n'_def[symmetric] split: if_splits)
      from 1(1)[OF g[symmetric] False c[symmetric] merged'_def n'_def t no 1(2) this suf m'] show ?thesis .
    qed
  qed
qed

section \<open>No version twice\<close>

definition ids :: "xlMetaV2ShallowVersion list \<Rightarrow> uuid list" where
  "ids vs = map (\<lambda>v. vh_VersionID (sv_header v)) vs"

lemma ids_simps [simp]: "ids [] = []" "ids (v # vs) = vh_VersionID (sv_header v) # ids vs" "ids (vs @ ws) = ids vs @ ids ws"
  by (simp_all add: ids_def)

lemma distinct_suffix: "suffix xs ys \<Longrightarrow> distinct (ids ys) \<Longrightarrow> distinct (ids xs)"
  by (auto simp: suffix_def)

lemma ids_suffix: "suffix xs ys \<Longrightarrow> set (ids xs) \<subseteq> set (ids ys)"
  by (auto simp: suffix_def)

lemma drop_merged_absent: "i \<notin> set (ids merged) \<Longrightarrow> drop_merged i merged vers = Inr vers"
  by (induction merged) auto

lemma drop_merged_distinct: "distinct (ids merged) \<Longrightarrow> vers \<noteq> [] \<Longrightarrow> \<exists>vers'. drop_merged i merged vers = Inr vers'"
  by (induction merged) (auto simp: drop_merged_absent split: list.splits)

lemma truncate_distinct: "distinct (ids merged) \<Longrightarrow> \<exists>vers'. truncate latest merged vers = Inr vers'"
  by (induction vers) (auto intro: drop_merged_distinct)

lemma truncate_all_distinct: "distinct (ids merged) \<Longrightarrow> \<exists>versions'. truncate_all latest merged versions = Inr versions'"
proof (induction versions)
  case (Cons vers versions)
  then show ?case using truncate_distinct[OF Cons.prems, of latest vers] by auto
qed simp

lemma truncate_top:
  assumes "truncate latest merged vers = Inr vers'" and "vers \<noteq> []" and "vh_VersionID (sv_header (hd vers)) = vh_VersionID latest"
    and "distinct (ids vers)"
  shows "vh_VersionID latest \<notin> set (ids vers')"
proof (cases vers)
  case (Cons v vs)
  then have "suffix vers' vs" using assms(1,3) truncate_suffix by auto
  then show ?thesis using assms(3,4) Cons ids_suffix by fastforce
qed (use assms in simp)

text \<open>Every merged version is gone from the journals of a quorum.\<close>

definition gone_from :: "xlMetaV2ShallowVersion list list \<Rightarrow> uuid \<Rightarrow> nat set" where
  "gone_from versions i = {k. k < length versions \<and> i \<notin> set (ids (versions ! k))}"

lemma merge_loop_distinct:
  "range_order ord \<Longrightarrow> requested \<le> 0 \<Longrightarrow> int (length versions) < 2 * quorum \<Longrightarrow> \<forall>v \<in> set versions. distinct (ids v) \<Longrightarrow> distinct (ids merged)
    \<Longrightarrow> \<forall>i \<in> set (ids merged). quorum \<le> int (card (gone_from versions i))
    \<Longrightarrow> \<exists>res. merge_loop ord quorum strict requested versions merged n = Inr res \<and> distinct (ids res)"
proof (induction ord quorum strict requested versions merged n rule: merge_loop.induct)
  case (1 ord quorum strict requested versions merged n)
  obtain tops consistent where g: "gather_tops versions [] header0 True = (tops, consistent)" by fastforce
  show ?case
  proof (cases "int (length tops) < quorum \<or> tops = []")
    case True
    then show ?thesis using 1(6) g by (simp add: merge_loop.simps[of ord quorum])
  next
    case False
    obtain latest take_it where c: "choose_version ord quorum strict tops consistent = (latest, take_it)" by fastforce
    define merged' where "merged' = (if take_it then merged @ [latest] else merged)"
    define n' where "n' = (if take_it \<and> \<not> header_FreeVersion (sv_header latest) then n + 1 else n)"
    let ?i = "vh_VersionID (sv_header latest)"
    let ?A = "{k. k < length versions \<and> versions ! k \<noteq> [] \<and> agree strict (sv_header (hd (versions ! k))) (sv_header latest)}"
    have A: "take_it \<Longrightarrow> quorum \<le> int (card ?A)" by (rule round(3)[OF 1(2) g False c])
    have fresh: "?i \<notin> set (ids merged)" if take_it
    proof
      assume "?i \<in> set (ids merged)"
      then have G: "quorum \<le> int (card (gone_from versions ?i))" using 1(7) by blast
      have "?i \<in> set (ids (versions ! k))" if "k \<in> ?A" for k
        using that agree_id by (cases "versions ! k") force+
      then have disj: "?A \<inter> gone_from versions ?i = {}" by (auto simp: gone_from_def)
      have fin: "finite ?A" "finite (gone_from versions ?i)" by (auto simp: gone_from_def)
      have "card (?A \<union> gone_from versions ?i) \<le> card {k. k < length versions}"
        by (intro card_mono) (auto simp: gone_from_def)
      then have "card ?A + card (gone_from versions ?i) \<le> length versions" using card_Un_disjoint[OF fin disj] by simp
      then show False using A[OF that] G 1(4) by linarith
    qed
    have d: "distinct (ids merged')" using 1(6) fresh by (auto simp: merged'_def)
    obtain versions' where t: "truncate_all (sv_header latest) merged' versions = Inr versions'"
      using truncate_all_distinct[OF d] by blast
    note suf = truncate_all_suffix[OF t] and each = truncate_all_lengths[OF t]
    have len: "length versions' = length versions" using suf by (rule list_all2_lengthD)
    have nth: "k < length versions \<Longrightarrow> suffix (versions' ! k) (versions ! k) \<and> truncate (sv_header latest) merged' (versions ! k) = Inr (versions' ! k)" for k
      using suf each len by (simp add: list_all2_conv_all_nth)
    have d': "\<forall>v \<in> set versions'. distinct (ids v)"
      using 1(5) nth len distinct_suffix by (metis in_set_conv_nth)
    have old: "gone_from versions i \<subseteq> gone_from versions' i" for i
      using nth ids_suffix len by (fastforce simp: gone_from_def)
    have new: "?A \<subseteq> gone_from versions' ?i"
    proof
      fix k assume k: "k \<in> ?A"
      then have "?i \<notin> set (ids (versions' ! k))"
        using truncate_top[of "sv_header latest" merged' "versions ! k" "versions' ! k"] nth[of k] 1(5) agree_id by force
      then show "k \<in> gone_from versions' ?i" using k len by (simp add: gone_from_def)
    qed
    have fin: "finite (gone_from versions' i)" for i by (simp add: gone_from_def)
    have q: "\<forall>i \<in> set (ids merged'). quorum \<le> int (card (gone_from versions' i))"
    proof
      fix i assume "i \<in> set (ids merged')"
      then consider "i \<in> set (ids merged)" | "take_it" "i = ?i" by (auto simp: merged'_def split: if_splits)
      then show "quorum \<le> int (card (gone_from versions' i))"
        by cases (use 1(7) A card_mono[OF fin old] card_mono[OF fin new] in \<open>force intro: order_trans\<close>)+
    qed
    have no: "\<not> (0 < requested \<and> requested = n')" using 1(3) by simp
    have "\<exists>res. merge_loop ord quorum strict requested versions' merged' n' = Inr res \<and> distinct (ids res)"
      using 1(1)[OF g[symmetric] False c[symmetric] merged'_def n'_def t no 1(2,3) _ d' d q] 1(4) len by simp
    then show ?thesis using g False c t 1(3)
      by (simp add: merge_loop.simps[of ord quorum strict requested versions] Let_def merged'_def[symmetric] n'_def[symmetric])
  qed
qed

section \<open>Journals that agree\<close>











section \<open>The properties\<close>

text \<open>C5: every version that \<open>mergeXLV2Versions\<close> merges is in the journals of at least a quorum of drives: the same header if strict,
  the same version id and type otherwise, whatever the drives hold and in whatever order they are given. What a bound on the number of versions adds
  is the rest of the first journal.\<close>

theorem merge_has_quorum:
  assumes "range_order ord" and "mergeXLV2Versions ord quorum strict requested versions = Inr res"
  shows "\<exists>m rest. res = m @ rest \<and> (rest = [] \<or> 0 < requested \<and> suffix rest (hd versions))
    \<and> (\<forall>v \<in> set m. max 1 quorum \<le> int (card (supporting (strict \<or> quorum \<le> 1) (sv_header v) versions)))"
proof -
  let ?q = "max 1 quorum"
  have q: "(if quorum \<le> 0 then 1 else quorum) = ?q" by auto
  consider "res = []" | v where "versions = [v]" "res = v" "?q \<le> 1"
    | "merge_loop ord ?q (if ?q = 1 then True else strict) requested versions [] 0 = Inr res"
  proof (cases "int (length versions) < ?q \<or> versions = []")
    case True
    then have "res = []" using assms(2) by (simp add: mergeXLV2Versions_def q Let_def)
    then show ?thesis using that(1) by blast
  next
    case False
    show ?thesis
    proof (cases "length versions = 1")
      case True
      then obtain v where "versions = [v]" by (auto simp: length_Suc_conv)
      then show ?thesis using that(2)[of v] assms(2) False unfolding mergeXLV2Versions_def q Let_def by simp
    next
      case more: False
      then show ?thesis using that(3) assms(2) False unfolding mergeXLV2Versions_def q Let_def by simp
    qed
  qed
  then show ?thesis
  proof cases
    case 2
    have "supporting strict' (sv_header w) versions = {0}" if "w \<in> set v" for w strict'
      using that agree_refl unfolding supporting_def 2(1) by force
    then have "\<forall>w \<in> set v. ?q \<le> int (card (supporting (strict \<or> quorum \<le> 1) (sv_header w) versions))" using 2(3) by simp
    then show ?thesis using 2(2) by (intro exI[of _ v] exI[of _ "[]"]) simp
  next
    case 3
    have "(if ?q = 1 then True else strict) = (strict \<or> quorum \<le> 1)" by (auto simp: max_def)
    then show ?thesis using merge_loop_sound[OF assms(1) 3, of versions] by (simp add: list_all2_refl)
  qed simp
qed

text \<open>with a quorum of more than half of the journals, the versions of none of which repeat an id, the merge does not fail and
  no version id occurs in it twice.\<close>

theorem merge_never_repeats:
  assumes "range_order ord" and "requested \<le> 0" and "int (length versions) < 2 * quorum" and "\<forall>v \<in> set versions. distinct (ids v)"
  shows "\<exists>res. mergeXLV2Versions ord quorum strict requested versions = Inr res \<and> distinct (ids res)"
  using assms merge_loop_distinct[OF assms(1-4), of "[]"]
  by (cases versions) (auto simp: mergeXLV2Versions_def Let_def)


section \<open>The metadata do not matter\<close>

text \<open>The merge looks at headers only: it commutes with forgetting the metadata.\<close>

definition bare :: "xlMetaV2ShallowVersion \<Rightarrow> xlMetaV2ShallowVersion" where
  "bare v = \<lparr>sv_header = sv_header v, sv_meta = []\<rparr>"

lemma bare_header [simp]: "sv_header (bare v) = sv_header v"
  by (simp add: bare_def)

lemma bare_shallow0 [simp]: "bare shallow0 = shallow0"
  by (simp add: bare_def shallow0_def)


lemma count_bare [simp]: "count_headers strict ver (map bare tops) x = count_headers strict ver tops x"
  by (cases strict; induction tops arbitrary: x) (simp_all add: Let_def)















section \<open>Examples\<close>

definition sample_entry :: "byte \<Rightarrow> int \<Rightarrow> byte \<Rightarrow> xlMetaV2ShallowVersion" where
  "sample_entry i t m = \<lparr>sv_header = header0\<lparr>vh_VersionID := replicate 15 0 @ [i], vh_ModTime := t, vh_Type := ObjectType\<rparr>, sv_meta = [m]\<rparr>"


theorem merge_never_repeats_witness:
  "\<exists>res. mergeXLV2Versions (\<lambda>x. x) 2 False 0 [[sample_entry 1 7 0, sample_entry 2 6 0], [sample_entry 1 5 0], [sample_entry 2 7 0, sample_entry 1 5 0]] = Inr res
     \<and> distinct (ids res)"
  by (rule merge_never_repeats) (simp_all add: sample_entry_def)

theorem merge_has_quorum_witness:
  "\<exists>m. mergeXLV2Versions (\<lambda>x. x) 2 True 0 [[sample_entry 1 6 0], [sample_entry 1 5 0], [sample_entry 1 5 0]] = Inr m
     \<and> (\<forall>v \<in> set m. 2 \<le> card (supporting True (sv_header v) [[sample_entry 1 6 0], [sample_entry 1 5 0], [sample_entry 1 5 0]]))"
proof -
  let ?vs = "[[sample_entry 1 6 0], [sample_entry 1 5 0], [sample_entry 1 5 0]]"
  obtain res where res: "mergeXLV2Versions (\<lambda>x. x) 2 True 0 ?vs = Inr res"
    using merge_loop_distinct[of "\<lambda>x. x" 0 ?vs 2 "[]" True 0] by (auto simp: mergeXLV2Versions_def sample_entry_def)
  from merge_has_quorum[OF range_order_id this] have "\<forall>v \<in> set res. max 1 2 \<le> int (card (supporting (True \<or> (2 :: int) \<le> 1) (sv_header v) ?vs))" by auto
  then have "\<forall>v \<in> set res. 2 \<le> card (supporting True (sv_header v) ?vs)" by simp
  then show ?thesis using res by blast
qed

text \<open>A strict merge depends on the order of the drives: two of three drives agree on a version, but if the drive that has
  a newer entry with the same id comes last, the version is lost.\<close>

lemma strict_merge_loses_version:
  "mergeXLV2Versions (\<lambda>x. x) 2 True 0 [[sample_entry 1 6 0], [sample_entry 1 5 0], [sample_entry 1 5 0]] = Inr [sample_entry 1 5 0]"
  "mergeXLV2Versions (\<lambda>x. x) 2 True 0 [[sample_entry 1 5 0], [sample_entry 1 5 0], [sample_entry 1 6 0]] = Inr []"
  by code_simp+

text \<open>With a quorum of half of the drives a version id can be merged twice: the \<open>continue\<close> in the loop over the merged versions is that of
  the inner loop, and the version that comes to the top after it is kept unchecked.\<close>

lemma merge_repeats_at_half:
  "mergeXLV2Versions (\<lambda>x. x) 2 True 0
     [[sample_entry 1 10 0, sample_entry 2 9 0], [sample_entry 1 10 0, sample_entry 2 9 0],
      [sample_entry 3 8 0, sample_entry 1 7 0, sample_entry 2 6 0], [sample_entry 3 8 0, sample_entry 1 7 0, sample_entry 2 6 0]]
   = Inr [sample_entry 1 10 0, sample_entry 2 9 0, sample_entry 3 8 0, sample_entry 2 6 0]"
  by code_simp

end
