(* ===== verification/XL_Inline.thy ===== *)
theory XL_Inline
  imports FastOpen_Frame
begin

text \<open>
  The inline data of \<open>xl.meta\<close> (\<open>cmd/xl-storage-meta-inline.go\<close>): the contents of small objects behind the journal, a
  version byte and a MessagePack map from the id of a version to its bytes. Empty is nil. The \<open>msgp\<close> package is the
  parameter \<open>M\<close>, as in the frame.
\<close>

section \<open>Operations\<close>

type_synonym xlMetaInlineData = "byte list"

definition xlMetaInlineDataVer :: byte where "xlMetaInlineDataVer = 1"

definition versionOK :: "xlMetaInlineData \<Rightarrow> bool" where
  "versionOK x = (case x of [] \<Rightarrow> True | v # _ \<Rightarrow> v > 0 \<and> v \<le> xlMetaInlineDataVer)"

definition afterVersion :: "xlMetaInlineData \<Rightarrow> byte list" where
  "afterVersion x = (case x of [] \<Rightarrow> x | _ # r \<Rightarrow> r)"

text \<open>\<open>find\<close>: None is nil.\<close>

fun find_entry_in :: "msgp \<Rightarrow> string \<Rightarrow> nat \<Rightarrow> byte list \<Rightarrow> byte slice" where
  "find_entry_in M key 0 buf = None"
| "find_entry_in M key (Suc n) buf =
     (case ReadMapKeyZC M buf of
        Inl e \<Rightarrow> None
      | Inr (found, buf) \<Rightarrow>
          if found = key then (case ReadBytesZC M buf of Inl e \<Rightarrow> None | Inr (val, _) \<Rightarrow> Some val)
          else (case ReadBytesZC M buf of Inl e \<Rightarrow> None | Inr (_, buf) \<Rightarrow> find_entry_in M key n buf))"

definition inline_find :: "msgp \<Rightarrow> xlMetaInlineData \<Rightarrow> string \<Rightarrow> byte slice" where
  "inline_find M x key =
     (if x = [] \<or> \<not> versionOK x then None
      else case ReadMapHeaderBytes M (afterVersion x) of
             Inl e \<Rightarrow> None
           | Inr (sz, buf) \<Rightarrow> if sz = 0 then None else find_entry_in M key (unat sz) buf)"

fun validate_entries :: "msgp \<Rightarrow> int \<Rightarrow> nat \<Rightarrow> byte list \<Rightarrow> gerror option" where
  "validate_entries M i 0 buf = None"
| "validate_entries M i (Suc n) buf =
     (case ReadMapKeyZC M buf of
        Inl e \<Rightarrow> Some (Wrapped ''xlMetaInlineData: '' e)
      | Inr (key, buf) \<Rightarrow>
          if key = [] then Some (OtherErr (''xlMetaInlineData: key '' @ itoa i @ '' is length 0''))
          else (case ReadBytesZC M buf of
                  Inl e \<Rightarrow> Some (Wrapped ''xlMetaInlineData: '' e)
                | Inr (_, buf) \<Rightarrow> validate_entries M (i + 1) n buf))"

definition inline_validate :: "msgp \<Rightarrow> xlMetaInlineData \<Rightarrow> gerror option" where
  "inline_validate M x =
     (if x = [] then None
      else if \<not> versionOK x then Some (OtherErr ''xlMetaInlineData: unknown version'')
      else case ReadMapHeaderBytes M (afterVersion x) of
             Inl e \<Rightarrow> Some (Wrapped ''xlMetaInlineData: '' e)
           | Inr (sz, buf) \<Rightarrow> validate_entries M 0 (unat sz) buf)"

text \<open>\<open>serialize\<close>, which panics when the numbers of keys and values differ; its size hint only allocates.\<close>

fun append_entries :: "msgp \<Rightarrow> byte list \<Rightarrow> (string \<times> byte list) list \<Rightarrow> byte list" where
  "append_entries M payload [] = payload"
| "append_entries M payload ((k, v) # kvs) = append_entries M (AppendBytes M (AppendString M payload k) v) kvs"

definition inline_serialize :: "msgp \<Rightarrow> (string \<times> byte list) list \<Rightarrow> xlMetaInlineData" where
  "inline_serialize M kvs =
     (if kvs = [] then []
      else append_entries M (AppendMapHeader M [xlMetaInlineDataVer] (word_of_nat (length kvs))) kvs)"

text \<open>The entries a loop over the map reads until its end or its first error; \<open>repair\<close> also stops at an empty key.\<close>

fun read_entries :: "msgp \<Rightarrow> bool \<Rightarrow> nat \<Rightarrow> byte list \<Rightarrow> (string \<times> byte list) list" where
  "read_entries M stop_at_empty 0 buf = []"
| "read_entries M stop_at_empty (Suc n) buf =
     (case ReadMapKeyZC M buf of
        Inl e \<Rightarrow> []
      | Inr (key, buf) \<Rightarrow>
          if stop_at_empty \<and> key = [] then []
          else (case ReadBytesZC M buf of
                  Inl e \<Rightarrow> []
                | Inr (val, buf) \<Rightarrow> (key, val) # read_entries M stop_at_empty n buf))"

text \<open>\<open>sz, buf, _ := msgp.ReadMapHeaderBytes(in)\<close>: no entries on an error.\<close>

definition entries_of :: "msgp \<Rightarrow> xlMetaInlineData \<Rightarrow> (string \<times> byte list) list" where
  "entries_of M x = (case ReadMapHeaderBytes M (afterVersion x) of Inl e \<Rightarrow> [] | Inr (sz, buf) \<Rightarrow> read_entries M False (unat sz) buf)"

definition inline_repair :: "msgp \<Rightarrow> xlMetaInlineData \<Rightarrow> xlMetaInlineData" where
  "inline_repair M x =
     (if x = [] then x
      else if \<not> versionOK x then []
      else case ReadMapHeaderBytes M (afterVersion x) of
             Inl e \<Rightarrow> []
           | Inr (sz, buf) \<Rightarrow> inline_serialize M (read_entries M True (unat sz) buf))"

fun list_keys :: "msgp \<Rightarrow> int \<Rightarrow> nat \<Rightarrow> byte list \<Rightarrow> string list \<Rightarrow> string list \<times> gerror option" where
  "list_keys M i 0 buf keys = (keys, None)"
| "list_keys M i (Suc n) buf keys =
     (case ReadMapKeyZC M buf of
        Inl e \<Rightarrow> (keys, Some e)
      | Inr (key, buf) \<Rightarrow>
          if key = [] then (keys, Some (OtherErr (''xlMetaInlineData: key '' @ itoa i @ '' is length 0'')))
          else (case ReadBytesZC M buf of
                  Inl e \<Rightarrow> (keys @ [key], Some e)
                | Inr (_, buf) \<Rightarrow> list_keys M (i + 1) n buf (keys @ [key])))"

definition inline_list :: "msgp \<Rightarrow> xlMetaInlineData \<Rightarrow> string list \<times> gerror option" where
  "inline_list M x =
     (if x = [] then ([], None)
      else if \<not> versionOK x then ([], Some (OtherErr ''xlMetaInlineData: unknown version''))
      else case ReadMapHeaderBytes M (afterVersion x) of
             Inl e \<Rightarrow> ([], Some e)
           | Inr (sz, buf) \<Rightarrow> list_keys M 0 (unat sz) buf [])"

definition inline_entries :: "msgp \<Rightarrow> xlMetaInlineData \<Rightarrow> int" where
  "inline_entries M x =
     (if x = [] \<or> \<not> versionOK x then 0
      else case ReadMapHeaderBytes M (afterVersion x) of Inl e \<Rightarrow> 0 | Inr (sz, _) \<Rightarrow> uint sz)"

definition inline_replace :: "msgp \<Rightarrow> xlMetaInlineData \<Rightarrow> string \<Rightarrow> byte list \<Rightarrow> xlMetaInlineData" where
  "inline_replace M x key value =
     (let found = entries_of M x;
          replaced = list_ex (\<lambda>kv. fst kv = key) found;
          kvs = map (\<lambda>(k, v). if k = key then (k, value) else (k, v)) found
      in inline_serialize M (if replaced then kvs else kvs @ [(key, value)]))"

definition inline_rename :: "msgp \<Rightarrow> xlMetaInlineData \<Rightarrow> string \<Rightarrow> string \<Rightarrow> xlMetaInlineData \<times> bool" where
  "inline_rename M x oldKey newKey =
     (let found = entries_of M x
      in if \<not> list_ex (\<lambda>kv. fst kv = oldKey) found then (x, False)
         else (inline_serialize M (map (\<lambda>(k, v). if k \<noteq> oldKey then (k, v) else (newKey, v)) found), True))"

definition inline_remove :: "msgp \<Rightarrow> xlMetaInlineData \<Rightarrow> string list \<Rightarrow> xlMetaInlineData \<times> bool" where
  "inline_remove M x keys =
     (let found = entries_of M x;
          kept = filter (\<lambda>kv. fst kv \<notin> set keys) found
      in if kept = found then (x, False)
         else if kept = [] then ([], True)
         else (inline_serialize M kept, True))"

section \<open>The map it stores\<close>

text \<open>Data that was written: a map with distinct keys, none empty. \<open>ReadMapHeaderBytes\<close> fails where there is nothing.\<close>

definition entries_ok :: "(string \<times> byte list) list \<Rightarrow> bool" where
  "entries_ok kvs \<longleftrightarrow> distinct (map fst kvs) \<and> short kvs \<and> (\<forall>(k, v) \<in> set kvs. k \<noteq> [] \<and> short k \<and> short v)"

definition fails_on_empty :: "msgp \<Rightarrow> bool" where
  "fails_on_empty M \<longleftrightarrow> (case ReadMapHeaderBytes M [] of Inl e \<Rightarrow> True | Inr _ \<Rightarrow> False)"

definition holds_data :: "msgp \<Rightarrow> xlMetaInlineData \<Rightarrow> (string \<times> byte list) list \<Rightarrow> bool" where
  "holds_data M x kvs \<longleftrightarrow> entries_ok kvs \<and> x = inline_serialize M kvs"

definition enc_entry :: "msgp \<Rightarrow> string \<times> byte list \<Rightarrow> byte list" where
  "enc_entry M kv = enc_str M (fst kv) @ enc_bytes M (snd kv)"

lemma append_entries_eq: "msgp_ok M \<Longrightarrow> append_entries M b kvs = b @ concat (map (enc_entry M) kvs)"
  by (induction kvs arbitrary: b) (auto simp: append_enc enc_entry_def)

lemma serialize_eq:
  "msgp_ok M \<Longrightarrow> kvs \<noteq> [] \<Longrightarrow> inline_serialize M kvs
    = xlMetaInlineDataVer # enc_hdr M (word_of_nat (length kvs)) @ concat (map (enc_entry M) kvs)"
  by (simp add: inline_serialize_def append_entries_eq append_enc)

lemma version_ok_cons [simp]: "versionOK (xlMetaInlineDataVer # r)" "afterVersion (v # r) = r" "afterVersion [] = []" "versionOK []"
  by (simp_all add: versionOK_def afterVersion_def xlMetaInlineDataVer_def)

text \<open>The loops read back what was written.\<close>

lemma loops_enc:
  assumes "msgp_ok M"
  shows "\<forall>(k, v) \<in> set kvs. k \<noteq> [] \<and> short k \<and> short v \<Longrightarrow>
    read_entries M stop (length kvs) (concat (map (enc_entry M) kvs)) = kvs
    \<and> find_entry_in M key (length kvs) (concat (map (enc_entry M) kvs)) = map_of kvs key
    \<and> validate_entries M i (length kvs) (concat (map (enc_entry M) kvs)) = None
    \<and> list_keys M i (length kvs) (concat (map (enc_entry M) kvs)) acc = (acc @ map fst kvs, None)"
proof (induction kvs arbitrary: i acc)
  case (Cons kv kvs)
  obtain k v where kv: "kv = (k, v)" by fastforce
  then have "k \<noteq> []" "short k" "short v" using Cons.prems by auto
  then show ?case using Cons kv by (auto simp: enc_entry_def read_enc[OF assms])
qed simp

lemma header_enc:
  assumes "msgp_ok M" and "holds_data M x kvs" and "kvs \<noteq> []"
  shows "x \<noteq> [] \<and> versionOK x
    \<and> ReadMapHeaderBytes M (afterVersion x) = Inr (word_of_nat (length kvs), concat (map (enc_entry M) kvs))
    \<and> unat (word_of_nat (length kvs) :: 32 word) = length kvs \<and> (word_of_nat (length kvs) :: 32 word) \<noteq> 0"
proof -
  have x: "x = xlMetaInlineDataVer # enc_hdr M (word_of_nat (length kvs)) @ concat (map (enc_entry M) kvs)"
    using assms by (simp add: holds_data_def serialize_eq)
  have n: "unat (word_of_nat (length kvs) :: 32 word) = length kvs"
    using assms(2) by (simp add: holds_data_def entries_ok_def short_def unat_word)
  then have "(word_of_nat (length kvs) :: 32 word) \<noteq> 0" using assms(3) by (metis length_0_conv unat_0)
  then show ?thesis using n unfolding x by (simp add: read_enc[OF assms(1)])
qed

lemmas loops_of_data = loops_enc[OF _ conjunct2[OF conjunct2[OF iffD1[OF entries_ok_def]]]]

lemma entries_of_data:
  assumes "msgp_ok M" and "fails_on_empty M" and "holds_data M x kvs"
  shows "entries_of M x = kvs"
proof (cases "kvs = []")
  case True
  then show ?thesis using assms by (simp add: entries_of_def holds_data_def inline_serialize_def fails_on_empty_def split: sum.splits)
next
  case False
  have "entries_ok kvs" using assms(3) by (simp add: holds_data_def)
  then show ?thesis using header_enc[OF assms(1,3) False] loops_of_data[OF assms(1)] by (simp add: entries_of_def)
qed

lemma find_data:
  assumes "msgp_ok M" and "holds_data M x kvs"
  shows "inline_find M x key = map_of kvs key"
proof (cases "kvs = []")
  case True
  then show ?thesis using assms by (simp add: inline_find_def holds_data_def inline_serialize_def)
next
  case False
  have "entries_ok kvs" using assms(2) by (simp add: holds_data_def)
  then show ?thesis using header_enc[OF assms False] loops_of_data[OF assms(1)] by (simp add: inline_find_def)
qed

lemma valid_data:
  assumes "msgp_ok M" and "holds_data M x kvs"
  shows "inline_validate M x = None \<and> inline_repair M x = x \<and> inline_list M x = (map fst kvs, None) \<and> inline_entries M x = int (length kvs)"
proof (cases "kvs = []")
  case True
  then show ?thesis
    using assms by (simp add: inline_validate_def inline_repair_def inline_list_def inline_entries_def holds_data_def inline_serialize_def)
next
  case False
  have "entries_ok kvs" and x: "x = inline_serialize M kvs" using assms(2) by (simp_all add: holds_data_def)
  moreover have "uint (word_of_nat (length kvs) :: 32 word) = int (length kvs)" using header_enc[OF assms False] by (metis uint_nat)
  ultimately show ?thesis
    using header_enc[OF assms False] loops_of_data[OF assms(1)]
    by (simp add: inline_validate_def inline_repair_def inline_list_def inline_entries_def)
qed

section \<open>Stores whose entries must fit\<close>

text \<open>A keyed store that has room for some entries only.\<close>

locale guarded_store =
  fixes lookup_in :: "'s \<Rightarrow> 'k \<Rightarrow> 'v option"
    and store_in :: "'s \<Rightarrow> 'k \<Rightarrow> 'v \<Rightarrow> 's"
    and inv :: "'s \<Rightarrow> bool"
    and fits :: "'s \<Rightarrow> 'k \<Rightarrow> 'v \<Rightarrow> bool"
  assumes store_inv: "inv s \<Longrightarrow> fits s k v \<Longrightarrow> inv (store_in s k v)"
    and lookup_store: "inv s \<Longrightarrow> fits s k v \<Longrightarrow> lookup_in (store_in s k v) k' = (if k' = k then Some v else lookup_in s k')"
begin

primrec fits_all :: "'s \<Rightarrow> ('k \<times> 'v) list \<Rightarrow> bool" where
  "fits_all s [] = True"
| "fits_all s (kv # kvs) = (fits s (fst kv) (snd kv) \<and> fits_all (store_in s (fst kv) (snd kv)) kvs)"

lemma fold_store:
  "inv s \<Longrightarrow> fits_all s kvs \<Longrightarrow> inv (fold (\<lambda>(k, v) s. store_in s k v) kvs s)
    \<and> lookup_in (fold (\<lambda>(k, v) s. store_in s k v) kvs s) k = (case map_of (rev kvs) k of Some v \<Rightarrow> Some v | None \<Rightarrow> lookup_in s k)"
  by (induction kvs arbitrary: s) (auto simp: lookup_store store_inv map_add_def split: option.splits)

lemma store_again:
  "inv s \<Longrightarrow> fits s k v \<Longrightarrow> fits (store_in s k v) k w \<Longrightarrow> lookup_in (store_in (store_in s k v) k w) = (lookup_in s)(k \<mapsto> w)"
  by (rule ext) (simp add: lookup_store store_inv)

end

sublocale keyed_store \<subseteq> guarded_store lookup_in store_in inv "\<lambda>s k v. True"
  by unfold_locales (simp_all add: store_inv lookup_store)

definition data_ok :: "msgp \<Rightarrow> xlMetaInlineData \<Rightarrow> bool" where
  "data_ok M x \<longleftrightarrow> msgp_ok M \<and> fails_on_empty M \<and> (\<exists>kvs. holds_data M x kvs)"

definition data_fits :: "msgp \<Rightarrow> xlMetaInlineData \<Rightarrow> string \<Rightarrow> byte list \<Rightarrow> bool" where
  "data_fits M x k v \<longleftrightarrow> k \<noteq> [] \<and> short k \<and> short v \<and> inline_entries M x + 1 < 2 ^ 32"

lemma map_replace:
  "map_of (map (\<lambda>(k, v). if k = key then (k, w) else (k, v)) kvs) k' = (if k' = key \<and> key \<in> fst ` set kvs then Some w else map_of kvs k')"
proof (induction kvs)
  case (Cons kv kvs)
  then show ?case by (cases kv; cases "fst kv = key"; cases "k' = key"; cases "k' = fst kv") simp_all
qed simp

lemma replace_data:
  assumes "data_ok M x" and "holds_data M x kvs" and "data_fits M x k v"
  shows "\<exists>kvs'. holds_data M (inline_replace M x k v) kvs' \<and> (\<forall>k'. map_of kvs' k' = (if k' = k then Some v else map_of kvs k'))"
proof -
  have M: "msgp_ok M" "fails_on_empty M" using assms(1) by (auto simp: data_ok_def)
  let ?new = "map (\<lambda>(k', v'). if k' = k then (k', v) else (k', v')) kvs"
  let ?kvs = "if k \<in> fst ` set kvs then ?new else ?new @ [(k, v)]"
  have keys: "map fst ?new = map fst kvs" by (auto simp: comp_def)
  have ok: "entries_ok kvs" and len: "length kvs + 1 < 2 ^ 32" and kv: "k \<noteq> []" "short k" "short v"
    using assms(2,3) valid_data[OF M(1) assms(2)] by (auto simp: holds_data_def data_fits_def)
  have "\<forall>(k', v') \<in> set ?new. k' \<noteq> [] \<and> short k' \<and> short v'" using ok kv by (auto simp: entries_ok_def split: if_splits)
  moreover have "distinct (map fst ?new)" unfolding keys using ok by (simp add: entries_ok_def)
  moreover have "fst ` set ?new = fst ` set kvs" by (metis keys list.set_map)
  moreover have "entries_ok (if k \<in> fst ` set kvs then n else n @ [(k, v)])"
    if "\<forall>(k', v') \<in> set n. k' \<noteq> [] \<and> short k' \<and> short v'" "distinct (map fst n)" "fst ` set n = fst ` set kvs" "length n = length kvs" for n
    using that kv len by (auto simp: entries_ok_def short_def)
  ultimately have "entries_ok ?kvs" by simp
  moreover have "inline_replace M x k v = inline_serialize M ?kvs"
    unfolding inline_replace_def entries_of_data[OF M assms(2)] by (force simp: list_ex_iff Let_def)
  moreover have "map_of ?kvs k' = (if k' = k then Some v else map_of kvs k')" for k'
    using map_of_eq_None_iff[of kvs k]
    by (cases "k \<in> fst ` set kvs"; cases "k' = k") (simp_all add: map_replace map_add_def split: option.split)
  ultimately show ?thesis unfolding holds_data_def by blast
qed

interpretation inline: guarded_store "inline_find M" "inline_replace M" "data_ok M" "data_fits M" for M
proof unfold_locales
  fix s k v k' assume s: "data_ok M s" "data_fits M s k v"
  then obtain kvs where kvs: "holds_data M s kvs" by (auto simp: data_ok_def)
  then obtain kvs' where kvs': "holds_data M (inline_replace M s k v) kvs'" "\<forall>k'. map_of kvs' k' = (if k' = k then Some v else map_of kvs k')"
    using replace_data[OF s(1) kvs s(2)] by blast
  have M: "msgp_ok M" using s by (simp add: data_ok_def)
  show "data_ok M (inline_replace M s k v)" using s kvs' by (auto simp: data_ok_def)
  show "inline_find M (inline_replace M s k v) k' = (if k' = k then Some v else inline_find M s k')"
    using kvs kvs' by (simp add: find_data[OF M])
qed

lemma remove_data:
  assumes "data_ok M x"
  shows "data_ok M (fst (inline_remove M x keys))
    \<and> inline_find M (fst (inline_remove M x keys)) k = (if k \<in> set keys then None else inline_find M x k)
    \<and> (snd (inline_remove M x keys) \<longleftrightarrow> (\<exists>k \<in> set keys. inline_find M x k \<noteq> None))"
proof -
  obtain kvs where M: "msgp_ok M" "fails_on_empty M" and kvs: "holds_data M x kvs" using assms by (auto simp: data_ok_def)
  let ?kept = "filter (\<lambda>kv. fst kv \<notin> set keys) kvs"
  have ok: "entries_ok ?kept"
    using kvs le_less_trans[OF length_filter_le, of kvs "2 ^ 32"] by (auto simp: holds_data_def entries_ok_def short_def distinct_map_filter)
  have f: "inline_remove M x keys = (if ?kept = kvs then (x, False) else (inline_serialize M ?kept, True))"
    using entries_of_data[OF M kvs] by (auto simp: inline_remove_def inline_serialize_def Let_def)
  have holds: "holds_data M (fst (inline_remove M x keys)) ?kept" using ok kvs unfolding f holds_data_def by auto
  have "map_of ?kept k = (if k \<in> set keys then None else map_of kvs k)" by (induction kvs) auto
  moreover have "?kept = kvs \<longleftrightarrow> (\<forall>k \<in> set keys. map_of kvs k = None)"
    by (auto simp: filter_id_conv map_of_eq_None_iff)
  moreover have "data_ok M (fst (inline_remove M x keys))" using M holds by (auto simp: data_ok_def)
  moreover have "snd (inline_remove M x keys) \<longleftrightarrow> ?kept \<noteq> kvs" by (simp add: f)
  ultimately show ?thesis unfolding find_data[OF M(1) kvs] find_data[OF M(1) holds] by auto
qed

lemma map_rename:
  "distinct (map fst kvs) \<Longrightarrow> newKey \<notin> fst ` set kvs \<Longrightarrow>
   map_of (map (\<lambda>(k, v). if k \<noteq> oldKey then (k, v) else (newKey, v)) kvs) k
    = (if k = newKey then map_of kvs oldKey else if k = oldKey then None else map_of kvs k)"
proof (induction kvs)
  case (Cons kv kvs)
  have "map_of kvs newKey = None" using Cons.prems(2) by (simp add: map_of_eq_None_iff)
  moreover have "fst kv = oldKey \<Longrightarrow> map_of kvs oldKey = None" using Cons.prems(1) by (auto simp: map_of_eq_None_iff)
  ultimately show ?case using Cons by (cases kv) auto
qed simp

lemma rename_data:
  assumes "data_ok M x" and "newKey \<noteq> []" and "short newKey" and "inline_find M x newKey = None"
  shows "data_ok M (fst (inline_rename M x oldKey newKey))
    \<and> (snd (inline_rename M x oldKey newKey) \<longleftrightarrow> inline_find M x oldKey \<noteq> None)
    \<and> inline_find M (fst (inline_rename M x oldKey newKey)) k =
      (if inline_find M x oldKey = None then inline_find M x k
       else if k = newKey then inline_find M x oldKey else if k = oldKey then None else inline_find M x k)"
proof -
  obtain kvs where M: "msgp_ok M" "fails_on_empty M" and kvs: "holds_data M x kvs" using assms by (auto simp: data_ok_def)
  have new: "newKey \<notin> fst ` set kvs" using assms(4) by (simp add: find_data[OF M(1) kvs] map_of_eq_None_iff)
  have old: "list_ex (\<lambda>kv. fst kv = oldKey) kvs \<longleftrightarrow> inline_find M x oldKey \<noteq> None"
    by (auto simp: find_data[OF M(1) kvs] list_ex_iff map_of_eq_None_iff image_iff)
  let ?kvs = "map (\<lambda>(k, v). if k \<noteq> oldKey then (k, v) else (newKey, v)) kvs"
  have f: "inline_rename M x oldKey newKey = (if inline_find M x oldKey = None then (x, False) else (inline_serialize M ?kvs, True))"
    using entries_of_data[OF M kvs] old by (auto simp: inline_rename_def Let_def)
  have keys: "map fst ?kvs = map (\<lambda>k. if k \<noteq> oldKey then k else newKey) (map fst kvs)" by auto
  have inj: "inj_on (\<lambda>k. if k \<noteq> oldKey then k else newKey) (fst ` set kvs)" using new by (auto simp: inj_on_def)
  have "distinct (map fst ?kvs)"
    unfolding keys distinct_map[of _ "map fst kvs"] using kvs inj by (simp add: holds_data_def entries_ok_def)
  moreover have "\<forall>(k, v) \<in> set ?kvs. k \<noteq> [] \<and> short k \<and> short v" using kvs assms(2,3) by (auto simp: holds_data_def entries_ok_def split: if_splits)
  ultimately have ok: "entries_ok ?kvs" using kvs by (simp add: holds_data_def entries_ok_def short_def)
  then have holds: "holds_data M (inline_serialize M ?kvs) ?kvs" by (simp add: holds_data_def)
  have dist: "distinct (map fst kvs)" using kvs by (simp add: holds_data_def entries_ok_def)
  have dk: "data_ok M (fst (inline_rename M x oldKey newKey))" using M holds assms(1) unfolding f data_ok_def by auto
  have "inline_find M (inline_serialize M ?kvs) k = (if k = newKey then inline_find M x oldKey else if k = oldKey then None else inline_find M x k)"
    unfolding find_data[OF M(1) holds] find_data[OF M(1) kvs] by (rule map_rename[OF dist new])
  with dk show ?thesis unfolding f
    by (cases "inline_find M x oldKey = None") (simp_all only: if_True if_False fst_conv snd_conv simp_thms)
qed

text \<open>C10: inline data is a map from version ids to bytes. Data that was written is valid, repairing it changes nothing, and it lists exactly
  the keys that can be found; after replacing, removing or renaming, a lookup sees that change and nothing else, and the data is
  valid again.\<close>

theorem inline_data_is_a_map:
  assumes "data_ok M x"
  shows "inline_validate M x = None \<and> inline_repair M x = x \<and> snd (inline_list M x) = None
      \<and> (\<forall>k. k \<in> set (fst (inline_list M x)) \<longleftrightarrow> inline_find M x k \<noteq> None)
    \<and> (\<forall>k v. data_fits M x k v \<longrightarrow> data_ok M (inline_replace M x k v)
        \<and> (\<forall>k'. inline_find M (inline_replace M x k v) k' = (if k' = k then Some v else inline_find M x k')))
    \<and> (\<forall>ks. data_ok M (fst (inline_remove M x ks)) \<and> (snd (inline_remove M x ks) \<longleftrightarrow> (\<exists>k. k \<in> set ks \<and> inline_find M x k \<noteq> None))
        \<and> (\<forall>k'. inline_find M (fst (inline_remove M x ks)) k' = (if k' \<in> set ks then None else inline_find M x k')))
    \<and> (\<forall>old new v. inline_find M x old = Some v \<and> inline_find M x new = None \<and> new \<noteq> [] \<and> short new \<longrightarrow>
        snd (inline_rename M x old new) \<and> data_ok M (fst (inline_rename M x old new))
        \<and> (\<forall>k'. inline_find M (fst (inline_rename M x old new)) k' = (if k' = new then Some v else if k' = old then None else inline_find M x k')))"
proof -
  obtain kvs where M: "msgp_ok M" and kvs: "holds_data M x kvs" using assms by (auto simp: data_ok_def)
  have keys: "k \<in> set (map fst kvs) \<longleftrightarrow> inline_find M x k \<noteq> None" for k
    by (simp add: find_data[OF M kvs] map_of_eq_None_iff)
  have "data_fits M x k v \<Longrightarrow> data_ok M (inline_replace M x k v)" for k v
    using inline.store_inv[OF assms] .
  moreover have "data_fits M x k v \<Longrightarrow> inline_find M (inline_replace M x k v) k' = (if k' = k then Some v else inline_find M x k')" for k v k'
    using inline.lookup_store[OF assms] .
  ultimately show ?thesis
    using valid_data[OF M kvs] remove_data[OF assms] rename_data[OF assms] keys by (auto simp: Bex_def)
qed

lemma wide_fails_on_empty: "fails_on_empty wide_msgp"
  by (simp add: fails_on_empty_def wide_msgp_def unwide_def into_def)

lemma empty_data_ok: "data_ok wide_msgp []"
  by (auto simp: data_ok_def wide_msgp_ok wide_fails_on_empty holds_data_def entries_ok_def short_def inline_serialize_def)

theorem inline_data_is_a_map_witness:
  "inline_find wide_msgp (inline_replace wide_msgp [] ''null'' [1, 2]) ''null'' = Some [1, 2]
    \<and> inline_find wide_msgp (fst (inline_remove wide_msgp [] [''null''])) ''null'' = None"
proof -
  have "data_fits wide_msgp [] ''null'' [1, 2]" by (simp add: data_fits_def short_def inline_entries_def)
  then show ?thesis using inline_data_is_a_map[OF empty_data_ok] by simp
qed

end
