(* ===== verification/Replication_Status.thy ===== *)
theory Replication_Status
  imports File_Info
begin

text \<open>
  The replication status of an object version: per target of the bucket in one string
  (\<open>cmd/bucket-replication-utils.go\<close>, \<open>internal/bucket/replication/datatypes.go\<close>), read back by a regular expression, and
  over all targets; and the state that the internal metadata of a version carry (\<open>cmd/erasure-metadata.go\<close>).
\<close>

section \<open>Statuses\<close>

type_synonym StatusType = string

definition Pending :: StatusType where "Pending = ''PENDING''"
definition Completed :: StatusType where "Completed = ''COMPLETED''"
definition CompletedLegacy :: StatusType where "CompletedLegacy = ''COMPLETE''"
definition Failed :: StatusType where "Failed = ''FAILED''"
definition Replica :: StatusType where "Replica = ''REPLICA''"

type_synonym VersionPurgeStatusType = string

definition VersionPurgePending :: VersionPurgeStatusType where "VersionPurgePending = ''PENDING''"
definition VersionPurgeComplete :: VersionPurgeStatusType where "VersionPurgeComplete = ''COMPLETE''"
definition VersionPurgeFailed :: VersionPurgeStatusType where "VersionPurgeFailed = ''FAILED''"

lemmas status_defs = Pending_def Completed_def CompletedLegacy_def Failed_def Replica_def VersionPurgePending_def VersionPurgeComplete_def VersionPurgeFailed_def

definition purge_Pending :: "VersionPurgeStatusType \<Rightarrow> bool" where
  "purge_Pending v \<longleftrightarrow> v = VersionPurgePending \<or> v = VersionPurgeFailed"

text \<open>What is used of a target.\<close>

record replicatedTargetInfo =
  rt_Arn :: string
  rt_Size :: int
  rt_ReplicationStatus :: StatusType
  rt_PrevReplicationStatus :: StatusType
  rt_VersionPurgeStatus :: VersionPurgeStatusType
  rt_ResyncTimestamp :: string
  rt_ReplicationResynced :: bool

definition rt_Empty :: "replicatedTargetInfo \<Rightarrow> bool" where
  "rt_Empty rt \<longleftrightarrow> rt_Arn rt = []"

record replicatedInfos =
  ri_ReplicationTimeStamp :: gotime
  ri_Targets :: "replicatedTargetInfo list"

definition CompletedSize :: "replicatedInfos \<Rightarrow> int" where
  "CompletedSize ri = foldl (\<lambda>sz t. if rt_Empty t then sz
     else if rt_ReplicationStatus t = Completed \<and> rt_PrevReplicationStatus t \<noteq> Completed then sz + rt_Size t else sz) 0 (ri_Targets ri)"

definition ReplicationResynced :: "replicatedInfos \<Rightarrow> bool" where
  "ReplicationResynced ri = list_ex (\<lambda>t. \<not> (rt_Empty t \<or> \<not> rt_ReplicationResynced t)) (ri_Targets ri)"

definition ReplicationStatusInternal :: "replicatedInfos \<Rightarrow> string" where
  "ReplicationStatusInternal ri = concat (map (\<lambda>t. rt_Arn t @ ''='' @ rt_ReplicationStatus t @ '';'')
     (filter (\<lambda>t. \<not> rt_Empty t) (ri_Targets ri)))"

definition VersionPurgeStatusInternal :: "replicatedInfos \<Rightarrow> string" where
  "VersionPurgeStatusInternal ri = concat (map (\<lambda>t. rt_Arn t @ ''='' @ rt_VersionPurgeStatus t @ '';'')
     (filter (\<lambda>t. \<not> rt_Empty t \<and> rt_VersionPurgeStatus t \<noteq> []) (ri_Targets ri)))"

text \<open>The loop that stops at the first failure and counts what is completed.\<close>

fun status_loop :: "string \<Rightarrow> string \<Rightarrow> string list \<Rightarrow> nat \<Rightarrow> nat option" where
  "status_loop failed completed [] n = Some n"
| "status_loop failed completed (v # vs) n =
     (if v = failed then None else if v = completed then status_loop failed completed vs (Suc n) else status_loop failed completed vs n)"

definition overall_status :: "string \<Rightarrow> string \<Rightarrow> string \<Rightarrow> string list \<Rightarrow> string" where
  "overall_status pending completed failed vs =
     (if vs = [] then []
      else case status_loop failed completed vs 0 of
             None \<Rightarrow> failed
           | Some n \<Rightarrow> if n = length vs then completed else pending)"

definition infos_ReplicationStatus :: "replicatedInfos \<Rightarrow> StatusType" where
  "infos_ReplicationStatus ri = overall_status Pending Completed Failed (map rt_ReplicationStatus (ri_Targets ri))"

definition infos_VersionPurgeStatus :: "replicatedInfos \<Rightarrow> VersionPurgeStatusType" where
  "infos_VersionPurgeStatus ri = overall_status VersionPurgePending VersionPurgeComplete VersionPurgeFailed (map rt_VersionPurgeStatus (ri_Targets ri))"

section \<open>Reading the string back\<close>

text \<open>\<open>FindAllStringSubmatch\<close> of \<open>([^=].*?)=([^,].*?);\<close>: the leftmost match, both groups as short as they can be; a dot matches
  no newline.\<close>

definition newline :: char where "newline = CHR 0x0A"

fun until_semicolon :: "string \<Rightarrow> string \<Rightarrow> (string \<times> string) option" where
  "until_semicolon acc [] = None"
| "until_semicolon acc (c # cs) =
     (if c = CHR '';'' then Some (rev acc, cs) else if c = newline then None else until_semicolon (c # acc) cs)"

fun second_group :: "string \<Rightarrow> (string \<times> string) option" where
  "second_group [] = None"
| "second_group (c # cs) = (if c = CHR '','' then None else until_semicolon [c] cs)"

fun until_equals :: "string \<Rightarrow> string \<Rightarrow> (string \<times> string \<times> string) option" where
  "until_equals acc [] = None"
| "until_equals acc (c # cs) =
     (case (if c = CHR ''='' then second_group cs else None) of
        Some (status, rest) \<Rightarrow> Some (rev acc, status, rest)
      | None \<Rightarrow> if c = newline then None else until_equals (c # acc) cs)"

fun match_status :: "string \<Rightarrow> (string \<times> string \<times> string) option" where
  "match_status [] = None"
| "match_status (c # cs) = (if c = CHR ''='' then None else until_equals [c] cs)"

lemma until_semicolon_rest: "until_semicolon acc s = Some (g, rest) \<Longrightarrow> length rest < length s"
  by (induction acc s arbitrary: g rest rule: until_semicolon.induct) (auto split: if_splits intro: less_SucI)

lemma second_group_rest: "second_group s = Some (g, rest) \<Longrightarrow> length rest < length s"
  by (cases s) (auto split: if_splits dest: until_semicolon_rest)

lemma until_equals_rest: "until_equals acc s = Some (g, g2, rest) \<Longrightarrow> length rest < length s"
  by (induction acc s arbitrary: g g2 rest rule: until_equals.induct)
    (fastforce split: if_splits option.splits prod.splits dest: second_group_rest intro: less_SucI)+

lemma match_status_rest: "match_status s = Some (g, g2, rest) \<Longrightarrow> length rest < length s"
  by (cases s) (auto split: if_splits dest: until_equals_rest)

function FindAllStatus :: "string \<Rightarrow> (string \<times> string) list" where
  "FindAllStatus s =
     (case match_status s of
        Some (g1, g2, rest) \<Rightarrow> (g1, g2) # FindAllStatus rest
      | None \<Rightarrow> (case s of [] \<Rightarrow> [] | c # cs \<Rightarrow> FindAllStatus cs))"
  by pat_completeness auto
termination
  by (relation "measure length") (auto simp: match_status_rest)

declare FindAllStatus.simps [simp del]

definition statuses_map :: "string \<Rightarrow> strmap" where
  "statuses_map s = foldl (\<lambda>m (arn, status). mput m arn status) (Some []) (FindAllStatus s)"

definition replicationStatusesMap :: "string \<Rightarrow> strmap" where
  "replicationStatusesMap s = statuses_map s"

definition versionPurgeStatusesMap :: "string \<Rightarrow> strmap" where
  "versionPurgeStatusesMap s = statuses_map s"

definition TargetReplicationStatus :: "string \<Rightarrow> string \<Rightarrow> StatusType" where
  "TargetReplicationStatus internal arn = (case map_of (FindAllStatus internal) arn of None \<Rightarrow> [] | Some st \<Rightarrow> st)"

text \<open>The status over all targets of a map, visited in any order.\<close>

definition getCompositeReplicationStatus :: "((string \<times> string) list \<Rightarrow> (string \<times> string) list) \<Rightarrow> strmap \<Rightarrow> StatusType" where
  "getCompositeReplicationStatus ord m = overall_status Pending Completed Failed (map snd (ord (elems m)))"

definition getCompositeVersionPurgeStatus :: "((string \<times> string) list \<Rightarrow> (string \<times> string) list) \<Rightarrow> strmap \<Rightarrow> VersionPurgeStatusType" where
  "getCompositeVersionPurgeStatus ord m = overall_status VersionPurgePending VersionPurgeComplete VersionPurgeFailed (map snd (ord (elems m)))"

section \<open>The state in the metadata\<close>

definition CompositeReplicationStatus :: "((string \<times> string) list \<Rightarrow> (string \<times> string) list) \<Rightarrow> ReplicationState \<Rightarrow> StatusType" where
  "CompositeReplicationStatus ord rs =
     (if rs_ReplicationStatusInternal rs \<noteq> [] then
        if rs_ReplicationStatusInternal rs \<in> {Pending, Completed, Failed, Replica} then rs_ReplicationStatusInternal rs
        else let replStatus = getCompositeReplicationStatus ord (rs_Targets rs)
          in if rs_ReplicaTimeStamp rs = timeSentinel \<or> IsZero (rs_ReplicaTimeStamp rs) then replStatus
             else if replStatus = Completed \<and> rs_ReplicaTimeStamp rs > rs_ReplicationTimeStamp rs then rs_ReplicaStatus rs
             else replStatus
      else if rs_ReplicaStatus rs \<noteq> [] then rs_ReplicaStatus rs
      else [])"

definition CompositeVersionPurgeStatus :: "((string \<times> string) list \<Rightarrow> (string \<times> string) list) \<Rightarrow> ReplicationState \<Rightarrow> VersionPurgeStatusType" where
  "CompositeVersionPurgeStatus ord rs =
     (if rs_VersionPurgeStatusInternal rs \<in> {VersionPurgePending, VersionPurgeComplete, VersionPurgeFailed} then rs_VersionPurgeStatusInternal rs
      else getCompositeVersionPurgeStatus ord (rs_PurgeTargets rs))"

definition targetState :: "ReplicationState \<Rightarrow> string \<Rightarrow> replicatedTargetInfo" where
  "targetState rs arn = \<lparr>rt_Arn = arn, rt_Size = 0, rt_ReplicationStatus = [], rt_PrevReplicationStatus = mgetd (rs_Targets rs) arn,
     rt_VersionPurgeStatus = mgetd (rs_PurgeTargets rs) arn, rt_ResyncTimestamp = mgetd (rs_ResetStatusesMap rs) arn, rt_ReplicationResynced = False\<rparr>"

definition ReplicationReset :: string where "ReplicationReset = ''replication-reset''"
definition ReplicationStatusKey :: string where "ReplicationStatusKey = ''replication-status''"
definition ReplicationTimestamp :: string where "ReplicationTimestamp = ''replication-timestamp''"
definition ReplicaStatusKey :: string where "ReplicaStatusKey = ''replica-status''"
definition ReplicaTimestamp :: string where "ReplicaTimestamp = ''replica-timestamp''"
definition VersionPurgeStatusKey :: string where "VersionPurgeStatusKey = ReservedMetadataPrefixLower @ ''purgestatus''"

definition targetResetHeader :: "string \<Rightarrow> string" where
  "targetResetHeader arn = ReservedMetadataPrefixLower @ ReplicationReset @ ''-'' @ arn"

text \<open>The reset statuses of the targets are stored in the map of the previous state; storing into a nil map panics.\<close>

fun store_resets :: "replicatedTargetInfo list \<Rightarrow> strmap \<Rightarrow> gerror + strmap" where
  "store_resets [] m = Inr m"
| "store_resets (t # ts) m =
     (if rt_ResyncTimestamp t \<noteq> [] then
        (case m of
           None \<Rightarrow> Inl (GoPanic ''assignment to entry in nil map'')
         | Some es \<Rightarrow> store_resets ts (mput m (targetResetHeader (rt_Arn t)) (rt_ResyncTimestamp t)))
      else store_resets ts m)"

definition getReplicationState :: "replicatedInfos \<Rightarrow> ReplicationState \<Rightarrow> gerror + ReplicationState" where
  "getReplicationState rinfos prev =
     (let replStatuses = ReplicationStatusInternal rinfos; vpurgeStatuses = VersionPurgeStatusInternal rinfos
      in case store_resets (ri_Targets rinfos) (rs_ResetStatusesMap prev) of
           Inl e \<Rightarrow> Inl e
         | Inr resets \<Rightarrow> Inr (ReplicationState0\<lparr>rs_ReplicateDecisionStr := rs_ReplicateDecisionStr prev, rs_ResetStatusesMap := resets,
             rs_ReplicaTimeStamp := rs_ReplicaTimeStamp prev, rs_ReplicaStatus := rs_ReplicaStatus prev,
             rs_Targets := replicationStatusesMap replStatuses, rs_ReplicationStatusInternal := replStatuses,
             rs_ReplicationTimeStamp := ri_ReplicationTimeStamp rinfos, rs_VersionPurgeStatusInternal := vpurgeStatuses,
             rs_PurgeTargets := versionPurgeStatusesMap vpurgeStatuses\<rparr>))"

text \<open>\<open>strings.EqualFold\<close>, by which \<open>equals\<close> compares, on the keys of metadata, which are ASCII.\<close>

definition lower :: "char \<Rightarrow> char" where
  "lower c = (if 65 \<le> (of_char c :: nat) \<and> (of_char c :: nat) \<le> 90 then char_of (of_char c + 32 :: nat) else c)"

definition EqualFold :: "string \<Rightarrow> string \<Rightarrow> bool" where
  "EqualFold s t \<longleftrightarrow> map lower s = map lower t"

fun equals :: "string \<Rightarrow> string list \<Rightarrow> bool" where
  "equals k1 [] = False"
| "equals k1 (k2 # keys) = (if EqualFold k1 k2 then True else equals k1 keys)"

text \<open>\<open>ParseTS\<close> is \<open>amztime.ParseReplicationTS\<close>, the zero time if the text is none.\<close>

definition state_entry :: "(string \<Rightarrow> gotime) \<Rightarrow> ReplicationState \<Rightarrow> string \<times> string \<Rightarrow> ReplicationState" where
  "state_entry ParseTS d kv =
     (case kv of (k, v) \<Rightarrow>
        let pre = ReservedMetadataPrefixLower
        in if equals k [pre @ ReplicationTimestamp] then d\<lparr>rs_ReplicaTimeStamp := ParseTS v\<rparr>
           else if equals k [pre @ ReplicaTimestamp] then d\<lparr>rs_ReplicaTimeStamp := ParseTS v\<rparr>
           else if equals k [pre @ ReplicaStatusKey] then d\<lparr>rs_ReplicaStatus := v\<rparr>
           else if equals k [pre @ ReplicationStatusKey] then d\<lparr>rs_ReplicationStatusInternal := v, rs_Targets := replicationStatusesMap v\<rparr>
           else if equals k [VersionPurgeStatusKey] then d\<lparr>rs_VersionPurgeStatusInternal := v, rs_PurgeTargets := versionPurgeStatusesMap v\<rparr>
           else if take (length (pre @ ReplicationReset)) k = pre @ ReplicationReset
             then let tagged = pre @ ReplicationReset @ ''-'';
                      arn = (if take (length tagged) k = tagged then drop (length tagged) k else k)
                  in d\<lparr>rs_ResetStatusesMap := mput (case rs_ResetStatusesMap d of None \<Rightarrow> Some [] | m \<Rightarrow> m) arn v\<rparr>
           else d)"

definition getInternalReplicationState :: "(string \<Rightarrow> gotime) \<Rightarrow> ((string \<times> string) list \<Rightarrow> (string \<times> string) list) \<Rightarrow> strmap \<Rightarrow> ReplicationState" where
  "getInternalReplicationState ParseTS ord m = foldl (state_entry ParseTS) ReplicationState0 (ord (elems m))"

definition FileInfo_VersionPurgeStatus :: "((string \<times> string) list \<Rightarrow> (string \<times> string) list) \<Rightarrow> FileInfo \<Rightarrow> VersionPurgeStatusType" where
  "FileInfo_VersionPurgeStatus ord fi = CompositeVersionPurgeStatus ord (fi_ReplicationState fi)"

definition FileInfo_ReplicationStatus :: "((string \<times> string) list \<Rightarrow> (string \<times> string) list) \<Rightarrow> FileInfo \<Rightarrow> StatusType" where
  "FileInfo_ReplicationStatus ord fi = CompositeReplicationStatus ord (fi_ReplicationState fi)"

definition DeleteMarkerReplicationStatus :: "((string \<times> string) list \<Rightarrow> (string \<times> string) list) \<Rightarrow> FileInfo \<Rightarrow> StatusType" where
  "DeleteMarkerReplicationStatus ord fi = (if fi_Deleted fi then CompositeReplicationStatus ord (fi_ReplicationState fi) else [])"

section \<open>Properties\<close>

lemma status_loop_eq:
  "status_loop failed completed vs n = (if failed \<in> set vs then None else Some (n + length (filter (\<lambda>v. v = completed) vs)))"
  by (induction failed completed vs n rule: status_loop.induct) auto

lemma overall_status_iff:
  assumes "completed \<noteq> failed"
  shows "overall_status pending completed failed vs = (if vs = [] then [] else if failed \<in> set vs then failed
    else if \<forall>v \<in> set vs. v = completed then completed else pending)"
proof -
  have "length (filter (\<lambda>v. v = completed) vs) = length vs \<longleftrightarrow> (\<forall>v \<in> set vs. v = completed)"
    by (induction vs) (auto simp: le_imp_less_Suc[OF length_filter_le, THEN less_imp_neq])
  then show ?thesis unfolding overall_status_def status_loop_eq by (cases "vs = []") simp_all
qed

text \<open>What a target must be like for its entry to be read back.\<close>

definition plain_target :: "string \<times> string \<Rightarrow> bool" where
  "plain_target t \<longleftrightarrow> fst t \<noteq> [] \<and> CHR ''='' \<notin> set (fst t) \<and> newline \<notin> set (fst t)
     \<and> snd t \<noteq> [] \<and> hd (snd t) \<noteq> CHR '','' \<and> CHR '';'' \<notin> set (snd t) \<and> newline \<notin> set (snd t)"

lemma until_semicolon_plain:
  "CHR '';'' \<notin> set st \<Longrightarrow> newline \<notin> set st \<Longrightarrow> until_semicolon acc (st @ CHR '';'' # rest) = Some (rev acc @ st, rest)"
  by (induction st arbitrary: acc) (auto simp: newline_def)

lemma until_equals_plain:
  assumes "st \<noteq> []" "hd st \<noteq> CHR '',''" "CHR '';'' \<notin> set st" "newline \<notin> set st"
  shows "CHR ''='' \<notin> set arn \<Longrightarrow> newline \<notin> set arn
    \<Longrightarrow> until_equals acc (arn @ CHR ''='' # st @ CHR '';'' # rest) = Some (rev acc @ arn, st, rest)"
proof (induction arn arbitrary: acc)
  case Nil
  then show ?case using assms by (cases st) (auto simp: until_semicolon_plain)
qed auto

lemma FindAllStatus_plain:
  "\<forall>t \<in> set ts. plain_target t \<Longrightarrow> FindAllStatus (concat (map (\<lambda>(arn, st). arn @ ''='' @ st @ '';'') ts)) = ts"
proof (induction ts)
  case Nil
  then show ?case by (simp add: FindAllStatus.simps)
next
  case (Cons t ts)
  obtain arn st where t: "t = (arn, st)" by fastforce
  then obtain c cs where arn: "arn = c # cs" using Cons.prems by (cases arn) (auto simp: plain_target_def)
  let ?rest = "concat (map (\<lambda>(arn, st). arn @ ''='' @ st @ '';'') ts)"
  have "match_status (arn @ ''='' @ st @ '';'' @ ?rest) = Some (arn, st, ?rest)"
    using Cons.prems until_equals_plain[of st cs "[c]" ?rest] unfolding t arn by (auto simp: plain_target_def)
  then show ?case using Cons t by (subst FindAllStatus.simps) simp
qed

lemma statuses_map_plain:
  assumes "\<forall>t \<in> set ts. plain_target t" and "distinct (map fst ts)"
  shows "statuses_map (concat (map (\<lambda>(arn, st). arn @ ''='' @ st @ '';'') ts)) = Some ts"
proof -
  have "foldl (\<lambda>m (arn, status). mput m arn status) (Some acc) ts = Some (acc @ ts)" if "distinct (map fst (acc @ ts))" for acc ts
    using that
  proof (induction ts arbitrary: acc)
    case (Cons t ts)
    have "AList.update (fst t) (snd t) acc = acc @ [t]" if "fst t \<notin> fst ` set acc" for acc :: "(string \<times> string) list"
      using that by (induction acc) auto
    then show ?case using Cons.IH[of "acc @ [t]"] Cons.prems by (cases t) (auto simp: mput_def)
  qed simp
  from this[of "[]" ts] show ?thesis
    unfolding statuses_map_def FindAllStatus_plain[OF assms(1)] using assms(2) by simp
qed

text \<open>C37: for targets with distinct ARNs, each with a replication status, and with none of the characters that separate the entries in
  either (\<open>plain_target\<close>), the statuses that are written into one string are read back from it target by target, and the status over all
  targets computed from the map that was read, in whatever order it is visited, is the one computed from the targets themselves. The purge of
  a version makes targets without a replication status, for which this fails (\<open>empty_status_swallows_next\<close>).\<close>

theorem status_string_roundtrip:
  assumes "\<forall>t \<in> set (ri_Targets ri). plain_target (rt_Arn t, rt_ReplicationStatus t)" and "distinct (map rt_Arn (ri_Targets ri))" and "range_order ord"
  shows "(\<forall>t \<in> set (ri_Targets ri). mget (replicationStatusesMap (ReplicationStatusInternal ri)) (rt_Arn t) = Some (rt_ReplicationStatus t)
      \<and> TargetReplicationStatus (ReplicationStatusInternal ri) (rt_Arn t) = rt_ReplicationStatus t)
    \<and> getCompositeReplicationStatus ord (replicationStatusesMap (ReplicationStatusInternal ri)) = infos_ReplicationStatus ri"
proof -
  let ?ts = "map (\<lambda>t. (rt_Arn t, rt_ReplicationStatus t)) (ri_Targets ri)"
  have "filter (\<lambda>t. \<not> rt_Empty t) (ri_Targets ri) = ri_Targets ri"
    using assms(1) by (auto simp: filter_id_conv plain_target_def rt_Empty_def)
  then have str: "ReplicationStatusInternal ri = concat (map (\<lambda>(arn, st). arn @ ''='' @ st @ '';'') ?ts)"
    by (simp add: ReplicationStatusInternal_def comp_def)
  have plain: "\<forall>t \<in> set ?ts. plain_target t" using assms(1) by auto
  have dist: "distinct (map fst ?ts)" using assms(2) by (simp add: comp_def)
  have m: "replicationStatusesMap (ReplicationStatusInternal ri) = Some ?ts"
    unfolding replicationStatusesMap_def str by (rule statuses_map_plain[OF plain dist])
  have "map_of ?ts (rt_Arn t) = Some (rt_ReplicationStatus t)" if "t \<in> set (ri_Targets ri)" for t
    by (rule map_of_is_SomeI[OF dist]) (use that in auto)
  moreover have "FindAllStatus (ReplicationStatusInternal ri) = ?ts" unfolding str by (rule FindAllStatus_plain[OF plain])
  moreover have "set (map snd (ord ?ts)) = rt_ReplicationStatus ` set (ri_Targets ri)" "map snd (ord ?ts) = [] \<longleftrightarrow> ri_Targets ri = []"
    using range_order_set[OF assms(3), of ?ts] range_order_length[OF assms(3), of ?ts] by (force, auto simp flip: length_0_conv)
  moreover have "Completed \<noteq> Failed" by (simp add: status_defs)
  ultimately show ?thesis
    unfolding m getCompositeReplicationStatus_def infos_ReplicationStatus_def
    by (simp add: mget_def TargetReplicationStatus_def overall_status_iff)
qed

definition sample_target :: "string \<Rightarrow> string \<Rightarrow> replicatedTargetInfo" where
  "sample_target arn st = \<lparr>rt_Arn = arn, rt_Size = 0, rt_ReplicationStatus = st, rt_PrevReplicationStatus = [], rt_VersionPurgeStatus = [],
     rt_ResyncTimestamp = [], rt_ReplicationResynced = False\<rparr>"

theorem status_string_roundtrip_witness:
  "getCompositeReplicationStatus rev (replicationStatusesMap (ReplicationStatusInternal
      \<lparr>ri_ReplicationTimeStamp = 0, ri_Targets = [sample_target ''arn:a'' Completed, sample_target ''arn:b'' Failed]\<rparr>)) = Failed"
proof -
  let ?ri = "\<lparr>ri_ReplicationTimeStamp = 0, ri_Targets = [sample_target ''arn:a'' Completed, sample_target ''arn:b'' Failed]\<rparr>"
  have "infos_ReplicationStatus ?ri = Failed" by code_simp
  then show ?thesis
    using status_string_roundtrip[of ?ri rev] by (simp add: sample_target_def plain_target_def status_defs newline_def)
qed

text \<open>A target that has no status yet is written as an empty status, which the pattern does not match: it swallows the entry of the next target.\<close>

lemma empty_status_swallows_next:
  "ReplicationStatusInternal \<lparr>ri_ReplicationTimeStamp = 0, ri_Targets = [sample_target ''arn:a'' [], sample_target ''arn:b'' Completed]\<rparr> = ''arn:a=;arn:b=COMPLETED;''"
  "replicationStatusesMap ''arn:a=;arn:b=COMPLETED;'' = Some [(''arn:a'', '';arn:b=COMPLETED'')]"
  by code_simp+

text \<open>The time stamps of the replication and of the replica are read into the same field: which of them stays depends on the order of the map.\<close>

lemma replica_timestamp_depends_on_order:
  "let m = Some [(ReservedMetadataPrefixLower @ ReplicationTimestamp, ''1''), (ReservedMetadataPrefixLower @ ReplicaTimestamp, ''22'')];
       state = \<lambda>ord. getInternalReplicationState (\<lambda>s. int (length s)) ord m
   in rs_ReplicaTimeStamp (state (\<lambda>x. x)) = 2 \<and> rs_ReplicaTimeStamp (state rev) = 1 \<and> rs_ReplicationTimeStamp (state rev) = zero_time"
  by code_simp

end
