(* ===== verification/XL_Version.thy ===== *)
theory XL_Version
  imports XL_Merge XL_Inline Replication_Status Heal_Check
begin

text \<open>
  The versions of an object in \<open>xl.meta\<close> (\<open>cmd/xl-storage-format-v2.go\<close>, \<open>cmd/xl-storage-format-v1.go\<close>,
  \<open>cmd/xl-storage-free-version.go\<close>): objects, delete markers and legacy objects, when one is valid, its header and
  signature, and its conversion to a \<open>FileInfo\<close>. What the code takes from its surroundings is the record \<open>xl_env\<close>.
\<close>

section \<open>Data\<close>

type_synonym ErasureAlgo = byte
definition invalidErasureAlgo :: ErasureAlgo where [simp]: "invalidErasureAlgo = 0"
definition ReedSolomon :: ErasureAlgo where [simp]: "ReedSolomon = 1"
definition lastErasureAlgo :: ErasureAlgo where [simp]: "lastErasureAlgo = 2"

definition ErasureAlgo_valid :: "ErasureAlgo \<Rightarrow> bool" where
  "ErasureAlgo_valid e \<longleftrightarrow> e > invalidErasureAlgo \<and> e < lastErasureAlgo"

definition ErasureAlgo_String :: "ErasureAlgo \<Rightarrow> string" where
  "ErasureAlgo_String i = (if i = 0 then ''invalidErasureAlgo'' else if i = 1 then ''ReedSolomon'' else if i = 2 then ''lastErasureAlgo''
     else ''ErasureAlgo('' @ itoa (uint i) @ '')'')"

type_synonym ChecksumAlgo = byte
definition invalidChecksumAlgo :: ChecksumAlgo where [simp]: "invalidChecksumAlgo = 0"
definition HighwayHash :: ChecksumAlgo where [simp]: "HighwayHash = 1"
definition lastChecksumAlgo :: ChecksumAlgo where [simp]: "lastChecksumAlgo = 2"

definition ChecksumAlgo_valid :: "ChecksumAlgo \<Rightarrow> bool" where
  "ChecksumAlgo_valid e \<longleftrightarrow> e > invalidChecksumAlgo \<and> e < lastChecksumAlgo"

text \<open>A \<open>map[string][]byte\<close>; storing into the nil map panics.\<close>

type_synonym bytesmap = "(string \<times> byte list) list option"

definition bget :: "bytesmap \<Rightarrow> string \<Rightarrow> byte list option" where
  "bget m k = map_of (elems m) k"

definition bgetd :: "bytesmap \<Rightarrow> string \<Rightarrow> byte list" where
  "bgetd m k = (case bget m k of None \<Rightarrow> [] | Some v \<Rightarrow> v)"

definition bdelete :: "bytesmap \<Rightarrow> string \<Rightarrow> bytesmap" where
  "bdelete m k = map_option (AList.delete k) m"

definition mdelete :: "strmap \<Rightarrow> string \<Rightarrow> strmap" where
  "mdelete m k = map_option (AList.delete k) m"

definition bstores :: "bytesmap \<Rightarrow> (string \<times> byte list) list \<Rightarrow> gerror + bytesmap" where
  "bstores m kvs =
     (if kvs = [] then Inr m
      else case m of
             None \<Rightarrow> Inl (GoPanic ''assignment to entry in nil map'')
           | Some es \<Rightarrow> Inr (Some (fold (\<lambda>(k, v). AList.update k v) kvs es)))"

definition string_of :: "byte list \<Rightarrow> string" where
  "string_of bs = map (\<lambda>b. char_of (unat b)) bs"

lemma string_of_bytes [simp]: "string_of (bytes_of s) = s"
  by (simp add: string_of_def)

record xlMetaV2DeleteMarker =
  dm_VersionID :: uuid
  dm_ModTime :: int
  dm_MetaSys :: bytesmap

record xlMetaV2Object =
  ob_VersionID :: uuid
  ob_DataDir :: uuid
  ob_ErasureAlgorithm :: ErasureAlgo
  ob_ErasureM :: int
  ob_ErasureN :: int
  ob_ErasureBlockSize :: int
  ob_ErasureIndex :: int
  ob_ErasureDist :: "byte list"
  ob_BitrotChecksumAlgo :: ChecksumAlgo
  ob_PartNumbers :: "int list"
  ob_PartETags :: "string slice"
  ob_PartSizes :: "int list"
  ob_PartActualSizes :: "int slice"
  ob_PartIndices :: "byte slice slice"
  ob_Size :: int
  ob_ModTime :: int
  ob_MetaSys :: bytesmap
  ob_MetaUser :: strmap

record StatInfo =
  si_Size :: int
  si_ModTime :: gotime
  si_Name :: string
  si_Dir :: bool
  si_Mode :: "32 word"

record xlMetaV1Object =
  m1_Version :: string
  m1_Format :: string
  m1_Stat :: StatInfo
  m1_Erasure :: ErasureInfo
  m1_Release :: string
  m1_Meta :: strmap
  m1_Parts :: "ObjectPartInfo slice"
  m1_VersionID :: string
  m1_DataDir :: string

record xlMetaV2Version =
  xv_Type :: VersionType
  xv_ObjectV1 :: "xlMetaV1Object option"
  xv_ObjectV2 :: "xlMetaV2Object option"
  xv_DeleteMarker :: "xlMetaV2DeleteMarker option"
  xv_WrittenByVersion :: "64 word"

definition version0 :: xlMetaV2Version where
  "version0 = \<lparr>xv_Type = 0, xv_ObjectV1 = None, xv_ObjectV2 = None, xv_DeleteMarker = None, xv_WrittenByVersion = 0\<rparr>"

section \<open>Surroundings\<close>

text \<open>The clock; the orders in which maps are visited; the formats of time stamps (\<open>amztime.ParseReplicationTS\<close>, and
  \<open>time.Parse\<close> and \<open>Format\<close> of \<open>RFC3339Nano\<close> in UTC); the package \<open>uuid\<close>; the configured limit and the release; the hashes
  \<open>xxhash.Sum64\<close> and \<open>xxh3.Hash\<close>; the generated methods \<open>MarshalMsg\<close> and \<open>UnmarshalMsg\<close> of the structs, that of
  \<open>xlMetaDataDirDecoder\<close> among them (nil, or the data directory); \<open>sort.Slice\<close> by \<open>sortsBefore\<close>; MessagePack.\<close>

record xl_env =
  xe_Clock :: clock
  xe_ord :: "(string \<times> string) list \<Rightarrow> (string \<times> string) list"
  xe_bord :: "(string \<times> byte list) list \<Rightarrow> (string \<times> byte list) list"
  xe_ParseTS :: "string \<Rightarrow> gotime"
  xe_ParseRFC :: "string \<Rightarrow> gotime option"
  xe_FormatRFC :: "gotime \<Rightarrow> string"
  xe_Parse :: "string \<Rightarrow> uuid option"
  xe_String :: "uuid \<Rightarrow> string"
  xe_MaxVersions :: int
  xe_VersionUnix :: "64 word"
  xe_xxhash :: "byte list \<Rightarrow> 64 word"
  xe_xxh3 :: "byte list \<Rightarrow> 64 word"
  xe_MarshalObject :: "xlMetaV2Object \<Rightarrow> gerror + byte list"
  xe_MarshalMarker :: "xlMetaV2DeleteMarker \<Rightarrow> gerror + byte list"
  xe_MarshalLegacy :: "xlMetaV1Object \<Rightarrow> gerror + byte list"
  xe_Marshal :: "xlMetaV2Version \<Rightarrow> gerror + byte list"
  xe_Unmarshal :: "byte list \<Rightarrow> gerror + xlMetaV2Version \<times> byte list"
  xe_DataDir :: "byte list \<Rightarrow> gerror + uuid option"
  xe_sort :: "xlMetaV2ShallowVersion list \<Rightarrow> xlMetaV2ShallowVersion list"
  xe_M :: msgp

section \<open>Validity\<close>

definition xlMetaVersion101 :: string where "xlMetaVersion101 = ''1.0.1''"
definition xlMetaVersion100 :: string where "xlMetaVersion100 = ''1.0.0''"
definition xlMetaFormat :: string where "xlMetaFormat = ''xl''"

definition isXLMetaFormatValid :: "string \<Rightarrow> string \<Rightarrow> bool" where
  "isXLMetaFormatValid version format \<longleftrightarrow> (version = xlMetaVersion101 \<or> version = xlMetaVersion100) \<and> format = xlMetaFormat"

definition isXLMetaErasureInfoValid :: "int \<Rightarrow> int \<Rightarrow> bool" where
  "isXLMetaErasureInfoValid data parity \<longleftrightarrow> data \<ge> parity \<and> data > 0 \<and> parity \<ge> 0"

definition m1_valid :: "xlMetaV1Object \<Rightarrow> bool" where
  "m1_valid m \<longleftrightarrow> isXLMetaFormatValid (m1_Version m) (m1_Format m)
     \<and> isXLMetaErasureInfoValid (ei_DataBlocks (m1_Erasure m)) (ei_ParityBlocks (m1_Erasure m))"

definition Valid :: "xlMetaV2Version \<Rightarrow> bool" where
  "Valid j =
     (if \<not> VersionType_valid (xv_Type j) then False
      else if xv_Type j = LegacyType then (case xv_ObjectV1 j of None \<Rightarrow> False | Some m \<Rightarrow> m1_valid m)
      else if xv_Type j = ObjectType then
        (case xv_ObjectV2 j of
           None \<Rightarrow> False
         | Some ob \<Rightarrow> ErasureAlgo_valid (ob_ErasureAlgorithm ob) \<and> ChecksumAlgo_valid (ob_BitrotChecksumAlgo ob)
             \<and> isXLMetaErasureInfoValid (ob_ErasureM ob) (ob_ErasureN ob) \<and> ob_ModTime ob > 0)
      else if xv_Type j = DeleteType then (case xv_DeleteMarker j of None \<Rightarrow> False | Some d \<Rightarrow> dm_ModTime d > 0)
      else False)"

section \<open>The header\<close>

text \<open>A field read through a pointer that may be nil.\<close>

definition deref :: "'a option \<Rightarrow> ('a \<Rightarrow> 'b) \<Rightarrow> gerror + 'b" where
  "deref p f = (case p of None \<Rightarrow> Inl (GoPanic ''nil pointer dereference'') | Some x \<Rightarrow> Inr (f x))"

lemma deref_simps [simp]: "deref (Some x) f = Inr (f x)" "deref None f = Inl (GoPanic ''nil pointer dereference'')"
  by (simp_all add: deref_def)

definition freeVersion :: string where "freeVersion = ''free-version''"
definition TransitionStatus :: string where "TransitionStatus = ''transition-status''"
definition TransitionedObjectName :: string where "TransitionedObjectName = ''transitioned-object''"
definition TransitionedVersionID :: string where "TransitionedVersionID = ''transitioned-versionID''"
definition TransitionTier :: string where "TransitionTier = ''transition-tier''"

definition metaTierStatus :: string where "metaTierStatus = ReservedMetadataPrefixLower @ TransitionStatus"
definition metaTierObjName :: string where "metaTierObjName = ReservedMetadataPrefixLower @ TransitionedObjectName"
definition metaTierVersionID :: string where "metaTierVersionID = ReservedMetadataPrefixLower @ TransitionedVersionID"
definition metaTierName :: string where "metaTierName = ReservedMetadataPrefixLower @ TransitionTier"

definition dm_FreeVersion :: "xlMetaV2DeleteMarker \<Rightarrow> bool" where
  "dm_FreeVersion j \<longleftrightarrow> bget (dm_MetaSys j) (ReservedMetadataPrefixLower @ freeVersion) \<noteq> None"

definition xv_FreeVersion :: "xlMetaV2Version \<Rightarrow> gerror + bool" where
  "xv_FreeVersion j = (if xv_Type j = DeleteType then deref (xv_DeleteMarker j) dm_FreeVersion else Inr False)"

definition ob_UsesDataDir :: "clock \<Rightarrow> xlMetaV2Object \<Rightarrow> bool" where
  "ob_UsesDataDir clk j =
     (if bgetd (ob_MetaSys j) metaTierStatus \<noteq> bytes_of TransitionComplete then True
      else isRestoredObjectOnDisk clk (ob_MetaUser j))"

definition ob_InlineData :: "xlMetaV2Object \<Rightarrow> bool" where
  "ob_InlineData j \<longleftrightarrow> bget (ob_MetaSys j) (ReservedMetadataPrefixLower @ ''inline-data'') \<noteq> None"

definition ob_ResetInlineData :: "xlMetaV2Object \<Rightarrow> xlMetaV2Object" where
  "ob_ResetInlineData j = j\<lparr>ob_MetaSys := bdelete (ob_MetaSys j) (ReservedMetadataPrefixLower @ ''inline-data'')\<rparr>"

definition SetTransition :: "xlMetaV2Object \<Rightarrow> FileInfo \<Rightarrow> gerror + xlMetaV2Object" where
  "SetTransition j fi =
     (case bstores (ob_MetaSys j) [(metaTierStatus, bytes_of (fi_TransitionStatus fi)), (metaTierObjName, bytes_of (fi_TransitionedObjName fi)),
        (metaTierVersionID, bytes_of (fi_TransitionVersionID fi)), (metaTierName, bytes_of (fi_TransitionTier fi))] of
        Inl e \<Rightarrow> Inl e | Inr m \<Rightarrow> Inr (j\<lparr>ob_MetaSys := m\<rparr>))"

definition AmzRestoreExpiryDays :: string where "AmzRestoreExpiryDays = ''X-Amz-Restore-Expiry-Days''"
definition AmzRestoreRequestDate :: string where "AmzRestoreRequestDate = ''X-Amz-Restore-Request-Date''"

definition RemoveRestoreHdrs :: "xlMetaV2Object \<Rightarrow> xlMetaV2Object" where
  "RemoveRestoreHdrs j = j\<lparr>ob_MetaUser := mdelete (mdelete (mdelete (ob_MetaUser j) AmzRestore) AmzRestoreExpiryDays) AmzRestoreRequestDate\<rparr>"

text \<open>Signatures: the same on all drives.\<close>

definition entry_hash :: "64 word \<Rightarrow> 64 word \<Rightarrow> 64 word" where
  "entry_hash hk hv = (hk XOR 0x4ee3bbaf7ab2506b) + (hv XOR 0x8da4c8da66194257)"

definition hashDeterministicString :: "xl_env \<Rightarrow> strmap \<Rightarrow> 64 word" where
  "hashDeterministicString E m =
     foldl (\<lambda>crc (k, v). crc XOR entry_hash (xe_xxh3 E (bytes_of k)) (xe_xxh3 E (bytes_of v))) 0xc2b40bbac11a7295 (xe_ord E (elems m))"

definition hashDeterministicBytes :: "xl_env \<Rightarrow> bytesmap \<Rightarrow> 64 word" where
  "hashDeterministicBytes E m =
     foldl (\<lambda>crc (k, v). crc XOR entry_hash (xe_xxh3 E (bytes_of k)) (xe_xxh3 E v)) 0x1bbc7e1dde654743 (xe_bord E (elems m))"

text \<open>\<open>binary.LittleEndian.PutUint32(tmp[:], uint32(crc ^ (crc >> 32)))\<close>.\<close>

definition fold_crc :: "64 word \<Rightarrow> byte list" where
  "fold_crc crc = (let w = ucast (crc XOR drop_bit 32 crc) :: 32 word
     in [ucast w, ucast (drop_bit 8 w), ucast (drop_bit 16 w), ucast (drop_bit 24 w)])"

definition with_bytes :: "xl_env \<Rightarrow> 64 word \<Rightarrow> gerror + byte list \<Rightarrow> byte list" where
  "with_bytes E crc r = fold_crc (case r of Inl e \<Rightarrow> crc | Inr bts \<Rightarrow> crc XOR xe_xxhash E bts)"

definition dm_Signature :: "xl_env \<Rightarrow> xlMetaV2DeleteMarker \<Rightarrow> byte list" where
  "dm_Signature E j = with_bytes E (hashDeterministicBytes E (dm_MetaSys j)) (xe_MarshalMarker E (j\<lparr>dm_MetaSys := None\<rparr>))"

definition ob_Signature :: "xl_env \<Rightarrow> xlMetaV2Object \<Rightarrow> byte list" where
  "ob_Signature E j =
     (let c = j\<lparr>ob_ErasureIndex := 0\<rparr>;
          c = (if list_all (\<lambda>tag. tag = []) (elems (ob_PartETags c)) then c\<lparr>ob_PartETags := None\<rparr> else c);
          c = (if elems (ob_PartActualSizes c) = [] then c\<lparr>ob_PartActualSizes := None\<rparr> else c);
          crc = hashDeterministicString E (ob_MetaUser c) XOR hashDeterministicBytes E (ob_MetaSys c)
      in with_bytes E crc (xe_MarshalObject E (c\<lparr>ob_MetaSys := None, ob_MetaUser := None\<rparr>)))"

definition m1_Signature :: "xl_env \<Rightarrow> xlMetaV1Object \<Rightarrow> byte list" where
  "m1_Signature E m =
     (let c = m\<lparr>m1_Erasure := (m1_Erasure m)\<lparr>ei_Index := 0\<rparr>, m1_Release := []\<rparr>
      in with_bytes E (hashDeterministicString E (m1_Meta c)) (xe_MarshalLegacy E (c\<lparr>m1_Meta := None\<rparr>)))"

definition signatureErr :: "byte list" where "signatureErr = bytes_of ''err'' @ [0]"

definition getSignature :: "xl_env \<Rightarrow> xlMetaV2Version \<Rightarrow> gerror + byte list" where
  "getSignature E j =
     (if xv_Type j = ObjectType then deref (xv_ObjectV2 j) (ob_Signature E)
      else if xv_Type j = DeleteType then deref (xv_DeleteMarker j) (dm_Signature E)
      else if xv_Type j = LegacyType then deref (xv_ObjectV1 j) (m1_Signature E)
      else Inr signatureErr)"

definition getModTime :: "xlMetaV2Version \<Rightarrow> gerror + gotime" where
  "getModTime j =
     (if xv_Type j = ObjectType then deref (xv_ObjectV2 j) (\<lambda>ob. Unix0 (ob_ModTime ob))
      else if xv_Type j = DeleteType then deref (xv_DeleteMarker j) (\<lambda>d. Unix0 (dm_ModTime d))
      else if xv_Type j = LegacyType then deref (xv_ObjectV1 j) (\<lambda>m. si_ModTime (m1_Stat m))
      else Inr zero_time)"

definition getVersionID :: "xlMetaV2Version \<Rightarrow> gerror + uuid" where
  "getVersionID j =
     (if xv_Type j = ObjectType then deref (xv_ObjectV2 j) ob_VersionID
      else if xv_Type j = DeleteType then deref (xv_DeleteMarker j) dm_VersionID
      else Inr uuid0)"

definition getDataDir :: "xl_env \<Rightarrow> xlMetaV2Version \<Rightarrow> string" where
  "getDataDir E j =
     (if Valid j then
        if xv_Type j = LegacyType then (case xv_ObjectV1 j of None \<Rightarrow> [] | Some m \<Rightarrow> m1_DataDir m)
        else if xv_Type j = ObjectType then (case xv_ObjectV2 j of None \<Rightarrow> [] | Some ob \<Rightarrow> xe_String E (ob_DataDir ob))
        else []
      else [])"

text \<open>What the header takes of the version its type names.\<close>

definition header_of_object :: "xl_env \<Rightarrow> xlMetaV2Object \<Rightarrow> xlMetaV2VersionHeader" where
  "header_of_object E ob = \<lparr>vh_VersionID = ob_VersionID ob, vh_ModTime = UnixNano (Unix0 (ob_ModTime ob)), vh_Signature = ob_Signature E ob,
     vh_Type = ObjectType,
     vh_Flags = (if ob_UsesDataDir (xe_Clock E) ob then xlFlagUsesDataDir else 0) OR (if ob_InlineData ob then xlFlagInlineData else 0),
     vh_EcN = word_of_int (ob_ErasureN ob), vh_EcM = word_of_int (ob_ErasureM ob)\<rparr>"

definition header_of_marker :: "xl_env \<Rightarrow> xlMetaV2DeleteMarker \<Rightarrow> xlMetaV2VersionHeader" where
  "header_of_marker E d = \<lparr>vh_VersionID = dm_VersionID d, vh_ModTime = UnixNano (Unix0 (dm_ModTime d)), vh_Signature = dm_Signature E d,
     vh_Type = DeleteType, vh_Flags = (if dm_FreeVersion d then xlFlagFreeVersion else 0), vh_EcN = 0, vh_EcM = 0\<rparr>"

definition header_of_legacy :: "xl_env \<Rightarrow> xlMetaV1Object \<Rightarrow> xlMetaV2VersionHeader" where
  "header_of_legacy E m = \<lparr>vh_VersionID = uuid0, vh_ModTime = UnixNano (si_ModTime (m1_Stat m)), vh_Signature = m1_Signature E m,
     vh_Type = LegacyType, vh_Flags = 0, vh_EcN = 0, vh_EcM = 0\<rparr>"

definition header :: "xl_env \<Rightarrow> xlMetaV2Version \<Rightarrow> gerror + xlMetaV2VersionHeader" where
  "header E j =
     (if xv_Type j = ObjectType then deref (xv_ObjectV2 j) (header_of_object E)
      else if xv_Type j = DeleteType then deref (xv_DeleteMarker j) (header_of_marker E)
      else if xv_Type j = LegacyType then deref (xv_ObjectV1 j) (header_of_legacy E)
      else Inr \<lparr>vh_VersionID = uuid0, vh_ModTime = UnixNano zero_time, vh_Signature = signatureErr, vh_Type = xv_Type j,
             vh_Flags = 0, vh_EcN = 0, vh_EcM = 0\<rparr>)"

text \<open>It is composed of the methods \<open>FreeVersion\<close>, \<open>getVersionID\<close>, \<open>getModTime\<close> and \<open>getSignature\<close>.\<close>

lemma header_methods:
  assumes "header E j = Inr h"
  shows "getVersionID j = Inr (vh_VersionID h)" and "getSignature E j = Inr (vh_Signature h)" and "vh_Type h = xv_Type j"
    and "\<exists>t. getModTime j = Inr t \<and> vh_ModTime h = UnixNano t" and "xv_FreeVersion j = Inr (header_FreeVersion h)"
  using assms
  by (auto simp: header_def getVersionID_def getSignature_def getModTime_def xv_FreeVersion_def deref_def header_of_object_def
      header_of_marker_def header_of_legacy_def header_FreeVersion_def xlFlagFreeVersion_def xlFlagUsesDataDir_def xlFlagInlineData_def
      split: if_splits option.splits)

text \<open>The flag \<open>UsesDataDir\<close> depends on the time: it is cleared when the restored copy has expired. What a header was at some earlier
  time; only that flag may have changed since.\<close>

definition at_time :: "gotime \<Rightarrow> xl_env \<Rightarrow> xl_env" where
  "at_time t E = E\<lparr>xe_Clock := (xe_Clock E)\<lparr>Now := t\<rparr>\<rparr>"

definition header_since :: "xl_env \<Rightarrow> xlMetaV2Version \<Rightarrow> xlMetaV2VersionHeader \<Rightarrow> bool" where
  "header_since E v h \<longleftrightarrow> (\<exists>t \<le> Now (xe_Clock E). header (at_time t E) v = Inr h)"

lemma at_time_simps [simp]:
  "xe_Clock (at_time t E) = (xe_Clock E)\<lparr>Now := t\<rparr>" "at_time t (at_time u E) = at_time t E" "at_time (Now (xe_Clock E)) E = E"
  by (simp_all add: at_time_def)

lemma header_now: "header E v = Inr h \<Longrightarrow> header_since E v h"
  unfolding header_since_def by (intro exI[of _ "Now (xe_Clock E)"]) simp

lemma header_since_methods:
  assumes "header_since E j h"
  shows "getVersionID j = Inr (vh_VersionID h)" and "vh_Type h = xv_Type j" and "\<exists>t. getModTime j = Inr t \<and> vh_ModTime h = UnixNano t"
    and "xv_FreeVersion j = Inr (header_FreeVersion h)"
  using assms header_methods unfolding header_since_def by blast+

lemma header_since_later: "header_since E v h \<Longrightarrow> Now (xe_Clock E) \<le> t \<Longrightarrow> header_since (at_time t E) v h"
  unfolding header_since_def by (auto intro: order_trans)

lemma restored_before:
  assumes "isRestoredObjectOnDisk clk m" and "t \<le> Now clk"
  shows "isRestoredObjectOnDisk (clk\<lparr>Now := t\<rparr>) m"
proof -
  have "ParseHeader (clk\<lparr>Now := t\<rparr>) = ParseHeader clk" by simp
  then have p: "parseRestoreObjStatus (clk\<lparr>Now := t\<rparr>) h = parseRestoreObjStatus clk h" for h by (simp only: parseRestoreObjStatus_def)
  have d: "restore_OnDisk clk r \<Longrightarrow> restore_OnDisk (clk\<lparr>Now := t\<rparr>) r" for r
    using assms(2) by (cases "restore_Expiry r") (simp add: restore_OnDisk_def)
  show ?thesis using assms(1) d unfolding isRestoredObjectOnDisk_def p by (auto split: option.splits sum.splits)
qed

lemma used_before: "ob_UsesDataDir clk ob \<Longrightarrow> t \<le> Now clk \<Longrightarrow> ob_UsesDataDir (clk\<lparr>Now := t\<rparr>) ob"
  using restored_before by (simp add: ob_UsesDataDir_def)

text \<open>So an earlier header is the present one, or it still has the flag of a restored copy that has expired since.\<close>

lemma header_since_flag:
  assumes "header_since E v h"
  shows "\<exists>h'. header E v = Inr h' \<and> (h = h' \<or> h = h'\<lparr>vh_Flags := vh_Flags h' OR xlFlagUsesDataDir\<rparr>)"
proof -
  obtain t where t: "t \<le> Now (xe_Clock E)" "header (at_time t E) v = Inr h" using assms by (auto simp: header_since_def)
  have f: "xe_xxh3 (at_time t E) = xe_xxh3 E" "xe_xxhash (at_time t E) = xe_xxhash E" "xe_ord (at_time t E) = xe_ord E" "xe_bord (at_time t E) = xe_bord E"
    "xe_MarshalObject (at_time t E) = xe_MarshalObject E" "xe_MarshalMarker (at_time t E) = xe_MarshalMarker E"
    "xe_MarshalLegacy (at_time t E) = xe_MarshalLegacy E" by (simp_all add: at_time_def)
  have h: "hashDeterministicString (at_time t E) = hashDeterministicString E" "hashDeterministicBytes (at_time t E) = hashDeterministicBytes E"
    "with_bytes (at_time t E) = with_bytes E"
    by (intro ext; simp only: hashDeterministicString_def hashDeterministicBytes_def with_bytes_def f)+
  have sig: "ob_Signature (at_time t E) = ob_Signature E" "dm_Signature (at_time t E) = dm_Signature E" "m1_Signature (at_time t E) = m1_Signature E"
    by (intro ext; simp only: ob_Signature_def dm_Signature_def m1_Signature_def h f)+
  have ob: "header_of_object (at_time t E) ob = header_of_object E ob
      \<or> header_of_object (at_time t E) ob = (header_of_object E ob)\<lparr>vh_Flags := vh_Flags (header_of_object E ob) OR xlFlagUsesDataDir\<rparr>" for ob
    using used_before[OF _ t(1), of ob] by (auto simp: header_of_object_def sig or.assoc or.commute)
  have "header_of_marker (at_time t E) = header_of_marker E" "header_of_legacy (at_time t E) = header_of_legacy E"
    by (simp_all add: fun_eq_iff header_of_marker_def header_of_legacy_def sig)
  then show ?thesis using t(2) ob by (auto simp: header_def deref_def split: if_splits option.splits)
qed

section \<open>Decoding\<close>

definition xlHeaderVersion :: byte where [simp]: "xlHeaderVersion = 3"
definition xlMetaVersion :: byte where [simp]: "xlMetaVersion = 3"

text \<open>Time stamps that are not in UTC are rewritten; a value that does not parse stays.\<close>

definition fix_stamp :: "xl_env \<Rightarrow> bytesmap \<Rightarrow> string \<Rightarrow> bytesmap" where
  "fix_stamp E m k =
     (case bget m k of
        None \<Rightarrow> m
      | Some val \<Rightarrow> (case xe_ParseRFC E (string_of val) of
            None \<Rightarrow> m
          | Some tm \<Rightarrow> map_option (AList.update k (bytes_of (xe_FormatRFC E tm))) m))"

definition fix_stamps :: "xl_env \<Rightarrow> xlMetaV2DeleteMarker \<Rightarrow> xlMetaV2DeleteMarker" where
  "fix_stamps E d = d\<lparr>dm_MetaSys := fix_stamp E (fix_stamp E (dm_MetaSys d) (ReservedMetadataPrefixLower @ ReplicationTimestamp))
     (ReservedMetadataPrefixLower @ ReplicaTimestamp)\<rparr>"

definition clean_etags :: "xlMetaV2Object \<Rightarrow> xlMetaV2Object" where
  "clean_etags ob = (if list_all (\<lambda>tag. tag = []) (elems (ob_PartETags ob)) then ob\<lparr>ob_PartETags := None\<rparr> else ob)"

text \<open>\<open>unmarshalV\<close> into a fresh version.\<close>

definition unmarshalV :: "xl_env \<Rightarrow> byte \<Rightarrow> byte list \<Rightarrow> gerror + xlMetaV2Version \<times> byte list" where
  "unmarshalV E v bts =
     (if v > xlMetaVersion then Inl (OtherErr (''unknown xlMetaVersion: '' @ itoa (uint v)))
      else case xe_Unmarshal E bts of
             Inl e \<Rightarrow> Inl e
           | Inr (j, o1) \<Rightarrow>
               if xv_Type j = DeleteType \<and> v < 2 \<and> xv_DeleteMarker j = None then Inl (GoPanic ''nil pointer dereference'')
               else Inr (j\<lparr>xv_DeleteMarker := (if xv_Type j = DeleteType \<and> v < 2 then map_option (fix_stamps E) (xv_DeleteMarker j)
                                              else xv_DeleteMarker j),
                          xv_ObjectV2 := map_option clean_etags (xv_ObjectV2 j)\<rparr>, o1))"

section \<open>As a \<open>FileInfo\<close>\<close>

definition GetInternalReplicationState :: "xl_env \<Rightarrow> bytesmap \<Rightarrow> ReplicationState" where
  "GetInternalReplicationState E m =
     getInternalReplicationState (xe_ParseTS E) (xe_ord E) (Some (map (\<lambda>(k, v). (k, string_of v)) (xe_bord E (elems m))))"

definition version_id :: "xl_env \<Rightarrow> uuid \<Rightarrow> string" where
  "version_id E u = (if u \<noteq> uuid0 then xe_String E u else [])"

definition dm_ToFileInfo :: "xl_env \<Rightarrow> xlMetaV2DeleteMarker \<Rightarrow> string \<Rightarrow> string \<Rightarrow> FileInfo" where
  "dm_ToFileInfo E j volume path =
     (let fi = FileInfo0\<lparr>fi_Volume := volume, fi_Name := path, fi_ModTime := Unix0 (dm_ModTime j), fi_VersionID := version_id E (dm_VersionID j),
            fi_Deleted := True,
            fi_Metadata := Some (foldl (\<lambda>m (k, v). AList.update k (string_of v) m) [] (xe_bord E (elems (dm_MetaSys j)))),
            fi_ReplicationState := GetInternalReplicationState E (dm_MetaSys j)\<rparr>
      in if dm_FreeVersion j then
           (SetTierFreeVersion fi)\<lparr>fi_TransitionTier := string_of (bgetd (dm_MetaSys j) metaTierName),
              fi_TransitionedObjName := string_of (bgetd (dm_MetaSys j) metaTierObjName),
              fi_TransitionVersionID := string_of (bgetd (dm_MetaSys j) metaTierVersionID)\<rparr>
         else fi)"

definition AmzMetaUnencryptedContentLength :: string where "AmzMetaUnencryptedContentLength = ''X-Amz-Meta-X-Amz-Unencrypted-Content-Length''"
definition AmzMetaUnencryptedContentMD5 :: string where "AmzMetaUnencryptedContentMD5 = ''X-Amz-Meta-X-Amz-Unencrypted-Content-Md5''"
definition AmzBucketReplicationStatus :: string where "AmzBucketReplicationStatus = ''X-Amz-Replication-Status''"
definition STANDARD :: string where "STANDARD = ''STANDARD''"

definition is_reserved :: "string \<Rightarrow> bool" where
  "is_reserved k \<longleftrightarrow> length k > length ReservedMetadataPrefixLower
     \<and> EqualFold (take (length ReservedMetadataPrefixLower) k) ReservedMetadataPrefixLower"

definition user_entry :: "strmap \<Rightarrow> string \<times> string \<Rightarrow> strmap" where
  "user_entry m kv = (case kv of (k, v) \<Rightarrow>
     if equals k [AmzMetaUnencryptedContentLength, AmzMetaUnencryptedContentMD5] then m
     else if equals k [''x-amz-storage-class''] \<and> v = STANDARD then m
     else mput m k v)"

definition sys_entry :: "strmap \<Rightarrow> string \<times> byte list \<Rightarrow> strmap" where
  "sys_entry m kv = (case kv of (k, v) \<Rightarrow>
     if is_reserved k \<and> k \<in> {ReservedMetadataPrefixLower @ tierFVID, ReservedMetadataPrefixLower @ tierFVMarker} then m
     else if equals k [''x-amz-storage-class''] \<and> string_of v = STANDARD then m
     else if take (length ReservedMetadataPrefixLower) (map lower k) = ReservedMetadataPrefixLower \<or> equals k [VersionPurgeStatusKey]
       then mput m k (string_of v)
     else m)"

text \<open>The parts; the sizes are indexed by the number of parts, the tags and indices only when there are as many.\<close>

definition ob_parts :: "xlMetaV2Object \<Rightarrow> gerror + ObjectPartInfo list" where
  "ob_parts j =
     (let n = length (ob_PartNumbers j); etags = elems (ob_PartETags j); indices = elems (ob_PartIndices j);
          actual = elems (ob_PartActualSizes j)
      in if length (ob_PartSizes j) < n \<or> length actual < n then Inl (GoPanic ''index out of range'')
         else Inr (map (\<lambda>i. ObjectPartInfo0\<lparr>pt_Number := ob_PartNumbers j ! i, pt_Size := ob_PartSizes j ! i,
                     pt_ETag := (if length etags = n then etags ! i else []), pt_ActualSize := actual ! i,
                     pt_Index := (if length indices = n then indices ! i else None)\<rparr>) [0..<n]))"

definition ob_ToFileInfo :: "xl_env \<Rightarrow> xlMetaV2Object \<Rightarrow> string \<Rightarrow> string \<Rightarrow> bool \<Rightarrow> gerror + FileInfo" where
  "ob_ToFileInfo E j volume path allParts =
     (case (if allParts then ob_parts j else Inr []) of
        Inl e \<Rightarrow> Inl e
      | Inr parts \<Rightarrow>
          let m = foldl user_entry (Some []) (xe_ord E (elems (ob_MetaUser j)));
              m = foldl sys_entry m (xe_bord E (elems (ob_MetaSys j)));
              fi = FileInfo0\<lparr>fi_Volume := volume, fi_Name := path, fi_Size := ob_Size j, fi_ModTime := Unix0 (ob_ModTime j),
                     fi_VersionID := version_id E (ob_VersionID j), fi_Parts := (if allParts then Some parts else None), fi_Metadata := m,
                     fi_ReplicationState := getInternalReplicationState (xe_ParseTS E) (xe_ord E) m\<rparr>;
              fi = fi\<lparr>fi_Deleted := FileInfo_VersionPurgeStatus (xe_ord E) fi \<noteq> []\<rparr>;
              replStatus = CompositeReplicationStatus (xe_ord E) (fi_ReplicationState fi);
              fi = (if replStatus \<noteq> [] then fi\<lparr>fi_Metadata := mput (fi_Metadata fi) AmzBucketReplicationStatus replStatus\<rparr> else fi);
              opt = (\<lambda>k. case bget (ob_MetaSys j) k of None \<Rightarrow> [] | Some v \<Rightarrow> string_of v);
              crcs = bgetd (ob_MetaSys j) (ReservedMetadataPrefixLower @ ''crc'')
          in Inr (fi\<lparr>fi_Erasure := ErasureInfo0\<lparr>ei_Algorithm := ErasureAlgo_String (ob_ErasureAlgorithm j), ei_Index := ob_ErasureIndex j,
                       ei_BlockSize := ob_ErasureBlockSize j, ei_DataBlocks := ob_ErasureM j, ei_ParityBlocks := ob_ErasureN j,
                       ei_Distribution := Some (map uint (ob_ErasureDist j))\<rparr>,
                     fi_DataDir := xe_String E (ob_DataDir j), fi_TransitionStatus := opt metaTierStatus,
                     fi_TransitionedObjName := opt metaTierObjName, fi_TransitionVersionID := opt metaTierVersionID,
                     fi_TransitionTier := opt metaTierName, fi_Checksum := (if length crcs > 0 then Some crcs else None)\<rparr>))"

definition m1_ToFileInfo :: "xlMetaV1Object \<Rightarrow> string \<Rightarrow> string \<Rightarrow> gerror + FileInfo" where
  "m1_ToFileInfo m volume path =
     (if \<not> m1_valid m then Inl ErrFileCorrupt
      else Inr (FileInfo0\<lparr>fi_Volume := volume, fi_Name := path, fi_ModTime := si_ModTime (m1_Stat m), fi_Size := si_Size (m1_Stat m),
             fi_Metadata := m1_Meta m, fi_Parts := m1_Parts m, fi_Erasure := m1_Erasure m, fi_VersionID := m1_VersionID m,
             fi_DataDir := m1_DataDir m, fi_XLV1 := True, fi_NumVersions := 1\<rparr>))"

definition unnest :: "gerror + gerror + 'a \<Rightarrow> gerror + 'a" where
  "unnest r = (case r of Inl e \<Rightarrow> Inl e | Inr r' \<Rightarrow> r')"

definition xv_ToFileInfo :: "xl_env \<Rightarrow> xlMetaV2Version \<Rightarrow> string \<Rightarrow> string \<Rightarrow> bool \<Rightarrow> gerror + FileInfo" where
  "xv_ToFileInfo E j volume path allParts =
     (case (if xv_Type j = ObjectType then unnest (deref (xv_ObjectV2 j) (\<lambda>ob. ob_ToFileInfo E ob volume path allParts))
            else if xv_Type j = DeleteType then deref (xv_DeleteMarker j) (\<lambda>d. dm_ToFileInfo E d volume path)
            else if xv_Type j = LegacyType then unnest (deref (xv_ObjectV1 j) (\<lambda>m. m1_ToFileInfo m volume path))
            else Inl ErrFileNotFound) of
        Inl e \<Rightarrow> Inl e
      | Inr fi \<Rightarrow> Inr (fi\<lparr>fi_WrittenByVersion := xv_WrittenByVersion j\<rparr>))"

section \<open>Free versions\<close>

text \<open>A marker that tracks what a deleted object has in a remote tier; a bad id of the caller panics.\<close>

definition InitFreeVersion :: "xl_env \<Rightarrow> xlMetaV2Object \<Rightarrow> FileInfo \<Rightarrow> gerror + xlMetaV2Version option" where
  "InitFreeVersion E j fi =
     (if SkipTierFreeVersion fi then Inr None
      else if bget (ob_MetaSys j) (ReservedMetadataPrefixLower @ TransitionStatus) = Some (bytes_of TransitionComplete) then
        (case xe_Parse E (TierFreeVersionID fi) of
           None \<Rightarrow> Inl (GoPanic ''Invalid Tier Object delete marker versionId'')
         | Some vID \<Rightarrow>
             let tier = (\<lambda>m (k, v). if k \<in> {ReservedMetadataPrefixLower @ TransitionTier, ReservedMetadataPrefixLower @ TransitionedObjectName,
                            ReservedMetadataPrefixLower @ TransitionedVersionID} then AList.update k v m else m)
             in Inr (Some (version0\<lparr>xv_Type := DeleteType, xv_WrittenByVersion := xe_VersionUnix E,
                  xv_DeleteMarker := Some \<lparr>dm_VersionID = vID, dm_ModTime = ob_ModTime j,
                    dm_MetaSys = Some (foldl tier [(ReservedMetadataPrefixLower @ freeVersion, [])] (xe_bord E (elems (ob_MetaSys j))))\<rparr>\<rparr>)))
      else Inr None)"

end
