(* ===== verification/XL_Journal.thy ===== *)
theory XL_Journal
  imports XL_Version
begin

text \<open>
  The journal of an object, \<open>xlMetaV2\<close> of \<open>cmd/xl-storage-format-v2.go\<close>: its versions with their headers, the newest first,
  and the inline data. Every operation returns the journal with the error; a panic is an error.
\<close>

section \<open>State\<close>

record xlMetaV2 =
  xl_versions :: "xlMetaV2ShallowVersion list"
  xl_data :: xlMetaInlineData
  xl_metaV :: byte

definition errMaxVersionsExceeded :: gerror where
  "errMaxVersionsExceeded = OtherErr ''maximum versions exceeded, please delete few versions to proceed''"

definition emptyUUID :: string where "emptyUUID = ''00000000-0000-0000-0000-000000000000''"

fun first_index :: "('a \<Rightarrow> bool) \<Rightarrow> 'a list \<Rightarrow> nat option" where
  "first_index P [] = None"
| "first_index P (x # xs) = (if P x then Some 0 else map_option Suc (first_index P xs))"

definition latestModtime :: "xlMetaV2 \<Rightarrow> gotime" where
  "latestModtime x = (case xl_versions x of [] \<Rightarrow> zero_time | v # _ \<Rightarrow> Unix0 (vh_ModTime (sv_header v)))"

definition getIdx :: "xl_env \<Rightarrow> xlMetaV2 \<Rightarrow> nat \<Rightarrow> gerror + xlMetaV2Version" where
  "getIdx E x idx =
     (if idx \<ge> length (xl_versions x) then Inl ErrFileNotFound
      else case unmarshalV E (xl_metaV x) (sv_meta (xl_versions x ! idx)) of Inl e \<Rightarrow> Inl e | Inr (dst, _) \<Rightarrow> Inr dst)"

definition has_id :: "uuid \<Rightarrow> xlMetaV2ShallowVersion \<Rightarrow> bool" where
  "has_id key ver \<longleftrightarrow> vh_VersionID (sv_header ver) = key"

definition findVersion :: "xl_env \<Rightarrow> xlMetaV2 \<Rightarrow> uuid \<Rightarrow> gerror + nat \<times> xlMetaV2Version" where
  "findVersion E x key =
     (case first_index (has_id key) (xl_versions x) of
        None \<Rightarrow> Inl ErrFileVersionNotFound
      | Some i \<Rightarrow> (case getIdx E x i of Inl e \<Rightarrow> Inl e | Inr obj \<Rightarrow> Inr (i, obj)))"

definition findVersionStr :: "xl_env \<Rightarrow> xlMetaV2 \<Rightarrow> string \<Rightarrow> gerror + nat \<times> xlMetaV2Version" where
  "findVersionStr E x key0 =
     (let key = (if key0 = nullVersionID then [] else key0)
      in if key \<noteq> [] then (case xe_Parse E key of None \<Rightarrow> Inl ErrFileVersionNotFound | Some u \<Rightarrow> findVersion E x u)
         else findVersion E x uuid0)"

section \<open>Order\<close>

text \<open>\<open>sort.SliceIsSorted\<close> and \<open>sortByModTime\<close>.\<close>

fun slice_sorted :: "xlMetaV2ShallowVersion list \<Rightarrow> bool" where
  "slice_sorted (a # b # vs) = (\<not> sortsBefore (sv_header b) (sv_header a) \<and> slice_sorted (b # vs))"
| "slice_sorted vs = True"

definition sortByModTime :: "xl_env \<Rightarrow> xlMetaV2 \<Rightarrow> xlMetaV2" where
  "sortByModTime E x =
     (if length (xl_versions x) \<le> 1 \<or> slice_sorted (xl_versions x) then x
      else x\<lparr>xl_versions := xe_sort E (xl_versions x)\<rparr>)"

definition setIdx :: "xl_env \<Rightarrow> xlMetaV2 \<Rightarrow> nat \<Rightarrow> xlMetaV2Version \<Rightarrow> xlMetaV2 \<times> gerror option" where
  "setIdx E x idx ver =
     (if idx \<ge> length (xl_versions x) then (x, Some ErrFileNotFound)
      else
        let update = xl_versions x ! idx; prevMod = vh_ModTime (sv_header update)
        in case xe_Marshal E ver of
             Inl e \<Rightarrow> (x\<lparr>xl_versions := (xl_versions x)[idx := update\<lparr>sv_meta := []\<rparr>]\<rparr>, Some e)
           | Inr meta \<Rightarrow>
               (case header E ver of
                  Inl e \<Rightarrow> (x\<lparr>xl_versions := (xl_versions x)[idx := update\<lparr>sv_meta := meta\<rparr>]\<rparr>, Some e)
                | Inr h \<Rightarrow>
                    let x' = x\<lparr>xl_versions := (xl_versions x)[idx := \<lparr>sv_header = h, sv_meta = meta\<rparr>]\<rparr>
                    in (if prevMod \<noteq> vh_ModTime h then sortByModTime E x' else x', None)))"

text \<open>The loop of \<open>addVersion\<close> over the versions and the entry it appended: the new version goes in front of the first that is not
  newer, and the rest moves back over the last place.\<close>

fun insert_version :: "int \<Rightarrow> xlMetaV2ShallowVersion \<Rightarrow> xlMetaV2ShallowVersion list \<Rightarrow> xlMetaV2ShallowVersion list option" where
  "insert_version modTime new [] = None"
| "insert_version modTime new (existing # vs) =
     (if vh_ModTime (sv_header existing) \<le> modTime then Some (new # butlast (existing # vs))
      else map_option ((#) existing) (insert_version modTime new vs))"

definition addVersion :: "xl_env \<Rightarrow> xlMetaV2 \<Rightarrow> xlMetaV2Version \<Rightarrow> xlMetaV2 \<times> gerror option" where
  "addVersion E x ver =
     (case getModTime ver of
        Inl e \<Rightarrow> (x, Some e)
      | Inr t \<Rightarrow>
          if \<not> Valid ver then (x, Some (OtherErr ''attempted to add invalid version''))
          else case xe_Marshal E ver of
            Inl e \<Rightarrow> (x, Some e)
          | Inr encoded \<Rightarrow>
              if int (length (xl_versions x) + 1) > xe_MaxVersions E then (x, Some errMaxVersionsExceeded)
              else
                let appended = xl_versions x @ [\<lparr>sv_header = header0\<lparr>vh_ModTime := -1\<rparr>, sv_meta = []\<rparr>]
                in case header E ver of
                     Inl e \<Rightarrow> (x\<lparr>xl_versions := appended\<rparr>, Some e)
                   | Inr h \<Rightarrow>
                       (case insert_version (UnixNano t) \<lparr>sv_header = h, sv_meta = encoded\<rparr> appended of
                          None \<Rightarrow> (x\<lparr>xl_versions := appended\<rparr>, Some (OtherErr ''addVersion: Internal error, unable to add version''))
                        | Some vs \<Rightarrow> (x\<lparr>xl_versions := vs\<rparr>, None)))"

definition AddLegacy :: "xl_env \<Rightarrow> xlMetaV2 \<Rightarrow> xlMetaV1Object \<Rightarrow> xlMetaV2 \<times> gerror option" where
  "AddLegacy E x m =
     (if \<not> m1_valid m then (x, Some ErrFileCorrupt)
      else addVersion E x (version0\<lparr>xv_ObjectV1 := Some (m\<lparr>m1_VersionID := nullVersionID\<rparr>), xv_Type := LegacyType,
             xv_WrittenByVersion := xe_VersionUnix E\<rparr>))"

section \<open>Adding and updating a version\<close>

text \<open>Ids as the operations parse them: empty and null are the zero id.\<close>

definition parse_id :: "xl_env \<Rightarrow> string \<Rightarrow> uuid option" where
  "parse_id E s = (if s = [] \<or> s = nullVersionID then Some uuid0 else xe_Parse E s)"

definition errInvalidUUID :: gerror where "errInvalidUUID = OtherErr ''invalid UUID''"

text \<open>The metadata of a new object: what is reserved goes to the internal ones, except for what only serves the writing.\<close>

definition object_entry :: "bytesmap \<times> strmap \<Rightarrow> string \<times> string \<Rightarrow> bytesmap \<times> strmap" where
  "object_entry ms kv = (case (ms, kv) of ((sys, user), (k, v)) \<Rightarrow>
     if is_reserved k then
       (if k \<in> {ReservedMetadataPrefixLower @ tierFVID, ReservedMetadataPrefixLower @ tierFVMarker, xMinIOHealing, xMinIODataMov} then (sys, user)
        else (map_option (AList.update k (bytes_of v)) sys, user))
     else (sys, mput user k v))"

definition opt_store :: "bool \<Rightarrow> string \<Rightarrow> byte list \<Rightarrow> bytesmap \<Rightarrow> bytesmap" where
  "opt_store b k v m = (if b then map_option (AList.update k v) m else m)"

definition new_object :: "xl_env \<Rightarrow> FileInfo \<Rightarrow> uuid \<Rightarrow> uuid \<Rightarrow> xlMetaV2Object" where
  "new_object E fi uv dd =
     (let e = fi_Erasure fi; parts = elems (fi_Parts fi);
          (sys, user) = foldl object_entry (Some [], Some []) (xe_ord E (elems (fi_Metadata fi)));
          sys = opt_store (fi_TransitionStatus fi \<noteq> []) metaTierStatus (bytes_of (fi_TransitionStatus fi)) sys;
          sys = opt_store (fi_TransitionedObjName fi \<noteq> []) metaTierObjName (bytes_of (fi_TransitionedObjName fi)) sys;
          sys = opt_store (fi_TransitionVersionID fi \<noteq> []) metaTierVersionID (bytes_of (fi_TransitionVersionID fi)) sys;
          sys = opt_store (fi_TransitionTier fi \<noteq> []) metaTierName (bytes_of (fi_TransitionTier fi)) sys;
          sys = opt_store (elems (fi_Checksum fi) \<noteq> []) (ReservedMetadataPrefixLower @ ''crc'') (elems (fi_Checksum fi)) sys
      in \<lparr>ob_VersionID = uv, ob_DataDir = dd, ob_ErasureAlgorithm = ReedSolomon, ob_ErasureM = ei_DataBlocks e,
          ob_ErasureN = ei_ParityBlocks e, ob_ErasureBlockSize = ei_BlockSize e, ob_ErasureIndex = ei_Index e,
          ob_ErasureDist = map word_of_int (elems (ei_Distribution e)), ob_BitrotChecksumAlgo = HighwayHash,
          ob_PartNumbers = map pt_Number parts,
          ob_PartETags = (if list_ex (\<lambda>p. pt_ETag p \<noteq> []) parts then Some (map pt_ETag parts) else None),
          ob_PartSizes = map pt_Size parts, ob_PartActualSizes = Some (map pt_ActualSize parts),
          ob_PartIndices = (if list_ex (\<lambda>p. elems (pt_Index p) \<noteq> []) parts then Some (map pt_Index parts) else None),
          ob_Size = fi_Size fi, ob_ModTime = UnixNano (fi_ModTime fi), ob_MetaSys = sys, ob_MetaUser = user\<rparr>)"

definition new_marker :: "FileInfo \<Rightarrow> uuid \<Rightarrow> xlMetaV2DeleteMarker" where
  "new_marker fi uv = \<lparr>dm_VersionID = uv, dm_ModTime = UnixNano (fi_ModTime fi), dm_MetaSys = Some []\<rparr>"

definition new_version :: "xl_env \<Rightarrow> FileInfo \<Rightarrow> uuid \<Rightarrow> uuid \<Rightarrow> xlMetaV2Version" where
  "new_version E fi uv dd =
     (if fi_Deleted fi then version0\<lparr>xv_WrittenByVersion := xe_VersionUnix E, xv_Type := DeleteType, xv_DeleteMarker := Some (new_marker fi uv)\<rparr>
      else version0\<lparr>xv_WrittenByVersion := xe_VersionUnix E, xv_Type := ObjectType, xv_ObjectV2 := Some (new_object E fi uv dd)\<rparr>)"

definition known_type :: "xlMetaV2ShallowVersion \<Rightarrow> bool" where
  "known_type v \<longleftrightarrow> vh_Type (sv_header v) \<in> {LegacyType, ObjectType, DeleteType}"

definition AddVersion :: "xl_env \<Rightarrow> xlMetaV2 \<Rightarrow> FileInfo \<Rightarrow> xlMetaV2 \<times> gerror option" where
  "AddVersion E x fi0 =
     (let fi = (if fi_VersionID fi0 = [] then fi0\<lparr>fi_VersionID := nullVersionID\<rparr> else fi0)
      in case parse_id E (fi_VersionID fi) of
           None \<Rightarrow> (x, Some errInvalidUUID)
         | Some uv \<Rightarrow>
             (case (if fi_DataDir fi \<noteq> [] then xe_Parse E (fi_DataDir fi) else Some uuid0) of
                None \<Rightarrow> (x, Some errInvalidUUID)
              | Some dd \<Rightarrow>
                  let ventry = new_version E fi uv dd;
                      x = (if \<not> fi_Deleted fi \<and> (elems (fi_Data fi) \<noteq> [] \<or> fi_Size fi = 0)
                           then x\<lparr>xl_data := inline_replace (xe_M E) (xl_data x) (fi_VersionID fi) (elems (fi_Data fi))\<rparr> else x)
                  in if \<not> Valid ventry then (x, Some (OtherErr ''internal error: invalid version entry generated''))
                     else case first_index (\<lambda>v. has_id uv v \<and> known_type v) (xl_versions x) of
                            Some i \<Rightarrow> setIdx E x i ventry
                          | None \<Rightarrow> addVersion E x ventry))"

definition update_entry :: "gerror + xlMetaV2Object \<Rightarrow> string \<times> string \<Rightarrow> gerror + xlMetaV2Object" where
  "update_entry r kv =
     (case r of
        Inl e \<Rightarrow> Inl e
      | Inr ob \<Rightarrow> (case kv of (k, v) \<Rightarrow>
          if is_reserved k then
            (case bstores (ob_MetaSys ob) [(k, bytes_of v)] of Inl e \<Rightarrow> Inl e | Inr m \<Rightarrow> Inr (ob\<lparr>ob_MetaSys := m\<rparr>))
          else (case ob_MetaUser ob of
                  None \<Rightarrow> Inl (GoPanic ''assignment to entry in nil map'')
                | Some es \<Rightarrow> Inr (ob\<lparr>ob_MetaUser := Some (AList.update k v es)\<rparr>))))"

definition updatable :: "uuid \<Rightarrow> xlMetaV2ShallowVersion \<Rightarrow> bool" where
  "updatable uv v \<longleftrightarrow> has_id uv v \<and> known_type v"

definition UpdateObjectVersion :: "xl_env \<Rightarrow> xlMetaV2 \<Rightarrow> FileInfo \<Rightarrow> xlMetaV2 \<times> gerror option" where
  "UpdateObjectVersion E x fi =
     (case parse_id E (fi_VersionID fi) of
        None \<Rightarrow> (x, Some errInvalidUUID)
      | Some uv \<Rightarrow>
          (case first_index (updatable uv) (xl_versions x) of
             None \<Rightarrow> (x, Some ErrFileVersionNotFound)
           | Some i \<Rightarrow>
               if vh_Type (sv_header (xl_versions x ! i)) \<noteq> ObjectType then (x, Some ErrMethodNotAllowed)
               else case getIdx E x i of
                      Inl e \<Rightarrow> (x, Some e)
                    | Inr ver \<Rightarrow>
                        (case unnest (deref (xv_ObjectV2 ver) (\<lambda>ob. foldl update_entry (Inr ob) (xe_ord E (elems (fi_Metadata fi))))) of
                           Inl e \<Rightarrow> (x, Some e)
                         | Inr ob \<Rightarrow>
                             let ob = (if \<not> IsZero (fi_ModTime fi) then ob\<lparr>ob_ModTime := UnixNano (fi_ModTime fi)\<rparr> else ob)
                             in setIdx E x i (ver\<lparr>xv_ObjectV2 := Some ob\<rparr>))))"

section \<open>Deleting a version\<close>

definition SharedDataDirCount :: "xl_env \<Rightarrow> xlMetaV2 \<Rightarrow> uuid \<Rightarrow> uuid \<Rightarrow> nat" where
  "SharedDataDirCount E x versionID dataDir =
     (if inline_entries (xe_M E) (xl_data x) > 0 \<and> inline_find (xe_M E) (xl_data x) (xe_String E versionID) \<noteq> None then 0
      else length (filter (\<lambda>v. \<not> (vh_Type (sv_header v) \<noteq> ObjectType \<or> vh_VersionID (sv_header v) = versionID \<or> \<not> header_UsesDataDir (sv_header v))
             \<and> xe_DataDir E (sv_meta v) = Inr (Some dataDir)) (xl_versions x)))"

definition SharedDataDirCountStr :: "xl_env \<Rightarrow> xlMetaV2 \<Rightarrow> string \<Rightarrow> string \<Rightarrow> nat" where
  "SharedDataDirCountStr E x versionID dataDir =
     (case parse_id E versionID of
        None \<Rightarrow> 0
      | Some uv \<Rightarrow> (case xe_Parse E dataDir of None \<Rightarrow> 0 | Some ddir \<Rightarrow> SharedDataDirCount E x uv ddir))"

text \<open>What a delete marker is given of the replication state, in the order of the code.\<close>

definition marker_stores :: "xl_env \<Rightarrow> FileInfo \<Rightarrow> (string \<times> byte list) list" where
  "marker_stores E fi =
     (let rs = fi_ReplicationState fi; status = DeleteMarkerReplicationStatus (xe_ord E) fi; R = ReservedMetadataPrefixLower
      in (if status = [] then []
          else if status = Replica
            then [(R @ ReplicaStatusKey, bytes_of (rs_ReplicaStatus rs)), (R @ ReplicaTimestamp, bytes_of (xe_FormatRFC E (rs_ReplicaTimeStamp rs)))]
          else [(R @ ReplicationStatusKey, bytes_of (rs_ReplicationStatusInternal rs)),
                (R @ ReplicationTimestamp, bytes_of (xe_FormatRFC E (rs_ReplicationTimeStamp rs)))])
       @ (if FileInfo_VersionPurgeStatus (xe_ord E) fi \<noteq> [] then [(VersionPurgeStatusKey, bytes_of (rs_VersionPurgeStatusInternal rs))] else [])
       @ map (\<lambda>(k, v). (k, bytes_of v)) (xe_ord E (elems (rs_ResetStatusesMap rs))))"

definition purge_stores :: "xl_env \<Rightarrow> FileInfo \<Rightarrow> (string \<times> byte list) list" where
  "purge_stores E fi = (VersionPurgeStatusKey, bytes_of (rs_VersionPurgeStatusInternal (fi_ReplicationState fi)))
     # map (\<lambda>(k, v). (k, bytes_of v)) (xe_ord E (elems (rs_ResetStatusesMap (fi_ReplicationState fi))))"

definition store_marker :: "xlMetaV2DeleteMarker \<Rightarrow> (string \<times> byte list) list \<Rightarrow> xlMetaV2DeleteMarker" where
  "store_marker d kvs = d\<lparr>dm_MetaSys := Some (fold (\<lambda>(k, v). AList.update k v) kvs (elems (dm_MetaSys d)))\<rparr>"

definition update_version :: "xl_env \<Rightarrow> FileInfo \<Rightarrow> bool" where
  "update_version E fi =
     (let purge = FileInfo_VersionPurgeStatus (xe_ord E) fi; status = DeleteMarkerReplicationStatus (xe_ord E) fi
      in if purge = [] \<and> (status = ''REPLICA'' \<or> status = []) then fi_MarkDeleted fi
         else (fi_Deleted fi \<and> purge \<noteq> VersionPurgeComplete \<and> (purge \<noteq> [] \<or> status = []))
           \<or> (purge \<noteq> [] \<and> purge \<noteq> VersionPurgeComplete))"

text \<open>The marker that a delete adds; without one the entry is empty.\<close>

definition delete_entry :: "xl_env \<Rightarrow> FileInfo \<Rightarrow> uuid \<Rightarrow> xlMetaV2Version" where
  "delete_entry E fi uv =
     (if fi_Deleted fi then version0\<lparr>xv_Type := DeleteType, xv_DeleteMarker := Some (store_marker (new_marker fi uv) (marker_stores E fi)),
        xv_WrittenByVersion := xe_VersionUnix E\<rparr>
      else version0)"

definition drop_at :: "xlMetaV2 \<Rightarrow> nat \<Rightarrow> xlMetaV2" where
  "drop_at x i = x\<lparr>xl_versions := take i (xl_versions x) @ drop (Suc i) (xl_versions x)\<rparr>"

definition add_if :: "bool \<Rightarrow> xl_env \<Rightarrow> xlMetaV2 \<Rightarrow> xlMetaV2Version \<Rightarrow> gerror option \<Rightarrow> xlMetaV2 \<times> gerror option" where
  "add_if b E x ventry err = (if b then addVersion E x ventry else (x, err))"

text \<open>The versions of the first loop: legacy objects, markers, and objects whose purge is pending.\<close>

definition delete_legacy :: "xl_env \<Rightarrow> xlMetaV2 \<Rightarrow> FileInfo \<Rightarrow> xlMetaV2Version \<Rightarrow> nat \<Rightarrow> xlMetaV2 \<times> string \<times> gerror option" where
  "delete_legacy E x fi ventry i =
     (case getIdx E x i of
        Inl e \<Rightarrow> (x, [], Some e)
      | Inr ver \<Rightarrow>
          (case add_if (fi_Deleted fi) E (drop_at x i) ventry None of (x', err) \<Rightarrow>
             (case deref (xv_ObjectV1 ver) m1_DataDir of Inl e \<Rightarrow> (x', [], Some e) | Inr dir \<Rightarrow> (x', dir, err))))"

definition delete_marker :: "xl_env \<Rightarrow> xlMetaV2 \<Rightarrow> FileInfo \<Rightarrow> uuid \<Rightarrow> xlMetaV2Version \<Rightarrow> nat \<Rightarrow> xlMetaV2 \<times> string \<times> gerror option" where
  "delete_marker E x fi uv ventry i =
     (if update_version E fi then
        (case getIdx E x i of
           Inl e \<Rightarrow> (x, [], Some e)
         | Inr ver \<Rightarrow>
             (case deref (xv_DeleteMarker ver) (\<lambda>d. store_marker d (marker_stores E fi)) of
                Inl e \<Rightarrow> (x, [], Some e)
              | Inr d \<Rightarrow> (case setIdx E x i (ver\<lparr>xv_DeleteMarker := Some d\<rparr>) of (x', err) \<Rightarrow> (x', [], err))))
      else
        let purge = FileInfo_VersionPurgeStatus (xe_ord E) fi
        in case add_if ((fi_MarkDeleted fi \<and> (purge = [] \<or> purge \<noteq> VersionPurgeComplete)) \<or> (fi_Deleted fi \<and> xe_String E uv = emptyUUID))
                  E (drop_at x i) ventry None of (x', err) \<Rightarrow> (x', [], err))"

definition purge_object :: "xl_env \<Rightarrow> xlMetaV2 \<Rightarrow> FileInfo \<Rightarrow> nat \<Rightarrow> xlMetaV2 \<times> string \<times> gerror option" where
  "purge_object E x fi i =
     (case getIdx E x i of
        Inl e \<Rightarrow> (x, [], Some e)
      | Inr ver \<Rightarrow>
          (case unnest (deref (xv_ObjectV2 ver) (\<lambda>ob. map_sum id (\<lambda>m. ob\<lparr>ob_MetaSys := m\<rparr>) (bstores (ob_MetaSys ob) (purge_stores E fi)))) of
             Inl e \<Rightarrow> (x, [], Some e)
           | Inr ob \<Rightarrow> (case setIdx E x i (ver\<lparr>xv_ObjectV2 := Some ob\<rparr>) of (x', err) \<Rightarrow> (x', xe_String E (ob_DataDir ob), err))))"

text \<open>The object of the second loop: its restored copy expires, it has moved to a tier, or it goes.\<close>

definition change_object :: "xl_env \<Rightarrow> xlMetaV2 \<Rightarrow> FileInfo \<Rightarrow> nat \<Rightarrow> xlMetaV2Version \<Rightarrow> xlMetaV2Object \<Rightarrow> xlMetaV2 \<times> gerror option" where
  "change_object E x fi i ver ob =
     (if fi_ExpireRestored fi then setIdx E x i (ver\<lparr>xv_ObjectV2 := Some (RemoveRestoreHdrs ob)\<rparr>)
      else if fi_TransitionStatus fi = TransitionComplete then
        (case SetTransition ob fi of
           Inl e \<Rightarrow> (x, Some e)
         | Inr ob' \<Rightarrow> setIdx E x i (ver\<lparr>xv_ObjectV2 := Some (ob_ResetInlineData ob')\<rparr>))
      else (case InitFreeVersion E ob fi of
              Inl e \<Rightarrow> (drop_at x i, Some e)
            | Inr None \<Rightarrow> (drop_at x i, None)
            | Inr (Some free) \<Rightarrow> addVersion E (drop_at x i) free))"

text \<open>A panic ends the call; any other error of the first step is replaced by that of adding the marker, and forgotten when the
  data directory is shared.\<close>

definition panics :: "gerror option \<Rightarrow> bool" where
  "panics err = (case err of Some (GoPanic s) \<Rightarrow> True | _ \<Rightarrow> False)"

definition delete_object :: "xl_env \<Rightarrow> xlMetaV2 \<Rightarrow> FileInfo \<Rightarrow> xlMetaV2Version \<Rightarrow> nat \<Rightarrow> xlMetaV2 \<times> string \<times> gerror option" where
  "delete_object E x fi ventry i =
     (case getIdx E x i of
        Inl e \<Rightarrow> (x, [], Some e)
      | Inr ver \<Rightarrow>
          (case xv_ObjectV2 ver of
             None \<Rightarrow> (x, [], Some (GoPanic ''nil pointer dereference''))
           | Some ob \<Rightarrow>
               (case change_object E x fi i ver ob of (x1, err1) \<Rightarrow>
                  if panics err1 then (x1, [], err1)
                  else case add_if (fi_Deleted fi) E x1 ventry err1 of (x2, err) \<Rightarrow>
                    if panics err then (x2, [], err)
                    else if SharedDataDirCount E x2 (ob_VersionID ob) (ob_DataDir ob) > 0 then (x2, [], None)
                    else (x2, xe_String E (ob_DataDir ob), err))))"

definition in_first_loop :: "xl_env \<Rightarrow> FileInfo \<Rightarrow> uuid \<Rightarrow> xlMetaV2ShallowVersion \<Rightarrow> bool" where
  "in_first_loop E fi uv v \<longleftrightarrow> has_id uv v \<and> (vh_Type (sv_header v) \<in> {LegacyType, DeleteType}
     \<or> vh_Type (sv_header v) = ObjectType \<and> update_version E fi \<and> \<not> fi_Deleted fi)"

definition DeleteVersion :: "xl_env \<Rightarrow> xlMetaV2 \<Rightarrow> FileInfo \<Rightarrow> xlMetaV2 \<times> string \<times> gerror option" where
  "DeleteVersion E x fi0 =
     (let fi = (if fi_VersionID fi0 = nullVersionID then fi0\<lparr>fi_VersionID := []\<rparr> else fi0)
      in case parse_id E (fi_VersionID fi) of
           None \<Rightarrow> (x, [], Some ErrFileVersionNotFound)
         | Some uv \<Rightarrow>
             if fi_Deleted fi \<and> \<not> Valid (version0\<lparr>xv_Type := DeleteType, xv_DeleteMarker := Some (new_marker fi uv)\<rparr>)
             then (x, [], Some (OtherErr ''internal error: invalid version entry generated''))
             else
               let ventry = delete_entry E fi uv
               in case first_index (in_first_loop E fi uv) (xl_versions x) of
                    Some i \<Rightarrow>
                      if vh_Type (sv_header (xl_versions x ! i)) = LegacyType then delete_legacy E x fi ventry i
                      else if vh_Type (sv_header (xl_versions x ! i)) = DeleteType then delete_marker E x fi uv ventry i
                      else purge_object E x fi i
                  | None \<Rightarrow>
                      (case first_index (\<lambda>v. \<not> (vh_Type (sv_header v) \<noteq> ObjectType \<or> vh_VersionID (sv_header v) \<noteq> uv)) (xl_versions x) of
                         Some i \<Rightarrow> delete_object E x fi ventry i
                       | None \<Rightarrow>
                           if fi_Deleted fi then (case addVersion E x ventry of (x', err) \<Rightarrow> (x', [], err))
                           else (x, [], Some ErrFileVersionNotFound)))"

definition AddFreeVersion :: "xl_env \<Rightarrow> xlMetaV2 \<Rightarrow> FileInfo \<Rightarrow> xlMetaV2 \<times> gerror option" where
  "AddFreeVersion E x fi =
     (case parse_id E (fi_VersionID fi) of
        None \<Rightarrow> (x, Some errInvalidUUID)
      | Some uv \<Rightarrow>
          (case first_index (\<lambda>v. \<not> (vh_VersionID (sv_header v) \<noteq> uv \<or> vh_Type (sv_header v) \<noteq> ObjectType)) (xl_versions x) of
             None \<Rightarrow> (x, None)
           | Some i \<Rightarrow>
               (case getIdx E x i of
                  Inl e \<Rightarrow> (x, Some e)
                | Inr ver \<Rightarrow>
                    (case unnest (deref (xv_ObjectV2 ver) (\<lambda>ob. InitFreeVersion E ob fi)) of
                       Inl e \<Rightarrow> (x, Some e)
                     | Inr None \<Rightarrow> (x, None)
                     | Inr (Some free) \<Rightarrow> addVersion E x free))))"

end
