(* ===== verification/XL_File.thy ===== *)
theory XL_File
  imports XL_Journal
begin

text \<open>
  The file \<open>xl.meta\<close> (\<open>cmd/xl-storage-format-v2.go\<close>, its legacy formats in \<open>cmd/xl-storage-format-v2-legacy.go\<close>): a magic, a
  version, the journal as one block of bytes with its checksum, and the inline data. Its head, the headers of the versions and
  writing it; \<open>XL_Load\<close> has the rest. Of an error only what the code compares is kept, its text is without the numbers.
\<close>

section \<open>Surroundings\<close>

text \<open>More of MessagePack: an array of a given length, an unsigned integer, the header of a block of bytes; whether \<open>ReadBytesBytes\<close> takes a
  new buffer, of what capacity, for a value of some length when the one that it is given has some capacity; and \<open>json.Unmarshal\<close> of the
  first format.\<close>

record file_lib =
  fl_AppendUint :: "byte list \<Rightarrow> 64 word \<Rightarrow> byte list"
  fl_ReadExactBytes :: "nat \<Rightarrow> byte list \<Rightarrow> gerror + byte list \<times> byte list"
  fl_ReadUint32Bytes :: "byte list \<Rightarrow> gerror + 32 word \<times> byte list"
  fl_ReadBytesHeader :: "byte list \<Rightarrow> gerror + 32 word \<times> byte list"
  fl_NewBuffer :: "nat \<Rightarrow> nat \<Rightarrow> nat option"
  fl_Json :: "byte list \<Rightarrow> gerror + xlMetaV1Object"

definition andThen :: "gerror + 'a \<Rightarrow> ('a \<Rightarrow> gerror + 'b) \<Rightarrow> gerror + 'b" where
  "andThen r f = (case r of Inl e \<Rightarrow> Inl e | Inr v \<Rightarrow> f v)"

lemma andThen_simps [simp]: "andThen (Inl e) f = Inl e" "andThen (Inr v) f = f v"
  by (simp_all add: andThen_def)

lemma andThen_Inr: "andThen r f = Inr b \<longleftrightarrow> (\<exists>v. r = Inr v \<and> f v = Inr b)"
  by (cases r) simp_all

definition wrapped :: "string \<Rightarrow> gerror + 'a \<Rightarrow> gerror + 'a" where
  "wrapped s r = (case r of Inl e \<Rightarrow> Inl (Wrapped s e) | Inr v \<Rightarrow> Inr v)"

lemma wrapped_simps [simp]: "wrapped s (Inl e) = Inl (Wrapped s e)" "wrapped s (Inr v) = Inr v"
  by (simp_all add: wrapped_def)

section \<open>The head of the file\<close>

definition xlHeader :: "byte list" where "xlHeader = bytes_of ''XL2 ''"
definition xlVersionMajor :: nat where [simp]: "xlVersionMajor = 1"
definition xlVersionMinor :: nat where [simp]: "xlVersionMinor = 3"

text \<open>\<open>binary.LittleEndian.PutUint16\<close> and \<open>Uint16\<close>.\<close>

definition le16 :: "nat \<Rightarrow> byte list" where "le16 n = [word_of_nat n, word_of_nat (n div 256)]"
definition of_le16 :: "byte \<Rightarrow> byte \<Rightarrow> nat" where "of_le16 a b = unat a + 256 * unat b"

definition xlVersionCurrent :: "byte list" where "xlVersionCurrent = le16 xlVersionMajor @ le16 xlVersionMinor"

definition checkXL2V1 :: "byte list \<Rightarrow> gerror + byte list \<times> nat \<times> nat" where
  "checkXL2V1 buf =
     (if length buf \<le> 8 then Inl (OtherErr ''xlMeta: no data'')
      else if take 4 buf \<noteq> xlHeader then Inl (OtherErr ''xlMeta: unknown XLv2 header'')
      else
        let (major, minor) = (if take 4 (drop 4 buf) = bytes_of ''1   '' then (1, 0)
                              else (of_le16 (buf ! 4) (buf ! 5), of_le16 (buf ! 6) (buf ! 7)))
        in if major > xlVersionMajor then Inl (OtherErr ''xlMeta: unknown major version found'')
           else Inr (drop 8 buf, major, minor))"

definition isXL2V1Format :: "byte list \<Rightarrow> bool" where
  "isXL2V1Format buf = (case checkXL2V1 buf of Inl e \<Rightarrow> False | Inr _ \<Rightarrow> True)"

definition decodeXLHeaders :: "msgp \<Rightarrow> byte list \<Rightarrow> gerror + int \<times> byte \<times> byte \<times> byte list" where
  "decodeXLHeaders M buf =
     andThen (ReadUint8Bytes M buf) (\<lambda>(hdrVer, buf). andThen (ReadUint8Bytes M buf) (\<lambda>(metaVer, buf).
       if hdrVer > xlHeaderVersion then Inl (OtherErr ''decodeXLHeaders: Unknown xl header version'')
       else if metaVer > xlMetaVersion then Inl (OtherErr ''decodeXLHeaders: Unknown xl meta version'')
       else andThen (ReadIntBytes M buf) (\<lambda>(versions, buf).
         if versions < 0 then Inl (OtherErr ''decodeXLHeaders: Negative version count'')
         else Inr (versions, hdrVer, metaVer, buf))))"

definition errDoneForNow :: gerror where "errDoneForNow = OtherErr ''done for now''"

text \<open>The callback changes the state \<open>s\<close> of the caller.\<close>

fun decodeVersions ::
  "msgp \<Rightarrow> (nat \<Rightarrow> byte list \<Rightarrow> byte list \<Rightarrow> 's \<Rightarrow> 's \<times> gerror option) \<Rightarrow> nat \<Rightarrow> nat \<Rightarrow> byte list \<Rightarrow> 's \<Rightarrow> 's \<times> gerror option" where
  "decodeVersions M fn i 0 buf s = (s, None)"
| "decodeVersions M fn i (Suc n) buf s =
     (case ReadBytesZC M buf of
        Inl e \<Rightarrow> (s, Some e)
      | Inr (tHdr, buf) \<Rightarrow>
          (case ReadBytesZC M buf of
             Inl e \<Rightarrow> (s, Some e)
           | Inr (tMeta, buf) \<Rightarrow>
               (case fn i tHdr tMeta s of
                  (s', Some e) \<Rightarrow> (s', if e = errDoneForNow then None else Some e)
                | (s', None) \<Rightarrow> decodeVersions M fn (Suc i) n buf s')))"

text \<open>\<open>meta != nil\<close> is \<open>Some\<close>.\<close>

definition isIndexedMetaV2 :: "xl_env \<Rightarrow> file_lib \<Rightarrow> byte list \<Rightarrow> gerror + (byte list \<times> xlMetaInlineData) option" where
  "isIndexedMetaV2 E L buf =
     (case checkXL2V1 buf of
        Inl e \<Rightarrow> Inr None
      | Inr (buf, major, minor) \<Rightarrow>
          if major \<noteq> 1 \<or> minor < 3 then Inr None
          else andThen (ReadBytesZC (xe_M E) buf) (\<lambda>(meta, buf). andThen (fl_ReadUint32Bytes L buf) (\<lambda>(crc, buf).
            if ucast (xe_xxhash E meta) \<noteq> crc then Inl (OtherErr ''xlMetaV2.Load, CRC mismatch'')
            else Inr (Some (meta, if inline_validate (xe_M E) buf \<noteq> None then inline_repair (xe_M E) buf else buf)))))"

section \<open>Headers of versions\<close>

definition header_MarshalMsg :: "msgp \<Rightarrow> xlMetaV2VersionHeader \<Rightarrow> byte list" where
  "header_MarshalMsg M z =
     (let b = [0x97];
          b = AppendBytes M b (vh_VersionID z);
          b = AppendInt64 M b (vh_ModTime z);
          b = AppendBytes M b (vh_Signature z);
          b = AppendUint8 M b (vh_Type z);
          b = AppendUint8 M b (vh_Flags z);
          b = AppendUint8 M b (vh_EcN z)
      in AppendUint8 M b (vh_EcM z))"

text \<open>The steps that the readers of the three formats share, each of which fills a field.\<close>

definition read_array :: "msgp \<Rightarrow> nat \<Rightarrow> byte list \<Rightarrow> gerror + byte list" where
  "read_array M n bts =
     andThen (ReadArrayHeaderBytes M bts) (\<lambda>(got, bts). if unat got \<noteq> n then Inl (OtherErr ''msgp: wrong array size'') else Inr bts)"

definition read_id :: "file_lib \<Rightarrow> xlMetaV2VersionHeader \<times> byte list \<Rightarrow> gerror + xlMetaV2VersionHeader \<times> byte list" where
  "read_id L zb = (case zb of (z, bts) \<Rightarrow> into (\<lambda>v. z\<lparr>vh_VersionID := v\<rparr>) (wrapped ''VersionID'' (fl_ReadExactBytes L 16 bts)))"

definition read_modtime :: "msgp \<Rightarrow> xlMetaV2VersionHeader \<times> byte list \<Rightarrow> gerror + xlMetaV2VersionHeader \<times> byte list" where
  "read_modtime M zb = (case zb of (z, bts) \<Rightarrow> into (\<lambda>v. z\<lparr>vh_ModTime := v\<rparr>) (wrapped ''ModTime'' (ReadInt64Bytes M bts)))"

definition read_signature :: "file_lib \<Rightarrow> xlMetaV2VersionHeader \<times> byte list \<Rightarrow> gerror + xlMetaV2VersionHeader \<times> byte list" where
  "read_signature L zb = (case zb of (z, bts) \<Rightarrow> into (\<lambda>v. z\<lparr>vh_Signature := v\<rparr>) (wrapped ''Signature'' (fl_ReadExactBytes L 4 bts)))"

definition read_type :: "msgp \<Rightarrow> xlMetaV2VersionHeader \<times> byte list \<Rightarrow> gerror + xlMetaV2VersionHeader \<times> byte list" where
  "read_type M zb = (case zb of (z, bts) \<Rightarrow> into (\<lambda>v. z\<lparr>vh_Type := v\<rparr>) (wrapped ''Type'' (ReadUint8Bytes M bts)))"

definition read_flags :: "msgp \<Rightarrow> xlMetaV2VersionHeader \<times> byte list \<Rightarrow> gerror + xlMetaV2VersionHeader \<times> byte list" where
  "read_flags M zb = (case zb of (z, bts) \<Rightarrow> into (\<lambda>v. z\<lparr>vh_Flags := v\<rparr>) (wrapped ''Flags'' (ReadUint8Bytes M bts)))"

definition read_ecN :: "msgp \<Rightarrow> xlMetaV2VersionHeader \<times> byte list \<Rightarrow> gerror + xlMetaV2VersionHeader \<times> byte list" where
  "read_ecN M zb = (case zb of (z, bts) \<Rightarrow> into (\<lambda>v. z\<lparr>vh_EcN := v\<rparr>) (wrapped ''EcN'' (ReadUint8Bytes M bts)))"

definition read_ecM :: "msgp \<Rightarrow> xlMetaV2VersionHeader \<times> byte list \<Rightarrow> gerror + xlMetaV2VersionHeader \<times> byte list" where
  "read_ecM M zb = (case zb of (z, bts) \<Rightarrow> into (\<lambda>v. z\<lparr>vh_EcM := v\<rparr>) (wrapped ''EcM'' (ReadUint8Bytes M bts)))"

definition header_UnmarshalMsg :: "msgp \<Rightarrow> file_lib \<Rightarrow> xlMetaV2VersionHeader \<Rightarrow> byte list \<Rightarrow> gerror + xlMetaV2VersionHeader \<times> byte list" where
  "header_UnmarshalMsg M L z bts =
     andThen (read_array M 7 bts) (\<lambda>bts. andThen (read_id L (z, bts)) (\<lambda>zb. andThen (read_modtime M zb) (\<lambda>zb. andThen (read_signature L zb) (\<lambda>zb.
       andThen (read_type M zb) (\<lambda>zb. andThen (read_flags M zb) (\<lambda>zb. andThen (read_ecN M zb) (read_ecM M)))))))"

definition header_unmarshalV1 :: "msgp \<Rightarrow> file_lib \<Rightarrow> xlMetaV2VersionHeader \<Rightarrow> byte list \<Rightarrow> gerror + xlMetaV2VersionHeader \<times> byte list" where
  "header_unmarshalV1 M L x bts =
     andThen (read_array M 4 bts) (\<lambda>bts. andThen (read_id L (x, bts)) (\<lambda>zb. andThen (read_modtime M zb) (\<lambda>zb. andThen (read_type M zb) (read_flags M))))"

text \<open>The second format: \<open>z.EcN, z.EcN = 0, 0\<close> resets one of the two numbers.\<close>

definition headerV2_UnmarshalMsg :: "msgp \<Rightarrow> file_lib \<Rightarrow> xlMetaV2VersionHeader \<Rightarrow> byte list \<Rightarrow> gerror + xlMetaV2VersionHeader \<times> byte list" where
  "headerV2_UnmarshalMsg M L z bts =
     andThen (read_array M 5 bts) (\<lambda>bts. andThen (read_id L (z\<lparr>vh_EcN := 0\<rparr>, bts)) (\<lambda>zb. andThen (read_modtime M zb) (\<lambda>zb.
       andThen (read_signature L zb) (\<lambda>zb. andThen (read_type M zb) (read_flags M)))))"

definition header_unmarshalV :: "msgp \<Rightarrow> file_lib \<Rightarrow> byte \<Rightarrow> xlMetaV2VersionHeader \<Rightarrow> byte list \<Rightarrow> gerror + xlMetaV2VersionHeader \<times> byte list" where
  "header_unmarshalV M L v x bts =
     (if v = 1 then header_unmarshalV1 M L x bts
      else if v = 2 then headerV2_UnmarshalMsg M L x bts
      else if v = xlHeaderVersion then header_UnmarshalMsg M L x bts
      else Inl (OtherErr ''unknown xlHeaderVersion''))"

section \<open>Writing\<close>

fun append_versions :: "msgp \<Rightarrow> byte list \<Rightarrow> xlMetaV2ShallowVersion list \<Rightarrow> byte list" where
  "append_versions M dst [] = dst"
| "append_versions M dst (ver # vers) = append_versions M (AppendBytes M (AppendBytes M dst (header_MarshalMsg M (sv_header ver))) (sv_meta ver)) vers"

definition AppendTo :: "xl_env \<Rightarrow> file_lib \<Rightarrow> xlMetaV2 \<Rightarrow> byte list \<Rightarrow> gerror + byte list" where
  "AppendTo E L x dst =
     (case inline_validate (xe_M E) (xl_data x) of
        Some e \<Rightarrow> Inl e
      | None \<Rightarrow>
          let dst = dst @ xlHeader @ xlVersionCurrent @ [0xC6, 0, 0, 0, 0];
              dataOffset = length dst;
              dst = fl_AppendUint L (fl_AppendUint L dst (ucast xlHeaderVersion)) (ucast xlMetaVersion);
              dst = AppendInt (xe_M E) dst (int (length (xl_versions x)));
              dst = append_versions (xe_M E) dst (xl_versions x);
              dst = take (dataOffset - 4) dst @ be_bytes 4 (length dst - dataOffset) @ drop dataOffset dst;
              crc = (ucast (xe_xxhash E (drop dataOffset dst)) :: 32 word)
          in Inr (dst @ [0xCE] @ be_bytes 4 (unat crc) @ xl_data x))"

end
