(* ===== verification/XL_Load.thy ===== *)
theory XL_Load
  imports XL_File
begin

text \<open>
  Loading \<open>xl.meta\<close> (\<open>cmd/xl-storage-format-v2.go\<close>): the current format with its repairs, the older formats, the
  JSON of the first one; the file without its data (\<open>xlMetaV2TrimData\<close>, \<open>readXLMetaNoData\<close>).
\<close>

section \<open>The current format\<close>

fun has_bytes :: "byte list \<Rightarrow> byte list \<Rightarrow> bool" where
  "has_bytes needle [] \<longleftrightarrow> needle = []"
| "has_bytes needle (b # bs) \<longleftrightarrow> take (length needle) (b # bs) = needle \<or> has_bytes needle bs"

text \<open>An entry \<open>ver\<close> of a journal in the format \<open>metaV\<close>, read as \<open>getIdx\<close> reads it.\<close>

definition read_entry :: "xl_env \<Rightarrow> byte \<Rightarrow> xlMetaV2ShallowVersion \<Rightarrow> gerror + xlMetaV2Version" where
  "read_entry E metaV ver = map_sum id fst (unmarshalV E metaV (sv_meta ver))"

text \<open>\<open>MarshalMsg\<close> and, if it is fine, the new header and bytes. A header of an inconsistent version panics.\<close>

definition reindexed :: "xl_env \<Rightarrow> xlMetaV2Version \<Rightarrow> xlMetaV2ShallowVersion \<Rightarrow> gerror + xlMetaV2ShallowVersion" where
  "reindexed E version ver =
     (case xe_Marshal E version of
        Inl e \<Rightarrow> Inr ver
      | Inr meta \<Rightarrow> andThen (header E version) (\<lambda>h. Inr \<lparr>sv_header = h, sv_meta = meta\<rparr>))"

text \<open>The loop over the actual sizes: the indices, whether one was dropped, whether all that were seen are empty.\<close>

fun drop_indices :: "nat \<Rightarrow> int list \<Rightarrow> byte slice list \<Rightarrow> bool \<Rightarrow> bool \<Rightarrow> byte slice list \<times> bool \<times> bool" where
  "drop_indices i [] indices changed clearField = (indices, changed, clearField)"
| "drop_indices i (sz # szs) indices changed clearField =
     (if length indices > i then
        let small = (sz \<le> 8 * 2 ^ 20 \<and> elems (indices ! i) \<noteq> []);
            indices = (if small then indices[i := None] else indices)
        in drop_indices (Suc i) szs indices (changed \<or> small) (clearField \<and> elems (indices ! i) = [])
      else drop_indices (Suc i) szs indices changed clearField)"

definition partIdx_mark :: "byte list" where "partIdx_mark = 0xA7 # bytes_of ''PartIdx''"

definition compression_mark :: "byte list" where
  "compression_mark = [0xBC] @ bytes_of ''X-Minio-Internal-compression'' @ [0xC4, 0x15] @ bytes_of ''klauspost/compress/s2''"

definition fix_index :: "xl_env \<Rightarrow> byte \<Rightarrow> xlMetaV2ShallowVersion \<Rightarrow> gerror + xlMetaV2ShallowVersion" where
  "fix_index E metaV ver =
     (if metaV < 3 \<and> vh_Type (sv_header ver) = ObjectType \<and> has_bytes partIdx_mark (sv_meta ver) \<and> has_bytes compression_mark (sv_meta ver) then
        (case read_entry E metaV ver of
           Inl (GoPanic s) \<Rightarrow> Inl (GoPanic s)
         | Inl e \<Rightarrow> Inr ver
         | Inr version \<Rightarrow>
             (case xv_ObjectV2 version of
                None \<Rightarrow> Inr ver
              | Some ob \<Rightarrow>
                  if xv_WrittenByVersion version > 1701471618 \<and> xv_WrittenByVersion version < 1730156418 \<and> elems (ob_PartIndices ob) \<noteq> [] then
                    (case drop_indices 0 (elems (ob_PartActualSizes ob)) (elems (ob_PartIndices ob)) False True of
                       (indices, changed, clearField) \<Rightarrow>
                         if changed then reindexed E (version\<lparr>xv_ObjectV2 := Some (ob\<lparr>ob_PartIndices := (if clearField then None else Some indices)\<rparr>)\<rparr>) ver
                         else Inr ver)
                  else Inr ver))
      else Inr ver)"

definition fix_marker :: "xl_env \<Rightarrow> byte \<Rightarrow> xlMetaV2ShallowVersion \<Rightarrow> gerror + xlMetaV2ShallowVersion" where
  "fix_marker E metaV ver =
     (if metaV < 2 \<and> vh_Type (sv_header ver) = DeleteType then
        (case read_entry E metaV ver of
           Inl (GoPanic s) \<Rightarrow> Inl (GoPanic s)
         | Inl e \<Rightarrow> Inr ver
         | Inr version \<Rightarrow>
             andThen (deref (xv_DeleteMarker version) (\<lambda>d. bget (dm_MetaSys d) (ReservedMetadataPrefixLower @ ReplicationTimestamp) \<noteq> None
               \<or> bget (dm_MetaSys d) (ReservedMetadataPrefixLower @ ReplicaTimestamp) \<noteq> None))
               (\<lambda>ok. if ok then reindexed E version ver else Inr ver))
      else Inr ver)"

text \<open>The callback of \<open>loadIndexed\<close> for a version; the state is what is loaded so far.\<close>

definition load_version ::
  "xl_env \<Rightarrow> file_lib \<Rightarrow> byte \<Rightarrow> byte \<Rightarrow> nat \<Rightarrow> byte list \<Rightarrow> byte list \<Rightarrow> xlMetaV2ShallowVersion list \<Rightarrow> xlMetaV2ShallowVersion list \<times> gerror option" where
  "load_version E L headerV metaV i hdr meta loaded =
     (case andThen (header_unmarshalV (xe_M E) L headerV header0 hdr) (\<lambda>(h, _).
             andThen (fix_index E metaV \<lparr>sv_header = h, sv_meta = meta\<rparr>) (fix_marker E metaV)) of
        Inl e \<Rightarrow> (loaded, Some e)
      | Inr ver \<Rightarrow> (loaded @ [ver], None))"

definition loadIndexed :: "xl_env \<Rightarrow> file_lib \<Rightarrow> byte list \<Rightarrow> xlMetaInlineData \<Rightarrow> gerror + xlMetaV2" where
  "loadIndexed E L buf data =
     andThen (decodeXLHeaders (xe_M E) buf) (\<lambda>(versions, headerV, metaV, buf).
       (case decodeVersions (xe_M E) (load_version E L headerV metaV) 0 (nat versions) buf [] of
          (vs, Some e) \<Rightarrow> Inl e
        | (vs, None) \<Rightarrow> Inr \<lparr>xl_versions = vs,
             xl_data = (if inline_validate (xe_M E) data \<noteq> None then inline_repair (xe_M E) data else data), xl_metaV = metaV\<rparr>))"

section \<open>Older formats\<close>

text \<open>Where the versions and the data begin.\<close>

definition legacy_body :: "xl_env \<Rightarrow> file_lib \<Rightarrow> byte list \<Rightarrow> gerror + byte list \<times> xlMetaInlineData" where
  "legacy_body E L buf =
     (case checkXL2V1 buf of
        Inl e \<Rightarrow> Inl (Wrapped ''xlMetaV2.Load'' e)
      | Inr (buf, major, minor) \<Rightarrow>
          if major \<noteq> 1 then Inl (OtherErr ''unknown major metadata version'')
          else if minor = 0 then Inr (buf, [])
          else if minor = 1 \<or> minor = 2 then
            andThen (wrapped ''xlMetaV2.Load version'' (ReadBytesZC (xe_M E) buf)) (\<lambda>(v, buf).
              andThen (if minor \<ge> 2 then
                         andThen (wrapped ''xlMetaV2.Load, loading CRC'' (fl_ReadUint32Bytes L buf)) (\<lambda>(crc, nbuf).
                           if ucast (xe_xxhash E v) \<noteq> crc then Inl (OtherErr ''xlMetaV2.Load, CRC mismatch'') else Inr nbuf)
                       else Inr buf)
                (\<lambda>buf. Inr (v, if inline_validate (xe_M E) buf \<noteq> None then inline_repair (xe_M E) buf else buf)))
          else Inl (OtherErr ''unknown minor metadata version''))"

fun legacy_versions :: "xl_env \<Rightarrow> nat \<Rightarrow> byte list \<Rightarrow> xlMetaV2ShallowVersion list \<Rightarrow> gerror + xlMetaV2ShallowVersion list \<times> byte list" where
  "legacy_versions E 0 bts vs = Inr (vs, bts)"
| "legacy_versions E (Suc n) bts vs =
     andThen (wrapped ''Versions'' (unmarshalV E 1 bts)) (\<lambda>(tmp, rest). andThen (header E tmp) (\<lambda>h.
       legacy_versions E n rest (vs @ [\<lparr>sv_header = h, sv_meta = take (length bts - length rest) bts\<rparr>])))"

fun legacy_fields :: "xl_env \<Rightarrow> nat \<Rightarrow> byte list \<Rightarrow> xlMetaV2ShallowVersion list \<Rightarrow> gerror + xlMetaV2ShallowVersion list" where
  "legacy_fields E 0 bts vs = Inr vs"
| "legacy_fields E (Suc n) bts vs =
     andThen (wrapped ''loadLegacy.ReadMapKey'' (ReadMapKeyZC (xe_M E) bts)) (\<lambda>(field, bts).
       if field = ''Versions'' then
         andThen (wrapped ''Versions'' (ReadArrayHeaderBytes (xe_M E) bts)) (\<lambda>(count, bts).
           andThen (legacy_versions E (unat count) bts []) (\<lambda>(vs, bts). legacy_fields E n bts vs))
       else andThen (wrapped ''loadLegacy.Skip'' (Skip (xe_M E) bts)) (\<lambda>bts. legacy_fields E n bts vs))"

definition loadLegacy :: "xl_env \<Rightarrow> file_lib \<Rightarrow> byte list \<Rightarrow> gerror + xlMetaV2" where
  "loadLegacy E L buf =
     andThen (legacy_body E L buf) (\<lambda>(allMeta, data).
       andThen (wrapped ''loadLegacy.ReadMapHeader'' (ReadMapHeaderBytes (xe_M E) allMeta)) (\<lambda>(fields, bts).
         andThen (legacy_fields E (unat fields) bts []) (\<lambda>vs.
           Inr (sortByModTime E \<lparr>xl_versions = vs, xl_data = data, xl_metaV = 1\<rparr>))))"

definition Load :: "xl_env \<Rightarrow> file_lib \<Rightarrow> byte list \<Rightarrow> gerror + xlMetaV2" where
  "Load E L buf =
     andThen (isIndexedMetaV2 E L buf) (\<lambda>r. case r of Some (meta, data) \<Rightarrow> loadIndexed E L meta data | None \<Rightarrow> loadLegacy E L buf)"

definition LoadOrConvert :: "xl_env \<Rightarrow> file_lib \<Rightarrow> byte list \<Rightarrow> gerror + xlMetaV2" where
  "LoadOrConvert E L buf =
     (if isXL2V1Format buf then Load E L buf
      else case fl_Json L buf of
             Inl e \<Rightarrow> Inl ErrFileCorrupt
           | Inr m \<Rightarrow> (case AddLegacy E \<lparr>xl_versions = [], xl_data = [], xl_metaV = xlMetaVersion\<rparr> m of
                         (x, Some e) \<Rightarrow> Inl e | (x, None) \<Rightarrow> Inr x))"

section \<open>Without the data\<close>

definition xlMetaV2TrimData :: "xl_env \<Rightarrow> file_lib \<Rightarrow> byte list \<Rightarrow> byte list" where
  "xlMetaV2TrimData E L buf =
     (case checkXL2V1 buf of
        Inl e \<Rightarrow> buf
      | Inr (metaBuf, maj, minor) \<Rightarrow>
          if maj = 1 \<and> minor < 1 then buf
          else case ReadBytesZC (xe_M E) metaBuf of
                 Inl e \<Rightarrow> buf
               | Inr (_, metaBuf) \<Rightarrow>
                   let metaBuf = (if maj > 1 \<or> minor \<ge> 2 then (case fl_ReadUint32Bytes L metaBuf of Inl e \<Rightarrow> metaBuf | Inr (_, r) \<Rightarrow> r) else metaBuf);
                       ends = int (length buf) - int (length metaBuf)
                   in if ends > int (length buf) then buf else take (nat ends) buf)"

definition metaDataReadDefault :: nat where "metaDataReadDefault = 4 * 2 ^ 10"

text \<open>\<open>readMore\<close>: what was read and what the reader \<open>r\<close> still has.\<close>

definition readMore :: "bool \<Rightarrow> nat \<Rightarrow> nat \<Rightarrow> byte list \<Rightarrow> byte list \<Rightarrow> gerror + byte list" where
  "readMore hasFull fsize n buf r =
     (if length buf \<ge> n then Inr buf
      else if hasFull \<or> n > fsize then Inl IoUnexpectedEOF
      else case Bitrot.ReadFull r (n - length buf) of
             Inl e \<Rightarrow> Inl (Wrapped ''readXLMetaNoData(readMore)'' IoUnexpectedEOF)
           | Inr (extra, _) \<Rightarrow> Inr (buf @ extra))"

definition readXLMetaNoData :: "xl_env \<Rightarrow> file_lib \<Rightarrow> byte list \<Rightarrow> nat \<Rightarrow> gerror + byte list" where
  "readXLMetaNoData E L r fsize =
     (let hasFull = (fsize \<le> metaDataReadDefault); initial = min fsize metaDataReadDefault
      in andThen (wrapped ''readXLMetaNoData(io.ReadFull)'' (Bitrot.ReadFull r initial)) (\<lambda>(buf, r).
           case checkXL2V1 buf of
             Inl e \<Rightarrow> readMore hasFull fsize fsize buf r
           | Inr (tmp, major, minor) \<Rightarrow>
               if major \<noteq> 1 then Inl (OtherErr ''unknown major metadata version'')
               else if minor = 0 then readMore hasFull fsize fsize buf r
               else if minor \<le> 3 then
                 andThen (wrapped ''readXLMetaNoData(read_meta): unknown metadata version'' (fl_ReadBytesHeader L tmp)) (\<lambda>(sz, tmp).
                   let want = unat sz + (length buf - length tmp)
                   in if minor < 2 then andThen (readMore hasFull fsize want buf r) (\<lambda>buf. Inr (take want buf))
                      else andThen (readMore hasFull fsize (min (want + 5) fsize) buf r) (\<lambda>buf.
                        if length buf < want then Inl (Wrapped ''buffer shorter than expected'' ErrFileCorrupt)
                        else andThen (wrapped ''readXLMetaNoData(read_meta): unknown metadata version'' (fl_ReadUint32Bytes L (drop want buf)))
                          (\<lambda>(_, after). Inr (take (want + (length (drop want buf) - length after)) buf))))
               else Inl (OtherErr ''unknown minor metadata version'')))"

end
