(* ===== verification/XL_View.thy ===== *)
theory XL_View
  imports XL_Load
begin

text \<open>
  What is read from a journal: a version as a \<open>FileInfo\<close>, all of them, what a listing hides. Each has two implementations, on
  the journal in memory (\<open>xlMetaV2\<close>) and on the bytes without loading them (\<open>xlMetaBuf\<close>), and \<open>getFileInfo\<close> and
  \<open>getAllFileInfoVersions\<close> of \<open>cmd/xl-storage-format-utils.go\<close> choose between them. \<open>ListVersions\<close> decodes all versions into
  one variable, so its \<open>FileInfo\<close>s share buffers: these are an explicit store.
\<close>

section \<open>A variable that is used again\<close>

text \<open>What the \<open>FileInfo\<close> of an object has from the variable that it was decoded into is copied or new, but for the \<open>Index\<close> of its parts,
  which are the buffers of \<open>PartIndices\<close> themselves. \<open>UnmarshalMsg\<close> (\<open>cmd/xl-storage-format-v2_gen.go\<close>) keeps the backing array of
  \<open>PartIndices\<close> when it is long enough, and \<open>ReadBytesBytes\<close> gets what is in it as scratch: an index is read into the buffer that an
  earlier one was read into. A pointer or a list that the bytes do not have is nil afterwards, and an object writes the list when it has
  indices. The buffers that were allocated are \<open>uv_bufs\<close>, each as long as its capacity, an address is a place among them; \<open>uv_slots\<close> is
  the backing array. (A journal has one legacy version at most, as its id is the null one, so what the \<open>FileInfo\<close> of that shares is not
  overwritten; a field that an old version does not have, the number of the release that wrote it, is as in a fresh variable here.)\<close>

type_synonym index_ref = "(nat \<times> nat) option"

record used_variable =
  uv_bufs :: "byte list list"
  uv_slots :: "nat option list"

definition fresh_variable :: used_variable where "fresh_variable = \<lparr>uv_bufs = [], uv_slots = []\<rparr>"

definition ReadBytesInto :: "file_lib \<Rightarrow> byte list list \<Rightarrow> nat option \<Rightarrow> byte list \<Rightarrow> byte list list \<times> nat option" where
  "ReadBytesInto L bufs scratch v =
     (case fl_NewBuffer L (case scratch of None \<Rightarrow> 0 | Some a \<Rightarrow> length (bufs ! a)) (length v) of
        Some capacity \<Rightarrow> (bufs @ [v @ replicate (capacity - length v) 0], Some (length bufs))
      | None \<Rightarrow> ((case scratch of None \<Rightarrow> bufs | Some a \<Rightarrow> bufs[a := v @ drop (length v) (bufs ! a)]), scratch))"

fun read_indices :: "file_lib \<Rightarrow> byte list list \<Rightarrow> nat option list \<Rightarrow> byte slice list \<Rightarrow> byte list list \<times> nat option list \<times> index_ref list" where
  "read_indices L bufs (s # slots) (v # vs) =
     (case ReadBytesInto L bufs s (elems v) of (bufs, s) \<Rightarrow>
        case read_indices L bufs slots vs of (bufs, slots, refs) \<Rightarrow>
          (bufs, s # slots, map_option (\<lambda>a. (a, length (elems v))) s # refs))"
| "read_indices L bufs slots vs = (bufs, slots, [])"

text \<open>The version \<open>v\<close>, as it is decoded into a fresh variable, is decoded into the used one.\<close>

definition decode_used :: "file_lib \<Rightarrow> used_variable \<Rightarrow> xlMetaV2Version \<Rightarrow> used_variable \<times> index_ref list" where
  "decode_used L u v =
     (case xv_ObjectV2 v of
        None \<Rightarrow> (u\<lparr>uv_slots := []\<rparr>, [])
      | Some ob \<Rightarrow>
          (case ob_PartIndices ob of
             None \<Rightarrow> (u\<lparr>uv_slots := []\<rparr>, [])
           | Some indices \<Rightarrow>
               (let slots = (if length (uv_slots u) \<ge> length indices then uv_slots u else replicate (length indices) None)
                in case read_indices L (uv_bufs u) slots indices of (bufs, slots, refs) \<Rightarrow> (\<lparr>uv_bufs = bufs, uv_slots = slots\<rparr>, refs))))"

text \<open>A \<open>FileInfo\<close> with the places of its indices, and what it is when the buffers are \<open>bufs\<close>.\<close>

definition used_FileInfo ::
  "xl_env \<Rightarrow> file_lib \<Rightarrow> xlMetaV2Version \<Rightarrow> string \<Rightarrow> string \<Rightarrow> bool \<Rightarrow> used_variable \<Rightarrow> gerror + (FileInfo \<times> index_ref list) \<times> used_variable" where
  "used_FileInfo E L v volume path allParts u =
     (case decode_used L u v of (u, refs) \<Rightarrow>
        andThen (xv_ToFileInfo E v volume path allParts) (\<lambda>fi.
          Inr ((fi, if xv_Type v = ObjectType \<and> length refs = length (elems (fi_Parts fi)) then refs else []), u)))"

definition index_now :: "byte list list \<Rightarrow> index_ref \<Rightarrow> byte slice" where
  "index_now bufs = map_option (\<lambda>(a, n). take n (bufs ! a))"

definition FileInfo_now :: "byte list list \<Rightarrow> FileInfo \<times> index_ref list \<Rightarrow> FileInfo" where
  "FileInfo_now bufs f =
     (case f of (fi, refs) \<Rightarrow>
        if refs = [] then fi
        else fi\<lparr>fi_Parts := map_option (\<lambda>ps. map2 (\<lambda>p r. p\<lparr>pt_Index := index_now bufs r\<rparr>) ps refs) (fi_Parts fi)\<rparr>)"

section \<open>On a journal\<close>

definition getDataDirs :: "xl_env \<Rightarrow> xlMetaV2 \<Rightarrow> gerror + string list" where
  "getDataDirs E x =
     foldl (\<lambda>r i. andThen r (\<lambda>dds.
        let ver = xl_versions x ! i
        in if vh_Type (sv_header ver) = DeleteType then Inr dds
           else andThen (getIdx E x i) (\<lambda>obj.
             if vh_Type (sv_header ver) = ObjectType then
               (case xv_ObjectV2 obj of
                  None \<Rightarrow> Inl (OtherErr ''obj.ObjectV2 unexpectedly nil'')
                | Some ob \<Rightarrow> Inr (dds @ [xe_String E (ob_DataDir ob), if ob_VersionID ob = uuid0 then nullVersionID else xe_String E (ob_VersionID ob)]))
             else if vh_Type (sv_header ver) = LegacyType then
               (case xv_ObjectV1 obj of
                  None \<Rightarrow> Inl (OtherErr ''obj.ObjectV1 unexpectedly nil'')
                | Some m \<Rightarrow> Inr (dds @ [m1_DataDir m]))
             else Inr dds))) (Inr []) [0..<length (xl_versions x)]"

text \<open>The variables of the loop of \<open>ToFileInfo\<close>; \<open>fs_fi\<close> is set when the version is found, \<open>fs_free\<close> is the first free version.\<close>

record find_state =
  fs_succ :: int
  fs_latest :: bool
  fs_nonFree :: int
  fs_fi :: "FileInfo option"
  fs_free :: "FileInfo option"

definition version_FileInfo :: "xl_env \<Rightarrow> byte \<Rightarrow> byte list \<Rightarrow> string \<Rightarrow> string \<Rightarrow> bool \<Rightarrow> gerror + FileInfo" where
  "version_FileInfo E metaV meta volume path allParts =
     andThen (unmarshalV E metaV meta) (\<lambda>(version, _). xv_ToFileInfo E version volume path allParts)"

definition found_FileInfo :: "find_state \<Rightarrow> FileInfo \<Rightarrow> FileInfo" where
  "found_FileInfo s fi =
     (let fi = fi\<lparr>fi_IsLatest := fs_latest s\<rparr>
      in if fs_succ s \<noteq> 0 then fi\<lparr>fi_SuccessorModTime := Unix0 (fs_succ s)\<rparr> else fi)"

text \<open>A version that is not free, or is the one asked for.\<close>

definition find_visible :: "xl_env \<Rightarrow> byte \<Rightarrow> string \<Rightarrow> string \<Rightarrow> string \<Rightarrow> uuid \<Rightarrow> bool \<Rightarrow> find_state \<Rightarrow> xlMetaV2VersionHeader \<Rightarrow> byte list \<Rightarrow> gerror + find_state" where
  "find_visible E metaV volume path versionID uv allParts s h meta =
     (if fs_fi s \<noteq> None then Inr s
      else if versionID \<noteq> [] \<and> uv \<noteq> vh_VersionID h then Inr (s\<lparr>fs_latest := False, fs_succ := vh_ModTime h\<rparr>)
      else andThen (version_FileInfo E metaV meta volume path allParts) (\<lambda>fi. Inr (s\<lparr>fs_fi := Some (found_FileInfo s fi)\<rparr>)))"

fun find_loop ::
  "xl_env \<Rightarrow> byte \<Rightarrow> string \<Rightarrow> string \<Rightarrow> string \<Rightarrow> uuid \<Rightarrow> bool \<Rightarrow> bool \<Rightarrow> xlMetaV2ShallowVersion list \<Rightarrow> find_state \<Rightarrow> gerror + find_state" where
  "find_loop E metaV volume path versionID uv inclFreeVers allParts [] s = Inr s"
| "find_loop E metaV volume path versionID uv inclFreeVers allParts (ver # vers) s =
     andThen
       (if header_FreeVersion (sv_header ver) then
          let s = s\<lparr>fs_nonFree := fs_nonFree s - 1\<rparr>
          in andThen (if inclFreeVers \<and> fs_free s = None then
                        (case version_FileInfo E metaV (sv_meta ver) volume path allParts of
                           Inl (GoPanic e) \<Rightarrow> Inl (GoPanic e)
                         | Inl e \<Rightarrow> Inr s
                         | Inr fi \<Rightarrow> Inr (s\<lparr>fs_free := Some (fi\<lparr>fi_IsLatest := True\<rparr>)\<rparr>))
                      else Inr s)
               (\<lambda>s. if vh_VersionID (sv_header ver) \<noteq> uv then Inr s
                    else find_visible E metaV volume path versionID uv allParts s (sv_header ver) (sv_meta ver))
        else find_visible E metaV volume path versionID uv allParts s (sv_header ver) (sv_meta ver))
       (find_loop E metaV volume path versionID uv inclFreeVers allParts vers)"

definition find_start :: "int \<Rightarrow> find_state" where
  "find_start n = \<lparr>fs_succ = 0, fs_latest = True, fs_nonFree = n, fs_fi = None, fs_free = None\<rparr>"

definition journal_ToFileInfo :: "xl_env \<Rightarrow> xlMetaV2 \<Rightarrow> string \<Rightarrow> string \<Rightarrow> string \<Rightarrow> bool \<Rightarrow> bool \<Rightarrow> gerror + FileInfo" where
  "journal_ToFileInfo E x volume path versionID inclFreeVers allParts =
     (case parse_id E versionID of
        None \<Rightarrow> Inl ErrFileVersionNotFound
      | Some uv \<Rightarrow>
          andThen (find_loop E (xl_metaV x) volume path versionID uv inclFreeVers allParts (xl_versions x) (find_start (int (length (xl_versions x))))) (\<lambda>s.
            case fs_fi s of
              Some fi \<Rightarrow> Inr (fi\<lparr>fi_NumVersions := fs_nonFree s\<rparr>)
            | None \<Rightarrow>
                if versionID = [] then
                  (if inclFreeVers \<and> fs_nonFree s = 0 then (case fs_free s of Some fi \<Rightarrow> Inr fi | None \<Rightarrow> Inl ErrFileNotFound) else Inl ErrFileNotFound)
                else Inl ErrFileVersionNotFound))"

text \<open>The second loop of \<open>ListVersions\<close>.\<close>

fun number_versions :: "int \<Rightarrow> gotime option \<Rightarrow> FileInfo list \<Rightarrow> FileInfo list" where
  "number_versions n prev [] = []"
| "number_versions n prev (fi # fis) =
     (case prev of
        None \<Rightarrow> fi\<lparr>fi_NumVersions := n, fi_IsLatest := True\<rparr>
      | Some t \<Rightarrow> fi\<lparr>fi_NumVersions := n, fi_SuccessorModTime := t\<rparr>) # number_versions n (Some (fi_ModTime fi)) fis"

fun list_files ::
  "xl_env \<Rightarrow> file_lib \<Rightarrow> byte \<Rightarrow> string \<Rightarrow> string \<Rightarrow> bool \<Rightarrow> xlMetaV2ShallowVersion list \<Rightarrow> used_variable
   \<Rightarrow> gerror + (FileInfo \<times> index_ref list) list \<times> used_variable" where
  "list_files E L metaV volume path allParts [] u = Inr ([], u)"
| "list_files E L metaV volume path allParts (ver # vers) u =
     andThen (unmarshalV E metaV (sv_meta ver)) (\<lambda>(dst, _).
       andThen (used_FileInfo E L dst volume path allParts u) (\<lambda>(f, u).
         andThen (list_files E L metaV volume path allParts vers u) (\<lambda>(fs, u). Inr (f # fs, u))))"

definition journal_ListVersions :: "xl_env \<Rightarrow> file_lib \<Rightarrow> xlMetaV2 \<Rightarrow> string \<Rightarrow> string \<Rightarrow> bool \<Rightarrow> gerror + FileInfo list" where
  "journal_ListVersions E L x volume path allParts =
     andThen (list_files E L (xl_metaV x) volume path allParts (xl_versions x) fresh_variable) (\<lambda>(fs, u).
       Inr (number_versions (int (length fs)) None (map (FileInfo_now (uv_bufs u)) fs)))"

section \<open>On the bytes\<close>

text \<open>The callback of \<open>ToFileInfo\<close>: the header is decoded into the same variable for every version.\<close>

definition buf_find ::
  "xl_env \<Rightarrow> file_lib \<Rightarrow> byte \<Rightarrow> byte \<Rightarrow> string \<Rightarrow> string \<Rightarrow> string \<Rightarrow> uuid \<Rightarrow> bool \<Rightarrow> nat \<Rightarrow> byte list \<Rightarrow> byte list
   \<Rightarrow> xlMetaV2VersionHeader \<times> bool \<times> find_state \<Rightarrow> (xlMetaV2VersionHeader \<times> bool \<times> find_state) \<times> gerror option" where
  "buf_find E L headerV metaV volume path versionID uv allParts i hdr meta st =
     (case st of (h, found, s) \<Rightarrow>
        (case header_unmarshalV (xe_M E) L headerV h hdr of
           Inl e \<Rightarrow> (st, Some e)
         | Inr (h, _) \<Rightarrow>
             let s = (if header_FreeVersion h then s\<lparr>fs_nonFree := fs_nonFree s - 1\<rparr> else s)
             in if header_FreeVersion h \<and> vh_VersionID h \<noteq> uv then ((h, found, s), None)
                else if found then ((h, found, s), None)
                else if versionID \<noteq> [] \<and> uv \<noteq> vh_VersionID h then ((h, found, s\<lparr>fs_latest := False, fs_succ := vh_ModTime h\<rparr>), None)
                else (case version_FileInfo E metaV meta volume path allParts of
                        Inl e \<Rightarrow> ((h, True, s), Some e)
                      | Inr fi \<Rightarrow> ((h, True, s\<lparr>fs_fi := Some (found_FileInfo s fi)\<rparr>), None))))"

definition buf_ToFileInfo :: "xl_env \<Rightarrow> file_lib \<Rightarrow> byte list \<Rightarrow> string \<Rightarrow> string \<Rightarrow> string \<Rightarrow> bool \<Rightarrow> gerror + FileInfo" where
  "buf_ToFileInfo E L x volume path versionID allParts =
     (case parse_id E versionID of
        None \<Rightarrow> Inl ErrFileVersionNotFound
      | Some uv \<Rightarrow>
          andThen (decodeXLHeaders (xe_M E) x) (\<lambda>(versions, headerV, metaV, buf).
            case decodeVersions (xe_M E) (buf_find E L headerV metaV volume path versionID uv allParts) 0 (nat versions) buf
                   (header0, False, find_start versions) of
              ((h, found, s), err) \<Rightarrow>
                if \<not> found then (case err of Some (GoPanic e) \<Rightarrow> Inl (GoPanic e) | _ \<Rightarrow> if versionID = [] then Inl ErrFileNotFound else Inl ErrFileVersionNotFound)
                else (case err of Some e \<Rightarrow> Inl e
                      | None \<Rightarrow> (case fs_fi s of Some fi \<Rightarrow> Inr (fi\<lparr>fi_NumVersions := fs_nonFree s\<rparr>) | None \<Rightarrow> Inr (FileInfo0\<lparr>fi_NumVersions := fs_nonFree s\<rparr>)))))"

text \<open>The callback of \<open>ListVersions\<close>.\<close>

definition buf_list ::
  "xl_env \<Rightarrow> file_lib \<Rightarrow> byte \<Rightarrow> int \<Rightarrow> string \<Rightarrow> string \<Rightarrow> bool \<Rightarrow> nat \<Rightarrow> byte list \<Rightarrow> byte list
   \<Rightarrow> gotime \<times> bool \<times> (FileInfo \<times> index_ref list) list \<times> used_variable
   \<Rightarrow> (gotime \<times> bool \<times> (FileInfo \<times> index_ref list) list \<times> used_variable) \<times> gerror option" where
  "buf_list E L metaV vers volume path allParts i hdr meta st =
     (case st of (succ, latest, dst, u) \<Rightarrow>
        (case andThen (unmarshalV E metaV meta) (\<lambda>(xl, _).
                if \<not> Valid xl then Inl ErrFileCorrupt
                else andThen (used_FileInfo E L xl volume path allParts u) (\<lambda>(f, u). andThen (getModTime xl) (\<lambda>t. Inr (f, u, t)))) of
           Inl e \<Rightarrow> (st, Some e)
         | Inr ((fi, refs), u, t) \<Rightarrow>
             ((t, False, dst @ [(fi\<lparr>fi_IsLatest := latest, fi_SuccessorModTime := succ, fi_NumVersions := vers\<rparr>, refs)], u), None)))"

text \<open>Both callers drop the list when there is an error.\<close>

definition buf_ListVersions :: "xl_env \<Rightarrow> file_lib \<Rightarrow> byte list \<Rightarrow> string \<Rightarrow> string \<Rightarrow> bool \<Rightarrow> gerror + FileInfo list" where
  "buf_ListVersions E L x volume path allParts =
     andThen (decodeXLHeaders (xe_M E) x) (\<lambda>(vers, _, metaV, buf).
       case decodeVersions (xe_M E) (buf_list E L metaV vers volume path allParts) 0 (nat vers) buf (zero_time, True, [], fresh_variable) of
         (_, Some e) \<Rightarrow> Inl e
       | ((_, _, dst, u), None) \<Rightarrow> Inr (map (FileInfo_now (uv_bufs u)) dst))"

definition IsLatestDeleteMarker :: "xl_env \<Rightarrow> file_lib \<Rightarrow> byte list \<Rightarrow> bool" where
  "IsLatestDeleteMarker E L x =
     (case decodeXLHeaders (xe_M E) x of
        Inl e \<Rightarrow> False
      | Inr (vers, headerV, _, buf) \<Rightarrow>
          if vers = 0 then True
          else fst (decodeVersions (xe_M E) (\<lambda>i hdr meta isDeleteMarker.
                 (case header_unmarshalV (xe_M E) L headerV header0 hdr of
                    Inl e \<Rightarrow> (isDeleteMarker, Some errDoneForNow)
                  | Inr (xl, _) \<Rightarrow> (vh_Type xl = DeleteType, Some errDoneForNow))) 0 (nat vers) buf False))"

definition AllHidden :: "xl_env \<Rightarrow> file_lib \<Rightarrow> byte list \<Rightarrow> bool \<Rightarrow> bool" where
  "AllHidden E L x topDeleteMarker =
     (case decodeXLHeaders (xe_M E) x of
        Inl e \<Rightarrow> False
      | Inr (vers, headerV, _, buf) \<Rightarrow>
          if vers = 0 then True
          else snd (fst (decodeVersions (xe_M E) (\<lambda>i hdr meta (xl, hidden).
                 (case header_unmarshalV (xe_M E) L headerV xl hdr of
                    Inl e \<Rightarrow> ((xl, hidden), Some errDoneForNow)
                  | Inr (xl, _) \<Rightarrow>
                      if topDeleteMarker \<and> i = 0 \<and> vh_Type xl = DeleteType then ((xl, True), Some errDoneForNow)
                      else if \<not> header_FreeVersion xl then ((xl, False), Some errDoneForNow)
                      else ((xl, hidden), None))) 0 (nat vers) buf (header0, True))))"

section \<open>Of a file\<close>

definition timeSentinel1970 :: gotime where "timeSentinel1970 = Unix0 1"

record FileInfoVersions =
  fv_Volume :: string
  fv_Name :: string
  fv_LatestModTime :: gotime
  fv_Versions :: "FileInfo list"
  fv_FreeVersions :: "FileInfo list"

definition getAllFileInfoVersions :: "xl_env \<Rightarrow> file_lib \<Rightarrow> byte list \<Rightarrow> string \<Rightarrow> string \<Rightarrow> bool \<Rightarrow> gerror + FileInfoVersions" where
  "getAllFileInfoVersions E L xlMetaBuf volume path allParts =
     andThen (isIndexedMetaV2 E L xlMetaBuf) (\<lambda>r.
       andThen (case r of
                  Some (buf, _) \<Rightarrow> buf_ListVersions E L buf volume path allParts
                | None \<Rightarrow> andThen (LoadOrConvert E L xlMetaBuf) (\<lambda>xlMeta. journal_ListVersions E L xlMeta volume path allParts))
         (\<lambda>versions.
           let versions = (if versions = []
                           then [FileInfo0\<lparr>fi_Volume := volume, fi_Name := path, fi_Deleted := True, fi_IsLatest := True, fi_ModTime := timeSentinel1970\<rparr>]
                           else versions)
           in Inr \<lparr>fv_Volume = volume, fv_Name = path, fv_LatestModTime = fi_ModTime (hd versions), fv_Versions = versions, fv_FreeVersions = []\<rparr>))"

definition getFileInfoVersions :: "xl_env \<Rightarrow> file_lib \<Rightarrow> byte list \<Rightarrow> string \<Rightarrow> string \<Rightarrow> bool \<Rightarrow> gerror + FileInfoVersions" where
  "getFileInfoVersions E L xlMetaBuf volume path inclFreeVersions =
     andThen (getAllFileInfoVersions E L xlMetaBuf volume path True) (\<lambda>fivs.
       let visible = filter (\<lambda>fi. \<not> TierFreeVersion fi) (fv_Versions fivs); n = int (length visible);
           fivs = (if inclFreeVersions then fivs
                   else fivs\<lparr>fv_FreeVersions := fv_FreeVersions fivs @ filter TierFreeVersion (fv_Versions fivs), fv_Versions := visible\<rparr>)
       in Inr (fivs\<lparr>fv_Versions := map (\<lambda>fi. fi\<lparr>fi_NumVersions := n\<rparr>) (fv_Versions fivs)\<rparr>))"

definition deleted_FileInfo :: "string \<Rightarrow> string \<Rightarrow> string \<Rightarrow> FileInfo" where
  "deleted_FileInfo volume path versionID = FileInfo0\<lparr>fi_Volume := volume, fi_Name := path, fi_VersionID := versionID, fi_Deleted := True,
     fi_IsLatest := True, fi_ModTime := timeSentinel1970\<rparr>"

definition with_data :: "xl_env \<Rightarrow> bool \<Rightarrow> xlMetaInlineData \<Rightarrow> gerror + FileInfo \<Rightarrow> gerror + FileInfo" where
  "with_data E want inData r =
     andThen r (\<lambda>fi.
       if \<not> want then Inr fi
       else let versionID = (if fi_VersionID fi = [] then nullVersionID else fi_VersionID fi);
                d = inline_find (xe_M E) inData versionID
            in Inr (fi\<lparr>fi_Data := (if elems d = [] then inline_find (xe_M E) inData (fi_DataDir fi) else d)\<rparr>))"

definition getFileInfo :: "xl_env \<Rightarrow> file_lib \<Rightarrow> byte list \<Rightarrow> string \<Rightarrow> string \<Rightarrow> string \<Rightarrow> bool \<Rightarrow> bool \<Rightarrow> gerror + FileInfo" where
  "getFileInfo E L xlMetaBuf volume path versionID inclFreeVersions wantData =
     andThen (isIndexedMetaV2 E L xlMetaBuf) (\<lambda>r.
       case r of
         Some (buf, data) \<Rightarrow>
           (let fi = buf_ToFileInfo E L buf volume path versionID True
            in case fi of
                 Inl e \<Rightarrow> if buf \<noteq> [] \<and> errors_Is e ErrFileNotFound then Inr (deleted_FileInfo volume path versionID) else Inl e
               | Inr f \<Rightarrow> with_data E wantData data fi)
       | None \<Rightarrow>
           andThen (LoadOrConvert E L xlMetaBuf) (\<lambda>xlMeta.
             if xl_versions xlMeta = [] then Inr (deleted_FileInfo volume path versionID)
             else with_data E wantData (xl_data xlMeta) (journal_ToFileInfo E xlMeta volume path versionID inclFreeVersions True)))"

end
