(* ===== verification/XL_Same.thy ===== *)
theory XL_Same
  imports XL_Version
begin

text \<open>
  When two versions have the same contents: their maps may list the entries in another order. The header does not tell them
  apart, and \<open>xl_env_ok\<close> says what is known of the generated codec, the time stamps, the sorting and the ids: a version that was
  marshalled is unmarshalled with the same contents.
\<close>

section \<open>The same contents\<close>

definition same_bytes :: "bytesmap \<Rightarrow> bytesmap \<Rightarrow> bool" where
  "same_bytes m m' \<longleftrightarrow> mset (elems m) = mset (elems m') \<and> (m = None \<longleftrightarrow> m' = None)"

definition same_strs :: "strmap \<Rightarrow> strmap \<Rightarrow> bool" where
  "same_strs m m' \<longleftrightarrow> same_map m m' \<and> (m = None \<longleftrightarrow> m' = None)"

definition wf_bytes :: "bytesmap \<Rightarrow> bool" where
  "wf_bytes m \<longleftrightarrow> distinct (map fst (elems m))"

lemma mset_map_of:
  assumes "distinct (map fst xs)" and "mset xs = mset ys"
  shows "map_of ys = map_of xs \<and> distinct (map fst ys)"
proof -
  have "mset (map fst xs) = mset (map fst ys)" using assms(2) by simp
  then have d: "distinct (map fst ys)" using assms(1) mset_eq_imp_distinct_iff by blast
  have "set xs = set ys" using assms(2) by (metis set_mset_mset)
  then show ?thesis using assms(1) d map_of_inject_set by blast
qed

lemma same_bget: "wf_bytes m \<Longrightarrow> same_bytes m m' \<Longrightarrow> bget m' k = bget m k"
  using mset_map_of[of "elems m" "elems m'"] by (simp add: wf_bytes_def same_bytes_def bget_def)

lemma same_bytes_wf: "wf_bytes m \<Longrightarrow> same_bytes m m' \<Longrightarrow> wf_bytes m'"
  using mset_map_of[of "elems m" "elems m'"] by (simp add: wf_bytes_def same_bytes_def)

lemma same_strs_wf: "wf_strmap m \<Longrightarrow> same_strs m m' \<Longrightarrow> wf_strmap m'"
  using mset_map_of[of "elems m" "elems m'"] by (simp add: wf_strmap_def same_strs_def same_map_def)

lemma same_refl [simp]: "same_bytes m m" "same_strs n n"
  by (simp_all add: same_bytes_def same_strs_def same_map_def)

definition same_marker :: "xlMetaV2DeleteMarker \<Rightarrow> xlMetaV2DeleteMarker \<Rightarrow> bool" where
  "same_marker d d' \<longleftrightarrow> same_bytes (dm_MetaSys d) (dm_MetaSys d') \<and> d' = d\<lparr>dm_MetaSys := dm_MetaSys d'\<rparr>"

definition same_object :: "xlMetaV2Object \<Rightarrow> xlMetaV2Object \<Rightarrow> bool" where
  "same_object ob ob' \<longleftrightarrow> same_bytes (ob_MetaSys ob) (ob_MetaSys ob') \<and> same_strs (ob_MetaUser ob) (ob_MetaUser ob')
     \<and> ob' = ob\<lparr>ob_MetaSys := ob_MetaSys ob', ob_MetaUser := ob_MetaUser ob'\<rparr>"

definition same_legacy :: "xlMetaV1Object \<Rightarrow> xlMetaV1Object \<Rightarrow> bool" where
  "same_legacy m m' \<longleftrightarrow> same_strs (m1_Meta m) (m1_Meta m') \<and> m' = m\<lparr>m1_Meta := m1_Meta m'\<rparr>"

definition same_version :: "xlMetaV2Version \<Rightarrow> xlMetaV2Version \<Rightarrow> bool" where
  "same_version v v' \<longleftrightarrow> rel_option same_legacy (xv_ObjectV1 v) (xv_ObjectV1 v') \<and> rel_option same_object (xv_ObjectV2 v) (xv_ObjectV2 v')
     \<and> rel_option same_marker (xv_DeleteMarker v) (xv_DeleteMarker v') \<and> xv_Type v' = xv_Type v
     \<and> xv_WrittenByVersion v' = xv_WrittenByVersion v"

text \<open>Maps with distinct keys, ids of 16 bytes, instants of 64 bits.\<close>

definition wf_object :: "xlMetaV2Object \<Rightarrow> bool" where
  "wf_object ob \<longleftrightarrow> wf_bytes (ob_MetaSys ob) \<and> wf_strmap (ob_MetaUser ob) \<and> length (ob_VersionID ob) = 16 \<and> length (ob_DataDir ob) = 16
     \<and> is_int64 (ob_ModTime ob)"

definition wf_marker :: "xlMetaV2DeleteMarker \<Rightarrow> bool" where
  "wf_marker d \<longleftrightarrow> wf_bytes (dm_MetaSys d) \<and> length (dm_VersionID d) = 16 \<and> is_int64 (dm_ModTime d)"

definition wf_version :: "xlMetaV2Version \<Rightarrow> bool" where
  "wf_version v \<longleftrightarrow> pred_option (\<lambda>m. wf_strmap (m1_Meta m)) (xv_ObjectV1 v) \<and> pred_option wf_object (xv_ObjectV2 v)
     \<and> pred_option wf_marker (xv_DeleteMarker v)"

lemma same_object_wf: "wf_object ob \<Longrightarrow> same_object ob ob' \<Longrightarrow> wf_object ob'"
  by (cases ob; cases ob') (auto simp: wf_object_def same_object_def same_bytes_wf same_strs_wf)

lemma same_marker_wf: "wf_marker d \<Longrightarrow> same_marker d d' \<Longrightarrow> wf_marker d'"
  by (cases d; cases d') (auto simp: wf_marker_def same_marker_def same_bytes_wf)

lemma same_legacy_wf: "wf_strmap (m1_Meta m) \<Longrightarrow> same_legacy m m' \<Longrightarrow> wf_strmap (m1_Meta m')"
  by (simp add: same_legacy_def same_strs_wf)

lemma pred_same: "rel_option R p q \<Longrightarrow> pred_option P p \<Longrightarrow> (\<And>a b. P a \<Longrightarrow> R a b \<Longrightarrow> Q b) \<Longrightarrow> pred_option Q q"
  by (cases p; cases q) auto

lemma same_version_wf:
  assumes "wf_version v" and "same_version v v'"
  shows "wf_version v'"
  unfolding wf_version_def
proof (intro conjI)
  show "pred_option (\<lambda>m. wf_strmap (m1_Meta m)) (xv_ObjectV1 v')"
    by (rule pred_same[of same_legacy "xv_ObjectV1 v" _ "\<lambda>m. wf_strmap (m1_Meta m)"]) (use assms same_legacy_wf in \<open>auto simp: wf_version_def same_version_def\<close>)
  show "pred_option wf_object (xv_ObjectV2 v')"
    by (rule pred_same[of same_object "xv_ObjectV2 v" _ wf_object]) (use assms same_object_wf in \<open>auto simp: wf_version_def same_version_def\<close>)
  show "pred_option wf_marker (xv_DeleteMarker v')"
    by (rule pred_same[of same_marker "xv_DeleteMarker v" _ wf_marker]) (use assms same_marker_wf in \<open>auto simp: wf_version_def same_version_def\<close>)
qed

section \<open>The header sees no difference\<close>

lemma foldl_xor_mset:
  "mset xs = mset ys \<Longrightarrow> foldl (\<lambda>c x. c XOR f x) (c :: 'a :: len word) xs = foldl (\<lambda>c x. c XOR f x) c ys"
proof -
  assume m: "mset xs = mset ys"
  have e: "foldl (\<lambda>c x. c XOR f x) c zs = fold (\<lambda>x c. c XOR f x) zs c" for zs c by (simp add: foldl_conv_fold)
  have "fold (\<lambda>x c. c XOR f x) xs = fold (\<lambda>x c. c XOR f x) ys"
    by (rule fold_multiset_equiv[OF _ m]) (auto simp: fun_eq_iff xor.assoc xor.commute xor.left_commute)
  then show ?thesis by (simp add: e)
qed

lemma hash_same:
  assumes "range_order (xe_ord E)" and "range_order (xe_bord E)"
  shows "same_bytes b b' \<Longrightarrow> hashDeterministicBytes E b' = hashDeterministicBytes E b"
    and "same_strs m m' \<Longrightarrow> hashDeterministicString E m' = hashDeterministicString E m"
proof -
  show "hashDeterministicBytes E b' = hashDeterministicBytes E b" if "same_bytes b b'"
    using that assms foldl_xor_mset[of "xe_bord E (elems b')" "xe_bord E (elems b)" "\<lambda>(k, v). entry_hash (xe_xxh3 E (bytes_of k)) (xe_xxh3 E v)"]
    by (simp add: hashDeterministicBytes_def same_bytes_def range_order_def case_prod_unfold)
  show "hashDeterministicString E m' = hashDeterministicString E m" if "same_strs m m'"
    using that assms
      foldl_xor_mset[of "xe_ord E (elems m')" "xe_ord E (elems m)" "\<lambda>(k, v). entry_hash (xe_xxh3 E (bytes_of k)) (xe_xxh3 E (bytes_of v))"]
    by (simp add: hashDeterministicString_def same_strs_def same_map_def range_order_def case_prod_unfold)
qed

lemma restored_same: "wf_strmap m \<Longrightarrow> same_strs m m' \<Longrightarrow> isRestoredObjectOnDisk clk m' = isRestoredObjectOnDisk clk m"
  by (simp add: isRestoredObjectOnDisk_def same_strs_def same_map_mget)

lemma header_object_same:
  assumes "range_order (xe_ord E)" and "range_order (xe_bord E)" and "wf_object ob" and "same_object ob ob'"
  shows "header_of_object E ob' = header_of_object E ob"
proof -
  obtain ms mu where ob': "ob' = ob\<lparr>ob_MetaSys := ms, ob_MetaUser := mu\<rparr>" and s: "same_bytes (ob_MetaSys ob) ms" "same_strs (ob_MetaUser ob) mu"
    using assms(4) by (auto simp: same_object_def)
  have w: "wf_bytes (ob_MetaSys ob)" "wf_strmap (ob_MetaUser ob)" using assms(3) by (simp_all add: wf_object_def)
  have sig: "ob_Signature E ob' = ob_Signature E ob"
    unfolding ob' ob_Signature_def by (simp add: Let_def hash_same(1)[OF assms(1,2) s(1)] hash_same(2)[OF assms(1,2) s(2)])
  have "ob_UsesDataDir (xe_Clock E) ob' = ob_UsesDataDir (xe_Clock E) ob" "ob_InlineData ob' = ob_InlineData ob"
    unfolding ob' by (simp_all add: ob_UsesDataDir_def ob_InlineData_def bgetd_def same_bget[OF w(1) s(1)] restored_same[OF w(2) s(2)])
  then show ?thesis unfolding header_of_object_def sig by (simp add: ob')
qed

lemma header_marker_same:
  assumes "range_order (xe_ord E)" and "range_order (xe_bord E)" and "wf_marker d" and "same_marker d d'"
  shows "header_of_marker E d' = header_of_marker E d"
proof -
  obtain ms where d': "d' = d\<lparr>dm_MetaSys := ms\<rparr>" and s: "same_bytes (dm_MetaSys d) ms" using assms(4) by (auto simp: same_marker_def)
  have w: "wf_bytes (dm_MetaSys d)" using assms(3) by (simp add: wf_marker_def)
  show ?thesis
    unfolding header_of_marker_def dm_Signature_def dm_FreeVersion_def d' by (simp add: hash_same(1)[OF assms(1,2) s] same_bget[OF w s])
qed

lemma header_legacy_same:
  assumes "range_order (xe_ord E)" and "range_order (xe_bord E)" and "same_legacy m m'"
  shows "header_of_legacy E m' = header_of_legacy E m"
proof -
  obtain mm where m': "m' = m\<lparr>m1_Meta := mm\<rparr>" and s: "same_strs (m1_Meta m) mm" using assms(3) by (auto simp: same_legacy_def)
  show ?thesis unfolding header_of_legacy_def m1_Signature_def m' by (simp add: Let_def hash_same(2)[OF assms(1,2) s])
qed

lemma header_same:
  assumes "range_order (xe_ord E)" and "range_order (xe_bord E)" and "wf_version v" and "same_version v v'"
  shows "header E v' = header E v"
proof -
  have t: "xv_Type v' = xv_Type v" using assms(4) by (simp add: same_version_def)
  have "deref (xv_ObjectV2 v') (header_of_object E) = deref (xv_ObjectV2 v) (header_of_object E)"
    using assms header_object_same[OF assms(1,2)] by (cases "xv_ObjectV2 v"; cases "xv_ObjectV2 v'") (auto simp: same_version_def wf_version_def)
  moreover have "deref (xv_DeleteMarker v') (header_of_marker E) = deref (xv_DeleteMarker v) (header_of_marker E)"
    using assms header_marker_same[OF assms(1,2)] by (cases "xv_DeleteMarker v"; cases "xv_DeleteMarker v'") (auto simp: same_version_def wf_version_def)
  moreover have "deref (xv_ObjectV1 v') (header_of_legacy E) = deref (xv_ObjectV1 v) (header_of_legacy E)"
    using assms header_legacy_same[OF assms(1,2)] by (cases "xv_ObjectV1 v"; cases "xv_ObjectV1 v'") (auto simp: same_version_def)
  ultimately show ?thesis by (simp add: header_def t)
qed

lemma Valid_same:
  assumes "same_version v v'"
  shows "Valid v' = Valid v"
proof -
  have "same_object ob ob' \<Longrightarrow> ob_ErasureAlgorithm ob' = ob_ErasureAlgorithm ob \<and> ob_BitrotChecksumAlgo ob' = ob_BitrotChecksumAlgo ob
      \<and> ob_ErasureM ob' = ob_ErasureM ob \<and> ob_ErasureN ob' = ob_ErasureN ob \<and> ob_ModTime ob' = ob_ModTime ob" for ob ob'
    by (cases ob; cases ob') (auto simp: same_object_def)
  moreover have "same_marker d d' \<Longrightarrow> dm_ModTime d' = dm_ModTime d" for d d' by (cases d; cases d') (auto simp: same_marker_def)
  moreover have "same_legacy m m' \<Longrightarrow> m1_valid m' = m1_valid m" for m m' by (cases m; cases m') (auto simp: same_legacy_def m1_valid_def)
  ultimately show ?thesis using assms by (auto simp: Valid_def same_version_def rel_option_iff split: option.splits)
qed

section \<open>What is known of the surroundings\<close>

text \<open>The iteration order of maps, the codec, the time stamps, the sorting, the ids. Of the generated codec
  (\<open>cmd/xl-storage-format-v2_gen.go\<close>) the law is literally true of versions whose optional lists are nil or not empty: an empty
  \<open>PartIndices\<close>, \<open>PartETags\<close> or \<open>PartActualSizes\<close> that is not nil may come back as nil. The readers of these lists look at their length.\<close>

definition xl_env_ok :: "xl_env \<Rightarrow> bool" where
  "xl_env_ok E \<longleftrightarrow> range_order (xe_ord E) \<and> range_order (xe_bord E)
     \<and> (\<forall>v b. wf_version v \<and> xe_Marshal E v = Inr b \<longrightarrow>
          (\<exists>v'. xe_Unmarshal E b = Inr (v', []) \<and> same_version v v') \<and> xe_DataDir E b = Inr (map_option ob_DataDir (xv_ObjectV2 v)))
     \<and> (\<forall>t t'. xe_ParseRFC E (xe_FormatRFC E t) = Some t' \<longrightarrow> xe_FormatRFC E t' = xe_FormatRFC E t)
     \<and> (\<forall>vs. mset (xe_sort E vs) = mset vs \<and> sorted_wrt (\<lambda>a b. \<not> sortsBefore (sv_header b) (sv_header a)) (xe_sort E vs))
     \<and> (\<forall>u. length u = 16 \<longrightarrow> xe_Parse E (xe_String E u) = Some u \<and> xe_String E u \<noteq> [])
     \<and> (\<forall>s u. xe_Parse E s = Some u \<longrightarrow> length u = 16)"

lemma xl_env_okD:
  assumes "xl_env_ok E"
  shows "range_order (xe_ord E)" and "range_order (xe_bord E)"
    and "wf_version v \<Longrightarrow> xe_Marshal E v = Inr b \<Longrightarrow> \<exists>v'. xe_Unmarshal E b = Inr (v', []) \<and> same_version v v'"
    and "wf_version v \<Longrightarrow> xe_Marshal E v = Inr b \<Longrightarrow> xe_DataDir E b = Inr (map_option ob_DataDir (xv_ObjectV2 v))"
    and "xe_ParseRFC E (xe_FormatRFC E t) = Some t' \<Longrightarrow> xe_FormatRFC E t' = xe_FormatRFC E t"
    and "mset (xe_sort E vs) = mset vs" and "sorted_wrt (\<lambda>a b. \<not> sortsBefore (sv_header b) (sv_header a)) (xe_sort E vs)"
    and "length u = 16 \<Longrightarrow> xe_Parse E (xe_String E u) = Some u" and "length u = 16 \<Longrightarrow> xe_String E u \<noteq> []"
    and "xe_Parse E s = Some w \<Longrightarrow> length w = 16"
  using assms unfolding xl_env_ok_def by blast+

text \<open>A version that decoding leaves as it is: its time stamps are in UTC, its empty tags are nil.\<close>

definition utc_stamp :: "xl_env \<Rightarrow> byte list \<Rightarrow> bool" where
  "utc_stamp E val \<longleftrightarrow> (case xe_ParseRFC E (string_of val) of None \<Rightarrow> True | Some t \<Rightarrow> bytes_of (xe_FormatRFC E t) = val)"

definition stamp_keys :: "string set" where
  "stamp_keys = {ReservedMetadataPrefixLower @ ReplicationTimestamp, ReservedMetadataPrefixLower @ ReplicaTimestamp}"

definition utc_marker :: "xl_env \<Rightarrow> xlMetaV2DeleteMarker \<Rightarrow> bool" where
  "utc_marker E d \<longleftrightarrow> (\<forall>k \<in> stamp_keys. \<forall>val. bget (dm_MetaSys d) k = Some val \<longrightarrow> utc_stamp E val)"

definition canonical :: "xl_env \<Rightarrow> xlMetaV2Version \<Rightarrow> bool" where
  "canonical E v \<longleftrightarrow> (xv_Type v = DeleteType \<longrightarrow> xv_DeleteMarker v \<noteq> None) \<and> pred_option (utc_marker E) (xv_DeleteMarker v)
     \<and> pred_option (\<lambda>ob. clean_etags ob = ob) (xv_ObjectV2 v)"

lemma update_same: "map_of es k = Some v \<Longrightarrow> AList.update k v es = es"
  by (induction es) (auto split: if_splits)

lemma fix_stamp_utc: "(\<And>val. bget m k = Some val \<Longrightarrow> utc_stamp E val) \<Longrightarrow> fix_stamp E m k = m"
  by (cases m) (auto simp: fix_stamp_def utc_stamp_def bget_def update_same split: option.splits)

lemma fix_stamps_utc: "utc_marker E d \<Longrightarrow> fix_stamps E d = d"
  by (simp add: fix_stamps_def utc_marker_def stamp_keys_def fix_stamp_utc)

lemma canonical_same:
  assumes "canonical E v" and "wf_version v" and "same_version v v'"
  shows "canonical E v'"
proof -
  have m: "same_marker d d' \<Longrightarrow> wf_marker d \<Longrightarrow> utc_marker E d \<Longrightarrow> utc_marker E d'" for d d'
    unfolding utc_marker_def same_marker_def wf_marker_def using same_bget by metis
  have o: "same_object ob ob' \<Longrightarrow> clean_etags ob = ob \<Longrightarrow> clean_etags ob' = ob'" for ob ob'
    by (cases ob; cases ob') (auto simp: same_object_def clean_etags_def split: if_splits)
  have t: "xv_Type v' = xv_Type v" using assms(3) by (simp add: same_version_def)
  have "pred_option (utc_marker E) (xv_DeleteMarker v')" "xv_DeleteMarker v' = None \<longleftrightarrow> xv_DeleteMarker v = None"
    using assms m by (cases "xv_DeleteMarker v"; cases "xv_DeleteMarker v'"; auto simp: same_version_def wf_version_def canonical_def)+
  moreover have "pred_option (\<lambda>ob. clean_etags ob = ob) (xv_ObjectV2 v')"
    using assms o by (cases "xv_ObjectV2 v"; cases "xv_ObjectV2 v'") (auto simp: same_version_def canonical_def)
  ultimately show ?thesis using assms(1) by (simp add: canonical_def t)
qed

text \<open>What was marshalled is unmarshalled with the same contents, in every version of the format.\<close>

lemma unmarshal_canonical:
  assumes "xe_Unmarshal E b = Inr (v, rest)" and "canonical E v" and "mv \<le> xlMetaVersion"
  shows "unmarshalV E mv b = Inr (v, rest)"
proof -
  have "map_option clean_etags (xv_ObjectV2 v) = xv_ObjectV2 v" using assms(2) by (cases "xv_ObjectV2 v") (auto simp: canonical_def)
  moreover have "map_option (fix_stamps E) (xv_DeleteMarker v) = xv_DeleteMarker v"
    using assms(2) by (cases "xv_DeleteMarker v") (auto simp: canonical_def fix_stamps_utc)
  ultimately show ?thesis using assms by (auto simp: unmarshalV_def canonical_def not_less)
qed

lemma decode_encode:
  assumes "xl_env_ok E" and "wf_version v" and "canonical E v" and "xe_Marshal E v = Inr b" and "mv \<le> xlMetaVersion"
  obtains v' where "unmarshalV E mv b = Inr (v', [])" and "same_version v v'" and "wf_version v'" and "canonical E v'"
    and "header E v' = header E v" and "Valid v' = Valid v"
proof -
  obtain v' where v': "xe_Unmarshal E b = Inr (v', [])" "same_version v v'" using xl_env_okD(3)[OF assms(1,2,4)] by blast
  have c: "canonical E v'" by (rule canonical_same[OF assms(3,2) v'(2)])
  show thesis
    by (rule that[of v']) (use assms v' c unmarshal_canonical[OF v'(1) c assms(5)] in
        \<open>simp_all add: same_version_wf[OF assms(2)] header_same[OF xl_env_okD(1,2)[OF assms(1)] assms(2)] Valid_same\<close>)
qed

end
