(* ===== verification/XL_Journal_Inv.thy ===== *)
theory XL_Journal_Inv
  imports XL_Journal XL_Same
begin

text \<open>
  The invariant of a journal: every entry decodes to a valid version whose header was the stored one when it was stored, the entries are ordered by their
  modification time with the newest first, and no id occurs twice. What the building blocks of the operations do to it.
\<close>

section \<open>The invariant\<close>

definition entry_ok :: "xl_env \<Rightarrow> byte \<Rightarrow> xlMetaV2ShallowVersion \<Rightarrow> bool" where
  "entry_ok E mv e \<longleftrightarrow> (\<exists>v. unmarshalV E mv (sv_meta e) = Inr (v, []) \<and> Valid v \<and> wf_version v \<and> canonical E v
     \<and> header_since E v (sv_header e) \<and> xe_DataDir E (sv_meta e) = Inr (map_option ob_DataDir (xv_ObjectV2 v)))"

abbreviation mod_of :: "xlMetaV2ShallowVersion \<Rightarrow> int" where
  "mod_of e \<equiv> vh_ModTime (sv_header e)"

abbreviation id_of :: "xlMetaV2ShallowVersion \<Rightarrow> uuid" where
  "id_of e \<equiv> vh_VersionID (sv_header e)"

definition entries_sound :: "xl_env \<Rightarrow> byte \<Rightarrow> xlMetaV2ShallowVersion list \<Rightarrow> bool" where
  "entries_sound E mv vs \<longleftrightarrow> (\<forall>e \<in> set vs. entry_ok E mv e) \<and> sorted_wrt (\<ge>) (map mod_of vs) \<and> distinct (map id_of vs)"

definition journal_ok :: "xl_env \<Rightarrow> xlMetaV2 \<Rightarrow> bool" where
  "journal_ok E x \<longleftrightarrow> xl_metaV x \<le> xlMetaVersion \<and> entries_sound E (xl_metaV x) (xl_versions x)"

lemma Valid_header:
  assumes "Valid v"
  shows "\<exists>h. header E v = Inr h \<and> vh_Type h \<in> {LegacyType, ObjectType, DeleteType}"
  using assms by (auto simp: Valid_def header_def header_of_object_def header_of_marker_def header_of_legacy_def split: if_splits option.splits)

lemma entry_known: "entry_ok E mv e \<Longrightarrow> known_type e"
  unfolding entry_ok_def known_type_def header_since_def using Valid_header by (metis Inr_inject)

text \<open>Time goes by.\<close>

lemma at_time_same:
  "unmarshalV (at_time t E) = unmarshalV E" "canonical (at_time t E) = canonical E" "xl_env_ok (at_time t E) = xl_env_ok E"
  "xe_DataDir (at_time t E) = xe_DataDir E" "xe_Marshal (at_time t E) = xe_Marshal E"
proof -
  have f: "xe_ParseRFC (at_time t E) = xe_ParseRFC E" "xe_FormatRFC (at_time t E) = xe_FormatRFC E" by (simp_all add: at_time_def)
  have "fix_stamps (at_time t E) = fix_stamps E" by (intro ext) (simp only: fix_stamps_def fix_stamp_def f)
  moreover have "xe_Unmarshal (at_time t E) = xe_Unmarshal E" by (simp add: at_time_def)
  ultimately show "unmarshalV (at_time t E) = unmarshalV E" by (intro ext) (simp only: unmarshalV_def)
  have "utc_marker (at_time t E) = utc_marker E" by (intro ext) (simp only: utc_marker_def utc_stamp_def f)
  then show "canonical (at_time t E) = canonical E" by (intro ext) (simp only: canonical_def)
  show "xl_env_ok (at_time t E) = xl_env_ok E" by (simp add: xl_env_ok_def at_time_def)
qed (simp_all add: at_time_def)

lemma journal_later: "journal_ok E x \<Longrightarrow> Now (xe_Clock E) \<le> t \<Longrightarrow> journal_ok (at_time t E) x"
  unfolding journal_ok_def entries_sound_def entry_ok_def at_time_same using header_since_later by blast

text \<open>What a version becomes when it is stored.\<close>

lemma stored_entry_ok:
  assumes "xl_env_ok E" and "wf_version v" and "canonical E v" and "Valid v" and "xe_Marshal E v = Inr b" and "header E v = Inr h"
    and "mv \<le> xlMetaVersion"
  shows "entry_ok E mv \<lparr>sv_header = h, sv_meta = b\<rparr>"
proof -
  obtain v' where v': "unmarshalV E mv b = Inr (v', [])" "same_version v v'" "wf_version v'" "canonical E v'" "header E v' = header E v" "Valid v' = Valid v"
    using decode_encode[OF assms(1-3,5,7)] .
  have "map_option ob_DataDir (xv_ObjectV2 v') = map_option ob_DataDir (xv_ObjectV2 v)"
  proof -
    have "same_object ob ob' \<Longrightarrow> ob_DataDir ob' = ob_DataDir ob" for ob ob' by (cases ob; cases ob') (auto simp: same_object_def)
    then show ?thesis using v'(2) by (cases "xv_ObjectV2 v"; cases "xv_ObjectV2 v'") (auto simp: same_version_def)
  qed
  then show ?thesis using v' assms header_now[OF v'(5)[unfolded assms(6)]] xl_env_okD(4)[OF assms(1,2,5)] by (auto simp: entry_ok_def)
qed

section \<open>Sublists\<close>

lemma sound_drop_at: "entries_sound E mv vs \<Longrightarrow> entries_sound E mv (take i vs @ drop (Suc i) vs)"
proof -
  assume s: "entries_sound E mv vs"
  have sub: "set (take i vs @ drop (Suc i) vs) \<subseteq> set vs" using set_take_subset[of i vs] set_drop_subset[of "Suc i" vs] by auto
  have split: "vs = take i vs @ (if i < length vs then [vs ! i] else []) @ drop (Suc i) vs" by (auto simp: Cons_nth_drop_Suc)
  have "sorted_wrt (\<ge>) (map mod_of (take i vs) @ map mod_of (if i < length vs then [vs ! i] else []) @ map mod_of (drop (Suc i) vs))"
    using s unfolding entries_sound_def by (metis split map_append)
  then have "sorted_wrt (\<ge>) (map mod_of (take i vs @ drop (Suc i) vs))" by (auto simp: sorted_wrt_append)
  moreover have "distinct (map id_of (take i vs) @ map id_of (if i < length vs then [vs ! i] else []) @ map id_of (drop (Suc i) vs))"
    using s unfolding entries_sound_def by (metis split map_append)
  then have "distinct (map id_of (take i vs @ drop (Suc i) vs))" by auto
  ultimately show ?thesis using s sub unfolding entries_sound_def by blast
qed

lemma dropped_id:
  assumes "distinct (map id_of vs)" and "i < length vs"
  shows "\<forall>e \<in> set (take i vs @ drop (Suc i) vs). id_of e \<noteq> id_of (vs ! i)"
proof -
  have "map id_of vs = map id_of (take i vs) @ id_of (vs ! i) # map id_of (drop (Suc i) vs)"
    using id_take_nth_drop[OF assms(2)] by (metis list.simps(9) map_append)
  then show ?thesis using assms(1) by (auto simp: image_iff)
qed

section \<open>Adding a version\<close>

lemma insert_place:
  "insert_version t new (vs @ [sentinel]) = Some r \<Longrightarrow>
   \<exists>i \<le> length vs. r = take i vs @ new # drop i vs \<and> (\<forall>e \<in> set (take i vs). mod_of e > t) \<and> (i < length vs \<longrightarrow> mod_of (vs ! i) \<le> t)"
proof (induction vs arbitrary: r)
  case (Cons v vs)
  show ?case
  proof (cases "mod_of v \<le> t")
    case True
    then show ?thesis using Cons.prems by (intro exI[of _ 0]) (auto simp: butlast_append)
  next
    case False
    then obtain r' where r': "insert_version t new (vs @ [sentinel]) = Some r'" "r = v # r'" using Cons.prems by auto
    from Cons.IH[OF r'(1)] obtain i where i: "i \<le> length vs" "r' = take i vs @ new # drop i vs" "\<forall>e \<in> set (take i vs). mod_of e > t"
      "i < length vs \<longrightarrow> mod_of (vs ! i) \<le> t" by blast
    show ?thesis by (rule exI[of _ "Suc i"]) (use i r' False in auto)
  qed
qed (auto split: if_splits)

lemma insert_sound:
  assumes "entries_sound E mv vs" and "entry_ok E mv new" and "\<forall>e \<in> set vs. id_of e \<noteq> id_of new"
    and "\<forall>e \<in> set (take i vs). mod_of e > mod_of new" and "i < length vs \<longrightarrow> mod_of (vs ! i) \<le> mod_of new"
  shows "entries_sound E mv (take i vs @ new # drop i vs)"
proof -
  have s: "sorted_wrt (\<ge>) (map mod_of (take i vs) @ map mod_of (drop i vs))"
    using assms(1) unfolding entries_sound_def by (metis append_take_drop_id map_append)
  have low: "\<forall>e \<in> set (drop i vs). mod_of e \<le> mod_of new"
  proof (cases "i < length vs")
    case True
    then have "drop i vs = vs ! i # drop (Suc i) vs" by (simp add: Cons_nth_drop_Suc)
    then show ?thesis using s True assms(5) by (auto simp: sorted_wrt_append dest: order_trans)
  qed simp
  have "sorted_wrt (\<ge>) (map mod_of (take i vs) @ mod_of new # map mod_of (drop i vs))"
    using s low assms(4) by (auto simp: sorted_wrt_append intro: less_imp_le)
  moreover have "distinct (map id_of (take i vs) @ map id_of (drop i vs))"
    using assms(1) unfolding entries_sound_def by (metis append_take_drop_id map_append)
  then have "distinct (map id_of (take i vs) @ id_of new # map id_of (drop i vs))"
    using assms(3) set_take_subset[of i vs] set_drop_subset[of i vs] by auto
  moreover have "set (take i vs @ new # drop i vs) = insert new (set vs)" by (metis Un_insert_right append_take_drop_id list.simps(15) set_append)
  ultimately show ?thesis using assms(1,2) unfolding entries_sound_def by auto
qed

text \<open>Where it succeeds, adding a version inserts its entry and changes nothing else; where it fails, nothing changed.\<close>

definition storable :: "xl_env \<Rightarrow> xlMetaV2Version \<Rightarrow> bool" where
  "storable E v \<longleftrightarrow> wf_version v \<and> canonical E v"

lemma mod_time_pos:
  assumes "Valid v" and "wf_version v" and "getModTime v = Inr t" and "xv_Type v \<noteq> LegacyType"
  shows "UnixNano t > 0"
  using assms
  by (auto simp: Valid_def getModTime_def wf_version_def wf_object_def wf_marker_def Unix0_def UnixNano_def VersionType_valid_def
      split: if_splits option.splits)

lemma insert_some:
  "mod_of sentinel \<le> t \<Longrightarrow> insert_version t new (vs @ [sentinel]) \<noteq> None"
  by (induction vs) auto

lemma addVersion_exact:
  assumes "xl_env_ok E" and "journal_ok E x" and "storable E v" and "addVersion E x v = (x', err)"
  shows "err = None \<Longrightarrow> \<exists>h b i. Valid v \<and> header E v = Inr h \<and> xe_Marshal E v = Inr b \<and> i \<le> length (xl_versions x)
      \<and> x' = x\<lparr>xl_versions := take i (xl_versions x) @ \<lparr>sv_header = h, sv_meta = b\<rparr> # drop i (xl_versions x)\<rparr>
      \<and> ((\<forall>e \<in> set (xl_versions x). id_of e \<noteq> vh_VersionID h) \<longrightarrow> journal_ok E x')"
    and "Valid v \<Longrightarrow> xv_Type v \<noteq> LegacyType \<Longrightarrow> err \<noteq> None \<Longrightarrow> x' = x"
proof -
  have parts: "wf_version v" "canonical E v" using assms(3) by (simp_all add: storable_def)
  let ?sent = "\<lparr>sv_header = header0\<lparr>vh_ModTime := -1\<rparr>, sv_meta = []\<rparr>"
  show "\<exists>h b i. Valid v \<and> header E v = Inr h \<and> xe_Marshal E v = Inr b \<and> i \<le> length (xl_versions x)
      \<and> x' = x\<lparr>xl_versions := take i (xl_versions x) @ \<lparr>sv_header = h, sv_meta = b\<rparr> # drop i (xl_versions x)\<rparr>
      \<and> ((\<forall>e \<in> set (xl_versions x). id_of e \<noteq> vh_VersionID h) \<longrightarrow> journal_ok E x')" if err: "err = None"
  proof -
    from assms(4) err obtain t b h vs where *: "getModTime v = Inr t" "Valid v" "xe_Marshal E v = Inr b" "header E v = Inr h"
      "insert_version (UnixNano t) \<lparr>sv_header = h, sv_meta = b\<rparr> (xl_versions x @ [?sent]) = Some vs" "x' = x\<lparr>xl_versions := vs\<rparr>"
      by (auto simp: addVersion_def Let_def split: sum.splits if_splits option.splits)
    from insert_place[OF *(5)] obtain i where i: "i \<le> length (xl_versions x)"
      "vs = take i (xl_versions x) @ \<lparr>sv_header = h, sv_meta = b\<rparr> # drop i (xl_versions x)"
      "\<forall>e \<in> set (take i (xl_versions x)). mod_of e > UnixNano t" "i < length (xl_versions x) \<longrightarrow> mod_of (xl_versions x ! i) \<le> UnixNano t"
      by blast
    have mv: "xl_metaV x \<le> xlMetaVersion" "entries_sound E (xl_metaV x) (xl_versions x)" using assms(2) by (simp_all add: journal_ok_def)
    have t: "vh_ModTime h = UnixNano t" using header_methods(4)[OF *(4)] *(1) by simp
    have "journal_ok E x'" if "\<forall>e \<in> set (xl_versions x). id_of e \<noteq> vh_VersionID h"
      unfolding *(6) i(2) journal_ok_def
      using insert_sound[OF mv(2) stored_entry_ok[OF assms(1) parts *(2-4) mv(1)]] that i(3,4) t mv(1) by simp
    then show ?thesis using * i by blast
  qed
  show "x' = x" if v: "Valid v" "xv_Type v \<noteq> LegacyType" "err \<noteq> None"
  proof -
    obtain h where h: "header E v = Inr h" using Valid_header[OF v(1)] by blast
    then obtain t where t: "getModTime v = Inr t" using header_methods(4) by blast
    have low: "mod_of ?sent \<le> UnixNano t" using mod_time_pos[OF v(1) parts(1) t v(2)] by simp
    show ?thesis
    proof (cases "xe_Marshal E v")
      case (Inr b)
      obtain vs where "insert_version (UnixNano t) \<lparr>sv_header = h, sv_meta = b\<rparr> (xl_versions x @ [?sent]) = Some vs"
        using insert_some[OF low] by blast
      then show ?thesis using assms(4) v h t Inr by (auto simp: addVersion_def Let_def split: if_splits)
    qed (use assms(4) v t in \<open>auto simp: addVersion_def\<close>)
  qed
qed

section \<open>Replacing a version\<close>

lemma slice_sorted_newest:
  "slice_sorted vs \<Longrightarrow> sorted_wrt (\<ge>) (map mod_of vs)"
proof (induction vs rule: slice_sorted.induct)
  case (1 a b vs)
  have "vh_ModTime (sv_header b) \<le> vh_ModTime (sv_header a)" using 1(2) by (auto simp: sortsBefore_iff not_less)
  then show ?case using 1 by (auto dest: order_trans)
qed auto

lemma sorted_newest:
  "sorted_wrt (\<lambda>a b. \<not> sortsBefore (sv_header b) (sv_header a)) vs \<Longrightarrow> sorted_wrt (\<ge>) (map mod_of vs)"
  unfolding sorted_wrt_map by (erule sorted_wrt_mono_rel[rotated]) (auto simp: sortsBefore_iff not_less)

lemma sortByModTime_ok:
  assumes "xl_env_ok E"
  shows "mset (xl_versions (sortByModTime E x)) = mset (xl_versions x) \<and> sorted_wrt (\<ge>) (map mod_of (xl_versions (sortByModTime E x)))
    \<and> xl_data (sortByModTime E x) = xl_data x \<and> xl_metaV (sortByModTime E x) = xl_metaV x"
proof -
  have "length (xl_versions x) \<le> 1 \<Longrightarrow> sorted_wrt (\<ge>) (map mod_of (xl_versions x))" by (cases "xl_versions x") auto
  then show ?thesis
    using slice_sorted_newest[of "xl_versions x"] sorted_newest[OF xl_env_okD(7)[OF assms]] xl_env_okD(6)[OF assms] by (auto simp: sortByModTime_def)
qed

text \<open>Where it succeeds, the entry is replaced, perhaps at another place; where it fails and the version marshals, nothing changed.\<close>

lemma setIdx_exact:
  assumes "xl_env_ok E" and "journal_ok E x" and "storable E v" and "Valid v" and "idx < length (xl_versions x)"
    and "setIdx E x idx v = (x', None)" and "getVersionID v = Inr (id_of (xl_versions x ! idx))"
  shows "\<exists>h b. header E v = Inr h \<and> xe_Marshal E v = Inr b
    \<and> mset (xl_versions x') = mset ((xl_versions x)[idx := \<lparr>sv_header = h, sv_meta = b\<rparr>])
    \<and> xl_data x' = xl_data x \<and> xl_metaV x' = xl_metaV x \<and> vh_VersionID h = id_of (xl_versions x ! idx) \<and> journal_ok E x'"
proof -
  have parts: "wf_version v" "canonical E v" using assms(3) by (simp_all add: storable_def)
  have mv: "xl_metaV x \<le> xlMetaVersion" and ok: "entries_sound E (xl_metaV x) (xl_versions x)" using assms(2) by (simp_all add: journal_ok_def)
  obtain h where h: "header E v = Inr h" using Valid_header[OF assms(4)] by blast
  obtain b where b: "xe_Marshal E v = Inr b" using assms(5,6) by (auto simp: setIdx_def Let_def split: sum.splits if_splits)
  let ?e = "\<lparr>sv_header = h, sv_meta = b\<rparr>" let ?x = "x\<lparr>xl_versions := (xl_versions x)[idx := ?e]\<rparr>"
  have x': "x' = (if mod_of (xl_versions x ! idx) \<noteq> vh_ModTime h then sortByModTime E ?x else ?x)"
    using assms(5,6) h b by (simp add: setIdx_def Let_def)
  have i: "vh_VersionID h = id_of (xl_versions x ! idx)" using header_methods(1)[OF h] assms(7) by simp
  have e: "entry_ok E (xl_metaV x) ?e" by (rule stored_entry_ok[OF assms(1) parts assms(4) b h mv])
  have all: "\<forall>e \<in> set ((xl_versions x)[idx := ?e]). entry_ok E (xl_metaV x) e"
    using ok e set_update_subset_insert[of "xl_versions x" idx ?e] unfolding entries_sound_def by blast
  have ids: "map id_of ((xl_versions x)[idx := ?e]) = map id_of (xl_versions x)"
    using i by (simp add: map_update) (metis assms(5) list_update_id map_update nth_map)
  have same: "mset (xl_versions x') = mset ((xl_versions x)[idx := ?e]) \<and> xl_data x' = xl_data x \<and> xl_metaV x' = xl_metaV x"
    using sortByModTime_ok[OF assms(1), of ?x] by (simp add: x')
  have sorted: "sorted_wrt (\<ge>) (map mod_of (xl_versions x'))"
  proof (cases "mod_of (xl_versions x ! idx) = vh_ModTime h")
    case True
    then have "map mod_of ((xl_versions x)[idx := ?e]) = map mod_of (xl_versions x)"
      by (simp add: map_update) (metis assms(5) list_update_id map_update nth_map)
    then show ?thesis using True ok by (simp add: x' entries_sound_def)
  qed (use sortByModTime_ok[OF assms(1), of ?x] in \<open>simp add: x'\<close>)
  have "mset (map id_of (xl_versions x')) = mset (map id_of (xl_versions x))" using same ids by (metis mset_map)
  then have "distinct (map id_of (xl_versions x'))" using ok mset_eq_imp_distinct_iff unfolding entries_sound_def by blast
  moreover have "set (xl_versions x') = set ((xl_versions x)[idx := ?e])" using same by (metis set_mset_mset)
  ultimately have "journal_ok E x'" using all sorted same mv unfolding journal_ok_def entries_sound_def by simp
  then show ?thesis
    using h b i sortByModTime_ok[OF assms(1), of ?x] by (simp add: x')
qed

text \<open>What is stored under an index.\<close>

lemma getIdx_ok:
  assumes "journal_ok E x" and "i < length (xl_versions x)"
  shows "\<exists>v. getIdx E x i = Inr v \<and> Valid v \<and> storable E v \<and> header_since E v (sv_header (xl_versions x ! i))
    \<and> xe_DataDir E (sv_meta (xl_versions x ! i)) = Inr (map_option ob_DataDir (xv_ObjectV2 v))"
proof -
  have "entry_ok E (xl_metaV x) (xl_versions x ! i)" using assms by (simp add: journal_ok_def entries_sound_def)
  then show ?thesis using assms(2) by (auto simp: entry_ok_def getIdx_def storable_def)
qed

lemma first_index_Some:
  "first_index P xs = Some i \<Longrightarrow> i < length xs \<and> P (xs ! i) \<and> (\<forall>j < i. \<not> P (xs ! j))"
proof (induction xs arbitrary: i)
  case (Cons x xs)
  then show ?case by (auto split: if_splits simp: less_Suc_eq_0_disj nth_Cons split: nat.splits)
qed simp

lemma first_index_None: "first_index P xs = None \<longleftrightarrow> (\<forall>x \<in> set xs. \<not> P x)"
  by (induction xs) auto

end
