(* ===== verification/XL_Journal_Ops.thy ===== *)
theory XL_Journal_Ops
  imports XL_Journal_Inv
begin

text \<open>
  What the operations on a journal do: each keeps the invariant, and only the entry of its version id changes. Deleting
  gives a data directory away only when no other version uses it.
\<close>

section \<open>Entries by id\<close>

definition entry_at :: "xlMetaV2 \<Rightarrow> uuid \<Rightarrow> xlMetaV2ShallowVersion option" where
  "entry_at x k = map_of (map (\<lambda>e. (id_of e, e)) (xl_versions x)) k"

lemma entry_at_iff:
  assumes "journal_ok E x"
  shows "entry_at x k = Some e \<longleftrightarrow> e \<in> set (xl_versions x) \<and> id_of e = k"
proof -
  have "distinct (map fst (map (\<lambda>e. (id_of e, e)) (xl_versions x)))"
    using assms by (simp add: journal_ok_def entries_sound_def comp_def)
  from map_of_eq_Some_iff[OF this] show ?thesis unfolding entry_at_def by auto
qed

lemma entry_at_None: "entry_at x k = None \<longleftrightarrow> (\<forall>e \<in> set (xl_versions x). id_of e \<noteq> k)"
  unfolding entry_at_def by (auto simp: map_of_eq_None_iff image_iff)

lemma entry_at_change:
  assumes "journal_ok E x" and "journal_ok E x'" and "id_of e = k"
    and "set (xl_versions x') = insert e {e' \<in> set (xl_versions x). id_of e' \<noteq> k}"
  shows "entry_at x' = (entry_at x)(k \<mapsto> e)"
proof
  fix k'
  show "entry_at x' k' = ((entry_at x)(k \<mapsto> e)) k'"
  proof (cases "k' = k")
    case True
    then show ?thesis using assms entry_at_iff[OF assms(2)] by simp
  next
    case False
    have "entry_at x' k' = Some e' \<longleftrightarrow> entry_at x k' = Some e'" for e'
      unfolding entry_at_iff[OF assms(1)] entry_at_iff[OF assms(2)] assms(4) using False assms(3) by auto
    then show ?thesis using False by (metis fun_upd_other not_Some_eq)
  qed
qed

lemma entry_at_drop:
  assumes "journal_ok E x" and "journal_ok E x'" and "set (xl_versions x') = {e' \<in> set (xl_versions x). id_of e' \<noteq> k}"
  shows "entry_at x' = (entry_at x)(k := None)"
proof
  fix k'
  have "entry_at x' k' = Some e' \<longleftrightarrow> k' \<noteq> k \<and> entry_at x k' = Some e'" for e'
    unfolding entry_at_iff[OF assms(1)] entry_at_iff[OF assms(2)] assms(3) by auto
  then show "entry_at x' k' = ((entry_at x)(k := None)) k'" by (metis fun_upd_apply not_Some_eq)
qed

lemma set_insert_at: "set (take i vs @ e # drop i vs) = insert e (set vs)"
  by (metis Un_insert_right append_take_drop_id list.simps(15) set_append)

lemma set_drop_at:
  assumes "distinct (map id_of vs)" and "i < length vs"
  shows "set (take i vs @ drop (Suc i) vs) = {e \<in> set vs. id_of e \<noteq> id_of (vs ! i)}"
proof -
  have "set vs = set (take i vs @ vs ! i # drop (Suc i) vs)" using id_take_nth_drop[OF assms(2)] by metis
  then have eq: "set vs = insert (vs ! i) (set (take i vs @ drop (Suc i) vs))" by simp
  have "e \<in> set (take i vs @ drop (Suc i) vs) \<longleftrightarrow> e \<in> set vs \<and> id_of e \<noteq> id_of (vs ! i)" for e
    unfolding eq using dropped_id[OF assms] by blast
  then show ?thesis by blast
qed

text \<open>The three changes of the list as changes of the map.\<close>

lemma drop_at_map:
  assumes "journal_ok E x" and "i < length (xl_versions x)"
  shows "journal_ok E (drop_at x i) \<and> entry_at (drop_at x i) = (entry_at x)(id_of (xl_versions x ! i) := None)"
proof -
  have d: "distinct (map id_of (xl_versions x))" using assms(1) by (simp add: journal_ok_def entries_sound_def)
  have ok: "journal_ok E (drop_at x i)" using assms(1) by (simp add: journal_ok_def drop_at_def sound_drop_at)
  have "set (xl_versions (drop_at x i)) = {e \<in> set (xl_versions x). id_of e \<noteq> id_of (xl_versions x ! i)}"
    using set_drop_at[OF d assms(2)] by (simp add: drop_at_def)
  from entry_at_drop[OF assms(1) ok this] ok show ?thesis by simp
qed

lemma addVersion_map:
  assumes "xl_env_ok E" and "journal_ok E x" and "storable E v" and "addVersion E x v = (x', None)"
    and "\<And>k. getVersionID v = Inr k \<Longrightarrow> entry_at x k = None"
  shows "\<exists>h b. Valid v \<and> header E v = Inr h \<and> xe_Marshal E v = Inr b \<and> journal_ok E x' \<and> xl_data x' = xl_data x \<and> xl_metaV x' = xl_metaV x
    \<and> entry_at x' = (entry_at x)(vh_VersionID h \<mapsto> \<lparr>sv_header = h, sv_meta = b\<rparr>)"
proof -
  from addVersion_exact(1)[OF assms(1-4) refl] obtain h b i where *: "Valid v" "header E v = Inr h" "xe_Marshal E v = Inr b"
    "x' = x\<lparr>xl_versions := take i (xl_versions x) @ \<lparr>sv_header = h, sv_meta = b\<rparr> # drop i (xl_versions x)\<rparr>"
    "(\<forall>e \<in> set (xl_versions x). id_of e \<noteq> vh_VersionID h) \<longrightarrow> journal_ok E x'" by blast
  have fresh: "\<forall>e \<in> set (xl_versions x). id_of e \<noteq> vh_VersionID h"
    using assms(5) header_methods(1)[OF *(2)] entry_at_None by blast
  then have ok: "journal_ok E x'" using *(5) by blast
  have "set (xl_versions x') = insert \<lparr>sv_header = h, sv_meta = b\<rparr> (set (xl_versions x))"
    unfolding *(4) using set_insert_at[of i "xl_versions x"] by simp
  also have "\<dots> = insert \<lparr>sv_header = h, sv_meta = b\<rparr> {e \<in> set (xl_versions x). id_of e \<noteq> vh_VersionID h}" using fresh by auto
  finally have "entry_at x' = (entry_at x)(vh_VersionID h \<mapsto> \<lparr>sv_header = h, sv_meta = b\<rparr>)"
    using entry_at_change[OF assms(2) ok, of "\<lparr>sv_header = h, sv_meta = b\<rparr>"] by simp
  then show ?thesis using * ok by simp
qed

lemma setIdx_map:
  assumes "xl_env_ok E" and "journal_ok E x" and "storable E v" and "Valid v" and "idx < length (xl_versions x)"
    and "setIdx E x idx v = (x', None)" and "getVersionID v = Inr (id_of (xl_versions x ! idx))"
  shows "\<exists>h b. header E v = Inr h \<and> xe_Marshal E v = Inr b \<and> journal_ok E x' \<and> xl_data x' = xl_data x \<and> xl_metaV x' = xl_metaV x
    \<and> vh_VersionID h = id_of (xl_versions x ! idx) \<and> entry_at x' = (entry_at x)(vh_VersionID h \<mapsto> \<lparr>sv_header = h, sv_meta = b\<rparr>)"
proof -
  from setIdx_exact[OF assms] obtain h b where *: "header E v = Inr h" "xe_Marshal E v = Inr b"
    "mset (xl_versions x') = mset ((xl_versions x)[idx := \<lparr>sv_header = h, sv_meta = b\<rparr>])"
    "xl_data x' = xl_data x" "xl_metaV x' = xl_metaV x" "vh_VersionID h = id_of (xl_versions x ! idx)" "journal_ok E x'" by blast
  have d: "distinct (map id_of (xl_versions x))" using assms(2) by (simp add: journal_ok_def entries_sound_def)
  have "set (xl_versions x') = set ((xl_versions x)[idx := \<lparr>sv_header = h, sv_meta = b\<rparr>])" using *(3) by (metis set_mset_mset)
  also have "\<dots> = insert \<lparr>sv_header = h, sv_meta = b\<rparr> (set (take idx (xl_versions x) @ drop (Suc idx) (xl_versions x)))"
    using assms(5) by (simp add: upd_conv_take_nth_drop)
  also have "set (take idx (xl_versions x) @ drop (Suc idx) (xl_versions x)) = {e \<in> set (xl_versions x). id_of e \<noteq> vh_VersionID h}"
    using set_drop_at[OF d assms(5)] *(6) by simp
  finally have "entry_at x' = (entry_at x)(vh_VersionID h \<mapsto> \<lparr>sv_header = h, sv_meta = b\<rparr>)"
    using entry_at_change[OF assms(2) *(7), of "\<lparr>sv_header = h, sv_meta = b\<rparr>"] by simp
  then show ?thesis using * by blast
qed

lemma first_index_at:
  assumes "journal_ok E x" and "first_index P (xl_versions x) = Some i" and "\<And>e. P e \<Longrightarrow> id_of e = k"
  shows "i < length (xl_versions x) \<and> P (xl_versions x ! i) \<and> id_of (xl_versions x ! i) = k \<and> entry_at x k = Some (xl_versions x ! i)"
  using first_index_Some[OF assms(2)] assms(3) by (auto simp: entry_at_iff[OF assms(1)])

section \<open>New versions can be stored\<close>

lemma fold_update_distinct: "distinct (map fst es) \<Longrightarrow> distinct (map fst (fold (\<lambda>(k, v). AList.update k v) kvs es))"
  by (induction kvs arbitrary: es) (auto simp: distinct_update)

lemma fold_update_Some:
  "map_of (fold (\<lambda>(k, v). AList.update k v) kvs es) k = Some v \<Longrightarrow> (k, v) \<in> set kvs \<or> map_of es k = Some v"
proof (induction kvs arbitrary: es)
  case (Cons kv kvs)
  then show ?case by (cases kv) (fastforce simp: update_conv split: if_splits)
qed simp

lemma bstores_wf: "wf_bytes m \<Longrightarrow> bstores m kvs = Inr m' \<Longrightarrow> wf_bytes m'"
  by (auto simp: bstores_def wf_bytes_def fold_update_distinct split: if_splits option.splits)

lemma object_entries_wf:
  "wf_bytes (fst ms) \<Longrightarrow> wf_strmap (snd ms) \<Longrightarrow> wf_bytes (fst (foldl object_entry ms kvs)) \<and> wf_strmap (snd (foldl object_entry ms kvs))"
proof (induction kvs arbitrary: ms)
  case (Cons kv kvs)
  obtain sys user k v where ms: "ms = (sys, user)" and kv: "kv = (k, v)" by (cases ms; cases kv)
  have "wf_bytes (fst (object_entry ms kv)) \<and> wf_strmap (snd (object_entry ms kv))"
    using Cons.prems ms kv by (cases sys) (auto simp: object_entry_def wf_bytes_def distinct_update)
  then show ?case using Cons.IH by simp
qed simp

lemma opt_store_wf: "wf_bytes m \<Longrightarrow> wf_bytes (opt_store b k v m)"
  by (cases m) (auto simp: opt_store_def wf_bytes_def distinct_update)

lemma clean_etags_id: "ob_PartETags ob = None \<or> list_ex (\<lambda>t. t \<noteq> []) (elems (ob_PartETags ob)) \<Longrightarrow> clean_etags ob = ob"
  by (cases ob) (auto simp: clean_etags_def list_all_iff list_ex_iff)

lemma new_version_storable:
  assumes "length uv = 16" and "length dd = 16"
  shows "storable E (new_version E fi uv dd)" and "getVersionID (new_version E fi uv dd) = Inr uv" and "xv_Type (new_version E fi uv dd) \<noteq> LegacyType"
proof -
  have "wf_object (new_object E fi uv dd)"
  proof -
    obtain sys user where su: "foldl object_entry (Some [], Some []) (xe_ord E (elems (fi_Metadata fi))) = (sys, user)" by fastforce
    have "wf_bytes sys \<and> wf_strmap user"
      using object_entries_wf[of "(Some [], Some [])" "xe_ord E (elems (fi_Metadata fi))"] by (simp add: su wf_bytes_def wf_strmap_def)
    then show ?thesis using assms by (simp add: wf_object_def new_object_def su Let_def opt_store_wf UnixNano_def)
  qed
  moreover have "ob_PartETags (new_object E fi uv dd) = (let parts = elems (fi_Parts fi) in
      if list_ex (\<lambda>p. pt_ETag p \<noteq> []) parts then Some (map pt_ETag parts) else None)"
    by (simp add: new_object_def Let_def split: prod.split)
  then have "clean_etags (new_object E fi uv dd) = new_object E fi uv dd"
    by (intro clean_etags_id) (auto simp: Let_def list_ex_iff)
  moreover have "wf_marker (new_marker fi uv)" "utc_marker E (new_marker fi uv)"
    using assms by (simp_all add: wf_marker_def new_marker_def wf_bytes_def UnixNano_def utc_marker_def bget_def)
  ultimately show "storable E (new_version E fi uv dd)"
    by (simp add: storable_def wf_version_def canonical_def new_version_def version0_def)
  show "getVersionID (new_version E fi uv dd) = Inr uv" "xv_Type (new_version E fi uv dd) \<noteq> LegacyType"
    by (simp_all add: new_version_def getVersionID_def version0_def new_marker_def new_object_def Let_def split: prod.split)
qed

lemma parse_id_length: "xl_env_ok E \<Longrightarrow> parse_id E s = Some u \<Longrightarrow> length u = 16"
  by (auto simp: parse_id_def uuid0_def xl_env_okD(10) split: if_splits)

section \<open>AddVersion\<close>

lemma AddVersion_map:
  assumes "xl_env_ok E" and "journal_ok E x" and "AddVersion E x fi0 = (x', None)"
  defines "fi \<equiv> if fi_VersionID fi0 = [] then fi0\<lparr>fi_VersionID := nullVersionID\<rparr> else fi0"
  shows "\<exists>uv dd h b. parse_id E (fi_VersionID fi) = Some uv \<and> (if fi_DataDir fi \<noteq> [] then xe_Parse E (fi_DataDir fi) = Some dd else dd = uuid0)
    \<and> Valid (new_version E fi uv dd) \<and> header E (new_version E fi uv dd) = Inr h \<and> xe_Marshal E (new_version E fi uv dd) = Inr b
    \<and> vh_VersionID h = uv \<and> journal_ok E x' \<and> entry_at x' = (entry_at x)(uv \<mapsto> \<lparr>sv_header = h, sv_meta = b\<rparr>)
    \<and> xl_data x' = (if \<not> fi_Deleted fi \<and> (elems (fi_Data fi) \<noteq> [] \<or> fi_Size fi = 0)
        then inline_replace (xe_M E) (xl_data x) (fi_VersionID fi) (elems (fi_Data fi)) else xl_data x)"
proof -
  obtain uv where uv: "parse_id E (fi_VersionID fi) = Some uv"
    using assms(3) unfolding AddVersion_def fi_def[symmetric] by (auto simp: Let_def split: option.splits)
  obtain dd where dd: "(if fi_DataDir fi \<noteq> [] then xe_Parse E (fi_DataDir fi) else Some uuid0) = Some dd"
    using assms(3) uv unfolding AddVersion_def fi_def[symmetric] by (auto simp: Let_def split: option.splits)
  have len: "length uv = 16" "length dd = 16"
    using parse_id_length[OF assms(1) uv] dd xl_env_okD(10)[OF assms(1)] by (auto simp: uuid0_def split: if_splits)
  let ?v = "new_version E fi uv dd" let ?data = "if \<not> fi_Deleted fi \<and> (elems (fi_Data fi) \<noteq> [] \<or> fi_Size fi = 0)
    then inline_replace (xe_M E) (xl_data x) (fi_VersionID fi) (elems (fi_Data fi)) else xl_data x"
  let ?x = "x\<lparr>xl_data := ?data\<rparr>"
  have step: "Valid ?v" "(case first_index (\<lambda>v. has_id uv v \<and> known_type v) (xl_versions x) of Some i \<Rightarrow> setIdx E ?x i ?v | None \<Rightarrow> addVersion E ?x ?v) = (x', None)"
    using assms(3) uv dd unfolding AddVersion_def fi_def[symmetric] by (auto simp: Let_def split: if_splits option.splits)
  have ok: "journal_ok E ?x" and at: "entry_at ?x = entry_at x"
    using assms(2) by (simp_all add: journal_ok_def entry_at_def fun_eq_iff)
  note v = new_version_storable[OF len, of E fi]
  have "\<exists>h b. header E ?v = Inr h \<and> xe_Marshal E ?v = Inr b \<and> journal_ok E x' \<and> xl_data x' = ?data \<and> vh_VersionID h = uv
      \<and> entry_at x' = (entry_at x)(uv \<mapsto> \<lparr>sv_header = h, sv_meta = b\<rparr>)"
  proof (cases "first_index (\<lambda>v. has_id uv v \<and> known_type v) (xl_versions x)")
    case None
    have "\<forall>e \<in> set (xl_versions x). known_type e" using assms(2) entry_known unfolding journal_ok_def entries_sound_def by blast
    then have "entry_at x uv = None" using None unfolding first_index_None entry_at_None by (auto simp: has_id_def)
    then show ?thesis
      using addVersion_map[OF assms(1) ok v(1), of x'] step None v(2) header_methods(1) at by fastforce
  next
    case (Some i)
    have i: "i < length (xl_versions x)" "id_of (xl_versions x ! i) = uv"
      using first_index_Some[OF Some] by (auto simp: has_id_def)
    show ?thesis
      using setIdx_map[OF assms(1) ok v(1) step(1), of i x'] step(2) Some i v(2) at by auto
  qed
  moreover have "if fi_DataDir fi \<noteq> [] then xe_Parse E (fi_DataDir fi) = Some dd else dd = uuid0" using dd by (simp split: if_splits)
  ultimately show ?thesis using uv step(1) by blast
qed

section \<open>Markers\<close>

text \<open>A reset status is not stored under the key of a time stamp.\<close>

definition resets_ok :: "FileInfo \<Rightarrow> bool" where
  "resets_ok fi \<longleftrightarrow> (\<forall>kv \<in> set (elems (rs_ResetStatusesMap (fi_ReplicationState fi))). fst kv \<notin> stamp_keys)"

lemma format_utc: "xl_env_ok E \<Longrightarrow> utc_stamp E (bytes_of (xe_FormatRFC E t))"
  by (auto simp: utc_stamp_def xl_env_okD(5) split: option.split)

lemma marker_stores_utc:
  assumes "xl_env_ok E" and "resets_ok fi" and "(k, val) \<in> set (marker_stores E fi)" and "k \<in> stamp_keys"
  shows "utc_stamp E val"
proof -
  have keys: "ReservedMetadataPrefixLower @ ReplicaStatusKey \<notin> stamp_keys" "ReservedMetadataPrefixLower @ ReplicationStatusKey \<notin> stamp_keys"
    "VersionPurgeStatusKey \<notin> stamp_keys"
    by (simp_all add: stamp_keys_def ReplicaStatusKey_def ReplicationStatusKey_def VersionPurgeStatusKey_def ReplicationTimestamp_def ReplicaTimestamp_def)
  have "fst kv \<notin> stamp_keys" if "kv \<in> set (xe_ord E (elems (rs_ResetStatusesMap (fi_ReplicationState fi))))" for kv
    using that assms(2) range_order_set[OF xl_env_okD(1)[OF assms(1)]] by (auto simp: resets_ok_def)
  then show ?thesis
    using assms(3,4) keys format_utc[OF assms(1)] by (force simp: marker_stores_def Let_def split: if_splits)
qed

lemma store_marker_ok:
  assumes "xl_env_ok E" and "resets_ok fi" and "wf_marker d" and "utc_marker E d"
  shows "wf_marker (store_marker d (marker_stores E fi)) \<and> utc_marker E (store_marker d (marker_stores E fi))"
proof -
  have "wf_bytes (Some (fold (\<lambda>(k, v). AList.update k v) (marker_stores E fi) (elems (dm_MetaSys d))))"
    using assms(3) by (simp add: wf_marker_def wf_bytes_def fold_update_distinct)
  moreover have "utc_stamp E val" if "map_of (fold (\<lambda>(k, v). AList.update k v) (marker_stores E fi) (elems (dm_MetaSys d))) k = Some val" "k \<in> stamp_keys" for k val
    using fold_update_Some[OF that(1)] marker_stores_utc[OF assms(1,2) _ that(2)] assms(4) that(2) by (auto simp: utc_marker_def bget_def)
  ultimately show ?thesis using assms(3) by (simp add: wf_marker_def store_marker_def utc_marker_def bget_def)
qed

lemma delete_entry_ok:
  assumes "xl_env_ok E" and "resets_ok fi" and "fi_Deleted fi" and "length uv = 16"
  shows "storable E (delete_entry E fi uv)" and "getVersionID (delete_entry E fi uv) = Inr uv" and "xv_Type (delete_entry E fi uv) = DeleteType"
    and "Valid (delete_entry E fi uv) \<longleftrightarrow> Valid (version0\<lparr>xv_Type := DeleteType, xv_DeleteMarker := Some (new_marker fi uv)\<rparr>)"
proof -
  have "wf_marker (new_marker fi uv)" "utc_marker E (new_marker fi uv)"
    using assms(4) by (simp_all add: wf_marker_def new_marker_def wf_bytes_def UnixNano_def utc_marker_def bget_def)
  from store_marker_ok[OF assms(1,2) this] show "storable E (delete_entry E fi uv)"
    using assms(3) by (simp add: storable_def wf_version_def canonical_def delete_entry_def version0_def)
  show "getVersionID (delete_entry E fi uv) = Inr uv" "xv_Type (delete_entry E fi uv) = DeleteType"
    using assms(3) by (simp_all add: delete_entry_def getVersionID_def version0_def store_marker_def new_marker_def)
  show "Valid (delete_entry E fi uv) \<longleftrightarrow> Valid (version0\<lparr>xv_Type := DeleteType, xv_DeleteMarker := Some (new_marker fi uv)\<rparr>)"
    using assms(3) by (simp add: delete_entry_def Valid_def version0_def store_marker_def)
qed

lemma Valid_types:
  "xv_Type v = ObjectType \<Longrightarrow> Valid v \<longleftrightarrow> (case xv_ObjectV2 v of None \<Rightarrow> False | Some ob \<Rightarrow> ErasureAlgo_valid (ob_ErasureAlgorithm ob)
     \<and> ChecksumAlgo_valid (ob_BitrotChecksumAlgo ob) \<and> isXLMetaErasureInfoValid (ob_ErasureM ob) (ob_ErasureN ob) \<and> ob_ModTime ob > 0)"
  "xv_Type v = DeleteType \<Longrightarrow> Valid v \<longleftrightarrow> (case xv_DeleteMarker v of None \<Rightarrow> False | Some d \<Rightarrow> dm_ModTime d > 0)"
  by (simp_all add: Valid_def VersionType_valid_def)

lemma Valid_marker:
  assumes "storable E v" and "Valid v" and "xv_Type v = DeleteType"
  obtains d where "xv_DeleteMarker v = Some d" and "wf_marker d" and "utc_marker E d"
  using assms Valid_types(2)[OF assms(3)] by (cases "xv_DeleteMarker v") (auto simp: storable_def wf_version_def canonical_def)

lemma Valid_object:
  assumes "storable E v" and "Valid v" and "xv_Type v = ObjectType"
  obtains ob where "xv_ObjectV2 v = Some ob" and "wf_object ob" and "clean_etags ob = ob" and "ob_ModTime ob > 0"
  using assms Valid_types(1)[OF assms(3)] by (cases "xv_ObjectV2 v") (auto simp: storable_def wf_version_def canonical_def)

text \<open>An object whose metadata are replaced.\<close>

lemma object_again:
  assumes "storable E v" and "Valid v" and "xv_Type v = ObjectType" and "xv_ObjectV2 v = Some ob"
    and "ob' = ob\<lparr>ob_MetaSys := sys, ob_MetaUser := user, ob_ModTime := t\<rparr>" and "wf_bytes sys" and "wf_strmap user" and "t > 0" and "is_int64 t"
  shows "storable E (v\<lparr>xv_ObjectV2 := Some ob'\<rparr>)" and "Valid (v\<lparr>xv_ObjectV2 := Some ob'\<rparr>)"
    and "getVersionID (v\<lparr>xv_ObjectV2 := Some ob'\<rparr>) = Inr (ob_VersionID ob)"
proof -
  obtain ob2 where ob2: "xv_ObjectV2 v = Some ob2" "wf_object ob2" "clean_etags ob2 = ob2" by (rule Valid_object[OF assms(1-3)])
  then have ob: "wf_object ob" "clean_etags ob = ob" using assms(4) by simp_all
  have "clean_etags ob' = ob'" using ob(2) unfolding assms(5) by (cases ob) (auto simp: clean_etags_def split: if_splits)
  then show "storable E (v\<lparr>xv_ObjectV2 := Some ob'\<rparr>)"
    using assms(1,6,7,9) ob by (simp add: storable_def wf_version_def canonical_def wf_object_def assms(5))
  show "Valid (v\<lparr>xv_ObjectV2 := Some ob'\<rparr>)" using assms(2-4,8) by (simp add: Valid_types(1) assms(5))
  show "getVersionID (v\<lparr>xv_ObjectV2 := Some ob'\<rparr>) = Inr (ob_VersionID ob)" using assms(3) by (simp add: getVersionID_def assms(5))
qed

lemma tier_entries:
  fixes ks :: "string set"
  assumes "distinct (map fst m)"
  shows "distinct (map fst (foldl (\<lambda>m (k, v). if k \<in> ks then AList.update k v m else m) m kvs))
    \<and> fst ` set (foldl (\<lambda>m (k, v). if k \<in> ks then AList.update k v m else m) m kvs) \<subseteq> fst ` set m \<union> ks"
  using assms
proof (induction kvs arbitrary: m)
  case (Cons kv kvs)
  obtain k v where kv: "kv = (k, v)" by fastforce
  show ?case
  proof (cases "k \<in> ks")
    case True
    have "fst ` set (AList.update k v m) = insert k (fst ` set m)" by (simp add: dom_update)
    then show ?thesis using Cons.IH[of "AList.update k v m"] Cons.prems True by (auto simp: kv distinct_update)
  next
    case False
    then show ?thesis using Cons by (simp add: kv)
  qed
qed simp

lemma free_version_ok:
  assumes "xl_env_ok E" and "InitFreeVersion E ob fi = Inr (Some v)" and "wf_object ob" and "ob_ModTime ob > 0"
  shows "storable E v" and "Valid v" and "xv_Type v = DeleteType" and "\<exists>u. xe_Parse E (TierFreeVersionID fi) = Some u \<and> getVersionID v = Inr u"
proof -
  let ?keys = "{ReservedMetadataPrefixLower @ TransitionTier, ReservedMetadataPrefixLower @ TransitionedObjectName,
    ReservedMetadataPrefixLower @ TransitionedVersionID}"
  let ?m = "foldl (\<lambda>m (k, v). if k \<in> ?keys then AList.update k v m else m) [(ReservedMetadataPrefixLower @ freeVersion, [])] (xe_bord E (elems (ob_MetaSys ob)))"
  obtain u where u: "xe_Parse E (TierFreeVersionID fi) = Some u"
    and v: "v = version0\<lparr>xv_Type := DeleteType, xv_WrittenByVersion := xe_VersionUnix E,
      xv_DeleteMarker := Some \<lparr>dm_VersionID = u, dm_ModTime = ob_ModTime ob, dm_MetaSys = Some ?m\<rparr>\<rparr>"
    using assms(2) by (auto simp: InitFreeVersion_def Let_def split: if_splits option.splits)
  have single: "distinct (map fst [(ReservedMetadataPrefixLower @ freeVersion, [] :: byte list)])" by simp
  have m: "distinct (map fst ?m)" "fst ` set ?m \<subseteq> fst ` set [(ReservedMetadataPrefixLower @ freeVersion, [] :: byte list)] \<union> ?keys"
    using tier_entries[OF single, of ?keys "xe_bord E (elems (ob_MetaSys ob))"] by blast+
  have "insert (ReservedMetadataPrefixLower @ freeVersion) ?keys \<inter> stamp_keys = {}"
    by (simp add: stamp_keys_def freeVersion_def TransitionTier_def TransitionedObjectName_def TransitionedVersionID_def
        ReplicationTimestamp_def ReplicaTimestamp_def)
  then have "map_of ?m k = None" if "k \<in> stamp_keys" for k using m(2) that unfolding map_of_eq_None_iff by fastforce
  then have "utc_marker E \<lparr>dm_VersionID = u, dm_ModTime = ob_ModTime ob, dm_MetaSys = Some ?m\<rparr>" by (auto simp: utc_marker_def bget_def)
  moreover have "wf_marker \<lparr>dm_VersionID = u, dm_ModTime = ob_ModTime ob, dm_MetaSys = Some ?m\<rparr>"
    using m(1) xl_env_okD(10)[OF assms(1) u] assms(3) by (simp add: wf_marker_def wf_bytes_def wf_object_def)
  ultimately show "storable E v" unfolding v by (simp add: storable_def wf_version_def canonical_def version0_def)
  show "Valid v" "xv_Type v = DeleteType" using assms(4) unfolding v by (simp_all add: Valid_def version0_def VersionType_valid_def)
  show "\<exists>u. xe_Parse E (TierFreeVersionID fi) = Some u \<and> getVersionID v = Inr u"
    using u unfolding v by (simp add: getVersionID_def version0_def)
qed

section \<open>Deleting\<close>

text \<open>The caller takes a new id for a free version, and does not ask for a marker together with an expiry or a transition.\<close>

definition free_id :: "xl_env \<Rightarrow> FileInfo \<Rightarrow> uuid option" where
  "free_id E fi = xe_Parse E (TierFreeVersionID fi)"

definition fresh_free :: "xl_env \<Rightarrow> xlMetaV2 \<Rightarrow> FileInfo \<Rightarrow> bool" where
  "fresh_free E x fi \<longleftrightarrow> (\<forall>u. free_id E fi = Some u \<longrightarrow> entry_at x u = None)"

definition keeps_object :: "FileInfo \<Rightarrow> bool" where
  "keeps_object fi \<longleftrightarrow> fi_ExpireRestored fi \<or> fi_TransitionStatus fi = TransitionComplete"

lemma mdelete_wf: "wf_strmap m \<Longrightarrow> wf_strmap (mdelete m k)"
  by (cases m) (auto simp: wf_strmap_def mdelete_def distinct_delete)

lemma bdelete_wf: "wf_bytes m \<Longrightarrow> wf_bytes (bdelete m k)"
  by (cases m) (auto simp: wf_bytes_def bdelete_def distinct_delete)

text \<open>Replacing the object of an entry that was read.\<close>

lemma set_object:
  assumes "xl_env_ok E" and "journal_ok E x" and "i < length (xl_versions x)" and "getIdx E x i = Inr v" and "xv_Type v = ObjectType"
    and "xv_ObjectV2 v = Some ob" and "ob' = ob\<lparr>ob_MetaSys := sys, ob_MetaUser := user, ob_ModTime := t\<rparr>" and "wf_bytes sys" and "wf_strmap user"
    and "t > 0" and "is_int64 t" and "setIdx E x i (v\<lparr>xv_ObjectV2 := Some ob'\<rparr>) = (x', None)"
  shows "\<exists>e. journal_ok E x' \<and> xl_data x' = xl_data x \<and> entry_at x' = (entry_at x)(id_of (xl_versions x ! i) \<mapsto> e)
    \<and> header E (v\<lparr>xv_ObjectV2 := Some ob'\<rparr>) = Inr (sv_header e)"
proof -
  obtain w where w: "getIdx E x i = Inr w" "Valid w" "storable E w" "header_since E w (sv_header (xl_versions x ! i))"
    using getIdx_ok[OF assms(2,3)] by blast
  then have v: "Valid v" "storable E v" "header_since E v (sv_header (xl_versions x ! i))" using assms(4) by simp_all
  note n = object_again[OF v(2,1) assms(5-11)]
  have id: "getVersionID (v\<lparr>xv_ObjectV2 := Some ob'\<rparr>) = Inr (id_of (xl_versions x ! i))"
    using n(3) header_since_methods(1)[OF v(3)] assms(5,6) by (simp add: getVersionID_def)
  from setIdx_map[OF assms(1,2) n(1,2) assms(3,12) id] obtain h b where "header E (v\<lparr>xv_ObjectV2 := Some ob'\<rparr>) = Inr h" "journal_ok E x'"
    "xl_data x' = xl_data x" "vh_VersionID h = id_of (xl_versions x ! i)" "entry_at x' = (entry_at x)(vh_VersionID h \<mapsto> \<lparr>sv_header = h, sv_meta = b\<rparr>)" by blast
  then show ?thesis by (intro exI[of _ "\<lparr>sv_header = h, sv_meta = b\<rparr>"]) simp
qed

text \<open>What stays as it was: the data, and every entry but that of the version and of the free version.\<close>

definition only_changes :: "xl_env \<Rightarrow> FileInfo \<Rightarrow> uuid \<Rightarrow> xlMetaV2 \<Rightarrow> xlMetaV2 \<Rightarrow> bool" where
  "only_changes E fi uv x x' \<longleftrightarrow> journal_ok E x' \<and> xl_data x' = xl_data x
     \<and> (\<forall>k. k \<noteq> uv \<and> free_id E fi \<noteq> Some k \<longrightarrow> entry_at x' k = entry_at x k)"

lemma change_object_ok:
  assumes "xl_env_ok E" and "journal_ok E x" and "i < length (xl_versions x)" and "getIdx E x i = Inr v" and "xv_ObjectV2 v = Some ob"
    and "vh_Type (sv_header (xl_versions x ! i)) = ObjectType" and "id_of (xl_versions x ! i) = uv" and "fresh_free E x fi"
    and "keeps_object fi \<Longrightarrow> \<forall>v. \<exists>b. xe_Marshal E v = Inr b" and "change_object E x fi i v ob = (x1, err)" and "\<not> panics err"
  shows "only_changes E fi uv x x1" and "\<not> keeps_object fi \<Longrightarrow> entry_at x1 uv = None \<and> (\<forall>k. free_id E fi \<noteq> Some k \<longrightarrow> entry_at x1 k = ((entry_at x)(uv := None)) k)"
proof -
  obtain w where w: "getIdx E x i = Inr w" "Valid w" "storable E w" "header_since E w (sv_header (xl_versions x ! i))"
    using getIdx_ok[OF assms(2,3)] by blast
  then have v: "Valid v" "storable E v" "header_since E v (sv_header (xl_versions x ! i))" using assms(4) by simp_all
  have ty: "xv_Type v = ObjectType" using header_since_methods(2)[OF v(3)] assms(6) by simp
  obtain ob2 where "xv_ObjectV2 v = Some ob2" "wf_object ob2" "ob_ModTime ob2 > 0" by (rule Valid_object[OF v(2,1) ty])
  then have ob: "wf_object ob" "ob_ModTime ob > 0" using assms(5) by simp_all
  have set: "only_changes E fi uv x x1"
    if s: "setIdx E x i (v\<lparr>xv_ObjectV2 := Some (ob\<lparr>ob_MetaSys := sys, ob_MetaUser := user, ob_ModTime := ob_ModTime ob\<rparr>)\<rparr>) = (x1, err)"
      and ws: "wf_bytes sys" and wu: "wf_strmap user" and k: "keeps_object fi" for sys user
  proof -
    let ?v = "v\<lparr>xv_ObjectV2 := Some (ob\<lparr>ob_MetaSys := sys, ob_MetaUser := user, ob_ModTime := ob_ModTime ob\<rparr>)\<rparr>"
    have n: "Valid ?v" by (rule object_again(2)[OF v(2,1) ty assms(5) refl ws wu ob(2)]) (use ob(1) in \<open>simp add: wf_object_def\<close>)
    obtain h b where "header E ?v = Inr h" "xe_Marshal E ?v = Inr b" using Valid_header[OF n] assms(9)[OF k] by blast
    then have "err = None" using s assms(3) by (simp add: setIdx_def Let_def)
    with s have "setIdx E x i ?v = (x1, None)" by simp
    from set_object[OF assms(1-4) ty assms(5) refl ws wu ob(2) _ this] ob(1) assms(7) show ?thesis
      by (auto simp: only_changes_def wf_object_def)
  qed
  have drop: "journal_ok E (drop_at x i)" "entry_at (drop_at x i) = (entry_at x)(uv := None)" "xl_data (drop_at x i) = xl_data x"
    using drop_at_map[OF assms(2,3)] assms(7) by (simp_all add: drop_at_def)
  have gone: "only_changes E fi uv x x1 \<and> entry_at x1 uv = None \<and> (\<forall>k. free_id E fi \<noteq> Some k \<longrightarrow> entry_at x1 k = ((entry_at x)(uv := None)) k)"
    if no: "\<not> keeps_object fi"
  proof (cases "x1 = drop_at x i")
    case True
    then show ?thesis using drop by (simp add: only_changes_def)
  next
    case False
    then obtain free where f: "InitFreeVersion E ob fi = Inr (Some free)" "addVersion E (drop_at x i) free = (x1, err)"
      using assms(10) no by (auto simp: change_object_def keeps_object_def split: sum.splits option.splits)
    note fv = free_version_ok[OF assms(1) f(1) ob]
    obtain u where u: "free_id E fi = Some u" "getVersionID free = Inr u" using fv(4) by (auto simp: free_id_def)
    have u': "entry_at x u = None" using assms(8) u(1) by (simp add: fresh_free_def)
    have "err = None" using addVersion_exact(2)[OF assms(1) drop(1) fv(1) f(2) fv(2)] fv(3) False by fastforce
    then have add: "addVersion E (drop_at x i) free = (x1, None)" using f(2) by simp
    have "entry_at (drop_at x i) k = None" if "getVersionID free = Inr k" for k using that u(2) u' drop(2) by simp
    from addVersion_map[OF assms(1) drop(1) fv(1) add this] obtain h b where h: "header E free = Inr h" "journal_ok E x1" "xl_data x1 = xl_data (drop_at x i)"
      "entry_at x1 = (entry_at (drop_at x i))(vh_VersionID h \<mapsto> \<lparr>sv_header = h, sv_meta = b\<rparr>)" by blast
    have hu: "vh_VersionID h = u" using header_methods(1)[OF h(1)] u(2) by simp
    have "entry_at x uv = Some (xl_versions x ! i)" using entry_at_iff[OF assms(2)] assms(3,7) by simp
    then have "u \<noteq> uv" using u' by auto
    then show ?thesis using h hu drop u(1) by (simp add: only_changes_def)
  qed
  then show "\<not> keeps_object fi \<Longrightarrow> entry_at x1 uv = None \<and> (\<forall>k. free_id E fi \<noteq> Some k \<longrightarrow> entry_at x1 k = ((entry_at x)(uv := None)) k)" by blast
  show "only_changes E fi uv x x1"
  proof (cases "keeps_object fi")
    case True
    show ?thesis
    proof (cases "fi_ExpireRestored fi")
      case yes: True
      let ?ob = "ob\<lparr>ob_MetaSys := ob_MetaSys ob, ob_MetaUser := ob_MetaUser (RemoveRestoreHdrs ob), ob_ModTime := ob_ModTime ob\<rparr>"
      have eq: "?ob = RemoveRestoreHdrs ob" by (cases ob) (simp add: RemoveRestoreHdrs_def)
      have "setIdx E x i (v\<lparr>xv_ObjectV2 := Some ?ob\<rparr>) = (x1, err)" unfolding eq using assms(10) yes by (simp add: change_object_def)
      moreover have "wf_bytes (ob_MetaSys ob)" "wf_strmap (ob_MetaUser (RemoveRestoreHdrs ob))"
        using ob(1) by (simp_all add: RemoveRestoreHdrs_def mdelete_wf wf_object_def)
      ultimately show ?thesis using set True by blast
    next
      case no: False
      then have ch: "change_object E x fi i v ob = (case SetTransition ob fi of Inl e \<Rightarrow> (x, Some e)
          | Inr ob' \<Rightarrow> setIdx E x i (v\<lparr>xv_ObjectV2 := Some (ob_ResetInlineData ob')\<rparr>))"
        using True by (simp add: change_object_def keeps_object_def)
      obtain ob' where ob': "SetTransition ob fi = Inr ob'"
      proof (cases "SetTransition ob fi")
        case (Inl e)
        then have "panics err" using ch assms(10) by (auto simp: SetTransition_def bstores_def panics_def split: option.splits if_splits)
        then show ?thesis using assms(11) by simp
      qed
      with ch assms(10) have ob'2: "setIdx E x i (v\<lparr>xv_ObjectV2 := Some (ob_ResetInlineData ob')\<rparr>) = (x1, err)" by simp
      obtain m where m: "wf_bytes m" "ob' = ob\<lparr>ob_MetaSys := m\<rparr>"
        using ob' ob(1) bstores_wf by (auto simp: SetTransition_def wf_object_def split: sum.splits)
      let ?ob = "ob\<lparr>ob_MetaSys := bdelete m (ReservedMetadataPrefixLower @ ''inline-data''), ob_MetaUser := ob_MetaUser ob, ob_ModTime := ob_ModTime ob\<rparr>"
      have eq: "?ob = ob_ResetInlineData ob'" by (cases ob) (simp add: ob_ResetInlineData_def m(2))
      have "setIdx E x i (v\<lparr>xv_ObjectV2 := Some ?ob\<rparr>) = (x1, err)" unfolding eq by (rule ob'2)
      moreover have "wf_bytes (bdelete m (ReservedMetadataPrefixLower @ ''inline-data''))" "wf_strmap (ob_MetaUser ob)"
        using ob(1) m(1) by (simp_all add: bdelete_wf wf_object_def)
      ultimately show ?thesis using set True by blast
    qed
  qed (use gone in blast)
qed

text \<open>A marker is added under an id that is free.\<close>

definition marker_entry :: "xl_env \<Rightarrow> xlMetaV2 \<Rightarrow> uuid \<Rightarrow> bool" where
  "marker_entry E x uv \<longleftrightarrow> (case entry_at x uv of None \<Rightarrow> True | Some e \<Rightarrow> vh_Type (sv_header e) = DeleteType)"

lemma add_marker:
  assumes "xl_env_ok E" and "journal_ok E x" and "resets_ok fi" and "length uv = 16" and "entry_at x uv = None"
    and "fi_Deleted fi \<longrightarrow> Valid (version0\<lparr>xv_Type := DeleteType, xv_DeleteMarker := Some (new_marker fi uv)\<rparr>)"
    and "add_if b E x (delete_entry E fi uv) err0 = (x', err)" and "err = None \<or> fi_Deleted fi \<or> \<not> b"
  shows "journal_ok E x' \<and> xl_data x' = xl_data x \<and> (\<forall>k. k \<noteq> uv \<longrightarrow> entry_at x' k = entry_at x k) \<and> marker_entry E x' uv
    \<and> (\<not> b \<longrightarrow> x' = x)"
proof (cases b)
  case True
  then have add: "addVersion E x (delete_entry E fi uv) = (x', err)" using assms(7) by (simp add: add_if_def)
  have del: "fi_Deleted fi"
  proof (rule ccontr)
    assume no: "\<not> fi_Deleted fi"
    then have "err \<noteq> None" using add
      by (auto simp: delete_entry_def addVersion_def Valid_def version0_def VersionType_valid_def getModTime_def split: sum.splits if_splits)
    then show False using assms(8) True no by simp
  qed
  note d = delete_entry_ok[OF assms(1,3) del assms(4)]
  have v: "Valid (delete_entry E fi uv)" using assms(6) d(4) del by simp
  show ?thesis
  proof (cases err)
    case None
    have free: "entry_at x k = None" if "getVersionID (delete_entry E fi uv) = Inr k" for k using that d(2) assms(5) by simp
    from addVersion_map[OF assms(1,2) d(1) add[unfolded None] free] obtain h b where h: "header E (delete_entry E fi uv) = Inr h" "journal_ok E x'"
      "xl_data x' = xl_data x" "entry_at x' = (entry_at x)(vh_VersionID h \<mapsto> \<lparr>sv_header = h, sv_meta = b\<rparr>)" by blast
    have "vh_VersionID h = uv" "vh_Type h = DeleteType" using header_methods(1,3)[OF h(1)] d(2,3) by simp_all
    then show ?thesis using h True by (simp add: marker_entry_def)
  next
    case (Some e)
    then have "x' = x" using addVersion_exact(2)[OF assms(1,2) d(1) add v] d(3) by simp
    then show ?thesis using assms(2,5) by (simp add: marker_entry_def)
  qed
qed (use assms in \<open>simp add: add_if_def marker_entry_def\<close>)

lemma dropped_then_marked:
  assumes "xl_env_ok E" and "journal_ok E x" and "resets_ok fi" and "length uv = 16" and "i < length (xl_versions x)" and "id_of (xl_versions x ! i) = uv"
    and "fi_Deleted fi \<longrightarrow> Valid (version0\<lparr>xv_Type := DeleteType, xv_DeleteMarker := Some (new_marker fi uv)\<rparr>)"
    and "add_if b E (drop_at x i) (delete_entry E fi uv) None = (x', None)"
  shows "only_changes E fi uv x x' \<and> marker_entry E x' uv \<and> (\<not> b \<longrightarrow> entry_at x' uv = None)"
proof -
  have drop: "journal_ok E (drop_at x i)" "entry_at (drop_at x i) = (entry_at x)(uv := None)" "xl_data (drop_at x i) = xl_data x"
    using drop_at_map[OF assms(2,5)] assms(6) by (simp_all add: drop_at_def)
  then have "entry_at (drop_at x i) uv = None" by simp
  from add_marker[OF assms(1) drop(1) assms(3,4) this assms(7,8)] show ?thesis using drop by (simp add: only_changes_def)
qed

lemma delete_legacy_ok:
  assumes "xl_env_ok E" and "journal_ok E x" and "resets_ok fi" and "length uv = 16" and "i < length (xl_versions x)" and "id_of (xl_versions x ! i) = uv"
    and "fi_Deleted fi \<longrightarrow> Valid (version0\<lparr>xv_Type := DeleteType, xv_DeleteMarker := Some (new_marker fi uv)\<rparr>)"
    and "delete_legacy E x fi (delete_entry E fi uv) i = (x', d, None)"
  shows "only_changes E fi uv x x' \<and> marker_entry E x' uv \<and> (\<not> fi_Deleted fi \<longrightarrow> entry_at x' uv = None)"
proof -
  have "add_if (fi_Deleted fi) E (drop_at x i) (delete_entry E fi uv) None = (x', None)"
    using assms(8) by (auto simp: delete_legacy_def split: sum.splits prod.splits)
  from dropped_then_marked[OF assms(1-7) this] show ?thesis .
qed

lemma delete_marker_ok:
  assumes "xl_env_ok E" and "journal_ok E x" and "resets_ok fi" and "length uv = 16" and "i < length (xl_versions x)" and "id_of (xl_versions x ! i) = uv"
    and "fi_Deleted fi \<longrightarrow> Valid (version0\<lparr>xv_Type := DeleteType, xv_DeleteMarker := Some (new_marker fi uv)\<rparr>)"
    and "vh_Type (sv_header (xl_versions x ! i)) = DeleteType" and "delete_marker E x fi uv (delete_entry E fi uv) i = (x', d, None)"
  shows "only_changes E fi uv x x' \<and> marker_entry E x' uv
    \<and> (\<not> fi_Deleted fi \<longrightarrow> \<not> update_version E fi \<longrightarrow> \<not> fi_MarkDeleted fi \<longrightarrow> entry_at x' uv = None)"
proof (cases "update_version E fi")
  case True
  obtain v where v: "getIdx E x i = Inr v" "Valid v" "storable E v" "header_since E v (sv_header (xl_versions x ! i))"
    using getIdx_ok[OF assms(2,5)] by blast
  have ty: "xv_Type v = DeleteType" using header_since_methods(2)[OF v(4)] assms(8) by simp
  obtain dm where dm: "xv_DeleteMarker v = Some dm" "wf_marker dm" "utc_marker E dm" by (rule Valid_marker[OF v(3,2) ty])
  let ?dm = "store_marker dm (marker_stores E fi)" let ?v = "v\<lparr>xv_DeleteMarker := Some ?dm\<rparr>"
  have set: "setIdx E x i ?v = (x', None)"
    using assms(9) v(1) dm(1) True by (auto simp: delete_marker_def deref_def split: prod.splits)
  have val: "Valid ?v" using v(2) ty dm(1) by (simp add: Valid_types(2) store_marker_def)
  have sto: "storable E ?v" using v(3) store_marker_ok[OF assms(1,3) dm(2,3)] by (simp add: storable_def wf_version_def canonical_def)
  have id: "getVersionID ?v = Inr (id_of (xl_versions x ! i))"
    using header_since_methods(1)[OF v(4)] ty dm(1) by (simp add: getVersionID_def store_marker_def)
  from setIdx_map[OF assms(1,2) sto val assms(5) set id] obtain h b where h: "header E ?v = Inr h" "journal_ok E x'" "xl_data x' = xl_data x"
    "vh_VersionID h = id_of (xl_versions x ! i)" "entry_at x' = (entry_at x)(vh_VersionID h \<mapsto> \<lparr>sv_header = h, sv_meta = b\<rparr>)" by blast
  have "vh_Type h = DeleteType" using header_methods(3)[OF h(1)] ty by simp
  then show ?thesis using h assms(6) True by (simp add: only_changes_def marker_entry_def)
next
  case False
  let ?purge = "FileInfo_VersionPurgeStatus (xe_ord E) fi"
  let ?b = "(fi_MarkDeleted fi \<and> (?purge = [] \<or> ?purge \<noteq> VersionPurgeComplete)) \<or> (fi_Deleted fi \<and> xe_String E uv = emptyUUID)"
  have "add_if ?b E (drop_at x i) (delete_entry E fi uv) None = (x', None)"
    using assms(9) False by (auto simp: delete_marker_def Let_def split: prod.splits)
  from dropped_then_marked[OF assms(1-7) this] show ?thesis by blast
qed

end
