(* ===== verification/XL_Journal_Delete.thy ===== *)
theory XL_Journal_Delete
  imports XL_Journal_Ops
begin

text \<open>
  \<open>DeleteVersion\<close> as a whole, the other operations that change a journal, and the journals they reach from an empty one.
\<close>

section \<open>Objects\<close>

lemma object_read:
  assumes "journal_ok E x" and "i < length (xl_versions x)" and "getIdx E x i = Inr v" and "vh_Type (sv_header (xl_versions x ! i)) = ObjectType"
  obtains ob where "xv_Type v = ObjectType" and "xv_ObjectV2 v = Some ob" and "wf_object ob" and "ob_ModTime ob > 0"
    and "ob_VersionID ob = id_of (xl_versions x ! i)" and "xe_DataDir E (sv_meta (xl_versions x ! i)) = Inr (Some (ob_DataDir ob))"
proof -
  obtain w where "getIdx E x i = Inr w" "Valid w" "storable E w" "header_since E w (sv_header (xl_versions x ! i))"
    "xe_DataDir E (sv_meta (xl_versions x ! i)) = Inr (map_option ob_DataDir (xv_ObjectV2 w))"
    using getIdx_ok[OF assms(1,2)] by blast
  then have v: "Valid v" "storable E v" "header_since E v (sv_header (xl_versions x ! i))"
    "xe_DataDir E (sv_meta (xl_versions x ! i)) = Inr (map_option ob_DataDir (xv_ObjectV2 v))" using assms(3) by simp_all
  have ty: "xv_Type v = ObjectType" using header_since_methods(2)[OF v(3)] assms(4) by simp
  obtain ob where ob: "xv_ObjectV2 v = Some ob" "wf_object ob" "ob_ModTime ob > 0" by (rule Valid_object[OF v(2,1) ty])
  have "ob_VersionID ob = id_of (xl_versions x ! i)" using header_since_methods(1)[OF v(3)] ty ob(1) by (simp add: getVersionID_def)
  then show ?thesis using that ty ob v(4) by simp
qed

lemma purge_object_ok:
  assumes "xl_env_ok E" and "journal_ok E x" and "i < length (xl_versions x)" and "id_of (xl_versions x ! i) = uv"
    and "vh_Type (sv_header (xl_versions x ! i)) = ObjectType" and "purge_object E x fi i = (x', d, None)"
  shows "only_changes E fi uv x x'"
proof -
  obtain v where v: "getIdx E x i = Inr v" using getIdx_ok[OF assms(2,3)] by blast
  obtain ob where ob: "xv_Type v = ObjectType" "xv_ObjectV2 v = Some ob" "wf_object ob" "ob_ModTime ob > 0"
    by (rule object_read[OF assms(2,3) v assms(5)])
  obtain m where m: "bstores (ob_MetaSys ob) (purge_stores E fi) = Inr m" and set0: "setIdx E x i (v\<lparr>xv_ObjectV2 := Some (ob\<lparr>ob_MetaSys := m\<rparr>)\<rparr>) = (x', None)"
    using assms(6) v ob(2) by (cases "bstores (ob_MetaSys ob) (purge_stores E fi)") (auto simp: purge_object_def deref_def unnest_def split: prod.splits)
  let ?ob = "ob\<lparr>ob_MetaSys := m, ob_MetaUser := ob_MetaUser ob, ob_ModTime := ob_ModTime ob\<rparr>"
  have "?ob = ob\<lparr>ob_MetaSys := m\<rparr>" by (cases ob) simp
  then have set: "setIdx E x i (v\<lparr>xv_ObjectV2 := Some ?ob\<rparr>) = (x', None)" using set0 by simp
  have wf: "wf_bytes m" "wf_strmap (ob_MetaUser ob)" "is_int64 (ob_ModTime ob)" using ob(3) m bstores_wf by (auto simp: wf_object_def)
  from set_object[OF assms(1-3) v ob(1,2) refl wf(1,2) ob(4) wf(3) set] assms(4) show ?thesis by (auto simp: only_changes_def)
qed

lemma delete_object_cases:
  assumes "delete_object E x fi ventry i = (x', d, None)" and "getIdx E x i = Inr v" and "xv_ObjectV2 v = Some ob"
  obtains x1 err1 err where "change_object E x fi i v ob = (x1, err1)" and "\<not> panics err1"
    and "add_if (fi_Deleted fi) E x1 ventry err1 = (x', err)" and "\<not> panics err"
    and "SharedDataDirCount E x' (ob_VersionID ob) (ob_DataDir ob) > 0 \<and> d = []
      \<or> SharedDataDirCount E x' (ob_VersionID ob) (ob_DataDir ob) = 0 \<and> err = None \<and> d = xe_String E (ob_DataDir ob)"
proof -
  obtain x1 err1 where c: "change_object E x fi i v ob = (x1, err1)" by fastforce
  then have p1: "\<not> panics err1" using assms by (auto simp: delete_object_def panics_def)
  obtain x2 err where a: "add_if (fi_Deleted fi) E x1 ventry err1 = (x2, err)" by fastforce
  have p2: "\<not> panics err" using assms c p1 a by (auto simp: delete_object_def panics_def split: if_splits)
  from assms c p1 a p2 have "x2 = x'" "SharedDataDirCount E x' (ob_VersionID ob) (ob_DataDir ob) > 0 \<and> d = []
      \<or> SharedDataDirCount E x' (ob_VersionID ob) (ob_DataDir ob) = 0 \<and> err = None \<and> d = xe_String E (ob_DataDir ob)"
    by (auto simp: delete_object_def split: if_splits)
  then show ?thesis using that c p1 a p2 by blast
qed

text \<open>The caller does not ask for a marker together with an expiry or a transition, and what keeps the object marshals.\<close>

definition delete_allowed :: "xl_env \<Rightarrow> xlMetaV2 \<Rightarrow> FileInfo \<Rightarrow> bool" where
  "delete_allowed E x fi \<longleftrightarrow> resets_ok fi \<and> fresh_free E x fi \<and> (fi_Deleted fi \<longrightarrow> \<not> keeps_object fi)
     \<and> (keeps_object fi \<longrightarrow> (\<forall>v. \<exists>b. xe_Marshal E v = Inr b))"

lemma delete_object_ok:
  assumes "xl_env_ok E" and "journal_ok E x" and "delete_allowed E x fi" and "length uv = 16" and "i < length (xl_versions x)"
    and "id_of (xl_versions x ! i) = uv" and "vh_Type (sv_header (xl_versions x ! i)) = ObjectType"
    and "fi_Deleted fi \<longrightarrow> Valid (version0\<lparr>xv_Type := DeleteType, xv_DeleteMarker := Some (new_marker fi uv)\<rparr>)"
    and "delete_object E x fi (delete_entry E fi uv) i = (x', d, None)"
  shows "only_changes E fi uv x x'" and "\<not> keeps_object fi \<Longrightarrow> marker_entry E x' uv \<and> (\<not> fi_Deleted fi \<longrightarrow> entry_at x' uv = None)"
proof -
  have allowed: "resets_ok fi" "fresh_free E x fi" "fi_Deleted fi \<Longrightarrow> \<not> keeps_object fi" "keeps_object fi \<Longrightarrow> \<forall>v. \<exists>b. xe_Marshal E v = Inr b"
    using assms(3) by (simp_all add: delete_allowed_def)
  obtain v where v: "getIdx E x i = Inr v" using getIdx_ok[OF assms(2,5)] by blast
  obtain ob where ob: "xv_ObjectV2 v = Some ob" by (rule object_read[OF assms(2,5) v assms(7)])
  obtain x1 err1 err where *: "change_object E x fi i v ob = (x1, err1)" "\<not> panics err1" "add_if (fi_Deleted fi) E x1 (delete_entry E fi uv) err1 = (x', err)"
    by (rule delete_object_cases[OF assms(9) v ob])
  have ch: "only_changes E fi uv x x1" "\<not> keeps_object fi \<Longrightarrow> entry_at x1 uv = None"
    using change_object_ok[OF assms(1,2,5) v ob assms(7,6) allowed(2) allowed(4) *(1,2)] by blast+
  have "only_changes E fi uv x x' \<and> (\<not> keeps_object fi \<longrightarrow> marker_entry E x' uv \<and> (\<not> fi_Deleted fi \<longrightarrow> entry_at x' uv = None))"
  proof (cases "fi_Deleted fi")
    case True
    note gone = ch(2)[OF allowed(3)[OF True]]
    have ok: "journal_ok E x1" using ch(1) by (simp add: only_changes_def)
    from add_marker[OF assms(1) ok allowed(1) assms(4) gone assms(8) *(3)] ch(1) True show ?thesis by (simp add: only_changes_def)
  next
    case False
    then have "x' = x1" using *(3) by (simp add: add_if_def)
    then show ?thesis using ch False by (simp add: marker_entry_def)
  qed
  then show "only_changes E fi uv x x'" "\<not> keeps_object fi \<Longrightarrow> marker_entry E x' uv \<and> (\<not> fi_Deleted fi \<longrightarrow> entry_at x' uv = None)" by simp_all
qed

section \<open>DeleteVersion\<close>

abbreviation normal_id :: "FileInfo \<Rightarrow> FileInfo" where
  "normal_id fi \<equiv> (if fi_VersionID fi = nullVersionID then fi\<lparr>fi_VersionID := []\<rparr> else fi)"

lemma normal_id_allowed: "delete_allowed E x (normal_id fi) = delete_allowed E x fi"
  by (simp add: delete_allowed_def resets_ok_def fresh_free_def free_id_def keeps_object_def TierFreeVersionID_def)

text \<open>The version that the call is about.\<close>

definition deletes :: "xl_env \<Rightarrow> FileInfo \<Rightarrow> uuid \<Rightarrow> bool" where
  "deletes E fi uv \<longleftrightarrow> parse_id E (fi_VersionID (normal_id fi)) = Some uv"

lemma DeleteVersion_steps:
  assumes "xl_env_ok E" and "journal_ok E x" and "delete_allowed E x fi0" and "DeleteVersion E x fi0 = (x', d, None)" and "deletes E fi0 uv"
  shows "only_changes E (normal_id fi0) uv x x'"
    and "\<not> keeps_object fi0 \<Longrightarrow> \<not> update_version E (normal_id fi0) \<Longrightarrow> marker_entry E x' uv
      \<and> (\<not> fi_Deleted fi0 \<longrightarrow> \<not> fi_MarkDeleted fi0 \<longrightarrow> entry_at x' uv = None)"
proof -
  define fi where "fi = normal_id fi0"
  have allowed: "delete_allowed E x fi" unfolding fi_def normal_id_allowed by (rule assms(3))
  have resets: "resets_ok fi" using allowed by (simp add: delete_allowed_def)
  have uv: "parse_id E (fi_VersionID fi) = Some uv" using assms(5) by (simp add: deletes_def fi_def)
  have len: "length uv = 16" by (rule parse_id_length[OF assms(1) uv])
  have pre: "fi_Deleted fi \<longrightarrow> Valid (version0\<lparr>xv_Type := DeleteType, xv_DeleteMarker := Some (new_marker fi uv)\<rparr>)"
    using assms(4) uv unfolding DeleteVersion_def fi_def[symmetric] by (auto simp: Let_def split: if_splits)
  define entry where "entry = delete_entry E fi uv"
  have run: "(case first_index (in_first_loop E fi uv) (xl_versions x) of
      Some i \<Rightarrow> if vh_Type (sv_header (xl_versions x ! i)) = LegacyType then delete_legacy E x fi entry i
        else if vh_Type (sv_header (xl_versions x ! i)) = DeleteType then delete_marker E x fi uv entry i
        else purge_object E x fi i
    | None \<Rightarrow> (case first_index (\<lambda>v. \<not> (vh_Type (sv_header v) \<noteq> ObjectType \<or> vh_VersionID (sv_header v) \<noteq> uv)) (xl_versions x) of
        Some i \<Rightarrow> delete_object E x fi entry i
      | None \<Rightarrow> if fi_Deleted fi then (case addVersion E x entry of (x', err) \<Rightarrow> (x', [], err)) else (x, [], Some ErrFileVersionNotFound)))
    = (x', d, None)"
    using assms(4) uv pre unfolding DeleteVersion_def fi_def[symmetric] entry_def by (simp add: Let_def split: if_splits)
  have "only_changes E fi uv x x' \<and> (\<not> keeps_object fi \<longrightarrow> \<not> update_version E fi \<longrightarrow> marker_entry E x' uv
      \<and> (\<not> fi_Deleted fi \<longrightarrow> \<not> fi_MarkDeleted fi \<longrightarrow> entry_at x' uv = None))"
  proof (cases "first_index (in_first_loop E fi uv) (xl_versions x)")
    case (Some i)
    have at: "i < length (xl_versions x)" "in_first_loop E fi uv (xl_versions x ! i)" "id_of (xl_versions x ! i) = uv"
      using first_index_Some[OF Some] by (auto simp: in_first_loop_def has_id_def)
    note run = run[unfolded Some option.case entry_def]
    consider (legacy) "vh_Type (sv_header (xl_versions x ! i)) = LegacyType" | (marker) "vh_Type (sv_header (xl_versions x ! i)) = DeleteType"
      | (object) "vh_Type (sv_header (xl_versions x ! i)) = ObjectType" "update_version E fi"
      using at(2) by (auto simp: in_first_loop_def)
    then show ?thesis
    proof cases
      case legacy
      then have "delete_legacy E x fi (delete_entry E fi uv) i = (x', d, None)" using run by simp
      from delete_legacy_ok[OF assms(1,2) resets len at(1,3) pre this] show ?thesis by blast
    next
      case marker
      then have "delete_marker E x fi uv (delete_entry E fi uv) i = (x', d, None)" using run by (simp add: DeleteType_def LegacyType_def)
      from delete_marker_ok[OF assms(1,2) resets len at(1,3) pre marker this] show ?thesis by blast
    next
      case object
      then have "purge_object E x fi i = (x', d, None)" using run by (simp add: DeleteType_def LegacyType_def ObjectType_def)
      from purge_object_ok[OF assms(1,2) at(1,3) object(1) this] object(2) show ?thesis by blast
    qed
  next
    case none: None
    note run = run[unfolded none option.case]
    show ?thesis
    proof (cases "first_index (\<lambda>v. \<not> (vh_Type (sv_header v) \<noteq> ObjectType \<or> vh_VersionID (sv_header v) \<noteq> uv)) (xl_versions x)")
      case (Some i)
      have at: "i < length (xl_versions x)" "vh_Type (sv_header (xl_versions x ! i)) = ObjectType" "id_of (xl_versions x ! i) = uv"
        using first_index_Some[OF Some] by auto
      have "delete_object E x fi (delete_entry E fi uv) i = (x', d, None)" using run Some by (simp add: entry_def)
      from delete_object_ok[OF assms(1,2) allowed len at(1,3,2) pre this] show ?thesis by blast
    next
      case None
      then have del: "fi_Deleted fi" and add: "addVersion E x entry = (x', None)" using run by (auto split: if_splits prod.splits)
      have "\<forall>e \<in> set (xl_versions x). known_type e" using assms(2) entry_known unfolding journal_ok_def entries_sound_def by blast
      then have "entry_at x uv = None"
        using none None unfolding first_index_None entry_at_None by (auto simp: in_first_loop_def has_id_def known_type_def)
      from add_marker[OF assms(1,2) resets len this pre, of True None x' None] add del show ?thesis
        by (simp add: add_if_def entry_def only_changes_def)
    qed
  qed
  then show "only_changes E (normal_id fi0) uv x x'"
    "\<not> keeps_object fi0 \<Longrightarrow> \<not> update_version E (normal_id fi0) \<Longrightarrow> marker_entry E x' uv
      \<and> (\<not> fi_Deleted fi0 \<longrightarrow> \<not> fi_MarkDeleted fi0 \<longrightarrow> entry_at x' uv = None)"
    unfolding fi_def by (auto simp: keeps_object_def split: if_splits)
qed

text \<open>The data directory of an object is given away only when no other object has its parts in it.\<close>

lemma delete_object_dir:
  assumes "xl_env_ok E" and "journal_ok E x" and "delete_allowed E x fi" and "length uv = 16" and "i < length (xl_versions x)"
    and "id_of (xl_versions x ! i) = uv" and "vh_Type (sv_header (xl_versions x ! i)) = ObjectType"
    and "fi_Deleted fi \<longrightarrow> Valid (version0\<lparr>xv_Type := DeleteType, xv_DeleteMarker := Some (new_marker fi uv)\<rparr>)"
    and "delete_object E x fi (delete_entry E fi uv) i = (x', d, None)" and "d \<noteq> []" and "inline_find (xe_M E) (xl_data x) (xe_String E uv) = None"
    and "e \<in> set (xl_versions x')" and "id_of e \<noteq> uv" and "vh_Type (sv_header e) = ObjectType" and "header_UsesDataDir (sv_header e)"
    and "xe_DataDir E (sv_meta e) = Inr (Some dir)"
  shows "xe_String E dir \<noteq> d"
proof
  assume eq: "xe_String E dir = d"
  obtain v where v: "getIdx E x i = Inr v" using getIdx_ok[OF assms(2,5)] by blast
  obtain ob where ob: "xv_ObjectV2 v = Some ob" "wf_object ob" "ob_VersionID ob = uv" using object_read[OF assms(2,5) v assms(7)] assms(6) by metis
  from delete_object_cases[OF assms(9) v ob(1)] have "SharedDataDirCount E x' (ob_VersionID ob) (ob_DataDir ob) > 0 \<and> d = []
      \<or> SharedDataDirCount E x' (ob_VersionID ob) (ob_DataDir ob) = 0 \<and> d = xe_String E (ob_DataDir ob)" by metis
  then have none: "SharedDataDirCount E x' uv (ob_DataDir ob) = 0" and d: "d = xe_String E (ob_DataDir ob)" using assms(10) ob(3) by auto
  have oc: "only_changes E fi uv x x'" by (rule delete_object_ok(1)[OF assms(1-9)])
  then have ok: "journal_ok E x'" "xl_data x' = xl_data x" by (simp_all add: only_changes_def)
  obtain j where j: "j < length (xl_versions x')" "e = xl_versions x' ! j" using assms(12) by (metis in_set_conv_nth)
  obtain w where w: "getIdx E x' j = Inr w" using getIdx_ok[OF ok(1) j(1)] by blast
  obtain ob' where ob': "wf_object ob'" "xe_DataDir E (sv_meta e) = Inr (Some (ob_DataDir ob'))"
    using object_read[OF ok(1) j(1) w] assms(14) j(2) by metis
  then have "length dir = 16" using assms(16) by (simp add: wf_object_def)
  then have "dir = ob_DataDir ob" using eq d ob(2) xl_env_okD(8)[OF assms(1)] unfolding wf_object_def by (metis option.inject)
  then have "e \<in> set (filter (\<lambda>v. \<not> (vh_Type (sv_header v) \<noteq> ObjectType \<or> vh_VersionID (sv_header v) = uv \<or> \<not> header_UsesDataDir (sv_header v))
             \<and> xe_DataDir E (sv_meta v) = Inr (Some (ob_DataDir ob))) (xl_versions x'))" using assms(12-16) by simp
  then show False using none assms(11) ok(2) by (auto simp: SharedDataDirCount_def filter_empty_conv split: if_splits)
qed

section \<open>The other operations\<close>

lemma update_entry_wf:
  assumes "foldl update_entry (Inr ob) kvs = Inr ob'" and "wf_bytes (ob_MetaSys ob)" and "wf_strmap (ob_MetaUser ob)"
  shows "\<exists>sys user. ob' = ob\<lparr>ob_MetaSys := sys, ob_MetaUser := user\<rparr> \<and> wf_bytes sys \<and> wf_strmap user"
  using assms
proof (induction kvs arbitrary: ob)
  case Nil
  then show ?case by (intro exI[of _ "ob_MetaSys ob"] exI[of _ "ob_MetaUser ob"]) simp
next
  case (Cons kv kvs)
  have stop: "foldl update_entry (Inl e) kvs = Inl e" for e by (induction kvs) (simp_all add: update_entry_def)
  obtain ob1 where ob1: "update_entry (Inr ob) kv = Inr ob1"
    using Cons.prems(1) stop by (cases "update_entry (Inr ob) kv") auto
  have "\<exists>sys user. ob1 = ob\<lparr>ob_MetaSys := sys, ob_MetaUser := user\<rparr> \<and> wf_bytes sys \<and> wf_strmap user"
  proof (cases "is_reserved (fst kv)")
    case True
    then obtain m where "bstores (ob_MetaSys ob) [(fst kv, bytes_of (snd kv))] = Inr m" "ob1 = ob\<lparr>ob_MetaSys := m\<rparr>"
      using ob1 by (auto simp: update_entry_def split: sum.splits prod.splits)
    then show ?thesis using Cons.prems(2,3) bstores_wf by (intro exI[of _ m] exI[of _ "ob_MetaUser ob"]) auto
  next
    case False
    then obtain es where "ob_MetaUser ob = Some es" "ob1 = ob\<lparr>ob_MetaUser := Some (AList.update (fst kv) (snd kv) es)\<rparr>"
      using ob1 by (auto simp: update_entry_def split: option.splits prod.splits)
    then show ?thesis using Cons.prems(2,3)
      by (intro exI[of _ "ob_MetaSys ob"] exI[of _ "Some (AList.update (fst kv) (snd kv) es)"]) (auto simp: wf_strmap_def distinct_update)
  qed
  then obtain sys user where m: "ob1 = ob\<lparr>ob_MetaSys := sys, ob_MetaUser := user\<rparr>" "wf_bytes sys" "wf_strmap user" by blast
  from Cons.IH[of ob1] Cons.prems(1) ob1 m obtain sys' user' where
    "ob' = ob1\<lparr>ob_MetaSys := sys', ob_MetaUser := user'\<rparr>" "wf_bytes sys'" "wf_strmap user'" by auto
  then show ?case using m by (intro exI[of _ sys'] exI[of _ user']) simp
qed

lemma UpdateObjectVersion_ok:
  assumes "xl_env_ok E" and "journal_ok E x" and "UpdateObjectVersion E x fi = (x', None)" and "IsZero (fi_ModTime fi) \<or> UnixNano (fi_ModTime fi) > 0"
  shows "\<exists>uv e. parse_id E (fi_VersionID fi) = Some uv \<and> journal_ok E x' \<and> xl_data x' = xl_data x \<and> entry_at x uv \<noteq> None
    \<and> entry_at x' = (entry_at x)(uv \<mapsto> e)"
proof -
  obtain uv where uv: "parse_id E (fi_VersionID fi) = Some uv" using assms(3) by (auto simp: UpdateObjectVersion_def split: option.splits)
  obtain i where i: "first_index (updatable uv) (xl_versions x) = Some i" and ty: "vh_Type (sv_header (xl_versions x ! i)) = ObjectType"
    using assms(3) uv by (auto simp: UpdateObjectVersion_def split: option.splits if_splits)
  have at: "i < length (xl_versions x)" "id_of (xl_versions x ! i) = uv" "entry_at x uv = Some (xl_versions x ! i)"
    using first_index_at[OF assms(2) i, of uv] by (auto simp: updatable_def has_id_def)
  obtain v where v: "getIdx E x i = Inr v" using getIdx_ok[OF assms(2) at(1)] by blast
  obtain ob where ob: "xv_Type v = ObjectType" "xv_ObjectV2 v = Some ob" "wf_object ob" "ob_ModTime ob > 0" by (rule object_read[OF assms(2) at(1) v ty])
  obtain ob' where ob': "foldl update_entry (Inr ob) (xe_ord E (elems (fi_Metadata fi))) = Inr ob'"
    using assms(3) uv i ty v ob(2)
    by (cases "foldl update_entry (Inr ob) (xe_ord E (elems (fi_Metadata fi)))") (auto simp: UpdateObjectVersion_def deref_def unnest_def)
  have wf: "wf_bytes (ob_MetaSys ob)" "wf_strmap (ob_MetaUser ob)" "is_int64 (ob_ModTime ob)" using ob(3) by (simp_all add: wf_object_def)
  obtain sys user where m: "ob' = ob\<lparr>ob_MetaSys := sys, ob_MetaUser := user\<rparr>" "wf_bytes sys" "wf_strmap user"
    using update_entry_wf[OF ob' wf(1,2)] by blast
  define t where "t = (if \<not> IsZero (fi_ModTime fi) then UnixNano (fi_ModTime fi) else ob_ModTime ob)"
  have t: "t > 0" "is_int64 t" using assms(4) ob(4) wf(3) by (auto simp: t_def UnixNano_def)
  let ?ob = "ob\<lparr>ob_MetaSys := sys, ob_MetaUser := user, ob_ModTime := t\<rparr>"
  have "(if \<not> IsZero (fi_ModTime fi) then ob'\<lparr>ob_ModTime := UnixNano (fi_ModTime fi)\<rparr> else ob') = ?ob" by (cases ob) (simp add: m(1) t_def)
  then have set: "setIdx E x i (v\<lparr>xv_ObjectV2 := Some ?ob\<rparr>) = (x', None)"
    using assms(3) uv i ty v ob(2) ob' by (simp add: UpdateObjectVersion_def deref_def unnest_def Let_def)
  from set_object[OF assms(1,2) at(1) v ob(1,2) refl m(2,3) t set] at(2,3) uv show ?thesis by auto
qed

lemma AddFreeVersion_ok:
  assumes "xl_env_ok E" and "journal_ok E x" and "AddFreeVersion E x fi = (x', None)" and "fresh_free E x fi"
  shows "journal_ok E x' \<and> xl_data x' = xl_data x \<and> (\<forall>k. free_id E fi \<noteq> Some k \<longrightarrow> entry_at x' k = entry_at x k)"
proof -
  obtain uv where uv: "parse_id E (fi_VersionID fi) = Some uv" using assms(3) by (auto simp: AddFreeVersion_def split: option.splits)
  let ?P = "\<lambda>v. \<not> (vh_VersionID (sv_header v) \<noteq> uv \<or> vh_Type (sv_header v) \<noteq> ObjectType)"
  show ?thesis
  proof (cases "first_index ?P (xl_versions x)")
    case None
    then show ?thesis using assms(2,3) uv by (simp add: AddFreeVersion_def)
  next
    case (Some i)
    have at: "i < length (xl_versions x)" "vh_Type (sv_header (xl_versions x ! i)) = ObjectType" using first_index_Some[OF Some] by auto
    obtain v where v: "getIdx E x i = Inr v" using getIdx_ok[OF assms(2) at(1)] by blast
    obtain ob where ob: "xv_ObjectV2 v = Some ob" "wf_object ob" "ob_ModTime ob > 0" using object_read[OF assms(2) at(1) v at(2)] by metis
    have run: "(case InitFreeVersion E ob fi of Inl e \<Rightarrow> (x, Some e) | Inr None \<Rightarrow> (x, None) | Inr (Some free) \<Rightarrow> addVersion E x free) = (x', None)"
      using assms(3) uv Some v ob(1) by (simp add: AddFreeVersion_def deref_def unnest_def)
    show ?thesis
    proof (cases "InitFreeVersion E ob fi = Inr None")
      case True
      then show ?thesis using run assms(2) by simp
    next
      case False
      then obtain free where f: "InitFreeVersion E ob fi = Inr (Some free)" "addVersion E x free = (x', None)"
        using run by (auto split: sum.splits option.splits)
      note fv = free_version_ok[OF assms(1) f(1) ob(2,3)]
      obtain u where u: "free_id E fi = Some u" "getVersionID free = Inr u" using fv(4) by (auto simp: free_id_def)
      have new: "entry_at x k = None" if "getVersionID free = Inr k" for k using that u assms(4) by (simp add: fresh_free_def)
      from addVersion_map[OF assms(1,2) fv(1) f(2) new] obtain h b where h: "header E free = Inr h" "journal_ok E x'" "xl_data x' = xl_data x"
        "entry_at x' = (entry_at x)(vh_VersionID h \<mapsto> \<lparr>sv_header = h, sv_meta = b\<rparr>)" by blast
      then show ?thesis using header_methods(1)[OF h(1)] u by simp
    qed
  qed
qed

lemma AddLegacy_ok:
  assumes "xl_env_ok E" and "journal_ok E x" and "AddLegacy E x m = (x', None)" and "entry_at x uuid0 = None" and "wf_strmap (m1_Meta m)"
  shows "journal_ok E x' \<and> xl_data x' = xl_data x \<and> (\<forall>k. k \<noteq> uuid0 \<longrightarrow> entry_at x' k = entry_at x k)"
proof -
  let ?v = "version0\<lparr>xv_ObjectV1 := Some (m\<lparr>m1_VersionID := nullVersionID\<rparr>), xv_Type := LegacyType, xv_WrittenByVersion := xe_VersionUnix E\<rparr>"
  have add: "addVersion E x ?v = (x', None)" using assms(3) by (auto simp: AddLegacy_def split: if_splits)
  have sto: "storable E ?v" using assms(5) by (simp add: storable_def wf_version_def canonical_def version0_def)
  have id: "getVersionID ?v = Inr uuid0" by (simp add: getVersionID_def)
  have new: "entry_at x k = None" if "getVersionID ?v = Inr k" for k using that id assms(4) by simp
  from addVersion_map[OF assms(1,2) sto add new] obtain h b where h: "header E ?v = Inr h" "journal_ok E x'" "xl_data x' = xl_data x"
    "entry_at x' = (entry_at x)(vh_VersionID h \<mapsto> \<lparr>sv_header = h, sv_meta = b\<rparr>)" by blast
  then show ?thesis using header_methods(1)[OF h(1)] id by simp
qed

end
