(* ===== verification/XL_Journal_Spec.thy ===== *)
theory XL_Journal_Spec
  imports XL_Journal_Delete
begin

text \<open>
  What a journal promises, and a concrete surrounding in which the promises are evaluated: versions are encoded by their place in
  a list, ids print as their bytes.
\<close>

section \<open>Looking a version up\<close>

definition lookup_version :: "xl_env \<Rightarrow> xlMetaV2 \<Rightarrow> uuid \<Rightarrow> gerror + xlMetaV2Version" where
  "lookup_version E x k = map_sum id snd (findVersion E x k)"

lemma lookup_at:
  assumes "journal_ok E x"
  shows "lookup_version E x k = (case entry_at x k of None \<Rightarrow> Inl ErrFileVersionNotFound
    | Some e \<Rightarrow> map_sum id fst (unmarshalV E (xl_metaV x) (sv_meta e)))"
proof (cases "first_index (has_id k) (xl_versions x)")
  case None
  then have "entry_at x k = None" unfolding first_index_None entry_at_None by (simp add: has_id_def)
  then show ?thesis using None by (simp add: lookup_version_def findVersion_def)
next
  case (Some i)
  then have i: "i < length (xl_versions x)" "entry_at x k = Some (xl_versions x ! i)"
    using first_index_at[OF assms Some, of k] by (auto simp: has_id_def)
  then show ?thesis using Some
    by (auto simp: lookup_version_def findVersion_def getIdx_def split: sum.splits prod.splits)
qed

text \<open>The version of the format stays.\<close>

lemma setIdx_metaV: "xl_metaV (fst (setIdx E x i v)) = xl_metaV x"
  by (auto simp: setIdx_def sortByModTime_def Let_def split: sum.splits)

lemma addVersion_metaV: "xl_metaV (fst (addVersion E x v)) = xl_metaV x"
  by (auto simp: addVersion_def Let_def split: sum.splits option.splits)

lemma AddVersion_metaV: "xl_metaV (fst (AddVersion E x fi)) = xl_metaV x"
proof -
  have "xl_metaV (fst (case r of None \<Rightarrow> addVersion E y v | Some i \<Rightarrow> setIdx E y i v)) = xl_metaV y" for r y v
    by (cases r) (simp_all add: setIdx_metaV addVersion_metaV)
  then show ?thesis unfolding AddVersion_def by (auto simp: Let_def split: option.splits)
qed

lemma metaV_parts:
  "xl_metaV (drop_at x i) = xl_metaV x" "xl_metaV (fst (add_if b E x v err)) = xl_metaV x"
  "xl_metaV (fst (change_object E x fi i v ob)) = xl_metaV x"
proof -
  show d: "xl_metaV (drop_at x i) = xl_metaV x" by (simp add: drop_at_def)
  show "xl_metaV (fst (add_if b E x v err)) = xl_metaV x" by (simp add: add_if_def addVersion_metaV)
  show "xl_metaV (fst (change_object E x fi i v ob)) = xl_metaV x"
    using d by (auto simp: change_object_def setIdx_metaV addVersion_metaV split: sum.splits option.splits)
qed

lemma metaV_deletes:
  "xl_metaV (fst (delete_legacy E x fi v i)) = xl_metaV x" "xl_metaV (fst (delete_marker E x fi uv v i)) = xl_metaV x"
  "xl_metaV (fst (purge_object E x fi i)) = xl_metaV x" "xl_metaV (fst (delete_object E x fi v i)) = xl_metaV x"
  by (auto simp: delete_legacy_def delete_marker_def purge_object_def delete_object_def case_prod_beta Let_def metaV_parts setIdx_metaV
      split: sum.splits option.splits)

lemma DeleteVersion_metaV: "xl_metaV (fst (DeleteVersion E x fi)) = xl_metaV x"
proof -
  define fi' where "fi' = normal_id fi"
  have "xl_metaV (fst (DeleteVersion E x fi)) = xl_metaV x"
    unfolding DeleteVersion_def fi'_def[symmetric] Let_def
    by (auto simp: case_prod_beta metaV_deletes addVersion_metaV split: option.split)
  then show ?thesis .
qed

section \<open>What was stored is read\<close>

lemma entry_readable:
  assumes "journal_ok E x" and "entry_at x k = Some e"
  obtains v where "lookup_version E x k = Inr v" and "Valid v" and "storable E v" and "header_since E v (sv_header e)"
    and "xe_DataDir E (sv_meta e) = Inr (map_option ob_DataDir (xv_ObjectV2 v))"
proof -
  have "e \<in> set (xl_versions x)" using assms by (simp add: entry_at_iff)
  then have "entry_ok E (xl_metaV x) e" using assms(1) by (simp add: journal_ok_def entries_sound_def)
  then show ?thesis using that lookup_at[OF assms(1), of k] assms(2) by (auto simp: entry_ok_def storable_def)
qed

lemma lookup_found:
  assumes "journal_ok E x" and "lookup_version E x k = Inr v"
  obtains e where "entry_at x k = Some e" and "e \<in> set (xl_versions x)" and "id_of e = k" and "header_since E v (sv_header e)"
    and "xe_DataDir E (sv_meta e) = Inr (map_option ob_DataDir (xv_ObjectV2 v))"
proof -
  obtain e where e: "entry_at x k = Some e" using assms lookup_at[OF assms(1), of k] by (cases "entry_at x k") auto
  obtain w where "lookup_version E x k = Inr w" "header_since E w (sv_header e)" "xe_DataDir E (sv_meta e) = Inr (map_option ob_DataDir (xv_ObjectV2 w))"
    by (rule entry_readable[OF assms(1) e])
  then show ?thesis using that e assms entry_at_iff[OF assms(1)] by simp
qed

lemma lookup_same:
  "journal_ok E x \<Longrightarrow> journal_ok E x' \<Longrightarrow> xl_metaV x' = xl_metaV x \<Longrightarrow> entry_at x' k = entry_at x k \<Longrightarrow> lookup_version E x' k = lookup_version E x k"
  by (cases "entry_at x k") (simp_all add: lookup_at)

lemma add_step: "xl_env_ok E \<Longrightarrow> journal_ok E x \<Longrightarrow> AddVersion E x fi = (x', None) \<Longrightarrow> journal_ok E x'"
  using AddVersion_map by blast

lemma delete_names:
  assumes "DeleteVersion E x fi = (x', d, None)"
  shows "\<exists>uv. deletes E fi uv"
proof -
  have "parse_id E (fi_VersionID (normal_id fi)) \<noteq> None"
  proof
    define fi' where "fi' = normal_id fi"
    assume "parse_id E (fi_VersionID (normal_id fi)) = None"
    then have "parse_id E (fi_VersionID fi') = None" by (simp only: fi'_def)
    then show False using assms unfolding DeleteVersion_def fi'_def[symmetric]
      by (simp only: Let_def option.case prod.inject option.distinct simp_thms)
  qed
  then show ?thesis unfolding deletes_def by blast
qed

lemma delete_step:
  "xl_env_ok E \<Longrightarrow> journal_ok E x \<Longrightarrow> delete_allowed E x fi \<Longrightarrow> DeleteVersion E x fi = (x', d, None) \<Longrightarrow> journal_ok E x'"
  using DeleteVersion_steps(1) delete_names unfolding only_changes_def by metis

text \<open>C7: after \<open>AddVersion\<close> returns without error, the version that it built from the file information is found under its id,
  with the same contents, every other id finds what it found before, the journal is sound again, and the data changed only when
  the information carries data (or is of an empty object): then they are stored under the version id.\<close>

theorem add_version_then_find:
  assumes "xl_env_ok E" and "journal_ok E x" and "AddVersion E x fi = (x', None)"
  shows "\<exists>uv dd v. parse_id E (fi_VersionID fi) = Some uv
    \<and> (if fi_DataDir fi \<noteq> [] then xe_Parse E (fi_DataDir fi) = Some dd else dd = uuid0)
    \<and> same_version (new_version E fi uv dd) v \<and> Valid v \<and> lookup_version E x' uv = Inr v
    \<and> (\<forall>k. k \<noteq> uv \<longrightarrow> lookup_version E x' k = lookup_version E x k) \<and> journal_ok E x'
    \<and> xl_data x' = (if \<not> fi_Deleted fi \<and> (elems (fi_Data fi) \<noteq> [] \<or> fi_Size fi = 0)
        then inline_replace (xe_M E) (xl_data x) (if fi_VersionID fi = [] then nullVersionID else fi_VersionID fi) (elems (fi_Data fi))
        else xl_data x)"
proof -
  let ?fi = "if fi_VersionID fi = [] then fi\<lparr>fi_VersionID := nullVersionID\<rparr> else fi"
  have id: "parse_id E (if fi_VersionID fi = [] then nullVersionID else fi_VersionID fi) = parse_id E (fi_VersionID fi)" by (simp add: parse_id_def)
  have new: "new_version E ?fi uv dd = new_version E fi uv dd" for uv dd by (simp add: new_version_def new_object_def new_marker_def)
  have keep: "fi_DataDir ?fi = fi_DataDir fi" "fi_Deleted ?fi = fi_Deleted fi" "fi_Data ?fi = fi_Data fi" "fi_Size ?fi = fi_Size fi" by simp_all
  have name: "fi_VersionID ?fi = (if fi_VersionID fi = [] then nullVersionID else fi_VersionID fi)" by simp
  from AddVersion_map[OF assms, unfolded new keep name id] obtain uv dd h b where *: "parse_id E (fi_VersionID fi) = Some uv"
    "if fi_DataDir fi \<noteq> [] then xe_Parse E (fi_DataDir fi) = Some dd else dd = uuid0" "Valid (new_version E fi uv dd)"
    "header E (new_version E fi uv dd) = Inr h" "xe_Marshal E (new_version E fi uv dd) = Inr b" "vh_VersionID h = uv" "journal_ok E x'"
    "entry_at x' = (entry_at x)(uv \<mapsto> \<lparr>sv_header = h, sv_meta = b\<rparr>)"
    and data: "xl_data x' = (if \<not> fi_Deleted fi \<and> (elems (fi_Data fi) \<noteq> [] \<or> fi_Size fi = 0)
        then inline_replace (xe_M E) (xl_data x) (if fi_VersionID fi = [] then nullVersionID else fi_VersionID fi) (elems (fi_Data fi))
        else xl_data x)" by blast
  have len: "length uv = 16" "length dd = 16"
    using parse_id_length[OF assms(1) *(1)] *(2) xl_env_okD(10)[OF assms(1)] by (auto simp: uuid0_def split: if_splits)
  have mv: "xl_metaV x' = xl_metaV x" using AddVersion_metaV[of E x fi] assms(3) by simp
  have st: "storable E (new_version E fi uv dd)" by (rule new_version_storable(1)[OF len])
  have le: "xl_metaV x' \<le> xlMetaVersion" using *(7) by (simp add: journal_ok_def)
  obtain v where v: "unmarshalV E (xl_metaV x') b = Inr (v, [])" "same_version (new_version E fi uv dd) v" "Valid v = Valid (new_version E fi uv dd)"
    using decode_encode[OF assms(1) _ _ *(5) le] st unfolding storable_def by metis
  then have "lookup_version E x' uv = Inr v" using lookup_at[OF *(7), of uv] *(8) by simp
  moreover have "lookup_version E x' k = lookup_version E x k" if "k \<noteq> uv" for k
    using lookup_same[OF assms(2) *(7) mv] *(8) that by simp
  ultimately show ?thesis using *(1-3,7) v data by blast
qed

text \<open>C8: after a \<open>DeleteVersion\<close> that the caller may ask for (\<open>delete_allowed\<close>: the id for a free version is new, the reset statuses have
  keys of their own, a marker is not asked for together with an expiry or a transition, and when the object is kept, versions marshal)
  returns without error, the journal is sound again, the inline data are untouched, and every version but
  the named one, and the free version that keeps the tier informed, is found as before. Unless the call asks to keep the object (its
  restored copy expires, or it moved to a tier) or to update its replication state, the named id finds nothing or a delete marker, and
  nothing when no marker was asked for.\<close>

theorem delete_version_exact:
  assumes "xl_env_ok E" and "journal_ok E x" and "delete_allowed E x fi" and "DeleteVersion E x fi = (x', d, None)"
  shows "\<exists>uv. deletes E fi uv \<and> journal_ok E x' \<and> xl_data x' = xl_data x
    \<and> (\<forall>k. k \<noteq> uv \<and> free_id E fi \<noteq> Some k \<longrightarrow> lookup_version E x' k = lookup_version E x k)
    \<and> (\<not> keeps_object fi \<and> \<not> update_version E (normal_id fi) \<longrightarrow>
        (case lookup_version E x' uv of Inl e \<Rightarrow> e = ErrFileVersionNotFound | Inr v \<Rightarrow> xv_Type v = DeleteType)
        \<and> (\<not> fi_Deleted fi \<and> \<not> fi_MarkDeleted fi \<longrightarrow> lookup_version E x' uv = Inl ErrFileVersionNotFound))"
proof -
  obtain uv where uv: "deletes E fi uv" using delete_names[OF assms(4)] by blast
  note st = DeleteVersion_steps[OF assms uv]
  have ok: "journal_ok E x'" and data: "xl_data x' = xl_data x"
    and rest: "\<And>k. k \<noteq> uv \<Longrightarrow> free_id E (normal_id fi) \<noteq> Some k \<Longrightarrow> entry_at x' k = entry_at x k"
    using st(1) unfolding only_changes_def by blast+
  have mv: "xl_metaV x' = xl_metaV x" using DeleteVersion_metaV[of E x fi] assms(4) by simp
  have free: "free_id E (normal_id fi) = free_id E fi" by (simp add: free_id_def TierFreeVersionID_def)
  have other: "lookup_version E x' k = lookup_version E x k" if "k \<noteq> uv" "free_id E fi \<noteq> Some k" for k
    using lookup_same[OF assms(2) ok mv rest[OF that(1)]] that(2) free by simp
  have gone: "entry_at x' uv = None \<Longrightarrow> lookup_version E x' uv = Inl ErrFileVersionNotFound" using lookup_at[OF ok, of uv] by simp
  have "case lookup_version E x' uv of Inl e \<Rightarrow> e = ErrFileVersionNotFound | Inr v \<Rightarrow> xv_Type v = DeleteType" if m: "marker_entry E x' uv"
  proof (cases "entry_at x' uv")
    case (Some e)
    obtain v where "lookup_version E x' uv = Inr v" "header_since E v (sv_header e)" by (rule entry_readable[OF ok Some])
    then show ?thesis using m Some header_since_methods(2)[of E v] by (simp add: marker_entry_def)
  qed (simp add: gone)
  note seen = this
  show ?thesis
  proof (intro exI[of _ uv] conjI allI impI)
    show "lookup_version E x' k = lookup_version E x k" if "k \<noteq> uv \<and> free_id E fi \<noteq> Some k" for k using other that by simp
    show "case lookup_version E x' uv of Inl e \<Rightarrow> e = ErrFileVersionNotFound | Inr v \<Rightarrow> xv_Type v = DeleteType"
      if "\<not> keeps_object fi \<and> \<not> update_version E (normal_id fi)"
      by (rule seen) (use st(2) that in simp)
    show "lookup_version E x' uv = Inl ErrFileVersionNotFound"
      if "\<not> keeps_object fi \<and> \<not> update_version E (normal_id fi)" "\<not> fi_Deleted fi \<and> \<not> fi_MarkDeleted fi"
      by (rule gone) (use st(2) that in simp)
  qed (fact uv ok data)+
qed

lemma DeleteVersion_object:
  assumes "xl_env_ok E" and "journal_ok E x" and "DeleteVersion E x fi0 = (x', d, None)" and "deletes E fi0 uv"
    and "entry_at x uv = Some e" and "vh_Type (sv_header e) = ObjectType" and "\<not> update_version E (normal_id fi0) \<or> fi_Deleted fi0"
  obtains i where "i < length (xl_versions x)" and "id_of (xl_versions x ! i) = uv" and "vh_Type (sv_header (xl_versions x ! i)) = ObjectType"
    and "fi_Deleted (normal_id fi0) \<longrightarrow> Valid (version0\<lparr>xv_Type := DeleteType, xv_DeleteMarker := Some (new_marker (normal_id fi0) uv)\<rparr>)"
    and "delete_object E x (normal_id fi0) (delete_entry E (normal_id fi0) uv) i = (x', d, None)"
proof -
  define fi where "fi = normal_id fi0"
  have uv: "parse_id E (fi_VersionID fi) = Some uv" using assms(4) by (simp add: deletes_def fi_def)
  have upd: "\<not> update_version E fi \<or> fi_Deleted fi" using assms(7) unfolding fi_def by (auto split: if_splits)
  have e: "e \<in> set (xl_versions x)" "id_of e = uv" using assms(5) entry_at_iff[OF assms(2)] by auto
  have only: "e' = e" if "e' \<in> set (xl_versions x)" "id_of e' = uv" for e'
    using that assms(5) entry_at_iff[OF assms(2), of uv e'] by simp
  have none: "first_index (in_first_loop E fi uv) (xl_versions x) = None"
    unfolding first_index_None using only upd assms(6) by (auto simp: in_first_loop_def has_id_def)
  let ?P = "\<lambda>v. \<not> (vh_Type (sv_header v) \<noteq> ObjectType \<or> vh_VersionID (sv_header v) \<noteq> uv)"
  have "first_index ?P (xl_versions x) \<noteq> None" unfolding first_index_None using e assms(6) by auto
  then obtain i where i: "first_index ?P (xl_versions x) = Some i" by blast
  then have at: "i < length (xl_versions x)" "?P (xl_versions x ! i)" using first_index_Some by blast+
  have pre: "fi_Deleted fi \<longrightarrow> Valid (version0\<lparr>xv_Type := DeleteType, xv_DeleteMarker := Some (new_marker fi uv)\<rparr>)"
    using assms(3) uv unfolding DeleteVersion_def fi_def[symmetric] by (auto simp: Let_def split: if_splits)
  have "delete_object E x fi (delete_entry E fi uv) i = (x', d, None)"
    using assms(3) uv none i pre unfolding DeleteVersion_def fi_def[symmetric] by (simp add: Let_def split: if_splits)
  then show ?thesis using that[folded fi_def] at pre by simp
qed

text \<open>C9: \<open>DeleteVersion\<close> on an object (whose purge is not pending) returns the data directory to remove only if no other object of the
  journal that is left has its parts in that directory; an object with inline data is excepted, as it has no directory.\<close>

theorem delete_keeps_shared_data:
  assumes "xl_env_ok E" and "journal_ok E x" and "delete_allowed E x fi" and "DeleteVersion E x fi = (x', d, None)" and "d \<noteq> []"
    and "deletes E fi uv" and "lookup_version E x uv = Inr w" and "xv_Type w = ObjectType"
    and "\<not> update_version E (normal_id fi) \<or> fi_Deleted fi" and "inline_find (xe_M E) (xl_data x) (xe_String E uv) = None"
    and "k \<noteq> uv" and "lookup_version E x' k = Inr v" and "xv_Type v = ObjectType" and "xv_ObjectV2 v = Some ob" and "ob_UsesDataDir (xe_Clock E) ob"
  shows "xe_String E (ob_DataDir ob) \<noteq> d"
proof -
  obtain e where e: "entry_at x uv = Some e" "header_since E w (sv_header e)" using lookup_found[OF assms(2,7)] by metis
  then have ty: "vh_Type (sv_header e) = ObjectType" using header_since_methods(2) assms(8) by metis
  obtain i where i: "i < length (xl_versions x)" "id_of (xl_versions x ! i) = uv" "vh_Type (sv_header (xl_versions x ! i)) = ObjectType"
    and pre: "fi_Deleted (normal_id fi) \<longrightarrow> Valid (version0\<lparr>xv_Type := DeleteType, xv_DeleteMarker := Some (new_marker (normal_id fi) uv)\<rparr>)"
    and del: "delete_object E x (normal_id fi) (delete_entry E (normal_id fi) uv) i = (x', d, None)"
    by (rule DeleteVersion_object[OF assms(1,2,4,6) e(1) ty assms(9)])
  have allowed: "delete_allowed E x (normal_id fi)" using assms(3) normal_id_allowed by metis
  have len: "length uv = 16" using assms(6) parse_id_length[OF assms(1)] unfolding deletes_def by blast
  have ok: "journal_ok E x'" using DeleteVersion_steps(1)[OF assms(1-4,6)] by (simp add: only_changes_def)
  obtain f where f: "f \<in> set (xl_versions x')" "id_of f = k" "header_since E v (sv_header f)"
    "xe_DataDir E (sv_meta f) = Inr (map_option ob_DataDir (xv_ObjectV2 v))" by (rule lookup_found[OF ok assms(12)])
  obtain t where t: "t \<le> Now (xe_Clock E)" "header (at_time t E) v = Inr (sv_header f)" using f(3) by (auto simp: header_since_def)
  then have "sv_header f = header_of_object (at_time t E) ob" using assms(13,14) by (simp add: header_def deref_def)
  then have "vh_Type (sv_header f) = ObjectType" "header_UsesDataDir (sv_header f)"
    using used_before[OF assms(15) t(1)] by (simp_all add: header_of_object_def header_UsesDataDir_def xlFlagUsesDataDir_def xlFlagInlineData_def)
  moreover have "xe_DataDir E (sv_meta f) = Inr (Some (ob_DataDir ob))" using f(4) assms(14) by simp
  moreover have "id_of f \<noteq> uv" using f(2) assms(11) by simp
  ultimately show ?thesis
    using delete_object_dir[OF assms(1,2) allowed len i pre del assms(5,10) f(1)] by blast
qed

section \<open>Reachable journals\<close>

text \<open>The operations from a journal without versions, each with what its callers give; between them time goes by.\<close>

inductive journal_reach :: "xl_env \<Rightarrow> xlMetaV2 \<Rightarrow> bool" where
  reach_empty: "journal_reach E x" if "xl_versions x = []" and "xl_metaV x \<le> xlMetaVersion"
| reach_later: "journal_reach (at_time t E) x" if "journal_reach E x" and "Now (xe_Clock E) \<le> t"
| reach_add: "journal_reach E x'" if "journal_reach E x" and "AddVersion E x fi = (x', None)"
| reach_legacy: "journal_reach E x'" if "journal_reach E x" and "AddLegacy E x m = (x', None)" and "entry_at x uuid0 = None" and "wf_strmap (m1_Meta m)"
| reach_update: "journal_reach E x'" if "journal_reach E x" and "UpdateObjectVersion E x fi = (x', None)"
    and "IsZero (fi_ModTime fi) \<or> UnixNano (fi_ModTime fi) > 0"
| reach_free: "journal_reach E x'" if "journal_reach E x" and "AddFreeVersion E x fi = (x', None)" and "fresh_free E x fi"
| reach_delete: "journal_reach E x'" if "journal_reach E x" and "DeleteVersion E x fi = (x', d, None)" and "delete_allowed E x fi"

lemma reach_ok: "journal_reach E x \<Longrightarrow> xl_env_ok E \<Longrightarrow> journal_ok E x"
proof (induction rule: journal_reach.induct)
  case (reach_empty x E)
  then show ?case by (simp add: journal_ok_def entries_sound_def)
next
  case (reach_later E x t)
  then show ?case using journal_later by (simp add: at_time_same)
next
  case (reach_add E x fi x')
  then show ?case using add_step by blast
next
  case (reach_legacy E x m x')
  then show ?case using AddLegacy_ok by blast
next
  case (reach_update E x fi x')
  then show ?case using UpdateObjectVersion_ok by blast
next
  case (reach_free E x fi x')
  then show ?case using AddFreeVersion_ok by blast
next
  case (reach_delete E x fi x' d)
  then show ?case using delete_step by blast
qed

text \<open>C6: in every journal that the operations reach from an empty one, while time goes by between them, every version decodes to a
  valid version whose header is the stored one, but that the stored header may still have the flag \<open>UsesDataDir\<close> of a restored copy
  that has expired since; the versions are ordered by modification time with the newest first, and no id occurs twice. The callers give
  this: the id of a free version (that \<open>AddFreeVersion\<close>, or a \<open>DeleteVersion\<close> that keeps a tier informed, adds) is not in the journal,
  as it is generated; \<open>AddLegacy\<close> is called when the journal has no null version; an update sets no modification time before 1970;
  \<open>DeleteVersion\<close> is not asked for a marker together with an expiry or a transition, its reset statuses have keys of their own (not
  those of the replication time stamps), and when it keeps the object, versions marshal. The clock does not go back.\<close>

theorem reachable_journal_sound:
  assumes "xl_env_ok E" and "journal_reach E x"
  shows "list_all (\<lambda>e. \<exists>v h. unmarshalV E (xl_metaV x) (sv_meta e) = Inr (v, []) \<and> Valid v \<and> header E v = Inr h
      \<and> (sv_header e = h \<or> sv_header e = h\<lparr>vh_Flags := vh_Flags h OR xlFlagUsesDataDir\<rparr>)) (xl_versions x)
    \<and> sorted_wrt (\<ge>) (map (\<lambda>e. vh_ModTime (sv_header e)) (xl_versions x)) \<and> distinct (map (\<lambda>e. vh_VersionID (sv_header e)) (xl_versions x))"
proof -
  have s: "entries_sound E (xl_metaV x) (xl_versions x)" using reach_ok[OF assms(2,1)] by (simp add: journal_ok_def)
  have "\<exists>v h. unmarshalV E (xl_metaV x) (sv_meta e) = Inr (v, []) \<and> Valid v \<and> header E v = Inr h
      \<and> (sv_header e = h \<or> sv_header e = h\<lparr>vh_Flags := vh_Flags h OR xlFlagUsesDataDir\<rparr>)" if "e \<in> set (xl_versions x)" for e
    using s that header_since_flag unfolding entries_sound_def entry_ok_def by meson
  then show ?thesis using s by (simp add: list_all_iff entries_sound_def)
qed

section \<open>A concrete surrounding\<close>

fun newest_in :: "xlMetaV2ShallowVersion \<Rightarrow> xlMetaV2ShallowVersion list \<Rightarrow> xlMetaV2ShallowVersion list" where
  "newest_in e [] = [e]"
| "newest_in e (f # fs) = (if sortsBefore (sv_header f) (sv_header e) then f # newest_in e fs else e # f # fs)"

definition newest_first :: "xlMetaV2ShallowVersion list \<Rightarrow> xlMetaV2ShallowVersion list" where
  "newest_first vs = foldr newest_in vs []"

abbreviation not_after :: "xlMetaV2ShallowVersion \<Rightarrow> xlMetaV2ShallowVersion \<Rightarrow> bool" where
  "not_after a b \<equiv> \<not> sortsBefore (sv_header b) (sv_header a)"

lemma not_after_trans: "not_after a b \<Longrightarrow> not_after b c \<Longrightarrow> not_after a c"
  using sortsBefore_total[of "sv_header a" "sv_header b"] sortsBefore_trans sortsBefore_rank by blast

lemma not_after_other: "sortsBefore x y \<Longrightarrow> \<not> sortsBefore y x"
  using sortsBefore_trans sortsBefore_irrefl by blast

lemma newest_in_set: "set (newest_in e fs) = insert e (set fs)" "mset (newest_in e fs) = add_mset e (mset fs)"
  by (induction fs) auto

lemma newest_in_sorted: "sorted_wrt not_after fs \<Longrightarrow> sorted_wrt not_after (newest_in e fs)"
proof (induction fs)
  case (Cons f fs)
  then show ?case
  proof (cases "sortsBefore (sv_header f) (sv_header e)")
    case False
    have "not_after e g" if "g \<in> set fs" for g
      using not_after_trans[OF False, of g] Cons.prems that by simp
    then show ?thesis using Cons.prems False by simp
  qed (auto simp: newest_in_set not_after_other)
qed simp

lemma newest_first_ok: "mset (newest_first vs) = mset vs" "sorted_wrt not_after (newest_first vs)"
  unfolding newest_first_def by (induction vs) (auto simp: newest_in_set newest_in_sorted)

definition place_env :: "xlMetaV2Version list \<Rightarrow> xl_env" where
  "place_env vs = \<lparr>xe_Clock = sample_clock, xe_ord = \<lambda>es. es, xe_bord = \<lambda>es. es, xe_ParseTS = \<lambda>s. zero_time, xe_ParseRFC = \<lambda>s. None, xe_FormatRFC = \<lambda>t. [],
     xe_Parse = \<lambda>s. if length s = 16 then Some (bytes_of s) else None, xe_String = string_of, xe_MaxVersions = 10000, xe_VersionUnix = 7,
     xe_xxhash = \<lambda>bs. of_nat (length bs), xe_xxh3 = \<lambda>bs. of_nat (length bs), xe_MarshalObject = \<lambda>ob. Inl ErrUnexpected,
     xe_MarshalMarker = \<lambda>d. Inl ErrUnexpected, xe_MarshalLegacy = \<lambda>m. Inl ErrUnexpected,
     xe_Marshal = \<lambda>v. (case first_index ((=) v) vs of None \<Rightarrow> Inl ErrUnexpected | Some i \<Rightarrow> Inr [of_nat i]),
     xe_Unmarshal = \<lambda>bs. (case bs of [w] \<Rightarrow> if unat w < length vs then Inr (vs ! unat w, []) else Inl ErrUnexpected | _ \<Rightarrow> Inl ErrUnexpected),
     xe_DataDir = \<lambda>bs. (case bs of [w] \<Rightarrow> if unat w < length vs then Inr (map_option ob_DataDir (xv_ObjectV2 (vs ! unat w))) else Inl ErrUnexpected | _ \<Rightarrow> Inl ErrUnexpected),
     xe_sort = newest_first, xe_M = wide_msgp\<rparr>"

lemma byte_char: "of_char (char_of (unat w)) = (w :: byte)"
proof -
  have "of_char (char_of (unat w)) = (of_nat (of_char (char_of (unat w))) :: byte)" by (simp only: of_nat_of_char)
  also have "of_char (char_of (unat w)) = unat w"
  proof -
    have "unat w < 2 ^ LENGTH(8)" by (rule unsigned_less)
    then show ?thesis by simp
  qed
  finally show ?thesis by simp
qed

lemma place_env_ok:
  assumes "length vs \<le> 256"
  shows "xl_env_ok (place_env vs)"
proof -
  have same: "same_version v v" for v
    by (auto simp: same_version_def same_legacy_def same_object_def same_marker_def option.rel_refl)
  have stored: "unat (of_nat i :: byte) < length vs \<and> vs ! unat (of_nat i :: byte) = v" if "first_index ((=) v) vs = Some i" for v i
    using first_index_Some[OF that] assms by (simp add: unat_of_nat)
  have read: "string_of u \<noteq> [] \<and> length (string_of u) = 16 \<and> bytes_of (string_of u) = u" if "length u = 16" for u :: "byte list"
    using that byte_char by (auto simp: string_of_def bytes_of_def comp_def map_idI)
  show ?thesis
    using stored read same newest_first_ok
    by (auto simp: xl_env_ok_def place_env_def range_order_id[unfolded id_def] split: option.splits if_splits)
qed

definition sample_put :: "char \<Rightarrow> char \<Rightarrow> gotime \<Rightarrow> FileInfo" where
  "sample_put i d t = FileInfo0\<lparr>fi_VersionID := replicate 16 i, fi_DataDir := replicate 16 d, fi_Size := 7, fi_ModTime := t,
     fi_Erasure := ErasureInfo0\<lparr>ei_DataBlocks := 2, ei_ParityBlocks := 2, ei_Index := 1\<rparr>\<rparr>"

definition sample_version :: "char \<Rightarrow> char \<Rightarrow> gotime \<Rightarrow> xlMetaV2Version" where
  "sample_version i d t = new_version (place_env []) (sample_put i d t) (replicate 16 (of_char i)) (replicate 16 (of_char d))"

definition sample_surroundings :: xl_env where
  "sample_surroundings = place_env [sample_version CHR ''a'' CHR ''x'' 5, sample_version CHR ''b'' CHR ''y'' 9]"

definition empty_journal :: xlMetaV2 where
  "empty_journal = \<lparr>xl_versions = [], xl_data = [], xl_metaV = 3\<rparr>"

lemma sample_surroundings_ok: "xl_env_ok sample_surroundings"
  unfolding sample_surroundings_def by (rule place_env_ok) simp

definition one_version :: xlMetaV2 where
  "one_version = fst (AddVersion sample_surroundings empty_journal (sample_put CHR ''a'' CHR ''x'' 5))"

definition two_versions :: xlMetaV2 where
  "two_versions = fst (AddVersion sample_surroundings one_version (sample_put CHR ''b'' CHR ''y'' 9))"

section \<open>Adding succeeds\<close>

lemma addVersion_succeeds:
  assumes "storable E v" and "Valid v" and "xv_Type v \<noteq> LegacyType" and "xe_Marshal E v = Inr b" and "int (length (xl_versions x) + 1) \<le> xe_MaxVersions E"
  shows "\<exists>x'. addVersion E x v = (x', None)"
proof -
  obtain h where h: "header E v = Inr h" using Valid_header[OF assms(2)] by blast
  then obtain t where t: "getModTime v = Inr t" using header_methods(4) by blast
  have wf: "wf_version v" using assms(1) by (simp add: storable_def)
  have low: "mod_of \<lparr>sv_header = header0\<lparr>vh_ModTime := -1\<rparr>, sv_meta = []\<rparr> \<le> UnixNano t" using mod_time_pos[OF assms(2) wf t assms(3)] by simp
  from insert_some[OF low, of "\<lparr>sv_header = h, sv_meta = b\<rparr>" "xl_versions x"] show ?thesis
    using assms h t by (auto simp: addVersion_def Let_def)
qed

lemma AddVersion_succeeds:
  fixes fi0 :: FileInfo
  defines "fi \<equiv> if fi_VersionID fi0 = [] then fi0\<lparr>fi_VersionID := nullVersionID\<rparr> else fi0"
  assumes "xl_env_ok E" and "journal_ok E x" and "parse_id E (fi_VersionID fi) = Some uv" and "(if fi_DataDir fi \<noteq> [] then xe_Parse E (fi_DataDir fi) else Some uuid0) = Some dd"
    and "Valid (new_version E fi uv dd)" and "xe_Marshal E (new_version E fi uv dd) = Inr b"
    and "int (length (xl_versions x) + 1) \<le> xe_MaxVersions E \<or> entry_at x uv \<noteq> None"
  shows "\<exists>x'. AddVersion E x fi0 = (x', None)"
proof -
  have len: "length uv = 16" "length dd = 16"
    using parse_id_length[OF assms(2,4)] assms(5) xl_env_okD(10)[OF assms(2)] by (auto simp: uuid0_def split: if_splits)
  note v = new_version_storable[OF len, of E fi]
  let ?x = "if \<not> fi_Deleted fi \<and> (elems (fi_Data fi) \<noteq> [] \<or> fi_Size fi = 0)
    then x\<lparr>xl_data := inline_replace (xe_M E) (xl_data x) (fi_VersionID fi) (elems (fi_Data fi))\<rparr> else x"
  have same: "xl_versions ?x = xl_versions x" by simp
  have run: "AddVersion E x fi0 = (case first_index (\<lambda>v. has_id uv v \<and> known_type v) (xl_versions x) of
      Some i \<Rightarrow> setIdx E ?x i (new_version E fi uv dd) | None \<Rightarrow> addVersion E ?x (new_version E fi uv dd))"
    unfolding AddVersion_def fi_def[symmetric] by (simp only: Let_def option.case assms(4-6) same not_True_eq_False if_False)
  show ?thesis
  proof (cases "first_index (\<lambda>v. has_id uv v \<and> known_type v) (xl_versions x)")
    case None
    have "\<forall>e \<in> set (xl_versions x). known_type e" using assms(3) entry_known unfolding journal_ok_def entries_sound_def by blast
    then have "entry_at x uv = None" using None unfolding first_index_None entry_at_None by (auto simp: has_id_def)
    then have "int (length (xl_versions ?x) + 1) \<le> xe_MaxVersions E" using assms(8) same by simp
    from addVersion_succeeds[OF v(1) assms(6) v(3) assms(7) this] show ?thesis unfolding run by (simp only: None option.case)
  next
    case (Some i)
    have "i < length (xl_versions ?x)" using first_index_Some[OF Some] same by simp
    moreover obtain h where "header E (new_version E fi uv dd) = Inr h" using Valid_header[OF assms(6)] by blast
    ultimately show ?thesis unfolding run using assms(7) Some same by (simp add: setIdx_def Let_def)
  qed
qed

section \<open>A sample journal\<close>

abbreviation put_one :: FileInfo where "put_one \<equiv> sample_put CHR ''a'' CHR ''x'' 5"
abbreviation put_two :: FileInfo where "put_two \<equiv> sample_put CHR ''b'' CHR ''y'' 9"

abbreviation id_one :: uuid where "id_one \<equiv> replicate 16 97"
abbreviation id_two :: uuid where "id_two \<equiv> replicate 16 98"

lemma empty_journal_ok: "journal_ok E empty_journal"
  by (simp add: empty_journal_def journal_ok_def entries_sound_def)

lemma sample_parse: "parse_id sample_surroundings (replicate 16 c) = Some (replicate 16 (of_char c))"
  by (simp add: parse_id_def sample_surroundings_def place_env_def nullVersionID_def bytes_of_def eval_nat_numeral)

lemma sample_new: "new_version sample_surroundings (sample_put i d t) = new_version (place_env []) (sample_put i d t)"
  by (simp add: new_version_def new_object_def sample_surroundings_def place_env_def fun_eq_iff)

lemma sample_valid: "t > 0 \<Longrightarrow> is_int64 t \<Longrightarrow> Valid (sample_version i d t)"
  by (simp add: sample_version_def new_version_def new_object_def Valid_types version0_def sample_put_def FileInfo0_def ErasureInfo0_def
      isXLMetaErasureInfoValid_def ErasureAlgo_valid_def ChecksumAlgo_valid_def UnixNano_def place_env_def)


lemma sample_different: "t \<noteq> t' \<Longrightarrow> is_int64 t \<Longrightarrow> is_int64 t' \<Longrightarrow> sample_version i d t \<noteq> sample_version i' d' t'"
  by (simp add: sample_version_def new_version_def new_object_def version0_def sample_put_def FileInfo0_def place_env_def UnixNano_def)

lemma sample_marshal:
  "xe_Marshal sample_surroundings (sample_version CHR ''a'' CHR ''x'' 5) = Inr [0]"
  "xe_Marshal sample_surroundings (sample_version CHR ''b'' CHR ''y'' 9) = Inr [1]"
  using sample_different[of 9 5 "CHR ''b''" "CHR ''y''" "CHR ''a''" "CHR ''x''"]
  by (simp_all add: sample_surroundings_def place_env_def is_int64_def)

lemma sample_added:
  assumes "journal_ok sample_surroundings x" and "length (xl_versions x) < 100" and "i \<in> {CHR ''a'', CHR ''b''}" and "t > 0" and "is_int64 t"
    and "xe_Marshal sample_surroundings (sample_version i d t) = Inr b"
  shows "\<exists>x'. AddVersion sample_surroundings x (sample_put i d t) = (x', None)"
proof (rule AddVersion_succeeds[OF sample_surroundings_ok assms(1)])
  let ?fi = "if fi_VersionID (sample_put i d t) = [] then sample_put i d t\<lparr>fi_VersionID := nullVersionID\<rparr> else sample_put i d t"
  have fi: "?fi = sample_put i d t" by (simp add: sample_put_def)
  have v: "new_version sample_surroundings (sample_put i d t) (replicate 16 (of_char i)) (replicate 16 (of_char d)) = sample_version i d t"
    by (simp add: sample_new sample_version_def)
  show "parse_id sample_surroundings (fi_VersionID ?fi) = Some (replicate 16 (of_char i))" unfolding fi using sample_parse by (simp add: sample_put_def)
  show "(if fi_DataDir ?fi \<noteq> [] then xe_Parse sample_surroundings (fi_DataDir ?fi) else Some uuid0) = Some (replicate 16 (of_char d))"
    unfolding fi by (simp add: sample_put_def sample_surroundings_def place_env_def bytes_of_def)
  show "Valid (new_version sample_surroundings ?fi (replicate 16 (of_char i)) (replicate 16 (of_char d)))" unfolding fi v by (rule sample_valid[OF assms(4,5)])
  show "xe_Marshal sample_surroundings (new_version sample_surroundings ?fi (replicate 16 (of_char i)) (replicate 16 (of_char d))) = Inr b"
    unfolding fi v by (rule assms(6))
  show "int (length (xl_versions x) + 1) \<le> xe_MaxVersions sample_surroundings \<or> entry_at x (replicate 16 (of_char i)) \<noteq> None"
    using assms(2) by (simp add: sample_surroundings_def place_env_def)
qed

abbreviation object_one :: xlMetaV2Object where "object_one \<equiv> new_object (place_env []) put_one id_one (replicate 16 120)"
abbreviation object_two :: xlMetaV2Object where "object_two \<equiv> new_object (place_env []) put_two id_two (replicate 16 121)"

abbreviation entry_one :: xlMetaV2ShallowVersion where
  "entry_one \<equiv> \<lparr>sv_header = header_of_object sample_surroundings object_one, sv_meta = [0]\<rparr>"

abbreviation entry_two :: xlMetaV2ShallowVersion where
  "entry_two \<equiv> \<lparr>sv_header = header_of_object sample_surroundings object_two, sv_meta = [1]\<rparr>"

definition sample_one :: xlMetaV2 where
  "sample_one = \<lparr>xl_versions = [entry_one], xl_data = [], xl_metaV = 3\<rparr>"

definition sample_two :: xlMetaV2 where
  "sample_two = \<lparr>xl_versions = [entry_two, entry_one], xl_data = [], xl_metaV = 3\<rparr>"

lemmas sample_defs = sample_put_def FileInfo0_def ErasureInfo0_def new_version_def version0_def place_env_def

lemma sample_objects:
  "sample_version CHR ''a'' CHR ''x'' 5 = version0\<lparr>xv_WrittenByVersion := 7, xv_Type := ObjectType, xv_ObjectV2 := Some object_one\<rparr>"
  "sample_version CHR ''b'' CHR ''y'' 9 = version0\<lparr>xv_WrittenByVersion := 7, xv_Type := ObjectType, xv_ObjectV2 := Some object_two\<rparr>"
  by (simp_all add: sample_version_def new_version_def sample_put_def FileInfo0_def place_env_def)

lemma object_fields:
  "ob_VersionID (new_object E fi uv dd) = uv" "ob_DataDir (new_object E fi uv dd) = dd" "ob_ModTime (new_object E fi uv dd) = UnixNano (fi_ModTime fi)"
  by (simp_all add: new_object_def Let_def split: prod.split)

lemma entry_fields:
  "id_of entry_one = id_one" "id_of entry_two = id_two" "mod_of entry_one = 5" "mod_of entry_two = 9"
  "vh_Type (sv_header entry_one) = ObjectType" "vh_Type (sv_header entry_two) = ObjectType"
  by (simp_all add: header_of_object_def object_fields sample_put_def UnixNano_def Unix0_def is_int64_def)

lemma put_fields:
  "fi_VersionID (sample_put i d t) = replicate 16 i" "fi_DataDir (sample_put i d t) = replicate 16 d" "fi_Deleted (sample_put i d t) = False"
  "fi_Data (sample_put i d t) = None" "fi_Size (sample_put i d t) = 7" "fi_ModTime (sample_put i d t) = t"
  by (simp_all add: sample_put_def FileInfo0_def)

lemma journal_run:
  assumes "t > 0" and "is_int64 t"
  shows "AddVersion sample_surroundings x (sample_put i d t) = (case first_index (\<lambda>v. has_id (replicate 16 (of_char i)) v \<and> known_type v) (xl_versions x) of
      Some j \<Rightarrow> setIdx sample_surroundings x j (sample_version i d t) | None \<Rightarrow> addVersion sample_surroundings x (sample_version i d t))"
proof -
  have dir: "xe_Parse sample_surroundings (replicate 16 d) = Some (replicate 16 (of_char d))"
    by (simp add: sample_surroundings_def place_env_def bytes_of_def)
  have new: "new_version sample_surroundings (sample_put i d t) (replicate 16 (of_char i)) (replicate 16 (of_char d)) = sample_version i d t"
    by (simp add: sample_new sample_version_def)
  show ?thesis unfolding AddVersion_def
    using sample_parse[of i] dir new sample_valid[OF assms, of i d] by (simp add: put_fields Let_def)
qed

lemma sample_header:
  "header sample_surroundings (sample_version CHR ''a'' CHR ''x'' 5) = Inr (sv_header entry_one)"
  "header sample_surroundings (sample_version CHR ''b'' CHR ''y'' 9) = Inr (sv_header entry_two)"
  by (simp_all add: sample_objects header_def deref_def)

lemma sample_ModTime:
  "getModTime (sample_version CHR ''a'' CHR ''x'' 5) = Inr (Unix0 5)" "getModTime (sample_version CHR ''b'' CHR ''y'' 9) = Inr (Unix0 9)"
  by (simp_all add: sample_objects getModTime_def deref_def object_fields put_fields UnixNano_def is_int64_def)

lemma AddVersion_one: "AddVersion sample_surroundings empty_journal put_one = (sample_one, None)"
proof -
  have v: "Valid (sample_version CHR ''a'' CHR ''x'' 5)" by (rule sample_valid) (simp_all add: is_int64_def)
  have run: "AddVersion sample_surroundings empty_journal put_one = addVersion sample_surroundings empty_journal (sample_version CHR ''a'' CHR ''x'' 5)"
    by (subst journal_run) (simp_all add: is_int64_def empty_journal_def)
  have max: "xe_MaxVersions sample_surroundings = 10000" by (simp add: sample_surroundings_def place_env_def)
  show ?thesis unfolding run addVersion_def
    using v sample_marshal(1) sample_header(1) sample_ModTime(1) max
    by (simp add: empty_journal_def sample_one_def UnixNano_def Unix0_def Let_def is_int64_def)
qed

lemma AddVersion_two: "AddVersion sample_surroundings sample_one put_two = (sample_two, None)"
proof -
  have v: "Valid (sample_version CHR ''b'' CHR ''y'' 9)" by (rule sample_valid) (simp_all add: is_int64_def)
  have ids: "id_one \<noteq> id_two" by (simp add: eval_nat_numeral)
  have run: "AddVersion sample_surroundings sample_one put_two = addVersion sample_surroundings sample_one (sample_version CHR ''b'' CHR ''y'' 9)"
    using ids by (subst journal_run) (simp_all add: is_int64_def sample_one_def has_id_def header_of_object_def object_fields)
  have max: "xe_MaxVersions sample_surroundings = 10000" by (simp add: sample_surroundings_def place_env_def)
  have times: "mod_of entry_one = 5" by (rule entry_fields)
  show ?thesis unfolding run addVersion_def
    using v sample_marshal(2) sample_header(2) sample_ModTime(2) max times
    by (simp add: sample_one_def sample_two_def UnixNano_def Unix0_def Let_def is_int64_def)
qed

lemma sample_two_reached: "journal_reach sample_surroundings sample_two"
proof -
  have "journal_reach sample_surroundings empty_journal" by (rule reach_empty) (simp_all add: empty_journal_def)
  then show ?thesis using reach_add AddVersion_one AddVersion_two by blast
qed

lemma sample_journals_ok: "journal_ok sample_surroundings sample_one" "journal_ok sample_surroundings sample_two"
  using add_step[OF sample_surroundings_ok empty_journal_ok AddVersion_one] add_step[OF sample_surroundings_ok _ AddVersion_two] by blast+

theorem add_version_then_find_witness:
  "\<exists>v. lookup_version sample_surroundings sample_two id_two = Inr v \<and> Valid v
    \<and> lookup_version sample_surroundings sample_two id_one = lookup_version sample_surroundings sample_one id_one"
proof -
  have "parse_id sample_surroundings (fi_VersionID put_two) = Some id_two" using sample_parse[of "CHR ''b''"] by (simp add: put_fields)
  moreover have "id_one \<noteq> id_two" by (simp add: eval_nat_numeral)
  ultimately show ?thesis
    using add_version_then_find[OF sample_surroundings_ok sample_journals_ok(1) AddVersion_two] by auto
qed

theorem reachable_journal_sound_witness:
  "map (\<lambda>e. vh_ModTime (sv_header e)) (xl_versions sample_two) = [9, 5]
    \<and> sorted_wrt (\<ge>) (map (\<lambda>e. vh_ModTime (sv_header e)) (xl_versions sample_two))"
  using reachable_journal_sound[OF sample_surroundings_ok sample_two_reached] entry_fields(3,4) by (simp add: sample_two_def)

abbreviation delete_one :: FileInfo where "delete_one \<equiv> FileInfo0\<lparr>fi_VersionID := replicate 16 CHR ''a''\<rparr>"

lemma delete_one_plain:
  "\<not> keeps_object delete_one" "\<not> update_version sample_surroundings (normal_id delete_one)" "\<not> fi_Deleted delete_one" "\<not> fi_MarkDeleted delete_one"
  "normal_id delete_one = delete_one"
proof -
  show n: "normal_id delete_one = delete_one" by (simp add: nullVersionID_def eval_nat_numeral)
  show "\<not> keeps_object delete_one" by (simp add: keeps_object_def FileInfo0_def TransitionComplete_def)
  show "\<not> update_version sample_surroundings (normal_id delete_one)" unfolding n
    by (simp add: update_version_def FileInfo0_def Let_def FileInfo_VersionPurgeStatus_def DeleteMarkerReplicationStatus_def
        CompositeVersionPurgeStatus_def getCompositeVersionPurgeStatus_def overall_status_def ReplicationState0_def sample_surroundings_def place_env_def elems_def
        VersionPurgePending_def VersionPurgeComplete_def VersionPurgeFailed_def)
  show "\<not> fi_Deleted delete_one" "\<not> fi_MarkDeleted delete_one" by (simp_all add: FileInfo0_def)
qed

lemma delete_one_allowed: "delete_allowed sample_surroundings x delete_one"
  using delete_one_plain(1)
  by (simp add: delete_allowed_def resets_ok_def fresh_free_def free_id_def FileInfo0_def sample_surroundings_def place_env_def TierFreeVersionID_def mgetd_def mget_def
      ReplicationState0_def elems_def)

lemma sample_storable: "storable sample_surroundings (sample_version i d t)"
  using new_version_storable(1)[of "replicate 16 (of_char i)" "replicate 16 (of_char d)" sample_surroundings "sample_put i d t"]
  by (simp add: sample_new sample_version_def)

lemma read_one: "getIdx sample_surroundings sample_two 1 = Inr (sample_version CHR ''a'' CHR ''x'' 5)"
proof -
  have c: "canonical sample_surroundings (sample_version CHR ''a'' CHR ''x'' 5)" using sample_storable by (simp add: storable_def)
  have "xe_Unmarshal sample_surroundings [0] = Inr (sample_version CHR ''a'' CHR ''x'' 5, [])" by (simp add: sample_surroundings_def place_env_def)
  from unmarshal_canonical[OF this c, of 3] show ?thesis by (simp add: getIdx_def sample_two_def)
qed

definition sample_left :: xlMetaV2 where
  "sample_left = \<lparr>xl_versions = [entry_two], xl_data = [], xl_metaV = 3\<rparr>"

lemma change_one: "change_object sample_surroundings sample_two delete_one 1 (sample_version CHR ''a'' CHR ''x'' 5) object_one = (sample_left, None)"
proof -
  have "InitFreeVersion sample_surroundings object_one delete_one = Inr None"
    by (simp add: InitFreeVersion_def new_object_def sample_put_def FileInfo0_def place_env_def opt_store_def bget_def elems_def)
  then show ?thesis using delete_one_plain(1)
    by (simp add: change_object_def keeps_object_def drop_at_def sample_two_def sample_left_def)
qed

lemma none_shared: "SharedDataDirCount sample_surroundings sample_left id_one (replicate 16 120) = 0"
proof -
  have "xe_DataDir sample_surroundings [1] = Inr (Some (replicate 16 121))"
    by (simp add: sample_surroundings_def place_env_def sample_objects object_fields)
  moreover have "replicate 16 120 \<noteq> (replicate 16 121 :: byte list)" by (simp add: eval_nat_numeral)
  ultimately show ?thesis by (simp add: SharedDataDirCount_def sample_left_def)
qed

lemma DeleteVersion_one: "DeleteVersion sample_surroundings sample_two delete_one = (sample_left, string_of (replicate 16 120), None)"
proof -
  have loop: "\<not> in_first_loop sample_surroundings delete_one id_one entry_one" "\<not> in_first_loop sample_surroundings delete_one id_one entry_two"
    using delete_one_plain(2,5) entry_fields(5,6) by (simp_all add: in_first_loop_def)
  have ids: "id_one \<noteq> id_two" by (simp add: eval_nat_numeral)
  have parse: "parse_id sample_surroundings (fi_VersionID delete_one) = Some id_one" using sample_parse[of "CHR ''a''"] by simp
  have "delete_object sample_surroundings sample_two delete_one (delete_entry sample_surroundings delete_one id_one) 1
      = (sample_left, string_of (replicate 16 120), None)"
    using read_one change_one none_shared delete_one_plain(3)
    by (simp add: delete_object_def sample_objects panics_def add_if_def object_fields) (simp add: sample_surroundings_def place_env_def)
  moreover have "first_index (\<lambda>v. \<not> (vh_Type (sv_header v) \<noteq> ObjectType \<or> id_of v \<noteq> id_one)) (xl_versions sample_two) = Some 1"
    using entry_fields ids by (simp add: sample_two_def)
  moreover have "first_index (in_first_loop sample_surroundings delete_one id_one) (xl_versions sample_two) = None"
    using loop by (simp add: sample_two_def)
  ultimately show ?thesis
    unfolding DeleteVersion_def using parse delete_one_plain(3,5) by (simp add: Let_def)
qed

lemma delete_one_named: "deletes sample_surroundings delete_one uv \<longleftrightarrow> uv = id_one"
  using sample_parse[of "CHR ''a''"] delete_one_plain(5) by (auto simp: deletes_def)

lemma lookups:
  "lookup_version sample_surroundings sample_two id_one = Inr (sample_version CHR ''a'' CHR ''x'' 5)"
  "lookup_version sample_surroundings sample_left id_two = Inr (sample_version CHR ''b'' CHR ''y'' 9)"
proof -
  have ids: "id_one \<noteq> id_two" by (simp add: eval_nat_numeral)
  have "first_index (has_id id_one) (xl_versions sample_two) = Some 1" using entry_fields(1,2) ids by (simp add: sample_two_def has_id_def)
  then show "lookup_version sample_surroundings sample_two id_one = Inr (sample_version CHR ''a'' CHR ''x'' 5)"
    using read_one by (simp add: lookup_version_def findVersion_def)
  have c: "canonical sample_surroundings (sample_version CHR ''b'' CHR ''y'' 9)" using sample_storable by (simp add: storable_def)
  have "xe_Unmarshal sample_surroundings [1] = Inr (sample_version CHR ''b'' CHR ''y'' 9, [])" by (simp add: sample_surroundings_def place_env_def)
  from unmarshal_canonical[OF this c, of 3] entry_fields(2)
  show "lookup_version sample_surroundings sample_left id_two = Inr (sample_version CHR ''b'' CHR ''y'' 9)"
    by (simp add: lookup_version_def findVersion_def getIdx_def sample_left_def has_id_def)
qed

theorem delete_version_exact_witness:
  "lookup_version sample_surroundings sample_left id_one = Inl ErrFileVersionNotFound
    \<and> lookup_version sample_surroundings sample_left id_two = lookup_version sample_surroundings sample_two id_two"
proof -
  have ids: "id_one \<noteq> id_two" by (simp add: eval_nat_numeral)
  have free: "free_id sample_surroundings delete_one = None"
    by (simp add: free_id_def FileInfo0_def sample_surroundings_def place_env_def TierFreeVersionID_def mgetd_def mget_def elems_def)
  show ?thesis
    using delete_version_exact[OF sample_surroundings_ok sample_journals_ok(2) delete_one_allowed DeleteVersion_one]
      delete_one_named delete_one_plain(1-4) ids free by auto
qed

theorem delete_keeps_shared_data_witness:
  "xe_String sample_surroundings (ob_DataDir object_two) \<noteq> string_of (replicate 16 120)"
proof (rule delete_keeps_shared_data[OF sample_surroundings_ok sample_journals_ok(2) delete_one_allowed DeleteVersion_one])
  show "string_of (replicate 16 120) \<noteq> []" by (simp add: string_of_def)
  show "deletes sample_surroundings delete_one id_one" by (simp add: delete_one_named)
  show "lookup_version sample_surroundings sample_two id_one = Inr (sample_version CHR ''a'' CHR ''x'' 5)" by (rule lookups)
  show "xv_Type (sample_version CHR ''a'' CHR ''x'' 5) = ObjectType" "xv_Type (sample_version CHR ''b'' CHR ''y'' 9) = ObjectType"
    by (simp_all add: sample_objects)
  show "\<not> update_version sample_surroundings (normal_id delete_one) \<or> fi_Deleted delete_one" using delete_one_plain(2) by blast
  show "inline_find (xe_M sample_surroundings) (xl_data sample_two) (xe_String sample_surroundings id_one) = None"
    by (simp add: sample_two_def inline_find_def afterVersion_def)
  show "id_two \<noteq> id_one" by (simp add: eval_nat_numeral)
  show "lookup_version sample_surroundings sample_left id_two = Inr (sample_version CHR ''b'' CHR ''y'' 9)" by (rule lookups)
  show "xv_ObjectV2 (sample_version CHR ''b'' CHR ''y'' 9) = Some object_two" by (simp add: sample_objects)
  show "ob_UsesDataDir (xe_Clock sample_surroundings) object_two"
    by (simp add: ob_UsesDataDir_def new_object_def sample_put_def FileInfo0_def place_env_def opt_store_def bget_def bgetd_def elems_def
        TransitionComplete_def bytes_of_def)
qed

text \<open>Where the purge of the version is pending, its data directory is returned whoever else uses it.\<close>

lemma purge_returns_dir:
  assumes "purge_object E x fi i = (x', d, None)" and "getIdx E x i = Inr v" and "xv_ObjectV2 v = Some ob"
  shows "d = xe_String E (ob_DataDir ob)"
  using assms by (cases "bstores (ob_MetaSys ob) (purge_stores E fi)") (auto simp: purge_object_def deref_def unnest_def split: prod.splits)

end
