(* ===== verification/XL_File_Spec.thy ===== *)
theory XL_File_Spec
  imports XL_View XL_Journal_Spec
begin

text \<open>
  What a journal written to \<open>xl.meta\<close> is when it is read: loaded it is the same journal, without its data it is the file of
  the journal without data, and what is read from its bytes is what is read from the journal.
\<close>

section \<open>What is known of the library\<close>

text \<open>Of MessagePack beyond \<open>msgp_ok\<close>: a small unsigned integer is read as a byte, an array header of seven is the byte 0x97, a block of bytes with
  a 32-bit length begins with 0xC6, a 32-bit integer with 0xCE. The codec does not return a sentinel of \<open>cmd\<close>.\<close>

definition file_ok :: "xl_env \<Rightarrow> file_lib \<Rightarrow> bool" where
  "file_ok E L \<longleftrightarrow> msgp_ok (xe_M E) \<and> appends (fl_AppendUint L)
     \<and> (\<forall>(v :: byte) r. ReadUint8Bytes (xe_M E) (fl_AppendUint L [] (ucast v) @ r) = Inr (v, r))
     \<and> (\<forall>v r. short v \<longrightarrow> fl_ReadExactBytes L (length v) (AppendBytes (xe_M E) [] v @ r) = Inr (v, r))
     \<and> (\<forall>c r. fl_ReadUint32Bytes L (0xCE # be_bytes 4 (unat c) @ r) = Inr (c, r))
     \<and> (\<forall>v r. short v \<longrightarrow> ReadBytesZC (xe_M E) (0xC6 # be_bytes 4 (length v) @ v @ r) = Inr (v, r))
     \<and> (\<forall>n r. n < 2 ^ 32 \<longrightarrow> fl_ReadBytesHeader L (0xC6 # be_bytes 4 n @ r) = Inr (word_of_nat n, r))
     \<and> (\<forall>r. ReadArrayHeaderBytes (xe_M E) (0x97 # r) = Inr (7, r))
     \<and> (\<forall>b. xe_Unmarshal E b \<noteq> Inl errDoneForNow)"

lemma file_okD:
  assumes "file_ok E L"
  shows "msgp_ok (xe_M E)" and "fl_AppendUint L b w = b @ fl_AppendUint L [] w"
    and "ReadUint8Bytes (xe_M E) (fl_AppendUint L [] (ucast (v :: byte)) @ r) = Inr (v, r)"
    and "short u \<Longrightarrow> fl_ReadExactBytes L (length u) (enc_bytes (xe_M E) u @ r) = Inr (u, r)"
    and "fl_ReadUint32Bytes L (0xCE # be_bytes 4 (unat c) @ r) = Inr (c, r)"
    and "short u \<Longrightarrow> ReadBytesZC (xe_M E) (0xC6 # be_bytes 4 (length u) @ u @ r) = Inr (u, r)"
    and "n < 2 ^ 32 \<Longrightarrow> fl_ReadBytesHeader L (0xC6 # be_bytes 4 n @ r) = Inr (word_of_nat n, r)"
    and "ReadArrayHeaderBytes (xe_M E) (0x97 # r) = Inr (7, r)"
    and "xe_Unmarshal E u \<noteq> Inl errDoneForNow"
  using assms appendsD[of "fl_AppendUint L" b w] unfolding file_ok_def enc_bytes_def by blast+

section \<open>The bytes of a file\<close>

definition header_bytes :: "msgp \<Rightarrow> xlMetaV2VersionHeader \<Rightarrow> byte list" where
  "header_bytes M z = 0x97 # enc_bytes M (vh_VersionID z) @ enc_i64 M (vh_ModTime z) @ enc_bytes M (vh_Signature z)
     @ enc_u8 M (vh_Type z) @ enc_u8 M (vh_Flags z) @ enc_u8 M (vh_EcN z) @ enc_u8 M (vh_EcM z)"

definition entry_bytes :: "msgp \<Rightarrow> xlMetaV2ShallowVersion \<Rightarrow> byte list" where
  "entry_bytes M ver = enc_bytes M (header_bytes M (sv_header ver)) @ enc_bytes M (sv_meta ver)"

definition journal_bytes :: "xl_env \<Rightarrow> file_lib \<Rightarrow> xlMetaV2 \<Rightarrow> byte list" where
  "journal_bytes E L x = fl_AppendUint L [] (ucast xlHeaderVersion) @ fl_AppendUint L [] (ucast xlMetaVersion)
     @ enc_int (xe_M E) (int (length (xl_versions x))) @ concat (map (entry_bytes (xe_M E)) (xl_versions x))"

definition file_bytes :: "xl_env \<Rightarrow> file_lib \<Rightarrow> xlMetaV2 \<Rightarrow> byte list" where
  "file_bytes E L x = xlHeader @ xlVersionCurrent @ 0xC6 # be_bytes 4 (length (journal_bytes E L x)) @ journal_bytes E L x
     @ 0xCE # be_bytes 4 (unat (ucast (xe_xxhash E (journal_bytes E L x)) :: 32 word)) @ xl_data x"

lemma header_MarshalMsg_bytes: "msgp_ok M \<Longrightarrow> header_MarshalMsg M z = header_bytes M z"
  by (simp add: header_MarshalMsg_def header_bytes_def append_enc Let_def)

lemma append_versions_bytes: "msgp_ok M \<Longrightarrow> append_versions M dst vers = dst @ concat (map (entry_bytes M) vers)"
  by (induction M dst vers rule: append_versions.induct)
    (simp_all add: append_enc(8) header_MarshalMsg_bytes entry_bytes_def)

lemma AppendTo_bytes:
  assumes "file_ok E L"
  shows "AppendTo E L x dst = (case inline_validate (xe_M E) (xl_data x) of Some e \<Rightarrow> Inl e | None \<Rightarrow> Inr (dst @ file_bytes E L x))"
proof -
  note M = file_okD(1)[OF assms]
  have app: "fl_AppendUint L (fl_AppendUint L d a) b = d @ fl_AppendUint L [] a @ fl_AppendUint L [] b" for d a b
    using file_okD(2)[OF assms, of d a] file_okD(2)[OF assms, of "d @ fl_AppendUint L [] a" b] by simp
  have len: "length (xlHeader @ xlVersionCurrent) = 8"
    by (simp add: xlHeader_def xlVersionCurrent_def le16_def bytes_of_def)
  show ?thesis
    unfolding AppendTo_def Let_def app append_versions_bytes[OF M] append_enc(6)[OF M]
    by (auto simp: file_bytes_def journal_bytes_def len xlHeader_def xlVersionCurrent_def le16_def bytes_of_def split: option.split)
qed


section \<open>Reading it\<close>

text \<open>A journal of the current format, whose headers and encoded versions fit their fields.\<close>

definition header_fits :: "msgp \<Rightarrow> xlMetaV2VersionHeader \<Rightarrow> bool" where
  "header_fits M z \<longleftrightarrow> length (vh_VersionID z) = 16 \<and> length (vh_Signature z) = 4 \<and> is_int64 (vh_ModTime z) \<and> short (header_MarshalMsg M z)"

definition journal_fits :: "xl_env \<Rightarrow> file_lib \<Rightarrow> xlMetaV2 \<Rightarrow> bool" where
  "journal_fits E L x \<longleftrightarrow> xl_metaV x = xlMetaVersion
     \<and> list_all (\<lambda>ver. header_fits (xe_M E) (sv_header ver) \<and> short (sv_meta ver)) (xl_versions x)
     \<and> short (xl_versions x) \<and> short (journal_bytes E L x)"

lemma checkXL2V1_file: "checkXL2V1 (file_bytes E L x) = Inr (drop 8 (file_bytes E L x), 1, 3)"
  by (simp add: checkXL2V1_def file_bytes_def xlHeader_def xlVersionCurrent_def le16_def of_le16_def bytes_of_def)

lemma drop8_file:
  "drop 8 (file_bytes E L x) = 0xC6 # be_bytes 4 (length (journal_bytes E L x)) @ journal_bytes E L x
     @ 0xCE # be_bytes 4 (unat (ucast (xe_xxhash E (journal_bytes E L x)) :: 32 word)) @ xl_data x"
  by (simp add: file_bytes_def xlHeader_def xlVersionCurrent_def le16_def bytes_of_def)

lemma isIndexedMetaV2_file:
  assumes "file_ok E L" and "short (journal_bytes E L x)" and "inline_validate (xe_M E) (xl_data x) = None"
  shows "isIndexedMetaV2 E L (file_bytes E L x) = Inr (Some (journal_bytes E L x, xl_data x))"
  using assms(2,3) by (simp add: isIndexedMetaV2_def checkXL2V1_file drop8_file file_okD(5,6)[OF assms(1)])

lemma decodeXLHeaders_file:
  assumes "file_ok E L" and "short (xl_versions x)"
  shows "decodeXLHeaders (xe_M E) (journal_bytes E L x)
       = Inr (int (length (xl_versions x)), 3, 3, concat (map (entry_bytes (xe_M E)) (xl_versions x)))"
proof -
  have n: "is_int64 (int (length (xl_versions x)))" using assms(2) by (simp add: is_int64_def short_def)
  have v: "ReadUint8Bytes (xe_M E) (fl_AppendUint L [] 3 @ r) = Inr (3, r)" for r
    using file_okD(3)[OF assms(1), of 3 r] by simp
  show ?thesis
    using n by (simp add: decodeXLHeaders_def journal_bytes_def v read_enc[OF file_okD(1)[OF assms(1)]] xlHeaderVersion_def xlMetaVersion_def)
qed

text \<open>A header is read into any variable.\<close>

lemma header_read:
  assumes "file_ok E L" and "header_fits (xe_M E) z"
  shows "header_unmarshalV (xe_M E) L 3 z0 (header_MarshalMsg (xe_M E) z) = Inr (z, [])"
proof -
  note r = read_enc[OF file_okD(1)[OF assms(1)]]
  have id: "fl_ReadExactBytes L 16 (enc_bytes (xe_M E) (vh_VersionID z) @ r) = Inr (vh_VersionID z, r)"
    and sig: "fl_ReadExactBytes L 4 (enc_bytes (xe_M E) (vh_Signature z) @ r) = Inr (vh_Signature z, r)" for r
    using file_okD(4)[OF assms(1), of "vh_VersionID z" r] file_okD(4)[OF assms(1), of "vh_Signature z" r] assms(2)
    by (simp_all add: header_fits_def short_def)
  have u8: "ReadUint8Bytes (xe_M E) (enc_u8 (xe_M E) v) = Inr (v, [])" for v using r(8)[of v "[]"] by simp
  show ?thesis
    using assms(2)
    by (simp add: header_unmarshalV_def xlHeaderVersion_def header_MarshalMsg_bytes[OF file_okD(1)[OF assms(1)]] header_bytes_def header_UnmarshalMsg_def
        read_array_def file_okD(8)[OF assms(1)] read_id_def id sig read_modtime_def read_signature_def read_type_def read_flags_def read_ecN_def
        read_ecM_def into_def r u8 header_fits_def)
qed

text \<open>A loop over the versions of a file is a loop over those of the journal.\<close>

fun visit :: "(nat \<Rightarrow> xlMetaV2ShallowVersion \<Rightarrow> 's \<Rightarrow> 's \<times> gerror option) \<Rightarrow> nat \<Rightarrow> xlMetaV2ShallowVersion list \<Rightarrow> 's \<Rightarrow> 's \<times> gerror option" where
  "visit fn i [] s = (s, None)"
| "visit fn i (ver # vers) s =
     (case fn i ver s of
        (s', Some e) \<Rightarrow> (s', if e = errDoneForNow then None else Some e)
      | (s', None) \<Rightarrow> visit fn (Suc i) vers s')"

lemma decodeVersions_entries:
  assumes "msgp_ok M" and "list_all (\<lambda>ver. header_fits M (sv_header ver) \<and> short (sv_meta ver)) vers"
  shows "decodeVersions M fn i (length vers) (concat (map (entry_bytes M) vers)) s
       = visit (\<lambda>i ver. fn i (header_MarshalMsg M (sv_header ver)) (sv_meta ver)) i vers s"
  using assms(2)
proof (induction vers arbitrary: i s)
  case (Cons ver vers)
  have "short (header_bytes M (sv_header ver))"
    using Cons.prems header_MarshalMsg_bytes[OF assms(1)] by (simp add: header_fits_def)
  then show ?case
    using Cons header_MarshalMsg_bytes[OF assms(1)]
    by (auto simp: entry_bytes_def read_enc(9)[OF assms(1)] split: prod.splits option.splits)
qed simp

lemma journal_fitsD:
  assumes "journal_fits E L x"
  shows "xl_metaV x = 3" and "list_all (\<lambda>ver. header_fits (xe_M E) (sv_header ver) \<and> short (sv_meta ver)) (xl_versions x)"
    and "short (xl_versions x)" and "short (journal_bytes E L x)"
  using assms by (auto simp: journal_fits_def xlMetaVersion_def)

lemma load_versions:
  assumes "file_ok E L" and "list_all (\<lambda>ver. header_fits (xe_M E) (sv_header ver) \<and> short (sv_meta ver)) vers"
  shows "visit (\<lambda>i ver. load_version E L 3 3 i (header_MarshalMsg (xe_M E) (sv_header ver)) (sv_meta ver)) i vers loaded = (loaded @ vers, None)"
  using assms(2)
  by (induction vers arbitrary: i loaded)
    (auto simp: load_version_def header_read[OF assms(1)] fix_index_def fix_marker_def)

lemma AppendTo_Inr:
  assumes "file_ok E L" and "AppendTo E L x [] = Inr buf"
  shows "buf = file_bytes E L x" and "inline_validate (xe_M E) (xl_data x) = None"
  using assms(2) by (auto simp: AppendTo_bytes[OF assms(1)] split: option.splits)

lemma load_fits:
  assumes "file_ok E L" and "journal_fits E L x" and "AppendTo E L x [] = Inr buf"
  shows "Load E L buf = Inr x"
proof -
  note data = AppendTo_Inr(2)[OF assms(1,3)] and st = journal_fitsD[OF assms(2)]
  have "Load E L buf = Inr \<lparr>xl_versions = xl_versions x, xl_data = xl_data x, xl_metaV = xl_metaV x\<rparr>"
    unfolding AppendTo_Inr(1)[OF assms(1,3)] Load_def loadIndexed_def
    by (simp add: isIndexedMetaV2_file[OF assms(1) st(4) data] decodeXLHeaders_file[OF assms(1) st(3)]
        decodeVersions_entries[OF file_okD(1)[OF assms(1)] st(2)] load_versions[OF assms(1) st(2)] data st(1))
  then show ?thesis by simp
qed

text \<open>C11: A journal that was written is loaded back as it was: its versions with their headers in their order, and the inline data.\<close>

theorem xl_file_roundtrip:
  assumes "file_ok E L" and "journal_fits E L x" and "AppendTo E L x [] = Inr buf"
  shows "LoadOrConvert E L buf = Inr x"
  using load_fits[OF assms] by (simp add: LoadOrConvert_def isXL2V1Format_def checkXL2V1_file AppendTo_Inr(1)[OF assms(1,3)])

section \<open>Without the data\<close>

lemma file_bytes_split:
  "file_bytes E L x = file_bytes E L (x\<lparr>xl_data := []\<rparr>) @ xl_data x"
  "journal_bytes E L (x\<lparr>xl_data := []\<rparr>) = journal_bytes E L x"
  by (simp_all add: file_bytes_def journal_bytes_def)

lemma no_data_bytes:
  "file_bytes E L (x\<lparr>xl_data := []\<rparr>) = xlHeader @ xlVersionCurrent @ 0xC6 # be_bytes 4 (length (journal_bytes E L x)) @ journal_bytes E L x
     @ 0xCE # be_bytes 4 (unat (ucast (xe_xxhash E (journal_bytes E L x)) :: 32 word))"
  by (simp add: file_bytes_def journal_bytes_def)

lemma no_data_length: "length (file_bytes E L (x\<lparr>xl_data := []\<rparr>)) = length (journal_bytes E L x) + 18"
  by (simp add: no_data_bytes xlHeader_def xlVersionCurrent_def le16_def bytes_of_def)

lemma trim_file:
  assumes "file_ok E L" and "short (journal_bytes E L x)"
  shows "xlMetaV2TrimData E L (file_bytes E L x) = file_bytes E L (x\<lparr>xl_data := []\<rparr>)"
proof -
  define A where "A = file_bytes E L (x\<lparr>xl_data := []\<rparr>)"
  define F where "F = file_bytes E L x"
  have F: "F = A @ xl_data x" unfolding A_def F_def by (rule file_bytes_split(1))
  have c: "checkXL2V1 F = Inr (drop 8 F, 1, 3)" unfolding F_def by (rule checkXL2V1_file)
  have d: "drop 8 F = 0xC6 # be_bytes 4 (length (journal_bytes E L x)) @ journal_bytes E L x
     @ 0xCE # be_bytes 4 (unat (ucast (xe_xxhash E (journal_bytes E L x)) :: 32 word)) @ xl_data x"
    unfolding F_def by (rule drop8_file)
  have "xlMetaV2TrimData E L F = take (nat (int (length F) - int (length (xl_data x)))) F"
    using assms(2) by (simp add: xlMetaV2TrimData_def c d file_okD(5,6)[OF assms(1)] Let_def)
  also have "\<dots> = A" by (simp add: F)
  finally show ?thesis by (simp add: A_def F_def)
qed

text \<open>\<open>readMore\<close> gives a beginning of the file.\<close>

lemma readMore_begin:
  assumes "n \<le> length f" and "m \<le> length f" and "full \<Longrightarrow> m = length f"
  shows "readMore full (length f) n (take m f) (drop m f) = Inr (take (max n m) f)"
proof (cases "n \<le> m")
  case False
  then have "take m f @ take (n - m) (drop m f) = take n f" by (simp add: take_add[symmetric])
  then show ?thesis using False assms by (auto simp: readMore_def Bitrot.ReadFull_def)
qed (use assms in \<open>simp add: readMore_def max_def\<close>)

lemma checkXL2V1_head: "r \<noteq> [] \<Longrightarrow> checkXL2V1 (xlHeader @ xlVersionCurrent @ r) = Inr (r, 1, 3)"
  by (cases r) (simp_all add: checkXL2V1_def xlHeader_def xlVersionCurrent_def le16_def of_le16_def bytes_of_def)

lemma head_length: "length (xlHeader @ xlVersionCurrent) = 8"
  by (simp add: xlHeader_def xlVersionCurrent_def le16_def bytes_of_def)

lemma take_behind: "length a = n \<Longrightarrow> n \<le> m \<Longrightarrow> take m (a @ b) = a @ take (m - n) b"
  by simp

lemma drop_behind: "length a = n \<Longrightarrow> drop n (a @ b) = b"
  by simp

lemma read_no_data:
  assumes "file_ok E L" and "short (journal_bytes E L x)"
  shows "readXLMetaNoData E L (file_bytes E L x) (length (file_bytes E L x)) = Inr (file_bytes E L (x\<lparr>xl_data := []\<rparr>))"
proof -
  define J where "J = journal_bytes E L x"
  define crc where "crc = be_bytes 4 (unat (ucast (xe_xxhash E J) :: 32 word))"
  define H where "H = xlHeader @ xlVersionCurrent"
  define f where "f = file_bytes E L x"
  define m where "m = min (length f) metaDataReadDefault"
  have f: "f = H @ 0xC6 # be_bytes 4 (length J) @ J @ 0xCE # crc @ xl_data x"
    by (simp add: f_def H_def file_bytes_def J_def crc_def)
  have len: "length H = 8" "length crc = 4" using head_length by (simp_all add: H_def crc_def)
  have m: "18 \<le> m" "m \<le> length f" by (simp_all add: m_def f len metaDataReadDefault_def)
  define rest where "rest = J @ 0xCE # crc @ xl_data x"
  have begin_m: "take m f = H @ 0xC6 # be_bytes 4 (length J) @ take (m - 13) rest"
    using take_behind[of "H @ 0xC6 # be_bytes 4 (length J)" 13 m rest] m by (simp add: f rest_def len)
  have check: "checkXL2V1 (take m f) = Inr (0xC6 # be_bytes 4 (length J) @ take (m - 13) rest, 1, 3)"
    using checkXL2V1_head[of "0xC6 # be_bytes 4 (length J) @ take (m - 13) rest"] by (simp add: begin_m H_def)
  have J: "length J < 2 ^ 32" "unat (word_of_nat (length J) :: 32 word) = length J"
    using assms(2) by (simp_all add: short_def J_def unat_of_nat)
  have hdr: "fl_ReadBytesHeader L (0xC6 # be_bytes 4 (length J) @ r) = Inr (word_of_nat (length J), r)" for r
    by (rule file_okD(7)[OF assms(1) J(1)])
  define k where "k = max (length J + 18) m"
  have want: "length (take m f) - length (take (m - 13) rest) = 13"
    using m by (simp add: f rest_def len)
  have more: "readMore (length f \<le> metaDataReadDefault) (length f) (length J + 18) (take m f) (drop m f) = Inr (take k f)"
    unfolding k_def by (rule readMore_begin) (simp_all add: f len m_def)
  have begin_k: "take k f = H @ 0xC6 # be_bytes 4 (length J) @ J @ 0xCE # crc @ take (k - (length J + 18)) (xl_data x)"
    using take_behind[of "H @ 0xC6 # be_bytes 4 (length J) @ J @ 0xCE # crc" "length J + 18" k "xl_data x"] by (simp add: f len k_def)
  have tail: "drop (length J + 13) (take k f) = 0xCE # crc @ take (k - (length J + 18)) (xl_data x)"
    using drop_behind[of "H @ 0xC6 # be_bytes 4 (length J) @ J" "length J + 13"] by (simp add: begin_k len)
  have read: "fl_ReadUint32Bytes L (drop (length J + 13) (take k f)) = Inr (ucast (xe_xxhash E J), take (k - (length J + 18)) (xl_data x))"
    unfolding tail crc_def by (rule file_okD(5)[OF assms(1)])
  have init: "Bitrot.ReadFull f m = Inr (take m f, drop m f)" using m by (simp add: Bitrot.ReadFull_def)
  have long: "\<not> length (take k f) < length J + 13" by (simp add: f len k_def)
  have gap: "length (take k f) - (length J + 13 + length (take (k - (length J + 18)) (xl_data x))) = 5"
    unfolding begin_k by (simp add: len del: length_take)
  have size: "min (length J + 13 + 5) (length f) = length J + 18" by (simp add: f len)
  have "readXLMetaNoData E L f (length f) = Inr (take (length J + 18) (take k f))"
    unfolding readXLMetaNoData_def Let_def m_def[symmetric] init wrapped_simps andThen_simps prod.case check sum.case hdr J(2) want
    using more read long size by (simp add: len add.commute gap del: length_take)
  also have "take (length J + 18) (take k f) = H @ 0xC6 # be_bytes 4 (length J) @ J @ 0xCE # crc"
    using take_behind[of "H @ 0xC6 # be_bytes 4 (length J) @ J @ 0xCE # crc" "length J + 18" "length J + 18"] by (simp add: begin_k len)
  also have "\<dots> = file_bytes E L (x\<lparr>xl_data := []\<rparr>)" by (simp add: no_data_bytes H_def J_def crc_def)
  finally show ?thesis by (simp add: f_def)
qed

text \<open>C13: What is read or kept of a file without its data is the file of the journal without data, wherever the file is cut by the first read,
  and it is loaded as this journal.\<close>

theorem xl_file_without_data:
  assumes "file_ok E L" and "journal_fits E L x" and "AppendTo E L x [] = Inr buf"
  shows "\<exists>b. AppendTo E L (x\<lparr>xl_data := []\<rparr>) [] = Inr b \<and> buf = b @ xl_data x
    \<and> xlMetaV2TrimData E L buf = b \<and> readXLMetaNoData E L buf (length buf) = Inr b \<and> Load E L b = Inr (x\<lparr>xl_data := []\<rparr>)"
proof -
  define b where "b = file_bytes E L (x\<lparr>xl_data := []\<rparr>)"
  note J = journal_fitsD(4)[OF assms(2)]
  have w: "AppendTo E L (x\<lparr>xl_data := []\<rparr>) [] = Inr b" by (simp add: AppendTo_bytes[OF assms(1)] inline_validate_def b_def)
  moreover have "journal_fits E L (x\<lparr>xl_data := []\<rparr>)" using assms(2) by (simp add: journal_fits_def file_bytes_split(2))
  from load_fits[OF assms(1) this w] have "Load E L b = Inr (x\<lparr>xl_data := []\<rparr>)" .
  ultimately show ?thesis
    unfolding AppendTo_Inr(1)[OF assms(1,3)]
    using trim_file[OF assms(1) J] read_no_data[OF assms(1) J] file_bytes_split(1)[of E L x] by (auto simp: b_def)
qed

section \<open>Reading a version from the bytes\<close>

lemma ob_parts_error: "ob_parts j = Inl e \<Longrightarrow> e \<noteq> errDoneForNow"
  by (auto simp: ob_parts_def errDoneForNow_def Let_def split: if_splits)

lemma xv_ToFileInfo_error: "xv_ToFileInfo E j volume path allParts = Inl e \<Longrightarrow> e \<noteq> errDoneForNow"
  using ob_parts_error[of "the (xv_ObjectV2 j)" e]
  by (auto simp: xv_ToFileInfo_def ob_ToFileInfo_def m1_ToFileInfo_def unnest_def deref_def errDoneForNow_def Let_def split: if_splits option.splits sum.splits)

lemma unmarshalV_error:
  assumes "file_ok E L" and "unmarshalV E v bts = Inl e"
  shows "e \<noteq> errDoneForNow"
  using assms(2) file_okD(9)[OF assms(1), of bts]
  by (auto simp: unmarshalV_def errDoneForNow_def split: if_splits sum.splits prod.splits)

lemma version_FileInfo_error:
  assumes "file_ok E L" and "version_FileInfo E v meta volume path allParts = Inl e"
  shows "e \<noteq> errDoneForNow"
  using assms(2) unmarshalV_error[OF assms(1), of v meta] xv_ToFileInfo_error
  by (auto simp: version_FileInfo_def andThen_def split: sum.splits prod.splits)

text \<open>The callback of \<open>ToFileInfo\<close> does what the loop over the journal does.\<close>

definition same_find :: "gerror + find_state \<Rightarrow> (xlMetaV2VersionHeader \<times> bool \<times> find_state) \<times> gerror option \<Rightarrow> bool" where
  "same_find r v \<longleftrightarrow> (case r of Inl e \<Rightarrow> \<exists>h s. v = ((h, True, s), Some e) | Inr s \<Rightarrow> \<exists>h. v = ((h, fs_fi s \<noteq> None, s), None))"

lemma buf_find_loop:
  assumes "file_ok E L" and "list_all (\<lambda>ver. header_fits (xe_M E) (sv_header ver) \<and> short (sv_meta ver)) vers"
  shows "same_find (find_loop E metaV volume path versionID uv False allParts vers s)
    (visit (\<lambda>i ver. buf_find E L 3 metaV volume path versionID uv allParts i (header_MarshalMsg (xe_M E) (sv_header ver)) (sv_meta ver)) i vers
       (h, fs_fi s \<noteq> None, s))"
  using assms(2)
proof (induction vers arbitrary: i h s)
  case (Cons ver vers)
  let ?fn = "\<lambda>i ver. buf_find E L 3 metaV volume path versionID uv allParts i (header_MarshalMsg (xe_M E) (sv_header ver)) (sv_meta ver)"
  define g where "g = header_FreeVersion (sv_header ver)"
  define d where "d = vh_VersionID (sv_header ver)"
  define s1 where "s1 = (if g then s\<lparr>fs_nonFree := fs_nonFree s - 1\<rparr> else s)"
  have read: "header_unmarshalV (xe_M E) L 3 z (header_MarshalMsg (xe_M E) (sv_header ver)) = Inr (sv_header ver, [])" for z
    using Cons.prems by (intro header_read[OF assms(1)]) simp
  note IH = Cons.IH[of _ "Suc i" "sv_header ver"]
  have fi: "fs_fi s1 = fs_fi s" by (simp add: s1_def)
  have step: "?fn i ver (h, fs_fi s \<noteq> None, s) = (if g \<and> d \<noteq> uv then ((sv_header ver, fs_fi s1 \<noteq> None, s1), None)
       else case find_visible E metaV volume path versionID uv allParts s1 (sv_header ver) (sv_meta ver) of
              Inl e \<Rightarrow> ((sv_header ver, True, s1), Some e)
            | Inr s2 \<Rightarrow> ((sv_header ver, fs_fi s2 \<noteq> None, s2), None))"
    unfolding buf_find_def prod.case read sum.case Let_def g_def[symmetric] d_def[symmetric] s1_def[symmetric] find_visible_def fi
    by (auto simp: andThen_def fi split: sum.splits)
  have loop: "find_loop E metaV volume path versionID uv False allParts (ver # vers) s =
       andThen (if g \<and> d \<noteq> uv then Inr s1 else find_visible E metaV volume path versionID uv allParts s1 (sv_header ver) (sv_meta ver))
         (find_loop E metaV volume path versionID uv False allParts vers)"
    by (simp add: g_def d_def s1_def Let_def)
  have last: "e \<noteq> errDoneForNow" if "find_visible E metaV volume path versionID uv allParts s1 (sv_header ver) (sv_meta ver) = Inl e" for e
    using that version_FileInfo_error[OF assms(1), of metaV "sv_meta ver" volume path allParts]
    by (auto simp: find_visible_def andThen_def split: if_splits sum.splits)
  show ?case
  proof (cases "g \<and> d \<noteq> uv")
    case True
    show ?thesis unfolding visit.simps step loop using True IH[of s1] Cons.prems by simp
  next
    case False
    show ?thesis
    proof (cases "find_visible E metaV volume path versionID uv allParts s1 (sv_header ver) (sv_meta ver)")
      case (Inl e)
      show ?thesis unfolding visit.simps step loop if_not_P[OF False] Inl using last[OF Inl] by (simp add: same_find_def)
    next
      case (Inr s2)
      show ?thesis unfolding visit.simps step loop if_not_P[OF False] Inr using IH[of s2] Cons.prems by simp
    qed
  qed
qed (simp add: same_find_def)

text \<open>What is asked of a journal, said without a loop: among the versions that are not free (or have the id asked for) the first one with the
  id, or the first one at all; it is the latest when none comes before it, and its successor is the one just before it.\<close>

definition candidates :: "uuid \<Rightarrow> xlMetaV2ShallowVersion list \<Rightarrow> xlMetaV2ShallowVersion list" where
  "candidates uv vs = filter (\<lambda>v. \<not> header_FreeVersion (sv_header v) \<or> vh_VersionID (sv_header v) = uv) vs"

definition unwanted :: "string \<Rightarrow> uuid \<Rightarrow> xlMetaV2ShallowVersion \<Rightarrow> bool" where
  "unwanted versionID uv v \<longleftrightarrow> versionID \<noteq> [] \<and> vh_VersionID (sv_header v) \<noteq> uv"

definition non_free :: "xlMetaV2ShallowVersion list \<Rightarrow> xlMetaV2ShallowVersion list" where
  "non_free vs = filter (\<lambda>v. \<not> header_FreeVersion (sv_header v)) vs"

definition settled :: "int \<Rightarrow> xlMetaV2ShallowVersion list \<Rightarrow> find_state \<Rightarrow> find_state" where
  "settled n before s = \<lparr>fs_succ = (if before = [] then fs_succ s else vh_ModTime (sv_header (last before))),
     fs_latest = (if before = [] then fs_latest s else False), fs_nonFree = n, fs_fi = fs_fi s, fs_free = fs_free s\<rparr>"

lemma settled_simps:
  "settled n b (s\<lparr>fs_nonFree := k\<rparr>) = settled n b s"
  "settled n b (s\<lparr>fs_latest := False, fs_succ := vh_ModTime (sv_header v)\<rparr>) = settled n (v # b) s"
  "settled n [] s = s\<lparr>fs_nonFree := n\<rparr>"
  by (simp_all add: settled_def)

definition version_view :: "xl_env \<Rightarrow> xlMetaV2 \<Rightarrow> string \<Rightarrow> string \<Rightarrow> string \<Rightarrow> bool \<Rightarrow> gerror + FileInfo" where
  "version_view E x volume path versionID allParts =
     (case parse_id E versionID of
        None \<Rightarrow> Inl ErrFileVersionNotFound
      | Some uv \<Rightarrow>
          let vs = candidates uv (xl_versions x); before = takeWhile (unwanted versionID uv) vs
          in case dropWhile (unwanted versionID uv) vs of
               [] \<Rightarrow> Inl (if versionID = [] then ErrFileNotFound else ErrFileVersionNotFound)
             | v # _ \<Rightarrow> andThen (version_FileInfo E (xl_metaV x) (sv_meta v) volume path allParts) (\<lambda>fi.
                 let succ = (if before = [] then 0 else vh_ModTime (sv_header (last before)))
                 in Inr (fi\<lparr>fi_IsLatest := before = [], fi_SuccessorModTime := (if succ = 0 then fi_SuccessorModTime fi else Unix0 succ),
                        fi_NumVersions := int (length (non_free (xl_versions x)))\<rparr>)))"

lemma find_loop_done:
  "fs_fi s \<noteq> None \<Longrightarrow> find_loop E metaV volume path versionID uv False allParts vers s
     = Inr (s\<lparr>fs_nonFree := fs_nonFree s - (int (length vers) - int (length (non_free vers)))\<rparr>)"
  by (induction vers arbitrary: s) (auto simp: find_visible_def Let_def non_free_def)

definition left_free :: "xlMetaV2ShallowVersion list \<Rightarrow> int" where
  "left_free vs = int (length vs) - int (length (non_free vs))"

lemma left_free_simps [simp]:
  "left_free [] = 0" "left_free (v # vs) = (if header_FreeVersion (sv_header v) then 1 else 0) + left_free vs"
  by (simp_all add: left_free_def non_free_def)

lemma find_loop_view:
  "fs_fi s = None \<Longrightarrow> find_loop E metaV volume path versionID uv False allParts vers s =
     (let vs = candidates uv vers; s' = settled (fs_nonFree s - left_free vers) (takeWhile (unwanted versionID uv) vs) s
      in case dropWhile (unwanted versionID uv) vs of
           [] \<Rightarrow> Inr s'
         | v # _ \<Rightarrow> andThen (version_FileInfo E metaV (sv_meta v) volume path allParts) (\<lambda>fi. Inr (s'\<lparr>fs_fi := Some (found_FileInfo s' fi)\<rparr>)))"
proof (induction vers arbitrary: s)
  case Nil
  then show ?case by (simp add: candidates_def settled_def)
next
  case (Cons ver vers)
  define g where "g = header_FreeVersion (sv_header ver)"
  define s1 where "s1 = (if g then s\<lparr>fs_nonFree := fs_nonFree s - 1\<rparr> else s)"
  have none: "fs_fi s1 = None" using Cons.prems by (simp add: s1_def)
  have loop: "find_loop E metaV volume path versionID uv False allParts (ver # vers) s =
       andThen (if g \<and> vh_VersionID (sv_header ver) \<noteq> uv then Inr s1
                else find_visible E metaV volume path versionID uv allParts s1 (sv_header ver) (sv_meta ver))
         (find_loop E metaV volume path versionID uv False allParts vers)"
    by (simp add: g_def s1_def Let_def)
  have n: "fs_nonFree s - left_free (ver # vers) = fs_nonFree s1 - left_free vers" by (simp add: s1_def g_def)
  have s1: "settled k b s1 = settled k b s" for k b by (simp add: s1_def settled_simps)
  consider (skip) "g" "vh_VersionID (sv_header ver) \<noteq> uv"
    | (past) "\<not> g \<or> vh_VersionID (sv_header ver) = uv" "unwanted versionID uv ver"
    | (here) "\<not> g \<or> vh_VersionID (sv_header ver) = uv" "\<not> unwanted versionID uv ver"
    by blast
  then show ?case
  proof cases
    case skip
    then have "candidates uv (ver # vers) = candidates uv vers" by (simp add: candidates_def g_def)
    then show ?thesis using skip Cons.IH[OF none] unfolding loop n by (simp add: s1)
  next
    case past
    then have c: "candidates uv (ver # vers) = ver # candidates uv vers" by (auto simp: candidates_def g_def)
    let ?s = "s1\<lparr>fs_latest := False, fs_succ := vh_ModTime (sv_header ver)\<rparr>"
    have "find_visible E metaV volume path versionID uv allParts s1 (sv_header ver) (sv_meta ver) = Inr ?s"
      using past(2) none by (auto simp: find_visible_def unwanted_def)
    then have eq: "find_loop E metaV volume path versionID uv False allParts (ver # vers) s
        = find_loop E metaV volume path versionID uv False allParts vers ?s"
      using past(1) unfolding loop by auto
    have w: "takeWhile (unwanted versionID uv) (ver # l) = ver # takeWhile (unwanted versionID uv) l"
      "dropWhile (unwanted versionID uv) (ver # l) = dropWhile (unwanted versionID uv) l" for l
      using past(2) by simp_all
    have i: "fs_fi ?s = None" "fs_nonFree ?s = fs_nonFree s1" using none by simp_all
    show ?thesis using Cons.IH[OF i(1)] unfolding eq n c Let_def w i(2) settled_simps s1 .
  next
    case here
    then have c: "candidates uv (ver # vers) = ver # candidates uv vers" by (auto simp: candidates_def g_def)
    have "find_visible E metaV volume path versionID uv allParts s1 (sv_header ver) (sv_meta ver)
        = andThen (version_FileInfo E metaV (sv_meta ver) volume path allParts) (\<lambda>fi. Inr (s1\<lparr>fs_fi := Some (found_FileInfo s1 fi)\<rparr>))"
      using here(2) none by (auto simp: find_visible_def unwanted_def)
    then have eq: "find_loop E metaV volume path versionID uv False allParts (ver # vers) s
        = andThen (andThen (version_FileInfo E metaV (sv_meta ver) volume path allParts) (\<lambda>fi. Inr (s1\<lparr>fs_fi := Some (found_FileInfo s1 fi)\<rparr>)))
           (find_loop E metaV volume path versionID uv False allParts vers)"
      using here(1) unfolding loop by auto
    have w: "takeWhile (unwanted versionID uv) (ver # l) = []" "dropWhile (unwanted versionID uv) (ver # l) = ver # l" for l
      using here(2) by simp_all
    have st: "settled k [] s = s1\<lparr>fs_nonFree := k\<rparr>" for k using s1[of k "[]"] by (simp add: settled_simps)
    show ?thesis unfolding eq n c Let_def w list.case st
      by (cases "version_FileInfo E metaV (sv_meta ver) volume path allParts")
        (simp_all add: find_loop_done left_free_def[symmetric] found_FileInfo_def Let_def)
  qed
qed

text \<open>So what \<open>ToFileInfo\<close> returns.\<close>

lemma journal_ToFileInfo_view:
  "journal_ToFileInfo E x volume path versionID False allParts = version_view E x volume path versionID allParts"
proof (cases "parse_id E versionID")
  case (Some uv)
  have n: "fs_nonFree (find_start (int (length (xl_versions x)))) - left_free (xl_versions x) = int (length (non_free (xl_versions x)))"
    by (simp add: find_start_def left_free_def)
  have none: "fs_fi (find_start k) = None" for k by (simp add: find_start_def)
  let ?vs = "candidates uv (xl_versions x)"
  show ?thesis
  proof (cases "dropWhile (unwanted versionID uv) ?vs")
    case Nil
    show ?thesis
      unfolding journal_ToFileInfo_def version_view_def Some option.case find_loop_view[OF none] n Let_def Nil list.case
      by (simp add: settled_def none)
  next
    case (Cons v vs)
    show ?thesis
      unfolding journal_ToFileInfo_def version_view_def Some option.case find_loop_view[OF none] n Let_def Cons list.case
      by (cases "version_FileInfo E (xl_metaV x) (sv_meta v) volume path allParts")
        (simp_all add: settled_def found_FileInfo_def find_start_def)
  qed
qed (simp add: journal_ToFileInfo_def version_view_def)

lemma buf_ToFileInfo_file:
  assumes "file_ok E L" and "journal_fits E L x"
  shows "buf_ToFileInfo E L (journal_bytes E L x) volume path versionID allParts = journal_ToFileInfo E x volume path versionID False allParts"
proof (cases "parse_id E versionID")
  case (Some uv)
  note st = journal_fitsD[OF assms(2)]
  let ?n = "length (xl_versions x)"
  let ?r = "find_loop E 3 volume path versionID uv False allParts (xl_versions x) (find_start (int ?n))"
  let ?v = "decodeVersions (xe_M E) (buf_find E L 3 3 volume path versionID uv allParts) 0 ?n
              (concat (map (entry_bytes (xe_M E)) (xl_versions x))) (header0, False, find_start (int ?n))"
  have "fs_fi (find_start (int ?n)) = None" by (simp add: find_start_def)
  then have same: "same_find ?r ?v"
    using buf_find_loop[OF assms(1) st(2), of 3 volume path versionID uv allParts "find_start (int ?n)" 0 header0]
    by (simp add: decodeVersions_entries[OF file_okD(1)[OF assms(1)] st(2)])
  have buf: "buf_ToFileInfo E L (journal_bytes E L x) volume path versionID allParts = (case ?v of
      ((h, found, s), err) \<Rightarrow>
        if \<not> found then (case err of Some (GoPanic e) \<Rightarrow> Inl (GoPanic e) | _ \<Rightarrow> if versionID = [] then Inl ErrFileNotFound else Inl ErrFileVersionNotFound)
        else (case err of Some e \<Rightarrow> Inl e
              | None \<Rightarrow> (case fs_fi s of Some fi \<Rightarrow> Inr (fi\<lparr>fi_NumVersions := fs_nonFree s\<rparr>) | None \<Rightarrow> Inr (FileInfo0\<lparr>fi_NumVersions := fs_nonFree s\<rparr>))))"
    by (simp add: buf_ToFileInfo_def Some decodeXLHeaders_file[OF assms(1) st(3)])
  show ?thesis
  proof (cases ?r)
    case (Inl e)
    then show ?thesis using same unfolding buf by (auto simp: same_find_def journal_ToFileInfo_def Some st(1))
  next
    case (Inr s)
    then show ?thesis using same unfolding buf by (cases "fs_fi s") (auto simp: same_find_def journal_ToFileInfo_def Some st(1))
  qed
qed (simp add: buf_ToFileInfo_def journal_ToFileInfo_def)

lemma journal_bytes_not_empty: "file_ok E L \<Longrightarrow> journal_bytes E L x \<noteq> []"
  using read_enc(16)[OF file_okD(1), of E L "int (length (xl_versions x))"] by (auto simp: journal_bytes_def)

text \<open>C12: What is read of a version from the bytes of a file, which are not loaded: the first version with the id asked for, or the
  first of all when none is asked for, among those that are not free or have the id asked for (a free version is found by its id); whether it is the latest, the time of the version after it, the number of versions that are not free,
  and with the data its inline data under its id or its data directory. A file without such a version reads as deleted when no id was
  asked for.\<close>

theorem get_file_info_exact:
  assumes "file_ok E L" and "journal_fits E L x" and "AppendTo E L x [] = Inr buf"
  shows "getFileInfo E L buf volume path versionID inclFreeVersions wantData =
    (case version_view E x volume path versionID True of
       Inl e \<Rightarrow> if errors_Is e ErrFileNotFound then Inr (deleted_FileInfo volume path versionID) else Inl e
     | Inr fi \<Rightarrow> with_data E wantData (xl_data x) (Inr fi))"
proof -
  note data = AppendTo_Inr(2)[OF assms(1,3)]
  show ?thesis
    unfolding AppendTo_Inr(1)[OF assms(1,3)] getFileInfo_def
    by (simp add: isIndexedMetaV2_file[OF assms(1) journal_fitsD(4)[OF assms(2)] data] buf_ToFileInfo_file[OF assms(1,2)]
        journal_ToFileInfo_view journal_bytes_not_empty[OF assms(1)] split: sum.split)
qed

section \<open>Listing the versions from the bytes\<close>

definition unnumbered :: "FileInfo \<Rightarrow> bool" where
  "unnumbered fi \<longleftrightarrow> \<not> fi_IsLatest fi \<and> fi_SuccessorModTime fi = zero_time"

lemma ob_ToFileInfo_base:
  assumes "ob_ToFileInfo E j volume path allParts = Inr fi"
  shows "fi_ModTime fi = Unix0 (ob_ModTime j) \<and> unnumbered fi"
proof (cases "if allParts then ob_parts j else Inr []")
  case (Inr parts)
  show ?thesis
    using assms unfolding ob_ToFileInfo_def Inr sum.case Let_def sum.inject(2)
    by hypsubst (simp add: unnumbered_def FileInfo0_def)
qed (use assms in \<open>simp add: ob_ToFileInfo_def\<close>)

lemma dm_ToFileInfo_base: "fi_ModTime (dm_ToFileInfo E d volume path) = Unix0 (dm_ModTime d) \<and> unnumbered (dm_ToFileInfo E d volume path)"
  by (simp add: dm_ToFileInfo_def Let_def unnumbered_def FileInfo0_def SetTierFreeVersion_def)

lemma m1_ToFileInfo_base: "m1_ToFileInfo m volume path = Inr fi \<Longrightarrow> fi_ModTime fi = si_ModTime (m1_Stat m) \<and> unnumbered fi"
  by (auto simp: m1_ToFileInfo_def unnumbered_def FileInfo0_def split: if_splits)

lemma ToFileInfo_base:
  assumes "xv_ToFileInfo E j volume path allParts = Inr fi"
  shows "getModTime j = Inr (fi_ModTime fi)" and "unnumbered fi"
proof -
  have "getModTime j = Inr (fi_ModTime fi) \<and> unnumbered fi"
    using assms
    by (auto simp: xv_ToFileInfo_def getModTime_def unnest_def deref_def unnumbered_def split: if_splits option.splits sum.splits
        dest!: ob_ToFileInfo_base m1_ToFileInfo_base) (simp_all add: dm_ToFileInfo_base[unfolded unnumbered_def])
  then show "getModTime j = Inr (fi_ModTime fi)" and "unnumbered fi" by blast+
qed

fun numbered :: "int \<Rightarrow> bool \<Rightarrow> gotime \<Rightarrow> FileInfo list \<Rightarrow> FileInfo list" where
  "numbered n latest succ [] = []"
| "numbered n latest succ (fi # fis) =
     fi\<lparr>fi_IsLatest := latest, fi_SuccessorModTime := succ, fi_NumVersions := n\<rparr> # numbered n False (fi_ModTime fi) fis"

lemma number_versions_numbered:
  "list_all unnumbered fis \<Longrightarrow> number_versions n (Some t) fis = numbered n False t fis"
  "list_all unnumbered fis \<Longrightarrow> number_versions n None fis = numbered n True zero_time fis"
proof -
  have later: "number_versions n (Some t) fis = numbered n False t fis" if "list_all unnumbered fis" for t fis
    using that
  proof (induction fis arbitrary: t)
    case (Cons fi fis)
    then show ?case by (cases fi) (simp add: unnumbered_def)
  qed simp
  show "list_all unnumbered fis \<Longrightarrow> number_versions n (Some t) fis = numbered n False t fis" by (rule later)
  show "number_versions n None fis = numbered n True zero_time fis" if "list_all unnumbered fis"
  proof (cases fis)
    case (Cons fi rest)
    then show ?thesis using that later by (cases fi) (simp add: unnumbered_def)
  qed simp
qed

lemma FileInfo_now_fields [simp]:
  "fi_ModTime (FileInfo_now bufs f) = fi_ModTime (fst f)" "unnumbered (FileInfo_now bufs f) = unnumbered (fst f)"
  "FileInfo_now bufs (fi\<lparr>fi_IsLatest := l, fi_SuccessorModTime := t, fi_NumVersions := n\<rparr>, refs)
    = (FileInfo_now bufs (fi, refs))\<lparr>fi_IsLatest := l, fi_SuccessorModTime := t, fi_NumVersions := n\<rparr>"
  by (simp_all add: FileInfo_now_def unnumbered_def split: prod.split)

lemma used_FileInfo_fresh:
  "map_sum id (fst \<circ> fst) (used_FileInfo E L v volume path allParts u) = xv_ToFileInfo E v volume path allParts"
  by (cases "xv_ToFileInfo E v volume path allParts") (simp_all add: used_FileInfo_def split: prod.split)

lemma used_FileInfo_Inr:
  assumes "used_FileInfo E L v volume path allParts u = Inr (f, u')"
  shows "xv_ToFileInfo E v volume path allParts = Inr (fst f)" and "snd f = [] \<or> length (snd f) = length (elems (fi_Parts (fst f)))"
  using assms by (auto simp: used_FileInfo_def andThen_Inr split: prod.splits if_splits)

lemma list_files_Inr:
  "list_files E L metaV volume path allParts vers u = Inr (fs, u') \<Longrightarrow> list_all unnumbered (map fst fs) \<and> length fs = length vers
    \<and> (\<forall>f \<in> set fs. snd f = [] \<or> length (snd f) = length (elems (fi_Parts (fst f))))"
proof (induction vers arbitrary: u fs)
  case (Cons ver vers)
  then obtain v f u1 gs where "used_FileInfo E L v volume path allParts u = Inr (f, u1)"
    "list_files E L metaV volume path allParts vers u1 = Inr (gs, u')" "fs = f # gs"
    by (auto simp: andThen_Inr)
  then show ?case using Cons.IH used_FileInfo_Inr[of E L v volume path allParts u f u1] ToFileInfo_base(2)[of E v volume path allParts "fst f"] by auto
qed simp

fun numbered_refs :: "int \<Rightarrow> bool \<Rightarrow> gotime \<Rightarrow> (FileInfo \<times> index_ref list) list \<Rightarrow> (FileInfo \<times> index_ref list) list" where
  "numbered_refs n latest succ [] = []"
| "numbered_refs n latest succ (f # fs) =
     ((fst f)\<lparr>fi_IsLatest := latest, fi_SuccessorModTime := succ, fi_NumVersions := n\<rparr>, snd f) # numbered_refs n False (fi_ModTime (fst f)) fs"

lemma numbered_refs_now: "map (FileInfo_now bufs) (numbered_refs n latest succ fs) = numbered n latest succ (map (FileInfo_now bufs) fs)"
  by (induction fs arbitrary: latest succ) simp_all

definition same_list ::
  "(FileInfo \<times> index_ref list) list \<Rightarrow> ((FileInfo \<times> index_ref list) list \<Rightarrow> (FileInfo \<times> index_ref list) list)
   \<Rightarrow> gerror + (FileInfo \<times> index_ref list) list \<times> used_variable
   \<Rightarrow> (gotime \<times> bool \<times> (FileInfo \<times> index_ref list) list \<times> used_variable) \<times> gerror option \<Rightarrow> bool" where
  "same_list dst num r v \<longleftrightarrow> (case r of Inl e \<Rightarrow> \<exists>s. v = (s, Some e) | Inr (fs, u) \<Rightarrow> \<exists>t l. v = ((t, l, dst @ num fs, u), None))"

lemma buf_list_loop:
  assumes "file_ok E L" and "\<forall>ver \<in> set vers. \<exists>v. unmarshalV E metaV (sv_meta ver) = Inr (v, []) \<and> Valid v"
  shows "same_list dst (numbered_refs n latest t) (list_files E L metaV volume path allParts vers u)
    (visit (\<lambda>i ver. buf_list E L metaV n volume path allParts i (hdr ver) (sv_meta ver)) i vers (t, latest, dst, u))"
  using assms(2)
proof (induction vers arbitrary: i t latest dst u)
  case (Cons ver vers)
  obtain v where v: "unmarshalV E metaV (sv_meta ver) = Inr (v, [])" "Valid v" using Cons.prems by auto
  show ?case
  proof (cases "used_FileInfo E L v volume path allParts u")
    case (Inl e)
    then have "xv_ToFileInfo E v volume path allParts = Inl e" using used_FileInfo_fresh[of E L v volume path allParts u] by simp
    then show ?thesis using xv_ToFileInfo_error Inl by (simp add: same_list_def buf_list_def v)
  next
    case (Inr r)
    obtain fi refs u1 where r: "r = ((fi, refs), u1)" by (metis surj_pair)
    have "getModTime v = Inr (fi_ModTime fi)" using ToFileInfo_base(1) used_FileInfo_Inr(1) Inr r by fastforce
    then show ?thesis
      using Cons.IH[of "dst @ [(fi\<lparr>fi_IsLatest := latest, fi_SuccessorModTime := t, fi_NumVersions := n\<rparr>, refs)]" False "fi_ModTime fi" u1 "Suc i"]
        Cons.prems Inr r
      by (cases "list_files E L metaV volume path allParts vers u1") (auto simp: same_list_def buf_list_def v)
  qed
qed (simp add: same_list_def)

lemma buf_ListVersions_file:
  assumes "file_ok E L" and "journal_fits E L x" and "journal_ok E x"
  shows "buf_ListVersions E L (journal_bytes E L x) volume path allParts = journal_ListVersions E L x volume path allParts"
proof -
  note st = journal_fitsD[OF assms(2)]
  have "\<forall>ver \<in> set (xl_versions x). \<exists>v. unmarshalV E 3 (sv_meta ver) = Inr (v, []) \<and> Valid v"
    using assms(3) st(1) by (auto simp: journal_ok_def entries_sound_def entry_ok_def)
  note loop = buf_list_loop[OF assms(1) this, of "[]" "int (length (xl_versions x))" True zero_time volume path allParts fresh_variable
      "\<lambda>ver. header_MarshalMsg (xe_M E) (sv_header ver)" 0]
  have bytes: "buf_ListVersions E L (journal_bytes E L x) volume path allParts = (case
      visit (\<lambda>i ver. buf_list E L 3 (int (length (xl_versions x))) volume path allParts i (header_MarshalMsg (xe_M E) (sv_header ver)) (sv_meta ver)) 0
        (xl_versions x) (zero_time, True, [], fresh_variable) of
      (_, Some e) \<Rightarrow> Inl e | ((_, _, dst, u), None) \<Rightarrow> Inr (map (FileInfo_now (uv_bufs u)) dst))"
    by (simp add: buf_ListVersions_def decodeXLHeaders_file[OF assms(1) st(3)] decodeVersions_entries[OF file_okD(1)[OF assms(1)] st(2)])
  show ?thesis
  proof (cases "list_files E L 3 volume path allParts (xl_versions x) fresh_variable")
    case (Inl e)
    then show ?thesis using loop unfolding bytes by (auto simp: same_list_def journal_ListVersions_def st(1))
  next
    case (Inr r)
    obtain fs u where r: "r = (fs, u)" by fastforce
    have "list_all unnumbered (map (FileInfo_now (uv_bufs u)) fs)" "length fs = length (xl_versions x)"
      using list_files_Inr[OF Inr[unfolded r]] by (simp_all add: list_all_iff)
    then show ?thesis
      using loop number_versions_numbered(2)[of "map (FileInfo_now (uv_bufs u)) fs"] unfolding bytes
      by (auto simp: same_list_def journal_ListVersions_def st(1) Inr r numbered_refs_now)
  qed
qed

text \<open>What the list would be if every version were decoded into a fresh variable.\<close>

fun fresh_list :: "xl_env \<Rightarrow> byte \<Rightarrow> string \<Rightarrow> string \<Rightarrow> bool \<Rightarrow> xlMetaV2ShallowVersion list \<Rightarrow> gerror + FileInfo list" where
  "fresh_list E metaV volume path allParts [] = Inr []"
| "fresh_list E metaV volume path allParts (ver # vers) =
     andThen (version_FileInfo E metaV (sv_meta ver) volume path allParts) (\<lambda>fi.
       andThen (fresh_list E metaV volume path allParts vers) (\<lambda>fis. Inr (fi # fis)))"

definition fresh_versions :: "xl_env \<Rightarrow> xlMetaV2 \<Rightarrow> string \<Rightarrow> string \<Rightarrow> bool \<Rightarrow> gerror + FileInfo list" where
  "fresh_versions E x volume path allParts =
     andThen (fresh_list E (xl_metaV x) volume path allParts (xl_versions x)) (\<lambda>fis. Inr (number_versions (int (length fis)) None fis))"

definition without_indices :: "FileInfo \<Rightarrow> FileInfo" where
  "without_indices fi = fi\<lparr>fi_Parts := map_option (map (\<lambda>p. p\<lparr>pt_Index := None\<rparr>)) (fi_Parts fi)\<rparr>"

lemma list_files_fresh:
  "fresh_list E metaV volume path allParts vers = map_sum id (map fst \<circ> fst) (list_files E L metaV volume path allParts vers u)"
proof (induction vers arbitrary: u)
  case (Cons ver vers)
  show ?case
  proof (cases "unmarshalV E metaV (sv_meta ver)")
    case (Inr r)
    obtain v rest where r: "r = (v, rest)" by fastforce
    note f = used_FileInfo_fresh[of E L v volume path allParts u]
    show ?thesis
    proof (cases "used_FileInfo E L v volume path allParts u")
      case (Inr g)
      then have "xv_ToFileInfo E v volume path allParts = Inr (fst (fst g))" using f by simp
      then show ?thesis using Inr Cons.IH[of "snd g"] \<open>unmarshalV E metaV (sv_meta ver) = Inr r\<close> r
        by (cases "list_files E L metaV volume path allParts vers (snd g)") (auto simp: version_FileInfo_def split: prod.splits)
    qed (use f[symmetric] Inr r in \<open>simp add: version_FileInfo_def\<close>)
  qed (simp add: version_FileInfo_def)
qed simp

lemma without_indices_now:
  assumes "snd f = [] \<or> length (snd f) = length (elems (fi_Parts (fst f)))"
  shows "without_indices (FileInfo_now bufs f) = without_indices (fst f)"
proof -
  have same: "length ps = length refs \<Longrightarrow> map (\<lambda>p. p\<lparr>pt_Index := None\<rparr>) (map2 (\<lambda>p r. p\<lparr>pt_Index := index_now bufs r\<rparr>) ps refs)
      = map (\<lambda>p. p\<lparr>pt_Index := None\<rparr>) ps" for ps :: "ObjectPartInfo list" and refs
    by (induction ps refs rule: list_induct2) simp_all
  obtain fi refs where f: "f = (fi, refs)" by fastforce
  show ?thesis
  proof (cases "refs = []")
    case False
    then obtain ps where ps: "fi_Parts fi = Some ps" "length ps = length refs"
      using assms f by (cases "fi_Parts fi") (auto simp: elems_def)
    then have "FileInfo_now bufs f = fi\<lparr>fi_Parts := Some (map2 (\<lambda>p r. p\<lparr>pt_Index := index_now bufs r\<rparr>) ps refs)\<rparr>"
      using False by (simp add: f FileInfo_now_def)
    then show ?thesis using ps(1) by (simp only: without_indices_def f fst_conv) (simp add: same[OF ps(2)] del: map_map)
  qed (simp add: f FileInfo_now_def)
qed

lemma without_indices_fields:
  "fi_ModTime (without_indices fi) = fi_ModTime fi"
  "without_indices (fi\<lparr>fi_NumVersions := n, fi_IsLatest := l\<rparr>) = (without_indices fi)\<lparr>fi_NumVersions := n, fi_IsLatest := l\<rparr>"
  "without_indices (fi\<lparr>fi_NumVersions := n, fi_SuccessorModTime := t\<rparr>) = (without_indices fi)\<lparr>fi_NumVersions := n, fi_SuccessorModTime := t\<rparr>"
  by (simp_all add: without_indices_def)

lemma number_without: "map without_indices (number_versions n prev fis) = number_versions n prev (map without_indices fis)"
  by (induction n prev fis rule: number_versions.induct) (simp_all add: without_indices_fields split: option.split)

lemma journal_ListVersions_fresh:
  "map_sum id (map without_indices) (journal_ListVersions E L x volume path allParts) = map_sum id (map without_indices) (fresh_versions E x volume path allParts)"
proof (cases "list_files E L (xl_metaV x) volume path allParts (xl_versions x) fresh_variable")
  case (Inr r)
  obtain fs u where r: "r = (fs, u)" by fastforce
  have m: "map without_indices (map (FileInfo_now (uv_bufs u)) fs) = map without_indices (map fst fs)"
    using list_files_Inr[OF Inr[unfolded r]] without_indices_now by simp
  have j: "journal_ListVersions E L x volume path allParts = Inr (number_versions (int (length fs)) None (map (FileInfo_now (uv_bufs u)) fs))"
    by (simp add: journal_ListVersions_def Inr r)
  have f: "fresh_versions E x volume path allParts = Inr (number_versions (int (length fs)) None (map fst fs))"
    using list_files_fresh[of E "xl_metaV x" volume path allParts "xl_versions x" L fresh_variable] by (simp add: fresh_versions_def Inr r)
  show ?thesis unfolding j f by (simp only: map_sum.simps number_without m)
qed (use list_files_fresh[of E "xl_metaV x" volume path allParts "xl_versions x" L fresh_variable] in
  \<open>simp add: journal_ListVersions_def fresh_versions_def\<close>)

text \<open>C14: The list of all versions read from the bytes of a file is the list of the loaded journal, an empty one reads as deleted. Both
  decode all versions into one variable, whose index buffers the listed parts share: but for the compression indices of parts (which a
  later version may have overwritten), the list is that of the versions each decoded by itself.\<close>

theorem list_versions_exact:
  assumes "file_ok E L" and "journal_fits E L x" and "journal_ok E x" and "AppendTo E L x [] = Inr buf"
  shows "getAllFileInfoVersions E L buf volume path allParts = andThen (journal_ListVersions E L x volume path allParts) (\<lambda>vs.
    let vs = (if vs = [] then [deleted_FileInfo volume path []] else vs)
    in Inr \<lparr>fv_Volume = volume, fv_Name = path, fv_LatestModTime = fi_ModTime (hd vs), fv_Versions = vs, fv_FreeVersions = []\<rparr>)
  \<and> map_sum id (map without_indices) (journal_ListVersions E L x volume path allParts)
    = map_sum id (map without_indices) (fresh_versions E x volume path allParts)"
proof (rule conjI[OF _ journal_ListVersions_fresh])
  note data = AppendTo_Inr(2)[OF assms(1,4)]
  have deleted: "FileInfo0\<lparr>fi_Volume := volume, fi_Name := path, fi_Deleted := True, fi_IsLatest := True, fi_ModTime := timeSentinel1970\<rparr>
      = deleted_FileInfo volume path []"
    by (simp add: deleted_FileInfo_def FileInfo0_def)
  show "getAllFileInfoVersions E L buf volume path allParts = andThen (journal_ListVersions E L x volume path allParts) (\<lambda>vs.
    let vs = (if vs = [] then [deleted_FileInfo volume path []] else vs)
    in Inr \<lparr>fv_Volume = volume, fv_Name = path, fv_LatestModTime = fi_ModTime (hd vs), fv_Versions = vs, fv_FreeVersions = []\<rparr>)"
    unfolding AppendTo_Inr(1)[OF assms(1,4)] getAllFileInfoVersions_def
    by (simp add: isIndexedMetaV2_file[OF assms(1) journal_fitsD(4)[OF assms(2)] data] buf_ListVersions_file[OF assms(1-3)] deleted cong: if_cong)
qed

section \<open>Indices that share a buffer\<close>

text \<open>A buffer has room for what is read into it. Then an index, seen at once, is the one that was decoded.\<close>

definition buffers_fit :: "file_lib \<Rightarrow> bool" where
  "buffers_fit L \<longleftrightarrow> (\<forall>room n. case fl_NewBuffer L room n of None \<Rightarrow> n \<le> room | Some capacity \<Rightarrow> n \<le> capacity)"

definition slots_ok :: "byte list list \<Rightarrow> nat option list \<Rightarrow> bool" where
  "slots_ok bufs slots \<longleftrightarrow> distinct (filter (\<lambda>s. s \<noteq> None) slots) \<and> (\<forall>a. Some a \<in> set slots \<longrightarrow> a < length bufs)"

lemma ReadBytesInto_frame:
  assumes "buffers_fit L" and "\<forall>a. s = Some a \<longrightarrow> a < length bufs" and "ReadBytesInto L bufs s v = (bufs', s')"
  shows "length bufs \<le> length bufs'" and "b < length bufs \<Longrightarrow> s \<noteq> Some b \<Longrightarrow> bufs' ! b = bufs ! b"
    and "elems (index_now bufs' (map_option (\<lambda>a. (a, length v)) s')) = v"
    and "s' = s \<or> s' = Some (length bufs)" and "s' = Some a \<Longrightarrow> a < length bufs'"
proof -
  have law: "case fl_NewBuffer L (case s of None \<Rightarrow> 0 | Some a \<Rightarrow> length (bufs ! a)) (length v) of
      None \<Rightarrow> length v \<le> (case s of None \<Rightarrow> 0 | Some a \<Rightarrow> length (bufs ! a)) | Some capacity \<Rightarrow> length v \<le> capacity"
    using assms(1) unfolding buffers_fit_def by blast
  show "length bufs \<le> length bufs'" "b < length bufs \<Longrightarrow> s \<noteq> Some b \<Longrightarrow> bufs' ! b = bufs ! b"
    "elems (index_now bufs' (map_option (\<lambda>a. (a, length v)) s')) = v" "s' = s \<or> s' = Some (length bufs)" "s' = Some a \<Longrightarrow> a < length bufs'"
    using assms(2,3) law
    by (auto simp: ReadBytesInto_def index_now_def elems_def nth_append split: option.splits)
qed

lemma index_seen_at_once:
  assumes "buffers_fit L" and "slots_ok bufs slots" and "length vs \<le> length slots" and "read_indices L bufs slots vs = (bufs', slots', refs)"
  shows "length bufs \<le> length bufs' \<and> (\<forall>b < length bufs. Some b \<notin> set slots \<longrightarrow> bufs' ! b = bufs ! b)
    \<and> map (\<lambda>r. elems (index_now bufs' r)) refs = map elems vs"
  using assms(2-4)
proof (induction vs arbitrary: bufs slots bufs' slots' refs)
  case (Cons v vs)
  obtain s rest where slots: "slots = s # rest" using Cons.prems(2) by (cases slots) auto
  obtain bufs1 s1 where one: "ReadBytesInto L bufs s (elems v) = (bufs1, s1)" by fastforce
  obtain bufs2 slots2 refs2 where more: "read_indices L bufs1 rest vs = (bufs2, slots2, refs2)" by (metis surj_pair)
  have s: "\<forall>a. s = Some a \<longrightarrow> a < length bufs" using Cons.prems(1) by (simp add: slots_ok_def slots)
  note f = ReadBytesInto_frame[OF assms(1) s one]
  have ok: "slots_ok bufs1 rest" using Cons.prems(1) f(1) by (auto simp: slots_ok_def slots split: if_splits)
  note IH = Cons.IH[OF ok _ more]
  have "index_now bufs2 (map_option (\<lambda>a. (a, length (elems v))) s1) = index_now bufs1 (map_option (\<lambda>a. (a, length (elems v))) s1)"
  proof (cases s1)
    case (Some a)
    have "Some a \<notin> set rest" using f(4) Some Cons.prems(1) by (auto simp: slots_ok_def slots)
    then show ?thesis using IH Cons.prems(2) f(5)[OF Some] by (simp add: Some index_now_def slots)
  qed (simp add: index_now_def)
  moreover have "bufs2 ! b = bufs ! b" if "b < length bufs" "Some b \<notin> set slots" for b
    using IH Cons.prems(2) f(1) f(2)[OF that(1)] that by (auto simp: slots)
  ultimately show ?case using IH Cons.prems(2,3) f(1,3) by (auto simp: slots one more)
qed (cases slots; simp)

text \<open>Seen when the next version has been decoded, it is what that one overwrote it with.\<close>

definition with_index :: "byte list \<Rightarrow> xlMetaV2Version" where
  "with_index v = (sample_version CHR ''a'' CHR ''x'' 5)\<lparr>xv_ObjectV2 := Some (object_one\<lparr>ob_PartIndices := Some [Some v]\<rparr>)\<rparr>"

lemma index_overwritten:
  assumes "\<And>room n. fl_NewBuffer L room n = (if n \<le> room then None else Some n)"
    and "decode_used L fresh_variable (with_index [1, 2, 3]) = (u1, [r1])" and "decode_used L u1 (with_index [7, 8]) = (u2, [r2])"
  shows "index_now (uv_bufs u1) r1 = Some [1, 2, 3]" and "index_now (uv_bufs u2) r1 = Some [7, 8, 3]" and "index_now (uv_bufs u2) r2 = Some [7, 8]"
  using assms by (auto simp: decode_used_def with_index_def fresh_variable_def ReadBytesInto_def index_now_def elems_def)

section \<open>A concrete library\<close>

text \<open>The widest formats, and the array header of seven that the headers of versions begin with.\<close>

definition packed_msgp :: msgp where
  "packed_msgp = wide_msgp\<lparr>ReadArrayHeaderBytes := (\<lambda>b. case b of
     [] \<Rightarrow> ReadArrayHeaderBytes wide_msgp b | t # r \<Rightarrow> if t = 0x97 then Inr (7, r) else ReadArrayHeaderBytes wide_msgp b)\<rparr>"

definition packed_lib :: file_lib where
  "packed_lib = \<lparr>fl_AppendUint = (\<lambda>b v. b @ wide 0xCC 0 0 [ucast v]),
     fl_ReadExactBytes = (\<lambda>n b. andThen (unwide_body 0xC6 b) (\<lambda>(v, r). if length v = n then Inr (v, r) else Inl (OtherErr ''msgp: wrong array size''))),
     fl_ReadUint32Bytes = (\<lambda>b. into word_of_nat (unwide 0xCE 4 b)),
     fl_ReadBytesHeader = (\<lambda>b. into word_of_nat (unwide 0xC6 4 b)),
     fl_NewBuffer = (\<lambda>room n. if n \<le> room then None else Some n),
     fl_Json = (\<lambda>b. Inl ErrUnexpected)\<rparr>"

definition file_surroundings :: xl_env where
  "file_surroundings = sample_surroundings\<lparr>xe_M := packed_msgp\<rparr>"

lemma packed_msgp_ok: "msgp_ok packed_msgp"
  using wide_msgp_ok by (auto simp: msgp_ok_def packed_msgp_def wide_msgp_def reads_back_def wide_def)

lemma file_surroundings_ok: "file_ok file_surroundings packed_lib"
proof -
  have b: "short v \<Longrightarrow> unwide_body 0xC6 (0xC6 # be_bytes 4 (length v) @ v @ r) = Inr (v, r)" for v r
    using unwide_body_wide[of v "0xC6" r] by (simp add: short_def wide_def)
  have n: "n < 2 ^ 32 \<Longrightarrow> unwide tag 4 (tag # be_bytes 4 n @ r) = Inr (n, r)" for tag n r
    using unwide_wide[of n 4 tag "[]" r] by (simp add: wide_def)
  have c: "unwide tag 4 (tag # be_bytes 4 (unat (c :: 32 word)) @ r) = Inr (unat c, r)" for tag c r
    using n[of "unat c" tag r] unsigned_less[of c] by simp
  have M: "xe_M file_surroundings = packed_msgp" by (simp add: file_surroundings_def)
  have sel: "AppendBytes packed_msgp [] v = 0xC6 # be_bytes 4 (length v) @ v" "ReadBytesZC packed_msgp = unwide_body 0xC6"
    "ReadUint8Bytes packed_msgp (0xCC # u # r) = Inr (u, r)" "ReadArrayHeaderBytes packed_msgp (0x97 # r) = Inr (7, r)" for v u r
    by (simp_all add: packed_msgp_def wide_msgp_def wide_def fun_eq_iff)
  have lib: "fl_AppendUint packed_lib b v = b @ [0xCC, ucast v]" "fl_ReadUint32Bytes packed_lib b = into word_of_nat (unwide 0xCE 4 b)"
    "fl_ReadBytesHeader packed_lib b = into word_of_nat (unwide 0xC6 4 b)"
    "fl_ReadExactBytes packed_lib k b = andThen (unwide_body 0xC6 b) (\<lambda>(v, r). if length v = k then Inr (v, r) else Inl (OtherErr ''msgp: wrong array size''))"
    for b v k by (simp_all add: packed_lib_def wide_def)
  have up: "ucast (ucast v :: 64 word) = v" for v :: byte by (simp add: ucast_up_ucast_id is_up)
  have "xe_Unmarshal file_surroundings u \<noteq> Inl errDoneForNow" for u
    by (simp add: file_surroundings_def sample_surroundings_def place_env_def errDoneForNow_def split: list.split)
  then show ?thesis
    unfolding file_ok_def M using packed_msgp_ok by (simp add: appends_def lib sel b c n up)
qed

definition file_journal :: xlMetaV2 where
  "file_journal = sample_two\<lparr>xl_data := inline_serialize packed_msgp [(''null'', [1, 2])]\<rparr>"

text \<open>The sound entries do not depend on how MessagePack writes.\<close>

lemma other_msgp: "entry_ok (E\<lparr>xe_M := M\<rparr>) mv e = entry_ok E mv e"
proof -
  let ?F = "\<lambda>E. E\<lparr>xe_M := M\<rparr>"
  have f: "xe_xxhash (?F E) = xe_xxhash E" "xe_xxh3 (?F E) = xe_xxh3 E" "xe_ord (?F E) = xe_ord E" "xe_bord (?F E) = xe_bord E"
    "xe_MarshalObject (?F E) = xe_MarshalObject E" "xe_MarshalMarker (?F E) = xe_MarshalMarker E"
    "xe_MarshalLegacy (?F E) = xe_MarshalLegacy E" "xe_Clock (?F E) = xe_Clock E" "xe_ParseRFC (?F E) = xe_ParseRFC E"
    "xe_FormatRFC (?F E) = xe_FormatRFC E" "xe_Unmarshal (?F E) = xe_Unmarshal E" "xe_DataDir (?F E) = xe_DataDir E" for E by simp_all
  have h: "header_of_object (?F E) = header_of_object E" "header_of_marker (?F E) = header_of_marker E" "header_of_legacy (?F E) = header_of_legacy E"
    and u: "fix_stamps (?F E) = fix_stamps E" "utc_marker (?F E) = utc_marker E" for E
    unfolding fun_eq_iff header_of_object_def header_of_marker_def header_of_legacy_def ob_Signature_def dm_Signature_def
      m1_Signature_def with_bytes_def hashDeterministicString_def hashDeterministicBytes_def fix_stamps_def fix_stamp_def utc_marker_def utc_stamp_def f
    by simp_all
  have r: "header (?F E) v = header E v" "unmarshalV (?F E) w bs = unmarshalV E w bs" "canonical (?F E) v = canonical E v" for E v w bs
    unfolding header_def h unmarshalV_def canonical_def u f by simp_all
  have "at_time t (?F E) = ?F (at_time t E)" for t by (simp add: at_time_def)
  then have "header_since (?F E) v x = header_since E v x" for v x by (simp add: header_since_def r f)
  then show ?thesis by (simp add: entry_ok_def r f)
qed

lemma file_journal_ok: "journal_ok file_surroundings file_journal"
  using sample_journals_ok(2) by (simp add: journal_ok_def entries_sound_def file_surroundings_def other_msgp file_journal_def)

lemma packed_lengths [simp]:
  "length (enc_bytes packed_msgp v) = length v + 5" "length (enc_i64 packed_msgp i) = 9" "length (enc_int packed_msgp i) = 9"
  "length (enc_u8 packed_msgp u) = 2" "length (fl_AppendUint packed_lib [] w) = 2"
  by (simp_all add: enc_bytes_def enc_i64_def enc_int_def enc_u8_def packed_msgp_def packed_lib_def wide_msgp_def wide_def)

lemma header_of_object_fits:
  assumes "length (ob_VersionID ob) = 16"
  shows "header_fits packed_msgp (header_of_object E ob)" and "length (header_bytes packed_msgp (header_of_object E ob)) = 48"
proof -
  have "length (ob_Signature E ob) = 4" by (simp add: ob_Signature_def with_bytes_def fold_crc_def Let_def split: sum.split)
  then show "length (header_bytes packed_msgp (header_of_object E ob)) = 48" and "header_fits packed_msgp (header_of_object E ob)"
    using assms by (simp_all add: header_fits_def header_MarshalMsg_bytes[OF packed_msgp_ok] header_bytes_def header_of_object_def short_def UnixNano_def)
qed

lemma file_journal_fits: "journal_fits file_surroundings packed_lib file_journal"
proof -
  have l: "length (ob_VersionID object_one) = 16" "length (ob_VersionID object_two) = 16" by (simp_all add: object_fields)
  show ?thesis
    using header_of_object_fits[OF l(1)] header_of_object_fits[OF l(2)]
    by (simp add: journal_fits_def file_journal_def sample_two_def file_surroundings_def journal_bytes_def entry_bytes_def short_def xlMetaVersion_def)
qed

lemma file_journal_data: "inline_validate packed_msgp (xl_data file_journal) = None"
  using valid_data[OF packed_msgp_ok, of "xl_data file_journal" "[(''null'', [1, 2])]"]
  by (simp add: holds_data_def entries_ok_def short_def file_journal_def)

lemma file_journal_written: "AppendTo file_surroundings packed_lib file_journal [] = Inr (file_bytes file_surroundings packed_lib file_journal)"
  using AppendTo_bytes[OF file_surroundings_ok, of file_journal "[]"] file_journal_data by (simp add: file_surroundings_def)

theorem xl_file_roundtrip_witness:
  "\<exists>buf. AppendTo file_surroundings packed_lib file_journal [] = Inr buf \<and> LoadOrConvert file_surroundings packed_lib buf = Inr file_journal"
  using xl_file_roundtrip[OF file_surroundings_ok file_journal_fits file_journal_written] file_journal_written by blast

theorem xl_file_without_data_witness:
  "\<exists>buf. AppendTo file_surroundings packed_lib file_journal [] = Inr buf \<and> xlMetaV2TrimData file_surroundings packed_lib buf \<noteq> buf
    \<and> Load file_surroundings packed_lib (xlMetaV2TrimData file_surroundings packed_lib buf) = Inr (file_journal\<lparr>xl_data := []\<rparr>)"
  using xl_file_without_data[OF file_surroundings_ok file_journal_fits file_journal_written] file_journal_written
  by (auto simp: file_journal_def sample_two_def serialize_eq[OF packed_msgp_ok])

lemma ob_ToFileInfo_some:
  "ob_parts j = Inr ps \<Longrightarrow> \<exists>fi. ob_ToFileInfo E j volume path True = Inr fi \<and> fi_ModTime fi = Unix0 (ob_ModTime j)"
  by (simp add: ob_ToFileInfo_def Let_def)

lemma sample_parts:
  "\<exists>ob. xv_ObjectV2 (sample_version i d t) = Some ob \<and> ob_parts (clean_etags ob) = Inr [] \<and> ob_ModTime (clean_etags ob) = UnixNano t"
  "xv_Type (sample_version i d t) = ObjectType"
  by (simp_all add: sample_version_def sample_put_def new_version_def new_object_def version0_def clean_etags_def ob_parts_def FileInfo0_def Let_def place_env_def)

lemma sample_FileInfo:
  assumes "xe_Unmarshal E b = Inr (sample_version i d t, [])"
  shows "\<exists>fi. version_FileInfo E 3 b volume path True = Inr fi \<and> fi_ModTime fi = Unix0 (UnixNano t)"
proof -
  obtain ob where ob: "xv_ObjectV2 (sample_version i d t) = Some ob" "ob_parts (clean_etags ob) = Inr []" "ob_ModTime (clean_etags ob) = UnixNano t"
    using sample_parts(1) by blast
  obtain fi where "ob_ToFileInfo E (clean_etags ob) volume path True = Inr fi" "fi_ModTime fi = Unix0 (UnixNano t)"
    using ob_ToFileInfo_some[OF ob(2)] ob(3) by metis
  then show ?thesis
    using assms ob(1) by (simp add: version_FileInfo_def unmarshalV_def xlMetaVersion_def xv_ToFileInfo_def sample_parts(2) unnest_def)
qed

lemma file_journal_version:
  "\<exists>fi. version_FileInfo file_surroundings 3 [0] volume path True = Inr fi \<and> fi_ModTime fi = 5"
  "\<exists>fi. version_FileInfo file_surroundings 3 [1] volume path True = Inr fi \<and> fi_ModTime fi = 9"
proof -
  have "xe_Unmarshal file_surroundings [0] = Inr (sample_version CHR ''a'' CHR ''x'' 5, [])"
    "xe_Unmarshal file_surroundings [1] = Inr (sample_version CHR ''b'' CHR ''y'' 9, [])"
    by (simp_all add: file_surroundings_def sample_surroundings_def place_env_def)
  from this[THEN sample_FileInfo, of volume path]
  show "\<exists>fi. version_FileInfo file_surroundings 3 [0] volume path True = Inr fi \<and> fi_ModTime fi = 5"
    and "\<exists>fi. version_FileInfo file_surroundings 3 [1] volume path True = Inr fi \<and> fi_ModTime fi = 9"
    by (simp_all add: Unix0_def UnixNano_def int64_def)
qed

lemma file_journal_view:
  "\<exists>fi. version_view file_surroundings file_journal volume path (replicate 16 CHR ''a'') True = Inr fi
    \<and> fi_ModTime fi = 5 \<and> fi_NumVersions fi = 2 \<and> \<not> fi_IsLatest fi \<and> fi_SuccessorModTime fi = 9"
proof -
  have id: "parse_id file_surroundings (replicate 16 CHR ''a'') = Some (replicate 16 97)"
    using sample_parse[of "CHR ''a''"] by (simp add: parse_id_def file_surroundings_def split: if_splits)
  have c: "candidates (replicate 16 97) (xl_versions file_journal) = [entry_two, entry_one]"
    "non_free (xl_versions file_journal) = [entry_two, entry_one]"
    by (simp_all add: candidates_def non_free_def file_journal_def sample_two_def header_FreeVersion_def header_of_object_def xlFlagFreeVersion_def xlFlagUsesDataDir_def xlFlagInlineData_def)
  have u: "unwanted (replicate 16 CHR ''a'') (replicate 16 97) (entry_two)" "\<not> unwanted (replicate 16 CHR ''a'') (replicate 16 97) (entry_one)"
    using entry_fields(1,2) by (simp_all add: unwanted_def eval_nat_numeral)
  have d: "dropWhile (unwanted (replicate 16 CHR ''a'') (replicate 16 97)) [entry_two, entry_one] = [entry_one]"
    "takeWhile (unwanted (replicate 16 CHR ''a'') (replicate 16 97)) [entry_two, entry_one] = [entry_two]"
    using u by simp_all
  show ?thesis
    using file_journal_version(1)[of volume path]
    unfolding version_view_def id option.case c Let_def d list.case
    using entry_fields(4) by (auto simp: file_journal_def sample_two_def Unix0_def)
qed

theorem get_file_info_exact_witness:
  "\<exists>buf fi. AppendTo file_surroundings packed_lib file_journal [] = Inr buf
    \<and> getFileInfo file_surroundings packed_lib buf ''b'' ''o'' (replicate 16 CHR ''a'') False False = Inr fi
    \<and> fi_ModTime fi = 5 \<and> fi_NumVersions fi = 2 \<and> \<not> fi_IsLatest fi \<and> fi_SuccessorModTime fi = 9"
  using get_file_info_exact[OF file_surroundings_ok file_journal_fits file_journal_written, of "''b''" "''o''" "replicate 16 CHR ''a''" False False] file_journal_written
  using file_journal_view[of "''b''" "''o''"] by (auto simp: with_data_def)

lemma file_journal_list:
  "\<exists>a b. journal_ListVersions file_surroundings packed_lib file_journal volume path True = Inr [a, b]
    \<and> fi_ModTime a = 9 \<and> fi_ModTime b = 5 \<and> fi_IsLatest a \<and> fi_SuccessorModTime b = 9"
proof -
  obtain a b where f: "fresh_versions file_surroundings file_journal volume path True = Inr [a, b]"
    and t: "fi_ModTime a = 9" "fi_ModTime b = 5" "fi_IsLatest a" "fi_SuccessorModTime b = 9"
    using file_journal_version[of volume path] by (auto simp: fresh_versions_def file_journal_def sample_two_def)
  obtain vs where vs: "journal_ListVersions file_surroundings packed_lib file_journal volume path True = Inr vs"
    "map without_indices vs = [without_indices a, without_indices b]"
    using journal_ListVersions_fresh[of file_surroundings packed_lib file_journal volume path True] unfolding f
    by (cases "journal_ListVersions file_surroundings packed_lib file_journal volume path True") simp_all
  obtain a' b' where "vs = [a', b']" "without_indices a' = without_indices a" "without_indices b' = without_indices b" using vs(2) by auto
  moreover have "without_indices c = without_indices d \<Longrightarrow> fi_ModTime c = fi_ModTime d \<and> fi_IsLatest c = fi_IsLatest d
      \<and> fi_SuccessorModTime c = fi_SuccessorModTime d" for c d
    by (cases c; cases d) (simp add: without_indices_def)
  ultimately show ?thesis using vs(1) t by metis
qed

theorem list_versions_exact_witness:
  "\<exists>buf f. AppendTo file_surroundings packed_lib file_journal [] = Inr buf
    \<and> getAllFileInfoVersions file_surroundings packed_lib buf ''b'' ''o'' True = Inr f
    \<and> map fi_ModTime (fv_Versions f) = [9, 5] \<and> fi_IsLatest (hd (fv_Versions f))"
  using list_versions_exact[OF file_surroundings_ok file_journal_fits file_journal_ok file_journal_written, of "''b''" "''o''" True]
    file_journal_list[of "''b''" "''o''"] file_journal_written
  by auto

end
