(* ===== verification/Spec2Isabelle.thy ===== *)
theory Spec2Isabelle
  imports Heal_Check Dsync_Mutex Disk_Shuffle FastOpen_Serve Ring_Pipe Ns_Lock Erasure_Get XL_File_Spec Path_Join
begin

text \<open>
  Buckit is a distributed object store. An object is cut into parts, a part into blocks, a
  block into data and parity shards, one for each drive of an erasure set; a drive keeps, per
  object, a journal of its versions (\<open>xl.meta\<close>) and the shard files with a hash per block. What an
  operation returns is what a quorum of the drives agrees on, and operations on the same
  name exclude each other by a lock that a quorum of the nodes grants. This development models that
  core: the layout, the streams of shards, the protection, the journal and its file, the agreement, the locks and the
  single-trip GET.

  Parts and theories, in the order they build on each other (paths under \<open>src/\<close>):

  \<^item> \<open>Go_Prelude\<close>: Go's slices, maps, truncating division and 64-bit integers; the iteration order
    of a map is a function that permutes its entries (\<open>range_order\<close>), so a theorem for every such
    function holds whatever order the runtime picks.
  \<^item> \<open>Go_Errors\<close>: the error values of \<open>cmd/storage-errors.go\<close> and \<open>cmd/object-api-errors.go\<close> as one
    datatype \<open>gerror\<close> with \<open>errors.Is\<close>; \<open>time.Time\<close> as nanoseconds, the zero time as 0 (so the instant of the epoch
    counts as the zero time). \<open>Object_Errors\<close>: \<open>toObjectErr\<close>, which compares messages.
  \<^item> \<open>Erasure_Layout\<close> (\<open>cmd/erasure-coding.go\<close>): shard sizes, offsets, part sizes. The Reed-Solomon
    matrix (third party) is a parameter of \<open>EncodeData\<close> and \<open>DecodeDataBlocks\<close>.
  \<^item> \<open>Bitrot\<close> (\<open>cmd/bitrot.go\<close>, \<open>cmd/bitrot-streaming.go\<close>): writer, reader and verifier of the
    interleaved hashes. The hash functions are a parameter.
  \<^item> \<open>Ring_Buffer\<close>, \<open>Ring_Pipe\<close> (\<open>internal/ringbuffer/ring_buffer.go\<close>, \<open>cmd/bitrot-streaming.go\<close>): the buffer between a
    bitrot writer and its drive, and the two goroutines on its ends, which interleave at their critical sections, with the
    deadlines of writes and drives that return early.
  \<^item> \<open>Erasure_Read\<close>, \<open>Erasure_Write\<close>, \<open>Erasure_Decode\<close> (\<open>cmd/erasure-decode.go\<close>, \<open>cmd/erasure-encode.go\<close>,
    \<open>cmd/erasure-utils.go\<close>): the parallel reader as a transition system of its goroutines, the writer, and
    the loops \<open>Encode\<close>, \<open>Decode\<close> and \<open>Heal\<close> over the blocks. \<open>Erasure_Live\<close> and \<open>Erasure_Heal\<close>: that they get to their
    end, and what a healed shard holds. \<open>Erasure_Stack\<close>: all that on bitrot readers and writers.
    \<open>Erasure_Get\<close> (\<open>cmd/erasure-object.go\<close>, \<open>cmd/bitrot-whole.go\<close>): \<open>getObjectWithFileInfo\<close> over the parts of an object.
  \<^item> \<open>File_Info\<close> (\<open>cmd/storage-datatypes.go\<close>, \<open>cmd/xl-storage-format-v1.go\<close>, \<open>cmd/erasure-metadata.go\<close>,
    \<open>internal/crypto\<close>, \<open>cmd/bucket-lifecycle.go\<close>): the metadata of a version and its methods. \<open>Replication_Status\<close>
    (\<open>cmd/bucket-replication-utils.go\<close>): the status strings of its targets.
  \<^item> \<open>XL_Header\<close>, \<open>XL_Merge\<close> (\<open>cmd/xl-storage-format-v2.go\<close>): the header of a version, and the merge of the
    journals of several drives. \<open>XL_Inline\<close> (\<open>cmd/xl-storage-meta-inline.go\<close>): the inline data.
  \<^item> \<open>XL_Version\<close>, \<open>XL_Same\<close>: the kinds of versions, their validity, signature and conversion to a \<open>FileInfo\<close>; when two
    have the same contents. \<open>XL_Journal\<close>: the operations of \<open>xlMetaV2\<close> in memory; their theorems are in \<open>XL_Journal_Inv\<close>,
    \<open>XL_Journal_Ops\<close>, \<open>XL_Journal_Delete\<close> and \<open>XL_Journal_Spec\<close>.
  \<^item> \<open>XL_File\<close>, \<open>XL_Load\<close> (also \<open>cmd/xl-storage-format-v2-legacy.go\<close>): the bytes of \<open>xl.meta\<close>, written and loaded, in
    the formats the code reads. \<open>XL_View\<close> (also \<open>cmd/xl-storage-format-utils.go\<close>): a version or all of them as \<open>FileInfo\<close>, from the
    loaded journal and from the bytes; the buffers that listed versions share are an explicit store. Their theorems are in \<open>XL_File_Spec\<close>.
  \<^item> \<open>Quorum_Meta\<close> (\<open>cmd/erasure-metadata-utils.go\<close>, \<open>cmd/erasure-metadata.go\<close>,
    \<open>cmd/erasure-healing-common.go\<close>): the reductions of the drives' answers to one.
  \<^item> \<open>Heal_Check\<close> (\<open>cmd/erasure-metadata.go\<close>, \<open>cmd/erasure-healing-common.go\<close>, \<open>cmd/erasure-healing.go\<close>):
    writing metadata to all drives with a revert, the state of each part on each drive, which copies are
    to be healed, which objects are dangling and purged.
  \<^item> \<open>Crc32\<close>, \<open>Disk_Shuffle\<close> (\<open>cmd/erasure-sets.go\<close>, \<open>cmd/erasure-metadata-utils.go\<close>): the set of a name, the
    order of its shards, the functions that reorder drives and metadata. SipHash is a parameter.
    \<open>Path_Join\<close> (\<open>cmd/object-api-utils.go\<close>): \<open>pathJoin\<close> against \<open>path.Join\<close>.
  \<^item> \<open>Net_Locker\<close>, \<open>Local_Locker\<close> (\<open>internal/dsync/locker.go\<close>, \<open>cmd/local-locker.go\<close>): the interface of a
    lock server and the server of a node.
  \<^item> \<open>Dsync_Mutex\<close> (\<open>internal/dsync/drwmutex.go\<close>): the client of the lock servers. Its functions one
    by one, and the protocol as a transition function on a world of servers, clients and
    messages in flight, with requests and answers that get lost or come late.
  \<^item> \<open>Ns_Lock\<close> (\<open>internal/lsync/lrwmutex.go\<close>, \<open>cmd/namespace-lock.go\<close>): the locks of a single node, as goroutines that
    interleave.
  \<^item> \<open>FastOpen_Frame\<close> (\<open>cmd/fastopen-frame.go\<close>): the frame in front of a FastOpen stream. \<open>FastOpen_Node\<close>
    (\<open>cmd/fastopen-part.go\<close>): the drive that answers with frame and body. \<open>FastOpen_Get\<close>, with its theorems in \<open>FastOpen_Serve\<close>
    (\<open>cmd/fastopen-get.go\<close>): the coordinator, its waves of requests, readers and replacements.

  Correspondence. A Go struct is a record with the fields of the struct behind a two-letter
  prefix, a method is a function of that record, a slice that may be nil is an \<open>option\<close> of a list, an
  error result is a sum or an \<open>option\<close>. A function with a receiver that it changes returns the new one.
  A panic is the error \<open>GoPanic\<close>. Of an error only what the code compares is kept. Integers are \<open>int\<close> where the code's values are
  sizes bounded by the file system, and words where they are hashed, counted modulo their width or on the wire. Loops over
  slices are recursive functions of their own, named after the loop.

  Parameters. What is not under \<open>src/\<close> is an argument: MessagePack (\<open>msgp\<close>, \<open>file_lib\<close>), the codec of versions, xxHash, the uuid package
  and the clock (\<open>xl_env\<close>), the Reed-Solomon code, hashes, a drive's operations. What is used of them are the laws \<open>msgp_ok\<close>,
  \<open>file_ok\<close> (a reader takes off what its writer appended), \<open>xl_env_ok\<close> (a marshalled version is unmarshalled with the same contents)
  and \<open>rs_code\<close> (a code repairs damaged shards); each has an instance for which the theorems are evaluated.

  Interfaces. \<open>keyed_store\<close> (lookup after update) is the contract of the metadata map and of the part
  table, \<open>guarded_store\<close> the same for keys and values that fit, of which the inline data are one; \<open>vote_scan\<close> (the entry
  returned has the most votes) is that of the three loops that look for the
  most frequent value; \<open>net_locker\<close> is what the distributed mutex relies on at a lock server; \<open>shard_reader\<close> and
  \<open>shard_writer\<close> are what \<open>Decode\<close>, \<open>Encode\<close> and \<open>Heal\<close> rely on at a drive (a reader returns a block of its shard or an
  error, a writer that has not failed holds what it was given), \<open>live_reader\<close>, \<open>shard_healer\<close> and \<open>live_healer\<close> extend them for the drives
  that answer. Each is interpreted on the model's own functions, the shard interfaces on the bitrot readers and writers.

  Lemma groups. Of the layout: sizes and offsets cover the object exactly. Of bitrot: what is written
  is read back and verified, what is altered is not. Of the streams: a read is the same for every order of its goroutines and ends;
  what was put is got whatever drives fail, up to the parity, or damage their shards in a way their hashes show (a shard of another write
  with hashes of its own is not damage that a hash shows); a GET never delivers wrong bytes; healing restores the shards; the pipe
  ends. Of the journal: what every operation keeps, which version each of them changes, what is merged has a quorum, while time goes by (the
  headers of objects depend on it); a journal written to its file is loaded, trimmed, read and listed as itself. Of the reductions: the value returned has a quorum
  behind it. Of healing: what is declared dangling is missing on too many drives.
  Of the locks: mutual exclusion at one server, then of the clients of all of them by the overlap of quorums, and at a single node.
  Of the single-trip GET: every field of the frame comes back, a corrupted byte is noticed, the version served has the quorum of a
  canonical GET, every stream opened is closed or owned, those with an unreadable frame too, a body is read like a part file.

  Bounds and termination. No function of the code is cut off by fuel: loops recurse on their slice or have a measure
  (\<open>merge_loop\<close>: the entries left). The loop of \<open>Encode\<close> reads a source that may never end and is a \<open>partial_function\<close>; for a
  finite source it returns. Runs of concurrent parts are lists of steps of any length, and termination is stated of them. Encoded strings and
  blocks are shorter than \<open>2 ^ 32\<close> bytes, as the formats demand.

  Not modelled: disk and network I/O (the drives' operations are parameters), allocation and buffer pools, the memory of
  slices that share an array (but for the index buffers of listed versions), the 32 bits of reference counts, back-off times, metrics and logging, and the parts listed in the manifest with the status
  \<open>not_modelled\<close>.
\<close>

end
